(* ===== verification/Prelude.thy ===== *)
theory Prelude
  imports Main "HOL-Library.Word" "HOL-Library.Monad_Syntax"
begin

text \<open>
  Shared vocabulary of the development.

  \<^item> C values: fixed-width integers as words, C pointers as \<open>cptr\<close> values that tell a null
    pointer and a freed object from a live one, C assertions as \<open>assertion\<close>.
  \<^item> Failure: a definition that models code which may not return has an \<open>option\<close> result;
    \<open>None\<close> stands for every way in which the C function does not come back to its caller (a failed
    \<open>assert\<close>, an access through a null or freed pointer, \<open>panic()\<close>, an endless spin).
  \<^item> Collections: \<open>monad_simps\<close> rewrites sequencing in the option type, \<open>frame_simps\<close> collects
    the facts that say which part of a state an operation leaves alone.
\<close>

named_theorems monad_simps \<open>sequencing of calls that may fail\<close>
named_theorems frame_simps \<open>parts of the state an operation does not touch\<close>

unbundle bit_operations_syntax

subsection \<open>C types\<close>

type_synonym uchar = "8 word"
type_synonym ushort = "16 word"
type_synonym uint = "32 word"
type_synonym uint64 = "64 word"
type_synonym cint = "32 word"

text \<open>
  A C pointer to an object of type \<open>'a\<close> which the model owns: null, dangling after
  \<open>free\<close>, or live. Reading through the first two is undefined behaviour and fails.
\<close>

datatype 'a cptr = NULL | Freed | Ref 'a

fun deref :: "'a cptr \<Rightarrow> 'a option" where
  "deref (Ref a) = Some a"
| "deref NULL = None"
| "deref Freed = None"

lemma deref_eq_Some_iff [simp]: "deref p = Some a \<longleftrightarrow> p = Ref a"
  by (cases p) auto

text \<open>\<open>assert (b)\<close>: aborts the program when \<open>b\<close> is false.\<close>

definition assertion :: "bool \<Rightarrow> unit option" where
  "assertion b = (if b then Some () else None)"

lemma assertion_True [simp]: "assertion True = Some ()"
  by (simp add: assertion_def)

lemma assertion_False [simp]: "assertion False = None"
  by (simp add: assertion_def)

lemma assertion_eq_Some [simp]: "assertion b = Some u \<longleftrightarrow> b"
  by (simp add: assertion_def)

lemma assertion_eq_None [simp]: "assertion b = None \<longleftrightarrow> \<not> b"
  by (simp add: assertion_def)

subsection \<open>Sequencing\<close>

lemma bind_Some_iff [monad_simps]:
  "Option.bind m f = Some b \<longleftrightarrow> (\<exists>a. m = Some a \<and> f a = Some b)"
  by (cases m) auto

lemma bind_None_iff [monad_simps]:
  "Option.bind m f = None \<longleftrightarrow> m = None \<or> (\<exists>a. m = Some a \<and> f a = None)"
  by (cases m) auto

lemma bind_assertion [simp]: "Option.bind (assertion b) f = (if b then f () else None)"
  by (simp add: assertion_def)

lemma bind_option_cong [fundef_cong]:
  "m = m' \<Longrightarrow> (\<And>a. m' = Some a \<Longrightarrow> f a = g a) \<Longrightarrow> Option.bind m f = Option.bind m' g"
  by (cases m') auto

subsection \<open>C strings as lists\<close>

text \<open>A string without its terminating null, which stands after the last character: \<open>s[i]\<close>.\<close>

abbreviation (input) NULc :: char where "NULc \<equiv> CHR 0x00"

definition char_at :: "string \<Rightarrow> nat \<Rightarrow> char" where
  "char_at s i = (if i < length s then s ! i else NULc)"

definition byte_of :: "uchar list \<Rightarrow> nat \<Rightarrow> uchar" where
  "byte_of s i = (if i < length s then s ! i else 0)"

subsection \<open>Lists\<close>

lemma map_upt_shift: "map f [Suc i..<Suc n] = map (\<lambda>k. f (Suc k)) [i..<n]"
  by (induction n) auto

lemma nth_eq_hd_drop: "i < length xs \<Longrightarrow> xs ! i = hd (drop i xs)"
  by (simp add: hd_drop_conv_nth)

lemma drop_eq_nth_Cons: "i < length xs \<Longrightarrow> drop i xs = xs ! i # drop (Suc i) xs"
  by (simp add: Cons_nth_drop_Suc)

lemma takeWhile_eq_self: "list_all P xs \<Longrightarrow> takeWhile P xs = xs"
  by (induction xs) auto

subsection \<open>Loops over a list that may fail\<close>

primrec forM :: "('a \<Rightarrow> 's \<Rightarrow> 's option) \<Rightarrow> 'a list \<Rightarrow> 's \<Rightarrow> 's option" where
  "forM f [] s = Some s"
| "forM f (x # xs) s = Option.bind (f x s) (forM f xs)"

lemma forM_fold:
  assumes "\<And>x s. x \<in> set xs \<Longrightarrow> I s \<Longrightarrow> f x s = Some (g x s) \<and> I (g x s)" and "I s"
  shows "forM f xs s = Some (fold g xs s)"
  using assms by (induction xs arbitrary: s) auto

subsection \<open>Words\<close>

lemma unat_of_nat64: "n < 2 ^ 64 \<Longrightarrow> unat (of_nat n :: uint64) = n"
  by (simp add: unat_of_nat take_bit_nat_eq_self)

lemma unat_inject: "unat a = unat b \<longleftrightarrow> a = b"
  by (metis unsigned_word_eqI)

lemma unat_minus_1_64: "unat (- 1 :: uint64) = 2 ^ 64 - 1"
  by (simp add: unsigned_minus_1_eq_mask mask_eq_exp_minus_1)

end
