(* ===== verification/Strextra.thy ===== *)
theory Strextra
  imports Prelude
begin

text \<open>
  \<open>kickstart/strextra.c\<close>. C strings are character buffers with a terminating NUL; the calls of the
  C string library that the program uses are modelled on buffers, and each of them fails (\<open>None\<close>)
  when it would read or write outside a buffer. \<open>strmerge\<close> is the program's own concatenation.
\<close>

type_synonym cbuf = "char list"

abbreviation (input) NUL :: char where "NUL \<equiv> CHR 0x00"

text \<open>The buffer of a string literal, and the string a buffer holds.\<close>

definition cstr :: "string \<Rightarrow> cbuf" where
  "cstr s = s @ [NUL]"

definition str :: "cbuf \<Rightarrow> string" where
  "str b = takeWhile (\<lambda>c. c \<noteq> NUL) b"

text \<open>A proper C string: the terminator is inside the buffer.\<close>

definition is_cstr :: "cbuf \<Rightarrow> bool" where
  "is_cstr b \<longleftrightarrow> NUL \<in> set b"

subsection \<open>The string library, on buffers\<close>

definition c_strlen :: "cbuf \<Rightarrow> nat option" where
  "c_strlen b = (if is_cstr b then Some (length (str b)) else None)"

definition c_calloc :: "nat \<Rightarrow> cbuf" where
  "c_calloc n = replicate n NUL"

definition c_strncpy :: "cbuf \<Rightarrow> cbuf \<Rightarrow> nat \<Rightarrow> cbuf option" where
  "c_strncpy dst src n =
     (let cs = take n (str src) in
      if n \<le> length dst \<and> (is_cstr src \<or> n \<le> length src)
      then Some (cs @ replicate (n - length cs) NUL @ drop n dst) else None)"

definition c_strncat :: "cbuf \<Rightarrow> cbuf \<Rightarrow> nat \<Rightarrow> cbuf option" where
  "c_strncat dst src n = do {
     l \<leftarrow> c_strlen dst;
     let cs = take n (str src);
     if l + length cs < length dst \<and> (is_cstr src \<or> n \<le> length src)
     then Some (take l dst @ cs @ [NUL] @ drop (l + length cs + 1) dst) else None }"

definition c_strdup :: "cbuf \<Rightarrow> cbuf option" where
  "c_strdup b = (if is_cstr b then Some (cstr (str b)) else None)"

text \<open>\<open>strcmp (a, b) == 0\<close>\<close>

definition c_streq :: "cbuf \<Rightarrow> cbuf \<Rightarrow> bool option" where
  "c_streq a b = (if is_cstr a \<and> is_cstr b then Some (str a = str b) else None)"

subsection \<open>strmerge\<close>

definition strmerge :: "cbuf cptr \<Rightarrow> cbuf cptr \<Rightarrow> cbuf option" where
  "strmerge p1 p2 = do {
     s1 \<leftarrow> deref p1;
     len_s1 \<leftarrow> c_strlen s1;
     s2 \<leftarrow> deref p2;
     len_s2 \<leftarrow> c_strlen s2;
     assertion (p1 \<noteq> NULL \<and> p2 \<noteq> NULL);
     let merge = c_calloc (len_s1 + len_s2 + 1);
     merge \<leftarrow> c_strncpy merge s1 len_s1;
     merge \<leftarrow> c_strncat merge s2 len_s2;
     len_m \<leftarrow> c_strlen merge;
     assertion (len_m = len_s1 + len_s2);
     Some merge }"

subsection \<open>Lemmas\<close>

lemma NUL_notin_str [simp]: "NUL \<notin> set (str b)"
  by (auto simp: str_def dest: set_takeWhileD)

lemma str_no_NUL: "NUL \<notin> set s \<Longrightarrow> str (s @ NUL # r) = s"
  by (induction s) (auto simp: str_def)

lemma str_cstr [simp]: "NUL \<notin> set s \<Longrightarrow> str (cstr s) = s"
  by (simp add: cstr_def str_no_NUL)

lemma is_cstr_cstr [simp]: "is_cstr (cstr s)"
  by (simp add: is_cstr_def cstr_def)

lemma is_cstr_app_NUL [simp]: "is_cstr (s @ NUL # r)"
  by (simp add: is_cstr_def)

lemma str_replicate_NUL [simp]: "str (s @ replicate (Suc k) NUL) = str s"
  by (induction s) (auto simp: str_def)

lemma c_strlen_cstr [simp]: "NUL \<notin> set s \<Longrightarrow> c_strlen (cstr s) = Some (length s)"
  by (simp add: c_strlen_def)

lemma c_strlen_Some [simp]: "is_cstr b \<Longrightarrow> c_strlen b = Some (length (str b))"
  by (simp add: c_strlen_def)

lemma c_strncpy_calloc:
  assumes "is_cstr s" and "n = length (str s)" and "n \<le> m"
  shows "c_strncpy (c_calloc m) s n = Some (str s @ replicate (m - n) NUL)"
  using assms by (simp add: c_strncpy_def c_calloc_def Let_def)

lemma c_strncat_exact:
  assumes "NUL \<notin> set a" and "is_cstr s" and "n = length (str s)"
  shows "c_strncat (a @ replicate (Suc n) NUL) s n = Some (a @ cstr (str s))"
proof -
  have "c_strlen (a @ replicate (Suc n) NUL) = Some (length a)"
    using assms(1) by (simp add: c_strlen_def is_cstr_def str_no_NUL)
  then show ?thesis
    using assms(2,3) by (simp add: c_strncat_def cstr_def Let_def)
qed

lemma strmerge_Ref:
  assumes "is_cstr a" and "is_cstr b"
  shows "strmerge (Ref a) (Ref b) = Some (cstr (str a @ str b))"
proof -
  let ?n = "length (str a)" and ?m = "length (str b)"
  have cpy: "c_strncpy (c_calloc (?n + ?m + 1)) a ?n = Some (str a @ replicate (Suc ?m) NUL)"
    using assms(1) by (subst c_strncpy_calloc) (auto simp: Suc_diff_le)
  have cat: "c_strncat (str a @ replicate (Suc ?m) NUL) b ?m = Some (cstr (str a @ str b))"
    using c_strncat_exact [of "str a" b ?m] assms(2) by (simp add: cstr_def)
  have len: "c_strlen (cstr (str a @ str b)) = Some (?n + ?m)"
    by simp
  show ?thesis
    unfolding strmerge_def
    by (simp only: assms c_strlen_Some deref.simps Option.bind.simps Let_def bind_assertion
        cptr.distinct simp_thms if_True cpy cat len)
qed

lemma strmerge_NULL [simp]: "strmerge NULL p = None" "is_cstr a \<Longrightarrow> strmerge (Ref a) NULL = None"
  by (simp_all add: strmerge_def)

end
