(* ===== verification/Command.thy ===== *)
theory Command
  imports Strextra
begin

text \<open>
  \<open>kickstart/command.c\<close>: the two abstract data types of the shell, \<open>scommand\<close> (a simple command: a
  queue of strings and two optional redirections) and \<open>pipeline\<close> (a queue of simple commands and a
  wait flag).

  The queues are GLib's \<open>GQueue\<close>, which is not part of the repository: its operations are a
  parameter (\<open>gqueue_ops\<close>), and what the code relies on, the documented behaviour of GLib's double
  ended queue over a list of items, is the locale \<open>gqueue\<close>. The abstract specification of both types
  (sequences of strings and of commands, as \<open>command.h\<close> presents them) follows the operations, with
  the refinement lemmas proved once inside the locale.
\<close>

subsection \<open>GQueue, the external queue\<close>

record ('a, 'q) gqueue_ops =
  g_queue_new :: 'q
  g_queue_push_tail :: "'q \<Rightarrow> 'a \<Rightarrow> 'q"
  g_queue_pop_head :: "'q \<Rightarrow> 'a option \<times> 'q"
  g_queue_pop_tail :: "'q \<Rightarrow> 'a option \<times> 'q"
  g_queue_peek_head :: "'q \<Rightarrow> 'a option"
  g_queue_peek_nth :: "'q \<Rightarrow> nat \<Rightarrow> 'a option"
  g_queue_get_length :: "'q \<Rightarrow> nat"
  g_queue_is_empty :: "'q \<Rightarrow> bool"
  g_queue_copy :: "'q \<Rightarrow> 'q"

locale gqueue =
  fixes Q :: "('a, 'q) gqueue_ops"
    and items :: "'q \<Rightarrow> 'a list"
  assumes items_new [simp]: "items (g_queue_new Q) = []"
    and items_push_tail [simp]: "items (g_queue_push_tail Q q a) = items q @ [a]"
    and pop_head_fst [simp]:
      "fst (g_queue_pop_head Q q) = (case items q of [] \<Rightarrow> None | x # _ \<Rightarrow> Some x)"
    and pop_head_snd [simp]: "items (snd (g_queue_pop_head Q q)) = tl (items q)"
    and pop_tail_fst [simp]:
      "fst (g_queue_pop_tail Q q) = (if items q = [] then None else Some (last (items q)))"
    and pop_tail_snd [simp]: "items (snd (g_queue_pop_tail Q q)) = butlast (items q)"
    and peek_head [simp]:
      "g_queue_peek_head Q q = (case items q of [] \<Rightarrow> None | x # _ \<Rightarrow> Some x)"
    and peek_nth [simp]:
      "g_queue_peek_nth Q q n = (if n < length (items q) then Some (items q ! n) else None)"
    and get_length [simp]: "g_queue_get_length Q q = length (items q)"
    and is_empty [simp]: "g_queue_is_empty Q q \<longleftrightarrow> items q = []"
    and items_copy [simp]: "items (g_queue_copy Q q) = items q"
begin

lemma pop_head_Cons:
  "items q = x # xs \<Longrightarrow> \<exists>q'. g_queue_pop_head Q q = (Some x, q') \<and> items q' = xs"
  by (metis list.case(2) list.sel(3) pop_head_fst pop_head_snd prod.collapse)

lemma pop_tail_snoc:
  "items q = xs @ [x] \<Longrightarrow> \<exists>q'. g_queue_pop_tail Q q = (Some x, q') \<and> items q' = xs"
  by (metis append_is_Nil_conv butlast_snoc last_snoc list.distinct(1) pop_tail_fst pop_tail_snd
      prod.collapse)

end

subsection \<open>scommand\<close>

record 'q scommand_s =
  cmd :: "'q option"
  redir_out :: "cbuf cptr"
  redir_in :: "cbuf cptr"

type_synonym 'q scommand = "'q scommand_s cptr"

definition scommand_inv :: "'q scommand \<Rightarrow> bool" where
  "scommand_inv self \<longleftrightarrow> self \<noteq> NULL"

definition scommand_is_empty :: "(cbuf, 'q) gqueue_ops \<Rightarrow> 'q scommand \<Rightarrow> bool option" where
  "scommand_is_empty Q self = do {
     assertion (scommand_inv self);
     s \<leftarrow> deref self;
     case cmd s of
       None \<Rightarrow> Some True
     | Some q \<Rightarrow> Some (g_queue_get_length Q q = 0) }"

definition scommand_get_redir_in :: "'q scommand \<Rightarrow> cbuf cptr option" where
  "scommand_get_redir_in self = do {
     assertion (scommand_inv self);
     s \<leftarrow> deref self;
     Some (redir_in s) }"

definition scommand_get_redir_out :: "'q scommand \<Rightarrow> cbuf cptr option" where
  "scommand_get_redir_out self = do {
     assertion (scommand_inv self);
     s \<leftarrow> deref self;
     Some (redir_out s) }"

text \<open>\<open>ok\<close> says whether \<open>malloc\<close> finds memory; without it the program exits.\<close>

definition scommand_new :: "(cbuf, 'q) gqueue_ops \<Rightarrow> bool \<Rightarrow> 'q scommand option" where
  "scommand_new Q ok = (if \<not> ok then None else do {
     let scmd_new = Ref \<lparr>cmd = Some (g_queue_new Q), redir_out = NULL, redir_in = NULL\<rparr>;
     empty \<leftarrow> scommand_is_empty Q scmd_new;
     rin \<leftarrow> scommand_get_redir_in scmd_new;
     rout \<leftarrow> scommand_get_redir_out scmd_new;
     assertion (scmd_new \<noteq> NULL \<and> empty \<and> rin = NULL \<and> rout = NULL);
     Some scmd_new })"

text \<open>
  \<open>scommand_destroy\<close> frees the queue, its strings, the redirections and the structure, and returns
  the pointer it was given, which is then dangling.
\<close>

definition scommand_destroy :: "'q scommand \<Rightarrow> 'q scommand option" where
  "scommand_destroy self = do {
     assertion (scommand_inv self);
     s \<leftarrow> deref self;
     Some Freed }"

definition scommand_push_back ::
  "(cbuf, 'q) gqueue_ops \<Rightarrow> 'q scommand \<Rightarrow> cbuf cptr \<Rightarrow> 'q scommand option" where
  "scommand_push_back Q self argument = do {
     assertion (scommand_inv self \<and> argument \<noteq> NULL);
     s \<leftarrow> deref self;
     let q = (case cmd s of None \<Rightarrow> g_queue_new Q | Some q \<Rightarrow> q);
     a \<leftarrow> deref argument;
     let self' = Ref (s\<lparr>cmd := Some (g_queue_push_tail Q q a)\<rparr>);
     empty \<leftarrow> scommand_is_empty Q self';
     assertion (\<not> empty);
     Some self' }"

definition scommand_pop_front :: "(cbuf, 'q) gqueue_ops \<Rightarrow> 'q scommand \<Rightarrow> 'q scommand option" where
  "scommand_pop_front Q self = do {
     empty \<leftarrow> scommand_is_empty Q self;
     assertion (scommand_inv self \<and> \<not> empty);
     s \<leftarrow> deref self;
     q \<leftarrow> cmd s;
     Some (Ref (s\<lparr>cmd := Some (snd (g_queue_pop_head Q q))\<rparr>)) }"

definition scommand_set_redir_in :: "'q scommand \<Rightarrow> cbuf cptr \<Rightarrow> 'q scommand option" where
  "scommand_set_redir_in self filename = do {
     assertion (scommand_inv self);
     s \<leftarrow> deref self;
     Some (Ref (s\<lparr>redir_in := filename\<rparr>)) }"

definition scommand_set_redir_out :: "'q scommand \<Rightarrow> cbuf cptr \<Rightarrow> 'q scommand option" where
  "scommand_set_redir_out self filename = do {
     assertion (scommand_inv self);
     s \<leftarrow> deref self;
     Some (Ref (s\<lparr>redir_out := filename\<rparr>)) }"

definition scommand_length :: "(cbuf, 'q) gqueue_ops \<Rightarrow> 'q scommand \<Rightarrow> nat option" where
  "scommand_length Q self = do {
     assertion (scommand_inv self);
     s \<leftarrow> deref self;
     q \<leftarrow> cmd s;
     Some (g_queue_get_length Q q) }"

text \<open>GLib's answer as a pointer: a null pointer for an empty queue.\<close>

definition item_ptr :: "'a option \<Rightarrow> 'a cptr" where
  "item_ptr x = (case x of None \<Rightarrow> NULL | Some a \<Rightarrow> Ref a)"

lemma item_ptr_simps [simp]: "item_ptr None = NULL" "item_ptr (Some a) = Ref a"
  by (simp_all add: item_ptr_def)

definition scommand_front :: "(cbuf, 'q) gqueue_ops \<Rightarrow> 'q scommand \<Rightarrow> cbuf cptr option" where
  "scommand_front Q self = do {
     empty \<leftarrow> scommand_is_empty Q self;
     assertion (scommand_inv self \<and> \<not> empty);
     s \<leftarrow> deref self;
     q \<leftarrow> cmd s;
     Some (item_ptr (g_queue_peek_head Q q)) }"

text \<open>
  The printing loop of \<open>scommand_to_string\<close>: it pops the copied queue until it is empty. Whether it
  stops depends on the queue, so it is a partial function; the locale below shows that it stops.
\<close>

partial_function (option) to_string_loop ::
  "(cbuf, 'q) gqueue_ops \<Rightarrow> 'q \<Rightarrow> cbuf cptr \<Rightarrow> cbuf cptr option" where
  "to_string_loop Q q acc =
     (if g_queue_is_empty Q q then Some acc
      else Option.bind (fst (g_queue_pop_head Q q)) (\<lambda>copy_head.
        Option.bind
          (if acc = NULL then c_strdup copy_head
           else Option.bind (strmerge acc (Ref (cstr '' ''))) (\<lambda>space.
                  strmerge (Ref space) (Ref copy_head)))
          (\<lambda>t. to_string_loop Q (snd (g_queue_pop_head Q q)) (Ref t))))"

lemmas to_string_loop_code [code] = to_string_loop.simps

definition add_redir :: "cbuf cptr \<Rightarrow> string \<Rightarrow> cbuf cptr \<Rightarrow> cbuf cptr option" where
  "add_redir acc arrow redir =
     (if redir \<noteq> NULL then do {
        space \<leftarrow> strmerge acc (Ref (cstr arrow));
        t \<leftarrow> strmerge (Ref space) redir;
        Some (Ref t) }
      else Some acc)"

definition cut_last_space :: "cbuf \<Rightarrow> cbuf option" where
  "cut_last_space b = do {
     l \<leftarrow> c_strlen b;
     if l > 0 \<and> b ! (l - 1) = CHR '' '' then Some (b[l - 1 := NUL]) else Some b }"

definition scommand_to_string :: "(cbuf, 'q) gqueue_ops \<Rightarrow> 'q scommand \<Rightarrow> cbuf option" where
  "scommand_to_string Q self = do {
     assertion (scommand_inv self);
     s \<leftarrow> deref self;
     q \<leftarrow> cmd s;
     acc \<leftarrow> to_string_loop Q (g_queue_copy Q q) NULL;
     acc \<leftarrow> add_redir acc ''  >  '' (redir_out s);
     acc \<leftarrow> add_redir acc ''  <  '' (redir_in s);
     if acc = NULL then c_strdup (cstr '''') else do {
       b \<leftarrow> deref acc;
       cut_last_space b } }"

subsection \<open>pipeline\<close>

record ('q, 'p) pipeline_s =
  pipe :: "'p option"
  wait :: bool

type_synonym ('q, 'p) pipeline = "('q, 'p) pipeline_s cptr"

text \<open>The items of a pipeline's queue are the simple commands themselves.\<close>

type_synonym ('q, 'p) pipeline_ops = "('q scommand_s, 'p) gqueue_ops"

definition pipeline_inv :: "('q, 'p) pipeline \<Rightarrow> bool" where
  "pipeline_inv self \<longleftrightarrow> self \<noteq> NULL"

definition pipeline_is_empty :: "('q, 'p) pipeline_ops \<Rightarrow> ('q, 'p) pipeline \<Rightarrow> bool option" where
  "pipeline_is_empty P self = do {
     assertion (pipeline_inv self);
     s \<leftarrow> deref self;
     q \<leftarrow> pipe s;
     Some (g_queue_is_empty P q) }"

definition pipeline_length :: "('q, 'p) pipeline_ops \<Rightarrow> ('q, 'p) pipeline \<Rightarrow> nat option" where
  "pipeline_length P self = do {
     assertion (pipeline_inv self);
     s \<leftarrow> deref self;
     q \<leftarrow> pipe s;
     Some (g_queue_get_length P q) }"

definition pipeline_get_wait :: "('q, 'p) pipeline \<Rightarrow> bool option" where
  "pipeline_get_wait self = do {
     assertion (pipeline_inv self);
     s \<leftarrow> deref self;
     Some (wait s) }"

definition pipeline_new :: "('q, 'p) pipeline_ops \<Rightarrow> bool \<Rightarrow> ('q, 'p) pipeline option" where
  "pipeline_new P ok = (if \<not> ok then None else do {
     let pn = Ref \<lparr>pipe = Some (g_queue_new P), wait = True\<rparr>;
     empty \<leftarrow> pipeline_is_empty P pn;
     w \<leftarrow> pipeline_get_wait pn;
     assertion (pipeline_inv pn \<and> empty \<and> w);
     Some pn })"

primrec pipeline_destroy_loop :: "('q, 'p) pipeline_ops \<Rightarrow> nat \<Rightarrow> 'p \<Rightarrow> 'p option" where
  "pipeline_destroy_loop P 0 q = Some q"
| "pipeline_destroy_loop P (Suc n) q = do {
     sc \<leftarrow> fst (g_queue_pop_tail P q);
     _ \<leftarrow> scommand_destroy (Ref sc);
     pipeline_destroy_loop P n (snd (g_queue_pop_tail P q)) }"

definition pipeline_destroy :: "('q, 'p) pipeline_ops \<Rightarrow> ('q, 'p) pipeline \<Rightarrow> ('q, 'p) pipeline option"
where
  "pipeline_destroy P self = do {
     assertion (pipeline_inv self);
     s \<leftarrow> deref self;
     _ \<leftarrow> (case pipe s of
            None \<Rightarrow> Some ()
          | Some q \<Rightarrow> do {
              _ \<leftarrow> pipeline_destroy_loop P (g_queue_get_length P q) q;
              Some () });
     Some NULL }"

definition pipeline_push_back ::
  "('q, 'p) pipeline_ops \<Rightarrow> ('q, 'p) pipeline \<Rightarrow> 'q scommand \<Rightarrow> ('q, 'p) pipeline option" where
  "pipeline_push_back P self sc = do {
     assertion (pipeline_inv self \<and> sc \<noteq> NULL);
     s \<leftarrow> deref self;
     c \<leftarrow> deref sc;
     let q = (case pipe s of
                None \<Rightarrow> g_queue_push_tail P (g_queue_new P) c
              | Some q \<Rightarrow> g_queue_push_tail P q c);
     let self' = Ref (s\<lparr>pipe := Some q\<rparr>);
     empty \<leftarrow> pipeline_is_empty P self';
     assertion (\<not> empty);
     Some self' }"

definition pipeline_pop_front ::
  "('q, 'p) pipeline_ops \<Rightarrow> ('q, 'p) pipeline \<Rightarrow> ('q, 'p) pipeline option" where
  "pipeline_pop_front P self = do {
     empty \<leftarrow> pipeline_is_empty P self;
     assertion (pipeline_inv self \<and> \<not> empty);
     s \<leftarrow> deref self;
     q \<leftarrow> pipe s;
     killed_cmd \<leftarrow> fst (g_queue_pop_head P q);
     _ \<leftarrow> scommand_destroy (Ref killed_cmd);
     Some (Ref (s\<lparr>pipe := Some (snd (g_queue_pop_head P q))\<rparr>)) }"

definition pipeline_set_wait :: "('q, 'p) pipeline \<Rightarrow> bool \<Rightarrow> ('q, 'p) pipeline option" where
  "pipeline_set_wait self w = do {
     assertion (pipeline_inv self);
     s \<leftarrow> deref self;
     Some (Ref (s\<lparr>wait := w\<rparr>)) }"

definition pipeline_front :: "('q, 'p) pipeline_ops \<Rightarrow> ('q, 'p) pipeline \<Rightarrow> 'q scommand option" where
  "pipeline_front P self = do {
     empty \<leftarrow> pipeline_is_empty P self;
     assertion (pipeline_inv self \<and> \<not> empty);
     s \<leftarrow> deref self;
     q \<leftarrow> pipe s;
     Some (item_ptr (g_queue_peek_head P q)) }"

text \<open>The loop of \<open>pipeline_to_string\<close> from index \<open>i\<close>, with \<open>n\<close> commands left.\<close>

primrec pipeline_to_string_loop ::
  "(cbuf, 'q) gqueue_ops \<Rightarrow> ('q, 'p) pipeline_ops \<Rightarrow> 'p \<Rightarrow> nat \<Rightarrow> nat \<Rightarrow> cbuf \<Rightarrow> cbuf option" where
  "pipeline_to_string_loop Q P q 0 i result = Some result"
| "pipeline_to_string_loop Q P q (Suc n) i result = do {
     sc \<leftarrow> g_queue_peek_nth P q i;
     scommand_string \<leftarrow> scommand_to_string Q (Ref sc);
     temp \<leftarrow> strmerge (Ref result) (Ref scommand_string);
     temp \<leftarrow> (if n > 0 then strmerge (Ref temp) (Ref (cstr '' | '')) else Some temp);
     pipeline_to_string_loop Q P q n (Suc i) temp }"

definition pipeline_to_string ::
  "(cbuf, 'q) gqueue_ops \<Rightarrow> ('q, 'p) pipeline_ops \<Rightarrow> ('q, 'p) pipeline \<Rightarrow> cbuf option" where
  "pipeline_to_string Q P self = do {
     assertion (pipeline_inv self);
     result \<leftarrow> c_strdup (cstr '''');
     n \<leftarrow> pipeline_length P self;
     s \<leftarrow> deref self;
     q \<leftarrow> pipe s;
     result \<leftarrow> pipeline_to_string_loop Q P q n 0 result;
     result \<leftarrow> (if \<not> wait s then strmerge (Ref result) (Ref (cstr '' &'')) else Some result);
     empty \<leftarrow> pipeline_is_empty P self;
     w \<leftarrow> pipeline_get_wait self;
     l \<leftarrow> c_strlen result;
     assertion (empty \<or> w \<or> l > 0);
     Some result }"

subsection \<open>Specification: sequences of strings and of commands\<close>

record ascommand =
  a_args :: "string list"
  a_out :: "string option"
  a_in :: "string option"

fun abs_ptr :: "cbuf cptr \<Rightarrow> string option" where
  "abs_ptr (Ref b) = Some (str b)"
| "abs_ptr NULL = None"
| "abs_ptr Freed = None"

fun wf_ptr :: "cbuf cptr \<Rightarrow> bool" where
  "wf_ptr (Ref b) = is_cstr b"
| "wf_ptr NULL = True"
| "wf_ptr Freed = False"

definition scmd_items :: "('q \<Rightarrow> cbuf list) \<Rightarrow> 'q scommand_s \<Rightarrow> cbuf list" where
  "scmd_items items s = (case cmd s of None \<Rightarrow> [] | Some q \<Rightarrow> items q)"

definition abs_scommand :: "('q \<Rightarrow> cbuf list) \<Rightarrow> 'q scommand_s \<Rightarrow> ascommand" where
  "abs_scommand items s =
     \<lparr>a_args = map str (scmd_items items s), a_out = abs_ptr (redir_out s), a_in = abs_ptr (redir_in s)\<rparr>"

definition wf_scommand :: "('q \<Rightarrow> cbuf list) \<Rightarrow> 'q scommand_s \<Rightarrow> bool" where
  "wf_scommand items s \<longleftrightarrow> cmd s \<noteq> None \<and> list_all is_cstr (scmd_items items s)
     \<and> wf_ptr (redir_out s) \<and> wf_ptr (redir_in s)"

record apipeline =
  a_cmds :: "ascommand list"
  a_wait :: bool

definition pipe_items :: "('p \<Rightarrow> 'q scommand_s list) \<Rightarrow> ('q, 'p) pipeline_s \<Rightarrow> 'q scommand_s list" where
  "pipe_items pitems s = (case pipe s of None \<Rightarrow> [] | Some q \<Rightarrow> pitems q)"

definition abs_pipeline ::
  "('q \<Rightarrow> cbuf list) \<Rightarrow> ('p \<Rightarrow> 'q scommand_s list) \<Rightarrow> ('q, 'p) pipeline_s \<Rightarrow> apipeline" where
  "abs_pipeline items pitems s =
     \<lparr>a_cmds = map (abs_scommand items) (pipe_items pitems s), a_wait = wait s\<rparr>"

definition wf_pipeline ::
  "('q \<Rightarrow> cbuf list) \<Rightarrow> ('p \<Rightarrow> 'q scommand_s list) \<Rightarrow> ('q, 'p) pipeline_s \<Rightarrow> bool" where
  "wf_pipeline items pitems s \<longleftrightarrow> pipe s \<noteq> None \<and> list_all (wf_scommand items) (pipe_items pitems s)"

text \<open>The text of a simple command and of a pipeline, as the shell's user would type them.\<close>

fun join :: "string \<Rightarrow> string list \<Rightarrow> string" where
  "join sep [] = []"
| "join sep [x] = x"
| "join sep (x # y # ys) = x @ sep @ join sep (y # ys)"

definition redir_text :: "string \<Rightarrow> string option \<Rightarrow> string" where
  "redir_text arrow f = (case f of None \<Rightarrow> [] | Some n \<Rightarrow> arrow @ n)"

definition trim_last :: "string \<Rightarrow> string" where
  "trim_last t = (if t \<noteq> [] \<and> last t = CHR '' '' then butlast t else t)"

definition scommand_text :: "ascommand \<Rightarrow> string" where
  "scommand_text a = trim_last
     (join '' '' (a_args a) @ redir_text ''  >  '' (a_out a) @ redir_text ''  <  '' (a_in a))"

definition pipeline_text :: "apipeline \<Rightarrow> string" where
  "pipeline_text a = join '' | '' (map scommand_text (a_cmds a)) @ (if a_wait a then [] else '' &'')"

text \<open>A command that can be printed: it has a name, or no redirection at all.\<close>

definition printable :: "ascommand \<Rightarrow> bool" where
  "printable a \<longleftrightarrow> a_args a \<noteq> [] \<or> (a_out a = None \<and> a_in a = None)"

lemmas scommand_ops_defs =
  scommand_inv_def scommand_is_empty_def scommand_new_def scommand_destroy_def
  scommand_push_back_def scommand_pop_front_def scommand_set_redir_in_def scommand_set_redir_out_def
  scommand_length_def scommand_front_def scommand_get_redir_in_def scommand_get_redir_out_def

lemmas pipeline_ops_defs =
  pipeline_inv_def pipeline_is_empty_def pipeline_new_def pipeline_destroy_def
  pipeline_push_back_def pipeline_pop_front_def pipeline_set_wait_def pipeline_length_def
  pipeline_front_def pipeline_get_wait_def

lemmas abs_scommand_defs = abs_scommand_def wf_scommand_def scmd_items_def
lemmas abs_pipeline_defs = abs_pipeline_def wf_pipeline_def pipe_items_def

lemma abs_ptr_None_iff: "wf_ptr p \<Longrightarrow> abs_ptr p = None \<longleftrightarrow> p = NULL"
  by (cases p) auto

lemma wf_ptr_cases: "wf_ptr p \<Longrightarrow> p = NULL \<or> (\<exists>b. p = Ref b \<and> is_cstr b)"
  by (cases p) auto

lemma join_Cons: "xs \<noteq> [] \<Longrightarrow> join sep (x # xs) = x @ sep @ join sep xs"
  by (cases xs) auto

lemma join_snoc: "xs \<noteq> [] \<Longrightarrow> join sep (xs @ [x]) = join sep xs @ sep @ x"
  by (induction sep xs rule: join.induct) auto

lemma NUL_notin_join: "list_all (\<lambda>x. NUL \<notin> set x) xs \<Longrightarrow> NUL \<notin> set sep \<Longrightarrow> NUL \<notin> set (join sep xs)"
  by (induction sep xs rule: join.induct) auto

lemma join_map_str_no_NUL [simp]: "NUL \<notin> set sep \<Longrightarrow> NUL \<notin> set (join sep (map str bs))"
  by (rule NUL_notin_join) (simp_all add: list_all_iff)

lemma redir_text_no_NUL [simp]: "NUL \<notin> set arrow \<Longrightarrow> NUL \<notin> set (redir_text arrow (abs_ptr p))"
  by (cases p) (auto simp: redir_text_def)

lemma trim_last_no_NUL [simp]: "NUL \<notin> set t \<Longrightarrow> NUL \<notin> set (trim_last t)"
  by (auto simp: trim_last_def dest: in_set_butlastD)

lemma is_cstr_split: "is_cstr b \<Longrightarrow> \<exists>r. b = str b @ NUL # r"
  by (induction b) (auto simp: is_cstr_def str_def)

lemma cut_last_space_spec:
  assumes "is_cstr b"
  shows "\<exists>b'. cut_last_space b = Some b' \<and> is_cstr b' \<and> str b' = trim_last (str b)"
proof -
  from assms obtain t r where b: "b = t @ NUL # r" and t: "NUL \<notin> set t" "str b = t"
    using is_cstr_split NUL_notin_str by metis
  show ?thesis
  proof (cases "t \<noteq> [] \<and> last t = CHR '' ''")
    case True
    then obtain u where u: "t = u @ '' ''"
      by (metis append_butlast_last_id)
    have "cut_last_space b = Some (u @ NUL # NUL # r)"
      using t by (simp add: cut_last_space_def assms u)
        (simp add: b u nth_append list_update_append)
    then show ?thesis
      using t by (auto simp: u trim_last_def str_no_NUL)
  next
    case False
    have "\<not> (length t > 0 \<and> b ! (length t - 1) = CHR '' '')"
      using False by (auto simp: b nth_append last_conv_nth)
    with assms have "cut_last_space b = Some b"
      using t by (auto simp: cut_last_space_def)
    with assms t False show ?thesis
      by (auto simp: trim_last_def)
  qed
qed

lemma add_redir_spec:
  assumes "is_cstr b" and "wf_ptr p" and "NUL \<notin> set arrow"
  shows "\<exists>b'. add_redir (Ref b) arrow p = Some (Ref b') \<and> is_cstr b'
    \<and> str b' = str b @ redir_text arrow (abs_ptr p)"
proof (cases p)
  case (Ref f)
  with assms have "strmerge (Ref b) (Ref (cstr arrow)) = Some (cstr (str b @ arrow))"
      "strmerge (Ref (cstr (str b @ arrow))) (Ref f) = Some (cstr ((str b @ arrow) @ str f))"
    by (simp_all add: strmerge_Ref)
  with Ref assms show ?thesis
    by (simp add: add_redir_def redir_text_def)
qed (use assms in \<open>auto simp: add_redir_def redir_text_def\<close>)

subsection \<open>Refinement of scommand\<close>

locale scommand_queue = gqueue Q items
  for Q :: "(cbuf, 'q) gqueue_ops" and items :: "'q \<Rightarrow> cbuf list"
begin

abbreviation abs :: "'q scommand_s \<Rightarrow> ascommand" where "abs \<equiv> abs_scommand items"
abbreviation wf :: "'q scommand_s \<Rightarrow> bool" where "wf \<equiv> wf_scommand items"

lemma new_refines:
  "\<exists>s. scommand_new Q True = Some (Ref s) \<and> wf s \<and> abs s = \<lparr>a_args = [], a_out = None, a_in = None\<rparr>"
  by (simp add: scommand_ops_defs abs_scommand_defs Let_def)

lemma is_empty_refines: "wf s \<Longrightarrow> scommand_is_empty Q (Ref s) = Some (a_args (abs s) = [])"
  by (auto simp: scommand_ops_defs abs_scommand_defs)

lemma length_refines: "wf s \<Longrightarrow> scommand_length Q (Ref s) = Some (length (a_args (abs s)))"
  by (auto simp: scommand_ops_defs abs_scommand_defs)

lemma push_back_refines:
  "wf s \<Longrightarrow> is_cstr a \<Longrightarrow> \<exists>s'. scommand_push_back Q (Ref s) (Ref a) = Some (Ref s') \<and> wf s'
     \<and> abs s' = (abs s)\<lparr>a_args := a_args (abs s) @ [str a]\<rparr>"
  by (auto simp: scommand_ops_defs abs_scommand_defs Let_def)

lemma pop_front_refines:
  assumes "wf s" and "a_args (abs s) \<noteq> []"
  shows "\<exists>s'. scommand_pop_front Q (Ref s) = Some (Ref s') \<and> wf s'
     \<and> abs s' = (abs s)\<lparr>a_args := tl (a_args (abs s))\<rparr>"
proof -
  from assms obtain q b bs where q: "cmd s = Some q" "items q = b # bs"
    by (auto simp: abs_scommand_defs neq_Nil_conv)
  then show ?thesis
    using assms(1) by (auto simp: scommand_ops_defs abs_scommand_defs)
qed

lemma front_refines:
  assumes "wf s" and "a_args (abs s) = x # xs"
  shows "\<exists>b. scommand_front Q (Ref s) = Some (Ref b) \<and> is_cstr b \<and> str b = x"
  using assms by (auto simp: scommand_ops_defs abs_scommand_defs)

lemma empty_front_fails:
  "wf s \<Longrightarrow> a_args (abs s) = [] \<Longrightarrow> scommand_front Q (Ref s) = None \<and> scommand_pop_front Q (Ref s) = None"
  by (auto simp: scommand_ops_defs abs_scommand_defs)

lemma set_redir_refines:
  assumes "wf s" and "wf_ptr f"
  shows "\<exists>s'. scommand_set_redir_in (Ref s) f = Some (Ref s') \<and> wf s' \<and> abs s' = (abs s)\<lparr>a_in := abs_ptr f\<rparr>"
    and "\<exists>s'. scommand_set_redir_out (Ref s) f = Some (Ref s') \<and> wf s' \<and> abs s' = (abs s)\<lparr>a_out := abs_ptr f\<rparr>"
  using assms by (auto simp: scommand_ops_defs abs_scommand_defs)

lemma to_string_loop_acc:
  assumes "list_all is_cstr (items q)" and "is_cstr b" and "str b = join '' '' (map str bs)" and "bs \<noteq> []"
  shows "\<exists>b'. to_string_loop Q q (Ref b) = Some (Ref b') \<and> is_cstr b'
    \<and> str b' = join '' '' (map str (bs @ items q))"
  using assms
proof (induction "items q" arbitrary: q b bs)
  case Nil
  then show ?case by (simp add: to_string_loop.simps [of Q q])
next
  case (Cons x xs)
  let ?q = "snd (g_queue_pop_head Q q)"
  let ?b = "cstr (str b @ '' '' @ str x)"
  have q: "items q = x # xs" "items ?q = xs" "is_cstr x"
    using Cons.hyps(2) [symmetric] Cons.prems(1) by simp_all
  have b: "str ?b = join '' '' (map str (bs @ [x]))"
    using Cons.prems(3,4) join_snoc [of "map str bs"] by simp
  have step: "to_string_loop Q q (Ref b) = to_string_loop Q ?q (Ref ?b)"
    using q Cons.prems(2) by (simp add: to_string_loop.simps [of Q q] strmerge_Ref)
  have "\<exists>b'. to_string_loop Q ?q (Ref ?b) = Some (Ref b') \<and> is_cstr b'
      \<and> str b' = join '' '' (map str ((bs @ [x]) @ items ?q))"
    using Cons.hyps(1) [of ?q ?b "bs @ [x]"] q b Cons.prems(1) by simp
  then show ?case by (simp add: step q)
qed

lemma to_string_loop_spec:
  assumes "list_all is_cstr (items q)"
  shows "if items q = [] then to_string_loop Q q NULL = Some NULL
    else \<exists>b. to_string_loop Q q NULL = Some (Ref b) \<and> is_cstr b \<and> str b = join '' '' (map str (items q))"
proof (cases "items q")
  case Nil
  then show ?thesis by (simp add: to_string_loop.simps [of Q q])
next
  case (Cons x xs)
  let ?q = "snd (g_queue_pop_head Q q)"
  have "to_string_loop Q q NULL = to_string_loop Q ?q (Ref (cstr (str x)))"
    using Cons assms by (simp add: to_string_loop.simps [of Q q] c_strdup_def)
  then show ?thesis
    using to_string_loop_acc [of ?q "cstr (str x)" "[x]"] Cons assms by simp
qed

text \<open>A command that is not printable makes \<open>strmerge\<close> read through the null pointer.\<close>

lemma to_string_unprintable:
  assumes "wf s" and "\<not> printable (abs s)"
  shows "scommand_to_string Q (Ref s) = None"
proof -
  from assms obtain q where q: "cmd s = Some q" "items q = []"
    and r: "redir_out s \<noteq> NULL \<or> redir_in s \<noteq> NULL"
    by (auto simp: abs_scommand_defs printable_def abs_ptr_None_iff)
  then have "to_string_loop Q (g_queue_copy Q q) NULL = Some NULL"
    by (simp add: to_string_loop.simps [of Q "g_queue_copy Q q"])
  with q r show ?thesis
    by (auto simp: scommand_to_string_def scommand_inv_def add_redir_def)
qed

lemma to_string_refines:
  assumes "wf s" and "printable (abs s)"
  shows "\<exists>b. scommand_to_string Q (Ref s) = Some b \<and> is_cstr b \<and> str b = scommand_text (abs s)"
proof -
  from assms(1) obtain q where q: "cmd s = Some q" and all: "list_all is_cstr (items q)"
    and wr: "wf_ptr (redir_out s)" "wf_ptr (redir_in s)"
    by (auto simp: abs_scommand_defs)
  have loop: "if items q = [] then to_string_loop Q (g_queue_copy Q q) NULL = Some NULL
    else \<exists>b. to_string_loop Q (g_queue_copy Q q) NULL = Some (Ref b) \<and> is_cstr b
      \<and> str b = join '' '' (map str (items q))"
    using to_string_loop_spec [of "g_queue_copy Q q"] all unfolding items_copy by blast
  show ?thesis
  proof (cases "items q")
    case Nil
    then have "redir_out s = NULL" "redir_in s = NULL"
      using assms(2) q wr by (auto simp: printable_def abs_scommand_defs abs_ptr_None_iff)
    with Nil loop q show ?thesis
      by (simp add: scommand_to_string_def scommand_inv_def add_redir_def c_strdup_def str_def cstr_def
          scommand_text_def abs_scommand_defs redir_text_def trim_last_def is_cstr_def)
  next
    case (Cons x xs)
    with loop obtain b where b: "to_string_loop Q (g_queue_copy Q q) NULL = Some (Ref b)" "is_cstr b"
      "str b = join '' '' (map str (items q))" by auto
    obtain b1 where b1: "add_redir (Ref b) ''  >  '' (redir_out s) = Some (Ref b1)" "is_cstr b1"
      "str b1 = str b @ redir_text ''  >  '' (abs_ptr (redir_out s))"
      using add_redir_spec [OF b(2) wr(1), of "''  >  ''"] by auto
    obtain b2 where b2: "add_redir (Ref b1) ''  <  '' (redir_in s) = Some (Ref b2)" "is_cstr b2"
      "str b2 = str b1 @ redir_text ''  <  '' (abs_ptr (redir_in s))"
      using add_redir_spec [OF b1(2) wr(2), of "''  <  ''"] by auto
    have run: "scommand_to_string Q (Ref s) = cut_last_space b2"
      using q b b1 b2 by (simp add: scommand_to_string_def scommand_inv_def)
    show ?thesis
      using cut_last_space_spec [OF b2(2)] run b(3) b1(3) b2(3) q
      by (simp add: scommand_text_def abs_scommand_defs)
  qed
qed

end

subsection \<open>Refinement of pipeline\<close>

locale pipeline_queues = scommand_queue Q items + pq: gqueue P pitems
  for Q :: "(cbuf, 'q) gqueue_ops" and items :: "'q \<Rightarrow> cbuf list"
    and P :: "('q, 'p) pipeline_ops" and pitems :: "'p \<Rightarrow> 'q scommand_s list"
begin

abbreviation pabs :: "('q, 'p) pipeline_s \<Rightarrow> apipeline" where "pabs \<equiv> abs_pipeline items pitems"
abbreviation pwf :: "('q, 'p) pipeline_s \<Rightarrow> bool" where "pwf \<equiv> wf_pipeline items pitems"

lemma pnew_refines:
  "\<exists>s. pipeline_new P True = Some (Ref s) \<and> pwf s \<and> pabs s = \<lparr>a_cmds = [], a_wait = True\<rparr>"
  by (simp add: pipeline_ops_defs abs_pipeline_defs Let_def)

lemma plength_refines: "pwf s \<Longrightarrow> pipeline_length P (Ref s) = Some (length (a_cmds (pabs s)))"
  by (auto simp: pipeline_ops_defs abs_pipeline_defs)

lemma pis_empty_refines: "pwf s \<Longrightarrow> pipeline_is_empty P (Ref s) = Some (a_cmds (pabs s) = [])"
  by (auto simp: pipeline_ops_defs abs_pipeline_defs)

lemma ppush_back_refines:
  "pwf s \<Longrightarrow> wf c \<Longrightarrow> \<exists>s'. pipeline_push_back P (Ref s) (Ref c) = Some (Ref s') \<and> pwf s'
     \<and> pabs s' = (pabs s)\<lparr>a_cmds := a_cmds (pabs s) @ [abs c]\<rparr>"
  by (auto simp: pipeline_ops_defs abs_pipeline_defs Let_def)

lemma ppop_front_refines:
  assumes "pwf s" and "a_cmds (pabs s) \<noteq> []"
  shows "\<exists>s'. pipeline_pop_front P (Ref s) = Some (Ref s') \<and> pwf s'
     \<and> pabs s' = (pabs s)\<lparr>a_cmds := tl (a_cmds (pabs s))\<rparr>"
proof -
  from assms obtain q c cs where q: "pipe s = Some q" "pitems q = c # cs"
    by (auto simp: abs_pipeline_defs neq_Nil_conv)
  then show ?thesis
    using assms(1) by (auto simp: pipeline_ops_defs abs_pipeline_defs scommand_destroy_def scommand_inv_def)
qed

lemma pfront_refines:
  assumes "pwf s" and "a_cmds (pabs s) = a # as"
  shows "\<exists>c. pipeline_front P (Ref s) = Some (Ref c) \<and> wf c \<and> abs c = a"
  using assms by (auto simp: pipeline_ops_defs abs_pipeline_defs)

lemma pset_wait_refines:
  "pwf s \<Longrightarrow> \<exists>s'. pipeline_set_wait (Ref s) w = Some (Ref s') \<and> pwf s' \<and> pabs s' = (pabs s)\<lparr>a_wait := w\<rparr>"
  by (auto simp: pipeline_ops_defs abs_pipeline_defs)

text \<open>Destroying pops every command from the back; it never runs into an empty queue.\<close>

lemma destroy_loop_ok:
  "length (pitems q) = n \<Longrightarrow> \<exists>q'. pipeline_destroy_loop P n q = Some q' \<and> pitems q' = []"
proof (induction n arbitrary: q)
  case (Suc n)
  then have "pitems q \<noteq> []" "length (pitems (snd (g_queue_pop_tail P q))) = n"
    by auto
  with Suc.IH [OF this(2)] show ?case
    by (simp add: scommand_destroy_def scommand_inv_def)
qed simp

lemma pdestroy_returns_NULL: "pipeline_destroy P (Ref s) = Some NULL"
proof (cases "pipe s")
  case (Some q)
  then show ?thesis
    using destroy_loop_ok [of q "length (pitems q)"]
    by (auto simp: pipeline_destroy_def pipeline_inv_def)
qed (simp add: pipeline_destroy_def pipeline_inv_def)

lemma ptext_loop:
  assumes "list_all wf (pitems q)" and "list_all (printable \<circ> abs) (pitems q)"
    and "i + n = length (pitems q)" and "is_cstr r"
  shows "\<exists>r'. pipeline_to_string_loop Q P q n i r = Some r' \<and> is_cstr r'
    \<and> str r' = str r @ join '' | '' (map (scommand_text \<circ> abs) (drop i (pitems q)))"
  using assms(3,4)
proof (induction n arbitrary: i r)
  case (Suc n)
  let ?c = "pitems q ! i"
  have i: "i < length (pitems q)" using Suc.prems(1) by simp
  then have c: "wf ?c" "printable (abs ?c)"
    using assms(1,2) by (simp_all add: list_all_length)
  from to_string_refines [OF c] obtain b where b: "scommand_to_string Q (Ref ?c) = Some b"
    "is_cstr b" "str b = scommand_text (abs ?c)" by blast
  let ?sep = "if n > 0 then '' | '' else []"
  let ?r = "cstr (str r @ str b @ ?sep)"
  have r: "is_cstr ?r" "str ?r = str r @ str b @ ?sep" by simp_all
  have step: "pipeline_to_string_loop Q P q (Suc n) i r = pipeline_to_string_loop Q P q n (Suc i) ?r"
    using i b(1,2) Suc.prems(2) by (simp add: strmerge_Ref)
  have sep: "join '' | '' (map (scommand_text \<circ> abs) (drop i (pitems q)))
    = scommand_text (abs ?c) @ ?sep @ join '' | '' (map (scommand_text \<circ> abs) (drop (Suc i) (pitems q)))"
    using i Suc.prems(1) by (auto simp: drop_eq_nth_Cons join_Cons)
  have "\<exists>r'. pipeline_to_string_loop Q P q n (Suc i) ?r = Some r' \<and> is_cstr r'
      \<and> str r' = str ?r @ join '' | '' (map (scommand_text \<circ> abs) (drop (Suc i) (pitems q)))"
    by (rule Suc.IH) (use Suc.prems(1) in simp_all)
  then show ?case
    unfolding step sep unfolding r(2) unfolding b(3) append.assoc .
qed simp

lemma pto_string_refines:
  assumes "pwf s" and "list_all printable (a_cmds (pabs s))"
  shows "\<exists>b. pipeline_to_string Q P (Ref s) = Some b \<and> is_cstr b \<and> str b = pipeline_text (pabs s)"
proof -
  from assms obtain q where q: "pipe s = Some q" and w: "list_all wf (pitems q)"
    and p: "list_all (printable \<circ> abs) (pitems q)"
    by (auto simp: abs_pipeline_defs list.pred_map)
  obtain r where r: "pipeline_to_string_loop Q P q (length (pitems q)) 0 (cstr '''') = Some r"
    "is_cstr r" "str r = join '' | '' (map (scommand_text \<circ> abs) (pitems q))"
    using ptext_loop [OF w p, of 0 "length (pitems q)" "cstr ''''"] by auto
  have sd: "c_strdup (cstr '''') = Some (cstr '''')"
    by (simp add: c_strdup_def)
  have nn: "NUL \<notin> set (join '' | '' (map (scommand_text \<circ> abs) (pitems q)))"
    using NUL_notin_str [of r] r(3) by simp
  show ?thesis
    using q r nn
    by (cases "wait s")
      (simp_all add: pipeline_to_string_def pipeline_ops_defs sd strmerge_Ref abs_pipeline_defs
        pipeline_text_def)
qed

end

subsection \<open>GQueue over lists\<close>

text \<open>The documented behaviour of GLib's queue is satisfiable: a list is such a queue.\<close>

definition list_gqueue :: "('a, 'a list) gqueue_ops" where
  "list_gqueue = \<lparr>g_queue_new = [], g_queue_push_tail = (\<lambda>q a. q @ [a]),
     g_queue_pop_head = (\<lambda>q. (case q of [] \<Rightarrow> (None, []) | x # xs \<Rightarrow> (Some x, xs))),
     g_queue_pop_tail = (\<lambda>q. (if q = [] then None else Some (last q), butlast q)),
     g_queue_peek_head = (\<lambda>q. (case q of [] \<Rightarrow> None | x # _ \<Rightarrow> Some x)),
     g_queue_peek_nth = (\<lambda>q n. if n < length q then Some (q ! n) else None),
     g_queue_get_length = length, g_queue_is_empty = (\<lambda>q. q = []), g_queue_copy = (\<lambda>q. q)\<rparr>"

lemma gqueue_list: "gqueue list_gqueue (\<lambda>q. q)"
  by unfold_locales (auto simp: list_gqueue_def split: list.splits)

interpretation lsq: scommand_queue list_gqueue "\<lambda>q. q"
  by (intro scommand_queue.intro gqueue_list)

interpretation lpq: pipeline_queues list_gqueue "\<lambda>q. q" list_gqueue "\<lambda>q. q"
  by (intro pipeline_queues.intro scommand_queue.intro gqueue_list)

subsection \<open>Properties\<close>

text \<open>
  \<open>scommand_to_string\<close> prints a command exactly as the shell's syntax writes it: the name and
  arguments separated by one space, then the output and the input redirection, less one final
  space. It returns for every well formed command that has a name or no redirection, whatever
  GQueue implementation is linked, as long as it behaves as documented.
\<close>

theorem scommand_to_string_correct:
  assumes "gqueue Q items" and "wf_scommand items s" and "printable (abs_scommand items s)"
  shows "\<exists>b. scommand_to_string Q (Ref s) = Some b \<and> is_cstr b
    \<and> str b = scommand_text (abs_scommand items s)"
  using scommand_queue.to_string_refines [OF scommand_queue.intro] assms by blast

theorem scommand_to_string_correct_witness:
  "\<exists>b. scommand_to_string list_gqueue
        (Ref \<lparr>cmd = Some [cstr ''ls'', cstr ''-l''], redir_out = Ref (cstr ''out''), redir_in = NULL\<rparr>)
      = Some b \<and> is_cstr b \<and> str b = ''ls -l  >  out''"
proof -
  let ?s = "\<lparr>cmd = Some [cstr ''ls'', cstr ''-l''], redir_out = Ref (cstr ''out''), redir_in = NULL\<rparr>"
  have "wf_scommand (\<lambda>q. q) ?s" and "printable (abs_scommand (\<lambda>q. q) ?s)"
    by (simp_all add: abs_scommand_defs printable_def)
  then show ?thesis
    using scommand_to_string_correct [OF gqueue_list, of ?s]
    by (simp add: abs_scommand_defs scommand_text_def redir_text_def trim_last_def)
qed

text \<open>
  \<open>pipeline_to_string\<close> prints its commands separated by \<open>" | "\<close> and marks a background
  pipeline with a final \<open>" &"\<close>; it returns for every well formed pipeline of printable commands.
\<close>

theorem pipeline_to_string_correct:
  assumes "gqueue Q items" and "gqueue P pitems" and "wf_pipeline items pitems s"
    and "list_all printable (a_cmds (abs_pipeline items pitems s))"
  shows "\<exists>b. pipeline_to_string Q P (Ref s) = Some b \<and> is_cstr b
    \<and> str b = pipeline_text (abs_pipeline items pitems s)"
  using pipeline_queues.pto_string_refines [OF pipeline_queues.intro] scommand_queue.intro assms
  by blast

theorem pipeline_to_string_correct_witness:
  "\<exists>b. pipeline_to_string list_gqueue list_gqueue
        (Ref \<lparr>pipe = Some [\<lparr>cmd = Some [cstr ''ls''], redir_out = NULL, redir_in = NULL\<rparr>,
                           \<lparr>cmd = Some [cstr ''wc''], redir_out = NULL, redir_in = NULL\<rparr>],
              wait = False\<rparr>)
      = Some b \<and> is_cstr b \<and> str b = ''ls | wc &''"
proof -
  let ?s = "\<lparr>pipe = Some [\<lparr>cmd = Some [cstr ''ls''], redir_out = NULL, redir_in = NULL\<rparr>,
                         \<lparr>cmd = Some [cstr ''wc''], redir_out = NULL, redir_in = NULL\<rparr>],
              wait = False\<rparr>"
  have "wf_pipeline (\<lambda>q. q) (\<lambda>q. q) ?s"
    and "list_all printable (a_cmds (abs_pipeline (\<lambda>q. q) (\<lambda>q. q) ?s))"
    by (simp_all add: abs_scommand_defs abs_pipeline_defs printable_def)
  then show ?thesis
    using pipeline_to_string_correct [OF gqueue_list gqueue_list, of ?s]
    by (simp add: abs_scommand_defs abs_pipeline_defs pipeline_text_def scommand_text_def
        redir_text_def trim_last_def)
qed

end
