(* ===== verification/Parsing.thy ===== *)
theory Parsing
  imports Command
begin

text \<open>
  \<open>kickstart/parsing.c\<close>: building a pipeline from the tokens of the lexical parser.

  The lexical parser is shipped as an object file (\<open>objects-*/parser.o\<close>) with the header
  \<open>parser.h\<close>; its operations are a parameter (\<open>parser_ops\<close>) over a parser state \<open>'s\<close>, and the
  documented behaviour the code relies on is the locale \<open>lexer\<close>, in terms of the input that is
  still unread; as the header requires, nothing is assumed of an operation at the end of the input,
  so the lemmas are about lines that are ended by a newline. A parser is handed around as a pointer because \<open>parse_pipeline\<close> destroys it on one
  of its paths.
\<close>

datatype arg_kind_t = ARG_NORMAL | ARG_INPUT | ARG_OUTPUT

record 's parser_ops =
  parser_next_argument :: "'s \<Rightarrow> cbuf cptr \<times> arg_kind_t \<times> 's"
  parser_op_background :: "'s \<Rightarrow> bool \<times> 's"
  parser_skip_blanks :: "'s \<Rightarrow> 's"
  parser_op_pipe :: "'s \<Rightarrow> bool \<times> 's"
  parser_garbage :: "'s \<Rightarrow> bool \<times> 's"
  parser_last_garbage :: "'s \<Rightarrow> cbuf cptr"
  parser_at_eof :: "'s \<Rightarrow> bool"

subsection \<open>parse_scommand\<close>

definition add_argument ::
  "(cbuf, 'q) gqueue_ops \<Rightarrow> 'q scommand \<Rightarrow> arg_kind_t \<Rightarrow> cbuf cptr \<Rightarrow> 'q scommand option" where
  "add_argument Q nuevo arg_aux string_aux =
     (if arg_aux = ARG_NORMAL then scommand_push_back Q nuevo string_aux
      else if arg_aux = ARG_INPUT then scommand_set_redir_in nuevo string_aux
      else if arg_aux = ARG_OUTPUT then scommand_set_redir_out nuevo string_aux
      else Some nuevo)"

text \<open>
  The argument loop; it returns the command, the kind of the last argument and the parser. The loop
  ends when the lexer has no further argument, hence the partial function.
\<close>

partial_function (option) parse_args ::
  "(cbuf, 'q) gqueue_ops \<Rightarrow> 's parser_ops \<Rightarrow> 'q scommand \<Rightarrow> cbuf cptr \<Rightarrow> arg_kind_t \<Rightarrow> 's
    \<Rightarrow> ('q scommand \<times> arg_kind_t \<times> 's) option" where
  "parse_args Q L nuevo string_aux arg_aux p =
     (if string_aux \<noteq> NULL then
        Option.bind (add_argument Q nuevo arg_aux string_aux) (\<lambda>nuevo'.
          parse_args Q L nuevo' (fst (parser_next_argument L p))
            (fst (snd (parser_next_argument L p))) (snd (snd (parser_next_argument L p))))
      else Some (nuevo, arg_aux, p))"

definition parse_scommand ::
  "(cbuf, 'q) gqueue_ops \<Rightarrow> 's parser_ops \<Rightarrow> bool \<Rightarrow> 's cptr \<Rightarrow> ('q scommand \<times> 's cptr) option" where
  "parse_scommand Q L ok pp = do {
     assertion (pp \<noteq> NULL);
     nuevo \<leftarrow> scommand_new Q ok;
     p \<leftarrow> deref pp;
     let p = parser_skip_blanks L p;
     let (string_aux, arg_aux, p) = parser_next_argument L p;
     (nuevo, arg_aux, p) \<leftarrow> parse_args Q L nuevo string_aux arg_aux p;
     empty \<leftarrow> scommand_is_empty Q nuevo;
     if arg_aux = ARG_INPUT \<or> arg_aux = ARG_OUTPUT \<or> empty then do {
       _ \<leftarrow> scommand_destroy nuevo;
       Some (NULL, Ref p) }
     else Some (nuevo, Ref p) }"

subsection \<open>parse_pipeline\<close>

text \<open>The loop over \<open>|\<close>: result pipeline, error flag and parser.\<close>

partial_function (option) parse_commands ::
  "(cbuf, 'q) gqueue_ops \<Rightarrow> ('q, 'p) pipeline_ops \<Rightarrow> 's parser_ops \<Rightarrow> bool \<Rightarrow> bool \<Rightarrow> bool
    \<Rightarrow> ('q, 'p) pipeline \<Rightarrow> 's cptr \<Rightarrow> (('q, 'p) pipeline \<times> bool \<times> 's cptr) option" where
  "parse_commands Q P L ok another_pipe error result pp =
     (if another_pipe \<and> \<not> error then
        Option.bind (parse_scommand Q L ok pp) (\<lambda>(cmd, pp).
          if cmd = NULL then parse_commands Q P L ok another_pipe True result pp
          else Option.bind (deref pp) (\<lambda>p.
            Option.bind (pipeline_push_back P result cmd) (\<lambda>result.
              parse_commands Q P L ok (fst (parser_op_pipe L (parser_skip_blanks L p))) False result
                (Ref (snd (parser_op_pipe L (parser_skip_blanks L p)))))))
      else Some (result, error, pp))"

definition parse_pipeline ::
  "(cbuf, 'q) gqueue_ops \<Rightarrow> ('q, 'p) pipeline_ops \<Rightarrow> 's parser_ops \<Rightarrow> bool \<Rightarrow> 's cptr
    \<Rightarrow> (('q, 'p) pipeline \<times> 's cptr) option" where
  "parse_pipeline Q P L ok pp = do {
     p \<leftarrow> deref pp;
     assertion (pp \<noteq> NULL \<and> \<not> parser_at_eof L p);
     result \<leftarrow> pipeline_new P ok;
     (result, error, pp) \<leftarrow> parse_commands Q P L ok True False result pp;
     p \<leftarrow> deref pp;
     if \<not> parser_at_eof L p then do {
       let (is_background, p) = parser_op_background L p;
       result \<leftarrow> pipeline_set_wait result (\<not> is_background);
       let (garbage, p) = parser_garbage L p;
       if garbage then
         let _ = parser_last_garbage L p in Some (NULL, Freed)
       else do {
         n \<leftarrow> pipeline_length P result;
         if error \<or> n = 0 then do {
           _ \<leftarrow> pipeline_destroy P result;
           Some (NULL, Ref p) }
         else Some (result, Ref p) } }
     else Some (result, Ref p) }"

lemmas parse_code [code] = parse_args.simps parse_commands.simps

subsection \<open>What the parser header documents\<close>

definition blank :: "char \<Rightarrow> bool" where
  "blank c \<longleftrightarrow> c = CHR '' '' \<or> c = CHR 0x09"

abbreviation (input) newline :: char where "newline \<equiv> CHR 0x0A"

text \<open>\<open>new\<close> is what is left of the input \<open>old\<close> after reading part of its first line.\<close>

definition within_line :: "string \<Rightarrow> string \<Rightarrow> bool" where
  "within_line old new \<longleftrightarrow> (\<exists>pre. old = pre @ new \<and> newline \<notin> set pre)"

text \<open>The input after its first line, newline included.\<close>

definition next_line :: "string \<Rightarrow> string" where
  "next_line inp = drop 1 (dropWhile (\<lambda>c. c \<noteq> newline) inp)"

locale lexer =
  fixes L :: "'s parser_ops" and rest :: "'s \<Rightarrow> string"
  assumes at_eof: "parser_at_eof L p = (rest p = [])"
    and skip_blanks: "rest p \<noteq> [] \<Longrightarrow> rest (parser_skip_blanks L p) = dropWhile blank (rest p)"
    and op_pipe: "rest p \<noteq> [] \<Longrightarrow> fst (parser_op_pipe L p) = (hd (rest p) = CHR ''|'')"
      "rest p \<noteq> [] \<Longrightarrow> rest (snd (parser_op_pipe L p))
        = (if hd (rest p) = CHR ''|'' then tl (rest p) else rest p)"
    and op_background: "rest p \<noteq> [] \<Longrightarrow> fst (parser_op_background L p) = (hd (rest p) = CHR ''&'')"
      "rest p \<noteq> [] \<Longrightarrow> rest (snd (parser_op_background L p))
        = (if hd (rest p) = CHR ''&'' then tl (rest p) else rest p)"
    and garbage: "rest p \<noteq> [] \<Longrightarrow> fst (parser_garbage L p)
        = list_ex (\<lambda>c. \<not> blank c) (takeWhile (\<lambda>c. c \<noteq> newline) (rest p))"
      "rest p \<noteq> [] \<Longrightarrow> rest (snd (parser_garbage L p)) = next_line (rest p)"
    and argument: "rest p \<noteq> [] \<Longrightarrow> parser_next_argument L p = (a, k, p') \<Longrightarrow> a \<noteq> NULL \<Longrightarrow>
        (\<exists>b. a = Ref b \<and> is_cstr b) \<and> length (rest p') < length (rest p)"
    and argument_line: "rest p \<noteq> [] \<Longrightarrow> parser_next_argument L p = (a, k, p') \<Longrightarrow>
        within_line (rest p) (rest p')"
begin

lemma skip_within: "rest p \<noteq> [] \<Longrightarrow> within_line (rest p) (rest (parser_skip_blanks L p))"
proof -
  assume "rest p \<noteq> []"
  then have "rest p = takeWhile blank (rest p) @ rest (parser_skip_blanks L p)"
    by (simp add: skip_blanks)
  moreover have "newline \<notin> set (takeWhile blank (rest p))"
    by (auto simp: blank_def dest: set_takeWhileD)
  ultimately show ?thesis unfolding within_line_def by blast
qed

end

lemma within_line_refl [simp]: "within_line s s"
  by (auto simp: within_line_def)

lemma within_line_trans [trans]: "within_line a b \<Longrightarrow> within_line b c \<Longrightarrow> within_line a c"
  by (fastforce simp: within_line_def)

lemma within_line_newline: "within_line a b \<Longrightarrow> newline \<in> set a \<Longrightarrow> newline \<in> set b"
  by (auto simp: within_line_def)

lemma newline_not_Nil: "newline \<in> set s \<Longrightarrow> s \<noteq> []"
  by auto

lemma within_line_length: "within_line a b \<Longrightarrow> length b \<le> length a"
  by (auto simp: within_line_def)

lemma within_line_tl: "s \<noteq> [] \<Longrightarrow> hd s \<noteq> newline \<Longrightarrow> within_line s (tl s)"
  unfolding within_line_def by (rule exI [of _ "[hd s]"]) auto

lemma next_line_within: "within_line a b \<Longrightarrow> next_line a = next_line b"
proof -
  have "next_line (pre @ b) = next_line b" if "newline \<notin> set pre" for pre
    using that by (induction pre) (auto simp: next_line_def)
  then show "within_line a b \<Longrightarrow> next_line a = next_line b"
    by (auto simp: within_line_def)
qed

lemma next_line_Nil [simp]: "next_line [] = []"
  by (simp add: next_line_def)

subsection \<open>Correctness of parsing\<close>

locale pipeline_parser = pipeline_queues Q items P pitems + lexer L rest
  for Q :: "(cbuf, 'q) gqueue_ops" and items :: "'q \<Rightarrow> cbuf list"
    and P :: "('q, 'p) pipeline_ops" and pitems :: "'p \<Rightarrow> 'q scommand_s list"
    and L :: "'s parser_ops" and rest :: "'s \<Rightarrow> string"
begin

lemma add_argument_ok:
  assumes "wf c" and "is_cstr b"
  shows "\<exists>c'. add_argument Q (Ref c) k (Ref b) = Some (Ref c') \<and> wf c'"
  using push_back_refines [OF assms] set_redir_refines [OF assms(1), of "Ref b"] assms
  by (cases k) (auto simp: add_argument_def)

text \<open>The argument loop ends, because every argument shortens the input.\<close>

lemma parse_args_ok:
  assumes "wf c" and "parser_next_argument L p = (a, k, p')" and "newline \<in> set (rest p)"
  shows "\<exists>c' k' p''. parse_args Q L (Ref c) a k p' = Some (Ref c', k', p'') \<and> wf c'
    \<and> within_line (rest p) (rest p'')"
  using assms
proof (induction "length (rest p)" arbitrary: p c a k p' rule: less_induct)
  case less
  note ne = newline_not_Nil [OF less.prems(3)]
  note line = argument_line [OF ne less.prems(2)]
  show ?case
  proof (cases "a = NULL")
    case True
    with line less.prems(1) show ?thesis
      by (auto simp: parse_args.simps [of Q L "Ref c" NULL])
  next
    case False
    from argument [OF ne less.prems(2) False] obtain b where b: "a = Ref b" "is_cstr b"
      and shorter: "length (rest p') < length (rest p)" by blast
    from add_argument_ok [OF less.prems(1) b(2), of k] obtain c1 where
      c1: "add_argument Q (Ref c) k (Ref b) = Some (Ref c1)" "wf c1" by blast
    obtain a1 k1 p1 where n: "parser_next_argument L p' = (a1, k1, p1)"
      using prod_cases3 by blast
    from less.hyps [OF shorter c1(2) n within_line_newline [OF line less.prems(3)]] obtain c' k' p'' where
      r: "parse_args Q L (Ref c1) a1 k1 p1 = Some (Ref c', k', p'')" "wf c'"
        "within_line (rest p') (rest p'')" by blast
    from line r(3) have "within_line (rest p) (rest p'')"
      by (rule within_line_trans)
    with r b c1 n show ?thesis
      by (simp add: parse_args.simps [of Q L "Ref c" "Ref b"])
  qed
qed

lemma parse_scommand_ok:
  assumes "newline \<in> set (rest p)"
  shows "\<exists>r p'. parse_scommand Q L True (Ref p) = Some (r, Ref p') \<and> within_line (rest p) (rest p')
    \<and> (r = NULL \<or> (\<exists>c. r = Ref c \<and> wf c \<and> a_args (abs c) \<noteq> []))"
proof -
  note skip = skip_within [OF newline_not_Nil [OF assms]]
  obtain c0 where c0: "scommand_new Q True = Some (Ref c0)" "wf c0"
    using new_refines by blast
  let ?p = "parser_skip_blanks L p"
  obtain a k p1 where n: "parser_next_argument L ?p = (a, k, p1)"
    using prod_cases3 by blast
  from parse_args_ok [OF c0(2) n within_line_newline [OF skip assms]] obtain c k' p'' where
    r: "parse_args Q L (Ref c0) a k p1 = Some (Ref c, k', p'')" "wf c" "within_line (rest ?p) (rest p'')"
    by blast
  have line: "within_line (rest p) (rest p'')"
    using skip r(3) by (rule within_line_trans)
  show ?thesis
    using c0 n r line is_empty_refines [OF r(2)]
    by (auto simp: parse_scommand_def scommand_destroy_def scommand_inv_def Let_def)
qed

definition good :: "('q, 'p) pipeline_s \<Rightarrow> bool" where
  "good s \<longleftrightarrow> pwf s \<and> list_all (\<lambda>a. a_args a \<noteq> []) (a_cmds (pabs s))"

lemma good_push:
  assumes "good s" and "wf c" and "a_args (abs c) \<noteq> []"
  shows "\<exists>s'. pipeline_push_back P (Ref s) (Ref c) = Some (Ref s') \<and> good s' \<and> a_cmds (pabs s') \<noteq> []"
  using ppush_back_refines [of s c] assms by (auto simp: good_def)

lemma parse_commands_ok:
  assumes "good s" and "another \<or> a_cmds (pabs s) \<noteq> []" and "newline \<in> set (rest p)"
  shows "\<exists>s' e p'. parse_commands Q P L True another False (Ref s) (Ref p) = Some (Ref s', e, Ref p')
    \<and> good s' \<and> within_line (rest p) (rest p') \<and> (\<not> e \<longrightarrow> a_cmds (pabs s') \<noteq> [])"
  using assms
proof (induction "length (rest p)" arbitrary: p s another rule: less_induct)
  case less
  show ?case
  proof (cases another)
    case False
    with less.prems show ?thesis
      by (auto simp: parse_commands.simps [of Q P L True False])
  next
    case True
    obtain r p1 where r: "parse_scommand Q L True (Ref p) = Some (r, Ref p1)"
      and line1: "within_line (rest p) (rest p1)"
      and c: "r = NULL \<or> (\<exists>c. r = Ref c \<and> wf c \<and> a_args (abs c) \<noteq> [])"
      using parse_scommand_ok [OF less.prems(3)] by blast
    note nl1 = within_line_newline [OF line1 less.prems(3)]
    note skip = skip_within [OF newline_not_Nil [OF nl1]]
    note ne = newline_not_Nil [OF within_line_newline [OF skip nl1]]
    show ?thesis
    proof (cases "r = NULL")
      case True
      with r line1 less.prems(1,2) \<open>another\<close> show ?thesis
        by (auto simp: parse_commands.simps [of Q P L True True True]
            parse_commands.simps [of Q P L True True False])
    next
      case False
      with c obtain c where c: "r = Ref c" "wf c" "a_args (abs c) \<noteq> []" by blast
      from good_push [OF less.prems(1) c(2,3)] obtain s1 where
        s1: "pipeline_push_back P (Ref s) (Ref c) = Some (Ref s1)" "good s1" "a_cmds (pabs s1) \<noteq> []"
        by blast
      let ?p = "parser_skip_blanks L p1"
      let ?b = "fst (parser_op_pipe L ?p)" and ?p2 = "snd (parser_op_pipe L ?p)"
      have line2: "within_line (rest ?p) (rest ?p2)"
        using op_pipe(2) [OF ne] within_line_tl [OF ne] by auto
      have line: "within_line (rest p) (rest ?p2)"
        using line1 skip line2 within_line_trans by blast
      have unfold: "parse_commands Q P L True another False (Ref s) (Ref p)
        = parse_commands Q P L True ?b False (Ref s1) (Ref ?p2)"
        using r c s1 \<open>another\<close> by (simp add: parse_commands.simps [of Q P L True True False "Ref s" "Ref p"])
      show ?thesis
      proof (cases ?b)
        case True
        then have "length (rest ?p2) < length (rest ?p)"
          using op_pipe [OF ne] ne by simp
        moreover have "length (rest ?p) \<le> length (rest p)"
          using line1 skip within_line_trans within_line_length by blast
        ultimately have "length (rest ?p2) < length (rest p)" by simp
        from less.hyps [OF this s1(2), of ?b] s1(3) line unfold within_line_trans
          within_line_newline [OF line less.prems(3)]
        show ?thesis by metis
      next
        case False
        then show ?thesis
          using unfold s1 line by (auto simp: parse_commands.simps [of Q P L True False])
      qed
    qed
  qed
qed

end

context pipeline_parser
begin

text \<open>
  The whole of \<open>parse_pipeline\<close>, on an input whose first line is ended by a newline: it returns;
  either the line had garbage and the parser was destroyed, or the parser stands right after the
  line. A pipeline that is returned has commands, all of them named.
\<close>

lemma parse_pipeline_start:
  assumes "newline \<in> set (rest p)"
    and c: "parse_commands Q P L True True False (Ref s0) (Ref p) = Some (Ref s, err, Ref p1)"
    and s0: "pipeline_new P True = Some (Ref s0)" and line: "within_line (rest p) (rest p1)"
  shows "parse_pipeline Q P L True (Ref p) = do {
       let (is_background, p) = parser_op_background L p1;
       result \<leftarrow> pipeline_set_wait (Ref s) (\<not> is_background);
       let (garbage, p) = parser_garbage L p;
       if garbage then
         let _ = parser_last_garbage L p in Some (NULL, Freed)
       else do {
         n \<leftarrow> pipeline_length P result;
         if err \<or> n = 0 then do {
           _ \<leftarrow> pipeline_destroy P result;
           Some (NULL, Ref p) }
         else Some (result, Ref p) } }"
  using newline_not_Nil [OF assms(1)] newline_not_Nil [OF within_line_newline [OF line assms(1)]] s0 c
  by (simp add: parse_pipeline_def at_eof)

lemma parse_pipeline_ok:
  assumes "newline \<in> set (rest p)"
  shows "\<exists>r pp'. parse_pipeline Q P L True (Ref p) = Some (r, pp')
    \<and> (pp' = Freed \<and> r = NULL \<or> (\<exists>p'. pp' = Ref p' \<and> rest p' = next_line (rest p)))
    \<and> (\<forall>s. r = Ref s \<longrightarrow> good s \<and> a_cmds (pabs s) \<noteq> []) \<and> r \<noteq> Freed"
proof -
  obtain s0 where s0: "pipeline_new P True = Some (Ref s0)" "good s0"
    using pnew_refines by (auto simp: good_def)
  from parse_commands_ok [OF s0(2) disjI1 [OF TrueI] assms] obtain s e p1 where
    c: "parse_commands Q P L True True False (Ref s0) (Ref p) = Some (Ref s, e, Ref p1)" "good s"
      "\<not> e \<longrightarrow> a_cmds (pabs s) \<noteq> []" and line: "within_line (rest p) (rest p1)" by blast
  have nl: "next_line (rest p) = next_line (rest p1)"
    using line by (rule next_line_within)
  note start = parse_pipeline_start [OF assms c(1) s0(1) line]
  note nl1 = within_line_newline [OF line assms]
  note ne = newline_not_Nil [OF nl1]
  obtain bg p2 where bg: "parser_op_background L p1 = (bg, p2)" by fastforce
  obtain g p3 where g: "parser_garbage L p2 = (g, p3)" by fastforce
  have line2: "within_line (rest p1) (rest p2)"
    using op_background(2) [OF ne] within_line_tl [OF ne] bg by auto
  have p3: "rest p3 = next_line (rest p)"
    using garbage(2) [OF newline_not_Nil [OF within_line_newline [OF line2 nl1]]] g nl
      next_line_within [OF line2] by simp
  obtain s1 where s1: "pipeline_set_wait (Ref s) (\<not> bg) = Some (Ref s1)" "pwf s1"
    "pabs s1 = (pabs s)\<lparr>a_wait := \<not> bg\<rparr>"
    using pset_wait_refines [of s "\<not> bg"] c(2) by (auto simp: good_def)
  show ?thesis
    using bg g s1 c(2,3) p3 pdestroy_returns_NULL [of s1] plength_refines [OF s1(2)]
    by (auto simp: start good_def)
qed

end

subsection \<open>A lexer over strings\<close>

text \<open>
  A lexer over strings with the documented behaviour: words are separated by blanks and ended by the
  operators and the newline; \<open><\<close> and \<open>>\<close> announce a file name.
\<close>

definition word_char :: "char \<Rightarrow> bool" where
  "word_char c \<longleftrightarrow> c \<noteq> NUL \<and> \<not> blank c \<and> c \<notin> set ''|&<>'' \<and> c \<noteq> newline"

definition lex_word :: "arg_kind_t \<Rightarrow> string \<Rightarrow> cbuf cptr \<times> arg_kind_t \<times> string" where
  "lex_word k s = (let t = dropWhile blank s; w = takeWhile word_char t in
     if w = [] then (NULL, k, t) else (Ref (cstr w), k, dropWhile word_char t))"

definition lex_argument :: "string \<Rightarrow> cbuf cptr \<times> arg_kind_t \<times> string" where
  "lex_argument s = (let t = dropWhile blank s in
     if t \<noteq> [] \<and> hd t = CHR ''<'' then lex_word ARG_INPUT (tl t)
     else if t \<noteq> [] \<and> hd t = CHR ''>'' then lex_word ARG_OUTPUT (tl t)
     else lex_word ARG_NORMAL t)"

definition string_lexer :: "string parser_ops" where
  "string_lexer = \<lparr>parser_next_argument = lex_argument,
     parser_op_background = (\<lambda>s. if s \<noteq> [] \<and> hd s = CHR ''&'' then (True, tl s) else (False, s)),
     parser_skip_blanks = dropWhile blank,
     parser_op_pipe = (\<lambda>s. if s \<noteq> [] \<and> hd s = CHR ''|'' then (True, tl s) else (False, s)),
     parser_garbage = (\<lambda>s. (list_ex (\<lambda>c. \<not> blank c) (takeWhile (\<lambda>c. c \<noteq> newline) s), next_line s)),
     parser_last_garbage = (\<lambda>s. NULL), parser_at_eof = (\<lambda>s. s = [])\<rparr>"

lemma within_line_dropWhile: "\<not> Q newline \<Longrightarrow> within_line s (dropWhile Q s)"
  unfolding within_line_def
  by (rule exI [of _ "takeWhile Q s"]) (auto dest: set_takeWhileD)

lemma lex_word_line: "lex_word k s = (a, k', s') \<Longrightarrow> within_line s s'"
proof -
  have b: "within_line s (dropWhile blank s)"
    by (rule within_line_dropWhile) (simp add: blank_def)
  have w: "within_line t (dropWhile word_char t)" for t
    by (rule within_line_dropWhile) (simp add: word_char_def)
  show "lex_word k s = (a, k', s') \<Longrightarrow> within_line s s'"
    using b within_line_trans [OF b w]
    by (auto simp: lex_word_def Let_def split: if_splits)
qed

lemma lex_word_Some:
  assumes "lex_word k s = (a, k', s')" and "a \<noteq> NULL"
  shows "(\<exists>b. a = Ref b \<and> is_cstr b) \<and> length s' < length s"
proof -
  let ?t = "dropWhile blank s"
  from assms have w: "takeWhile word_char ?t \<noteq> []" "s' = dropWhile word_char ?t"
    and a: "a = Ref (cstr (takeWhile word_char ?t))"
    by (auto simp: lex_word_def Let_def split: if_splits)
  have "length ?t = length (takeWhile word_char ?t) + length s'"
    unfolding w(2) by (metis length_append takeWhile_dropWhile_id)
  then have "length s' < length ?t" using w(1) by auto
  then show ?thesis using a length_dropWhile_le [of blank s] by auto
qed

interpretation strlex: lexer string_lexer "\<lambda>s. s"
proof unfold_locales
  fix s a k s'
  assume "parser_next_argument string_lexer s = (a, k, s')"
  then have n: "lex_argument s = (a, k, s')" by (simp add: string_lexer_def)
  let ?t = "dropWhile blank s"
  have t: "within_line s ?t"
    by (auto simp: blank_def intro: within_line_dropWhile)
  have tl: "within_line s (tl ?t)" if "?t \<noteq> []" "hd ?t \<noteq> newline"
    using within_line_trans [OF t within_line_tl [OF that]] .
  obtain u k' where u: "lex_word k' u = (a, k, s')" "within_line s u"
  proof (cases "?t \<noteq> [] \<and> hd ?t \<in> set ''<>''")
    case True
    with tl have "within_line s (tl ?t)" by auto
    with n True that show thesis by (auto simp: lex_argument_def Let_def split: if_splits)
  next
    case False
    with n t that show thesis by (auto simp: lex_argument_def Let_def split: if_splits)
  qed
  show "within_line s s'"
    using within_line_trans [OF u(2) lex_word_line [OF u(1)]] .
  show "(\<exists>b. a = Ref b \<and> is_cstr b) \<and> length s' < length s" if "a \<noteq> NULL"
    using lex_word_Some [OF u(1) that] within_line_length [OF u(2)] by auto
qed (auto simp: string_lexer_def list_ex_iff)

interpretation lpp: pipeline_parser list_gqueue "\<lambda>q. q" list_gqueue "\<lambda>q. q" string_lexer "\<lambda>s. s"
  by (intro pipeline_parser.intro lpq.pipeline_queues_axioms strlex.lexer_axioms)

text \<open>
  An observation outside the contract of \<open>parser.h\<close>, on this lexer only. When a line has a syntax error and ends with the end of the input instead of a newline, the error
  is not reported: the pipeline read so far is returned, although the header promises a null pointer
  in case of error. For \<open>ls |\<close> it is the pipeline of the one command \<open>ls\<close>.
\<close>

lemma parse_error_at_eof:
  "parse_pipeline list_gqueue list_gqueue string_lexer True (Ref ''ls |'') =
     Some (Ref \<lparr>pipe = Some [\<lparr>cmd = Some [cstr ''ls''], redir_out = NULL, redir_in = NULL\<rparr>],
                wait = True\<rparr>, Ref [])"
  by (simp add: parse_pipeline_def parse_commands.simps parse_scommand_def parse_args.simps
      add_argument_def scommand_ops_defs pipeline_ops_defs list_gqueue_def string_lexer_def
      lex_argument_def lex_word_def blank_def word_char_def Let_def)

end
