(* ===== verification/Line.thy ===== *)
theory Line
  imports Parsing
begin

text \<open>
  What \<open>parse_pipeline\<close> of \<open>kickstart/parsing.c\<close> does with a whole line: a grammar of lines with the
  pipeline each one denotes, the laws of the lexer that concern words (the locale \<open>word_lexer\<close>, which
  extends \<open>lexer\<close>), and the proof that the parser builds that pipeline. The printed form of a
  pipeline (\<open>pipeline_to_string\<close> of \<open>kickstart/command.c\<close>) is a line of the grammar.
\<close>

subsection \<open>The grammar of a line\<close>

text \<open>Words of letters, digits and \<open>- . _ /\<close>, which no shell treats specially.\<close>

definition plain_char :: "char \<Rightarrow> bool" where
  "plain_char c \<longleftrightarrow> (let n = of_char c :: nat in
     48 \<le> n \<and> n \<le> 57 \<or> 65 \<le> n \<and> n \<le> 90 \<or> 97 \<le> n \<and> n \<le> 122) \<or> c \<in> set ''-._/''"

definition plain_word :: "string \<Rightarrow> bool" where
  "plain_word w \<longleftrightarrow> w \<noteq> [] \<and> list_all plain_char w"

primrec redir_sign :: "arg_kind_t \<Rightarrow> string" where
  "redir_sign ARG_NORMAL = []"
| "redir_sign ARG_INPUT = ''<''"
| "redir_sign ARG_OUTPUT = ''>''"

text \<open>
  What \<open>parser.h\<close> says of \<open>parser_next_argument\<close> by its examples: blanks before an argument are
  skipped, a word is an argument, a word behind \<open><\<close> or \<open>>\<close> a redirection, and a bar, the end of the
  line or \<open>&\<close> stops it and stays. The laws leave open what else may be part of a word, and whether
  blanks behind an argument are left.
\<close>

locale word_lexer = lexer +
  assumes next_word: "dropWhile blank (rest p) = redir_sign k @ bs @ w @ c # r \<Longrightarrow> list_all blank bs \<Longrightarrow>
      (k = ARG_NORMAL \<longrightarrow> bs = []) \<Longrightarrow> plain_word w \<Longrightarrow> blank c \<or> c = newline \<or> c = CHR ''|'' \<Longrightarrow>
      \<exists>b p'. parser_next_argument L p = (Ref b, k, p') \<and> is_cstr b \<and> str b = w
        \<and> dropWhile blank (rest p') = dropWhile blank (c # r)"
    and no_word: "dropWhile blank (rest p) = c # r \<Longrightarrow> c = newline \<or> c = CHR ''|'' \<or> c = CHR ''&'' \<Longrightarrow>
      \<exists>p'. parser_next_argument L p = (NULL, ARG_NORMAL, p') \<and> dropWhile blank (rest p') = c # r"

text \<open>
  A token: the blanks before it, whether it is a redirection, the blanks behind the sign, and the
  word. A command is its tokens and the blanks behind them.
\<close>

datatype token = Token (t_pre: string) (t_kind: arg_kind_t) (t_gap: string) (t_word: string)

definition token_text :: "token \<Rightarrow> string" where
  "token_text t = t_pre t @ redir_sign (t_kind t) @ t_gap t @ t_word t"

definition token_ok :: "token \<Rightarrow> bool" where
  "token_ok t \<longleftrightarrow> list_all blank (t_pre t) \<and> list_all blank (t_gap t)
     \<and> (t_kind t = ARG_NORMAL \<longrightarrow> t_gap t = []) \<and> plain_word (t_word t)"

type_synonym command_line = "token list \<times> string"

definition command_chars :: "command_line \<Rightarrow> string" where
  "command_chars c = concat (map token_text (fst c)) @ snd c"

definition command_ok :: "command_line \<Rightarrow> bool" where
  "command_ok c \<longleftrightarrow> list_all token_ok (fst c) \<and> list_all (\<lambda>t. t_pre t \<noteq> []) (tl (fst c)) \<and> list_all blank (snd c)"

definition named :: "command_line \<Rightarrow> bool" where
  "named c \<longleftrightarrow> list_ex (\<lambda>t. t_kind t = ARG_NORMAL) (fst c)"

text \<open>The words are the arguments; of several redirections of one kind the last one counts.\<close>

definition redir_of :: "arg_kind_t \<Rightarrow> token list \<Rightarrow> string option" where
  "redir_of k ts = (let us = filter (\<lambda>t. t_kind t = k) ts in if us = [] then None else Some (t_word (last us)))"

definition command_of :: "command_line \<Rightarrow> ascommand" where
  "command_of c = \<lparr>a_args = map t_word (filter (\<lambda>t. t_kind t = ARG_NORMAL) (fst c)),
     a_out = redir_of ARG_OUTPUT (fst c), a_in = redir_of ARG_INPUT (fst c)\<rparr>"

text \<open>A line: commands with bars between them, and perhaps \<open>&\<close> with more characters behind it.\<close>

definition line_text :: "command_line list \<Rightarrow> string option \<Rightarrow> string" where
  "line_text cs bg = join ''|'' (map command_chars cs) @ (case bg of None \<Rightarrow> [] | Some t \<Rightarrow> CHR ''&'' # t)"

definition line_ok :: "command_line list \<Rightarrow> string option \<Rightarrow> bool" where
  "line_ok cs bg \<longleftrightarrow> cs \<noteq> [] \<and> list_all command_ok cs
     \<and> (case bg of None \<Rightarrow> True | Some t \<Rightarrow> newline \<notin> set t \<and> named (last cs) \<and> snd (last cs) \<noteq> [])"

datatype line_meaning = Pipeline apipeline | Syntax_error | Garbage

definition meaning :: "command_line list \<Rightarrow> string option \<Rightarrow> line_meaning" where
  "meaning cs bg =
     (if \<not> list_all named (butlast cs) then Garbage
      else if \<not> named (last cs) then Syntax_error
      else case bg of None \<Rightarrow> Pipeline \<lparr>a_cmds = map command_of cs, a_wait = True\<rparr>
        | Some t \<Rightarrow> if list_all blank t then Pipeline \<lparr>a_cmds = map command_of cs, a_wait = False\<rparr> else Garbage)"

subsection \<open>Lemmas: reading a line\<close>

definition add_token :: "token \<Rightarrow> ascommand \<Rightarrow> ascommand" where
  "add_token t a = (case t_kind t of ARG_NORMAL \<Rightarrow> a\<lparr>a_args := a_args a @ [t_word t]\<rparr>
     | ARG_INPUT \<Rightarrow> a\<lparr>a_in := Some (t_word t)\<rparr> | ARG_OUTPUT \<Rightarrow> a\<lparr>a_out := Some (t_word t)\<rparr>)"

lemma redir_of_snoc: "redir_of k (ts @ [t]) = (if t_kind t = k then Some (t_word t) else redir_of k ts)"
  by (simp add: redir_of_def Let_def)

lemma fold_add_token:
  "fold add_token ts \<lparr>a_args = [], a_out = None, a_in = None\<rparr> = command_of (ts, e)"
proof (induction ts rule: rev_induct)
  case (snoc t ts)
  then show ?case
    by (cases "t_kind t") (simp_all add: add_token_def command_of_def redir_of_snoc)
qed (simp add: command_of_def redir_of_def)

lemma blank_not_plain: "plain_char c \<Longrightarrow> \<not> blank c"
  by (auto simp: plain_char_def blank_def Let_def)

lemma dropWhile_blanks: "list_all blank bs \<Longrightarrow> dropWhile blank (bs @ s) = dropWhile blank s"
  by (induction bs) auto

lemma dropWhile_sign:
  assumes "list_all blank bs" and "plain_word w" and "k = ARG_NORMAL \<longrightarrow> bs = []"
  shows "dropWhile blank (redir_sign k @ bs @ w @ s) = redir_sign k @ bs @ w @ s"
  using assms by (cases k; cases w) (auto simp: plain_word_def blank_not_plain blank_def [of "CHR ''<''"] blank_def [of "CHR ''>''"])

abbreviation stop :: "char \<Rightarrow> bool" where
  "stop c \<equiv> c = newline \<or> c = CHR ''|'' \<or> c = CHR ''&''"

lemma stop_blank: "stop c \<Longrightarrow> \<not> blank c"
  by (auto simp: blank_def)

text \<open>Behind a token there is a blank, or the character that ends the command.\<close>

lemma behind_token:
  assumes "list_all token_ok ts" and "list_all (\<lambda>t. t_pre t \<noteq> []) ts" and "list_all blank e"
    and "stop st" and "st = CHR ''&'' \<Longrightarrow> e \<noteq> []"
  shows "\<exists>c r. concat (map token_text ts) @ e @ st # later = c # r \<and> (blank c \<or> c = newline \<or> c = CHR ''|'')"
proof (cases ts)
  case Nil
  then show ?thesis using assms(3-5) by (cases e) auto
next
  case (Cons t ts')
  with assms(1,2) show ?thesis by (cases "t_pre t") (auto simp: token_text_def token_ok_def)
qed

locale line_parser = pipeline_parser Q items P pitems L rest + word_lexer L rest
  for Q :: "(cbuf, 'q) gqueue_ops" and items :: "'q \<Rightarrow> cbuf list"
    and P :: "('q, 'p) pipeline_ops" and pitems :: "'p \<Rightarrow> 'q scommand_s list"
    and L :: "'s parser_ops" and rest :: "'s \<Rightarrow> string"
begin

lemma add_argument_token:
  assumes "wf c" and "is_cstr b" and "str b = t_word t"
  shows "\<exists>c'. add_argument Q (Ref c) (t_kind t) (Ref b) = Some (Ref c') \<and> wf c' \<and> abs c' = add_token t (abs c)"
  using push_back_refines [OF assms(1,2)] set_redir_refines [OF assms(1), of "Ref b"] assms
  by (cases "t_kind t") (auto simp: add_argument_def add_token_def)

lemma parse_args_line:
  assumes "wf c" and "list_all token_ok ts" and "list_all (\<lambda>t. t_pre t \<noteq> []) (tl ts)" and "list_all blank e"
    and "stop st" and "st = CHR ''&'' \<Longrightarrow> ts \<noteq> [] \<Longrightarrow> e \<noteq> []"
    and "dropWhile blank (rest p) = dropWhile blank (concat (map token_text ts) @ e @ st # later)"
    and "parser_next_argument L p = (a, k, p')"
  shows "\<exists>c' p''. parse_args Q L (Ref c) a k p' = Some (Ref c', ARG_NORMAL, p'') \<and> wf c'
    \<and> abs c' = fold add_token ts (abs c) \<and> dropWhile blank (rest p'') = st # later"
  using assms
proof (induction ts arbitrary: p c a k p')
  case Nil
  then have "dropWhile blank (rest p) = st # later"
    by (simp add: dropWhile_blanks stop_blank)
  from no_word [OF this] Nil show ?case
    by (auto simp: parse_args.simps [of Q L "Ref c" NULL])
next
  case (Cons t ts)
  note tok = Cons.prems(2) [simplified, THEN conjunct1, unfolded token_ok_def]
  have pres: "list_all (\<lambda>t. t_pre t \<noteq> []) ts" and toks: "list_all token_ok ts" using Cons.prems(2,3) by simp_all
  then have tl: "list_all (\<lambda>t. t_pre t \<noteq> []) (tl ts)" by (cases ts) auto
  obtain d r where d: "concat (map token_text ts) @ e @ st # later = d # r" "blank d \<or> d = newline \<or> d = CHR ''|''"
    using behind_token [OF toks pres Cons.prems(4,5)] Cons.prems(6) by blast
  have "dropWhile blank (rest p) = redir_sign (t_kind t) @ t_gap t @ t_word t @ d # r"
    using Cons.prems(7) tok dropWhile_sign [of "t_gap t" "t_word t" "t_kind t" "d # r"]
    unfolding d(1) [symmetric] by (simp add: token_text_def [of t] dropWhile_blanks)
  from next_word [OF this] tok d(2) obtain b p1 where b: "parser_next_argument L p = (Ref b, t_kind t, p1)"
    "is_cstr b" "str b = t_word t" "dropWhile blank (rest p1) = dropWhile blank (d # r)" by blast
  obtain c1 where c1: "add_argument Q (Ref c) (t_kind t) (Ref b) = Some (Ref c1)" "wf c1" "abs c1 = add_token t (abs c)"
    using add_argument_token [OF Cons.prems(1) b(2,3)] by blast
  obtain a2 k2 p2 where n: "parser_next_argument L p1 = (a2, k2, p2)" using prod_cases3 by blast
  from Cons.IH [OF c1(2) toks tl Cons.prems(4,5) Cons.prems(6) b(4) [folded d(1)] n] c1 b(1) n Cons.prems(8)
  show ?case by (simp add: parse_args.simps [of Q L "Ref c" "Ref b"])
qed

lemma parse_scommand_line:
  assumes "rest p = command_chars c @ st # later" and "command_ok c" and "stop st"
    and "st = CHR ''&'' \<Longrightarrow> fst c \<noteq> [] \<Longrightarrow> snd c \<noteq> []"
  shows "\<exists>p'. dropWhile blank (rest p') = st # later \<and> (if named c
    then \<exists>d. parse_scommand Q L True (Ref p) = Some (Ref d, Ref p') \<and> wf d \<and> abs d = command_of c
    else parse_scommand Q L True (Ref p) = Some (NULL, Ref p'))"
proof -
  obtain c0 where c0: "scommand_new Q True = Some (Ref c0)" "wf c0" "abs c0 = \<lparr>a_args = [], a_out = None, a_in = None\<rparr>"
    using new_refines by blast
  let ?p = "parser_skip_blanks L p"
  obtain a k p1 where n: "parser_next_argument L ?p = (a, k, p1)"
    using prod_cases3 by blast
  have "rest p \<noteq> []" using assms(1) by simp
  then have r: "dropWhile blank (rest ?p) = dropWhile blank (concat (map token_text (fst c)) @ snd c @ st # later)"
    by (simp add: skip_blanks assms(1) command_chars_def)
  note ok = assms(2) [unfolded command_ok_def]
  from parse_args_line [OF c0(2) _ _ _ assms(3,4) r n] ok obtain d p' where
    d: "parse_args Q L (Ref c0) a k p1 = Some (Ref d, ARG_NORMAL, p')" "wf d" "abs d = command_of c"
      "dropWhile blank (rest p') = st # later"
    using fold_add_token [of "fst c" "snd c"] c0(3) by auto
  have "a_args (abs d) = [] \<longleftrightarrow> \<not> named c"
    unfolding d(3) by (simp add: command_of_def named_def filter_empty_conv list_ex_iff)
  then show ?thesis
    using c0(1) n d is_empty_refines [OF d(2)]
    by (intro exI [of _ p']) (simp add: parse_scommand_def scommand_destroy_def scommand_inv_def Let_def)
qed


text \<open>Where the loop over the bars stops: the rest starts, behind blanks, with \<open>st\<close>.\<close>

lemma parse_commands_line:
  assumes "rest p = join ''|'' (map command_chars cs) @ st # later" and "cs \<noteq> []" and "list_all command_ok cs"
    and "st = newline \<or> st = CHR ''&'' \<and> snd (last cs) \<noteq> []" and "pwf s"
  shows "\<exists>s' p'. parse_commands Q P L True True False (Ref s) (Ref p) = Some (Ref s', \<not> list_all named cs, Ref p') \<and> pwf s'
    \<and> (if list_all named cs then rest p' = st # later \<and> pabs s' = (pabs s)\<lparr>a_cmds := a_cmds (pabs s) @ map command_of cs\<rparr>
       else if list_all named (butlast cs) then dropWhile blank (rest p') = st # later
       else \<exists>r. dropWhile blank (rest p') = CHR ''|'' # r @ st # later)"
  using assms
proof (induction cs arbitrary: p s)
  case (Cons c cs)
  note ok = Cons.prems(3) [simplified]
  obtain d r where d: "rest p = command_chars c @ d # r" "d = (if cs = [] then st else CHR ''|'')"
      "r = (if cs = [] then later else join ''|'' (map command_chars cs) @ st # later)"
    using Cons.prems(1) by (cases cs) auto
  have "stop d" "d = CHR ''&'' \<Longrightarrow> fst c \<noteq> [] \<Longrightarrow> snd c \<noteq> []"
    using d(2) Cons.prems(4) by (auto split: if_splits)
  from parse_scommand_line [OF d(1) ok [THEN conjunct1] this] obtain p1 where
    p1: "dropWhile blank (rest p1) = d # r" "if named c
      then \<exists>x. parse_scommand Q L True (Ref p) = Some (Ref x, Ref p1) \<and> wf x \<and> abs x = command_of c
      else parse_scommand Q L True (Ref p) = Some (NULL, Ref p1)" by blast
  show ?case
  proof (cases "named c")
    case False
    then have "parse_commands Q P L True True False (Ref s) (Ref p) = Some (Ref s, True, Ref p1)"
      using p1(2) by (simp add: parse_commands.simps [of Q P L True True True]
          parse_commands.simps [of Q P L True True False])
    with False p1(1) d(2,3) Cons.prems(5) show ?thesis by (cases cs) auto
  next
    case True
    then obtain x where x: "parse_scommand Q L True (Ref p) = Some (Ref x, Ref p1)" "wf x" "abs x = command_of c"
      using p1(2) by auto
    let ?p = "parser_skip_blanks L p1"
    have ne: "rest p1 \<noteq> []" using p1(1) by auto
    have r: "rest ?p = d # r" using skip_blanks [OF ne] p1(1) by simp
    obtain s1 where s1: "pipeline_push_back P (Ref s) (Ref x) = Some (Ref s1)" "pwf s1"
        "pabs s1 = (pabs s)\<lparr>a_cmds := a_cmds (pabs s) @ [command_of c]\<rparr>"
      using ppush_back_refines [OF Cons.prems(5) x(2)] x(3) by auto
    obtain b p2 where b: "parser_op_pipe L ?p = (b, p2)" by fastforce
    have unfold: "parse_commands Q P L True True False (Ref s) (Ref p)
        = parse_commands Q P L True b False (Ref s1) (Ref p2)"
      using x(1) s1(1) b by (simp add: parse_commands.simps [of Q P L True True False "Ref s" "Ref p"])
    show ?thesis
    proof (cases "cs = []")
      case True
      then have "\<not> b" "rest p2 = st # later"
        using op_pipe [of ?p] b r d(2,3) Cons.prems(4) by (auto split: if_splits)
      with True \<open>named c\<close> s1 show ?thesis
        by (simp add: unfold parse_commands.simps [of Q P L True False])
    next
      case False
      then have "b" and p2: "rest p2 = join ''|'' (map command_chars cs) @ st # later"
        using op_pipe [of ?p] b r d(2,3) by simp_all
      have "st = newline \<or> st = CHR ''&'' \<and> snd (last cs) \<noteq> []" using Cons.prems(4) False by simp
      from Cons.IH [OF p2 False ok [THEN conjunct2] this s1(2)]
      show ?thesis
      proof (elim exE, goal_cases)
        case (1 s' p')
        then show ?case using False \<open>named c\<close> \<open>b\<close> s1(3)
          by (intro exI [of _ s'] exI [of _ p']) (auto simp: unfold)
      qed
    qed
  qed
qed simp


lemma blanks_then:
  "dropWhile blank x = d # r \<Longrightarrow> list_ex (\<lambda>c. \<not> blank c) (takeWhile (\<lambda>c. c \<noteq> newline) x) = (d \<noteq> newline)"
  "dropWhile blank x = d # r \<Longrightarrow> next_line x = next_line (d # r)"
  "dropWhile blank x = d # r \<Longrightarrow> hd x = d \<or> blank (hd x)"
proof -
  have n: "\<not> blank newline" by (simp add: blank_def)
  show "dropWhile blank x = d # r \<Longrightarrow> list_ex (\<lambda>c. \<not> blank c) (takeWhile (\<lambda>c. c \<noteq> newline) x) = (d \<noteq> newline)"
    by (induction x) (use n in \<open>auto split: if_splits\<close>)
  show "dropWhile blank x = d # r \<Longrightarrow> next_line x = next_line (d # r)"
    by (induction x) (use n in \<open>auto simp: next_line_def split: if_splits\<close>)
  show "dropWhile blank x = d # r \<Longrightarrow> hd x = d \<or> blank (hd x)"
    by (cases x) (auto split: if_splits)
qed

text \<open>After a syntax error only the end of the line may follow, anything else is garbage.\<close>

lemma parse_pipeline_error:
  assumes "newline \<in> set (rest p)" and "pwf s"
    and c: "parse_commands Q P L True True False (Ref s0) (Ref p) = Some (Ref s, True, Ref p1)"
    and s0: "pipeline_new P True = Some (Ref s0)" and line: "within_line (rest p) (rest p1)"
    and d: "dropWhile blank (rest p1) = d # r" "d \<noteq> CHR ''&''"
  shows "if d = newline then \<exists>p'. parse_pipeline Q P L True (Ref p) = Some (NULL, Ref p') \<and> rest p' = r
    else parse_pipeline Q P L True (Ref p) = Some (NULL, Freed)"
proof -
  note start = parse_pipeline_start [OF assms(1) c s0 line]
  have ne: "rest p1 \<noteq> []" using d(1) by auto
  obtain bg p2 where bg: "parser_op_background L p1 = (bg, p2)" by fastforce
  obtain g p3 where g: "parser_garbage L p2 = (g, p3)" by fastforce
  have "hd (rest p1) \<noteq> CHR ''&''"
    using blanks_then(3) [OF d(1)] d(2) by (auto simp: blank_def)
  then have p2: "\<not> bg" "rest p2 = rest p1"
    using op_background [OF ne] bg by simp_all
  then have g': "g = (d \<noteq> newline)" and p3: "rest p3 = next_line (d # r)"
    using garbage [of p2] ne g blanks_then(1,2) [OF d(1)] by simp_all
  obtain s1 where s1: "pipeline_set_wait (Ref s) True = Some (Ref s1)" "pwf s1"
    using pset_wait_refines [OF assms(2), of True] by blast
  show ?thesis
    using p2(1) bg g g' p3 s1 pdestroy_returns_NULL [of s1] plength_refines [OF s1(2)]
    by (auto simp: start next_line_def)
qed

lemma parse_pipeline_good:
  assumes "newline \<in> set (rest p)" and "pwf s" and "a_cmds (pabs s) \<noteq> []"
    and c: "parse_commands Q P L True True False (Ref s0) (Ref p) = Some (Ref s, False, Ref p1)"
    and s0: "pipeline_new P True = Some (Ref s0)" and line: "within_line (rest p) (rest p1)"
    and r: "rest p1 = (case bg of None \<Rightarrow> [] | Some t \<Rightarrow> CHR ''&'' # t) @ newline # later"
    and t: "case bg of None \<Rightarrow> True | Some t \<Rightarrow> newline \<notin> set t"
  shows "if (case bg of None \<Rightarrow> True | Some t \<Rightarrow> list_all blank t)
    then \<exists>s' p'. parse_pipeline Q P L True (Ref p) = Some (Ref s', Ref p') \<and> pwf s'
      \<and> pabs s' = (pabs s)\<lparr>a_wait := (bg = None)\<rparr> \<and> rest p' = later
    else parse_pipeline Q P L True (Ref p) = Some (NULL, Freed)"
proof -
  note start = parse_pipeline_start [OF assms(1) c s0 line]
  have ne: "rest p1 \<noteq> []" using r by (cases bg) auto
  obtain b p2 where b: "parser_op_background L p1 = (b, p2)" by fastforce
  obtain g p3 where g: "parser_garbage L p2 = (g, p3)" by fastforce
  let ?t = "case bg of None \<Rightarrow> [] | Some t \<Rightarrow> t"
  have p2: "b = (bg \<noteq> None)" "rest p2 = ?t @ newline # later"
    using op_background [OF ne] b r by (auto split: option.splits)
  have nt: "newline \<notin> set ?t" using t by (auto split: option.splits)
  then have "takeWhile (\<lambda>c. c \<noteq> newline) (rest p2) = ?t" "next_line (rest p2) = later"
    unfolding p2(2) next_line_def
    by (auto simp: takeWhile_append dropWhile_append split: option.splits)
  then have g': "g = (\<not> list_all blank ?t)" "rest p3 = later"
    using garbage [of p2] g p2(2) by (auto simp: list_ex_iff list_all_iff)
  obtain s1 where s1: "pipeline_set_wait (Ref s) (\<not> b) = Some (Ref s1)" "pwf s1" "pabs s1 = (pabs s)\<lparr>a_wait := \<not> b\<rparr>"
    using pset_wait_refines [OF assms(2), of "\<not> b"] by blast
  show ?thesis
    using b g g' p2(1) s1 assms(3) plength_refines [OF s1(2)]
    by (cases bg) (auto simp: start)
qed

lemma parse_line:
  assumes "rest p = line_text cs bg @ newline # later" and "line_ok cs bg"
  shows "case meaning cs bg of
      Pipeline a \<Rightarrow> \<exists>s p'. parse_pipeline Q P L True (Ref p) = Some (Ref s, Ref p') \<and> pwf s \<and> pabs s = a \<and> rest p' = later
    | Syntax_error \<Rightarrow> \<exists>p'. parse_pipeline Q P L True (Ref p) = Some (NULL, Ref p') \<and> rest p' = later
    | Garbage \<Rightarrow> parse_pipeline Q P L True (Ref p) = Some (NULL, Freed)"
proof -
  let ?st = "case bg of None \<Rightarrow> newline | Some t \<Rightarrow> CHR ''&''"
  let ?later = "case bg of None \<Rightarrow> later | Some t \<Rightarrow> t @ newline # later"
  have ok: "cs \<noteq> []" "list_all command_ok cs" "?st = newline \<or> ?st = CHR ''&'' \<and> snd (last cs) \<noteq> []"
    and bg: "case bg of None \<Rightarrow> True | Some t \<Rightarrow> newline \<notin> set t \<and> named (last cs)"
    using assms(2) by (auto simp: line_ok_def split: option.splits)
  have r: "rest p = join ''|'' (map command_chars cs) @ ?st # ?later"
    using assms(1) by (simp add: line_text_def split: option.splits)
  have nl: "newline \<in> set (rest p)" using assms(1) by simp
  obtain s0 where s0: "pipeline_new P True = Some (Ref s0)" "pwf s0" "pabs s0 = \<lparr>a_cmds = [], a_wait = True\<rparr>"
    using pnew_refines by blast
  obtain s p1 where c: "parse_commands Q P L True True False (Ref s0) (Ref p) = Some (Ref s, \<not> list_all named cs, Ref p1)"
    "pwf s" and e: "if list_all named cs then rest p1 = ?st # ?later \<and> pabs s = (pabs s0)\<lparr>a_cmds := a_cmds (pabs s0) @ map command_of cs\<rparr>
       else if list_all named (butlast cs) then dropWhile blank (rest p1) = ?st # ?later
       else \<exists>r. dropWhile blank (rest p1) = CHR ''|'' # r @ ?st # ?later"
    using parse_commands_line [OF r ok s0(2)] by (elim exE conjE)
  have line: "within_line (rest p) (rest p1)"
  proof -
    have "good s0" using s0(2,3) by (simp add: good_def)
    from parse_commands_ok [OF this disjI1 [OF TrueI] nl] c(1) show ?thesis by auto
  qed
  have all: "list_all named cs \<longleftrightarrow> list_all named (butlast cs) \<and> named (last cs)"
    using ok(1) by (subst append_butlast_last_id [symmetric]) (simp_all del: append_butlast_last_id)
  show ?thesis
  proof (cases "list_all named cs")
    case True
    have rp: "rest p1 = (case bg of None \<Rightarrow> [] | Some t \<Rightarrow> CHR ''&'' # t) @ newline # later"
      using e True by (auto split: option.splits)
    have a: "pabs s = \<lparr>a_cmds = map command_of cs, a_wait = True\<rparr>" using e True s0(3) by simp
    then have ne: "a_cmds (pabs s) \<noteq> []" using ok(1) by simp
    have t: "case bg of None \<Rightarrow> True | Some t \<Rightarrow> newline \<notin> set t" using bg by (auto split: option.splits)
    from parse_pipeline_good [OF nl c(2) ne _ s0(1) line rp t] c(1) True a all show ?thesis
      by (cases bg) (auto simp: meaning_def)
  next
    case False
    then have c': "parse_commands Q P L True True False (Ref s0) (Ref p) = Some (Ref s, True, Ref p1)"
      using c(1) by simp
    show ?thesis
    proof (cases "list_all named (butlast cs)")
      case True
      then have "\<not> named (last cs)" using False all by simp
      moreover then have "bg = None" using bg by (cases bg) auto
      ultimately show ?thesis
        using True False e parse_pipeline_error [OF nl c(2) c' s0(1) line, of newline later] by (simp add: meaning_def)
    next
      case rest: False
      then obtain r where "dropWhile blank (rest p1) = CHR ''|'' # r @ ?st # ?later" using False e by auto
      from parse_pipeline_error [OF nl c(2) c' s0(1) line this] rest show ?thesis
        by (simp add: meaning_def)
    qed
  qed
qed

end

subsection \<open>The lexer over strings\<close>

lemma word_char_plain: "plain_char c \<Longrightarrow> word_char c"
  by (auto simp: plain_char_def word_char_def blank_def Let_def)

lemma word_split:
  assumes "plain_word w" and "blank c \<or> c = newline \<or> c = CHR ''|''"
  shows "takeWhile word_char (w @ c # r) = w" and "dropWhile word_char (w @ c # r) = c # r" and "w \<noteq> []"
proof -
  have "\<not> word_char c" using assms(2) by (auto simp: word_char_def)
  moreover have "\<forall>x\<in>set w. word_char x" using assms(1) by (auto simp: plain_word_def list_all_iff word_char_plain)
  ultimately show "takeWhile word_char (w @ c # r) = w" and "dropWhile word_char (w @ c # r) = c # r"
    by (simp_all add: takeWhile_append dropWhile_append)
  show "w \<noteq> []" using assms(1) by (simp add: plain_word_def)
qed

lemma str_cstr_word: "plain_word w \<Longrightarrow> str (cstr w) = w"
  by (subst str_cstr) (auto simp: plain_word_def list_all_iff plain_char_def)

interpretation strwords: word_lexer string_lexer "\<lambda>s. s"
proof unfold_locales
  fix s k bs w c r
  assume s: "dropWhile blank s = redir_sign k @ bs @ w @ c # r" and bs: "list_all blank bs" "k = ARG_NORMAL \<longrightarrow> bs = []"
    and w: "plain_word w" and c: "blank c \<or> c = newline \<or> c = CHR ''|''"
  note sp = word_split [OF w c]
  have d: "dropWhile blank (bs @ w @ c # r) = w @ c # r"
    using dropWhile_sign [of "[]" w ARG_NORMAL "c # r"] w bs(1) by (simp add: dropWhile_blanks)
  have hd: "\<exists>x xs. w = x # xs \<and> plain_char x" using w by (cases w) (auto simp: plain_word_def)
  have "lex_argument s = (Ref (cstr w), k, c # r)"
  proof (cases k)
    case ARG_NORMAL
    then have "dropWhile blank s = w @ c # r" "bs = []" using s bs(2) by simp_all
    moreover have "w @ c # r \<noteq> [] \<and> hd (w @ c # r) \<noteq> CHR ''<'' \<and> hd (w @ c # r) \<noteq> CHR ''>''"
      using hd by (auto simp: plain_char_def Let_def)
    ultimately show ?thesis using d sp ARG_NORMAL by (simp add: lex_argument_def lex_word_def Let_def)
  qed (use s d sp in \<open>simp_all add: lex_argument_def lex_word_def Let_def\<close>)
  then show "\<exists>b p'. parser_next_argument string_lexer s = (Ref b, k, p') \<and> is_cstr b \<and> str b = w
      \<and> dropWhile blank p' = dropWhile blank (c # r)"
    using w by (simp add: string_lexer_def str_cstr_word)
next
  fix s c r
  assume s: "dropWhile blank s = c # r" and c: "c = newline \<or> c = CHR ''|'' \<or> c = CHR ''&''"
  then have n: "\<not> blank c" "\<not> word_char c" "c \<noteq> CHR ''<''" "c \<noteq> CHR ''>''"
    by (auto simp: blank_def word_char_def)
  then have "lex_argument s = (NULL, ARG_NORMAL, c # r)"
    by (simp add: lex_argument_def lex_word_def s)
  with n show "\<exists>p'. parser_next_argument string_lexer s = (NULL, ARG_NORMAL, p') \<and> dropWhile blank p' = c # r"
    by (simp add: string_lexer_def)
qed

interpretation llp: line_parser list_gqueue "\<lambda>q. q" list_gqueue "\<lambda>q. q" string_lexer "\<lambda>s. s"
  by (intro line_parser.intro lpp.pipeline_parser_axioms strwords.word_lexer_axioms)

subsection \<open>Printing a pipeline\<close>

text \<open>A command whose printed form is a command of the grammar.\<close>

definition plain_command :: "ascommand \<Rightarrow> bool" where
  "plain_command a \<longleftrightarrow> a_args a \<noteq> [] \<and> list_all plain_word (a_args a)
     \<and> pred_option plain_word (a_out a) \<and> pred_option plain_word (a_in a)"

text \<open>The tokens that \<open>scommand_to_string\<close> prints, with \<open>pre\<close> before the first.\<close>

definition printed_redir :: "arg_kind_t \<Rightarrow> string option \<Rightarrow> token list" where
  "printed_redir k f = (case f of None \<Rightarrow> [] | Some w \<Rightarrow> [Token ''  '' k ''  '' w])"

definition printed :: "string \<Rightarrow> ascommand \<Rightarrow> token list" where
  "printed pre a = Token pre ARG_NORMAL [] (hd (a_args a)) # map (Token '' '' ARG_NORMAL []) (tl (a_args a))
     @ printed_redir ARG_OUTPUT (a_out a) @ printed_redir ARG_INPUT (a_in a)"

fun printed_line :: "string \<Rightarrow> bool \<Rightarrow> ascommand list \<Rightarrow> command_line list" where
  "printed_line pre w [] = []"
| "printed_line pre w [a] = [(printed pre a, if w then [] else '' '')]"
| "printed_line pre w (a # b # as) = (printed pre a, '' '') # printed_line '' '' w (b # as)"

lemma join_words: "xs \<noteq> [] \<Longrightarrow> join '' '' xs = hd xs @ concat (map (\<lambda>y. CHR '' '' # y) (tl xs))"
  by (induction "'' '' :: string" xs rule: join.induct) auto

lemma plain_word_last: "plain_word w \<Longrightarrow> last w \<noteq> CHR '' ''"
proof -
  assume w: "plain_word w"
  then have "plain_char (last w)" by (simp add: plain_word_def list_all_iff)
  then show ?thesis by (auto simp: plain_char_def)
qed

lemma redir_tokens:
  "concat (map token_text (printed_redir ARG_OUTPUT f)) = redir_text ''  >  '' f"
  "concat (map token_text (printed_redir ARG_INPUT f)) = redir_text ''  <  '' f"
  by (simp_all add: printed_redir_def redir_text_def token_text_def split: option.splits)

lemma printed_text:
  assumes "plain_command a"
  shows "concat (map token_text (printed pre a)) = pre @ scommand_text a"
proof -
  let ?o = "redir_text ''  >  '' (a_out a)" and ?i = "redir_text ''  <  '' (a_in a)"
  obtain x xs where x: "a_args a = x # xs" "plain_word x" "list_all plain_word xs"
    using assms by (cases "a_args a") (auto simp: plain_command_def)
  have args: "join '' '' (x # xs) = x @ concat (map (\<lambda>y. CHR '' '' # y) xs)"
    by (simp add: join_words)
  let ?t = "join '' '' (x # xs) @ ?o @ ?i"
  have "last (x @ concat (map (\<lambda>y. CHR '' '' # y) xs)) \<noteq> CHR '' ''"
    using x(2,3) by (cases xs rule: rev_cases) (auto simp: plain_word_last plain_word_def dest: plain_word_last)
  moreover have "\<forall>f. a_out a = Some f \<longrightarrow> plain_word f" "\<forall>f. a_in a = Some f \<longrightarrow> plain_word f"
    using assms by (auto simp: plain_command_def)
  ultimately have "last ?t \<noteq> CHR '' ''"
    using x(2) by (auto simp: args redir_text_def plain_word_def plain_word_last split: option.splits
        dest: plain_word_last)
  then have "scommand_text a = ?t" by (simp add: scommand_text_def trim_last_def x(1))
  then show ?thesis
    by (simp add: printed_def redir_tokens x(1) args token_text_def comp_def)
qed

lemma blank_space [simp]: "blank CHR '' ''"
  by (simp add: blank_def)

lemma printed_ok:
  assumes "plain_command a" and "list_all blank pre" and "list_all blank e"
  shows "command_ok (printed pre a, e)" and "named (printed pre a, e)" and "command_of (printed pre a, e) = a"
proof -
  obtain x xs where x: "a_args a = x # xs" "plain_word x" "list_all plain_word xs"
    using assms(1) by (cases "a_args a") (auto simp: plain_command_def)
  have f: "pred_option plain_word (a_out a)" "pred_option plain_word (a_in a)"
    using assms(1) by (simp_all add: plain_command_def)
  have r: "list_all token_ok (printed_redir k g)" "list_all (\<lambda>t. t_pre t \<noteq> []) (printed_redir k g)"
    if "pred_option plain_word g" "k \<noteq> ARG_NORMAL" for k g
    using that by (cases g; simp add: printed_redir_def token_ok_def)+
  show "command_ok (printed pre a, e)"
    using x f assms(2,3)
    by (simp add: command_ok_def printed_def r list.pred_map list.pred_True comp_def token_ok_def)
  show "named (printed pre a, e)" by (simp add: named_def printed_def)
  have k: "filter (\<lambda>t. t_kind t = k) (printed_redir k' g) = (if k = k' then printed_redir k' g else [])" for k k' g
    by (cases g) (simp_all add: printed_redir_def)
  have w: "filter (\<lambda>t. t_kind t = k) (map (Token '' '' ARG_NORMAL []) ys)
      = (if k = ARG_NORMAL then map (Token '' '' ARG_NORMAL []) ys else [])" for k ys
    by (induction ys) simp_all
  have o: "redir_of ARG_OUTPUT (printed pre a) = a_out a" "redir_of ARG_INPUT (printed pre a) = a_in a"
    by (cases "a_out a"; simp add: redir_of_def printed_def k w; simp add: printed_redir_def)
      (cases "a_in a"; simp add: redir_of_def printed_def k w; simp add: printed_redir_def)
  have "map t_word (filter (\<lambda>t. t_kind t = ARG_NORMAL) (printed pre a)) = a_args a"
    by (simp add: printed_def k w x(1) comp_def)
  then show "command_of (printed pre a, e) = a"
    by (simp add: command_of_def o)
qed

lemma printed_line_ok:
  assumes "list_all plain_command as" and "as \<noteq> []" and "list_all blank pre"
  shows "printed_line pre w as \<noteq> []" and "list_all command_ok (printed_line pre w as)"
    and "list_all named (printed_line pre w as)" and "map command_of (printed_line pre w as) = as"
    and "snd (last (printed_line pre w as)) = (if w then [] else '' '')"
    and "join ''|'' (map command_chars (printed_line pre w as))
      = pre @ join '' | '' (map scommand_text as) @ (if w then [] else '' '')"
proof -
  have "printed_line pre w as \<noteq> [] \<and> list_all command_ok (printed_line pre w as)
    \<and> list_all named (printed_line pre w as) \<and> map command_of (printed_line pre w as) = as
    \<and> snd (last (printed_line pre w as)) = (if w then [] else '' '')
    \<and> join ''|'' (map command_chars (printed_line pre w as))
      = pre @ join '' | '' (map scommand_text as) @ (if w then [] else '' '')"
    using assms
  proof (induction pre w as rule: printed_line.induct)
    case (2 pre w a)
    then show ?case by (simp add: printed_ok command_chars_def printed_text)
  next
    case (3 pre w a b as)
    then have IH: "printed_line '' '' w (b # as) \<noteq> []" by simp
    then obtain l ls where l: "printed_line '' '' w (b # as) = l # ls" by (auto simp: neq_Nil_conv)
    show ?case
      using 3 by (simp add: printed_ok command_chars_def [of "(printed pre a, '' '')"] printed_text l)
  qed simp
  then show "printed_line pre w as \<noteq> []" and "list_all command_ok (printed_line pre w as)"
    and "list_all named (printed_line pre w as)" and "map command_of (printed_line pre w as) = as"
    and "snd (last (printed_line pre w as)) = (if w then [] else '' '')"
    and "join ''|'' (map command_chars (printed_line pre w as))
      = pre @ join '' | '' (map scommand_text as) @ (if w then [] else '' '')" by blast+
qed

lemma printed_pipeline:
  assumes "list_all plain_command (a_cmds a)" and "a_cmds a \<noteq> []"
  defines "cs \<equiv> printed_line [] (a_wait a) (a_cmds a)" and "bg \<equiv> if a_wait a then None else Some []"
  shows "line_text cs bg = pipeline_text a" and "line_ok cs bg" and "meaning cs bg = Pipeline a"
proof -
  note pl = printed_line_ok [OF assms(1,2), of "[]" "a_wait a", folded cs_def, simplified]
  show "line_text cs bg = pipeline_text a"
    using pl(6) by (simp add: line_text_def pipeline_text_def bg_def)
  have n: "named (last cs)" "list_all named (butlast cs)"
    using pl(1,3) by (auto simp: list_all_iff dest: in_set_butlastD)
  then show "line_ok cs bg"
    using pl(1,2,5) by (simp add: line_ok_def bg_def)
  show "meaning cs bg = Pipeline a"
    using n pl(4) by (cases a) (simp add: meaning_def bg_def)
qed

subsection \<open>Properties\<close>

lemma line_parserI:
  assumes "gqueue Q items" and "gqueue P pitems" and "word_lexer L rest"
  shows "line_parser Q items P pitems L rest"
  by (intro line_parser.intro pipeline_parser.intro pipeline_queues.intro scommand_queue.intro assms
      word_lexer.axioms(1) [OF assms(3)])

text \<open>
  C33. \<open>parse_pipeline\<close> on every line of the grammar: commands of words and redirections, separated by
  bars, with blanks anywhere between them, and perhaps \<open>&\<close> behind a blank and more characters
  after it. If every command has a word and nothing but blanks follows the \<open>&\<close>, the result is the
  pipeline that the line denotes: the words of each command in order, its last input and its last
  output redirection, and a wait flag that is off exactly when there is an \<open>&\<close>. If only the last command
  has no word, the result is a null pointer. In both cases the parser stands right after the newline. If
  an earlier command has no word, or something else follows the \<open>&\<close>, the parser is destroyed and the
  result is a null pointer. This holds for every lexer that behaves as \<open>parser.h\<close> documents.
\<close>

theorem parse_pipeline_line:
  assumes "gqueue Q items" and "gqueue P pitems" and "word_lexer L rest"
    and "rest p = line_text cs bg @ newline # later" and "line_ok cs bg"
  shows "case meaning cs bg of
      Pipeline a \<Rightarrow> \<exists>s p'. parse_pipeline Q P L True (Ref p) = Some (Ref s, Ref p')
        \<and> wf_pipeline items pitems s \<and> abs_pipeline items pitems s = a \<and> rest p' = later
    | Syntax_error \<Rightarrow> \<exists>p'. parse_pipeline Q P L True (Ref p) = Some (NULL, Ref p') \<and> rest p' = later
    | Garbage \<Rightarrow> parse_pipeline Q P L True (Ref p) = Some (NULL, Freed)"
  by (rule line_parser.parse_line [OF line_parserI [OF assms(1-3)] assms(4,5)])

text \<open>Three lines: a background pipeline with redirections, a missing command, and a stray bar.\<close>

definition line_tokens :: "token list" where
  "line_tokens = [Token [] ARG_NORMAL [] ''sort'', Token '' '' ARG_INPUT '' '' ''in'', Token '' '' ARG_NORMAL [] ''-r'',
     Token '' '' ARG_OUTPUT [] ''old'', Token '' '' ARG_OUTPUT [] ''out'']"

lemma line_tokens_ok:
  "command_ok (line_tokens, '' '')" "command_ok ([Token '' '' ARG_NORMAL [] ''wc''], '' '')" "command_ok ([], '' '')"
  by (simp_all add: line_tokens_def command_ok_def token_ok_def plain_word_def plain_char_def)

theorem parse_pipeline_line_witness:
  "(\<exists>s. parse_pipeline list_gqueue list_gqueue string_lexer True
        (Ref (''sort < in -r >old >out | wc & '' @ newline # ''x'')) = Some (Ref s, Ref ''x'')
      \<and> abs_pipeline (\<lambda>q. q) (\<lambda>q. q) s = \<lparr>a_cmds = [\<lparr>a_args = [''sort'', ''-r''], a_out = Some ''out'', a_in = Some ''in''\<rparr>,
          \<lparr>a_args = [''wc''], a_out = None, a_in = None\<rparr>], a_wait = False\<rparr>)
    \<and> parse_pipeline list_gqueue list_gqueue string_lexer True
        (Ref (''sort < in -r >old >out | '' @ newline # ''x'')) = Some (NULL, Ref ''x'')
    \<and> parse_pipeline list_gqueue list_gqueue string_lexer True (Ref ('' | wc '' @ newline # ''x'')) = Some (NULL, Freed)"
proof (intro conjI)
  let ?wc = "([Token '' '' ARG_NORMAL [] ''wc''], '' '') :: command_line" and ?no = "([], '' '') :: command_line"
  let ?sort = "(line_tokens, '' '') :: command_line"
  note go = parse_pipeline_line [OF gqueue_list gqueue_list strwords.word_lexer_axioms, where later = "''x''"]
  note sims = line_text_def command_chars_def token_text_def line_tokens_def
  note mean = meaning_def named_def command_of_def redir_of_def line_tokens_def Let_def
  have n: "named ?sort" "named ?wc" by (simp_all add: named_def line_tokens_def)
  show "\<exists>s. parse_pipeline list_gqueue list_gqueue string_lexer True
        (Ref (''sort < in -r >old >out | wc & '' @ newline # ''x'')) = Some (Ref s, Ref ''x'')
      \<and> abs_pipeline (\<lambda>q. q) (\<lambda>q. q) s = \<lparr>a_cmds = [\<lparr>a_args = [''sort'', ''-r''], a_out = Some ''out'', a_in = Some ''in''\<rparr>,
          \<lparr>a_args = [''wc''], a_out = None, a_in = None\<rparr>], a_wait = False\<rparr>"
    using go [of _ "[?sort, ?wc]" "Some '' ''", OF refl] line_tokens_ok(1,2) n
    by (simp add: line_ok_def) (simp add: sims mean; blast)
  show "parse_pipeline list_gqueue list_gqueue string_lexer True
        (Ref (''sort < in -r >old >out | '' @ newline # ''x'')) = Some (NULL, Ref ''x'')"
    using go [of _ "[?sort, ?no]" None, OF refl] line_tokens_ok(1,3)
    by (simp add: line_ok_def) (simp add: sims mean)
  show "parse_pipeline list_gqueue list_gqueue string_lexer True (Ref ('' | wc '' @ newline # ''x'')) = Some (NULL, Freed)"
    using go [of _ "[?no, ?wc]" None, OF refl] line_tokens_ok(2,3)
    by (simp add: line_ok_def) (simp add: sims mean)
qed

text \<open>
  C34. What \<open>pipeline_to_string\<close> prints is read back: for every pipeline of commands that have a word
  and whose words and file names are plain, it returns a string, and when that string stands on a line,
  \<open>parse_pipeline\<close> builds a pipeline with the same commands, arguments, redirections and wait flag and
  leaves the parser after the line.
\<close>

theorem pipeline_roundtrip:
  assumes "gqueue Q items" and "gqueue P pitems" and "word_lexer L rest"
    and "wf_pipeline items pitems s" and "a_cmds (abs_pipeline items pitems s) \<noteq> []"
    and "list_all plain_command (a_cmds (abs_pipeline items pitems s))"
  shows "\<exists>b. pipeline_to_string Q P (Ref s) = Some b \<and> is_cstr b \<and> (\<forall>p later. rest p = str b @ newline # later \<longrightarrow>
    (\<exists>s' p'. parse_pipeline Q P L True (Ref p) = Some (Ref s', Ref p') \<and> wf_pipeline items pitems s'
      \<and> abs_pipeline items pitems s' = abs_pipeline items pitems s \<and> rest p' = later))"
proof -
  let ?a = "abs_pipeline items pitems s"
  have "list_all printable (a_cmds ?a)"
    using assms(6) by (auto simp: list_all_iff plain_command_def printable_def)
  then obtain b where b: "pipeline_to_string Q P (Ref s) = Some b" "is_cstr b" "str b = pipeline_text ?a"
    using pipeline_queues.pto_string_refines [OF pipeline_queues.intro [OF scommand_queue.intro [OF assms(1)] assms(2)] assms(4)]
    by blast
  note pp = printed_pipeline [OF assms(6,5)]
  have "\<exists>s' p'. parse_pipeline Q P L True (Ref p) = Some (Ref s', Ref p') \<and> wf_pipeline items pitems s'
      \<and> abs_pipeline items pitems s' = ?a \<and> rest p' = later" if "rest p = str b @ newline # later" for p later
    using line_parser.parse_line [OF line_parserI [OF assms(1-3)] _ pp(2), of p later] that
    by (simp add: b(3) pp(1,3))
  then show ?thesis using b(1,2) by blast
qed

theorem pipeline_roundtrip_witness:
  "\<exists>b s'. pipeline_to_string list_gqueue list_gqueue
        (Ref \<lparr>pipe = Some [\<lparr>cmd = Some [cstr ''ls'', cstr ''-l''], redir_out = NULL, redir_in = NULL\<rparr>,
                           \<lparr>cmd = Some [cstr ''wc''], redir_out = Ref (cstr ''n''), redir_in = NULL\<rparr>], wait = False\<rparr>)
      = Some b \<and> is_cstr b
    \<and> parse_pipeline list_gqueue list_gqueue string_lexer True (Ref (str b @ newline # ''x'')) = Some (Ref s', Ref ''x'')
    \<and> abs_pipeline (\<lambda>q. q) (\<lambda>q. q) s' = \<lparr>a_cmds = [\<lparr>a_args = [''ls'', ''-l''], a_out = None, a_in = None\<rparr>,
          \<lparr>a_args = [''wc''], a_out = Some ''n'', a_in = None\<rparr>], a_wait = False\<rparr>"
proof -
  let ?s = "\<lparr>pipe = Some [\<lparr>cmd = Some [cstr ''ls'', cstr ''-l''], redir_out = NULL, redir_in = NULL\<rparr>,
                         \<lparr>cmd = Some [cstr ''wc''], redir_out = Ref (cstr ''n''), redir_in = NULL\<rparr>], wait = False\<rparr>"
  let ?a = "\<lparr>a_cmds = [\<lparr>a_args = [''ls'', ''-l''], a_out = None, a_in = None\<rparr>,
          \<lparr>a_args = [''wc''], a_out = Some ''n'', a_in = None\<rparr>], a_wait = False\<rparr>"
  have a: "abs_pipeline (\<lambda>q. q) (\<lambda>q. q) ?s = ?a" and w: "wf_pipeline (\<lambda>q. q) (\<lambda>q. q) ?s"
    by (simp_all add: abs_scommand_defs abs_pipeline_defs)
  have p: "a_cmds ?a \<noteq> []" "list_all plain_command (a_cmds ?a)"
    by (simp_all add: plain_command_def plain_word_def plain_char_def)
  obtain b where "pipeline_to_string list_gqueue list_gqueue (Ref ?s) = Some b" "is_cstr b"
    and "\<forall>p later. p = str b @ newline # later \<longrightarrow> (\<exists>s' p'. parse_pipeline list_gqueue list_gqueue string_lexer True (Ref p)
        = Some (Ref s', Ref p') \<and> wf_pipeline (\<lambda>q. q) (\<lambda>q. q) s' \<and> abs_pipeline (\<lambda>q. q) (\<lambda>q. q) s' = ?a \<and> p' = later)"
    using pipeline_roundtrip [OF gqueue_list gqueue_list strwords.word_lexer_axioms w, unfolded a, OF p] by (elim exE conjE)
  then show ?thesis by blast
qed

end
