(* ===== verification/Posix.thy ===== *)
theory Posix
  imports Strextra
begin

text \<open>
  The operating system as \<open>mybash\<close> sees it: the calls of the C library that \<open>builtin.c\<close> and
  \<open>execute.c\<close> make, over an explicit process state. A process has a table of file descriptors, and
  the usual rule that a new descriptor is the lowest free one. Calls that may fail take their
  outcome from a script (\<open>faults\<close>: \<open>True\<close> means that the call fails; an exhausted script means that
  every further call succeeds), so every error branch of the shell can be reached. A child gets a
  script of its own (\<open>kid_faults\<close>). Whether a child ever ends is up to the program it runs; \<open>ends\<close>
  says so for each identifier, and decides which \<open>waitpid\<close> returns. The children of the shell are
  the identifiers from \<open>first_pid\<close> up to \<open>npids\<close>.
\<close>

datatype oflag = O_RDONLY | O_WRONLY | O_CREAT | O_TRUNC

text \<open>An open descriptor: a file with the flags and the mode it was opened with, or a pipe's end.\<close>

datatype desc = Terminal | Opened string "oflag list" nat | PipeRead nat | PipeWrite nat

record posix =
  fds :: "nat \<Rightarrow> desc option"
  max_fds :: nat
  npipes :: nat
  first_pid :: nat
  npids :: nat
  ends :: "nat \<Rightarrow> bool"
  faults :: "bool list"
  kid_faults :: "nat \<Rightarrow> bool list"
  sigchld_ignored :: bool
  waited :: "nat list"
  cwd :: string
  home :: "cbuf cptr"
  stdout_log :: "string list"
  stderr_log :: "string list"

definition next_fault :: "posix \<Rightarrow> bool \<times> posix" where
  "next_fault e = (case faults e of [] \<Rightarrow> (False, e) | b # bs \<Rightarrow> (b, e\<lparr>faults := bs\<rparr>))"

definition free_fd :: "posix \<Rightarrow> nat option" where
  "free_fd e = find (\<lambda>i. fds e i = None) [0..<max_fds e]"

definition put_fd :: "nat \<Rightarrow> desc \<Rightarrow> posix \<Rightarrow> posix" where
  "put_fd i d e = e\<lparr>fds := (fds e)(i := Some d)\<rparr>"

text \<open>\<open>open\<close>: the new descriptor, or \<open>None\<close> for \<open>-1\<close>.\<close>

definition sys_open :: "string \<Rightarrow> oflag list \<Rightarrow> nat \<Rightarrow> posix \<Rightarrow> nat option \<times> posix" where
  "sys_open path flags mode e = (case next_fault e of (bad, e) \<Rightarrow>
     if bad then (None, e) else
     case free_fd e of None \<Rightarrow> (None, e) | Some i \<Rightarrow> (Some i, put_fd i (Opened path flags mode) e))"

text \<open>\<open>close\<close>: the result is never looked at; closing a closed descriptor changes nothing.\<close>

definition sys_close :: "nat \<Rightarrow> posix \<Rightarrow> posix" where
  "sys_close i e = e\<lparr>fds := (fds e)(i := None)\<rparr>"

definition sys_dup2 :: "nat \<Rightarrow> nat \<Rightarrow> posix \<Rightarrow> bool \<times> posix" where
  "sys_dup2 old new e = (case next_fault e of (bad, e) \<Rightarrow>
     if bad then (False, e) else
     case fds e old of None \<Rightarrow> (False, e) | Some d \<Rightarrow> (True, put_fd new d e))"

definition sys_pipe :: "posix \<Rightarrow> (nat \<times> nat) option \<times> posix" where
  "sys_pipe e = (case next_fault e of (bad, e) \<Rightarrow>
     if bad then (None, e) else
     case free_fd e of None \<Rightarrow> (None, e) | Some r \<Rightarrow>
       case free_fd (put_fd r (PipeRead (npipes e)) e) of None \<Rightarrow> (None, e) | Some w \<Rightarrow>
         (Some (r, w), put_fd w (PipeWrite (npipes e)) (put_fd r (PipeRead (npipes e)) e)
            \<lparr>npipes := Suc (npipes e)\<rparr>))"

text \<open>\<open>fork\<close>: the parent's next state and the child's copy, or \<open>None\<close> for \<open>-1\<close>.\<close>

definition sys_fork :: "posix \<Rightarrow> (nat \<times> posix) option \<times> posix" where
  "sys_fork e = (case next_fault e of (bad, e) \<Rightarrow>
     if bad then (None, e) else
     (Some (npids e, e\<lparr>faults := kid_faults e (npids e)\<rparr>), e\<lparr>npids := Suc (npids e)\<rparr>))"

text \<open>
  \<open>waitpid\<close> for one child, without options: it returns once that child has ended. While \<open>SIGCHLD\<close> is
  ignored children leave no status behind, and POSIX lets the call block until every child of the
  process has ended. \<open>None\<close> means that the call never returns. Nothing looks at its result.
\<close>

definition waitpid_returns :: "nat \<Rightarrow> posix \<Rightarrow> bool" where
  "waitpid_returns pid e =
     (if sigchld_ignored e then list_all (ends e) [first_pid e..<npids e] else ends e pid)"

definition sys_waitpid :: "nat \<Rightarrow> posix \<Rightarrow> posix option" where
  "sys_waitpid pid e = (if waitpid_returns pid e then Some (e\<lparr>waited := waited e @ [pid]\<rparr>) else None)"

text \<open>\<open>chdir\<close>: a null path is an error, as is a path the script lets fail.\<close>

definition sys_chdir :: "cbuf cptr \<Rightarrow> posix \<Rightarrow> bool \<times> posix" where
  "sys_chdir path e = (case path of
     Ref b \<Rightarrow> (case next_fault e of (bad, e) \<Rightarrow>
        if bad then (False, e) else (True, e\<lparr>cwd := str b\<rparr>))
   | _ \<Rightarrow> (False, e))"

definition perror :: "string \<Rightarrow> posix \<Rightarrow> posix" where
  "perror m e = e\<lparr>stderr_log := stderr_log e @ [m]\<rparr>"

definition put_line :: "string \<Rightarrow> posix \<Rightarrow> posix" where
  "put_line m e = e\<lparr>stdout_log := stdout_log e @ [m]\<rparr>"

text \<open>How a process that the shell starts ends, as far as the shell's own code is concerned.\<close>

datatype ending = Execd "string list" posix | Exits int posix | Crashed

subsection \<open>Lemmas: calls that do not fail\<close>

lemma next_fault_Nil [simp]: "faults e = [] \<Longrightarrow> next_fault e = (False, e)"
  by (simp add: next_fault_def)

lemma free_fd_Some:
  "free_fd e = Some i \<longleftrightarrow> i < max_fds e \<and> fds e i = None \<and> (\<forall>j<i. fds e j \<noteq> None)"
  unfolding free_fd_def find_Some_iff by auto

lemma free_fd_ex:
  assumes "i < max_fds e" and "fds e i = None"
  shows "\<exists>j. free_fd e = Some j \<and> j \<le> i"
proof (cases "free_fd e")
  case None
  with assms show ?thesis by (auto simp: free_fd_def find_None_iff)
next
  case (Some j)
  with assms show ?thesis by (metis free_fd_Some linorder_not_less)
qed

lemma sys_open_ok:
  assumes "faults e = []" and "i < max_fds e" and "fds e i = None"
  shows "\<exists>j. sys_open path flags mode e = (Some j, put_fd j (Opened path flags mode) e) \<and> fds e j = None"
  using free_fd_ex [OF assms(2,3)] assms(1)
  by (auto simp: sys_open_def dest: free_fd_Some [THEN iffD1])

lemma sys_dup2_ok:
  "faults e = [] \<Longrightarrow> fds e old = Some d \<Longrightarrow> sys_dup2 old new e = (True, put_fd new d e)"
  by (simp add: sys_dup2_def)

lemma put_fd_sel [simp]:
  "fds (put_fd i d e) = (fds e)(i := Some d)" "max_fds (put_fd i d e) = max_fds e"
  "npipes (put_fd i d e) = npipes e" "npids (put_fd i d e) = npids e"
  "faults (put_fd i d e) = faults e" "kid_faults (put_fd i d e) = kid_faults e"
  "first_pid (put_fd i d e) = first_pid e" "ends (put_fd i d e) = ends e"
  "waited (put_fd i d e) = waited e" "sigchld_ignored (put_fd i d e) = sigchld_ignored e"
  by (simp_all add: put_fd_def)

lemma sys_close_sel [simp]:
  "fds (sys_close i e) = (fds e)(i := None)" "max_fds (sys_close i e) = max_fds e"
  "npipes (sys_close i e) = npipes e" "npids (sys_close i e) = npids e"
  "faults (sys_close i e) = faults e" "kid_faults (sys_close i e) = kid_faults e"
  "first_pid (sys_close i e) = first_pid e" "ends (sys_close i e) = ends e"
  "waited (sys_close i e) = waited e" "sigchld_ignored (sys_close i e) = sigchld_ignored e"
  by (simp_all add: sys_close_def)

text \<open>No call changes which children end, whether it fails or not.\<close>

lemma sys_ends [simp]:
  "ends (snd (next_fault e)) = ends e" "ends (snd (sys_pipe e)) = ends e"
  "ends (snd (sys_fork e)) = ends e" "ends (snd (sys_chdir path e)) = ends e"
  "ends (perror m e) = ends e" "ends (put_line m e) = ends e"
proof -
  show f: "ends (snd (next_fault e)) = ends e" for e
    by (simp add: next_fault_def split: list.splits)
  show "ends (snd (sys_pipe e)) = ends e" "ends (snd (sys_fork e)) = ends e" "ends (snd (sys_chdir path e)) = ends e"
    using f [of e] by (auto simp: sys_pipe_def sys_fork_def sys_chdir_def split: prod.splits option.splits cptr.splits)
qed (simp_all add: perror_def put_line_def)

lemma sys_pipe_ok:
  assumes "faults e = []" and "i < max_fds e" and "fds e i = None" and "j < max_fds e"
    and "fds e j = None" and "i \<noteq> j"
  shows "\<exists>r w. sys_pipe e = (Some (r, w), put_fd w (PipeWrite (npipes e))
      (put_fd r (PipeRead (npipes e)) e)\<lparr>npipes := Suc (npipes e)\<rparr>)
    \<and> fds e r = None \<and> fds e w = None \<and> r \<noteq> w"
proof -
  obtain r where r: "free_fd e = Some r" using free_fd_ex [OF assms(2,3)] by blast
  let ?e = "put_fd r (PipeRead (npipes e)) e"
  have "\<exists>k. k < max_fds ?e \<and> fds ?e k = None"
    using assms(2-6) by (cases "r = i") (auto intro: exI [of _ i] exI [of _ j])
  then obtain w where w: "free_fd ?e = Some w" using free_fd_ex by blast
  then have "fds e w = None" "r \<noteq> w"
    by (auto simp: free_fd_Some fun_upd_def split: if_splits)
  with r w assms(1) show ?thesis
    by (auto simp: sys_pipe_def dest: free_fd_Some [THEN iffD1])
qed

end
