(* ===== verification/Builtin.thy ===== *)
theory Builtin
  imports Command Posix
begin

text \<open>
  \<open>kickstart/builtin.c\<close>: the internal commands \<open>cd\<close>, \<open>help\<close> and \<open>exit\<close>. A built-in either comes
  back to the shell with a new process state or ends the shell (\<open>exit\<close>). \<open>Waits\<close> is the end of a
  pipeline whose children do not all end: the shell stays in \<open>waitpid\<close> for ever.
\<close>

datatype builtin_end = Continue posix | Quit int posix | Waits posix

primrec end_state :: "builtin_end \<Rightarrow> posix" where
  "end_state (Continue e) = e"
| "end_state (Quit c e) = e"
| "end_state (Waits e) = e"

definition internal_cmd :: "string list" where
  "internal_cmd = [''cd'', ''help'', ''exit'']"

fun is_one_of :: "cbuf \<Rightarrow> string list \<Rightarrow> bool option" where
  "is_one_of c [] = Some False"
| "is_one_of c (x # xs) = do { eq \<leftarrow> c_streq c (cstr x); if eq then Some True else is_one_of c xs }"

definition builtin_is_internal :: "(cbuf, 'q) gqueue_ops \<Rightarrow> 'q scommand \<Rightarrow> bool option" where
  "builtin_is_internal Q sc = do {
     empty \<leftarrow> scommand_is_empty Q sc;
     assertion (sc \<noteq> NULL \<and> \<not> empty);
     front \<leftarrow> scommand_front Q sc;
     cmd_front \<leftarrow> deref front;
     is_one_of cmd_front internal_cmd }"

definition builtin_alone ::
  "(cbuf, 'q) gqueue_ops \<Rightarrow> ('q, 'p) pipeline_ops \<Rightarrow> ('q, 'p) pipeline \<Rightarrow> bool option" where
  "builtin_alone Q P p = do {
     assertion (p \<noteq> NULL);
     n \<leftarrow> pipeline_length P p;
     if n = 1 then do {
       front \<leftarrow> pipeline_front P p;
       builtin_is_internal Q front }
     else Some False }"

definition builtin_cd :: "(cbuf, 'q) gqueue_ops \<Rightarrow> 'q scommand \<Rightarrow> posix \<Rightarrow> posix option" where
  "builtin_cd Q sc e = do {
     empty \<leftarrow> scommand_is_empty Q sc;
     assertion (\<not> empty);
     sc \<leftarrow> scommand_pop_front Q sc;
     empty \<leftarrow> scommand_is_empty Q sc;
     (path, e) \<leftarrow>
       (if empty then
          (let path = home e in
           Some (path, if path = NULL then perror ''cd'' e else e))
        else do {
          front \<leftarrow> scommand_front Q sc;
          Some (front, e) });
     let (ok, e) = sys_chdir path e;
     Some (if \<not> ok then perror ''cd'' e else e) }"

definition help_text :: string where
  "help_text = ''Mybash by '' @ CHR 0x27 # ''ADB'' @ CHR 0x27 # CHR 0x0A #
     ''Authors: Salman Mauro, Sosa Kiara, Flores Lionel'' @ CHR 0x0A #
     ''Internal commands:'' @ CHR 0x0A #
     ''- cd: chdir() Changes the current directory'' @ CHR 0x0A #
     ''- help: Shows this help message (Mybash information)'' @ CHR 0x0A #
     ''- exit: exit() Exits the shell'' @ [CHR 0x0A, CHR 0x0A]"

definition builtin_help :: "posix \<Rightarrow> posix" where
  "builtin_help e = put_line help_text e"

definition builtin_exit :: "posix \<Rightarrow> builtin_end" where
  "builtin_exit e = Quit 0 e"

definition builtin_run :: "(cbuf, 'q) gqueue_ops \<Rightarrow> 'q scommand \<Rightarrow> posix \<Rightarrow> builtin_end option" where
  "builtin_run Q sc e = do {
     internal \<leftarrow> builtin_is_internal Q sc;
     assertion internal;
     front \<leftarrow> scommand_front Q sc;
     cmd_front \<leftarrow> deref front;
     empty \<leftarrow> scommand_is_empty Q sc;
     if empty then Some (Continue e) else do {
       is_cd \<leftarrow> c_streq cmd_front (cstr ''cd'');
       if is_cd then do { e \<leftarrow> builtin_cd Q sc e; Some (Continue e) } else do {
         is_help \<leftarrow> c_streq cmd_front (cstr ''help'');
         if is_help then Some (Continue (builtin_help e)) else do {
           is_exit \<leftarrow> c_streq cmd_front (cstr ''exit'');
           if is_exit then Some (builtin_exit e) else Some (Continue e) } } } }"

subsection \<open>Lemmas\<close>

lemma is_one_of_spec:
  "is_cstr c \<Longrightarrow> list_all (\<lambda>x. NUL \<notin> set x) xs \<Longrightarrow> is_one_of c xs = Some (str c \<in> set xs)"
  by (induction xs) (auto simp: c_streq_def)

lemma internal_cmd_no_NUL: "list_all (\<lambda>x. NUL \<notin> set x) internal_cmd"
  by (simp add: internal_cmd_def)

lemma sys_chdir_str: "sys_chdir (Ref b) e = sys_chdir (Ref (cstr (str b))) e"
  by (simp add: sys_chdir_def split: prod.splits)

text \<open>What \<open>cd\<close> does once its directory is known; \<open>by_home\<close> says that it comes from \<open>HOME\<close>.\<close>

definition cd_to :: "cbuf cptr \<Rightarrow> bool \<Rightarrow> posix \<Rightarrow> posix" where
  "cd_to path by_home e =
     (let e1 = (if by_home \<and> path = NULL then perror ''cd'' e else e);
          (ok, e2) = sys_chdir path e1
      in if ok then e2 else perror ''cd'' e2)"

lemma cd_to_ends: "ends (cd_to path by_home e) = ends e"
proof -
  let ?e1 = "if by_home \<and> path = NULL then perror ''cd'' e else e"
  obtain ok e2 where c: "sys_chdir path ?e1 = (ok, e2)" by fastforce
  moreover have "ends (snd (sys_chdir path ?e1)) = ends e" by simp
  ultimately show ?thesis by (simp only: cd_to_def Let_def c snd_conv prod.case) simp
qed

context scommand_queue
begin

lemma is_internal_spec:
  assumes "wf c" and "a_args (abs c) = x # xs"
  shows "builtin_is_internal Q (Ref c) = Some (x \<in> set internal_cmd)"
  using front_refines [OF assms] is_empty_refines [OF assms(1)] assms(2)
    is_one_of_spec [OF _ internal_cmd_no_NUL]
  by (auto simp: builtin_is_internal_def)

text \<open>The directory \<open>cd\<close> goes to: its argument, else \<open>HOME\<close>.\<close>

lemma builtin_cd_spec:
  assumes "wf c" and "a_args (abs c) = x # xs"
  shows "builtin_cd Q (Ref c) e = Some (cd_to (case xs of [] \<Rightarrow> home e | y # _ \<Rightarrow> Ref (cstr y)) (xs = []) e)"
proof -
  from pop_front_refines [OF assms(1)] assms(2) obtain c1 where
    c1: "scommand_pop_front Q (Ref c) = Some (Ref c1)" "wf c1" "a_args (abs c1) = xs" by auto
  have e0: "scommand_is_empty Q (Ref c) = Some False"
    using is_empty_refines [OF assms(1)] assms(2) by simp
  show ?thesis
  proof (cases xs)
    case Nil
    with c1 e0 is_empty_refines [OF c1(2)] show ?thesis
      by (simp add: builtin_cd_def cd_to_def Let_def split: prod.splits)
  next
    case (Cons y ys)
    with front_refines [OF c1(2), of y ys] c1 obtain b where
      b: "scommand_front Q (Ref c1) = Some (Ref b)" "is_cstr b" "str b = y" by blast
    with Cons c1 e0 is_empty_refines [OF c1(2)] show ?thesis
      by (simp add: builtin_cd_def cd_to_def Let_def sys_chdir_str [of b] split: prod.splits)
  qed
qed

lemma builtin_run_spec:
  assumes "wf c" and "a_args (abs c) = x # xs"
  shows "builtin_run Q (Ref c) e =
    (if x = ''cd'' then map_option Continue (builtin_cd Q (Ref c) e)
     else if x = ''help'' then Some (Continue (builtin_help e))
     else if x = ''exit'' then Some (Quit 0 e) else None)"
  using front_refines [OF assms] is_empty_refines [OF assms(1)] assms(2) is_internal_spec [OF assms]
  by (auto simp: builtin_run_def c_streq_def builtin_exit_def internal_cmd_def map_option_case
      split: option.splits)

end

context scommand_queue
begin

lemma builtin_run_ok:
  assumes "wf c" and "a_args (abs c) = x # xs" and "x \<in> set internal_cmd"
  shows "\<exists>r. builtin_run Q (Ref c) e = Some r \<and> ends (end_state r) = ends e \<and> (\<forall>e'. r \<noteq> Waits e')"
  using assms(3) by (auto simp: builtin_run_spec [OF assms(1,2)] builtin_cd_spec [OF assms(1,2)]
      internal_cmd_def cd_to_ends builtin_help_def)

end

context pipeline_queues
begin

lemma builtin_alone_spec:
  assumes "pwf s" and "list_all (\<lambda>a. a_args a \<noteq> []) (a_cmds (pabs s))"
  shows "builtin_alone Q P (Ref s) = Some (\<exists>a. a_cmds (pabs s) = [a] \<and> hd (a_args a) \<in> set internal_cmd)"
proof (cases "\<exists>a. a_cmds (pabs s) = [a]")
  case True
  then obtain a x xs where a: "a_cmds (pabs s) = [a]" "a_args a = x # xs"
    using assms(2) by (auto simp: neq_Nil_conv)
  obtain c where c: "pipeline_front P (Ref s) = Some (Ref c)" "wf c" "abs c = a"
    using pfront_refines [OF assms(1) a(1)] by blast
  show ?thesis
    using a c is_internal_spec [OF c(2), of x xs] plength_refines [OF assms(1)]
    by (simp add: builtin_alone_def)
next
  case False
  then have "length (a_cmds (pabs s)) \<noteq> 1"
    by (metis One_nat_def length_0_conv length_Suc_conv)
  with False show ?thesis
    using plength_refines [OF assms(1)] by (simp add: builtin_alone_def)
qed

end

end
