(* ===== verification/Execute.thy ===== *)
theory Execute
  imports Builtin
begin

text \<open>
  \<open>kickstart/execute.c\<close>: running a simple command in a child process and a pipeline of commands in
  the shell. \<open>execute_pipeline\<close> returns the children it started, each with the way it ends as far as
  the shell's code goes, and what becomes of the shell itself. The properties say which descriptors
  every child runs with.
\<close>

subsection \<open>execute_scommand\<close>

text \<open>\<open>execute_scommand\<close> either replaces or ends the process (\<open>Gone\<close>) or returns (\<open>Back\<close>).\<close>

datatype exec_result = Gone ending | Back posix

text \<open>The loop that copies the arguments out of the command.\<close>

primrec copy_args ::
  "(cbuf, 'q) gqueue_ops \<Rightarrow> nat \<Rightarrow> string list \<Rightarrow> 'q scommand \<Rightarrow> (string list \<times> 'q scommand) option" where
  "copy_args Q 0 arg sc = Some (arg, sc)"
| "copy_args Q (Suc n) arg sc = do {
     empty \<leftarrow> scommand_is_empty Q sc;
     if \<not> empty then do {
       front \<leftarrow> scommand_front Q sc;
       front \<leftarrow> deref front;
       _ \<leftarrow> c_strlen front;
       sc \<leftarrow> scommand_pop_front Q sc;
       copy_args Q n (arg @ [str front]) sc }
     else copy_args Q n arg sc }"

text \<open>One redirection: open the file, move it to descriptor \<open>std\<close>, close the first descriptor.\<close>

definition redirect :: "string \<Rightarrow> oflag list \<Rightarrow> nat \<Rightarrow> nat \<Rightarrow> string \<Rightarrow> posix \<Rightarrow> exec_result" where
  "redirect path flags mode std name e = (case sys_open path flags mode e of
     (None, e) \<Rightarrow> Gone (Exits 1 (perror (''open '' @ name) e))
   | (Some fd, e) \<Rightarrow> (case sys_dup2 fd std e of
       (False, e) \<Rightarrow> Gone (Exits 1 (perror (''dup2 '' @ name) e))
     | (True, e) \<Rightarrow> Back (sys_close fd e)))"

definition redirect_in :: "cbuf cptr \<Rightarrow> posix \<Rightarrow> exec_result option" where
  "redirect_in file_in e = (if file_in \<noteq> NULL then do {
     f \<leftarrow> deref file_in;
     Some (redirect (str f) [O_RDONLY] 0 0 ''redir_in'' e) }
   else Some (Back e))"

text \<open>The mode \<open>S_IRUSR | S_IWUSR\<close>.\<close>

definition out_mode :: nat where
  "out_mode = 0x100 + 0x80"

definition redirect_out :: "cbuf cptr \<Rightarrow> posix \<Rightarrow> exec_result option" where
  "redirect_out file_out e = (if file_out \<noteq> NULL then do {
     f \<leftarrow> deref file_out;
     Some (redirect (str f) [O_WRONLY, O_CREAT, O_TRUNC] out_mode 1 ''redir_out'' e) }
   else Some (Back e))"

definition execvp :: "string list \<Rightarrow> posix \<Rightarrow> exec_result" where
  "execvp arg e = (case next_fault e of (bad, e) \<Rightarrow>
     if bad then Back (perror ''execvp'' e) else Gone (Execd arg e))"

definition execute_scommand ::
  "(cbuf, 'q) gqueue_ops \<Rightarrow> 'q scommand \<Rightarrow> posix \<Rightarrow> exec_result option" where
  "execute_scommand Q sc e = do {
     empty \<leftarrow> scommand_is_empty Q sc;
     assertion (sc \<noteq> NULL \<and> \<not> empty);
     length \<leftarrow> scommand_length Q sc;
     (arg, sc) \<leftarrow> copy_args Q length [] sc;
     file_in \<leftarrow> scommand_get_redir_in sc;
     r \<leftarrow> redirect_in file_in e;
     case r of Gone x \<Rightarrow> Some (Gone x) | Back e \<Rightarrow> do {
       file_out \<leftarrow> scommand_get_redir_out sc;
       r \<leftarrow> redirect_out file_out e;
       case r of Gone x \<Rightarrow> Some (Gone x) | Back e \<Rightarrow> Some (execvp arg e) } }"

subsection \<open>execute_pipeline\<close>

text \<open>A pair of pipe descriptors; \<open>None\<close> is the initial \<open>{-1, -1}\<close>.\<close>

type_synonym pipefds = "(nat \<times> nat) option"

text \<open>
  The wiring of a child: standard input from the previous pipe, standard output to the next one.
  The sum holds the exit of a failed \<open>dup2\<close> on the left.
\<close>

definition child_stdin :: "nat \<Rightarrow> pipefds \<Rightarrow> posix \<Rightarrow> (ending + posix) option" where
  "child_stdin i pipefd_tmp e = (if i \<noteq> 0 then do {
     (r, w) \<leftarrow> pipefd_tmp;
     Some (case sys_dup2 r 0 (sys_close w e) of
       (False, e) \<Rightarrow> Inl (Exits 1 (perror ''dup2 pipefd_tmp[0]'' e))
     | (True, e) \<Rightarrow> Inr (sys_close r e)) }
   else Some (Inr e))"

definition child_stdout :: "nat \<Rightarrow> nat \<Rightarrow> pipefds \<Rightarrow> posix \<Rightarrow> (ending + posix) option" where
  "child_stdout i len pipefd e = (if i \<noteq> len - 1 then do {
     (r, w) \<leftarrow> pipefd;
     Some (case sys_dup2 w 1 (sys_close r e) of
       (False, e) \<Rightarrow> Inl (Exits 1 (perror ''dup2 pipefd[1]'' e))
     | (True, e) \<Rightarrow> Inr (sys_close w e)) }
   else Some (Inr e))"

definition child ::
  "(cbuf, 'q) gqueue_ops \<Rightarrow> ('q, 'p) pipeline_ops \<Rightarrow> nat \<Rightarrow> nat \<Rightarrow> pipefds \<Rightarrow> pipefds
    \<Rightarrow> ('q, 'p) pipeline \<Rightarrow> posix \<Rightarrow> ending option" where
  "child Q P i len pipefd pipefd_tmp apipe e = do {
     r \<leftarrow> child_stdin i pipefd_tmp e;
     case r of Inl x \<Rightarrow> Some x | Inr e \<Rightarrow> do {
       r \<leftarrow> child_stdout i len pipefd e;
       case r of Inl x \<Rightarrow> Some x | Inr e \<Rightarrow> do {
         front \<leftarrow> pipeline_front P apipe;
         command_str \<leftarrow> scommand_to_string Q front;
         r \<leftarrow> execute_scommand Q front e;
         case r of Gone x \<Rightarrow> Some x
         | Back e \<Rightarrow> Some (Exits 1 (perror (''Error executing: '' @ str command_str) e)) } } }"

text \<open>A child that does not come back from a call has crashed; the shell goes on.\<close>

definition run_child :: "ending option \<Rightarrow> ending" where
  "run_child r = (case r of None \<Rightarrow> Crashed | Some x \<Rightarrow> x)"

definition open_pipe :: "nat \<Rightarrow> nat \<Rightarrow> pipefds \<Rightarrow> posix \<Rightarrow> pipefds option \<times> posix" where
  "open_pipe i len pipefd e = (if i \<noteq> len - 1 then
     (case sys_pipe e of (None, e) \<Rightarrow> (None, e) | (Some fd, e) \<Rightarrow> (Some (Some fd), e))
   else (Some pipefd, e))"

definition parent_close :: "nat \<Rightarrow> pipefds \<Rightarrow> posix \<Rightarrow> posix option" where
  "parent_close i pipefd_tmp e = (if i \<noteq> 0 then do {
     (r, w) \<leftarrow> pipefd_tmp;
     Some (sys_close w (sys_close r e)) }
   else Some e)"

text \<open>
  The loop over the commands; the first number counts the rounds that are left, so the loop's
  counter is \<open>i = len - Suc n\<close>. \<open>kids\<close> are the children started so far.
\<close>

type_synonym kids = "(nat \<times> ending) list"

primrec execute_loop ::
  "(cbuf, 'q) gqueue_ops \<Rightarrow> ('q, 'p) pipeline_ops \<Rightarrow> nat \<Rightarrow> nat \<Rightarrow> pipefds \<Rightarrow> pipefds \<Rightarrow> kids
    \<Rightarrow> ('q, 'p) pipeline \<Rightarrow> posix \<Rightarrow> (kids \<times> ('q, 'p) pipeline \<times> builtin_end) option" where
  "execute_loop Q P len 0 pipefd pipefd_tmp kids apipe e = Some (kids, apipe, Continue e)"
| "execute_loop Q P len (Suc n) pipefd pipefd_tmp kids apipe e = do {
     let i = len - Suc n;
     let pipefd_tmp = (if i \<noteq> 0 then pipefd else pipefd_tmp);
     case open_pipe i len pipefd e of
       (None, e) \<Rightarrow> Some (kids, apipe, Quit 1 (perror ''ERROR OPENING THE PIPE'' e))
     | (Some pipefd, e) \<Rightarrow>
         (case sys_fork e of
            (None, e) \<Rightarrow> Some (kids, apipe, Quit 1 (perror ''ERROR EXECUTING FORK'' e))
          | (Some (pid, ce), e) \<Rightarrow> do {
              let kid = run_child (child Q P i len pipefd pipefd_tmp apipe ce);
              e \<leftarrow> parent_close i pipefd_tmp e;
              apipe \<leftarrow> pipeline_pop_front P apipe;
              execute_loop Q P len n pipefd pipefd_tmp (kids @ [(pid, kid)]) apipe e }) }"

text \<open>The loop over \<open>children_pids\<close>: the shell stays in the first \<open>waitpid\<close> that does not return.\<close>

primrec wait_all :: "nat list \<Rightarrow> posix \<Rightarrow> builtin_end" where
  "wait_all [] e = Continue e"
| "wait_all (pid # pids) e = (case sys_waitpid pid e of None \<Rightarrow> Waits e | Some e \<Rightarrow> wait_all pids e)"

text \<open>\<open>drop_empty\<close>: the check for an empty first command; \<open>None\<close> inside means \<open>return\<close>.\<close>

definition execute_pipeline ::
  "(cbuf, 'q) gqueue_ops \<Rightarrow> ('q, 'p) pipeline_ops \<Rightarrow> ('q, 'p) pipeline \<Rightarrow> posix
    \<Rightarrow> (kids \<times> ('q, 'p) pipeline \<times> builtin_end) option" where
  "execute_pipeline Q P apipe e = do {
     assertion (apipe \<noteq> NULL);
     empty \<leftarrow> pipeline_is_empty P apipe;
     if empty then Some ([], apipe, Continue e) else do {
       front \<leftarrow> pipeline_front P apipe;
       no_cmd \<leftarrow> scommand_is_empty Q front;
       apipe \<leftarrow> (if no_cmd then pipeline_pop_front P apipe else Some apipe);
       empty \<leftarrow> (if no_cmd then pipeline_is_empty P apipe else Some False);
       if empty then Some ([], apipe, Continue e) else do {
         alone \<leftarrow> builtin_alone Q P apipe;
         if alone then do {
           front \<leftarrow> pipeline_front P apipe;
           r \<leftarrow> builtin_run Q front e;
           Some ([], apipe, r) }
         else do {
           w \<leftarrow> pipeline_get_wait apipe;
           let e = (if \<not> w then e\<lparr>sigchld_ignored := True\<rparr> else e);
           len \<leftarrow> pipeline_length P apipe;
           (kids, apipe, r) \<leftarrow> execute_loop Q P len len None None [] apipe e;
           case r of Continue e \<Rightarrow> do {
               w \<leftarrow> pipeline_get_wait apipe;
               Some (kids, apipe, if w then wait_all (map fst kids) e else Continue e) }
           | r \<Rightarrow> Some (kids, apipe, r) } } } }"

subsection \<open>Lemmas: one child\<close>

definition stdfds :: "desc \<Rightarrow> desc \<Rightarrow> desc \<Rightarrow> nat \<Rightarrow> desc option" where
  "stdfds d0 d1 d2 = [0 \<mapsto> d0, 1 \<mapsto> d1, 2 \<mapsto> d2]"

lemma stdfds_sel [simp]:
  "stdfds a b c 0 = Some a" "stdfds a b c (Suc 0) = Some b" "stdfds a b c 2 = Some c"
  by (simp_all add: stdfds_def)

lemma stdfds_None [simp]:
  "stdfds a b c j = None \<longleftrightarrow> 2 < j" "None = stdfds a b c j \<longleftrightarrow> 2 < j"
  by (auto simp: stdfds_def)

lemma stdfds_upd [simp]:
  "(stdfds a b c)(0 \<mapsto> d) = stdfds d b c" "(stdfds a b c)(Suc 0 \<mapsto> d) = stdfds a d c"
  by (auto simp: stdfds_def)

lemma stdfds_move:
  "2 < j \<Longrightarrow> (stdfds a b c)(j \<mapsto> x, 0 \<mapsto> d, j := None) = stdfds d b c"
  "2 < j \<Longrightarrow> (stdfds a b c)(j \<mapsto> x, Suc 0 \<mapsto> d, j := None) = stdfds a d c"
  by (auto simp: stdfds_def fun_upd_def fun_eq_iff)

definition stdin_of :: "ascommand \<Rightarrow> desc \<Rightarrow> desc" where
  "stdin_of a d = (case a_in a of None \<Rightarrow> d | Some f \<Rightarrow> Opened f [O_RDONLY] 0)"

definition stdout_of :: "ascommand \<Rightarrow> desc \<Rightarrow> desc" where
  "stdout_of a d = (case a_out a of None \<Rightarrow> d | Some f \<Rightarrow> Opened f [O_WRONLY, O_CREAT, O_TRUNC] 384)"

lemma redirect_ok:
  assumes "faults e = []" and "3 < max_fds e" and "fds e = stdfds a b c"
  shows "redirect f fl m 0 n e = Back (e\<lparr>fds := stdfds (Opened f fl m) b c\<rparr>)"
    and "redirect f fl m 1 n e = Back (e\<lparr>fds := stdfds a (Opened f fl m) c\<rparr>)"
proof -
  let ?d = "Opened f fl m"
  obtain j where j: "sys_open f fl m e = (Some j, put_fd j ?d e)" "2 < j"
    using sys_open_ok [OF assms(1,2), of f fl m] assms(3) by auto
  have d: "sys_dup2 j std (put_fd j ?d e) = (True, put_fd std ?d (put_fd j ?d e))" for std
    by (rule sys_dup2_ok) (simp_all add: assms(1))
  show "redirect f fl m 0 n e = Back (e\<lparr>fds := stdfds ?d b c\<rparr>)"
    and "redirect f fl m 1 n e = Back (e\<lparr>fds := stdfds a ?d c\<rparr>)"
    using j(1) d stdfds_move [OF j(2)]
    by (simp_all add: redirect_def sys_close_def put_fd_def assms(3))
qed

lemma redirects_ok:
  assumes "faults e = []" and "3 < max_fds e" and "fds e = stdfds a b c" and "wf_ptr p"
  shows "redirect_in p e
      = Some (Back (e\<lparr>fds := stdfds (case abs_ptr p of None \<Rightarrow> a | Some f \<Rightarrow> Opened f [O_RDONLY] 0) b c\<rparr>))"
    and "redirect_out p e
      = Some (Back (e\<lparr>fds := stdfds a (case abs_ptr p of None \<Rightarrow> b
          | Some f \<Rightarrow> Opened f [O_WRONLY, O_CREAT, O_TRUNC] 384) c\<rparr>))"
  using assms(4) redirect_ok [OF assms(1-3)] assms(3)
  by (cases p; simp add: redirect_in_def redirect_out_def out_mode_def)+

lemma child_stdin_ok:
  assumes "faults e = []" and "fds e r = Some d" and "r \<noteq> w" and "i \<noteq> 0"
  shows "child_stdin i (Some (r, w)) e = Some (Inr (e\<lparr>fds := (fds e)(w := None, 0 \<mapsto> d, r := None)\<rparr>))"
  using assms by (simp add: child_stdin_def sys_dup2_ok sys_close_def put_fd_def)

lemma child_stdout_ok:
  assumes "faults e = []" and "fds e w = Some d" and "r \<noteq> w" and "i \<noteq> len - 1"
  shows "child_stdout i len (Some (r, w)) e
    = Some (Inr (e\<lparr>fds := (fds e)(r := None, Suc 0 \<mapsto> d, w := None)\<rparr>))"
  using assms by (simp add: child_stdout_def sys_dup2_ok sys_close_def put_fd_def)

context scommand_queue
begin

lemma copy_args_spec:
  assumes "wf s"
  shows "\<exists>s'. copy_args Q (length (a_args (abs s))) arg (Ref s) = Some (arg @ a_args (abs s), Ref s')
    \<and> wf s' \<and> abs s' = (abs s)\<lparr>a_args := []\<rparr>"
  using assms
proof (induction "a_args (abs s)" arbitrary: s arg)
  case (Cons x xs)
  note args = Cons.hyps(2) [symmetric]
  obtain b where b: "scommand_front Q (Ref s) = Some (Ref b)" "is_cstr b" "str b = x"
    using front_refines [OF Cons.prems args] by blast
  obtain s1 where s1: "scommand_pop_front Q (Ref s) = Some (Ref s1)" "wf s1"
      "abs s1 = (abs s)\<lparr>a_args := xs\<rparr>"
    using pop_front_refines [OF Cons.prems] args by auto
  have "\<exists>s'. copy_args Q (length xs) (arg @ [x]) (Ref s1) = Some ((arg @ [x]) @ xs, Ref s')
    \<and> wf s' \<and> abs s' = (abs s)\<lparr>a_args := []\<rparr>"
    using Cons.hyps(1) [of s1 "arg @ [x]"] s1(2,3) by simp
  then show ?case
    using b s1(1) args is_empty_refines [OF Cons.prems] by simp
qed (auto intro!: ascommand.equality)

lemma execute_scommand_ok:
  assumes "wf s" and "a_args (abs s) \<noteq> []" and "faults e = []" and "3 < max_fds e"
    and "fds e = stdfds a b c"
  shows "execute_scommand Q (Ref s) e = Some (Gone (Execd (a_args (abs s))
    (e\<lparr>fds := stdfds (stdin_of (abs s) a) (stdout_of (abs s) b) c\<rparr>)))"
proof -
  obtain s' where s': "copy_args Q (length (a_args (abs s))) [] (Ref s) = Some (a_args (abs s), Ref s')"
    "wf s'" "abs s' = (abs s)\<lparr>a_args := []\<rparr>"
    using copy_args_spec [OF assms(1), of "[]"] by auto
  have r: "wf_ptr (redir_in s')" "wf_ptr (redir_out s')" "abs_ptr (redir_in s') = a_in (abs s)"
      "abs_ptr (redir_out s') = a_out (abs s)"
    using s'(2) arg_cong [OF s'(3), of a_in] arg_cong [OF s'(3), of a_out]
    by (auto simp: wf_scommand_def) (simp_all add: abs_scommand_def)
  note ops = is_empty_refines [OF assms(1)] length_refines [OF assms(1)]
  let ?i = "case a_in (abs s) of None \<Rightarrow> a | Some f \<Rightarrow> Opened f [O_RDONLY] 0"
  let ?e = "e\<lparr>fds := stdfds ?i b c\<rparr>"
  have ri: "redirect_in (redir_in s') e = Some (Back ?e)"
    using redirects_ok(1) [OF assms(3-5) r(1)] r(3) by simp
  have ro: "redirect_out (redir_out s') ?e = Some (Back (?e\<lparr>fds :=
      stdfds ?i (case a_out (abs s) of None \<Rightarrow> b
        | Some f \<Rightarrow> Opened f [O_WRONLY, O_CREAT, O_TRUNC] 384) c\<rparr>))"
    using redirects_ok(2) [of ?e ?i b c, OF _ _ _ r(2)] r(4) assms(3,4) by simp
  show ?thesis
    using ops s'(1) assms(2,3) ri ro
    by (simp add: execute_scommand_def scommand_get_redir_in_def scommand_get_redir_out_def
        scommand_inv_def execvp_def stdin_of_def stdout_of_def)
qed

end

subsection \<open>Lemmas: the pipeline\<close>

text \<open>The descriptors command number \<open>i\<close> of \<open>len\<close> should run with; \<open>base\<close> is the first new pipe.\<close>

definition child_fds :: "desc \<Rightarrow> desc \<Rightarrow> desc \<Rightarrow> nat \<Rightarrow> nat \<Rightarrow> nat \<Rightarrow> ascommand \<Rightarrow> nat \<Rightarrow> desc option" where
  "child_fds a b c base len i sc = stdfds
     (stdin_of sc (if i = 0 then a else PipeRead (base + i - 1)))
     (stdout_of sc (if i = len - 1 then b else PipeWrite (base + i))) c"

definition runs :: "ascommand \<Rightarrow> (nat \<Rightarrow> desc option) \<Rightarrow> ending \<Rightarrow> bool" where
  "runs sc F k \<longleftrightarrow> (case k of Execd arg e \<Rightarrow> arg = a_args sc \<and> fds e = F | _ \<Rightarrow> False)"

text \<open>The shell's own descriptors before round \<open>i\<close>: the last pipe is still open.\<close>

definition with_pipe :: "(nat \<Rightarrow> desc option) \<Rightarrow> pipefds \<Rightarrow> nat \<Rightarrow> nat \<Rightarrow> desc option" where
  "with_pipe F p k = (case p of None \<Rightarrow> F | Some (r, w) \<Rightarrow> F(r \<mapsto> PipeRead k, w \<mapsto> PipeWrite k))"

definition pipe_ok :: "pipefds \<Rightarrow> bool" where
  "pipe_ok p \<longleftrightarrow> (case p of None \<Rightarrow> True | Some (r, w) \<Rightarrow> 2 < r \<and> 2 < w \<and> r \<noteq> w)"

lemma two_free:
  assumes "7 \<le> (m::nat)"
  shows "\<exists>i j. i < m \<and> j < m \<and> 2 < i \<and> 2 < j \<and> i \<noteq> j \<and> i \<noteq> r \<and> i \<noteq> w \<and> j \<noteq> r \<and> j \<noteq> w"
proof -
  let ?S = "{3..<7::nat} - {r, w}"
  have "card {r, w} \<le> 2" by (simp add: card_insert_if)
  moreover have "card {3..<7::nat} - card {r, w} \<le> card ?S"
    by (rule diff_card_le_card_Diff) simp
  ultimately have "\<not> card ?S \<le> Suc 0" by simp
  then obtain i j where "i \<in> ?S" "j \<in> ?S" "i \<noteq> j"
    using card_le_Suc0_iff_eq [of ?S] by blast
  with assms show ?thesis by (intro exI [of _ i] exI [of _ j]) auto
qed

lemma open_pipe_ok:
  assumes "faults e = []" and "7 \<le> max_fds e" and "pipe_ok p"
    and "fds e = with_pipe (stdfds a b c) p k" and "i \<noteq> len - 1"
  shows "\<exists>r w. open_pipe i len p e = (Some (Some (r, w)),
      e\<lparr>fds := (fds e)(r \<mapsto> PipeRead (npipes e), w \<mapsto> PipeWrite (npipes e)), npipes := Suc (npipes e)\<rparr>)
    \<and> 2 < r \<and> 2 < w \<and> r \<noteq> w \<and> fds e r = None \<and> fds e w = None"
proof -
  obtain r0 w0 where rw: "p = None \<or> p = Some (r0, w0)" by (cases p) auto
  obtain x y where xy: "x < max_fds e" "y < max_fds e" "2 < x" "2 < y" "x \<noteq> y" "x \<noteq> r0" "x \<noteq> w0"
      "y \<noteq> r0" "y \<noteq> w0"
    using two_free [OF assms(2), of r0 w0] by blast
  then have "fds e x = None" "fds e y = None"
    using rw assms(4) by (auto simp: with_pipe_def)
  then obtain r w where s: "sys_pipe e = (Some (r, w), put_fd w (PipeWrite (npipes e))
      (put_fd r (PipeRead (npipes e)) e)\<lparr>npipes := Suc (npipes e)\<rparr>)" "fds e r = None" "fds e w = None" "r \<noteq> w"
    using sys_pipe_ok [OF assms(1) xy(1) _ xy(2) _ xy(5)] by blast
  have "2 < r" "2 < w"
    using s(2,3) assms(4) rw by (auto simp: with_pipe_def split: if_splits)
  with s assms(5) show ?thesis
    by (auto simp: open_pipe_def put_fd_def)
qed

lemma wire_in:
  assumes "faults e = []" and "pipe_ok tmp" and "i = 0 \<longleftrightarrow> tmp = None" and "pipe_ok new"
    and "\<forall>r w x y. tmp = Some (r, w) \<longrightarrow> new = Some (x, y) \<longrightarrow> x \<noteq> r \<and> x \<noteq> w \<and> y \<noteq> r \<and> y \<noteq> w"
    and "fds e = with_pipe (with_pipe F tmp k) new k'" and "F = stdfds a b c"
  shows "child_stdin i tmp e = Some (Inr (e\<lparr>fds := with_pipe
    (stdfds (if i = 0 then a else PipeRead k) b c) new k'\<rparr>))"
proof (cases tmp)
  case None
  with assms show ?thesis by (simp add: child_stdin_def with_pipe_def)
next
  case (Some p)
  then obtain r w where p: "tmp = Some (r, w)" by (cases p) auto
  then have rw: "2 < r" "2 < w" "r \<noteq> w" using assms(2) by (auto simp: pipe_ok_def)
  have new: "new = None \<or> (\<exists>x y. new = Some (x, y) \<and> 2 < x \<and> 2 < y \<and> x \<noteq> y
      \<and> x \<noteq> r \<and> x \<noteq> w \<and> y \<noteq> r \<and> y \<noteq> w)"
    using assms(4) assms(5) [rule_format, OF p] by (cases new) (auto simp: pipe_ok_def)
  have "fds e r = Some (PipeRead k)"
    using assms(6) p new rw by (auto simp: with_pipe_def)
  moreover have "(fds e)(w := None, 0 \<mapsto> PipeRead k, r := None) = with_pipe (stdfds (PipeRead k) b c) new k'"
    using new rw unfolding assms(6,7) p
    by (auto simp: with_pipe_def stdfds_def fun_upd_def fun_eq_iff)
  ultimately show ?thesis
    using child_stdin_ok [OF assms(1) _ rw(3)] p assms(3) by simp
qed

lemma wire_out:
  assumes "faults e = []" and "pipe_ok new" and "i \<noteq> len - 1 \<longrightarrow> new \<noteq> None" and "i = len - 1 \<longrightarrow> G = None"
    and "i \<noteq> len - 1 \<longrightarrow> G = new" and "fds e = with_pipe (stdfds a b c) G k"
  shows "child_stdout i len new e = Some (Inr (e\<lparr>fds :=
    stdfds a (if i = len - 1 then b else PipeWrite k) c\<rparr>))"
proof (cases "i = len - 1")
  case True
  with assms show ?thesis by (simp add: child_stdout_def with_pipe_def)
next
  case False
  then obtain r w where p: "new = Some (r, w)" "2 < r" "2 < w" "r \<noteq> w"
    using assms(2,3) by (auto simp: pipe_ok_def)
  have "fds e w = Some (PipeWrite k)"
    using assms(5,6) p False by (simp add: with_pipe_def)
  moreover have "(fds e)(r := None, Suc 0 \<mapsto> PipeWrite k, w := None) = stdfds a (PipeWrite k) c"
    using p assms(5,6) False by (auto simp: with_pipe_def stdfds_def fun_upd_def fun_eq_iff)
  ultimately show ?thesis
    using child_stdout_ok [OF assms(1) _ p(4) False] p False by simp
qed

lemma with_pipe_None [simp]: "with_pipe F None k = F"
  by (simp add: with_pipe_def)

text \<open>The part of the state that decides what \<open>waitpid\<close> does and has done.\<close>

definition waiting :: "posix \<Rightarrow> nat list \<times> bool \<times> nat \<times> (nat \<Rightarrow> bool)" where
  "waiting e = (waited e, sigchld_ignored e, first_pid e, ends e)"

lemma waiting_upd [simp]:
  "waiting (e\<lparr>fds := x\<rparr>) = waiting e" "waiting (e\<lparr>npids := y\<rparr>) = waiting e"
  "waiting (e\<lparr>npipes := y\<rparr>) = waiting e"
  by (simp_all add: waiting_def)

lemma waitpid_returns_waited [simp]: "waitpid_returns q (e\<lparr>waited := x\<rparr>) = waitpid_returns q e"
  by (simp add: waitpid_returns_def)

lemma wait_all_ok:
  "wait_all ps e = (let e' = e\<lparr>waited := waited e @ takeWhile (\<lambda>q. waitpid_returns q e) ps\<rparr>
     in if list_all (\<lambda>q. waitpid_returns q e) ps then Continue e' else Waits e')"
  by (induction ps arbitrary: e) (simp_all add: sys_waitpid_def Let_def)

text \<open>What the shell's own state satisfies when \<open>n\<close> of \<open>len\<close> rounds are left.\<close>

definition shell_inv :: "(nat \<Rightarrow> desc option) \<Rightarrow> nat \<Rightarrow> nat \<Rightarrow> nat \<Rightarrow> pipefds \<Rightarrow> posix \<Rightarrow> bool" where
  "shell_inv F base len n p e \<longleftrightarrow> faults e = [] \<and> kid_faults e = (\<lambda>_. []) \<and> 7 \<le> max_fds e
     \<and> (if n = 0 then fds e = F
        else pipe_ok p \<and> (n = len \<longleftrightarrow> p = None) \<and> npipes e = base + (len - n)
          \<and> fds e = with_pipe F p (npipes e - 1))"

context pipeline_queues
begin

lemma child_ok:
  assumes "pwf s" and "a_cmds (pabs s) = sc # scs" and "a_args sc \<noteq> []"
    and "child_stdin i tmp e = Some (Inr e1)" and "child_stdout i len new e1 = Some (Inr e2)"
    and "faults e2 = []" and "7 \<le> max_fds e2" and "fds e2 = stdfds a b c"
  shows "runs sc (stdfds (stdin_of sc a) (stdout_of sc b) c) (run_child (child Q P i len new tmp (Ref s) e))"
proof -
  obtain d where d: "pipeline_front P (Ref s) = Some (Ref d)" "wf d" "abs d = sc"
    using pfront_refines [OF assms(1,2)] by blast
  obtain t where t: "scommand_to_string Q (Ref d) = Some t"
    using to_string_refines [OF d(2)] d(3) assms(3) by (auto simp: printable_def)
  have "execute_scommand Q (Ref d) e2 = Some (Gone (Execd (a_args sc)
      (e2\<lparr>fds := stdfds (stdin_of sc a) (stdout_of sc b) c\<rparr>)))"
    using execute_scommand_ok [OF d(2) _ assms(6) _ assms(8)] d(3) assms(3,7) by simp
  then show ?thesis
    by (simp add: child_def run_child_def runs_def assms(4,5) d(1) t)
qed

text \<open>Whether a round opens a pipe or not, it ends with the invariant for one round less.\<close>

lemma open_round:
  assumes "shell_inv (stdfds a b c) base len (Suc n) p e" and "Suc n \<le> len"
  shows "\<exists>new e1 live. open_pipe (len - Suc n) len p e = (Some new, e1) \<and> pipe_ok new
    \<and> live = (if n = 0 then None else new) \<and> (n \<noteq> 0 \<longrightarrow> new \<noteq> None \<and> npipes e1 = base + (len - n))
    \<and> fds e1 = with_pipe (with_pipe (stdfds a b c) p (npipes e - 1)) live (base + (len - Suc n))
    \<and> (\<forall>r w x y. p = Some (r, w) \<longrightarrow> live = Some (x, y) \<longrightarrow> x \<noteq> r \<and> x \<noteq> w \<and> y \<noteq> r \<and> y \<noteq> w)
    \<and> faults e1 = [] \<and> kid_faults e1 = (\<lambda>_. []) \<and> max_fds e1 = max_fds e \<and> npids e1 = npids e
    \<and> waiting e1 = waiting e"
proof (cases "n = 0")
  case True
  with assms show ?thesis
    by (auto simp: open_pipe_def shell_inv_def)
next
  case False
  then have i: "len - Suc n \<noteq> len - 1" using assms(2) by simp
  note I = assms(1) [unfolded shell_inv_def, simplified]
  obtain r w where rw: "open_pipe (len - Suc n) len p e = (Some (Some (r, w)),
      e\<lparr>fds := (fds e)(r \<mapsto> PipeRead (npipes e), w \<mapsto> PipeWrite (npipes e)), npipes := Suc (npipes e)\<rparr>)"
      "2 < r" "2 < w" "r \<noteq> w" "fds e r = None" "fds e w = None"
    using open_pipe_ok [of e p a b c "npipes e - 1", OF _ _ _ _ i] I by fastforce
  have "\<forall>x y. p = Some (x, y) \<longrightarrow> r \<noteq> x \<and> r \<noteq> y \<and> w \<noteq> x \<and> w \<noteq> y"
    using rw(5,6) I by (auto simp: with_pipe_def split: if_splits)
  moreover have "pipe_ok (Some (r, w))" "Suc (base + (len - Suc n)) = base + (len - n)"
    using rw(2-4) assms(2) by (auto simp: pipe_ok_def)
  moreover have "npipes e = base + (len - Suc n)" "fds e = with_pipe (stdfds a b c) p (npipes e - 1)"
      "faults e = []" "kid_faults e = (\<lambda>_. [])"
    using I by simp_all
  ultimately show ?thesis
    using False
    by (intro exI [of _ "Some (r, w)"] exI [of _ "e\<lparr>fds := (fds e)(r \<mapsto> PipeRead (npipes e),
      w \<mapsto> PipeWrite (npipes e)), npipes := Suc (npipes e)\<rparr>"])
      (intro conjI exI; simp add: rw(1) with_pipe_def [of _ "Some (r, w)"])
qed

lemma parent_close_ok:
  assumes "i = 0 \<longleftrightarrow> p = None" and "pipe_ok p" and "pipe_ok new"
    and "\<forall>r w x y. p = Some (r, w) \<longrightarrow> new = Some (x, y) \<longrightarrow> x \<noteq> r \<and> x \<noteq> w \<and> y \<noteq> r \<and> y \<noteq> w"
    and "fds e = with_pipe (with_pipe (stdfds a b c) p k) new k'"
  shows "parent_close i p e = Some (e\<lparr>fds := with_pipe (stdfds a b c) new k'\<rparr>)"
proof (cases p)
  case None
  with assms show ?thesis by (simp add: parent_close_def)
next
  case (Some q)
  then obtain r w where p: "p = Some (r, w)" by (cases q) auto
  have "(with_pipe (with_pipe (stdfds a b c) p k) new k')(r := None, w := None)
      = with_pipe (stdfds a b c) new k'"
  proof (cases new)
    case None
    with assms(2) p show ?thesis by (auto simp: pipe_ok_def with_pipe_def fun_eq_iff)
  next
    case (Some q')
    then obtain x y where new: "new = Some (x, y)" by (cases q') auto
    then have ne: "x \<noteq> r" "x \<noteq> w" "y \<noteq> r" "y \<noteq> w" "2 < r" "2 < w"
      using assms(2) p assms(4) [rule_format, OF p new] by (simp_all add: pipe_ok_def)
    from ne(1-4) have "with_pipe (with_pipe (stdfds a b c) p k) new k' z
        = (if z = r then Some (PipeRead k) else if z = w then Some (PipeWrite k)
           else with_pipe (stdfds a b c) new k' z)" if "r \<noteq> w" for z
      using that by (simp add: with_pipe_def p new)
    moreover have "with_pipe (stdfds a b c) new k' r = None" "with_pipe (stdfds a b c) new k' w = None"
      using ne by (simp_all add: with_pipe_def new)
    ultimately show ?thesis
      using assms(2) p by (auto simp: pipe_ok_def fun_eq_iff)
  qed
  with p assms(1,5) show ?thesis by (simp add: parent_close_def sys_close_def)
qed

lemma execute_round:
  assumes "shell_inv (stdfds a b c) base len (Suc n) p e" and "Suc n \<le> len" and "pwf s"
    and "a_cmds (pabs s) = sc # scs" and "a_args sc \<noteq> []"
  shows "\<exists>new tmp' k s' e'. execute_loop Q P len (Suc n) p tmp kids (Ref s) e
      = execute_loop Q P len n new tmp' (kids @ [(npids e, k)]) (Ref s') e'
    \<and> runs sc (child_fds a b c base len (len - Suc n) sc) k \<and> pwf s'
    \<and> pabs s' = (pabs s)\<lparr>a_cmds := scs\<rparr> \<and> shell_inv (stdfds a b c) base len n new e'
    \<and> npids e' = Suc (npids e) \<and> waiting e' = waiting e"
proof -
  let ?i = "len - Suc n" and ?F = "stdfds a b c"
  note I = assms(1) [unfolded shell_inv_def, simplified]
  have i0: "?i = 0 \<longleftrightarrow> p = None" and i1: "?i = len - 1 \<longleftrightarrow> n = 0" and np: "npipes e = base + ?i"
    using I assms(2) by auto
  obtain new e1 live where o: "open_pipe ?i len p e = (Some new, e1)" "pipe_ok new"
    "live = (if n = 0 then None else new)" "n \<noteq> 0 \<longrightarrow> new \<noteq> None \<and> npipes e1 = base + (len - n)"
    "fds e1 = with_pipe (with_pipe ?F p (npipes e - 1)) live (base + ?i)"
    "\<forall>r w x y. p = Some (r, w) \<longrightarrow> live = Some (x, y) \<longrightarrow> x \<noteq> r \<and> x \<noteq> w \<and> y \<noteq> r \<and> y \<noteq> w"
    "faults e1 = []" "kid_faults e1 = (\<lambda>_. [])" "max_fds e1 = max_fds e" "npids e1 = npids e"
    "waiting e1 = waiting e"
    using open_round [OF assms(1,2)] by blast
  have live: "pipe_ok live" using o(2,3) by (simp add: pipe_ok_def)
  let ?tmp = "if ?i \<noteq> 0 then p else tmp"
  let ?ce = "e1\<lparr>faults := kid_faults e1 (npids e1)\<rparr>" and ?pe = "e1\<lparr>npids := Suc (npids e1)\<rparr>"
  let ?in = "if ?i = 0 then a else PipeRead (base + ?i - 1)"
  let ?out = "if ?i = len - 1 then b else PipeWrite (base + ?i)"
  let ?k = "run_child (child Q P ?i len new ?tmp (Ref s) ?ce)"
  have ce: "faults ?ce = []" and pok: "pipe_ok p" using o(8) I by simp_all
  have cin: "child_stdin ?i ?tmp ?ce = Some (Inr (?ce\<lparr>fds := with_pipe (stdfds ?in b c) live (base + ?i)\<rparr>))"
  proof (cases "?i = 0")
    case True
    then show ?thesis using i0 o(5) by (simp add: child_stdin_def)
  next
    case False
    then show ?thesis
      using wire_in [of ?ce p ?i live ?F "npipes e - 1" "base + ?i" a b c, OF ce pok i0 live o(6)]
        o(5) np by simp
  qed
  have "child_stdout ?i len new (?ce\<lparr>fds := with_pipe (stdfds ?in b c) live (base + ?i)\<rparr>)
      = Some (Inr (?ce\<lparr>fds := stdfds ?in ?out c\<rparr>))"
    using wire_out [of "?ce\<lparr>fds := with_pipe (stdfds ?in b c) live (base + ?i)\<rparr>" new ?i len live ?in b c "base + ?i"]
      o(2-4,7,8) i1 by simp
  from child_ok [OF assms(3-5) cin this] have k: "runs sc (child_fds a b c base len ?i sc) ?k"
    using o(8,9) I by (simp add: child_fds_def)
  have pc: "parent_close ?i ?tmp ?pe = Some (?pe\<lparr>fds := with_pipe ?F live (base + ?i)\<rparr>)"
  proof (cases "?i = 0")
    case True
    then show ?thesis using i0 o(5) by (simp add: parent_close_def)
  next
    case False
    then show ?thesis
      using parent_close_ok [of ?i p live ?pe a b c "npipes e - 1" "base + ?i", OF i0 pok live o(6)]
        o(5) by simp
  qed
  obtain s' where s': "pipeline_pop_front P (Ref s) = Some (Ref s')" "pwf s'"
      "pabs s' = (pabs s)\<lparr>a_cmds := scs\<rparr>"
    using ppop_front_refines [OF assms(3)] assms(4) by auto
  have "execute_loop Q P len (Suc n) p tmp kids (Ref s) e = execute_loop Q P len n new ?tmp
      (kids @ [(npids e, ?k)]) (Ref s') (?pe\<lparr>fds := with_pipe ?F live (base + ?i)\<rparr>)"
    using o(1,7,10) pc s'(1) by (simp add: Let_def sys_fork_def del: diff_is_0_eq diff_is_0_eq')
  moreover have "shell_inv ?F base len n new (?pe\<lparr>fds := with_pipe ?F live (base + ?i)\<rparr>)"
    using o(2-4,7-9) I assms(2) by (auto simp: shell_inv_def)
  ultimately show ?thesis
    using k s'(2,3) o(10,11) by (intro exI conjI) (assumption | simp)+
qed

lemma execute_loop_ok:
  assumes "shell_inv (stdfds a b c) base len n p e" and "n \<le> len" and "pwf s"
    and "length (a_cmds (pabs s)) = n" and "list_all (\<lambda>sc. a_args sc \<noteq> []) (a_cmds (pabs s))"
  shows "\<exists>new s' e'. execute_loop Q P len n p tmp kids (Ref s) e = Some (kids @ new, Ref s', Continue e')
    \<and> map fst new = [npids e..<npids e + n]
    \<and> list_all2 (\<lambda>(i, sc) k. runs sc (child_fds a b c base len i sc) k)
        (zip [len - n..<len] (a_cmds (pabs s))) (map snd new)
    \<and> pwf s' \<and> pabs s' = (pabs s)\<lparr>a_cmds := []\<rparr> \<and> fds e' = stdfds a b c
    \<and> npids e' = npids e + n \<and> waiting e' = waiting e"
  using assms
proof (induction n arbitrary: p tmp kids s e)
  case 0
  then show ?case by (auto simp: shell_inv_def intro!: apipeline.equality)
next
  case (Suc n)
  obtain sc scs where sc: "a_cmds (pabs s) = sc # scs" "length scs = n"
    using Suc.prems(4) by (metis length_Suc_conv)
  obtain new tmp' k s1 e1 where r: "execute_loop Q P len (Suc n) p tmp kids (Ref s) e
      = execute_loop Q P len n new tmp' (kids @ [(npids e, k)]) (Ref s1) e1"
    "runs sc (child_fds a b c base len (len - Suc n) sc) k" "pwf s1" "pabs s1 = (pabs s)\<lparr>a_cmds := scs\<rparr>"
    "shell_inv (stdfds a b c) base len n new e1" "npids e1 = Suc (npids e)" "waiting e1 = waiting e"
    using execute_round [OF Suc.prems(1-3) sc(1), of tmp kids] Suc.prems(5) sc(1) by auto
  have cmds: "a_cmds (pabs s1) = scs" by (simp add: r(4))
  obtain new' s' e' where IH: "execute_loop Q P len n new tmp' (kids @ [(npids e, k)]) (Ref s1) e1
      = Some ((kids @ [(npids e, k)]) @ new', Ref s', Continue e')"
    "map fst new' = [npids e1..<npids e1 + n]"
    "list_all2 (\<lambda>(i, sc) k. runs sc (child_fds a b c base len i sc) k) (zip [len - n..<len] scs) (map snd new')"
    "pwf s'" "pabs s' = (pabs s1)\<lparr>a_cmds := []\<rparr>" "fds e' = stdfds a b c" "npids e' = npids e1 + n"
    "waiting e' = waiting e1"
    using Suc.IH [OF r(5) _ r(3), of tmp' "kids @ [(npids e, k)]"] cmds sc Suc.prems(2,5) by auto
  have upt: "[len - Suc n..<len] = (len - Suc n) # [len - n..<len]"
    using Suc.prems(2) by (simp add: upt_conv_Cons Suc_diff_Suc)
  have "map fst ((npids e, k) # new') = [npids e..<npids e + Suc n]"
    using IH(2) r(6) by (simp add: upt_conv_Cons)
  moreover have "list_all2 (\<lambda>(i, sc) k. runs sc (child_fds a b c base len i sc) k)
      (zip [len - Suc n..<len] (a_cmds (pabs s))) (map snd ((npids e, k) # new'))"
    using IH(3) r(2) by (simp add: upt sc(1))
  ultimately show ?case
    using IH r by (intro exI [of _ "(npids e, k) # new'"] exI conjI) (assumption | simp)+
qed


lemma execute_pipeline_ok:
  assumes "pwf s" and "pabs s = \<lparr>a_cmds = cmds, a_wait = w\<rparr>" and "cmds \<noteq> []"
    and "list_all (\<lambda>sc. a_args sc \<noteq> []) cmds"
    and "\<not> (\<exists>sc. cmds = [sc] \<and> hd (a_args sc) \<in> set internal_cmd)"
    and "faults e = []" and "kid_faults e = (\<lambda>_. [])" and "7 \<le> max_fds e" and "fds e = stdfds a b c"
  shows "\<exists>kids p e'. execute_pipeline Q P (Ref s) e = Some (kids, p,
        if w \<and> \<not> list_all (\<lambda>q. waitpid_returns q e') (map fst kids) then Waits e' else Continue e')
    \<and> map fst kids = [npids e..<npids e + length cmds]
    \<and> list_all2 (\<lambda>(i, sc) k. runs sc (child_fds a b c (npipes e) (length cmds) i sc) k)
        (zip [0..<length cmds] cmds) (map snd kids)
    \<and> fds e' = fds e
    \<and> waited e' = (if w then waited e @ takeWhile (\<lambda>q. waitpid_returns q e') (map fst kids) else waited e)
    \<and> sigchld_ignored e' = (\<not> w \<or> sigchld_ignored e)
    \<and> npids e' = npids e + length cmds \<and> first_pid e' = first_pid e \<and> ends e' = ends e"
proof -
  obtain sc scs where sc: "cmds = sc # scs" using assms(3) by (cases cmds) auto
  obtain d where d: "pipeline_front P (Ref s) = Some (Ref d)" "wf d" "abs d = sc"
    using pfront_refines [OF assms(1)] assms(2) sc by auto
  let ?n = "length cmds"
  let ?e = "if w then e else e\<lparr>sigchld_ignored := True\<rparr>"
  have inv: "shell_inv (stdfds a b c) (npipes e) ?n ?n None ?e"
    using assms(6-9) sc by (simp add: shell_inv_def pipe_ok_def)
  obtain new s' e' where l: "execute_loop Q P ?n ?n None None [] (Ref s) ?e = Some (new, Ref s', Continue e')"
    "map fst new = [npids ?e..<npids ?e + ?n]"
    "list_all2 (\<lambda>(i, sc) k. runs sc (child_fds a b c (npipes e) ?n i sc) k)
        (zip [0..<?n] cmds) (map snd new)"
    "pwf s'" "pabs s' = (pabs s)\<lparr>a_cmds := []\<rparr>" "fds e' = stdfds a b c"
    "npids e' = npids ?e + ?n" "waiting e' = waiting ?e"
    using execute_loop_ok [OF inv order_refl assms(1), of None "[]"] assms(2,4) by auto
  have "wait s = w" "wait s' = w"
    using assms(2) arg_cong [OF l(5), of a_wait] by (auto simp: abs_pipeline_def)
  moreover have "builtin_alone Q P (Ref s) = Some False"
    using builtin_alone_spec [OF assms(1)] assms(2,4,5) by simp
  ultimately have run: "execute_pipeline Q P (Ref s) e
      = Some (new, Ref s', if w then wait_all (map fst new) e' else Continue e')"
    using l(1) pis_empty_refines [OF assms(1)] plength_refines [OF assms(1)] assms(2,4) sc d
      is_empty_refines [OF d(2)]
    by (auto simp: execute_pipeline_def pipeline_get_wait_def pipeline_inv_def Let_def)
  have e': "sigchld_ignored e' = (\<not> w \<or> sigchld_ignored e)" "waited e' = waited e"
      "first_pid e' = first_pid e" "ends e' = ends e" "npids e' = npids e + ?n"
    using l(7,8) by (auto simp: waiting_def split: if_splits)
  let ?ret = "\<lambda>q. waitpid_returns q e'"
  let ?f = "if w then e'\<lparr>waited := waited e' @ takeWhile ?ret (map fst new)\<rparr> else e'"
  show ?thesis
    by (rule exI [of _ new], rule exI [of _ "Ref s'"], rule exI [of _ ?f])
      (use run l(2,3,6) e' assms(9) in \<open>simp add: wait_all_ok Let_def\<close>)
qed

lemma execute_builtin_ok:
  assumes "pwf s" and "a_cmds (pabs s) = [sc]" and "a_args sc = x # xs" and "x \<in> set internal_cmd"
  shows "\<exists>d. wf d \<and> abs d = sc
    \<and> execute_pipeline Q P (Ref s) e = map_option (\<lambda>r. ([], Ref s, r)) (builtin_run Q (Ref d) e)"
proof -
  obtain d where d: "pipeline_front P (Ref s) = Some (Ref d)" "wf d" "abs d = sc"
    using pfront_refines [OF assms(1,2)] by blast
  have "builtin_alone Q P (Ref s) = Some True"
    using builtin_alone_spec [OF assms(1)] assms(2-4) by simp
  with d show ?thesis
    using pis_empty_refines [OF assms(1)] is_empty_refines [OF d(2)] assms(2,3)
    by (auto simp: execute_pipeline_def map_option_case split: option.splits)
qed

end

subsection \<open>Properties\<close>

lemma pipeline_queuesI: "gqueue Q items \<Longrightarrow> gqueue P pitems \<Longrightarrow> pipeline_queues Q items P pitems"
  by (intro pipeline_queues.intro scommand_queue.intro)

text \<open>
  C5. A pipeline of \<open>n\<close> commands, run from a shell that has just its three standard descriptors, starts
  exactly \<open>n\<close> children. Child \<open>i\<close> executes command \<open>i\<close> with its own arguments; its input comes from
  the pipe of child \<open>i - 1\<close> and its output goes to the pipe to child \<open>i + 1\<close> (the shell's own input
  and output at the two ends), unless the command redirects them; and no other descriptor is open
  in it, so that every pipe gets its end of file. The shell has its descriptors back at the end, and
  waits for every child, in order, exactly when the pipeline is not a background one; it stays in
  the first \<open>waitpid\<close> that does not return, which is the one for the first child that never ends, or,
  when \<open>SIGCHLD\<close> is ignored because of an earlier background pipeline, the first one if any child
  of the shell never ends. This holds when no call of the shell or of a child fails and the shell
  may open seven descriptors.
\<close>

theorem execute_pipeline_wiring:
  assumes "gqueue Q items" and "gqueue P pitems" and "wf_pipeline items pitems s"
    and "abs_pipeline items pitems s = \<lparr>a_cmds = cmds, a_wait = w\<rparr>" and "cmds \<noteq> []"
    and "list_all (\<lambda>sc. a_args sc \<noteq> []) cmds"
    and "\<not> (\<exists>sc. cmds = [sc] \<and> hd (a_args sc) \<in> set internal_cmd)"
    and "faults e = []" and "kid_faults e = (\<lambda>_. [])" and "7 \<le> max_fds e" and "fds e = stdfds a b c"
  shows "\<exists>kids p e'. execute_pipeline Q P (Ref s) e = Some (kids, p,
        if w \<and> \<not> list_all (\<lambda>q. waitpid_returns q e') (map fst kids) then Waits e' else Continue e')
    \<and> map fst kids = [npids e..<npids e + length cmds]
    \<and> list_all2 (\<lambda>(i, sc) k. runs sc (child_fds a b c (npipes e) (length cmds) i sc) k)
        (zip [0..<length cmds] cmds) (map snd kids)
    \<and> fds e' = fds e
    \<and> waited e' = (if w then waited e @ takeWhile (\<lambda>q. waitpid_returns q e') (map fst kids) else waited e)
    \<and> sigchld_ignored e' = (\<not> w \<or> sigchld_ignored e)
    \<and> npids e' = npids e + length cmds \<and> first_pid e' = first_pid e \<and> ends e' = ends e"
  by (rule pipeline_queues.execute_pipeline_ok [OF pipeline_queuesI [OF assms(1,2)] assms(3-11)])

definition posix0 :: posix where
  "posix0 = \<lparr>fds = stdfds Terminal Terminal Terminal, max_fds = 16, npipes = 0, first_pid = 100,
     npids = 100, ends = (\<lambda>_. True), faults = [], kid_faults = (\<lambda>_. []), sigchld_ignored = False, waited = [], cwd = ''/'', home = NULL,
     stdout_log = [], stderr_log = []\<rparr>"

theorem execute_pipeline_wiring_witness:
  "\<exists>kids p e'. execute_pipeline list_gqueue list_gqueue
      (Ref \<lparr>pipe = Some [\<lparr>cmd = Some [cstr ''ls''], redir_out = NULL, redir_in = NULL\<rparr>,
                         \<lparr>cmd = Some [cstr ''wc''], redir_out = NULL, redir_in = NULL\<rparr>], wait = True\<rparr>)
      posix0 = Some (kids, p, Continue e')
    \<and> map fst kids = [100, 101] \<and> waited e' = [100, 101]"
proof -
  let ?s = "\<lparr>pipe = Some [\<lparr>cmd = Some [cstr ''ls''], redir_out = NULL, redir_in = NULL\<rparr>,
                         \<lparr>cmd = Some [cstr ''wc''], redir_out = NULL, redir_in = NULL\<rparr>], wait = True\<rparr>"
  let ?c = "\<lambda>x. \<lparr>a_args = [x], a_out = None, a_in = None\<rparr>"
  have "wf_pipeline (\<lambda>q. q) (\<lambda>q. q) ?s"
    and "abs_pipeline (\<lambda>q. q) (\<lambda>q. q) ?s = \<lparr>a_cmds = [?c ''ls'', ?c ''wc''], a_wait = True\<rparr>"
    by (simp_all add: abs_scommand_defs abs_pipeline_defs)
  from execute_pipeline_wiring [OF gqueue_list gqueue_list this, of posix0 Terminal Terminal Terminal]
  show ?thesis by (auto simp: posix0_def upt_rec waitpid_returns_def)
qed

text \<open>
  A pipeline that is a single built-in command starts no child: \<open>cd\<close> changes the directory of the
  shell itself to its argument (else to \<open>HOME\<close>) and reports a failure, \<open>help\<close> prints its text, and
  \<open>exit\<close> ends the shell with status 0.
\<close>

theorem execute_builtin:
  assumes "gqueue Q items" and "gqueue P pitems" and "wf_pipeline items pitems s"
    and "a_cmds (abs_pipeline items pitems s) = [sc]" and "a_args sc = x # xs" and "x \<in> set internal_cmd"
  shows "execute_pipeline Q P (Ref s) e = Some ([], Ref s,
    if x = ''cd'' then Continue (cd_to (case xs of [] \<Rightarrow> home e | y # _ \<Rightarrow> Ref (cstr y)) (xs = []) e)
    else if x = ''help'' then Continue (put_line help_text e)
    else Quit 0 e)"
proof -
  note Q = scommand_queue.intro [OF assms(1)]
  obtain d where d: "wf_scommand items d" "abs_scommand items d = sc"
    "execute_pipeline Q P (Ref s) e = map_option (\<lambda>r. ([], Ref s, r)) (builtin_run Q (Ref d) e)"
    using pipeline_queues.execute_builtin_ok [OF pipeline_queuesI [OF assms(1,2)] assms(3-6)] by blast
  have "a_args (abs_scommand items d) = x # xs" using d(2) assms(5) by simp
  with assms(6) show ?thesis
    unfolding d(3) by (auto simp: scommand_queue.builtin_run_spec [OF Q d(1)]
        scommand_queue.builtin_cd_spec [OF Q d(1)] internal_cmd_def builtin_help_def)
qed

theorem execute_builtin_witness:
  "execute_pipeline list_gqueue list_gqueue
      (Ref \<lparr>pipe = Some [\<lparr>cmd = Some [cstr ''exit''], redir_out = NULL, redir_in = NULL\<rparr>], wait = True\<rparr>)
      posix0
    = Some ([], Ref \<lparr>pipe = Some [\<lparr>cmd = Some [cstr ''exit''], redir_out = NULL, redir_in = NULL\<rparr>],
        wait = True\<rparr>, Quit 0 posix0)"
proof -
  let ?s = "\<lparr>pipe = Some [\<lparr>cmd = Some [cstr ''exit''], redir_out = NULL, redir_in = NULL\<rparr>], wait = True\<rparr>"
  let ?c = "\<lparr>a_args = [''exit''], a_out = None, a_in = None\<rparr>"
  have "wf_pipeline (\<lambda>q. q) (\<lambda>q. q) ?s" and "a_cmds (abs_pipeline (\<lambda>q. q) (\<lambda>q. q) ?s) = [?c]"
    by (simp_all add: abs_scommand_defs abs_pipeline_defs)
  from execute_builtin [OF gqueue_list gqueue_list this, of "''exit''" "[]" posix0]
  show ?thesis by (simp add: internal_cmd_def)
qed

subsection \<open>The shell survives every command\<close>

lemma open_pipe_ends: "ends (snd (open_pipe i len p e)) = ends e"
  by (cases "sys_pipe e") (use sys_ends(2) [of e] in \<open>auto simp: open_pipe_def split: option.splits\<close>)

lemma parent_close_ends: "parent_close i p e = Some e' \<Longrightarrow> ends e' = ends e"
  by (auto simp: parent_close_def bind_eq_Some_conv split: if_splits)

lemma wait_all_ends [simp]: "ends (end_state (wait_all ps e)) = ends e"
  by (simp add: wait_all_ok Let_def)

lemma wait_all_stuck: "wait_all ps e = Waits e' \<Longrightarrow> ends e = f \<Longrightarrow> \<exists>q. \<not> f q"
  by (auto simp: wait_all_ok Let_def waitpid_returns_def list_all_iff split: if_splits)

context pipeline_queues
begin

lemma execute_loop_total:
  assumes "pwf s" and "length (a_cmds (pabs s)) = n" and "n \<le> len" and "n < len \<longrightarrow> p \<noteq> None"
  shows "\<exists>kids' s' r. execute_loop Q P len n p tmp kids (Ref s) e = Some (kids', Ref s', r)
    \<and> ends (end_state r) = ends e \<and> (\<forall>e'. r \<noteq> Waits e')"
  using assms
proof (induction n arbitrary: s p tmp kids e)
  case (Suc n)
  let ?i = "len - Suc n"
  obtain s1 where s1: "pipeline_pop_front P (Ref s) = Some (Ref s1)" "pwf s1"
      "length (a_cmds (pabs s1)) = n"
  proof -
    have "a_cmds (pabs s) \<noteq> []" using Suc.prems(2) by auto
    from ppop_front_refines [OF Suc.prems(1) this] Suc.prems(2) that show thesis by auto
  qed
  obtain res e1 where op: "open_pipe ?i len p e = (res, e1)" by fastforce
  have k1: "ends e1 = ends e" using open_pipe_ends [of ?i len p e] op by simp
  show ?case
  proof (cases res)
    case None
    with op k1 show ?thesis by (simp add: Let_def)
  next
    case (Some new)
    then have new: "n < len \<longrightarrow> n \<noteq> 0 \<longrightarrow> new \<noteq> None"
      using op Suc.prems(3) by (auto simp: open_pipe_def split: if_splits option.splits prod.splits)
    obtain x e2 where x: "sys_fork e1 = (x, e2)" by fastforce
    have pc: "\<exists>e3. parent_close ?i (if ?i \<noteq> 0 then p else tmp) e2 = Some e3"
      using Suc.prems(3,4) by (auto simp: parent_close_def)
    then obtain e3 where e3: "parent_close ?i (if ?i \<noteq> 0 then p else tmp) e2 = Some e3" by blast
    have k2: "ends e2 = ends e" using sys_ends(3) [of e1] x k1 by simp
    have k3: "ends e3 = ends e" using parent_close_ends [OF e3] k2 by simp
    show ?thesis
    proof (cases x)
      case None
      with op x Some k2 show ?thesis by (simp add: Let_def)
    next
      case x': (Some y)
      obtain pid ce where y: "y = (pid, ce)" by fastforce
      let ?tmp = "if ?i \<noteq> 0 then p else tmp"
      let ?kids = "kids @ [(pid, run_child (child Q P ?i len new ?tmp (Ref s) ce))]"
      have "execute_loop Q P len (Suc n) p tmp kids (Ref s) e
          = execute_loop Q P len n new ?tmp ?kids (Ref s1) e3"
        using op Some x x' y e3 s1(1) by (simp add: Let_def del: diff_is_0_eq diff_is_0_eq')
      moreover have "\<exists>kids' s' r. execute_loop Q P len n new ?tmp ?kids (Ref s1) e3 = Some (kids', Ref s', r)
          \<and> ends (end_state r) = ends e \<and> (\<forall>e'. r \<noteq> Waits e')"
      proof (cases "n = 0")
        case False
        then show ?thesis using Suc.IH [OF s1(2,3), of new ?tmp ?kids e3] Suc.prems(3) new k3 by simp
      qed (simp add: k3)
      ultimately show ?thesis by simp
    qed
  qed
qed simp

text \<open>
  \<open>execute_pipeline\<close> gets through, and if the shell then stays in a \<open>waitpid\<close> there is a child that
  never ends.
\<close>

lemma execute_pipeline_total:
  assumes "pwf s" and "list_all (\<lambda>sc. a_args sc \<noteq> []) (a_cmds (pabs s))"
  shows "\<exists>kids s' r. execute_pipeline Q P (Ref s) e = Some (kids, Ref s', r)
    \<and> ends (end_state r) = ends e \<and> (\<forall>e'. r = Waits e' \<longrightarrow> (\<exists>q. \<not> ends e q))"
proof (cases "a_cmds (pabs s)")
  case Nil
  then show ?thesis using pis_empty_refines [OF assms(1)] by (simp add: execute_pipeline_def)
next
  case (Cons sc scs)
  then obtain x xs where sc: "a_args sc = x # xs" using assms(2) by (auto simp: neq_Nil_conv)
  obtain d where d: "pipeline_front P (Ref s) = Some (Ref d)" "wf d" "abs d = sc"
    using pfront_refines [OF assms(1) Cons] by blast
  have alone: "builtin_alone Q P (Ref s) = Some (scs = [] \<and> x \<in> set internal_cmd)"
    using builtin_alone_spec [OF assms] Cons sc by auto
  show ?thesis
  proof (cases "scs = [] \<and> x \<in> set internal_cmd")
    case True
    obtain r where "builtin_run Q (Ref d) e = Some r" "ends (end_state r) = ends e" "\<forall>e'. r \<noteq> Waits e'"
      using builtin_run_ok [OF d(2), of x xs e] d(3) sc True by auto
    with True alone d sc Cons show ?thesis
      using pis_empty_refines [OF assms(1)] is_empty_refines [OF d(2)]
      by (simp add: execute_pipeline_def)
  next
    case False
    let ?n = "length (a_cmds (pabs s))"
    let ?e = "if wait s then e else e\<lparr>sigchld_ignored := True\<rparr>"
    obtain kids s' r where "execute_loop Q P ?n ?n None None [] (Ref s) ?e = Some (kids, Ref s', r)"
      "ends (end_state r) = ends e" "\<forall>e'. r \<noteq> Waits e'"
      using execute_loop_total [OF assms(1) refl order_refl, of None None "[]" ?e] by auto
    moreover have "builtin_alone Q P (Ref s) = Some False" using alone False by simp
    moreover have "pipeline_is_empty P (Ref s) = Some False" "scommand_is_empty Q (Ref d) = Some False"
      using pis_empty_refines [OF assms(1)] Cons is_empty_refines [OF d(2)] d(3) sc by simp_all
    ultimately show ?thesis
      using d(1) plength_refines [OF assms(1)]
      by (cases r; cases "wait s"; cases "wait s'")
        (auto simp: execute_pipeline_def pipeline_get_wait_def pipeline_inv_def
          intro: wait_all_stuck)
  qed
qed

end

end
