(* ===== verification/Mybash.thy ===== *)
theory Mybash
  imports Line Execute
begin

text \<open>
  \<open>kickstart/mybash.c\<close>: the read-and-execute loop of the shell, composed of the parser, the executor
  and the command types. Memory for new objects is assumed to be available (\<open>ok = True\<close>).
\<close>

definition show_prompt :: "posix \<Rightarrow> posix" where
  "show_prompt e = put_line ''mybash> '' e"

text \<open>
  The loop of \<open>main\<close>: \<open>kids\<close> collects the children started by all lines. It is left at the end of the
  input, by \<open>exit\<close> (\<open>Quit\<close>), or never, when a \<open>waitpid\<close> does not return (\<open>Waits\<close>).
\<close>

partial_function (option) main_loop ::
  "(cbuf, 'q) gqueue_ops \<Rightarrow> ('q, 'p) pipeline_ops \<Rightarrow> 's parser_ops \<Rightarrow> 's cptr \<Rightarrow> kids \<Rightarrow> posix
    \<Rightarrow> (kids \<times> builtin_end) option" where
  "main_loop Q P L input kids e =
     Option.bind (deref input) (\<lambda>p.
       if parser_at_eof L p then Some (kids, Continue e)
       else Option.bind (parse_pipeline Q P L True input) (\<lambda>(pipe, input).
         if pipe \<noteq> NULL then
           Option.bind (execute_pipeline Q P pipe (show_prompt e)) (\<lambda>(new, pipe, r).
             case r of Continue e \<Rightarrow> Option.bind (pipeline_destroy P pipe) (\<lambda>_.
                 main_loop Q P L input (kids @ new) e)
             | r \<Rightarrow> Some (kids @ new, r))
         else main_loop Q P L input kids (show_prompt e)))"

definition main ::
  "(cbuf, 'q) gqueue_ops \<Rightarrow> ('q, 'p) pipeline_ops \<Rightarrow> 's parser_ops \<Rightarrow> 's \<Rightarrow> posix
    \<Rightarrow> (kids \<times> builtin_end) option" where
  "main Q P L parser_new e = do {
     (kids, r) \<leftarrow> main_loop Q P L (Ref parser_new) [] e;
     Some (kids, case r of Continue e \<Rightarrow> Quit 0 e | r \<Rightarrow> r) }"

lemma next_line_shorter: "s \<noteq> [] \<Longrightarrow> length (next_line s) < length s"
  using length_dropWhile_le [of "\<lambda>c. c \<noteq> newline" s] by (cases s) (auto simp: next_line_def)

text \<open>An input of whole lines: it is empty or ends with a newline.\<close>

definition whole_lines :: "string \<Rightarrow> bool" where
  "whole_lines s \<longleftrightarrow> s = [] \<or> last s = newline"

lemma whole_lines_newline: "whole_lines s \<Longrightarrow> s \<noteq> [] \<Longrightarrow> newline \<in> set s"
  using last_in_set [of s] by (auto simp: whole_lines_def)

lemma whole_lines_next: "whole_lines s \<Longrightarrow> whole_lines (next_line s)"
proof (induction s)
  case (Cons c s)
  show ?case
  proof (cases "c = newline")
    case False
    then have "s \<noteq> []" using Cons.prems by (auto simp: whole_lines_def)
    then show ?thesis using Cons False by (simp add: whole_lines_def next_line_def)
  qed (use Cons.prems in \<open>auto simp: whole_lines_def next_line_def split: if_splits\<close>)
qed simp

context pipeline_parser
begin

lemma main_loop_line:
  assumes "rest p \<noteq> []" and "parse_pipeline Q P L True (Ref p) = Some (r, Ref p')" and "r \<noteq> Freed"
    and "\<forall>s. r = Ref s \<longrightarrow> good s"
  shows "(\<exists>kids' x. main_loop Q P L (Ref p) kids e = Some (kids', x) \<and> (\<forall>e'. x = Waits e' \<longrightarrow> (\<exists>q. \<not> ends e q)))
    \<or> (\<exists>kids' e'. main_loop Q P L (Ref p) kids e = main_loop Q P L (Ref p') kids' e' \<and> ends e' = ends e)"
proof (cases r)
  case NULL
  then have "main_loop Q P L (Ref p) kids e = main_loop Q P L (Ref p') kids (show_prompt e)"
    using assms(1,2) by (simp add: main_loop.simps [of Q P L "Ref p"] at_eof)
  moreover have "ends (show_prompt e) = ends e" by (simp add: show_prompt_def)
  ultimately show ?thesis by blast
next
  case (Ref s)
  then have g: "pwf s" "list_all (\<lambda>sc. a_args sc \<noteq> []) (a_cmds (pabs s))"
    using assms(4) by (auto simp: good_def)
  obtain new s' x where x: "execute_pipeline Q P (Ref s) (show_prompt e) = Some (new, Ref s', x)"
    "ends (end_state x) = ends e" "\<forall>e'. x = Waits e' \<longrightarrow> (\<exists>q. \<not> ends e q)"
    using execute_pipeline_total [OF g, of "show_prompt e"] by (auto simp: show_prompt_def)
  have "main_loop Q P L (Ref p) kids e = (case x of Continue e \<Rightarrow> main_loop Q P L (Ref p') (kids @ new) e
      | r \<Rightarrow> Some (kids @ new, r))"
    using assms(1,2) Ref x(1) pdestroy_returns_NULL [of s']
    by (simp add: main_loop.simps [of Q P L "Ref p"] at_eof split: builtin_end.splits)
  then show ?thesis using x(2,3) by (cases x) auto
qed (use assms(3) in simp)

text \<open>
  The loop comes to an end, unless it stays in a \<open>waitpid\<close> or reaches a line with garbage.
\<close>

lemma main_loop_returns:
  assumes "whole_lines (rest p)"
  shows "(\<exists>kids' x. main_loop Q P L (Ref p) kids e = Some (kids', x) \<and> (\<forall>e'. x = Waits e' \<longrightarrow> (\<exists>q. \<not> ends e q)))
    \<or> (\<exists>q n. rest q = (next_line ^^ n) (rest p) \<and> rest q \<noteq> []
        \<and> parse_pipeline Q P L True (Ref q) = Some (NULL, Freed))"
  using assms
proof (induction "length (rest p)" arbitrary: p kids e rule: less_induct)
  case less
  show ?case
  proof (cases "rest p = []")
    case True
    then show ?thesis by (simp add: main_loop.simps [of Q P L "Ref p"] at_eof)
  next
    case False
    obtain r pp' where r: "parse_pipeline Q P L True (Ref p) = Some (r, pp')"
      "pp' = Freed \<and> r = NULL \<or> (\<exists>p'. pp' = Ref p' \<and> rest p' = next_line (rest p))"
      "\<forall>s. r = Ref s \<longrightarrow> good s \<and> a_cmds (pabs s) \<noteq> []" "r \<noteq> Freed"
      using parse_pipeline_ok [OF whole_lines_newline [OF less.prems False]] by blast
    show ?thesis
    proof (cases "pp' = Freed")
      case True
      with r have "parse_pipeline Q P L True (Ref p) = Some (NULL, Freed)" by auto
      with False have "rest p = (next_line ^^ 0) (rest p) \<and> rest p \<noteq> []
          \<and> parse_pipeline Q P L True (Ref p) = Some (NULL, Freed)" by simp
      then show ?thesis by blast
    next
      case parser: False
      then obtain p' where p': "pp' = Ref p'" "rest p' = next_line (rest p)" using r(2) by blast
      have IH: "(\<exists>kids' x. main_loop Q P L (Ref p') kids e = Some (kids', x) \<and> (\<forall>e'. x = Waits e' \<longrightarrow> (\<exists>q. \<not> ends e q)))
          \<or> (\<exists>q n. rest q = (next_line ^^ n) (rest p) \<and> rest q \<noteq> []
              \<and> parse_pipeline Q P L True (Ref q) = Some (NULL, Freed))" for kids e
        using less.hyps [of p' kids e] next_line_shorter [OF False] whole_lines_next [OF less.prems] p'(2)
        by (metis funpow_Suc_right o_apply)
      have g: "\<forall>s. r = Ref s \<longrightarrow> good s" using r(3) by blast
      show ?thesis
        using main_loop_line [OF False r(1) [unfolded p'(1)] r(4) g, of kids e]
      proof (elim disjE exE conjE, goal_cases)
        case (2 kids' e')
        then show ?case using IH [of kids' e'] by simp
      qed blast
    qed
  qed
qed

lemma main_garbage:
  assumes "rest p \<noteq> []" and "parse_pipeline Q P L True (Ref p) = Some (NULL, Freed)"
  shows "main_loop Q P L (Ref p) kids e = None"
  using assms
  by (simp add: main_loop.simps [of Q P L "Ref p"] main_loop.simps [of Q P L Freed] at_eof)

end

subsection \<open>Properties\<close>




text \<open>
  C40. A line with garbage brings the shell down: for every lexer that behaves as documented and every
  line of the grammar that has a command without a word before its last bar, or something other than
  blanks behind its \<open>&\<close>, \<open>parse_pipeline\<close> destroys the parser that \<open>main\<close> goes on to use, and the
  shell runs into a use of freed memory.
\<close>

theorem garbage_kills_shell:
  assumes "gqueue Q items" and "gqueue P pitems" and "word_lexer L rest"
    and "rest p = line_text cs bg @ newline # later" and "line_ok cs bg" and "meaning cs bg = Garbage"
  shows "main Q P L p e = None"
proof -
  note lp = line_parserI [OF assms(1-3)]
  have "rest p \<noteq> []" using assms(4) by simp
  moreover have "parse_pipeline Q P L True (Ref p) = Some (NULL, Freed)"
    using line_parser.parse_line [OF lp assms(4,5)] assms(6) by simp
  ultimately show ?thesis
    by (simp add: main_def pipeline_parser.main_garbage [OF line_parser.axioms(1) [OF lp]])
qed

theorem garbage_kills_shell_witness:
  "main list_gqueue list_gqueue string_lexer (''ls & x'' @ [newline]) posix0 = None"
proof -
  let ?cs = "[([Token [] ARG_NORMAL [] ''ls''], '' '')] :: command_line list"
  have ok: "line_ok ?cs (Some '' x'')" "meaning ?cs (Some '' x'') = Garbage"
    by (simp_all add: line_ok_def command_ok_def token_ok_def plain_word_def plain_char_def meaning_def named_def blank_def)
  have "''ls & x'' @ [newline] = line_text ?cs (Some '' x'') @ [newline]"
    by (simp add: line_text_def command_chars_def token_text_def)
  then show ?thesis
    by (rule garbage_kills_shell [OF gqueue_list gqueue_list strwords.word_lexer_axioms _ ok])
qed

end
