(* ===== verification/Spinlock.thy ===== *)
theory Spinlock
  imports Prelude
begin

text \<open>
  \<open>labo2/kernel/spinlock.c\<close> with the interrupt switch of \<open>riscv.h\<close> and the per-CPU data of \<open>proc.h\<close>:
  the state every other kernel component extends. \<open>h\<close> is always the hart that runs the code, which is
  what \<open>cpuid()\<close> reads from the thread pointer.

  The functions are run to the end on one hart; \<open>acquire\<close> of a lock another hart holds would spin for
  the whole run, so it does not return (\<open>None\<close>), like a \<open>panic()\<close>. Several harts at once are the
  subject of the step relation at the end, where the spinning and the atomic swap are steps.
\<close>

subsection \<open>State\<close>

text \<open>The lock objects of the kernel, named by the structure they are part of.\<close>

datatype lockid =
    pid_lock | wait_lock | proc_lock nat | tickslock | sem_lock nat | kmem_lock | cons_lock
  | uart_tx_lock | pr_lock | bcache_lock | log_lock | itable_lock | ftable_lock | pipe_lock nat
  | vdisk_lock | buf_lock nat | inode_lock nat

record spinlock =
  locked :: uint
  name :: string
  lk_cpu :: "nat option"

record cpu =
  c_proc :: "nat option"
  noff :: int
  intena :: bool

record kcpu =
  cpus :: "nat \<Rightarrow> cpu"
  sie :: "nat \<Rightarrow> bool"
  lks :: "lockid \<Rightarrow> spinlock"

subsection \<open>Interrupts\<close>

definition intr_get :: "nat \<Rightarrow> 'a kcpu_scheme \<Rightarrow> bool" where
  "intr_get h s = sie s h"

definition intr_on :: "nat \<Rightarrow> 'a kcpu_scheme \<Rightarrow> 'a kcpu_scheme" where
  "intr_on h s = s\<lparr>sie := (sie s)(h := True)\<rparr>"

definition intr_off :: "nat \<Rightarrow> 'a kcpu_scheme \<Rightarrow> 'a kcpu_scheme" where
  "intr_off h s = s\<lparr>sie := (sie s)(h := False)\<rparr>"

definition push_off :: "nat \<Rightarrow> 'a kcpu_scheme \<Rightarrow> 'a kcpu_scheme" where
  "push_off h s =
     (let old = intr_get h s;
          s = intr_off h s;
          c = cpus s h;
          c = (if noff c = 0 then c\<lparr>intena := old\<rparr> else c)
      in s\<lparr>cpus := (cpus s)(h := c\<lparr>noff := noff c + 1\<rparr>)\<rparr>)"

definition pop_off :: "nat \<Rightarrow> 'a kcpu_scheme \<Rightarrow> 'a kcpu_scheme option" where
  "pop_off h s =
     (if intr_get h s then None
      else if noff (cpus s h) < 1 then None
      else let c = (cpus s h)\<lparr>noff := noff (cpus s h) - 1\<rparr>;
               s = s\<lparr>cpus := (cpus s)(h := c)\<rparr>
           in Some (if noff c = 0 \<and> intena c then intr_on h s else s))"

subsection \<open>Locks\<close>

definition initlock :: "lockid \<Rightarrow> string \<Rightarrow> 'a kcpu_scheme \<Rightarrow> 'a kcpu_scheme" where
  "initlock lk nm s = s\<lparr>lks := (lks s)(lk := \<lparr>locked = 0, name = nm, lk_cpu = None\<rparr>)\<rparr>"

definition holding :: "nat \<Rightarrow> lockid \<Rightarrow> 'a kcpu_scheme \<Rightarrow> bool" where
  "holding h lk s \<longleftrightarrow> locked (lks s lk) \<noteq> 0 \<and> lk_cpu (lks s lk) = Some h"

definition acquire :: "nat \<Rightarrow> lockid \<Rightarrow> 'a kcpu_scheme \<Rightarrow> 'a kcpu_scheme option" where
  "acquire h lk s =
     (let s = push_off h s in
      if holding h lk s then None
      else if locked (lks s lk) \<noteq> 0 then None
      else Some (s\<lparr>lks := (lks s)(lk := (lks s lk)\<lparr>locked := 1, lk_cpu := Some h\<rparr>)\<rparr>))"

definition release :: "nat \<Rightarrow> lockid \<Rightarrow> 'a kcpu_scheme \<Rightarrow> 'a kcpu_scheme option" where
  "release h lk s =
     (if \<not> holding h lk s then None
      else pop_off h (s\<lparr>lks := (lks s)(lk := (lks s lk)\<lparr>lk_cpu := None, locked := 0\<rparr>)\<rparr>))"

definition myproc :: "nat \<Rightarrow> 'a kcpu_scheme \<Rightarrow> (nat option \<times> 'a kcpu_scheme) option" where
  "myproc h s = do {
     let s = push_off h s;
     let p = c_proc (cpus s h);
     s \<leftarrow> pop_off h s;
     Some (p, s) }"

subsection \<open>The laws of a critical section\<close>

text \<open>
  \<open>touch\<close> is what a matched \<open>push_off\<close> and \<open>pop_off\<close> leave behind: nothing but, at the outermost
  level, the recorded interrupt flag. \<open>within\<close> is the state right after a successful \<open>acquire\<close>.
\<close>

definition touch :: "nat \<Rightarrow> 'a kcpu_scheme \<Rightarrow> 'a kcpu_scheme" where
  "touch h s = (if noff (cpus s h) = 0
     then s\<lparr>cpus := (cpus s)(h := (cpus s h)\<lparr>intena := sie s h\<rparr>)\<rparr> else s)"

definition within :: "nat \<Rightarrow> lockid \<Rightarrow> 'a kcpu_scheme \<Rightarrow> 'a kcpu_scheme" where
  "within h lk s = s\<lparr>
     cpus := (cpus s)(h := (cpus s h)\<lparr>intena := (if noff (cpus s h) = 0 then sie s h else intena (cpus s h)),
                                     noff := noff (cpus s h) + 1\<rparr>),
     sie := (sie s)(h := False),
     lks := (lks s)(lk := (lks s lk)\<lparr>locked := 1, lk_cpu := Some h\<rparr>)\<rparr>"

text \<open>A lock nobody holds, and a hart whose interrupts are off exactly as \<open>push_off\<close> leaves them.\<close>

definition free_lock :: "lockid \<Rightarrow> 'a kcpu_scheme \<Rightarrow> bool" where
  "free_lock lk s \<longleftrightarrow> locked (lks s lk) = 0 \<and> lk_cpu (lks s lk) = None"

definition hart_ok :: "nat \<Rightarrow> 'a kcpu_scheme \<Rightarrow> bool" where
  "hart_ok h s \<longleftrightarrow> noff (cpus s h) \<ge> 0 \<and> (noff (cpus s h) > 0 \<longrightarrow> \<not> sie s h)"

lemma acquire_free: "free_lock lk s \<Longrightarrow> acquire h lk s = Some (within h lk s)"
  by (simp add: acquire_def free_lock_def push_off_def within_def holding_def intr_off_def intr_get_def
      Let_def)

lemma acquire_held: "locked (lks s lk) \<noteq> 0 \<Longrightarrow> acquire h lk s = None"
  by (simp add: acquire_def push_off_def intr_off_def Let_def)

lemma release_within:
  assumes "hart_ok h s" and "free_lock lk s" and "cpus s' = cpus (within h lk s)"
    and "sie s' = sie (within h lk s)" and "lks s' = lks (within h lk s)"
  shows "release h lk s' = Some (s'\<lparr>cpus := cpus (touch h s), sie := sie s, lks := lks s\<rparr>)"
proof -
  have lk: "(lks s lk)\<lparr>lk_cpu := None, locked := 0\<rparr> = lks s lk"
    using assms(2) by (auto simp: free_lock_def intro!: spinlock.equality)
  have sie: "(sie s)(h := False) = sie s" if "\<not> sie s h" using that by (auto simp: fun_eq_iff)
  have c: "(cpus s)(h := (cpus s h)\<lparr>noff := noff (cpus s h)\<rparr>) = cpus s"
    by (auto simp: fun_eq_iff)
  show ?thesis
    using assms lk sie c
    by (auto simp: release_def pop_off_def within_def touch_def holding_def hart_ok_def intr_get_def
        intr_on_def Let_def fun_upd_idem intro!: kcpu.equality)
qed

lemma myproc_ok: "hart_ok h s \<Longrightarrow> myproc h s = Some (c_proc (cpus s h), touch h s)"
  by (auto simp: myproc_def push_off_def pop_off_def hart_ok_def intr_get_def intr_on_def intr_off_def
      touch_def Let_def fun_upd_idem)

lemma touch_sel [simp]:
  "sie (touch h s) = sie s" "lks (touch h s) = lks s" "c_proc (cpus (touch h s) h') = c_proc (cpus s h')"
  "noff (cpus (touch h s) h') = noff (cpus s h')"
  by (auto simp: touch_def)

lemma touch_inner [simp]: "noff (cpus s h) \<noteq> 0 \<Longrightarrow> touch h s = s"
  by (simp add: touch_def)

lemma within_sel [simp]:
  "noff (cpus (within h lk s) h) = noff (cpus s h) + 1" "sie (within h lk s) h = False"
  "c_proc (cpus (within h lk s) h') = c_proc (cpus s h')"
  "lks (within h lk s) lk = (lks s lk)\<lparr>locked := 1, lk_cpu := Some h\<rparr>"
  "lk' \<noteq> lk \<Longrightarrow> lks (within h lk s) lk' = lks s lk'"
  by (auto simp: within_def)

lemma hart_ok_within [simp]: "hart_ok h s \<Longrightarrow> hart_ok h (within h lk s)"
  by (simp add: hart_ok_def)

lemma hart_ok_touch [simp]: "hart_ok h (touch h s) = hart_ok h s"
  by (simp add: hart_ok_def)

lemma free_lock_touch [simp]: "free_lock lk (touch h s) = free_lock lk s"
  by (simp add: free_lock_def)

lemma free_lock_within [simp]: "lk' \<noteq> lk \<Longrightarrow> free_lock lk' (within h lk s) = free_lock lk' s"
  by (simp add: free_lock_def)

subsection \<open>Several harts\<close>

text \<open>
  The instructions of \<open>acquire\<close> and \<open>release\<close> as steps of harts that contend for one lock: where a
  hart stands is its program counter, \<open>PSpin\<close> is the atomic swap in the loop (which either wins or
  tries again), and every interleaving of the harts is a run. \<open>PPanic\<close> is a call of \<open>panic()\<close>.
\<close>

datatype pc = PIdle | PCheck | PSpin | PGot | PCrit | PRelease | PUnlock | PPop | PPanic

text \<open>One step of hart \<open>h\<close>; the hart calls \<open>acquire\<close> and later \<open>release\<close> of its own accord.\<close>

definition lock_step :: "lockid \<Rightarrow> nat \<Rightarrow> pc \<Rightarrow> kcpu \<Rightarrow> pc \<times> kcpu" where
  "lock_step lk h pc s = (case pc of
     PIdle \<Rightarrow> (PCheck, push_off h s)
   | PCheck \<Rightarrow> (if holding h lk s then PPanic else PSpin, s)
   | PSpin \<Rightarrow> (if locked (lks s lk) \<noteq> 0 then PSpin else PGot,
              s\<lparr>lks := (lks s)(lk := (lks s lk)\<lparr>locked := 1\<rparr>)\<rparr>)
   | PGot \<Rightarrow> (PCrit, s\<lparr>lks := (lks s)(lk := (lks s lk)\<lparr>lk_cpu := Some h\<rparr>)\<rparr>)
   | PCrit \<Rightarrow> (if holding h lk s then PRelease else PPanic, s)
   | PRelease \<Rightarrow> (PUnlock, s\<lparr>lks := (lks s)(lk := (lks s lk)\<lparr>lk_cpu := None\<rparr>)\<rparr>)
   | PUnlock \<Rightarrow> (PPop, s\<lparr>lks := (lks s)(lk := (lks s lk)\<lparr>locked := 0\<rparr>)\<rparr>)
   | PPop \<Rightarrow> (case pop_off h s of None \<Rightarrow> (PPanic, s) | Some s' \<Rightarrow> (PIdle, s'))
   | PPanic \<Rightarrow> (PPanic, s))"

inductive lock_run :: "lockid \<Rightarrow> (nat \<Rightarrow> pc) \<times> kcpu \<Rightarrow> bool" for lk where
  start: "free_lock lk s \<Longrightarrow> (\<And>h. hart_ok h s) \<Longrightarrow> lock_run lk ((\<lambda>_. PIdle), s)"
| step: "lock_run lk (pcs, s) \<Longrightarrow> lock_step lk h (pcs h) s = (pc', s') \<Longrightarrow> lock_run lk (pcs(h := pc'), s')"

text \<open>A hart owns the lock from the swap that wins to the store that frees it.\<close>

definition owns :: "pc \<Rightarrow> bool" where
  "owns pc \<longleftrightarrow> pc \<in> {PGot, PCrit, PRelease, PUnlock}"

definition lock_inv :: "lockid \<Rightarrow> nat option \<Rightarrow> (nat \<Rightarrow> pc) \<Rightarrow> kcpu \<Rightarrow> bool" where
  "lock_inv lk own pcs s \<longleftrightarrow>
     (\<forall>h. owns (pcs h) \<longleftrightarrow> own = Some h)
   \<and> (locked (lks s lk) \<noteq> 0 \<longleftrightarrow> own \<noteq> None)
   \<and> (\<forall>h. lk_cpu (lks s lk) = Some h \<longleftrightarrow> pcs h \<in> {PCrit, PRelease})
   \<and> (\<forall>h. pcs h \<noteq> PPanic \<and> hart_ok h s \<and> (pcs h \<noteq> PIdle \<longrightarrow> noff (cpus s h) > 0))"

lemma push_off_sel [simp]:
  "lks (push_off h s) = lks s" "sie (push_off h s) = (sie s)(h := False)"
  "noff (cpus (push_off h s) h') = (if h' = h then noff (cpus s h) + 1 else noff (cpus s h'))"
  by (auto simp: push_off_def intr_off_def Let_def)

lemma pop_off_ok:
  assumes "hart_ok h s" and "noff (cpus s h) > 0"
  shows "\<exists>s'. pop_off h s = Some s' \<and> lks s' = lks s
    \<and> (\<forall>h'. noff (cpus s' h') = (if h' = h then noff (cpus s h) - 1 else noff (cpus s h')))
    \<and> (\<forall>h'. h' \<noteq> h \<longrightarrow> sie s' h' = sie s h') \<and> (noff (cpus s h) > 1 \<longrightarrow> \<not> sie s' h)"
  using assms by (auto simp: pop_off_def hart_ok_def intr_get_def intr_on_def Let_def)

lemma lock_inv_step:
  assumes I: "lock_inv lk own pcs s" and step: "lock_step lk h (pcs h) s = (pc', s')"
  shows "\<exists>own'. lock_inv lk own' (pcs(h := pc')) s'"
proof -
  have own: "owns (pcs h') \<longleftrightarrow> own = Some h'" for h' using I by (simp add: lock_inv_def)
  have lkd: "locked (lks s lk) \<noteq> 0 \<longleftrightarrow> own \<noteq> None" using I by (simp add: lock_inv_def)
  have cpu: "lk_cpu (lks s lk) = Some h' \<longleftrightarrow> pcs h' \<in> {PCrit, PRelease}" for h'
    using I by (simp add: lock_inv_def)
  have ok: "pcs h' \<noteq> PPanic" "hart_ok h' s" "pcs h' \<noteq> PIdle \<longrightarrow> noff (cpus s h') > 0" for h'
    using I by (simp_all add: lock_inv_def)
  have only: "lk_cpu (lks s lk) = None" if "own = None"
    using that own cpu by (cases "lk_cpu (lks s lk)") (auto simp: owns_def)
  have mine: "lk_cpu (lks s lk) = (if pcs h \<in> {PCrit, PRelease} then Some h else None)" if o: "own = Some h"
  proof (cases "lk_cpu (lks s lk)")
    case None
    then show ?thesis using cpu [of h] by auto
  next
    case (Some a)
    then have "pcs a \<in> {PCrit, PRelease}" using cpu [of a] by simp
    moreover from this have "a = h" using own [of a] o by (auto simp: owns_def)
    ultimately show ?thesis using Some by auto
  qed
  show ?thesis
  proof (cases "pcs h")
    case PIdle
    then have "lock_inv lk own (pcs(h := pc')) s'"
      using step own [of h] cpu [of h] ok lkd own cpu unfolding lock_inv_def
      by (auto simp: lock_step_def owns_def hart_ok_def)
    then show ?thesis ..
  next
    case PCheck
    have "\<not> holding h lk s" using cpu [of h] PCheck by (auto simp: holding_def)
    then have "lock_inv lk own (pcs(h := pc')) s'"
      using step own [of h] cpu [of h] ok lkd own cpu PCheck unfolding lock_inv_def
      by (auto simp: lock_step_def owns_def)
    then show ?thesis ..
  next
    case PSpin
    show ?thesis
    proof (cases own)
      case None
      then have "lock_inv lk (Some h) (pcs(h := pc')) s'"
        using step PSpin own cpu ok lkd only unfolding lock_inv_def
        by (auto simp: lock_step_def owns_def hart_ok_def)
      then show ?thesis ..
    next
      case (Some h')
      then have "lock_inv lk own (pcs(h := pc')) s'"
        using step PSpin own [of h] cpu [of h] own cpu ok lkd unfolding lock_inv_def
        by (auto simp: lock_step_def owns_def hart_ok_def)
      then show ?thesis ..
    qed
  next
    case PGot
    have "own = Some h" using PGot own [of h] by (simp add: owns_def)
    then have "lock_inv lk own (pcs(h := pc')) s'"
      using step PGot own cpu ok lkd mine unfolding lock_inv_def
      by (auto simp: lock_step_def owns_def hart_ok_def)
    then show ?thesis ..
  next
    case PCrit
    have o: "own = Some h" using PCrit own [of h] by (simp add: owns_def)
    have "holding h lk s" using cpu [of h] lkd o PCrit by (simp add: holding_def)
    then have "lock_inv lk own (pcs(h := pc')) s'"
      using step PCrit own cpu ok lkd mine o unfolding lock_inv_def
      by (auto simp: lock_step_def owns_def)
    then show ?thesis ..
  next
    case PRelease
    have o: "own = Some h" using PRelease own [of h] by (simp add: owns_def)
    have others: "pcs h' \<notin> {PGot, PCrit, PRelease, PUnlock}" if "h' \<noteq> h" for h'
      using own [of h'] o that by (auto simp: owns_def)
    have "pc' = PUnlock" "s' = s\<lparr>lks := (lks s)(lk := (lks s lk)\<lparr>lk_cpu := None\<rparr>)\<rparr>"
      using step PRelease by (auto simp: lock_step_def)
    then have "lock_inv lk own (pcs(h := pc')) s'"
      using PRelease o others ok lkd unfolding lock_inv_def
      by (auto simp: owns_def hart_ok_def)
    then show ?thesis ..
  next
    case PUnlock
    have o: "own = Some h" using PUnlock own [of h] by (simp add: owns_def)
    have others: "pcs h' \<notin> {PGot, PCrit, PRelease, PUnlock}" if "h' \<noteq> h" for h'
      using own [of h'] o that by (auto simp: owns_def)
    have "lk_cpu (lks s lk) = None" using mine [OF o] PUnlock by simp
    moreover have "pc' = PPop" "s' = s\<lparr>lks := (lks s)(lk := (lks s lk)\<lparr>locked := 0\<rparr>)\<rparr>"
      using step PUnlock by (auto simp: lock_step_def)
    ultimately have "lock_inv lk None (pcs(h := pc')) s'"
      using PUnlock others ok unfolding lock_inv_def
      by (auto simp: owns_def hart_ok_def)
    then show ?thesis ..
  next
    case PPop
    obtain s1 where s1: "pop_off h s = Some s1" "lks s1 = lks s"
      "\<forall>h'. noff (cpus s1 h') = (if h' = h then noff (cpus s h) - 1 else noff (cpus s h'))"
      "\<forall>h'. h' \<noteq> h \<longrightarrow> sie s1 h' = sie s h'" "noff (cpus s h) > 1 \<longrightarrow> \<not> sie s1 h"
      using pop_off_ok [OF ok(2), of h] ok(3) [of h] PPop by auto
    have "hart_ok h' s1" for h'
      using ok(2,3) s1(3-5) PPop by (cases "h' = h") (auto simp: hart_ok_def)
    then have "lock_inv lk own (pcs(h := pc')) s'"
      using step PPop own [of h] cpu [of h] own cpu ok lkd s1 unfolding lock_inv_def
      by (auto simp: lock_step_def owns_def)
    then show ?thesis ..
  qed (use ok in simp)
qed

lemma lock_run_inv: "lock_run lk c \<Longrightarrow> \<exists>own. lock_inv lk own (fst c) (snd c)"
proof (induction rule: lock_run.induct)
  case (start s)
  then have "lock_inv lk None (\<lambda>_. PIdle) s"
    by (auto simp: lock_inv_def owns_def free_lock_def)
  then show ?case by auto
next
  case (step pcs s h pc' s')
  then obtain own where "lock_inv lk own pcs s" by auto
  from lock_inv_step [OF this step.hyps(2)] show ?case by (simp only: fst_conv snd_conv)
qed

subsection \<open>Properties\<close>

text \<open>
  C3. Mutual exclusion: in every interleaving of any number of harts that acquire and release one
  lock, at most one hart is between the end of its \<open>acquire\<close> and its \<open>release\<close>; that hart runs with
  interrupts off and \<open>holding\<close> is true for it and for no other; and no call panics.
\<close>

theorem spinlock_mutual_exclusion:
  assumes "lock_run lk (pcs, s)"
  shows "(\<forall>h. pcs h \<noteq> PPanic)
    \<and> (\<forall>h h'. pcs h = PCrit \<longrightarrow> pcs h' = PCrit \<longrightarrow> h = h')
    \<and> (\<forall>h. pcs h = PCrit \<longrightarrow> \<not> intr_get h s \<and> (\<forall>h'. holding h' lk s \<longleftrightarrow> h' = h))"
proof -
  obtain own where I: "lock_inv lk own pcs s" using lock_run_inv [OF assms] by auto
  have own: "owns (pcs h) \<longleftrightarrow> own = Some h" and cpu: "lk_cpu (lks s lk) = Some h \<longleftrightarrow> pcs h \<in> {PCrit, PRelease}"
    and ok: "pcs h \<noteq> PPanic" "hart_ok h s" "pcs h \<noteq> PIdle \<longrightarrow> noff (cpus s h) > 0" for h
    using I by (simp_all add: lock_inv_def)
  have crit: "own = Some h" "\<not> sie s h" "lk_cpu (lks s lk) = Some h" if "pcs h = PCrit" for h
    using that own [of h] cpu [of h] ok [of h] by (simp_all add: owns_def hart_ok_def)
  moreover have "locked (lks s lk) \<noteq> 0" if "own \<noteq> None" using that I by (simp add: lock_inv_def)
  ultimately show ?thesis
    using ok(1) by (auto simp: holding_def intr_get_def)
qed

text \<open>
  A critical section is balanced: when \<open>h\<close> takes a free lock, runs code that leaves the lock and
  CPU state alone, and releases the lock, then the lock is free again, the nesting depth is what it
  was, and interrupts are on again exactly if they were on before the outermost \<open>acquire\<close>. Taking a
  lock that is held does not return.
\<close>

theorem acquire_release:
  assumes "hart_ok h s" and "free_lock lk s"
    and "\<And>t. cpus (f t) = cpus t \<and> sie (f t) = sie t \<and> lks (f t) = lks t"
  shows "(do { t \<leftarrow> acquire h lk s; release h lk (f t) })
      = Some ((f (within h lk s))\<lparr>cpus := cpus (touch h s), sie := sie s, lks := lks s\<rparr>)
    \<and> acquire h lk (within h lk s) = None"
  using assms release_within [OF assms(1,2), of "f (within h lk s)"]
  by (simp add: acquire_free acquire_held)

text \<open>The run that a list of harts, one step each, determines.\<close>

definition lock_sched :: "lockid \<Rightarrow> nat \<Rightarrow> (nat \<Rightarrow> pc) \<times> kcpu \<Rightarrow> (nat \<Rightarrow> pc) \<times> kcpu" where
  "lock_sched lk h = (\<lambda>(pcs, s). let (pc', s') = lock_step lk h (pcs h) s in (pcs(h := pc'), s'))"

lemma lock_run_fold: "lock_run lk c \<Longrightarrow> lock_run lk (fold (lock_sched lk) hs c)"
proof (induction hs arbitrary: c)
  case (Cons h hs)
  have "lock_run lk (lock_sched lk h c)"
    using Cons.prems by (auto simp: lock_sched_def intro: lock_run.step split: prod.splits)
  then show ?case using Cons.IH by simp
qed simp

definition kcpu0 :: kcpu where
  "kcpu0 = \<lparr>cpus = (\<lambda>_. \<lparr>c_proc = None, noff = 0, intena = False\<rparr>), sie = (\<lambda>_. True),
     lks = (\<lambda>_. \<lparr>locked = 0, name = [], lk_cpu = None\<rparr>)\<rparr>"

theorem spinlock_mutual_exclusion_witness:
  "\<exists>pcs s. lock_run tickslock (pcs, s) \<and> pcs 0 = PCrit \<and> pcs 1 = PSpin \<and> \<not> intr_get 0 s
    \<and> \<not> holding 1 tickslock s"
proof -
  let ?c = "fold (lock_sched tickslock) [0, 0, 0, 0, 1, 1] ((\<lambda>_. PIdle), kcpu0)"
  have "lock_run tickslock ((\<lambda>_. PIdle), kcpu0)"
    by (rule lock_run.start) (simp_all add: kcpu0_def free_lock_def hart_ok_def)
  then have r: "lock_run tickslock (fst ?c, snd ?c)"
    using lock_run_fold by (simp only: prod.collapse)
  have at: "fst ?c 0 = PCrit" "fst ?c 1 = PSpin"
    by (simp_all add: lock_sched_def lock_step_def kcpu0_def push_off_def intr_get_def intr_off_def
        holding_def Let_def)
  show ?thesis
    using spinlock_mutual_exclusion [OF r] r at by (metis zero_neq_one)
qed

theorem acquire_release_witness:
  "(do { t \<leftarrow> acquire 0 tickslock kcpu0; release 0 tickslock t })
      = Some ((within 0 tickslock kcpu0)\<lparr>cpus := cpus (touch 0 kcpu0), sie := sie kcpu0, lks := lks kcpu0\<rparr>)"
  using acquire_release [of 0 kcpu0 tickslock "\<lambda>t. t"]
  by (simp add: kcpu0_def hart_ok_def free_lock_def)

end
