(* ===== verification/Proc.thy ===== *)
theory Proc
  imports Spinlock
begin

text \<open>
  \<open>labo2/kernel/proc.h\<close> and the part of \<open>proc.c\<close> that schedules: the process table, \<open>sleep\<close> and
  \<open>wakeup\<close>, \<open>sched\<close>, \<open>yield\<close>, the per-CPU \<open>scheduler\<close>, \<open>kill\<close> and the process identifiers.

  \<open>swtch\<close> leaves the kernel thread that calls it and continues another one, so a function that
  switches is split there: \<open>sleep\<close> into \<open>sleep_enter\<close> (up to the switch) and \<open>sleep_exit\<close> (from the
  switch back), \<open>yield\<close> and \<open>sched\<close> likewise, and the loop body of \<open>scheduler\<close> into
  \<open>scheduler_pick\<close> and \<open>scheduler_back\<close>. The local variable \<open>intena\<close> that \<open>sched\<close> keeps on the
  stack of the thread over the switch is \<open>saved_intena\<close>.
\<close>

subsection \<open>State\<close>

definition NPROC :: nat where "NPROC = 64"
definition NCPU :: nat where "NCPU = 8"

datatype procstate = UNUSED | USED | SLEEPING | RUNNABLE | RUNNING | ZOMBIE

text \<open>The kernel objects whose address is used as a channel; \<open>None\<close> is the null channel.\<close>

datatype kobj =
    chan_proc nat | chan_sem nat | chan_ticks | chan_sleeplock lockid | chan_nread nat
  | chan_nwrite nat | chan_log | chan_cons | chan_uart | chan_disk nat | chan_desc

type_synonym chan = "kobj option"

record kcontext =
  ctx_ra :: uint64
  ctx_sp :: uint64
  ctx_s0 :: uint64  ctx_s1 :: uint64  ctx_s2 :: uint64  ctx_s3 :: uint64  ctx_s4 :: uint64  ctx_s5 :: uint64
  ctx_s6 :: uint64  ctx_s7 :: uint64  ctx_s8 :: uint64  ctx_s9 :: uint64  ctx_s10 :: uint64  ctx_s11 :: uint64

record trapframe =
  kernel_satp :: uint64  kernel_sp :: uint64  kernel_trap :: uint64  tf_epc :: uint64
  kernel_hartid :: uint64
  tf_ra :: uint64  tf_sp :: uint64  tf_gp :: uint64  tf_tp :: uint64
  tf_t0 :: uint64  tf_t1 :: uint64  tf_t2 :: uint64  tf_s0 :: uint64  tf_s1 :: uint64
  tf_a0 :: uint64  tf_a1 :: uint64  tf_a2 :: uint64  tf_a3 :: uint64
  tf_a4 :: uint64  tf_a5 :: uint64  tf_a6 :: uint64  tf_a7 :: uint64
  tf_s2 :: uint64  tf_s3 :: uint64  tf_s4 :: uint64  tf_s5 :: uint64  tf_s6 :: uint64
  tf_s7 :: uint64  tf_s8 :: uint64  tf_s9 :: uint64  tf_s10 :: uint64  tf_s11 :: uint64
  tf_t3 :: uint64  tf_t4 :: uint64  tf_t5 :: uint64  tf_t6 :: uint64

record proc =
  p_state :: procstate
  p_chan :: chan
  p_killed :: cint
  p_xstate :: cint
  p_pid :: cint
  p_parent :: "nat option"
  p_kstack :: uint64
  p_sz :: uint64
  p_pagetable :: uint64
  p_trapframe :: uint64
  p_context :: kcontext
  p_ofile :: "nat \<Rightarrow> nat option"
  p_cwd :: "nat option"
  p_name :: string

text \<open>
  The trap frames are objects of their own, found by address (\<open>tframes\<close>); \<open>klog\<close> is what the kernel
  has printed.
\<close>

record kproc = kcpu +
  procs :: "nat \<Rightarrow> proc"
  nextpid :: cint
  initproc :: "nat option"
  saved_intena :: "nat \<Rightarrow> bool"
  tframes :: "uint64 \<Rightarrow> trapframe"
  ticks :: uint
  klog :: "string list"

definition upd_proc :: "nat \<Rightarrow> (proc \<Rightarrow> proc) \<Rightarrow> 'a kproc_scheme \<Rightarrow> 'a kproc_scheme" where
  "upd_proc p f s = s\<lparr>procs := (procs s)(p := f (procs s p))\<rparr>"

definition upd_cpu :: "nat \<Rightarrow> (cpu \<Rightarrow> cpu) \<Rightarrow> 'a kcpu_scheme \<Rightarrow> 'a kcpu_scheme" where
  "upd_cpu h f s = s\<lparr>cpus := (cpus s)(h := f (cpus s h))\<rparr>"

subsection \<open>Table and identifiers\<close>

definition PGSIZE :: uint64 where "PGSIZE = 4096"
definition MAXVA :: uint64 where "MAXVA = push_bit 38 1"
definition TRAMPOLINE :: uint64 where "TRAMPOLINE = MAXVA - PGSIZE"
definition TRAPFRAME :: uint64 where "TRAPFRAME = TRAMPOLINE - PGSIZE"
definition KSTACK :: "nat \<Rightarrow> uint64" where "KSTACK p = TRAMPOLINE - (of_nat p + 1) * 2 * PGSIZE"

definition procinit_one :: "nat \<Rightarrow> 'a kproc_scheme \<Rightarrow> 'a kproc_scheme" where
  "procinit_one p s = upd_proc p (\<lambda>q. q\<lparr>p_state := UNUSED, p_kstack := KSTACK p\<rparr>)
     (initlock (proc_lock p) ''proc'' s)"

definition procinit :: "'a kproc_scheme \<Rightarrow> 'a kproc_scheme" where
  "procinit s = fold procinit_one [0..<NPROC]
     (initlock wait_lock ''wait_lock'' (initlock pid_lock ''nextpid'' s))"

definition allocpid :: "nat \<Rightarrow> 'a kproc_scheme \<Rightarrow> (cint \<times> 'a kproc_scheme) option" where
  "allocpid h s = do {
     s \<leftarrow> acquire h pid_lock s;
     let pid = nextpid s;
     let s = s\<lparr>nextpid := nextpid s + 1\<rparr>;
     s \<leftarrow> release h pid_lock s;
     Some (pid, s) }"

subsection \<open>Switching\<close>

definition sched_enter :: "nat \<Rightarrow> 'a kproc_scheme \<Rightarrow> 'a kproc_scheme option" where
  "sched_enter h s = do {
     (mp, s) \<leftarrow> myproc h s;
     p \<leftarrow> mp;
     if \<not> holding h (proc_lock p) s then None
     else if noff (cpus s h) \<noteq> 1 then None
     else if p_state (procs s p) = RUNNING then None
     else if intr_get h s then None
     else Some (s\<lparr>saved_intena := (saved_intena s)(p := intena (cpus s h))\<rparr>) }"

definition sched_exit :: "nat \<Rightarrow> nat \<Rightarrow> 'a kproc_scheme \<Rightarrow> 'a kproc_scheme" where
  "sched_exit h p s = upd_cpu h (\<lambda>c. c\<lparr>intena := saved_intena s p\<rparr>) s"

text \<open>
  The body of the scheduler's loop for process \<open>p\<close>: up to the switch to \<open>p\<close> (first component
  \<open>True\<close>) or, when \<open>p\<close> is not runnable, to the end of the body; and the rest after \<open>p\<close> switched back.
\<close>

definition scheduler_pick :: "nat \<Rightarrow> nat \<Rightarrow> 'a kproc_scheme \<Rightarrow> (bool \<times> 'a kproc_scheme) option" where
  "scheduler_pick h p s = do {
     s \<leftarrow> acquire h (proc_lock p) s;
     if p_state (procs s p) = RUNNABLE then
       Some (True, upd_cpu h (\<lambda>c. c\<lparr>c_proc := Some p\<rparr>) (upd_proc p (\<lambda>q. q\<lparr>p_state := RUNNING\<rparr>) s))
     else do {
       s \<leftarrow> release h (proc_lock p) s;
       Some (False, s) } }"

definition scheduler_back :: "nat \<Rightarrow> nat \<Rightarrow> 'a kproc_scheme \<Rightarrow> 'a kproc_scheme option" where
  "scheduler_back h p s = release h (proc_lock p) (upd_cpu h (\<lambda>c. c\<lparr>c_proc := None\<rparr>) s)"

definition yield_enter :: "nat \<Rightarrow> 'a kproc_scheme \<Rightarrow> 'a kproc_scheme option" where
  "yield_enter h s = do {
     (mp, s) \<leftarrow> myproc h s;
     p \<leftarrow> mp;
     s \<leftarrow> acquire h (proc_lock p) s;
     sched_enter h (upd_proc p (\<lambda>q. q\<lparr>p_state := RUNNABLE\<rparr>) s) }"

definition yield_exit :: "nat \<Rightarrow> nat \<Rightarrow> 'a kproc_scheme \<Rightarrow> 'a kproc_scheme option" where
  "yield_exit h p s = release h (proc_lock p) (sched_exit h p s)"

definition sleep_enter :: "nat \<Rightarrow> chan \<Rightarrow> lockid \<Rightarrow> 'a kproc_scheme \<Rightarrow> 'a kproc_scheme option" where
  "sleep_enter h chan lk s = do {
     (mp, s) \<leftarrow> myproc h s;
     p \<leftarrow> mp;
     s \<leftarrow> acquire h (proc_lock p) s;
     s \<leftarrow> release h lk s;
     sched_enter h (upd_proc p (\<lambda>q. q\<lparr>p_chan := chan, p_state := SLEEPING\<rparr>) s) }"

definition sleep_exit :: "nat \<Rightarrow> nat \<Rightarrow> lockid \<Rightarrow> 'a kproc_scheme \<Rightarrow> 'a kproc_scheme option" where
  "sleep_exit h p lk s = do {
     let s = upd_proc p (\<lambda>q. q\<lparr>p_chan := None\<rparr>) (sched_exit h p s);
     s \<leftarrow> release h (proc_lock p) s;
     acquire h lk s }"

subsection \<open>Waking and killing\<close>

definition wakeup_one :: "nat \<Rightarrow> chan \<Rightarrow> nat \<Rightarrow> 'a kproc_scheme \<Rightarrow> 'a kproc_scheme option" where
  "wakeup_one h chan p s = do {
     (mp, s) \<leftarrow> myproc h s;
     if Some p \<noteq> mp then do {
       s \<leftarrow> acquire h (proc_lock p) s;
       let s = (if p_state (procs s p) = SLEEPING \<and> p_chan (procs s p) = chan
                then upd_proc p (\<lambda>q. q\<lparr>p_state := RUNNABLE\<rparr>) s else s);
       release h (proc_lock p) s }
     else Some s }"

definition wakeup :: "nat \<Rightarrow> chan \<Rightarrow> 'a kproc_scheme \<Rightarrow> 'a kproc_scheme option" where
  "wakeup h chan s = forM (wakeup_one h chan) [0..<NPROC] s"

text \<open>The result of \<open>kill\<close> is \<open>0\<close> or \<open>-1\<close>.\<close>

fun kill_loop :: "nat \<Rightarrow> cint \<Rightarrow> nat list \<Rightarrow> 'a kproc_scheme \<Rightarrow> (cint \<times> 'a kproc_scheme) option" where
  "kill_loop h pid [] s = Some (-1, s)"
| "kill_loop h pid (p # ps) s = do {
     s \<leftarrow> acquire h (proc_lock p) s;
     if p_pid (procs s p) = pid then do {
       let s = upd_proc p (\<lambda>q. q\<lparr>p_killed := 1\<rparr>) s;
       let s = (if p_state (procs s p) = SLEEPING then upd_proc p (\<lambda>q. q\<lparr>p_state := RUNNABLE\<rparr>) s else s);
       s \<leftarrow> release h (proc_lock p) s;
       Some (0, s) }
     else do {
       s \<leftarrow> release h (proc_lock p) s;
       kill_loop h pid ps s } }"

definition kill :: "nat \<Rightarrow> cint \<Rightarrow> 'a kproc_scheme \<Rightarrow> (cint \<times> 'a kproc_scheme) option" where
  "kill h pid s = kill_loop h pid [0..<NPROC] s"

definition setkilled :: "nat \<Rightarrow> nat \<Rightarrow> 'a kproc_scheme \<Rightarrow> 'a kproc_scheme option" where
  "setkilled h p s = do {
     s \<leftarrow> acquire h (proc_lock p) s;
     release h (proc_lock p) (upd_proc p (\<lambda>q. q\<lparr>p_killed := 1\<rparr>) s) }"

definition killed :: "nat \<Rightarrow> nat \<Rightarrow> 'a kproc_scheme \<Rightarrow> (cint \<times> 'a kproc_scheme) option" where
  "killed h p s = do {
     s \<leftarrow> acquire h (proc_lock p) s;
     let k = p_killed (procs s p);
     s \<leftarrow> release h (proc_lock p) s;
     Some (k, s) }"

text \<open>\<open>reparent\<close>: the children of \<open>p\<close> go to init, which may be waiting for one.\<close>

definition reparent_one :: "nat \<Rightarrow> nat \<Rightarrow> nat \<Rightarrow> 'a kproc_scheme \<Rightarrow> 'a kproc_scheme option" where
  "reparent_one h p pp s =
     (if p_parent (procs s pp) = Some p then
        wakeup h (map_option chan_proc (initproc s)) (upd_proc pp (\<lambda>q. q\<lparr>p_parent := initproc s\<rparr>) s)
      else Some s)"

definition reparent :: "nat \<Rightarrow> nat \<Rightarrow> 'a kproc_scheme \<Rightarrow> 'a kproc_scheme option" where
  "reparent h p s = forM (reparent_one h p) [0..<NPROC] s"

subsection \<open>Lemmas: one call\<close>

lemma upd_proc_sel [simp]:
  "cpus (upd_proc p f s) = cpus s" "sie (upd_proc p f s) = sie s" "lks (upd_proc p f s) = lks s"
  "procs (upd_proc p f s) = (procs s)(p := f (procs s p))" "nextpid (upd_proc p f s) = nextpid s"
  "initproc (upd_proc p f s) = initproc s" "saved_intena (upd_proc p f s) = saved_intena s"
  "tframes (upd_proc p f s) = tframes s" "ticks (upd_proc p f s) = ticks s" "klog (upd_proc p f s) = klog s"
  by (simp_all add: upd_proc_def)

lemma kproc_within [simp]:
  "procs (within h lk s) = procs s" "nextpid (within h lk s) = nextpid s"
  "initproc (within h lk s) = initproc s" "saved_intena (within h lk s) = saved_intena s"
  "tframes (within h lk s) = tframes s" "ticks (within h lk s) = ticks s" "klog (within h lk s) = klog s"
  by (simp_all add: within_def)

lemma kproc_touch [simp]:
  "procs (touch h s) = procs s" "nextpid (touch h s) = nextpid s"
  "initproc (touch h s) = initproc s" "saved_intena (touch h s) = saved_intena s"
  "tframes (touch h s) = tframes s" "ticks (touch h s) = ticks s" "klog (touch h s) = klog s"
  by (simp_all add: touch_def)

text \<open>
  A call that takes one free lock, changes the rest of the state by \<open>f\<close> and releases the lock: the
  shape of most of the kernel's functions. \<open>f\<close> is only asked to keep the CPU and lock state.
\<close>

definition keeps_locks :: "('a kcpu_scheme \<Rightarrow> 'a kcpu_scheme) \<Rightarrow> bool" where
  "keeps_locks f \<longleftrightarrow> (\<forall>s C I L. f (s\<lparr>cpus := C, sie := I, lks := L\<rparr>) = (f s)\<lparr>cpus := C, sie := I, lks := L\<rparr>)"

lemma release_after:
  assumes "hart_ok h s" and "free_lock lk s" and "keeps_locks f"
  shows "release h lk (f (within h lk s)) = Some (f (touch h s))"
proof -
  let ?w = "within h lk s" and ?t = "touch h s"
  have w: "?w = s\<lparr>cpus := cpus ?w, sie := sie ?w, lks := lks ?w\<rparr>"
    and t: "?t = s\<lparr>cpus := cpus ?t, sie := sie ?t, lks := lks ?t\<rparr>"
    by (simp_all add: within_def touch_def)
  have fw: "f ?w = (f s)\<lparr>cpus := cpus ?w, sie := sie ?w, lks := lks ?w\<rparr>"
    and ft: "f ?t = (f s)\<lparr>cpus := cpus ?t, sie := sie ?t, lks := lks ?t\<rparr>"
    by (subst w, use assms(3) in \<open>simp only: keeps_locks_def\<close>)
      (subst t, use assms(3) in \<open>simp only: keeps_locks_def\<close>)
  have "release h lk (f ?w) = Some ((f ?w)\<lparr>cpus := cpus ?t, sie := sie s, lks := lks s\<rparr>)"
    by (rule release_within [OF assms(1,2)]) (simp_all add: fw)
  then show ?thesis unfolding ft unfolding fw by simp
qed

lemma keeps_locks_sel:
  assumes "keeps_locks f"
  shows "cpus (f t) = cpus t" "sie (f t) = sie t" "lks (f t) = lks t"
proof -
  have "t\<lparr>cpus := cpus t, sie := sie t, lks := lks t\<rparr> = t" by simp
  then have e: "f t = (f t)\<lparr>cpus := cpus t, sie := sie t, lks := lks t\<rparr>"
    using assms unfolding keeps_locks_def by metis
  show "cpus (f t) = cpus t" "sie (f t) = sie t" "lks (f t) = lks t"
    by (subst e, simp)+
qed

lemma keeps_locks_upd_proc [intro]: "keeps_locks (upd_proc p f)"
  by (simp add: keeps_locks_def upd_proc_def)

lemma keeps_locks_id [intro]: "keeps_locks (\<lambda>s. s)"
  by (simp add: keeps_locks_def)

lemma keeps_locks_if [intro]:
  "keeps_locks f \<Longrightarrow> (\<And>s C I L. P (s\<lparr>cpus := C, sie := I, lks := L\<rparr>) = P s) \<Longrightarrow>
    keeps_locks (\<lambda>s. if P s then f s else s)"
  by (simp add: keeps_locks_def)

text \<open>What \<open>wakeup\<close> does to one process.\<close>

definition woken :: "chan \<Rightarrow> nat \<Rightarrow> 'a kproc_scheme \<Rightarrow> 'a kproc_scheme" where
  "woken chan p s = (if p_state (procs s p) = SLEEPING \<and> p_chan (procs s p) = chan
     then upd_proc p (\<lambda>q. q\<lparr>p_state := RUNNABLE\<rparr>) s else s)"

lemma keeps_locks_woken [intro]: "keeps_locks (woken chan p)"
  unfolding woken_def by (rule keeps_locks_if) auto

lemma touch_touch [simp]: "touch h (touch h s) = touch h s"
  by (auto simp: touch_def)

lemma wakeup_one_spec:
  assumes "hart_ok h s" and "free_lock (proc_lock p) s"
  shows "wakeup_one h chan p s
    = Some (if Some p = c_proc (cpus s h) then touch h s else woken chan p (touch h s))"
proof -
  have "release h (proc_lock p) (woken chan p (within h (proc_lock p) (touch h s)))
      = Some (woken chan p (touch h (touch h s)))"
    by (rule release_after) (use assms in auto)
  then show ?thesis
    using assms by (simp add: wakeup_one_def myproc_ok acquire_free woken_def Let_def)
qed

text \<open>The whole of \<open>wakeup\<close>, called in a critical section as the kernel always does.\<close>

definition wake_all :: "nat option \<Rightarrow> chan \<Rightarrow> (nat \<Rightarrow> proc) \<Rightarrow> nat \<Rightarrow> proc" where
  "wake_all me chan ps = (\<lambda>p. if p < NPROC \<and> Some p \<noteq> me \<and> p_state (ps p) = SLEEPING \<and> p_chan (ps p) = chan
     then (ps p)\<lparr>p_state := RUNNABLE\<rparr> else ps p)"

definition proc_locks_free :: "'a kcpu_scheme \<Rightarrow> bool" where
  "proc_locks_free s \<longleftrightarrow> (\<forall>p<NPROC. free_lock (proc_lock p) s)"

lemma woken_sel [simp]:
  "cpus (woken c p s) = cpus s" "sie (woken c p s) = sie s" "lks (woken c p s) = lks s"
  by (simp_all add: woken_def)

lemma hart_ok_cong: "cpus s = cpus t \<Longrightarrow> sie s = sie t \<Longrightarrow> hart_ok h s = hart_ok h t"
  by (simp add: hart_ok_def)

lemma fold_woken:
  "n \<le> NPROC \<Longrightarrow> fold (\<lambda>p s. if Some p = me then s else woken chan p s) [0..<n] s
    = s\<lparr>procs := (\<lambda>p. if p < n then wake_all me chan (procs s) p else procs s p)\<rparr>"
proof (induction n)
  case (Suc n)
  let ?f = "\<lambda>p s. if Some p = me then s else woken chan p s"
  have "fold ?f [0..<Suc n] s = ?f n (fold ?f [0..<n] s)" by simp
  also have "fold ?f [0..<n] s = s\<lparr>procs := (\<lambda>p. if p < n then wake_all me chan (procs s) p else procs s p)\<rparr>"
    using Suc by simp
  also have "?f n \<dots> = s\<lparr>procs := (\<lambda>p. if p < Suc n then wake_all me chan (procs s) p else procs s p)\<rparr>"
    using Suc.prems
    by (auto simp: woken_def upd_proc_def wake_all_def fun_eq_iff less_Suc_eq)
  finally show ?case .
qed simp

lemma wakeup_spec:
  fixes s :: "'a kproc_scheme"
  assumes "hart_ok h s" and "noff (cpus s h) \<noteq> 0" and "proc_locks_free s"
  shows "wakeup h chan s = Some (s\<lparr>procs := wake_all (c_proc (cpus s h)) chan (procs s)\<rparr>)"
proof -
  let ?I = "\<lambda>t :: 'a kproc_scheme. cpus t = cpus s \<and> sie t = sie s \<and> lks t = lks s"
  let ?g = "\<lambda>p t. if Some p = c_proc (cpus s h) then t else woken chan p t"
  have "forM (wakeup_one h chan) [0..<NPROC] s = Some (fold ?g [0..<NPROC] s)"
  proof (rule forM_fold [where I = ?I])
    fix p and t :: "'a kproc_scheme"
    assume p: "p \<in> set [0..<NPROC]" and t: "?I t"
    have "hart_ok h t" "free_lock (proc_lock p) t"
      using assms(1,3) p t by (auto simp: hart_ok_def free_lock_def proc_locks_free_def)
    with t assms(2) show "wakeup_one h chan p t = Some (?g p t) \<and> ?I (?g p t)"
      by (simp add: wakeup_one_spec)
  qed simp
  moreover have "(\<lambda>p. if p < NPROC then wake_all me chan (procs s) p else procs s p) = wake_all me chan (procs s)" for me
    by (auto simp: wake_all_def)
  ultimately show ?thesis
    by (simp add: wakeup_def fold_woken)
qed

subsection \<open>Lemmas: switching\<close>

lemmas switch_defs = sched_enter_def sched_exit_def scheduler_back_def scheduler_pick_def yield_enter_def
  yield_exit_def sleep_enter_def sleep_exit_def upd_cpu_def upd_proc_def

lemmas lock_defs = acquire_def release_def push_off_def pop_off_def holding_def intr_get_def intr_on_def
  intr_off_def myproc_def free_lock_def Let_def

text \<open>A hart between two kernel calls: no lock held, so no nesting.\<close>

definition at_rest :: "nat \<Rightarrow> 'a kcpu_scheme \<Rightarrow> bool" where
  "at_rest h s \<longleftrightarrow> noff (cpus s h) = 0"

lemma lock_unlock_id: "free_lock lk s \<Longrightarrow> (lks s lk)\<lparr>lk_cpu := None, locked := 0\<rparr> = lks s lk"
  by (auto simp: free_lock_def intro!: spinlock.equality)

lemma yield_out:
  assumes "at_rest h s" and "c_proc (cpus s h) = Some p" and "free_lock (proc_lock p) s"
  shows "Option.bind (yield_enter h s) (scheduler_back h p) = Some (s\<lparr>
     cpus := (cpus s)(h := (cpus s h)\<lparr>intena := sie s h, c_proc := None\<rparr>),
     procs := (procs s)(p := (procs s p)\<lparr>p_state := RUNNABLE\<rparr>),
     saved_intena := (saved_intena s)(p := sie s h)\<rparr>)"
proof -
  have c: "(cpus s h)\<lparr>noff := 0\<rparr> = cpus s h"
    using assms(1) by (simp add: at_rest_def)
  show ?thesis
    using assms lock_unlock_id [OF assms(3)] c
    by (cases "sie s h") (auto simp: switch_defs lock_defs at_rest_def fun_upd_idem intro!: kproc.equality)
qed

lemma sleep_out:
  assumes "noff (cpus s h) = 1" and "\<not> sie s h" and "c_proc (cpus s h) = Some p" and "holding h lk s"
    and "free_lock (proc_lock p) s" and "lk \<noteq> proc_lock p"
  shows "Option.bind (sleep_enter h chan lk s) (scheduler_back h p) = Some (s\<lparr>
     cpus := (cpus s)(h := (cpus s h)\<lparr>noff := 0, c_proc := None\<rparr>),
     sie := (sie s)(h := intena (cpus s h)),
     lks := (lks s)(lk := (lks s lk)\<lparr>lk_cpu := None, locked := 0\<rparr>),
     procs := (procs s)(p := (procs s p)\<lparr>p_chan := chan, p_state := SLEEPING\<rparr>),
     saved_intena := (saved_intena s)(p := intena (cpus s h))\<rparr>)"
  using assms lock_unlock_id [OF assms(5)]
  by (cases "intena (cpus s h)")
    (auto simp: switch_defs lock_defs fun_upd_idem fun_upd_twist intro!: kproc.equality)

text \<open>Where a process that is not running goes on when the scheduler picks it.\<close>

datatype kont = KFork | KYield | KSleep lockid

text \<open>The first release in \<open>forkret\<close>, and the caller's release after \<open>sleep\<close> returns.\<close>

definition resume :: "kont \<Rightarrow> nat \<Rightarrow> nat \<Rightarrow> 'a kproc_scheme \<Rightarrow> 'a kproc_scheme option" where
  "resume k h p s = (case k of
     KFork \<Rightarrow> do { (mp, s) \<leftarrow> myproc h s; q \<leftarrow> mp; release h (proc_lock q) s }
   | KYield \<Rightarrow> yield_exit h p s
   | KSleep lk \<Rightarrow> do { s \<leftarrow> sleep_exit h p lk s; release h lk s })"

definition sched_in :: "kont \<Rightarrow> nat \<Rightarrow> nat \<Rightarrow> 'a kproc_scheme \<Rightarrow> 'a kproc_scheme option" where
  "sched_in k h p s = do {
     (found, s) \<leftarrow> scheduler_pick h p s;
     if found then resume k h p s else Some s }"

definition sleep_step :: "nat \<Rightarrow> nat \<Rightarrow> chan \<Rightarrow> lockid \<Rightarrow> 'a kproc_scheme \<Rightarrow> 'a kproc_scheme option" where
  "sleep_step h p chan lk s = do {
     s \<leftarrow> acquire h lk s;
     s \<leftarrow> sleep_enter h chan lk s;
     scheduler_back h p s }"

definition yield_step :: "nat \<Rightarrow> nat \<Rightarrow> 'a kproc_scheme \<Rightarrow> 'a kproc_scheme option" where
  "yield_step h p s = do { s \<leftarrow> yield_enter h s; scheduler_back h p s }"

definition wakeup_step :: "nat \<Rightarrow> chan \<Rightarrow> lockid \<Rightarrow> 'a kproc_scheme \<Rightarrow> 'a kproc_scheme option" where
  "wakeup_step h chan lk s = do { s \<leftarrow> acquire h lk s; s \<leftarrow> wakeup h chan s; release h lk s }"

lemma sleep_step_spec:
  assumes "at_rest h s" and "c_proc (cpus s h) = Some p" and "free_lock lk s"
    and "free_lock (proc_lock p) s" and "lk \<noteq> proc_lock p"
  shows "sleep_step h p chan lk s = Some (s\<lparr>
     cpus := (cpus s)(h := (cpus s h)\<lparr>intena := sie s h, c_proc := None\<rparr>),
     procs := (procs s)(p := (procs s p)\<lparr>p_chan := chan, p_state := SLEEPING\<rparr>),
     saved_intena := (saved_intena s)(p := sie s h)\<rparr>)"
proof -
  have "free_lock (proc_lock p) (within h lk s)" "holding h lk (within h lk s)"
    using assms(4,5) by (auto simp: free_lock_def holding_def within_def)
  from sleep_out [OF _ _ _ this(2,1) assms(5), of chan] show ?thesis
    using assms(1,2) lock_unlock_id [OF assms(3)]
    by (auto simp: sleep_step_def acquire_free [OF assms(3)] at_rest_def within_def fun_upd_idem
        intro!: kproc.equality)
qed

lemma sched_in_spec:
  assumes "at_rest h s" and "free_lock (proc_lock p) s" and "p_state (procs s p) = RUNNABLE"
    and "\<forall>lk. k = KSleep lk \<longrightarrow> free_lock lk s \<and> lk \<noteq> proc_lock p"
  shows "\<exists>b C. sched_in k h p s = Some (s\<lparr>
     cpus := (cpus s)(h := (cpus s h)\<lparr>intena := C, c_proc := Some p\<rparr>),
     sie := (sie s)(h := b),
     procs := (procs s)(p := (procs s p)\<lparr>p_state := RUNNING,
       p_chan := (if \<exists>lk. k = KSleep lk then None else p_chan (procs s p))\<rparr>)\<rparr>)"
proof -
  have t: "scheduler_pick h p s = Some (True, upd_cpu h (\<lambda>c. c\<lparr>c_proc := Some p\<rparr>)
      (upd_proc p (\<lambda>q. q\<lparr>p_state := RUNNING\<rparr>) (within h (proc_lock p) s)))" (is "_ = Some (True, ?t)")
    using assms by (simp add: scheduler_pick_def acquire_free)
  note id = lock_unlock_id [OF assms(2)]
  show ?thesis
  proof (cases k)
    case KFork
    have "\<exists>b C. resume KFork h p ?t = Some (s\<lparr>
       cpus := (cpus s)(h := (cpus s h)\<lparr>intena := C, c_proc := Some p\<rparr>), sie := (sie s)(h := b),
       procs := (procs s)(p := (procs s p)\<lparr>p_state := RUNNING\<rparr>)\<rparr>)"
      using assms(1) id
      by (intro exI [of _ "sie s h"])
        (auto simp: resume_def switch_defs lock_defs within_def at_rest_def fun_upd_idem intro!: kproc.equality)
    then show ?thesis by (simp add: sched_in_def t KFork)
  next
    case KYield
    have "\<exists>b C. resume KYield h p ?t = Some (s\<lparr>
       cpus := (cpus s)(h := (cpus s h)\<lparr>intena := C, c_proc := Some p\<rparr>), sie := (sie s)(h := b),
       procs := (procs s)(p := (procs s p)\<lparr>p_state := RUNNING\<rparr>)\<rparr>)"
      using assms(1) id
      by (intro exI [of _ "saved_intena s p"])
        (auto simp: resume_def switch_defs lock_defs within_def at_rest_def fun_upd_idem intro!: kproc.equality)
    then show ?thesis by (simp add: sched_in_def t KYield)
  next
    case (KSleep lk)
    then have lk: "free_lock lk s" "lk \<noteq> proc_lock p" using assms(4) by auto
    have "\<exists>b C. resume (KSleep lk) h p ?t = Some (s\<lparr>
       cpus := (cpus s)(h := (cpus s h)\<lparr>intena := C, c_proc := Some p\<rparr>), sie := (sie s)(h := b),
       procs := (procs s)(p := (procs s p)\<lparr>p_state := RUNNING, p_chan := None\<rparr>)\<rparr>)"
      using assms(1) id lk lock_unlock_id [OF lk(1)]
      by (intro exI [of _ "saved_intena s p"])
        (auto simp: resume_def switch_defs lock_defs within_def at_rest_def fun_upd_idem fun_upd_twist
          intro!: kproc.equality)
    then show ?thesis by (simp add: sched_in_def t KSleep)
  qed
qed

subsection \<open>Lemmas: killing\<close>

definition victim :: "nat \<Rightarrow> 'a kproc_scheme \<Rightarrow> 'a kproc_scheme" where
  "victim p s = upd_proc p (\<lambda>q. q\<lparr>p_killed := 1,
     p_state := (if p_state q = SLEEPING then RUNNABLE else p_state q)\<rparr>) s"

lemma keeps_locks_victim [intro]: "keeps_locks (victim p)"
  unfolding victim_def by (rule keeps_locks_upd_proc)

lemma kill_loop_spec:
  assumes "hart_ok h s" and "\<forall>p\<in>set ps. free_lock (proc_lock p) s" and "ps \<noteq> []"
  shows "kill_loop h pid ps s = (case find (\<lambda>p. p_pid (procs s p) = pid) ps of
     None \<Rightarrow> Some (-1, touch h s) | Some p \<Rightarrow> Some (0, victim p (touch h s)))"
  using assms
proof (induction ps arbitrary: s)
  case (Cons p ps)
  have f: "free_lock (proc_lock p) s" using Cons.prems by simp
  have r1: "release h (proc_lock p) (victim p (within h (proc_lock p) s)) = Some (victim p (touch h s))"
    by (rule release_after) (use Cons.prems f in auto)
  have r2: "release h (proc_lock p) (within h (proc_lock p) s) = Some (touch h s)"
    by (rule release_after [where f = "\<lambda>s. s"]) (use Cons.prems f in auto)
  have v: "victim p t = (let t = upd_proc p (\<lambda>q. q\<lparr>p_killed := 1\<rparr>) t in
      if p_state (procs t p) = SLEEPING then upd_proc p (\<lambda>q. q\<lparr>p_state := RUNNABLE\<rparr>) t else t)" for t
    by (auto simp: victim_def upd_proc_def Let_def intro!: kproc.equality)
  have tail: "kill_loop h pid ps (touch h s) = (case find (\<lambda>p. p_pid (procs s p) = pid) ps of
     None \<Rightarrow> Some (-1, touch h s) | Some p \<Rightarrow> Some (0, victim p (touch h s)))"
  proof (cases "ps = []")
    case False
    then show ?thesis using Cons.IH [of "touch h s"] Cons.prems by (simp split: option.splits)
  qed simp
  show ?case
  proof (cases "p_pid (procs s p) = pid")
    case True
    then show ?thesis
      using r1 by (auto simp: v acquire_free [OF f] Let_def)
  next
    case False
    then show ?thesis using r2 tail by (simp add: acquire_free [OF f])
  qed
qed simp

lemma kill_spec:
  assumes "hart_ok h s" and "proc_locks_free s"
  shows "kill h pid s = (case find (\<lambda>p. p_pid (procs s p) = pid) [0..<NPROC] of
     None \<Rightarrow> Some (-1, touch h s) | Some p \<Rightarrow> Some (0, victim p (touch h s)))"
  unfolding kill_def
  by (rule kill_loop_spec) (use assms in \<open>auto simp: proc_locks_free_def NPROC_def\<close>)

lemma wakeup_step_spec:
  fixes s :: "'a kproc_scheme"
  assumes "hart_ok h s" and "free_lock lk s" and "proc_locks_free s" and "\<And>p. lk \<noteq> proc_lock p"
  shows "wakeup_step h chan lk s
    = Some ((touch h s)\<lparr>procs := wake_all (c_proc (cpus s h)) chan (procs s)\<rparr>)"
proof -
  let ?f = "\<lambda>t :: 'a kproc_scheme. t\<lparr>procs := wake_all (c_proc (cpus s h)) chan (procs t)\<rparr>"
  have "keeps_locks ?f" by (simp add: keeps_locks_def)
  then have r: "release h lk (?f (within h lk s)) = Some (?f (touch h s))"
    by (rule release_after [OF assms(1,2)])
  have "proc_locks_free (within h lk s)"
    using assms(3) not_sym [OF assms(4)] by (auto simp: proc_locks_free_def)
  then have "wakeup h chan (within h lk s) = Some (?f (within h lk s))"
    using wakeup_spec [of h "within h lk s" chan] assms(1) by (simp add: hart_ok_def)
  with r show ?thesis by (simp add: wakeup_step_def acquire_free [OF assms(2)])
qed

subsection \<open>The scheduling machine\<close>

text \<open>
  All harts together, at the granularity of whole calls: a hart in the scheduler picks a process, or
  the process on a hart yields, sleeps, wakes others or kills. \<open>ks\<close> says where each process that is
  not running will continue.
\<close>

inductive sched_run :: "(nat \<Rightarrow> kont) \<times> kproc \<Rightarrow> bool" where
  start: "(\<And>h. at_rest h s) \<Longrightarrow> (\<And>lk. free_lock lk s) \<Longrightarrow> (\<And>h. c_proc (cpus s h) = None)
    \<Longrightarrow> (\<And>p. p_state (procs s p) \<noteq> RUNNING) \<Longrightarrow> sched_run ((\<lambda>_. KFork), s)"
| pick: "sched_run (ks, s) \<Longrightarrow> c_proc (cpus s h) = None \<Longrightarrow> p < NPROC \<Longrightarrow> p_state (procs s p) = RUNNABLE
    \<Longrightarrow> sched_in (ks p) h p s = Some s' \<Longrightarrow> sched_run (ks, s')"
| yield: "sched_run (ks, s) \<Longrightarrow> c_proc (cpus s h) = Some p \<Longrightarrow> yield_step h p s = Some s'
    \<Longrightarrow> sched_run (ks(p := KYield), s')"
| sleep: "sched_run (ks, s) \<Longrightarrow> c_proc (cpus s h) = Some p \<Longrightarrow> (\<And>q. lk \<noteq> proc_lock q)
    \<Longrightarrow> sleep_step h p chan lk s = Some s' \<Longrightarrow> sched_run (ks(p := KSleep lk), s')"
| wake: "sched_run (ks, s) \<Longrightarrow> (\<And>q. lk \<noteq> proc_lock q) \<Longrightarrow> wakeup_step h chan lk s = Some s'
    \<Longrightarrow> sched_run (ks, s')"
| kill: "sched_run (ks, s) \<Longrightarrow> kill h pid s = Some (r, s') \<Longrightarrow> sched_run (ks, s')"

definition sched_inv :: "(nat \<Rightarrow> kont) \<Rightarrow> kproc \<Rightarrow> bool" where
  "sched_inv ks s \<longleftrightarrow> (\<forall>h. at_rest h s) \<and> (\<forall>lk. free_lock lk s)
     \<and> (\<forall>h p. c_proc (cpus s h) = Some p \<longrightarrow> p < NPROC \<and> p_state (procs s p) = RUNNING)
     \<and> (\<forall>p. p_state (procs s p) = RUNNING \<longrightarrow> (\<exists>!h. c_proc (cpus s h) = Some p))
     \<and> (\<forall>p lk. ks p = KSleep lk \<longrightarrow> (\<forall>q. lk \<noteq> proc_lock q))"

lemma sched_inv_out:
  assumes I: "sched_inv ks s" and c: "c_proc (cpus s h) = Some p"
    and at: "\<And>h. at_rest h s'" "\<And>lk. free_lock lk s'"
    and c': "\<And>h'. c_proc (cpus s' h') = (if h' = h then None else c_proc (cpus s h'))"
    and p': "\<And>q. p_state (procs s' q) = (if q = p then st else p_state (procs s q))" "st \<noteq> RUNNING"
    and ks: "\<And>q lk. ks' q = KSleep lk \<Longrightarrow> (\<forall>q'. lk \<noteq> proc_lock q')"
  shows "sched_inv ks' s'"
proof -
  have run: "p_state (procs s p) = RUNNING" using I c by (simp add: sched_inv_def)
  have only: "h' = h" if "c_proc (cpus s h') = Some p" for h'
    using I run c that unfolding sched_inv_def by blast
  have "\<exists>!h'. c_proc (cpus s' h') = Some q" if q: "p_state (procs s' q) = RUNNING" for q
  proof -
    have "q \<noteq> p" "p_state (procs s q) = RUNNING" using q p' by (auto split: if_splits)
    then have "\<exists>!h'. c_proc (cpus s h') = Some q"
      using I by (simp add: sched_inv_def)
    moreover have "c_proc (cpus s' h') = Some q \<longleftrightarrow> c_proc (cpus s h') = Some q" for h'
      using c c' [of h'] \<open>q \<noteq> p\<close> by auto
    ultimately show ?thesis by simp
  qed
  moreover have "q < NPROC \<and> p_state (procs s' q) = RUNNING" if "c_proc (cpus s' h') = Some q" for h' q
  proof -
    have h': "h' \<noteq> h" "c_proc (cpus s h') = Some q" using that c' [of h'] by (auto split: if_splits)
    then have "q \<noteq> p" using only by blast
    with h' p' show ?thesis using I by (simp add: sched_inv_def)
  qed
  ultimately show ?thesis using at ks unfolding sched_inv_def by blast
qed

lemma sched_inv_same:
  assumes I: "sched_inv ks s" and at: "\<And>h. at_rest h s'" "\<And>lk. free_lock lk s'"
    and c': "\<And>h'. c_proc (cpus s' h') = c_proc (cpus s h')"
    and p': "\<And>q. (p_state (procs s' q) = RUNNING) = (p_state (procs s q) = RUNNING)"
  shows "sched_inv ks s'"
  using I at by (simp add: sched_inv_def c' p')

lemma sched_run_inv: "sched_run c \<Longrightarrow> sched_inv (fst c) (snd c)"
proof (induction rule: sched_run.induct)
  case (start s)
  then show ?case by (auto simp: sched_inv_def)
next
  case (pick ks s h p s')
  then have I: "sched_inv ks s" by simp
  have at: "at_rest h s" "free_lock lk s" for h lk using I by (simp_all add: sched_inv_def)
  obtain b C where s': "s' = s\<lparr>
     cpus := (cpus s)(h := (cpus s h)\<lparr>intena := C, c_proc := Some p\<rparr>), sie := (sie s)(h := b),
     procs := (procs s)(p := (procs s p)\<lparr>p_state := RUNNING,
       p_chan := (if \<exists>lk. ks p = KSleep lk then None else p_chan (procs s p))\<rparr>)\<rparr>"
    using sched_in_spec [OF at(1,2) pick.hyps(4), of "ks p" h] pick.hyps(5) at I
    by (auto simp: sched_inv_def)
  have on: "q < NPROC \<and> p_state (procs s q) = RUNNING" if "c_proc (cpus s h') = Some q" for h' q
    using I that by (simp add: sched_inv_def)
  have no: "c_proc (cpus s h') \<noteq> Some p" for h'
    using on pick.hyps(4) by fastforce
  have "\<exists>!h'. c_proc (cpus s' h') = Some q" if q: "p_state (procs s' q) = RUNNING" for q
  proof (cases "q = p")
    case True
    show ?thesis by (rule ex1I [of _ h]) (use True no in \<open>auto simp: s' split: if_splits\<close>)
  next
    case False
    then have "p_state (procs s q) = RUNNING" using q by (simp add: s')
    then have "\<exists>!h'. c_proc (cpus s h') = Some q"
      using I by (simp add: sched_inv_def)
    moreover have "c_proc (cpus s' h') = Some q \<longleftrightarrow> c_proc (cpus s h') = Some q" for h'
      using False pick.hyps(2) by (auto simp: s')
    ultimately show ?thesis by simp
  qed
  moreover have "at_rest h' s'" "free_lock lk s'" for h' lk
    using at by (auto simp: s' at_rest_def free_lock_def)
  moreover have "q < NPROC \<and> p_state (procs s' q) = RUNNING" if "c_proc (cpus s' h') = Some q" for h' q
    using that on [of h' q] pick.hyps(3) by (auto simp: s' split: if_splits)
  moreover have "\<forall>q. lk \<noteq> proc_lock q" if "ks p = KSleep lk" for p lk
    using I that by (simp add: sched_inv_def)
  ultimately show ?case unfolding sched_inv_def by (simp only: fst_conv snd_conv) blast
next
  case (yield ks s h p s')
  then have I: "sched_inv ks s" by simp
  have at: "at_rest h s" "free_lock lk s" for h lk using I by (simp_all add: sched_inv_def)
  have s': "s' = s\<lparr>cpus := (cpus s)(h := (cpus s h)\<lparr>intena := sie s h, c_proc := None\<rparr>),
     procs := (procs s)(p := (procs s p)\<lparr>p_state := RUNNABLE\<rparr>), saved_intena := (saved_intena s)(p := sie s h)\<rparr>"
    using yield_out [OF at(1) yield.hyps(2) at(2)] yield.hyps(3) by (simp add: yield_step_def)
  have "sched_inv (ks(p := KYield)) s'"
    by (rule sched_inv_out [OF I yield.hyps(2), where st = RUNNABLE])
      (use at I in \<open>auto simp: s' at_rest_def free_lock_def sched_inv_def split: if_splits\<close>)
  then show ?case by (simp only: fst_conv snd_conv)
next
  case (sleep ks s h p lk chan s')
  then have I: "sched_inv ks s" by simp
  have at: "at_rest h s" "free_lock lk s" for h lk using I by (simp_all add: sched_inv_def)
  have s': "s' = s\<lparr>cpus := (cpus s)(h := (cpus s h)\<lparr>intena := sie s h, c_proc := None\<rparr>),
     procs := (procs s)(p := (procs s p)\<lparr>p_chan := chan, p_state := SLEEPING\<rparr>),
     saved_intena := (saved_intena s)(p := sie s h)\<rparr>"
    using sleep_step_spec [OF at(1) sleep.hyps(2) at(2,2) sleep.hyps(3)] sleep.hyps(4) by simp
  have "sched_inv (ks(p := KSleep lk)) s'"
    by (rule sched_inv_out [OF I sleep.hyps(2), where st = SLEEPING])
      (use at I sleep.hyps(3) in \<open>auto simp: s' at_rest_def free_lock_def sched_inv_def split: if_splits\<close>)
  then show ?case by (simp only: fst_conv snd_conv)
next
  case (wake ks s lk h chan s')
  then have I: "sched_inv ks s" by simp
  have at: "at_rest h s" "free_lock lk s" "hart_ok h s" "proc_locks_free s" for h lk
    using I by (simp_all add: sched_inv_def at_rest_def hart_ok_def proc_locks_free_def)
  have s': "s' = (touch h s)\<lparr>procs := wake_all (c_proc (cpus s h)) chan (procs s)\<rparr>"
    using wakeup_step_spec [OF at(3,2,4) wake.hyps(2)] wake.hyps(3) by simp
  have "sched_inv ks s'"
    by (rule sched_inv_same [OF I]) (use at in \<open>auto simp: s' at_rest_def free_lock_def wake_all_def\<close>)
  then show ?case by simp
next
  case (kill ks s h pid r s')
  then have I: "sched_inv ks s" by simp
  have at: "at_rest h s" "free_lock lk s" "hart_ok h s" "proc_locks_free s" for h lk
    using I by (simp_all add: sched_inv_def at_rest_def hart_ok_def proc_locks_free_def)
  have s': "s' = touch h s \<or> (\<exists>p. s' = victim p (touch h s))"
    using kill_spec [OF at(3,4)] kill.hyps(2) by (auto split: option.splits)
  have st: "(p_state (procs s' q) = RUNNING) = (p_state (procs s q) = RUNNING)" for q
    using s' by (elim disjE exE) (auto simp: victim_def)
  have cl: "cpus s' = cpus (touch h s)" "lks s' = lks s"
    using s' by (auto simp: victim_def)
  have "sched_inv ks s'"
    by (rule sched_inv_same [OF I]) (use at st cl in \<open>auto simp: at_rest_def free_lock_def\<close>)
  then show ?case by simp
qed

subsection \<open>Properties\<close>

text \<open>
  C6. Scheduling is safe: in every run of any number of harts that pick, yield, sleep, wake and kill,
  a process that is \<open>RUNNING\<close> is on exactly one hart, a hart's current process is \<open>RUNNING\<close>, and
  between two calls no lock is held.
\<close>

theorem scheduler_safe:
  assumes "sched_run (ks, s)"
  shows "(\<forall>p. p_state (procs s p) = RUNNING \<longrightarrow> (\<exists>!h. c_proc (cpus s h) = Some p))
    \<and> (\<forall>h p. c_proc (cpus s h) = Some p \<longrightarrow> p < NPROC \<and> p_state (procs s p) = RUNNING)
    \<and> (\<forall>lk. free_lock lk s)"
  using sched_run_inv [OF assms] by (simp add: sched_inv_def)

text \<open>
  C7. The calls of the scheduling machine never panic and never spin: in every reachable state the
  process of a hart can yield and can sleep on any channel with any lock that is not a process lock,
  an idle hart can switch to every runnable process, wherever that process continues, and everybody
  can wake and kill.
\<close>

theorem scheduler_progress:
  assumes "sched_run (ks, s)" and "\<And>q. lk \<noteq> proc_lock q"
  shows "(\<forall>h p. c_proc (cpus s h) = Some p \<longrightarrow> yield_step h p s \<noteq> None \<and> sleep_step h p chan lk s \<noteq> None)
    \<and> (\<forall>h p. c_proc (cpus s h) = None \<longrightarrow> p < NPROC \<longrightarrow> p_state (procs s p) = RUNNABLE
        \<longrightarrow> sched_in (ks p) h p s \<noteq> None)
    \<and> (\<forall>h. wakeup_step h chan lk s \<noteq> None \<and> kill h pid s \<noteq> None)"
proof -
  have I: "sched_inv ks s" using sched_run_inv [OF assms(1)] by simp
  have at: "at_rest h s" "free_lock lk s" "hart_ok h s" "proc_locks_free s" for h lk
    using I by (simp_all add: sched_inv_def at_rest_def hart_ok_def proc_locks_free_def)
  have ks: "\<forall>lk. ks p = KSleep lk \<longrightarrow> free_lock lk s \<and> lk \<noteq> proc_lock p" for p
    using I by (simp add: sched_inv_def)
  have "yield_step h p s \<noteq> None \<and> sleep_step h p chan lk s \<noteq> None" if "c_proc (cpus s h) = Some p" for h p
    using yield_out [OF at(1) that at(2)] sleep_step_spec [OF at(1) that at(2,2) assms(2)]
    by (simp add: yield_step_def)
  moreover have "sched_in (ks p) h p s \<noteq> None" if "p_state (procs s p) = RUNNABLE" for h p
    using sched_in_spec [OF at(1,2) that ks] by fastforce
  moreover have "wakeup_step h chan lk s \<noteq> None" for h
    using wakeup_step_spec [OF at(3,2,4) assms(2)] by simp
  moreover have "kill h pid s \<noteq> None" for h
    using kill_spec [OF at(3,4)] by (simp split: option.splits)
  ultimately show ?thesis by simp
qed

text \<open>
  \<open>kill\<close> marks the first process with the given identifier as killed and makes it runnable if it
  sleeps, and returns 0; without such a process nothing changes and it returns -1.
\<close>

theorem kill_correct:
  assumes "hart_ok h s" and "proc_locks_free s"
  shows "\<exists>s'. kill h pid s = Some (if \<exists>p<NPROC. p_pid (procs s p) = pid then 0 else -1, s')
    \<and> (\<forall>p. procs s' p = (if p < NPROC \<and> p_pid (procs s p) = pid \<and> (\<forall>q<p. p_pid (procs s q) \<noteq> pid)
        then (procs s p)\<lparr>p_killed := 1, p_state := (if p_state (procs s p) = SLEEPING then RUNNABLE
               else p_state (procs s p))\<rparr> else procs s p))"
proof (cases "find (\<lambda>p. p_pid (procs s p) = pid) [0..<NPROC]")
  case None
  then have "\<forall>p<NPROC. p_pid (procs s p) \<noteq> pid" by (simp add: find_None_iff)
  with kill_spec [OF assms, of pid] None show ?thesis by auto
next
  case (Some p)
  then have p: "p < NPROC" "p_pid (procs s p) = pid" "\<And>q. q < p \<Longrightarrow> p_pid (procs s q) \<noteq> pid"
    by (auto simp: find_Some_iff)
  have "procs (victim p (touch h s)) q = (if q < NPROC \<and> p_pid (procs s q) = pid \<and> (\<forall>r<q. p_pid (procs s r) \<noteq> pid)
        then (procs s q)\<lparr>p_killed := 1, p_state := (if p_state (procs s q) = SLEEPING then RUNNABLE
               else p_state (procs s q))\<rparr> else procs s q)" for q
    using p linorder_neqE_nat [of q p] by (auto simp: victim_def)
  with kill_spec [OF assms, of pid] Some p(1,2) show ?thesis by auto
qed

definition proc0 :: proc where
  "proc0 = \<lparr>p_state = UNUSED, p_chan = None, p_killed = 0, p_xstate = 0, p_pid = 0, p_parent = None,
     p_kstack = 0, p_sz = 0, p_pagetable = 0, p_trapframe = 0,
     p_context = \<lparr>ctx_ra = 0, ctx_sp = 0, ctx_s0 = 0, ctx_s1 = 0, ctx_s2 = 0, ctx_s3 = 0, ctx_s4 = 0,
       ctx_s5 = 0, ctx_s6 = 0, ctx_s7 = 0, ctx_s8 = 0, ctx_s9 = 0, ctx_s10 = 0, ctx_s11 = 0\<rparr>,
     p_ofile = (\<lambda>_. None), p_cwd = None, p_name = []\<rparr>"

definition tf0 :: trapframe where
  "tf0 = \<lparr>kernel_satp = 0, kernel_sp = 0, kernel_trap = 0, tf_epc = 0, kernel_hartid = 0,
     tf_ra = 0, tf_sp = 0, tf_gp = 0, tf_tp = 0, tf_t0 = 0, tf_t1 = 0, tf_t2 = 0, tf_s0 = 0, tf_s1 = 0,
     tf_a0 = 0, tf_a1 = 0, tf_a2 = 0, tf_a3 = 0, tf_a4 = 0, tf_a5 = 0, tf_a6 = 0, tf_a7 = 0,
     tf_s2 = 0, tf_s3 = 0, tf_s4 = 0, tf_s5 = 0, tf_s6 = 0, tf_s7 = 0, tf_s8 = 0, tf_s9 = 0,
     tf_s10 = 0, tf_s11 = 0, tf_t3 = 0, tf_t4 = 0, tf_t5 = 0, tf_t6 = 0\<rparr>"

text \<open>A small table: process 3 with identifier 7 runs on hart 0 or waits there to be run.\<close>

definition kproc0 :: kproc where
  "kproc0 = kcpu.extend kcpu0 \<lparr>procs = (\<lambda>_. proc0)(3 := proc0\<lparr>p_state := RUNNABLE, p_pid := 7\<rparr>),
     nextpid = 1, initproc = None, saved_intena = (\<lambda>_. False), tframes = (\<lambda>_. tf0), ticks = 0, klog = []\<rparr>"

lemma kproc0_sel [simp]:
  "cpus kproc0 h = \<lparr>c_proc = None, noff = 0, intena = False\<rparr>" "sie kproc0 h = True"
  "lks kproc0 lk = \<lparr>locked = 0, name = [], lk_cpu = None\<rparr>"
  "procs kproc0 = (\<lambda>_. proc0)(3 := proc0\<lparr>p_state := RUNNABLE, p_pid := 7\<rparr>)"
  by (simp_all add: kproc0_def kcpu0_def kcpu.defs)

lemma kproc0_run: "sched_run ((\<lambda>_. KFork), kproc0)"
  by (rule sched_run.start) (simp_all add: at_rest_def free_lock_def proc0_def)

theorem scheduler_safe_witness:
  "\<exists>ks s. sched_run (ks, s) \<and> p_state (procs s 3) = RUNNING \<and> (\<exists>!h. c_proc (cpus s h) = Some 3)"
proof -
  obtain s' where s': "sched_in KFork 0 3 kproc0 = Some s'" "p_state (procs s' 3) = RUNNING"
    using sched_in_spec [of 0 kproc0 3 KFork] by (auto simp: at_rest_def free_lock_def)
  have "sched_run ((\<lambda>_. KFork), s')"
    by (rule sched_run.pick [OF kproc0_run]) (use s' in \<open>simp_all add: NPROC_def\<close>)
  from this scheduler_safe [OF this] s'(2) show ?thesis by blast
qed

theorem scheduler_progress_witness: "sched_in KFork 0 3 kproc0 \<noteq> None"
  using scheduler_progress [OF kproc0_run, of tickslock] by (simp add: NPROC_def)

theorem kill_correct_witness: "\<exists>s'. kill 0 7 kproc0 = Some (0, s') \<and> p_killed (procs s' 3) = 1"
proof -
  have "\<forall>q<3. p_pid (procs kproc0 q) \<noteq> 7" "\<exists>p<NPROC. p_pid (procs kproc0 p) = 7"
    by (auto simp: proc0_def NPROC_def)
  moreover have "hart_ok 0 kproc0" "proc_locks_free kproc0"
    by (simp_all add: hart_ok_def proc_locks_free_def free_lock_def)
  ultimately show ?thesis
    using kill_correct [of 0 kproc0 7] by (auto simp: NPROC_def)
qed

end
