(* ===== verification/Sem.thy ===== *)
theory Sem
  imports Proc
begin

text \<open>
  The semaphores of \<open>labo2/kernel/sysproc.c\<close>, with the argument fetching of \<open>syscall.c\<close>: an array of
  256 counters, each with a spinlock, and the four system calls. A value is the C \<open>int\<close> of the
  source, a 32-bit word; \<open>-1\<close> marks a semaphore that is not open.

  \<open>sys_sem_down\<close> sleeps inside; its result says whether it returned or left the CPU (\<open>Blocks\<close>), and
  \<open>sem_down_resume\<close> is where the process goes on. The second half of the theory runs the same code
  in steps of single lock operations, so that processes interleave inside \<open>sleep\<close> and \<open>wakeup\<close>.
\<close>

subsection \<open>System call arguments\<close>

definition argraw :: "nat \<Rightarrow> nat \<Rightarrow> 'a kproc_scheme \<Rightarrow> (uint64 \<times> 'a kproc_scheme) option" where
  "argraw h n s = do {
     (mp, s) \<leftarrow> myproc h s;
     p \<leftarrow> mp;
     let tf = tframes s (p_trapframe (procs s p));
     if n = 0 then Some (tf_a0 tf, s)
     else if n = 1 then Some (tf_a1 tf, s)
     else if n = 2 then Some (tf_a2 tf, s)
     else if n = 3 then Some (tf_a3 tf, s)
     else if n = 4 then Some (tf_a4 tf, s)
     else if n = 5 then Some (tf_a5 tf, s)
     else None }"

definition argint :: "nat \<Rightarrow> nat \<Rightarrow> 'a kproc_scheme \<Rightarrow> (cint \<times> 'a kproc_scheme) option" where
  "argint h n s = do { (v, s) \<leftarrow> argraw h n s; Some (ucast v, s) }"

definition argaddr :: "nat \<Rightarrow> nat \<Rightarrow> 'a kproc_scheme \<Rightarrow> (uint64 \<times> 'a kproc_scheme) option" where
  "argaddr h n s = argraw h n s"

text \<open>
  \<open>printf\<close> of a fixed message: it is appended to a log. The lock that \<open>printf\<close> takes to keep messages apart has no
  other effect and is left out here; the formatting itself is modelled in the theory \<open>Printf\<close>.
\<close>

definition kprintf :: "string \<Rightarrow> 'a kproc_scheme \<Rightarrow> 'a kproc_scheme" where
  "kprintf m s = s\<lparr>klog := klog s @ [m]\<rparr>"

subsection \<open>Semaphores\<close>

definition MAX_SEMAPHORES :: int where "MAX_SEMAPHORES = 256"

record ksem = kproc +
  sem_value :: "nat \<Rightarrow> cint"

definition set_sem :: "nat \<Rightarrow> cint \<Rightarrow> 'a ksem_scheme \<Rightarrow> 'a ksem_scheme" where
  "set_sem i v s = s\<lparr>sem_value := (sem_value s)(i := v)\<rparr>"

definition sem_init :: "'a ksem_scheme \<Rightarrow> 'a ksem_scheme" where
  "sem_init s = fold (\<lambda>i s. initlock (sem_lock i) ''semaphore'' (set_sem i (-1) s)) [0..<nat MAX_SEMAPHORES] s"

definition sem_index :: "cint \<Rightarrow> nat option" where
  "sem_index sem = (if sint sem < 0 \<or> sint sem \<ge> MAX_SEMAPHORES then None else Some (nat (sint sem)))"

definition sys_sem_open :: "nat \<Rightarrow> 'a ksem_scheme \<Rightarrow> (uint64 \<times> 'a ksem_scheme) option" where
  "sys_sem_open h s = do {
     (sem, s) \<leftarrow> argint h 0 s;
     (val, s) \<leftarrow> argint h 1 s;
     case sem_index sem of
       None \<Rightarrow> Some (0, kprintf (''ERROR: invalid sem ID.'' @ [CHR 0x0A]) s)
     | Some i \<Rightarrow> do {
         s \<leftarrow> acquire h (sem_lock i) s;
         let (ret, s) = (if sem_value s i = -1 then (1, set_sem i val s) else (0, s));
         s \<leftarrow> release h (sem_lock i) s;
         Some (ret, s) } }"

definition sys_sem_close :: "nat \<Rightarrow> 'a ksem_scheme \<Rightarrow> (uint64 \<times> 'a ksem_scheme) option" where
  "sys_sem_close h s = do {
     (sem, s) \<leftarrow> argint h 0 s;
     case sem_index sem of
       None \<Rightarrow> Some (0, s)
     | Some i \<Rightarrow> do {
         s \<leftarrow> acquire h (sem_lock i) s;
         let s = set_sem i 0 s;
         s \<leftarrow> wakeup h (Some (chan_sem i)) s;
         s \<leftarrow> release h (sem_lock i) s;
         Some (1, s) } }"

definition sys_sem_up :: "nat \<Rightarrow> 'a ksem_scheme \<Rightarrow> (uint64 \<times> 'a ksem_scheme) option" where
  "sys_sem_up h s = do {
     (sem, s) \<leftarrow> argint h 0 s;
     case sem_index sem of
       None \<Rightarrow> Some (0, s)
     | Some i \<Rightarrow> do {
         s \<leftarrow> acquire h (sem_lock i) s;
         let s = set_sem i (sem_value s i + 1) s;
         s \<leftarrow> wakeup h (Some (chan_sem i)) s;
         s \<leftarrow> release h (sem_lock i) s;
         Some (1, s) } }"

datatype ('r, 's) outcome = Returns 'r 's | Blocks 's

text \<open>The loop of \<open>sys_sem_down\<close>, entered with the semaphore's lock held.\<close>

definition sem_down_loop :: "nat \<Rightarrow> nat \<Rightarrow> 'a ksem_scheme \<Rightarrow> (uint64, 'a ksem_scheme) outcome option" where
  "sem_down_loop h i s =
     (if sem_value s i = 0 then do {
        s \<leftarrow> sleep_enter h (Some (chan_sem i)) (sem_lock i) s;
        Some (Blocks s) }
      else do {
        let s = set_sem i (sem_value s i - 1) s;
        s \<leftarrow> release h (sem_lock i) s;
        Some (Returns 1 s) })"

definition sys_sem_down :: "nat \<Rightarrow> 'a ksem_scheme \<Rightarrow> (uint64, 'a ksem_scheme) outcome option" where
  "sys_sem_down h s = do {
     (sem, s) \<leftarrow> argint h 0 s;
     case sem_index sem of
       None \<Rightarrow> Some (Returns 0 s)
     | Some i \<Rightarrow> do {
         s \<leftarrow> acquire h (sem_lock i) s;
         sem_down_loop h i s } }"

definition sem_down_resume :: "nat \<Rightarrow> nat \<Rightarrow> nat \<Rightarrow> 'a ksem_scheme \<Rightarrow> (uint64, 'a ksem_scheme) outcome option" where
  "sem_down_resume h p i s = do {
     s \<leftarrow> sleep_exit h p (sem_lock i) s;
     sem_down_loop h i s }"

subsection \<open>Lemmas\<close>

lemma argint_ok:
  assumes "hart_ok h s" and "c_proc (cpus s h) = Some p"
  shows "argint h 0 s = Some (ucast (tf_a0 (tframes s (p_trapframe (procs s p)))), touch h s)"
    and "argint h 1 s = Some (ucast (tf_a1 (tframes s (p_trapframe (procs s p)))), touch h s)"
  using assms by (simp_all add: argint_def argraw_def myproc_ok Let_def)

lemma ksem_within [simp]: "sem_value (within h lk s) = sem_value s"
  by (simp add: within_def)

lemma ksem_touch [simp]: "sem_value (touch h s) = sem_value s"
  by (simp add: touch_def)

lemma keeps_locks_set_sem [intro]: "keeps_locks (set_sem i v)"
  by (simp add: keeps_locks_def set_sem_def)

text \<open>A running process whose first two arguments are \<open>a\<close> and \<open>b\<close>, on a hart that holds no lock.\<close>

definition calling :: "nat \<Rightarrow> nat \<Rightarrow> cint \<Rightarrow> cint \<Rightarrow> 'a kproc_scheme \<Rightarrow> bool" where
  "calling h p a b s \<longleftrightarrow> at_rest h s \<and> c_proc (cpus s h) = Some p
     \<and> (let tf = tframes s (p_trapframe (procs s p)) in ucast (tf_a0 tf) = a \<and> ucast (tf_a1 tf) = b)"

lemma calling_args:
  assumes "calling h p a b s"
  shows "hart_ok h s" "hart_ok h (touch h s)" "argint h 0 s = Some (a, touch h s)"
    "argint h 1 s = Some (b, touch h s)" "argint h 1 (touch h s) = Some (b, touch h s)"
proof -
  show ok: "hart_ok h s" "hart_ok h (touch h s)" using assms by (simp_all add: calling_def at_rest_def hart_ok_def)
  show "argint h 0 s = Some (a, touch h s)" "argint h 1 s = Some (b, touch h s)"
    "argint h 1 (touch h s) = Some (b, touch h s)"
    using assms argint_ok [OF ok(1), of p] argint_ok [OF ok(2), of p] by (auto simp: calling_def Let_def)
qed

lemma sem_open_spec:
  assumes "calling h p a v s" and "sem_index a = Some i" and "free_lock (sem_lock i) s"
  shows "sys_sem_open h s = Some (if sem_value s i = -1 then (1, set_sem i v (touch h s)) else (0, touch h s))"
proof -
  note c = calling_args [OF assms(1)]
  have f: "free_lock (sem_lock i) (touch h s)" using assms(3) by simp
  have "release h (sem_lock i) (set_sem i v (within h (sem_lock i) (touch h s)))
      = Some (set_sem i v (touch h (touch h s)))"
    "release h (sem_lock i) (within h (sem_lock i) (touch h s)) = Some (touch h (touch h s))"
    using release_after [OF c(2) f, of "set_sem i v"] release_after [OF c(2) f, of "\<lambda>s. s"] by auto
  then show ?thesis
    using assms(2) c f by (simp add: sys_sem_open_def acquire_free)
qed

lemma wakeup_in_section:
  fixes f :: "'a ksem_scheme \<Rightarrow> 'a ksem_scheme"
  assumes "hart_ok h s" and "free_lock (sem_lock i) s" and "proc_locks_free s" and "keeps_locks f"
    and "\<And>t. procs (f t) = procs t"
  shows "(do { s \<leftarrow> acquire h (sem_lock i) s; s \<leftarrow> wakeup h ch (f s); release h (sem_lock i) s })
    = Some ((f (touch h s))\<lparr>procs := wake_all (c_proc (cpus s h)) ch (procs s)\<rparr>)"
proof -
  let ?w = "within h (sem_lock i) s"
  let ?g = "\<lambda>t. (f t)\<lparr>procs := wake_all (c_proc (cpus s h)) ch (procs (f t))\<rparr>"
  note sel = keeps_locks_sel [OF assms(4)]
  have "keeps_locks ?g" using assms(4) by (simp add: keeps_locks_def)
  then have r: "release h (sem_lock i) (?g ?w) = Some (?g (touch h s))"
    by (rule release_after [OF assms(1,2)])
  have "hart_ok h (f ?w)" "noff (cpus (f ?w) h) \<noteq> 0" "proc_locks_free (f ?w)"
    using assms(1,3) hart_ok_within [OF assms(1)] sel
    by (auto simp: hart_ok_def proc_locks_free_def free_lock_def within_def)
  then have "wakeup h ch (f ?w) = Some (?g ?w)"
    using wakeup_spec [of h "f ?w" ch] sel by simp
  with r assms(5) show ?thesis by (simp add: acquire_free [OF assms(2)])
qed

lemma sem_up_spec:
  assumes "calling h p a b s" and "sem_index a = Some i" and "free_lock (sem_lock i) s" and "proc_locks_free s"
  shows "sys_sem_up h s = Some (1, (set_sem i (sem_value s i + 1) (touch h s))
    \<lparr>procs := wake_all (Some p) (Some (chan_sem i)) (procs s)\<rparr>)"
proof -
  note c = calling_args [OF assms(1)]
  let ?f = "\<lambda>t. set_sem i (sem_value t i + 1) t"
  have k: "keeps_locks ?f" by (simp add: keeps_locks_def set_sem_def)
  have f: "free_lock (sem_lock i) (touch h s)" "proc_locks_free (touch h s)"
    using assms(3,4) by (simp_all add: proc_locks_free_def)
  show ?thesis
    using wakeup_in_section [OF c(2) f k, of "Some (chan_sem i)"] assms(1,2) c
    by (simp add: sys_sem_up_def Let_def set_sem_def calling_def bind_eq_Some_conv)
qed

lemma sem_close_spec:
  assumes "calling h p a b s" and "sem_index a = Some i" and "free_lock (sem_lock i) s" and "proc_locks_free s"
  shows "sys_sem_close h s = Some (1, (set_sem i 0 (touch h s))
    \<lparr>procs := wake_all (Some p) (Some (chan_sem i)) (procs s)\<rparr>)"
proof -
  note c = calling_args [OF assms(1)]
  have f: "free_lock (sem_lock i) (touch h s)" "proc_locks_free (touch h s)"
    using assms(3,4) by (simp_all add: proc_locks_free_def)
  show ?thesis
    using wakeup_in_section [OF c(2) f keeps_locks_set_sem, of i 0 "Some (chan_sem i)"] assms(1,2) c
    by (simp add: sys_sem_close_def Let_def set_sem_def calling_def bind_eq_Some_conv)
qed

lemma sem_down_spec:
  fixes s :: "'a ksem_scheme"
  assumes "calling h p a b s" and "sem_index a = Some i" and "free_lock (sem_lock i) s"
    and "free_lock (proc_lock p) s"
  shows "if sem_value s i = 0
    then \<exists>t. sys_sem_down h s = Some (Blocks t)
      \<and> scheduler_back h p t = Some (s\<lparr>cpus := (cpus s)(h := (cpus s h)\<lparr>intena := sie s h, c_proc := None\<rparr>),
         procs := (procs s)(p := (procs s p)\<lparr>p_chan := Some (chan_sem i), p_state := SLEEPING\<rparr>),
         saved_intena := (saved_intena s)(p := sie s h)\<rparr>)
    else sys_sem_down h s = Some (Returns 1 (set_sem i (sem_value s i - 1) (touch h s)))"
proof -
  note c = calling_args [OF assms(1)]
  let ?s = "touch h s"
  have f: "free_lock (sem_lock i) ?s" "free_lock (proc_lock p) ?s" using assms(3,4) by simp_all
  have r: "at_rest h ?s" "c_proc (cpus ?s h) = Some p" using assms(1) by (simp_all add: calling_def at_rest_def)
  have down: "sys_sem_down h s = sem_down_loop h i (within h (sem_lock i) ?s)"
    using assms(2) c by (simp add: sys_sem_down_def acquire_free [OF f(1)])
  show ?thesis
  proof (cases "sem_value s i = 0")
    case True
    have t: "(touch h s)\<lparr>cpus := (cpus ?s)(h := (cpus ?s h)\<lparr>intena := sie s h, c_proc := None\<rparr>),
         procs := X, saved_intena := Y\<rparr> = s\<lparr>cpus := (cpus s)(h := (cpus s h)\<lparr>intena := sie s h, c_proc := None\<rparr>),
         procs := X, saved_intena := Y\<rparr>" for X Y
      using r(1) by (simp add: touch_def)
    have "sleep_step h p (Some (chan_sem i)) (sem_lock i) ?s = Some (s\<lparr>
         cpus := (cpus s)(h := (cpus s h)\<lparr>intena := sie s h, c_proc := None\<rparr>),
         procs := (procs s)(p := (procs s p)\<lparr>p_chan := Some (chan_sem i), p_state := SLEEPING\<rparr>),
         saved_intena := (saved_intena s)(p := sie s h)\<rparr>)"
      using sleep_step_spec [OF r f, of "Some (chan_sem i)"] t by simp
    then show ?thesis
      using True down
      by (auto simp: sleep_step_def acquire_free [OF f(1)] sem_down_loop_def bind_eq_Some_conv)
  next
    case False
    have "release h (sem_lock i) (set_sem i (sem_value s i - 1) (within h (sem_lock i) ?s))
        = Some (set_sem i (sem_value s i - 1) (touch h ?s))"
      by (rule release_after [OF c(2) f(1)]) auto
    with False show ?thesis by (simp add: down sem_down_loop_def Let_def)
  qed
qed

subsection \<open>Interleaving inside the calls\<close>

text \<open>
  One semaphore and any number of processes, in steps of single lock operations. A process is at one
  of the following places of \<open>sys_sem_down\<close>, \<open>sleep\<close>, \<open>scheduler\<close>, \<open>sys_sem_up\<close> and \<open>wakeup\<close>; next to
  each, the locks it holds there.
\<close>

datatype place =
    FUser              \<comment> \<open>outside the calls\<close>
  | FDownTest          \<comment> \<open>semaphore: \<open>while(sem_t[sem].value == 0)\<close>\<close>
  | FSleep1            \<comment> \<open>semaphore: \<open>acquire(&p->lock)\<close> in \<open>sleep\<close>\<close>
  | FSleep2            \<comment> \<open>semaphore, own: \<open>release(lk)\<close>\<close>
  | FSleep3            \<comment> \<open>own: set \<open>chan\<close> and \<open>SLEEPING\<close>\<close>
  | FSched             \<comment> \<open>own: \<open>sched()\<close>, after which the scheduler releases\<close>
  | FAsleep            \<comment> \<open>none: waiting to be picked\<close>
  | FWoken             \<comment> \<open>own: \<open>chan = 0\<close>, \<open>release(&p->lock)\<close>\<close>
  | FReacq             \<comment> \<open>none: \<open>acquire(lk)\<close> at the end of \<open>sleep\<close>\<close>
  | FDec               \<comment> \<open>semaphore: \<open>value--\<close>\<close>
  | FUpInc             \<comment> \<open>semaphore: \<open>value++\<close>\<close>
  | FWake nat          \<comment> \<open>semaphore: \<open>wakeup\<close>, before process \<open>q\<close> of its loop\<close>
  | FWake2 nat         \<comment> \<open>semaphore, \<open>q\<close>: the test and \<open>RUNNABLE\<close>\<close>
  | FWake3 nat         \<comment> \<open>semaphore, \<open>q\<close>: \<open>release(&p->lock)\<close>\<close>
  | FRel               \<comment> \<open>semaphore: the last \<open>release\<close>\<close>

record fsem =
  val :: cint
  slk :: "nat option"
  plk :: "nat \<Rightarrow> nat option"
  pst :: "nat \<Rightarrow> procstate"
  pch :: "nat \<Rightarrow> bool"
  at :: "nat \<Rightarrow> place"
  ups :: int
  downs :: int

text \<open>
  \<open>ups\<close> and \<open>downs\<close> count the completed changes of the value. The last rule is \<open>kill\<close>, which makes a
  sleeping process runnable without the semaphore changing.
\<close>

inductive sem_step :: "fsem \<Rightarrow> fsem \<Rightarrow> bool" where
  down: "at s p = FUser \<Longrightarrow> p < NPROC \<Longrightarrow> slk s = None \<Longrightarrow>
    sem_step s (s\<lparr>slk := Some p, at := (at s)(p := FDownTest)\<rparr>)"
| up: "at s p = FUser \<Longrightarrow> p < NPROC \<Longrightarrow> slk s = None \<Longrightarrow>
    sem_step s (s\<lparr>slk := Some p, at := (at s)(p := FUpInc)\<rparr>)"
| test: "at s p = FDownTest \<Longrightarrow>
    sem_step s (s\<lparr>at := (at s)(p := (if val s = 0 then FSleep1 else FDec))\<rparr>)"
| sleep1: "at s p = FSleep1 \<Longrightarrow> plk s p = None \<Longrightarrow>
    sem_step s (s\<lparr>plk := (plk s)(p := Some p), at := (at s)(p := FSleep2)\<rparr>)"
| sleep2: "at s p = FSleep2 \<Longrightarrow> sem_step s (s\<lparr>slk := None, at := (at s)(p := FSleep3)\<rparr>)"
| sleep3: "at s p = FSleep3 \<Longrightarrow>
    sem_step s (s\<lparr>pch := (pch s)(p := True), pst := (pst s)(p := SLEEPING), at := (at s)(p := FSched)\<rparr>)"
| sched: "at s p = FSched \<Longrightarrow> sem_step s (s\<lparr>plk := (plk s)(p := None), at := (at s)(p := FAsleep)\<rparr>)"
| pick: "at s p = FAsleep \<Longrightarrow> pst s p = RUNNABLE \<Longrightarrow> plk s p = None \<Longrightarrow>
    sem_step s (s\<lparr>plk := (plk s)(p := Some p), pst := (pst s)(p := RUNNING), at := (at s)(p := FWoken)\<rparr>)"
| woken: "at s p = FWoken \<Longrightarrow>
    sem_step s (s\<lparr>pch := (pch s)(p := False), plk := (plk s)(p := None), at := (at s)(p := FReacq)\<rparr>)"
| reacq: "at s p = FReacq \<Longrightarrow> slk s = None \<Longrightarrow>
    sem_step s (s\<lparr>slk := Some p, at := (at s)(p := FDownTest)\<rparr>)"
| dec: "at s p = FDec \<Longrightarrow>
    sem_step s (s\<lparr>val := val s - 1, downs := downs s + 1, at := (at s)(p := FRel)\<rparr>)"
| inc: "at s p = FUpInc \<Longrightarrow>
    sem_step s (s\<lparr>val := val s + 1, ups := ups s + 1, at := (at s)(p := FWake 0)\<rparr>)"
| wake_end: "at s p = FWake q \<Longrightarrow> q = NPROC \<Longrightarrow> sem_step s (s\<lparr>at := (at s)(p := FRel)\<rparr>)"
| wake_self: "at s p = FWake q \<Longrightarrow> q < NPROC \<Longrightarrow> q = p \<Longrightarrow> sem_step s (s\<lparr>at := (at s)(p := FWake (Suc q))\<rparr>)"
| wake: "at s p = FWake q \<Longrightarrow> q < NPROC \<Longrightarrow> q \<noteq> p \<Longrightarrow> plk s q = None \<Longrightarrow>
    sem_step s (s\<lparr>plk := (plk s)(q := Some p), at := (at s)(p := FWake2 q)\<rparr>)"
| wake2: "at s p = FWake2 q \<Longrightarrow>
    sem_step s (s\<lparr>pst := (pst s)(q := (if pst s q = SLEEPING \<and> pch s q then RUNNABLE else pst s q)),
      at := (at s)(p := FWake3 q)\<rparr>)"
| wake3: "at s p = FWake3 q \<Longrightarrow> sem_step s (s\<lparr>plk := (plk s)(q := None), at := (at s)(p := FWake (Suc q))\<rparr>)"
| rel: "at s p = FRel \<Longrightarrow> sem_step s (s\<lparr>slk := None, at := (at s)(p := FUser)\<rparr>)"
| kill: "pst s p = SLEEPING \<Longrightarrow> plk s p = None \<Longrightarrow> sem_step s (s\<lparr>pst := (pst s)(p := RUNNABLE)\<rparr>)"

inductive sem_run :: "cint \<Rightarrow> fsem \<Rightarrow> bool" for v where
  start: "val s = v \<Longrightarrow> slk s = None \<Longrightarrow> plk s = (\<lambda>_. None) \<Longrightarrow> (\<And>p. pst s p = RUNNING)
    \<Longrightarrow> pch s = (\<lambda>_. False) \<Longrightarrow> at s = (\<lambda>_. FUser) \<Longrightarrow> ups s = 0 \<Longrightarrow> downs s = 0 \<Longrightarrow> sem_run v s"
| step: "sem_run v s \<Longrightarrow> sem_step s s' \<Longrightarrow> sem_run v s'"

text \<open>The places where the semaphore's lock and a process lock are held, and those of a sleeper.\<close>

fun in_sem :: "place \<Rightarrow> bool" where
  "in_sem FDownTest = True" | "in_sem FSleep1 = True" | "in_sem FSleep2 = True" | "in_sem FDec = True"
| "in_sem FUpInc = True" | "in_sem (FWake q) = True" | "in_sem (FWake2 q) = True"
| "in_sem (FWake3 q) = True" | "in_sem FRel = True" | "in_sem _ = False"

fun has_plk :: "nat \<Rightarrow> nat \<Rightarrow> place \<Rightarrow> bool" where
  "has_plk q p FSleep2 = (p = q)" | "has_plk q p FSleep3 = (p = q)" | "has_plk q p FSched = (p = q)"
| "has_plk q p FWoken = (p = q)" | "has_plk q p (FWake2 k) = (k = q)" | "has_plk q p (FWake3 k) = (k = q)"
| "has_plk q p _ = False"

text \<open>A waker that has not passed process \<open>p\<close> yet.\<close>

fun before :: "nat \<Rightarrow> place \<Rightarrow> bool" where
  "before p (FWake k) = (k \<le> p)" | "before p (FWake2 k) = (k \<le> p)" | "before p (FWake3 k) = (k < p)"
| "before p _ = False"

definition waiting :: "fsem \<Rightarrow> nat \<Rightarrow> bool" where
  "waiting s p \<longleftrightarrow> at s p \<in> {FSleep1, FSleep2, FSleep3} \<or> pst s p = SLEEPING"

text \<open>The invariant: who holds which lock, and what the places say about the value and the sleepers.\<close>

definition locks_inv :: "fsem \<Rightarrow> bool" where
  "locks_inv s \<longleftrightarrow> (\<forall>p. in_sem (at s p) \<longrightarrow> slk s = Some p)
     \<and> (\<forall>p q. has_plk q p (at s p) \<longrightarrow> plk s q = Some p)
     \<and> (\<forall>p. at s p \<noteq> FUser \<longrightarrow> p < NPROC)
     \<and> (\<forall>p q. at s p = FWake2 q \<or> at s p = FWake3 q \<longrightarrow> q \<noteq> p)"

definition sleep_inv :: "fsem \<Rightarrow> bool" where
  "sleep_inv s \<longleftrightarrow> (\<forall>p. pst s p = SLEEPING \<longrightarrow> pch s p \<and> at s p \<in> {FSched, FAsleep})
     \<and> (\<forall>p. at s p \<in> {FSleep1, FSleep2} \<longrightarrow> val s = 0) \<and> (\<forall>p. at s p = FDec \<longrightarrow> val s \<noteq> 0)
     \<and> (\<forall>p q. at s p = FWake3 q \<longrightarrow> pst s q \<noteq> SLEEPING)"

definition wake_inv :: "fsem \<Rightarrow> bool" where
  "wake_inv s \<longleftrightarrow> (\<forall>p. waiting s p \<longrightarrow> val s = 0 \<or> (\<exists>w. before p (at s w)))"

lemma before_in_sem: "before p (at s w) \<Longrightarrow> in_sem (at s w)"
  by (cases "at s w") auto

lemma locks_inv_step: "sem_step s s' \<Longrightarrow> locks_inv s \<Longrightarrow> locks_inv s'"
  unfolding locks_inv_def
  by (induction rule: sem_step.induct) (auto split: if_splits; metis in_sem.simps has_plk.simps option.inject option.distinct)+

lemma locks_unique:
  assumes "locks_inv s" and "in_sem (at s p)" and "in_sem (at s q)"
  shows "p = q"
  using assms unfolding locks_inv_def by (metis option.inject)

lemma plk_unique:
  assumes "locks_inv s" and "has_plk k p (at s p)" and "has_plk k q (at s q)"
  shows "p = q"
  using assms unfolding locks_inv_def by (metis option.inject)

text \<open>The process a waker holds is neither on its way to sleep nor about to hold its own lock.\<close>

lemma held_by_waker:
  assumes "locks_inv s" and "at s w = FWake2 q \<or> at s w = FWake3 q"
  shows "at s q \<notin> {FSleep1, FSleep2, FSleep3, FSched, FWoken}"
proof -
  have w: "in_sem (at s w)" "has_plk q w (at s w)" "q \<noteq> w"
    using assms by (auto simp: locks_inv_def)
  show ?thesis
    using locks_unique [OF assms(1) w(1), of q] plk_unique [OF assms(1) w(2), of q] w(3) by auto
qed

lemma sleep_inv_step:
  assumes "sem_step s s'" and "locks_inv s" and "sleep_inv s"
  shows "sleep_inv s'"
  using assms
proof (induction rule: sem_step.induct)
  case (sleep3 s p)
  have "at s w \<noteq> FWake3 p" for w
    using held_by_waker [OF sleep3.prems(1), of w p] sleep3.hyps by auto
  with sleep3 show ?case by (auto simp: sleep_inv_def)
next
  case (dec s p)
  have "\<not> in_sem (at s q)" if "q \<noteq> p" for q
    using locks_unique [OF dec.prems(1), of q p] dec.hyps that by auto
  then have "at s q \<notin> {FSleep1, FSleep2, FDec}" if "q \<noteq> p" for q using that by fastforce
  with dec show ?case by (auto simp: sleep_inv_def)
next
  case (inc s p)
  have "\<not> in_sem (at s q)" if "q \<noteq> p" for q
    using locks_unique [OF inc.prems(1), of q p] inc.hyps that by auto
  then have "at s q \<notin> {FSleep1, FSleep2, FDec}" if "q \<noteq> p" for q using that by fastforce
  with inc show ?case by (auto simp: sleep_inv_def)
qed (auto simp: sleep_inv_def split: if_splits)

lemma before_step:
  assumes "wake_inv s" and "waiting s' p \<Longrightarrow> waiting s p" and "val s' = val s"
    and "\<And>w. before p (at s w) \<Longrightarrow> waiting s p \<Longrightarrow> waiting s' p \<Longrightarrow> \<exists>w'. before p (at s' w')"
  shows "waiting s' p \<longrightarrow> val s' = 0 \<or> (\<exists>w. before p (at s' w))"
  using assms unfolding wake_inv_def by metis

lemma wake_inv_step:
  assumes "sem_step s s'" and "locks_inv s" and "sleep_inv s" and "wake_inv s"
  shows "wake_inv s'"
  using assms
proof (induction rule: sem_step.induct)
  case (test s p)
  then show ?case
    unfolding wake_inv_def waiting_def by (auto simp: fun_upd_def) (metis before.simps)+
next
  case (dec s p)
  have "\<not> waiting s q" for q
  proof
    assume "waiting s q"
    then obtain w where "before q (at s w)"
      using dec by (auto simp: wake_inv_def sleep_inv_def)
    then have "w = p" using locks_unique [OF dec.prems(1) before_in_sem, of q w p] dec.hyps by auto
    with \<open>before q (at s w)\<close> dec.hyps show False by simp
  qed
  then have "\<not> waiting (s\<lparr>val := val s - 1, downs := downs s + 1, at := (at s)(p := FRel)\<rparr>) q" for q
    by (auto simp: waiting_def)
  then show ?case by (simp add: wake_inv_def)
next
  case (inc s p)
  then show ?case by (auto simp: wake_inv_def intro!: exI [of _ p])
next
  case (wake_end s p q)
  show ?case unfolding wake_inv_def
  proof (intro allI, rule before_step [OF wake_end.prems(3)])
    fix r w
    assume b: "before r (at s w)" and "waiting s r"
    have "r < NPROC" using \<open>waiting s r\<close> wake_end.prems(1,2)
      by (auto simp: waiting_def locks_inv_def sleep_inv_def)
    with b wake_end.hyps have "w \<noteq> p" by auto
    with b show "\<exists>w'. before r (at (s\<lparr>at := (at s)(p := FRel)\<rparr>) w')" by (auto intro!: exI [of _ w])
  qed (auto simp: waiting_def split: if_splits)
next
  case (wake_self s p q)
  show ?case unfolding wake_inv_def
  proof (intro allI, rule before_step [OF wake_self.prems(3)])
    fix r w
    assume b: "before r (at s w)" and "waiting s r"
    have "r \<noteq> p" using \<open>waiting s r\<close> wake_self by (auto simp: waiting_def sleep_inv_def)
    with b wake_self.hyps show "\<exists>w'. before r (at (s\<lparr>at := (at s)(p := FWake (Suc q))\<rparr>) w')"
      by (cases "w = p") (auto intro!: exI [of _ w])
  qed (auto simp: waiting_def split: if_splits)
next
  case (wake2 s p q)
  let ?s' = "s\<lparr>pst := (pst s)(q := (if pst s q = SLEEPING \<and> pch s q then RUNNABLE else pst s q)),
      at := (at s)(p := FWake3 q)\<rparr>"
  have nq: "\<not> waiting ?s' q"
    using held_by_waker [OF wake2.prems(1), of p q] wake2 by (auto simp: waiting_def sleep_inv_def)
  show ?case unfolding wake_inv_def
  proof (intro allI, rule before_step [OF wake2.prems(3)])
    fix r w
    assume b: "before r (at s w)" and "waiting ?s' r"
    then have "r \<noteq> q" using nq by auto
    with b wake2.hyps show "\<exists>w'. before r (at ?s' w')"
      by (cases "w = p") (auto intro!: exI [of _ w])
  qed (auto simp: waiting_def split: if_splits)
next
  case (wake3 s p q)
  show ?case unfolding wake_inv_def
  proof (intro allI, rule before_step [OF wake3.prems(3)])
    fix r w
    assume b: "before r (at s w)"
    with wake3.hyps show "\<exists>w'. before r (at (s\<lparr>plk := (plk s)(q := None), at := (at s)(p := FWake (Suc q))\<rparr>) w')"
      by (cases "w = p") (auto intro!: exI [of _ w])
  qed (auto simp: waiting_def split: if_splits)
next
  case (wake s p q)
  show ?case unfolding wake_inv_def
  proof (intro allI, rule before_step [OF wake.prems(3)])
    fix r w
    assume b: "before r (at s w)"
    with wake.hyps show "\<exists>w'. before r (at (s\<lparr>plk := (plk s)(q := Some p), at := (at s)(p := FWake2 q)\<rparr>) w')"
      by (cases "w = p") (auto intro!: exI [of _ w])
  qed (auto simp: waiting_def split: if_splits)
qed (unfold wake_inv_def waiting_def, auto simp: fun_upd_def split: if_splits, (metis before.simps)+)

definition count_inv :: "cint \<Rightarrow> fsem \<Rightarrow> bool" where
  "count_inv v s \<longleftrightarrow> ups s \<ge> 0 \<and> downs s \<ge> 0
     \<and> (uint v + ups s < 2 ^ 32 \<longrightarrow> uint (val s) = uint v + ups s - downs s)"

lemma uint_minus_one: "(w :: cint) \<noteq> 0 \<Longrightarrow> uint (w - 1) = uint w - 1"
proof -
  assume "w \<noteq> 0"
  then have "0 < uint w" using uint_0_iff [of w] uint_ge_0 [of w] by linarith
  then have "1 \<le> w" by (simp add: word_le_def)
  then show ?thesis by (simp add: uint_minus_simple_alt)
qed

lemma uint_plus_one: "uint (w :: cint) + 1 < 2 ^ 32 \<Longrightarrow> uint (w + 1) = uint w + 1"
  using uint_ge_0 [of w] by (simp add: uint_word_arith_bintrs take_bit_int_eq_self)

lemma count_inv_step: "sem_step s s' \<Longrightarrow> sleep_inv s \<Longrightarrow> count_inv v s \<Longrightarrow> count_inv v s'"
proof (induction rule: sem_step.induct)
  case (dec s p)
  then show ?case by (auto simp: count_inv_def sleep_inv_def uint_minus_one)
next
  case (inc s p)
  then show ?case by (auto simp: count_inv_def uint_plus_one)
qed (simp_all add: count_inv_def)

lemma sem_run_inv: "sem_run v s \<Longrightarrow> locks_inv s \<and> sleep_inv s \<and> wake_inv s \<and> count_inv v s"
proof (induction rule: sem_run.induct)
  case (start s)
  then show ?case
    by (auto simp: locks_inv_def sleep_inv_def wake_inv_def waiting_def count_inv_def)
next
  case (step s s')
  then show ?case
    using locks_inv_step sleep_inv_step wake_inv_step count_inv_step by blast
qed

subsection \<open>Properties\<close>

text \<open>
  C1. No lost wakeup: however the processes interleave inside \<open>sleep\<close> and \<open>wakeup\<close>, and whoever is
  killed, a process that sleeps on a semaphore whose value is not 0 has a waker that holds the
  semaphore's lock and has not passed it yet. So when nobody is inside a call, every sleeper sleeps
  on the value 0.
\<close>

theorem sem_no_lost_wakeup:
  assumes "sem_run v s" and "pst s p = SLEEPING" and "val s \<noteq> 0"
  shows "\<exists>w. slk s = Some w \<and> before p (at s w)"
proof -
  have "waiting s p" using assms(2) by (simp add: waiting_def)
  then obtain w where "before p (at s w)"
    using sem_run_inv [OF assms(1)] assms(3) by (auto simp: wake_inv_def)
  moreover from this have "slk s = Some w"
    using sem_run_inv [OF assms(1)] before_in_sem by (auto simp: locks_inv_def)
  ultimately show ?thesis by blast
qed

text \<open>
  C2. A semaphore counts: as long as the value does not overflow, it is its initial value plus the
  completed \<open>sem_up\<close>s minus the completed \<open>sem_down\<close>s, so never more \<open>sem_down\<close>s complete than the
  initial value and the \<open>sem_up\<close>s allow.
\<close>

theorem sem_counts:
  assumes "sem_run v s" and "uint v + ups s < 2 ^ 32"
  shows "uint (val s) = uint v + ups s - downs s \<and> downs s \<le> uint v + ups s"
proof -
  have "uint (val s) = uint v + ups s - downs s"
    using sem_run_inv [OF assms(1)] assms(2) by (simp add: count_inv_def)
  then show ?thesis using uint_ge_0 [of "val s"] by simp
qed

text \<open>A run: process 0 goes to sleep on the value 0, process 1 increments and is about to wake.\<close>

definition fsem0 :: fsem where
  "fsem0 = \<lparr>val = 0, slk = None, plk = (\<lambda>_. None), pst = (\<lambda>_. RUNNING), pch = (\<lambda>_. False),
     at = (\<lambda>_. FUser), ups = 0, downs = 0\<rparr>"

definition fsem1 :: fsem where
  "fsem1 = \<lparr>val = 1, slk = Some 1, plk = (\<lambda>_. None), pst = (\<lambda>_. RUNNING)(0 := SLEEPING),
     pch = (\<lambda>_. False)(0 := True), at = (\<lambda>_. FUser)(0 := FAsleep, 1 := FWake 0), ups = 1, downs = 0\<rparr>"

lemma fsem1_run: "sem_run 0 fsem1"
proof -
  let ?s = "\<lambda>p. fsem0\<lparr>slk := Some 0, at := (\<lambda>_. FUser)(0 := p)\<rparr>"
  have 0: "sem_run 0 fsem0" by (rule sem_run.start) (simp_all add: fsem0_def)
  have 1: "sem_run 0 (?s FDownTest)"
    using sem_run.step [OF 0 sem_step.down [of fsem0 0]] by (simp add: fsem0_def NPROC_def)
  have 2: "sem_run 0 (?s FSleep1)"
    using sem_run.step [OF 1 sem_step.test [of "?s FDownTest" 0]] by (simp add: fsem0_def)
  have 3: "sem_run 0 ((?s FSleep2)\<lparr>plk := (\<lambda>_. None)(0 := Some 0)\<rparr>)"
    using sem_run.step [OF 2 sem_step.sleep1 [of "?s FSleep1" 0]] by (simp add: fsem0_def)
  have 4: "sem_run 0 ((?s FSleep3)\<lparr>slk := None, plk := (\<lambda>_. None)(0 := Some 0)\<rparr>)"
    using sem_run.step [OF 3 sem_step.sleep2 [of _ 0]] by (simp add: fsem0_def)
  have 5: "sem_run 0 ((?s FSched)\<lparr>slk := None, plk := (\<lambda>_. None)(0 := Some 0),
      pst := (\<lambda>_. RUNNING)(0 := SLEEPING), pch := (\<lambda>_. False)(0 := True)\<rparr>)"
    using sem_run.step [OF 4 sem_step.sleep3 [of _ 0]] by (simp add: fsem0_def)
  have 6: "sem_run 0 ((?s FAsleep)\<lparr>slk := None, plk := (\<lambda>_. None),
      pst := (\<lambda>_. RUNNING)(0 := SLEEPING), pch := (\<lambda>_. False)(0 := True)\<rparr>)" (is "sem_run 0 ?s6")
    using sem_run.step [OF 5 sem_step.sched [of _ 0]] by (simp add: fsem0_def)
  have 7: "sem_run 0 (?s6\<lparr>slk := Some 1, at := (at ?s6)(1 := FUpInc)\<rparr>)"
    using sem_run.step [OF 6 sem_step.up [of _ 1]] by (simp add: fsem0_def NPROC_def)
  show ?thesis
    using sem_run.step [OF 7 sem_step.inc [of _ 1]] by (simp add: fsem0_def fsem1_def)
qed

theorem sem_no_lost_wakeup_witness: "\<exists>w. slk fsem1 = Some w \<and> before 0 (at fsem1 w)"
  by (rule sem_no_lost_wakeup [OF fsem1_run]) (simp_all add: fsem1_def)

theorem sem_counts_witness: "uint (val fsem1) = 0 + ups fsem1 - downs fsem1"
  using sem_counts [OF fsem1_run] by (simp add: fsem1_def)

text \<open>
  C35. \<open>sem_down\<close> on an open semaphore takes one unit and returns 1 when there is one; when there is
  none, the calling process ends up asleep on the semaphore, off its CPU, with every lock released,
  and the value untouched.
\<close>

theorem sem_down_correct:
  fixes s :: "'a ksem_scheme"
  assumes "calling h p a b s" and "sem_index a = Some i" and "free_lock (sem_lock i) s"
    and "free_lock (proc_lock p) s"
  shows "if sem_value s i \<noteq> 0
    then \<exists>s'. sys_sem_down h s = Some (Returns 1 s') \<and> sem_value s' = (sem_value s)(i := sem_value s i - 1)
      \<and> procs s' = procs s \<and> lks s' = lks s \<and> sie s' = sie s \<and> at_rest h s'
    else \<exists>t s'. sys_sem_down h s = Some (Blocks t) \<and> scheduler_back h p t = Some s'
      \<and> sem_value s' = sem_value s \<and> lks s' = lks s \<and> sie s' = sie s \<and> c_proc (cpus s' h) = None
      \<and> procs s' = (procs s)(p := (procs s p)\<lparr>p_chan := Some (chan_sem i), p_state := SLEEPING\<rparr>)"
  using sem_down_spec [OF assms] assms(1)
  by (auto simp: calling_def at_rest_def set_sem_def)

text \<open>
  \<open>sem_up\<close> adds one unit, makes every process that sleeps on this semaphore runnable and no
  other, and returns 1; all locks are free afterwards.
\<close>

theorem sem_up_correct:
  fixes s :: "'a ksem_scheme"
  assumes "calling h p a b s" and "sem_index a = Some i" and "free_lock (sem_lock i) s" and "proc_locks_free s"
  shows "\<exists>s'. sys_sem_up h s = Some (1, s') \<and> sem_value s' = (sem_value s)(i := sem_value s i + 1)
    \<and> lks s' = lks s \<and> sie s' = sie s
    \<and> (\<forall>q. procs s' q = (if q < NPROC \<and> q \<noteq> p \<and> p_state (procs s q) = SLEEPING
          \<and> p_chan (procs s q) = Some (chan_sem i)
        then (procs s q)\<lparr>p_state := RUNNABLE\<rparr> else procs s q))"
  using sem_up_spec [OF assms] by (auto simp: set_sem_def wake_all_def)

text \<open>
  The four calls reject every identifier outside 0..255 with the result 0 and leave all
  semaphores and processes as they were.
\<close>

theorem sem_bad_id:
  fixes s :: "'a ksem_scheme"
  assumes "calling h p a b s" and "sem_index a = None"
  shows "(\<exists>s'. sys_sem_open h s = Some (0, s') \<and> sem_value s' = sem_value s \<and> procs s' = procs s)
    \<and> (\<exists>s'. sys_sem_close h s = Some (0, s') \<and> sem_value s' = sem_value s \<and> procs s' = procs s)
    \<and> (\<exists>s'. sys_sem_up h s = Some (0, s') \<and> sem_value s' = sem_value s \<and> procs s' = procs s)
    \<and> (\<exists>s'. sys_sem_down h s = Some (Returns 0 s') \<and> sem_value s' = sem_value s \<and> procs s' = procs s)"
  using calling_args [OF assms(1)] assms(2)
  by (simp add: sys_sem_open_def sys_sem_close_def sys_sem_up_def sys_sem_down_def kprintf_def)

text \<open>
  C39. A closed semaphore cannot be opened again: \<open>sem_close\<close> leaves the value 0, not the -1 that
  \<open>sem_open\<close> looks for, so a following \<open>sem_open\<close> of the same semaphore by the same process returns 0 and
  does not set the value.
\<close>

theorem sem_close_then_open:
  fixes s :: "'a ksem_scheme"
  assumes "calling h p a b s" and "sem_index a = Some i" and "free_lock (sem_lock i) s" and "proc_locks_free s"
  shows "\<exists>s' s''. sys_sem_close h s = Some (1, s') \<and> sys_sem_open h s' = Some (0, s'') \<and> sem_value s'' i = 0"
proof -
  let ?s' = "(set_sem i 0 (touch h s))\<lparr>procs := wake_all (Some p) (Some (chan_sem i)) (procs s)\<rparr>"
  have c: "sys_sem_close h s = Some (1, ?s')" by (rule sem_close_spec [OF assms])
  have "wake_all (Some p) ch ps p = ps p" for ch ps by (simp add: wake_all_def)
  then have "calling h p a b ?s'"
    using assms(1) by (auto simp: calling_def at_rest_def set_sem_def touch_def Let_def)
  moreover have "free_lock (sem_lock i) ?s'" using assms(3) by (simp add: free_lock_def set_sem_def)
  ultimately have "sys_sem_open h ?s' = Some (0, touch h ?s')"
    using sem_open_spec [of h p a b ?s' i] assms(2) by (simp add: set_sem_def)
  with c show ?thesis by (auto simp: set_sem_def)
qed

text \<open>A process 3 that calls on hart 0 with the arguments 5 and 1; semaphore 5 has the value \<open>v\<close>.\<close>

definition ksem0 :: "cint \<Rightarrow> ksem" where
  "ksem0 v = kproc.extend (kproc0\<lparr>cpus := (\<lambda>_. \<lparr>c_proc = Some 3, noff = 0, intena = False\<rparr>),
     tframes := (\<lambda>_. tf0\<lparr>tf_a0 := 5, tf_a1 := 1\<rparr>)\<rparr>) \<lparr>sem_value = (\<lambda>_. v)\<rparr>"

lemma ksem0_calling: "calling 0 3 5 1 (ksem0 v)"
  by (simp add: calling_def at_rest_def ksem0_def kproc.defs kproc0_def kcpu.defs tf0_def)

lemma ksem0_locks: "free_lock lk (ksem0 v)" "proc_locks_free (ksem0 v)"
  by (simp_all add: free_lock_def proc_locks_free_def ksem0_def kproc.defs kproc0_def kcpu.defs kcpu0_def)

lemma ksem0_value: "sem_value (ksem0 v) i = v"
  by (simp add: ksem0_def kproc.defs)

lemma sem_index_5: "sem_index 5 = Some 5" "sem_index (-3) = None"
  by (simp_all add: sem_index_def MAX_SEMAPHORES_def)

theorem sem_down_correct_witness:
  "\<exists>s'. sys_sem_down 0 (ksem0 1) = Some (Returns 1 s') \<and> sem_value s' 5 = 0"
  using sem_down_correct [OF ksem0_calling sem_index_5(1) ksem0_locks(1,1), of 1] ksem0_value [of 1] by auto

theorem sem_up_correct_witness: "\<exists>s'. sys_sem_up 0 (ksem0 1) = Some (1, s') \<and> sem_value s' 5 = 2"
  using sem_up_correct [OF ksem0_calling sem_index_5(1) ksem0_locks, of 1] ksem0_value [of 1] by auto

theorem sem_bad_id_witness:
  "\<exists>s'. sys_sem_up 0 ((ksem0 1)\<lparr>tframes := (\<lambda>_. tf0\<lparr>tf_a0 := -3\<rparr>)\<rparr>) = Some (0, s')"
proof -
  have "calling 0 3 (-3) 0 ((ksem0 1)\<lparr>tframes := (\<lambda>_. tf0\<lparr>tf_a0 := -3\<rparr>)\<rparr>)"
    using ksem0_calling [of 1] by (simp add: calling_def at_rest_def tf0_def)
  from sem_bad_id [OF this sem_index_5(2)] show ?thesis by blast
qed

theorem sem_close_then_open_witness:
  "\<exists>s' s''. sys_sem_close 0 (ksem0 (-1)) = Some (1, s') \<and> sys_sem_open 0 s' = Some (0, s'') \<and> sem_value s'' 5 = 0"
  by (rule sem_close_then_open [OF ksem0_calling sem_index_5(1) ksem0_locks])

end
