(* ===== verification/Cmem.thy ===== *)
theory Cmem
  imports Prelude
begin

text \<open>
  Byte-addressed memory and the memory and string functions over it: \<open>labo2/kernel/string.c\<close> and the
  string part of \<open>labo2/user/ulib.c\<close> (whose functions carry the prefix \<open>u_\<close> here). Addresses are
  64-bit words and wrap around as the machine's do; lengths are natural numbers. A loop that runs to
  the end of a string in memory is a partial function, because the string might not end.
\<close>

type_synonym addr = uint64
type_synonym mem = "addr \<Rightarrow> uchar"

subsection \<open>kernel/string.c\<close>

primrec memset_loop :: "nat \<Rightarrow> addr \<Rightarrow> uchar \<Rightarrow> mem \<Rightarrow> mem" where
  "memset_loop 0 cdst c m = m"
| "memset_loop (Suc n) cdst c m = memset_loop n (cdst + 1) c (m(cdst := c))"

definition memset :: "addr \<Rightarrow> uchar \<Rightarrow> nat \<Rightarrow> mem \<Rightarrow> mem" where
  "memset dst c n m = memset_loop n dst c m"

text \<open>The result of the comparisons is the C \<open>int\<close> difference of two bytes.\<close>

definition byte_diff :: "uchar \<Rightarrow> uchar \<Rightarrow> int" where
  "byte_diff a b = uint a - uint b"

primrec memcmp :: "nat \<Rightarrow> addr \<Rightarrow> addr \<Rightarrow> mem \<Rightarrow> int" where
  "memcmp 0 v1 v2 m = 0"
| "memcmp (Suc n) v1 v2 m = (if m v1 \<noteq> m v2 then byte_diff (m v1) (m v2) else memcmp n (v1 + 1) (v2 + 1) m)"

primrec copy_up :: "nat \<Rightarrow> addr \<Rightarrow> addr \<Rightarrow> mem \<Rightarrow> mem" where
  "copy_up 0 d s m = m"
| "copy_up (Suc n) d s m = copy_up n (d + 1) (s + 1) (m(d := m s))"

primrec copy_down :: "nat \<Rightarrow> addr \<Rightarrow> addr \<Rightarrow> mem \<Rightarrow> mem" where
  "copy_down 0 d s m = m"
| "copy_down (Suc n) d s m = copy_down n (d - 1) (s - 1) (m(d - 1 := m (s - 1)))"

definition memmove :: "addr \<Rightarrow> addr \<Rightarrow> nat \<Rightarrow> mem \<Rightarrow> mem" where
  "memmove dst src n m =
     (if n = 0 then m
      else if src < dst \<and> src + of_nat n > dst then copy_down n (dst + of_nat n) (src + of_nat n) m
      else copy_up n dst src m)"

definition memcpy :: "addr \<Rightarrow> addr \<Rightarrow> nat \<Rightarrow> mem \<Rightarrow> mem" where
  "memcpy dst src n m = memmove dst src n m"

fun strncmp :: "nat \<Rightarrow> addr \<Rightarrow> addr \<Rightarrow> mem \<Rightarrow> int" where
  "strncmp n p q m =
     (if n > 0 \<and> m p \<noteq> 0 \<and> m p = m q then strncmp (n - 1) (p + 1) (q + 1) m
      else if n = 0 then 0
      else byte_diff (m p) (m q))"

declare strncmp.simps [simp del]

text \<open>\<open>strncpy\<close>: copy up to and including the final null byte, then fill with null bytes.\<close>

primrec strncpy :: "nat \<Rightarrow> addr \<Rightarrow> addr \<Rightarrow> mem \<Rightarrow> mem" where
  "strncpy 0 s t m = m"
| "strncpy (Suc n) s t m =
     (let m' = m(s := m t) in
      if m t \<noteq> 0 then strncpy n (s + 1) (t + 1) m' else memset_loop n (s + 1) 0 m')"

text \<open>\<open>safestrcpy\<close>: the first argument counts what is left after the decrement in the condition.\<close>

primrec safestrcpy_loop :: "nat \<Rightarrow> addr \<Rightarrow> addr \<Rightarrow> mem \<Rightarrow> mem" where
  "safestrcpy_loop 0 s t m = m(s := 0)"
| "safestrcpy_loop (Suc n) s t m =
     (let m' = m(s := m t) in
      if m t \<noteq> 0 then safestrcpy_loop n (s + 1) (t + 1) m' else m'(s + 1 := 0))"

definition safestrcpy :: "addr \<Rightarrow> addr \<Rightarrow> int \<Rightarrow> mem \<Rightarrow> mem" where
  "safestrcpy s t n m = (if n \<le> 0 then m else safestrcpy_loop (nat n - 1) s t m)"

partial_function (option) strlen_loop :: "addr \<Rightarrow> nat \<Rightarrow> mem \<Rightarrow> nat option" where
  "strlen_loop s n m = (if m (s + of_nat n) \<noteq> 0 then strlen_loop s (Suc n) m else Some n)"

definition strlen :: "addr \<Rightarrow> mem \<Rightarrow> nat option" where
  "strlen s m = strlen_loop s 0 m"

subsection \<open>user/ulib.c\<close>

partial_function (option) u_strcpy :: "addr \<Rightarrow> addr \<Rightarrow> mem \<Rightarrow> mem option" where
  "u_strcpy s t m = (if m t \<noteq> 0 then u_strcpy (s + 1) (t + 1) (m(s := m t)) else Some (m(s := 0)))"

partial_function (option) u_strcmp :: "addr \<Rightarrow> addr \<Rightarrow> mem \<Rightarrow> int option" where
  "u_strcmp p q m = (if m p \<noteq> 0 \<and> m p = m q then u_strcmp (p + 1) (q + 1) m
     else Some (byte_diff (m p) (m q)))"

text \<open>The result of \<open>strchr\<close>: an address, or null (inner \<open>None\<close>).\<close>

partial_function (option) u_strchr :: "addr \<Rightarrow> uchar \<Rightarrow> mem \<Rightarrow> addr option option" where
  "u_strchr s c m = (if m s \<noteq> 0 then if m s = c then Some (Some s) else u_strchr (s + 1) c m
     else Some None)"

text \<open>\<open>atoi\<close> with the wrap-around of a C \<open>int\<close>.\<close>

partial_function (option) atoi_loop :: "addr \<Rightarrow> cint \<Rightarrow> mem \<Rightarrow> cint option" where
  "atoi_loop s n m = (if 48 \<le> m s \<and> m s \<le> 57 then atoi_loop (s + 1) (n * 10 + ucast (m s) - 48) m
     else Some n)"

definition u_atoi :: "addr \<Rightarrow> mem \<Rightarrow> cint option" where
  "u_atoi s m = atoi_loop s 0 m"

definition u_memmove :: "addr \<Rightarrow> addr \<Rightarrow> nat \<Rightarrow> mem \<Rightarrow> mem" where
  "u_memmove vdst vsrc n m =
     (if vsrc > vdst then copy_up n vdst vsrc m
      else copy_down n (vdst + of_nat n) (vsrc + of_nat n) m)"

primrec u_memset :: "nat \<Rightarrow> addr \<Rightarrow> uchar \<Rightarrow> mem \<Rightarrow> mem" where
  "u_memset 0 cdst c m = m"
| "u_memset (Suc n) cdst c m = u_memset n (cdst + 1) c (m(cdst := c))"

primrec u_memcmp :: "nat \<Rightarrow> addr \<Rightarrow> addr \<Rightarrow> mem \<Rightarrow> int" where
  "u_memcmp 0 p1 p2 m = 0"
| "u_memcmp (Suc n) p1 p2 m = (if m p1 \<noteq> m p2 then byte_diff (m p1) (m p2) else u_memcmp n (p1 + 1) (p2 + 1) m)"

definition u_memcpy :: "addr \<Rightarrow> addr \<Rightarrow> nat \<Rightarrow> mem \<Rightarrow> mem" where
  "u_memcpy dst src n m = u_memmove dst src n m"

partial_function (option) u_strlen :: "addr \<Rightarrow> nat \<Rightarrow> mem \<Rightarrow> nat option" where
  "u_strlen s n m = (if m (s + of_nat n) \<noteq> 0 then u_strlen s (Suc n) m else Some n)"

text \<open>\<open>gets\<close> reads from a stream of bytes (descriptor 0); the result is memory and the rest.\<close>

primrec gets_loop :: "nat \<Rightarrow> addr \<Rightarrow> uchar list \<Rightarrow> mem \<Rightarrow> mem \<times> uchar list" where
  "gets_loop 0 b inp m = (m(b := 0), inp)"
| "gets_loop (Suc n) b inp m = (case inp of
     [] \<Rightarrow> (m(b := 0), [])
   | c # cs \<Rightarrow> let m = m(b := c) in
       if c = 10 \<or> c = 13 then (m(b + 1 := 0), cs) else gets_loop n (b + 1) cs m)"

definition u_gets :: "addr \<Rightarrow> int \<Rightarrow> uchar list \<Rightarrow> mem \<Rightarrow> mem \<times> uchar list" where
  "u_gets buf maxlen inp m = gets_loop (nat (maxlen - 1)) buf inp m"

subsection \<open>Lemmas\<close>

text \<open>Memory after the \<open>n\<close> bytes at \<open>src\<close> were copied to \<open>dst\<close>, all at once.\<close>

definition moved :: "addr \<Rightarrow> addr \<Rightarrow> nat \<Rightarrow> mem \<Rightarrow> mem" where
  "moved dst src n m = (\<lambda>a. if unat (a - dst) < n then m (src + (a - dst)) else m a)"

definition filled :: "addr \<Rightarrow> uchar \<Rightarrow> nat \<Rightarrow> mem \<Rightarrow> mem" where
  "filled dst c n m = (\<lambda>a. if unat (a - dst) < n then c else m a)"

lemma unat_pred: "(a::addr) \<noteq> d \<Longrightarrow> unat (a - (d + 1)) = unat (a - d) - 1 \<and> unat (a - d) \<noteq> 0"
  using unat_minus_one [of "a - d"] by (simp add: unat_eq_0 algebra_simps)

lemma unat_self_pred: "unat ((d::addr) - (d + 1)) = 2 ^ 64 - 1"
  by (simp add: unat_minus_1_64)

lemma memset_spec: "n \<le> 2 ^ 64 \<Longrightarrow> memset_loop n d c m = filled d c n m"
proof (induction n arbitrary: d m)
  case (Suc n)
  have "filled (d + 1) c n (m(d := c)) a = filled d c (Suc n) m a" for a
    using unat_pred [of a d] unat_self_pred [of d] Suc.prems
    by (cases "a = d") (auto simp: filled_def)
  with Suc show ?case by (simp add: fun_eq_iff)
qed (simp add: filled_def)

lemma copy_up_spec:
  "n \<le> 2 ^ 64 \<Longrightarrow> d = s \<or> n \<le> unat (d - s) \<Longrightarrow> copy_up n d s m = moved d s n m"
proof (induction n arbitrary: d s m)
  case (Suc n)
  have "d + 1 = s + 1 \<or> n \<le> unat ((d + 1) - (s + 1))" using Suc.prems(2) by auto
  then have IH: "copy_up n (d + 1) (s + 1) (m(d := m s)) = moved (d + 1) (s + 1) n (m(d := m s))"
    using Suc by simp
  have "moved (d + 1) (s + 1) n (m(d := m s)) a = moved d s (Suc n) m a" for a
  proof (cases "a = d")
    case True
    then show ?thesis using unat_self_pred [of d] Suc.prems(1) by (simp add: moved_def)
  next
    case False
    then have u: "unat (a - (d + 1)) = unat (a - d) - 1" "unat (a - d) \<noteq> 0"
      using unat_pred [of a d] by simp_all
    have e: "s + 1 + (a - (d + 1)) = s + (a - d)" by simp
    have "s + (a - d) \<noteq> d" if "unat (a - d) < Suc n"
    proof
      assume "s + (a - d) = d"
      then have "a - d = d - s" by (simp add: algebra_simps)
      with that u(2) Suc.prems(2) show False by auto
    qed
    with u False e show ?thesis by (auto simp: moved_def)
  qed
  with IH show ?case by (simp add: fun_eq_iff)
qed (simp add: moved_def)

lemma copy_down_spec:
  "n < 2 ^ 64 \<Longrightarrow> d = s \<or> n \<le> unat (s - d) \<Longrightarrow>
    copy_down n (d + of_nat n) (s + of_nat n) m = moved d s n m"
proof (induction n arbitrary: m)
  case (Suc n)
  let ?m = "m(d + of_nat n := m (s + of_nat n))"
  have "copy_down (Suc n) (d + of_nat (Suc n)) (s + of_nat (Suc n)) m
      = copy_down n (d + of_nat n) (s + of_nat n) ?m"
    by (simp add: algebra_simps)
  also have "\<dots> = moved d s n ?m"
    by (rule Suc.IH) (use Suc.prems in auto)
  also have "\<dots> = moved d s (Suc n) m"
  proof
    fix a
    have un: "unat (of_nat n :: addr) = n" using Suc.prems(1) by (simp add: unat_of_nat64)
    show "moved d s n ?m a = moved d s (Suc n) m a"
    proof (cases "a = d + of_nat n")
      case True
      then show ?thesis using un by (simp add: moved_def)
    next
      case False
      have "unat (a - d) \<noteq> n"
        using False un by (metis add_diff_cancel_left' diff_add_cancel unat_inject add.commute)
      moreover have "s + (a - d) \<noteq> d + of_nat n" if "unat (a - d) < n"
      proof
        assume "s + (a - d) = d + of_nat n"
        then have "s - d = of_nat n - (a - d)" by (simp add: algebra_simps)
        moreover have "unat (of_nat n - (a - d)) = n - unat (a - d)"
          using that un by (subst unat_sub) (simp_all add: word_le_nat_alt)
        ultimately have "unat (s - d) = n - unat (a - d)" by (simp only:)
        with that Suc.prems(2) show False by auto
      qed
      ultimately show ?thesis using False by (auto simp: moved_def)
    qed
  qed
  finally show ?case .
qed (simp add: moved_def)

text \<open>A range of memory that does not run over the end of the address space.\<close>

definition in_space :: "addr \<Rightarrow> nat \<Rightarrow> bool" where
  "in_space a n \<longleftrightarrow> unat a + n \<le> 2 ^ 64 - 1"

lemma memmove_spec:
  assumes "in_space src n" and "in_space dst n"
  shows "memmove dst src n m = moved dst src n m"
proof -
  have n: "n < 2 ^ 64" using assms by (simp add: in_space_def)
  have un: "unat (src + of_nat n) = unat src + n" "unat (dst + of_nat n) = unat dst + n"
    using assms n by (simp_all add: in_space_def unat_of_nat64 unat_plus_if')
  consider "n = 0" | "n \<noteq> 0" "src < dst" "src + of_nat n > dst"
    | "n \<noteq> 0" "\<not> (src < dst \<and> src + of_nat n > dst)" by blast
  then show ?thesis
  proof cases
    case 1
    then show ?thesis by (simp add: memmove_def moved_def)
  next
    case 2
    then have "unat src < unat dst" by (simp add: word_less_nat_alt)
    then have "n \<le> unat (src - dst)"
      using assms by (simp add: in_space_def unat_sub_if')
    with 2 n show ?thesis by (simp add: memmove_def copy_down_spec)
  next
    case 3
    then have "dst = src \<or> unat dst < unat src \<or> unat src + n \<le> unat dst"
      using un(1) by (auto simp: word_less_nat_alt linorder_not_less unat_inject dest: le_neq_implies_less)
    then have "dst = src \<or> n \<le> unat (dst - src)"
      using assms by (auto simp: in_space_def unat_sub_if')
    then have "copy_up n dst src m = moved dst src n m" using n by (simp add: copy_up_spec)
    moreover have "memmove dst src n m = copy_up n dst src m"
      using 3 unfolding memmove_def by (simp only: if_False)
    ultimately show ?thesis by simp
  qed
qed

lemma u_memmove_spec:
  assumes "in_space src n" and "in_space dst n"
  shows "u_memmove dst src n m = moved dst src n m"
proof (cases "src > dst")
  case True
  then have "unat dst < unat src" by (simp add: word_less_nat_alt)
  then have "n \<le> unat (dst - src)" using assms by (simp add: in_space_def unat_sub_if')
  with True assms show ?thesis by (simp add: u_memmove_def copy_up_spec in_space_def)
next
  case False
  then have "unat src \<le> unat dst" by (simp add: word_less_nat_alt linorder_not_less)
  then have "dst = src \<or> n \<le> unat (src - dst)"
    using assms by (auto simp: in_space_def unat_sub_if' unat_inject dest: le_neq_implies_less)
  with False assms show ?thesis by (simp add: u_memmove_def copy_down_spec in_space_def)
qed

text \<open>The null-terminated string \<open>xs\<close> stands at address \<open>a\<close>.\<close>

fun string_at :: "mem \<Rightarrow> addr \<Rightarrow> uchar list \<Rightarrow> bool" where
  "string_at m a [] = (m a = 0)"
| "string_at m a (x # xs) = (m a = x \<and> x \<noteq> 0 \<and> string_at m (a + 1) xs)"

lemma addr_Suc: "(a :: addr) + of_nat (Suc i) = (a + 1) + of_nat i"
  by simp

lemma string_at_nth: "string_at m a xs \<Longrightarrow> i < length xs \<Longrightarrow> m (a + of_nat i) = xs ! i \<and> xs ! i \<noteq> 0"
proof (induction xs arbitrary: a i)
  case (Cons x xs)
  show ?case
  proof (cases i)
    case (Suc j)
    have "m ((a + 1) + of_nat j) = xs ! j \<and> xs ! j \<noteq> 0"
      using Cons.IH [of "a + 1" j] Cons.prems Suc by simp
    then show ?thesis unfolding Suc addr_Suc nth_Cons_Suc .
  qed (use Cons.prems in simp)
qed simp

lemma string_at_end: "string_at m a xs \<Longrightarrow> m (a + of_nat (length xs)) = 0"
proof (induction xs arbitrary: a)
  case (Cons x xs)
  then have "m ((a + 1) + of_nat (length xs)) = 0" by simp
  then show ?case by (simp add: add.assoc)
qed simp

lemma strlen_loop_spec:
  "string_at m a xs \<Longrightarrow> n \<le> length xs \<Longrightarrow> strlen_loop a n m = Some (length xs)"
proof (induction "length xs - n" arbitrary: n)
  case 0
  then show ?case using string_at_end [of m a xs] by (simp add: strlen_loop.simps [of a n])
next
  case (Suc k)
  then show ?case
    using string_at_nth [of m a xs n] by (simp add: strlen_loop.simps [of a n])
qed

text \<open>Lexicographic order of byte strings, the order \<open>strcmp\<close> reports.\<close>

fun bytes_less :: "uchar list \<Rightarrow> uchar list \<Rightarrow> bool" where
  "bytes_less xs [] = False"
| "bytes_less [] (y # ys) = True"
| "bytes_less (x # xs) (y # ys) = (x < y \<or> (x = y \<and> bytes_less xs ys))"

lemma byte_diff_sign: "byte_diff a b = 0 \<longleftrightarrow> a = b" "byte_diff a b < 0 \<longleftrightarrow> a < b"
  by (auto simp: byte_diff_def word_less_def unsigned_word_eqI)

lemma strcmp_loop_spec:
  assumes "string_at m p xs" and "string_at m q ys"
  shows "\<exists>r. u_strcmp p q m = Some r \<and> (r = 0 \<longleftrightarrow> xs = ys) \<and> (r < 0 \<longleftrightarrow> bytes_less xs ys)"
  using assms
proof (induction xs ys arbitrary: p q rule: bytes_less.induct)
  case (1 xs)
  then have q: "m q = 0" by simp
  have r: "u_strcmp p q m = Some (byte_diff (m p) (m q))"
    using q by (subst u_strcmp.simps) auto
  show ?case
    using 1 q by (cases xs) (auto simp: r byte_diff_sign)
next
  case (2 y ys)
  then have "m p = 0" "m q \<noteq> 0" by auto
  moreover from this have r: "u_strcmp p q m = Some (byte_diff (m p) (m q))"
    by (subst u_strcmp.simps) auto
  ultimately show ?case by (simp add: r byte_diff_sign word_greater_zero_iff)
next
  case (3 x xs y ys)
  then have m: "m p = x" "m q = y" "x \<noteq> 0" "string_at m (p + 1) xs" "string_at m (q + 1) ys" by auto
  show ?case
  proof (cases "x = y")
    case True
    have "u_strcmp p q m = u_strcmp (p + 1) (q + 1) m"
      using m True by (subst u_strcmp.simps) simp
    with 3(1) [OF m(4,5)] True show ?thesis by simp
  next
    case False
    have "u_strcmp p q m = Some (byte_diff x y)"
      using m False by (subst u_strcmp.simps) simp
    with False show ?thesis by (simp add: byte_diff_sign)
  qed
qed

text \<open>The value of a string of decimal digits.\<close>

fun digits_value :: "uchar list \<Rightarrow> int \<Rightarrow> int" where
  "digits_value [] n = n"
| "digits_value (d # ds) n = digits_value ds (n * 10 + (uint d - 48))"

definition is_digit :: "uchar \<Rightarrow> bool" where
  "is_digit d \<longleftrightarrow> 48 \<le> d \<and> d \<le> 57"

lemma atoi_loop_spec:
  assumes "string_at m a (ds @ rest)" and "list_all is_digit ds" and "rest = [] \<or> \<not> is_digit (hd rest)"
  shows "atoi_loop a (of_int n) m = Some (of_int (digits_value ds n))"
  using assms
proof (induction ds arbitrary: a n)
  case Nil
  then have "\<not> is_digit (m a)" by (cases rest) (auto simp: is_digit_def)
  then have "\<not> (48 \<le> m a \<and> m a \<le> 57)" by (simp add: is_digit_def)
  then show ?case by (subst atoi_loop.simps) (simp only: if_False digits_value.simps)
next
  case (Cons d ds)
  have e: "of_int n * 10 + ucast d - 48 = (of_int (n * 10 + (uint d - 48)) :: cint)"
    by simp
  have "m a = d" "is_digit d" using Cons.prems by auto
  then have st: "atoi_loop a (of_int n) m = atoi_loop (a + 1) (of_int (n * 10 + (uint d - 48))) m"
    unfolding e [symmetric] is_digit_def by (subst atoi_loop.simps) (simp only: if_True simp_thms)
  show ?case
    unfolding st digits_value.simps by (rule Cons.IH) (use Cons.prems in simp_all)
qed

text \<open>
  Copying a string between places that do not overlap: \<open>apart s n t xs\<close> says that the \<open>n\<close> bytes at \<open>s\<close>
  hold no byte of the string \<open>xs\<close> at \<open>t\<close>.
\<close>

definition apart :: "addr \<Rightarrow> nat \<Rightarrow> addr \<Rightarrow> nat \<Rightarrow> bool" where
  "apart s n t k \<longleftrightarrow> (\<forall>i<n. \<forall>j<k. s + of_nat i \<noteq> t + of_nat j)"

lemma apart_Suc:
  assumes "apart s (Suc n) t (Suc k)"
  shows "apart (s + 1) n (t + 1) k" and "\<forall>j<Suc k. s \<noteq> t + of_nat j" and "apart s (Suc n) (t + 1) k"
proof -
  have *: "s + of_nat i \<noteq> t + of_nat j" if "i < Suc n" "j < Suc k" for i j
    using assms that unfolding apart_def by blast
  show "apart (s + 1) n (t + 1) k"
    unfolding apart_def using * [of "Suc _" "Suc _"] by (simp only: addr_Suc Suc_less_eq) simp
  show "\<forall>j<Suc k. s \<noteq> t + of_nat j" using * [of 0] by simp
  show "apart s (Suc n) (t + 1) k"
    unfolding apart_def using * [of _ "Suc _"] by (simp only: addr_Suc Suc_less_eq) simp
qed

lemma string_at_upd:
  "string_at m t xs \<Longrightarrow> \<forall>j<Suc (length xs). s \<noteq> t + of_nat j \<Longrightarrow> string_at (m(s := c)) t xs"
proof (induction xs arbitrary: t)
  case (Cons x xs)
  have "s \<noteq> t" using Cons.prems(2) by force
  moreover have "\<forall>j<Suc (length xs). s \<noteq> (t + 1) + of_nat j"
    using Cons.prems(2) unfolding addr_Suc [symmetric] by auto
  ultimately show ?case using Cons by simp
qed force

lemma safestrcpy_loop_spec:
  assumes "string_at m t xs" and "apart s (Suc n) t (Suc (length xs))" and "Suc n < 2 ^ 64"
  shows "string_at (safestrcpy_loop n s t m) s (take n xs)
    \<and> (\<forall>a. unat (a - s) \<ge> Suc n \<longrightarrow> safestrcpy_loop n s t m a = m a)"
  using assms
proof (induction n arbitrary: s t m xs)
  case 0
  then show ?case by (auto simp: unat_eq_0)
next
  case (Suc n)
  show ?case
  proof (cases xs)
    case Nil
    then have "m t = 0" using Suc.prems(1) by simp
    moreover have "a \<noteq> s + 1 \<and> a \<noteq> s" if "Suc (Suc n) \<le> unat (a - s)" for a
      using that by (auto simp: Suc_le_eq)
    ultimately show ?thesis by (simp add: Nil Let_def)
  next
    case (Cons x ys)
    let ?m = "m(s := x)"
    have x: "m t = x" "x \<noteq> 0" "string_at m (t + 1) ys" using Suc.prems(1) Cons by auto
    note ap = apart_Suc [of s "Suc n" t "Suc (length ys)"]
    have ap1: "apart (s + 1) (Suc n) (t + 1) (Suc (length ys))" and
      ap2: "\<forall>j<Suc (Suc (length ys)). s \<noteq> t + of_nat j"
      using ap Suc.prems(2) Cons by auto
    have "\<forall>j<Suc (length ys). s \<noteq> (t + 1) + of_nat j"
      using ap2 unfolding addr_Suc [symmetric] by auto
    then have "string_at ?m (t + 1) ys" using x(3) by (rule string_at_upd [rotated])
    note IH' = Suc.IH [OF this ap1 Suc_lessD [OF Suc.prems(3)]]
    have IH: "string_at (safestrcpy_loop n (s + 1) (t + 1) ?m) (s + 1) (take n ys)"
      "\<And>a. Suc n \<le> unat (a - (s + 1)) \<Longrightarrow> safestrcpy_loop n (s + 1) (t + 1) ?m a = ?m a"
      using IH' by blast+
    have "safestrcpy_loop n (s + 1) (t + 1) ?m s = x"
      using IH(2) [of s] unat_self_pred [of s] Suc.prems(3) by simp
    moreover have "safestrcpy_loop n (s + 1) (t + 1) ?m a = m a" if "Suc (Suc n) \<le> unat (a - s)" for a
    proof -
      have "a \<noteq> s" using that by auto
      with unat_pred [OF this] IH(2) [of a] that show ?thesis by simp
    qed
    ultimately show ?thesis using x IH(1) by (simp add: Cons Let_def)
  qed
qed

subsection \<open>Words in memory\<close>

lemma join8: "take_bit k v OR push_bit k (ucast (ucast (drop_bit k v) :: uchar)) = take_bit (k + 8) (v :: uint64)"
proof (rule bit_word_eqI)
  fix n assume "n < LENGTH(64)"
  then show "bit (take_bit k v OR push_bit k (ucast (ucast (drop_bit k v) :: uchar))) n = bit (take_bit (k + 8) v) n"
    by (cases "n < k") (auto simp: bit_simps)
qed

lemma bytes_join:
  "ucast (ucast v :: uchar) OR push_bit 8 (ucast (ucast (drop_bit 8 v) :: uchar))
     OR push_bit 16 (ucast (ucast (drop_bit 16 v) :: uchar)) OR push_bit 24 (ucast (ucast (drop_bit 24 v) :: uchar))
     OR push_bit 32 (ucast (ucast (drop_bit 32 v) :: uchar)) OR push_bit 40 (ucast (ucast (drop_bit 40 v) :: uchar))
     OR push_bit 48 (ucast (ucast (drop_bit 48 v) :: uchar)) OR push_bit 56 (ucast (ucast (drop_bit 56 v) :: uchar))
   = (v :: uint64)"
proof -
  have "ucast (ucast v :: uchar) = take_bit 8 v" using join8 [of 0 v] by simp
  moreover have "take_bit 64 v = v" by (rule bit_word_eqI) (simp add: bit_simps)
  ultimately show ?thesis using join8 [of 8 v] join8 [of 16 v] join8 [of 24 v] join8 [of 32 v] join8 [of 40 v]
     join8 [of 48 v] join8 [of 56 v] by (simp add: or.assoc [symmetric])
qed

text \<open>64-bit loads and stores, little endian.\<close>

definition ld64 :: "addr \<Rightarrow> mem \<Rightarrow> uint64" where
  "ld64 a m = ucast (m a) OR push_bit 8 (ucast (m (a + 1))) OR push_bit 16 (ucast (m (a + 2)))
     OR push_bit 24 (ucast (m (a + 3))) OR push_bit 32 (ucast (m (a + 4))) OR push_bit 40 (ucast (m (a + 5)))
     OR push_bit 48 (ucast (m (a + 6))) OR push_bit 56 (ucast (m (a + 7)))"

definition st64 :: "addr \<Rightarrow> uint64 \<Rightarrow> mem \<Rightarrow> mem" where
  "st64 a v m = m(a := ucast v, a + 1 := ucast (drop_bit 8 v), a + 2 := ucast (drop_bit 16 v),
     a + 3 := ucast (drop_bit 24 v), a + 4 := ucast (drop_bit 32 v), a + 5 := ucast (drop_bit 40 v),
     a + 6 := ucast (drop_bit 48 v), a + 7 := ucast (drop_bit 56 v))"

lemma ld64_st64 [simp]: "ld64 a (st64 a v m) = v"
  unfolding ld64_def st64_def by (simp add: bytes_join)

lemma ld64_cong: "(\<And>i. i < 8 \<Longrightarrow> m (a + of_nat i) = m' (a + of_nat i)) \<Longrightarrow> ld64 a m = ld64 a m'"
proof -
  assume *: "\<And>i. i < 8 \<Longrightarrow> m (a + of_nat i) = m' (a + of_nat i)"
  show "ld64 a m = ld64 a m'"
    using * [of 0] * [of 1] * [of 2] * [of 3] * [of 4] * [of 5] * [of 6] * [of 7] by (simp add: ld64_def)
qed

lemma st64_other: "(\<And>i. i < 8 \<Longrightarrow> b \<noteq> a + of_nat i) \<Longrightarrow> st64 a v m b = m b"
proof -
  assume *: "\<And>i. i < 8 \<Longrightarrow> b \<noteq> a + of_nat i"
  show "st64 a v m b = m b"
    using * [of 0] * [of 1] * [of 2] * [of 3] * [of 4] * [of 5] * [of 6] * [of 7] by (simp add: st64_def)
qed

lemma unat_less_64: "unat (a :: uint64) < 2 ^ 64"
  by (rule order.strict_trans2 [OF unsigned_less]) simp


lemma unat_aligned_add:
  assumes "unat (a :: addr) mod k = 0" and "i < k" and "k dvd 2 ^ 64"
  shows "unat (a + of_nat i) = unat a + i" and "unat (a + of_nat i) div k = unat a div k"
proof -
  obtain q where q: "unat a = k * q" using assms(1) by (metis mod_0_imp_dvd dvdE)
  obtain N where N: "(2::nat) ^ 64 = k * N" using assms(3) by (metis dvdE)
  have "unat a < 2 ^ 64" by (rule unat_less_64)
  then have "q < N" unfolding q N using assms(2) by simp
  then have "k * Suc q \<le> k * N" by (intro mult_le_mono2) simp
  then have lt: "unat a + i < 2 ^ 64" using assms(2) unfolding q N by simp
  then have "i < 2 ^ 64" by simp
  with lt show u: "unat (a + of_nat i) = unat a + i"
    by (simp add: unat_plus_if' unat_of_nat64)
  show "unat (a + of_nat i) div k = unat a div k"
    unfolding u q using assms(2) by simp
qed

subsection \<open>Properties\<close>

lemma u_memset_eq: "u_memset n d c m = memset_loop n d c m"
  by (induction n arbitrary: d m) simp_all

lemma u_memcmp_eq: "u_memcmp n p q m = memcmp n p q m"
  by (induction n arbitrary: p q) simp_all

text \<open>
  \<open>memmove\<close> of the kernel copies correctly even when source and destination overlap: afterwards the
  \<open>n\<close> bytes at \<open>dst\<close> are the \<open>n\<close> bytes that stood at \<open>src\<close> before, and no other byte has changed. The
  user library's \<open>memmove\<close>, which chooses the direction by another test, does the same, and its copies
  of \<open>memcpy\<close>, \<open>memset\<close> and \<open>memcmp\<close> agree with the kernel's.
\<close>

theorem memmove_correct:
  assumes "in_space src n" and "in_space dst n"
  shows "memmove dst src n m = (\<lambda>a. if unat (a - dst) < n then m (src + (a - dst)) else m a)
    \<and> u_memmove dst src n m = memmove dst src n m \<and> u_memcpy dst src n m = memcpy dst src n m
    \<and> u_memset n dst c m = memset dst c n m \<and> u_memcmp n dst src m = memcmp n dst src m"
  using memmove_spec [OF assms] u_memmove_spec [OF assms]
  by (simp add: moved_def u_memcpy_def memcpy_def memset_def u_memset_eq u_memcmp_eq)

theorem memmove_correct_witness:
  "memmove 102 100 5 (\<lambda>a. ucast a) = (\<lambda>a. if unat (a - 102) < 5 then ucast (100 + (a - 102)) else ucast a)"
proof -
  have "in_space 100 5" "in_space 102 5" by (simp_all add: in_space_def)
  from memmove_correct [OF this, of ucast] show ?thesis by simp
qed

text \<open>
  \<open>safestrcpy\<close> always leaves a null-terminated string in the \<open>n\<close> bytes at \<open>s\<close>: the source, cut to
  \<open>n - 1\<close> bytes; it touches nothing else.
\<close>

theorem safestrcpy_correct:
  assumes "string_at m t xs" and "0 < n" and "n < 2 ^ 63" and "apart s (nat n) t (Suc (length xs))"
  shows "string_at (safestrcpy s t n m) s (take (nat n - 1) xs)
    \<and> (\<forall>a. unat (a - s) \<ge> nat n \<longrightarrow> safestrcpy s t n m a = m a)"
proof -
  have n: "Suc (nat n - 1) = nat n" using assms(2) by simp
  moreover have "nat n < 2 ^ 64" using assms(3) by simp
  ultimately show ?thesis
    using safestrcpy_loop_spec [OF assms(1), of s "nat n - 1"] assms(2,4)
    by (simp add: safestrcpy_def)
qed

theorem safestrcpy_correct_witness:
  "string_at (safestrcpy 200 100 3 ((\<lambda>_. 0)(100 := 97, 101 := 98, 102 := 99))) 200 [97, 98]"
proof -
  let ?m = "(\<lambda>_. 0)(100 := 97, 101 := 98, 102 := 99) :: mem"
  have "string_at ?m 100 [97, 98, 99]" by simp
  moreover have "apart 200 (nat 3) 100 (Suc (length [97, 98, 99 :: uchar]))"
    unfolding apart_def
  proof (intro allI impI)
    fix i j :: nat
    assume "i < nat 3" "j < Suc (length [97, 98, 99 :: uchar])"
    then have "i = 0 \<or> i = 1 \<or> i = 2" "j = 0 \<or> j = 1 \<or> j = 2 \<or> j = 3" by auto
    then show "(200 :: addr) + of_nat i \<noteq> 100 + of_nat j" by (elim disjE) simp_all
  qed
  ultimately show ?thesis using safestrcpy_correct [of ?m 100 "[97, 98, 99]" 3 200] by simp
qed

text \<open>
  The string functions agree with the strings in memory: \<open>strlen\<close> is the length, \<open>strcmp\<close> is 0
  exactly for equal strings and negative exactly when the first one is lexicographically smaller, and
  \<open>atoi\<close> is the value of the leading digits modulo \<open>2\<close> to the 32.
\<close>

theorem string_functions_correct:
  assumes "string_at m p xs" and "string_at m q ys" and "ys = ds @ rest" and "list_all is_digit ds"
    and "rest = [] \<or> \<not> is_digit (hd rest)"
  shows "strlen p m = Some (length xs)
    \<and> (\<exists>r. u_strcmp p q m = Some r \<and> (r = 0 \<longleftrightarrow> xs = ys) \<and> (r < 0 \<longleftrightarrow> bytes_less xs ys))
    \<and> u_atoi q m = Some (of_int (digits_value ds 0))"
  using strlen_loop_spec [OF assms(1), of 0] strcmp_loop_spec [OF assms(1,2)]
    atoi_loop_spec [of m q ds rest 0] assms(2-5)
  by (simp add: strlen_def u_atoi_def)

theorem string_functions_correct_witness:
  "u_atoi 10 ((\<lambda>_. 0)(10 := 52, 11 := 50, 12 := 32)) = Some 42"
proof -
  let ?m = "(\<lambda>_. 0)(10 := 52, 11 := 50, 12 := 32) :: mem"
  have "string_at ?m 10 [52, 50, 32]" by simp
  from string_functions_correct [OF this this, of "[52, 50]" "[32]"] show ?thesis
    by (simp add: is_digit_def)
qed


end
