(* ===== verification/Kalloc.thy ===== *)
theory Kalloc
  imports Sem Cmem
begin

text \<open>
  \<open>labo2/kernel/kalloc.c\<close>: the allocator of physical pages. Physical memory is byte addressed (the
  kernel maps it one to one), and the free list is threaded through the free pages themselves, as in
  the source: the first eight bytes of a free page are the address of the next one. The abstraction
  is the list of free pages.
\<close>

subsection \<open>State and operations\<close>

definition KERNBASE :: uint64 where "KERNBASE = 0x80000000"
definition PHYSTOP :: uint64 where "PHYSTOP = KERNBASE + 128*1024*1024"

definition PGROUNDUP :: "uint64 \<Rightarrow> uint64" where
  "PGROUNDUP sz = (sz + PGSIZE - 1) AND NOT (PGSIZE - 1)"

definition PGROUNDDOWN :: "uint64 \<Rightarrow> uint64" where
  "PGROUNDDOWN a = a AND NOT (PGSIZE - 1)"

text \<open>\<open>kend\<close> is the linker's symbol \<open>end\<close>, the first address after the kernel.\<close>

record kmem = ksem +
  mem :: mem
  freelist :: addr
  kend :: addr

definition kfree :: "nat \<Rightarrow> addr \<Rightarrow> 'a kmem_scheme \<Rightarrow> 'a kmem_scheme option" where
  "kfree h pa s =
     (if pa mod PGSIZE \<noteq> 0 \<or> pa < kend s \<or> pa \<ge> PHYSTOP then None
      else do {
        let s = s\<lparr>mem := memset pa 1 (unat PGSIZE) (mem s)\<rparr>;
        s \<leftarrow> acquire h kmem_lock s;
        let s = s\<lparr>mem := st64 pa (freelist s) (mem s)\<rparr>;
        let s = s\<lparr>freelist := pa\<rparr>;
        release h kmem_lock s })"

definition kalloc :: "nat \<Rightarrow> 'a kmem_scheme \<Rightarrow> (addr \<times> 'a kmem_scheme) option" where
  "kalloc h s = do {
     s \<leftarrow> acquire h kmem_lock s;
     let r = freelist s;
     let s = (if r \<noteq> 0 then s\<lparr>freelist := ld64 r (mem s)\<rparr> else s);
     s \<leftarrow> release h kmem_lock s;
     Some (r, if r \<noteq> 0 then s\<lparr>mem := memset r 5 (unat PGSIZE) (mem s)\<rparr> else s) }"

text \<open>The loop of \<open>freerange\<close>; the first argument bounds the number of pages.\<close>

primrec freerange_loop :: "nat \<Rightarrow> nat \<Rightarrow> addr \<Rightarrow> addr \<Rightarrow> 'a kmem_scheme \<Rightarrow> 'a kmem_scheme option" where
  "freerange_loop 0 h p pa_end s = None"
| "freerange_loop (Suc n) h p pa_end s =
     (if p + PGSIZE \<le> pa_end then do {
        s \<leftarrow> kfree h p s;
        freerange_loop n h (p + PGSIZE) pa_end s }
      else Some s)"

definition freerange :: "nat \<Rightarrow> addr \<Rightarrow> addr \<Rightarrow> 'a kmem_scheme \<Rightarrow> 'a kmem_scheme option" where
  "freerange h pa_start pa_end s = freerange_loop (Suc (unat pa_end)) h (PGROUNDUP pa_start) pa_end s"

definition kinit :: "nat \<Rightarrow> 'a kmem_scheme \<Rightarrow> 'a kmem_scheme option" where
  "kinit h s = freerange h (kend s) PHYSTOP (initlock kmem_lock ''kmem'' s)"

subsection \<open>The free list\<close>

fun chain :: "mem \<Rightarrow> addr \<Rightarrow> addr list \<Rightarrow> bool" where
  "chain m a [] = (a = 0)"
| "chain m a (x # xs) = (a = x \<and> x \<noteq> 0 \<and> chain m (ld64 x m) xs)"

text \<open>The page number of an address, and the pages the allocator may hand out.\<close>

definition pgno :: "addr \<Rightarrow> nat" where
  "pgno a = unat a div 4096"

definition good_page :: "addr \<Rightarrow> addr \<Rightarrow> bool" where
  "good_page e pa \<longleftrightarrow> pa mod PGSIZE = 0 \<and> e \<le> pa \<and> pa < PHYSTOP \<and> pa \<noteq> 0"

definition free_inv :: "'a kmem_scheme \<Rightarrow> addr list \<Rightarrow> bool" where
  "free_inv s xs \<longleftrightarrow> chain (mem s) (freelist s) xs \<and> distinct xs \<and> (\<forall>x\<in>set xs. good_page (kend s) x)"

lemma aligned_unat: "pa mod PGSIZE = 0 \<longleftrightarrow> unat pa mod 4096 = 0"
proof -
  have "unat (pa mod 4096) = unat pa mod 4096" by (simp add: unat_mod)
  then show ?thesis by (metis PGSIZE_def unat_eq_0)
qed

lemma pgno_inj: "unat a mod 4096 = 0 \<Longrightarrow> unat b mod 4096 = 0 \<Longrightarrow> pgno a = pgno b \<Longrightarrow> a = b"
  unfolding pgno_def by (metis unat_inject mult_div_mod_eq)

lemma pgno_offset: "unat a mod 4096 = 0 \<Longrightarrow> i < 4096 \<Longrightarrow> pgno (a + of_nat i) = pgno a"
  unfolding pgno_def by (rule unat_aligned_add(2)) auto

text \<open>A fill or a store in an aligned page changes bytes of that page only.\<close>

lemma filled_page:
  assumes "unat pa mod 4096 = 0" and "pgno a \<noteq> pgno pa"
  shows "memset pa c (unat PGSIZE) m a = m a"
proof -
  have "\<not> unat (a - pa) < 4096"
  proof
    assume "unat (a - pa) < 4096"
    then have "pgno (pa + of_nat (unat (a - pa))) = pgno pa" by (rule pgno_offset [OF assms(1)])
    with assms(2) show False by simp
  qed
  then show ?thesis by (simp add: memset_def memset_spec PGSIZE_def filled_def)
qed

lemma st64_page:
  assumes "unat pa mod 4096 = 0" and "pgno a \<noteq> pgno pa"
  shows "st64 pa v m a = m a"
  by (rule st64_other) (use assms pgno_offset [OF assms(1)] in force)

lemma ld64_page:
  assumes "unat x mod 4096 = 0" and "\<And>a. pgno a = pgno x \<Longrightarrow> m a = m' a"
  shows "ld64 x m = ld64 x m'"
  by (rule ld64_cong) (use assms pgno_offset [OF assms(1)] in force)

lemma chain_cong:
  "(\<And>x. x \<in> set xs \<Longrightarrow> ld64 x m = ld64 x m') \<Longrightarrow> chain m a xs = chain m' a xs"
  by (induction xs arbitrary: a) auto

text \<open>A change of memory in a page that is not free leaves the free list as it is.\<close>

lemma chain_frame:
  assumes "chain m a xs" and "\<forall>x\<in>set xs. unat x mod 4096 = 0 \<and> pgno x \<noteq> pgno p"
    and "\<And>b. pgno b \<noteq> pgno p \<Longrightarrow> m' b = m b"
  shows "chain m' a xs"
proof -
  have "ld64 x m = ld64 x m'" if "x \<in> set xs" for x
    using assms(2,3) that by (intro ld64_page) auto
  with chain_cong [of xs m m' a] assms(1) show ?thesis by simp
qed

lemma kmem_within [simp]:
  "mem (within h lk s) = mem s" "freelist (within h lk s) = freelist s" "kend (within h lk s) = kend s"
  by (simp_all add: within_def)

lemma kmem_touch [simp]:
  "mem (touch h s) = mem s" "freelist (touch h s) = freelist s" "kend (touch h s) = kend s"
  by (simp_all add: touch_def)

lemma free_inv_touch [simp]: "free_inv (touch h s) xs = free_inv s xs"
  by (simp add: free_inv_def)

text \<open>The hart and the allocator's lock are ready for a call.\<close>

definition mem_ready :: "nat \<Rightarrow> 'a kmem_scheme \<Rightarrow> bool" where
  "mem_ready h s \<longleftrightarrow> hart_ok h s \<and> free_lock kmem_lock s"

lemma mem_ready_upd [simp]:
  "mem_ready h (s\<lparr>mem := m\<rparr>) = mem_ready h s" "mem_ready h (s\<lparr>freelist := f\<rparr>) = mem_ready h s"
  "mem_ready h (touch h s) = mem_ready h s"
  by (simp_all add: mem_ready_def hart_ok_def free_lock_def)

definition with_mem :: "mem \<Rightarrow> addr \<Rightarrow> 'a kmem_scheme \<Rightarrow> 'a kmem_scheme" where
  "with_mem m f s = s\<lparr>mem := m, freelist := f\<rparr>"

lemma kalloc_spec:
  assumes "mem_ready h s"
  shows "kalloc h s = Some (freelist s,
     if freelist s = 0 then touch h s
     else with_mem (memset (freelist s) 5 (unat PGSIZE) (mem s)) (ld64 (freelist s) (mem s)) (touch h s))"
proof -
  have r: "hart_ok h s" "free_lock kmem_lock s" using assms by (simp_all add: mem_ready_def)
  have 1: "release h kmem_lock (within h kmem_lock s) = Some (touch h s)"
    using release_after [OF r keeps_locks_id] by simp
  have "keeps_locks (\<lambda>t. t\<lparr>freelist := ld64 (freelist s) (mem s)\<rparr>)" by (simp add: keeps_locks_def)
  from release_after [OF r this]
  have 2: "release h kmem_lock ((within h kmem_lock s)\<lparr>freelist := ld64 (freelist s) (mem s)\<rparr>)
      = Some ((touch h s)\<lparr>freelist := ld64 (freelist s) (mem s)\<rparr>)" .
  show ?thesis
    using 1 2 by (simp add: kalloc_def acquire_free [OF r(2)] Let_def with_mem_def)
qed

lemma kfree_spec:
  assumes "mem_ready h s" and "good_page (kend s) pa"
  shows "kfree h pa s
    = Some (with_mem (st64 pa (freelist s) (memset pa 1 (unat PGSIZE) (mem s))) pa (touch h s))"
proof -
  let ?s = "s\<lparr>mem := memset pa 1 (unat PGSIZE) (mem s)\<rparr>"
  have r: "hart_ok h ?s" "free_lock kmem_lock ?s"
    using assms(1) by (simp_all add: mem_ready_def hart_ok_def free_lock_def)
  have "keeps_locks (\<lambda>t. t\<lparr>mem := st64 pa (freelist t) (mem t), freelist := pa\<rparr>)"
    by (simp add: keeps_locks_def)
  from release_after [OF r this] show ?thesis
    using assms(2)
    by (simp add: kfree_def acquire_free [OF r(2)] good_page_def with_mem_def Let_def not_less not_le)
      (simp add: touch_def)
qed

lemma good_pages_apart:
  assumes "good_page e x" and "good_page e y" and "x \<noteq> y"
  shows "pgno x \<noteq> pgno y"
  using assms pgno_inj [of x y] by (auto simp: good_page_def aligned_unat)

subsection \<open>The contract of a page allocator\<close>

text \<open>
  What the clients of \<open>kalloc\<close> and \<open>kfree\<close> rely on: \<open>free s xs\<close> says that \<open>xs\<close> are the free pages and
  the allocator can be called, \<open>look\<close> reads a byte of memory.
\<close>

locale page_allocator =
  fixes alloc :: "'s \<Rightarrow> (addr \<times> 's) option" and dealloc :: "addr \<Rightarrow> 's \<Rightarrow> 's option"
    and free :: "'s \<Rightarrow> addr list \<Rightarrow> bool" and look :: "'s \<Rightarrow> addr \<Rightarrow> uchar" and page :: "'s \<Rightarrow> addr \<Rightarrow> bool"
  assumes free_distinct: "free s xs \<Longrightarrow> distinct xs"
    and free_page: "free s xs \<Longrightarrow> x \<in> set xs \<Longrightarrow> page s x \<and> x \<noteq> 0"
    and alloc_none: "free s [] \<Longrightarrow> \<exists>s'. alloc s = Some (0, s') \<and> free s' [] \<and> look s' = look s"
    and alloc_some: "free s (x # xs) \<Longrightarrow> \<exists>s'. alloc s = Some (x, s') \<and> free s' xs
      \<and> (\<forall>a. pgno a \<noteq> pgno x \<longrightarrow> look s' a = look s a) \<and> page s' = page s"
    and dealloc_ok: "free s xs \<Longrightarrow> page s p \<Longrightarrow> p \<notin> set xs \<Longrightarrow> \<exists>s'. dealloc p s = Some s' \<and> free s' (p # xs)
      \<and> (\<forall>a. pgno a \<noteq> pgno p \<longrightarrow> look s' a = look s a) \<and> page s' = page s"
begin

text \<open>The pages of several calls, as \<open>kalloc\<close>'s clients make them.\<close>

primrec allocs :: "nat \<Rightarrow> 's \<Rightarrow> (addr list \<times> 's) option" where
  "allocs 0 s = Some ([], s)"
| "allocs (Suc n) s = do { (p, s) \<leftarrow> alloc s; (ps, s) \<leftarrow> allocs n s; Some (p # ps, s) }"

lemma allocs_distinct:
  "free s xs \<Longrightarrow> n \<le> length xs \<Longrightarrow> \<exists>s'. allocs n s = Some (take n xs, s') \<and> free s' (drop n xs)
    \<and> (\<forall>a. pgno a \<notin> pgno ` set (take n xs) \<longrightarrow> look s' a = look s a)"
proof (induction n arbitrary: s xs)
  case (Suc n)
  then obtain x ys where xs: "xs = x # ys" "n \<le> length ys" by (cases xs) auto
  obtain s1 where s1: "alloc s = Some (x, s1)" "free s1 ys" "\<forall>a. pgno a \<noteq> pgno x \<longrightarrow> look s1 a = look s a"
    using alloc_some [of s x ys] Suc.prems xs(1) by auto
  from Suc.IH [OF s1(2) xs(2)] obtain s2 where s2: "allocs n s1 = Some (take n ys, s2)" "free s2 (drop n ys)"
    "\<forall>a. pgno a \<notin> pgno ` set (take n ys) \<longrightarrow> look s2 a = look s1 a" by blast
  show ?case using s1 s2 by (auto simp: xs)
qed auto

lemma alloc_after_dealloc:
  assumes "free s xs" and "page s p" and "p \<notin> set xs"
  shows "\<exists>s' s''. dealloc p s = Some s' \<and> alloc s' = Some (p, s'') \<and> free s'' xs
    \<and> (\<forall>a. pgno a \<noteq> pgno p \<longrightarrow> look s'' a = look s a)"
proof -
  obtain s' where s': "dealloc p s = Some s'" "free s' (p # xs)" "\<forall>a. pgno a \<noteq> pgno p \<longrightarrow> look s' a = look s a"
    using dealloc_ok [OF assms] by blast
  with alloc_some [OF s'(2)] show ?thesis by fastforce
qed

end

definition kfree_list :: "nat \<Rightarrow> 'a kmem_scheme \<Rightarrow> addr list \<Rightarrow> bool" where
  "kfree_list h s xs \<longleftrightarrow> mem_ready h s \<and> free_inv s xs"

definition kpage :: "'a kmem_scheme \<Rightarrow> addr \<Rightarrow> bool" where
  "kpage s p = good_page (kend s) p"

interpretation kpa: page_allocator "kalloc h" "kfree h" "kfree_list h" mem kpage for h
proof
  fix s :: "'a kmem_scheme" and xs x p
  show "kfree_list h s xs \<Longrightarrow> distinct xs"
    by (simp add: kfree_list_def free_inv_def)
  show "kfree_list h s xs \<Longrightarrow> x \<in> set xs \<Longrightarrow> kpage s x \<and> x \<noteq> 0"
    by (auto simp: kfree_list_def free_inv_def kpage_def good_page_def)
  show "\<exists>s'. kalloc h s = Some (0, s') \<and> kfree_list h s' [] \<and> mem s' = mem s" if "kfree_list h s []"
    using that by (auto simp: kfree_list_def free_inv_def kalloc_spec)
  show "\<exists>s'. kalloc h s = Some (x, s') \<and> kfree_list h s' xs
      \<and> (\<forall>a. pgno a \<noteq> pgno x \<longrightarrow> mem s' a = mem s a) \<and> kpage s' = kpage s" if *: "kfree_list h s (x # xs)"
  proof -
    have x: "freelist s = x" "x \<noteq> 0" "good_page (kend s) x" "chain (mem s) (ld64 x (mem s)) xs"
      and d: "x \<notin> set xs" "distinct xs" "\<forall>y\<in>set xs. good_page (kend s) y"
      using * by (auto simp: kfree_list_def free_inv_def)
    have al: "unat x mod 4096 = 0" using x(3) by (simp add: good_page_def aligned_unat)
    let ?m = "memset x 5 (unat PGSIZE) (mem s)"
    have m: "?m b = mem s b" if "pgno b \<noteq> pgno x" for b using filled_page [OF al that] .
    have "\<forall>y\<in>set xs. unat y mod 4096 = 0 \<and> pgno y \<noteq> pgno x"
      using d x(3) good_pages_apart [of "kend s" _ x] by (auto simp: good_page_def aligned_unat)
    then have "chain ?m (ld64 x (mem s)) xs" by (rule chain_frame [OF x(4) _ m])
    then show ?thesis
      using * x d m
      by (auto simp: kalloc_spec kfree_list_def free_inv_def with_mem_def kpage_def fun_eq_iff)
  qed
  show "\<exists>s'. kfree h p s = Some s' \<and> kfree_list h s' (p # xs)
      \<and> (\<forall>a. pgno a \<noteq> pgno p \<longrightarrow> mem s' a = mem s a) \<and> kpage s' = kpage s"
    if *: "kfree_list h s xs" and p: "kpage s p" and new: "p \<notin> set xs"
  proof -
    have g: "good_page (kend s) p" "p \<noteq> 0" using p by (simp_all add: kpage_def good_page_def)
    have I: "mem_ready h s" "chain (mem s) (freelist s) xs" "distinct xs" "\<forall>y\<in>set xs. good_page (kend s) y"
      using * by (auto simp: kfree_list_def free_inv_def)
    have al: "unat p mod 4096 = 0" using g(1) by (simp add: good_page_def aligned_unat)
    let ?m = "st64 p (freelist s) (memset p 1 (unat PGSIZE) (mem s))"
    have m: "?m b = mem s b" if "pgno b \<noteq> pgno p" for b
      using filled_page [OF al that] st64_page [OF al that] by simp
    have "\<forall>y\<in>set xs. unat y mod 4096 = 0 \<and> pgno y \<noteq> pgno p"
      using I(4) new g(1) good_pages_apart [of "kend s" _ p] by (auto simp: good_page_def aligned_unat)
    then have "chain ?m (freelist s) xs" by (rule chain_frame [OF I(2) _ m])
    then show ?thesis
      using I g m new kfree_spec [OF I(1) g(1)]
      by (auto simp: kfree_list_def free_inv_def with_mem_def kpage_def fun_eq_iff)
  qed
qed

subsection \<open>Initialisation\<close>

text \<open>The pages \<open>p\<close>, \<open>p + PGSIZE\<close>, ... : \<open>n\<close> of them.\<close>

definition pages_from :: "addr \<Rightarrow> nat \<Rightarrow> addr list" where
  "pages_from p n = map (\<lambda>i. p + of_nat i * PGSIZE) [0..<n]"

lemma pages_from_Suc: "pages_from p (Suc n) = p # pages_from (p + PGSIZE) n"
  unfolding pages_from_def by (simp add: upt_conv_Cons map_upt_shift algebra_simps del: upt_Suc)

lemma unat_page_step:
  assumes "unat p + k * 4096 \<le> unat PHYSTOP" and "i \<le> k"
  shows "unat (p + of_nat i * PGSIZE) = unat p + i * 4096"
proof -
  have b: "unat PHYSTOP = 0x88000000" by (simp add: PHYSTOP_def KERNBASE_def)
  have ik: "i * 4096 \<le> k * 4096" using assms(2) by simp
  then have *: "unat p + i * 4096 < 2 ^ 64" using assms(1) b by simp
  then have "unat (of_nat i * PGSIZE :: addr) = i * 4096"
    using unat_of_nat64 [of "i * 4096"] by (simp add: PGSIZE_def)
  with * show ?thesis by (simp add: unat_plus_if')
qed

lemma freerange_loop_spec:
  fixes s :: "'a kmem_scheme"
  assumes "mem_ready h s" and "free_inv s xs" and "unat p mod 4096 = 0" and "kend s \<le> p" and "p \<noteq> 0"
    and "unat p + n * 4096 \<le> unat PHYSTOP" and "unat PHYSTOP < unat p + Suc n * 4096"
    and "\<forall>x\<in>set xs. x < p" and "n < fuel"
  shows "\<exists>s'. freerange_loop fuel h p PHYSTOP s = Some s' \<and> mem_ready h s'
    \<and> free_inv s' (rev (pages_from p n) @ xs) \<and> kend s' = kend s"
  using assms
proof (induction n arbitrary: s xs p fuel)
  case 0
  then obtain f where f: "fuel = Suc f" by (cases fuel) auto
  have b: "unat PHYSTOP = 0x88000000" by (simp add: PHYSTOP_def KERNBASE_def)
  have "unat (p + PGSIZE) = unat p + 4096"
    using 0(6) b by (simp add: PGSIZE_def unat_plus_if')
  then have "\<not> p + PGSIZE \<le> PHYSTOP" using 0(7) by (simp add: word_le_nat_alt)
  with 0 show ?case by (simp add: f pages_from_def)
next
  case (Suc n)
  then obtain f where f: "fuel = Suc f" "n < f" by (cases fuel) auto
  have b: "unat PHYSTOP = 0x88000000" by (simp add: PHYSTOP_def KERNBASE_def)
  have u: "unat (p + PGSIZE) = unat p + 4096" using unat_page_step [OF Suc.prems(6), of 1] by simp
  have le: "p + PGSIZE \<le> PHYSTOP" using Suc.prems(6) u by (simp add: word_le_nat_alt)
  have g: "kpage s p"
    using Suc.prems(3-6) by (simp add: kpage_def good_page_def aligned_unat word_less_nat_alt)
  have new: "p \<notin> set xs" using Suc.prems(8) by auto
  obtain s1 where s1: "kfree h p s = Some s1" "kfree_list h s1 (p # xs)" "kpage s1 = kpage s"
    using kpa.dealloc_ok [OF _ g new, of h] Suc.prems(1,2) by (auto simp: kfree_list_def)
  have k: "kend s1 = kend s"
    using s1(1) kfree_spec [OF Suc.prems(1), of p] g by (auto simp: kpage_def with_mem_def)
  have lt: "p < p + PGSIZE" using u by (simp add: word_less_nat_alt)
  have "\<exists>s'. freerange_loop f h (p + PGSIZE) PHYSTOP s1 = Some s' \<and> mem_ready h s'
      \<and> free_inv s' (rev (pages_from (p + PGSIZE) n) @ p # xs) \<and> kend s' = kend s1"
  proof (rule Suc.IH)
    show "mem_ready h s1" "free_inv s1 (p # xs)" using s1(2) by (simp_all add: kfree_list_def)
    show "unat (p + PGSIZE) mod 4096 = 0" using u Suc.prems(3) by simp
    show "kend s1 \<le> p + PGSIZE" using k Suc.prems(4) lt by simp
    show "p + PGSIZE \<noteq> 0" using u by (simp flip: unat_eq_0)
    show "unat (p + PGSIZE) + n * 4096 \<le> unat PHYSTOP"
      "unat PHYSTOP < unat (p + PGSIZE) + Suc n * 4096" using u Suc.prems(6,7) by simp_all
    show "\<forall>x\<in>set (p # xs). x < p + PGSIZE" using Suc.prems(8) lt by auto
    show "n < f" by (rule f(2))
  qed
  then show ?case using le s1(1) k by (auto simp: f(1) pages_from_Suc)
qed

lemma clear_low_bits: "(a :: uint64) AND NOT (mask 12) = a - take_bit 12 a"
proof -
  have "a AND NOT (mask 12) = push_bit 12 (drop_bit 12 a)"
    by (rule bit_word_eqI) (auto simp: bit_simps)
  also have "\<dots> = a - take_bit 12 a"
    using bits_ident [of 12 a] by (simp add: eq_diff_eq)
  finally show ?thesis .
qed

lemma unat_PGROUNDDOWN: "unat (PGROUNDDOWN a) = unat a - unat a mod 4096"
proof -
  have t: "unat (take_bit 12 a) = unat a mod 4096"
    by (simp add: take_bit_eq_mod unat_mod)
  then have "take_bit 12 a \<le> a" by (simp add: word_le_nat_alt)
  moreover have "PGSIZE - 1 = mask 12" by (simp add: PGSIZE_def mask_eq_exp_minus_1)
  ultimately show ?thesis unfolding PGROUNDDOWN_def
    by (simp add: clear_low_bits unat_sub t)
qed

lemma unat_PGROUNDUP:
  assumes "a \<le> PHYSTOP"
  shows "unat (PGROUNDUP a) = (unat a + 4095) div 4096 * 4096"
proof -
  have "unat a \<le> 0x88000000" using assms by (simp add: word_le_nat_alt PHYSTOP_def KERNBASE_def)
  then have "unat (a + PGSIZE - 1) = unat a + 4095" by (simp add: PGSIZE_def unat_plus_if')
  moreover have "PGROUNDUP a = PGROUNDDOWN (a + PGSIZE - 1)" by (simp add: PGROUNDUP_def PGROUNDDOWN_def)
  ultimately show ?thesis by (simp add: unat_PGROUNDDOWN minus_mod_eq_div_mult)
qed

subsection \<open>Properties\<close>

text \<open>
  C30. \<open>kalloc\<close> hands out a free page, never one that is in use: it returns the head of the free list,
  which leaves the list; the other free pages and the contents of every other page are untouched; it
  returns 0 exactly when no page is free. \<open>kfree\<close> of a page in use makes it free again, and the next
  \<open>kalloc\<close> returns it.
\<close>

theorem page_allocator_correct:
  fixes s :: "'a kmem_scheme"
  assumes "kfree_list h s xs"
  shows "(\<exists>s'. kalloc h s = Some (case xs of [] \<Rightarrow> 0 | x # _ \<Rightarrow> x, s') \<and> kfree_list h s' (tl xs)
      \<and> (\<forall>a. (\<forall>x. xs \<noteq> [] \<longrightarrow> x = hd xs \<longrightarrow> pgno a \<noteq> pgno x) \<longrightarrow> mem s' a = mem s a))
    \<and> (\<forall>p. kpage s p \<longrightarrow> p \<notin> set xs \<longrightarrow> (\<exists>s' s''. kfree h p s = Some s' \<and> kfree_list h s' (p # xs)
        \<and> kalloc h s' = Some (p, s'') \<and> kfree_list h s'' xs \<and> (\<forall>a. pgno a \<noteq> pgno p \<longrightarrow> mem s'' a = mem s a)))
    \<and> (\<forall>x\<in>set xs. kpage s x \<and> x \<noteq> 0) \<and> distinct xs"
proof -
  have "\<exists>s'. kalloc h s = Some (case xs of [] \<Rightarrow> 0 | x # _ \<Rightarrow> x, s') \<and> kfree_list h s' (tl xs)
      \<and> (\<forall>a. (\<forall>x. xs \<noteq> [] \<longrightarrow> x = hd xs \<longrightarrow> pgno a \<noteq> pgno x) \<longrightarrow> mem s' a = mem s a)"
    using kpa.alloc_none [of h s] kpa.alloc_some [of h s] assms by (cases xs) fastforce+
  moreover have "\<exists>s' s''. kfree h p s = Some s' \<and> kfree_list h s' (p # xs)
        \<and> kalloc h s' = Some (p, s'') \<and> kfree_list h s'' xs \<and> (\<forall>a. pgno a \<noteq> pgno p \<longrightarrow> mem s'' a = mem s a)"
    if "kpage s p" "p \<notin> set xs" for p
    using kpa.alloc_after_dealloc [OF assms that] kpa.dealloc_ok [OF assms that] by fastforce
  ultimately show ?thesis
    using kpa.free_page [OF assms] kpa.free_distinct [OF assms] by blast
qed

text \<open>
  After \<open>kinit\<close>, every whole page between the end of the kernel and \<open>PHYSTOP\<close> is free, once, and
  nothing else is. The model's loop bound is never reached.
\<close>
theorem kinit_correct:
  fixes s :: "'a kmem_scheme"
  assumes "hart_ok h s" and "freelist s = 0" and "kend s \<noteq> 0" and "kend s \<le> PHYSTOP"
  shows "\<exists>s'. kinit h s = Some s' \<and> kfree_list h s'
    (rev (pages_from (PGROUNDUP (kend s)) ((unat PHYSTOP - unat (PGROUNDUP (kend s))) div 4096)))"
proof -
  let ?p = "PGROUNDUP (kend s)" and ?n = "(unat PHYSTOP - unat (PGROUNDUP (kend s))) div 4096"
  let ?s = "initlock kmem_lock ''kmem'' s"
  have b: "unat PHYSTOP = 4096 * 0x88000" by (simp add: PHYSTOP_def KERNBASE_def)
  have u: "unat ?p = (unat (kend s) + 4095) div 4096 * 4096" by (rule unat_PGROUNDUP [OF assms(4)])
  have k: "0 < unat (kend s)" "unat (kend s) \<le> 4096 * 0x88000"
    using assms(3,4) b by (simp_all add: word_le_nat_alt unat_gt_0)
  have p: "unat ?p mod 4096 = 0" "unat (kend s) \<le> unat ?p" "unat ?p \<noteq> 0" "unat ?p \<le> unat PHYSTOP"
    using k b unfolding u by auto
  have n: "unat ?p + ?n * 4096 \<le> unat PHYSTOP" "unat PHYSTOP < unat ?p + Suc ?n * 4096"
    using p(4) by auto
  have "\<exists>s'. freerange_loop (Suc (unat PHYSTOP)) h ?p PHYSTOP ?s = Some s' \<and> mem_ready h s'
      \<and> free_inv s' (rev (pages_from ?p ?n) @ []) \<and> kend s' = kend ?s"
  proof (rule freerange_loop_spec)
    show "mem_ready h ?s" using assms(1) by (simp add: mem_ready_def hart_ok_def free_lock_def initlock_def)
    show "free_inv ?s []" using assms(2) by (simp add: free_inv_def initlock_def)
    show "kend ?s \<le> ?p" using p(2) by (simp add: initlock_def word_le_nat_alt)
    show "?p \<noteq> 0" using p(3) by auto
    show "?n < Suc (unat PHYSTOP)" by (meson div_le_dividend diff_le_self le_trans less_Suc_eq_le)
  qed (use p n in simp_all)
  then show ?thesis
    by (auto simp: kinit_def freerange_def kfree_list_def initlock_def)
qed

text \<open>A machine whose kernel ends two pages below the top of memory.\<close>

definition kmem0 :: kmem where
  "kmem0 = ksem.extend (ksem0 (-1)) \<lparr>mem = (\<lambda>_. 0), freelist = 0, kend = 0x87ffe000\<rparr>"

lemma kmem0_ok: "hart_ok h kmem0" "freelist kmem0 = 0" "kend kmem0 = 0x87ffe000"
  by (simp_all add: kmem0_def ksem.defs ksem0_def kproc.defs hart_ok_def)

lemma kmem0_two: "kfree_list 0 (with_mem (st64 0x87fff000 0x87ffe000 (\<lambda>_. 0)) 0x87fff000 kmem0) [0x87fff000, 0x87ffe000]"
proof -
  have "ld64 0x87ffe000 (st64 0x87fff000 0x87ffe000 (\<lambda>_. 0)) = 0"
    by (simp add: ld64_def st64_def)
  then show ?thesis
    by (simp add: kfree_list_def mem_ready_def with_mem_def free_inv_def good_page_def PGSIZE_def
        PHYSTOP_def KERNBASE_def kmem0_def ksem.defs ksem0_def kproc.defs hart_ok_def free_lock_def
        kproc0_def kcpu.defs kcpu0_def)
qed

theorem kinit_correct_witness: "\<exists>s'. kinit 0 kmem0 = Some s' \<and> kfree_list 0 s' [0x87fff000, 0x87ffe000]"
proof -
  have "unat PHYSTOP = 0x88000000" "PGROUNDUP 0x87ffe000 = 0x87ffe000" "kend kmem0 \<le> PHYSTOP"
    by (simp_all add: PHYSTOP_def KERNBASE_def PGROUNDUP_def PGSIZE_def kmem0_ok)
  moreover have "pages_from 0x87ffe000 2 = [0x87ffe000, 0x87fff000]"
    by (simp add: pages_from_def numeral_2_eq_2 PGSIZE_def)
  ultimately show ?thesis
    using kinit_correct [OF kmem0_ok(1,2), of 0] by (simp add: kmem0_ok)
qed

theorem page_allocator_correct_witness:
  "\<exists>s'. kalloc 0 (with_mem (st64 0x87fff000 0x87ffe000 (\<lambda>_. 0)) 0x87fff000 kmem0) = Some (0x87fff000, s')
    \<and> kfree_list 0 s' [0x87ffe000]"
  using page_allocator_correct [OF kmem0_two] by auto

end
