(* ===== verification/Vm.thy ===== *)
theory Vm
  imports Kalloc
begin

text \<open>
  \<open>labo2/kernel/vm.c\<close>: the three-level page tables of Sv39 in physical memory (the copying between
  kernel and user memory is in theory \<open>Ucopy\<close>). A page table is the address of its root page; an entry is the 64-bit word
  in memory. A result \<open>0\<close> of type \<open>addr\<close> is the null pointer of the source; \<open>-1\<close> and \<open>0\<close> of type
  \<open>int\<close> are its error codes. Loops over addresses are partial functions, since an address can wrap
  around.
\<close>

subsection \<open>Page table entries\<close>

definition PTE_V :: uint64 where "PTE_V = push_bit 0 1"
definition PTE_R :: uint64 where "PTE_R = push_bit 1 1"
definition PTE_W :: uint64 where "PTE_W = push_bit 2 1"
definition PTE_X :: uint64 where "PTE_X = push_bit 3 1"
definition PTE_U :: uint64 where "PTE_U = push_bit 4 1"

definition PA2PTE :: "addr \<Rightarrow> uint64" where "PA2PTE pa = push_bit 10 (drop_bit 12 pa)"
definition PTE2PA :: "uint64 \<Rightarrow> addr" where "PTE2PA pte = push_bit 12 (drop_bit 10 pte)"
definition PTE_FLAGS :: "uint64 \<Rightarrow> uint64" where "PTE_FLAGS pte = pte AND 0x3FF"
definition PX :: "nat \<Rightarrow> addr \<Rightarrow> uint64" where "PX level va = drop_bit (12 + 9 * level) va AND 0x1FF"

text \<open>\<open>&pagetable[i]\<close>\<close>

definition pte_at :: "addr \<Rightarrow> uint64 \<Rightarrow> addr" where
  "pte_at pagetable i = pagetable + 8 * i"

record kvm = kmem +
  kernel_pagetable :: addr
  etext :: addr
  trampoline :: addr

subsection \<open>Walking and mapping\<close>

text \<open>One round of the loop in \<open>walk\<close>: the next page table, or \<open>None\<close> for \<open>return 0\<close>.\<close>

definition walk_level ::
  "nat \<Rightarrow> nat \<Rightarrow> addr \<Rightarrow> addr \<Rightarrow> bool \<Rightarrow> 'a kmem_scheme \<Rightarrow> (addr option \<times> 'a kmem_scheme) option" where
  "walk_level h level pagetable va alloc s = do {
     let pte = pte_at pagetable (PX level va);
     if ld64 pte (mem s) AND PTE_V \<noteq> 0 then Some (Some (PTE2PA (ld64 pte (mem s))), s)
     else if \<not> alloc then Some (None, s)
     else do {
       (pagetable, s) \<leftarrow> kalloc h s;
       if pagetable = 0 then Some (None, s)
       else do {
         let s = s\<lparr>mem := memset pagetable 0 (unat PGSIZE) (mem s)\<rparr>;
         Some (Some pagetable, s\<lparr>mem := st64 pte (PA2PTE pagetable OR PTE_V) (mem s)\<rparr>) } } }"

definition walk :: "nat \<Rightarrow> addr \<Rightarrow> addr \<Rightarrow> bool \<Rightarrow> 'a kmem_scheme \<Rightarrow> (addr \<times> 'a kmem_scheme) option" where
  "walk h pagetable va alloc s =
     (if va \<ge> MAXVA then None
      else do {
        (r, s) \<leftarrow> walk_level h 2 pagetable va alloc s;
        case r of None \<Rightarrow> Some (0, s) | Some pagetable \<Rightarrow> do {
          (r, s) \<leftarrow> walk_level h 1 pagetable va alloc s;
          case r of None \<Rightarrow> Some (0, s) | Some pagetable \<Rightarrow> Some (pte_at pagetable (PX 0 va), s) } })"

definition walkaddr :: "nat \<Rightarrow> addr \<Rightarrow> addr \<Rightarrow> 'a kmem_scheme \<Rightarrow> addr option" where
  "walkaddr h pagetable va s =
     (if va \<ge> MAXVA then Some 0
      else do {
        (pte, s) \<leftarrow> walk h pagetable va False s;
        if pte = 0 then Some 0
        else if ld64 pte (mem s) AND PTE_V = 0 then Some 0
        else if ld64 pte (mem s) AND PTE_U = 0 then Some 0
        else Some (PTE2PA (ld64 pte (mem s))) })"

partial_function (option) mappages_loop ::
  "nat \<Rightarrow> addr \<Rightarrow> addr \<Rightarrow> addr \<Rightarrow> addr \<Rightarrow> uint64 \<Rightarrow> 'a kmem_scheme \<Rightarrow> (int \<times> 'a kmem_scheme) option" where
  "mappages_loop h pagetable a lst pa perm s =
     Option.bind (walk h pagetable a True s) (\<lambda>(pte, s).
       if pte = 0 then Some (-1, s)
       else if ld64 pte (mem s) AND PTE_V \<noteq> 0 then None
       else let s = s\<lparr>mem := st64 pte (PA2PTE pa OR perm OR PTE_V) (mem s)\<rparr> in
         if a = lst then Some (0, s)
         else mappages_loop h pagetable (a + PGSIZE) lst (pa + PGSIZE) perm s)"

definition mappages ::
  "nat \<Rightarrow> addr \<Rightarrow> addr \<Rightarrow> uint64 \<Rightarrow> addr \<Rightarrow> uint64 \<Rightarrow> 'a kmem_scheme \<Rightarrow> (int \<times> 'a kmem_scheme) option" where
  "mappages h pagetable va sz pa perm s =
     (if sz = 0 then None
      else mappages_loop h pagetable (PGROUNDDOWN va) (PGROUNDDOWN (va + sz - 1)) pa perm s)"

definition kvmmap :: "nat \<Rightarrow> addr \<Rightarrow> addr \<Rightarrow> addr \<Rightarrow> uint64 \<Rightarrow> uint64 \<Rightarrow> 'a kmem_scheme \<Rightarrow> 'a kmem_scheme option" where
  "kvmmap h kpgtbl va pa sz perm s = do {
     (r, s) \<leftarrow> mappages h kpgtbl va sz pa perm s;
     if r \<noteq> 0 then None else Some s }"

partial_function (option) uvmunmap_loop ::
  "nat \<Rightarrow> addr \<Rightarrow> addr \<Rightarrow> addr \<Rightarrow> bool \<Rightarrow> 'a kmem_scheme \<Rightarrow> 'a kmem_scheme option" where
  "uvmunmap_loop h pagetable a stop do_free s =
     (if a < stop then
        Option.bind (walk h pagetable a False s) (\<lambda>(pte, s).
          if pte = 0 then None
          else if ld64 pte (mem s) AND PTE_V = 0 then None
          else if PTE_FLAGS (ld64 pte (mem s)) = PTE_V then None
          else Option.bind (if do_free then kfree h (PTE2PA (ld64 pte (mem s))) s else Some s) (\<lambda>s.
            uvmunmap_loop h pagetable (a + PGSIZE) stop do_free (s\<lparr>mem := st64 pte 0 (mem s)\<rparr>)))
      else Some s)"

definition uvmunmap :: "nat \<Rightarrow> addr \<Rightarrow> addr \<Rightarrow> uint64 \<Rightarrow> bool \<Rightarrow> 'a kmem_scheme \<Rightarrow> 'a kmem_scheme option" where
  "uvmunmap h pagetable va npages do_free s =
     (if va mod PGSIZE \<noteq> 0 then None
      else uvmunmap_loop h pagetable va (va + npages * PGSIZE) do_free s)"

subsection \<open>The kernel's own page table\<close>

definition UART0 :: addr where "UART0 = 0x10000000"
definition VIRTIO0 :: addr where "VIRTIO0 = 0x10001000"
definition PLIC :: addr where "PLIC = 0x0c000000"

definition mapstack :: "nat \<Rightarrow> addr \<Rightarrow> nat \<Rightarrow> 'a kmem_scheme \<Rightarrow> 'a kmem_scheme option" where
  "mapstack h kpgtbl p s = do {
     (pa, s) \<leftarrow> kalloc h s;
     if pa = 0 then None else kvmmap h kpgtbl (KSTACK p) pa PGSIZE (PTE_R OR PTE_W) s }"

definition proc_mapstacks :: "nat \<Rightarrow> addr \<Rightarrow> 'a kmem_scheme \<Rightarrow> 'a kmem_scheme option" where
  "proc_mapstacks h kpgtbl s = forM (mapstack h kpgtbl) [0..<NPROC] s"

definition kvmmake :: "nat \<Rightarrow> 'a kvm_scheme \<Rightarrow> (addr \<times> 'a kvm_scheme) option" where
  "kvmmake h s = do {
     (kpgtbl, s) \<leftarrow> kalloc h s;
     let s = s\<lparr>mem := memset kpgtbl 0 (unat PGSIZE) (mem s)\<rparr>;
     s \<leftarrow> kvmmap h kpgtbl UART0 UART0 PGSIZE (PTE_R OR PTE_W) s;
     s \<leftarrow> kvmmap h kpgtbl VIRTIO0 VIRTIO0 PGSIZE (PTE_R OR PTE_W) s;
     s \<leftarrow> kvmmap h kpgtbl PLIC PLIC 0x400000 (PTE_R OR PTE_W) s;
     s \<leftarrow> kvmmap h kpgtbl KERNBASE KERNBASE (etext s - KERNBASE) (PTE_R OR PTE_X) s;
     s \<leftarrow> kvmmap h kpgtbl (etext s) (etext s) (PHYSTOP - etext s) (PTE_R OR PTE_W) s;
     s \<leftarrow> kvmmap h kpgtbl TRAMPOLINE (trampoline s) PGSIZE (PTE_R OR PTE_X) s;
     s \<leftarrow> proc_mapstacks h kpgtbl s;
     Some (kpgtbl, s) }"

definition kvminit :: "nat \<Rightarrow> 'a kvm_scheme \<Rightarrow> 'a kvm_scheme option" where
  "kvminit h s = do { (k, s) \<leftarrow> kvmmake h s; Some (s\<lparr>kernel_pagetable := k\<rparr>) }"

subsection \<open>User memory\<close>

definition uvmcreate :: "nat \<Rightarrow> 'a kmem_scheme \<Rightarrow> (addr \<times> 'a kmem_scheme) option" where
  "uvmcreate h s = do {
     (pagetable, s) \<leftarrow> kalloc h s;
     if pagetable = 0 then Some (0, s)
     else Some (pagetable, s\<lparr>mem := memset pagetable 0 (unat PGSIZE) (mem s)\<rparr>) }"

definition uvmfirst :: "nat \<Rightarrow> addr \<Rightarrow> addr \<Rightarrow> nat \<Rightarrow> 'a kmem_scheme \<Rightarrow> 'a kmem_scheme option" where
  "uvmfirst h pagetable src sz s =
     (if sz \<ge> unat PGSIZE then None
      else do {
        (m, s) \<leftarrow> kalloc h s;
        let s = s\<lparr>mem := memset m 0 (unat PGSIZE) (mem s)\<rparr>;
        (_, s) \<leftarrow> mappages h pagetable 0 PGSIZE m (PTE_W OR PTE_R OR PTE_X OR PTE_U) s;
        Some (s\<lparr>mem := memmove m src sz (mem s)\<rparr>) })"

definition uvmdealloc :: "nat \<Rightarrow> addr \<Rightarrow> uint64 \<Rightarrow> uint64 \<Rightarrow> 'a kmem_scheme \<Rightarrow> (uint64 \<times> 'a kmem_scheme) option" where
  "uvmdealloc h pagetable oldsz newsz s =
     (if newsz \<ge> oldsz then Some (oldsz, s)
      else do {
        s \<leftarrow> (if PGROUNDUP newsz < PGROUNDUP oldsz then
                (let npages = scast (ucast ((PGROUNDUP oldsz - PGROUNDUP newsz) div PGSIZE) :: cint) in
                 uvmunmap h pagetable (PGROUNDUP newsz) npages True s)
              else Some s);
        Some (newsz, s) })"

partial_function (option) uvmalloc_loop ::
  "nat \<Rightarrow> addr \<Rightarrow> addr \<Rightarrow> uint64 \<Rightarrow> uint64 \<Rightarrow> uint64 \<Rightarrow> 'a kmem_scheme \<Rightarrow> (uint64 \<times> 'a kmem_scheme) option" where
  "uvmalloc_loop h pagetable a oldsz newsz xperm s =
     (if a < newsz then
        Option.bind (kalloc h s) (\<lambda>(m, s).
          if m = 0 then Option.bind (uvmdealloc h pagetable a oldsz s) (\<lambda>(_, s). Some (0, s))
          else Option.bind (mappages h pagetable a PGSIZE m (PTE_R OR PTE_U OR xperm)
              (s\<lparr>mem := memset m 0 (unat PGSIZE) (mem s)\<rparr>)) (\<lambda>(r, s).
            if r \<noteq> 0 then Option.bind (kfree h m s) (\<lambda>s.
              Option.bind (uvmdealloc h pagetable a oldsz s) (\<lambda>(_, s). Some (0, s)))
            else uvmalloc_loop h pagetable (a + PGSIZE) oldsz newsz xperm s))
      else Some (newsz, s))"

definition uvmalloc ::
  "nat \<Rightarrow> addr \<Rightarrow> uint64 \<Rightarrow> uint64 \<Rightarrow> uint64 \<Rightarrow> 'a kmem_scheme \<Rightarrow> (uint64 \<times> 'a kmem_scheme) option" where
  "uvmalloc h pagetable oldsz newsz xperm s =
     (if newsz < oldsz then Some (oldsz, s)
      else uvmalloc_loop h pagetable (PGROUNDUP oldsz) (PGROUNDUP oldsz) newsz xperm s)"

text \<open>\<open>freewalk\<close>, from entry \<open>i\<close> of the page table on.\<close>

partial_function (option) freewalk_from :: "nat \<Rightarrow> nat \<Rightarrow> addr \<Rightarrow> 'a kmem_scheme \<Rightarrow> 'a kmem_scheme option" where
  "freewalk_from h i pagetable s =
     (if i < 512 then
        let pte = ld64 (pte_at pagetable (of_nat i)) (mem s) in
        if pte AND PTE_V \<noteq> 0 \<and> pte AND (PTE_R OR PTE_W OR PTE_X) = 0 then
          Option.bind (freewalk_from h 0 (PTE2PA pte) s) (\<lambda>s.
            freewalk_from h (Suc i) pagetable (s\<lparr>mem := st64 (pte_at pagetable (of_nat i)) 0 (mem s)\<rparr>))
        else if pte AND PTE_V \<noteq> 0 then None
        else freewalk_from h (Suc i) pagetable s
      else kfree h pagetable s)"

definition freewalk :: "nat \<Rightarrow> addr \<Rightarrow> 'a kmem_scheme \<Rightarrow> 'a kmem_scheme option" where
  "freewalk h pagetable s = freewalk_from h 0 pagetable s"

definition uvmfree :: "nat \<Rightarrow> addr \<Rightarrow> uint64 \<Rightarrow> 'a kmem_scheme \<Rightarrow> 'a kmem_scheme option" where
  "uvmfree h pagetable sz s = do {
     s \<leftarrow> (if sz > 0 then uvmunmap h pagetable 0 (PGROUNDUP sz div PGSIZE) True s else Some s);
     freewalk h pagetable s }"

partial_function (option) uvmcopy_loop ::
  "nat \<Rightarrow> addr \<Rightarrow> addr \<Rightarrow> addr \<Rightarrow> uint64 \<Rightarrow> 'a kmem_scheme \<Rightarrow> (int \<times> 'a kmem_scheme) option" where
  "uvmcopy_loop h old new i sz s =
     (if i < sz then
        Option.bind (walk h old i False s) (\<lambda>(pte, s).
          if pte = 0 then None
          else if ld64 pte (mem s) AND PTE_V = 0 then None
          else let pa = PTE2PA (ld64 pte (mem s)); flags = PTE_FLAGS (ld64 pte (mem s)) in
            Option.bind (kalloc h s) (\<lambda>(m, s).
              if m = 0 then Option.bind (uvmunmap h new 0 (i div PGSIZE) True s) (\<lambda>s. Some (-1, s))
              else Option.bind (mappages h new i PGSIZE m flags
                  (s\<lparr>mem := memmove m pa (unat PGSIZE) (mem s)\<rparr>)) (\<lambda>(r, s).
                if r \<noteq> 0 then Option.bind (kfree h m s) (\<lambda>s.
                  Option.bind (uvmunmap h new 0 (i div PGSIZE) True s) (\<lambda>s. Some (-1, s)))
                else uvmcopy_loop h old new (i + PGSIZE) sz s)))
      else Some (0, s))"

definition uvmcopy :: "nat \<Rightarrow> addr \<Rightarrow> addr \<Rightarrow> uint64 \<Rightarrow> 'a kmem_scheme \<Rightarrow> (int \<times> 'a kmem_scheme) option" where
  "uvmcopy h old new sz s = uvmcopy_loop h old new 0 sz s"

definition uvmclear :: "nat \<Rightarrow> addr \<Rightarrow> addr \<Rightarrow> 'a kmem_scheme \<Rightarrow> 'a kmem_scheme option" where
  "uvmclear h pagetable va s = do {
     (pte, s) \<leftarrow> walk h pagetable va False s;
     if pte = 0 then None
     else Some (s\<lparr>mem := st64 pte (ld64 pte (mem s) AND NOT PTE_U) (mem s)\<rparr>) }"

subsection \<open>Lemmas: entries\<close>

lemma PTE_consts: "PTE_V = 1" "PTE_U = 16" "PTE_R = 2" "PTE_W = 4" "PTE_X = 8"
  by (simp_all add: PTE_V_def PTE_U_def PTE_R_def PTE_W_def PTE_X_def)

lemma bit_flags: "take_bit 10 (f :: uint64) = f \<Longrightarrow> 10 \<le> n \<Longrightarrow> \<not> bit f n"
  by (metis bit_take_bit_iff linorder_not_less)

lemma bit_aligned: "unat (pa :: uint64) mod 4096 = 0 \<Longrightarrow> n < 12 \<Longrightarrow> \<not> bit pa n"
proof -
  assume "unat pa mod 4096 = 0" "n < 12"
  then have "take_bit 12 (unat pa) = 0" by (simp add: take_bit_eq_mod)
  then have "\<not> bit (take_bit 12 (unat pa)) n" by simp
  with \<open>n < 12\<close> show ?thesis by (simp add: bit_take_bit_iff bit_unsigned_iff)
qed

text \<open>The physical address survives the trip into an entry and back.\<close>

lemma PTE2PA_PA2PTE:
  assumes "unat pa mod 4096 = 0" and "take_bit 10 f = f"
  shows "PTE2PA (PA2PTE pa OR f) = pa"
proof (rule bit_word_eqI)
  fix n assume "n < LENGTH(64)"
  show "bit (PTE2PA (PA2PTE pa OR f)) n = bit pa n"
  proof (cases "n < 12")
    case True
    then show ?thesis using bit_aligned [OF assms(1)] by (simp add: PTE2PA_def bit_simps)
  next
    case False
    then have "\<not> bit f (n - 2)" using bit_flags [OF assms(2)] by simp
    with False \<open>n < LENGTH(64)\<close> show ?thesis
      by (simp add: PTE2PA_def PA2PTE_def bit_simps) linarith
  qed
qed

lemma PTE2PA_aligned: "unat (PTE2PA pte) mod 4096 = 0"
proof -
  have "take_bit 12 (PTE2PA pte) = 0" by (simp add: PTE2PA_def take_bit_push_bit)
  then have "PTE2PA pte mod 4096 = 0" by (simp add: take_bit_eq_mod)
  then show ?thesis using aligned_unat [of "PTE2PA pte"] by (simp add: PGSIZE_def)
qed

lemma valid_or: "(x OR PTE_V) AND PTE_V \<noteq> 0"
proof -
  have "bit ((x OR PTE_V) AND PTE_V) 0" by (simp add: PTE_V_def bit_simps)
  then show ?thesis by auto
qed

lemma PX_less: "unat (PX l va) < 512"
proof -
  have "PX l va = take_bit 9 (drop_bit (12 + 9 * l) va)"
    by (simp add: PX_def take_bit_eq_mask mask_eq_exp_minus_1)
  then have "unat (PX l va) = take_bit 9 (unat (drop_bit (12 + 9 * l) va))"
    by (simp add: unsigned_take_bit_eq)
  then show ?thesis using take_bit_nat_less_exp [of 9] by simp
qed

lemma pte_bytes:
  assumes "unat pt mod 4096 = 0" and "unat i < 512" and "j < 8"
  shows "pgno (pte_at pt i + of_nat j) = pgno pt"
proof -
  have "pte_at pt i + of_nat j = pt + of_nat (8 * unat i + j)"
    by (simp add: pte_at_def)
  moreover have "8 * unat i + j < 4096" using assms(2,3) by simp
  ultimately show ?thesis using pgno_offset [OF assms(1)] by (simp only:)
qed

lemma ld64_pte:
  assumes "unat pt mod 4096 = 0" and "unat i < 512" and "\<And>b. pgno b = pgno pt \<Longrightarrow> m b = m' b"
  shows "ld64 (pte_at pt i) m = ld64 (pte_at pt i) m'"
  by (rule ld64_cong) (use pte_bytes [OF assms(1,2)] assms(3) in blast)

lemma st64_pte:
  assumes "unat pt mod 4096 = 0" and "unat i < 512" and "pgno b \<noteq> pgno pt"
  shows "st64 (pte_at pt i) v m b = m b"
  by (rule st64_other) (use pte_bytes [OF assms(1,2)] assms(3) in blast)

lemma zero_page:
  assumes "unat pt mod 4096 = 0" and "pgno b = pgno pt"
  shows "memset pt 0 (unat PGSIZE) m b = 0"
proof -
  have "unat b div 4096 = unat pt div 4096" using assms(2) by (simp add: pgno_def)
  then have "unat pt \<le> unat b" "unat b - unat pt < 4096"
    using assms(1) mult_div_mod_eq [of 4096 "unat b"] mult_div_mod_eq [of 4096 "unat pt"]
      mod_less_divisor [of 4096 "unat b"] by linarith+
  then have "unat (b - pt) < 4096" by (simp add: unat_sub word_le_nat_alt)
  then show ?thesis by (simp add: memset_def memset_spec PGSIZE_def filled_def)
qed

lemma ld64_zero: "(\<And>j. j < 8 \<Longrightarrow> m (a + of_nat j) = 0) \<Longrightarrow> ld64 a m = 0"
  using ld64_cong [of m a "\<lambda>_. 0"] by (simp add: ld64_def)

subsection \<open>A page table in memory\<close>

text \<open>
  What the entries of a page table say: \<open>sub m q i\<close> is the page that entry \<open>i\<close> of the table at \<open>q\<close>
  points to, \<open>leaf m pt (i, j)\<close> the last-level table for the two upper indices, \<open>translate m pt va\<close> the
  valid last-level entry of an address.
\<close>

definition sub :: "mem \<Rightarrow> addr \<Rightarrow> uint64 \<Rightarrow> addr option" where
  "sub m q i = (let e = ld64 (pte_at q i) m in if e AND PTE_V = 0 then None else Some (PTE2PA e))"

definition leaf :: "mem \<Rightarrow> addr \<Rightarrow> uint64 \<times> uint64 \<Rightarrow> addr option" where
  "leaf m pt ij = Option.bind (sub m pt (fst ij)) (\<lambda>q. sub m q (snd ij))"

definition entry :: "mem \<Rightarrow> addr \<Rightarrow> uint64 \<Rightarrow> uint64 option" where
  "entry m q i = (let e = ld64 (pte_at q i) m in if e AND PTE_V = 0 then None else Some e)"

definition upper :: "addr \<Rightarrow> uint64 \<times> uint64" where
  "upper va = (PX 2 va, PX 1 va)"

definition translate :: "mem \<Rightarrow> addr \<Rightarrow> addr \<Rightarrow> uint64 option" where
  "translate m pt va = Option.bind (leaf m pt (upper va)) (\<lambda>r. entry m r (PX 0 va))"

definition index_pairs :: "(uint64 \<times> uint64) set" where
  "index_pairs = {(i, j). unat i < 512 \<and> unat j < 512}"

text \<open>
  The tables form a tree: every table of the three levels lies in a page of its own, which is not one
  of \<open>F\<close> (the free pages, and page 0).
\<close>

definition pt_wf :: "mem \<Rightarrow> addr \<Rightarrow> nat set \<Rightarrow> bool" where
  "pt_wf m pt F \<longleftrightarrow> unat pt mod 4096 = 0 \<and> pgno pt \<notin> F
     \<and> (\<forall>i q. unat i < 512 \<longrightarrow> sub m pt i = Some q \<longrightarrow> pgno q \<notin> F \<and> q \<noteq> pt)
     \<and> (\<forall>i i' q. unat i < 512 \<longrightarrow> unat i' < 512 \<longrightarrow> sub m pt i = Some q \<longrightarrow> sub m pt i' = Some q \<longrightarrow> i = i')
     \<and> (\<forall>ij\<in>index_pairs. \<forall>r. leaf m pt ij = Some r \<longrightarrow> pgno r \<notin> F \<and> r \<noteq> pt
          \<and> (\<forall>i. unat i < 512 \<longrightarrow> sub m pt i \<noteq> Some r))
     \<and> (\<forall>ij\<in>index_pairs. \<forall>ij'\<in>index_pairs. \<forall>r. leaf m pt ij = Some r \<longrightarrow> leaf m pt ij' = Some r \<longrightarrow> ij = ij')"

lemma upper_pairs [simp]: "upper va \<in> index_pairs"
  by (simp add: upper_def index_pairs_def PX_less)

lemma sub_entry: "sub m q i = map_option PTE2PA (entry m q i)"
  by (simp add: sub_def entry_def Let_def)

lemma sub_aligned: "sub m q i = Some r \<Longrightarrow> unat r mod 4096 = 0"
  by (auto simp: sub_def Let_def PTE2PA_aligned split: if_splits)

lemma leaf_aligned: "leaf m pt ij = Some r \<Longrightarrow> unat r mod 4096 = 0"
  by (auto simp: leaf_def sub_aligned split: bind_splits)

lemma entry_page:
  assumes "unat q mod 4096 = 0" and "unat i < 512" and "\<And>b. pgno b = pgno q \<Longrightarrow> m' b = m b"
  shows "entry m' q i = entry m q i"
  using ld64_pte [OF assms(1,2), of m' m] assms(3) by (simp add: entry_def)

lemma entry_zero:
  assumes "unat q mod 4096 = 0" and "unat i < 512" and "\<And>b. pgno b = pgno q \<Longrightarrow> m b = 0"
  shows "entry m q i = None"
  using ld64_zero [of m "pte_at q i"] pte_bytes [OF assms(1,2)] assms(3) by (simp add: entry_def)

lemma pte_apart:
  assumes "unat q mod 4096 = 0" and "unat i < 512" and "unat i' < 512" and "i \<noteq> i'" and "j < 8" and "k < 8"
  shows "pte_at q i + of_nat j \<noteq> pte_at q i' + of_nat k"
proof
  assume "pte_at q i + of_nat j = pte_at q i' + of_nat k"
  then have "of_nat (8 * unat i + j) = (of_nat (8 * unat i' + k) :: uint64)"
    by (simp add: pte_at_def)
  moreover have "8 * unat i + j < 2 ^ 64" "8 * unat i' + k < 2 ^ 64" using assms(2-6) by simp_all
  ultimately have "8 * unat i + j = 8 * unat i' + k" by (metis unat_of_nat64)
  with assms(5,6) have "unat i = unat i'" by presburger
  with assms(4) show False by (simp add: unat_inject)
qed

lemma entry_store:
  assumes "unat q mod 4096 = 0" and "unat i < 512" and "unat i' < 512"
  shows "entry (st64 (pte_at q i) v m) q i'
    = (if i' = i then if v AND PTE_V = 0 then None else Some v else entry m q i')"
proof (cases "i' = i")
  case False
  have "ld64 (pte_at q i') (st64 (pte_at q i) v m) = ld64 (pte_at q i') m"
    by (rule ld64_cong) (use st64_other pte_apart [OF assms(1,3,2) False] in metis)
  with False show ?thesis by (simp add: entry_def)
qed (simp add: entry_def ld64_st64)

text \<open>Facts of a well-formed table, one at a time.\<close>

lemma pt_wfD:
  assumes "pt_wf m pt F"
  shows wf_root: "unat pt mod 4096 = 0" "pgno pt \<notin> F"
    and wf_sub: "\<And>i q. unat i < 512 \<Longrightarrow> sub m pt i = Some q \<Longrightarrow> pgno q \<notin> F \<and> pgno q \<noteq> pgno pt"
    and wf_sub_inj: "\<And>i i' q. unat i < 512 \<Longrightarrow> unat i' < 512 \<Longrightarrow> sub m pt i = Some q \<Longrightarrow> sub m pt i' = Some q \<Longrightarrow> i = i'"
    and wf_leaf: "\<And>ij r. ij \<in> index_pairs \<Longrightarrow> leaf m pt ij = Some r \<Longrightarrow> pgno r \<notin> F \<and> pgno r \<noteq> pgno pt"
    and wf_leaf_sub: "\<And>ij r i q. ij \<in> index_pairs \<Longrightarrow> leaf m pt ij = Some r \<Longrightarrow> unat i < 512 \<Longrightarrow> sub m pt i = Some q \<Longrightarrow> pgno q \<noteq> pgno r"
    and wf_leaf_inj: "\<And>ij ij' r. ij \<in> index_pairs \<Longrightarrow> ij' \<in> index_pairs \<Longrightarrow> leaf m pt ij = Some r \<Longrightarrow> leaf m pt ij' = Some r \<Longrightarrow> ij = ij'"
proof -
  show al: "unat pt mod 4096 = 0" "pgno pt \<notin> F" using assms by (simp_all add: pt_wf_def)
  show "pgno q \<notin> F \<and> pgno q \<noteq> pgno pt" if "unat i < 512" "sub m pt i = Some q" for i q
    using assms that pgno_inj [OF sub_aligned [OF that(2)] al(1)] unfolding pt_wf_def by blast
  show "pgno r \<notin> F \<and> pgno r \<noteq> pgno pt" if "ij \<in> index_pairs" "leaf m pt ij = Some r" for ij r
    using assms that pgno_inj [OF leaf_aligned [OF that(2)] al(1)] unfolding pt_wf_def by blast
  show "pgno q \<noteq> pgno r" if "ij \<in> index_pairs" "leaf m pt ij = Some r" "unat i < 512" "sub m pt i = Some q" for ij r i q
    using assms that pgno_inj [OF sub_aligned [OF that(4)] leaf_aligned [OF that(2)]] unfolding pt_wf_def by blast
qed (use assms in \<open>unfold pt_wf_def, blast\<close>)+


lemma pt_wfI:
  assumes "unat pt mod 4096 = 0" "pgno pt \<notin> F"
    and "\<And>i q. unat i < 512 \<Longrightarrow> sub m pt i = Some q \<Longrightarrow> pgno q \<notin> F \<and> pgno q \<noteq> pgno pt"
    and "\<And>i i' q. unat i < 512 \<Longrightarrow> unat i' < 512 \<Longrightarrow> sub m pt i = Some q \<Longrightarrow> sub m pt i' = Some q \<Longrightarrow> i = i'"
    and "\<And>ij r. ij \<in> index_pairs \<Longrightarrow> leaf m pt ij = Some r \<Longrightarrow> pgno r \<notin> F \<and> pgno r \<noteq> pgno pt"
    and "\<And>ij r i q. ij \<in> index_pairs \<Longrightarrow> leaf m pt ij = Some r \<Longrightarrow> unat i < 512 \<Longrightarrow> sub m pt i = Some q \<Longrightarrow> pgno q \<noteq> pgno r"
    and "\<And>ij ij' r. ij \<in> index_pairs \<Longrightarrow> ij' \<in> index_pairs \<Longrightarrow> leaf m pt ij = Some r \<Longrightarrow> leaf m pt ij' = Some r \<Longrightarrow> ij = ij'"
  shows "pt_wf m pt F"
  unfolding pt_wf_def by (intro conjI allI ballI impI; use assms in metis)

lemma pt_wf_weaken:
  assumes wf: "pt_wf m pt F" and F: "F' \<subseteq> F"
  shows "pt_wf m pt F'"
proof (rule pt_wfI)
  show "unat pt mod 4096 = 0" "pgno pt \<notin> F'" using wf_root [OF wf] F by auto
  show "pgno q \<notin> F' \<and> pgno q \<noteq> pgno pt" if "unat i < 512" "sub m pt i = Some q" for i q
    using wf_sub [OF wf that] F by auto
  show "pgno r \<notin> F' \<and> pgno r \<noteq> pgno pt" if "ij \<in> index_pairs" "leaf m pt ij = Some r" for ij r
    using wf_leaf [OF wf that] F by auto
qed (rule wf_sub_inj [OF wf] wf_leaf_sub [OF wf] wf_leaf_inj [OF wf]; assumption)+

text \<open>A new middle-level table: no translation changes.\<close>

lemma grow_root:
  assumes wf: "pt_wf m pt F" and i: "unat i < 512" "sub m pt i = None"
    and x: "pgno x \<in> F" "F' \<subseteq> F" "pgno x \<notin> F'"
    and a: "\<And>i'. unat i' < 512 \<Longrightarrow> sub m' pt i' = (if i' = i then Some x else sub m pt i')"
    and b: "\<And>q k. unat q mod 4096 = 0 \<Longrightarrow> pgno q \<noteq> pgno pt \<Longrightarrow> pgno q \<notin> F \<Longrightarrow> unat k < 512 \<Longrightarrow> entry m' q k = entry m q k"
    and c: "\<And>k. unat k < 512 \<Longrightarrow> entry m' x k = None"
  shows "pt_wf m' pt F'" and "ij \<in> index_pairs \<Longrightarrow> leaf m' pt ij = leaf m pt ij"
    and "translate m' pt va = translate m pt va"
proof -
  have old: "sub m' q k = sub m q k" if "unat i' < 512" "sub m pt i' = Some q" "unat k < 512" for i' q k
    using wf_sub [OF wf that(1,2)] b [OF sub_aligned [OF that(2)] _ _ that(3)] by (simp add: sub_entry)
  have lf: "leaf m' pt ij = leaf m pt ij" if pr: "ij \<in> index_pairs" for ij
  proof -
    obtain i' j where ij: "ij = (i', j)" "unat i' < 512" "unat j < 512"
      using pr by (auto simp: index_pairs_def)
    show ?thesis
      using a [OF ij(2)] i c [OF ij(3)] old [OF ij(2) _ ij(3)]
      by (cases "sub m pt i'") (auto simp: ij(1) leaf_def sub_entry)
  qed
  show "ij \<in> index_pairs \<Longrightarrow> leaf m' pt ij = leaf m pt ij" by (rule lf)
  have xp: "pgno x \<noteq> pgno pt" using x(1) wf_root(2) [OF wf] by auto
  show "pt_wf m' pt F'"
  proof (rule pt_wfI)
    show "unat pt mod 4096 = 0" "pgno pt \<notin> F'" using wf_root [OF wf] x(2) by auto
    show "pgno q \<notin> F' \<and> pgno q \<noteq> pgno pt" if "unat i' < 512" "sub m' pt i' = Some q" for i' q
      using that(2) wf_sub [OF wf that(1), of q] x xp unfolding a [OF that(1)] by (auto split: if_splits)
    show "i1 = i2" if "unat i1 < 512" "unat i2 < 512" "sub m' pt i1 = Some q" "sub m' pt i2 = Some q" for i1 i2 q
      using that(3,4) wf_sub_inj [OF wf that(1,2), of q] wf_sub [OF wf that(1), of q] wf_sub [OF wf that(2), of q] x(1)
      unfolding a [OF that(1)] a [OF that(2)] by (auto split: if_splits)
    show "pgno r \<notin> F' \<and> pgno r \<noteq> pgno pt" if "ij \<in> index_pairs" "leaf m' pt ij = Some r" for ij r
      using that(2) wf_leaf [OF wf that(1), of r] x(2) unfolding lf [OF that(1)] by auto
    show "pgno q \<noteq> pgno r" if "ij \<in> index_pairs" "leaf m' pt ij = Some r" "unat i' < 512" "sub m' pt i' = Some q" for ij r i' q
      using that(2,4) wf_leaf [OF wf that(1), of r] wf_leaf_sub [OF wf that(1) _ that(3), of r q] x(1)
      unfolding a [OF that(3)] lf [OF that(1)] by (auto split: if_splits)
    show "ij = ij'" if "ij \<in> index_pairs" "ij' \<in> index_pairs" "leaf m' pt ij = Some r" "leaf m' pt ij' = Some r" for ij ij' r
      using that(3,4) wf_leaf_inj [OF wf that(1,2)] unfolding lf [OF that(1)] lf [OF that(2)] by simp
  qed
  show "translate m' pt va = translate m pt va"
  proof (cases "leaf m pt (upper va)")
    case (Some r)
    then have "entry m' r (PX 0 va) = entry m r (PX 0 va)"
      using wf_leaf [OF wf upper_pairs Some] by (intro b leaf_aligned [OF Some] PX_less) auto
    then show ?thesis using lf [OF upper_pairs] Some by (simp add: translate_def)
  qed (use lf [OF upper_pairs] in \<open>simp add: translate_def\<close>)
qed

text \<open>A new last-level table: it has no valid entry, so no translation changes either.\<close>

lemma grow_middle:
  assumes wf: "pt_wf m pt F" and i: "unat i < 512" "sub m pt i = Some q" and j: "unat j < 512" "sub m q j = None"
    and x: "unat x mod 4096 = 0" "pgno x \<in> F" "F' \<subseteq> F" "pgno x \<notin> F'"
    and a: "\<And>j'. unat j' < 512 \<Longrightarrow> sub m' q j' = (if j' = j then Some x else sub m q j')"
    and b: "\<And>p k. unat p mod 4096 = 0 \<Longrightarrow> pgno p \<noteq> pgno q \<Longrightarrow> pgno p \<notin> F \<Longrightarrow> unat k < 512 \<Longrightarrow> entry m' p k = entry m p k"
    and c: "\<And>k. unat k < 512 \<Longrightarrow> entry m' x k = None"
  shows "pt_wf m' pt F'" and "ij \<in> index_pairs \<Longrightarrow> leaf m' pt ij = (if ij = (i, j) then Some x else leaf m pt ij)"
    and "unat i' < 512 \<Longrightarrow> sub m' pt i' = sub m pt i'" and "translate m' pt va = translate m pt va"
proof -
  have q: "pgno q \<notin> F" "pgno q \<noteq> pgno pt" using wf_sub [OF wf i] by auto
  have root: "sub m' pt i' = sub m pt i'" if "unat i' < 512" for i'
    using b [OF wf_root(1) [OF wf] _ _ that] q(2) wf_root(2) [OF wf] by (simp add: sub_entry)
  have lf: "leaf m' pt ij = (if ij = (i, j) then Some x else leaf m pt ij)" if pr: "ij \<in> index_pairs" for ij
  proof -
    obtain i' j' where ij: "ij = (i', j')" "unat i' < 512" "unat j' < 512"
      using pr by (auto simp: index_pairs_def)
    show ?thesis
    proof (cases "sub m pt i'")
      case None
      then show ?thesis using root [OF ij(2)] i by (auto simp: ij(1) leaf_def)
    next
      case (Some p)
      show ?thesis
      proof (cases "i' = i")
        case True
        then show ?thesis using i root [OF ij(2)] a [OF ij(3)] by (simp add: ij(1) leaf_def)
      next
        case False
        then have "p \<noteq> q" using wf_sub_inj [OF wf ij(2) i(1) Some] i(2) by auto
        then have "pgno p \<noteq> pgno q" using pgno_inj [OF sub_aligned [OF Some] sub_aligned [OF i(2)]] by auto
        then have "sub m' p j' = sub m p j'"
          using b [OF sub_aligned [OF Some] _ _ ij(3)] wf_sub [OF wf ij(2) Some] by (simp add: sub_entry)
        then show ?thesis using Some root [OF ij(2)] False by (simp add: ij(1) leaf_def)
      qed
    qed
  qed
  have pr: "(i, j) \<in> index_pairs" using i(1) j(1) by (simp add: index_pairs_def)
  show "ij \<in> index_pairs \<Longrightarrow> leaf m' pt ij = (if ij = (i, j) then Some x else leaf m pt ij)" by (rule lf)
  show "unat i' < 512 \<Longrightarrow> sub m' pt i' = sub m pt i'" by (rule root)
  have no: "leaf m pt (i, j) = None" using i(2) j(2) by (simp add: leaf_def)
  have lx: "leaf m pt ij \<noteq> Some x" if "ij \<in> index_pairs" for ij using wf_leaf [OF wf that] x(2) by auto
  have xr: "pgno x \<noteq> pgno pt" using x(2) wf_root(2) [OF wf] by auto
  show "pt_wf m' pt F'"
  proof (rule pt_wfI)
    show "unat pt mod 4096 = 0" "pgno pt \<notin> F'" using wf_root [OF wf] x(3) by auto
    show "pgno q \<notin> F' \<and> pgno q \<noteq> pgno pt" if "unat i' < 512" "sub m' pt i' = Some q" for i' q
      using that(2) wf_sub [OF wf that(1), of q] x(3) unfolding root [OF that(1)] by auto
    show "i1 = i2" if "unat i1 < 512" "unat i2 < 512" "sub m' pt i1 = Some q" "sub m' pt i2 = Some q" for i1 i2 q
      using that(3,4) wf_sub_inj [OF wf that(1,2), of q] unfolding root [OF that(1)] root [OF that(2)] by auto
    show "pgno r \<notin> F' \<and> pgno r \<noteq> pgno pt" if "ij \<in> index_pairs" "leaf m' pt ij = Some r" for ij r
      using that(2) wf_leaf [OF wf that(1), of r] x(3,4) xr unfolding lf [OF that(1)] by (auto split: if_splits)
    show "pgno q \<noteq> pgno r" if "ij \<in> index_pairs" "leaf m' pt ij = Some r" "unat i' < 512" "sub m' pt i' = Some q" for ij r i' q
      using that(2,4) wf_leaf_sub [OF wf that(1) _ that(3), of r q] wf_sub [OF wf that(3), of q] x(2)
      unfolding root [OF that(3)] lf [OF that(1)] by (auto split: if_splits)
    show "ij = ij'" if "ij \<in> index_pairs" "ij' \<in> index_pairs" "leaf m' pt ij = Some r" "leaf m' pt ij' = Some r" for ij ij' r
      using that(3,4) wf_leaf_inj [OF wf that(1,2), of r] lx [OF that(1)] lx [OF that(2)]
      unfolding lf [OF that(1)] lf [OF that(2)] by (auto split: if_splits)
  qed
  show "translate m' pt va = translate m pt va"
  proof (cases "upper va = (i, j)")
    case True
    then show ?thesis using lf [OF pr] no c [OF PX_less] by (simp add: translate_def)
  next
    case False
    then have l: "leaf m' pt (upper va) = leaf m pt (upper va)" using lf [OF upper_pairs] by simp
    have "entry m' r (PX 0 va) = entry m r (PX 0 va)" if r: "leaf m pt (upper va) = Some r" for r
      using wf_leaf [OF wf upper_pairs r] wf_leaf_sub [OF wf upper_pairs r i]
      by (intro b leaf_aligned [OF r] PX_less) auto
    with l show ?thesis by (cases "leaf m pt (upper va)") (auto simp: translate_def)
  qed
qed

subsection \<open>Walking\<close>

text \<open>The page numbers of the tables.\<close>

definition tables :: "mem \<Rightarrow> addr \<Rightarrow> nat set" where
  "tables m pt = insert (pgno pt) {pgno q |q. \<exists>i. unat i < 512 \<and> sub m pt i = Some q}
     \<union> {pgno r |r. \<exists>ij\<in>index_pairs. leaf m pt ij = Some r}"

definition free_pages :: "addr list \<Rightarrow> nat set" where
  "free_pages xs = insert 0 (pgno ` set xs)"

lemma walk_no_alloc:
  "va < MAXVA \<Longrightarrow> walk h pt va False s
    = Some (case leaf (mem s) pt (upper va) of None \<Rightarrow> 0 | Some q \<Rightarrow> pte_at q (PX 0 va), s)"
  by (auto simp: walk_def walk_level_def leaf_def sub_def upper_def Let_def not_le split: bind_splits)

lemma walk_level_valid:
  "sub (mem s) pt (PX l va) = Some q \<Longrightarrow> walk_level h l pt va alloc s = Some (Some q, s)"
  by (auto simp: walk_level_def sub_def Let_def split: if_splits)

lemma walk_level_full:
  assumes "kfree_list h s []" and "sub (mem s) pt (PX l va) = None"
  shows "\<exists>s'. walk_level h l pt va True s = Some (None, s') \<and> kfree_list h s' [] \<and> mem s' = mem s"
proof -
  obtain s' where "kalloc h s = Some (0, s')" "kfree_list h s' []" "mem s' = mem s"
    using kpa.alloc_none [OF assms(1)] by blast
  with assms(2) show ?thesis by (auto simp: walk_level_def sub_def Let_def split: if_splits)
qed

lemma walk_level_fresh:
  fixes s :: "'a kmem_scheme"
  assumes L: "kfree_list h s (x # ys)" and al: "unat p mod 4096 = 0" and nf: "pgno p \<notin> pgno ` set (x # ys)"
    and no: "sub (mem s) p (PX l va) = None"
  obtains s' where "walk_level h l p va True s = Some (Some x, s')" and "kfree_list h s' ys"
    and "\<And>i. unat i < 512 \<Longrightarrow> sub (mem s') p i = (if i = PX l va then Some x else sub (mem s) p i)"
    and "\<And>k. unat k < 512 \<Longrightarrow> entry (mem s') x k = None"
    and "unat x mod 4096 = 0" and "pgno x \<noteq> 0" and "pgno x \<notin> pgno ` set ys"
    and "\<And>b. pgno b \<noteq> pgno p \<Longrightarrow> pgno b \<noteq> pgno x \<Longrightarrow> mem s' b = mem s b"
proof -
  obtain s1 where s1: "kalloc h s = Some (x, s1)" "kfree_list h s1 ys"
    "\<And>a. pgno a \<noteq> pgno x \<Longrightarrow> mem s1 a = mem s a"
    using kpa.alloc_some [OF L] by blast
  have x: "x \<noteq> 0" "unat x mod 4096 = 0" "x \<notin> set ys" "good_page (kend s) x"
    "\<forall>y\<in>set ys. good_page (kend s) y"
    using kpa.free_page [OF L] kpa.free_distinct [OF L]
    by (auto simp: kpage_def good_page_def aligned_unat)
  have x0: "pgno x \<noteq> 0" using pgno_inj [OF x(2), of 0] x(1) by (auto simp: pgno_def)
  have xy: "pgno x \<notin> pgno ` set ys" using x(3-5) good_pages_apart by blast
  have xp: "pgno x \<noteq> pgno p" using nf by auto
  let ?pte = "pte_at p (PX l va)" and ?z = "memset x 0 (unat PGSIZE) (mem s1)"
  let ?m = "st64 ?pte (PA2PTE x OR PTE_V) ?z"
  have z: "?z b = mem s1 b" if "pgno b \<noteq> pgno x" for b by (rule filled_page [OF x(2) that])
  have m: "?m b = ?z b" if "pgno b \<noteq> pgno p" for b by (rule st64_pte [OF al PX_less that])
  have "kfree_list h (s1\<lparr>mem := ?m\<rparr>) ys"
  proof -
    have ch: "chain (mem s1) (freelist s1) ys" using s1(2) by (simp add: kfree_list_def free_inv_def)
    have "ld64 y (mem s1) = ld64 y ?m" if y: "y \<in> set ys" for y
    proof (rule ld64_page)
      show "unat y mod 4096 = 0" using x(5) y by (simp add: good_page_def aligned_unat)
      fix a assume "pgno a = pgno y"
      moreover have "pgno y \<noteq> pgno x" "pgno y \<noteq> pgno p" using xy nf y by (metis imageI list.set_intros(2))+
      ultimately show "mem s1 a = ?m a" using z m by simp
    qed
    with chain_cong [of ys "mem s1" ?m] ch s1(2) show ?thesis
      by (simp add: kfree_list_def free_inv_def mem_ready_def hart_ok_def free_lock_def)
  qed
  moreover have "sub ?m p i = (if i = PX l va then Some x else sub (mem s) p i)" if "unat i < 512" for i
  proof -
    have "entry ?z p i = entry (mem s) p i"
      by (rule entry_page [OF al that]) (use z s1(3) xp in simp)
    moreover have "PTE2PA (PA2PTE x OR PTE_V) = x" by (rule PTE2PA_PA2PTE [OF x(2)]) (simp add: PTE_consts)
    ultimately show ?thesis
      using entry_store [OF al PX_less that, of l va "PA2PTE x OR PTE_V" ?z] valid_or by (simp add: sub_entry)
  qed
  moreover have "entry ?m x k = None" if "unat k < 512" for k
    by (rule entry_zero [OF x(2) that]) (use m zero_page [OF x(2)] xp in simp)
  moreover have "?m b = mem s b" if "pgno b \<noteq> pgno p" "pgno b \<noteq> pgno x" for b
    using m z s1(3) that by simp
  moreover have "walk_level h l p va True s = Some (Some x, s1\<lparr>mem := ?m\<rparr>)"
    using no s1(1) x(1) by (simp add: walk_level_def Let_def sub_def split: if_splits)
  ultimately show ?thesis using x(2) x0 xy by (intro that [of "s1\<lparr>mem := ?m\<rparr>"]) simp_all
qed

text \<open>
  A page table beside the free pages, and what an operation that only adds tables keeps: every
  translation, and every byte outside the tables and the pages that were free.
\<close>

definition tbl :: "nat \<Rightarrow> addr \<Rightarrow> 'a kmem_scheme \<Rightarrow> addr list \<Rightarrow> bool" where
  "tbl h pt s xs \<longleftrightarrow> kfree_list h s xs \<and> pt_wf (mem s) pt (free_pages xs)"

definition grown :: "addr \<Rightarrow> 'a kmem_scheme \<Rightarrow> addr list \<Rightarrow> 'a kmem_scheme \<Rightarrow> addr list \<Rightarrow> bool" where
  "grown pt s xs s' ys \<longleftrightarrow> set ys \<subseteq> set xs
     \<and> tables (mem s') pt \<subseteq> tables (mem s) pt \<union> pgno ` set xs
     \<and> (\<forall>b. pgno b \<notin> tables (mem s) pt \<longrightarrow> pgno b \<notin> pgno ` set xs \<longrightarrow> mem s' b = mem s b)"

definition kept :: "addr \<Rightarrow> 'a kmem_scheme \<Rightarrow> addr list \<Rightarrow> 'a kmem_scheme \<Rightarrow> addr list \<Rightarrow> bool" where
  "kept pt s xs s' ys \<longleftrightarrow> grown pt s xs s' ys \<and> (\<forall>va. translate (mem s') pt va = translate (mem s) pt va)"

lemma kept_same: "mem s' = mem s \<Longrightarrow> kept pt s xs s' xs"
  by (simp add: kept_def grown_def)

lemma grown_trans:
  assumes "grown pt s xs s' ys" and "grown pt s' ys s'' zs"
  shows "grown pt s xs s'' zs"
proof -
  have sub: "pgno ` set ys \<subseteq> pgno ` set xs" using assms(1) by (auto simp: grown_def)
  have "mem s'' b = mem s b" if "pgno b \<notin> tables (mem s) pt" "pgno b \<notin> pgno ` set xs" for b
  proof -
    have "mem s' b = mem s b" using assms(1) that by (simp add: grown_def)
    moreover have "pgno b \<notin> tables (mem s') pt" "pgno b \<notin> pgno ` set ys"
      using assms(1) sub that unfolding grown_def by blast+
    ultimately show ?thesis using assms(2) by (simp add: grown_def)
  qed
  moreover have "tables (mem s'') pt \<subseteq> tables (mem s) pt \<union> pgno ` set xs"
    using assms sub unfolding grown_def by blast
  moreover have "set zs \<subseteq> set xs" using assms unfolding grown_def by blast
  ultimately show ?thesis unfolding grown_def by simp
qed

lemma kept_trans: "kept pt s xs s' ys \<Longrightarrow> kept pt s' ys s'' zs \<Longrightarrow> kept pt s xs s'' zs"
  using grown_trans unfolding kept_def by (metis (no_types, lifting))

lemma tables_root: "pgno pt \<in> tables m pt" and tables_sub: "unat i < 512 \<Longrightarrow> sub m pt i = Some q \<Longrightarrow> pgno q \<in> tables m pt"
  and tables_leaf: "ij \<in> index_pairs \<Longrightarrow> leaf m pt ij = Some r \<Longrightarrow> pgno r \<in> tables m pt"
  by (auto simp: tables_def)

lemma tables_in:
  assumes "pgno pt \<in> S" and "\<And>i q. unat i < 512 \<Longrightarrow> sub m pt i = Some q \<Longrightarrow> pgno q \<in> S"
    and "\<And>ij r. ij \<in> index_pairs \<Longrightarrow> leaf m pt ij = Some r \<Longrightarrow> pgno r \<in> S"
  shows "tables m pt \<subseteq> S"
  using assms by (auto simp: tables_def)

lemma walk_level_root:
  assumes T: "tbl h pt s xs"
  shows "\<exists>r s' ys. walk_level h 2 pt va True s = Some (r, s') \<and> tbl h pt s' ys \<and> kept pt s xs s' ys
    \<and> length xs \<le> Suc (length ys) \<and> (case r of None \<Rightarrow> xs = [] | Some q \<Rightarrow> sub (mem s') pt (PX 2 va) = Some q)"
proof (cases "sub (mem s) pt (PX 2 va)")
  case (Some q)
  then show ?thesis using T kept_same [of s s pt xs] walk_level_valid [OF Some, of h True]
    by (intro exI [of _ "Some q"] exI [of _ s] exI [of _ xs]) simp
next
  case None
  have L: "kfree_list h s xs" and wf: "pt_wf (mem s) pt (free_pages xs)" using T by (simp_all add: tbl_def)
  show ?thesis
  proof (cases xs)
    case Nil
    then obtain s' where "walk_level h 2 pt va True s = Some (None, s')" "kfree_list h s' []" "mem s' = mem s"
      using walk_level_full [OF _ None] L by blast
    then show ?thesis using Nil wf kept_same [of s' s pt "[]"]
      by (intro exI [of _ None] exI [of _ s'] exI [of _ "[]"]) (simp add: tbl_def)
  next
    case (Cons x ys)
    have r: "unat pt mod 4096 = 0" "pgno pt \<notin> pgno ` set (x # ys)" using wf_root [OF wf] Cons by (auto simp: free_pages_def)
    obtain s' where s': "walk_level h 2 pt va True s = Some (Some x, s')" "kfree_list h s' ys"
      and a: "\<And>i. unat i < 512 \<Longrightarrow> sub (mem s') pt i = (if i = PX 2 va then Some x else sub (mem s) pt i)"
      and c: "\<And>k. unat k < 512 \<Longrightarrow> entry (mem s') x k = None"
      and x: "unat x mod 4096 = 0" "pgno x \<noteq> 0" "pgno x \<notin> pgno ` set ys"
      and fr: "\<And>b. pgno b \<noteq> pgno pt \<Longrightarrow> pgno b \<noteq> pgno x \<Longrightarrow> mem s' b = mem s b"
      by (rule walk_level_fresh [OF L [unfolded Cons] r None]) (rule that)
    have xF: "pgno x \<in> free_pages xs" "free_pages ys \<subseteq> free_pages xs" "pgno x \<notin> free_pages ys"
      using x Cons by (auto simp: free_pages_def)
    have b: "entry (mem s') q k = entry (mem s) q k"
      if "unat q mod 4096 = 0" "pgno q \<noteq> pgno pt" "pgno q \<notin> free_pages xs" "unat k < 512" for q k
      by (rule entry_page [OF that(1,4)], rule fr) (use that(2,3) xF(1) in auto)
    note g = grow_root [OF wf PX_less None xF a b c]
    have wf': "pt_wf (mem s') pt (free_pages ys)" by (rule g(1))
    have lf: "leaf (mem s') pt ij = leaf (mem s) pt ij" if "ij \<in> index_pairs" for ij by (rule g(2)) (use that in simp_all)
    have tr: "translate (mem s') pt va' = translate (mem s) pt va'" for va' by (rule g(3))
    have "tables (mem s') pt \<subseteq> tables (mem s) pt \<union> pgno ` set xs"
    proof (rule tables_in)
      show "pgno q \<in> tables (mem s) pt \<union> pgno ` set xs" if "unat i < 512" "sub (mem s') pt i = Some q" for i q
        using that(2) tables_sub [OF that(1), of "mem s" pt q] unfolding a [OF that(1)] by (auto simp: Cons split: if_splits)
      show "pgno r \<in> tables (mem s) pt \<union> pgno ` set xs" if "ij \<in> index_pairs" "leaf (mem s') pt ij = Some r" for ij r
        using that(2) tables_leaf [OF that(1), of "mem s" pt r] unfolding lf [OF that(1)] by simp
    qed (simp add: tables_root)
    moreover have "mem s' b = mem s b" if "pgno b \<notin> tables (mem s) pt" "pgno b \<notin> pgno ` set xs" for b
      using that tables_root [of pt "mem s"] by (intro fr) (auto simp: Cons)
    ultimately have "kept pt s xs s' ys"
      using tr by (simp add: kept_def grown_def Cons subset_insertI)
    then show ?thesis using s' wf' a [OF PX_less, of 2 va]
      by (intro exI [of _ "Some x"] exI [of _ s'] exI [of _ ys]) (simp add: tbl_def Cons)
  qed
qed

lemma walk_level_middle:
  assumes T: "tbl h pt s xs" and i: "unat i < 512" "sub (mem s) pt i = Some q"
  shows "\<exists>r s' ys. walk_level h 1 q va True s = Some (r, s') \<and> tbl h pt s' ys \<and> kept pt s xs s' ys
    \<and> length xs \<le> Suc (length ys) \<and> (case r of None \<Rightarrow> xs = [] | Some p \<Rightarrow> leaf (mem s') pt (i, PX 1 va) = Some p)"
proof (cases "sub (mem s) q (PX 1 va)")
  case (Some p)
  then show ?thesis using T i kept_same [of s s pt xs] walk_level_valid [OF Some, of h True]
    by (intro exI [of _ "Some p"] exI [of _ s] exI [of _ xs]) (simp add: leaf_def)
next
  case None
  have L: "kfree_list h s xs" and wf: "pt_wf (mem s) pt (free_pages xs)" using T by (simp_all add: tbl_def)
  show ?thesis
  proof (cases xs)
    case Nil
    then obtain s' where "walk_level h 1 q va True s = Some (None, s')" "kfree_list h s' []" "mem s' = mem s"
      using walk_level_full [OF _ None] L by blast
    then show ?thesis using Nil wf kept_same [of s' s pt "[]"]
      by (intro exI [of _ None] exI [of _ s'] exI [of _ "[]"]) (simp add: tbl_def)
  next
    case (Cons x ys)
    have r: "unat q mod 4096 = 0" "pgno q \<notin> pgno ` set (x # ys)"
      using sub_aligned [OF i(2)] wf_sub [OF wf i] Cons by (auto simp: free_pages_def)
    obtain s' where s': "walk_level h 1 q va True s = Some (Some x, s')" "kfree_list h s' ys"
      and a: "\<And>j. unat j < 512 \<Longrightarrow> sub (mem s') q j = (if j = PX 1 va then Some x else sub (mem s) q j)"
      and c: "\<And>k. unat k < 512 \<Longrightarrow> entry (mem s') x k = None"
      and x: "unat x mod 4096 = 0" "pgno x \<noteq> 0" "pgno x \<notin> pgno ` set ys"
      and fr: "\<And>b. pgno b \<noteq> pgno q \<Longrightarrow> pgno b \<noteq> pgno x \<Longrightarrow> mem s' b = mem s b"
      by (rule walk_level_fresh [OF L [unfolded Cons] r None]) (rule that)
    have xF: "pgno x \<in> free_pages xs" "free_pages ys \<subseteq> free_pages xs" "pgno x \<notin> free_pages ys"
      using x Cons by (auto simp: free_pages_def)
    have b: "entry (mem s') p k = entry (mem s) p k"
      if "unat p mod 4096 = 0" "pgno p \<noteq> pgno q" "pgno p \<notin> free_pages xs" "unat k < 512" for p k
      by (rule entry_page [OF that(1,4)], rule fr) (use that(2,3) xF(1) in auto)
    note g = grow_middle [OF wf i PX_less None x(1) xF a b c]
    have wf': "pt_wf (mem s') pt (free_pages ys)" by (rule g(1))
    have lf: "leaf (mem s') pt ij = (if ij = (i, PX 1 va) then Some x else leaf (mem s) pt ij)"
      if "ij \<in> index_pairs" for ij by (rule g(2)) (use that in simp_all)
    have rt: "sub (mem s') pt i' = sub (mem s) pt i'" if "unat i' < 512" for i' by (rule g(3)) (use that in simp_all)
    have tr: "translate (mem s') pt va' = translate (mem s) pt va'" for va' by (rule g(4))
    have "tables (mem s') pt \<subseteq> tables (mem s) pt \<union> pgno ` set xs"
    proof (rule tables_in)
      show "pgno p \<in> tables (mem s) pt \<union> pgno ` set xs" if "unat i' < 512" "sub (mem s') pt i' = Some p" for i' p
        using that(2) tables_sub [OF that(1), of "mem s" pt p] unfolding rt [OF that(1)] by simp
      show "pgno p \<in> tables (mem s) pt \<union> pgno ` set xs" if "ij \<in> index_pairs" "leaf (mem s') pt ij = Some p" for ij p
        using that(2) tables_leaf [OF that(1), of "mem s" pt p] unfolding lf [OF that(1)]
        by (auto simp: Cons split: if_splits)
    qed (simp add: tables_root)
    moreover have "mem s' b = mem s b" if "pgno b \<notin> tables (mem s) pt" "pgno b \<notin> pgno ` set xs" for b
      using that tables_sub [OF i] by (intro fr) (auto simp: Cons)
    ultimately have "kept pt s xs s' ys"
      using tr by (simp add: kept_def grown_def Cons subset_insertI)
    moreover have "leaf (mem s') pt (i, PX 1 va) = Some x"
      using lf [of "(i, PX 1 va)"] i(1) PX_less by (simp add: index_pairs_def)
    ultimately show ?thesis using s' wf'
      by (intro exI [of _ "Some x"] exI [of _ s'] exI [of _ ys]) (simp add: tbl_def Cons)
  qed
qed

lemma pte_nonzero: "unat q mod 4096 = 0 \<Longrightarrow> pgno q \<noteq> 0 \<Longrightarrow> unat i < 512 \<Longrightarrow> pte_at q i \<noteq> 0"
  using pte_bytes [of q i 0] by (auto simp: pgno_def)

text \<open>
  \<open>walk\<close> with \<open>alloc\<close> set: it changes no translation, and two free pages are always enough for it to
  find the entry.
\<close>

lemma walk_alloc:
  assumes T: "tbl h pt s xs" and va: "va < MAXVA"
  obtains r s' ys where "walk h pt va True s = Some (r, s')" and "tbl h pt s' ys" and "kept pt s xs s' ys"
    and "length xs \<le> length ys + 2"
    and "r = 0 \<longrightarrow> length xs < 2"
    and "r \<noteq> 0 \<Longrightarrow> \<exists>q. leaf (mem s') pt (upper va) = Some q \<and> r = pte_at q (PX 0 va)"
proof -
  obtain r1 s1 ys where 1: "walk_level h 2 pt va True s = Some (r1, s1)" "tbl h pt s1 ys" "kept pt s xs s1 ys"
    "length xs \<le> Suc (length ys)" "case r1 of None \<Rightarrow> xs = [] | Some q \<Rightarrow> sub (mem s1) pt (PX 2 va) = Some q"
    using walk_level_root [OF T, of va] by blast
  show ?thesis
  proof (cases r1)
    case None
    then show ?thesis using 1 va by (intro that [of 0 s1 ys]) (simp_all add: walk_def not_le)
  next
    case (Some q)
    then have q: "sub (mem s1) pt (PX 2 va) = Some q" using 1(5) by simp
    obtain r2 s2 zs where 2: "walk_level h 1 q va True s1 = Some (r2, s2)" "tbl h pt s2 zs" "kept pt s1 ys s2 zs"
      "length ys \<le> Suc (length zs)" "case r2 of None \<Rightarrow> ys = [] | Some p \<Rightarrow> leaf (mem s2) pt (PX 2 va, PX 1 va) = Some p"
      using walk_level_middle [OF 1(2) PX_less q, of va] by blast
    note k = kept_trans [OF 1(3) 2(3)]
    have len: "length xs \<le> length zs + 2" using 1(4) 2(4) by simp
    show ?thesis
    proof (cases r2)
      case None
      then show ?thesis using 1 2 va Some k len by (intro that [of 0 s2 zs]) (simp_all add: walk_def not_le)
    next
      case (Some p)
      then have l: "leaf (mem s2) pt (upper va) = Some p" using 2(5) by (simp add: upper_def)
      have "pte_at p (PX 0 va) \<noteq> 0"
        using wf_leaf [OF _ upper_pairs l, of "free_pages zs"] 2(2) by (intro pte_nonzero leaf_aligned [OF l] PX_less) (auto simp: tbl_def free_pages_def)
      then show ?thesis using 1 2 va Some \<open>r1 = Some q\<close> k l len
        by (intro that [of "pte_at p (PX 0 va)" s2 zs]) (simp_all add: walk_def not_le)
    qed
  qed
qed

subsection \<open>Changing one entry\<close>

lemma set_leaf:
  fixes v :: uint64
  assumes wf: "pt_wf m pt F" and l: "leaf m pt (upper va) = Some q"
  defines "m' \<equiv> st64 (pte_at q (PX 0 va)) v m"
  shows "pt_wf m' pt F" and "tables m' pt = tables m pt"
    and "translate m' pt va' = (if upper va' = upper va \<and> PX 0 va' = PX 0 va
      then if v AND PTE_V = 0 then None else Some v else translate m pt va')"
    and "pgno b \<noteq> pgno q \<Longrightarrow> m' b = m b"
proof -
  have al: "unat q mod 4096 = 0" by (rule leaf_aligned [OF l])
  show fr: "m' b = m b" if "pgno b \<noteq> pgno q" for b unfolding m'_def by (rule st64_pte [OF al PX_less that])
  have keep: "entry m' p k = entry m p k" if "unat p mod 4096 = 0" "pgno p \<noteq> pgno q" "unat k < 512" for p k
    by (rule entry_page [OF that(1,3)]) (use fr that(2) in simp)
  have root: "sub m' pt i = sub m pt i" if "unat i < 512" for i
    using keep [OF wf_root(1) [OF wf] _ that] wf_leaf [OF wf upper_pairs l] by (simp add: sub_entry)
  have lf: "leaf m' pt ij = leaf m pt ij" if pr: "ij \<in> index_pairs" for ij
  proof -
    obtain i j where ij: "ij = (i, j)" "unat i < 512" "unat j < 512" using pr by (auto simp: index_pairs_def)
    have "sub m' p j = sub m p j" if "sub m pt i = Some p" for p
      using keep [OF sub_aligned [OF that] _ ij(3)] wf_leaf_sub [OF wf upper_pairs l ij(2) that] by (simp add: sub_entry)
    then show ?thesis using root [OF ij(2)] by (cases "sub m pt i") (simp_all add: ij(1) leaf_def)
  qed
  show "pt_wf m' pt F"
    using wf unfolding pt_wf_def by (simp add: root lf cong: imp_cong ball_cong)
  show "tables m' pt = tables m pt"
    unfolding tables_def by (simp add: root lf cong: conj_cong bex_cong)
  show "translate m' pt va' = (if upper va' = upper va \<and> PX 0 va' = PX 0 va
      then if v AND PTE_V = 0 then None else Some v else translate m pt va')"
  proof (cases "upper va' = upper va")
    case True
    then show ?thesis using lf [OF upper_pairs] l entry_store [OF al PX_less PX_less]
      by (simp add: translate_def m'_def)
  next
    case False
    have "entry m' r (PX 0 va') = entry m r (PX 0 va')" if r: "leaf m pt (upper va') = Some r" for r
    proof (rule keep [OF leaf_aligned [OF r] _ PX_less])
      show "pgno r \<noteq> pgno q"
      proof
        assume "pgno r = pgno q"
        then have "r = q" by (rule pgno_inj [OF leaf_aligned [OF r] al])
        then have "upper va' = upper va" using wf_leaf_inj [OF wf upper_pairs upper_pairs r] l by simp
        with False show False by simp
      qed
    qed
    then show ?thesis using False lf [OF upper_pairs] by (cases "leaf m pt (upper va')") (simp_all add: translate_def)
  qed
qed

lemma unat_PX: "unat (PX l va) = unat va div 2 ^ (12 + 9 * l) mod 512"
proof -
  have "PX l va = take_bit 9 (drop_bit (12 + 9 * l) va)"
    by (simp add: PX_def take_bit_eq_mask mask_eq_exp_minus_1)
  then have "unat (PX l va) = take_bit 9 (unat (drop_bit (12 + 9 * l) va))"
    by (simp add: unsigned_take_bit_eq)
  moreover have "unat (drop_bit (12 + 9 * l) va) = unat va div 2 ^ (12 + 9 * l)"
    using unat_drop_bit_eq [of "12 + 9 * l" va] drop_bit_eq_div [of "12 + 9 * l" "unat va"] by simp
  ultimately show ?thesis by (simp only: take_bit_eq_mod) simp
qed

text \<open>Below \<open>MAXVA\<close>, the three indices are the page number.\<close>

lemma PX_pgno:
  assumes "va < MAXVA"
  shows "pgno va = unat (PX 2 va) * 262144 + unat (PX 1 va) * 512 + unat (PX 0 va)"
proof -
  have "unat va < 2 ^ 38" using assms by (simp add: MAXVA_def word_less_nat_alt)
  then have "pgno va < 67108864" by (simp add: pgno_def)
  moreover have "unat (PX 2 va) = pgno va div 512 div 512 mod 512" "unat (PX 1 va) = pgno va div 512 mod 512"
    "unat (PX 0 va) = pgno va mod 512"
    by (simp_all add: unat_PX pgno_def flip: div_mult2_eq)
  moreover have "n = n div 512 div 512 mod 512 * 262144 + n div 512 mod 512 * 512 + n mod 512"
    if "n < 67108864" for n :: nat
  proof -
    have "n div 512 div 512 < 512" using that by (simp add: less_mult_imp_div_less)
    moreover have "n = a * 262144 + b * 512 + c" if "n = d * 512 + c" "d = a * 512 + b" for a b c d
      using that by simp
    ultimately show ?thesis
      using div_mult_mod_eq [of n 512, symmetric] div_mult_mod_eq [of "n div 512" 512, symmetric] by (metis mod_less)
  qed
  ultimately show ?thesis by simp
qed

lemma same_page:
  assumes "va < MAXVA" and "va' < MAXVA"
  shows "upper va' = upper va \<and> PX 0 va' = PX 0 va \<longleftrightarrow> pgno va' = pgno va"
proof
  assume "pgno va' = pgno va"
  then have "unat (PX l va') = unat (PX l va)" for l
    by (simp add: unat_PX pgno_def power_add div_mult2_eq)
  then show "upper va' = upper va \<and> PX 0 va' = PX 0 va" by (simp add: upper_def unat_inject)
qed (use PX_pgno [OF assms(1)] PX_pgno [OF assms(2)] in \<open>simp add: upper_def\<close>)

text \<open>A store outside the free pages leaves the free list as it is.\<close>

lemma kfree_list_mem:
  assumes "kfree_list h s xs" and "\<And>b. pgno b \<in> pgno ` set xs \<Longrightarrow> m b = mem s b"
  shows "kfree_list h (s\<lparr>mem := m\<rparr>) xs"
proof -
  have "ld64 y (mem s) = ld64 y m" if y: "y \<in> set xs" for y
  proof (rule ld64_page)
    show "unat y mod 4096 = 0" using kpa.free_page [OF assms(1) y] by (simp add: kpage_def good_page_def aligned_unat)
    show "mem s a = m a" if "pgno a = pgno y" for a using assms(2) [of a] y that by simp
  qed
  with chain_cong [of xs "mem s" m] assms(1) show ?thesis
    by (simp add: kfree_list_def free_inv_def)
qed

lemma tbl_set_leaf:
  fixes v :: uint64
  assumes T: "tbl h pt s xs" and l: "leaf (mem s) pt (upper va) = Some q"
  defines "s' \<equiv> s\<lparr>mem := st64 (pte_at q (PX 0 va)) v (mem s)\<rparr>"
  shows "tbl h pt s' xs" and "grown pt s xs s' xs"
proof -
  have wf: "pt_wf (mem s) pt (free_pages xs)" and L: "kfree_list h s xs" using T by (simp_all add: tbl_def)
  have q: "pgno q \<notin> pgno ` set xs" using wf_leaf [OF wf upper_pairs l] by (auto simp: free_pages_def)
  have fr: "st64 (pte_at q (PX 0 va)) v (mem s) b = mem s b" if "pgno b \<noteq> pgno q" for b
    by (rule set_leaf(4) [OF wf l that])
  have "kfree_list h s' xs" unfolding s'_def by (rule kfree_list_mem [OF L], rule fr) (use q in metis)
  then show "tbl h pt s' xs" using set_leaf(1) [OF wf l, of v] by (simp add: tbl_def s'_def)
  show "grown pt s xs s' xs"
  proof -
    have "st64 (pte_at q (PX 0 va)) v (mem s) b = mem s b" if "pgno b \<notin> tables (mem s) pt" for b
      by (rule fr) (use that tables_leaf [OF upper_pairs l] in metis)
    then show ?thesis using set_leaf(2) [OF wf l, of v] by (simp add: grown_def s'_def)
  qed
qed

lemma pgno_step:
  assumes "unat a + n * 4096 \<le> 2 ^ 38" and "0 < n"
  shows "a < MAXVA" and "unat (a + PGSIZE) = unat a + 4096" and "pgno (a + PGSIZE) = Suc (pgno a)"
proof -
  have M: "unat MAXVA = 2 ^ 38" by (simp add: MAXVA_def)
  show "a < MAXVA" using assms M by (cases n) (simp_all add: word_less_nat_alt)
  have "unat a + 4096 < 2 ^ 64" using assms by (cases n) simp_all
  then show u: "unat (a + PGSIZE) = unat a + 4096" by (simp add: PGSIZE_def unat_plus_if')
  show "pgno (a + PGSIZE) = Suc (pgno a)" using u by (simp add: pgno_def)
qed

text \<open>What \<open>mappages\<close> writes: the entries of \<open>n\<close> pages from \<open>a\<close> on.\<close>

definition mapped :: "addr \<Rightarrow> nat \<Rightarrow> addr \<Rightarrow> uint64 \<Rightarrow> (addr \<Rightarrow> uint64 option) \<Rightarrow> addr \<Rightarrow> uint64 option" where
  "mapped a n pa perm f va = (if pgno a \<le> pgno va \<and> pgno va < pgno a + n
     then Some (PA2PTE (pa + of_nat (pgno va - pgno a) * PGSIZE) OR perm OR PTE_V) else f va)"

lemma mapped_cong: "f va = g va \<Longrightarrow> mapped a n pa perm f va = mapped a n pa perm g va"
  by (simp add: mapped_def)

lemma mapped_Suc:
  assumes "pgno (a + PGSIZE) = Suc (pgno a)"
  shows "mapped (a + PGSIZE) n (pa + PGSIZE) perm (mapped a 1 pa perm f) va = mapped a (Suc n) pa perm f va"
proof (cases "pgno va \<le> pgno a")
  case False
  then obtain d where d: "pgno va = Suc (pgno a + d)" using less_iff_Suc_add by (auto simp: not_le)
  then have "pgno va - pgno a = Suc d" by simp
  with d assms show ?thesis by (simp add: mapped_def algebra_simps del: of_nat_diff)
qed (simp add: mapped_def assms)

lemma mappages_loop_one:
  assumes T: "tbl h pt s xs" and a: "a < MAXVA" and len: "2 \<le> length xs" and no: "translate (mem s) pt a = None"
  obtains s' ys where "mappages_loop h pt a lst pa perm s = (if a = lst then Some (0, s')
      else mappages_loop h pt (a + PGSIZE) lst (pa + PGSIZE) perm s')"
    and "tbl h pt s' ys" and "grown pt s xs s' ys" and "length xs \<le> length ys + 2"
    and "\<And>va. va < MAXVA \<Longrightarrow> translate (mem s') pt va = mapped a 1 pa perm (translate (mem s) pt) va"
proof -
  obtain r s1 ys where w: "walk h pt a True s = Some (r, s1)" "tbl h pt s1 ys" "kept pt s xs s1 ys"
    "length xs \<le> length ys + 2" "r = 0 \<longrightarrow> length xs < 2"
    "r \<noteq> 0 \<Longrightarrow> \<exists>q. leaf (mem s1) pt (upper a) = Some q \<and> r = pte_at q (PX 0 a)"
    by (rule walk_alloc [OF T a]) (rule that)
  then have r0: "r \<noteq> 0" using len by auto
  then obtain q where q: "leaf (mem s1) pt (upper a) = Some q" "r = pte_at q (PX 0 a)" using w(6) by blast
  have tr: "translate (mem s1) pt va = translate (mem s) pt va" for va using w(3) by (simp add: kept_def)
  have v: "ld64 r (mem s1) AND PTE_V = 0"
    using tr [of a] no q by (auto simp: translate_def entry_def Let_def split: if_splits)
  let ?s = "s1\<lparr>mem := st64 r (PA2PTE pa OR perm OR PTE_V) (mem s1)\<rparr>"
  have wf: "pt_wf (mem s1) pt (free_pages ys)" using w(2) by (simp add: tbl_def)
  show ?thesis
  proof (rule that)
    show "mappages_loop h pt a lst pa perm s = (if a = lst then Some (0, ?s)
        else mappages_loop h pt (a + PGSIZE) lst (pa + PGSIZE) perm ?s)"
      using w(1) r0 v by (subst mappages_loop.simps) (simp add: Let_def)
    show "tbl h pt ?s ys" using tbl_set_leaf(1) [OF w(2) q(1)] q(2) by simp
    show "grown pt s xs ?s ys" using w(3) tbl_set_leaf(2) [OF w(2) q(1)] q(2) grown_trans unfolding kept_def by metis
    show "translate (mem ?s) pt va = mapped a 1 pa perm (translate (mem s) pt) va" if "va < MAXVA" for va
      using set_leaf(3) [OF wf q(1), of "PA2PTE pa OR perm OR PTE_V" va] same_page [OF a that] tr valid_or [of "PA2PTE pa OR perm"]
      by (auto simp: mapped_def q(2) or.assoc)
  qed (rule w(4))
qed

lemma mappages_loop_spec:
  assumes "tbl h pt s xs" and "unat a + n * 4096 \<le> 2 ^ 38" and "0 < n" and "2 * n \<le> length xs"
    and "\<And>va. pgno a \<le> pgno va \<Longrightarrow> pgno va < pgno a + n \<Longrightarrow> translate (mem s) pt va = None"
  shows "\<exists>s' ys. mappages_loop h pt a (a + of_nat (n - 1) * PGSIZE) pa perm s = Some (0, s') \<and> tbl h pt s' ys
    \<and> grown pt s xs s' ys \<and> length xs \<le> length ys + 2 * n
    \<and> (\<forall>va<MAXVA. translate (mem s') pt va = mapped a n pa perm (translate (mem s) pt) va)"
  using assms
proof (induction n arbitrary: s xs a pa)
  case (Suc n)
  note st = pgno_step [OF Suc.prems(2,3)]
  have no: "translate (mem s) pt a = None" by (rule Suc.prems(5)) auto
  let ?lst = "a + of_nat n * PGSIZE"
  have len: "2 \<le> length xs" using Suc.prems(4) by simp
  obtain s1 ys where 1: "mappages_loop h pt a ?lst pa perm s = (if a = ?lst then Some (0, s1)
      else mappages_loop h pt (a + PGSIZE) ?lst (pa + PGSIZE) perm s1)"
    "tbl h pt s1 ys" "grown pt s xs s1 ys" "length xs \<le> length ys + 2"
    "\<And>va. va < MAXVA \<Longrightarrow> translate (mem s1) pt va = mapped a 1 pa perm (translate (mem s) pt) va"
    by (rule mappages_loop_one [OF Suc.prems(1) st(1) len no]) (rule that)
  show ?case
  proof (cases "n = 0")
    case True
    then show ?thesis using 1 by (intro exI [of _ s1] exI [of _ ys]) simp
  next
    case False
    have ne: "a \<noteq> ?lst"
    proof
      assume "a = ?lst"
      then have "of_nat (n * 4096) = (0 :: uint64)" by (simp add: PGSIZE_def)
      moreover have "n * 4096 < 2 ^ 64" using Suc.prems(2) by simp
      ultimately show False using unat_of_nat64 [of "n * 4096"] False by simp
    qed
    have no': "translate (mem s1) pt va = None" if "pgno (a + PGSIZE) \<le> pgno va" "pgno va < pgno (a + PGSIZE) + n" for va
    proof (cases "va < MAXVA")
      case True
      then show ?thesis using 1(5) that Suc.prems(5) [of va] st(3) by (simp add: mapped_def)
    next
      case False
      have "pgno va < 2 ^ 26" using that(2) st(3) Suc.prems(2) by (simp add: pgno_def)
      moreover have "2 ^ 38 \<le> unat va" using False by (simp add: MAXVA_def word_less_nat_alt)
      ultimately show ?thesis by (simp add: pgno_def)
    qed
    have "?lst = (a + PGSIZE) + of_nat (n - 1) * PGSIZE"
      using False by (cases n) (simp_all add: algebra_simps)
    then obtain s' zs where 2: "mappages_loop h pt (a + PGSIZE) ?lst (pa + PGSIZE) perm s1 = Some (0, s')"
      "tbl h pt s' zs" "grown pt s1 ys s' zs" "length ys \<le> length zs + 2 * n"
      "\<forall>va<MAXVA. translate (mem s') pt va = mapped (a + PGSIZE) n (pa + PGSIZE) perm (translate (mem s1) pt) va"
      using Suc.IH [OF 1(2), of "a + PGSIZE" "pa + PGSIZE"] no' False Suc.prems(2,4) st(2) 1(4) by auto
    have "translate (mem s') pt va = mapped a (Suc n) pa perm (translate (mem s) pt) va" if "va < MAXVA" for va
    proof -
      have "translate (mem s') pt va = mapped (a + PGSIZE) n (pa + PGSIZE) perm (translate (mem s1) pt) va"
        using 2(5) that by blast
      also have "\<dots> = mapped (a + PGSIZE) n (pa + PGSIZE) perm (mapped a 1 pa perm (translate (mem s) pt)) va"
        by (rule mapped_cong) (rule 1(5) [OF that])
      also have "\<dots> = mapped a (Suc n) pa perm (translate (mem s) pt) va" by (rule mapped_Suc [OF st(3)])
      finally show ?thesis .
    qed
    then show ?thesis using 1(1,3,4) 2 ne grown_trans [OF 1(3) 2(3)]
      by (intro exI [of _ s'] exI [of _ zs]) simp
  qed
qed simp

lemma walkaddr_spec:
  assumes "pt_wf (mem s) pt F" and "0 \<in> F" and "va < MAXVA"
  shows "walkaddr h pt va s = Some (case translate (mem s) pt va of None \<Rightarrow> 0
    | Some e \<Rightarrow> if e AND PTE_U = 0 then 0 else PTE2PA e)"
proof (cases "leaf (mem s) pt (upper va)")
  case None
  then show ?thesis using assms(3) by (simp add: walkaddr_def walk_no_alloc translate_def not_le)
next
  case (Some q)
  have "pgno q \<noteq> 0" using wf_leaf [OF assms(1) upper_pairs Some] assms(2) by metis
  then have "pte_at q (PX 0 va) \<noteq> 0" by (intro pte_nonzero leaf_aligned [OF Some] PX_less)
  moreover have "\<not> MAXVA \<le> va" using assms(3) by simp
  ultimately show ?thesis using Some
    by (simp add: walkaddr_def walk_no_alloc [OF assms(3)] translate_def entry_def Let_def)
qed

text \<open>A zeroed page is a page table without translations.\<close>

lemma empty_table:
  assumes "unat pt mod 4096 = 0" and "pgno pt \<notin> F" and "\<And>b. pgno b = pgno pt \<Longrightarrow> m b = 0"
  shows "pt_wf m pt F" and "translate m pt va = None"
proof -
  have z: "sub m pt i = None" if "unat i < 512" for i
    using entry_zero [OF assms(1) that assms(3)] by (simp add: sub_entry)
  have "leaf m pt ij = None" if "ij \<in> index_pairs" for ij
    using that z by (auto simp: index_pairs_def leaf_def)
  then show "pt_wf m pt F" "translate m pt va = None"
    using assms z by (simp_all add: pt_wf_def translate_def)
qed

lemma aligned_add:
  assumes "unat (a :: uint64) mod 4096 = 0" and "unat (b :: uint64) mod 4096 = 0"
  shows "unat (a + b) mod 4096 = 0"
proof -
  have "unat (a + b) = (unat a + unat b) mod 2 ^ 64" by (simp add: unat_word_ariths(1))
  moreover have "(unat a + unat b) mod 2 ^ 64 mod 4096 = (unat a + unat b) mod 4096"
    by (rule mod_mod_cancel) simp
  moreover have "(unat a + unat b) mod 4096 = 0" using assms by (simp add: mod_eq_0_iff_dvd)
  ultimately show ?thesis by simp
qed

lemma pgno_PGROUNDDOWN: "pgno (PGROUNDDOWN a) = pgno a" "unat (PGROUNDDOWN a) = pgno a * 4096"
proof -
  show "unat (PGROUNDDOWN a) = pgno a * 4096" by (simp add: unat_PGROUNDDOWN pgno_def minus_mod_eq_div_mult)
  then show "pgno (PGROUNDDOWN a) = pgno a" by (simp add: pgno_def)
qed

text \<open>The number of pages that \<open>sz\<close> bytes from \<open>va\<close> on touch.\<close>

definition npages :: "addr \<Rightarrow> uint64 \<Rightarrow> nat" where
  "npages va sz = Suc (pgno (va + sz - 1) - pgno va)"

lemma mapped_flags:
  assumes "take_bit 10 perm = perm" and "unat pa mod 4096 = 0"
  shows "PTE2PA (PA2PTE pa OR perm OR PTE_V) = pa" and "(PA2PTE pa OR perm OR PTE_V) AND PTE_U = perm AND PTE_U"
proof -
  have "take_bit 10 (perm OR PTE_V) = perm OR PTE_V"
    using assms(1) by (simp add: take_bit_or PTE_consts)
  then show "PTE2PA (PA2PTE pa OR perm OR PTE_V) = pa"
    using PTE2PA_PA2PTE [OF assms(2), of "perm OR PTE_V"] by (simp add: or.assoc)
  have U: "bit PTE_U n \<longleftrightarrow> n = 4" for n
    unfolding PTE_U_def bit_push_bit_iff bit_1_iff by auto
  have "bit ((PA2PTE pa OR perm OR PTE_V) AND PTE_U) n = bit (perm AND PTE_U) n" for n
    by (auto simp: bit_and_iff bit_or_iff U PA2PTE_def bit_push_bit_iff) (simp add: PTE_consts)
  then show "(PA2PTE pa OR perm OR PTE_V) AND PTE_U = perm AND PTE_U" by (intro bit_eqI)
qed

text \<open>The pages of a range: they end below \<open>MAXVA\<close>, and the last of them.\<close>

lemma unat_page_add: "unat a + i * 4096 < 2 ^ 64 \<Longrightarrow> unat (a + of_nat i * PGSIZE) = unat a + i * 4096"
  using unat_of_nat64 [of "i * 4096"] by (simp add: PGSIZE_def unat_plus_if')

lemma npages_range:
  assumes "sz \<noteq> 0" and "unat va + unat sz \<le> 2 ^ 38"
  shows npages_bound: "unat (PGROUNDDOWN va) + npages va sz * 4096 \<le> 2 ^ 38"
    and npages_last: "PGROUNDDOWN (va + sz - 1) = PGROUNDDOWN va + of_nat (npages va sz - 1) * PGSIZE"
proof -
  let ?n = "npages va sz"
  have e: "unat (va + sz - 1) = unat va + unat sz - 1"
  proof -
    have "unat (va + sz) = unat va + unat sz" using assms(2) by (simp add: unat_plus_if')
    moreover have "va + sz \<noteq> 0" using calculation assms(1) unat_gt_0 [of sz] by auto
    ultimately show ?thesis by (simp add: unat_minus_one)
  qed
  have le: "pgno va \<le> pgno (va + sz - 1)"
    unfolding pgno_def e by (rule div_le_mono) (use assms(1) unat_gt_0 [of sz] in linarith)
  have "pgno (va + sz - 1) < 2 ^ 26"
    unfolding pgno_def e using assms unat_gt_0 [of sz] by (simp add: less_mult_imp_div_less)
  moreover have "pgno va + ?n = Suc (pgno (va + sz - 1))" using le by (simp add: npages_def)
  ultimately have "(pgno va + ?n) * 4096 \<le> 2 ^ 26 * 4096" by (intro mult_right_mono) simp_all
  then show bd: "unat (PGROUNDDOWN va) + ?n * 4096 \<le> 2 ^ 38" by (simp add: pgno_PGROUNDDOWN add_mult_distrib)
  have "unat (PGROUNDDOWN va + of_nat (?n - 1) * PGSIZE) = unat (PGROUNDDOWN va) + (?n - 1) * 4096"
    using bd by (intro unat_page_add) (simp add: npages_def)
  also have "\<dots> = pgno (va + sz - 1) * 4096" using le by (simp add: pgno_PGROUNDDOWN npages_def flip: add_mult_distrib)
  finally show "PGROUNDDOWN (va + sz - 1) = PGROUNDDOWN va + of_nat (?n - 1) * PGSIZE"
    by (intro unat_inject [THEN iffD1]) (simp add: pgno_PGROUNDDOWN)
qed

lemma mappages_run:
  assumes "tbl h pt s xs" and "sz \<noteq> 0" and "unat va + unat sz \<le> 2 ^ 38" and "2 * npages va sz \<le> length xs"
    and "\<And>a. pgno va \<le> pgno a \<Longrightarrow> pgno a < pgno va + npages va sz \<Longrightarrow> translate (mem s) pt a = None"
  shows "\<exists>s' ys. mappages h pt va sz pa perm s = Some (0, s') \<and> tbl h pt s' ys \<and> grown pt s xs s' ys
    \<and> (\<forall>a<MAXVA. translate (mem s') pt a = mapped (PGROUNDDOWN va) (npages va sz) pa perm (translate (mem s) pt) a)"
proof -
  have no: "translate (mem s) pt a = None" if "pgno (PGROUNDDOWN va) \<le> pgno a" "pgno a < pgno (PGROUNDDOWN va) + npages va sz" for a
    using assms(5) that by (simp add: pgno_PGROUNDDOWN)
  have pos: "0 < npages va sz" by (simp add: npages_def)
  obtain s' ys where s': "mappages_loop h pt (PGROUNDDOWN va) (PGROUNDDOWN va + of_nat (npages va sz - 1) * PGSIZE) pa perm s = Some (0, s')"
    "tbl h pt s' ys" "grown pt s xs s' ys"
    "\<forall>a<MAXVA. translate (mem s') pt a = mapped (PGROUNDDOWN va) (npages va sz) pa perm (translate (mem s) pt) a"
    using mappages_loop_spec [OF assms(1) npages_bound [OF assms(2,3)] pos assms(4) no] by blast
  then show ?thesis using npages_last [OF assms(2,3)] assms(2) by (auto simp: mappages_def)
qed

lemma mapped_walkaddr:
  assumes tb: "tbl h pt s ys" and tr: "\<forall>a<MAXVA. translate (mem s) pt a = mapped a0 n pa perm f a"
    and bd: "unat a0 + n * 4096 \<le> 2 ^ 38" and perm: "take_bit 10 perm = perm" "perm AND PTE_U \<noteq> 0" and pa: "unat pa mod 4096 = 0" and i: "i < n"
  shows "walkaddr h pt (a0 + of_nat i * PGSIZE) s = Some (pa + of_nat i * PGSIZE)"
proof -
  have b: "unat a0 + i * 4096 < 2 ^ 38" using bd i by simp
  then have u: "unat (a0 + of_nat i * PGSIZE) = unat a0 + i * 4096" by (intro unat_page_add) simp
  then have va: "a0 + of_nat i * PGSIZE < MAXVA" using b by (simp add: MAXVA_def word_less_nat_alt)
  have pg: "pgno (a0 + of_nat i * PGSIZE) = pgno a0 + i" using u by (simp add: pgno_def)
  have "unat (of_nat i * PGSIZE :: uint64) = i * 4096" using unat_page_add [of 0 i] b by simp
  then have "unat (pa + of_nat i * PGSIZE) mod 4096 = 0" by (intro aligned_add) (use pa in simp_all)
  note f = mapped_flags [OF perm(1) this]
  have "translate (mem s) pt (a0 + of_nat i * PGSIZE) = Some (PA2PTE (pa + of_nat i * PGSIZE) OR perm OR PTE_V)"
    using tr va pg i by (simp add: mapped_def)
  moreover have "pt_wf (mem s) pt (free_pages ys)" "0 \<in> free_pages ys" using tb by (simp_all add: tbl_def free_pages_def)
  ultimately show ?thesis using walkaddr_spec [OF _ _ va, of s pt "free_pages ys" h] f perm(2) by simp
qed

subsection \<open>Properties\<close>

text \<open>
  C13. \<open>mappages\<close> updates the translation and nothing else: with two free pages per page to map, it
  returns 0, every page of the range translates to the corresponding physical page with the given
  permissions, every other virtual page translates as before, and the tables are still a tree
  disjoint from the free pages. \<open>walkaddr\<close> then finds the physical page of a user mapping.
\<close>

theorem mappages_correct:
  assumes "tbl h pt s xs" and "sz \<noteq> 0" and "unat va + unat sz \<le> 2 ^ 38" and "2 * npages va sz \<le> length xs"
    and "\<And>a. pgno va \<le> pgno a \<Longrightarrow> pgno a < pgno va + npages va sz \<Longrightarrow> translate (mem s) pt a = None"
    and "take_bit 10 perm = perm" and "unat pa mod 4096 = 0"
  shows "\<exists>s' ys. mappages h pt va sz pa perm s = Some (0, s') \<and> tbl h pt s' ys \<and> grown pt s xs s' ys
    \<and> (\<forall>a<MAXVA. translate (mem s') pt a = mapped (PGROUNDDOWN va) (npages va sz) pa perm (translate (mem s) pt) a)
    \<and> (perm AND PTE_U \<noteq> 0 \<longrightarrow> (\<forall>i<npages va sz.
        walkaddr h pt (PGROUNDDOWN va + of_nat i * PGSIZE) s' = Some (pa + of_nat i * PGSIZE)))"
proof -
  obtain s' ys where s': "mappages h pt va sz pa perm s = Some (0, s')" "tbl h pt s' ys" "grown pt s xs s' ys"
    "\<forall>a<MAXVA. translate (mem s') pt a = mapped (PGROUNDDOWN va) (npages va sz) pa perm (translate (mem s) pt) a"
    using mappages_run [OF assms(1-5)] by blast
  then show ?thesis using mapped_walkaddr [OF s'(2,4) npages_bound [OF assms(2,3)] assms(6) _ assms(7)] by blast
qed

text \<open>A machine with two free pages and an empty page table in the page at \<open>KERNBASE\<close>.\<close>

definition kvm0 :: kmem where
  "kvm0 = with_mem (st64 0x87fff000 0x87ffe000 (\<lambda>_. 0)) 0x87fff000 kmem0"

lemma kvm0_mem: "pgno b = pgno 0x80000000 \<Longrightarrow> mem kvm0 b = 0"
  using st64_page [of "0x87fff000" b "0x87ffe000" "\<lambda>_. 0"] by (auto simp: kvm0_def with_mem_def pgno_def)

lemma kvm0_table: "tbl 0 0x80000000 kvm0 [0x87fff000, 0x87ffe000]" "translate (mem kvm0) 0x80000000 va = None"
proof -
  have z: "pgno b = pgno 0x80000000 \<Longrightarrow> mem kvm0 b = 0" for b by (rule kvm0_mem)
  have al: "unat (0x80000000 :: addr) mod 4096 = 0" by simp
  show "translate (mem kvm0) 0x80000000 va = None"
    by (rule empty_table(2) [OF al, of "{}"]) (use z in auto)
  have "pt_wf (mem kvm0) 0x80000000 (free_pages [0x87fff000, 0x87ffe000])"
    by (rule empty_table(1) [OF al]) (use z in \<open>auto simp: free_pages_def pgno_def\<close>)
  then show "tbl 0 0x80000000 kvm0 [0x87fff000, 0x87ffe000]"
    using kmem0_two by (simp add: tbl_def kvm0_def)
qed

theorem mappages_correct_witness:
  "\<exists>s'. mappages 0 0x80000000 0x1000 0x1000 0x80001000 (PTE_R OR PTE_U) kvm0 = Some (0, s')
    \<and> walkaddr 0 0x80000000 0x1000 s' = Some 0x80001000"
proof -
  have n: "npages 0x1000 0x1000 = 1" by (simp add: npages_def pgno_def)
  have p: "PGROUNDDOWN 0x1000 = 0x1000" by (simp add: PGROUNDDOWN_def PGSIZE_def)
  have f: "take_bit 10 (PTE_R OR PTE_U) = PTE_R OR PTE_U" "(PTE_R OR PTE_U) AND PTE_U \<noteq> 0"
    by (simp_all add: PTE_consts)
  obtain s' ys where "mappages 0 0x80000000 0x1000 0x1000 0x80001000 (PTE_R OR PTE_U) kvm0 = Some (0, s')"
    "(PTE_R OR PTE_U) AND PTE_U \<noteq> 0 \<longrightarrow> (\<forall>i<npages 0x1000 0x1000.
        walkaddr 0 0x80000000 (PGROUNDDOWN 0x1000 + of_nat i * PGSIZE) s' = Some (0x80001000 + of_nat i * PGSIZE))"
    using mappages_correct [OF kvm0_table(1) _ _ _ kvm0_table(2) f(1), of "0x1000" "0x1000" "0x80001000"] n by auto
  then show ?thesis using f(2) p by (auto simp: n)
qed

end
