(* ===== verification/Ucopy.thy ===== *)
theory Ucopy
  imports Vm
begin

text \<open>
  \<open>copyout\<close>, \<open>copyin\<close> and \<open>copyinstr\<close> of \<open>labo2/kernel/vm.c\<close>, and \<open>either_copyout\<close> and \<open>either_copyin\<close> of
  \<open>proc.c\<close>: copying between a kernel object and the memory of a user process, page by page through the
  process's page table. The kernel side is the list of bytes of the object: the source of
  \<open>copyout\<close>, and what \<open>copyin\<close> has written to its destination when it returns, also when it fails
  half-way.
\<close>

subsection \<open>Definitions\<close>

text \<open>\<open>memmove\<close> to physical memory from an object, and from physical memory to an object.\<close>

primrec put_bytes :: "addr \<Rightarrow> uchar list \<Rightarrow> mem \<Rightarrow> mem" where
  "put_bytes a [] m = m"
| "put_bytes a (b # bs) m = put_bytes (a + 1) bs (m(a := b))"

definition get_bytes :: "addr \<Rightarrow> nat \<Rightarrow> mem \<Rightarrow> uchar list" where
  "get_bytes a n m = map (\<lambda>i. m (a + of_nat i)) [0..<n]"

text \<open>How many of \<open>len\<close> bytes are left in the page of \<open>va\<close>.\<close>

definition page_room :: "addr \<Rightarrow> nat \<Rightarrow> nat" where
  "page_room va len = (let n = unat (PGSIZE - (va - PGROUNDDOWN va)) in if n > len then len else n)"

lemma page_offset: "unat (va - PGROUNDDOWN va) = unat va mod 4096"
proof -
  have "PGROUNDDOWN va \<le> va" by (simp add: word_le_nat_alt unat_PGROUNDDOWN)
  then show ?thesis by (simp add: unat_sub unat_PGROUNDDOWN)
qed

lemma page_room_eq: "page_room va len = min (4096 - unat va mod 4096) len"
proof -
  have "va - PGROUNDDOWN va \<le> PGSIZE" by (simp add: word_le_nat_alt page_offset PGSIZE_def less_imp_le_nat)
  then have "unat (PGSIZE - (va - PGROUNDDOWN va)) = 4096 - unat va mod 4096"
    by (simp add: unat_sub page_offset PGSIZE_def)
  then show ?thesis by (simp add: page_room_def Let_def min_def)
qed

lemma page_room_pos: "0 < len \<Longrightarrow> 0 < page_room va len" "page_room va len \<le> len" "page_room va len \<le> 4096"
  by (simp_all add: page_room_eq)

function copyout ::
  "nat \<Rightarrow> addr \<Rightarrow> addr \<Rightarrow> uchar list \<Rightarrow> 'a kmem_scheme \<Rightarrow> (int \<times> 'a kmem_scheme) option" where
  "copyout h pagetable dstva src s =
     (if src = [] then Some (0, s)
      else let va0 = PGROUNDDOWN dstva; n = page_room dstva (length src) in
        Option.bind (walkaddr h pagetable va0 s) (\<lambda>pa0.
          if pa0 = 0 then Some (-1, s)
          else copyout h pagetable (va0 + PGSIZE) (drop n src)
                 (s\<lparr>mem := put_bytes (pa0 + (dstva - va0)) (take n src) (mem s)\<rparr>)))"
  by auto
termination
  by (relation "measure (\<lambda>(h, pagetable, dstva, src, s). length src)") (simp_all add: page_room_pos)

function copyin :: "nat \<Rightarrow> addr \<Rightarrow> addr \<Rightarrow> nat \<Rightarrow> 'a kmem_scheme \<Rightarrow> (int \<times> uchar list) option" where
  "copyin h pagetable srcva len s =
     (if len = 0 then Some (0, [])
      else let va0 = PGROUNDDOWN srcva; n = page_room srcva len in
        Option.bind (walkaddr h pagetable va0 s) (\<lambda>pa0.
          if pa0 = 0 then Some (-1, [])
          else Option.bind (copyin h pagetable (va0 + PGSIZE) (len - n) s) (\<lambda>(r, bs).
            Some (r, get_bytes (pa0 + (srcva - va0)) n (mem s) @ bs))))"
  by auto
termination
  by (relation "measure (\<lambda>(h, pagetable, srcva, len, s). len)") (simp_all add: page_room_pos)

text \<open>The inner loop of \<open>copyinstr\<close>: the bytes up to the null byte, which is included, or \<open>n\<close> bytes.\<close>

primrec copy_until_null :: "nat \<Rightarrow> addr \<Rightarrow> mem \<Rightarrow> bool \<times> uchar list" where
  "copy_until_null 0 p m = (False, [])"
| "copy_until_null (Suc n) p m =
     (if m p = 0 then (True, [0]) else let (got_null, bs) = copy_until_null n (p + 1) m in (got_null, m p # bs))"

function copyinstr :: "nat \<Rightarrow> addr \<Rightarrow> addr \<Rightarrow> nat \<Rightarrow> 'a kmem_scheme \<Rightarrow> (int \<times> uchar list) option" where
  "copyinstr h pagetable srcva bound s =
     (if bound = 0 then Some (-1, [])
      else let va0 = PGROUNDDOWN srcva; n = page_room srcva bound in
        Option.bind (walkaddr h pagetable va0 s) (\<lambda>pa0.
          if pa0 = 0 then Some (-1, [])
          else let (got_null, bs) = copy_until_null n (pa0 + (srcva - va0)) (mem s) in
            if got_null then Some (0, bs)
            else Option.bind (copyinstr h pagetable (va0 + PGSIZE) (bound - n) s) (\<lambda>(r, bs').
              Some (r, bs @ bs'))))"
  by auto
termination
  by (relation "measure (\<lambda>(h, pagetable, srcva, bound, s). bound)") (simp_all add: page_room_pos)

declare copyout.simps [simp del] copyin.simps [simp del] copyinstr.simps [simp del]

text \<open>
  The destination of \<open>either_copyout\<close> and of \<open>readi\<close>: a user address, an address of kernel memory, or a
  local variable of the caller, whose bytes the caller then gets as the result. The source of
  \<open>either_copyin\<close> and of \<open>writei\<close> is a user address or a local variable.
\<close>

datatype dest = DUser addr | DKern addr | DLocal
datatype source = SUser addr | SLocal "uchar list"

definition either_copyout ::
  "nat \<Rightarrow> dest \<Rightarrow> uchar list \<Rightarrow> 'a kmem_scheme \<Rightarrow> (int \<times> 'a kmem_scheme) option" where
  "either_copyout h dst src s = do {
     (mp, s) \<leftarrow> myproc h s;
     case dst of
       DUser a \<Rightarrow> do { p \<leftarrow> mp; copyout h (p_pagetable (procs s p)) a src s }
     | DKern a \<Rightarrow> Some (0, s\<lparr>mem := put_bytes a src (mem s)\<rparr>)
     | DLocal \<Rightarrow> Some (0, s) }"

definition either_copyin ::
  "nat \<Rightarrow> source \<Rightarrow> nat \<Rightarrow> 'a kmem_scheme \<Rightarrow> (int \<times> uchar list \<times> 'a kmem_scheme) option" where
  "either_copyin h src len s = do {
     (mp, s) \<leftarrow> myproc h s;
     case src of
       SUser a \<Rightarrow> do { p \<leftarrow> mp; (r, bs) \<leftarrow> copyin h (p_pagetable (procs s p)) a len s; Some (r, bs, s) }
     | SLocal bs \<Rightarrow> Some (0, take len bs, s) }"

subsection \<open>What a process sees\<close>

text \<open>The physical address behind a user virtual address, when the page is mapped for the user.\<close>

definition uaddr :: "mem \<Rightarrow> addr \<Rightarrow> addr \<Rightarrow> addr option" where
  "uaddr m pt va = (if va < MAXVA then case translate m pt va of None \<Rightarrow> None
     | Some e \<Rightarrow> if e AND PTE_U = 0 \<or> PTE2PA e = 0 then None else Some (PTE2PA e + (va - PGROUNDDOWN va))
     else None)"

lemma length_get_bytes [simp]: "length (get_bytes a n m) = n"
  by (simp add: get_bytes_def)

lemma nth_get_bytes: "i < n \<Longrightarrow> get_bytes a n m ! i = m (a + of_nat i)"
  by (simp add: get_bytes_def)

lemma put_bytes_spec:
  "length bs \<le> 2 ^ 64 \<Longrightarrow> put_bytes a bs m b = (if unat (b - a) < length bs then bs ! unat (b - a) else m b)"
proof (induction bs arbitrary: a m)
  case (Cons x bs)
  show ?case
  proof (cases "b = a")
    case True
    then show ?thesis using Cons unat_self_pred [of a] by auto
  next
    case False
    then show ?thesis using Cons unat_pred [OF False] by (auto simp: nth_Cons')
  qed
qed simp

lemma unat_of_nat_page: "i < 4096 \<Longrightarrow> unat (of_nat i :: addr) = i"
  by (rule unat_of_nat64) simp

lemma put_bytes_at:
  assumes "length bs \<le> 4096"
  shows "i < length bs \<Longrightarrow> put_bytes a bs m (a + of_nat i) = bs ! i"
    and "(\<And>i. i < length bs \<Longrightarrow> b \<noteq> a + of_nat i) \<Longrightarrow> put_bytes a bs m b = m b"
proof -
  have len: "length bs \<le> 2 ^ 64" using assms by simp
  show "i < length bs \<Longrightarrow> put_bytes a bs m (a + of_nat i) = bs ! i"
    using put_bytes_spec [OF len, of a m "a + of_nat i"] assms unat_of_nat_page [of i] by simp
  assume *: "\<And>i. i < length bs \<Longrightarrow> b \<noteq> a + of_nat i"
  have "\<not> unat (b - a) < length bs" using * [of "unat (b - a)"] by auto
  then show "put_bytes a bs m b = m b" using put_bytes_spec [OF len, of a m b] by simp
qed

text \<open>Inside one page: the offsets and the translation.\<close>

lemma in_page:
  assumes "i < page_room va len"
  shows "pgno (va + of_nat i) = pgno va" and "unat (va + of_nat i) = unat va + i"
    and "va + of_nat i - PGROUNDDOWN (va + of_nat i) = (va - PGROUNDDOWN va) + of_nat i"
proof -
  have i: "unat va mod 4096 + i < 4096" using assms mod_less_divisor [of 4096 "unat va"] by (auto simp: page_room_eq)
  have "unat va + i < 2 ^ 64"
  proof -
    have "unat va div 4096 < 2 ^ 52" using unat_less_64 [of va] by (simp add: less_mult_imp_div_less)
    then have "(unat va div 4096 + 1) * 4096 \<le> 2 ^ 52 * 4096" by (intro mult_right_mono) simp_all
    moreover have "unat va + i < (unat va div 4096 + 1) * 4096"
      unfolding add_mult_distrib using i div_mult_mod_eq [of "unat va" 4096] by linarith
    ultimately show ?thesis by simp
  qed
  moreover have "i < 4096" using i by simp
  ultimately show u: "unat (va + of_nat i) = unat va + i"
    using unat_of_nat_page [of i] by (simp add: unat_plus_if')
  have "(unat va + i) div 4096 = unat va div 4096"
  proof -
    have "unat va + i = (unat va mod 4096 + i) + unat va div 4096 * 4096"
      using div_mult_mod_eq [of "unat va" 4096] by linarith
    then show ?thesis using i by (simp only: div_mult_self1)
  qed
  then show p: "pgno (va + of_nat i) = pgno va" by (simp add: pgno_def u)
  have "PGROUNDDOWN (va + of_nat i) = PGROUNDDOWN va"
    by (rule unat_inject [THEN iffD1]) (simp add: pgno_PGROUNDDOWN(2) p)
  then show "va + of_nat i - PGROUNDDOWN (va + of_nat i) = (va - PGROUNDDOWN va) + of_nat i" by simp
qed

lemma MAXVA_pgno: "va < MAXVA \<longleftrightarrow> pgno va < 2 ^ 26"
  by (simp add: MAXVA_def word_less_nat_alt pgno_def less_mult_imp_div_less div_less_iff_less_mult)

lemma translate_page:
  assumes "pgno va' = pgno va" and "va < MAXVA"
  shows "translate m pt va' = translate m pt va"
proof -
  have "va' < MAXVA" using assms by (simp add: MAXVA_pgno)
  from same_page [OF assms(2) this] assms(1) show ?thesis by (simp add: translate_def)
qed

lemma uaddr_page:
  assumes "i < page_room va len"
  shows "uaddr m pt (va + of_nat i) = map_option (\<lambda>a. a + of_nat i) (uaddr m pt va)"
proof (cases "va < MAXVA")
  case True
  note p = in_page [OF assms]
  have "va + of_nat i < MAXVA" using True p(1) by (simp add: MAXVA_pgno)
  then show ?thesis using True translate_page [OF p(1) True] p(3)
    by (auto simp: uaddr_def algebra_simps split: option.splits)
next
  case False
  then show ?thesis using in_page(1) [OF assms] MAXVA_pgno [of va] MAXVA_pgno [of "va + of_nat i"]
    by (simp add: uaddr_def)
qed

lemma walkaddr_uaddr:
  assumes "pt_wf (mem s) pt F" and "0 \<in> F"
  shows "\<exists>pa0. walkaddr h pt (PGROUNDDOWN va) s = Some pa0
    \<and> uaddr (mem s) pt va = (if pa0 = 0 then None else Some (pa0 + (va - PGROUNDDOWN va)))"
proof (cases "va < MAXVA")
  case True
  have p: "pgno (PGROUNDDOWN va) = pgno va" by (rule pgno_PGROUNDDOWN)
  have "PGROUNDDOWN va < MAXVA" using True p by (simp add: MAXVA_pgno)
  from walkaddr_spec [OF assms this] translate_page [OF p True] True show ?thesis
    by (auto simp: uaddr_def split: option.splits)
next
  case False
  then have "MAXVA \<le> PGROUNDDOWN va" using pgno_PGROUNDDOWN(1) [of va] MAXVA_pgno by (metis linorder_not_le)
  with False show ?thesis by (simp add: walkaddr_def uaddr_def)
qed

text \<open>The next page starts where the room of this one ends.\<close>

lemma next_page:
  assumes "page_room va len < len"
  shows "PGROUNDDOWN va + PGSIZE = va + of_nat (page_room va len)"
proof -
  have n: "page_room va len = 4096 - unat va mod 4096" using assms by (auto simp: page_room_eq)
  have "va = PGROUNDDOWN va + of_nat (unat va mod 4096)"
    unfolding page_offset [of va, symmetric] by simp
  moreover have "(of_nat (unat va mod 4096) :: addr) + of_nat (4096 - unat va mod 4096) = PGSIZE"
  proof -
    have "unat va mod 4096 + (4096 - unat va mod 4096) = 4096" by simp
    then have "(of_nat (unat va mod 4096 + (4096 - unat va mod 4096)) :: addr) = of_nat 4096" by (simp only:)
    then show ?thesis by (simp only: of_nat_add PGSIZE_def of_nat_numeral)
  qed
  moreover have "a + p = v + b" if "v = a + c" "c + b = p" for a b c p v :: addr using that by (simp add: add.assoc)
  ultimately show ?thesis unfolding n by blast
qed

lemma split_range:
  fixes n len :: nat
  assumes "\<And>i. i < n \<Longrightarrow> P i" and "n \<le> len"
  shows "(\<forall>i<len. P i) \<longleftrightarrow> (\<forall>i<len - n. P (n + i))"
proof (intro iffI allI impI)
  fix i assume *: "\<forall>i<len - n. P (n + i)" and "i < len"
  show "P i"
  proof (cases "i < n")
    case False
    then have "P (n + (i - n))" using \<open>i < len\<close> by (intro * [rule_format]) linarith
    with False show ?thesis by simp
  qed (rule assms(1))
qed (use assms(2) in auto)

subsection \<open>Correctness of the copies\<close>

lemma copyin_spec:
  assumes wf: "pt_wf (mem s) pt F" "0 \<in> F"
  shows "\<exists>r bs. copyin h pt va len s = Some (r, bs) \<and> (r = 0 \<or> r = -1)
    \<and> (r = 0 \<longleftrightarrow> (\<forall>i<len. uaddr (mem s) pt (va + of_nat i) \<noteq> None)) \<and> (r = 0 \<longrightarrow> length bs = len) \<and> length bs \<le> len
    \<and> (\<forall>i<length bs. \<exists>a. uaddr (mem s) pt (va + of_nat i) = Some a \<and> bs ! i = mem s a)"
proof (induction len arbitrary: va rule: less_induct)
  case (less len)
  show ?case
  proof (cases "len = 0")
    case True
    then show ?thesis by (simp add: copyin.simps)
  next
    case False
    let ?n = "page_room va len" and ?va0 = "PGROUNDDOWN va"
    have n: "0 < ?n" "?n \<le> len" using page_room_pos(1) [of len va] page_room_pos(2) False by simp_all
    obtain pa0 where pa0: "walkaddr h pt ?va0 s = Some pa0"
      "uaddr (mem s) pt va = (if pa0 = 0 then None else Some (pa0 + (va - ?va0)))"
      using walkaddr_uaddr [OF wf, of h va] by blast
    show ?thesis
    proof (cases "pa0 = 0")
      case True
      then have "uaddr (mem s) pt (va + of_nat 0) = None" using pa0(2) by simp
      then have "\<not> (\<forall>i<len. uaddr (mem s) pt (va + of_nat i) \<noteq> None)" using False by blast
      then show ?thesis using True False pa0(1) by (simp add: copyin.simps Let_def)
    next
      case pa: False
      have here: "uaddr (mem s) pt (va + of_nat i) = Some (pa0 + (va - ?va0) + of_nat i)" if "i < ?n" for i
        using uaddr_page [OF that, of "mem s" pt] pa0(2) pa by simp
      obtain r bs where rest: "copyin h pt (?va0 + PGSIZE) (len - ?n) s = Some (r, bs)" "r = 0 \<or> r = -1"
        "r = 0 \<longleftrightarrow> (\<forall>i<len - ?n. uaddr (mem s) pt (?va0 + PGSIZE + of_nat i) \<noteq> None)"
        "r = 0 \<longrightarrow> length bs = len - ?n" "length bs \<le> len - ?n"
        "\<forall>i<length bs. \<exists>a. uaddr (mem s) pt (?va0 + PGSIZE + of_nat i) = Some a \<and> bs ! i = mem s a"
        using less.IH [of "len - ?n" "?va0 + PGSIZE"] n by auto
      have step: "?va0 + PGSIZE + of_nat j = va + of_nat (?n + j)" if "?n < len" for j
        using next_page [OF that] by simp
      let ?bs = "get_bytes (pa0 + (va - ?va0)) ?n (mem s) @ bs"
      have "\<exists>a. uaddr (mem s) pt (va + of_nat i) = Some a \<and> ?bs ! i = mem s a" if "i < length ?bs" for i
      proof (cases "i < ?n")
        case True
        then show ?thesis using here [OF True] by (simp add: nth_append nth_get_bytes)
      next
        case False
        then have i: "i - ?n < length bs" "?n < len" using that rest(5) by auto
        have e: "?va0 + PGSIZE + of_nat (i - ?n) = va + of_nat i" using step [OF i(2), of "i - ?n"] False by (simp only:) simp
        show ?thesis using rest(6) [rule_format, OF i(1)] False unfolding e by (simp add: nth_append)
      qed
      moreover have "r = 0 \<longleftrightarrow> (\<forall>i<len. uaddr (mem s) pt (va + of_nat i) \<noteq> None)"
      proof -
        have "(\<forall>i<len. uaddr (mem s) pt (va + of_nat i) \<noteq> None)
            \<longleftrightarrow> (\<forall>i<len - ?n. uaddr (mem s) pt (va + of_nat (?n + i)) \<noteq> None)"
          by (rule split_range) (use here n in auto)
        then show ?thesis using rest(3) step by auto
      qed
      ultimately show ?thesis using rest n False pa pa0(1)
        by (intro exI [of _ r] exI [of _ ?bs]) (simp add: copyin.simps [of h pt va len] Let_def)
    qed
  qed
qed

text \<open>A write outside the tables leaves the page table as it is.\<close>

lemma tables_cong:
  assumes wf: "pt_wf m pt F" and eq: "\<And>b. pgno b \<in> tables m pt \<Longrightarrow> m' b = m b"
  shows "pt_wf m' pt F" and "tables m' pt = tables m pt" and "translate m' pt va = translate m pt va"
proof -
  have root: "sub m' pt i = sub m pt i" if "unat i < 512" for i
    using entry_page [OF wf_root(1) [OF wf] that, of m' m] eq tables_root [of pt m] by (simp add: sub_entry)
  have lf: "leaf m' pt ij = leaf m pt ij" if pr: "ij \<in> index_pairs" for ij
  proof -
    obtain i j where ij: "ij = (i, j)" "unat i < 512" "unat j < 512" using pr by (auto simp: index_pairs_def)
    have "sub m' p j = sub m p j" if "sub m pt i = Some p" for p
      using entry_page [OF sub_aligned [OF that] ij(3), of m' m] eq tables_sub [OF ij(2) that] by (simp add: sub_entry)
    then show ?thesis using root [OF ij(2)] by (cases "sub m pt i") (simp_all add: ij(1) leaf_def)
  qed
  show "pt_wf m' pt F"
    using wf unfolding pt_wf_def by (simp add: root lf cong: imp_cong ball_cong)
  show "tables m' pt = tables m pt"
    unfolding tables_def by (simp add: root lf cong: conj_cong bex_cong)
  have "entry m' r (PX 0 va) = entry m r (PX 0 va)" if "leaf m pt (upper va) = Some r" for r
    using entry_page [OF leaf_aligned [OF that] PX_less, of m' m] eq tables_leaf [OF upper_pairs that] by simp
  then show "translate m' pt va = translate m pt va"
    using lf [OF upper_pairs] by (cases "leaf m pt (upper va)") (simp_all add: translate_def)
qed

text \<open>
  The bytes of the range are the process's own: none of them lies in a page table page, and no two of
  them are the same byte of memory.
\<close>

definition own_range :: "mem \<Rightarrow> addr \<Rightarrow> addr \<Rightarrow> nat \<Rightarrow> bool" where
  "own_range m pt va len \<longleftrightarrow> (\<forall>i<len. \<forall>a. uaddr m pt (va + of_nat i) = Some a \<longrightarrow> pgno a \<notin> tables m pt
     \<and> (\<forall>j<len. uaddr m pt (va + of_nat j) = Some a \<longrightarrow> j = i))"

definition urange :: "mem \<Rightarrow> addr \<Rightarrow> addr \<Rightarrow> nat \<Rightarrow> addr set" where
  "urange m pt va len = {a. \<exists>i<len. uaddr m pt (va + of_nat i) = Some a}"

text \<open>What a copy of \<open>src\<close> to the address \<open>va\<close> has done; two copies to neighbouring places are one.\<close>

definition copied :: "mem \<Rightarrow> addr \<Rightarrow> addr \<Rightarrow> uchar list \<Rightarrow> bool \<Rightarrow> mem \<Rightarrow> bool" where
  "copied m pt va src good m' \<longleftrightarrow> (good \<longleftrightarrow> (\<forall>i<length src. uaddr m pt (va + of_nat i) \<noteq> None))
     \<and> (good \<longrightarrow> (\<forall>i<length src. \<forall>a. uaddr m pt (va + of_nat i) = Some a \<longrightarrow> m' a = src ! i))
     \<and> (\<forall>a. a \<notin> urange m pt va (length src) \<longrightarrow> m' a = m a)"

lemma own_range_part:
  assumes "own_range m pt va (n + k)"
  shows "own_range m pt va n" and "own_range m pt (va + of_nat n) k"
proof -
  show "own_range m pt va n" using assms unfolding own_range_def by (meson trans_less_add1)
  show "own_range m pt (va + of_nat n) k" unfolding own_range_def
  proof (intro allI impI conjI)
    fix i a assume i: "i < k" "uaddr m pt (va + of_nat n + of_nat i) = Some a"
    then have u: "uaddr m pt (va + of_nat (n + i)) = Some a" by (simp add: add.assoc)
    then show "pgno a \<notin> tables m pt" using assms i(1) unfolding own_range_def by (meson nat_add_left_cancel_less)
    fix j assume "j < k" "uaddr m pt (va + of_nat n + of_nat j) = Some a"
    then have "uaddr m pt (va + of_nat (n + j)) = Some a" "n + j < n + k" by (simp_all add: add.assoc)
    then have "n + j = n + i" using assms u i(1) unfolding own_range_def by (meson nat_add_left_cancel_less)
    then show "j = i" by simp
  qed
qed

lemma own_range_tables: "own_range m pt va n \<Longrightarrow> b \<in> urange m pt va n \<Longrightarrow> pgno b \<notin> tables m pt"
  by (auto simp: own_range_def urange_def)

lemma copied_twice:
  assumes wf: "pt_wf m pt F" and own: "own_range m pt va (length xs + length ys)" and 1: "copied m pt va xs True m1"
    and 2: "copied m1 pt (va + of_nat (length xs)) ys good m2"
  shows "copied m pt va (xs @ ys) good m2"
proof -
  have t: "m1 b = m b" if "pgno b \<in> tables m pt" for b
  proof -
    have "b \<notin> urange m pt va (length xs)" using that own_range_tables [OF own_range_part(1) [OF own], of b] by blast
    then show ?thesis using 1 by (simp add: copied_def)
  qed
  have u: "uaddr m1 pt v = uaddr m pt v" for v using tables_cong(3) [OF wf t] by (simp add: uaddr_def)
  have sp: "(\<forall>i<length (xs @ ys). P i) \<longleftrightarrow> (\<forall>i<length xs. P i) \<and> (\<forall>i<length ys. P (length xs + i))" for P
    by (auto simp: less_diff_conv2 dest: less_imp_add_positive) (metis add.commute add_diff_inverse_nat nat_add_left_cancel_less)
  have keep: "m2 a = m1 a" if "uaddr m pt (va + of_nat i) = Some a" "i < length xs" for i a
  proof -
    have "a \<notin> urange m1 pt (va + of_nat (length xs)) (length ys)"
    proof
      assume "a \<in> urange m1 pt (va + of_nat (length xs)) (length ys)"
      then obtain j where "j < length ys" "uaddr m pt (va + of_nat (length xs + j)) = Some a" by (auto simp: urange_def u add.assoc)
      then have "length xs + j = i" using own that unfolding own_range_def by (meson nat_add_left_cancel_less trans_less_add1)
      then show False using that(2) by simp
    qed
    then show ?thesis using 2 by (simp add: copied_def)
  qed
  have g: "good \<longleftrightarrow> (\<forall>i<length (xs @ ys). uaddr m pt (va + of_nat i) \<noteq> None)"
    using 1 2 unfolding sp by (simp add: copied_def u add.assoc)
  have "\<forall>i<length (xs @ ys). \<forall>a. uaddr m pt (va + of_nat i) = Some a \<longrightarrow> m2 a = (xs @ ys) ! i" if good
    unfolding sp using 1 2 that keep by (auto simp: copied_def u add.assoc nth_append)
  moreover have "m2 a = m a" if "a \<notin> urange m pt va (length (xs @ ys))" for a
  proof -
    have "a \<notin> urange m pt va (length xs)" using that by (auto simp: urange_def)
    moreover have "a \<notin> urange m1 pt (va + of_nat (length xs)) (length ys)"
    proof
      assume "a \<in> urange m1 pt (va + of_nat (length xs)) (length ys)"
      then obtain j where "j < length ys" "uaddr m pt (va + of_nat (length xs + j)) = Some a" by (auto simp: urange_def u add.assoc)
      then have "a \<in> urange m pt va (length (xs @ ys))" unfolding urange_def by (intro CollectI exI [of _ "length xs + j"]) simp
      then show False using that by simp
    qed
    ultimately show ?thesis using 1 2 by (simp add: copied_def)
  qed
  ultimately show ?thesis using g unfolding copied_def by blast
qed

lemma copied_first: "copied m pt va xs False m1 \<Longrightarrow> copied m pt va (xs @ ys) False m1"
  unfolding copied_def urange_def by (auto intro: trans_less_add1)

lemma own_range_copied:
  assumes wf: "pt_wf m pt F" and own: "own_range m pt va (length xs + n)" and c: "copied m pt va xs True m1"
  shows "pt_wf m1 pt F" and "own_range m1 pt (va + of_nat (length xs)) n"
proof -
  have "m1 b = m b" if "pgno b \<in> tables m pt" for b
    using that c own_range_tables [OF own_range_part(1) [OF own], of b] by (auto simp: copied_def)
  note tc = tables_cong [OF wf this]
  show "pt_wf m1 pt F" by (rule tc(1))
  show "own_range m1 pt (va + of_nat (length xs)) n" using own_range_part(2) [OF own] tc(2,3) by (simp add: own_range_def uaddr_def)
qed

text \<open>One round of the loop: the part of the range that lies in one page.\<close>

lemma copied_page:
  assumes u: "uaddr m pt va = Some b" and own: "own_range m pt va (length src)" and n: "length src \<le> page_room va len"
  shows "copied m pt va src True (put_bytes b src m)"
proof -
  have here: "uaddr m pt (va + of_nat i) = Some (b + of_nat i)" if "i < length src" for i
    using uaddr_page [of i va len m pt] that n u by simp
  have len: "length src \<le> 4096" using n page_room_pos(3) [of va len] by simp
  have "put_bytes b src m a = m a" if "a \<notin> urange m pt va (length src)" for a
    by (rule put_bytes_at(2)) (use that here len in \<open>auto simp: urange_def\<close>)
  then show ?thesis using here put_bytes_at(1) [of src] len by (auto simp: copied_def)
qed

lemma copyout_page:
  fixes s :: "'a kmem_scheme"
  assumes wf: "pt_wf (mem s) pt F" "0 \<in> F" and own: "own_range (mem s) pt va (length src)" and src: "src \<noteq> []"
  defines "n \<equiv> page_room va (length src)"
  shows "(uaddr (mem s) pt va = None \<and> copyout h pt va src s = Some (-1, s)) \<or>
    (\<exists>m. copied (mem s) pt va (take n src) True m
      \<and> copyout h pt va src s = copyout h pt (PGROUNDDOWN va + PGSIZE) (drop n src) (s\<lparr>mem := m\<rparr>))"
proof -
  have n: "n \<le> length src" "length (take n src) = n" using page_room_pos(2) [of va "length src"] by (simp_all add: n_def)
  obtain pa0 where pa0: "walkaddr h pt (PGROUNDDOWN va) s = Some pa0"
    "uaddr (mem s) pt va = (if pa0 = 0 then None else Some (pa0 + (va - PGROUNDDOWN va)))"
    using walkaddr_uaddr [OF wf, of h va] by blast
  show ?thesis
  proof (cases "pa0 = 0")
    case True
    then show ?thesis using pa0 src by (simp add: copyout.simps Let_def)
  next
    case False
    let ?b = "pa0 + (va - PGROUNDDOWN va)"
    have "own_range (mem s) pt va n" using own_range_part(1) [of "mem s" pt va n "length src - n"] own n by simp
    then have "copied (mem s) pt va (take n src) True (put_bytes ?b (take n src) (mem s))"
      using copied_page [of "mem s" pt va ?b "take n src" "length src"] pa0(2) False n by (simp add: n_def)
    moreover have "copyout h pt va src s = copyout h pt (PGROUNDDOWN va + PGSIZE) (drop n src) (s\<lparr>mem := put_bytes ?b (take n src) (mem s)\<rparr>)"
      using pa0(1) False src by (simp add: copyout.simps [of h pt va src] Let_def n_def)
    ultimately show ?thesis by blast
  qed
qed

lemma copyout_copied:
  fixes s :: "'a kmem_scheme"
  assumes "pt_wf (mem s) pt F" and F: "0 \<in> F" and "own_range (mem s) pt va (length src)"
  shows "\<exists>good m. copyout h pt va src s = Some (if good then 0 else -1, s\<lparr>mem := m\<rparr>) \<and> copied (mem s) pt va src good m"
  using assms(1,3)
proof (induction "length src" arbitrary: va src s rule: less_induct)
  case less
  let ?n = "page_room va (length src)"
  show ?case
  proof (cases "src = []")
    case True
    then show ?thesis by (intro exI [of _ True] exI [of _ "mem s"]) (simp add: copyout.simps copied_def)
  next
    case False
    then have n: "0 < ?n" "?n \<le> length src" using page_room_pos(1) [of "length src" va] page_room_pos(2) by simp_all
    show ?thesis using copyout_page [OF less.prems(1) F less.prems(2) False, of h]
    proof (elim disjE exE conjE)
      assume "uaddr (mem s) pt va = None" "copyout h pt va src s = Some (-1, s)"
      moreover have "\<exists>i<length src. uaddr (mem s) pt (va + of_nat i) = None" using calculation(1) False by (intro exI [of _ 0]) simp
      ultimately show ?thesis by (intro exI [of _ False] exI [of _ "mem s"]) (simp add: copied_def)
    next
      fix m assume c: "copied (mem s) pt va (take ?n src) True m"
        and run: "copyout h pt va src s = copyout h pt (PGROUNDDOWN va + PGSIZE) (drop ?n src) (s\<lparr>mem := m\<rparr>)"
      show ?thesis
      proof (cases "?n < length src")
        case False
        then have "take ?n src = src" "drop ?n src = []" by simp_all
        then show ?thesis using c run by (intro exI [of _ True] exI [of _ m]) (simp add: copyout.simps)
      next
        case True
        have own: "own_range (mem s) pt va (length (take ?n src) + length (drop ?n src))" using less.prems(2) n by simp
        note o = own_range_copied [OF less.prems(1) own c]
        have at: "va + of_nat (length (take ?n src)) = PGROUNDDOWN va + PGSIZE" using next_page [OF True] n by (simp add: min_def)
        have "length (drop ?n src) < length src" using n(1) False by simp
        from less.hyps [OF this, of "s\<lparr>mem := m\<rparr>" "PGROUNDDOWN va + PGSIZE"] o [unfolded at] obtain good m' where
          m': "copyout h pt va src s = Some (if good then 0 else -1, s\<lparr>mem := m'\<rparr>)" "copied m pt (PGROUNDDOWN va + PGSIZE) (drop ?n src) good m'"
          unfolding run by auto
        have "copied (mem s) pt va (take ?n src @ drop ?n src) good m'"
          using copied_twice [OF less.prems(1) own c, of good m'] m'(2) unfolding at .
        then have "copied (mem s) pt va src good m'" unfolding append_take_drop_id .
        then show ?thesis using m'(1) by (intro exI [of _ good] exI [of _ m'] conjI)
      qed
    qed
  qed
qed

lemma copyout_spec:
  fixes s :: "'a kmem_scheme"
  assumes "pt_wf (mem s) pt F" and "0 \<in> F" and "own_range (mem s) pt va (length src)"
  shows "\<exists>r m. copyout h pt va src s = Some (r, s\<lparr>mem := m\<rparr>) \<and> (r = 0 \<or> r = -1)
    \<and> (r = 0 \<longleftrightarrow> (\<forall>i<length src. uaddr (mem s) pt (va + of_nat i) \<noteq> None))
    \<and> (r = 0 \<longrightarrow> (\<forall>i<length src. \<forall>a. uaddr (mem s) pt (va + of_nat i) = Some a \<longrightarrow> m a = src ! i))
    \<and> (\<forall>a. a \<notin> urange (mem s) pt va (length src) \<longrightarrow> m a = mem s a)"
proof -
  obtain good m where "copyout h pt va src s = Some (if good then 0 else -1, s\<lparr>mem := m\<rparr>)" "copied (mem s) pt va src good m"
    using copyout_copied [OF assms, of h] by blast
  then show ?thesis by (intro exI [of _ "if good then 0 else -1"] exI [of _ m]) (auto simp: copied_def)
qed

text \<open>
  C16. Copying out to a process and in again is the identity: when every byte of the range is mapped for
  the user and is the process's own, \<open>copyout\<close> returns 0, \<open>copyin\<close> of the same range then returns 0 with
  the very bytes, and no byte of memory outside the range has changed. When some byte of the range is
  not mapped for the user, both return -1, and \<open>copyout\<close> has still written inside the range only.
\<close>

theorem copy_roundtrip:
  fixes s :: "'a kmem_scheme"
  assumes "pt_wf (mem s) pt F" and "0 \<in> F" and "own_range (mem s) pt va (length src)"
  shows "\<exists>r m. copyout h pt va src s = Some (r, s\<lparr>mem := m\<rparr>)
    \<and> (\<forall>a. a \<notin> urange (mem s) pt va (length src) \<longrightarrow> m a = mem s a)
    \<and> (if \<forall>i<length src. uaddr (mem s) pt (va + of_nat i) \<noteq> None
       then r = 0 \<and> copyin h pt va (length src) (s\<lparr>mem := m\<rparr>) = Some (0, src)
       else r = -1 \<and> (\<exists>bs. copyin h pt va (length src) (s\<lparr>mem := m\<rparr>) = Some (-1, bs)))"
proof -
  let ?all = "\<forall>i<length src. uaddr (mem s) pt (va + of_nat i) \<noteq> None"
  obtain r m where o: "copyout h pt va src s = Some (r, s\<lparr>mem := m\<rparr>)" "r = 0 \<or> r = -1" "r = 0 \<longleftrightarrow> ?all"
    "r = 0 \<longrightarrow> (\<forall>i<length src. \<forall>a. uaddr (mem s) pt (va + of_nat i) = Some a \<longrightarrow> m a = src ! i)"
    "\<forall>a. a \<notin> urange (mem s) pt va (length src) \<longrightarrow> m a = mem s a"
    using copyout_spec [OF assms, of h] by blast
  have tab: "m b = mem s b" if "pgno b \<in> tables (mem s) pt" for b
    using o(5) assms(3) that unfolding urange_def own_range_def by blast
  note tc = tables_cong [OF assms(1) tab]
  have wf: "pt_wf (mem (s\<lparr>mem := m\<rparr>)) pt F" using tc(1) by simp
  have ua: "uaddr m pt v = uaddr (mem s) pt v" for v using tc(3) by (simp add: uaddr_def)
  obtain r' bs where i: "copyin h pt va (length src) (s\<lparr>mem := m\<rparr>) = Some (r', bs)" "r' = 0 \<or> r' = -1" "r' = 0 \<longleftrightarrow> ?all"
    "r' = 0 \<longrightarrow> length bs = length src"
    "\<forall>i<length bs. \<exists>a. uaddr (mem s) pt (va + of_nat i) = Some a \<and> bs ! i = m a"
    using copyin_spec [OF wf assms(2), of h va "length src"] by (auto simp: ua)
  have "bs = src" if ?all
  proof (rule nth_equalityI)
    show len: "length bs = length src" using i(3,4) that by simp
    fix k assume "k < length bs"
    with i(5) o(3,4) that len show "bs ! k = src ! k" by metis
  qed
  then have "if ?all then r = 0 \<and> copyin h pt va (length src) (s\<lparr>mem := m\<rparr>) = Some (0, src)
      else r = -1 \<and> (\<exists>bs. copyin h pt va (length src) (s\<lparr>mem := m\<rparr>) = Some (-1, bs))"
    using o(2,3) i(1-3) by (cases ?all) (simp_all only: if_True if_False simp_thms, auto)
  with o(1,5) show ?thesis by blast
qed

lemma empty_root:
  assumes "\<And>b. pgno b = pgno 0x80000000 \<Longrightarrow> m b = 0"
  shows "tables m 0x80000000 = {0x80000}"
proof -
  have "tables m 0x80000000 \<subseteq> {0x80000}"
  proof (rule tables_in)
    have z: "sub m 0x80000000 i = None" if "unat i < 512" for i
      using entry_zero [of "0x80000000" i m] that assms by (simp add: sub_entry)
    show "pgno q \<in> {0x80000}" if "unat i < 512" "sub m 0x80000000 i = Some q" for i q
      using z that by simp
    show "pgno q \<in> {0x80000}" if "ij \<in> index_pairs" "leaf m 0x80000000 ij = Some q" for ij q
      using z that by (auto simp: leaf_def index_pairs_def)
  qed (simp add: pgno_def)
  then show ?thesis using tables_root [of "0x80000000" m] by (auto simp: pgno_def)
qed

lemma kvm0_tables: "tables (mem kvm0) 0x80000000 = {0x80000}"
  by (rule empty_root) (rule kvm0_mem)

text \<open>A memory in which one page of a process is mapped.\<close>

lemma mapped_page:
  assumes t0: "tbl 0 0x80000000 s0 [x, y]" and n0: "\<And>va. translate (mem s0) 0x80000000 va = None"
    and tb0: "tables (mem s0) 0x80000000 = {0x80000}" and xy: "pgno x \<noteq> 0x80001" "pgno y \<noteq> 0x80001"
  shows "\<exists>m. pt_wf m 0x80000000 {0} \<and> 0x80001 \<notin> tables m 0x80000000
    \<and> (\<forall>i<4096. uaddr m 0x80000000 (0x1000 + of_nat i) = Some (0x80001000 + of_nat i)
         \<and> pgno (0x80001000 + of_nat i) = 0x80001) \<and> tables m 0x80000000 \<subseteq> {0x80000, pgno x, pgno y}"
proof -
  let ?pt = "0x80000000 :: addr" and ?perm = "PTE_R OR PTE_U"
  have n: "npages 0x1000 0x1000 = 1" by (simp add: npages_def pgno_def)
  have p: "PGROUNDDOWN 0x1000 = 0x1000" by (simp add: PGROUNDDOWN_def PGSIZE_def)
  have f: "take_bit 10 ?perm = ?perm" by (simp add: PTE_consts)
  obtain s ys where s: "tbl 0 ?pt s ys" "grown ?pt s0 [x, y] s ys"
    "\<forall>a<MAXVA. translate (mem s) ?pt a = mapped 0x1000 1 0x80001000 ?perm (translate (mem s0) ?pt) a"
    using mappages_run [OF t0 _ _ _ n0, of "0x1000" "0x1000" "0x80001000" ?perm] n p by auto
  have ts: "tables (mem s) ?pt \<subseteq> {0x80000, pgno x, pgno y}" using s(2) unfolding grown_def tb0 by auto
  then have tb: "0x80001 \<notin> tables (mem s) ?pt" using xy by auto
  have room: "i < page_room 0x1000 4096" if "i < 4096" for i :: nat using that by (simp add: page_room_eq)
  have "translate (mem s) ?pt 0x1000 = Some (PA2PTE 0x80001000 OR ?perm OR PTE_V)"
    using s(3) by (simp add: mapped_def MAXVA_def pgno_def)
  moreover have "PTE2PA (PA2PTE 0x80001000 OR ?perm OR PTE_V) = 0x80001000"
    "(PA2PTE 0x80001000 OR ?perm OR PTE_V) AND PTE_U \<noteq> 0"
    using mapped_flags [OF f, of "0x80001000"] by (simp_all add: PTE_consts)
  ultimately have "uaddr (mem s) ?pt 0x1000 = Some 0x80001000" by (simp add: uaddr_def MAXVA_def p)
  then have ua: "uaddr (mem s) ?pt (0x1000 + of_nat i) = Some (0x80001000 + of_nat i)" if "i < 4096" for i
    using uaddr_page [OF room [OF that], of "mem s" ?pt] by simp
  have "pgno (0x80001000 + of_nat i) = 0x80001" if "i < 4096" for i
    using pgno_offset [of "0x80001000" i] that by (simp add: pgno_def)
  moreover have "pt_wf (mem s) ?pt {0}"
    using s(1) by (auto simp: tbl_def free_pages_def intro: pt_wf_weaken)
  ultimately show ?thesis using ua tb ts by blast
qed

lemma user_page:
  "\<exists>m. pt_wf m 0x80000000 {0} \<and> 0x80001 \<notin> tables m 0x80000000
    \<and> (\<forall>i<4096. uaddr m 0x80000000 (0x1000 + of_nat i) = Some (0x80001000 + of_nat i)
         \<and> pgno (0x80001000 + of_nat i) = 0x80001) \<and> tables m 0x80000000 \<subseteq> {0x80000, 0x87fff, 0x87ffe}"
  using mapped_page [OF kvm0_table kvm0_tables] by (simp add: pgno_def)

lemma of_nat_page_inj:
  assumes "(of_nat i :: addr) = of_nat j" "i < 4096" "j < 4096"
  shows "i = j"
  using assms unat_of_nat_page [of i] unat_of_nat_page [of j] by metis

theorem copy_roundtrip_witness:
  "\<exists>(s :: kmem) s'. copyout 0 0x80000000 0x1000 [1, 2, 3] s = Some (0, s')
    \<and> copyin 0 0x80000000 0x1000 3 s' = Some (0, [1, 2, 3])"
proof -
  let ?pt = "0x80000000 :: addr"
  obtain m where m: "pt_wf m ?pt {0}" "0x80001 \<notin> tables m ?pt"
    "\<And>i. i < 4096 \<Longrightarrow> uaddr m ?pt (0x1000 + of_nat i) = Some (0x80001000 + of_nat i)"
    "\<And>i. i < 4096 \<Longrightarrow> pgno (0x80001000 + of_nat i) = 0x80001"
    using user_page by blast
  let ?s = "kvm0\<lparr>mem := m\<rparr>"
  have own: "own_range (mem ?s) ?pt 0x1000 (length [1, 2, 3 :: uchar])"
    unfolding own_range_def using m(2-4) of_nat_page_inj by auto
  have wf: "pt_wf (mem ?s) ?pt {0}" using m(1) by simp
  obtain r m' where rm: "copyout 0 ?pt 0x1000 [1, 2, 3] ?s = Some (r, ?s\<lparr>mem := m'\<rparr>)"
    "if \<forall>i<length [1, 2, 3 :: uchar]. uaddr (mem ?s) ?pt (0x1000 + of_nat i) \<noteq> None
     then r = 0 \<and> copyin 0 ?pt 0x1000 (length [1, 2, 3 :: uchar]) (?s\<lparr>mem := m'\<rparr>) = Some (0, [1, 2, 3])
     else r = -1 \<and> (\<exists>bs. copyin 0 ?pt 0x1000 (length [1, 2, 3 :: uchar]) (?s\<lparr>mem := m'\<rparr>) = Some (-1, bs))"
    using copy_roundtrip [OF wf _ own, of 0] by blast
  have "\<forall>i<length [1, 2, 3 :: uchar]. uaddr (mem ?s) ?pt (0x1000 + of_nat i) \<noteq> None" using m(3) by simp
  then have "r = 0 \<and> copyin 0 ?pt 0x1000 (length [1, 2, 3 :: uchar]) (?s\<lparr>mem := m'\<rparr>) = Some (0, [1, 2, 3])"
    using rm(2) by (simp only: if_True simp_thms)
  with rm(1) have "copyout 0 ?pt 0x1000 [1, 2, 3] ?s = Some (0, ?s\<lparr>mem := m'\<rparr>)
      \<and> copyin 0 ?pt 0x1000 3 (?s\<lparr>mem := m'\<rparr>) = Some (0, [1, 2, 3])" by (simp add: numeral_3_eq_3)
  then show ?thesis by blast
qed

end
