(* ===== verification/Sleeplock.thy ===== *)
theory Sleeplock
  imports Ucopy
begin

text \<open>
  \<open>labo2/kernel/sleeplock.c\<close>: locks that are held over sleeps, used for disk buffers and inodes. The
  spinlock inside a sleep lock carries the sleep lock's own name in \<open>lockid\<close>.

  The second part prepares the file system layers, whose functions are followed through one kernel
  thread: \<open>now\<close> turns a call that may sleep into one that fails when it would, and \<open>calm\<close> states are
  those in which a critical section has no effect besides its body.
\<close>

subsection \<open>Definitions\<close>

record sleeplock =
  sl_locked :: uint
  sl_name :: string
  sl_pid :: cint

record kslk = kvm +
  slks :: "lockid \<Rightarrow> sleeplock"

definition upd_slk :: "lockid \<Rightarrow> (sleeplock \<Rightarrow> sleeplock) \<Rightarrow> 'a kslk_scheme \<Rightarrow> 'a kslk_scheme" where
  "upd_slk lk f s = s\<lparr>slks := (slks s)(lk := f (slks s lk))\<rparr>"

definition initsleeplock :: "lockid \<Rightarrow> string \<Rightarrow> 'a kslk_scheme \<Rightarrow> 'a kslk_scheme" where
  "initsleeplock lk nm s = upd_slk lk (\<lambda>_. \<lparr>sl_locked = 0, sl_name = nm, sl_pid = 0\<rparr>) (initlock lk ''sleep lock'' s)"

text \<open>The loop of \<open>acquiresleep\<close>, entered with the spinlock held, and where it goes on after a sleep.\<close>

definition acquiresleep_loop :: "nat \<Rightarrow> lockid \<Rightarrow> 'a kslk_scheme \<Rightarrow> (unit, 'a kslk_scheme) outcome option" where
  "acquiresleep_loop h lk s =
     (if sl_locked (slks s lk) \<noteq> 0 then do {
        s \<leftarrow> sleep_enter h (Some (chan_sleeplock lk)) lk s;
        Some (Blocks s) }
      else do {
        let s = upd_slk lk (\<lambda>l. l\<lparr>sl_locked := 1\<rparr>) s;
        (mp, s) \<leftarrow> myproc h s;
        p \<leftarrow> mp;
        let s = upd_slk lk (\<lambda>l. l\<lparr>sl_pid := p_pid (procs s p)\<rparr>) s;
        s \<leftarrow> release h lk s;
        Some (Returns () s) })"

definition acquiresleep :: "nat \<Rightarrow> lockid \<Rightarrow> 'a kslk_scheme \<Rightarrow> (unit, 'a kslk_scheme) outcome option" where
  "acquiresleep h lk s = do { s \<leftarrow> acquire h lk s; acquiresleep_loop h lk s }"

definition acquiresleep_resume :: "nat \<Rightarrow> nat \<Rightarrow> lockid \<Rightarrow> 'a kslk_scheme \<Rightarrow> (unit, 'a kslk_scheme) outcome option" where
  "acquiresleep_resume h p lk s = do { s \<leftarrow> sleep_exit h p lk s; acquiresleep_loop h lk s }"

definition releasesleep :: "nat \<Rightarrow> lockid \<Rightarrow> 'a kslk_scheme \<Rightarrow> 'a kslk_scheme option" where
  "releasesleep h lk s = do {
     s \<leftarrow> acquire h lk s;
     let s = upd_slk lk (\<lambda>l. l\<lparr>sl_locked := 0, sl_pid := 0\<rparr>) s;
     s \<leftarrow> wakeup h (Some (chan_sleeplock lk)) s;
     release h lk s }"

definition holdingsleep :: "nat \<Rightarrow> lockid \<Rightarrow> 'a kslk_scheme \<Rightarrow> (bool \<times> 'a kslk_scheme) option" where
  "holdingsleep h lk s = do {
     s \<leftarrow> acquire h lk s;
     (r, s) \<leftarrow> (if sl_locked (slks s lk) \<noteq> 0 then do {
                 (mp, s) \<leftarrow> myproc h s;
                 p \<leftarrow> mp;
                 Some (sl_pid (slks s lk) = p_pid (procs s p), s) }
               else Some (False, s));
     s \<leftarrow> release h lk s;
     Some (r, s) }"

subsection \<open>Calls of one thread\<close>

fun now :: "('r, 's) outcome option \<Rightarrow> ('r \<times> 's) option" where
  "now (Some (Returns r s)) = Some (r, s)"
| "now (Some (Blocks s)) = None"
| "now None = None"

definition getsleep :: "nat \<Rightarrow> lockid \<Rightarrow> 'a kslk_scheme \<Rightarrow> 'a kslk_scheme option" where
  "getsleep h lk s = map_option snd (now (acquiresleep h lk s))"

definition calm :: "nat \<Rightarrow> 'a kcpu_scheme \<Rightarrow> bool" where
  "calm h s \<longleftrightarrow> hart_ok h s \<and> touch h s = s"

lemma calm_touch [simp]: "calm h s \<Longrightarrow> touch h s = s" and calm_ok: "calm h s \<Longrightarrow> hart_ok h s"
  by (simp_all add: calm_def)

lemma calm_iff: "calm h s \<longleftrightarrow> hart_ok h s \<and> (noff (cpus s h) = 0 \<longrightarrow> intena (cpus s h) = sie s h)"
proof -
  have "s\<lparr>cpus := (cpus s)(h := (cpus s h)\<lparr>intena := sie s h\<rparr>)\<rparr> = s \<longleftrightarrow> intena (cpus s h) = sie s h"
  proof
    assume "s\<lparr>cpus := (cpus s)(h := (cpus s h)\<lparr>intena := sie s h\<rparr>)\<rparr> = s"
    from arg_cong [OF this, of "\<lambda>t. intena (cpus t h)"] show "intena (cpus s h) = sie s h" by simp
  next
    assume "intena (cpus s h) = sie s h"
    then have "(cpus s)(h := (cpus s h)\<lparr>intena := sie s h\<rparr>) = cpus s" by (auto simp: fun_eq_iff)
    then show "s\<lparr>cpus := (cpus s)(h := (cpus s h)\<lparr>intena := sie s h\<rparr>)\<rparr> = s" by simp
  qed
  then show ?thesis by (auto simp: calm_def touch_def)
qed

lemma calm_cong: "cpus s = cpus t \<Longrightarrow> sie s = sie t \<Longrightarrow> calm h s = calm h t"
  by (simp add: calm_iff hart_ok_def)

lemma calm_within [simp]: "hart_ok h s \<Longrightarrow> calm h (within h lk s)"
  by (simp add: calm_def hart_ok_def)

text \<open>A critical section in a calm state.\<close>

lemma section_calm:
  assumes "calm h s" and "free_lock lk s" and "keeps_locks f"
  shows "release h lk (f (within h lk s)) = Some (f s)"
  using release_after [OF calm_ok [OF assms(1)] assms(2,3)] assms(1) by simp

lemma release_section [simp]: "calm h s \<Longrightarrow> free_lock lk s \<Longrightarrow> release h lk (within h lk s) = Some s"
  by (rule section_calm [OF _ _ keeps_locks_id])

lemma keeps_within:
  assumes "keeps_locks f"
  shows "f (within h lk s) = within h lk (f s)"
proof -
  let ?w = "within h lk s"
  have "f ?w = (f s)\<lparr>cpus := cpus ?w, sie := sie ?w, lks := lks ?w\<rparr>"
  proof -
    have "?w = s\<lparr>cpus := cpus ?w, sie := sie ?w, lks := lks ?w\<rparr>" by (simp add: within_def)
    with assms show ?thesis unfolding keeps_locks_def by metis
  qed
  then show ?thesis using keeps_locks_sel [OF assms, of s] by (simp add: within_def)
qed

lemma wakeup_section:
  fixes s :: "'a kproc_scheme"
  assumes "calm h s" and "proc_locks_free s" and "\<And>p. lk \<noteq> proc_lock p"
  shows "wakeup h ch (within h lk s) = Some (within h lk (s\<lparr>procs := wake_all (c_proc (cpus s h)) ch (procs s)\<rparr>))"
proof -
  have ok: "hart_ok h s" by (rule calm_ok [OF assms(1)])
  have "hart_ok h (within h lk s)" "noff (cpus (within h lk s) h) \<noteq> 0" "proc_locks_free (within h lk s)"
    using assms(2,3) ok hart_ok_within [OF ok, of lk] by (auto simp: hart_ok_def proc_locks_free_def free_lock_def within_def)
  from wakeup_spec [OF this, of ch] show ?thesis by (simp add: within_def)
qed

lemma killed_calm: "calm h s \<Longrightarrow> free_lock (proc_lock p) s \<Longrightarrow> killed h p s = Some (p_killed (procs s p), s)"
  by (simp add: killed_def acquire_free Let_def)

lemma killed_section:
  assumes "calm h s" and "free_lock (proc_lock p) s" and "lk \<noteq> proc_lock p"
  shows "killed h p (within h lk s) = Some (p_killed (procs s p), within h lk s)"
  using killed_calm [of h "within h lk s" p] calm_within [OF calm_ok [OF assms(1)]] assms(2,3) by simp

lemma section_wakeup:
  fixes s :: "'a kproc_scheme"
  assumes "calm h s" and "free_lock lk s" and "proc_locks_free s" and "\<And>p. lk \<noteq> proc_lock p"
    and k: "keeps_locks f" and pr: "\<And>t. procs (f t) = procs t"
  shows "Option.bind (wakeup h ch (f (within h lk s))) (release h lk)
    = Some ((f s)\<lparr>procs := wake_all (c_proc (cpus s h)) ch (procs s)\<rparr>)"
proof -
  let ?w = "within h lk s"
  let ?g = "\<lambda>t. (f t)\<lparr>procs := wake_all (c_proc (cpus s h)) ch (procs (f t))\<rparr>"
  note sel = keeps_locks_sel [OF k]
  have "keeps_locks ?g" using k by (simp add: keeps_locks_def)
  then have r: "release h lk (?g ?w) = Some (?g s)" by (rule section_calm [OF assms(1,2)])
  have ok: "hart_ok h s" by (rule calm_ok [OF assms(1)])
  have "hart_ok h (f ?w)" "noff (cpus (f ?w) h) \<noteq> 0" "proc_locks_free (f ?w)"
    using assms(3,4) ok hart_ok_within [OF ok, of lk] sel
    by (auto simp: hart_ok_def proc_locks_free_def free_lock_def within_def)
  then have "wakeup h ch (f ?w) = Some (?g ?w)"
    using wakeup_spec [of h "f ?w" ch] sel by simp
  with r pr show ?thesis by simp
qed

lemma kslk_within [simp]: "slks (within h lk s) = slks s"
  by (simp add: within_def)

lemma keeps_locks_upd_slk [intro]: "keeps_locks (upd_slk lk f)"
  by (simp add: keeps_locks_def upd_slk_def)

lemma upd_slk_sel [simp]:
  "slks (upd_slk lk f s) = (slks s)(lk := f (slks s lk))" "procs (upd_slk lk f s) = procs s"
  "cpus (upd_slk lk f s) = cpus s" "sie (upd_slk lk f s) = sie s" "lks (upd_slk lk f s) = lks s"
  by (simp_all add: upd_slk_def)

lemma upd_slk_twice [simp]: "upd_slk lk g (upd_slk lk f s) = upd_slk lk (\<lambda>l. g (f l)) s"
  by (simp add: upd_slk_def)

lemma acquiresleep_free:
  assumes "calm h s" and "free_lock lk s" and "c_proc (cpus s h) = Some p" and "sl_locked (slks s lk) = 0"
  shows "acquiresleep h lk s
    = Some (Returns () (upd_slk lk (\<lambda>l. l\<lparr>sl_locked := 1, sl_pid := p_pid (procs s p)\<rparr>) s))"
proof -
  let ?w = "within h lk s"
  have c: "calm h (upd_slk lk f ?w)" for f
    using calm_within [OF calm_ok [OF assms(1)], of lk] calm_cong [of ?w "upd_slk lk f ?w" h] by simp
  have "myproc h (upd_slk lk f ?w) = Some (Some p, upd_slk lk f ?w)" for f
    using myproc_ok [OF calm_ok [OF c]] c assms(3) by simp
  moreover have "release h lk (upd_slk lk f ?w) = Some (upd_slk lk f s)" for f
    by (rule section_calm [OF assms(1,2)]) auto
  ultimately show ?thesis
    using assms(4) by (simp add: acquiresleep_def acquiresleep_loop_def acquire_free [OF assms(2)] Let_def)
qed

lemma getsleep_free:
  "calm h s \<Longrightarrow> free_lock lk s \<Longrightarrow> c_proc (cpus s h) = Some p \<Longrightarrow> sl_locked (slks s lk) = 0 \<Longrightarrow>
    getsleep h lk s = Some (upd_slk lk (\<lambda>l. l\<lparr>sl_locked := 1, sl_pid := p_pid (procs s p)\<rparr>) s)"
  by (simp add: getsleep_def acquiresleep_free)

lemma releasesleep_spec:
  assumes "calm h s" and "free_lock lk s" and "proc_locks_free s" and "\<And>p. lk \<noteq> proc_lock p"
  shows "releasesleep h lk s = Some ((upd_slk lk (\<lambda>l. l\<lparr>sl_locked := 0, sl_pid := 0\<rparr>) s)
    \<lparr>procs := wake_all (c_proc (cpus s h)) (Some (chan_sleeplock lk)) (procs s)\<rparr>)"
  using section_wakeup [OF assms, of "upd_slk lk (\<lambda>l. l\<lparr>sl_locked := 0, sl_pid := 0\<rparr>)" "Some (chan_sleeplock lk)"]
  by (auto simp: releasesleep_def acquire_free [OF assms(2)] Let_def)

lemma holdingsleep_spec:
  assumes "calm h s" and "free_lock lk s" and "c_proc (cpus s h) = Some p"
  shows "holdingsleep h lk s
    = Some (sl_locked (slks s lk) \<noteq> 0 \<and> sl_pid (slks s lk) = p_pid (procs s p), s)"
proof -
  let ?w = "within h lk s"
  have c: "calm h ?w" by (rule calm_within [OF calm_ok [OF assms(1)]])
  have "myproc h ?w = Some (Some p, ?w)" using myproc_ok [OF calm_ok [OF c]] c assms(3) by simp
  moreover have "release h lk ?w = Some s" using section_calm [OF assms(1,2) keeps_locks_id] by simp
  ultimately show ?thesis by (simp add: holdingsleep_def acquire_free [OF assms(2)])
qed

lemma sleep_enter_leaves:
  assumes "at_rest h s" and "c_proc (cpus s h) = Some p" and "free_lock lk s" and "free_lock (proc_lock p) s"
    and "lk \<noteq> proc_lock p"
  shows "\<exists>t. sleep_enter h ch lk (within h lk s) = Some t
    \<and> scheduler_back h p t = Some (s\<lparr>cpus := (cpus s)(h := (cpus s h)\<lparr>intena := sie s h, c_proc := None\<rparr>),
       procs := (procs s)(p := (procs s p)\<lparr>p_chan := ch, p_state := SLEEPING\<rparr>),
       saved_intena := (saved_intena s)(p := sie s h)\<rparr>)"
proof -
  from sleep_step_spec [OF assms, of ch] show ?thesis
    by (auto simp: sleep_step_def acquire_free [OF assms(3)] bind_eq_Some_conv)
qed

subsection \<open>Properties\<close>

text \<open>
  A sleep lock belongs to one process at a time: \<open>acquiresleep\<close> on a free lock returns with the lock
  recorded as the caller's; on a lock that is held it never returns right away but puts the caller to
  sleep on the lock, holding no spinlock; \<open>holdingsleep\<close> tells exactly the owner; \<open>releasesleep\<close> frees
  the lock and makes exactly the processes that sleep on it runnable.
\<close>

theorem sleeplock_correct:
  fixes s :: "'a kslk_scheme"
  assumes "calm h s" and "at_rest h s" and "c_proc (cpus s h) = Some p" and "free_lock lk s" and "proc_locks_free s"
    and "p < NPROC" and "lk = buf_lock i \<or> lk = inode_lock i"
  shows "(sl_locked (slks s lk) = 0 \<longrightarrow> (\<exists>s'. acquiresleep h lk s = Some (Returns () s')
        \<and> slks s' lk = (slks s lk)\<lparr>sl_locked := 1, sl_pid := p_pid (procs s p)\<rparr> \<and> holdingsleep h lk s' = Some (True, s')))
    \<and> (sl_locked (slks s lk) \<noteq> 0 \<longrightarrow> (\<exists>t s'. acquiresleep h lk s = Some (Blocks t) \<and> scheduler_back h p t = Some s'
        \<and> slks s' = slks s \<and> lks s' = lks s \<and> c_proc (cpus s' h) = None
        \<and> p_state (procs s' p) = SLEEPING \<and> p_chan (procs s' p) = Some (chan_sleeplock lk)))
    \<and> (\<exists>s'. releasesleep h lk s = Some s' \<and> sl_locked (slks s' lk) = 0 \<and> holdingsleep h lk s' = Some (False, s')
        \<and> (\<forall>q. procs s' q = (if q < NPROC \<and> q \<noteq> p \<and> p_state (procs s q) = SLEEPING \<and> p_chan (procs s q) = Some (chan_sleeplock lk)
             then (procs s q)\<lparr>p_state := RUNNABLE\<rparr> else procs s q)))"
proof (intro conjI impI)
  have lp: "lk \<noteq> proc_lock q" for q using assms(7) by auto
  have fp: "free_lock (proc_lock p) s" using assms(5,6) by (simp add: proc_locks_free_def)
  let ?a = "upd_slk lk (\<lambda>l. l\<lparr>sl_locked := 1, sl_pid := p_pid (procs s p)\<rparr>) s"
  show "\<exists>s'. acquiresleep h lk s = Some (Returns () s')
      \<and> slks s' lk = (slks s lk)\<lparr>sl_locked := 1, sl_pid := p_pid (procs s p)\<rparr> \<and> holdingsleep h lk s' = Some (True, s')"
    if "sl_locked (slks s lk) = 0"
  proof -
    have "calm h ?a" "free_lock lk ?a" "c_proc (cpus ?a h) = Some p"
      using assms(1,3,4) calm_cong [of s ?a] by (simp_all add: free_lock_def)
    from holdingsleep_spec [OF this] acquiresleep_free [OF assms(1,4,3) that] show ?thesis by simp
  qed
  show "\<exists>t s'. acquiresleep h lk s = Some (Blocks t) \<and> scheduler_back h p t = Some s'
      \<and> slks s' = slks s \<and> lks s' = lks s \<and> c_proc (cpus s' h) = None
      \<and> p_state (procs s' p) = SLEEPING \<and> p_chan (procs s' p) = Some (chan_sleeplock lk)"
    if "sl_locked (slks s lk) \<noteq> 0"
  proof -
    from sleep_enter_leaves [OF assms(2,3,4) fp lp, of "Some (chan_sleeplock lk)"] that show ?thesis
      by (auto simp: acquiresleep_def acquiresleep_loop_def acquire_free [OF assms(4)])
  qed
  let ?r = "(upd_slk lk (\<lambda>l. l\<lparr>sl_locked := 0, sl_pid := 0\<rparr>) s)
    \<lparr>procs := wake_all (Some p) (Some (chan_sleeplock lk)) (procs s)\<rparr>"
  have "calm h ?r" "free_lock lk ?r" "c_proc (cpus ?r h) = Some p"
    using assms(1,3,4) calm_cong [of s ?r] by (simp_all add: free_lock_def)
  from holdingsleep_spec [OF this] releasesleep_spec [OF assms(1,4,5) lp] assms(3)
  show "\<exists>s'. releasesleep h lk s = Some s' \<and> sl_locked (slks s' lk) = 0 \<and> holdingsleep h lk s' = Some (False, s')
      \<and> (\<forall>q. procs s' q = (if q < NPROC \<and> q \<noteq> p \<and> p_state (procs s q) = SLEEPING \<and> p_chan (procs s q) = Some (chan_sleeplock lk)
           then (procs s q)\<lparr>p_state := RUNNABLE\<rparr> else procs s q))"
    by (simp add: wake_all_def)
qed

text \<open>A machine whose hart 0 runs process 3 and holds nothing.\<close>

definition kslk0 :: kslk where
  "kslk0 = kvm.extend (kmem.extend (kmem0\<lparr>cpus := (\<lambda>_. \<lparr>c_proc = Some 3, noff = 0, intena = True\<rparr>)\<rparr>)
     \<lparr>kernel_pagetable = 0, etext = 0, trampoline = 0\<rparr>) \<lparr>slks = (\<lambda>_. \<lparr>sl_locked = 0, sl_name = [], sl_pid = 0\<rparr>)\<rparr>"

lemma kslk0_ok: "calm h kslk0" "at_rest h kslk0" "c_proc (cpus kslk0 h) = Some 3" "free_lock lk kslk0" "proc_locks_free kslk0"
  "slks kslk0 lk = \<lparr>sl_locked = 0, sl_name = [], sl_pid = 0\<rparr>" "p_pid (procs kslk0 3) = 7"
  by (simp_all add: kslk0_def kvm.defs kmem.defs kmem0_def ksem.defs ksem0_def kproc.defs kproc0_def kcpu.defs kcpu0_def
      calm_iff hart_ok_def at_rest_def free_lock_def proc_locks_free_def)

theorem sleeplock_correct_witness:
  "\<exists>s'. acquiresleep 0 (buf_lock 2) kslk0 = Some (Returns () s') \<and> sl_pid (slks s' (buf_lock 2)) = 7
    \<and> holdingsleep 0 (buf_lock 2) s' = Some (True, s')"
proof -
  obtain s' where "acquiresleep 0 (buf_lock 2) kslk0 = Some (Returns () s')"
    "slks s' (buf_lock 2) = (slks kslk0 (buf_lock 2))\<lparr>sl_locked := 1, sl_pid := p_pid (procs kslk0 3)\<rparr>"
    "holdingsleep 0 (buf_lock 2) s' = Some (True, s')"
    using sleeplock_correct [OF kslk0_ok(1) [of 0] kslk0_ok(2) kslk0_ok(3) kslk0_ok(4) kslk0_ok(5), of "buf_lock 2" 2] kslk0_ok(6)
    by (auto simp: NPROC_def)
  then show ?thesis using kslk0_ok(7) by auto
qed

end
