(* ===== verification/Pipe.thy ===== *)
theory Pipe
  imports Sleeplock
begin

text \<open>
  \<open>labo2/kernel/pipe.c\<close>: a ring buffer of 512 bytes between a writer and a reader, with counters of
  type \<open>uint\<close> that wrap around. \<open>pipewrite\<close> and \<open>piperead\<close> sleep when the ring is full or empty: their
  result is then \<open>Asleep k\<close>, where \<open>k\<close> is the local variable with which the call goes on. A pipe is found
  by the address of its page. (\<open>pipealloc\<close>, which needs the file table, is in theory \<open>File\<close>.)
\<close>

subsection \<open>Definitions\<close>

definition PIPESIZE :: uint where "PIPESIZE = 512"

record pipe =
  pi_data :: "nat \<Rightarrow> uchar"
  pi_nread :: uint
  pi_nwrite :: uint
  pi_readopen :: cint
  pi_writeopen :: cint

record kpipe = kslk +
  pipes :: "addr \<Rightarrow> pipe"

definition upd_pipe :: "addr \<Rightarrow> (pipe \<Rightarrow> pipe) \<Rightarrow> 'a kpipe_scheme \<Rightarrow> 'a kpipe_scheme" where
  "upd_pipe pi f s = s\<lparr>pipes := (pipes s)(pi := f (pipes s pi))\<rparr>"

abbreviation plock :: "addr \<Rightarrow> lockid" where "plock pi \<equiv> pipe_lock (unat pi)"
abbreviation chan_r :: "addr \<Rightarrow> chan" where "chan_r pi \<equiv> Some (chan_nread (unat pi))"
abbreviation chan_w :: "addr \<Rightarrow> chan" where "chan_w pi \<equiv> Some (chan_nwrite (unat pi))"

text \<open>\<open>pi->data[pi->nwrite++ % PIPESIZE] = ch\<close> and \<open>ch = pi->data[pi->nread++ % PIPESIZE]\<close>\<close>

definition pipe_put :: "uchar \<Rightarrow> pipe \<Rightarrow> pipe" where
  "pipe_put ch q = q\<lparr>pi_data := (pi_data q)(unat (pi_nwrite q mod PIPESIZE) := ch), pi_nwrite := pi_nwrite q + 1\<rparr>"

definition pipe_get :: "pipe \<Rightarrow> uchar \<times> pipe" where
  "pipe_get q = (pi_data q (unat (pi_nread q mod PIPESIZE)), q\<lparr>pi_nread := pi_nread q + 1\<rparr>)"

definition pipeclose :: "nat \<Rightarrow> addr \<Rightarrow> bool \<Rightarrow> 'a kpipe_scheme \<Rightarrow> 'a kpipe_scheme option" where
  "pipeclose h pi writable s = do {
     s \<leftarrow> acquire h (plock pi) s;
     s \<leftarrow> (if writable then wakeup h (chan_r pi) (upd_pipe pi (\<lambda>q. q\<lparr>pi_writeopen := 0\<rparr>) s)
           else wakeup h (chan_w pi) (upd_pipe pi (\<lambda>q. q\<lparr>pi_readopen := 0\<rparr>) s));
     if pi_readopen (pipes s pi) = 0 \<and> pi_writeopen (pipes s pi) = 0 then do {
       s \<leftarrow> release h (plock pi) s;
       kfree h pi s }
     else release h (plock pi) s }"

datatype ('r, 'k, 's) progress = Done 'r 's | Asleep 'k 's

text \<open>The end of \<open>pipewrite\<close> and of \<open>piperead\<close>: wake the other side, release, return \<open>i\<close>.\<close>

definition pipe_end :: "nat \<Rightarrow> chan \<Rightarrow> addr \<Rightarrow> nat \<Rightarrow> 'a kpipe_scheme \<Rightarrow> (int, 'k, 'a kpipe_scheme) progress option" where
  "pipe_end h ch pi i s = do {
     s \<leftarrow> wakeup h ch s;
     s \<leftarrow> release h (plock pi) s;
     Some (Done (int i) s) }"

text \<open>The loop of \<open>pipewrite\<close>, entered with the lock held.\<close>

function pipewrite_loop ::
  "nat \<Rightarrow> nat \<Rightarrow> addr \<Rightarrow> addr \<Rightarrow> int \<Rightarrow> nat \<Rightarrow> 'a kpipe_scheme \<Rightarrow> (int, nat, 'a kpipe_scheme) progress option" where
  "pipewrite_loop h pr pi addr n i s =
     (if int i < n then
        Option.bind (if pi_readopen (pipes s pi) = 0 then Some (True, s)
                     else do { (k, s) \<leftarrow> killed h pr s; Some (k \<noteq> 0, s) }) (\<lambda>(stop, s).
          if stop then do { s \<leftarrow> release h (plock pi) s; Some (Done (-1) s) }
          else if pi_nwrite (pipes s pi) = pi_nread (pipes s pi) + PIPESIZE then do {
            s \<leftarrow> wakeup h (chan_r pi) s;
            s \<leftarrow> sleep_enter h (chan_w pi) (plock pi) s;
            Some (Asleep i s) }
          else
            Option.bind (copyin h (p_pagetable (procs s pr)) (addr + of_nat i) 1 s) (\<lambda>(r, bs).
              if r = -1 then pipe_end h (chan_r pi) pi i s
              else pipewrite_loop h pr pi addr n (Suc i) (upd_pipe pi (pipe_put (hd bs)) s)))
      else pipe_end h (chan_r pi) pi i s)"
  by auto
termination
  by (relation "measure (\<lambda>(h, pr, pi, addr, n, i, s). nat n - i)") auto

definition pipewrite ::
  "nat \<Rightarrow> addr \<Rightarrow> addr \<Rightarrow> int \<Rightarrow> 'a kpipe_scheme \<Rightarrow> (int, nat, 'a kpipe_scheme) progress option" where
  "pipewrite h pi addr n s = do {
     (mp, s) \<leftarrow> myproc h s;
     pr \<leftarrow> mp;
     s \<leftarrow> acquire h (plock pi) s;
     pipewrite_loop h pr pi addr n 0 s }"

definition pipewrite_resume ::
  "nat \<Rightarrow> nat \<Rightarrow> addr \<Rightarrow> addr \<Rightarrow> int \<Rightarrow> nat \<Rightarrow> 'a kpipe_scheme \<Rightarrow> (int, nat, 'a kpipe_scheme) progress option" where
  "pipewrite_resume h pr pi addr n i s = do {
     s \<leftarrow> sleep_exit h pr (plock pi) s;
     pipewrite_loop h pr pi addr n i s }"

function piperead_copy ::
  "nat \<Rightarrow> nat \<Rightarrow> addr \<Rightarrow> addr \<Rightarrow> int \<Rightarrow> nat \<Rightarrow> 'a kpipe_scheme \<Rightarrow> (nat \<times> 'a kpipe_scheme) option" where
  "piperead_copy h pr pi addr n i s =
     (if int i < n then
        if pi_nread (pipes s pi) = pi_nwrite (pipes s pi) then Some (i, s)
        else let (ch, q) = pipe_get (pipes s pi) in
          Option.bind (copyout h (p_pagetable (procs s pr)) (addr + of_nat i) [ch] (upd_pipe pi (\<lambda>_. q) s)) (\<lambda>(r, s).
            if r = -1 then Some (i, s) else piperead_copy h pr pi addr n (Suc i) s)
      else Some (i, s))"
  by auto
termination
  by (relation "measure (\<lambda>(h, pr, pi, addr, n, i, s). nat n - i)") auto

definition piperead_loop ::
  "nat \<Rightarrow> nat \<Rightarrow> addr \<Rightarrow> addr \<Rightarrow> int \<Rightarrow> 'a kpipe_scheme \<Rightarrow> (int, unit, 'a kpipe_scheme) progress option" where
  "piperead_loop h pr pi addr n s =
     (if pi_nread (pipes s pi) = pi_nwrite (pipes s pi) \<and> pi_writeopen (pipes s pi) \<noteq> 0 then do {
        (k, s) \<leftarrow> killed h pr s;
        if k \<noteq> 0 then do { s \<leftarrow> release h (plock pi) s; Some (Done (-1) s) }
        else do { s \<leftarrow> sleep_enter h (chan_r pi) (plock pi) s; Some (Asleep () s) } }
      else do {
        (i, s) \<leftarrow> piperead_copy h pr pi addr n 0 s;
        pipe_end h (chan_w pi) pi i s })"

definition piperead ::
  "nat \<Rightarrow> addr \<Rightarrow> addr \<Rightarrow> int \<Rightarrow> 'a kpipe_scheme \<Rightarrow> (int, unit, 'a kpipe_scheme) progress option" where
  "piperead h pi addr n s = do {
     (mp, s) \<leftarrow> myproc h s;
     pr \<leftarrow> mp;
     s \<leftarrow> acquire h (plock pi) s;
     piperead_loop h pr pi addr n s }"

definition piperead_resume ::
  "nat \<Rightarrow> nat \<Rightarrow> addr \<Rightarrow> addr \<Rightarrow> int \<Rightarrow> 'a kpipe_scheme \<Rightarrow> (int, unit, 'a kpipe_scheme) progress option" where
  "piperead_resume h pr pi addr n s = do {
     s \<leftarrow> sleep_exit h pr (plock pi) s;
     piperead_loop h pr pi addr n s }"

declare pipewrite_loop.simps [simp del] piperead_copy.simps [simp del]

subsection \<open>The ring refines a queue\<close>

text \<open>The contract of a bounded queue of bytes, and what its clients derive: bytes come out in the order they went in.\<close>

locale byte_queue =
  fixes put :: "uchar \<Rightarrow> 'q \<Rightarrow> 'q" and get :: "'q \<Rightarrow> uchar \<times> 'q" and contents :: "'q \<Rightarrow> uchar list"
    and inv :: "'q \<Rightarrow> bool" and cap :: nat
  assumes bounded: "inv q \<Longrightarrow> length (contents q) \<le> cap"
    and put_inv: "inv q \<Longrightarrow> length (contents q) < cap \<Longrightarrow> inv (put b q)"
    and put_contents: "inv q \<Longrightarrow> length (contents q) < cap \<Longrightarrow> contents (put b q) = contents q @ [b]"
    and get_inv: "inv q \<Longrightarrow> contents q \<noteq> [] \<Longrightarrow> inv (snd (get q))"
    and get_contents: "inv q \<Longrightarrow> contents q \<noteq> [] \<Longrightarrow> contents q = fst (get q) # contents (snd (get q))"
begin

lemma puts:
  "inv q \<Longrightarrow> length (contents q) + length bs \<le> cap \<Longrightarrow> inv (fold put bs q) \<and> contents (fold put bs q) = contents q @ bs"
  by (induction bs arbitrary: q) (auto simp: put_inv put_contents)

primrec gets :: "nat \<Rightarrow> 'q \<Rightarrow> uchar list \<times> 'q" where
  "gets 0 q = ([], q)"
| "gets (Suc n) q = (let (b, q) = get q; (bs, q) = gets n q in (b # bs, q))"

lemma gets_take:
  "inv q \<Longrightarrow> n \<le> length (contents q) \<Longrightarrow> fst (gets n q) = take n (contents q) \<and> inv (snd (gets n q))
    \<and> contents (snd (gets n q)) = drop n (contents q)"
proof (induction n arbitrary: q)
  case (Suc n)
  then have ne: "contents q \<noteq> []" by auto
  have "n \<le> length (contents (snd (get q)))" using Suc.prems(2) get_contents [OF Suc.prems(1) ne] by (metis Suc_le_mono length_Cons)
  with Suc.IH [OF get_inv [OF Suc.prems(1) ne]] get_contents [OF Suc.prems(1) ne] show ?case
    by (auto simp: case_prod_unfold Let_def)
qed simp

text \<open>What was written in pieces is read in pieces, in order.\<close>

lemma fifo:
  assumes "inv q" and "contents q = []" and "length bs \<le> cap" and "n \<le> length bs"
  shows "fst (gets n (fold put bs q)) = take n bs \<and> contents (snd (gets n (fold put bs q))) = drop n bs"
  using puts [OF assms(1), of bs] gets_take [of "fold put bs q" n] assms by simp

end

definition pipe_contents :: "pipe \<Rightarrow> uchar list" where
  "pipe_contents q = map (\<lambda>k. pi_data q (unat ((pi_nread q + of_nat k) mod PIPESIZE))) [0..<unat (pi_nwrite q - pi_nread q)]"

definition pipe_inv :: "pipe \<Rightarrow> bool" where
  "pipe_inv q \<longleftrightarrow> unat (pi_nwrite q - pi_nread q) \<le> 512"

lemma length_pipe_contents [simp]: "length (pipe_contents q) = unat (pi_nwrite q - pi_nread q)"
  by (simp add: pipe_contents_def)

lemma ring_index: "unat (x mod PIPESIZE) = unat x mod 512"
  by (simp add: PIPESIZE_def unat_mod)

lemma ring_add: "unat (r + of_nat k :: uint) mod 512 = (unat r + k) mod 512"
proof -
  have "unat (r + of_nat k) = (unat r + k mod 2 ^ 32) mod 2 ^ 32"
    by (simp add: unat_word_ariths(1) unat_of_nat take_bit_eq_mod)
  then have "unat (r + of_nat k) = (unat r + k) mod 2 ^ 32" by (simp add: mod_add_right_eq)
  moreover have "(unat r + k) mod 2 ^ 32 mod 512 = (unat r + k) mod 512"
    by (rule mod_mod_cancel) simp
  ultimately show ?thesis by simp
qed

text \<open>Positions of the ring that are less than 512 apart are different, also across the wrap-around.\<close>

lemma ring_apart:
  assumes "k < unat (w - r)" and "unat (w - r) < 512"
  shows "unat ((r + of_nat k) mod PIPESIZE) \<noteq> unat (w mod PIPESIZE)"
proof
  assume *: "unat ((r + of_nat k) mod PIPESIZE) = unat (w mod PIPESIZE)"
  define d where "d = unat (w - r) - k"
  have d: "0 < d" "d < 512" "k + d = unat (w - r)" using assms by (auto simp: d_def)
  have "w = r + of_nat (k + d)" unfolding d(3) by simp
  then have "(unat r + k) mod 512 = (unat r + (k + d)) mod 512" using * by (simp only: ring_index ring_add)
  then have "(unat r + k + d) mod 512 = (unat r + k) mod 512" by (simp add: add.assoc)
  with d(1,2) show False
    by (metis add.commute add_cancel_right_right mod_add_self1 mod_eq_dvd_iff_nat dvd_imp_le le_add1 add_diff_cancel_left' not_le)
qed

lemma unat_Suc_diff: "unat (w - r :: uint) < 512 \<Longrightarrow> unat (w + 1 - r) = Suc (unat (w - r))"
proof -
  assume "unat (w - r) < 512"
  then have "unat ((w - r) + 1) = Suc (unat (w - r))" by (simp add: unat_plus_if')
  moreover have "w + 1 - r = (w - r) + 1" by (simp add: algebra_simps)
  ultimately show ?thesis by (simp only:)
qed

lemma unat_diff_Suc: "w \<noteq> r \<Longrightarrow> unat (w - r :: uint) = Suc (unat (w - (r + 1)))"
proof -
  assume "w \<noteq> r"
  then have "w - r \<noteq> 0" by simp
  then have "unat (w - r - 1) = unat (w - r) - 1" by (rule unat_minus_one)
  moreover have "w - (r + 1) = w - r - 1" by simp
  ultimately have "unat (w - (r + 1)) = unat (w - r) - 1" by (simp only:)
  moreover have "unat (w - r) \<noteq> 0" using \<open>w - r \<noteq> 0\<close> by (metis unat_eq_0)
  ultimately show ?thesis by linarith
qed

interpretation pq: byte_queue pipe_put pipe_get pipe_contents pipe_inv 512
proof
  fix q b
  assume inv: "pipe_inv q"
  show "length (pipe_contents q) \<le> 512" using inv by (simp add: pipe_inv_def)
  assume len: "length (pipe_contents q) < 512"
  then have n: "unat (pi_nwrite q - pi_nread q) < 512" by simp
  show "pipe_inv (pipe_put b q)" using unat_Suc_diff [OF n] n by (simp add: pipe_inv_def pipe_put_def)
  show "pipe_contents (pipe_put b q) = pipe_contents q @ [b]"
    using unat_Suc_diff [OF n] ring_apart [OF _ n]
    by (simp add: pipe_contents_def pipe_put_def)
next
  fix q
  assume inv: "pipe_inv q" and ne: "pipe_contents q \<noteq> []"
  have ne': "pi_nwrite q \<noteq> pi_nread q" using ne by (auto simp: pipe_contents_def)
  note u = unat_diff_Suc [OF ne']
  show "pipe_inv (snd (pipe_get q))" using inv u by (simp add: pipe_inv_def pipe_get_def)
  show "pipe_contents q = fst (pipe_get q) # pipe_contents (snd (pipe_get q))"
    by (simp add: pipe_contents_def pipe_get_def u upt_conv_Cons map_upt_shift algebra_simps del: upt_Suc)
qed

subsection \<open>Lemmas: writing\<close>

text \<open>A process in a system call, on a hart that holds no lock.\<close>

definition in_call :: "nat \<Rightarrow> nat \<Rightarrow> 'a kproc_scheme \<Rightarrow> bool" where
  "in_call h pr s \<longleftrightarrow> calm h s \<and> at_rest h s \<and> c_proc (cpus s h) = Some pr \<and> pr < NPROC \<and> (\<forall>lk. free_lock lk s)"

lemma in_callD:
  assumes "in_call h pr s"
  shows "calm h s" "at_rest h s" "c_proc (cpus s h) = Some pr" "free_lock lk s" "proc_locks_free s"
    and "myproc h s = Some (Some pr, s)"
proof -
  show c: "calm h s" and p: "c_proc (cpus s h) = Some pr" and "at_rest h s" "free_lock lk s" "proc_locks_free s"
    using assms by (simp_all add: in_call_def proc_locks_free_def)
  show "myproc h s = Some (Some pr, s)" using myproc_ok [OF calm_ok [OF c]] p c by simp
qed

lemma in_call_upd_pipe [simp]: "in_call h pr (upd_pipe pi f s) = in_call h pr s"
proof -
  have "cpus (upd_pipe pi f s) = cpus s" "sie (upd_pipe pi f s) = sie s" "lks (upd_pipe pi f s) = lks s"
    by (simp_all add: upd_pipe_def)
  then show ?thesis using calm_cong [of "upd_pipe pi f s" s h] by (simp add: in_call_def at_rest_def free_lock_def)
qed

lemma kpipe_within [simp]: "pipes (within h lk s) = pipes s"
  by (simp add: within_def)

lemma upd_pipe_sel [simp]:
  "pipes (upd_pipe pi f s) = (pipes s)(pi := f (pipes s pi))" "mem (upd_pipe pi f s) = mem s"
  "procs (upd_pipe pi f s) = procs s" "cpus (upd_pipe pi f s) = cpus s"
  by (simp_all add: upd_pipe_def)

lemma upd_pipe_twice [simp]: "upd_pipe pi g (upd_pipe pi f s) = upd_pipe pi (\<lambda>q. g (f q)) s"
  by (simp add: upd_pipe_def)

lemma keeps_locks_upd_pipe [intro]: "keeps_locks (upd_pipe pi f)"
  by (simp add: keeps_locks_def upd_pipe_def)

text \<open>The process can read \<open>bs\<close> at its address \<open>va\<close>.\<close>

definition user_bytes :: "mem \<Rightarrow> addr \<Rightarrow> addr \<Rightarrow> uchar list \<Rightarrow> bool" where
  "user_bytes m pt va bs \<longleftrightarrow> (\<forall>i<length bs. \<exists>a. uaddr m pt (va + of_nat i) = Some a \<and> m a = bs ! i)"

lemma copyin_one:
  assumes "pt_wf (mem s) pt F" and "0 \<in> F" and "user_bytes (mem s) pt va bs" and "i < length bs"
  shows "copyin h pt (va + of_nat i) 1 s = Some (0, [bs ! i])"
proof -
  obtain a where a: "uaddr (mem s) pt (va + of_nat i) = Some a" "mem s a = bs ! i"
    using assms(3,4) by (auto simp: user_bytes_def)
  obtain r xs where x: "copyin h pt (va + of_nat i) 1 s = Some (r, xs)"
    "r = 0 \<longleftrightarrow> (\<forall>k<1. uaddr (mem s) pt (va + of_nat i + of_nat k) \<noteq> None)" "r = 0 \<longrightarrow> length xs = 1"
    "\<forall>k<length xs. \<exists>a. uaddr (mem s) pt (va + of_nat i + of_nat k) = Some a \<and> xs ! k = mem s a"
    using copyin_spec [OF assms(1,2), of h "va + of_nat i" 1] by blast
  have "r = 0" using x(2) a(1) by simp
  then obtain b where b: "xs = [b]" using x(3) by (auto simp: length_Suc_conv)
  then have "b = bs ! i" using x(4) a by auto
  with x(1) b \<open>r = 0\<close> show ?thesis by simp
qed

text \<open>The loop of \<open>pipewrite\<close> while there is room.\<close>

lemma pipewrite_step:
  assumes c: "in_call h pr s" and wf: "pt_wf (mem s) (p_pagetable (procs s pr)) F" "0 \<in> F"
    and u: "user_bytes (mem s) (p_pagetable (procs s pr)) addr bs" and i: "i < length bs"
    and o: "pi_readopen (pipes s pi) \<noteq> 0" and k: "p_killed (procs s pr) = 0" and room: "length (pipe_contents (pipes s pi)) < 512"
  shows "pipewrite_loop h pr pi addr (int (length bs)) i (within h (plock pi) s)
    = pipewrite_loop h pr pi addr (int (length bs)) (Suc i) (within h (plock pi) (upd_pipe pi (pipe_put (bs ! i)) s))"
proof -
  let ?w = "within h (plock pi) s"
  note d = in_callD [OF c]
  have "killed h pr ?w = Some (0, ?w)" using killed_section [OF d(1) d(4), of "plock pi" pr] k by simp
  moreover have "pi_nwrite (pipes s pi) \<noteq> pi_nread (pipes s pi) + PIPESIZE"
    using room by (auto simp: PIPESIZE_def)
  moreover have "copyin h (p_pagetable (procs s pr)) (addr + of_nat i) 1 ?w = Some (0, [bs ! i])"
    using copyin_one [of ?w _ F addr bs i h] wf u i by simp
  moreover have "upd_pipe pi (pipe_put (bs ! i)) ?w = within h (plock pi) (upd_pipe pi (pipe_put (bs ! i)) s)"
    by (rule keeps_within) auto
  ultimately show ?thesis
    using i o by (subst pipewrite_loop.simps) simp
qed

lemma pipe_put_open [simp]: "pi_readopen (pipe_put b q) = pi_readopen q" "pi_writeopen (pipe_put b q) = pi_writeopen q"
  by (simp_all add: pipe_put_def)

lemma pipewrite_run:
  assumes "in_call h pr s" and "pt_wf (mem s) (p_pagetable (procs s pr)) F" "0 \<in> F"
    and "user_bytes (mem s) (p_pagetable (procs s pr)) addr bs" and "i + j \<le> length bs"
    and "pi_readopen (pipes s pi) \<noteq> 0" and "p_killed (procs s pr) = 0" and "pipe_inv (pipes s pi)"
    and "length (pipe_contents (pipes s pi)) + j \<le> 512"
  shows "pipewrite_loop h pr pi addr (int (length bs)) i (within h (plock pi) s)
    = pipewrite_loop h pr pi addr (int (length bs)) (i + j)
        (within h (plock pi) (upd_pipe pi (fold pipe_put (take j (drop i bs))) s))"
  using assms
proof (induction j arbitrary: i s)
  case 0
  have "upd_pipe pi (\<lambda>q. q) s = s" by (simp add: upd_pipe_def)
  then show ?case by (simp add: id_def)
next
  case (Suc j)
  let ?q = "pipes s pi" and ?s1 = "upd_pipe pi (pipe_put (bs ! i)) s"
  have i: "i < length bs" and room: "length (pipe_contents ?q) < 512" using Suc.prems(5,9) by simp_all
  note put = pq.put_contents [OF Suc.prems(8) room, of "bs ! i"]
  have "pipewrite_loop h pr pi addr (int (length bs)) (Suc i) (within h (plock pi) ?s1)
      = pipewrite_loop h pr pi addr (int (length bs)) (Suc i + j)
          (within h (plock pi) (upd_pipe pi (fold pipe_put (take j (drop (Suc i) bs))) ?s1))"
  proof (rule Suc.IH)
    show "pipe_inv (pipes ?s1 pi)" using pq.put_inv [OF Suc.prems(8) room] by simp
    show "length (pipe_contents (pipes ?s1 pi)) + j \<le> 512"
      using Suc.prems(9) arg_cong [OF put, of length] by simp
  qed (use Suc.prems in simp_all)
  moreover have "upd_pipe pi (fold pipe_put (take j (drop (Suc i) bs))) ?s1
      = upd_pipe pi (fold pipe_put (take (Suc j) (drop i bs))) s"
    by (simp add: drop_eq_nth_Cons [OF i] comp_def)
  ultimately show ?case
    using pipewrite_step [OF Suc.prems(1-4) i Suc.prems(6,7) room] by simp
qed

subsection \<open>Lemmas: reading\<close>

primrec store_bytes :: "(addr \<times> uchar) list \<Rightarrow> mem \<Rightarrow> mem" where
  "store_bytes [] m = m"
| "store_bytes (w # ws) m = store_bytes ws (m(fst w := snd w))"

lemma store_bytes_other: "a \<notin> set as \<Longrightarrow> store_bytes (zip as bs) m a = m a"
proof (induction as arbitrary: bs m)
  case (Cons x as)
  then show ?case by (cases bs) auto
qed simp

lemma store_bytes_at:
  "distinct as \<Longrightarrow> length bs = length as \<Longrightarrow> k < length as \<Longrightarrow> store_bytes (zip as bs) m (as ! k) = bs ! k"
proof (induction as arbitrary: bs m k)
  case (Cons x as)
  then obtain b bs' where "bs = b # bs'" by (cases bs) auto
  with Cons show ?case by (cases k) (auto simp: store_bytes_other)
qed simp

text \<open>The process can write at \<open>va\<close>: the bytes there are at the addresses \<open>as\<close>, outside its page tables.\<close>

definition user_space :: "mem \<Rightarrow> addr \<Rightarrow> addr \<Rightarrow> addr list \<Rightarrow> bool" where
  "user_space m pt va as \<longleftrightarrow> (\<forall>i<length as. uaddr m pt (va + of_nat i) = Some (as ! i) \<and> pgno (as ! i) \<notin> tables m pt)"

lemma user_space_write:
  assumes wf: "pt_wf m pt F" and u: "user_space m pt va as" and i: "i < length as"
  shows "pt_wf (m(as ! i := b)) pt F" and "user_space (m(as ! i := b)) pt va as"
proof -
  have t: "(m(as ! i := b)) x = m x" if "pgno x \<in> tables m pt" for x
    using u i that by (auto simp: user_space_def)
  note tc = tables_cong [OF wf t]
  show "pt_wf (m(as ! i := b)) pt F" by (rule tc(1))
  have "translate (m(as ! i := b)) pt va' = translate m pt va'" for va' by (rule tc(3))
  moreover have "tables (m(as ! i := b)) pt = tables m pt" by (rule tc(2))
  moreover have "uaddr (m(as ! i := b)) pt v = uaddr m pt v" for v using calculation(1) by (simp add: uaddr_def)
  ultimately show "user_space (m(as ! i := b)) pt va as" using u by (simp add: user_space_def)
qed

lemma copyout_one:
  assumes "pt_wf (mem s) pt F" and "0 \<in> F" and "uaddr (mem s) pt va = Some a"
  shows "copyout h pt va [b] s = Some (0, s\<lparr>mem := (mem s)(a := b)\<rparr>)"
proof -
  obtain pa0 where pa0: "walkaddr h pt (PGROUNDDOWN va) s = Some pa0" "pa0 \<noteq> 0" "a = pa0 + (va - PGROUNDDOWN va)"
    using walkaddr_uaddr [OF assms(1,2), of h va] assms(3) by (auto split: if_splits)
  have n: "page_room va (length [b]) = 1" using page_room_pos(1) [of 1 va] page_room_pos(2) [of va 1] by simp
  show ?thesis
    using pa0 n by (subst copyout.simps) (simp add: Let_def, subst copyout.simps, simp)
qed

lemma pipe_get_open [simp]: "pi_readopen (snd (pipe_get q)) = pi_readopen q" "pi_writeopen (snd (pipe_get q)) = pi_writeopen q"
  by (simp_all add: pipe_get_def)

lemma upd_pipe_const: "upd_pipe pi (\<lambda>_. f (pipes s pi)) s = upd_pipe pi f s"
  by (simp add: upd_pipe_def)

lemma in_call_mem [simp]: "in_call h pr (s\<lparr>mem := m\<rparr>) = in_call h pr s"
  using calm_cong [of "s\<lparr>mem := m\<rparr>" s h] by (simp add: in_call_def at_rest_def free_lock_def)

lemma mem_within: "(within h lk s)\<lparr>mem := m\<rparr> = within h lk (s\<lparr>mem := m\<rparr>)"
  by (simp add: within_def)

lemma piperead_step:
  assumes c: "in_call h pr s" and wf: "pt_wf (mem s) (p_pagetable (procs s pr)) F" "0 \<in> F"
    and u: "user_space (mem s) (p_pagetable (procs s pr)) addr as" and i: "i < length as"
    and ne: "pipe_contents (pipes s pi) \<noteq> []"
  shows "piperead_copy h pr pi addr (int (length as)) i (within h lk s)
    = piperead_copy h pr pi addr (int (length as)) (Suc i) (within h lk
        ((upd_pipe pi (\<lambda>q. snd (pipe_get q)) s)\<lparr>mem := (mem s)(as ! i := hd (pipe_contents (pipes s pi)))\<rparr>))"
proof -
  let ?w = "within h lk s" and ?q = "pipes s pi" and ?pt = "p_pagetable (procs s pr)"
  have e: "pi_nread ?q \<noteq> pi_nwrite ?q" using ne by (auto simp: pipe_contents_def)
  have hd: "hd (pipe_contents ?q) = fst (pipe_get ?q)"
    using unat_diff_Suc [of "pi_nwrite ?q" "pi_nread ?q"] e
    by (simp add: pipe_contents_def pipe_get_def upt_conv_Cons del: upt_Suc)
  let ?v = "upd_pipe pi (\<lambda>_. snd (pipe_get ?q)) ?w"
  have v: "?v = within h lk (upd_pipe pi (\<lambda>q. snd (pipe_get q)) s)"
    using keeps_within [OF keeps_locks_upd_pipe, of pi "\<lambda>_. snd (pipe_get ?q)" h lk s]
      upd_pipe_const [of pi "\<lambda>q. snd (pipe_get q)" s] by simp
  have "copyout h ?pt (addr + of_nat i) [fst (pipe_get ?q)] ?v
      = Some (0, ?v\<lparr>mem := (mem s)(as ! i := fst (pipe_get ?q))\<rparr>)"
    using copyout_one [of ?v ?pt F "addr + of_nat i" "as ! i"] wf u i by (simp add: user_space_def)
  then show ?thesis
    using i e unfolding v hd mem_within
    by (subst piperead_copy.simps) (simp add: case_prod_unfold Let_def v)
qed

lemma piperead_run:
  assumes "in_call h pr s" and "pt_wf (mem s) (p_pagetable (procs s pr)) F" "0 \<in> F"
    and "user_space (mem s) (p_pagetable (procs s pr)) addr as" and "i + j \<le> length as"
    and "pipe_inv (pipes s pi)" and "j \<le> length (pipe_contents (pipes s pi))"
  shows "piperead_copy h pr pi addr (int (length as)) i (within h lk s)
    = piperead_copy h pr pi addr (int (length as)) (i + j) (within h lk
        ((upd_pipe pi (\<lambda>q. snd (pq.gets j q)) s)
          \<lparr>mem := store_bytes (zip (take j (drop i as)) (pipe_contents (pipes s pi))) (mem s)\<rparr>))"
  using assms
proof (induction j arbitrary: i s)
  case 0
  have "upd_pipe pi (\<lambda>q. q) s = s" by (simp add: upd_pipe_def)
  then show ?case by simp
next
  case (Suc j)
  let ?q = "pipes s pi"
  have ne: "pipe_contents ?q \<noteq> []"
  proof
    assume "pipe_contents ?q = []"
    then have "length (pipe_contents ?q) = 0" by (simp only: list.size)
    with Suc.prems(7) show False by linarith
  qed
  have i: "i < length as" using Suc.prems(5) by simp
  let ?s1 = "(upd_pipe pi (\<lambda>q. snd (pipe_get q)) s)\<lparr>mem := (mem s)(as ! i := hd (pipe_contents ?q))\<rparr>"
  have get: "pipe_contents ?q = hd (pipe_contents ?q) # pipe_contents (snd (pipe_get ?q))"
    using pq.get_contents [OF Suc.prems(6) ne] by (metis list.sel(1))
  have len: "j \<le> length (pipe_contents (pipes ?s1 pi))" using Suc.prems(7) arg_cong [OF get, of length] by simp
  have "piperead_copy h pr pi addr (int (length as)) (Suc i) (within h lk ?s1)
      = piperead_copy h pr pi addr (int (length as)) (Suc i + j) (within h lk
        ((upd_pipe pi (\<lambda>q. snd (pq.gets j q)) ?s1)
          \<lparr>mem := store_bytes (zip (take j (drop (Suc i) as)) (pipe_contents (pipes ?s1 pi))) (mem ?s1)\<rparr>))"
  proof (rule Suc.IH)
    show "pt_wf (mem ?s1) (p_pagetable (procs ?s1 pr)) F" "user_space (mem ?s1) (p_pagetable (procs ?s1 pr)) addr as"
      using user_space_write [OF Suc.prems(2,4) i] by (simp_all del: fun_upd_apply)
  qed (use Suc.prems pq.get_inv [OF Suc.prems(6) ne] len in simp_all)
  moreover have "(upd_pipe pi (\<lambda>q. snd (pq.gets j q)) ?s1)
          \<lparr>mem := store_bytes (zip (take j (drop (Suc i) as)) (pipe_contents (pipes ?s1 pi))) (mem ?s1)\<rparr>
      = (upd_pipe pi (\<lambda>q. snd (pq.gets (Suc j) q)) s)
          \<lparr>mem := store_bytes (zip (take (Suc j) (drop i as)) (pipe_contents ?q)) (mem s)\<rparr>"
    by (subst get) (simp add: drop_eq_nth_Cons [OF i] upd_pipe_def case_prod_unfold Let_def)
  ultimately show ?case using piperead_step [OF Suc.prems(1-4) i ne] by simp
qed

subsection \<open>Properties\<close>

lemma in_call_procs:
  "in_call h pr s \<Longrightarrow> in_call h pr (s\<lparr>procs := P\<rparr>)"
  using calm_cong [of "s\<lparr>procs := P\<rparr>" s h] by (simp add: in_call_def at_rest_def free_lock_def)

lemma pipe_end_spec:
  assumes "in_call h pr s"
  shows "pipe_end h ch pi i (within h (plock pi) s) = Some (Done (int i) (s\<lparr>procs := wake_all (Some pr) ch (procs s)\<rparr>))"
proof -
  note d = in_callD [OF assms] and d' = in_callD [OF in_call_procs [OF assms]]
  show ?thesis using wakeup_section [OF d(1,5), of "plock pi" ch] d(3) release_section [OF d'(1) d'(4)]
    by (simp add: pipe_end_def)
qed

text \<open>The ring with its length counted in bytes is full exactly when the code says so.\<close>

lemma pipe_full: "pi_nwrite q = pi_nread q + PIPESIZE \<longleftrightarrow> length (pipe_contents q) = 512"
proof
  assume "length (pipe_contents q) = 512"
  then have "unat (pi_nwrite q - pi_nread q) = unat PIPESIZE" by (simp add: PIPESIZE_def)
  then show "pi_nwrite q = pi_nread q + PIPESIZE" by (simp add: unat_inject diff_eq_eq add.commute)
qed (simp add: PIPESIZE_def)

lemma pipe_empty: "pi_nread q = pi_nwrite q \<longleftrightarrow> pipe_contents q = []"
proof
  assume "pipe_contents q = []"
  then have "unat (pi_nwrite q - pi_nread q) = 0" by (metis length_pipe_contents list.size(3))
  then have "pi_nwrite q - pi_nread q = 0" by (metis unat_eq_0)
  then show "pi_nread q = pi_nwrite q" by simp
qed (simp add: pipe_contents_def)

text \<open>The loop of \<open>pipewrite\<close> after \<open>j\<close> bytes that fit.\<close>

lemma pipewrite_upto:
  fixes s :: "'a kpipe_scheme"
  assumes "in_call h pr s" and "pt_wf (mem s) (p_pagetable (procs s pr)) F" "0 \<in> F"
    and "user_bytes (mem s) (p_pagetable (procs s pr)) addr bs"
    and "pi_readopen (pipes s pi) \<noteq> 0" and "p_killed (procs s pr) = 0" and "pipe_inv (pipes s pi)"
    and j: "j \<le> length bs" "length (pipe_contents (pipes s pi)) + j \<le> 512"
  shows "pipewrite h pi addr (int (length bs)) s = pipewrite_loop h pr pi addr (int (length bs)) j
      (within h (plock pi) (upd_pipe pi (fold pipe_put (take j bs)) s))"
    and "pipe_inv (fold pipe_put (take j bs) (pipes s pi))"
    and "pipe_contents (fold pipe_put (take j bs) (pipes s pi)) = pipe_contents (pipes s pi) @ take j bs"
proof -
  note d = in_callD [OF assms(1)]
  have "pipewrite h pi addr (int (length bs)) s = pipewrite_loop h pr pi addr (int (length bs)) 0 (within h (plock pi) s)"
    using d by (simp add: pipewrite_def acquire_free)
  then show "pipewrite h pi addr (int (length bs)) s = pipewrite_loop h pr pi addr (int (length bs)) j
      (within h (plock pi) (upd_pipe pi (fold pipe_put (take j bs)) s))"
    using pipewrite_run [OF assms(1-4), of 0 j pi] assms(5-7) j by simp
  show "pipe_inv (fold pipe_put (take j bs) (pipes s pi))"
    "pipe_contents (fold pipe_put (take j bs) (pipes s pi)) = pipe_contents (pipes s pi) @ take j bs"
    using pq.puts [OF assms(7), of "take j bs"] j by simp_all
qed

lemma fold_put_readopen: "pi_readopen (fold pipe_put xs q) = pi_readopen q"
  by (induction xs arbitrary: q) simp_all

lemma pipewrite_fits:
  fixes s :: "'a kpipe_scheme"
  assumes "in_call h pr s" and "pt_wf (mem s) (p_pagetable (procs s pr)) F" "0 \<in> F"
    and "user_bytes (mem s) (p_pagetable (procs s pr)) addr bs"
    and "pi_readopen (pipes s pi) \<noteq> 0" and "p_killed (procs s pr) = 0" and "pipe_inv (pipes s pi)"
    and room: "length (pipe_contents (pipes s pi)) + length bs \<le> 512"
  shows "\<exists>q. pipewrite h pi addr (int (length bs)) s = Some (Done (int (length bs))
      ((upd_pipe pi (\<lambda>_. q) s)\<lparr>procs := wake_all (Some pr) (chan_r pi) (procs s)\<rparr>))
    \<and> pipe_inv q \<and> pipe_contents q = pipe_contents (pipes s pi) @ bs"
proof -
  let ?s = "upd_pipe pi (fold pipe_put bs) s"
  note run = pipewrite_upto [OF assms(1-7) order.refl room]
  have "pipewrite h pi addr (int (length bs)) s = pipe_end h (chan_r pi) pi (length bs) (within h (plock pi) ?s)"
    using run(1) by (simp add: pipewrite_loop.simps)
  also have "\<dots> = Some (Done (int (length bs)) (?s\<lparr>procs := wake_all (Some pr) (chan_r pi) (procs s)\<rparr>))"
    using pipe_end_spec [of h pr ?s] assms(1) by simp
  finally show ?thesis using run(2,3) upd_pipe_const [of pi "fold pipe_put bs" s]
    by (intro exI [of _ "fold pipe_put bs (pipes s pi)"]) simp
qed

text \<open>A full pipe: the writer wakes the readers and sleeps.\<close>

lemma pipewrite_full:
  fixes s :: "'a kpipe_scheme"
  assumes c: "in_call h pr s" and "p_killed (procs s pr) = 0" and "pi_readopen (pipes s pi) \<noteq> 0"
    and full: "length (pipe_contents (pipes s pi)) = 512" and i: "i < n"
  shows "\<exists>t. pipewrite_loop h pr pi addr (int n) i (within h (plock pi) s) = Some (Asleep i t)
    \<and> scheduler_back h pr t = Some (s\<lparr>cpus := (cpus s)(h := (cpus s h)\<lparr>intena := sie s h, c_proc := None\<rparr>),
         procs := (wake_all (Some pr) (chan_r pi) (procs s))(pr := (wake_all (Some pr) (chan_r pi) (procs s) pr)\<lparr>p_chan := chan_w pi, p_state := SLEEPING\<rparr>),
         saved_intena := (saved_intena s)(pr := sie s h)\<rparr>)"
proof -
  let ?s2 = "s\<lparr>procs := wake_all (Some pr) (chan_r pi) (procs s)\<rparr>"
  note c2 = in_call_procs [OF c, of "wake_all (Some pr) (chan_r pi) (procs s)"]
  note d = in_callD [OF c] and d2 = in_callD [OF c2]
  have f: "pi_nwrite (pipes s pi) = pi_nread (pipes s pi) + PIPESIZE" using full by (simp only: pipe_full)
  have kl: "killed h pr (within h (plock pi) s) = Some (0, within h (plock pi) s)"
    using killed_section [OF d(1) d(4), of "plock pi" pr] assms(2) by simp
  have w: "wakeup h (chan_r pi) (within h (plock pi) s) = Some (within h (plock pi) ?s2)"
    using wakeup_section [OF d(1,5), of "plock pi" "chan_r pi"] d(3) by simp
  obtain t where t: "sleep_enter h (chan_w pi) (plock pi) (within h (plock pi) ?s2) = Some t"
    "scheduler_back h pr t = Some (?s2\<lparr>cpus := (cpus ?s2)(h := (cpus ?s2 h)\<lparr>intena := sie ?s2 h, c_proc := None\<rparr>),
       procs := (procs ?s2)(pr := (procs ?s2 pr)\<lparr>p_chan := chan_w pi, p_state := SLEEPING\<rparr>),
       saved_intena := (saved_intena ?s2)(pr := sie ?s2 h)\<rparr>)"
    using sleep_enter_leaves [OF d2(2) d2(3) d2(4) d2(4), of "plock pi" "chan_w pi"] by blast
  have "pipewrite_loop h pr pi addr (int n) i (within h (plock pi) s) = Some (Asleep i t)"
    using f kl w t(1) i assms(3) by (subst pipewrite_loop.simps) simp
  then show ?thesis using t(2) by (intro exI [of _ t]) simp
qed

lemma pipewrite_blocks:
  fixes s :: "'a kpipe_scheme"
  assumes "in_call h pr s" and "pt_wf (mem s) (p_pagetable (procs s pr)) F" "0 \<in> F"
    and "user_bytes (mem s) (p_pagetable (procs s pr)) addr bs"
    and "pi_readopen (pipes s pi) \<noteq> 0" and "p_killed (procs s pr) = 0" and "pipe_inv (pipes s pi)"
    and "length (pipe_contents (pipes s pi)) + length bs > 512"
  shows "\<exists>k t s'. pipewrite h pi addr (int (length bs)) s = Some (Asleep k t) \<and> scheduler_back h pr t = Some s'
        \<and> k = 512 - length (pipe_contents (pipes s pi)) \<and> pipe_inv (pipes s' pi)
        \<and> pipe_contents (pipes s' pi) = pipe_contents (pipes s pi) @ take k bs
        \<and> lks s' = lks s \<and> p_state (procs s' pr) = SLEEPING \<and> p_chan (procs s' pr) = chan_w pi
        \<and> (\<forall>p. p \<noteq> pr \<longrightarrow> procs s' p = wake_all (Some pr) (chan_r pi) (procs s) p)"
proof -
  let ?q = "pipes s pi"
  define k where "k = 512 - length (pipe_contents ?q)"
  have k: "k < length bs" "length (pipe_contents ?q) + k = 512"
    using assms(8) pq.bounded [OF assms(7)] by (simp_all add: k_def)
  note run = pipewrite_upto [OF assms(1-7) less_imp_le [OF k(1)] eq_refl [OF k(2)]]
  let ?s = "upd_pipe pi (fold pipe_put (take k bs)) s"
  have "in_call h pr ?s" "p_killed (procs ?s pr) = 0" "pi_readopen (pipes ?s pi) \<noteq> 0" "length (pipe_contents (pipes ?s pi)) = 512"
    using assms(1,5,6) run(3) k by (simp_all add: fold_put_readopen)
  from pipewrite_full [OF this k(1), of addr] obtain t s' where t: "pipewrite h pi addr (int (length bs)) s = Some (Asleep k t)" "scheduler_back h pr t = Some s'"
    "s' = ?s\<lparr>cpus := (cpus ?s)(h := (cpus ?s h)\<lparr>intena := sie ?s h, c_proc := None\<rparr>),
         procs := (wake_all (Some pr) (chan_r pi) (procs ?s))(pr := (wake_all (Some pr) (chan_r pi) (procs ?s) pr)\<lparr>p_chan := chan_w pi, p_state := SLEEPING\<rparr>),
         saved_intena := (saved_intena ?s)(pr := sie ?s h)\<rparr>" using run(1) by auto
  then show ?thesis using run(2,3)
    by (intro exI [of _ k] exI [of _ t] exI [of _ s']) (simp add: k_def, simp add: upd_pipe_def)
qed

text \<open>
  C18. \<open>pipewrite\<close> appends to the pipe in order, loses nothing and never overruns the ring of 512 bytes:
  with room for all the bytes it returns their number and the pipe holds its old contents followed by
  them; otherwise it writes exactly as many as fit, wakes the readers and sleeps with the lock
  released, remembering how far it came. This holds also when the 32-bit counters wrap around.
\<close>

theorem pipewrite_correct:
  fixes s :: "'a kpipe_scheme"
  assumes "in_call h pr s" and "pt_wf (mem s) (p_pagetable (procs s pr)) F" "0 \<in> F"
    and "user_bytes (mem s) (p_pagetable (procs s pr)) addr bs"
    and "pi_readopen (pipes s pi) \<noteq> 0" and "p_killed (procs s pr) = 0" and "pipe_inv (pipes s pi)"
  shows "(length (pipe_contents (pipes s pi)) + length bs \<le> 512 \<longrightarrow>
      (\<exists>q. pipewrite h pi addr (int (length bs)) s = Some (Done (int (length bs))
          ((upd_pipe pi (\<lambda>_. q) s)\<lparr>procs := wake_all (Some pr) (chan_r pi) (procs s)\<rparr>))
        \<and> pipe_inv q \<and> pipe_contents q = pipe_contents (pipes s pi) @ bs))
    \<and> (length (pipe_contents (pipes s pi)) + length bs > 512 \<longrightarrow>
      (\<exists>k t s'. pipewrite h pi addr (int (length bs)) s = Some (Asleep k t) \<and> scheduler_back h pr t = Some s'
        \<and> k = 512 - length (pipe_contents (pipes s pi)) \<and> pipe_inv (pipes s' pi)
        \<and> pipe_contents (pipes s' pi) = pipe_contents (pipes s pi) @ take k bs
        \<and> lks s' = lks s \<and> p_state (procs s' pr) = SLEEPING \<and> p_chan (procs s' pr) = chan_w pi
        \<and> (\<forall>p. p \<noteq> pr \<longrightarrow> procs s' p = wake_all (Some pr) (chan_r pi) (procs s) p)))"
  using pipewrite_fits [OF assms] pipewrite_blocks [OF assms] by blast

lemma piperead_start:
  "in_call h pr s \<Longrightarrow> piperead h pi addr n s = piperead_loop h pr pi addr n (within h (plock pi) s)"
  using in_callD [of h pr s] by (simp add: piperead_def acquire_free)

lemma piperead_takes:
  fixes s :: "'a kpipe_scheme"
  assumes "in_call h pr s" and "pt_wf (mem s) (p_pagetable (procs s pr)) F" "0 \<in> F"
    and "user_space (mem s) (p_pagetable (procs s pr)) addr as" and "distinct as" and "pipe_inv (pipes s pi)"
    and ready: "pipe_contents (pipes s pi) \<noteq> [] \<or> pi_writeopen (pipes s pi) = 0"
  shows "\<exists>k m q. piperead h pi addr (int (length as)) s = Some (Done (int k)
        ((upd_pipe pi (\<lambda>_. q) s)\<lparr>mem := m, procs := wake_all (Some pr) (chan_w pi) (procs s)\<rparr>))
      \<and> k = min (length as) (length (pipe_contents (pipes s pi))) \<and> pipe_inv q
      \<and> pipe_contents q = drop k (pipe_contents (pipes s pi))
      \<and> (\<forall>i<k. m (as ! i) = pipe_contents (pipes s pi) ! i) \<and> (\<forall>a. a \<notin> set (take k as) \<longrightarrow> m a = mem s a)"
proof -
  let ?q = "pipes s pi" and ?n = "length as"
  note start = piperead_start [OF assms(1), of pi addr "int ?n"]
  define k where "k = min ?n (length (pipe_contents ?q))"
  have k: "k \<le> ?n" "k \<le> length (pipe_contents ?q)" by (auto simp: k_def)
  let ?m = "store_bytes (zip (take k as) (pipe_contents ?q)) (mem s)"
  let ?s = "(upd_pipe pi (\<lambda>q. snd (pq.gets k q)) s)\<lparr>mem := ?m\<rparr>"
  have g: "pipe_inv (snd (pq.gets k ?q))" "pipe_contents (snd (pq.gets k ?q)) = drop k (pipe_contents ?q)"
    using pq.gets_take [OF assms(6) k(2)] by simp_all
  have "pi_nread (pipes ?s pi) = pi_nwrite (pipes ?s pi)" if "k < ?n"
    using g(2) that by (simp only: pipe_empty) (simp add: k_def)
  then have "piperead_copy h pr pi addr (int ?n) k (within h (plock pi) ?s) = Some (k, within h (plock pi) ?s)"
    using k(1) by (subst piperead_copy.simps) simp
  then have "piperead_copy h pr pi addr (int ?n) 0 (within h (plock pi) s) = Some (k, within h (plock pi) ?s)"
    using piperead_run [OF assms(1-4), of 0 k pi "plock pi"] k assms(6) by simp
  moreover have np: "\<not> (pi_nread ?q = pi_nwrite ?q \<and> pi_writeopen ?q \<noteq> 0)" using ready by (auto simp: pipe_empty)
  ultimately have "piperead h pi addr (int ?n) s = pipe_end h (chan_w pi) pi k (within h (plock pi) ?s)"
    using start unfolding piperead_loop_def kpipe_within if_not_P [OF np] by simp
  also have "\<dots> = Some (Done (int k) (?s\<lparr>procs := wake_all (Some pr) (chan_w pi) (procs s)\<rparr>))"
    using pipe_end_spec [of h pr ?s] assms(1) by simp
  moreover have "?m (as ! i) = pipe_contents ?q ! i" if "i < k" for i
  proof -
    have "zip (take k as) (pipe_contents ?q) = zip (take k as) (take k (pipe_contents ?q))"
      by (rule nth_equalityI) auto
    then show ?thesis
      using store_bytes_at [of "take k as" "take k (pipe_contents ?q)" i "mem s"] assms(5) k that by simp
  qed
  moreover have "?m a = mem s a" if "a \<notin> set (take k as)" for a by (rule store_bytes_other [OF that])
  ultimately show "\<exists>k m q. piperead h pi addr (int ?n) s = Some (Done (int k)
        ((upd_pipe pi (\<lambda>_. q) s)\<lparr>mem := m, procs := wake_all (Some pr) (chan_w pi) (procs s)\<rparr>))
      \<and> k = min ?n (length (pipe_contents ?q)) \<and> pipe_inv q
      \<and> pipe_contents q = drop k (pipe_contents ?q)
      \<and> (\<forall>i<k. m (as ! i) = pipe_contents ?q ! i) \<and> (\<forall>a. a \<notin> set (take k as) \<longrightarrow> m a = mem s a)"
    using g upd_pipe_const [of pi "\<lambda>q. snd (pq.gets k q)" s]
    by (intro exI [of _ k] exI [of _ ?m] exI [of _ "snd (pq.gets k ?q)"]) (simp add: k_def)
qed

lemma piperead_sleeps:
  fixes s :: "'a kpipe_scheme"
  assumes "in_call h pr s" and e: "pipe_contents (pipes s pi) = []" "pi_writeopen (pipes s pi) \<noteq> 0" "p_killed (procs s pr) = 0"
  shows "\<exists>t s'. piperead h pi addr n s = Some (Asleep () t) \<and> scheduler_back h pr t = Some s'
    \<and> pipes s' = pipes s \<and> mem s' = mem s \<and> lks s' = lks s
    \<and> p_state (procs s' pr) = SLEEPING \<and> p_chan (procs s' pr) = chan_r pi"
proof -
  note d = in_callD [OF assms(1)]
  have kl: "killed h pr (within h (plock pi) s) = Some (0, within h (plock pi) s)"
    using killed_section [OF d(1) d(4), of "plock pi" pr] e(3) by simp
  obtain t where t: "sleep_enter h (chan_r pi) (plock pi) (within h (plock pi) s) = Some t"
    "scheduler_back h pr t = Some (s\<lparr>cpus := (cpus s)(h := (cpus s h)\<lparr>intena := sie s h, c_proc := None\<rparr>),
       procs := (procs s)(pr := (procs s pr)\<lparr>p_chan := chan_r pi, p_state := SLEEPING\<rparr>),
       saved_intena := (saved_intena s)(pr := sie s h)\<rparr>)"
    using sleep_enter_leaves [OF d(2) d(3) d(4) d(4), of "plock pi" "chan_r pi"] by blast
  have "pi_nread (pipes s pi) = pi_nwrite (pipes s pi)" using e(1) by (simp only: pipe_empty)
  with piperead_start [OF assms(1), of pi addr n] kl t e(2) show ?thesis by (simp add: piperead_loop_def)
qed

text \<open>
  C19. \<open>piperead\<close> takes from the front of the pipe, in order: with something in the pipe, or when the
  writers are gone, it returns the number of bytes it took, at most \<open>n\<close> and at most what is there (so 0,
  the end of file, exactly when the closed pipe is empty or \<open>n\<close> is 0), the bytes are in the process's
  memory, the pipe holds the rest, and the writers are woken; no other byte of memory changes. An
  empty pipe with a writer left puts the reader to sleep with the lock released.
\<close>

theorem piperead_correct:
  fixes s :: "'a kpipe_scheme"
  assumes "in_call h pr s" and "pt_wf (mem s) (p_pagetable (procs s pr)) F" "0 \<in> F"
    and "user_space (mem s) (p_pagetable (procs s pr)) addr as" and "distinct as" and "pipe_inv (pipes s pi)"
  shows "(pipe_contents (pipes s pi) \<noteq> [] \<or> pi_writeopen (pipes s pi) = 0 \<longrightarrow>
      (\<exists>k m q. piperead h pi addr (int (length as)) s = Some (Done (int k)
          ((upd_pipe pi (\<lambda>_. q) s)\<lparr>mem := m, procs := wake_all (Some pr) (chan_w pi) (procs s)\<rparr>))
        \<and> k = min (length as) (length (pipe_contents (pipes s pi))) \<and> pipe_inv q
        \<and> pipe_contents q = drop k (pipe_contents (pipes s pi))
        \<and> (\<forall>i<k. m (as ! i) = pipe_contents (pipes s pi) ! i) \<and> (\<forall>a. a \<notin> set (take k as) \<longrightarrow> m a = mem s a)))
    \<and> (pipe_contents (pipes s pi) = [] \<longrightarrow> pi_writeopen (pipes s pi) \<noteq> 0 \<longrightarrow> p_killed (procs s pr) = 0 \<longrightarrow>
      (\<exists>t s'. piperead h pi addr (int (length as)) s = Some (Asleep () t) \<and> scheduler_back h pr t = Some s'
        \<and> pipes s' = pipes s \<and> mem s' = mem s \<and> lks s' = lks s
        \<and> p_state (procs s' pr) = SLEEPING \<and> p_chan (procs s' pr) = chan_r pi))"
  using piperead_takes [OF assms] piperead_sleeps [OF assms(1), of pi addr "int (length as)"] by blast

text \<open>A process whose page at \<open>0x1000\<close> is mapped, and a pipe whose counters are about to wrap around.\<close>

definition pipe0 :: "uchar \<Rightarrow> pipe" where
  "pipe0 b = pipe_put b \<lparr>pi_data = (\<lambda>_. 0), pi_nread = -1, pi_nwrite = -1, pi_readopen = 1, pi_writeopen = 1\<rparr>"

definition kpipe0 :: "mem \<Rightarrow> kpipe" where
  "kpipe0 m = kslk.extend (kslk0\<lparr>mem := m, procs := (\<lambda>_. proc0\<lparr>p_pagetable := 0x80000000\<rparr>)\<rparr>) \<lparr>pipes = (\<lambda>_. pipe0 7)\<rparr>"

lemma pipe0_ok: "pipe_inv (pipe0 b)" "pipe_contents (pipe0 b) = [b]" "pi_readopen (pipe0 b) = 1" "pi_writeopen (pipe0 b) = 1"
proof -
  let ?e = "\<lparr>pi_data = (\<lambda>_. 0), pi_nread = -1, pi_nwrite = -1, pi_readopen = 1, pi_writeopen = 1\<rparr>"
  have e: "pipe_inv ?e" "pipe_contents ?e = []" by (simp_all add: pipe_inv_def pipe_contents_def)
  show "pipe_inv (pipe0 b)" "pipe_contents (pipe0 b) = [b]"
    using pq.put_inv [OF e(1)] pq.put_contents [OF e(1)] e(2) by (simp_all add: pipe0_def)
  show "pi_readopen (pipe0 b) = 1" "pi_writeopen (pipe0 b) = 1" by (simp_all add: pipe0_def)
qed

lemma kpipe0_ok: "in_call 0 3 (kpipe0 m)" "mem (kpipe0 m) = m" "p_pagetable (procs (kpipe0 m) p) = 0x80000000"
  "pipes (kpipe0 m) pi = pipe0 7" "p_killed (procs (kpipe0 m) p) = 0"
proof -
  have "calm 0 (kpipe0 m) = calm 0 kslk0" by (rule calm_cong) (simp_all add: kpipe0_def kslk.defs)
  then show "in_call 0 3 (kpipe0 m)"
    using kslk0_ok by (simp add: in_call_def at_rest_def free_lock_def kpipe0_def kslk.defs NPROC_def)
qed (simp_all add: kpipe0_def kslk.defs proc0_def)

theorem pipewrite_correct_witness:
  "\<exists>m t. pipewrite 0 0x87fff000 0x1000 1 (kpipe0 m) = Some (Done 1 t)
    \<and> pipe_contents (pipes t 0x87fff000) = [7, m 0x80001000]"
proof -
  obtain m where m: "pt_wf m 0x80000000 {0}"
    "\<And>i. i < 4096 \<Longrightarrow> uaddr m 0x80000000 (0x1000 + of_nat i) = Some (0x80001000 + of_nat i)"
    using user_page by blast
  have u: "user_bytes m 0x80000000 0x1000 [m 0x80001000]" using m(2) [of 0] by (simp add: user_bytes_def)
  show ?thesis
    using pipewrite_correct [of 0 3 "kpipe0 m" "{0}" "0x1000" "[m 0x80001000]" "0x87fff000"] u m(1) pipe0_ok [of 7]
    by (intro exI [of _ m]) (auto simp: kpipe0_ok)
qed

theorem piperead_correct_witness:
  "\<exists>m t. piperead 0 0x87fff000 0x1000 2 (kpipe0 m) = Some (Done 1 t)
    \<and> pipe_contents (pipes t 0x87fff000) = [] \<and> mem t 0x80001000 = 7"
proof -
  obtain m where m: "pt_wf m 0x80000000 {0}" "0x80001 \<notin> tables m 0x80000000"
    "\<And>i. i < 4096 \<Longrightarrow> uaddr m 0x80000000 (0x1000 + of_nat i) = Some (0x80001000 + of_nat i)
      \<and> pgno (0x80001000 + of_nat i) = 0x80001"
    using user_page by blast
  have u: "user_space m 0x80000000 0x1000 [0x80001000, 0x80001001]"
    using m(2) m(3) [of 0] m(3) [of 1] by (auto simp: user_space_def less_Suc_eq)
  show ?thesis
    using piperead_correct [of 0 3 "kpipe0 m" "{0}" "0x1000" "[0x80001000, 0x80001001]" "0x87fff000"] u m(1) pipe0_ok [of 7]
    by (intro exI [of _ m]) (auto simp: kpipe0_ok)
qed

end
