(* ===== verification/Bio.thy ===== *)
theory Bio
  imports Pipe
begin

text \<open>
  \<open>labo2/kernel/bio.c\<close>: the cache of disk blocks. The buffers are linked in a ring through \<open>prev\<close> and
  \<open>next\<close>, in the order of their last use; buffer \<open>NBUF\<close> is the list head \<open>bcache.head\<close>. The functions are
  followed through one kernel thread (theory \<open>Sleeplock\<close>): \<open>None\<close> is a panic or a wait for another
  thread.

  A block is a function from offsets to bytes, of which the first \<open>BSIZE\<close> count. The disk is the
  contents of its blocks, and \<open>dwrites\<close> the history of the writes it has completed, the last one last:
  what is on the disk after a crash is what a prefix of the history has written. A transfer
  (\<open>virtio_disk_rw\<close>) is seen from the caller: it returns when the device has done it.
\<close>

subsection \<open>State\<close>

definition BSIZE :: nat where "BSIZE = 1024"
definition NBUF :: nat where "NBUF = 30"

type_synonym block = "nat \<Rightarrow> uchar"

record buf =
  b_valid :: bool
  b_dev :: uint
  b_blockno :: uint
  b_refcnt :: uint
  b_prev :: nat
  b_next :: nat
  b_data :: block

record kbio = kpipe +
  bufs :: "nat \<Rightarrow> buf"
  disk :: "uint \<Rightarrow> block"
  dwrites :: "(uint \<times> block) list"

definition upd_buf :: "nat \<Rightarrow> (buf \<Rightarrow> buf) \<Rightarrow> 'a kbio_scheme \<Rightarrow> 'a kbio_scheme" where
  "upd_buf b f s = s\<lparr>bufs := (bufs s)(b := f (bufs s b))\<rparr>"

definition virtio_disk_rw :: "nat \<Rightarrow> bool \<Rightarrow> 'a kbio_scheme \<Rightarrow> 'a kbio_scheme" where
  "virtio_disk_rw b wr s =
     (if wr then s\<lparr>disk := (disk s)(b_blockno (bufs s b) := b_data (bufs s b)),
                      dwrites := dwrites s @ [(b_blockno (bufs s b), b_data (bufs s b))]\<rparr>
      else upd_buf b (\<lambda>q. q\<lparr>b_data := disk s (b_blockno (bufs s b))\<rparr>) s)"

subsection \<open>The ring\<close>

text \<open>\<open>b->next = head.next; b->prev = &head; head.next->prev = b; head.next = b\<close>\<close>

definition link_front :: "nat \<Rightarrow> 'a kbio_scheme \<Rightarrow> 'a kbio_scheme" where
  "link_front b s =
     (let s = upd_buf b (\<lambda>q. q\<lparr>b_next := b_next (bufs s NBUF)\<rparr>) s;
          s = upd_buf b (\<lambda>q. q\<lparr>b_prev := NBUF\<rparr>) s;
          s = upd_buf (b_next (bufs s NBUF)) (\<lambda>q. q\<lparr>b_prev := b\<rparr>) s
      in upd_buf NBUF (\<lambda>q. q\<lparr>b_next := b\<rparr>) s)"

text \<open>\<open>b->next->prev = b->prev; b->prev->next = b->next\<close>\<close>

definition unlink_buf :: "nat \<Rightarrow> 'a kbio_scheme \<Rightarrow> 'a kbio_scheme" where
  "unlink_buf b s =
     (let s = upd_buf (b_next (bufs s b)) (\<lambda>q. q\<lparr>b_prev := b_prev (bufs s b)\<rparr>) s
      in upd_buf (b_prev (bufs s b)) (\<lambda>q. q\<lparr>b_next := b_next (bufs s b)\<rparr>) s)"

definition binit :: "'a kbio_scheme \<Rightarrow> 'a kbio_scheme" where
  "binit s =
     (let s = initlock bcache_lock ''bcache'' s;
          s = upd_buf NBUF (\<lambda>q. q\<lparr>b_prev := NBUF\<rparr>) s;
          s = upd_buf NBUF (\<lambda>q. q\<lparr>b_next := NBUF\<rparr>) s
      in fold (\<lambda>b s. link_front b (initsleeplock (buf_lock b) ''buffer'' s)) [0..<NBUF] s)"

text \<open>The two searches of \<open>bget\<close>: along \<open>next\<close> for the block, and along \<open>prev\<close> for a buffer not in use.\<close>

partial_function (option) bget_cached :: "uint \<Rightarrow> uint \<Rightarrow> nat \<Rightarrow> 'a kbio_scheme \<Rightarrow> nat option option" where
  "bget_cached dev blockno b s =
     (if b = NBUF then Some None
      else if b_dev (bufs s b) = dev \<and> b_blockno (bufs s b) = blockno then Some (Some b)
      else bget_cached dev blockno (b_next (bufs s b)) s)"

partial_function (option) bget_unused :: "nat \<Rightarrow> 'a kbio_scheme \<Rightarrow> nat option option" where
  "bget_unused b s =
     (if b = NBUF then Some None
      else if b_refcnt (bufs s b) = 0 then Some (Some b)
      else bget_unused (b_prev (bufs s b)) s)"

subsection \<open>Operations\<close>

definition bget :: "nat \<Rightarrow> uint \<Rightarrow> uint \<Rightarrow> 'a kbio_scheme \<Rightarrow> (nat \<times> 'a kbio_scheme) option" where
  "bget h dev blockno s = do {
     s \<leftarrow> acquire h bcache_lock s;
     found \<leftarrow> bget_cached dev blockno (b_next (bufs s NBUF)) s;
     case found of
       Some b \<Rightarrow> do {
         let s = upd_buf b (\<lambda>q. q\<lparr>b_refcnt := b_refcnt q + 1\<rparr>) s;
         s \<leftarrow> release h bcache_lock s;
         s \<leftarrow> getsleep h (buf_lock b) s;
         Some (b, s) }
     | None \<Rightarrow> do {
         found \<leftarrow> bget_unused (b_prev (bufs s NBUF)) s;
         b \<leftarrow> found;
         let s = upd_buf b (\<lambda>q. q\<lparr>b_dev := dev, b_blockno := blockno, b_valid := False, b_refcnt := 1\<rparr>) s;
         s \<leftarrow> release h bcache_lock s;
         s \<leftarrow> getsleep h (buf_lock b) s;
         Some (b, s) } }"

definition bread :: "nat \<Rightarrow> uint \<Rightarrow> uint \<Rightarrow> 'a kbio_scheme \<Rightarrow> (nat \<times> 'a kbio_scheme) option" where
  "bread h dev blockno s = do {
     (b, s) \<leftarrow> bget h dev blockno s;
     if \<not> b_valid (bufs s b)
     then Some (b, upd_buf b (\<lambda>q. q\<lparr>b_valid := True\<rparr>) (virtio_disk_rw b False s))
     else Some (b, s) }"

definition bwrite :: "nat \<Rightarrow> nat \<Rightarrow> 'a kbio_scheme \<Rightarrow> 'a kbio_scheme option" where
  "bwrite h b s = do {
     (mine, s) \<leftarrow> holdingsleep h (buf_lock b) s;
     if \<not> mine then None else Some (virtio_disk_rw b True s) }"

definition brelse :: "nat \<Rightarrow> nat \<Rightarrow> 'a kbio_scheme \<Rightarrow> 'a kbio_scheme option" where
  "brelse h b s = do {
     (mine, s) \<leftarrow> holdingsleep h (buf_lock b) s;
     if \<not> mine then None
     else do {
       s \<leftarrow> releasesleep h (buf_lock b) s;
       s \<leftarrow> acquire h bcache_lock s;
       let s = upd_buf b (\<lambda>q. q\<lparr>b_refcnt := b_refcnt q - 1\<rparr>) s;
       let s = (if b_refcnt (bufs s b) = 0 then link_front b (unlink_buf b s) else s);
       release h bcache_lock s } }"

definition bpin :: "nat \<Rightarrow> nat \<Rightarrow> 'a kbio_scheme \<Rightarrow> 'a kbio_scheme option" where
  "bpin h b s = do {
     s \<leftarrow> acquire h bcache_lock s;
     release h bcache_lock (upd_buf b (\<lambda>q. q\<lparr>b_refcnt := b_refcnt q + 1\<rparr>) s) }"

definition bunpin :: "nat \<Rightarrow> nat \<Rightarrow> 'a kbio_scheme \<Rightarrow> 'a kbio_scheme option" where
  "bunpin h b s = do {
     s \<leftarrow> acquire h bcache_lock s;
     release h bcache_lock (upd_buf b (\<lambda>q. q\<lparr>b_refcnt := b_refcnt q - 1\<rparr>) s) }"

subsection \<open>Lemmas: doubly linked rings\<close>

text \<open>\<open>linked N P xs\<close>: each element of \<open>xs\<close> has the following one as its \<open>N\<close>, and that one has it as its \<open>P\<close>.\<close>

fun linked :: "(nat \<Rightarrow> nat) \<Rightarrow> (nat \<Rightarrow> nat) \<Rightarrow> nat list \<Rightarrow> bool" where
  "linked N P (a # b # xs) = (N a = b \<and> P b = a \<and> linked N P (b # xs))"
| "linked N P _ = True"

lemma linked_join:
  "xs \<noteq> [] \<Longrightarrow> ys \<noteq> [] \<Longrightarrow> linked N P (xs @ ys)
    \<longleftrightarrow> linked N P xs \<and> N (last xs) = hd ys \<and> P (hd ys) = last xs \<and> linked N P ys"
proof (induction xs)
  case (Cons a xs)
  then show ?case by (cases xs; cases ys) auto
qed simp

lemma linked_upd_next: "a \<notin> set (butlast xs) \<Longrightarrow> linked (N(a := v)) P xs = linked N P xs"
  by (induction N P xs rule: linked.induct) auto

lemma linked_upd_prev: "a \<notin> set (tl xs) \<Longrightarrow> linked N (P(a := v)) xs = linked N P xs"
  by (induction N P xs rule: linked.induct) auto

definition ring :: "(nat \<Rightarrow> nat) \<Rightarrow> (nat \<Rightarrow> nat) \<Rightarrow> nat \<Rightarrow> nat list \<Rightarrow> bool" where
  "ring N P r xs \<longleftrightarrow> distinct (r # xs) \<and> linked N P (r # xs @ [r])"

lemma ring_unlink:
  assumes "ring N P r (us @ b # vs)"
  shows "ring (N(P b := N b)) (P(N b := P b)) r (us @ vs)" and "P b = last (r # us)" and "N b = hd (vs @ [r])"
proof -
  let ?l = "r # us" and ?r = "vs @ [r]"
  have d: "distinct (r # us @ b # vs)" and L: "linked N P (?l @ [b] @ ?r)"
    using assms by (simp_all add: ring_def)
  have j: "linked N P ?l" "N (last ?l) = b" "P b = last ?l" "N b = hd ?r" "P (hd ?r) = b" "linked N P ?r"
    using L linked_join [of ?l "[b] @ ?r" N P] linked_join [of "[b]" ?r N P] by auto
  show pn: "P b = last (r # us)" "N b = hd (vs @ [r])" using j by simp_all
  have "distinct (butlast ?l @ [last ?l])" using d by (subst append_butlast_last_id) auto
  then have bl: "P b \<notin> set (butlast ?l)" using pn(1) by simp
  have "linked (N(P b := N b)) (P(N b := P b)) ?l"
  proof -
    have "N b \<notin> set (tl ?l)" using d pn(2) by (cases vs) auto
    then show ?thesis using j(1) linked_upd_next [OF bl, of N "N b"] linked_upd_prev [of "N b" ?l] by simp
  qed
  moreover have "linked (N(P b := N b)) (P(N b := P b)) ?r"
  proof -
    have "P b \<in> set ?l" using pn(1) last_in_set [of ?l] by simp
    then have "P b \<notin> set (butlast ?r)" using d by auto
    moreover have "N b \<notin> set (tl ?r)" using d pn(2) by (cases vs) auto
    ultimately show ?thesis using j(6) linked_upd_next [of "P b" ?r N] linked_upd_prev [of "N b" ?r] by simp
  qed
  ultimately have "linked (N(P b := N b)) (P(N b := P b)) (?l @ ?r)"
    using pn linked_join [of ?l ?r "N(P b := N b)" "P(N b := P b)"] by simp
  then show "ring (N(P b := N b)) (P(N b := P b)) r (us @ vs)" using d by (simp add: ring_def)
qed

lemma ring_link:
  assumes "ring N P r xs" and "b \<notin> set (r # xs)"
  shows "ring (N(b := N r, r := b)) (P(b := r, N r := b)) r (b # xs)"
proof -
  let ?r = "xs @ [r]"
  have d: "distinct (r # xs)" and L: "linked N P ([r] @ ?r)" using assms by (simp_all add: ring_def)
  have j: "N r = hd ?r" "linked N P ?r" using L linked_join [of "[r]" ?r N P] by auto
  have "linked (N(b := N r, r := b)) (P(b := r, N r := b)) ?r"
  proof -
    have "linked (N(b := N r)) P ?r" using j(2) linked_upd_next [of b ?r N "N r" P] assms(2) by simp
    moreover have "r \<notin> set (butlast ?r)" "b \<notin> set (tl ?r)" "N r \<notin> set (tl ?r)"
      using d assms(2) j(1) by (cases xs; auto)+
    ultimately show ?thesis by (simp add: linked_upd_next linked_upd_prev)
  qed
  moreover have "N r \<noteq> b" using j(1) assms(2) by (cases xs) auto
  ultimately have "linked (N(b := N r, r := b)) (P(b := r, N r := b)) ([r, b] @ ?r)"
    using j(1) assms(2) linked_join [of "[r, b]" ?r "N(b := N r, r := b)" "P(b := r, N r := b)"] by auto
  then show ?thesis using d assms(2) by (simp add: ring_def)
qed

subsection \<open>Lemmas: the buffers\<close>

abbreviation nexts :: "'a kbio_scheme \<Rightarrow> nat \<Rightarrow> nat" where "nexts s \<equiv> \<lambda>b. b_next (bufs s b)"
abbreviation prevs :: "'a kbio_scheme \<Rightarrow> nat \<Rightarrow> nat" where "prevs s \<equiv> \<lambda>b. b_prev (bufs s b)"

definition lru :: "'a kbio_scheme \<Rightarrow> nat list \<Rightarrow> bool" where
  "lru s xs \<longleftrightarrow> ring (nexts s) (prevs s) NBUF xs \<and> set xs = {0..<NBUF}"

lemma upd_buf_sel [simp]:
  "bufs (upd_buf b f s) = (bufs s)(b := f (bufs s b))" "slks (upd_buf b f s) = slks s" "disk (upd_buf b f s) = disk s"
  "dwrites (upd_buf b f s) = dwrites s" "procs (upd_buf b f s) = procs s" "cpus (upd_buf b f s) = cpus s"
  "sie (upd_buf b f s) = sie s" "lks (upd_buf b f s) = lks s"
  by (simp_all add: upd_buf_def)

text \<open>What relinking does to a buffer apart from the links: nothing.\<close>

definition payload :: "buf \<Rightarrow> bool \<times> uint \<times> uint \<times> uint \<times> block" where
  "payload q = (b_valid q, b_dev q, b_blockno q, b_refcnt q, b_data q)"

lemma link_front_bufs:
  "bufs (link_front b s) = (\<lambda>i. (bufs s i)\<lparr>b_next := ((nexts s)(b := nexts s NBUF, NBUF := b)) i,
     b_prev := ((prevs s)(b := NBUF, (if b = NBUF then nexts s b else nexts s NBUF) := b)) i\<rparr>)"
  by (auto simp: link_front_def Let_def fun_eq_iff)

lemma unlink_buf_bufs:
  "b \<noteq> b_next (bufs s b) \<Longrightarrow> bufs (unlink_buf b s) = (\<lambda>i. (bufs s i)\<lparr>b_next := ((nexts s)(prevs s b := nexts s b)) i,
     b_prev := ((prevs s)(nexts s b := prevs s b)) i\<rparr>)"
  by (auto simp: unlink_buf_def Let_def fun_eq_iff)

lemma bget_cached_scan:
  "linked (nexts s) (prevs s) (a # zs @ [NBUF]) \<Longrightarrow> NBUF \<notin> set zs \<Longrightarrow>
    bget_cached dev n (b_next (bufs s a)) s = Some (List.find (\<lambda>b. b_dev (bufs s b) = dev \<and> b_blockno (bufs s b) = n) zs)"
proof (induction zs arbitrary: a)
  case Nil
  then show ?case by (simp add: bget_cached.simps)
next
  case (Cons z zs)
  then show ?case using Cons.IH [of z] by (auto simp: bget_cached.simps [of dev n z])
qed

lemma bget_unused_scan:
  "linked (nexts s) (prevs s) (NBUF # zs @ [a]) \<Longrightarrow> NBUF \<notin> set zs \<Longrightarrow>
    bget_unused (b_prev (bufs s a)) s = Some (List.find (\<lambda>b. b_refcnt (bufs s b) = 0) (rev zs))"
proof (induction zs arbitrary: a rule: rev_induct)
  case Nil
  then show ?case by (simp add: bget_unused.simps)
next
  case (snoc z zs)
  have "linked (nexts s) (prevs s) (NBUF # zs @ [z])" "b_prev (bufs s a) = z"
    using snoc.prems(1) linked_join [of "NBUF # zs @ [z]" "[a]" "nexts s" "prevs s"] by auto
  with snoc.IH [of z] snoc.prems(2) show ?case by (auto simp: bget_unused.simps [of z])
qed

lemma lru_scans:
  assumes "lru s xs"
  shows "bget_cached dev n (b_next (bufs s NBUF)) s = Some (List.find (\<lambda>b. b_dev (bufs s b) = dev \<and> b_blockno (bufs s b) = n) xs)"
    and "bget_unused (b_prev (bufs s NBUF)) s = Some (List.find (\<lambda>b. b_refcnt (bufs s b) = 0) (rev xs))"
  using assms bget_cached_scan [of s NBUF xs dev n] bget_unused_scan [of s xs NBUF] by (simp_all add: lru_def ring_def)

lemma lru_cong:
  "(\<And>b. b_next (bufs s' b) = b_next (bufs s b) \<and> b_prev (bufs s' b) = b_prev (bufs s b)) \<Longrightarrow> lru s' xs = lru s xs"
  by (simp add: lru_def)

lemma lru_front:
  assumes "lru s xs" and "b \<in> set xs"
  shows "lru (link_front b (unlink_buf b s)) (b # remove1 b xs)"
    and "payload (bufs (link_front b (unlink_buf b s)) i) = payload (bufs s i)"
proof -
  obtain us vs where xs: "xs = us @ b # vs" "b \<notin> set us" using split_list_first [OF assms(2)] by blast
  have R: "ring (nexts s) (prevs s) NBUF (us @ b # vs)" using assms(1) xs by (simp add: lru_def)
  then have dist: "distinct (NBUF # us @ b # vs)" by (simp add: ring_def)
  note u = ring_unlink [OF R]
  have nb: "b \<noteq> b_next (bufs s b)" using u(3) dist by (cases vs) auto
  let ?s = "unlink_buf b s"
  have n: "nexts ?s = (nexts s)(prevs s b := nexts s b)" "prevs ?s = (prevs s)(nexts s b := prevs s b)"
    unfolding unlink_buf_bufs [OF nb] by (simp_all add: fun_eq_iff)
  have R': "ring (nexts ?s) (prevs ?s) NBUF (us @ vs)" using u(1) unfolding n .
  have bN: "b \<notin> set (NBUF # us @ vs)" "b \<noteq> NBUF" using dist by auto
  have "nexts (link_front b ?s) = (nexts ?s)(b := nexts ?s NBUF, NBUF := b)"
    "prevs (link_front b ?s) = (prevs ?s)(b := NBUF, nexts ?s NBUF := b)"
    unfolding link_front_bufs using bN(2) by (simp_all add: fun_eq_iff)
  then have "ring (nexts (link_front b ?s)) (prevs (link_front b ?s)) NBUF (b # us @ vs)"
    using ring_link [OF R' bN(1)] by simp
  moreover have "set (b # us @ vs) = {0..<NBUF}" using assms(1) xs by (auto simp: lru_def)
  ultimately show "lru (link_front b ?s) (b # remove1 b xs)"
    using xs(2) by (simp add: lru_def xs(1) remove1_append)
  show "payload (bufs (link_front b ?s) i) = payload (bufs s i)"
    unfolding link_front_bufs unlink_buf_bufs [OF nb] by (simp add: payload_def)
qed

lemma keeps_locks_upd_buf [intro]: "keeps_locks (upd_buf b f)"
  by (simp add: keeps_locks_def upd_buf_def)

lemma kbio_upd_slk [simp]: "bufs (upd_slk lk f s) = bufs s" "disk (upd_slk lk f s) = disk s" "dwrites (upd_slk lk f s) = dwrites s"
  by (simp_all add: upd_slk_def)

lemma kbio_within [simp]: "bufs (within h lk s) = bufs s" "disk (within h lk s) = disk s" "dwrites (within h lk s) = dwrites s"
  by (simp_all add: within_def)

lemma in_call_cong:
  "cpus s' = cpus s \<Longrightarrow> sie s' = sie s \<Longrightarrow> lks s' = lks s \<Longrightarrow> in_call h pr s' = in_call h pr s"
  using calm_cong [of s' s h] by (simp add: in_call_def at_rest_def free_lock_def)

lemma in_call_upd [simp]: "in_call h pr (upd_buf b f s) = in_call h pr s" "in_call h pr (upd_slk lk g s) = in_call h pr s"
  by (rule in_call_cong; simp)+

text \<open>The buffer's sleep lock in the hands of process \<open>pr\<close>.\<close>

definition take_lock :: "nat \<Rightarrow> nat \<Rightarrow> 'a kbio_scheme \<Rightarrow> 'a kbio_scheme" where
  "take_lock pr b s = upd_slk (buf_lock b) (\<lambda>l. l\<lparr>sl_locked := 1, sl_pid := p_pid (procs s pr)\<rparr>) s"

lemma getsleep_call:
  "in_call h pr s \<Longrightarrow> sl_locked (slks s lk) = 0 \<Longrightarrow>
    getsleep h lk s = Some (upd_slk lk (\<lambda>l. l\<lparr>sl_locked := 1, sl_pid := p_pid (procs s pr)\<rparr>) s)"
  using in_callD [of h pr s] by (intro getsleep_free) auto

lemma section_upd_buf:
  assumes "in_call h pr s"
  shows "release h bcache_lock (upd_buf b f (within h bcache_lock s)) = Some (upd_buf b f s)"
  using in_callD [OF assms] by (intro section_calm) auto

lemma bget_hit:
  assumes "in_call h pr s" and "lru s xs"
    and "List.find (\<lambda>b. b_dev (bufs s b) = dev \<and> b_blockno (bufs s b) = n) xs = Some b"
    and "sl_locked (slks s (buf_lock b)) = 0"
  shows "bget h dev n s = Some (b, take_lock pr b (upd_buf b (\<lambda>q. q\<lparr>b_refcnt := b_refcnt q + 1\<rparr>) s))"
proof -
  have "lru (within h bcache_lock s) xs" using assms(2) by (simp add: lru_def)
  from lru_scans(1) [OF this, of dev n] section_upd_buf [OF assms(1)] show ?thesis
    using assms(3,4) in_callD [OF assms(1)]
      getsleep_call [of h pr "upd_buf b (\<lambda>q. q\<lparr>b_refcnt := b_refcnt q + 1\<rparr>) s" "buf_lock b"] assms(1)
    by (simp add: bget_def acquire_free take_lock_def)
qed

lemma bget_miss:
  assumes "in_call h pr s" and "lru s xs"
    and "List.find (\<lambda>b. b_dev (bufs s b) = dev \<and> b_blockno (bufs s b) = n) xs = None"
    and "List.find (\<lambda>b. b_refcnt (bufs s b) = 0) (rev xs) = Some b"
    and "sl_locked (slks s (buf_lock b)) = 0"
  shows "bget h dev n s = Some (b, take_lock pr b
    (upd_buf b (\<lambda>q. q\<lparr>b_dev := dev, b_blockno := n, b_valid := False, b_refcnt := 1\<rparr>) s))"
proof -
  have "lru (within h bcache_lock s) xs" using assms(2) by (simp add: lru_def)
  from lru_scans [OF this] section_upd_buf [OF assms(1)] show ?thesis
    using assms(3-5) in_callD [OF assms(1)]
      getsleep_call [of h pr "upd_buf b (\<lambda>q. q\<lparr>b_dev := dev, b_blockno := n, b_valid := False, b_refcnt := 1\<rparr>) s" "buf_lock b"] assms(1)
    by (simp add: bget_def acquire_free take_lock_def)
qed

lemma bwrite_held:
  assumes "in_call h pr s" and "sl_locked (slks s (buf_lock b)) \<noteq> 0" and "sl_pid (slks s (buf_lock b)) = p_pid (procs s pr)"
  shows "bwrite h b s = Some (virtio_disk_rw b True s)"
  using holdingsleep_spec [of h s "buf_lock b" pr] in_callD [OF assms(1)] assms(2,3) by (simp add: bwrite_def)

definition drop_lock :: "nat \<Rightarrow> nat \<Rightarrow> 'a kbio_scheme \<Rightarrow> 'a kbio_scheme" where
  "drop_lock pr b s = (upd_slk (buf_lock b) (\<lambda>l. l\<lparr>sl_locked := 0, sl_pid := 0\<rparr>) s)
     \<lparr>procs := wake_all (Some pr) (Some (chan_sleeplock (buf_lock b))) (procs s)\<rparr>"

definition unref :: "nat \<Rightarrow> 'a kbio_scheme \<Rightarrow> 'a kbio_scheme" where
  "unref b s = (let s = upd_buf b (\<lambda>q. q\<lparr>b_refcnt := b_refcnt q - 1\<rparr>) s in
     if b_refcnt (bufs s b) = 0 then link_front b (unlink_buf b s) else s)"

lemma keeps_locks_unref [intro]: "keeps_locks (unref b)"
  by (simp add: keeps_locks_def unref_def link_front_def unlink_buf_def upd_buf_def Let_def)

lemma brelse_held:
  assumes "in_call h pr s" and "sl_locked (slks s (buf_lock b)) \<noteq> 0" and "sl_pid (slks s (buf_lock b)) = p_pid (procs s pr)"
  shows "brelse h b s = Some (unref b (drop_lock pr b s))"
proof -
  note d = in_callD [OF assms(1)]
  have c: "in_call h pr (drop_lock pr b s)" using assms(1) by (subst in_call_cong) (simp_all add: drop_lock_def)
  have "releasesleep h (buf_lock b) s = Some (drop_lock pr b s)"
    using releasesleep_spec [OF d(1) d(4) d(5), of "buf_lock b"] d(3) by (simp add: drop_lock_def)
  moreover have "release h bcache_lock (unref b (within h bcache_lock (drop_lock pr b s))) = Some (unref b (drop_lock pr b s))"
    using in_callD [OF c] by (intro section_calm) auto
  ultimately show ?thesis
    using holdingsleep_spec [OF d(1) d(4) d(3), of "buf_lock b"] assms(2,3) in_callD(4) [OF c]
    by (simp add: brelse_def acquire_free unref_def Let_def)
qed

lemma pin_spec:
  assumes "in_call h pr s"
  shows "bpin h b s = Some (upd_buf b (\<lambda>q. q\<lparr>b_refcnt := b_refcnt q + 1\<rparr>) s)"
    and "bunpin h b s = Some (upd_buf b (\<lambda>q. q\<lparr>b_refcnt := b_refcnt q - 1\<rparr>) s)"
  using section_upd_buf [OF assms] in_callD(4) [OF assms] by (simp_all add: bpin_def bunpin_def acquire_free)

subsection \<open>What the cache stands for\<close>

definition ROOTDEV :: uint where "ROOTDEV = 1"

text \<open>
  For the blocks of the root device: \<open>V\<close> is the contents of every block as a reader sees it, \<open>H\<close> the
  blocks the calling thread holds with their buffers, \<open>R\<close> the reference counts. A block nobody refers
  to has its contents on the disk, so recycling its buffer loses nothing.
\<close>

definition buffers :: "'a kbio_scheme \<Rightarrow> nat \<Rightarrow> uint \<Rightarrow> bool" where
  "buffers s b n \<longleftrightarrow> b < NBUF \<and> b_dev (bufs s b) = ROOTDEV \<and> b_blockno (bufs s b) = n"

definition cache ::
  "nat \<Rightarrow> nat \<Rightarrow> (uint \<Rightarrow> block) \<Rightarrow> (uint \<rightharpoonup> nat) \<Rightarrow> (uint \<Rightarrow> nat) \<Rightarrow> 'a kbio_scheme \<Rightarrow> bool" where
  "cache h pr V H R s \<longleftrightarrow> in_call h pr s \<and> (\<exists>xs. lru s xs)
     \<and> (\<forall>b b' n. buffers s b n \<longrightarrow> buffers s b' n \<longrightarrow> b = b')
     \<and> (\<forall>b<NBUF. b_dev (bufs s b) \<noteq> ROOTDEV \<longrightarrow> b_refcnt (bufs s b) = 0)
     \<and> (\<forall>b n. buffers s b n \<longrightarrow> unat (b_refcnt (bufs s b)) = R n)
     \<and> (\<forall>n. R n > 0 \<longrightarrow> (\<exists>b. buffers s b n \<and> b_valid (bufs s b)))
     \<and> (\<forall>b<NBUF. sl_locked (slks s (buf_lock b)) \<noteq> 0 \<longrightarrow> (\<exists>n. H n = Some b))
     \<and> (\<forall>n b. H n = Some b \<longrightarrow> buffers s b n \<and> R n > 0 \<and> sl_locked (slks s (buf_lock b)) \<noteq> 0
          \<and> sl_pid (slks s (buf_lock b)) = p_pid (procs s pr))
     \<and> (\<forall>b n. buffers s b n \<longrightarrow> b_valid (bufs s b) \<longrightarrow> b_data (bufs s b) = V n)
     \<and> (\<forall>n. R n = 0 \<longrightarrow> disk s n = V n)"

text \<open>What a call leaves alone: everything but the cache, and of the processes all but their state.\<close>

definition only_cache :: "nat \<Rightarrow> 'a kbio_scheme \<Rightarrow> 'a kbio_scheme \<Rightarrow> bool" where
  "only_cache pr s s' \<longleftrightarrow> s' = s\<lparr>slks := slks s', procs := procs s', bufs := bufs s', disk := disk s', dwrites := dwrites s'\<rparr>
     \<and> (\<forall>p. \<exists>st. procs s' p = (procs s p)\<lparr>p_state := st\<rparr>) \<and> procs s' pr = procs s pr
     \<and> (\<forall>lk. (\<forall>b. lk \<noteq> buf_lock b) \<longrightarrow> slks s' lk = slks s lk)"

lemma same_state [simp]: "\<exists>st. (q :: proc) = q\<lparr>p_state := st\<rparr>"
  by (rule exI [of _ "p_state q"]) simp

lemma only_cache_refl: "only_cache pr s s"
  by (simp add: only_cache_def)

lemma only_cache_trans:
  assumes "only_cache pr s s'" and "only_cache pr s' s''"
  shows "only_cache pr s s''"
proof -
  have 1: "s' = s\<lparr>slks := slks s', procs := procs s', bufs := bufs s', disk := disk s', dwrites := dwrites s'\<rparr>"
    and 2: "s'' = s'\<lparr>slks := slks s'', procs := procs s'', bufs := bufs s'', disk := disk s'', dwrites := dwrites s''\<rparr>"
    using assms by (simp_all add: only_cache_def)
  have "s'' = s\<lparr>slks := slks s'', procs := procs s'', bufs := bufs s'', disk := disk s'', dwrites := dwrites s''\<rparr>"
    by (subst 2, subst 1) simp
  moreover have "\<exists>st. procs s'' p = (procs s p)\<lparr>p_state := st\<rparr>" for p
  proof -
    obtain a b where "procs s' p = (procs s p)\<lparr>p_state := a\<rparr>" "procs s'' p = (procs s' p)\<lparr>p_state := b\<rparr>"
      using assms unfolding only_cache_def by metis
    then show ?thesis by auto
  qed
  ultimately show ?thesis using assms unfolding only_cache_def by auto
qed

lemma only_cache_upd:
  "only_cache pr s (upd_buf b f s)" "only_cache pr s (upd_slk (buf_lock b) g s)" "only_cache pr s (virtio_disk_rw b w s)"
  by (auto simp: only_cache_def upd_buf_def upd_slk_def virtio_disk_rw_def)

lemma wake_all_state: "\<exists>st. wake_all me ch ps p = (ps p)\<lparr>p_state := st\<rparr>"
proof (cases "wake_all me ch ps p = ps p")
  case True
  then show ?thesis by simp
next
  case False
  then have "wake_all me ch ps p = (ps p)\<lparr>p_state := RUNNABLE\<rparr>" by (auto simp: wake_all_def split: if_splits)
  then show ?thesis by blast
qed

lemma wake_all_self [simp]: "wake_all (Some pr) ch ps pr = ps pr"
  by (simp add: wake_all_def)

lemma only_cache_drop: "only_cache pr s (drop_lock pr b s)"
proof -
  have "\<exists>st. procs (drop_lock pr b s) p = (procs s p)\<lparr>p_state := st\<rparr>" for p
    using wake_all_state [of "Some pr" "Some (chan_sleeplock (buf_lock b))" "procs s" p] by (simp add: drop_lock_def)
  moreover have "only_cache pr s (drop_lock pr b s) \<longleftrightarrow> (\<forall>p. \<exists>st. procs (drop_lock pr b s) p = (procs s p)\<lparr>p_state := st\<rparr>)"
    unfolding only_cache_def by (simp add: drop_lock_def upd_slk_def cong del: if_cong)
  ultimately show ?thesis by blast
qed

lemma only_cache_upd_after: "only_cache pr s s' \<Longrightarrow> only_cache pr s (upd_buf b f s')"
  by (rule only_cache_trans [OF _ only_cache_upd(1)])

lemma only_cache_unref: "only_cache pr s (unref b s)"
  unfolding unref_def link_front_def unlink_buf_def Let_def
  by (auto intro!: only_cache_upd_after only_cache_refl)

lemma only_cache_take: "only_cache pr s (take_lock pr' b s)"
  unfolding take_lock_def by (rule only_cache_upd)

lemma cacheD:
  assumes "cache h pr V H R s"
  shows "in_call h pr s" and "\<exists>xs. lru s xs" and "\<And>b b' n. buffers s b n \<Longrightarrow> buffers s b' n \<Longrightarrow> b = b'"
    and "\<And>b. b < NBUF \<Longrightarrow> b_dev (bufs s b) \<noteq> ROOTDEV \<Longrightarrow> b_refcnt (bufs s b) = 0"
    and "\<And>b n. buffers s b n \<Longrightarrow> unat (b_refcnt (bufs s b)) = R n"
    and "\<And>n. R n > 0 \<Longrightarrow> \<exists>b. buffers s b n \<and> b_valid (bufs s b)"
    and "\<And>b. b < NBUF \<Longrightarrow> sl_locked (slks s (buf_lock b)) \<noteq> 0 \<Longrightarrow> \<exists>n. H n = Some b"
    and "\<And>n b. H n = Some b \<Longrightarrow> buffers s b n \<and> R n > 0 \<and> sl_locked (slks s (buf_lock b)) \<noteq> 0
          \<and> sl_pid (slks s (buf_lock b)) = p_pid (procs s pr)"
    and "\<And>b n. buffers s b n \<Longrightarrow> b_valid (bufs s b) \<Longrightarrow> b_data (bufs s b) = V n"
    and "\<And>n. R n = 0 \<Longrightarrow> disk s n = V n"
  using assms unfolding cache_def by blast+

lemma cache_held:
  assumes "cache h pr V H R s" and "H n = Some b"
  shows "b < NBUF" and "buffers s b n" and "b_valid (bufs s b)" and "b_data (bufs s b) = V n" and "b_blockno (bufs s b) = n"
    and "sl_locked (slks s (buf_lock b)) \<noteq> 0" and "sl_pid (slks s (buf_lock b)) = p_pid (procs s pr)"
    and "unat (b_refcnt (bufs s b)) = R n" and "R n > 0"
proof -
  note D = cacheD [OF assms(1)]
  have 8: "buffers s b n" "R n > 0" "sl_locked (slks s (buf_lock b)) \<noteq> 0" "sl_pid (slks s (buf_lock b)) = p_pid (procs s pr)"
    using D(8) [OF assms(2)] by blast+
  obtain b' where b': "buffers s b' n" "b_valid (bufs s b')" using D(6) [OF 8(2)] by blast
  then have "b_valid (bufs s b)" using D(3) [OF 8(1) b'(1)] by simp
  then show "b_valid (bufs s b)" "b_data (bufs s b) = V n" using D(9) [OF 8(1)] by simp_all
  show "buffers s b n" "R n > 0" "sl_locked (slks s (buf_lock b)) \<noteq> 0" "sl_pid (slks s (buf_lock b)) = p_pid (procs s pr)"
    "unat (b_refcnt (bufs s b)) = R n" "b < NBUF" "b_blockno (bufs s b) = n"
    using 8 D(5) [OF 8(1)] by (auto simp: buffers_def)
qed

text \<open>The calls change one buffer: what has to hold of it for the picture to hold again.\<close>

lemma cache_change:
  assumes c: "cache h pr V H R s" and q: "in_call h pr s'" "\<exists>xs. lru s' xs" "p_pid (procs s' pr) = p_pid (procs s pr)"
    and b: "b < NBUF" "payload (bufs s' b) = (True, ROOTDEV, n, r, V' n)"
    and others: "\<And>i. i \<noteq> b \<Longrightarrow> payload (bufs s' i) = payload (bufs s i)" "\<And>i. i \<noteq> b \<Longrightarrow> slks s' (buf_lock i) = slks s (buf_lock i)"
    and own: "\<And>i. buffers s i n \<Longrightarrow> i = b" "buffers s b n \<or> b_refcnt (bufs s b) = 0 \<and> sl_locked (slks s (buf_lock b)) = 0"
    and new: "unat r = R' n" "\<And>m. m \<noteq> n \<Longrightarrow> R' m = R m \<and> H' m = H m \<and> V' m = V m \<and> disk s' m = disk s m"
      "R' n = 0 \<Longrightarrow> disk s' n = V' n"
    and lock: "H' n = (if sl_locked (slks s' (buf_lock b)) = 0 then None else Some b)"
      "sl_locked (slks s' (buf_lock b)) \<noteq> 0 \<Longrightarrow> sl_pid (slks s' (buf_lock b)) = p_pid (procs s pr) \<and> R' n > 0"
  shows "cache h pr V' H' R' s'"
proof -
  note D = cacheD [OF c]
  have pl: "b_valid (bufs s' b)" "b_dev (bufs s' b) = ROOTDEV" "b_blockno (bufs s' b) = n" "b_refcnt (bufs s' b) = r"
    "b_data (bufs s' b) = V' n" using b(2) by (simp_all add: payload_def)
  have po: "b_valid (bufs s' i) = b_valid (bufs s i)" "b_dev (bufs s' i) = b_dev (bufs s i)"
    "b_blockno (bufs s' i) = b_blockno (bufs s i)" "b_refcnt (bufs s' i) = b_refcnt (bufs s i)"
    "b_data (bufs s' i) = b_data (bufs s i)" if "i \<noteq> b" for i
    using others(1) [OF that] by (simp_all add: payload_def)
  have bo: "buffers s' i m \<longleftrightarrow> (if i = b then m = n else buffers s i m)" for i m
    using pl po [of i] b(1) by (auto simp: buffers_def)
  have bn: "m \<noteq> n" if "i \<noteq> b" "buffers s i m" for i m using that own(1) by blast
  have gone: "R m = 0 \<and> H m = None" if "buffers s b m" "m \<noteq> n" for m
  proof -
    have z: "b_refcnt (bufs s b) = 0" "sl_locked (slks s (buf_lock b)) = 0"
      using own(2) that by (auto simp: buffers_def)
    then have "R m = 0" using D(5) [OF that(1)] by simp
    moreover have "H m = None" using D(8) [of m] z calculation by (cases "H m") auto
    ultimately show ?thesis by blast
  qed
  have 6: "\<exists>i. buffers s' i m \<and> b_valid (bufs s' i)" if "R' m > 0" for m
  proof (cases "m = n")
    case True
    then show ?thesis using bo pl(1) by auto
  next
    case False
    then have "R m > 0" using that new(2) by simp
    then obtain i where i: "buffers s i m" "b_valid (bufs s i)" using D(6) by blast
    have "i \<noteq> b" using gone [of m] i False \<open>R m > 0\<close> by auto
    then show ?thesis using i bo po(1) by auto
  qed
  have 7: "\<exists>m. H' m = Some i" if i: "i < NBUF" "sl_locked (slks s' (buf_lock i)) \<noteq> 0" for i
  proof (cases "i = b")
    case True
    then show ?thesis using lock(1) i by auto
  next
    case False
    then obtain m where m: "H m = Some i" using D(7) [OF i(1)] i(2) others(2) by auto
    have "m \<noteq> n" using bn [OF False] D(8) [OF m] by auto
    then show ?thesis using m new(2) by metis
  qed
  have 8: "buffers s' i m \<and> R' m > 0 \<and> sl_locked (slks s' (buf_lock i)) \<noteq> 0 \<and> sl_pid (slks s' (buf_lock i)) = p_pid (procs s' pr)"
    if H: "H' m = Some i" for i m
  proof (cases "m = n")
    case True
    then show ?thesis using H lock bo q(3) by (auto split: if_splits)
  next
    case False
    then have "H m = Some i" using H new(2) by auto
    note i = D(8) [OF this]
    have "i \<noteq> b" using gone [of m] i False by auto
    then show ?thesis using i bo others(2) q(3) new(2) [OF False] by auto
  qed
  have 3: "i = j" if "buffers s' i m" "buffers s' j m" for i j m
  proof (cases "m = n")
    case True
    then have "i = b" "j = b" using that own(1) [of i] own(1) [of j] bo by metis+
    then show ?thesis by simp
  next
    case False
    then have "buffers s i m" "buffers s j m" using that bo by metis+
    then show ?thesis by (rule D(3))
  qed
  have 4: "b_refcnt (bufs s' i) = 0" if "i < NBUF" "b_dev (bufs s' i) \<noteq> ROOTDEV" for i
    using that pl(2) D(4) [of i] po [of i] by (cases "i = b") auto
  have 5: "unat (b_refcnt (bufs s' i)) = R' m" if "buffers s' i m" for i m
    using that pl(4) new(1) new(2) [of m] D(5) [of i m] po(4) [of i] bn [of i m] by (auto simp: bo split: if_splits)
  have 9: "b_data (bufs s' i) = V' m" if "buffers s' i m" "b_valid (bufs s' i)" for i m
    using that pl(5) new(2) [of m] D(9) [of i m] po(1,5) [of i] bn [of i m] by (auto simp: bo split: if_splits)
  have 10: "disk s' m = V' m" if "R' m = 0" for m
    using that new(2) [of m] new(3) D(10) [of m] by (cases "m = n") auto
  show ?thesis unfolding cache_def using q(1,2) 3 4 5 6 7 8 9 10 by blast
qed

lemma cache_unused:
  assumes "cache h pr V H R s" and "card {n. R n > 0} < NBUF"
  shows "\<exists>b<NBUF. b_refcnt (bufs s b) = 0"
proof (rule ccontr)
  note D = cacheD [OF assms(1)]
  let ?f = "\<lambda>b. b_blockno (bufs s b)"
  assume "\<not> ?thesis"
  then have nz: "b_refcnt (bufs s b) \<noteq> 0" if "b < NBUF" for b using that by blast
  then have bf: "buffers s b (?f b)" if "b < NBUF" for b using that D(4) by (auto simp: buffers_def)
  have "inj_on ?f {0..<NBUF}"
  proof (rule inj_onI)
    fix a b assume "a \<in> {0..<NBUF}" "b \<in> {0..<NBUF}" "?f a = ?f b"
    then show "a = b" using bf [of a] bf [of b] D(3) by auto
  qed
  moreover have "?f ` {0..<NBUF} \<subseteq> {n. R n > 0}"
  proof (rule image_subsetI)
    fix b assume b: "b \<in> {0..<NBUF}"
    then have "unat (b_refcnt (bufs s b)) = R (?f b)" "b_refcnt (bufs s b) \<noteq> 0" using D(5) [OF bf] nz by auto
    then show "?f b \<in> {n. R n > 0}" by (metis gr_zeroI mem_Collect_eq unat_eq_0)
  qed
  ultimately have "card {0..<NBUF} \<le> card {n. R n > 0}" by (rule card_inj_on_le [OF _ _ finite])
  then show False using assms(2) by simp
qed

lemma find_holds: "List.find P xs = Some b \<Longrightarrow> b \<in> set xs \<and> P b"
  by (induction xs) (auto split: if_splits)

lemma find_ex: "i \<in> set xs \<Longrightarrow> P i \<Longrightarrow> \<exists>b. List.find P xs = Some b"
  by (induction xs) auto

lemma find_some_unique: "List.find P xs = Some b" if "b \<in> set xs" "P b" "\<And>i. i \<in> set xs \<Longrightarrow> P i \<Longrightarrow> i = b"
proof (cases "List.find P xs")
  case None
  then show ?thesis using that(1,2) by (auto simp: find_None_iff)
next
  case (Some a)
  then show ?thesis using find_holds [OF Some] that(3) by blast
qed

lemma upd_buf_eqI: "g (bufs s b) = f (bufs s b) \<Longrightarrow> upd_buf b g s = upd_buf b f s"
  by (simp add: upd_buf_def)

lemma upd_buf_twice: "upd_buf b f (upd_buf b g s) = upd_buf b (\<lambda>q. f (g q)) s"
  by (simp add: upd_buf_def)

lemma upd_buf_take: "upd_buf b f (take_lock pr b s) = take_lock pr b (upd_buf b f s)"
  by (simp add: take_lock_def upd_buf_def upd_slk_def)

lemma take_lock_sel [simp]: "bufs (take_lock pr b s) = bufs s" "disk (take_lock pr b s) = disk s" "dwrites (take_lock pr b s) = dwrites s"
  by (simp_all add: take_lock_def upd_slk_def)

lemma drop_lock_sel [simp]: "bufs (drop_lock pr b s) = bufs s" "disk (drop_lock pr b s) = disk s" "dwrites (drop_lock pr b s) = dwrites s"
  by (simp_all add: drop_lock_def upd_slk_def)

lemma lru_bufs: "lru (take_lock pr b s) xs = lru s xs" "lru (drop_lock pr b s) xs = lru s xs"
  by (rule lru_cong; simp)+

lemma lru_upd: "(\<And>q. b_next (f q) = b_next q \<and> b_prev (f q) = b_prev q) \<Longrightarrow> lru (upd_buf b f s) xs = lru s xs"
  by (rule lru_cong) simp

lemma bread_step:
  assumes "bget h dev n s = Some (b, take_lock pr b (upd_buf b g s))" and "b_blockno (g (bufs s b)) = n"
    and "f (bufs s b) = (if b_valid (g (bufs s b)) then g (bufs s b) else (g (bufs s b))\<lparr>b_data := disk s n, b_valid := True\<rparr>)"
  shows "bread h dev n s = Some (b, take_lock pr b (upd_buf b f s))"
proof (cases "b_valid (g (bufs s b))")
  case True
  then have "upd_buf b g s = upd_buf b f s" using assms(3) by (intro upd_buf_eqI) simp
  then show ?thesis using True assms(1,3) by (simp add: bread_def)
next
  case False
  then have "upd_buf b (\<lambda>q. (g q)\<lparr>b_data := disk s n, b_valid := True\<rparr>) s = upd_buf b f s"
    using assms(3) by (intro upd_buf_eqI) simp
  then show ?thesis using False assms(1,2) by (simp add: bread_def virtio_disk_rw_def upd_buf_take upd_buf_twice)
qed

lemma bread_law:
  assumes c: "cache h pr V H R s" and n: "H n = None" "R n + 1 < 2 ^ 32" and room: "R n = 0 \<Longrightarrow> card {n. R n > 0} < NBUF"
  shows "\<exists>b s'. bread h ROOTDEV n s = Some (b, s') \<and> cache h pr V (H(n \<mapsto> b)) (R(n := R n + 1)) s' \<and> only_cache pr s s'
    \<and> disk s' = disk s \<and> dwrites s' = dwrites s"
proof -
  note D = cacheD [OF c]
  obtain xs where xs: "lru s xs" using D(2) by blast
  then have sx: "set xs = {0..<NBUF}" by (simp add: lru_def)
  let ?P = "\<lambda>b. b_dev (bufs s b) = ROOTDEV \<and> b_blockno (bufs s b) = n"
  define r where "r = (of_nat (R n + 1) :: uint)"
  have r: "unat r = R n + 1" unfolding r_def unat_of_nat using n(2) by simp
  let ?f = "\<lambda>q. q\<lparr>b_valid := True, b_dev := ROOTDEV, b_blockno := n, b_refcnt := r, b_data := V n\<rparr>"
  have "\<exists>b. bread h ROOTDEV n s = Some (b, take_lock pr b (upd_buf b ?f s)) \<and> b < NBUF \<and> sl_locked (slks s (buf_lock b)) = 0
     \<and> (\<forall>i. buffers s i n \<longrightarrow> i = b) \<and> (buffers s b n \<or> b_refcnt (bufs s b) = 0)"
  proof (cases "\<exists>b. buffers s b n")
    case True
    then obtain b where b: "buffers s b n" by blast
    have free: "sl_locked (slks s (buf_lock b)) = 0"
    proof (rule ccontr)
      assume "sl_locked (slks s (buf_lock b)) \<noteq> 0"
      then obtain m where "H m = Some b" using D(7) b by (auto simp: buffers_def)
      moreover have "m = n" using D(8) [OF calculation] b by (simp add: buffers_def)
      ultimately show False using n(1) by simp
    qed
    have "List.find ?P xs = Some b"
    proof (rule find_some_unique)
      show "i = b" if "i \<in> set xs" "?P i" for i
      proof -
        have "buffers s i n" using that sx by (simp add: buffers_def)
        from D(3) [OF this b] show ?thesis .
      qed
    qed (use b sx in \<open>simp_all add: buffers_def\<close>)
    note hit = bget_hit [OF D(1) xs this free]
    have q: "b_dev (bufs s b) = ROOTDEV" "b_blockno (bufs s b) = n" "b < NBUF" using b by (auto simp: buffers_def)
    have rc: "b_refcnt (bufs s b) + 1 = r"
      by (simp add: r_def flip: D(5) [OF b])
    have V: "b_data (bufs s b) = V n" if "b_valid (bufs s b)" using D(9) [OF b that] .
    have d: "disk s n = V n" if "\<not> b_valid (bufs s b)"
      using D(6) [of n] D(3) [OF b] D(10) [of n] that by (cases "R n") auto
    have "bread h ROOTDEV n s = Some (b, take_lock pr b (upd_buf b ?f s))"
      by (rule bread_step [OF hit]) (use q V d rc in auto)
    moreover have "\<forall>i. buffers s i n \<longrightarrow> i = b" using D(3) [OF _ b] by simp
    ultimately show ?thesis using b q(3) free by (intro exI [of _ b] conjI disjI1)
  next
    case False
    then have "R n = 0" using D(6) [of n] by (cases "R n") auto
    then have d: "disk s n = V n" "r = 1" using D(10) by (simp_all add: r_def)
    obtain b0 where "b0 < NBUF" "b_refcnt (bufs s b0) = 0" using cache_unused [OF c room [OF \<open>R n = 0\<close>]] by blast
    then obtain b where b: "List.find (\<lambda>b. b_refcnt (bufs s b) = 0) (rev xs) = Some b"
      using find_ex [of b0 "rev xs" "\<lambda>b. b_refcnt (bufs s b) = 0"] sx by auto
    have bz: "b_refcnt (bufs s b) = 0" "b < NBUF" using find_holds [OF b] sx by auto
    have free: "sl_locked (slks s (buf_lock b)) = 0"
    proof (rule ccontr)
      assume "sl_locked (slks s (buf_lock b)) \<noteq> 0"
      then obtain m where m: "H m = Some b" using D(7) bz by blast
      then show False using cache_held(8,9) [OF c m] bz by simp
    qed
    have "List.find ?P xs = None" using False sx by (auto simp: find_None_iff buffers_def)
    note miss = bget_miss [OF D(1) xs this b free]
    have "bread h ROOTDEV n s = Some (b, take_lock pr b (upd_buf b ?f s))"
      by (rule bread_step [OF miss]) (use d in auto)
    then show ?thesis using bz free False by blast
  qed
  then obtain b where b: "bread h ROOTDEV n s = Some (b, take_lock pr b (upd_buf b ?f s))" "b < NBUF"
    "sl_locked (slks s (buf_lock b)) = 0" "\<And>i. buffers s i n \<Longrightarrow> i = b" "buffers s b n \<or> b_refcnt (bufs s b) = 0" by blast
  let ?s = "take_lock pr b (upd_buf b ?f s)"
  have "cache h pr V (H(n \<mapsto> b)) (R(n := R n + 1)) ?s"
  proof (rule cache_change [OF c, where b = b and n = n and r = r])
    show "\<exists>ys. lru ?s ys" using xs by (auto simp: lru_bufs(1) lru_upd)
    show "buffers s b n \<or> b_refcnt (bufs s b) = 0 \<and> sl_locked (slks s (buf_lock b)) = 0" using b(3,5) by blast
    show "i = b" if "buffers s i n" for i using that by (rule b(4))
  qed (use b(2) r D(1) in \<open>simp_all add: take_lock_def payload_def\<close>)
  moreover have "only_cache pr s ?s" by (rule only_cache_trans [OF only_cache_upd(1) only_cache_take])
  ultimately show ?thesis using b(1) by (intro exI [of _ b] exI [of _ ?s]) (simp add: take_lock_def)
qed

lemma payload_fields: "payload q = (v, d, n, r, x) \<longleftrightarrow> b_valid q = v \<and> b_dev q = d \<and> b_blockno q = n \<and> b_refcnt q = r \<and> b_data q = x"
  by (auto simp: payload_def)

lemma modify_law:
  assumes c: "cache h pr V H R s" and n: "H n = Some b"
  shows "cache h pr (V(n := d)) H R (upd_buf b (\<lambda>q. q\<lparr>b_data := d\<rparr>) s)"
proof (rule cache_change [OF c, where b = b and n = n and r = "b_refcnt (bufs s b)"])
  note D = cacheD [OF c] and K = cache_held [OF c n]
  show "payload (bufs (upd_buf b (\<lambda>q. q\<lparr>b_data := d\<rparr>) s) b) = (True, ROOTDEV, n, b_refcnt (bufs s b), (V(n := d)) n)"
    using K(2,3) by (simp add: payload_fields buffers_def)
  show "\<exists>ys. lru (upd_buf b (\<lambda>q. q\<lparr>b_data := d\<rparr>) s) ys" using D(2) by (simp add: lru_upd)
  show "i = b" if "buffers s i n" for i using D(3) [OF that K(2)] .
qed (use cacheD(1) [OF c] cache_held [OF c n] n in \<open>auto simp: payload_def\<close>)

lemma bwrite_law:
  assumes c: "cache h pr V H R s" and n: "H n = Some b"
  shows "bwrite h b s = Some (s\<lparr>disk := (disk s)(n := V n), dwrites := dwrites s @ [(n, V n)]\<rparr>)"
    and "cache h pr V H R (s\<lparr>disk := (disk s)(n := V n), dwrites := dwrites s @ [(n, V n)]\<rparr>)"
proof -
  note D = cacheD [OF c] and K = cache_held [OF c n]
  let ?s = "s\<lparr>disk := (disk s)(n := V n), dwrites := dwrites s @ [(n, V n)]\<rparr>"
  show "bwrite h b s = Some ?s" using bwrite_held [OF D(1) K(6,7)] K(4,5) by (simp add: virtio_disk_rw_def)
  show "cache h pr V H R ?s"
  proof (rule cache_change [OF c, where b = b and n = n and r = "b_refcnt (bufs s b)"])
    show "payload (bufs ?s b) = (True, ROOTDEV, n, b_refcnt (bufs s b), V n)" using K(2-5) by (simp add: payload_fields buffers_def)
    show "in_call h pr ?s" using D(1) by (subst in_call_cong) auto
    show "\<exists>ys. lru ?s ys" using D(2) by (simp add: lru_def)
    show "i = b" if "buffers s i n" for i using D(3) [OF that K(2)] .
  qed (use K n in auto)
qed

lemma pin_law:
  assumes c: "cache h pr V H R s" and n: "H n = Some b"
  shows "R n + 1 < 2 ^ 32 \<Longrightarrow> \<exists>s'. bpin h b s = Some s' \<and> cache h pr V H (R(n := R n + 1)) s' \<and> only_cache pr s s'
      \<and> disk s' = disk s \<and> dwrites s' = dwrites s"
    and "R n > 1 \<Longrightarrow> \<exists>s'. bunpin h b s = Some s' \<and> cache h pr V H (R(n := R n - 1)) s' \<and> only_cache pr s s'
      \<and> disk s' = disk s \<and> dwrites s' = dwrites s"
proof -
  note D = cacheD [OF c] and K = cache_held [OF c n]
  have change: "cache h pr V H (R(n := k)) (upd_buf b (\<lambda>q. q\<lparr>b_refcnt := f (b_refcnt q)\<rparr>) s)"
    if k: "unat (f (b_refcnt (bufs s b))) = k" "k > 0" for f :: "uint \<Rightarrow> uint" and k
  proof (rule cache_change [OF c, where b = b and n = n and r = "f (b_refcnt (bufs s b))"])
    let ?s = "upd_buf b (\<lambda>q. q\<lparr>b_refcnt := f (b_refcnt q)\<rparr>) s"
    show "payload (bufs ?s b) = (True, ROOTDEV, n, f (b_refcnt (bufs s b)), V n)" using K(2-5) by (simp add: payload_fields buffers_def)
    show "\<exists>ys. lru ?s ys" using D(2) by (simp add: lru_upd)
    show "i = b" if "buffers s i n" for i using D(3) [OF that K(2)] .
  qed (use k D(1) K n in auto)
  show "\<exists>s'. bpin h b s = Some s' \<and> cache h pr V H (R(n := R n + 1)) s' \<and> only_cache pr s s' \<and> disk s' = disk s \<and> dwrites s' = dwrites s"
    if "R n + 1 < 2 ^ 32"
  proof -
    have "unat (b_refcnt (bufs s b) + 1) = R n + 1" using K(8) that by (simp add: unat_plus_if')
    from change [where f = "\<lambda>r. r + 1", OF this] show ?thesis using pin_spec(1) [OF D(1), of b] only_cache_upd(1) [of pr s b] by simp
  qed
  show "\<exists>s'. bunpin h b s = Some s' \<and> cache h pr V H (R(n := R n - 1)) s' \<and> only_cache pr s s' \<and> disk s' = disk s \<and> dwrites s' = dwrites s"
    if "R n > 1"
  proof -
    have "unat (b_refcnt (bufs s b) - 1) = R n - 1" using K(8) that by (simp add: unat_sub_if')
    from change [where f = "\<lambda>r. r - 1", OF this] show ?thesis using pin_spec(2) [OF D(1), of b] only_cache_upd(1) [of pr s b] that by simp
  qed
qed

lemma unref_bufs:
  assumes "lru s xs" and "b < NBUF"
  shows "\<exists>ys. lru (unref b s) ys"
    and "payload (bufs (unref b s) i) = (if i = b then payload ((bufs s b)\<lparr>b_refcnt := b_refcnt (bufs s b) - 1\<rparr>) else payload (bufs s i))"
proof -
  let ?s = "upd_buf b (\<lambda>q. q\<lparr>b_refcnt := b_refcnt q - 1\<rparr>) s"
  have l: "lru ?s xs" using assms(1) by (simp add: lru_upd)
  have b: "b \<in> set xs" using assms by (simp add: lru_def)
  show "\<exists>ys. lru (unref b s) ys" using l lru_front(1) [OF l b] by (auto simp: unref_def Let_def)
  show "payload (bufs (unref b s) i) = (if i = b then payload ((bufs s b)\<lparr>b_refcnt := b_refcnt (bufs s b) - 1\<rparr>) else payload (bufs s i))"
    using lru_front(2) [OF l b, of i] by (auto simp: unref_def Let_def)
qed

lemma unref_sel [simp]:
  "slks (unref b s) = slks s" "procs (unref b s) = procs s" "disk (unref b s) = disk s" "dwrites (unref b s) = dwrites s"
  "cpus (unref b s) = cpus s" "sie (unref b s) = sie s" "lks (unref b s) = lks s"
  by (simp_all add: unref_def link_front_def unlink_buf_def Let_def)

lemma brelse_law:
  assumes c: "cache h pr V H R s" and n: "H n = Some b" and keep: "R n > 1 \<or> disk s n = V n"
  shows "\<exists>s'. brelse h b s = Some s' \<and> cache h pr V (H(n := None)) (R(n := R n - 1)) s' \<and> only_cache pr s s'
    \<and> disk s' = disk s \<and> dwrites s' = dwrites s"
proof -
  note D = cacheD [OF c] and K = cache_held [OF c n]
  let ?s = "unref b (drop_lock pr b s)"
  obtain xs where "lru s xs" using D(2) by blast
  then have l: "lru (drop_lock pr b s) xs" by (simp add: lru_bufs)
  note U = unref_bufs [OF l K(1)]
  have pid: "p_pid (procs ?s pr) = p_pid (procs s pr)" by (simp add: drop_lock_def)
  have r: "unat (b_refcnt (bufs s b) - 1) = R n - 1" using K(8,9) by (simp add: unat_sub_if')
  have "cache h pr V (H(n := None)) (R(n := R n - 1)) ?s"
  proof (rule cache_change [OF c, where b = b and n = n and r = "b_refcnt (bufs s b) - 1"])
    show "in_call h pr ?s" using D(1) by (subst in_call_cong [of _ s]) (auto simp: drop_lock_def)
    show "\<exists>ys. lru ?s ys" by (rule U(1))
    show "payload (bufs ?s b) = (True, ROOTDEV, n, b_refcnt (bufs s b) - 1, V n)"
      unfolding U(2) using K(2-5) by (simp add: payload_fields buffers_def)
    show "payload (bufs ?s i) = payload (bufs s i)" if "i \<noteq> b" for i unfolding U(2) using that by simp
    show "slks ?s (buf_lock i) = slks s (buf_lock i)" if "i \<noteq> b" for i using that by (simp add: drop_lock_def)
    show "i = b" if "buffers s i n" for i using D(3) [OF that K(2)] .
    show "(R(n := R n - 1)) n = 0 \<Longrightarrow> disk ?s n = V n" using keep by auto
    show "sl_locked (slks ?s (buf_lock b)) \<noteq> 0 \<Longrightarrow>
      sl_pid (slks ?s (buf_lock b)) = p_pid (procs s pr) \<and> 0 < (R(n := R n - 1)) n" by (simp add: drop_lock_def)
    show "(H(n := None)) n = (if sl_locked (slks ?s (buf_lock b)) = 0 then None else Some b)" by (simp add: drop_lock_def)
  qed (use K r pid in auto)
  moreover have "only_cache pr s ?s" by (rule only_cache_trans [OF only_cache_drop only_cache_unref])
  ultimately show ?thesis using brelse_held [OF D(1) K(6,7)] by simp
qed

subsection \<open>The interface of the cache\<close>

text \<open>
  What the layers above rely on. \<open>inv V H R D W s\<close>: the contents of the blocks are \<open>V\<close>, the thread holds
  the buffers \<open>H\<close>, the reference counts are \<open>R\<close>, the disk contains \<open>D\<close> and has done the writes \<open>W\<close>.
\<close>

locale buffer_cache =
  fixes inv :: "('n::finite \<Rightarrow> 'd) \<Rightarrow> ('n \<rightharpoonup> 'b) \<Rightarrow> ('n \<Rightarrow> nat) \<Rightarrow> ('n \<Rightarrow> 'd) \<Rightarrow> ('n \<times> 'd) list \<Rightarrow> 's \<Rightarrow> bool"
    and read :: "'n \<Rightarrow> 's \<Rightarrow> ('b \<times> 's) option" and flush :: "'b \<Rightarrow> 's \<Rightarrow> 's option" and rel :: "'b \<Rightarrow> 's \<Rightarrow> 's option"
    and pin :: "'b \<Rightarrow> 's \<Rightarrow> 's option" and unpin :: "'b \<Rightarrow> 's \<Rightarrow> 's option"
    and data :: "'s \<Rightarrow> 'b \<Rightarrow> 'd" and put :: "'b \<Rightarrow> 'd \<Rightarrow> 's \<Rightarrow> 's" and cap :: nat and lim :: nat
  assumes read_ok: "inv V H R D W s \<Longrightarrow> H n = None \<Longrightarrow> R n + 1 < lim \<Longrightarrow> (R n = 0 \<Longrightarrow> card {n. R n > 0} < cap)
      \<Longrightarrow> \<exists>b s'. read n s = Some (b, s') \<and> inv V (H(n \<mapsto> b)) (R(n := R n + 1)) D W s'"
    and data_ok: "inv V H R D W s \<Longrightarrow> H n = Some b \<Longrightarrow> data s b = V n"
    and put_ok: "inv V H R D W s \<Longrightarrow> H n = Some b \<Longrightarrow> inv (V(n := d)) H R D W (put b d s)"
    and flush_ok: "inv V H R D W s \<Longrightarrow> H n = Some b \<Longrightarrow>
      \<exists>s'. flush b s = Some s' \<and> inv V H R (D(n := V n)) (W @ [(n, V n)]) s'"
    and rel_ok: "inv V H R D W s \<Longrightarrow> H n = Some b \<Longrightarrow> R n > 1 \<or> D n = V n \<Longrightarrow>
      \<exists>s'. rel b s = Some s' \<and> inv V (H(n := None)) (R(n := R n - 1)) D W s'"
    and pin_ok: "inv V H R D W s \<Longrightarrow> H n = Some b \<Longrightarrow> R n + 1 < lim \<Longrightarrow> \<exists>s'. pin b s = Some s' \<and> inv V H (R(n := R n + 1)) D W s'"
    and unpin_ok: "inv V H R D W s \<Longrightarrow> H n = Some b \<Longrightarrow> R n > 1 \<Longrightarrow> \<exists>s'. unpin b s = Some s' \<and> inv V H (R(n := R n - 1)) D W s'"
begin

lemma card_refs: "card {n. (R(a := Suc k)) n > 0} = card {n. R n > (0::nat)} + (if R a = 0 then 1 else 0)" for a :: 'n
proof -
  have "{n. (R(a := Suc k)) n > 0} = insert a {n. R n > 0}" by auto
  then show ?thesis by (simp add: card_insert_if)
qed

lemma read_two:
  assumes i: "inv V H R D W s" and ab: "x \<noteq> y" "H x = None" "H y = None" "R x + 1 < lim" "R y + 1 < lim"
    and room: "card {n. R n > 0} + (if R x = 0 then 1 else 0) + (if R y = 0 then 1 else 0) \<le> cap"
  shows "\<exists>b s' b' s''. read x s = Some (b, s') \<and> read y s' = Some (b', s'')
    \<and> inv V (H(x \<mapsto> b, y \<mapsto> b')) (R(x := R x + 1, y := R y + 1)) D W s''"
proof -
  obtain b s' where 1: "read x s = Some (b, s')" and i1: "inv V (H(x \<mapsto> b)) (R(x := R x + 1)) D W s'"
    using read_ok [OF i ab(2,4)] room by (auto split: if_splits)
  have "\<exists>b' s''. read y s' = Some (b', s'') \<and> inv V (H(x \<mapsto> b, y \<mapsto> b')) ((R(x := R x + 1))(y := (R(x := R x + 1)) y + 1)) D W s''"
  proof (rule read_ok [OF i1])
    show "card {n. 0 < (R(x := R x + 1)) n} < cap" if "(R(x := R x + 1)) y = 0"
      using card_refs [of R x "R x"] that ab(1) room by simp
  qed (use ab in auto)
  with 1 show ?thesis using ab(1) by auto
qed

text \<open>Copy block \<open>x\<close> to block \<open>y\<close>, and back, the way the log does.\<close>

lemma copy_forward:
  assumes i: "inv V H R D W s" and ab: "x \<noteq> y" "H x = None" "H y = None" "R x + 1 < lim" "R y + 1 < lim"
    and room: "card {n. R n > 0} + (if R x = 0 then 1 else 0) + (if R y = 0 then 1 else 0) \<le> cap"
    and keep: "R x > 0 \<or> D x = V x" and u: "u \<Longrightarrow> R y > 0"
  shows "\<exists>s'. do { (b, s) \<leftarrow> read x s; (b', s) \<leftarrow> read y s; let s = put b' (data s b) s; s \<leftarrow> flush b' s;
      s \<leftarrow> (if u then unpin b' s else Some s); s \<leftarrow> rel b s; rel b' s } = Some s'
    \<and> inv (V(y := V x)) H (if u then R(y := R y - 1) else R) (D(y := V x)) (W @ [(y, V x)]) s'"
proof -
  let ?V = "V(y := V x)" and ?D = "D(y := V x)" and ?W = "W @ [(y, V x)]"
  obtain b s1 b' s2 where r: "read x s = Some (b, s1)" "read y s1 = Some (b', s2)"
    and i2: "inv V (H(x \<mapsto> b, y \<mapsto> b')) (R(x := R x + 1, y := R y + 1)) D W s2" (is "inv _ ?H ?R _ _ _")
    using read_two [OF i ab room] by blast
  have d: "data s2 b = V x" using data_ok [OF i2, of x b] ab(1) by simp
  have i3: "inv ?V ?H ?R D W (put b' (V x) s2)" using put_ok [OF i2, of y b'] by simp
  obtain s4 where w: "flush b' (put b' (V x) s2) = Some s4" and i4: "inv ?V ?H ?R ?D ?W s4"
    using flush_ok [OF i3, of y b'] by auto
  obtain s5 where n: "(if u then unpin b' s4 else Some s4) = Some s5"
    and i5: "inv ?V ?H (R(x := R x + 1, y := (if u then R y else R y + 1))) ?D ?W s5"
    using unpin_ok [OF i4, of y b'] u i4 by (cases u) auto
  have "(R(x := R x + 1, y := (if u then R y else R y + 1))) x > 1 \<or> ?D x = ?V x" using keep ab(1) by auto
  from rel_ok [OF i5, of x b, OF _ this] ab(1) obtain s6 where e: "rel b s5 = Some s6"
    and i6: "inv ?V (?H(x := None)) (R(x := R x + 1, y := (if u then R y else R y + 1), x := R x)) ?D ?W s6" by auto
  from rel_ok [OF i6, of y b'] ab(1) obtain s7 where f: "rel b' s6 = Some s7"
    and i7: "inv ?V (?H(x := None, y := None))
      (R(x := R x + 1, y := (if u then R y else R y + 1), x := R x, y := (if u then R y else R y + 1) - 1)) ?D ?W s7" by auto
  have "?H(x := None, y := None) = H"
    "R(x := R x + 1, y := (if u then R y else R y + 1), x := R x, y := (if u then R y else R y + 1) - 1) = (if u then R(y := R y - 1) else R)"
    using ab by (auto simp: fun_eq_iff)
  with i7 have "inv ?V H (if u then R(y := R y - 1) else R) ?D ?W s7" by simp
  then show ?thesis using r d w n e f by auto
qed

lemma copy_back:
  assumes i: "inv V H R D W s" and ab: "x \<noteq> y" "H x = None" "H y = None" "R x + 1 < lim" "R y + 1 < lim"
    and room: "card {n. R n > 0} + (if R x = 0 then 1 else 0) + (if R y = 0 then 1 else 0) \<le> cap"
    and keep: "R y > 0 \<or> D y = V y"
  shows "\<exists>s'. do { (b, s) \<leftarrow> read x s; (b', s) \<leftarrow> read y s; let s = put b (data s b') s; s \<leftarrow> flush b s;
      s \<leftarrow> rel b' s; rel b s } = Some s' \<and> inv (V(x := V y)) H R (D(x := V y)) (W @ [(x, V y)]) s'"
proof -
  let ?V = "V(x := V y)" and ?D = "D(x := V y)" and ?W = "W @ [(x, V y)]"
  obtain b s1 b' s2 where r: "read x s = Some (b, s1)" "read y s1 = Some (b', s2)"
    and i2: "inv V (H(x \<mapsto> b, y \<mapsto> b')) (R(x := R x + 1, y := R y + 1)) D W s2" (is "inv _ ?H ?R _ _ _")
    using read_two [OF i ab room] by blast
  have d: "data s2 b' = V y" using data_ok [OF i2, of y b'] by simp
  have i3: "inv ?V ?H ?R D W (put b (V y) s2)" using put_ok [OF i2, of x b] ab(1) by simp
  obtain s4 where w: "flush b (put b (V y) s2) = Some s4" and i4: "inv ?V ?H ?R ?D ?W s4"
    using flush_ok [OF i3, of x b] ab(1) by auto
  have "?R y > 1 \<or> ?D y = ?V y" using keep ab(1) by auto
  from rel_ok [OF i4, of y b', OF _ this] obtain s6 where e: "rel b' s4 = Some s6"
    and i6: "inv ?V (?H(y := None)) (?R(y := R y)) ?D ?W s6" by auto
  from rel_ok [OF i6, of x b] ab(1) obtain s7 where f: "rel b s6 = Some s7"
    and i7: "inv ?V (?H(y := None, x := None)) (?R(y := R y, x := R x)) ?D ?W s7" by auto
  have "?H(y := None, x := None) = H" "?R(y := R y, x := R x) = R" using ab by (auto simp: fun_eq_iff)
  with i7 have "inv ?V H R ?D ?W s7" by simp
  then show ?thesis using r d w e f by auto
qed

end

definition put_data :: "nat \<Rightarrow> block \<Rightarrow> 'a kbio_scheme \<Rightarrow> 'a kbio_scheme" where
  "put_data b d = upd_buf b (\<lambda>q. q\<lparr>b_data := d\<rparr>)"

definition cached ::
  "nat \<Rightarrow> nat \<Rightarrow> 'a kbio_scheme \<Rightarrow> (uint \<Rightarrow> block) \<Rightarrow> (uint \<rightharpoonup> nat) \<Rightarrow> (uint \<Rightarrow> nat) \<Rightarrow> (uint \<Rightarrow> block) \<Rightarrow> (uint \<times> block) list
    \<Rightarrow> 'a kbio_scheme \<Rightarrow> bool" where
  "cached h pr s0 V H R D W s \<longleftrightarrow> cache h pr V H R s \<and> disk s = D \<and> dwrites s = W \<and> only_cache pr s0 s"

lemma cachedI: "cache h pr V H R s \<Longrightarrow> cached h pr s V H R (disk s) (dwrites s) s"
  by (simp add: cached_def only_cache_refl)

interpretation bc: buffer_cache "cached h pr s0" "bread h ROOTDEV" "bwrite h" "brelse h" "bpin h" "bunpin h"
  "\<lambda>s b. b_data (bufs s b)" put_data NBUF "2 ^ 32" for h pr s0
proof (unfold_locales, goal_cases)
  case (1 V H R D W s n)
  then show ?case using bread_law [of h pr V H R s n] only_cache_trans [of pr s0 s] by (force simp: cached_def)
next
  case (2 V H R D W s n b)
  then show ?case using cache_held(4) [of h pr V H R s n b] by (simp add: cached_def)
next
  case (3 V H R D W s n b d)
  then show ?case
    using modify_law [of h pr V H R s n b d] only_cache_upd_after [of pr s0 s] by (simp add: cached_def put_data_def)
next
  case (4 V H R D W s n b)
  then show ?case
    using bwrite_law [of h pr V H R s n b] only_cache_trans [of pr s0 s] only_cache_upd(3) [of pr s b True]
      cache_held [of h pr V H R s n b] by (simp add: cached_def virtio_disk_rw_def)
next
  case (5 V H R D W s n b)
  then show ?case using brelse_law [of h pr V H R s n b] only_cache_trans [of pr s0 s] by (force simp: cached_def)
next
  case (6 V H R D W s n b)
  then show ?case using pin_law(1) [of h pr V H R s n b] only_cache_trans [of pr s0 s] by (force simp: cached_def)
next
  case (7 V H R D W s n b)
  then show ?case using pin_law(2) [of h pr V H R s n b] only_cache_trans [of pr s0 s] by (force simp: cached_def)
qed

subsection \<open>Properties\<close>

lemma init_link:
  "bufs (link_front b (initsleeplock lk nm s)) = bufs (link_front b s)"
  "slks (link_front b (initsleeplock lk nm s)) = (slks s)(lk := \<lparr>sl_locked = 0, sl_name = nm, sl_pid = 0\<rparr>)"
proof -
  have "bufs (initsleeplock lk nm s) = bufs s" by (simp add: initsleeplock_def initlock_def)
  then show "bufs (link_front b (initsleeplock lk nm s)) = bufs (link_front b s)" unfolding link_front_bufs by simp
  have "slks (link_front b t) = slks t" for t :: "'a kbio_scheme" by (simp add: link_front_def Let_def)
  then show "slks (link_front b (initsleeplock lk nm s)) = (slks s)(lk := \<lparr>sl_locked = 0, sl_name = nm, sl_pid = 0\<rparr>)"
    by (simp add: initsleeplock_def initlock_def)
qed

lemma binit_ring:
  fixes s :: "'a kbio_scheme"
  defines "f \<equiv> (\<lambda>b s :: 'a kbio_scheme. link_front b (initsleeplock (buf_lock b) ''buffer'' s))"
  assumes "b_prev (bufs s NBUF) = NBUF" and "b_next (bufs s NBUF) = NBUF" and "k \<le> NBUF"
  shows "ring (nexts (fold f [0..<k] s)) (prevs (fold f [0..<k] s)) NBUF (rev [0..<k])
    \<and> (\<forall>b. payload (bufs (fold f [0..<k] s) b) = payload (bufs s b))
    \<and> slks (fold f [0..<k] s) = (\<lambda>lk. if lk \<in> buf_lock ` {0..<k} then \<lparr>sl_locked = 0, sl_name = ''buffer'', sl_pid = 0\<rparr> else slks s lk)"
  using assms(4)
proof (induction k)
  case 0
  then show ?case using assms(2,3) by (simp add: ring_def)
next
  case (Suc k)
  let ?s = "fold f [0..<k] s" and ?n = "fold f [0..<Suc k] s"
  have IH: "ring (nexts ?s) (prevs ?s) NBUF (rev [0..<k])" "\<And>b. payload (bufs ?s b) = payload (bufs s b)"
    "slks ?s = (\<lambda>lk. if lk \<in> buf_lock ` {0..<k} then \<lparr>sl_locked = 0, sl_name = ''buffer'', sl_pid = 0\<rparr> else slks s lk)"
    using Suc by simp_all
  have n: "bufs ?n = bufs (link_front k ?s)"
    "slks ?n = (slks ?s)(buf_lock k := \<lparr>sl_locked = 0, sl_name = ''buffer'', sl_pid = 0\<rparr>)"
    using init_link by (simp_all add: f_def)
  have "k \<noteq> NBUF" using Suc.prems by simp
  then have "nexts ?n = (nexts ?s)(k := nexts ?s NBUF, NBUF := k)" "prevs ?n = (prevs ?s)(k := NBUF, nexts ?s NBUF := k)"
    unfolding n link_front_bufs by (simp_all add: fun_eq_iff)
  then have "ring (nexts ?n) (prevs ?n) NBUF (rev [0..<Suc k])" using ring_link [OF IH(1), of k] \<open>k \<noteq> NBUF\<close> by simp
  moreover have "payload (bufs ?n b) = payload (bufs s b)" for b
    using IH(2) [of b] unfolding n link_front_bufs by (simp add: payload_def)
  moreover have "slks ?n = (\<lambda>lk. if lk \<in> buf_lock ` {0..<Suc k} then \<lparr>sl_locked = 0, sl_name = ''buffer'', sl_pid = 0\<rparr> else slks s lk)"
    unfolding n(2) IH(3) by (auto simp: fun_eq_iff less_Suc_eq)
  ultimately show ?case by blast
qed

lemma link_front_sel [simp]:
  "cpus (link_front b s) = cpus s" "sie (link_front b s) = sie s" "lks (link_front b s) = lks s" "procs (link_front b s) = procs s"
  "disk (link_front b s) = disk s" "dwrites (link_front b s) = dwrites s"
  by (simp_all add: link_front_def Let_def)

lemma initlock_call: "in_call h pr s \<Longrightarrow> in_call h pr (initlock lk nm s)"
  using calm_cong [of "initlock lk nm s" s h] by (simp add: in_call_def at_rest_def free_lock_def initlock_def)

lemma fold_inv: "(\<And>x t. I t \<Longrightarrow> I (f x t)) \<Longrightarrow> I t \<Longrightarrow> I (fold f xs t)"
  by (induction xs arbitrary: t) auto

lemma binit_frame:
  assumes "in_call h pr s"
  shows "in_call h pr (binit s) \<and> disk (binit s) = disk s \<and> dwrites (binit s) = dwrites s"
proof -
  let ?I = "\<lambda>t. in_call h pr t \<and> disk t = disk s \<and> dwrites t = dwrites s"
  let ?f = "\<lambda>b s. link_front b (initsleeplock (buf_lock b) ''buffer'' s)"
  have step: "?I (?f b t)" if "?I t" for b t
  proof -
    have "in_call h pr (initsleeplock (buf_lock b) ''buffer'' t)"
      using that initlock_call [of h pr t] by (simp add: initsleeplock_def)
    then have "in_call h pr (?f b t)" by (subst in_call_cong [of _ "initsleeplock (buf_lock b) ''buffer'' t"]) auto
    then show ?thesis using that by (simp add: initsleeplock_def initlock_def)
  qed
  have "?I (fold ?f bs t)" if "?I t" for bs t using fold_inv [of ?I ?f, OF step that] .
  moreover have "?I (upd_buf NBUF f (upd_buf NBUF g (initlock bcache_lock ''bcache'' s)))" for f g
    using initlock_call [OF assms, of bcache_lock "''bcache''"] by (simp add: initlock_def)
  ultimately show ?thesis unfolding binit_def Let_def by blast
qed

lemma binit_cache:
  assumes "in_call h pr s" and zero: "\<And>b. b_dev (bufs s b) = 0" "\<And>b. b_refcnt (bufs s b) = 0"
  shows "cache h pr (disk s) Map.empty (\<lambda>_. 0) (binit s)"
proof -
  note F = binit_frame [OF assms(1)]
  let ?t = "upd_buf NBUF (\<lambda>q. q\<lparr>b_next := NBUF\<rparr>) (upd_buf NBUF (\<lambda>q. q\<lparr>b_prev := NBUF\<rparr>) (initlock bcache_lock ''bcache'' s))"
  note r = binit_ring [of ?t NBUF, simplified]
  have B: "binit s = fold (\<lambda>b s. link_front b (initsleeplock (buf_lock b) ''buffer'' s)) [0..<NBUF] ?t"
    by (simp add: binit_def Let_def)
  have ring: "ring (nexts (binit s)) (prevs (binit s)) NBUF (rev [0..<NBUF])" unfolding B using r by blast
  have "payload (bufs (binit s) b) = payload (bufs ?t b)" for b unfolding B using r by auto
  then have p: "b_dev (bufs (binit s) b) = 0" "b_refcnt (bufs (binit s) b) = 0" for b
    using zero [of b] by (cases "b = NBUF"; simp add: payload_def initlock_def)+
  have sl: "sl_locked (slks (binit s) (buf_lock b)) = 0" if "b < NBUF" for b unfolding B using r that by auto
  have nb: "\<not> buffers (binit s) b n" for b n by (simp add: buffers_def p ROOTDEV_def)
  have "\<exists>xs. lru (binit s) xs" unfolding lru_def using ring by (intro exI [of _ "rev [0..<NBUF]"]) simp
  then show ?thesis unfolding cache_def using F nb p(2) sl by auto
qed

text \<open>
  C14. The buffer cache is transparent: \<open>bread\<close> returns a buffer with the current contents \<open>V n\<close> of the
  block, whether it was cached, had to be read from the disk, or took over the least recently used
  buffer of another block, and neither the contents of any block nor the disk change; a modified
  buffer written with \<open>bwrite\<close> and given back with \<open>brelse\<close> changes this block's contents, in the cache
  and on the disk, and no other. The only condition is that not all buffers are in use by other blocks.
\<close>

theorem bread_correct:
  assumes "cache h pr V H R s" and "H n = None" and "R n + 1 < 2 ^ 32" and "R n = 0 \<Longrightarrow> card {m. R m > 0} < NBUF"
  shows "\<exists>b s'. bread h ROOTDEV n s = Some (b, s') \<and> b_data (bufs s' b) = V n
    \<and> cache h pr V (H(n \<mapsto> b)) (R(n := R n + 1)) s' \<and> disk s' = disk s \<and> dwrites s' = dwrites s \<and> only_cache pr s s'
    \<and> (\<forall>d. \<exists>t u. bwrite h b (put_data b d s') = Some t \<and> brelse h b t = Some u
         \<and> cache h pr (V(n := d)) H R u \<and> disk u = (disk s)(n := d) \<and> dwrites u = dwrites s @ [(n, d)])"
proof -
  note i = cachedI [OF assms(1)]
  obtain b s' where b: "bread h ROOTDEV n s = Some (b, s')"
    and i': "cached h pr s V (H(n \<mapsto> b)) (R(n := R n + 1)) (disk s) (dwrites s) s'" (is "cached _ _ _ _ ?H ?R _ _ _")
    using bc.read_ok [OF i assms(2-4)] by blast
  have d: "b_data (bufs s' b) = V n" using bc.data_ok [OF i'] by simp
  have "\<exists>t u. bwrite h b (put_data b d s') = Some t \<and> brelse h b t = Some u
      \<and> cached h pr s (V(n := d)) H R ((disk s)(n := d)) (dwrites s @ [(n, d)]) u" for d
  proof -
    have "cached h pr s (V(n := d)) ?H ?R (disk s) (dwrites s) (put_data b d s')" using bc.put_ok [OF i'] by simp
    from bc.flush_ok [OF this, of n b] obtain t where t: "bwrite h b (put_data b d s') = Some t"
      "cached h pr s (V(n := d)) ?H ?R ((disk s)(n := d)) (dwrites s @ [(n, d)]) t" by auto
    from bc.rel_ok [OF t(2), of n b] obtain u where "brelse h b t = Some u"
      "cached h pr s (V(n := d)) (?H(n := None)) (?R(n := R n)) ((disk s)(n := d)) (dwrites s @ [(n, d)]) u" by auto
    moreover have "?H(n := None) = H" "?R(n := R n) = R" using assms(2) by (auto simp: fun_eq_iff)
    ultimately show ?thesis using t(1) by auto
  qed
  then show ?thesis using b d i' unfolding cached_def by blast
qed

text \<open>A machine that has just run \<open>binit\<close>, with block \<open>n\<close> of the disk filled with the byte \<open>n\<close>.\<close>

definition kbio0 :: kbio where
  "kbio0 = binit (kpipe.extend (kpipe0 (\<lambda>_. 0)) \<lparr>bufs = (\<lambda>_. \<lparr>b_valid = False, b_dev = 0, b_blockno = 0, b_refcnt = 0, b_prev = 0,
     b_next = 0, b_data = (\<lambda>_. 0)\<rparr>), disk = (\<lambda>n _. ucast n), dwrites = []\<rparr>)"

lemma kbio0_cache: "cache 0 3 (\<lambda>n _. ucast n) Map.empty (\<lambda>_. 0) kbio0" and kbio0_disk: "disk kbio0 = (\<lambda>n _. ucast n)"
proof -
  let ?s = "kpipe.extend (kpipe0 (\<lambda>_. 0)) \<lparr>bufs = (\<lambda>_. \<lparr>b_valid = False, b_dev = 0, b_blockno = 0, b_refcnt = 0, b_prev = 0,
     b_next = 0, b_data = (\<lambda>_. 0)\<rparr>), disk = (\<lambda>n _. ucast n), dwrites = []\<rparr>"
  have "in_call 0 3 ?s" using kpipe0_ok(1) [of "\<lambda>_. 0"] by (subst in_call_cong [of _ "kpipe.extend (kpipe0 (\<lambda>_. 0)) _"])
      (auto simp: kpipe.defs in_call_def calm_iff hart_ok_def at_rest_def free_lock_def)
  from binit_cache [OF this] binit_frame [OF this]
  show "cache 0 3 (\<lambda>n _. ucast n) Map.empty (\<lambda>_. 0) kbio0" "disk kbio0 = (\<lambda>n _. ucast n)"
    by (simp_all add: kbio0_def kpipe.defs)
qed

theorem bread_correct_witness:
  "\<exists>b s' t u. bread 0 ROOTDEV 5 kbio0 = Some (b, s') \<and> b_data (bufs s' b) 0 = 5
    \<and> bwrite 0 b (put_data b (\<lambda>_. 9) s') = Some t \<and> brelse 0 b t = Some u \<and> disk u 5 0 = 9 \<and> disk u 6 0 = 6"
proof -
  obtain b s' where b: "bread 0 ROOTDEV 5 kbio0 = Some (b, s')" "b_data (bufs s' b) = (\<lambda>_. 5)"
    and w: "\<And>d. \<exists>t u. bwrite 0 b (put_data b d s') = Some t \<and> brelse 0 b t = Some u \<and> disk u = (disk kbio0)(5 := d)"
    using bread_correct [OF kbio0_cache, of 5, OF refl] by (simp add: NBUF_def) blast
  from w [of "\<lambda>_. 9"] b show ?thesis by (fastforce simp: kbio0_disk)
qed

text \<open>
  \<open>bread\<close> has no answer but a panic when every one of the \<open>NBUF\<close> buffers is referenced for another
  block. As \<open>LOGSIZE\<close> equals \<open>NBUF\<close> and a logged block stays referenced until it is installed, a
  transaction that fills the log leaves no buffer for the log block that its commit has to read.
\<close>

theorem bread_no_buffers:
  assumes c: "cache h pr V H R s" and "R n = 0" and full: "card {m. R m > 0} \<ge> NBUF"
  shows "bread h ROOTDEV n s = None"
proof -
  note D = cacheD [OF c]
  obtain xs where xs: "lru s xs" using D(2) by blast
  then have sx: "set xs = {0..<NBUF}" by (simp add: lru_def)
  have "\<forall>m. \<exists>b. R m > 0 \<longrightarrow> buffers s b m" using D(6) by blast
  then obtain g where g: "\<And>m. R m > 0 \<Longrightarrow> buffers s (g m) m" by metis
  have inj: "inj_on g {m. R m > 0}"
  proof (rule inj_onI)
    fix a b assume "a \<in> {m. R m > 0}" "b \<in> {m. R m > 0}" "g a = g b"
    then show "a = b" using g [of a] g [of b] by (simp add: buffers_def)
  qed
  have sub: "g ` {m. R m > 0} \<subseteq> {0..<NBUF}" using g by (auto simp: buffers_def)
  have "card (g ` {m. R m > 0}) = card {0..<NBUF}"
    using full card_image [OF inj] card_mono [OF _ sub] by simp
  then have img: "g ` {m. R m > 0} = {0..<NBUF}" using card_subset_eq [OF _ sub] by simp
  have busy: "b_refcnt (bufs s b) \<noteq> 0 \<and> \<not> buffers s b n" if "b \<in> set xs" for b
  proof -
    have "b \<in> g ` {m. R m > 0}" using that img sx by simp
    then obtain m where m: "R m > 0" "b = g m" by blast
    then have "unat (b_refcnt (bufs s b)) = R m" using D(5) [OF g] by simp
    moreover have "\<not> buffers s b n" using g [OF m(1)] m assms(2) by (auto simp: buffers_def)
    ultimately show ?thesis using m(1) by auto
  qed
  have "List.find (\<lambda>b. b_dev (bufs s b) = ROOTDEV \<and> b_blockno (bufs s b) = n) xs = None"
    "List.find (\<lambda>b. b_refcnt (bufs s b) = 0) (rev xs) = None"
    using busy sx by (auto simp: find_None_iff buffers_def)
  moreover have "lru (within h bcache_lock s) xs" using xs by (simp add: lru_def)
  ultimately have "bget h ROOTDEV n s = None"
    using lru_scans [of "within h bcache_lock s" xs] in_callD(4) [OF D(1)] by (simp add: bget_def acquire_free)
  then show ?thesis by (simp add: bread_def)
qed

lemma hold_many:
  "k \<le> NBUF \<Longrightarrow> \<exists>H s. cached 0 3 kbio0 (\<lambda>n _. ucast n) H (\<lambda>n. if unat n < k then 1 else 0) (disk kbio0) (dwrites kbio0) s
     \<and> (\<forall>n. k \<le> unat n \<longrightarrow> H n = None)"
proof (induction k)
  case 0
  then show ?case using cachedI [OF kbio0_cache] by auto
next
  case (Suc k)
  then obtain H s where i: "cached 0 3 kbio0 (\<lambda>n _. ucast n) H (\<lambda>n. if unat n < k then 1 else 0) (disk kbio0) (dwrites kbio0) s"
    "\<And>n. k \<le> unat n \<Longrightarrow> H n = None" by auto
  have k: "unat (of_nat k :: uint) = k" using Suc.prems by (simp add: NBUF_def unat_of_nat)
  have un: "unat n = k \<longleftrightarrow> n = of_nat k" for n :: uint using k by (metis unat_inject)
  have "card {n :: uint. (if unat n < k then 1 else 0) > (0::nat)} \<le> card {0..<k}"
    by (rule card_inj_on_le [of unat]) (auto simp: inj_on_def unat_inject split: if_splits)
  then obtain b s' where c: "cached 0 3 kbio0 (\<lambda>n _. ucast n) (H(of_nat k \<mapsto> b))
     ((\<lambda>n. if unat n < k then 1 else 0)(of_nat k := 1)) (disk kbio0) (dwrites kbio0) s'"
    using bc.read_ok [OF i(1) i(2) [of "of_nat k"]] k Suc.prems by (auto simp: NBUF_def)
  have R: "(\<lambda>n. if unat n < k then 1 else 0)(of_nat k := 1) = (\<lambda>n :: uint. if unat n < Suc k then 1 else 0 :: nat)"
    using k by (auto simp: fun_eq_iff less_Suc_eq un)
  have "(H(of_nat k \<mapsto> b)) n = None" if "Suc k \<le> unat n" for n using that i(2) [of n] k by auto
  with c show ?case unfolding R by blast
qed

theorem bread_no_buffers_witness: "\<exists>s. disk s = disk kbio0 \<and> bread 0 ROOTDEV 40 (s :: kbio) = None"
proof -
  obtain H s where i: "cached 0 3 kbio0 (\<lambda>n _. ucast n) H (\<lambda>n. if unat n < NBUF then 1 else 0) (disk kbio0) (dwrites kbio0) s"
    using hold_many [of NBUF] by auto
  have "NBUF \<le> card {n :: uint. (if unat n < NBUF then 1 else 0) > (0::nat)}"
  proof -
    have "card {0..<NBUF} \<le> card {n :: uint. (if unat n < NBUF then 1 else 0) > (0::nat)}"
    proof (rule card_inj_on_le)
      show "inj_on (of_nat :: nat \<Rightarrow> uint) {0..<NBUF}"
        by (rule inj_on_inverseI [of _ unat]) (simp add: NBUF_def unat_of_nat)
    qed (auto simp: NBUF_def unat_of_nat)
    then show ?thesis by simp
  qed
  then show ?thesis using bread_no_buffers [of 0 3 _ H "\<lambda>n. if unat n < NBUF then 1 else 0" s 40] i
    by (auto simp: cached_def NBUF_def)
qed

end
