(* ===== verification/Log.thy ===== *)
theory Log
  imports Bio
begin

text \<open>
  \<open>labo2/kernel/log.c\<close>: the redo log that makes a group of file system calls atomic with respect to
  crashes. The disk's log area is a header block (a count and the numbers of the logged blocks) and one
  block per logged block. Apart from \<open>begin_op\<close>, which may sleep, the functions are followed through one
  kernel thread, as in theory \<open>Bio\<close>.
\<close>

subsection \<open>Words in blocks\<close>

definition ld32 :: "nat \<Rightarrow> block \<Rightarrow> uint" where
  "ld32 a d = ucast (d a) OR push_bit 8 (ucast (d (a + 1))) OR push_bit 16 (ucast (d (a + 2))) OR push_bit 24 (ucast (d (a + 3)))"

definition st32 :: "nat \<Rightarrow> uint \<Rightarrow> block \<Rightarrow> block" where
  "st32 a v d = d(a := ucast v, a + 1 := ucast (drop_bit 8 v), a + 2 := ucast (drop_bit 16 v), a + 3 := ucast (drop_bit 24 v))"

lemma ld32_st32 [simp]: "ld32 a (st32 a v d) = v"
proof -
  have "ucast (ucast v :: uchar) OR push_bit 8 (ucast (ucast (drop_bit 8 v) :: uchar)) OR push_bit 16 (ucast (ucast (drop_bit 16 v) :: uchar))
    OR push_bit 24 (ucast (ucast (drop_bit 24 v) :: uchar)) = v"
  proof (rule bit_word_eqI)
    fix n assume "n < LENGTH(32)"
    then have "n < 32" by simp
    then have "n < 8 \<or> (8 \<le> n \<and> n < 16) \<or> (16 \<le> n \<and> n < 24) \<or> (24 \<le> n \<and> n < 32)" by auto
    then show "bit (ucast (ucast v :: uchar) OR push_bit 8 (ucast (ucast (drop_bit 8 v) :: uchar)) OR push_bit 16 (ucast (ucast (drop_bit 16 v) :: uchar))
      OR push_bit 24 (ucast (ucast (drop_bit 24 v) :: uchar)) :: uint) n = bit v n"
      by (elim disjE) (auto simp: bit_simps)
  qed
  then show ?thesis by (simp add: ld32_def st32_def)
qed

lemma ld32_other: "a + 4 \<le> b \<or> b + 4 \<le> a \<Longrightarrow> ld32 b (st32 a v d) = ld32 b d"
  by (auto simp: ld32_def st32_def)

subsection \<open>State\<close>

definition MAXOPBLOCKS :: nat where "MAXOPBLOCKS = 10"
definition LOGSIZE :: nat where "LOGSIZE = MAXOPBLOCKS * 3"

record superblock =
  sb_magic :: uint
  sb_size :: uint
  sb_nblocks :: uint
  sb_ninodes :: uint
  sb_nlog :: uint
  sb_logstart :: uint
  sb_inodestart :: uint
  sb_bmapstart :: uint

record klog = kbio +
  l_start :: cint
  l_size :: cint
  l_outstanding :: cint
  l_committing :: cint
  l_dev :: cint
  lh_n :: cint
  lh_block :: "nat \<Rightarrow> cint"

text \<open>
  \<open>log.lh.block[i]\<close> has \<open>LOGSIZE\<close> entries; an access beyond them has no defined result. \<open>log.dev\<close>, \<open>log.start\<close>
  and \<open>log.lh\<close> are read once per iteration: the buffer cache does not change them.
\<close>

definition logged_no :: "nat \<Rightarrow> 'a klog_scheme \<Rightarrow> uint option" where
  "logged_no i s = (if i < LOGSIZE then Some (lh_block s i) else None)"

definition install_one :: "nat \<Rightarrow> bool \<Rightarrow> nat \<Rightarrow> 'a klog_scheme \<Rightarrow> 'a klog_scheme option" where
  "install_one h recovering tail s = do {
     let dev = l_dev s;
     let lno = l_start s + of_nat tail + 1;
     dno \<leftarrow> logged_no tail s;
     (lbuf, s) \<leftarrow> bread h dev lno s;
     (dbuf, s) \<leftarrow> bread h dev dno s;
     let s = put_data dbuf (b_data (bufs s lbuf)) s;
     s \<leftarrow> bwrite h dbuf s;
     s \<leftarrow> (if \<not> recovering then bunpin h dbuf s else Some s);
     s \<leftarrow> brelse h lbuf s;
     brelse h dbuf s }"

definition install_trans :: "nat \<Rightarrow> bool \<Rightarrow> 'a klog_scheme \<Rightarrow> 'a klog_scheme option" where
  "install_trans h recovering s = forM (install_one h recovering) [0..<nat (sint (lh_n s))] s"

definition read_head :: "nat \<Rightarrow> 'a klog_scheme \<Rightarrow> 'a klog_scheme option" where
  "read_head h s = do {
     (b, s) \<leftarrow> bread h (l_dev s) (l_start s) s;
     let lh = b_data (bufs s b);
     let s = s\<lparr>lh_n := ld32 0 lh\<rparr>;
     s \<leftarrow> forM (\<lambda>i s. if i < LOGSIZE then Some (s\<lparr>lh_block := (lh_block s)(i := ld32 (4 + 4 * i) lh)\<rparr>) else None)
           [0..<nat (sint (lh_n s))] s;
     brelse h b s }"

definition write_head :: "nat \<Rightarrow> 'a klog_scheme \<Rightarrow> 'a klog_scheme option" where
  "write_head h s = do {
     (b, s) \<leftarrow> bread h (l_dev s) (l_start s) s;
     let hb = st32 0 (lh_n s) (b_data (bufs s b));
     hb \<leftarrow> forM (\<lambda>i hb. map_option (\<lambda>v. st32 (4 + 4 * i) v hb) (logged_no i s)) [0..<nat (sint (lh_n s))] hb;
     let s = put_data b hb s;
     s \<leftarrow> bwrite h b s;
     brelse h b s }"

definition recover_from_log :: "nat \<Rightarrow> 'a klog_scheme \<Rightarrow> 'a klog_scheme option" where
  "recover_from_log h s = do {
     s \<leftarrow> read_head h s;
     s \<leftarrow> install_trans h True s;
     let s = s\<lparr>lh_n := 0\<rparr>;
     write_head h s }"

definition initlog :: "nat \<Rightarrow> cint \<Rightarrow> superblock \<Rightarrow> 'a klog_scheme \<Rightarrow> 'a klog_scheme option" where
  "initlog h dev sb s =
     (if 4 + 4 * LOGSIZE \<ge> BSIZE then None
      else let s = initlock log_lock ''log'' s;
               s = s\<lparr>l_start := sb_logstart sb, l_size := sb_nlog sb, l_dev := dev\<rparr>
           in recover_from_log h s)"

text \<open>The loop of \<open>begin_op\<close>, entered with the log's lock held, and where it goes on after a sleep.\<close>

definition begin_op_loop :: "nat \<Rightarrow> 'a klog_scheme \<Rightarrow> (unit, 'a klog_scheme) outcome option" where
  "begin_op_loop h s =
     (if l_committing s \<noteq> 0 then map_option Blocks (sleep_enter h (Some chan_log) log_lock s)
      else if sint (lh_n s + (l_outstanding s + 1) * of_nat MAXOPBLOCKS) > int LOGSIZE
        then map_option Blocks (sleep_enter h (Some chan_log) log_lock s)
      else map_option (Returns ()) (release h log_lock (s\<lparr>l_outstanding := l_outstanding s + 1\<rparr>)))"

definition begin_op :: "nat \<Rightarrow> 'a klog_scheme \<Rightarrow> (unit, 'a klog_scheme) outcome option" where
  "begin_op h s = do { s \<leftarrow> acquire h log_lock s; begin_op_loop h s }"

definition begin_op_resume :: "nat \<Rightarrow> nat \<Rightarrow> 'a klog_scheme \<Rightarrow> (unit, 'a klog_scheme) outcome option" where
  "begin_op_resume h p s = do { s \<leftarrow> sleep_exit h p log_lock s; begin_op_loop h s }"

definition write_log_one :: "nat \<Rightarrow> nat \<Rightarrow> 'a klog_scheme \<Rightarrow> 'a klog_scheme option" where
  "write_log_one h tail s = do {
     let dev = l_dev s;
     let lno = l_start s + of_nat tail + 1;
     dno \<leftarrow> logged_no tail s;
     (to, s) \<leftarrow> bread h dev lno s;
     (from, s) \<leftarrow> bread h dev dno s;
     let s = put_data to (b_data (bufs s from)) s;
     s \<leftarrow> bwrite h to s;
     s \<leftarrow> brelse h from s;
     brelse h to s }"

definition write_log :: "nat \<Rightarrow> 'a klog_scheme \<Rightarrow> 'a klog_scheme option" where
  "write_log h s = forM (write_log_one h) [0..<nat (sint (lh_n s))] s"

definition commit :: "nat \<Rightarrow> 'a klog_scheme \<Rightarrow> 'a klog_scheme option" where
  "commit h s =
     (if sint (lh_n s) > 0 then do {
        s \<leftarrow> write_log h s;
        s \<leftarrow> write_head h s;
        s \<leftarrow> install_trans h False s;
        let s = s\<lparr>lh_n := 0\<rparr>;
        write_head h s }
      else Some s)"

definition end_op :: "nat \<Rightarrow> 'a klog_scheme \<Rightarrow> 'a klog_scheme option" where
  "end_op h s = do {
     s \<leftarrow> acquire h log_lock s;
     let s = s\<lparr>l_outstanding := l_outstanding s - 1\<rparr>;
     if l_committing s \<noteq> 0 then None
     else do {
       let do_commit = (l_outstanding s = 0);
       s \<leftarrow> (if do_commit then Some (s\<lparr>l_committing := 1\<rparr>) else wakeup h (Some chan_log) s);
       s \<leftarrow> release h log_lock s;
       if do_commit then do {
         s \<leftarrow> commit h s;
         s \<leftarrow> acquire h log_lock s;
         let s = s\<lparr>l_committing := 0\<rparr>;
         s \<leftarrow> wakeup h (Some chan_log) s;
         release h log_lock s }
       else Some s } }"

definition log_write :: "nat \<Rightarrow> nat \<Rightarrow> 'a klog_scheme \<Rightarrow> 'a klog_scheme option" where
  "log_write h b s = do {
     s \<leftarrow> acquire h log_lock s;
     if sint (lh_n s) \<ge> int LOGSIZE \<or> sint (lh_n s) \<ge> sint (l_size s - 1) then None
     else if sint (l_outstanding s) < 1 then None
     else do {
       let n = nat (sint (lh_n s));
       let i = (case List.find (\<lambda>i. lh_block s i = b_blockno (bufs s b)) [0..<n] of Some i \<Rightarrow> i | None \<Rightarrow> n);
       let s = s\<lparr>lh_block := (lh_block s)(i := b_blockno (bufs s b))\<rparr>;
       s \<leftarrow> (if i = n then map_option (\<lambda>s. s\<lparr>lh_n := lh_n s + 1\<rparr>) (bpin h b s) else Some s);
       release h log_lock s } }"

subsection \<open>The log on the disk\<close>

text \<open>
  The log area is the \<open>sz\<close> blocks from \<open>st\<close>; \<open>log_no st i\<close> is the log's copy number \<open>i\<close>. \<open>log_head\<close>: the header lists
  the blocks \<open>bs\<close>. \<open>will_be st sz E X\<close>: a machine that starts with disk \<open>E\<close> recovers the contents \<open>X\<close>, because every
  block on the list has its contents in the log and every other block already has them.
\<close>

definition log_no :: "uint \<Rightarrow> nat \<Rightarrow> uint" where
  "log_no st i = st + of_nat i + 1"

definition in_log :: "uint \<Rightarrow> nat \<Rightarrow> uint \<Rightarrow> bool" where
  "in_log st sz n \<longleftrightarrow> unat st \<le> unat n \<and> unat n < unat st + sz"

definition log_fits :: "uint \<Rightarrow> nat \<Rightarrow> bool" where
  "log_fits st sz \<longleftrightarrow> unat st + sz \<le> 2 ^ 31 \<and> 0 < sz"

definition log_list :: "uint \<Rightarrow> nat \<Rightarrow> uint list \<Rightarrow> bool" where
  "log_list st sz bs \<longleftrightarrow> log_fits st sz \<and> length bs \<le> LOGSIZE \<and> length bs < sz \<and> distinct bs \<and> (\<forall>b\<in>set bs. \<not> in_log st sz b)"

definition log_head :: "uint list \<Rightarrow> block \<Rightarrow> bool" where
  "log_head bs d \<longleftrightarrow> ld32 0 d = of_nat (length bs) \<and> (\<forall>i<length bs. ld32 (4 + 4 * i) d = bs ! i)"

definition will_be :: "uint \<Rightarrow> nat \<Rightarrow> uint list \<Rightarrow> (uint \<Rightarrow> block) \<Rightarrow> (uint \<Rightarrow> block) \<Rightarrow> bool" where
  "will_be st sz bs E X \<longleftrightarrow> log_list st sz bs \<and> log_head bs (E st) \<and> (\<forall>i<length bs. E (log_no st i) = X (bs ! i))
     \<and> (\<forall>m. \<not> in_log st sz m \<longrightarrow> m \<notin> set bs \<longrightarrow> E m = X m)"

definition apply_writes :: "(uint \<times> block) list \<Rightarrow> (uint \<Rightarrow> block) \<Rightarrow> uint \<Rightarrow> block" where
  "apply_writes ws D = fold (\<lambda>(n, d) D. D(n := d)) ws D"

lemma apply_writes_Nil [simp]: "apply_writes [] D = D"
  and apply_writes_append: "apply_writes (us @ ws) D = apply_writes ws (apply_writes us D)"
  and apply_writes_one [simp]: "apply_writes [(n, d)] D = D(n := d)"
  by (simp_all add: apply_writes_def)

lemma log_no_unat:
  assumes "log_fits st sz" and "Suc i < sz"
  shows "unat (log_no st i) = unat st + i + 1"
proof -
  have "unat st + i + 1 < 2 ^ 32" using assms by (simp add: log_fits_def)
  then have "(unat st + i + 1) mod 2 ^ LENGTH(32) = unat st + i + 1" by (intro mod_less) simp
  moreover have "log_no st i = of_nat (unat st + i + 1)" by (simp add: log_no_def)
  ultimately show ?thesis by (simp only: unat_of_nat)
qed

lemma log_no_facts:
  assumes "log_fits st sz"
  shows "Suc i < sz \<Longrightarrow> in_log st sz (log_no st i)" and "Suc i < sz \<Longrightarrow> log_no st i \<noteq> st" and "in_log st sz st"
    and "Suc i < sz \<Longrightarrow> Suc j < sz \<Longrightarrow> log_no st i = log_no st j \<longleftrightarrow> i = j"
proof -
  show "in_log st sz st" using assms by (simp add: in_log_def log_fits_def)
  show "in_log st sz (log_no st i)" if "Suc i < sz" using log_no_unat [OF assms that] that by (simp add: in_log_def)
  show "log_no st i \<noteq> st" if "Suc i < sz" using log_no_unat [OF assms that] by force
  show "log_no st i = log_no st j \<longleftrightarrow> i = j" if "Suc i < sz" "Suc j < sz"
  proof
    assume "log_no st i = log_no st j"
    then have "unat st + i + 1 = unat st + j + 1" using log_no_unat [OF assms that(1)] log_no_unat [OF assms that(2)] by argo
    then show "i = j" by simp
  qed simp
qed

lemma log_listD:
  assumes "log_list st sz bs"
  shows "log_fits st sz" and "length bs \<le> LOGSIZE" and "\<And>i. i < length bs \<Longrightarrow> Suc i < sz" and "distinct bs"
    and "\<And>b. b \<in> set bs \<Longrightarrow> \<not> in_log st sz b" and "\<And>i. i < length bs \<Longrightarrow> log_no st i \<notin> set bs" and "st \<notin> set bs"
    and "\<And>i. i < length bs \<Longrightarrow> log_no st i \<noteq> st"
proof -
  show f: "log_fits st sz" "length bs \<le> LOGSIZE" "distinct bs" using assms by (simp_all add: log_list_def)
  show s: "Suc i < sz" if "i < length bs" for i using assms that by (simp add: log_list_def)
  show n: "\<not> in_log st sz b" if "b \<in> set bs" for b using assms that by (simp add: log_list_def)
  show "log_no st i \<notin> set bs" if "i < length bs" for i using log_no_facts(1) [OF f(1) s [OF that]] n by blast
  show "st \<notin> set bs" using log_no_facts(3) [OF f(1)] n by blast
  show "log_no st i \<noteq> st" if "i < length bs" for i using log_no_facts(2) [OF f(1) s [OF that]] .
qed

lemma sint_small: "n \<le> LOGSIZE \<Longrightarrow> sint (of_nat n :: cint) = int n"
proof -
  assume "n \<le> LOGSIZE"
  then have "n < 2 ^ 31" by (simp add: LOGSIZE_def MAXOPBLOCKS_def)
  then show ?thesis by (simp add: signed_of_nat signed_take_bit_int_eq_self)
qed

lemma log_fits_size: "log_fits st sz \<Longrightarrow> sint (of_nat sz - 1 :: cint) = int sz - 1"
proof -
  assume "log_fits st sz"
  then have sz: "0 < sz" "sz \<le> 2 ^ 31" by (auto simp: log_fits_def)
  then have a: "of_nat sz - 1 = (of_nat (sz - 1) :: cint)" by (simp add: of_nat_diff)
  have "int (sz - 1) < 2 ^ 31" using sz by simp
  then have "sint (of_nat (sz - 1) :: cint) = int (sz - 1)"
    by (simp add: signed_of_nat signed_take_bit_int_eq_self del: of_nat_diff)
  then show ?thesis unfolding a using sz by simp
qed

lemma log_head_Nil [simp]: "log_head [] d \<longleftrightarrow> ld32 0 d = 0"
  by (simp add: log_head_def)

lemma will_be_clean: "will_be st sz [] E X \<longleftrightarrow> log_fits st sz \<and> ld32 0 (E st) = 0 \<and> (\<forall>m. \<not> in_log st sz m \<longrightarrow> E m = X m)"
  by (auto simp: will_be_def log_list_def log_fits_def)

text \<open>The log's copies, then the header, then the blocks themselves: what a write in each phase does to the future.\<close>

lemma will_be_copy:
  assumes "will_be st sz [] E X" and "Suc i < sz"
  shows "will_be st sz [] (E(log_no st i := d)) X"
  using assms log_no_facts(1,2) [of st sz i] unfolding will_be_clean by auto

lemma will_be_commit:
  assumes "will_be st sz [] E X" and "log_list st sz bs" and "log_head bs d"
    and "\<And>i. i < length bs \<Longrightarrow> E (log_no st i) = V (bs ! i)" and "\<And>m. m \<notin> set bs \<Longrightarrow> \<not> in_log st sz m \<Longrightarrow> V m = X m"
  shows "will_be st sz bs (E(st := d)) V"
  using assms log_listD [OF assms(2)] log_no_facts(3) unfolding will_be_def by auto

lemma will_be_install:
  assumes "will_be st sz bs E X" and "i < length bs"
  shows "will_be st sz bs (E(bs ! i := X (bs ! i))) X"
proof -
  have l: "log_list st sz bs" using assms(1) by (simp add: will_be_def)
  have "bs ! i \<noteq> st" "\<And>j. j < length bs \<Longrightarrow> log_no st j \<noteq> bs ! i" using log_listD(6,7) [OF l] assms(2) nth_mem by metis+
  then show ?thesis using assms unfolding will_be_def by auto
qed

lemma will_be_clear:
  assumes "will_be st sz bs E X" and "\<And>b. b \<in> set bs \<Longrightarrow> E b = X b" and "ld32 0 d = 0"
  shows "will_be st sz [] (E(st := d)) X"
proof -
  have l: "log_list st sz bs" using assms(1) by (simp add: will_be_def)
  show ?thesis using assms log_listD(1) [OF l] log_no_facts(3) [OF log_listD(1) [OF l]] unfolding will_be_clean
    by (auto simp: will_be_def)
qed

subsection \<open>Lemmas: the calls of the log\<close>

lemma only_cache_log:
  fixes s :: "'a klog_scheme"
  assumes "only_cache pr s s'"
  shows "l_start s' = l_start s" "l_size s' = l_size s" "l_outstanding s' = l_outstanding s" "l_committing s' = l_committing s"
    "l_dev s' = l_dev s" "lh_n s' = lh_n s" "lh_block s' = lh_block s" "cpus s' = cpus s" "sie s' = sie s" "lks s' = lks s"
proof -
  have "s' = s\<lparr>slks := slks s', procs := procs s', bufs := bufs s', disk := disk s', dwrites := dwrites s'\<rparr>"
    using assms unfolding only_cache_def by (rule conjunct1)
  then obtain a b c d e where "s' = s\<lparr>slks := a, procs := b, bufs := c, disk := d, dwrites := e\<rparr>" by blast
  then show "l_start s' = l_start s" "l_size s' = l_size s" "l_outstanding s' = l_outstanding s" "l_committing s' = l_committing s"
    "l_dev s' = l_dev s" "lh_n s' = lh_n s" "lh_block s' = lh_block s" "cpus s' = cpus s" "sie s' = sie s" "lks s' = lks s"
    by simp_all
qed

lemma cached_log:
  fixes s :: "'a klog_scheme"
  assumes "cached h pr s0 V H R D W s"
  shows "l_start s = l_start s0" "l_dev s = l_dev s0" "lh_n s = lh_n s0" "lh_block s = lh_block s0"
  using only_cache_log [of pr s0 s] assms by (auto simp: cached_def)

lemma cache_cong:
  fixes s s' :: "'a kbio_scheme"
  assumes "bufs s' = bufs s" "slks s' = slks s" "disk s' = disk s" "cpus s' = cpus s" "sie s' = sie s" "lks s' = lks s" "procs s' = procs s"
  shows "cache h pr V H R s' = cache h pr V H R s"
  using assms in_call_cong [of s' s h pr] by (simp add: cache_def buffers_def lru_def)

text \<open>One step of each loop, with the thread holding no buffer.\<close>

lemma write_log_one_ok:
  assumes c: "cached h pr s0 V Map.empty R D W s" and f: "l_dev s0 = ROOTDEV" "tail < LOGSIZE"
    and xy: "x = log_no (l_start s0) tail" "y = lh_block s0 tail" "x \<noteq> y"
    and R: "R x = 0" "R y > 0" "R y + 1 < 2 ^ 32" "card {n. R n > 0} < NBUF"
  shows "\<exists>s'. write_log_one h tail s = Some s' \<and> cached h pr s0 (V(x := V y)) Map.empty R (D(x := V y)) (W @ [(x, V y)]) s'"
  using bc.copy_back [OF c xy(3)] cached_log [OF c] f R xy(1,2)
  by (simp add: write_log_one_def logged_no_def log_no_def)

lemma install_one_ok:
  assumes c: "cached h pr s0 V Map.empty R D W s" and f: "l_dev s0 = ROOTDEV" "tail < LOGSIZE"
    and xy: "x = log_no (l_start s0) tail" "y = lh_block s0 tail" "x \<noteq> y"
    and R: "R x = 0" "D x = V x" "R y + 1 < 2 ^ 32" "card {n. R n > 0} + 2 \<le> NBUF \<or> (R y > 0 \<and> card {n. R n > 0} < NBUF)"
    and u: "\<not> recovering \<Longrightarrow> R y > 0"
  shows "\<exists>s'. install_one h recovering tail s = Some s'
    \<and> cached h pr s0 (V(y := V x)) Map.empty (if recovering then R else R(y := R y - 1)) (D(y := V x)) (W @ [(y, V x)]) s'"
proof -
  have "card {n. R n > 0} + (if R x = 0 then 1 else 0) + (if R y = 0 then 1 else 0) \<le> NBUF" using R by auto
  from bc.copy_forward [OF c xy(3) _ _ _ _ this, of "\<not> recovering"] show ?thesis
    using cached_log [OF c] f R u xy(1,2) by (cases recovering) (simp_all add: install_one_def logged_no_def log_no_def)
qed

lemma put_head:
  assumes "length bs \<le> LOGSIZE" and "\<And>i. i < length bs \<Longrightarrow> lh_block s i = bs ! i" and "lh_n s = of_nat (length bs)"
  shows "\<exists>d'. forM (\<lambda>i hb. map_option (\<lambda>v. st32 (4 + 4 * i) v hb) (logged_no i s)) [0..<length bs] (st32 0 (lh_n s) d) = Some d' \<and> log_head bs d'"
proof -
  let ?g = "\<lambda>i hb. st32 (4 + 4 * i) (bs ! i) hb"
  have "forM (\<lambda>i hb. map_option (\<lambda>v. st32 (4 + 4 * i) v hb) (logged_no i s)) [0..<length bs] (st32 0 (lh_n s) d)
      = Some (fold ?g [0..<length bs] (st32 0 (lh_n s) d))"
    by (rule forM_fold [where I = "\<lambda>_. True"]) (use assms in \<open>auto simp: logged_no_def\<close>)
  moreover have g: "ld32 0 (fold ?g [0..<k] d') = ld32 0 d' \<and> (\<forall>i<k. ld32 (4 + 4 * i) (fold ?g [0..<k] d') = bs ! i)" for k d'
  proof (induction k)
    case (Suc k)
    then show ?case by (auto simp: less_Suc_eq ld32_other)
  qed simp
  have "log_head bs (fold ?g [0..<length bs] (st32 0 (lh_n s) d))"
    using g [of "length bs" "st32 0 (lh_n s) d"] assms(3) by (simp add: log_head_def)
  ultimately show ?thesis by blast
qed

lemma write_head_ok:
  assumes c: "cached h pr s0 V Map.empty R D W s" and f: "l_dev s0 = ROOTDEV" "R (l_start s0) = 0" "card {n. R n > 0} < NBUF"
    and bs: "length bs \<le> LOGSIZE" "\<And>i. i < length bs \<Longrightarrow> lh_block s0 i = bs ! i" "lh_n s0 = of_nat (length bs)"
  shows "\<exists>s' d. write_head h s = Some s' \<and> log_head bs d
    \<and> cached h pr s0 (V(l_start s0 := d)) Map.empty R (D(l_start s0 := d)) (W @ [(l_start s0, d)]) s'"
proof -
  let ?st = "l_start s0"
  obtain b s1 where b: "bread h ROOTDEV ?st s = Some (b, s1)"
    and i: "cached h pr s0 V [?st \<mapsto> b] (R(?st := 1)) D W s1" using bc.read_ok [OF c, of ?st] f by auto
  note g = cached_log [OF c] and g1 = cached_log [OF i]
  obtain d where d: "forM (\<lambda>i hb. map_option (\<lambda>v. st32 (4 + 4 * i) v hb) (logged_no i s1)) [0..<length bs]
      (st32 0 (lh_n s1) (b_data (bufs s1 b))) = Some d" "log_head bs d"
    using put_head [of bs s1 "b_data (bufs s1 b)"] bs g1 by auto
  have "cached h pr s0 (V(?st := d)) [?st \<mapsto> b] (R(?st := 1)) D W (put_data b d s1)" using bc.put_ok [OF i, of ?st b d] by simp
  from bc.flush_ok [OF this, of ?st b] obtain s2 where s2: "bwrite h b (put_data b d s1) = Some s2"
    "cached h pr s0 (V(?st := d)) [?st \<mapsto> b] (R(?st := 1)) (D(?st := d)) (W @ [(?st, d)]) s2" by auto
  from bc.rel_ok [OF s2(2), of ?st b] obtain s3 where s3: "brelse h b s2 = Some s3"
    "cached h pr s0 (V(?st := d)) ([?st \<mapsto> b](?st := None)) ((R(?st := 1))(?st := 0)) (D(?st := d)) (W @ [(?st, d)]) s3" by auto
  have "[?st \<mapsto> b](?st := None) = Map.empty" "(R(?st := 1))(?st := 0) = R" using f(2) by (auto simp: fun_eq_iff)
  with s3(2) have "cached h pr s0 (V(?st := d)) Map.empty R (D(?st := d)) (W @ [(?st, d)]) s3" by simp
  moreover have "write_head h s = Some s3"
    unfolding write_head_def using b d(1) s2(1) s3(1) g g1 f(1) bs(1,3) by (simp add: sint_small)
  ultimately show ?thesis using d(2) by blast
qed

lemma forM_append: "forM f (xs @ ys) s = Option.bind (forM f xs s) (forM f ys)"
  by (induction xs arbitrary: s) (auto split: bind_splits)

text \<open>\<open>P\<close> holds of the disk after any number of the writes \<open>ws\<close>.\<close>

definition throughout :: "((uint \<Rightarrow> block) \<Rightarrow> bool) \<Rightarrow> (uint \<times> block) list \<Rightarrow> (uint \<Rightarrow> block) \<Rightarrow> bool" where
  "throughout P ws D \<longleftrightarrow> (\<forall>j. P (apply_writes (take j ws) D))"

lemma throughout_Nil: "throughout P [] D = P D"
  by (simp add: throughout_def)

lemma throughout_append: "throughout P (us @ ws) D \<longleftrightarrow> throughout P us D \<and> throughout P ws (apply_writes us D)"
proof (intro iffI conjI)
  assume a: "throughout P (us @ ws) D"
  show "throughout P us D" unfolding throughout_def
  proof
    fix j
    show "P (apply_writes (take j us) D)"
      using spec [OF a [unfolded throughout_def], of "min j (length us)"] by (simp add: min_def split: if_splits)
  qed
  show "throughout P ws (apply_writes us D)" unfolding throughout_def
    using spec [OF a [unfolded throughout_def], of "length us + _"] by (simp add: apply_writes_append)
next
  assume a: "throughout P us D \<and> throughout P ws (apply_writes us D)"
  show "throughout P (us @ ws) D" unfolding throughout_def
  proof
    fix j
    show "P (apply_writes (take j (us @ ws)) D)"
      using a by (cases "j \<le> length us") (simp_all add: throughout_def apply_writes_append)
  qed
qed

lemma throughout_one: "throughout P [(n, d)] D \<longleftrightarrow> P D \<and> P (D(n := d))"
proof
  assume "throughout P [(n, d)] D"
  then have "P (apply_writes (take j [(n, d)]) D)" for j by (simp add: throughout_def)
  from this [of 0] this [of 1] show "P D \<and> P (D(n := d))" by simp
next
  assume "P D \<and> P (D(n := d))"
  then show "throughout P [(n, d)] D" by (auto simp: throughout_def take_Cons' )
qed

lemma throughout_mono: "throughout P ws D \<Longrightarrow> (\<And>E. P E \<Longrightarrow> Q E) \<Longrightarrow> throughout Q ws D"
  by (simp add: throughout_def)

lemma throughout_last: "throughout P ws D \<Longrightarrow> P (apply_writes ws D)"
  unfolding throughout_def by (metis order_refl take_all)

text \<open>A transaction with the blocks \<open>bs\<close>, ready to be committed: their new contents \<open>V\<close> are in the cache.\<close>

definition txn :: "nat \<Rightarrow> nat \<Rightarrow> uint \<Rightarrow> nat \<Rightarrow> uint list \<Rightarrow> (uint \<Rightarrow> block) \<Rightarrow> (uint \<rightharpoonup> nat) \<Rightarrow> (uint \<Rightarrow> nat) \<Rightarrow> 'a klog_scheme \<Rightarrow> bool" where
  "txn h pr st sz bs V H R s \<longleftrightarrow> cache h pr V H R s \<and> l_dev s = ROOTDEV \<and> l_start s = st \<and> log_list st sz bs
     \<and> lh_n s = of_nat (length bs) \<and> (\<forall>i<length bs. lh_block s i = bs ! i) \<and> (\<forall>b\<in>set bs. R b > 0) \<and> (\<forall>n. R n + 1 < 2 ^ 32)
     \<and> (\<forall>n. in_log st sz n \<longrightarrow> R n = 0) \<and> card {n. R n > 0} < NBUF \<and> ld32 0 (disk s st) = 0"

lemma txnD:
  assumes "txn h pr st sz bs V H R s"
  shows "cache h pr V H R s" "l_dev s = ROOTDEV" "l_start s = st" "log_list st sz bs" "lh_n s = of_nat (length bs)"
    "\<And>i. i < length bs \<Longrightarrow> lh_block s i = bs ! i" "\<And>b. b \<in> set bs \<Longrightarrow> R b > 0" "\<And>n. R n + 1 < 2 ^ 32"
    "\<And>n. in_log st sz n \<Longrightarrow> R n = 0" "card {n. R n > 0} < NBUF" "ld32 0 (disk s st) = 0"
  using assms unfolding txn_def by blast+

lemma write_log_loop:
  assumes t: "txn h pr st sz bs V Map.empty R s" and k: "k \<le> length bs"
  shows "\<exists>s' V' ws. forM (write_log_one h) [0..<k] s = Some s'
    \<and> cached h pr s V' Map.empty R (apply_writes ws (disk s)) (dwrites s @ ws) s'
    \<and> (\<forall>n. \<not> in_log st sz n \<longrightarrow> V' n = V n) \<and> (\<forall>i<k. apply_writes ws (disk s) (log_no st i) = V (bs ! i) \<and> V' (log_no st i) = V (bs ! i))
    \<and> V' st = disk s st \<and> throughout (\<lambda>E. will_be st sz [] E (disk s)) ws (disk s)"
  using k
proof (induction k)
  case 0
  note D = txnD [OF t]
  have "will_be st sz [] (disk s) (disk s)" using D(11) log_listD(1) [OF D(4)] by (simp add: will_be_clean)
  moreover have "V st = disk s st" using cacheD(10) [OF D(1)] D(9) log_no_facts(3) [OF log_listD(1) [OF D(4)]] by simp
  ultimately show ?case using cachedI [OF D(1)]
    by (intro exI [of _ s] exI [of _ V] exI [of _ "[]"]) (simp add: throughout_Nil)
next
  case (Suc k)
  note D = txnD [OF t] and L = log_listD [OF txnD(4) [OF t]]
  let ?x = "log_no st k" and ?y = "bs ! k"
  obtain s' V' ws where s': "forM (write_log_one h) [0..<k] s = Some s'"
    and c: "cached h pr s V' Map.empty R (apply_writes ws (disk s)) (dwrites s @ ws) s'"
    and V': "\<And>n. \<not> in_log st sz n \<Longrightarrow> V' n = V n"
    and lg: "\<And>i. i < k \<Longrightarrow> apply_writes ws (disk s) (log_no st i) = V (bs ! i) \<and> V' (log_no st i) = V (bs ! i)"
    and st: "V' st = disk s st" and w: "throughout (\<lambda>E. will_be st sz [] E (disk s)) ws (disk s)" using Suc by auto
  have k: "k < length bs" using Suc.prems by simp
  have y: "?y \<in> set bs" "\<not> in_log st sz ?y" "V' ?y = V ?y" using k L(5) V' by auto
  have x: "in_log st sz ?x" "?x \<noteq> st" "Suc k < sz" using log_no_facts(1,2) [OF L(1) L(3) [OF k]] L(3) [OF k] by auto
  then have xy: "?x \<noteq> ?y" using y(2) by auto
  obtain s'' where s'': "write_log_one h k s' = Some s''"
    and c'': "cached h pr s (V'(?x := V ?y)) Map.empty R ((apply_writes ws (disk s))(?x := V ?y)) (dwrites s @ ws @ [(?x, V ?y)]) s''"
    using write_log_one_ok [OF c D(2), of k ?x ?y] D L(2) k x y xy by auto
  let ?ws = "ws @ [(?x, V ?y)]"
  have "apply_writes ?ws (disk s) (log_no st i) = V (bs ! i) \<and> (V'(?x := V ?y)) (log_no st i) = V (bs ! i)" if "i < Suc k" for i
  proof (cases "i = k")
    case False
    then have "log_no st i \<noteq> ?x" using log_no_facts(4) [OF L(1) L(3) L(3) [OF k]] that k by simp
    then show ?thesis using lg [of i] that False by (simp add: apply_writes_append)
  qed (simp add: apply_writes_append)
  moreover have "throughout (\<lambda>E. will_be st sz [] E (disk s)) ?ws (disk s)"
    using w throughout_last [OF w] will_be_copy [OF throughout_last [OF w] x(3)] by (simp add: throughout_append throughout_one)
  moreover have "forM (write_log_one h) [0..<Suc k] s = Some s''" using s' s'' by (simp add: forM_append)
  moreover have "(V'(?x := V ?y)) n = V n" if "\<not> in_log st sz n" for n using that V' x(1) by auto
  moreover have "(V'(?x := V ?y)) st = disk s st" using st x(2) by simp
  moreover have "cached h pr s (V'(?x := V ?y)) Map.empty R (apply_writes ?ws (disk s)) (dwrites s @ ?ws) s''"
    using c'' by (simp add: apply_writes_append del: fun_upd_apply)
  ultimately show ?case by blast
qed

lemma install_loop:
  fixes s :: "'a klog_scheme"
  assumes c: "cached h pr s0 V Map.empty R D W s" and f: "l_dev s0 = ROOTDEV" "l_start s0 = st" "\<And>i. i < length bs \<Longrightarrow> lh_block s0 i = bs ! i"
    and w: "will_be st sz bs D X" and V: "\<And>i. i < length bs \<Longrightarrow> V (log_no st i) = X (bs ! i)"
    and R: "\<And>n. in_log st sz n \<Longrightarrow> R n = 0" "\<And>n. R n + 1 < 2 ^ 32" "\<not> recovering \<Longrightarrow> (\<forall>b\<in>set bs. R b > 0) \<and> card {n. R n > 0} < NBUF"
      "recovering \<Longrightarrow> card {n. R n > 0} + 2 \<le> NBUF"
    and k: "k \<le> length bs"
  shows "\<exists>s' ws. forM (install_one h recovering) [0..<k] s = Some s'
    \<and> cached h pr s0 (\<lambda>n. if n \<in> set (take k bs) then X n else V n) Map.empty
        (\<lambda>n. if \<not> recovering \<and> n \<in> set (take k bs) then R n - 1 else R n) (apply_writes ws D) (W @ ws) s'
    \<and> (\<forall>i<k. apply_writes ws D (bs ! i) = X (bs ! i)) \<and> throughout (\<lambda>E. will_be st sz bs E X) ws D"
  using k
proof (induction k)
  case 0
  then show ?case using c w by (intro exI [of _ s] exI [of _ "[]"]) (simp add: throughout_Nil)
next
  case (Suc k)
  let ?V = "\<lambda>k n. if n \<in> set (take k bs) then X n else V n" and ?R = "\<lambda>k n. if \<not> recovering \<and> n \<in> set (take k bs) then R n - 1 else R n"
  let ?x = "log_no st k" and ?y = "bs ! k"
  have l: "log_list st sz bs" using w by (simp add: will_be_def)
  note L = log_listD [OF l]
  obtain s' ws where s': "forM (install_one h recovering) [0..<k] s = Some s'"
    and c': "cached h pr s0 (?V k) Map.empty (?R k) (apply_writes ws D) (W @ ws) s'"
    and d': "\<And>i. i < k \<Longrightarrow> apply_writes ws D (bs ! i) = X (bs ! i)" and w': "throughout (\<lambda>E. will_be st sz bs E X) ws D" using Suc by auto
  have k: "k < length bs" using Suc.prems by simp
  have "bs ! k \<notin> set (take k bs)" using L(4) k distinct_take [of bs "Suc k"] by (simp add: take_Suc_conv_app_nth)
  then have y: "?y \<in> set bs" "\<not> in_log st sz ?y" "?y \<notin> set (take k bs)" using k L(5) by auto
  have x: "in_log st sz ?x" "?x \<noteq> ?y" "?x \<notin> set (take k bs)" using log_no_facts(1) [OF L(1) L(3) [OF k]] L(6) [OF k] y(1) by (auto dest: in_set_takeD)
  have Dx: "apply_writes ws D ?x = X ?y" using throughout_last [OF w'] k by (simp add: will_be_def)
  have Rx: "?R k ?x = 0" "?R k ?y = R ?y" using R(1) x y(3) by simp_all
  have room: "card {n. ?R k n > 0} \<le> card {n. R n > 0}" by (rule card_mono) auto
  have Vx: "?V k ?x = X ?y" using x(3) V [OF k] by simp
  have "card {n. ?R k n > 0} + 2 \<le> NBUF \<or> (?R k ?y > 0 \<and> card {n. ?R k n > 0} < NBUF)"
  proof (cases recovering)
    case True
    then show ?thesis using room R(4) by linarith
  next
    case False
    then show ?thesis unfolding Rx(2) using room R(3) y(1) by force
  qed
  from install_one_ok [OF c' f(1) _ _ _ x(2) Rx(1) _ _ this, of k recovering]
  obtain s'' where s'': "install_one h recovering k s' = Some s''"
    and "cached h pr s0 ((?V k)(?y := X ?y)) Map.empty (if recovering then ?R k else (?R k)(?y := R ?y - 1))
      ((apply_writes ws D)(?y := X ?y)) ((W @ ws) @ [(?y, X ?y)]) s''"
    unfolding Rx(2) Dx Vx using f(2,3) k L(2) R(2) [of ?y] R(3) y(1) by fastforce
  then have c'': "cached h pr s0 ((?V k)(?y := X ?y)) Map.empty (if recovering then ?R k else (?R k)(?y := R ?y - 1))
      (apply_writes (ws @ [(?y, X ?y)]) D) (W @ ws @ [(?y, X ?y)]) s''" by (simp add: apply_writes_append del: fun_upd_apply)
  have t: "set (take (Suc k) bs) = insert ?y (set (take k bs))" using k by (simp add: take_Suc_conv_app_nth)
  have eq: "(?V k)(?y := X ?y) = ?V (Suc k)" "(if recovering then ?R k else (?R k)(?y := R ?y - 1)) = ?R (Suc k)"
    unfolding t by (auto simp: fun_eq_iff)
  let ?ws = "ws @ [(?y, X ?y)]"
  have "apply_writes ?ws D (bs ! i) = X (bs ! i)" if "i < Suc k" for i using d' that by (auto simp: apply_writes_append less_Suc_eq)
  moreover have "throughout (\<lambda>E. will_be st sz bs E X) ?ws D"
    using w' throughout_last [OF w'] will_be_install [OF throughout_last [OF w'] k] by (simp add: throughout_append throughout_one)
  moreover have "forM (install_one h recovering) [0..<Suc k] s = Some s''" using s' s'' by (simp add: forM_append)
  ultimately show ?case using c'' unfolding eq by blast
qed

lemma only_cache_lh_n:
  fixes s :: "'a klog_scheme"
  assumes "only_cache pr s s'"
  shows "only_cache pr (s\<lparr>lh_n := k\<rparr>) (s'\<lparr>lh_n := k\<rparr>)"
proof -
  have "s' = s\<lparr>slks := slks s', procs := procs s', bufs := bufs s', disk := disk s', dwrites := dwrites s'\<rparr>"
    using assms unfolding only_cache_def by (rule conjunct1)
  then obtain a b c d e where s': "s' = s\<lparr>slks := a, procs := b, bufs := c, disk := d, dwrites := e\<rparr>" by blast
  then show ?thesis using assms unfolding only_cache_def s' by simp
qed

lemma clear_head:
  fixes s :: "'a klog_scheme"
  assumes c: "cached h pr s0 V Map.empty R D W s" and f: "l_dev s0 = ROOTDEV" "l_start s0 = st" "R st = 0" "card {n. R n > 0} < NBUF"
  shows "\<exists>s' d. write_head h (s\<lparr>lh_n := 0\<rparr>) = Some s' \<and> ld32 0 d = 0 \<and> cache h pr (V(st := d)) Map.empty R s'
    \<and> disk s' = D(st := d) \<and> dwrites s' = W @ [(st, d)] \<and> only_cache pr (s\<lparr>lh_n := 0\<rparr>) s'"
proof -
  let ?s = "s\<lparr>lh_n := 0\<rparr>"
  have "cache h pr V Map.empty R ?s" using c cache_cong [of ?s s h pr V Map.empty R] by (simp add: cached_def)
  then have c': "cached h pr ?s V Map.empty R D W ?s" using c cachedI [of h pr V Map.empty R ?s] by (simp add: cached_def)
  have "l_dev ?s = ROOTDEV" "l_start ?s = st" using cached_log [OF c] f by simp_all
  from write_head_ok [OF c', of "[]"] this f(3,4) show ?thesis by (fastforce simp: cached_def)
qed

lemma commit_ok:
  fixes s :: "'a klog_scheme"
  assumes t: "txn h pr st sz bs V Map.empty R s" and clean: "\<And>n. n \<notin> set bs \<Longrightarrow> V n = disk s n"
  shows "\<exists>s' V' ws. commit h s = Some s' \<and> dwrites s' = dwrites s @ ws \<and> disk s' = apply_writes ws (disk s)
    \<and> throughout (\<lambda>E. \<exists>cs. will_be st sz cs E (disk s) \<or> will_be st sz cs E V) ws (disk s)
    \<and> will_be st sz [] (disk s') V \<and> (\<forall>n. \<not> in_log st sz n \<longrightarrow> V' n = V n)
    \<and> cache h pr V' Map.empty (\<lambda>n. if n \<in> set bs then R n - 1 else R n) s' \<and> only_cache pr (s\<lparr>lh_n := 0\<rparr>) s'"
proof (cases "bs = []")
  case True
  note D = txnD [OF t]
  have e: "will_be st sz [] (disk s) (disk s)" using D(11) log_listD(1) [OF D(4)] by (simp add: will_be_clean)
  have "s\<lparr>lh_n := 0\<rparr> = s" using D(5) True by simp
  then have "only_cache pr (s\<lparr>lh_n := 0\<rparr>) s" by (rule ssubst) (rule only_cache_refl)
  moreover have "will_be st sz [] (disk s) V" using e clean True by (simp add: will_be_clean)
  moreover note e
  ultimately show ?thesis using D(1,5) True by (intro exI [of _ s] exI [of _ V] exI [of _ "[]"])
      (auto simp: commit_def throughout_Nil)
next
  case False
  note D = txnD [OF t] and L = log_listD [OF txnD(4) [OF t]]
  have n: "nat (sint (lh_n s)) = length bs" "sint (lh_n s) > 0" using D(5) sint_small [OF L(2)] False by auto
  have stR: "R st = 0" using D(9) log_no_facts(3) [OF L(1)] by simp
  obtain s1 V1 ws1 where s1: "forM (write_log_one h) [0..<length bs] s = Some s1"
    and c1: "cached h pr s V1 Map.empty R (apply_writes ws1 (disk s)) (dwrites s @ ws1) s1"
    and V1: "\<And>n. \<not> in_log st sz n \<Longrightarrow> V1 n = V n"
    and lg: "\<And>i. i < length bs \<Longrightarrow> apply_writes ws1 (disk s) (log_no st i) = V (bs ! i) \<and> V1 (log_no st i) = V (bs ! i)"
    and w1: "throughout (\<lambda>E. will_be st sz [] E (disk s)) ws1 (disk s)"
    using write_log_loop [OF t, of "length bs"] by auto
  let ?D1 = "apply_writes ws1 (disk s)"
  obtain s2 d where s2: "write_head h s1 = Some s2" and d: "log_head bs d"
    and c2: "cached h pr s (V1(st := d)) Map.empty R (?D1(st := d)) ((dwrites s @ ws1) @ [(st, d)]) s2"
    using write_head_ok [OF c1 D(2), of bs] D(3,5,6,10) stR L(2) by auto
  have w2: "will_be st sz bs (?D1(st := d)) V"
    using will_be_commit [OF throughout_last [OF w1] D(4) d] lg clean by blast
  have V2: "(V1(st := d)) (log_no st i) = V (bs ! i)" if "i < length bs" for i using lg [OF that] L(8) [OF that] by simp
  have RR: "\<not> False \<Longrightarrow> (\<forall>b\<in>set bs. R b > 0) \<and> card {n. R n > 0} < NBUF" "False \<Longrightarrow> card {n. R n > 0} + 2 \<le> NBUF" using D(7,10) by auto
  let ?R = "\<lambda>n. if \<not> False \<and> n \<in> set (take (length bs) bs) then R n - 1 else R n"
  let ?V3 = "\<lambda>n. if n \<in> set (take (length bs) bs) then V n else (V1(st := d)) n"
  obtain s3 ws3 where s3: "forM (install_one h False) [0..<length bs] s2 = Some s3"
    and c3: "cached h pr s ?V3 Map.empty ?R (apply_writes ws3 (?D1(st := d))) (((dwrites s @ ws1) @ [(st, d)]) @ ws3) s3"
    and d3: "\<And>i. i < length bs \<Longrightarrow> apply_writes ws3 (?D1(st := d)) (bs ! i) = V (bs ! i)"
    and w3: "throughout (\<lambda>E. will_be st sz bs E V) ws3 (?D1(st := d))"
    using install_loop [OF c2 D(2,3,6) w2 V2 D(9) D(8) RR order_refl] by blast
  have "card {n. ?R n > 0} \<le> card {n. R n > 0}" by (rule card_mono) (auto split: if_splits)
  with stR D(10) have "?R st = 0" "card {n. ?R n > 0} < NBUF" by auto
  then obtain s4 e where s4: "write_head h (s3\<lparr>lh_n := 0\<rparr>) = Some s4" "ld32 0 e = 0" "cache h pr (?V3(st := e)) Map.empty ?R s4"
    and d4: "disk s4 = (apply_writes ws3 (?D1(st := d)))(st := e)" "dwrites s4 = (((dwrites s @ ws1) @ [(st, d)]) @ ws3) @ [(st, e)]"
    and o4: "only_cache pr (s3\<lparr>lh_n := 0\<rparr>) s4" using clear_head [OF c3 D(2,3)] by blast
  let ?ws = "ws1 @ [(st, d)] @ ws3 @ [(st, e)]"
  let ?P = "\<lambda>E. \<exists>cs. will_be st sz cs E (disk s) \<or> will_be st sz cs E V"
  have w4: "will_be st sz [] (disk s4) V"
    unfolding d4 using d3 by (intro will_be_clear [OF throughout_last [OF w3] _ s4(2)]) (auto simp: in_set_conv_nth)
  have "throughout ?P ws1 (disk s)" "throughout ?P ws3 (?D1(st := d))" "?P (?D1(st := d))" "?P (disk s4)" "?P ?D1"
    "?P (apply_writes ws3 (?D1(st := d)))"
    using throughout_mono [OF w1, of ?P] throughout_mono [OF w3, of ?P] w2 w4 throughout_last [OF w1] throughout_last [OF w3] by blast+
  then have "throughout ?P ?ws (disk s)"
    unfolding throughout_append throughout_one apply_writes_append apply_writes_one d4(1) by blast
  moreover have "disk s4 = apply_writes ?ws (disk s)" "dwrites s4 = dwrites s @ ?ws" unfolding d4
    by (simp_all only: apply_writes_append apply_writes_one append_assoc)
  moreover have "commit h s = Some s4"
  proof -
    have "nat (sint (lh_n s2)) = length bs" using cached_log(3) [OF c2] n(1) by simp
    then show ?thesis using n s1 s2 s3 s4(1) by (simp add: commit_def write_log_def install_trans_def)
  qed
  moreover have "only_cache pr (s\<lparr>lh_n := 0\<rparr>) s4"
  proof (rule only_cache_trans [OF _ o4])
    have "only_cache pr s s3" using c3 by (simp add: cached_def)
    then show "only_cache pr (s\<lparr>lh_n := 0\<rparr>) (s3\<lparr>lh_n := 0\<rparr>)" using only_cache_lh_n by blast
  qed
  moreover have "(?V3(st := e)) n = V n" if "\<not> in_log st sz n" for n
    using that V1 [OF that] log_no_facts(3) [OF L(1)] by auto
  moreover have "cache h pr (?V3(st := e)) Map.empty (\<lambda>n. if n \<in> set bs then R n - 1 else R n) s4" using s4(3) by simp
  ultimately show ?thesis using w4 by blast
qed

text \<open>A machine that has just started, with nothing in its cache and the disk \<open>E\<close>.\<close>

definition booted :: "nat \<Rightarrow> nat \<Rightarrow> uint \<Rightarrow> (uint \<Rightarrow> block) \<Rightarrow> 'a klog_scheme \<Rightarrow> bool" where
  "booted h pr st E s \<longleftrightarrow> cache h pr E Map.empty (\<lambda>_. 0) s \<and> disk s = E \<and> l_dev s = ROOTDEV \<and> l_start s = st"

lemma bootedI: "cache h pr E Map.empty (\<lambda>_. 0) s \<Longrightarrow> l_dev s = ROOTDEV \<Longrightarrow> l_start s = st \<Longrightarrow> booted h pr st E s"
  using cacheD(10) [of h pr E Map.empty "\<lambda>_. 0" s] by (auto simp: booted_def)

lemma read_head_ok:
  fixes s :: "'a klog_scheme"
  assumes b: "booted h pr st E s" and w: "will_be st sz bs E X"
  shows "\<exists>s'. read_head h s = Some s' \<and> booted h pr st E s' \<and> lh_n s' = of_nat (length bs) \<and> (\<forall>i<length bs. lh_block s' i = bs ! i)
    \<and> dwrites s' = dwrites s \<and> l_size s' = l_size s \<and> l_outstanding s' = l_outstanding s \<and> l_committing s' = l_committing s"
proof -
  have l: "log_list st sz bs" and hd: "log_head bs (E st)" using w by (simp_all add: will_be_def)
  have c: "cached h pr s E Map.empty (\<lambda>_. 0) E (dwrites s) s" and f: "l_dev s = ROOTDEV" "l_start s = st"
    using b cachedI [of h pr E] by (auto simp: booted_def)
  obtain n s1 where n: "bread h ROOTDEV st s = Some (n, s1)"
    and c1: "cached h pr s E [st \<mapsto> n] ((\<lambda>_. 0)(st := 1)) E (dwrites s) s1" using bc.read_ok [OF c, of st] by (auto simp: NBUF_def)
  have dat: "b_data (bufs s1 n) = E st" using bc.data_ok [OF c1] by simp
  let ?g = "\<lambda>i (t :: 'a klog_scheme). t\<lparr>lh_block := (lh_block t)(i := ld32 (4 + 4 * i) (E st))\<rparr>"
  let ?s1 = "s1\<lparr>lh_n := ld32 0 (E st)\<rparr>"
  have fold: "fold ?g [0..<k] t = t\<lparr>lh_block := (\<lambda>i. if i < k then ld32 (4 + 4 * i) (E st) else lh_block t i)\<rparr>" for k t
    by (induction k) (auto simp: less_Suc_eq fun_eq_iff)
  let ?s2 = "fold ?g [0..<length bs] ?s1"
  have s2: "?s2 = s1\<lparr>lh_n := ld32 0 (E st), lh_block := (\<lambda>i. if i < length bs then ld32 (4 + 4 * i) (E st) else lh_block s1 i)\<rparr>"
    unfolding fold by (simp cong: if_cong)
  have "forM (\<lambda>i s. if i < LOGSIZE then Some (s\<lparr>lh_block := (lh_block s)(i := ld32 (4 + 4 * i) (E st))\<rparr>) else None) [0..<length bs] ?s1
      = Some ?s2"
    by (rule forM_fold [where I = "\<lambda>_. True"]) (use log_listD(2) [OF l] in auto)
  moreover have "nat (sint (ld32 0 (E st))) = length bs" using hd sint_small [OF log_listD(2) [OF l]] by (simp add: log_head_def)
  ultimately have r: "read_head h s = brelse h n ?s2" using n f
    by (simp add: read_head_def Let_def dat cong: if_cong)
  have "cache h pr E [st \<mapsto> n] ((\<lambda>_. 0)(st := 1)) ?s2"
    using c1 cache_cong [of ?s2 s1] unfolding s2 by (simp add: cached_def)
  from bc.rel_ok [OF cachedI [OF this], of st n] obtain s3 where s3: "brelse h n ?s2 = Some s3"
    "cached h pr ?s2 E ([st \<mapsto> n](st := None)) ((\<lambda>_. 0)(st := 1, st := 0)) (disk ?s2) (dwrites ?s2) s3"
    using c1 unfolding s2 by (auto simp: cached_def)
  have "[st \<mapsto> n](st := None) = Map.empty" "(\<lambda>_. 0)(st := 1, st := 0) = (\<lambda>_. 0::nat)" by (auto simp: fun_eq_iff)
  with s3(2) have c3: "cached h pr ?s2 E Map.empty (\<lambda>_. 0) (disk ?s2) (dwrites ?s2) s3" by simp
  have oc: "only_cache pr ?s2 s3" "only_cache pr s s1" using c3 c1 by (simp_all add: cached_def)
  note o = only_cache_log [OF oc(1)] and o1 = only_cache_log [OF oc(2)]
  have "booted h pr st E s3" using c3 o o1 f unfolding s2 by (intro bootedI) (simp_all add: cached_def)
  moreover have "dwrites s3 = dwrites s" using c3 c1 unfolding s2 by (simp add: cached_def)
  ultimately show ?thesis using r s3(1) o o1 hd unfolding s2 log_head_def by simp
qed

lemma recover_ok:
  fixes s :: "'a klog_scheme"
  assumes b: "booted h pr st E s" and w: "will_be st sz bs E X"
  shows "\<exists>s' ws. recover_from_log h s = Some s' \<and> dwrites s' = dwrites s @ ws \<and> disk s' = apply_writes ws E
    \<and> throughout (\<lambda>E. \<exists>cs. will_be st sz cs E X) ws E \<and> will_be st sz [] (disk s') X
    \<and> booted h pr st (disk s') s' \<and> lh_n s' = 0 \<and> l_size s' = l_size s \<and> l_outstanding s' = l_outstanding s \<and> l_committing s' = l_committing s"
proof -
  have l: "log_list st sz bs" using w by (simp add: will_be_def)
  note L = log_listD [OF l]
  obtain s1 where s1: "read_head h s = Some s1" "booted h pr st E s1" "lh_n s1 = of_nat (length bs)"
    and lb: "\<And>i. i < length bs \<Longrightarrow> lh_block s1 i = bs ! i" and f1: "dwrites s1 = dwrites s" "l_size s1 = l_size s"
    "l_outstanding s1 = l_outstanding s" "l_committing s1 = l_committing s" using read_head_ok [OF b w] by blast
  have c1: "cached h pr s1 E Map.empty (\<lambda>_. 0) E (dwrites s) s1" and g: "l_dev s1 = ROOTDEV" "l_start s1 = st"
    using s1(2) f1(1) cachedI [of h pr E Map.empty "\<lambda>_. 0" s1] by (auto simp: booted_def)
  have E: "E (log_no st i) = X (bs ! i)" if "i < length bs" for i using w that by (simp add: will_be_def)
  have R0: "(if \<not> True \<and> n \<in> set (take (length bs) bs) then (0::nat) - 1 else 0) = 0" for n by simp
  let ?E2 = "\<lambda>n. if n \<in> set (take (length bs) bs) then X n else E n"
  obtain s2 ws where s2: "forM (install_one h True) [0..<length bs] s1 = Some s2"
    and c2: "cached h pr s1 ?E2 Map.empty (\<lambda>_. 0) (apply_writes ws E) (dwrites s @ ws) s2"
    and d2: "\<And>i. i < length bs \<Longrightarrow> apply_writes ws E (bs ! i) = X (bs ! i)"
    and w2: "throughout (\<lambda>E. will_be st sz bs E X) ws E"
    using install_loop [OF c1 g lb w E, of True "length bs"] by (auto simp: NBUF_def)
  have "cache h pr ?E2 Map.empty (\<lambda>_. 0) s2" "disk s2 = apply_writes ws E" using c2 by (simp_all add: cached_def)
  from cacheD(10) [OF this(1) refl] this(2) have E2: "?E2 = apply_writes ws E" by (intro ext) simp
  obtain s3 e where s3: "write_head h (s2\<lparr>lh_n := 0\<rparr>) = Some s3" "ld32 0 e = 0" "cache h pr (?E2(st := e)) Map.empty (\<lambda>_. 0) s3"
    and d3: "disk s3 = (apply_writes ws E)(st := e)" "dwrites s3 = (dwrites s @ ws) @ [(st, e)]"
    and o3: "only_cache pr (s2\<lparr>lh_n := 0\<rparr>) s3" using clear_head [OF c2 g] by (auto simp: NBUF_def)
  have o2: "only_cache pr s1 s2" using c2 by (simp add: cached_def)
  note k = only_cache_log [OF o3, simplified] and k1 = only_cache_log [OF o2]
  have w3: "will_be st sz [] (disk s3) X"
    unfolding d3 using d2 by (intro will_be_clear [OF throughout_last [OF w2] _ s3(2)]) (auto simp: in_set_conv_nth)
  have "throughout (\<lambda>E. \<exists>cs. will_be st sz cs E X) (ws @ [(st, e)]) E"
    unfolding throughout_append throughout_one
    using throughout_mono [OF w2, of "\<lambda>E. \<exists>cs. will_be st sz cs E X"] throughout_last [OF w2] w3 [unfolded d3] by blast
  moreover have "recover_from_log h s = Some s3"
    using s1(1,3) s2 s3(1) sint_small [OF L(2)] by (simp add: recover_from_log_def install_trans_def)
  moreover have "booted h pr st (disk s3) s3"
    using s3(3) g k k1 unfolding E2 d3(1) [symmetric] by (intro bootedI) simp_all
  ultimately show ?thesis using d3 w3 k k1 f1
    by (intro exI [of _ s3] exI [of _ "ws @ [(st, e)]"]) (simp add: apply_writes_append)
qed

subsection \<open>Crashes\<close>

text \<open>
  \<open>crashed\<close>: the disk after any number of attempts to recover \<open>E\<close> that were each interrupted by another
  crash, after any number of their writes.
\<close>

inductive crashed :: "uint \<Rightarrow> (uint \<Rightarrow> block) \<Rightarrow> (uint \<Rightarrow> block) \<Rightarrow> bool" for st E where
  crashed_once: "crashed st E E"
| crashed_again: "crashed st E F \<Longrightarrow> booted h pr st F (t :: klog) \<Longrightarrow> recover_from_log h t = Some t' \<Longrightarrow>
    dwrites t' = dwrites t @ ws \<Longrightarrow> crashed st E (apply_writes (take j ws) F)"

lemma crashed_will_be:
  assumes "crashed st E F" and "will_be st sz bs E X"
  shows "\<exists>cs. will_be st sz cs F X"
  using assms
proof (induction rule: crashed.induct)
  case (crashed_again F h pr t t' ws j)
  then obtain cs where "will_be st sz cs F X" by blast
  from recover_ok [OF crashed_again(2) this] crashed_again(3,4) have "throughout (\<lambda>E. \<exists>cs. will_be st sz cs E X) ws F" by auto
  then show ?case by (simp add: throughout_def)
qed blast

text \<open>
  \<open>commit\<close> writes some sequence \<open>ws\<close> of blocks to the disk; if the machine stops after any number \<open>j\<close> of
  these writes, and then after any number of writes of any number of recoveries, the recovery that is
  finally left alone returns, and then every block outside the log has its old contents, or every block
  outside the log has its new contents; which of the two depends on \<open>j\<close> alone.
\<close>

lemma commit_all:
  fixes s :: "'a klog_scheme"
  assumes t: "txn h pr st sz bs V Map.empty R s" and clean: "\<And>n. n \<notin> set bs \<Longrightarrow> V n = disk s n"
  shows "\<exists>s' ws. commit h s = Some s' \<and> dwrites s' = dwrites s @ ws
    \<and> (\<forall>j. \<exists>X\<in>{disk s, V}. \<forall>F h' pr' t. crashed st (apply_writes (take j ws) (disk s)) F \<longrightarrow> booted h' pr' st F (t :: klog) \<longrightarrow>
         (\<exists>t'. recover_from_log h' t = Some t' \<and> (\<forall>n. \<not> in_log st sz n \<longrightarrow> disk t' n = X n)))
    \<and> (\<forall>n. \<not> in_log st sz n \<longrightarrow> disk s' n = V n)
    \<and> txn h pr st sz [] (disk s') Map.empty (\<lambda>n. if n \<in> set bs then R n - 1 else R n) s' \<and> only_cache pr (s\<lparr>lh_n := 0\<rparr>) s'"
proof -
  note D = txnD [OF t]
  let ?R = "\<lambda>n. if n \<in> set bs then R n - 1 else R n"
  obtain s' V' ws where s': "commit h s = Some s'" "dwrites s' = dwrites s @ ws"
    and th: "throughout (\<lambda>E. \<exists>cs. will_be st sz cs E (disk s) \<or> will_be st sz cs E V) ws (disk s)"
    and e: "will_be st sz [] (disk s') V" "\<And>n. \<not> in_log st sz n \<Longrightarrow> V' n = V n" "cache h pr V' Map.empty ?R s'" "only_cache pr (s\<lparr>lh_n := 0\<rparr>) s'"
    using commit_ok [OF t clean] by blast
  have cr: "\<exists>X\<in>{disk s, V}. \<forall>F h' pr' t. crashed st (apply_writes (take j ws) (disk s)) F \<longrightarrow> booted h' pr' st F (t :: klog) \<longrightarrow>
      (\<exists>t'. recover_from_log h' t = Some t' \<and> (\<forall>n. \<not> in_log st sz n \<longrightarrow> disk t' n = X n))" for j
  proof -
    obtain X cs where X: "X \<in> {disk s, V}" and w: "will_be st sz cs (apply_writes (take j ws) (disk s)) X"
      using th unfolding throughout_def by blast
    have "\<exists>t'. recover_from_log h' t = Some t' \<and> (\<forall>n. \<not> in_log st sz n \<longrightarrow> disk t' n = X n)"
      if c: "crashed st (apply_writes (take j ws) (disk s)) F" and b: "booted h' pr' st F t" for F h' pr' and t :: klog
    proof -
      obtain ds where "will_be st sz ds F X" using crashed_will_be [OF c w] by blast
      from recover_ok [OF b this] show ?thesis by (auto simp: will_be_clean)
    qed
    then show ?thesis using X by blast
  qed
  have off: "disk s' n = V n" if "\<not> in_log st sz n" for n using e(1) that by (simp add: will_be_clean)
  have "V' n = disk s' n" for n
    using off [of n] e(2) [of n] cacheD(10) [OF e(3), of n] D(9) [of n] by (cases "in_log st sz n") auto
  then have V': "V' = disk s'" by (rule ext)
  have "card {n. ?R n > 0} \<le> card {n. R n > 0}" by (rule card_mono) (auto split: if_splits)
  moreover have "?R n + 1 < 2 ^ 32" for n
  proof -
    have "?R n \<le> R n" by simp
    then show ?thesis using D(8) [of n] by linarith
  qed
  ultimately have "txn h pr st sz [] (disk s') Map.empty ?R s'"
    unfolding txn_def using e(1,3) only_cache_log [OF e(4)] D V' by (auto simp: will_be_clean log_list_def log_fits_def)
  with cr off s' e(4) show ?thesis by blast
qed

subsection \<open>Building a transaction\<close>

lemma klog_within [simp]:
  "l_start (within h lk s) = l_start s" "l_size (within h lk s) = l_size s" "l_outstanding (within h lk s) = l_outstanding s"
  "l_committing (within h lk s) = l_committing s" "lh_n (within h lk s) = lh_n s" "lh_block (within h lk s) = lh_block s"
  by (simp_all add: within_def)

lemma find_index:
  "(case List.find (\<lambda>i. f i = v) [0..<n] of Some i \<Rightarrow> i | None \<Rightarrow> n) < n \<longleftrightarrow> v \<in> f ` {0..<n}"
  "(case List.find (\<lambda>i. f i = v) [0..<n] of Some i \<Rightarrow> i | None \<Rightarrow> n) \<le> n"
  "v \<in> f ` {0..<n} \<Longrightarrow> f (case List.find (\<lambda>i. f i = v) [0..<n] of Some i \<Rightarrow> i | None \<Rightarrow> n) = v"
proof -
  show "(case List.find (\<lambda>i. f i = v) [0..<n] of Some i \<Rightarrow> i | None \<Rightarrow> n) < n \<longleftrightarrow> v \<in> f ` {0..<n}"
    "(case List.find (\<lambda>i. f i = v) [0..<n] of Some i \<Rightarrow> i | None \<Rightarrow> n) \<le> n"
    "v \<in> f ` {0..<n} \<Longrightarrow> f (case List.find (\<lambda>i. f i = v) [0..<n] of Some i \<Rightarrow> i | None \<Rightarrow> n) = v"
    by (auto split: option.splits simp: find_None_iff dest!: find_holds)
qed

text \<open>The state after \<open>log_write\<close> of buffer \<open>b\<close> for block \<open>m\<close>.\<close>

definition logs :: "nat \<Rightarrow> uint \<Rightarrow> 'a klog_scheme \<Rightarrow> 'a klog_scheme" where
  "logs b m s = (let n = nat (sint (lh_n s)) in
     if m \<in> lh_block s ` {0..<n} then s
     else (upd_buf b (\<lambda>q. q\<lparr>b_refcnt := b_refcnt q + 1\<rparr>) s)\<lparr>lh_block := (lh_block s)(n := m), lh_n := lh_n s + 1\<rparr>)"

lemma upd_buf_log [simp]:
  "lh_n (upd_buf b f s) = lh_n s" "lh_block (upd_buf b f s) = lh_block s" "l_start (upd_buf b f s) = l_start s"
  "l_dev (upd_buf b f s) = l_dev s" "l_size (upd_buf b f s) = l_size s" "l_outstanding (upd_buf b f s) = l_outstanding s"
  "l_committing (upd_buf b f s) = l_committing s"
  by (simp_all add: upd_buf_def)

lemma upd_buf_lh: "upd_buf b f (s\<lparr>lh_block := B\<rparr>) = (upd_buf b f s)\<lparr>lh_block := B\<rparr>"
  by (simp add: upd_buf_def)

lemma keeps_locks_logs: "keeps_locks (logs b m)"
  by (simp add: keeps_locks_def logs_def upd_buf_def Let_def)

lemma log_write_spec:
  assumes c: "in_call h pr s" and n: "lh_n s = of_nat n" "n < LOGSIZE" "int n < sint (l_size s - 1)" "sint (l_outstanding s) \<ge> 1"
  shows "log_write h b s = Some (logs b (b_blockno (bufs s b)) s)"
proof -
  note d = in_callD [OF c]
  let ?m = "b_blockno (bufs s b)" and ?w = "within h log_lock s"
  let ?i = "case List.find (\<lambda>i. lh_block s i = ?m) [0..<n] of Some i \<Rightarrow> i | None \<Rightarrow> n"
  have sn: "sint (lh_n s) = int n" using n(1,2) sint_small [of n] by simp
  have pin: "bpin h b t = Some (upd_buf b (\<lambda>q. q\<lparr>b_refcnt := b_refcnt q + 1\<rparr>) t)" if "calm h t" "free_lock bcache_lock t" for t :: "'a klog_scheme"
    unfolding bpin_def using that section_calm [OF that keeps_locks_upd_buf] by (simp add: acquire_free)
  have w: "calm h (?w\<lparr>lh_block := B\<rparr>)" "free_lock bcache_lock (?w\<lparr>lh_block := B\<rparr>)" for B
    using calm_within [OF calm_ok [OF d(1)], of log_lock] calm_cong [of "?w\<lparr>lh_block := B\<rparr>" ?w h] d(4) [of bcache_lock]
    by (simp_all add: free_lock_def within_def)
  have "release h log_lock (logs b ?m ?w) = Some (logs b ?m s)" by (rule section_calm [OF d(1) d(4) keeps_locks_logs])
  moreover have "Option.bind (if ?i = n then map_option (\<lambda>s. s\<lparr>lh_n := lh_n s + 1\<rparr>) (bpin h b (?w\<lparr>lh_block := (lh_block s)(?i := ?m)\<rparr>))
      else Some (?w\<lparr>lh_block := (lh_block s)(?i := ?m)\<rparr>)) (release h log_lock) = release h log_lock (logs b ?m ?w)"
  proof (cases "?m \<in> lh_block s ` {0..<n}")
    case True
    then have "?i \<noteq> n" "(lh_block s)(?i := ?m) = lh_block s" using find_index(1,3) [where f = "lh_block s" and v = ?m and n = n] by (auto simp: fun_upd_idem)
    moreover have ww: "?w\<lparr>lh_block := lh_block s\<rparr> = ?w" by (simp add: within_def)
    ultimately show ?thesis using True sn by (simp add: logs_def ww)
  next
    case False
    then have "?i = n" using find_index(1,2) [where f = "lh_block s" and v = ?m and n = n] by linarith
    then show ?thesis using False sn pin [OF w] by (simp add: logs_def upd_buf_lh)
  qed
  ultimately show ?thesis using n sn by (simp add: log_write_def acquire_free [OF d(4)] Let_def)
qed

lemma logs_txn:
  fixes s :: "'a klog_scheme"
  assumes t: "txn h pr st sz bs V H R s" and H: "H m = Some b" and m: "\<not> in_log st sz m"
    and len: "length bs < LOGSIZE" "Suc (length bs) < sz" and r: "R m + 2 < 2 ^ 32"
  defines "bs' \<equiv> if m \<in> set bs then bs else bs @ [m]" and "R' \<equiv> if m \<in> set bs then R else R(m := R m + 1)"
  shows "txn h pr st sz bs' V H R' (logs b m s)"
proof (cases "m \<in> set bs")
  case True
  note D = txnD [OF t]
  have "nat (sint (lh_n s)) = length bs" using D(5) sint_small [of "length bs"] len by simp
  moreover have "m \<in> lh_block s ` {0..<length bs}" using True D(6) by (auto simp: in_set_conv_nth image_iff Bex_def)
  ultimately have "logs b m s = s" by (simp add: logs_def)
  then show ?thesis using t True by (simp add: bs'_def R'_def)
next
  case False
  note D = txnD [OF t] and K = cache_held [OF txnD(1) [OF t] H]
  have n: "nat (sint (lh_n s)) = length bs" using D(5) sint_small [of "length bs"] len by simp
  have nm: "m \<notin> lh_block s ` {0..<length bs}" using False D(6) by (auto simp: in_set_conv_nth)
  let ?u = "upd_buf b (\<lambda>q. q\<lparr>b_refcnt := b_refcnt q + 1\<rparr>) s"
  have l: "logs b m s = ?u\<lparr>lh_block := (lh_block s)(length bs := m), lh_n := lh_n s + 1\<rparr>" using n nm by (simp add: logs_def)
  obtain s' where "bpin h b s = Some s'" "cache h pr V H (R(m := R m + 1)) s'" using pin_law(1) [OF D(1) H] r by auto
  then have "cache h pr V H (R(m := R m + 1)) ?u" using pin_spec(1) [OF cacheD(1) [OF D(1)]] by simp
  then have c: "cache h pr V H (R(m := R m + 1)) (logs b m s)" using cache_cong [of "logs b m s" ?u] unfolding l by simp
  have R: "{n. (R(m := R m + 1)) n > 0} = {n. R n > 0}" using K(9) by auto
  have ll: "log_list st sz (bs @ [m])" using D(4) False m len by (simp add: log_list_def)
  have lb: "lh_block (logs b m s) i = (bs @ [m]) ! i" if "i < length (bs @ [m])" for i
    using that D(6) unfolding l by (auto simp: nth_append less_Suc_eq)
  have f: "lh_n (logs b m s) = of_nat (length (bs @ [m]))" "l_dev (logs b m s) = ROOTDEV" "l_start (logs b m s) = st" "disk (logs b m s) = disk s"
    using D unfolding l by simp_all
  have "(R(m := R m + 1)) k + 1 < 2 ^ 32" for k using D(8) [of k] r by simp
  moreover have "(R(m := R m + 1)) k > 0" if "k \<in> set (bs @ [m])" for k using that D(7) by auto
  moreover have "(R(m := R m + 1)) k = 0" if "in_log st sz k" for k using that D(9) [OF that] m by auto
  ultimately show ?thesis
    unfolding txn_def using c ll lb f False R D(10,11) by (simp add: bs'_def R'_def)
qed

lemma log_write_correct_all:
  fixes s :: "'a klog_scheme"
  assumes t: "txn h pr st sz bs V Map.empty R s" and m: "\<not> in_log st sz m" "R m + 3 < 2 ^ 32"
    and len: "length bs < LOGSIZE" "Suc (length bs) < sz" "l_size s = of_nat sz" and out: "sint (l_outstanding s) \<ge> 1"
    and room: "Suc (card {n. R n > 0}) < NBUF"
  shows "\<exists>b s1 s2 s'. bread h ROOTDEV m s = Some (b, s1) \<and> log_write h b (put_data b d s1) = Some s2 \<and> brelse h b s2 = Some s'
    \<and> txn h pr st sz (if m \<in> set bs then bs else bs @ [m]) (V(m := d)) Map.empty (if m \<in> set bs then R else R(m := R m + 1)) s'
    \<and> disk s' = disk s \<and> dwrites s' = dwrites s \<and> l_outstanding s' = l_outstanding s \<and> l_size s' = l_size s \<and> l_committing s' = l_committing s"
proof -
  note D = txnD [OF t]
  obtain b s1 where b: "bread h ROOTDEV m s = Some (b, s1)"
    and c1: "cached h pr s V [m \<mapsto> b] (R(m := R m + 1)) (disk s) (dwrites s) s1"
    using bc.read_ok [OF cachedI [OF D(1)], of m] m room by auto
  let ?s1 = "put_data b d s1" and ?R1 = "R(m := R m + 1)"
  have c2: "cached h pr s (V(m := d)) [m \<mapsto> b] ?R1 (disk s) (dwrites s) ?s1" using bc.put_ok [OF c1, of m b d] by simp
  then have oc: "only_cache pr s ?s1" and cc: "cache h pr (V(m := d)) [m \<mapsto> b] ?R1 ?s1" "disk ?s1 = disk s" "dwrites ?s1 = dwrites s"
    by (simp_all add: cached_def)
  note o = only_cache_log [OF oc]
  have "card {n. ?R1 n > 0} \<le> Suc (card {n. R n > 0})" using bc.card_refs [of R m "R m"] by simp
  then have t2: "txn h pr st sz bs (V(m := d)) [m \<mapsto> b] ?R1 ?s1"
    unfolding txn_def using cc o D m room by (auto simp: less_Suc_eq)
  have lw: "log_write h b ?s1 = Some (logs b m ?s1)"
    using log_write_spec [OF cacheD(1) [OF cc(1)], of "length bs" b] cache_held(5) [OF cc(1), of m b] o D(5) len out
      log_fits_size [OF log_listD(1) [OF D(4)]] by simp
  let ?R2 = "if m \<in> set bs then ?R1 else ?R1(m := R m + 2)"
  have t3: "txn h pr st sz (if m \<in> set bs then bs else bs @ [m]) (V(m := d)) [m \<mapsto> b] ?R2 (logs b m ?s1)" (is "txn _ _ _ _ ?bs _ _ _ ?s2")
    using logs_txn [OF t2, of m b] m len by (cases "m \<in> set bs") simp_all
  note D3 = txnD [OF t3]
  have f2: "disk ?s2 = disk s" "dwrites ?s2 = dwrites s" "l_outstanding ?s2 = l_outstanding s" "l_size ?s2 = l_size s" "l_committing ?s2 = l_committing s"
    using cc o by (simp_all add: logs_def Let_def)
  have "?R2 m > 1" using D(7) [of m] by auto
  from bc.rel_ok [OF cachedI [OF D3(1)], of m b] this obtain s' where s': "brelse h b ?s2 = Some s'"
    and c4: "cached h pr ?s2 (V(m := d)) ([m \<mapsto> b](m := None)) (?R2(m := ?R2 m - 1)) (disk s) (dwrites s) s'" by (auto simp: f2)
  let ?R = "if m \<in> set bs then R else R(m := R m + 1)"
  have e: "[m \<mapsto> b](m := None) = Map.empty" "?R2(m := ?R2 m - 1) = ?R" by (auto simp: fun_eq_iff)
  have "only_cache pr ?s2 s'" "cache h pr (V(m := d)) Map.empty ?R s'" "disk s' = disk s" "dwrites s' = dwrites s"
    using c4 unfolding e by (simp_all add: cached_def)
  note c5 = this and o5 = only_cache_log [OF this(1)]
  have le: "?R k \<le> ?R2 k" "?R2 k > 0 \<Longrightarrow> ?R k > 0" for k using D(7) [of m] by (cases "m \<in> set bs"; cases "k = m"; simp)+
  then have "{n. ?R n > 0} = {n. ?R2 n > 0}" by (metis gr0I le_zero_eq)
  moreover have "?R k + 1 < 2 ^ 32" for k using D3(8) [of k] le(1) [of k] by linarith
  moreover have "?R k = 0" if "in_log st sz k" for k using D3(9) [OF that] le(1) [of k] by linarith
  moreover have "?R k > 0" if "k \<in> set ?bs" for k using D3(7) [OF that] le(2) by blast
  ultimately have "txn h pr st sz ?bs (V(m := d)) Map.empty ?R s'"
    unfolding txn_def using c5 o5 D3 f2 by simp
  then show ?thesis using b lw s' c5 o5 f2 by auto
qed

text \<open>
  C36. A block is changed inside a transaction by the sequence that \<open>log_write\<close> documents: \<open>bread\<close>, modify the
  data, \<open>log_write\<close>, \<open>brelse\<close>. It never panics while there is room in the log, it changes the contents of
  this block and of no other as every later \<open>bread\<close> sees them, it writes nothing to the disk, and it
  enters the block in the list of the transaction once, however often the block is written; the buffer
  stays referenced, so that the new contents cannot be lost before \<open>commit\<close>.
\<close>

theorem log_write_correct:
  fixes s :: "'a klog_scheme"
  assumes t: "txn h pr st sz bs V Map.empty R s" and m: "\<not> in_log st sz m" "R m + 3 < 2 ^ 32"
    and len: "length bs < LOGSIZE" "Suc (length bs) < sz" "l_size s = of_nat sz" and out: "sint (l_outstanding s) \<ge> 1"
    and room: "Suc (card {n. R n > 0}) < NBUF"
  shows "\<exists>b s1 s2 s'. bread h ROOTDEV m s = Some (b, s1) \<and> log_write h b (put_data b d s1) = Some s2 \<and> brelse h b s2 = Some s'
    \<and> txn h pr st sz (if m \<in> set bs then bs else bs @ [m]) (V(m := d)) Map.empty (if m \<in> set bs then R else R(m := R m + 1)) s'
    \<and> disk s' = disk s \<and> dwrites s' = dwrites s \<and> l_outstanding s' = l_outstanding s \<and> l_size s' = l_size s"
  using log_write_correct_all [OF assms] by blast

subsection \<open>Operations\<close>

text \<open>The comparison that \<open>begin_op\<close> makes does not overflow, and what happens when there is room.\<close>

lemma begin_op_full:
  assumes n: "lh_n s = of_nat n" "n \<le> LOGSIZE" and k: "l_outstanding s = of_nat k" "k \<le> LOGSIZE"
  shows "sint (lh_n s + (l_outstanding s + 1) * of_nat MAXOPBLOCKS) > int LOGSIZE \<longleftrightarrow> n + (k + 1) * MAXOPBLOCKS > LOGSIZE"
proof -
  have "lh_n s + (l_outstanding s + 1) * of_nat MAXOPBLOCKS = of_nat (n + (k + 1) * MAXOPBLOCKS)" unfolding n k
    by (simp add: algebra_simps)
  moreover have "n + (k + 1) * MAXOPBLOCKS < 2 ^ 31" using n(2) k(2) by (simp add: LOGSIZE_def MAXOPBLOCKS_def)
  ultimately show ?thesis by (simp add: signed_of_nat signed_take_bit_int_eq_self del: of_nat_add of_nat_mult)
qed

lemma begin_op_enters:
  fixes s :: "'a klog_scheme"
  assumes c: "in_call h pr s" and n: "lh_n s = of_nat n" "n \<le> LOGSIZE" and k: "l_outstanding s = of_nat k" "k \<le> LOGSIZE"
    and room: "l_committing s = 0" "n + (k + 1) * MAXOPBLOCKS \<le> LOGSIZE"
  shows "begin_op h s = Some (Returns () (s\<lparr>l_outstanding := of_nat (k + 1)\<rparr>))"
proof -
  note d = in_callD [OF c]
  have "keeps_locks (\<lambda>s :: 'a klog_scheme. s\<lparr>l_outstanding := l_outstanding s + 1\<rparr>)" by (simp add: keeps_locks_def)
  from section_calm [OF d(1) d(4) this] have "release h log_lock ((within h log_lock s)\<lparr>l_outstanding := l_outstanding s + 1\<rparr>)
    = Some (s\<lparr>l_outstanding := l_outstanding s + 1\<rparr>)" by simp
  then show ?thesis using begin_op_full [OF n k] room k(1)
    by (simp add: begin_op_def begin_op_loop_def acquire_free [OF d(4)] not_less add.commute)
qed

text \<open>
  C37. The reservation of log space: \<open>begin_op\<close> lets a system call in exactly when no commit is running and
  the log has room for everything that is logged plus \<open>MAXOPBLOCKS\<close> blocks for every call in progress,
  the new one included; so calls that keep to \<open>MAXOPBLOCKS\<close> never overflow the log. Otherwise the caller
  is put to sleep on the log, with the lock released and the log's counters as they were.
\<close>

theorem begin_op_reserves:
  fixes s :: "'a klog_scheme"
  assumes c: "in_call h pr s" and n: "lh_n s = of_nat n" "n \<le> LOGSIZE" and k: "l_outstanding s = of_nat k" "k \<le> LOGSIZE"
  shows "(l_committing s = 0 \<and> n + (k + 1) * MAXOPBLOCKS \<le> LOGSIZE \<longrightarrow>
        begin_op h s = Some (Returns () (s\<lparr>l_outstanding := of_nat (k + 1)\<rparr>)))
    \<and> (\<not> (l_committing s = 0 \<and> n + (k + 1) * MAXOPBLOCKS \<le> LOGSIZE) \<longrightarrow>
        (\<exists>t s'. begin_op h s = Some (Blocks t) \<and> scheduler_back h pr t = Some s' \<and> lks s' = lks s
          \<and> l_outstanding s' = l_outstanding s \<and> lh_n s' = lh_n s
          \<and> p_state (procs s' pr) = SLEEPING \<and> p_chan (procs s' pr) = Some chan_log))"
proof -
  note d = in_callD [OF c]
  obtain t where t: "sleep_enter h (Some chan_log) log_lock (within h log_lock s) = Some t" "scheduler_back h pr t = Some (s\<lparr>
      cpus := (cpus s)(h := (cpus s h)\<lparr>intena := sie s h, c_proc := None\<rparr>),
      procs := (procs s)(pr := (procs s pr)\<lparr>p_chan := Some chan_log, p_state := SLEEPING\<rparr>),
      saved_intena := (saved_intena s)(pr := sie s h)\<rparr>)"
    using sleep_enter_leaves [OF d(2) d(3) d(4) d(4), of log_lock "Some chan_log"] by auto
  then show ?thesis using begin_op_full [OF n k] begin_op_enters [OF c n k]
    by (auto simp: begin_op_def begin_op_loop_def acquire_free [OF d(4)] not_less add.commute)
qed

lemma end_op_last:
  fixes s :: "'a klog_scheme"
  assumes c: "in_call h pr s" and o: "l_outstanding s = 1" "l_committing s = 0"
    and m: "commit h (s\<lparr>l_outstanding := 0, l_committing := 1\<rparr>) = Some s1" and c1: "in_call h pr s1"
  shows "end_op h s = Some (s1\<lparr>l_committing := 0, procs := wake_all (Some pr) (Some chan_log) (procs s1)\<rparr>)"
proof -
  note d = in_callD [OF c] and d1 = in_callD [OF c1]
  have "keeps_locks (\<lambda>s :: 'a klog_scheme. s\<lparr>l_outstanding := 0, l_committing := 1\<rparr>)" by (simp add: keeps_locks_def)
  from section_calm [OF d(1) d(4) this, of log_lock]
  have r: "release h log_lock ((within h log_lock s)\<lparr>l_outstanding := 0, l_committing := 1\<rparr>)
    = Some (s\<lparr>l_outstanding := 0, l_committing := 1\<rparr>)" .
  have "keeps_locks (\<lambda>s :: 'a klog_scheme. s\<lparr>l_committing := 0\<rparr>)" by (simp add: keeps_locks_def)
  from section_wakeup [OF d1(1) d1(4) d1(5) _ this, of log_lock "Some chan_log"] d1(3)
  have w: "Option.bind (wakeup h (Some chan_log) ((within h log_lock s1)\<lparr>l_committing := 0\<rparr>)) (release h log_lock)
    = Some (s1\<lparr>l_committing := 0, procs := wake_all (Some pr) (Some chan_log) (procs s1)\<rparr>)" by simp
  show ?thesis using r w m o by (simp add: end_op_def acquire_free [OF d(4)] acquire_free [OF d1(4)])
qed

text \<open>An operation as the system calls perform it: \<open>begin_op\<close>, changes of blocks, \<open>end_op\<close>.\<close>

definition update :: "nat \<Rightarrow> uint \<times> block \<Rightarrow> 'a klog_scheme \<Rightarrow> 'a klog_scheme option" where
  "update h md s = do {
     (b, s) \<leftarrow> bread h ROOTDEV (fst md) s;
     s \<leftarrow> log_write h b (put_data b (snd md) s);
     brelse h b s }"

definition operation :: "nat \<Rightarrow> (uint \<times> block) list \<Rightarrow> 'a klog_scheme \<Rightarrow> 'a klog_scheme option" where
  "operation h us s = do {
     (_, s) \<leftarrow> now (begin_op h s);
     s \<leftarrow> forM (update h) us s;
     end_op h s }"

definition log_idle :: "nat \<Rightarrow> nat \<Rightarrow> uint \<Rightarrow> nat \<Rightarrow> (uint \<Rightarrow> block) \<Rightarrow> (uint \<Rightarrow> nat) \<Rightarrow> 'a klog_scheme \<Rightarrow> bool" where
  "log_idle h pr st sz V R s \<longleftrightarrow> txn h pr st sz [] V Map.empty R s \<and> V = disk s \<and> l_outstanding s = 0 \<and> l_committing s = 0
     \<and> l_size s = of_nat sz"

lemma cache_wake:
  assumes "cache h pr V H R s"
  shows "cache h pr V H R (s\<lparr>procs := wake_all (Some pr) ch (procs s)\<rparr>)"
  using assms in_call_procs [of h pr s] by (simp add: cache_def buffers_def lru_def)

lemma apply_writes_other: "n \<notin> fst ` set us \<Longrightarrow> apply_writes us V n = V n"
proof (induction us arbitrary: V)
  case (Cons u us)
  then show ?case using Cons.IH [of "V(fst u := snd u)"] by (cases u) (simp add: apply_writes_def)
qed simp

lemma updates_ok:
  fixes s :: "'a klog_scheme"
  assumes "txn h pr st sz bs V Map.empty (\<lambda>n. if n \<in> set bs then R n + 1 else R n) s" and "l_size s = of_nat sz" and "sint (l_outstanding s) \<ge> 1"
    and "\<forall>(m, d)\<in>set us. \<not> in_log st sz m" and "\<And>n. R n + 4 < 2 ^ 32"
    and "length bs + length us \<le> LOGSIZE" and "length bs + length us < sz"
    and "card {n. (if n \<in> set bs then R n + 1 else R n) > 0} + length us < NBUF"
  shows "\<exists>s' cs. forM (update h) us s = Some s' \<and> txn h pr st sz cs (apply_writes us V) Map.empty (\<lambda>n. if n \<in> set cs then R n + 1 else R n) s'
    \<and> disk s' = disk s \<and> dwrites s' = dwrites s \<and> l_outstanding s' = l_outstanding s \<and> l_size s' = l_size s
    \<and> set cs = set bs \<union> fst ` set us \<and> l_committing s' = l_committing s"
  using assms
proof (induction us arbitrary: bs V s)
  case Nil
  then show ?case by (intro exI [of _ s] exI [of _ bs]) simp
next
  case (Cons u us)
  obtain m d where u: "u = (m, d)" by (cases u)
  let ?R = "\<lambda>bs n. if n \<in> set bs then R n + 1 else R n" and ?bs = "if m \<in> set bs then bs else bs @ [m]"
  have rm: "(if m \<in> set bs then R m + 1 else R m) + 3 < 2 ^ 32" using Cons.prems(5) [of m] by simp
  obtain b s1 s2 s3 where s: "bread h ROOTDEV m s = Some (b, s1)" "log_write h b (put_data b d s1) = Some s2" "brelse h b s2 = Some s3"
    and t: "txn h pr st sz ?bs (V(m := d)) Map.empty (if m \<in> set bs then ?R bs else (?R bs)(m := ?R bs m + 1)) s3"
    and f: "disk s3 = disk s" "dwrites s3 = dwrites s" "l_outstanding s3 = l_outstanding s" "l_size s3 = l_size s" "l_committing s3 = l_committing s"
    using log_write_correct_all [OF Cons.prems(1) _ rm, of d] Cons.prems(2-4) Cons.prems(6-8) u by auto
  have "(if m \<in> set bs then ?R bs else (?R bs)(m := ?R bs m + 1)) = ?R ?bs" by (auto simp: fun_eq_iff)
  with t have t': "txn h pr st sz ?bs (V(m := d)) Map.empty (?R ?bs) s3" by simp
  have "card {n. ?R ?bs n > 0} \<le> card (insert m {n. ?R bs n > 0})" by (rule card_mono) (auto split: if_splits)
  also have "\<dots> \<le> Suc (card {n. ?R bs n > 0})" by (simp add: card_insert_if)
  finally have room: "card {n. ?R ?bs n > 0} + length us < NBUF" using Cons.prems(8) by simp
  have len: "length ?bs + length us \<le> LOGSIZE" "length ?bs + length us < sz" using Cons.prems(6,7) by auto
  obtain s' cs where r: "forM (update h) us s3 = Some s'" "txn h pr st sz cs (apply_writes us (V(m := d))) Map.empty (?R cs) s'"
    "disk s' = disk s3" "dwrites s' = dwrites s3" "l_outstanding s' = l_outstanding s3" "l_size s' = l_size s3"
    "set cs = set ?bs \<union> fst ` set us" "l_committing s' = l_committing s3"
  proof -
    have "l_size s3 = of_nat sz" "sint (l_outstanding s3) \<ge> 1" "\<forall>(m, d)\<in>set us. \<not> in_log st sz m" using Cons.prems(2-4) f by simp_all
    from Cons.IH [OF t' this Cons.prems(5) len room] that show thesis by blast
  qed
  have "forM (update h) (u # us) s = Some s'" using s r(1) u by (simp add: update_def)
  moreover have "apply_writes us (V(m := d)) = apply_writes (u # us) V" using u by (simp add: apply_writes_def)
  moreover have "set cs = set bs \<union> fst ` set (u # us)" using r(7) u by auto
  ultimately show ?case using r f by (intro exI [of _ s'] exI [of _ cs]) simp
qed

text \<open>
  C4. The contract of the log as the file system uses it: an operation (\<open>begin_op\<close>, at most \<open>MAXOPBLOCKS\<close>
  changes of blocks, \<open>end_op\<close>) on an idle log returns with the log idle again, the changes made in order,
  in the cache and on the disk; and if the machine stops after any number of disk writes, and recovery
  is interrupted any number of times, then once recovery has run all of the changes are there or none is.
\<close>

theorem operation_atomic:
  fixes s :: "'a klog_scheme"
  assumes i: "log_idle h pr st sz V R s" and us: "length us \<le> MAXOPBLOCKS" "\<forall>(m, d)\<in>set us. \<not> in_log st sz m" and sz: "MAXOPBLOCKS < sz"
    and R: "\<And>n. R n + 4 < 2 ^ 32" "card {n. R n > 0} + MAXOPBLOCKS < NBUF"
  shows "\<exists>s' ws V'. operation h us s = Some s' \<and> log_idle h pr st sz V' R s' \<and> (\<forall>n. \<not> in_log st sz n \<longrightarrow> V' n = apply_writes us V n)
    \<and> dwrites s' = dwrites s @ ws
    \<and> (\<forall>j. \<exists>X\<in>{V, apply_writes us V}. \<forall>F h' pr' t. crashed st (apply_writes (take j ws) (disk s)) F \<longrightarrow> booted h' pr' st F (t :: klog) \<longrightarrow>
         (\<exists>t'. recover_from_log h' t = Some t' \<and> (\<forall>n. \<not> in_log st sz n \<longrightarrow> disk t' n = X n)))"
proof -
  have t: "txn h pr st sz [] V Map.empty R s" and f: "V = disk s" "l_outstanding s = 0" "l_committing s = 0" "l_size s = of_nat sz"
    using i unfolding log_idle_def by blast+
  note D = txnD [OF t]
  let ?s0 = "s\<lparr>l_outstanding := 1\<rparr>"
  have b: "begin_op h s = Some (Returns () ?s0)"
    using begin_op_enters [OF cacheD(1) [OF D(1)], of 0 0] D(5) f(2,3) by (simp add: LOGSIZE_def MAXOPBLOCKS_def)
  have t0: "txn h pr st sz [] V Map.empty (\<lambda>n. if n \<in> set [] then R n + 1 else R n) ?s0"
    using t cache_cong [of ?s0 s h pr V Map.empty R] by (simp add: txn_def)
  obtain s1 cs where s1: "forM (update h) us ?s0 = Some s1"
    and t1: "txn h pr st sz cs (apply_writes us V) Map.empty (\<lambda>n. if n \<in> set cs then R n + 1 else R n) s1"
    and f1: "disk s1 = disk s" "dwrites s1 = dwrites s" "l_outstanding s1 = 1" "l_size s1 = of_nat sz" "set cs = fst ` set us" "l_committing s1 = 0"
    using updates_ok [OF t0, of us] us sz R f by (auto simp: LOGSIZE_def MAXOPBLOCKS_def)
  let ?s1 = "s1\<lparr>l_outstanding := 0, l_committing := 1\<rparr>"
  have t2: "txn h pr st sz cs (apply_writes us V) Map.empty (\<lambda>n. if n \<in> set cs then R n + 1 else R n) ?s1"
    using t1 cache_cong [of ?s1 s1 h pr "apply_writes us V"] by (simp add: txn_def)
  have clean: "apply_writes us V n = disk ?s1 n" if "n \<notin> set cs" for n
    using that f(1) f1(1) apply_writes_other [of n us V] by (simp add: f1(5))
  obtain s2 ws where s2: "commit h ?s1 = Some s2" "dwrites s2 = dwrites s @ ws"
    and cr: "\<forall>j. \<exists>X\<in>{disk s, apply_writes us V}. \<forall>F h' pr' t. crashed st (apply_writes (take j ws) (disk s)) F \<longrightarrow> booted h' pr' st F (t :: klog) \<longrightarrow>
         (\<exists>t'. recover_from_log h' t = Some t' \<and> (\<forall>n. \<not> in_log st sz n \<longrightarrow> disk t' n = X n))"
    and e: "\<And>n. \<not> in_log st sz n \<Longrightarrow> disk s2 n = apply_writes us V n" "only_cache pr (?s1\<lparr>lh_n := 0\<rparr>) s2"
    and t3: "txn h pr st sz [] (disk s2) Map.empty (\<lambda>n. if n \<in> set cs then (if n \<in> set cs then R n + 1 else R n) - 1
        else if n \<in> set cs then R n + 1 else R n) s2"
    using commit_all [OF t2 clean] f1 by auto
  note o = only_cache_log [OF e(2)]
  let ?s3 = "s2\<lparr>l_committing := 0, procs := wake_all (Some pr) (Some chan_log) (procs s2)\<rparr>"
  have "(\<lambda>n. if n \<in> set cs then (if n \<in> set cs then R n + 1 else R n) - 1 else if n \<in> set cs then R n + 1 else R n) = R"
    by (auto simp: fun_eq_iff)
  with t3 have t3: "txn h pr st sz [] (disk s2) Map.empty R s2" by simp
  have en: "end_op h s1 = Some ?s3"
    by (rule end_op_last [OF cacheD(1) [OF txnD(1) [OF t1]] f1(3,6) s2(1) cacheD(1) [OF txnD(1) [OF t3]]])
  have "cache h pr (disk s2) Map.empty R ?s3"
    using cache_wake [OF txnD(1) [OF t3]] cache_cong [of ?s3 "s2\<lparr>procs := wake_all (Some pr) (Some chan_log) (procs s2)\<rparr>"] by simp
  then have "log_idle h pr st sz (disk s2) R ?s3" using t3 o f1 by (simp add: log_idle_def txn_def)
  moreover have "operation h us s = Some ?s3" using b s1 en by (simp add: operation_def)
  ultimately show ?thesis using cr s2(2) e(1) f(1) by (intro exI [of _ ?s3] exI [of _ ws] exI [of _ "disk s2"]) simp
qed

lemma initlog_ok:
  assumes c: "cache h pr E Map.empty (\<lambda>_. 0) s" and w: "will_be (sb_logstart sb) sz bs E X" and "lh_n s = n"
  shows "\<exists>s'. initlog h ROOTDEV sb s = Some s' \<and> will_be (sb_logstart sb) sz [] (disk s') X \<and> booted h pr (sb_logstart sb) (disk s') s'
    \<and> lh_n s' = 0 \<and> l_size s' = sb_nlog sb \<and> l_outstanding s' = l_outstanding s \<and> l_committing s' = l_committing s"
proof -
  let ?s = "(initlock log_lock ''log'' s)\<lparr>l_start := sb_logstart sb, l_size := sb_nlog sb, l_dev := ROOTDEV\<rparr>"
  have "in_call h pr (initlock log_lock ''log'' s)" using initlock_call [OF cacheD(1) [OF c]] .
  then have "in_call h pr ?s" by (subst in_call_cong) auto
  then have "cache h pr E Map.empty (\<lambda>_. 0) ?s" using c by (simp add: cache_def buffers_def lru_def initlock_def)
  then have "booted h pr (sb_logstart sb) E ?s" by (rule bootedI) simp_all
  from recover_ok [OF this w] show ?thesis
    by (auto simp: initlog_def LOGSIZE_def MAXOPBLOCKS_def BSIZE_def initlock_def)
qed

text \<open>The machine of \<open>kbio0\<close> with a log of 30 blocks at block 256, which is empty.\<close>

definition klog0 :: klog where
  "klog0 = kbio.extend kbio0 \<lparr>l_start = 256, l_size = 30, l_outstanding = 0, l_committing = 0, l_dev = ROOTDEV, lh_n = 0, lh_block = (\<lambda>_. 0)\<rparr>"

lemma klog0_idle: "log_idle 0 3 256 30 (\<lambda>n _. ucast n) (\<lambda>_. 0) klog0"
proof -
  have b: "bufs klog0 = bufs kbio0" "slks klog0 = slks kbio0" "disk klog0 = disk kbio0" "procs klog0 = procs kbio0" "cpus klog0 = cpus kbio0"
    "sie klog0 = sie kbio0" "lks klog0 = lks kbio0" by (simp_all add: klog0_def kbio.defs)
  have "in_call 0 3 klog0" using cacheD(1) [OF kbio0_cache] b by (auto simp: in_call_def calm_iff hart_ok_def at_rest_def free_lock_def)
  then have "cache 0 3 (\<lambda>n _. ucast n) Map.empty (\<lambda>_. 0) klog0" using kbio0_cache b by (simp add: cache_def buffers_def lru_def)
  moreover have "ld32 0 (disk klog0 256) = 0" by (simp add: b kbio0_disk ld32_def)
  ultimately show ?thesis
    by (simp add: log_idle_def txn_def b kbio0_disk log_list_def log_fits_def NBUF_def) (simp add: klog0_def kbio.defs)
qed

theorem operation_atomic_witness:
  "\<exists>s'. operation 0 [(5, \<lambda>_. 9), (6, \<lambda>_. 8)] klog0 = Some s' \<and> disk s' 5 0 = 9 \<and> disk s' 6 0 = 8 \<and> disk s' 7 0 = 7"
proof -
  have nl: "\<not> in_log 256 30 n" if "n < 256" for n using that by (simp add: in_log_def word_less_nat_alt)
  obtain s' V' where s': "operation 0 [(5, \<lambda>_. 9), (6, \<lambda>_. 8)] klog0 = Some s'" "log_idle 0 3 256 30 V' (\<lambda>_. 0) s'"
    "\<And>n. \<not> in_log 256 30 n \<Longrightarrow> V' n = apply_writes [(5, \<lambda>_. 9), (6, \<lambda>_. 8)] (\<lambda>n _. ucast n) n"
    using operation_atomic [OF klog0_idle, of "[(5, \<lambda>_. 9), (6, \<lambda>_. 8)]"] nl by (auto simp: MAXOPBLOCKS_def NBUF_def)
  have "V' = disk s'" using s'(2) by (simp add: log_idle_def)
  then show ?thesis using s'(1) s'(3) [of 5] s'(3) [of 6] s'(3) [of 7] nl by (simp add: apply_writes_def)
qed

theorem begin_op_reserves_witness: "begin_op 0 klog0 = Some (Returns () (klog0\<lparr>l_outstanding := 1\<rparr>))"
proof -
  have "in_call 0 3 klog0" "lh_n klog0 = 0" "l_outstanding klog0 = 0" "l_committing klog0 = 0"
    using klog0_idle cacheD(1) by (auto simp: log_idle_def txn_def)
  then show ?thesis using begin_op_reserves [of 0 3 klog0 0 0] by (simp add: LOGSIZE_def MAXOPBLOCKS_def)
qed

text \<open>A transaction in progress that has changed block 5.\<close>

lemma klog0_txn:
  "\<exists>s :: klog. txn 0 3 256 30 [5] ((\<lambda>n _. ucast n)(5 := (\<lambda>_. 9))) Map.empty ((\<lambda>_. 0)(5 := 1)) s \<and> disk s = (\<lambda>n _. ucast n)
     \<and> l_size s = 30 \<and> l_outstanding s = 1"
proof -
  let ?s = "klog0\<lparr>l_outstanding := 1\<rparr>"
  have "txn 0 3 256 30 [] (\<lambda>n _. ucast n) Map.empty (\<lambda>_. 0) ?s" "disk klog0 = (\<lambda>n _. ucast n)" "l_size klog0 = 30"
    using klog0_idle cache_cong [of ?s klog0] by (auto simp: log_idle_def txn_def)
  from log_write_correct_all [OF this(1), of 5 "\<lambda>_. 9"] this(2,3) show ?thesis
    by (auto simp: in_log_def LOGSIZE_def MAXOPBLOCKS_def NBUF_def)
qed

theorem log_write_correct_witness:
  "\<exists>(s :: klog) b s1 s2 s'. bread 0 ROOTDEV 7 s = Some (b, s1) \<and> log_write 0 b (put_data b (\<lambda>_. 1) s1) = Some s2 \<and> brelse 0 b s2 = Some s'
    \<and> lh_n s' = 2 \<and> disk s' = disk s"
proof -
  obtain s :: klog where s: "txn 0 3 256 30 [5] ((\<lambda>n _. ucast n)(5 := (\<lambda>_. 9))) Map.empty ((\<lambda>_. 0)(5 := 1)) s" "l_size s = 30"
    "l_outstanding s = 1" using klog0_txn by blast
  have "{n :: uint. ((\<lambda>_. 0)(5 := 1)) n > (0::nat)} = {5}" by auto
  then have "Suc (card {n :: uint. ((\<lambda>_. 0)(5 := 1)) n > (0::nat)}) < NBUF" by (simp add: NBUF_def)
  from log_write_correct [OF s(1) _ _ _ _ _ _ this, of 7 "\<lambda>_. 1"] s(2,3) obtain b s1 s2 s' where
    "bread 0 ROOTDEV 7 s = Some (b, s1)" "log_write 0 b (put_data b (\<lambda>_. 1) s1) = Some s2" "brelse 0 b s2 = Some s'"
    "lh_n s' = 2" "disk s' = disk s"
    by (auto simp: in_log_def LOGSIZE_def MAXOPBLOCKS_def txn_def)
  then show ?thesis by blast
qed

end
