(* ===== verification/Txn.thy ===== *)
theory Txn
  imports Log
begin

text \<open>
  A transaction as the file system (\<open>labo2/kernel/fs.c\<close>) uses it: the blocks of the disk are read with \<open>bread\<close>,
  changed with \<open>log_write\<close> and given back with \<open>brelse\<close>. The laws of these calls are stated as an interface
  (\<open>block_store\<close>) in which reference counts, the list of the log and the ring of buffers do not occur.
\<close>

subsection \<open>The interface\<close>

text \<open>
  \<open>inv B H V s\<close>: the transaction has changed the blocks \<open>B\<close>, the thread holds the buffers \<open>H\<close>, and the blocks have the
  contents \<open>V\<close>. \<open>ok\<close> are the blocks that may be used, and there are buffers and log blocks for \<open>cap\<close> of them.
\<close>

locale block_store =
  fixes inv :: "'n set \<Rightarrow> ('n \<rightharpoonup> 'b) \<Rightarrow> ('n \<Rightarrow> 'd) \<Rightarrow> 's \<Rightarrow> bool" and ok :: "'n \<Rightarrow> bool" and cap :: nat
    and read :: "'n \<Rightarrow> 's \<Rightarrow> ('b \<times> 's) option" and store :: "'b \<Rightarrow> 'd \<Rightarrow> 's \<Rightarrow> 's option" and rel :: "'b \<Rightarrow> 's \<Rightarrow> 's option"
    and data :: "'s \<Rightarrow> 'b \<Rightarrow> 'd"
  assumes read_ok: "inv B H V s \<Longrightarrow> H n = None \<Longrightarrow> ok n \<Longrightarrow> card (B \<union> dom H \<union> {n}) \<le> cap
      \<Longrightarrow> \<exists>b s'. read n s = Some (b, s') \<and> inv B (H(n \<mapsto> b)) V s'"
    and data_ok: "inv B H V s \<Longrightarrow> H n = Some b \<Longrightarrow> data s b = V n"
    and store_ok: "inv B H V s \<Longrightarrow> H n = Some b \<Longrightarrow> ok n \<Longrightarrow> card (insert n B) \<le> cap
      \<Longrightarrow> \<exists>s'. store b d s = Some s' \<and> inv (insert n B) H (V(n := d)) s'"
    and rel_ok: "inv B H V s \<Longrightarrow> H n = Some b \<Longrightarrow> \<exists>s'. rel b s = Some s' \<and> inv B (H(n := None)) V s'"
    and finite_ok: "inv B H V s \<Longrightarrow> finite (B \<union> dom H)"
begin

lemma read_one:
  assumes "inv B H V s" and "H n = None" and "ok n" and "card (B \<union> dom H \<union> {n}) \<le> cap"
  shows "\<exists>b s' s''. read n s = Some (b, s') \<and> data s' b = V n \<and> inv B (H(n \<mapsto> b)) V s' \<and> rel b s' = Some s'' \<and> inv B H V s''"
proof -
  obtain b s' where s': "read n s = Some (b, s')" "inv B (H(n \<mapsto> b)) V s'" using read_ok [OF assms] by blast
  obtain s'' where s'': "rel b s' = Some s''" "inv B ((H(n \<mapsto> b))(n := None)) V s''" using rel_ok [OF s'(2), of n b] by auto
  have "(H(n \<mapsto> b))(n := None) = H" using assms(2) by (auto simp: fun_eq_iff)
  then show ?thesis using s' s'' data_ok [OF s'(2), of n b] by auto
qed

lemma change_one:
  assumes "inv B H V s" and "H n = None" and "ok n" and "card (B \<union> dom H \<union> {n}) \<le> cap"
  shows "\<exists>b s'. read n s = Some (b, s') \<and> data s' b = V n \<and> inv B (H(n \<mapsto> b)) V s'
    \<and> (\<forall>d. \<exists>s'' s'''. store b d s' = Some s'' \<and> rel b s'' = Some s''' \<and> inv (insert n B) H (V(n := d)) s''')"
proof -
  obtain b s' where s': "read n s = Some (b, s')" "inv B (H(n \<mapsto> b)) V s'" using read_ok [OF assms] by blast
  have "card (insert n B) \<le> card (B \<union> dom H \<union> {n})" using finite_ok [OF assms(1)] by (intro card_mono) auto
  then have c: "card (insert n B) \<le> cap" using assms(4) by simp
  have "\<exists>s'' s'''. store b d s' = Some s'' \<and> rel b s'' = Some s''' \<and> inv (insert n B) H (V(n := d)) s'''" for d
  proof -
    obtain s'' where s'': "store b d s' = Some s''" "inv (insert n B) (H(n \<mapsto> b)) (V(n := d)) s''"
      using store_ok [OF s'(2) _ assms(3) c, of b d] by auto
    obtain s''' where s''': "rel b s'' = Some s'''" "inv (insert n B) ((H(n \<mapsto> b))(n := None)) (V(n := d)) s'''"
      using rel_ok [OF s''(2), of n b] by auto
    have "(H(n \<mapsto> b))(n := None) = H" using assms(2) by (auto simp: fun_eq_iff)
    then show ?thesis using s'' s''' by auto
  qed
  then show ?thesis using s' data_ok [OF s'(2), of n b] by auto
qed

end

subsection \<open>The log as a block store\<close>

text \<open>What such a call leaves alone: everything but the cache and the list of the log.\<close>

definition only_log :: "nat \<Rightarrow> 'a klog_scheme \<Rightarrow> 'a klog_scheme \<Rightarrow> bool" where
  "only_log pr s s' \<longleftrightarrow> s' = s\<lparr>slks := slks s', procs := procs s', bufs := bufs s', lh_n := lh_n s', lh_block := lh_block s'\<rparr>
     \<and> (\<forall>p. \<exists>st. procs s' p = (procs s p)\<lparr>p_state := st\<rparr>) \<and> procs s' pr = procs s pr
     \<and> (\<forall>lk. (\<forall>b. lk \<noteq> buf_lock b) \<longrightarrow> slks s' lk = slks s lk)"

lemma only_logD: "only_log pr s s' \<Longrightarrow> \<exists>a b c d e. s' = s\<lparr>slks := a, procs := b, bufs := c, lh_n := d, lh_block := e\<rparr>"
  unfolding only_log_def by blast

lemma only_log_refl: "only_log pr s s"
  by (simp add: only_log_def)

lemma only_log_trans:
  assumes "only_log pr s s'" and "only_log pr s' s''"
  shows "only_log pr s s''"
proof -
  obtain a b c d e where 1: "s' = s\<lparr>slks := a, procs := b, bufs := c, lh_n := d, lh_block := e\<rparr>" using only_logD [OF assms(1)] by blast
  obtain f g i j k where 2: "s'' = s'\<lparr>slks := f, procs := g, bufs := i, lh_n := j, lh_block := k\<rparr>" using only_logD [OF assms(2)] by blast
  have "\<exists>st. procs s'' p = (procs s p)\<lparr>p_state := st\<rparr>" for p
  proof -
    obtain a b where "procs s' p = (procs s p)\<lparr>p_state := a\<rparr>" "procs s'' p = (procs s' p)\<lparr>p_state := b\<rparr>"
      using assms unfolding only_log_def by metis
    then show ?thesis by auto
  qed
  moreover have "s'' = s\<lparr>slks := slks s'', procs := procs s'', bufs := bufs s'', lh_n := lh_n s'', lh_block := lh_block s''\<rparr>"
    unfolding 2 1 by simp
  moreover have "procs s'' pr = procs s pr" "\<forall>lk. (\<forall>b. lk \<noteq> buf_lock b) \<longrightarrow> slks s'' lk = slks s lk"
    using assms by (simp_all add: only_log_def)
  ultimately show ?thesis unfolding only_log_def by blast
qed

lemma only_cache_only_log:
  fixes s :: "'a klog_scheme"
  assumes "only_cache pr s s'" and "disk s' = disk s" and "dwrites s' = dwrites s"
  shows "only_log pr s s'"
proof -
  have "s' = s\<lparr>slks := slks s', procs := procs s', bufs := bufs s', disk := disk s', dwrites := dwrites s'\<rparr>"
    using assms(1) unfolding only_cache_def by (rule conjunct1)
  then obtain a b c where s': "s' = s\<lparr>slks := a, procs := b, bufs := c, disk := disk s, dwrites := dwrites s\<rparr>" using assms(2,3) by metis
  have "s' = s\<lparr>slks := slks s', procs := procs s', bufs := bufs s', lh_n := lh_n s', lh_block := lh_block s'\<rparr>" unfolding s' by simp
  then show ?thesis using assms(1) unfolding only_log_def only_cache_def by blast
qed

definition refs :: "uint set \<Rightarrow> (uint \<rightharpoonup> nat) \<Rightarrow> uint \<Rightarrow> nat" where
  "refs B H n = (if n \<in> B then 1 else 0) + (if H n = None then 0 else 1)"

lemma refs_pos: "{n. refs B H n > 0} = B \<union> dom H"
  by (auto simp: refs_def split: if_splits)

lemma refs_small: "refs B H n + 1 < 2 ^ 32"
  by (simp add: refs_def)

lemma refs_B: "n \<in> B \<Longrightarrow> refs B H n > 0"
  by (simp add: refs_def)

lemma refs_upd:
  "H n = None \<Longrightarrow> (refs B H)(n := refs B H n + 1) = refs B (H(n \<mapsto> b))"
  "H n = Some b \<Longrightarrow> (refs B H)(n := refs B H n - 1) = refs B (H(n := None))"
  "n \<notin> B \<Longrightarrow> (refs B H)(n := refs B H n + 1) = refs (insert n B) H"
  by (auto simp: refs_def fun_eq_iff)

definition in_tx ::
  "nat \<Rightarrow> nat \<Rightarrow> uint \<Rightarrow> nat \<Rightarrow> 'a klog_scheme \<Rightarrow> uint set \<Rightarrow> (uint \<rightharpoonup> nat) \<Rightarrow> (uint \<Rightarrow> block) \<Rightarrow> 'a klog_scheme \<Rightarrow> bool" where
  "in_tx h pr st sz s0 B H V s \<longleftrightarrow> (\<exists>bs. txn h pr st sz bs V H (refs B H) s \<and> set bs = B) \<and> l_size s = of_nat sz
     \<and> sint (l_outstanding s) \<ge> 1 \<and> (\<forall>n. n \<notin> B \<longrightarrow> V n = disk s n) \<and> only_log pr s0 s"

text \<open>
  The bound on the blocks in use at the same time: one buffer has to be left for the commit, and
  \<open>log_write\<close> refuses to fill the log area.
\<close>

definition tx_cap :: "nat \<Rightarrow> nat" where
  "tx_cap sz = min (LOGSIZE - 1) (sz - 2)"

lemma in_tx_read:
  fixes s :: "'a klog_scheme"
  assumes i: "in_tx h pr st sz s0 B H V s" and n: "H n = None" "\<not> in_log st sz n" and cap: "card (B \<union> dom H \<union> {n}) \<le> tx_cap sz"
  shows "\<exists>b s'. bread h ROOTDEV n s = Some (b, s') \<and> in_tx h pr st sz s0 B (H(n \<mapsto> b)) V s'"
proof -
  obtain bs where t: "txn h pr st sz bs V H (refs B H) s" and f: "set bs = B" "l_size s = of_nat sz" "sint (l_outstanding s) \<ge> 1"
    "\<And>n. n \<notin> B \<Longrightarrow> V n = disk s n" "only_log pr s0 s" using i by (auto simp: in_tx_def)
  note D = txnD [OF t]
  have u: "(B \<union> dom H) \<union> {n} = B \<union> dom H \<union> {n}" by simp
  have lt: "card (B \<union> dom H \<union> {n}) < NBUF" using cap by (simp add: tx_cap_def LOGSIZE_def MAXOPBLOCKS_def NBUF_def)
  have "card (B \<union> dom H) \<le> card (B \<union> dom H \<union> {n})" by (rule card_mono) auto
  then have room: "card {m. refs B H m > 0} < NBUF" unfolding refs_pos using lt by simp
  obtain b s' where b: "bread h ROOTDEV n s = Some (b, s')" "cache h pr V (H(n \<mapsto> b)) (refs B (H(n \<mapsto> b))) s'"
    "only_cache pr s s'" "disk s' = disk s" "dwrites s' = dwrites s"
  proof -
    have "refs B H n + 1 < 2 ^ 32" by (simp add: refs_def)
    from bread_law [OF D(1) n(1) this room] show thesis using that refs_upd(1) [of H n B, OF n(1)] by auto
  qed
  note o = only_cache_log [OF b(3)]
  have "refs B (H(n \<mapsto> b)) m = 0" if "in_log st sz m" for m using D(9) [OF that] that n(2) by (auto simp: refs_def split: if_splits)
  moreover have "dom (H(n \<mapsto> b)) = insert n (dom H)" by simp
  ultimately have "txn h pr st sz bs V (H(n \<mapsto> b)) (refs B (H(n \<mapsto> b))) s'"
    unfolding txn_def refs_pos using b o D(2-6,11) refs_small refs_B [of _ B] f(1) lt by simp
  then show ?thesis using b f o only_log_trans [OF f(5) only_cache_only_log [OF b(3-5)]] by (auto simp: in_tx_def)
qed

lemma in_tx_data: "in_tx h pr st sz s0 B H V s \<Longrightarrow> H n = Some b \<Longrightarrow> b_data (bufs s b) = V n"
  using cache_held(4) [of h pr V H "refs B H" s n b] by (auto simp: in_tx_def txn_def)

lemma in_tx_store:
  fixes s :: "'a klog_scheme"
  assumes i: "in_tx h pr st sz s0 B H V s" and n: "H n = Some b" "\<not> in_log st sz n" and cap: "card (insert n B) \<le> tx_cap sz"
  shows "\<exists>s'. log_write h b (put_data b d s) = Some s' \<and> in_tx h pr st sz s0 (insert n B) H (V(n := d)) s'"
proof -
  obtain bs where t: "txn h pr st sz bs V H (refs B H) s" and f: "set bs = B" "l_size s = of_nat sz" "sint (l_outstanding s) \<ge> 1"
    "\<And>n. n \<notin> B \<Longrightarrow> V n = disk s n" "only_log pr s0 s" using i by (auto simp: in_tx_def)
  note D = txnD [OF t]
  let ?s = "put_data b d s" and ?bs = "if n \<in> set bs then bs else bs @ [n]"
  have c: "cache h pr (V(n := d)) H (refs B H) ?s" using modify_law [OF D(1) n(1), of d] by (simp add: put_data_def)
  have s: "l_dev ?s = l_dev s" "l_start ?s = l_start s" "l_size ?s = l_size s" "l_outstanding ?s = l_outstanding s" "lh_n ?s = lh_n s"
    "lh_block ?s = lh_block s" "disk ?s = disk s" by (simp_all add: put_data_def)
  have t': "txn h pr st sz bs (V(n := d)) H (refs B H) ?s" using t c s by (simp add: txn_def)
  have db: "distinct bs" using log_listD(4) [OF D(4)] .
  have "card (insert n B) = (if n \<in> set bs then length bs else Suc (length bs))"
    using db f(1) by (auto simp: distinct_card [symmetric] card_insert_if insert_absorb)
  moreover have "n \<in> set bs \<Longrightarrow> 0 < length bs" by (cases bs) auto
  ultimately have len: "length bs < LOGSIZE" "Suc (length bs) < sz" using cap
    by (auto simp del: length_greater_0_conv simp: tx_cap_def LOGSIZE_def MAXOPBLOCKS_def split: if_splits)
  have "b_blockno (bufs ?s b) = n" using cache_held(5) [OF c n(1)] .
  then have w: "log_write h b ?s = Some (logs b n ?s)"
    using log_write_spec [OF cacheD(1) [OF c], of "length bs" b] D(5) s len f(2,3) log_fits_size [OF log_listD(1) [OF D(4)]] by simp
  have "refs B H n + 2 < 2 ^ 32" by (simp add: refs_def)
  from logs_txn [OF t' n(1,2) len this]
  have "txn h pr st sz ?bs (V(n := d)) H (refs (insert n B) H) (logs b n ?s)"
    using f(1) refs_upd(3) [of n B H] by (cases "n \<in> B") (auto simp: insert_absorb)
  moreover have "set ?bs = insert n B" using f(1) by auto
  moreover have "only_log pr s (logs b n ?s)"
    by (auto simp: only_log_def logs_def put_data_def upd_buf_def Let_def)
  moreover have "l_size (logs b n ?s) = of_nat sz" "sint (l_outstanding (logs b n ?s)) \<ge> 1" "disk (logs b n ?s) = disk s"
    using f(2,3) by (simp_all add: logs_def put_data_def Let_def)
  ultimately show ?thesis using w f(4) only_log_trans [OF f(5), of "logs b n ?s"] unfolding in_tx_def by fastforce
qed

lemma in_tx_rel:
  fixes s :: "'a klog_scheme"
  assumes i: "in_tx h pr st sz s0 B H V s" and n: "H n = Some b"
  shows "\<exists>s'. brelse h b s = Some s' \<and> in_tx h pr st sz s0 B (H(n := None)) V s'"
proof -
  obtain bs where t: "txn h pr st sz bs V H (refs B H) s" and f: "set bs = B" "l_size s = of_nat sz" "sint (l_outstanding s) \<ge> 1"
    "\<And>n. n \<notin> B \<Longrightarrow> V n = disk s n" "only_log pr s0 s" using i by (auto simp: in_tx_def)
  note D = txnD [OF t]
  have "refs B H n > 1 \<or> disk s n = V n" using n f(4) [of n] by (auto simp: refs_def)
  from brelse_law [OF D(1) n this] obtain s' where b: "brelse h b s = Some s'" "cache h pr V (H(n := None)) (refs B (H(n := None))) s'"
    "only_cache pr s s'" "disk s' = disk s" "dwrites s' = dwrites s" unfolding refs_upd(2) [of H n b B, OF n] by blast
  note o = only_cache_log [OF b(3)]
  have "card (B \<union> dom (H(n := None))) \<le> card (B \<union> dom H)" by (rule card_mono) (auto split: if_splits)
  then have "card (B \<union> dom (H(n := None))) < NBUF" using D(10) unfolding refs_pos by simp
  moreover have "refs B (H(n := None)) m = 0" if "in_log st sz m" for m using D(9) [OF that] by (auto simp: refs_def split: if_splits)
  ultimately have "txn h pr st sz bs V (H(n := None)) (refs B (H(n := None))) s'"
    unfolding txn_def refs_pos using b o D(2-6,11) refs_small refs_B [of _ B] f(1) by simp
  then show ?thesis using b f o only_log_trans [OF f(5) only_cache_only_log [OF b(3-5)]] by (auto simp: in_tx_def)
qed

interpretation tx: block_store "in_tx h pr st sz s0" "\<lambda>n. \<not> in_log st sz n" "tx_cap sz" "bread h ROOTDEV"
  "\<lambda>b d s. log_write h b (put_data b d s)" "brelse h" "\<lambda>s b. b_data (bufs s b)" for h pr st sz s0
  by unfold_locales (simp_all add: in_tx_read in_tx_data in_tx_store in_tx_rel)

end
