(* ===== verification/Fs.thy ===== *)
theory Fs
  imports Txn
begin

text \<open>
  \<open>labo2/kernel/fs.c\<close>, first part: the allocator for disk blocks, the inode table, and the contents of files.
  Inodes are entries of \<open>itable\<close>, named by their index; as in theory \<open>Bio\<close> the functions are followed
  through one kernel thread, and \<open>None\<close> is a panic or a wait for another thread.
\<close>

subsection \<open>State\<close>

definition FSMAGIC :: uint where "FSMAGIC = 0x10203040"
definition NDIRECT :: nat where "NDIRECT = 12"
definition NINDIRECT :: nat where "NINDIRECT = BSIZE div 4"
definition MAXFILE :: nat where "MAXFILE = NDIRECT + NINDIRECT"
definition BPB :: nat where "BPB = BSIZE * 8"
definition IPB :: nat where "IPB = BSIZE div 64"
definition NINODE :: nat where "NINODE = 50"

definition T_DIR :: ushort where "T_DIR = 1"
definition T_FILE :: ushort where "T_FILE = 2"
definition T_DEVICE :: ushort where "T_DEVICE = 3"

record inode =
  i_dev :: uint
  i_inum :: uint
  i_ref :: cint
  i_valid :: bool
  i_type :: ushort
  i_major :: ushort
  i_minor :: ushort
  i_nlink :: ushort
  i_size :: uint
  i_addrs :: "nat \<Rightarrow> uint"

record kfs = klog +
  fs_sb :: superblock
  inodes :: "nat \<Rightarrow> inode"

definition upd_inode :: "nat \<Rightarrow> (inode \<Rightarrow> inode) \<Rightarrow> 'a kfs_scheme \<Rightarrow> 'a kfs_scheme" where
  "upd_inode ip f s = s\<lparr>inodes := (inodes s)(ip := f (inodes s ip))\<rparr>"

definition BBLOCK :: "nat \<Rightarrow> superblock \<Rightarrow> uint" where
  "BBLOCK b sb = of_nat (b div BPB) + sb_bmapstart sb"

definition IBLOCK :: "uint \<Rightarrow> superblock \<Rightarrow> uint" where
  "IBLOCK i sb = of_nat (unat i div IPB) + sb_inodestart sb"

subsection \<open>The superblock\<close>

definition readsb :: "nat \<Rightarrow> uint \<Rightarrow> 'a kfs_scheme \<Rightarrow> 'a kfs_scheme option" where
  "readsb h dev s = do {
     (bp, s) \<leftarrow> bread h dev 1 s;
     let d = b_data (bufs s bp);
     let s = s\<lparr>fs_sb := \<lparr>sb_magic = ld32 0 d, sb_size = ld32 4 d, sb_nblocks = ld32 8 d, sb_ninodes = ld32 12 d,
       sb_nlog = ld32 16 d, sb_logstart = ld32 20 d, sb_inodestart = ld32 24 d, sb_bmapstart = ld32 28 d\<rparr>\<rparr>;
     brelse h bp s }"

definition fsinit :: "nat \<Rightarrow> cint \<Rightarrow> 'a kfs_scheme \<Rightarrow> 'a kfs_scheme option" where
  "fsinit h dev s = do {
     s \<leftarrow> readsb h dev s;
     if sb_magic (fs_sb s) \<noteq> FSMAGIC then None else initlog h dev (fs_sb s) s }"

subsection \<open>Blocks\<close>

definition bzero :: "nat \<Rightarrow> uint \<Rightarrow> uint \<Rightarrow> 'a kfs_scheme \<Rightarrow> 'a kfs_scheme option" where
  "bzero h dev bno s = do {
     (bp, s) \<leftarrow> bread h dev bno s;
     s \<leftarrow> log_write h bp (put_data bp (\<lambda>_. 0) s);
     brelse h bp s }"

text \<open>\<open>m = 1 << (bi % 8)\<close>; \<open>data[bi/8] & m\<close>, \<open>data[bi/8] |= m\<close>, \<open>data[bi/8] &= ~m\<close>\<close>

definition bm_test :: "nat \<Rightarrow> block \<Rightarrow> bool" where
  "bm_test bi d \<longleftrightarrow> d (bi div 8) AND push_bit (bi mod 8) 1 \<noteq> 0"

definition bm_set :: "nat \<Rightarrow> block \<Rightarrow> block" where
  "bm_set bi d = d(bi div 8 := d (bi div 8) OR push_bit (bi mod 8) 1)"

definition bm_clear :: "nat \<Rightarrow> block \<Rightarrow> block" where
  "bm_clear bi d = d(bi div 8 := d (bi div 8) AND NOT (push_bit (bi mod 8) 1))"

text \<open>The loop over the blocks of the bitmap; the list holds the values of \<open>b\<close> that are left.\<close>

fun balloc_loop :: "nat \<Rightarrow> uint \<Rightarrow> nat list \<Rightarrow> 'a kfs_scheme \<Rightarrow> (uint \<times> 'a kfs_scheme) option" where
  "balloc_loop h dev [] s = Some (0, kprintf (''balloc: out of blocks'' @ [CHR 0x0A]) s)"
| "balloc_loop h dev (b # bs) s = do {
     (bp, s) \<leftarrow> bread h dev (BBLOCK b (fs_sb s)) s;
     case List.find (\<lambda>bi. \<not> bm_test bi (b_data (bufs s bp))) [0..<min BPB (unat (sb_size (fs_sb s)) - b)] of
       Some bi \<Rightarrow> do {
         s \<leftarrow> log_write h bp (put_data bp (bm_set bi (b_data (bufs s bp))) s);
         s \<leftarrow> brelse h bp s;
         s \<leftarrow> bzero h dev (of_nat (b + bi)) s;
         Some (of_nat (b + bi), s) }
     | None \<Rightarrow> do {
         s \<leftarrow> brelse h bp s;
         balloc_loop h dev bs s } }"

definition balloc :: "nat \<Rightarrow> uint \<Rightarrow> 'a kfs_scheme \<Rightarrow> (uint \<times> 'a kfs_scheme) option" where
  "balloc h dev s = balloc_loop h dev (map (\<lambda>i. i * BPB) [0..<(unat (sb_size (fs_sb s)) + BPB - 1) div BPB]) s"

definition bfree :: "nat \<Rightarrow> uint \<Rightarrow> uint \<Rightarrow> 'a kfs_scheme \<Rightarrow> 'a kfs_scheme option" where
  "bfree h dev b s = do {
     (bp, s) \<leftarrow> bread h dev (BBLOCK (unat b) (fs_sb s)) s;
     let bi = unat b mod BPB;
     if \<not> bm_test bi (b_data (bufs s bp)) then None
     else do {
       s \<leftarrow> log_write h bp (put_data bp (bm_clear bi (b_data (bufs s bp))) s);
       brelse h bp s } }"

subsection \<open>Inodes\<close>

text \<open>The \<open>struct dinode\<close> at byte \<open>a\<close> of a block: four shorts, the size, and the block numbers.\<close>

definition ld16 :: "nat \<Rightarrow> block \<Rightarrow> ushort" where
  "ld16 a d = ucast (d a) OR push_bit 8 (ucast (d (a + 1)))"

definition st16 :: "nat \<Rightarrow> ushort \<Rightarrow> block \<Rightarrow> block" where
  "st16 a v d = d(a := ucast v, a + 1 := ucast (drop_bit 8 v))"

definition dinode_at :: "uint \<Rightarrow> nat" where
  "dinode_at inum = 64 * (unat inum mod IPB)"

definition dinode_put :: "nat \<Rightarrow> inode \<Rightarrow> block \<Rightarrow> block" where
  "dinode_put a ip d =
     (let d = st16 a (i_type ip) d;
          d = st16 (a + 2) (i_major ip) d;
          d = st16 (a + 4) (i_minor ip) d;
          d = st16 (a + 6) (i_nlink ip) d;
          d = st32 (a + 8) (i_size ip) d
      in fold (\<lambda>k. st32 (a + 12 + 4 * k) (i_addrs ip k)) [0..<NDIRECT + 1] d)"

definition dinode_get :: "nat \<Rightarrow> block \<Rightarrow> inode \<Rightarrow> inode" where
  "dinode_get a d ip = ip\<lparr>i_type := ld16 a d, i_major := ld16 (a + 2) d, i_minor := ld16 (a + 4) d, i_nlink := ld16 (a + 6) d,
     i_size := ld32 (a + 8) d, i_addrs := (\<lambda>k. if k < NDIRECT + 1 then ld32 (a + 12 + 4 * k) d else i_addrs ip k)\<rparr>"

definition iinit :: "'a kfs_scheme \<Rightarrow> 'a kfs_scheme" where
  "iinit s = fold (\<lambda>i s. initsleeplock (inode_lock i) ''inode'' s) [0..<NINODE] (initlock itable_lock ''itable'' s)"

text \<open>
  \<open>iget\<close>: the loop looks for the entry of the inode and, until it has found it, for the first free entry.
\<close>

definition iget :: "nat \<Rightarrow> uint \<Rightarrow> uint \<Rightarrow> 'a kfs_scheme \<Rightarrow> (nat \<times> 'a kfs_scheme) option" where
  "iget h dev inum s = do {
     s \<leftarrow> acquire h itable_lock s;
     case List.find (\<lambda>i. sint (i_ref (inodes s i)) > 0 \<and> i_dev (inodes s i) = dev \<and> i_inum (inodes s i) = inum) [0..<NINODE] of
       Some ip \<Rightarrow> do {
         s \<leftarrow> release h itable_lock (upd_inode ip (\<lambda>i. i\<lparr>i_ref := i_ref i + 1\<rparr>) s);
         Some (ip, s) }
     | None \<Rightarrow> do {
         ip \<leftarrow> List.find (\<lambda>i. i_ref (inodes s i) = 0) [0..<NINODE];
         s \<leftarrow> release h itable_lock (upd_inode ip (\<lambda>i. i\<lparr>i_dev := dev, i_inum := inum, i_ref := 1, i_valid := False\<rparr>) s);
         Some (ip, s) } }"

text \<open>The loop of \<open>ialloc\<close> over the inode numbers that are left.\<close>

fun ialloc_loop :: "nat \<Rightarrow> uint \<Rightarrow> ushort \<Rightarrow> nat list \<Rightarrow> 'a kfs_scheme \<Rightarrow> (nat option \<times> 'a kfs_scheme) option" where
  "ialloc_loop h dev ty [] s = Some (None, kprintf (''ialloc: no inodes'' @ [CHR 0x0A]) s)"
| "ialloc_loop h dev ty (inum # ns) s = do {
     (bp, s) \<leftarrow> bread h dev (IBLOCK (of_nat inum) (fs_sb s)) s;
     let a = dinode_at (of_nat inum);
     let d = b_data (bufs s bp);
     if ld16 a d = 0 then do {
       s \<leftarrow> log_write h bp (put_data bp (st16 a ty (\<lambda>i. if a \<le> i \<and> i < a + 64 then 0 else d i)) s);
       s \<leftarrow> brelse h bp s;
       (ip, s) \<leftarrow> iget h dev (of_nat inum) s;
       Some (Some ip, s) }
     else do {
       s \<leftarrow> brelse h bp s;
       ialloc_loop h dev ty ns s } }"

definition ialloc :: "nat \<Rightarrow> uint \<Rightarrow> ushort \<Rightarrow> 'a kfs_scheme \<Rightarrow> (nat option \<times> 'a kfs_scheme) option" where
  "ialloc h dev ty s = ialloc_loop h dev ty [1..<unat (sb_ninodes (fs_sb s))] s"

definition iupdate :: "nat \<Rightarrow> nat \<Rightarrow> 'a kfs_scheme \<Rightarrow> 'a kfs_scheme option" where
  "iupdate h ip s = do {
     (bp, s) \<leftarrow> bread h (i_dev (inodes s ip)) (IBLOCK (i_inum (inodes s ip)) (fs_sb s)) s;
     s \<leftarrow> log_write h bp (put_data bp (dinode_put (dinode_at (i_inum (inodes s ip))) (inodes s ip) (b_data (bufs s bp))) s);
     brelse h bp s }"

definition idup :: "nat \<Rightarrow> nat \<Rightarrow> 'a kfs_scheme \<Rightarrow> (nat \<times> 'a kfs_scheme) option" where
  "idup h ip s = do {
     s \<leftarrow> acquire h itable_lock s;
     s \<leftarrow> release h itable_lock (upd_inode ip (\<lambda>i. i\<lparr>i_ref := i_ref i + 1\<rparr>) s);
     Some (ip, s) }"

definition ilock :: "nat \<Rightarrow> nat \<Rightarrow> 'a kfs_scheme \<Rightarrow> 'a kfs_scheme option" where
  "ilock h ip s =
     (if sint (i_ref (inodes s ip)) < 1 then None
      else do {
        s \<leftarrow> getsleep h (inode_lock ip) s;
        if \<not> i_valid (inodes s ip) then do {
          (bp, s) \<leftarrow> bread h (i_dev (inodes s ip)) (IBLOCK (i_inum (inodes s ip)) (fs_sb s)) s;
          let s = upd_inode ip (dinode_get (dinode_at (i_inum (inodes s ip))) (b_data (bufs s bp))) s;
          s \<leftarrow> brelse h bp s;
          let s = upd_inode ip (\<lambda>i. i\<lparr>i_valid := True\<rparr>) s;
          if i_type (inodes s ip) = 0 then None else Some s }
        else Some s })"

definition iunlock :: "nat \<Rightarrow> nat \<Rightarrow> 'a kfs_scheme \<Rightarrow> 'a kfs_scheme option" where
  "iunlock h ip s = do {
     (mine, s) \<leftarrow> holdingsleep h (inode_lock ip) s;
     if \<not> mine \<or> sint (i_ref (inodes s ip)) < 1 then None
     else releasesleep h (inode_lock ip) s }"

subsection \<open>The contents of a file\<close>

text \<open>\<open>addr = balloc(ip->dev)\<close> for an empty entry \<open>k\<close> of \<open>ip->addrs\<close>; 0 when the disk is full.\<close>

definition addrs_get :: "nat \<Rightarrow> nat \<Rightarrow> nat \<Rightarrow> 'a kfs_scheme \<Rightarrow> (uint \<times> 'a kfs_scheme) option" where
  "addrs_get h ip k s =
     (if i_addrs (inodes s ip) k = 0 then do {
        (addr, s) \<leftarrow> balloc h (i_dev (inodes s ip)) s;
        if addr = 0 then Some (0, s)
        else Some (addr, upd_inode ip (\<lambda>i. i\<lparr>i_addrs := (i_addrs i)(k := addr)\<rparr>) s) }
      else Some (i_addrs (inodes s ip) k, s))"

definition bmap :: "nat \<Rightarrow> nat \<Rightarrow> nat \<Rightarrow> 'a kfs_scheme \<Rightarrow> (uint \<times> 'a kfs_scheme) option" where
  "bmap h ip bn s =
     (if bn < NDIRECT then addrs_get h ip bn s
      else let bn = bn - NDIRECT in
        if bn < NINDIRECT then do {
          (addr, s) \<leftarrow> addrs_get h ip NDIRECT s;
          if addr = 0 then Some (0, s)
          else do {
            (bp, s) \<leftarrow> bread h (i_dev (inodes s ip)) addr s;
            let addr = ld32 (4 * bn) (b_data (bufs s bp));
            (addr, s) \<leftarrow> (if addr = 0 then do {
                (addr, s) \<leftarrow> balloc h (i_dev (inodes s ip)) s;
                if addr \<noteq> 0 then do {
                  s \<leftarrow> log_write h bp (put_data bp (st32 (4 * bn) addr (b_data (bufs s bp))) s);
                  Some (addr, s) }
                else Some (0, s) }
              else Some (addr, s));
            s \<leftarrow> brelse h bp s;
            Some (addr, s) } }
        else None)"

definition itrunc :: "nat \<Rightarrow> nat \<Rightarrow> 'a kfs_scheme \<Rightarrow> 'a kfs_scheme option" where
  "itrunc h ip s = do {
     s \<leftarrow> forM (\<lambda>i s. if i_addrs (inodes s ip) i \<noteq> 0 then do {
             s \<leftarrow> bfree h (i_dev (inodes s ip)) (i_addrs (inodes s ip) i) s;
             Some (upd_inode ip (\<lambda>n. n\<lparr>i_addrs := (i_addrs n)(i := 0)\<rparr>) s) }
           else Some s) [0..<NDIRECT] s;
     s \<leftarrow> (if i_addrs (inodes s ip) NDIRECT \<noteq> 0 then do {
             (bp, s) \<leftarrow> bread h (i_dev (inodes s ip)) (i_addrs (inodes s ip) NDIRECT) s;
             s \<leftarrow> forM (\<lambda>j s. let a = ld32 (4 * j) (b_data (bufs s bp)) in
                   if a \<noteq> 0 then bfree h (i_dev (inodes s ip)) a s else Some s) [0..<NINDIRECT] s;
             s \<leftarrow> brelse h bp s;
             s \<leftarrow> bfree h (i_dev (inodes s ip)) (i_addrs (inodes s ip) NDIRECT) s;
             Some (upd_inode ip (\<lambda>n. n\<lparr>i_addrs := (i_addrs n)(NDIRECT := 0)\<rparr>) s) }
           else Some s);
     iupdate h ip (upd_inode ip (\<lambda>n. n\<lparr>i_size := 0\<rparr>) s) }"

definition iput :: "nat \<Rightarrow> nat \<Rightarrow> 'a kfs_scheme \<Rightarrow> 'a kfs_scheme option" where
  "iput h ip s = do {
     s \<leftarrow> acquire h itable_lock s;
     s \<leftarrow> (if i_ref (inodes s ip) = 1 \<and> i_valid (inodes s ip) \<and> i_nlink (inodes s ip) = 0 then do {
             s \<leftarrow> getsleep h (inode_lock ip) s;
             s \<leftarrow> release h itable_lock s;
             s \<leftarrow> itrunc h ip s;
             s \<leftarrow> iupdate h ip (upd_inode ip (\<lambda>n. n\<lparr>i_type := 0\<rparr>) s);
             let s = upd_inode ip (\<lambda>n. n\<lparr>i_valid := False\<rparr>) s;
             s \<leftarrow> releasesleep h (inode_lock ip) s;
             acquire h itable_lock s }
           else Some s);
     release h itable_lock (upd_inode ip (\<lambda>n. n\<lparr>i_ref := i_ref n - 1\<rparr>) s) }"

definition iunlockput :: "nat \<Rightarrow> nat \<Rightarrow> 'a kfs_scheme \<Rightarrow> 'a kfs_scheme option" where
  "iunlockput h ip s = do { s \<leftarrow> iunlock h ip s; iput h ip s }"

record fstat =
  st_dev :: cint
  st_ino :: uint
  st_type :: ushort
  st_nlink :: ushort
  st_size :: uint64

definition stati :: "nat \<Rightarrow> 'a kfs_scheme \<Rightarrow> fstat" where
  "stati ip s = \<lparr>st_dev = i_dev (inodes s ip), st_ino = i_inum (inodes s ip), st_type = i_type (inodes s ip),
     st_nlink = i_nlink (inodes s ip), st_size = ucast (i_size (inodes s ip))\<rparr>"

text \<open>\<open>dst += m\<close> and \<open>src += m\<close>; \<open>m = min(n - tot, BSIZE - off%BSIZE)\<close>, where \<open>n\<close> counts what is left to do.\<close>

fun dest_add :: "dest \<Rightarrow> nat \<Rightarrow> dest" where
  "dest_add (DUser a) m = DUser (a + of_nat m)"
| "dest_add (DKern a) m = DKern (a + of_nat m)"
| "dest_add DLocal m = DLocal"

fun source_add :: "source \<Rightarrow> nat \<Rightarrow> source" where
  "source_add (SUser a) m = SUser (a + of_nat m)"
| "source_add (SLocal bs) m = SLocal (drop m bs)"

definition chunk :: "nat \<Rightarrow> uint \<Rightarrow> nat" where
  "chunk n off = min n (BSIZE - unat off mod BSIZE)"

lemma chunk_pos: "n \<noteq> 0 \<Longrightarrow> 0 < chunk n off" and chunk_le: "chunk n off \<le> n"
  by (auto simp: chunk_def BSIZE_def)

text \<open>
  The loop of \<open>readi\<close>. Besides \<open>tot\<close>, the result holds the bytes that were copied, which is what a caller
  that passes the address of a local variable finds there.
\<close>

function readi_loop ::
  "nat \<Rightarrow> nat \<Rightarrow> dest \<Rightarrow> uint \<Rightarrow> nat \<Rightarrow> uint \<Rightarrow> uchar list \<Rightarrow> 'a kfs_scheme \<Rightarrow> (uint \<times> uchar list \<times> 'a kfs_scheme) option" where
  "readi_loop h ip dst off n tot acc s =
     (if n = 0 then Some (tot, acc, s)
      else do {
        (addr, s) \<leftarrow> bmap h ip (unat off div BSIZE) s;
        if addr = 0 then Some (tot, acc, s)
        else do {
          (bp, s) \<leftarrow> bread h (i_dev (inodes s ip)) addr s;
          let m = chunk n off;
          let bs = map (b_data (bufs s bp)) [unat off mod BSIZE..<unat off mod BSIZE + m];
          (r, s) \<leftarrow> either_copyout h dst bs s;
          s \<leftarrow> brelse h bp s;
          if r = -1 then Some (-1, acc, s)
          else readi_loop h ip (dest_add dst m) (off + of_nat m) (n - m) (tot + of_nat m) (acc @ bs) s } })"
  by auto
termination
  by (relation "measure (\<lambda>(h, ip, dst, off, n, tot, acc, s). n)") (auto simp: chunk_pos)

definition readi :: "nat \<Rightarrow> nat \<Rightarrow> dest \<Rightarrow> uint \<Rightarrow> uint \<Rightarrow> 'a kfs_scheme \<Rightarrow> (uint \<times> uchar list \<times> 'a kfs_scheme) option" where
  "readi h ip dst off n s =
     (if off > i_size (inodes s ip) \<or> off + n < off then Some (0, [], s)
      else let n = (if off + n > i_size (inodes s ip) then i_size (inodes s ip) - off else n)
           in readi_loop h ip dst off (unat n) 0 [] s)"

text \<open>The loop of \<open>writei\<close>; it returns \<open>tot\<close> and the final \<open>off\<close>.\<close>

function writei_loop ::
  "nat \<Rightarrow> nat \<Rightarrow> source \<Rightarrow> uint \<Rightarrow> nat \<Rightarrow> uint \<Rightarrow> 'a kfs_scheme \<Rightarrow> (uint \<times> uint \<times> 'a kfs_scheme) option" where
  "writei_loop h ip src off n tot s =
     (if n = 0 then Some (tot, off, s)
      else do {
        (addr, s) \<leftarrow> bmap h ip (unat off div BSIZE) s;
        if addr = 0 then Some (tot, off, s)
        else do {
          (bp, s) \<leftarrow> bread h (i_dev (inodes s ip)) addr s;
          let m = chunk n off;
          let o' = unat off mod BSIZE;
          (r, bs, s) \<leftarrow> either_copyin h src m s;
          let s = put_data bp (\<lambda>i. if o' \<le> i \<and> i < o' + length bs then bs ! (i - o') else b_data (bufs s bp) i) s;
          if r = -1 then do {
            s \<leftarrow> brelse h bp s;
            Some (tot, off, s) }
          else do {
            s \<leftarrow> log_write h bp s;
            s \<leftarrow> brelse h bp s;
            writei_loop h ip (source_add src m) (off + of_nat m) (n - m) (tot + of_nat m) s } } })"
  by auto
termination
  by (relation "measure (\<lambda>(h, ip, src, off, n, tot, s). n)") (auto simp: chunk_pos)

declare readi_loop.simps [simp del] writei_loop.simps [simp del]

definition writei :: "nat \<Rightarrow> nat \<Rightarrow> source \<Rightarrow> uint \<Rightarrow> uint \<Rightarrow> 'a kfs_scheme \<Rightarrow> (uint \<times> 'a kfs_scheme) option" where
  "writei h ip src off n s =
     (if off > i_size (inodes s ip) \<or> off + n < off then Some (-1, s)
      else if unat (off + n) > MAXFILE * BSIZE then Some (-1, s)
      else do {
        (tot, off, s) \<leftarrow> writei_loop h ip src off (unat n) 0 s;
        let s = (if off > i_size (inodes s ip) then upd_inode ip (\<lambda>i. i\<lparr>i_size := off\<rparr>) s else s);
        s \<leftarrow> iupdate h ip s;
        Some (tot, s) })"

subsection \<open>Lemmas: the file system inside a transaction\<close>

lemma upd_inode_sel [simp]: "inodes (upd_inode ip f s) = (inodes s)(ip := f (inodes s ip))" "fs_sb (upd_inode ip f s) = fs_sb s"
  "bufs (upd_inode ip f s) = bufs s" "procs (upd_inode ip f s) = procs s" "slks (upd_inode ip f s) = slks s" "mem (upd_inode ip f s) = mem s"
  "disk (upd_inode ip f s) = disk s" "dwrites (upd_inode ip f s) = dwrites s" "cpus (upd_inode ip f s) = cpus s"
  by (simp_all add: upd_inode_def)

lemma in_tx_frame:
  fixes s :: "'a kfs_scheme"
  assumes "in_tx h pr st sz s0 B H V s"
  shows "fs_sb s = fs_sb s0" "inodes s = inodes s0" "mem s = mem s0" "lks s = lks s0" "cpus s = cpus s0" "procs s pr = procs s0 pr"
    "slks s (inode_lock i) = slks s0 (inode_lock i)"
proof -
  have o: "only_log pr s0 s" using assms by (simp add: in_tx_def)
  obtain a b c d e where "s = s0\<lparr>slks := a, procs := b, bufs := c, lh_n := d, lh_block := e\<rparr>" using only_logD [OF o] by blast
  then show "fs_sb s = fs_sb s0" "inodes s = inodes s0" "mem s = mem s0" "lks s = lks s0" "cpus s = cpus s0" by simp_all
  show "procs s pr = procs s0 pr" "slks s (inode_lock i) = slks s0 (inode_lock i)" using o by (simp_all add: only_log_def)
qed

lemma in_tx_base: "in_tx h pr st sz s0 B H V s \<Longrightarrow> in_tx h pr st sz s B H V s"
  by (simp add: in_tx_def only_log_refl)

lemma in_tx_trans: "in_tx h pr st sz s0 B H V s1 \<Longrightarrow> in_tx h pr st sz s1 B' H' V' s2 \<Longrightarrow> in_tx h pr st sz s0 B' H' V' s2"
  unfolding in_tx_def using only_log_trans by blast

lemma in_tx_cong:
  fixes s s' :: "'a klog_scheme"
  assumes "in_tx h pr st sz s B H V s" and "bufs s' = bufs s" "slks s' = slks s" "disk s' = disk s" "cpus s' = cpus s" "sie s' = sie s"
    "lks s' = lks s" "procs s' = procs s" "l_start s' = l_start s" "l_size s' = l_size s" "l_outstanding s' = l_outstanding s" "l_dev s' = l_dev s"
    "lh_n s' = lh_n s" "lh_block s' = lh_block s"
  shows "in_tx h pr st sz s' B H V s'"
  using assms cache_cong [of s' s] by (simp add: in_tx_def txn_def only_log_refl)

lemma in_tx_upd_inode: "in_tx h pr st sz s0 B H V s \<Longrightarrow> in_tx h pr st sz (upd_inode ip f s) B H V (upd_inode ip f s)"
  by (rule in_tx_cong [OF in_tx_base]) (simp_all add: upd_inode_def)

lemma in_tx_call: "in_tx h pr st sz s0 B H V s \<Longrightarrow> in_call h pr s"
  using cacheD(1) by (auto simp: in_tx_def txn_def)

lemma in_tx_finite: "in_tx h pr st sz s0 B H V s \<Longrightarrow> finite (B \<union> dom H)"
  by simp

text \<open>Bits of the map.\<close>

lemma bm_test_bit: "bm_test bi d \<longleftrightarrow> bit (d (bi div 8)) (bi mod 8)"
  by (simp add: bm_test_def bit_iff_and_push_bit_not_eq_0)

lemma bm_bits: "bm_test i (bm_set bi d) \<longleftrightarrow> i = bi \<or> bm_test i d" "bm_test i (bm_clear bi d) \<longleftrightarrow> i \<noteq> bi \<and> bm_test i d"
proof -
  have e: "i = bi \<longleftrightarrow> i div 8 = bi div 8 \<and> i mod 8 = bi mod 8" by (metis mod_div_mult_eq)
  have l: "i mod 8 < 8" "bi mod 8 < 8" by simp_all
  show "bm_test i (bm_set bi d) \<longleftrightarrow> i = bi \<or> bm_test i d" unfolding bm_test_bit bm_set_def e using l
    by (auto simp: bit_simps)
  show "bm_test i (bm_clear bi d) \<longleftrightarrow> i \<noteq> bi \<and> bm_test i d" unfolding bm_test_bit bm_clear_def e using l
    by (auto simp: bit_simps)
qed

text \<open>\<open>is_free sb V b\<close>: block \<open>b\<close> is free in the map. The first free block of the loop's search.\<close>

definition is_free :: "superblock \<Rightarrow> (uint \<Rightarrow> block) \<Rightarrow> nat \<Rightarrow> bool" where
  "is_free sb V b \<longleftrightarrow> b < unat (sb_size sb) \<and> \<not> bm_test (b mod BPB) (V (BBLOCK b sb))"

fun first_free :: "superblock \<Rightarrow> (uint \<Rightarrow> block) \<Rightarrow> nat list \<Rightarrow> nat option" where
  "first_free sb V [] = None"
| "first_free sb V (b # bs) =
     (case List.find (\<lambda>bi. \<not> bm_test bi (V (BBLOCK b sb))) [0..<min BPB (unat (sb_size sb) - b)] of
        Some bi \<Rightarrow> Some (b + bi) | None \<Rightarrow> first_free sb V bs)"

lemma BPB_pos [simp]: "0 < BPB"
  by (simp add: BPB_def BSIZE_def)

lemma find_upt: "List.find P [0..<n] = Some i \<Longrightarrow> P i \<and> i < n \<and> (\<forall>j<i. \<not> P j)"
  by (auto simp: find_Some_iff)

lemma first_free_spec:
  "first_free sb V (map (\<lambda>i. i * BPB) [k..<n]) = (if \<exists>b. k * BPB \<le> b \<and> b < n * BPB \<and> is_free sb V b
     then Some (LEAST b. k * BPB \<le> b \<and> b < n * BPB \<and> is_free sb V b) else None)"
proof (induction "n - k" arbitrary: k)
  case 0
  then have "n * BPB \<le> k * BPB" by simp
  then have "\<not> (\<exists>b. k * BPB \<le> b \<and> b < n * BPB \<and> is_free sb V b)" by (meson le_less_trans not_le)
  with 0 show ?case by simp
next
  case (Suc m)
  let ?P = "\<lambda>bi. \<not> bm_test bi (V (BBLOCK (k * BPB) sb))" and ?N = "min BPB (unat (sb_size sb) - k * BPB)"
  have k: "k < n" "[k..<n] = k # [Suc k..<n]" using Suc by (simp_all add: upt_conv_Cons)
  have here: "is_free sb V (k * BPB + bi) \<longleftrightarrow> ?P bi \<and> bi < ?N" if "bi < BPB" for bi
    using that by (auto simp: is_free_def BBLOCK_def)
  have le: "k * BPB + BPB \<le> n * BPB" using k(1) mult_le_mono1 [of "Suc k" n BPB] by simp
  let ?Q = "\<lambda>k b. k * BPB \<le> b \<and> b < n * BPB \<and> is_free sb V b"
  show ?case
  proof (cases "List.find ?P [0..<?N]")
    case (Some bi)
    then have bi: "?P bi" "bi < ?N" "\<And>j. j < bi \<Longrightarrow> \<not> ?P j" using find_upt [OF Some] by auto
    have "?Q k (k * BPB + bi)" using bi(1,2) here [of bi] le by auto
    moreover have "k * BPB + bi \<le> b" if "?Q k b" for b
    proof (rule ccontr)
      assume "\<not> ?thesis"
      then have "b = k * BPB + (b - k * BPB)" "b - k * BPB < bi" using that by auto
      then show False using here [of "b - k * BPB"] bi(2) bi(3) [of "b - k * BPB"] that by auto
    qed
    ultimately have "(LEAST b. ?Q k b) = k * BPB + bi" by (rule Least_equality)
    then show ?thesis using Some \<open>?Q k (k * BPB + bi)\<close> unfolding k(2) by auto
  next
    case None
    then have "\<And>bi. bi < ?N \<Longrightarrow> \<not> ?P bi" by (auto simp: find_None_iff)
    then have nf: "\<not> is_free sb V (k * BPB + bi)" if "bi < BPB" for bi using here [OF that] by blast
    have Q: "?Q k b \<longleftrightarrow> ?Q (Suc k) b" for b
    proof (cases "k * BPB \<le> b \<and> b < k * BPB + BPB")
      case True
      then have lt: "b - k * BPB < BPB" and eq: "k * BPB + (b - k * BPB) = b" by linarith+
      show ?thesis using nf [OF lt] unfolding eq by simp
    qed auto
    have "first_free sb V (map (\<lambda>i. i * BPB) [k..<n]) = first_free sb V (map (\<lambda>i. i * BPB) [Suc k..<n])" unfolding k(2) using None by simp
    also have "\<dots> = (if \<exists>b. ?Q (Suc k) b then Some (LEAST b. ?Q (Suc k) b) else None)" by (rule Suc.hyps(1)) (use Suc.hyps(2) in simp)
    finally show ?thesis unfolding Q .
  qed
qed


subsection \<open>The block allocator\<close>

text \<open>
  \<open>bitmap_ok\<close>: the blocks of the bitmap are outside the log and not held by the caller, and no block that
  the map says is free is in the log, held, or part of the map.
\<close>

definition bitmap_ok :: "uint \<Rightarrow> nat \<Rightarrow> superblock \<Rightarrow> (uint \<rightharpoonup> nat) \<Rightarrow> (uint \<Rightarrow> block) \<Rightarrow> bool" where
  "bitmap_ok st sz sb H V \<longleftrightarrow> unat (sb_size sb) < 2 ^ 31
     \<and> (\<forall>b<unat (sb_size sb). \<not> in_log st sz (BBLOCK b sb) \<and> H (BBLOCK b sb) = None)
     \<and> (\<forall>b<unat (sb_size sb). is_free sb V b \<longrightarrow> \<not> in_log st sz (of_nat b) \<and> H (of_nat b) = None
          \<and> (\<forall>c<unat (sb_size sb). BBLOCK c sb \<noteq> of_nat b))"

lemma bitmap_okD:
  assumes "bitmap_ok st sz sb H V"
  shows "unat (sb_size sb) < 2 ^ 31" "b < unat (sb_size sb) \<Longrightarrow> \<not> in_log st sz (BBLOCK b sb)" "b < unat (sb_size sb) \<Longrightarrow> H (BBLOCK b sb) = None"
    "is_free sb V b \<Longrightarrow> \<not> in_log st sz (of_nat b)" "is_free sb V b \<Longrightarrow> H (of_nat b) = None"
    "is_free sb V b \<Longrightarrow> c < unat (sb_size sb) \<Longrightarrow> BBLOCK c sb \<noteq> of_nat b"
  using assms by (auto simp: bitmap_ok_def is_free_def)

text \<open>The contents of the disk after block \<open>b\<close> was taken, and after it was given back.\<close>

definition taken :: "superblock \<Rightarrow> nat \<Rightarrow> (uint \<Rightarrow> block) \<Rightarrow> uint \<Rightarrow> block" where
  "taken sb b V = V(BBLOCK b sb := bm_set (b mod BPB) (V (BBLOCK b sb)), of_nat b := (\<lambda>_. 0))"

definition given_back :: "superblock \<Rightarrow> nat \<Rightarrow> (uint \<Rightarrow> block) \<Rightarrow> uint \<Rightarrow> block" where
  "given_back sb b V = V(BBLOCK b sb := bm_clear (b mod BPB) (V (BBLOCK b sb)))"

lemma BBLOCK_inj:
  assumes "b < 2 ^ 31" and "c < 2 ^ 31" and "BBLOCK b sb = BBLOCK c sb"
  shows "b div BPB = c div BPB"
proof -
  have "(of_nat (b div BPB) :: uint) = of_nat (c div BPB)" using assms(3) by (simp add: BBLOCK_def)
  moreover have "b div BPB < 2 ^ LENGTH(32)" "c div BPB < 2 ^ LENGTH(32)"
    using assms(1,2) le_less_trans [OF div_le_dividend, of b _ BPB] le_less_trans [OF div_le_dividend, of c _ BPB] by simp_all
  ultimately show ?thesis by (simp add: of_nat_inverse word_unat_eq_iff unat_of_nat)
qed

lemma is_free_upd:
  assumes "unat (sb_size sb) < 2 ^ 31" and "b < unat (sb_size sb)" and "c < unat (sb_size sb)"
  shows "bm_test (c mod BPB) ((V(BBLOCK b sb := bm_set (b mod BPB) (V (BBLOCK b sb)))) (BBLOCK c sb))
      \<longleftrightarrow> c = b \<or> bm_test (c mod BPB) (V (BBLOCK c sb))"
    and "bm_test (c mod BPB) ((V(BBLOCK b sb := bm_clear (b mod BPB) (V (BBLOCK b sb)))) (BBLOCK c sb))
      \<longleftrightarrow> c \<noteq> b \<and> bm_test (c mod BPB) (V (BBLOCK c sb))"
proof -
  have "c = b" if "BBLOCK c sb = BBLOCK b sb" "c mod BPB = b mod BPB"
    using BBLOCK_inj [OF _ _ that(1)] that(2) assms by (metis div_mult_mod_eq less_trans)
  then have "c = b \<longleftrightarrow> BBLOCK c sb = BBLOCK b sb \<and> c mod BPB = b mod BPB" by blast
  then show "bm_test (c mod BPB) ((V(BBLOCK b sb := bm_set (b mod BPB) (V (BBLOCK b sb)))) (BBLOCK c sb))
      \<longleftrightarrow> c = b \<or> bm_test (c mod BPB) (V (BBLOCK c sb))"
    "bm_test (c mod BPB) ((V(BBLOCK b sb := bm_clear (b mod BPB) (V (BBLOCK b sb)))) (BBLOCK c sb))
      \<longleftrightarrow> c \<noteq> b \<and> bm_test (c mod BPB) (V (BBLOCK c sb))"
    using bm_bits [of "c mod BPB" "b mod BPB"] by auto
qed

lemma is_free_taken:
  assumes "bitmap_ok st sz sb H V" and "is_free sb V b"
  shows "is_free sb (taken sb b V) c \<longleftrightarrow> is_free sb V c \<and> c \<noteq> b"
proof (cases "c < unat (sb_size sb)")
  case True
  have b: "b < unat (sb_size sb)" using assms(2) by (simp add: is_free_def)
  show ?thesis using is_free_upd(1) [OF bitmap_okD(1) [OF assms(1)] b True, of V] bitmap_okD(6) [OF assms True]
    by (auto simp: is_free_def taken_def)
qed (simp add: is_free_def)

lemma is_free_given_back:
  assumes "unat (sb_size sb) < 2 ^ 31" and "b < unat (sb_size sb)"
  shows "is_free sb (given_back sb b V) c \<longleftrightarrow> is_free sb V c \<or> c = b"
  using is_free_upd(2) [OF assms, of c V] assms by (auto simp: is_free_def given_back_def)


lemma card_grow:
  assumes "card X + k \<le> cap" and "finite X"
  shows "card (X \<union> {n}) + (k - 1) \<le> cap \<or> k = 0"
  using assms card_insert_le_m1 [of "Suc (card X)" X n] by (cases "n \<in> X") (auto simp: insert_absorb card_insert_if)

lemma bzero_ok:
  assumes "in_tx h pr st sz s0 B H V s" and "H n = None" and "\<not> in_log st sz n" and "card (B \<union> dom H \<union> {n}) \<le> tx_cap sz"
  shows "\<exists>s'. bzero h ROOTDEV n s = Some s' \<and> in_tx h pr st sz s0 (insert n B) H (V(n := (\<lambda>_. 0))) s'"
  using tx.change_one [OF assms] by (force simp: bzero_def)

lemma balloc_loop_ok:
  fixes s :: "'a kfs_scheme"
  assumes "in_tx h pr st sz s0 B H V s" and m: "bitmap_ok st sz sb H V" and sb: "fs_sb s0 = sb"
    and cap: "card (B \<union> dom H) + 2 \<le> tx_cap sz" and bs: "\<And>b. b \<in> set bs \<Longrightarrow> b < unat (sb_size sb) \<and> b mod BPB = 0"
  shows "case first_free sb V bs of
      None \<Rightarrow> \<exists>s'. balloc_loop h ROOTDEV bs s = Some (0, kprintf (''balloc: out of blocks'' @ [CHR 0x0A]) s') \<and> in_tx h pr st sz s0 B H V s'
    | Some b \<Rightarrow> \<exists>s'. balloc_loop h ROOTDEV bs s = Some (of_nat b, s')
        \<and> in_tx h pr st sz s0 (insert (of_nat b) (insert (BBLOCK b sb) B)) H (taken sb b V) s'"
  using assms(1) bs
proof (induction bs arbitrary: s)
  case Nil
  then show ?case by auto
next
  case (Cons b bs)
  let ?n = "BBLOCK b sb" and ?f = "List.find (\<lambda>bi. \<not> bm_test bi (V (BBLOCK b sb))) [0..<min BPB (unat (sb_size sb) - b)]"
  have b: "b < unat (sb_size sb)" "b mod BPB = 0" using Cons.prems(2) [of b] by simp_all
  have fin: "finite (B \<union> dom H)" using tx.finite_ok [OF Cons.prems(1)] .
  have c1: "card (B \<union> dom H \<union> {?n}) + 1 \<le> tx_cap sz" using card_grow [OF cap fin, of ?n] by simp
  have n: "H ?n = None" "\<not> in_log st sz ?n" using bitmap_okD(2,3) [OF m b(1)] by simp_all
  show ?case
  proof (cases ?f)
    case None
    obtain bp s1 s2 where s: "bread h ROOTDEV ?n s = Some (bp, s1)" "b_data (bufs s1 bp) = V ?n" "in_tx h pr st sz s0 B (H(?n \<mapsto> bp)) V s1"
      "brelse h bp s1 = Some s2" "in_tx h pr st sz s0 B H V s2" using tx.read_one [OF Cons.prems(1) n] c1 by auto
    have "balloc_loop h ROOTDEV (b # bs) s = balloc_loop h ROOTDEV bs s2"
      using s None sb in_tx_frame(1) [OF Cons.prems(1)] in_tx_frame(1) [OF s(3)] by simp
    moreover have "first_free sb V (b # bs) = first_free sb V bs" using None by simp
    ultimately show ?thesis using Cons.IH [OF s(5)] Cons.prems(2) by (simp only: list.set_intros)
  next
    case (Some bi)
    obtain bp s1 where s: "bread h ROOTDEV ?n s = Some (bp, s1)" "b_data (bufs s1 bp) = V ?n" "in_tx h pr st sz s0 B (H(?n \<mapsto> bp)) V s1"
      and w: "\<exists>s2 s3. log_write h bp (put_data bp d s1) = Some s2 \<and> brelse h bp s2 = Some s3 \<and> in_tx h pr st sz s0 (insert ?n B) H (V(?n := d)) s3" for d
      using tx.change_one [OF Cons.prems(1) n] c1 by auto
    obtain s2 s3 where s3: "log_write h bp (put_data bp (bm_set bi (V ?n)) s1) = Some s2" "brelse h bp s2 = Some s3"
      "in_tx h pr st sz s0 (insert ?n B) H (V(?n := bm_set bi (V ?n))) s3" using w by blast
    have bi: "\<not> bm_test bi (V ?n)" "bi < BPB" "b + bi < unat (sb_size sb)" using find_upt [OF Some] by auto
    have d: "(b + bi) div BPB = b div BPB" "(b + bi) mod BPB = bi" using b(2) bi(2) by (auto simp: div_add1_eq mod_add_eq mod_add_left_eq [of b, symmetric])
    have nb: "BBLOCK (b + bi) sb = ?n" by (simp add: BBLOCK_def d)
    have fr: "is_free sb V (b + bi)" using bi d nb by (simp add: is_free_def)
    have fin': "finite (B \<union> dom H \<union> {?n})" using fin by simp
    have "card (insert ?n B \<union> dom H \<union> {of_nat (b + bi)}) \<le> tx_cap sz"
      using card_grow [OF c1 fin', of "of_nat (b + bi)"] by (simp add: insert_commute Un_insert_left)
    from bzero_ok [OF s3(3) bitmap_okD(5) [OF m fr] bitmap_okD(4) [OF m fr] this]
    obtain s4 where s4: "bzero h ROOTDEV (of_nat (b + bi)) s3 = Some s4"
      "in_tx h pr st sz s0 (insert (of_nat (b + bi)) (insert ?n B)) H ((V(?n := bm_set bi (V ?n)))(of_nat (b + bi) := (\<lambda>_. 0))) s4" by blast
    have "balloc_loop h ROOTDEV (b # bs) s = Some (of_nat (b + bi), s4)"
      using s s3(1,2) s4(1) Some sb in_tx_frame(1) [OF Cons.prems(1)] in_tx_frame(1) [OF s(3)] by (simp del: of_nat_add)
    moreover have "first_free sb V (b # bs) = Some (b + bi)" using Some by simp
    ultimately show ?thesis using s4(2) by (simp add: taken_def nb d del: of_nat_add balloc_loop.simps)
  qed
qed


lemma bitmap_range:
  "b \<in> set (map (\<lambda>i. i * BPB) [0..<(n + BPB - 1) div BPB]) \<Longrightarrow> b < n \<and> b mod BPB = 0"
  "b < n \<Longrightarrow> b < (n + BPB - 1) div BPB * BPB"
proof -
  show "b < n \<and> b mod BPB = 0" if b: "b \<in> set (map (\<lambda>i. i * BPB) [0..<(n + BPB - 1) div BPB])"
  proof -
    obtain i where i: "b = i * BPB" "i < (n + BPB - 1) div BPB" using b unfolding set_map set_upt by (elim imageE) auto
    then have "Suc i * BPB \<le> n + BPB - 1" using div_times_less_eq_dividend [of "n + BPB - 1" BPB] mult_le_mono1 [of "Suc i" "(n + BPB - 1) div BPB" BPB] by linarith
    then show ?thesis using i(1) by (simp add: BPB_def BSIZE_def)
  qed
  show "b < (n + BPB - 1) div BPB * BPB" if "b < n"
    using that div_mult_mod_eq [of "n + BPB - 1" BPB] mod_less_divisor [OF BPB_pos, of "n + BPB - 1"] by linarith
qed

lemma balloc_cases:
  fixes s :: "'a kfs_scheme"
  assumes "in_tx h pr st sz s0 B H V s" and "bitmap_ok st sz (fs_sb s) H V" and "card (B \<union> dom H) + 2 \<le> tx_cap sz"
  shows "(\<exists>b s'. is_free (fs_sb s) V b \<and> (\<forall>c<b. \<not> is_free (fs_sb s) V c) \<and> balloc h ROOTDEV s = Some (of_nat b, s')
      \<and> in_tx h pr st sz s0 (insert (of_nat b) (insert (BBLOCK b (fs_sb s)) B)) H (taken (fs_sb s) b V) s')
    \<or> (\<forall>b. \<not> is_free (fs_sb s) V b)
      \<and> (\<exists>s'. balloc h ROOTDEV s = Some (0, kprintf (''balloc: out of blocks'' @ [CHR 0x0A]) s') \<and> in_tx h pr st sz s0 B H V s')"
proof -
  let ?sb = "fs_sb s" and ?n = "(unat (sb_size (fs_sb s)) + BPB - 1) div BPB"
  have sb: "fs_sb s0 = fs_sb s" using in_tx_frame(1) [OF assms(1)] by simp
  have in_range: "b < ?n * BPB" if "is_free ?sb V b" for b using that bitmap_range(2) by (simp add: is_free_def)
  have ff: "first_free ?sb V (map (\<lambda>i. i * BPB) [0..<?n]) = (if \<exists>b. is_free ?sb V b then Some (LEAST b. is_free ?sb V b) else None)"
  proof -
    have "0 * BPB \<le> b \<and> b < ?n * BPB \<and> is_free ?sb V b \<longleftrightarrow> is_free ?sb V b" for b using in_range [of b] by auto
    then show ?thesis unfolding first_free_spec by presburger
  qed
  have l: "case if \<exists>b. is_free ?sb V b then Some (LEAST b. is_free ?sb V b) else None of
      None \<Rightarrow> \<exists>s'. balloc h ROOTDEV s = Some (0, kprintf (''balloc: out of blocks'' @ [CHR 0x0A]) s') \<and> in_tx h pr st sz s0 B H V s'
    | Some b \<Rightarrow> \<exists>s'. balloc h ROOTDEV s = Some (of_nat b, s') \<and> in_tx h pr st sz s0 (insert (of_nat b) (insert (BBLOCK b ?sb) B)) H (taken ?sb b V) s'"
    unfolding ff [symmetric] balloc_def by (rule balloc_loop_ok [OF assms(1,2) sb assms(3) bitmap_range(1)])
  show ?thesis
  proof (cases "\<exists>b. is_free ?sb V b")
    case True
    then have "is_free ?sb V (LEAST b. is_free ?sb V b)" "\<forall>c<LEAST b. is_free ?sb V b. \<not> is_free ?sb V c"
      by (auto intro: LeastI dest: not_less_Least)
    moreover obtain s' where "balloc h ROOTDEV s = Some (of_nat (LEAST b. is_free ?sb V b), s')"
      "in_tx h pr st sz s0 (insert (of_nat (LEAST b. is_free ?sb V b)) (insert (BBLOCK (LEAST b. is_free ?sb V b) ?sb) B)) H
        (taken ?sb (LEAST b. is_free ?sb V b) V) s'" using l unfolding if_P [OF True] option.case by blast
    ultimately show ?thesis by blast
  next
    case False
    have "\<exists>s'. balloc h ROOTDEV s = Some (0, kprintf (''balloc: out of blocks'' @ [CHR 0x0A]) s') \<and> in_tx h pr st sz s0 B H V s'"
      using l unfolding if_not_P [OF False] option.case .
    then show ?thesis using False by blast
  qed
qed


lemma bfree_cases:
  fixes s :: "'a kfs_scheme"
  assumes i: "in_tx h pr st sz s0 B H V s" and m: "bitmap_ok st sz (fs_sb s) H V" and cap: "card (B \<union> dom H) + 1 \<le> tx_cap sz"
    and b: "b < unat (sb_size (fs_sb s))"
  shows "if is_free (fs_sb s) V b then bfree h ROOTDEV (of_nat b) s = None
    else \<exists>s'. bfree h ROOTDEV (of_nat b) s = Some s' \<and> in_tx h pr st sz s0 (insert (BBLOCK b (fs_sb s)) B) H (given_back (fs_sb s) b V) s'"
proof -
  let ?n = "BBLOCK b (fs_sb s)"
  have u: "unat (of_nat b :: uint) = b" using b bitmap_okD(1) [OF m] by (simp add: unat_of_nat)
  have n: "H ?n = None" "\<not> in_log st sz ?n" using bitmap_okD(2,3) [OF m b] by simp_all
  have "card (B \<union> dom H \<union> {?n}) \<le> tx_cap sz" using card_grow [OF cap tx.finite_ok [OF i], of ?n] by simp
  from tx.change_one [OF i n this] obtain bp s1 where s: "bread h ROOTDEV ?n s = Some (bp, s1)" "b_data (bufs s1 bp) = V ?n"
    and w: "\<exists>s2 s3. log_write h bp (put_data bp d s1) = Some s2 \<and> brelse h bp s2 = Some s3 \<and> in_tx h pr st sz s0 (insert ?n B) H (V(?n := d)) s3" for d by auto
  obtain s2 s3 where "log_write h bp (put_data bp (bm_clear (b mod BPB) (V ?n)) s1) = Some s2" "brelse h bp s2 = Some s3"
    "in_tx h pr st sz s0 (insert ?n B) H (V(?n := bm_clear (b mod BPB) (V ?n))) s3" using w by blast
  then show ?thesis using s u b by (simp add: bfree_def is_free_def given_back_def)
qed

text \<open>
  C25. The allocator for disk blocks, inside a transaction. \<open>balloc\<close> takes the first free block of the map,
  marks it as used and fills it with zeros; it changes nothing else, and when no block is free it prints a
  message and returns 0 with the contents as they were. \<open>bfree\<close> of a used block makes exactly that block
  free, and \<open>bfree\<close> of a block that is already free panics.
\<close>

theorem block_allocator_correct:
  fixes s :: "'a kfs_scheme"
  assumes "in_tx h pr st sz s0 B H V s" and "bitmap_ok st sz (fs_sb s) H V" and "card (B \<union> dom H) + 2 \<le> tx_cap sz"
  shows "((\<exists>b V' s'. is_free (fs_sb s) V b \<and> (\<forall>c<b. \<not> is_free (fs_sb s) V c) \<and> balloc h ROOTDEV s = Some (of_nat b, s')
        \<and> in_tx h pr st sz s0 (insert (of_nat b) (insert (BBLOCK b (fs_sb s)) B)) H V' s' \<and> V' (of_nat b) = (\<lambda>_. 0)
        \<and> (\<forall>c. is_free (fs_sb s) V' c \<longleftrightarrow> is_free (fs_sb s) V c \<and> c \<noteq> b) \<and> (\<forall>n. n \<noteq> of_nat b \<longrightarrow> n \<noteq> BBLOCK b (fs_sb s) \<longrightarrow> V' n = V n))
      \<or> (\<forall>b. \<not> is_free (fs_sb s) V b)
        \<and> (\<exists>s'. balloc h ROOTDEV s = Some (0, kprintf (''balloc: out of blocks'' @ [CHR 0x0A]) s') \<and> in_tx h pr st sz s0 B H V s'))
    \<and> (\<forall>b<unat (sb_size (fs_sb s)). if is_free (fs_sb s) V b then bfree h ROOTDEV (of_nat b) s = None
        else \<exists>V' s'. bfree h ROOTDEV (of_nat b) s = Some s' \<and> in_tx h pr st sz s0 (insert (BBLOCK b (fs_sb s)) B) H V' s'
          \<and> (\<forall>c. is_free (fs_sb s) V' c \<longleftrightarrow> is_free (fs_sb s) V c \<or> c = b) \<and> (\<forall>n. n \<noteq> BBLOCK b (fs_sb s) \<longrightarrow> V' n = V n))"
proof (intro conjI allI impI)
  let ?sb = "fs_sb s"
  have t: "taken ?sb b V (of_nat b) = (\<lambda>_. 0)" "n \<noteq> of_nat b \<Longrightarrow> n \<noteq> BBLOCK b ?sb \<Longrightarrow> taken ?sb b V n = V n" for b n
    by (simp_all add: taken_def)
  show "(\<exists>b V' s'. is_free ?sb V b \<and> (\<forall>c<b. \<not> is_free ?sb V c) \<and> balloc h ROOTDEV s = Some (of_nat b, s')
        \<and> in_tx h pr st sz s0 (insert (of_nat b) (insert (BBLOCK b ?sb) B)) H V' s' \<and> V' (of_nat b) = (\<lambda>_. 0)
        \<and> (\<forall>c. is_free ?sb V' c \<longleftrightarrow> is_free ?sb V c \<and> c \<noteq> b) \<and> (\<forall>n. n \<noteq> of_nat b \<longrightarrow> n \<noteq> BBLOCK b ?sb \<longrightarrow> V' n = V n))
      \<or> (\<forall>b. \<not> is_free ?sb V b)
        \<and> (\<exists>s'. balloc h ROOTDEV s = Some (0, kprintf (''balloc: out of blocks'' @ [CHR 0x0A]) s') \<and> in_tx h pr st sz s0 B H V s')"
    using balloc_cases [OF assms] is_free_taken [OF assms(2)] t by blast
  fix b assume b: "b < unat (sb_size ?sb)"
  have "card (B \<union> dom H) + 1 \<le> tx_cap sz" using assms(3) by simp
  note f = bfree_cases [OF assms(1,2) this b] and g = is_free_given_back [OF bitmap_okD(1) [OF assms(2)] b, of V]
  have "n \<noteq> BBLOCK b ?sb \<Longrightarrow> given_back ?sb b V n = V n" for n by (simp add: given_back_def)
  with f g show "if is_free ?sb V b then bfree h ROOTDEV (of_nat b) s = None
        else \<exists>V' s'. bfree h ROOTDEV (of_nat b) s = Some s' \<and> in_tx h pr st sz s0 (insert (BBLOCK b ?sb) B) H V' s'
          \<and> (\<forall>c. is_free ?sb V' c \<longleftrightarrow> is_free ?sb V c \<or> c = b) \<and> (\<forall>n. n \<noteq> BBLOCK b ?sb \<longrightarrow> V' n = V n)"
    by (cases "is_free ?sb V b") (simp_all only: if_True if_False, blast)
qed

text \<open>A file system of 60 blocks whose bitmap is block 45; block 1 is the first one that is free.\<close>

definition kfs0 :: kfs where
  "kfs0 = klog.extend (klog0\<lparr>l_outstanding := 1\<rparr>)
     \<lparr>fs_sb = \<lparr>sb_magic = FSMAGIC, sb_size = 60, sb_nblocks = 14, sb_ninodes = 16, sb_nlog = 30, sb_logstart = 256, sb_inodestart = 32, sb_bmapstart = 45\<rparr>,
      inodes = (\<lambda>_. \<lparr>i_dev = ROOTDEV, i_inum = 0, i_ref = 0, i_valid = False, i_type = 0, i_major = 0, i_minor = 0, i_nlink = 0, i_size = 0,
        i_addrs = (\<lambda>_. 0)\<rparr>)\<rparr>"

lemma kfs0_tx: "in_tx 0 3 256 30 kfs0 {} Map.empty (\<lambda>n _. ucast n) kfs0"
proof -
  have b: "bufs kfs0 = bufs klog0" "slks kfs0 = slks klog0" "disk kfs0 = disk klog0" "procs kfs0 = procs klog0" "cpus kfs0 = cpus klog0"
    "sie kfs0 = sie klog0" "lks kfs0 = lks klog0" "l_dev kfs0 = l_dev klog0" "l_start kfs0 = l_start klog0" "l_size kfs0 = l_size klog0"
    "lh_n kfs0 = lh_n klog0" "lh_block kfs0 = lh_block klog0" "l_outstanding kfs0 = 1" by (simp_all add: kfs0_def klog.defs)
  have t: "txn 0 3 256 30 [] (\<lambda>n _. ucast n) Map.empty (\<lambda>_. 0) klog0" "disk klog0 = (\<lambda>n _. ucast n)" "l_size klog0 = 30"
    using klog0_idle by (auto simp: log_idle_def)
  have "in_call 0 3 kfs0" using cacheD(1) [OF txnD(1) [OF t(1)]] b by (auto simp: in_call_def calm_iff hart_ok_def at_rest_def free_lock_def)
  then have "cache 0 3 (\<lambda>n _. ucast n) Map.empty (\<lambda>_. 0) kfs0" using txnD(1) [OF t(1)] b by (simp add: cache_def buffers_def lru_def)
  moreover have "refs {} Map.empty = (\<lambda>_. 0)" by (simp add: refs_def fun_eq_iff)
  ultimately have "txn 0 3 256 30 [] (\<lambda>n _. ucast n) Map.empty (refs {} Map.empty) kfs0" using t(1) b by (simp add: txn_def)
  then show ?thesis using t b by (auto simp: in_tx_def only_log_refl)
qed


lemma kfs0_free: "is_free (fs_sb kfs0) (\<lambda>n _. ucast n) b \<longleftrightarrow> b < 60 \<and> \<not> bit (45 :: uchar) (b mod 8)"
  and kfs0_bitmap: "b < 60 \<Longrightarrow> BBLOCK b (fs_sb kfs0) = 45"
  by (simp_all add: is_free_def kfs0_def klog.defs bm_test_bit BBLOCK_def BPB_def BSIZE_def mod_mod_cancel cong: conj_cong)

lemma kfs0_ok: "bitmap_ok 256 30 (fs_sb kfs0) Map.empty (\<lambda>n _. ucast n)"
proof -
  have u: "(of_nat b :: uint) < 256" "(of_nat b :: uint) = 45 \<longleftrightarrow> b = 45" if "b < 60" for b
    using that by (simp_all add: word_less_nat_alt word_unat_eq_iff unat_of_nat)
  have n: "\<not> in_log 256 30 n" if "n < 256" for n using that by (simp add: in_log_def word_less_nat_alt)
  have s: "unat (sb_size (fs_sb kfs0)) = 60" by (simp add: kfs0_def klog.defs)
  have "\<not> is_free (fs_sb kfs0) (\<lambda>n _. ucast n) 45" by (simp add: kfs0_free)
  then show ?thesis unfolding bitmap_ok_def s using u n n [of 45] kfs0_bitmap by auto
qed

theorem block_allocator_correct_witness:
  "(\<exists>s'. balloc 0 ROOTDEV kfs0 = Some (1, s')) \<and> bfree 0 ROOTDEV 1 kfs0 = None \<and> (\<exists>s'. bfree 0 ROOTDEV 45 kfs0 = Some s')"
proof -
  have c: "card ({} \<union> dom (Map.empty :: uint \<rightharpoonup> nat)) + 2 \<le> tx_cap 30" by (simp add: tx_cap_def LOGSIZE_def MAXOPBLOCKS_def)
  have s: "unat (sb_size (fs_sb kfs0)) = 60" by (simp add: kfs0_def klog.defs)
  note t = block_allocator_correct [OF kfs0_tx kfs0_ok c]
  have f1: "is_free (fs_sb kfs0) (\<lambda>n _. ucast n) 1" and f45: "\<not> is_free (fs_sb kfs0) (\<lambda>n _. ucast n) 45"
    and f0: "\<not> is_free (fs_sb kfs0) (\<lambda>n _. ucast n) 0" by (simp_all add: kfs0_free)
  obtain b s' where b: "is_free (fs_sb kfs0) (\<lambda>n _. ucast n) b" "\<forall>c<b. \<not> is_free (fs_sb kfs0) (\<lambda>n _. ucast n) c" "balloc 0 ROOTDEV kfs0 = Some (of_nat b, s')"
    using conjunct1 [OF t] f1 by blast
  have "b = 1" using b(1,2) f1 f0 by (metis less_one linorder_neqE_nat)
  moreover have "bfree 0 ROOTDEV 1 kfs0 = None" using conjunct2 [OF t, rule_format, of 1] s f1 by simp
  moreover have "\<exists>s'. bfree 0 ROOTDEV 45 kfs0 = Some s'" using conjunct2 [OF t, rule_format, of 45] s f45 by auto
  ultimately show ?thesis using b(3) by auto
qed

end
