(* ===== verification/Contents.thy ===== *)
theory Contents
  imports Fs
begin

text \<open>
  The contents of files: what \<open>bmap\<close>, \<open>readi\<close> and \<open>writei\<close> of \<open>labo2/kernel/fs.c\<close> do to the bytes of a file, where the
  byte at an offset is found through the direct and indirect blocks of the inode.
\<close>

lemma unat_bound: "unat (x :: uint) < 2 ^ 32"
proof -
  have "unat x < 2 ^ LENGTH(32)" by (rule unsigned_less)
  then show ?thesis by simp
qed

lemma unat_small: "n < 2 ^ 32 \<Longrightarrow> unat (of_nat n :: uint) = n"
  by (simp add: unat_of_nat)

subsection \<open>The bytes of a file\<close>

definition fblock :: "(uint \<Rightarrow> block) \<Rightarrow> inode \<Rightarrow> nat \<Rightarrow> uint" where
  "fblock V ino bn = (if bn < NDIRECT then i_addrs ino bn else ld32 (4 * (bn - NDIRECT)) (V (i_addrs ino NDIRECT)))"

definition fbyte :: "(uint \<Rightarrow> block) \<Rightarrow> inode \<Rightarrow> nat \<Rightarrow> uchar" where
  "fbyte V ino i = V (fblock V ino (i div BSIZE)) (i mod BSIZE)"

definition fbytes :: "(uint \<Rightarrow> block) \<Rightarrow> inode \<Rightarrow> nat \<Rightarrow> nat \<Rightarrow> uchar list" where
  "fbytes V ino i n = map (fbyte V ino) [i..<i + n]"

text \<open>Block \<open>bn\<close> of the file is there, and neither it nor the indirect block is in the log or held by the caller.\<close>

definition usable :: "uint \<Rightarrow> nat \<Rightarrow> (uint \<rightharpoonup> nat) \<Rightarrow> uint \<Rightarrow> bool" where
  "usable st sz H n \<longleftrightarrow> n \<noteq> 0 \<and> \<not> in_log st sz n \<and> H n = None"

definition present :: "uint \<Rightarrow> nat \<Rightarrow> (uint \<rightharpoonup> nat) \<Rightarrow> (uint \<Rightarrow> block) \<Rightarrow> inode \<Rightarrow> nat \<Rightarrow> bool" where
  "present st sz H V ino bn \<longleftrightarrow> bn < MAXFILE \<and> usable st sz H (fblock V ino bn) \<and> (NDIRECT \<le> bn \<longrightarrow> usable st sz H (i_addrs ino NDIRECT))"

lemma bmap_present:
  fixes s :: "'a kfs_scheme"
  assumes i: "in_tx h pr st sz s0 B H V s" and ino: "inodes s0 ip = ino" "i_dev ino = ROOTDEV" and p: "present st sz H V ino bn"
    and cap: "card (B \<union> dom H) + 1 \<le> tx_cap sz"
  shows "\<exists>s'. bmap h ip bn s = Some (fblock V ino bn, s') \<and> in_tx h pr st sz s0 B H V s'"
proof (cases "bn < NDIRECT")
  case True
  then show ?thesis using i ino p in_tx_frame(2) [OF i] by (simp add: bmap_def addrs_get_def fblock_def present_def usable_def)
next
  case False
  let ?n = "i_addrs ino NDIRECT"
  have n: "H ?n = None" "\<not> in_log st sz ?n" "?n \<noteq> 0" "bn - NDIRECT < NINDIRECT" "fblock V ino bn \<noteq> 0"
    using False p by (auto simp: present_def usable_def MAXFILE_def)
  have "card (B \<union> dom H \<union> {?n}) \<le> tx_cap sz" using card_grow [OF cap tx.finite_ok [OF i], of ?n] by simp
  from tx.read_one [OF i n(1,2) this] obtain bp s1 s2 where s: "bread h ROOTDEV ?n s = Some (bp, s1)" "b_data (bufs s1 bp) = V ?n"
    "in_tx h pr st sz s0 B (H(?n \<mapsto> bp)) V s1" "brelse h bp s1 = Some s2" "in_tx h pr st sz s0 B H V s2" by blast
  show ?thesis using False n s in_tx_frame(2) [OF i] in_tx_frame(2) [OF s(3)] ino
    by (simp add: bmap_def addrs_get_def fblock_def)
qed

lemma local_copyout: "in_tx h pr st sz s0 B H V s \<Longrightarrow> either_copyout h DLocal bs s = Some (0, s)"
  using in_callD(6) [OF in_tx_call, of h pr st sz s0 B H V s] by (simp add: either_copyout_def)

subsection \<open>Reading\<close>

lemma fbytes_chunk:
  assumes "m = chunk n off" and "n \<noteq> 0"
  shows "map (V (fblock V ino (unat off div BSIZE))) [unat off mod BSIZE..<unat off mod BSIZE + m] = fbytes V ino (unat off) m"
proof (rule nth_equalityI)
  let ?o = "unat off"
  fix i assume "i < length (map (V (fblock V ino (?o div BSIZE))) [?o mod BSIZE..<?o mod BSIZE + m])"
  then have i: "i < m" by simp
  then have lt: "?o mod BSIZE + i < BSIZE" unfolding assms(1) chunk_def by linarith
  have "(q * BSIZE + r) div BSIZE = q" "(q * BSIZE + r) mod BSIZE = r" if "r < BSIZE" for q r using that by simp_all
  from this [OF lt, of "?o div BSIZE"] have "(?o + i) div BSIZE = ?o div BSIZE" "(?o + i) mod BSIZE = ?o mod BSIZE + i"
    unfolding add.assoc [symmetric] div_mult_mod_eq .
  then show "map (V (fblock V ino (?o div BSIZE))) [?o mod BSIZE..<?o mod BSIZE + m] ! i = fbytes V ino ?o m ! i"
    using i by (simp add: fbytes_def fbyte_def)
qed (simp add: fbytes_def)

lemma fbytes_append: "fbytes V ino i m @ fbytes V ino (i + m) k = fbytes V ino i (m + k)"
  using upt_add_eq_append [of i "i + m" k] by (simp add: fbytes_def flip: map_append add.assoc)

lemma readi_loop_ok:
  fixes s :: "'a kfs_scheme"
  assumes ino: "inodes s0 ip = ino" "i_dev ino = ROOTDEV" and cap: "card (B \<union> dom H) + 1 \<le> tx_cap sz"
  shows "in_tx h pr st sz s0 B H V s \<Longrightarrow> unat off + n < 2 ^ 32 \<Longrightarrow> (\<And>i. unat off \<le> i \<Longrightarrow> i < unat off + n \<Longrightarrow> present st sz H V ino (i div BSIZE))
    \<Longrightarrow> \<exists>s'. readi_loop h ip DLocal off n tot acc s = Some (tot + of_nat n, acc @ fbytes V ino (unat off) n, s') \<and> in_tx h pr st sz s0 B H V s'"
proof (induction n arbitrary: off tot acc s rule: less_induct)
  case (less n)
  show ?case
  proof (cases "n = 0")
    case True
    then show ?thesis using less.prems(1) by (subst readi_loop.simps) (simp add: fbytes_def)
  next
    case False
    let ?m = "chunk n off" and ?a = "fblock V ino (unat off div BSIZE)"
    have m: "0 < ?m" "?m \<le> n" using chunk_pos [OF False] chunk_le by simp_all
    have p: "present st sz H V ino (unat off div BSIZE)" using less.prems(3) [of "unat off"] False by simp
    obtain s1 where s1: "bmap h ip (unat off div BSIZE) s = Some (?a, s1)" "in_tx h pr st sz s0 B H V s1"
      using bmap_present [OF less.prems(1) ino p cap] by blast
    have a: "H ?a = None" "\<not> in_log st sz ?a" "?a \<noteq> 0" using p by (auto simp: present_def usable_def)
    have "card (B \<union> dom H \<union> {?a}) \<le> tx_cap sz" using card_grow [OF cap tx.finite_ok [OF less.prems(1)], of ?a] by simp
    from tx.read_one [OF s1(2) a(1,2) this] obtain bp s2 s3 where s: "bread h ROOTDEV ?a s1 = Some (bp, s2)" "b_data (bufs s2 bp) = V ?a"
      "in_tx h pr st sz s0 B (H(?a \<mapsto> bp)) V s2" "brelse h bp s2 = Some s3" "in_tx h pr st sz s0 B H V s3" by blast
    have u: "unat (off + of_nat ?m) = unat off + ?m" using less.prems(2) m by (simp add: unat_word_ariths unat_of_nat)
    have st: "readi_loop h ip DLocal off n tot acc s
        = readi_loop h ip DLocal (off + of_nat ?m) (n - ?m) (tot + of_nat ?m) (acc @ fbytes V ino (unat off) ?m) s3"
      using False s1 s a local_copyout [OF s(3)] in_tx_frame(2) [OF s1(2)] ino fbytes_chunk [OF refl False, of V ino]
      by (subst readi_loop.simps) (simp add: Let_def)
    have "\<exists>s'. readi_loop h ip DLocal (off + of_nat ?m) (n - ?m) (tot + of_nat ?m) (acc @ fbytes V ino (unat off) ?m) s3
        = Some (tot + of_nat ?m + of_nat (n - ?m), (acc @ fbytes V ino (unat off) ?m) @ fbytes V ino (unat (off + of_nat ?m)) (n - ?m), s')
      \<and> in_tx h pr st sz s0 B H V s'"
      by (rule less.IH) (use less.prems m u s(5) in auto)
    moreover have "tot + of_nat ?m + of_nat (n - ?m) = tot + of_nat n" using m(2) by (simp add: of_nat_diff)
    moreover have "(acc @ fbytes V ino (unat off) ?m) @ fbytes V ino (unat (off + of_nat ?m)) (n - ?m) = acc @ fbytes V ino (unat off) n"
      using fbytes_append [of V ino "unat off" ?m "n - ?m"] m(2) u by simp
    ultimately show ?thesis unfolding st by simp
  qed
qed


text \<open>How much a read at \<open>off\<close> of \<open>n\<close> bytes returns.\<close>

definition read_len :: "inode \<Rightarrow> uint \<Rightarrow> uint \<Rightarrow> nat" where
  "read_len ino off n = (if unat off > unat (i_size ino) \<or> unat off + unat n \<ge> 2 ^ 32 then 0 else min (unat n) (unat (i_size ino) - unat off))"

lemma no_wrap: "(off :: uint) + n < off \<longleftrightarrow> unat off + unat n \<ge> 2 ^ 32"
proof -
  have "unat (off + n) = (unat off + unat n) mod 2 ^ 32" by (simp add: unat_word_ariths)
  moreover note unat_bound [of off] unat_bound [of n]
  ultimately show ?thesis unfolding word_less_nat_alt by (cases "unat off + unat n < 2 ^ 32") (auto simp: mod_if)
qed

lemma readi_ok:
  fixes s :: "'a kfs_scheme"
  assumes i: "in_tx h pr st sz s0 B H V s" and ino: "inodes s0 ip = ino" "i_dev ino = ROOTDEV" and cap: "card (B \<union> dom H) + 1 \<le> tx_cap sz"
    and p: "\<And>i. unat off \<le> i \<Longrightarrow> i < unat off + read_len ino off n \<Longrightarrow> present st sz H V ino (i div BSIZE)"
  shows "\<exists>s'. readi h ip DLocal off n s = Some (of_nat (read_len ino off n), fbytes V ino (unat off) (read_len ino off n), s') \<and> in_tx h pr st sz s0 B H V s'"
proof -
  have e: "inodes s ip = ino" using in_tx_frame(2) [OF i] ino(1) by simp
  show ?thesis
  proof (cases "off > i_size ino \<or> off + n < off")
    case True
    then have "read_len ino off n = 0" using no_wrap [of off n] by (auto simp: read_len_def word_less_nat_alt)
    then show ?thesis using True i e by (simp add: readi_def fbytes_def)
  next
    case False
    let ?n = "if off + n > i_size ino then i_size ino - off else n"
    have l: "unat off \<le> unat (i_size ino)" "unat off + unat n < 2 ^ 32" using False no_wrap [of off n] by (auto simp: word_less_nat_alt not_less)
    then have "unat (off + n) = unat off + unat n" by (simp add: unat_word_ariths)
    then have u: "unat ?n = read_len ino off n" using l by (auto simp: read_len_def word_less_nat_alt unat_sub word_le_nat_alt)
    have "unat off + unat ?n < 2 ^ 32" using u l by (auto simp: read_len_def)
    from readi_loop_ok [OF ino cap i this, of 0 "[]"] p u show ?thesis using False e by (auto simp: readi_def Let_def)
  qed
qed


subsection \<open>The inode table\<close>

text \<open>
  The table holds an inode at most once. The entry that \<open>iget\<close> uses: the one that holds the inode, otherwise
  the first that is not referenced.
\<close>

definition holds_inode :: "uint \<Rightarrow> uint \<Rightarrow> inode \<Rightarrow> bool" where
  "holds_inode dev inum ino \<longleftrightarrow> sint (i_ref ino) > 0 \<and> i_dev ino = dev \<and> i_inum ino = inum"

definition itable_ok :: "(nat \<Rightarrow> inode) \<Rightarrow> bool" where
  "itable_ok ins \<longleftrightarrow> (\<forall>i<NINODE. \<forall>j<NINODE. \<forall>dev inum. holds_inode dev inum (ins i) \<longrightarrow> holds_inode dev inum (ins j) \<longrightarrow> i = j)"

definition iget_slot :: "(nat \<Rightarrow> inode) \<Rightarrow> uint \<Rightarrow> uint \<Rightarrow> nat option" where
  "iget_slot ins dev inum = (case List.find (\<lambda>i. holds_inode dev inum (ins i)) [0..<NINODE] of Some i \<Rightarrow> Some i
     | None \<Rightarrow> List.find (\<lambda>i. i_ref (ins i) = 0) [0..<NINODE])"

definition iget_entry :: "uint \<Rightarrow> uint \<Rightarrow> inode \<Rightarrow> inode" where
  "iget_entry dev inum ino = (if holds_inode dev inum ino then ino\<lparr>i_ref := i_ref ino + 1\<rparr>
     else ino\<lparr>i_dev := dev, i_inum := inum, i_ref := 1, i_valid := False\<rparr>)"

lemma keeps_locks_upd_inode [intro]: "keeps_locks (upd_inode ip f)"
  by (simp add: keeps_locks_def upd_inode_def)

lemma iget_ok:
  fixes s :: "'a kfs_scheme"
  assumes "in_call h pr s"
  shows "iget h dev inum s = map_option (\<lambda>ip. (ip, upd_inode ip (iget_entry dev inum) s)) (iget_slot (inodes s) dev inum)"
proof -
  note d = in_callD [OF assms]
  let ?w = "within h itable_lock s" and ?m = "\<lambda>i. holds_inode dev inum (inodes s i)" and ?z = "\<lambda>i. i_ref (inodes s i) = 0"
  have w: "inodes ?w = inodes s" by (simp add: within_def)
  have r: "release h itable_lock (upd_inode ip f ?w) = Some (upd_inode ip f s)" for ip f
    by (rule section_calm [OF d(1) d(4) keeps_locks_upd_inode])
  have u: "upd_inode ip (iget_entry dev inum) s = upd_inode ip f s" if "iget_entry dev inum (inodes s ip) = f (inodes s ip)" for ip f
    using that by (simp add: upd_inode_def)
  show ?thesis
  proof (cases "List.find ?m [0..<NINODE]")
    case (Some ip)
    then have "?m ip" by (auto simp: find_Some_iff)
    then show ?thesis using Some r w u [of ip "\<lambda>i. i\<lparr>i_ref := i_ref i + 1\<rparr>"]
      by (simp add: iget_def acquire_free [OF d(4)] iget_slot_def iget_entry_def holds_inode_def)
  next
    case None
    have e: "upd_inode ip (iget_entry dev inum) s = upd_inode ip (\<lambda>i. i\<lparr>i_dev := dev, i_inum := inum, i_ref := 1, i_valid := False\<rparr>) s"
      if "List.find ?z [0..<NINODE] = Some ip" for ip
    proof (rule u)
      have "ip < NINODE" using that by (auto simp: find_Some_iff)
      then show "iget_entry dev inum (inodes s ip) = (inodes s ip)\<lparr>i_dev := dev, i_inum := inum, i_ref := 1, i_valid := False\<rparr>"
        using None by (auto simp: find_None_iff iget_entry_def)
    qed
    show ?thesis using None r w e
      by (cases "List.find ?z [0..<NINODE]") (simp_all add: iget_def acquire_free [OF d(4)] iget_slot_def holds_inode_def)
  qed
qed

lemma iget_slot_ok:
  assumes t: "itable_ok ins" and sl: "iget_slot ins dev inum = Some ip"
  shows "ip < NINODE" "i_dev (iget_entry dev inum (ins ip)) = dev" "i_inum (iget_entry dev inum (ins ip)) = inum"
    "itable_ok (ins(ip := iget_entry dev inum (ins ip)))"
proof -
  show lt: "ip < NINODE" using sl by (auto simp: iget_slot_def find_Some_iff split: option.splits)
  show "i_dev (iget_entry dev inum (ins ip)) = dev" "i_inum (iget_entry dev inum (ins ip)) = inum"
    by (auto simp: iget_entry_def holds_inode_def)
  have new: "\<not> holds_inode dev inum (ins j)" if "\<not> holds_inode dev inum (ins ip)" "j < NINODE" for j
  proof -
    have "List.find (\<lambda>i. holds_inode dev inum (ins i)) [0..<NINODE] = None"
      using sl that(1) by (auto simp: iget_slot_def find_Some_iff split: option.splits)
    then show ?thesis using that(2) by (auto simp: find_None_iff)
  qed
  have t': "i = j" if "i < NINODE" "j < NINODE" "holds_inode d n (ins i)" "holds_inode d n (ins j)" for i j d n
    using t that unfolding itable_ok_def by blast
  have e: "holds_inode d n (iget_entry dev inum (ins ip)) \<Longrightarrow> d = dev \<and> n = inum" for d n
    by (auto simp: iget_entry_def holds_inode_def split: if_splits)
  show "itable_ok (ins(ip := iget_entry dev inum (ins ip)))"
    unfolding itable_ok_def using t' new e lt by (metis fun_upd_apply)
qed

end
