(* ===== verification/File.thy ===== *)
theory File
  imports Contents
begin

text \<open>
  \<open>labo2/kernel/file.c\<close>, the table of open files, and \<open>pipealloc\<close> of \<open>pipe.c\<close>, which uses it. A file is named by its index.
  The functions are followed through one kernel thread, so that a call that has to wait for another thread has
  the result \<open>None\<close>, like a panic. The table \<open>devsw\<close> of device functions is an argument.
\<close>

subsection \<open>State\<close>

definition NFILE :: nat where "NFILE = 100"
definition NDEV :: int where "NDEV = 10"

datatype ftype = FD_NONE | FD_PIPE | FD_INODE | FD_DEVICE

record open_file =
  f_type :: ftype
  f_ref :: cint
  f_readable :: bool
  f_writable :: bool
  f_pipe :: addr
  f_ip :: nat
  f_off :: uint
  f_major :: ushort

record kfile = kfs +
  ftable :: "nat \<Rightarrow> open_file"

definition upd_file :: "nat \<Rightarrow> (open_file \<Rightarrow> open_file) \<Rightarrow> 'a kfile_scheme \<Rightarrow> 'a kfile_scheme" where
  "upd_file f g s = s\<lparr>ftable := (ftable s)(f := g (ftable s f))\<rparr>"

text \<open>Calls that return without waiting.\<close>

definition start_op :: "nat \<Rightarrow> 'a klog_scheme \<Rightarrow> 'a klog_scheme option" where
  "start_op h s = map_option snd (now (begin_op h s))"

fun at_once :: "('r, 'k, 's) progress option \<Rightarrow> ('r \<times> 's) option" where
  "at_once (Some (Done r s)) = Some (r, s)"
| "at_once (Some (Asleep k s)) = None"
| "at_once None = None"

subsection \<open>References\<close>

definition fileinit :: "'a kfile_scheme \<Rightarrow> 'a kfile_scheme" where
  "fileinit s = initlock ftable_lock ''ftable'' s"

definition filealloc :: "nat \<Rightarrow> 'a kfile_scheme \<Rightarrow> (nat option \<times> 'a kfile_scheme) option" where
  "filealloc h s = do {
     s \<leftarrow> acquire h ftable_lock s;
     case List.find (\<lambda>f. f_ref (ftable s f) = 0) [0..<NFILE] of
       Some f \<Rightarrow> do {
         s \<leftarrow> release h ftable_lock (upd_file f (\<lambda>x. x\<lparr>f_ref := 1\<rparr>) s);
         Some (Some f, s) }
     | None \<Rightarrow> do {
         s \<leftarrow> release h ftable_lock s;
         Some (None, s) } }"

definition filedup :: "nat \<Rightarrow> nat \<Rightarrow> 'a kfile_scheme \<Rightarrow> (nat \<times> 'a kfile_scheme) option" where
  "filedup h f s = do {
     s \<leftarrow> acquire h ftable_lock s;
     if sint (f_ref (ftable s f)) < 1 then None
     else do {
       s \<leftarrow> release h ftable_lock (upd_file f (\<lambda>x. x\<lparr>f_ref := f_ref x + 1\<rparr>) s);
       Some (f, s) } }"

definition fileclose :: "nat \<Rightarrow> nat \<Rightarrow> 'a kfile_scheme \<Rightarrow> 'a kfile_scheme option" where
  "fileclose h f s = do {
     s \<leftarrow> acquire h ftable_lock s;
     if sint (f_ref (ftable s f)) < 1 then None
     else do {
       let s = upd_file f (\<lambda>x. x\<lparr>f_ref := f_ref x - 1\<rparr>) s;
       if sint (f_ref (ftable s f)) > 0 then release h ftable_lock s
       else do {
         let ff = ftable s f;
         s \<leftarrow> release h ftable_lock (upd_file f (\<lambda>x. x\<lparr>f_ref := 0, f_type := FD_NONE\<rparr>) s);
         if f_type ff = FD_PIPE then pipeclose h (f_pipe ff) (f_writable ff) s
         else if f_type ff = FD_INODE \<or> f_type ff = FD_DEVICE then do {
           s \<leftarrow> start_op h s;
           s \<leftarrow> iput h (f_ip ff) s;
           end_op h s }
         else Some s } } }"

subsection \<open>Reading and writing\<close>

text \<open>\<open>struct stat\<close> as bytes; \<open>pad\<close> are the four bytes between \<open>nlink\<close> and \<open>size\<close>, which nobody sets.\<close>

definition bytes_of :: "nat \<Rightarrow> uint64 \<Rightarrow> uchar list" where
  "bytes_of n v = map (\<lambda>i. ucast (drop_bit (8 * i) v)) [0..<n]"

definition stat_bytes :: "uchar list \<Rightarrow> fstat \<Rightarrow> uchar list" where
  "stat_bytes pad st = bytes_of 4 (ucast (st_dev st)) @ bytes_of 4 (ucast (st_ino st)) @ bytes_of 2 (ucast (st_type st))
     @ bytes_of 2 (ucast (st_nlink st)) @ pad @ bytes_of 8 (st_size st)"

definition filestat :: "nat \<Rightarrow> uchar list \<Rightarrow> nat \<Rightarrow> addr \<Rightarrow> 'a kfile_scheme \<Rightarrow> (int \<times> 'a kfile_scheme) option" where
  "filestat h pad f addr s = do {
     (mp, s) \<leftarrow> myproc h s;
     p \<leftarrow> mp;
     if f_type (ftable s f) = FD_INODE \<or> f_type (ftable s f) = FD_DEVICE then do {
       let ip = f_ip (ftable s f);
       s \<leftarrow> ilock h ip s;
       let st = stati ip s;
       s \<leftarrow> iunlock h ip s;
       (r, s) \<leftarrow> copyout h (p_pagetable (procs s p)) addr (stat_bytes pad st) s;
       Some (if r < 0 then -1 else 0, s) }
     else Some (-1, s) }"

type_synonym 's devfun = "addr \<Rightarrow> cint \<Rightarrow> 's \<Rightarrow> (int \<times> 's) option"

definition major_of :: "open_file \<Rightarrow> int" where
  "major_of x = sint (f_major x)"

definition fileread ::
  "(int \<Rightarrow> 'a kfile_scheme devfun option) \<Rightarrow> nat \<Rightarrow> nat \<Rightarrow> addr \<Rightarrow> cint \<Rightarrow> 'a kfile_scheme \<Rightarrow> (int \<times> 'a kfile_scheme) option" where
  "fileread devsw h f addr n s =
     (let x = ftable s f in
      if \<not> f_readable x then Some (-1, s)
      else case f_type x of
        FD_PIPE \<Rightarrow> at_once (piperead h (f_pipe x) addr (sint n) s)
      | FD_DEVICE \<Rightarrow>
          if major_of x < 0 \<or> major_of x \<ge> NDEV then Some (-1, s)
          else (case devsw (major_of x) of None \<Rightarrow> Some (-1, s) | Some rd \<Rightarrow> rd addr n s)
      | FD_INODE \<Rightarrow> do {
          s \<leftarrow> ilock h (f_ip x) s;
          (r, _, s) \<leftarrow> readi h (f_ip x) (DUser addr) (f_off (ftable s f)) n s;
          let s = (if sint r > 0 then upd_file f (\<lambda>x. x\<lparr>f_off := f_off x + r\<rparr>) s else s);
          s \<leftarrow> iunlock h (f_ip x) s;
          Some (sint r, s) }
      | FD_NONE \<Rightarrow> None)"

text \<open>The loop of \<open>filewrite\<close>: a few blocks per transaction. It returns \<open>i\<close>.\<close>

definition write_max :: int where
  "write_max = (int MAXOPBLOCKS - 1 - 1 - 2) div 2 * int BSIZE"

function filewrite_loop :: "nat \<Rightarrow> nat \<Rightarrow> addr \<Rightarrow> int \<Rightarrow> int \<Rightarrow> 'a kfile_scheme \<Rightarrow> (int \<times> 'a kfile_scheme) option" where
  "filewrite_loop h f addr n i s =
     (if i < n then
        Option.bind (start_op h s) (\<lambda>s.
        Option.bind (ilock h (f_ip (ftable s f)) s) (\<lambda>s.
        let n1 = min (n - i) write_max in
        Option.bind (writei h (f_ip (ftable s f)) (SUser (addr + of_int i)) (f_off (ftable s f)) (of_int n1) s) (\<lambda>(r, s).
        let s = (if sint r > 0 then upd_file f (\<lambda>x. x\<lparr>f_off := f_off x + r\<rparr>) s else s) in
        Option.bind (iunlock h (f_ip (ftable s f)) s) (\<lambda>s.
        Option.bind (end_op h s) (\<lambda>s.
        if sint r \<noteq> n1 then Some (i, s) else filewrite_loop h f addr n (i + n1) s)))))
      else Some (i, s))"
  by auto
termination
  by (relation "measure (\<lambda>(h, f, addr, n, i, s). nat (n - i))") (auto simp: write_max_def MAXOPBLOCKS_def BSIZE_def)

declare filewrite_loop.simps [simp del]

definition filewrite ::
  "(int \<Rightarrow> 'a kfile_scheme devfun option) \<Rightarrow> nat \<Rightarrow> nat \<Rightarrow> addr \<Rightarrow> cint \<Rightarrow> 'a kfile_scheme \<Rightarrow> (int \<times> 'a kfile_scheme) option" where
  "filewrite devsw h f addr n s =
     (let x = ftable s f in
      if \<not> f_writable x then Some (-1, s)
      else case f_type x of
        FD_PIPE \<Rightarrow> at_once (pipewrite h (f_pipe x) addr (sint n) s)
      | FD_DEVICE \<Rightarrow>
          if major_of x < 0 \<or> major_of x \<ge> NDEV then Some (-1, s)
          else (case devsw (major_of x) of None \<Rightarrow> Some (-1, s) | Some wr \<Rightarrow> wr addr n s)
      | FD_INODE \<Rightarrow> do {
          (i, s) \<leftarrow> filewrite_loop h f addr (sint n) 0 s;
          Some (if i = sint n then sint n else -1, s) }
      | FD_NONE \<Rightarrow> None)"

subsection \<open>Pipes\<close>

definition close_opt :: "nat \<Rightarrow> nat option \<Rightarrow> 'a kfile_scheme \<Rightarrow> 'a kfile_scheme option" where
  "close_opt h f s = (case f of None \<Rightarrow> Some s | Some f \<Rightarrow> fileclose h f s)"

text \<open>The two files, or \<open>None\<close> for -1.\<close>

definition pipealloc :: "nat \<Rightarrow> 'a kfile_scheme \<Rightarrow> ((nat \<times> nat) option \<times> 'a kfile_scheme) option" where
  "pipealloc h s = do {
     (f0, s) \<leftarrow> filealloc h s;
     (f1, s) \<leftarrow> (if f0 = None then Some (None, s) else filealloc h s);
     (pi, s) \<leftarrow> (if f0 = None \<or> f1 = None then Some (0, s) else kalloc h s);
     case (f0, f1) of
       (Some a, Some b) \<Rightarrow>
         if pi = 0 then do { s \<leftarrow> fileclose h a s; s \<leftarrow> fileclose h b s; Some (None, s) }
         else do {
           let s = upd_pipe pi (\<lambda>q. q\<lparr>pi_readopen := 1, pi_writeopen := 1, pi_nwrite := 0, pi_nread := 0\<rparr>) s;
           let s = initlock (plock pi) ''pipe'' s;
           let s = upd_file a (\<lambda>x. x\<lparr>f_type := FD_PIPE, f_readable := True, f_writable := False, f_pipe := pi\<rparr>) s;
           let s = upd_file b (\<lambda>x. x\<lparr>f_type := FD_PIPE, f_readable := False, f_writable := True, f_pipe := pi\<rparr>) s;
           Some (Some (a, b), s) }
     | _ \<Rightarrow> do { s \<leftarrow> close_opt h f0 s; s \<leftarrow> close_opt h f1 s; Some (None, s) } }"

subsection \<open>The table as a map of reference counts\<close>

text \<open>The entries that nobody refers to, in the order in which \<open>filealloc\<close> hands them out; such an entry has no type.\<close>

definition free_files :: "(nat \<Rightarrow> open_file) \<Rightarrow> nat list" where
  "free_files ft = filter (\<lambda>f. f_ref (ft f) = 0) [0..<NFILE]"

definition files_ok :: "(nat \<Rightarrow> open_file) \<Rightarrow> bool" where
  "files_ok ft \<longleftrightarrow> (\<forall>f. f_ref (ft f) = 0 \<longrightarrow> f_type (ft f) = FD_NONE)"

lemma find_filter: "List.find P xs = (case filter P xs of [] \<Rightarrow> None | x # _ \<Rightarrow> Some x)"
  by (induction xs) auto

lemma filter_distinct_tl: "distinct xs \<Longrightarrow> filter P xs = x # ys \<Longrightarrow> filter (\<lambda>y. y \<noteq> x \<and> P y) xs = ys"
  by (induction xs) (auto simp: filter_id_conv split: if_splits intro: filter_cong)

lemma free_files_upd:
  assumes "free_files ft = f # fs" and "f_ref x \<noteq> 0"
  shows "free_files (ft(f := x)) = fs"
proof -
  have "free_files (ft(f := x)) = filter (\<lambda>g. g \<noteq> f \<and> f_ref (ft g) = 0) [0..<NFILE]"
    using assms(2) by (auto simp: free_files_def intro!: filter_cong)
  also have "\<dots> = fs" using assms(1) by (intro filter_distinct_tl) (auto simp: free_files_def)
  finally show ?thesis .
qed

lemma free_files_in: "f \<in> set (free_files ft) \<Longrightarrow> f_ref (ft f) = 0" "distinct (free_files ft)"
  by (simp_all add: free_files_def)

lemma keeps_locks_upd_file [intro]: "keeps_locks (upd_file f g)"
  by (simp add: keeps_locks_def upd_file_def)

lemma upd_file_sel [simp]:
  "ftable (upd_file f g s) = (ftable s)(f := g (ftable s f))" "procs (upd_file f g s) = procs s" "pipes (upd_file f g s) = pipes s"
  "mem (upd_file f g s) = mem s" "freelist (upd_file f g s) = freelist s" "kend (upd_file f g s) = kend s"
  "cpus (upd_file f g s) = cpus s" "sie (upd_file f g s) = sie s" "lks (upd_file f g s) = lks s"
  by (simp_all add: upd_file_def)

lemma upd_file_twice [simp]: "upd_file f g (upd_file f k s) = upd_file f (\<lambda>x. g (k x)) s"
  by (simp add: upd_file_def)

lemma ftable_within [simp]: "ftable (within h lk s) = ftable s"
  by (simp add: within_def)

lemma in_call_upd_file [simp]: "in_call h pr (upd_file f g s) = in_call h pr s"
  by (rule in_call_cong) simp_all

lemma upd_file_noop: "g (ftable s f) = ftable s f \<Longrightarrow> upd_file f g s = s"
  by (simp add: upd_file_def fun_upd_idem)

lemma section_upd_file:
  assumes "in_call h pr s"
  shows "release h ftable_lock (upd_file f g (within h ftable_lock s)) = Some (upd_file f g s)"
  using in_callD [OF assms] by (intro section_calm) auto

lemma filealloc_ok:
  fixes s :: "'a kfile_scheme"
  assumes "in_call h pr s"
  shows "filealloc h s = Some (case free_files (ftable s) of [] \<Rightarrow> (None, s) | f # _ \<Rightarrow> (Some f, upd_file f (\<lambda>x. x\<lparr>f_ref := 1\<rparr>) s))"
proof -
  note d = in_callD [OF assms]
  show ?thesis using section_upd_file [OF assms] release_section [OF d(1) d(4)]
    by (simp add: filealloc_def acquire_free [OF d(4)] find_filter free_files_def split: list.split)
qed

lemma sint_pred_pos: "sint x > 1 \<Longrightarrow> sint (x - 1 :: cint) > 0"
  using sint_less [of x] by (simp add: sint_word_ariths signed_take_bit_int_eq_self)

lemma fileclose_ok:
  fixes s :: "'a kfile_scheme"
  assumes "in_call h pr s"
  shows "f_ref (ftable s f) = 1 \<Longrightarrow> f_type (ftable s f) = FD_NONE \<Longrightarrow> fileclose h f s = Some (upd_file f (\<lambda>x. x\<lparr>f_ref := 0, f_type := FD_NONE\<rparr>) s)"
    and "f_ref (ftable s f) = 1 \<Longrightarrow> f_type (ftable s f) = FD_PIPE \<Longrightarrow> fileclose h f s
      = pipeclose h (f_pipe (ftable s f)) (f_writable (ftable s f)) (upd_file f (\<lambda>x. x\<lparr>f_ref := 0, f_type := FD_NONE\<rparr>) s)"
    and "sint (f_ref (ftable s f)) > 1 \<Longrightarrow> fileclose h f s = Some (upd_file f (\<lambda>x. x\<lparr>f_ref := f_ref x - 1\<rparr>) s)"
proof -
  note d = in_callD [OF assms]
  show "f_ref (ftable s f) = 1 \<Longrightarrow> f_type (ftable s f) = FD_NONE \<Longrightarrow> fileclose h f s = Some (upd_file f (\<lambda>x. x\<lparr>f_ref := 0, f_type := FD_NONE\<rparr>) s)"
   and "f_ref (ftable s f) = 1 \<Longrightarrow> f_type (ftable s f) = FD_PIPE \<Longrightarrow> fileclose h f s
      = pipeclose h (f_pipe (ftable s f)) (f_writable (ftable s f)) (upd_file f (\<lambda>x. x\<lparr>f_ref := 0, f_type := FD_NONE\<rparr>) s)"
    using section_upd_file [OF assms] by (simp_all add: fileclose_def acquire_free [OF d(4)] Let_def)
  assume r: "sint (f_ref (ftable s f)) > 1"
  then have "sint (f_ref (ftable s f) - 1) > 0" by (rule sint_pred_pos)
  then show "fileclose h f s = Some (upd_file f (\<lambda>x. x\<lparr>f_ref := f_ref x - 1\<rparr>) s)"
    using r section_upd_file [OF assms] by (simp add: fileclose_def acquire_free [OF d(4)] Let_def)
qed

lemma filedup_ok:
  fixes s :: "'a kfile_scheme"
  assumes "in_call h pr s"
  shows "filedup h f s = (if sint (f_ref (ftable s f)) < 1 then None else Some (f, upd_file f (\<lambda>x. x\<lparr>f_ref := f_ref x + 1\<rparr>) s))"
  using section_upd_file [OF assms] by (simp add: filedup_def acquire_free [OF in_callD(4) [OF assms]] Let_def)

subsection \<open>The life of a pipe\<close>

lemma pipeclose_ok:
  fixes s :: "'a kpipe_scheme"
  assumes "in_call h pr s"
  shows "pipeclose h pi w s = (let s1 = (upd_pipe pi (if w then (\<lambda>q. q\<lparr>pi_writeopen := 0\<rparr>) else (\<lambda>q. q\<lparr>pi_readopen := 0\<rparr>)) s)
       \<lparr>procs := wake_all (Some pr) (if w then chan_r pi else chan_w pi) (procs s)\<rparr> in
     if pi_readopen (pipes s1 pi) = 0 \<and> pi_writeopen (pipes s1 pi) = 0 then kfree h pi s1 else Some s1)"
proof -
  note d = in_callD [OF assms]
  have wk: "wakeup h ch (upd_pipe pi g (within h (plock pi) s))
      = Some (within h (plock pi) ((upd_pipe pi g s)\<lparr>procs := wake_all (Some pr) ch (procs s)\<rparr>))" for ch g
  proof -
    have "in_call h pr (upd_pipe pi g s)" using assms by simp
    note d' = in_callD [OF this]
    have "upd_pipe pi g (within h (plock pi) s) = within h (plock pi) (upd_pipe pi g s)"
      by (simp add: upd_pipe_def within_def)
    then show ?thesis using wakeup_section [OF d'(1,5), of "plock pi" ch] d'(3) by simp
  qed
  have r: "release h (plock pi) (within h (plock pi) ((upd_pipe pi g s)\<lparr>procs := P\<rparr>)) = Some ((upd_pipe pi g s)\<lparr>procs := P\<rparr>)" for g P
  proof -
    have "in_call h pr ((upd_pipe pi g s)\<lparr>procs := P\<rparr>)" using assms by (intro in_call_procs) simp
    note d' = in_callD [OF this]
    show ?thesis by (rule release_section [OF d'(1) d'(4)])
  qed
  show ?thesis by (cases w) (simp_all add: pipeclose_def acquire_free [OF d(4)] wk r Let_def)
qed

text \<open>What \<open>kalloc\<close> and \<open>kfree\<close> do to the state of a system call: the memory and the free list change.\<close>

lemma in_call_ready: "in_call h pr s \<Longrightarrow> mem_ready h s"
  using in_callD [of h pr s] by (simp add: mem_ready_def calm_ok)

lemma in_call_with_mem [simp]: "in_call h pr (with_mem m f s) = in_call h pr s"
  by (rule in_call_cong) (simp_all add: with_mem_def)

lemma kalloc_call:
  assumes "in_call h pr s" and "free_inv s xs"
  shows "case xs of [] \<Rightarrow> kalloc h s = Some (0, s)
    | p # ps \<Rightarrow> p \<noteq> 0 \<and> good_page (kend s) p \<and> p \<notin> set ps \<and> (\<exists>m f. kalloc h s = Some (p, with_mem m f s) \<and> free_inv (with_mem m f s) ps
        \<and> (\<forall>b. pgno b \<noteq> pgno p \<longrightarrow> m b = mem s b))"
proof -
  have k: "kfree_list h s xs" using assms in_call_ready by (auto simp: kfree_list_def)
  note sp = kalloc_spec [OF in_call_ready [OF assms(1)]]
  have t: "touch h s = s" using in_callD(1) [OF assms(1)] by simp
  show ?thesis
  proof (cases xs)
    case Nil
    then have "freelist s = 0" using assms(2) by (simp add: free_inv_def)
    then show ?thesis using Nil sp t by simp
  next
    case (Cons p ps)
    then have p: "p \<noteq> 0" "freelist s = p" "good_page (kend s) p" "p \<notin> set ps" using assms(2) by (auto simp: free_inv_def)
    obtain s' where s': "kalloc h s = Some (p, s')" "kfree_list h s' ps" "\<forall>b. pgno b \<noteq> pgno p \<longrightarrow> mem s' b = mem s b"
      using kpa.alloc_some [of h s p ps] k Cons by auto
    then have "s' = with_mem (memset p 5 (unat PGSIZE) (mem s)) (ld64 p (mem s)) s" using p sp t by simp
    with s' show ?thesis using Cons p by (auto simp: kfree_list_def with_mem_def)
  qed
qed

lemma kfree_call:
  assumes "in_call h pr s" and "free_inv s xs" and "good_page (kend s) p" and "p \<notin> set xs"
  shows "\<exists>m. kfree h p s = Some (with_mem m p s) \<and> free_inv (with_mem m p s) (p # xs)"
proof -
  have k: "kfree_list h s xs" using assms in_call_ready by (auto simp: kfree_list_def)
  obtain s' where "kfree h p s = Some s'" "kfree_list h s' (p # xs)"
    using kpa.dealloc_ok [OF k _ assms(4)] assms(3) by (auto simp: kpage_def)
  moreover have "touch h s = s" using in_callD(1) [OF assms(1)] by simp
  ultimately show ?thesis using kfree_spec [OF in_call_ready [OF assms(1)] assms(3)] by (auto simp: kfree_list_def)
qed

text \<open>An end of the pipe \<open>pi\<close>, and an entry after its last reference is gone.\<close>

definition pipe_file :: "bool \<Rightarrow> addr \<Rightarrow> open_file \<Rightarrow> open_file" where
  "pipe_file w pi x = x\<lparr>f_type := FD_PIPE, f_ref := 1, f_readable := \<not> w, f_writable := w, f_pipe := pi\<rparr>"

definition closed_file :: "open_file \<Rightarrow> open_file" where
  "closed_file x = x\<lparr>f_ref := 0, f_type := FD_NONE\<rparr>"

definition pipe_open :: "pipe \<Rightarrow> bool" where
  "pipe_open q \<longleftrightarrow> pi_readopen q = 1 \<and> pi_writeopen q = 1"

lemma closed_file_id: "f_ref x = 0 \<Longrightarrow> f_type x = FD_NONE \<Longrightarrow> closed_file (x\<lparr>f_ref := 1\<rparr>) = x"
  by (simp add: closed_file_def)

lemma reopen_close:
  assumes "in_call h pr s" and "files_ok (ftable s)" and "f_ref (ftable s f) = 0"
  shows "fileclose h f (upd_file f (\<lambda>x. x\<lparr>f_ref := 1\<rparr>) s) = Some s"
proof -
  have t: "f_type (ftable s f) = FD_NONE" using assms(2,3) by (simp add: files_ok_def)
  have "in_call h pr (upd_file f (\<lambda>x. x\<lparr>f_ref := 1\<rparr>) s)" using assms(1) by simp
  from fileclose_ok(1) [OF this, of f] t closed_file_id [OF assms(3) t] show ?thesis
    by (simp add: closed_file_def upd_file_noop)
qed

lemma pipealloc_fail:
  fixes s :: "'a kfile_scheme"
  assumes c: "in_call h pr s" and ok: "files_ok (ftable s)" and inv: "free_inv s xs"
    and none: "length (free_files (ftable s)) < 2 \<or> xs = []"
  shows "pipealloc h s = Some (None, s)"
proof (cases "free_files (ftable s)")
  case Nil
  then show ?thesis by (simp add: pipealloc_def filealloc_ok [OF c] close_opt_def)
next
  case (Cons a fs)
  let ?o = "\<lambda>f :: nat. upd_file f (\<lambda>x. x\<lparr>f_ref := 1\<rparr>)"
  have a: "f_ref (ftable s a) = 0" using free_files_in(1) [of a "ftable s"] Cons by simp
  have c1: "in_call h pr (?o a s)" and f1: "free_files (ftable (?o a s)) = fs"
    using c free_files_upd [OF Cons, of "(ftable s a)\<lparr>f_ref := 1\<rparr>"] by simp_all
  show ?thesis
  proof (cases fs)
    case Nil
    then show ?thesis using Cons f1 reopen_close [OF c ok a] by (simp add: pipealloc_def filealloc_ok [OF c] filealloc_ok [OF c1] close_opt_def)
  next
    case (Cons b gs)
    then have x: "xs = []" and b: "f_ref (ftable s b) = 0" "b \<noteq> a"
      using none \<open>free_files (ftable s) = a # fs\<close> free_files_in(1) [of b "ftable s"] free_files_in(2) [of "ftable s"] by auto
    have c2: "in_call h pr (?o b (?o a s))" and i2: "free_inv (?o b (?o a s)) []" using c inv x by (simp_all add: free_inv_def)
    have "?o b (?o a s) = ?o a (?o b s)" using b(2) by (simp add: upd_file_def fun_upd_twist)
    moreover have "fileclose h a (?o a (?o b s)) = Some (?o b s)"
      by (rule reopen_close) (use c ok a b in \<open>auto simp: files_ok_def\<close>)
    ultimately show ?thesis using \<open>free_files (ftable s) = a # fs\<close> Cons f1 kalloc_call [OF c2 i2] reopen_close [OF c ok b(1)]
      by (simp add: pipealloc_def filealloc_ok [OF c] filealloc_ok [OF c1])
  qed
qed


lemma pipealloc_ok:
  fixes s :: "'a kfile_scheme"
  assumes c: "in_call h pr s" and inv: "free_inv s (pi # ps)" and fr: "free_files (ftable s) = a # b # fs"
  shows "\<exists>s'. pipealloc h s = Some (Some (a, b), s') \<and> in_call h pr s' \<and> free_inv s' ps \<and> kend s' = kend s
    \<and> ftable s' = (ftable s)(a := pipe_file False pi (ftable s a), b := pipe_file True pi (ftable s b))
    \<and> (\<exists>q. pipes s' = (pipes s)(pi := q) \<and> pipe_inv q \<and> pipe_contents q = [] \<and> pipe_open q) \<and> procs s' = procs s
    \<and> (\<forall>b. pgno b \<noteq> pgno pi \<longrightarrow> mem s' b = mem s b)"
proof -
  let ?o = "\<lambda>f :: nat. upd_file f (\<lambda>x. x\<lparr>f_ref := 1\<rparr>)"
  let ?q = "(pipes s pi)\<lparr>pi_readopen := 1, pi_writeopen := 1, pi_nwrite := 0, pi_nread := 0\<rparr>"
  have ab: "a \<noteq> b" using free_files_in(2) [of "ftable s"] fr by auto
  have c1: "in_call h pr (?o a s)" and f1: "free_files (ftable (?o a s)) = b # fs"
    using c free_files_upd [OF fr, of "(ftable s a)\<lparr>f_ref := 1\<rparr>"] by simp_all
  have c2: "in_call h pr (?o b (?o a s))" and i2: "free_inv (?o b (?o a s)) (pi # ps)" using c inv by (simp_all add: free_inv_def)
  obtain m f where k: "pi \<noteq> 0" "kalloc h (?o b (?o a s)) = Some (pi, with_mem m f (?o b (?o a s)))" "free_inv (with_mem m f s) ps"
    and fr': "\<forall>b. pgno b \<noteq> pgno pi \<longrightarrow> m b = mem s b"
    using kalloc_call [OF c2 i2] by (auto simp: free_inv_def with_mem_def)
  let ?s = "upd_file b (\<lambda>x. x\<lparr>f_type := FD_PIPE, f_readable := False, f_writable := True, f_pipe := pi\<rparr>)
    (upd_file a (\<lambda>x. x\<lparr>f_type := FD_PIPE, f_readable := True, f_writable := False, f_pipe := pi\<rparr>)
    (initlock (plock pi) ''pipe'' (upd_pipe pi (\<lambda>_. ?q) (with_mem m f (?o b (?o a s))))))"
  have "pipealloc h s = Some (Some (a, b), ?s)"
    using k fr f1 by (simp add: pipealloc_def filealloc_ok [OF c] filealloc_ok [OF c1] Let_def with_mem_def upd_pipe_def)
  moreover have "in_call h pr ?s" using c2 by (simp add: initlock_call)
  moreover have "free_inv ?s ps" using k(3) by (simp add: free_inv_def initlock_def with_mem_def upd_pipe_def)
  moreover have "ftable ?s = (ftable s)(a := pipe_file False pi (ftable s a), b := pipe_file True pi (ftable s b))"
    using ab by (auto simp: initlock_def with_mem_def upd_pipe_def pipe_file_def)
  moreover have "pipes ?s = (pipes s)(pi := ?q)" "kend ?s = kend s" "procs ?s = procs s" by (simp_all add: initlock_def with_mem_def upd_pipe_def)
  moreover have "pipe_inv ?q" "pipe_contents ?q = []" "pipe_open ?q"
    by (simp_all add: pipe_inv_def pipe_contents_def pipe_open_def)
  moreover have "\<forall>b. pgno b \<noteq> pgno pi \<longrightarrow> mem ?s b = mem s b" using fr' by (simp add: initlock_def with_mem_def upd_pipe_def)
  ultimately show ?thesis by blast
qed

text \<open>Closing the two ends, the one with \<open>w\<close> first.\<close>

lemma pipe_close_both:
  fixes s :: "'a kfile_scheme"
  assumes c: "in_call h pr s" and inv: "free_inv s ps" and pi: "good_page (kend s) pi" "pi \<notin> set ps" and op: "pipe_open (pipes s pi)"
    and f: "ftable s f = pipe_file w pi x" and g: "ftable s g = pipe_file (\<not> w) pi y" and fg: "f \<noteq> g"
  shows "\<exists>s'. Option.bind (fileclose h f s) (fileclose h g) = Some s' \<and> in_call h pr s' \<and> free_inv s' (pi # ps)
    \<and> ftable s' = (ftable s)(f := closed_file (ftable s f), g := closed_file (ftable s g)) \<and> (\<forall>q. p_ofile (procs s' q) = p_ofile (procs s q))"
proof -
  let ?cl = "\<lambda>f :: nat. upd_file f (\<lambda>x. x\<lparr>f_ref := 0, f_type := FD_NONE\<rparr>)"
  let ?sh = "\<lambda>w. if w then (\<lambda>q. q\<lparr>pi_writeopen := 0\<rparr>) else (\<lambda>q. q\<lparr>pi_readopen := 0\<rparr>)"
  let ?ch = "\<lambda>w. if w then chan_r pi else chan_w pi"
  let ?p = "wake_all (Some pr) (?ch w) (procs s)"
  let ?t = "(upd_pipe pi (?sh w) (?cl f s))\<lparr>procs := ?p\<rparr>"
  let ?u = "(upd_pipe pi (?sh (\<not> w)) (?cl g ?t))\<lparr>procs := wake_all (Some pr) (?ch (\<not> w)) ?p\<rparr>"
  have c1: "in_call h pr (?cl f s)" using c by simp
  have "fileclose h f s = pipeclose h pi w (?cl f s)" using fileclose_ok(2) [OF c, of f] f by (simp add: pipe_file_def)
  then have 1: "fileclose h f s = Some ?t" using pipeclose_ok [OF c1, of pi w] op by (cases w) (simp_all add: pipe_open_def)
  have c2: "in_call h pr ?t" using c by (intro in_call_procs) simp
  have tg: "ftable ?t g = pipe_file (\<not> w) pi y" using g fg by (simp add: upd_pipe_def)
  have c3: "in_call h pr (?cl g ?t)" using c2 by simp
  have "fileclose h g ?t = pipeclose h pi (\<not> w) (?cl g ?t)" using fileclose_ok(2) [OF c2, of g] tg by (simp add: pipe_file_def)
  also have "\<dots> = kfree h pi ?u" using pipeclose_ok [OF c3, of pi "\<not> w"] op by (cases w) (simp_all add: pipe_open_def)
  finally have 2: "fileclose h g ?t = kfree h pi ?u" .
  have c4: "in_call h pr ?u" using c3 by (intro in_call_procs) simp
  have i4: "free_inv ?u ps" and k4: "good_page (kend ?u) pi" using inv pi(1) by (simp_all add: free_inv_def upd_pipe_def)
  obtain m where k: "kfree h pi ?u = Some (with_mem m pi ?u)" "free_inv (with_mem m pi ?u) (pi # ps)"
    using kfree_call [OF c4 i4 k4 pi(2)] by blast
  have "ftable (with_mem m pi ?u) = (ftable s)(f := closed_file (ftable s f), g := closed_file (ftable s g))"
    using fg by (simp add: with_mem_def upd_pipe_def closed_file_def)
  moreover have "in_call h pr (with_mem m pi ?u)" using c4 by simp
  moreover have "\<forall>q. p_ofile (procs (with_mem m pi ?u) q) = p_ofile (procs s q)" by (simp add: with_mem_def wake_all_def)
  ultimately show ?thesis using 1 2 k by auto
qed

lemma free_files_cong: "(\<And>f. f_ref (ft f) = f_ref (ft' f)) \<Longrightarrow> free_files ft = free_files ft'"
  by (simp add: free_files_def)

text \<open>
  C31. The life of a pipe. \<open>pipealloc\<close> fails exactly when there are not two free entries in the file table or
  there is no free page, and then it leaves everything as it was: entries it took are given back. Otherwise it
  turns the first two free entries into the read end and the write end of one empty pipe in a page it took
  from the allocator. When both ends are closed, in either order, the page is free again and so are the two
  entries.
\<close>

theorem pipe_lifecycle:
  fixes s :: "'a kfile_scheme"
  assumes c: "in_call h pr s" and ok: "files_ok (ftable s)" and inv: "free_inv s pgs"
  shows "(length (free_files (ftable s)) < 2 \<or> pgs = [] \<longrightarrow> pipealloc h s = Some (None, s))
    \<and> (\<forall>a b fs pi ps. free_files (ftable s) = a # b # fs \<and> pgs = pi # ps \<longrightarrow>
        (\<exists>s' q. pipealloc h s = Some (Some (a, b), s') \<and> free_inv s' ps \<and> pipes s' = (pipes s)(pi := q)
           \<and> pipe_inv q \<and> pipe_contents q = [] \<and> pipe_open q
           \<and> ftable s' = (ftable s)(a := pipe_file False pi (ftable s a), b := pipe_file True pi (ftable s b))
           \<and> (\<forall>(f, g) \<in> {(a, b), (b, a)}. \<exists>s''. Option.bind (fileclose h f s') (fileclose h g) = Some s''
                \<and> free_inv s'' pgs \<and> free_files (ftable s'') = free_files (ftable s) \<and> files_ok (ftable s''))))"
proof (intro conjI impI allI, goal_cases)
  case 1
  then show ?case by (rule pipealloc_fail [OF c ok inv])
next
  case (2 a b fs pi ps)
  then have fr: "free_files (ftable s) = a # b # fs" and i: "free_inv s (pi # ps)" using inv by simp_all
  have ab: "a \<noteq> b" and z: "f_ref (ftable s a) = 0" "f_ref (ftable s b) = 0"
    using free_files_in(2) [of "ftable s"] free_files_in(1) [of _ "ftable s"] fr by auto
  obtain s' q where s': "pipealloc h s = Some (Some (a, b), s')" "in_call h pr s'" "free_inv s' ps" "kend s' = kend s"
    "pipes s' = (pipes s)(pi := q)" "pipe_inv q" "pipe_contents q = []" "pipe_open q"
    "ftable s' = (ftable s)(a := pipe_file False pi (ftable s a), b := pipe_file True pi (ftable s b))"
    using pipealloc_ok [OF c i fr] by blast
  have p: "good_page (kend s') pi" "pi \<notin> set ps" "pipe_open (pipes s' pi)" using i s' by (auto simp: free_inv_def)
  have e: "ftable s' a = pipe_file False pi (ftable s a)" "ftable s' b = pipe_file True pi (ftable s b)" using s'(9) ab by auto
  have fin: "free_files ft = free_files (ftable s) \<and> files_ok ft"
    if "ft = (ftable s')(f := closed_file (ftable s' f), g := closed_file (ftable s' g))" "(f, g) \<in> {(a, b), (b, a)}" for ft f g
    using that z ok ab unfolding s'(9) by (intro conjI free_files_cong) (auto simp: closed_file_def files_ok_def)
  have "\<exists>s''. Option.bind (fileclose h f s') (fileclose h g) = Some s'' \<and> free_inv s'' pgs \<and> free_files (ftable s'') = free_files (ftable s)
      \<and> files_ok (ftable s'')" if "(f, g) \<in> {(a, b), (b, a)}" for f g
  proof -
    have "\<exists>s''. Option.bind (fileclose h f s') (fileclose h g) = Some s'' \<and> in_call h pr s'' \<and> free_inv s'' (pi # ps)
        \<and> ftable s'' = (ftable s')(f := closed_file (ftable s' f), g := closed_file (ftable s' g))"
      using that pipe_close_both [OF s'(2,3) p, of a False "ftable s a" b "ftable s b"] pipe_close_both [OF s'(2,3) p, of b True "ftable s b" a "ftable s a"] e ab by auto
    then show ?thesis using fin [OF _ that] 2 by blast
  qed
  then show ?case using s' by blast
qed

text \<open>A file table in which the entry 0 is in use, and one free page.\<close>

definition kfile0 :: kfile where
  "kfile0 = kfs.extend (kfs0\<lparr>mem := (\<lambda>_. 0), freelist := 0x87fff000, kend := 0x87ffe000\<rparr>)
     \<lparr>ftable = (\<lambda>_. \<lparr>f_type = FD_NONE, f_ref = 0, f_readable = False, f_writable = False, f_pipe = 0, f_ip = 0, f_off = 0, f_major = 0\<rparr>)
        (0 := \<lparr>f_type = FD_INODE, f_ref = 2, f_readable = True, f_writable = False, f_pipe = 0, f_ip = 0, f_off = 0, f_major = 0\<rparr>)\<rparr>"

lemma kfile0_ok: "in_call 0 3 kfile0" "files_ok (ftable kfile0)" "free_inv kfile0 [0x87fff000]"
proof -
  have "in_call 0 3 (kfs.extend (kfs0\<lparr>mem := (\<lambda>_. 0), freelist := 0x87fff000, kend := 0x87ffe000\<rparr>) e)" for e
    using in_tx_call [OF kfs0_tx] by (auto simp: kfs.defs in_call_def calm_iff hart_ok_def at_rest_def free_lock_def)
  then show "in_call 0 3 kfile0" by (simp add: kfile0_def)
  show "files_ok (ftable kfile0)" by (simp add: kfile0_def kfs.defs files_ok_def)
  show "free_inv kfile0 [0x87fff000]"
    by (simp add: kfile0_def kfs.defs free_inv_def good_page_def PGSIZE_def PHYSTOP_def KERNBASE_def ld64_def)
qed

lemma kfile0_files: "free_files (ftable kfile0) = 1 # 2 # [3..<NFILE]"
  by (simp add: free_files_def kfile0_def kfs.defs NFILE_def upt_conv_Cons)

theorem pipe_lifecycle_witness:
  "\<exists>s' s''. pipealloc 0 kfile0 = Some (Some (1, 2), s') \<and> free_inv s' []
    \<and> Option.bind (fileclose 0 2 s') (fileclose 0 1) = Some s'' \<and> free_inv s'' [0x87fff000]"
  using conjunct2 [OF pipe_lifecycle [OF kfile0_ok], rule_format, OF conjI [OF kfile0_files refl]] by auto

end
