(* ===== verification/Dir.thy ===== *)
theory Dir
  imports Contents
begin

text \<open>
  \<open>labo2/kernel/fs.c\<close>, second part: directories and path names. A directory is a file of 16-byte entries. A C
  string is the list of its bytes, followed by a null byte that the list does not show; a buffer for a name
  is a list of \<open>DIRSIZ\<close> bytes.
\<close>

subsection \<open>Names\<close>

definition DIRSIZ :: nat where "DIRSIZ = 14"
definition ROOTINO :: uint where "ROOTINO = 1"
definition DIRENT :: uint where "DIRENT = 16"

text \<open>\<open>strncmp\<close> and \<open>strncpy\<close> of \<open>string.c\<close> on such strings, from position \<open>i\<close>, with \<open>n\<close> bytes to go.\<close>

primrec strncmp_at :: "nat \<Rightarrow> uchar list \<Rightarrow> uchar list \<Rightarrow> nat \<Rightarrow> int" where
  "strncmp_at 0 s t i = 0"
| "strncmp_at (Suc n) s t i =
     (if byte_of s i \<noteq> 0 \<and> byte_of s i = byte_of t i then strncmp_at n s t (i + 1)
      else byte_diff (byte_of s i) (byte_of t i))"

primrec strncpy_at :: "nat \<Rightarrow> uchar list \<Rightarrow> nat \<Rightarrow> uchar list" where
  "strncpy_at 0 t i = []"
| "strncpy_at (Suc n) t i = (if byte_of t i \<noteq> 0 then byte_of t i # strncpy_at n t (i + 1) else replicate (Suc n) 0)"

definition namecmp :: "uchar list \<Rightarrow> uchar list \<Rightarrow> int" where
  "namecmp s t = strncmp_at DIRSIZ s t 0"

subsection \<open>Directories\<close>

text \<open>\<open>struct dirent\<close>: the inode number and the name.\<close>

definition de_inum :: "uchar list \<Rightarrow> ushort" where
  "de_inum de = ucast (byte_of de 0) OR push_bit 8 (ucast (byte_of de 1))"

definition de_name :: "uchar list \<Rightarrow> uchar list" where
  "de_name de = drop 2 de"

definition dirent :: "ushort \<Rightarrow> uchar list \<Rightarrow> uchar list" where
  "dirent inum nm = [ucast inum, ucast (drop_bit 8 inum)] @ nm"

text \<open>A read that comes back with all its bytes has not wrapped around the 32-bit offset, so both loops end.\<close>

lemma readi_no_wrap: "readi h ip d off n s = Some (r, x) \<Longrightarrow> r \<noteq> 0 \<Longrightarrow> off \<le> off + n"
  by (auto simp: readi_def not_less split: if_splits)

lemma dir_measure: "off \<le> off + DIRENT \<Longrightarrow> 2 ^ 32 - unat (off + DIRENT) < 2 ^ 32 - unat off"
proof -
  assume "off \<le> off + DIRENT"
  moreover have "off \<noteq> off + DIRENT" by (simp add: DIRENT_def)
  ultimately have "off < off + DIRENT" by (rule order.not_eq_order_implies_strict [rotated])
  then have "unat off < unat (off + DIRENT)" by (simp only: word_less_nat_alt)
  moreover note unat_bound [of "off + DIRENT"]
  ultimately show ?thesis by simp
qed

function dirlookup_loop ::
  "nat \<Rightarrow> nat \<Rightarrow> uchar list \<Rightarrow> uint \<Rightarrow> 'a kfs_scheme \<Rightarrow> ((nat \<times> uint) option \<times> 'a kfs_scheme) option" where
  "dirlookup_loop h dp nm off s =
     (if off < i_size (inodes s dp) then
        (case readi h dp DLocal off DIRENT s of
           None \<Rightarrow> None
         | Some (r, de, s) \<Rightarrow>
             if r \<noteq> DIRENT then None
             else if de_inum de = 0 then dirlookup_loop h dp nm (off + DIRENT) s
             else if namecmp nm (de_name de) = 0 then do {
               (ip, s) \<leftarrow> iget h (i_dev (inodes s dp)) (ucast (de_inum de)) s;
               Some (Some (ip, off), s) }
             else dirlookup_loop h dp nm (off + DIRENT) s)
      else Some (None, s))"
  by auto
termination
  by (relation "measure (\<lambda>(h, dp, nm, off, s). 2 ^ 32 - unat off)")
    (auto dest!: readi_no_wrap simp: DIRENT_def dir_measure [unfolded DIRENT_def, simplified])

declare dirlookup_loop.simps [simp del]

text \<open>The inode and the offset of its entry (\<open>*poff\<close>), if there is one.\<close>

definition dirlookup :: "nat \<Rightarrow> nat \<Rightarrow> uchar list \<Rightarrow> 'a kfs_scheme \<Rightarrow> ((nat \<times> uint) option \<times> 'a kfs_scheme) option" where
  "dirlookup h dp nm s = (if i_type (inodes s dp) \<noteq> T_DIR then None else dirlookup_loop h dp nm 0 s)"

text \<open>The loop of \<open>dirlink\<close> that looks for an empty entry.\<close>

function dirlink_loop :: "nat \<Rightarrow> nat \<Rightarrow> uint \<Rightarrow> 'a kfs_scheme \<Rightarrow> (uint \<times> 'a kfs_scheme) option" where
  "dirlink_loop h dp off s =
     (if off < i_size (inodes s dp) then
        (case readi h dp DLocal off DIRENT s of
           None \<Rightarrow> None
         | Some (r, de, s) \<Rightarrow>
             if r \<noteq> DIRENT then None
             else if de_inum de = 0 then Some (off, s)
             else dirlink_loop h dp (off + DIRENT) s)
      else Some (off, s))"
  by auto
termination
  by (relation "measure (\<lambda>(h, dp, off, s). 2 ^ 32 - unat off)")
    (auto dest!: readi_no_wrap simp: DIRENT_def dir_measure [unfolded DIRENT_def, simplified])

declare dirlink_loop.simps [simp del]

definition dirlink :: "nat \<Rightarrow> nat \<Rightarrow> uchar list \<Rightarrow> uint \<Rightarrow> 'a kfs_scheme \<Rightarrow> (int \<times> 'a kfs_scheme) option" where
  "dirlink h dp nm inum s = do {
     (r, s) \<leftarrow> dirlookup h dp nm s;
     case r of
       Some (ip, _) \<Rightarrow> do { s \<leftarrow> iput h ip s; Some (-1, s) }
     | None \<Rightarrow> do {
         (off, s) \<leftarrow> dirlink_loop h dp 0 s;
         (r, s) \<leftarrow> writei h dp (SLocal (dirent (ucast inum) (strncpy_at DIRSIZ nm 0))) off DIRENT s;
         Some (if r \<noteq> DIRENT then -1 else 0, s) } }"

subsection \<open>Paths\<close>

definition slash :: uchar where "slash = 0x2F"

definition skipelem :: "uchar list \<Rightarrow> uchar list \<Rightarrow> (uchar list \<times> uchar list) option" where
  "skipelem path nm =
     (let path = dropWhile (\<lambda>c. c = slash) path in
      if path = [] then None
      else let s = path;
               path = dropWhile (\<lambda>c. c \<noteq> slash) path;
               len = length s - length path;
               nm = (if len \<ge> DIRSIZ then take DIRSIZ s else take len s @ [0] @ drop (len + 1) nm);
               path = dropWhile (\<lambda>c. c = slash) path
           in Some (path, nm))"

lemma skipelem_shorter: "skipelem path nm = Some (path', nm') \<Longrightarrow> length path' < length path"
proof -
  assume a: "skipelem path nm = Some (path', nm')"
  obtain c cs where c: "dropWhile (\<lambda>c. c = slash) path = c # cs" "c \<noteq> slash"
    using a hd_dropWhile [of "\<lambda>c. c = slash" path] by (cases "dropWhile (\<lambda>c. c = slash) path") (auto simp: skipelem_def)
  then have "path' = dropWhile (\<lambda>c. c = slash) (dropWhile (\<lambda>c. c \<noteq> slash) cs)" using a by (simp add: skipelem_def Let_def)
  then have "length path' \<le> length cs" using length_dropWhile_le by (metis le_trans)
  moreover have "length (c # cs) \<le> length path" using length_dropWhile_le [of "\<lambda>c. c = slash" path] c(1) by simp
  ultimately show ?thesis by simp
qed

function namex_loop ::
  "nat \<Rightarrow> bool \<Rightarrow> nat \<Rightarrow> uchar list \<Rightarrow> uchar list \<Rightarrow> 'a kfs_scheme \<Rightarrow> (nat option \<times> uchar list \<times> 'a kfs_scheme) option" where
  "namex_loop h parent ip path nm s =
     (case skipelem path nm of
        None \<Rightarrow>
          if parent then do { s \<leftarrow> iput h ip s; Some (None, nm, s) }
          else Some (Some ip, nm, s)
      | Some (path, nm) \<Rightarrow> do {
          s \<leftarrow> ilock h ip s;
          if i_type (inodes s ip) \<noteq> T_DIR then do { s \<leftarrow> iunlockput h ip s; Some (None, nm, s) }
          else if parent \<and> path = [] then do { s \<leftarrow> iunlock h ip s; Some (Some ip, nm, s) }
          else do {
            (r, s) \<leftarrow> dirlookup h ip nm s;
            s \<leftarrow> iunlockput h ip s;
            case r of
              None \<Rightarrow> Some (None, nm, s)
            | Some (nip, _) \<Rightarrow> namex_loop h parent nip path nm s } })"
  by auto
termination
  by (relation "measure (\<lambda>(h, parent, ip, path, nm, s). length path)") (auto dest: skipelem_shorter)

declare namex_loop.simps [simp del]

definition namex ::
  "nat \<Rightarrow> uchar list \<Rightarrow> bool \<Rightarrow> uchar list \<Rightarrow> 'a kfs_scheme \<Rightarrow> (nat option \<times> uchar list \<times> 'a kfs_scheme) option" where
  "namex h path parent nm s = do {
     (ip, s) \<leftarrow> (if byte_of path 0 = slash then iget h ROOTDEV ROOTINO s
       else do {
         (mp, s) \<leftarrow> myproc h s;
         p \<leftarrow> mp;
         cwd \<leftarrow> p_cwd (procs s p);
         idup h cwd s });
     namex_loop h parent ip path nm s }"

definition namei :: "nat \<Rightarrow> uchar list \<Rightarrow> 'a kfs_scheme \<Rightarrow> (nat option \<times> 'a kfs_scheme) option" where
  "namei h path s = do {
     (ip, nm, s) \<leftarrow> namex h path False (replicate DIRSIZ 0) s;
     Some (ip, s) }"

definition nameiparent :: "nat \<Rightarrow> uchar list \<Rightarrow> uchar list \<Rightarrow> 'a kfs_scheme \<Rightarrow> (nat option \<times> uchar list \<times> 'a kfs_scheme) option" where
  "nameiparent h path nm s = namex h path True nm s"


subsection \<open>Lemmas: names and entries\<close>

text \<open>The name in a buffer: the bytes before the first null byte, \<open>DIRSIZ\<close> at most.\<close>

definition cname :: "uchar list \<Rightarrow> uchar list" where
  "cname s = take DIRSIZ (takeWhile (\<lambda>c. c \<noteq> 0) s)"

lemma byte_diff_0 [simp]: "byte_diff a b = 0 \<longleftrightarrow> a = b"
  by (simp add: byte_diff_def word_uint_eq_iff)

lemma strncmp_at_0: "strncmp_at n s t i = 0 \<longleftrightarrow> take n (takeWhile (\<lambda>c. c \<noteq> 0) (drop i s)) = take n (takeWhile (\<lambda>c. c \<noteq> 0) (drop i t))"
proof (induction n arbitrary: i)
  case (Suc n)
  have d: "takeWhile (\<lambda>c. c \<noteq> 0) (drop i u) = (if byte_of u i = 0 then [] else byte_of u i # takeWhile (\<lambda>c. c \<noteq> 0) (drop (i + 1) u))" for u
    by (cases "i < length u") (auto simp: byte_of_def Cons_nth_drop_Suc [symmetric])
  show ?case unfolding d [of s] d [of t] using Suc.IH [of "i + 1"] by auto
qed simp

lemma namecmp_0: "namecmp s t = 0 \<longleftrightarrow> cname s = cname t"
  by (simp add: namecmp_def cname_def strncmp_at_0)

definition dentry :: "(uint \<Rightarrow> block) \<Rightarrow> inode \<Rightarrow> nat \<Rightarrow> uchar list" where
  "dentry V ino k = fbytes V ino (16 * k) 16"

definition names :: "(uint \<Rightarrow> block) \<Rightarrow> inode \<Rightarrow> uchar list \<Rightarrow> nat \<Rightarrow> bool" where
  "names V ino nm k \<longleftrightarrow> de_inum (dentry V ino k) \<noteq> 0 \<and> cname (de_name (dentry V ino k)) = cname nm"

text \<open>A directory of \<open>N\<close> entries whose blocks can be read.\<close>

definition dir_ok :: "uint \<Rightarrow> nat \<Rightarrow> (uint \<rightharpoonup> nat) \<Rightarrow> (uint \<Rightarrow> block) \<Rightarrow> inode \<Rightarrow> nat \<Rightarrow> bool" where
  "dir_ok st sz H V ino N \<longleftrightarrow> i_dev ino = ROOTDEV \<and> i_type ino = T_DIR \<and> unat (i_size ino) = 16 * N \<and> 16 * N + 16 \<le> 2 ^ 32
     \<and> (\<forall>i<16 * N. present st sz H V ino (i div BSIZE))"

lemma read_entry:
  fixes s :: "'a kfs_scheme"
  assumes i: "in_tx h pr st sz s0 B H V s" and ino: "inodes s0 dp = ino" and cap: "card (B \<union> dom H) + 1 \<le> tx_cap sz"
    and d: "dir_ok st sz H V ino N" and k: "k < N"
  shows "\<exists>s'. readi h dp DLocal (of_nat (16 * k)) DIRENT s = Some (DIRENT, dentry V ino k, s') \<and> in_tx h pr st sz s0 B H V s'"
proof -
  have dv: "i_dev ino = ROOTDEV" "unat (i_size ino) = 16 * N" "16 * N + 16 \<le> 2 ^ 32" and p: "\<And>i. i < 16 * N \<Longrightarrow> present st sz H V ino (i div BSIZE)"
    using d by (simp_all add: dir_ok_def)
  have u: "unat (of_nat (16 * k) :: uint) = 16 * k" by (rule unat_small) (use k dv(3) in simp)
  have l: "read_len ino (of_nat (16 * k)) DIRENT = 16" using k dv u by (simp add: read_len_def DIRENT_def)
  from readi_ok [OF i ino dv(1) cap, of "of_nat (16 * k)" DIRENT] p k show ?thesis unfolding u l by (auto simp: dentry_def DIRENT_def)
qed

lemma dirlookup_loop_ok:
  fixes s :: "'a kfs_scheme"
  assumes ino: "inodes s0 dp = ino" and cap: "card (B \<union> dom H) + 1 \<le> tx_cap sz" and d: "dir_ok st sz H V ino N"
  shows "in_tx h pr st sz s0 B H V s \<Longrightarrow> k \<le> N \<Longrightarrow> \<exists>s'. in_tx h pr st sz s0 B H V s'
    \<and> dirlookup_loop h dp nm (of_nat (16 * k)) s = (case List.find (names V ino nm) [k..<N] of None \<Rightarrow> Some (None, s')
      | Some j \<Rightarrow> do { (ip, s) \<leftarrow> iget h ROOTDEV (ucast (de_inum (dentry V ino j))) s'; Some (Some (ip, of_nat (16 * j)), s) })"
proof (induction "N - k" arbitrary: k s)
  case 0
  then have k: "k = N" by simp
  have "unat (i_size (inodes s dp)) = 16 * N" "16 * N < 2 ^ 32" using d in_tx_frame(2) [OF 0(2)] ino by (simp_all add: dir_ok_def)
  then have z: "i_size (inodes s dp) = of_nat (16 * N)" using unat_small [of "16 * N"] by (simp add: word_unat_eq_iff del: of_nat_mult)
  show ?case using k z 0(2) by (subst dirlookup_loop.simps) auto
next
  case (Suc m)
  have k: "k < N" and upt: "[k..<N] = k # [Suc k..<N]" using Suc.hyps(2) by (simp_all add: upt_conv_Cons)
  have dv: "unat (i_size ino) = 16 * N" "16 * N + 16 \<le> 2 ^ 32" "i_dev ino = ROOTDEV" using d by (simp_all add: dir_ok_def)
  have lt: "of_nat (16 * k) < i_size (inodes s dp)"
    using k dv(1,2) in_tx_frame(2) [OF Suc.prems(1)] ino unat_small [of "16 * k"] by (simp add: word_less_nat_alt del: of_nat_mult)
  obtain s1 where s1: "readi h dp DLocal (of_nat (16 * k)) DIRENT s = Some (DIRENT, dentry V ino k, s1)" "in_tx h pr st sz s0 B H V s1"
    using read_entry [OF Suc.prems(1) ino cap d k] by blast
  have nx: "of_nat (16 * k) + DIRENT = of_nat (16 * Suc k)" by (simp add: DIRENT_def)
  have dev: "i_dev (inodes s1 dp) = ROOTDEV" using in_tx_frame(2) [OF s1(2)] ino dv(3) by simp
  show ?case
  proof (cases "names V ino nm k")
    case True
    then show ?thesis using s1 lt dev upt by (subst dirlookup_loop.simps) (auto simp: names_def namecmp_0)
  next
    case False
    have "dirlookup_loop h dp nm (of_nat (16 * k)) s = dirlookup_loop h dp nm (of_nat (16 * Suc k)) s1"
      using s1(1) lt nx False by (subst dirlookup_loop.simps) (auto simp: names_def namecmp_0 simp del: of_nat_mult mult_Suc_right)
    moreover have "m = N - Suc k" "Suc k \<le> N" using Suc.hyps(2) by simp_all
    ultimately show ?thesis using Suc.hyps(1) [of "Suc k", OF _ s1(2)] False upt by (simp del: of_nat_mult mult_Suc_right)
  qed
qed


subsection \<open>Directories: correctness\<close>

text \<open>
  C24. Looking up a name in a directory, inside a transaction: \<open>dirlookup\<close> finds the first entry in use whose name
  agrees with the given one up to \<open>DIRSIZ\<close> bytes, skipping empty entries, and returns its offset with the
  inode's entry of the inode table: the one that holds the inode already, with one more reference, or else a free one
  that now stands for the inode (and a panic when there is none). Without such an entry it returns 0. In all
  cases the contents of the disk and the directory stay as they were and the table holds no inode twice.
\<close>

theorem dirlookup_correct:
  fixes s :: "'a kfs_scheme"
  assumes "in_tx h pr st sz s0 B H V s" and "dir_ok st sz H V (inodes s dp) N" and "card (B \<union> dom H) + 1 \<le> tx_cap sz" and "itable_ok (inodes s)"
  shows "\<exists>s'. in_tx h pr st sz s0 B H V s' \<and> inodes s' = inodes s
    \<and> (case List.find (names V (inodes s dp) nm) [0..<N] of
        None \<Rightarrow> dirlookup h dp nm s = Some (None, s')
      | Some j \<Rightarrow> (let inum = ucast (de_inum (dentry V (inodes s dp) j)) in
          case iget_slot (inodes s) ROOTDEV inum of
            None \<Rightarrow> dirlookup h dp nm s = None
          | Some ip \<Rightarrow> dirlookup h dp nm s = Some (Some (ip, of_nat (16 * j)), upd_inode ip (iget_entry ROOTDEV inum) s')
              \<and> ip < NINODE \<and> i_dev (iget_entry ROOTDEV inum (inodes s ip)) = ROOTDEV \<and> i_inum (iget_entry ROOTDEV inum (inodes s ip)) = inum
              \<and> itable_ok ((inodes s)(ip := iget_entry ROOTDEV inum (inodes s ip)))))"
proof -
  let ?d = "inodes s dp"
  have ino: "inodes s0 dp = ?d" using in_tx_frame(2) [OF assms(1)] by simp
  obtain s' where s': "in_tx h pr st sz s0 B H V s'" "dirlookup_loop h dp nm 0 s = (case List.find (names V ?d nm) [0..<N] of None \<Rightarrow> Some (None, s')
      | Some j \<Rightarrow> do { (ip, s) \<leftarrow> iget h ROOTDEV (ucast (de_inum (dentry V ?d j))) s'; Some (Some (ip, of_nat (16 * j)), s) })"
    using dirlookup_loop_ok [OF ino assms(3,2,1), of 0 nm] by auto
  have e: "inodes s' = inodes s" using in_tx_frame(2) [OF assms(1)] in_tx_frame(2) [OF s'(1)] by simp
  have l: "dirlookup h dp nm s = dirlookup_loop h dp nm 0 s" using assms(2) by (simp add: dirlookup_def dir_ok_def)
  show ?thesis
  proof (intro exI conjI)
    show "in_tx h pr st sz s0 B H V s'" "inodes s' = inodes s" by fact+
    show "case List.find (names V ?d nm) [0..<N] of
        None \<Rightarrow> dirlookup h dp nm s = Some (None, s')
      | Some j \<Rightarrow> (let inum = ucast (de_inum (dentry V ?d j)) in
          case iget_slot (inodes s) ROOTDEV inum of
            None \<Rightarrow> dirlookup h dp nm s = None
          | Some ip \<Rightarrow> dirlookup h dp nm s = Some (Some (ip, of_nat (16 * j)), upd_inode ip (iget_entry ROOTDEV inum) s')
              \<and> ip < NINODE \<and> i_dev (iget_entry ROOTDEV inum (inodes s ip)) = ROOTDEV \<and> i_inum (iget_entry ROOTDEV inum (inodes s ip)) = inum
              \<and> itable_ok ((inodes s)(ip := iget_entry ROOTDEV inum (inodes s ip))))"
      using s'(2) l iget_ok [OF in_tx_call [OF s'(1)]] e iget_slot_ok [OF assms(4)] by (auto simp: Let_def split: option.splits)
  qed
qed

text \<open>A directory of one entry, whose name is fourteen letters.\<close>

definition kfs1 :: kfs where
  "kfs1 = upd_inode 5 (\<lambda>i. i\<lparr>i_inum := 7, i_ref := 1, i_valid := True, i_type := T_DIR, i_nlink := 1, i_size := 16, i_addrs := (\<lambda>_. 0)(0 := 97)\<rparr>) kfs0"

lemma kfs1_dir: "dir_ok 256 30 Map.empty (\<lambda>n _. ucast n) (inodes kfs1 5) 1" "dentry (\<lambda>n _. ucast n) (inodes kfs1 5) 0 = replicate 16 97"
  "itable_ok (inodes kfs1)" "iget_slot (inodes kfs1) ROOTDEV 0x6161 = Some 0"
proof -
  have i: "inodes kfs1 5 = (inodes kfs0 5)\<lparr>i_inum := 7, i_ref := 1, i_valid := True, i_type := T_DIR, i_nlink := 1, i_size := 16, i_addrs := (\<lambda>_. 0)(0 := 97)\<rparr>"
    and o: "j \<noteq> 5 \<Longrightarrow> i_ref (inodes kfs1 j) = 0" for j by (simp_all add: kfs1_def kfs0_def klog.defs)
  show "dir_ok 256 30 Map.empty (\<lambda>n _. ucast n) (inodes kfs1 5) 1" unfolding i
    by (auto simp: dir_ok_def kfs0_def klog.defs present_def usable_def fblock_def NDIRECT_def MAXFILE_def BSIZE_def in_log_def)
  show "dentry (\<lambda>n _. ucast n) (inodes kfs1 5) 0 = replicate 16 97" unfolding i
    by (rule nth_equalityI) (simp_all add: dentry_def fbytes_def fbyte_def fblock_def BSIZE_def NDIRECT_def)
  have "j = 5" if "holds_inode d n (inodes kfs1 j)" for d n j using that o [of j] by (cases "j = 5") (auto simp: holds_inode_def)
  note five = this
  then show "itable_ok (inodes kfs1)" unfolding itable_ok_def by blast
  have "\<not> holds_inode ROOTDEV 0x6161 (inodes kfs1 5)" by (simp add: i holds_inode_def)
  then have "\<not> holds_inode ROOTDEV 0x6161 (inodes kfs1 j)" for j using five by blast
  then have f: "List.find (\<lambda>i. holds_inode ROOTDEV 0x6161 (inodes kfs1 i)) [0..<NINODE] = None"
    by (simp add: find_None_iff)
  have "[0..<NINODE] = 0 # [1..<NINODE]" by (simp add: NINODE_def upt_conv_Cons)
  then show "iget_slot (inodes kfs1) ROOTDEV 0x6161 = Some 0" unfolding iget_slot_def f using o [of 0] by simp
qed

theorem dirlookup_correct_witness:
  "(\<exists>s. dirlookup 0 5 (replicate 14 97) kfs1 = Some (Some (0, 0), s) \<and> i_inum (inodes s 0) = 0x6161 \<and> i_ref (inodes s 0) = 1)
   \<and> (\<exists>s. dirlookup 0 5 [98] kfs1 = Some (None, s))"
proof -
  have t: "in_tx 0 3 256 30 kfs1 {} Map.empty (\<lambda>n _. ucast n) kfs1" unfolding kfs1_def by (rule in_tx_upd_inode [OF kfs0_tx])
  have c: "card ({} \<union> dom (Map.empty :: uint \<rightharpoonup> nat)) + 1 \<le> tx_cap 30" by (simp add: tx_cap_def LOGSIZE_def MAXOPBLOCKS_def)
  have n: "names (\<lambda>n _. ucast n) (inodes kfs1 5) (replicate 14 97) 0" "\<not> names (\<lambda>n _. ucast n) (inodes kfs1 5) [98] 0"
    "(ucast (de_inum (replicate 16 97)) :: uint) = 0x6161"
    by (simp_all add: names_def kfs1_dir(2) de_inum_def byte_of_def de_name_def cname_def DIRSIZ_def push_bit_eq_mult list_eq_iff_nth_eq)
  have z: "i_ref (inodes kfs1 0) = 0" by (simp add: kfs1_def kfs0_def klog.defs)
  note th = dirlookup_correct [OF t kfs1_dir(1) c kfs1_dir(3)]
  show ?thesis
    using th [of "replicate 14 97"] th [of "[98]"] n kfs1_dir(2,4) z by (auto simp: iget_entry_def holds_inode_def Let_def)
qed


subsection \<open>Paths: correctness\<close>

text \<open>The reference: cut the path at every slash and drop the empty pieces.\<close>

primrec pieces :: "uchar list \<Rightarrow> uchar list list" where
  "pieces [] = [[]]"
| "pieces (c # cs) = (if c = slash then [] # pieces cs else (c # hd (pieces cs)) # tl (pieces cs))"

definition elems :: "uchar list \<Rightarrow> uchar list list" where
  "elems path = filter (\<lambda>e. e \<noteq> []) (pieces path)"

lemma pieces_ne [simp]: "pieces path \<noteq> []"
  by (cases path) auto

lemma pieces_split: "pieces path = takeWhile (\<lambda>c. c \<noteq> slash) path
    # (case dropWhile (\<lambda>c. c \<noteq> slash) path of [] \<Rightarrow> [] | c # cs \<Rightarrow> pieces cs)"
  by (induction path) auto

lemma elems_skip: "elems (dropWhile (\<lambda>c. c = slash) path) = elems path"
  by (induction path) (auto simp: elems_def)

lemma elems_slash [simp]: "elems (slash # path) = elems path" "elems [] = []"
  by (simp_all add: elems_def)

lemma elems_elem:
  assumes "c \<noteq> slash"
  shows "elems (c # cs) = takeWhile (\<lambda>c. c \<noteq> slash) (c # cs) # elems (dropWhile (\<lambda>c. c \<noteq> slash) (c # cs))"
proof (cases "dropWhile (\<lambda>c. c \<noteq> slash) (c # cs)")
  case Nil
  then have p: "pieces (c # cs) = [takeWhile (\<lambda>c. c \<noteq> slash) (c # cs)]" using pieces_split [of "c # cs"] by (simp only: list.case)
  show ?thesis unfolding elems_def p Nil using assms by simp
next
  case (Cons d ds)
  then have d: "d = slash" using hd_dropWhile [of "\<lambda>c. c \<noteq> slash" "c # cs"] by force
  have p: "pieces (c # cs) = takeWhile (\<lambda>c. c \<noteq> slash) (c # cs) # pieces ds" using pieces_split [of "c # cs"] Cons by (simp only: list.case)
  show ?thesis unfolding elems_def p Cons d using assms by simp
qed

lemma cname_elem:
  assumes "0 \<notin> set e"
  shows "cname (if length e \<ge> DIRSIZ then take DIRSIZ (e @ r) else e @ [0] @ t) = take DIRSIZ e"
proof -
  have a: "takeWhile (\<lambda>c. c \<noteq> 0) e = e" "takeWhile (\<lambda>c. c \<noteq> 0) (take DIRSIZ e) = take DIRSIZ e"
    using assms by (auto simp: takeWhile_eq_all_conv dest: in_set_takeD)
  moreover have "takeWhile (\<lambda>c. c \<noteq> 0) (e @ 0 # t) = e" using assms by (subst takeWhile_append2) auto
  ultimately show ?thesis unfolding cname_def by (simp del: takeWhile_eq_all_conv)
qed

text \<open>
  \<open>skipelem\<close> takes a path apart the way cutting it at the slashes does: it returns 0 exactly when no element is
  left; otherwise the name is the first element (cut to \<open>DIRSIZ\<close> bytes), the rest of the path has the remaining
  elements, and, as the comment of the function promises, it is empty exactly when the name was the last one.
\<close>

theorem skipelem_correct:
  assumes "0 \<notin> set path" and "length nm = DIRSIZ"
  shows "case elems path of
      [] \<Rightarrow> skipelem path nm = None
    | e # es \<Rightarrow> \<exists>rest nm'. skipelem path nm = Some (rest, nm') \<and> elems rest = es \<and> (rest = [] \<longleftrightarrow> es = [])
        \<and> cname nm' = take DIRSIZ e \<and> length nm' = DIRSIZ \<and> 0 \<notin> set rest"
proof (cases "dropWhile (\<lambda>c. c = slash) path")
  case Nil
  have "elems path = []" using elems_skip [of path] unfolding Nil by simp
  then show ?thesis using Nil by (simp add: skipelem_def)
next
  case (Cons c cs)
  let ?e = "takeWhile (\<lambda>c. c \<noteq> slash) (c # cs)" and ?r = "dropWhile (\<lambda>c. c \<noteq> slash) (c # cs)"
  let ?rest = "dropWhile (\<lambda>c. c = slash) ?r"
  let ?nm = "if length ?e \<ge> DIRSIZ then take DIRSIZ (?e @ ?r) else ?e @ [0] @ drop (length ?e + 1) nm"
  have c: "c \<noteq> slash" using hd_dropWhile [of "\<lambda>c. c = slash" path] Cons by force
  have er: "?e @ ?r = c # cs" by (rule takeWhile_dropWhile_id)
  have len: "length (c # cs) - length ?r = length ?e" using arg_cong [OF er, of length] by simp
  have sub: "set (c # cs) \<subseteq> set path" using set_dropWhileD [of _ "\<lambda>c. c = slash" path] Cons by auto
  have tk: "take (length ?e) (c # cs) = ?e" by (metis er append_eq_conv_conj)
  have sk: "skipelem path nm = Some (?rest, ?nm)"
    unfolding skipelem_def Let_def Cons len tk er by simp
  have ee: "elems path = ?e # elems ?rest" using elems_skip [of path] elems_elem [OF c, of cs] elems_skip [of ?r] Cons by simp
  have "set ?e \<subseteq> set (c # cs)" "set ?rest \<subseteq> set (c # cs)" by (meson set_takeWhileD subsetI, meson set_dropWhileD subsetI)
  then have z: "0 \<notin> set ?e" "0 \<notin> set ?rest" using assms(1) sub by blast+
  have "elems ?rest \<noteq> []" if ne: "?rest \<noteq> []"
  proof -
    obtain d ds where d: "?rest = d # ds" using ne unfolding neq_Nil_conv by blast
    have "d \<noteq> slash" using hd_dropWhile [OF ne] unfolding d by simp
    then show ?thesis unfolding d by (simp add: elems_elem)
  qed
  moreover have "elems ?rest = []" if "?rest = []" unfolding that by simp
  ultimately have "?rest = [] \<longleftrightarrow> elems ?rest = []" by blast
  moreover have "length ?nm = DIRSIZ" using assms(2) by auto
  moreover have "cname ?nm = take DIRSIZ ?e" by (rule cname_elem [OF z(1)])
  ultimately show ?thesis unfolding ee list.case using sk z(2) 
    by (intro exI [where x = ?rest] exI [where x = ?nm]) (simp only: simp_thms)
qed

theorem skipelem_correct_witness:
  "\<exists>nm'. skipelem [47, 97, 47, 47, 98, 98, 47, 99] (replicate 14 7) = Some ([98, 98, 47, 99], nm') \<and> cname nm' = [97]"
proof -
  have e: "elems [47, 97, 47, 47, 98, 98, 47, 99] = [97] # [[98, 98], [99]]" by (simp add: elems_def slash_def)
  have s: "skipelem [47, 97, 47, 47, 98, 98, 47, 99] (replicate 14 7) = Some (rest, nm') \<Longrightarrow> rest = [98, 98, 47, 99]" for rest nm'
    by (simp add: skipelem_def slash_def Let_def)
  show ?thesis using skipelem_correct [of "[47, 97, 47, 47, 98, 98, 47, 99]" "replicate 14 7"] s unfolding e by (auto simp: DIRSIZ_def)
qed

end
