(* ===== verification/Vmfree.thy ===== *)
theory Vmfree
  imports Vm
begin

text \<open>
  Giving memory back (\<open>labo2/kernel/vm.c\<close>: \<open>uvmunmap\<close>, \<open>freewalk\<close>, \<open>uvmfree\<close>): the definitions are in theory \<open>Vm\<close>,
  here is what they do. A page table is seen as a tree of pages of a given height.
\<close>

subsection \<open>Steps that change memory and the free list only\<close>

definition only_mem :: "'a kmem_scheme \<Rightarrow> 'a kmem_scheme \<Rightarrow> bool" where
  "only_mem s s' \<longleftrightarrow> (\<exists>m f. s' = with_mem m f s)"

lemma only_mem_sel:
  assumes "only_mem s s'"
  shows "kend s' = kend s" "procs s' = procs s" "cpus s' = cpus s" "sie s' = sie s" "lks s' = lks s" "touch h s = s \<Longrightarrow> touch h s' = s'"
proof -
  obtain m f where s': "s' = with_mem m f s" using assms by (auto simp: only_mem_def)
  then show "kend s' = kend s" "procs s' = procs s" "cpus s' = cpus s" "sie s' = sie s" "lks s' = lks s" by (simp_all add: with_mem_def)
  assume "touch h s = s"
  moreover have "touch h s' = with_mem m f (touch h s)" by (simp add: s' with_mem_def touch_def)
  ultimately show "touch h s' = s'" by (simp add: s')
qed

lemma only_mem_refl [simp]: "only_mem s s"
  unfolding only_mem_def by (intro exI [of _ "mem s"] exI [of _ "freelist s"]) (simp add: with_mem_def)

lemma only_mem_trans: "only_mem s t \<Longrightarrow> only_mem t u \<Longrightarrow> only_mem s u"
  unfolding only_mem_def with_mem_def by (elim exE, hypsubst, intro exI) simp

lemma only_mem_store: "only_mem s (s\<lparr>mem := m\<rparr>)"
  unfolding only_mem_def by (intro exI [of _ m] exI [of _ "freelist s"]) (simp add: with_mem_def)

lemma kfree_gives:
  assumes "kfree_list h s xs" and "good_page (kend s) p" and "p \<notin> set xs" and "touch h s = s"
  shows "\<exists>s'. kfree h p s = Some s' \<and> kfree_list h s' (p # xs) \<and> only_mem s s' \<and> (\<forall>b. pgno b \<noteq> pgno p \<longrightarrow> mem s' b = mem s b)"
proof -
  obtain s' where "kfree h p s = Some s'" "kfree_list h s' (p # xs)" "\<forall>b. pgno b \<noteq> pgno p \<longrightarrow> mem s' b = mem s b"
    using kpa.dealloc_ok [OF assms(1) _ assms(3)] assms(2) by (auto simp: kpage_def)
  moreover have "mem_ready h s" using assms(1) by (simp add: kfree_list_def)
  ultimately show ?thesis using kfree_spec [of h s p] assms(2,4) by (auto simp: only_mem_def)
qed

lemma kalloc_gives:
  fixes s :: "'a kmem_scheme"
  assumes "kfree_list h s xs" and "touch h s = s"
  shows "case xs of [] \<Rightarrow> kalloc h s = Some (0, s)
    | x # ys \<Rightarrow> good_page (kend s) x \<and> x \<notin> set ys \<and> (\<exists>s'. kalloc h s = Some (x, s') \<and> kfree_list h s' ys \<and> only_mem s s'
        \<and> (\<forall>b. pgno b \<noteq> pgno x \<longrightarrow> mem s' b = mem s b))"
proof (cases xs)
  case Nil
  then have "freelist s = 0" "mem_ready h s" using assms(1) by (auto simp: kfree_list_def free_inv_def)
  then show ?thesis using kalloc_spec [of h s] assms(2) Nil by simp
next
  case (Cons x ys)
  then have x: "x \<noteq> 0" "freelist s = x" "good_page (kend s) x" "x \<notin> set ys" "mem_ready h s" using assms(1) by (auto simp: kfree_list_def free_inv_def)
  obtain s' where s': "kalloc h s = Some (x, s')" "kfree_list h s' ys" "\<forall>b. pgno b \<noteq> pgno x \<longrightarrow> mem s' b = mem s b"
    using kpa.alloc_some [of h s x ys] assms(1) Cons by auto
  moreover have "only_mem s s'" using s'(1) kalloc_spec [OF x(5)] x(1,2) assms(2) by (auto simp: only_mem_def)
  ultimately show ?thesis using Cons x by auto
qed

subsection \<open>Trees of tables\<close>

text \<open>The pages of the tables below \<open>p\<close>, and that they form a tree of the given height without mapped pages.\<close>

primrec tset :: "nat \<Rightarrow> mem \<Rightarrow> addr \<Rightarrow> addr set" where
  "tset 0 m p = {p}"
| "tset (Suc l) m p = insert p (\<Union>i\<in>{i. unat i < 512}. case sub m p i of None \<Rightarrow> {} | Some q \<Rightarrow> tset l m q)"

primrec ptree :: "addr \<Rightarrow> nat \<Rightarrow> mem \<Rightarrow> addr \<Rightarrow> bool" where
  "ptree e 0 m p = (good_page e p \<and> (\<forall>i. unat i < 512 \<longrightarrow> entry m p i = None))"
| "ptree e (Suc l) m p = (good_page e p
     \<and> (\<forall>i v. unat i < 512 \<longrightarrow> entry m p i = Some v \<longrightarrow>
          v AND (PTE_R OR PTE_W OR PTE_X) = 0 \<and> ptree e l m (PTE2PA v) \<and> p \<notin> tset l m (PTE2PA v))
     \<and> (\<forall>i j q r. unat i < 512 \<longrightarrow> unat j < 512 \<longrightarrow> i \<noteq> j \<longrightarrow> sub m p i = Some q \<longrightarrow> sub m p j = Some r \<longrightarrow> tset l m q \<inter> tset l m r = {}))"

lemma tset_root [simp]: "p \<in> tset l m p"
  by (cases l) simp_all

lemma ptree_root: "ptree e l m p \<Longrightarrow> good_page e p"
  by (cases l) simp_all

lemma good_page_aligned: "good_page e p \<Longrightarrow> unat p mod 4096 = 0"
  by (simp add: good_page_def aligned_unat)

lemma ptree_SucD:
  assumes "ptree e (Suc l) m p" and "unat i < 512" and "sub m p i = Some q"
  shows "ptree e l m q" and "p \<notin> tset l m q" and "tset l m q \<subseteq> tset (Suc l) m p"
    and "\<exists>v. entry m p i = Some v \<and> q = PTE2PA v \<and> v AND (PTE_R OR PTE_W OR PTE_X) = 0"
    and "\<And>j r. unat j < 512 \<Longrightarrow> i \<noteq> j \<Longrightarrow> sub m p j = Some r \<Longrightarrow> tset l m q \<inter> tset l m r = {}"
proof -
  obtain v where v: "entry m p i = Some v" "q = PTE2PA v" using assms(3) by (auto simp: sub_entry)
  have a: "\<And>i v. unat i < 512 \<Longrightarrow> entry m p i = Some v \<Longrightarrow> v AND (PTE_R OR PTE_W OR PTE_X) = 0 \<and> ptree e l m (PTE2PA v) \<and> p \<notin> tset l m (PTE2PA v)"
    and b: "\<And>i j q r. unat i < 512 \<Longrightarrow> unat j < 512 \<Longrightarrow> i \<noteq> j \<Longrightarrow> sub m p i = Some q \<Longrightarrow> sub m p j = Some r \<Longrightarrow> tset l m q \<inter> tset l m r = {}"
    using assms(1) unfolding ptree.simps by blast+
  show "ptree e l m q" "p \<notin> tset l m q" using a [OF assms(2) v(1)] v(2) by simp_all
  show "\<exists>v. entry m p i = Some v \<and> q = PTE2PA v \<and> v AND (PTE_R OR PTE_W OR PTE_X) = 0" using a [OF assms(2) v(1)] v by blast
  show "tset l m q \<subseteq> tset (Suc l) m p" using assms(2,3) by force
  show "\<And>j r. unat j < 512 \<Longrightarrow> i \<noteq> j \<Longrightarrow> sub m p j = Some r \<Longrightarrow> tset l m q \<inter> tset l m r = {}" using b assms(2,3) by blast
qed

lemma ptree_good: "ptree e l m p \<Longrightarrow> x \<in> tset l m p \<Longrightarrow> good_page e x"
proof (induction l arbitrary: p)
  case (Suc l)
  show ?case
  proof (cases "x = p")
    case False
    then obtain i q where q: "unat i < 512" "sub m p i = Some q" "x \<in> tset l m q" using Suc.prems(2) by (auto split: option.splits)
    then show ?thesis using Suc.IH [OF ptree_SucD(1) [OF Suc.prems(1) q(1,2)]] by blast
  qed (use Suc.prems in simp)
qed simp

lemma ptree_frame:
  assumes "ptree e l m p" and "\<And>b. pgno b \<in> pgno ` tset l m p \<Longrightarrow> m' b = m b"
  shows "tset l m' p = tset l m p \<and> ptree e l m' p"
  using assms
proof (induction l arbitrary: p)
  case 0
  have "entry m' p i = entry m p i" if "unat i < 512" for i
    by (rule entry_page [OF good_page_aligned [OF ptree_root [OF "0.prems"(1)]] that]) (use "0.prems"(2) in simp)
  then show ?case using "0.prems"(1) by simp
next
  case (Suc l)
  have en: "entry m' p i = entry m p i" if "unat i < 512" for i
    by (rule entry_page [OF good_page_aligned [OF ptree_root [OF Suc.prems(1)]] that]) (use Suc.prems(2) in simp)
  then have sb: "sub m' p i = sub m p i" if "unat i < 512" for i using that by (simp add: sub_entry)
  have ih: "tset l m' q = tset l m q \<and> ptree e l m' q" if "unat i < 512" "sub m p i = Some q" for i q
  proof (rule Suc.IH)
    note d = ptree_SucD [OF Suc.prems(1) that]
    show "ptree e l m q" by (rule d(1))
    show "m' b = m b" if "pgno b \<in> pgno ` tset l m q" for b
      by (rule Suc.prems(2)) (use that d(3) in blast)
  qed
  have "(case sub m' p i of None \<Rightarrow> {} | Some q \<Rightarrow> tset l m' q) = (case sub m p i of None \<Rightarrow> {} | Some q \<Rightarrow> tset l m q)"
    if "unat i < 512" for i using sb [OF that] ih [OF that] by (cases "sub m p i") simp_all
  then have t: "tset (Suc l) m' p = tset (Suc l) m p" by simp
  have v: "tset l m' (PTE2PA v) = tset l m (PTE2PA v) \<and> ptree e l m' (PTE2PA v)" if "unat i < 512" "entry m p i = Some v" for i v
    using ih [OF that(1), of "PTE2PA v"] that(2) by (simp add: sub_entry)
  have "tset l m' q \<inter> tset l m' r = {}" if "unat i < 512" "unat j < 512" "i \<noteq> j" "sub m' p i = Some q" "sub m' p j = Some r" for i j q r
  proof -
    have q: "sub m p i = Some q" "sub m p j = Some r" using that sb by simp_all
    show ?thesis using ptree_SucD(5) [OF Suc.prems(1) that(1) q(1) that(2,3) q(2)] ih [OF that(1) q(1)] ih [OF that(2) q(2)] by simp
  qed
  then have "ptree e (Suc l) m' p" using Suc.prems(1) en v by simp
  with t show ?case by blast
qed

subsection \<open>Freeing the tables\<close>

lemma entry_None_iff: "entry m p i = None \<longleftrightarrow> ld64 (pte_at p i) m AND PTE_V = 0"
  and entry_Some_iff: "entry m p i = Some v \<longleftrightarrow> ld64 (pte_at p i) m = v \<and> v AND PTE_V \<noteq> 0"
  by (auto simp: entry_def Let_def)

lemma freewalk_skip:
  "i < 512 \<Longrightarrow> entry (mem s) p (of_nat i) = None \<Longrightarrow> freewalk_from h i p s = freewalk_from h (Suc i) p s"
  by (subst freewalk_from.simps) (simp add: entry_None_iff Let_def)

lemma freewalk_down:
  "i < 512 \<Longrightarrow> entry (mem s) p (of_nat i) = Some v \<Longrightarrow> v AND (PTE_R OR PTE_W OR PTE_X) = 0 \<Longrightarrow>
    freewalk_from h i p s = Option.bind (freewalk_from h 0 (PTE2PA v) s)
      (\<lambda>s. freewalk_from h (Suc i) p (s\<lparr>mem := st64 (pte_at p (of_nat i)) 0 (mem s)\<rparr>))"
  by (subst freewalk_from.simps) (simp add: entry_Some_iff Let_def)

lemma freewalk_end: "freewalk_from h 512 p s = kfree h p s"
  by (subst freewalk_from.simps) simp

lemma unat_idx: "i < 512 \<Longrightarrow> unat (of_nat i :: uint64) = i"
  by (simp add: unat_of_nat64)

text \<open>The tables below the entries \<open>i\<close> to 511 of \<open>p\<close>.\<close>

definition below :: "nat \<Rightarrow> mem \<Rightarrow> addr \<Rightarrow> nat \<Rightarrow> addr set" where
  "below l m p i = (case sub m p (of_nat i) of None \<Rightarrow> {} | Some q \<Rightarrow> tset l m q)"

lemma tset_below: "tset (Suc l) m p = insert p (\<Union>i<512. below l m p i)"
proof -
  have "(\<Union>i\<in>{i. unat i < 512}. case sub m p i of None \<Rightarrow> {} | Some q \<Rightarrow> tset l m q) = (\<Union>i<512. below l m p i)"
  proof (intro equalityI subsetI)
    fix x assume "x \<in> (\<Union>i\<in>{i. unat i < 512}. case sub m p i of None \<Rightarrow> {} | Some q \<Rightarrow> tset l m q)"
    then obtain i where "unat i < 512" "x \<in> (case sub m p i of None \<Rightarrow> {} | Some q \<Rightarrow> tset l m q)" by blast
    then show "x \<in> (\<Union>i<512. below l m p i)" by (intro UN_I [of "unat i"]) (simp_all add: below_def)
  next
    fix x assume "x \<in> (\<Union>i<512. below l m p i)"
    then obtain i where "i < 512" "x \<in> below l m p i" by blast
    then show "x \<in> (\<Union>i\<in>{i. unat i < 512}. case sub m p i of None \<Rightarrow> {} | Some q \<Rightarrow> tset l m q)"
      by (intro UN_I [of "of_nat i"]) (simp_all add: below_def unat_idx)
  qed
  then show ?thesis by simp
qed

declare tset.simps(2) [simp del]

lemma below_apart:
  assumes "ptree e (Suc l) m p" and "i < 512" and "j < 512" and "i \<noteq> j"
  shows "below l m p i \<inter> below l m p j = {}"
proof -
  have "of_nat i \<noteq> (of_nat j :: uint64)" using assms(2-4) unat_idx by metis
  then show ?thesis using ptree_SucD(5) [OF assms(1), of "of_nat i" _ "of_nat j"] assms(2,3) unat_idx
    by (auto simp: below_def split: option.splits)
qed

lemma below_root:
  assumes "ptree e (Suc l) m p"
  shows "p \<notin> (\<Union>k<512. below l m p k)"
proof
  assume "p \<in> (\<Union>k<512. below l m p k)"
  then obtain k q where "k < 512" "sub m p (of_nat k) = Some q" "p \<in> tset l m q" by (auto simp: below_def split: option.splits)
  then show False using ptree_SucD(2) [OF assms, of "of_nat k" q] by (simp add: unat_idx)
qed

lemma pages_apart: "good_page e x \<Longrightarrow> x \<notin> T \<Longrightarrow> (\<And>y. y \<in> T \<Longrightarrow> good_page e y) \<Longrightarrow> pgno x \<notin> pgno ` T"
  using good_pages_apart by blast

definition freed :: "nat \<Rightarrow> addr set \<Rightarrow> addr list \<Rightarrow> 'a kmem_scheme \<Rightarrow> 'a kmem_scheme \<Rightarrow> bool" where
  "freed h T xs s s' \<longleftrightarrow> (\<exists>zs. kfree_list h s' zs \<and> set zs = set xs \<union> T) \<and> only_mem s s'
     \<and> (\<forall>b. pgno b \<notin> pgno ` T \<longrightarrow> mem s' b = mem s b)"

lemma freewalk_loop:
  fixes s t :: "'a kmem_scheme"
  assumes pt: "ptree (kend s) (Suc l) (mem s) p" and i: "i \<le> 512"
    and t: "kfree_list h t zs" "set zs = set xs \<union> (\<Union>k<i. below l (mem s) p k)" "only_mem s t" "touch h s = s"
    and xs: "tset (Suc l) (mem s) p \<inter> set xs = {}"
    and en: "\<And>k. i \<le> k \<Longrightarrow> k < 512 \<Longrightarrow> entry (mem t) p (of_nat k) = entry (mem s) p (of_nat k)"
    and fr: "\<And>b. pgno b \<noteq> pgno p \<Longrightarrow> pgno b \<notin> pgno ` (\<Union>k<i. below l (mem s) p k) \<Longrightarrow> mem t b = mem s b"
    and IH: "\<And>q (t :: 'a kmem_scheme) ys. ptree (kend t) l (mem t) q \<Longrightarrow> kfree_list h t ys \<Longrightarrow> tset l (mem t) q \<inter> set ys = {} \<Longrightarrow> touch h t = t
      \<Longrightarrow> \<exists>t'. freewalk_from h 0 q t = Some t' \<and> freed h (tset l (mem t) q) ys t t'"
  shows "\<exists>s'. freewalk_from h i p t = Some s' \<and> freed h (tset (Suc l) (mem s) p) xs s s'"
  using i t(1-3) en fr
proof (induction "512 - i" arbitrary: i t zs)
  case 0
  have i: "i = 512" using 0 by simp
  let ?B = "\<Union>k<512. below l (mem s) p k"
  have "p \<notin> set zs" using below_root [OF pt] "0.prems"(3) i xs by (auto simp: tset_below)
  then obtain s' where s': "kfree h p t = Some s'" "kfree_list h s' (p # zs)" "only_mem t s'" "\<forall>b. pgno b \<noteq> pgno p \<longrightarrow> mem s' b = mem t b"
    using kfree_gives [OF "0.prems"(2), of p] only_mem_sel(1,6) [OF "0.prems"(4)] ptree_root [OF pt] t(4) by auto
  have "mem s' b = mem s b" if "pgno b \<notin> pgno ` tset (Suc l) (mem s) p" for b
    using that s'(4) "0.prems"(6) [of b] i by (simp add: tset_below)
  moreover have "set (p # zs) = set xs \<union> tset (Suc l) (mem s) p" using "0.prems"(3) i by (simp add: tset_below)
  ultimately have "freed h (tset (Suc l) (mem s) p) xs s s'"
    unfolding freed_def using s'(2) only_mem_trans [OF "0.prems"(4) s'(3)] by blast
  then show ?case using s'(1) i by (simp add: freewalk_end)
next
  case (Suc n)
  have i: "i < 512" and n: "n = 512 - Suc i" using Suc.hyps(2) by simp_all
  have en: "entry (mem t) p (of_nat i) = entry (mem s) p (of_nat i)" using Suc.prems(5) i by simp
  have al: "unat p mod 4096 = 0" by (rule good_page_aligned [OF ptree_root [OF pt]])
  have un: "(\<Union>k<Suc i. below l (mem s) p k) = (\<Union>k<i. below l (mem s) p k) \<union> below l (mem s) p i" by (auto simp: less_Suc_eq)
  show ?case
  proof (cases "entry (mem s) p (of_nat i)")
    case None
    then have b: "below l (mem s) p i = {}" by (simp add: below_def sub_entry)
    have "\<exists>s'. freewalk_from h (Suc i) p t = Some s' \<and> freed h (tset (Suc l) (mem s) p) xs s s'"
      by (rule Suc.hyps(1) [OF n _ Suc.prems(2) _ Suc.prems(4)]) (use i b un Suc.prems(3,5,6) in auto)
    then show ?thesis using freewalk_skip [OF i] en None by metis
  next
    case (Some v)
    let ?q = "PTE2PA v"
    have sb: "sub (mem s) p (of_nat i) = Some ?q" using Some by (simp add: sub_entry)
    note d = ptree_SucD [OF pt _ sb, unfolded unat_idx [OF i], OF i]
    have bl: "below l (mem s) p i = tset l (mem s) ?q" using sb by (simp add: below_def)
    have other: "tset l (mem s) ?q \<inter> (\<Union>k<i. below l (mem s) p k) = {}"
    proof -
      have "below l (mem s) p i \<inter> below l (mem s) p k = {}" if "k < i" for k
        by (rule below_apart [OF pt i]) (use that i in auto)
      then show ?thesis unfolding bl [symmetric] by blast
    qed
    have good: "good_page (kend s) y" if "y \<in> tset (Suc l) (mem s) p" for y by (rule ptree_good [OF pt that])
    have sub2: "(\<Union>k<i. below l (mem s) p k) \<subseteq> tset (Suc l) (mem s) p" using i by (auto simp: tset_below)
    have fr': "mem t b = mem s b" if b: "pgno b \<in> pgno ` tset l (mem s) ?q" for b
    proof (rule Suc.prems(6))
      obtain y where y: "y \<in> tset l (mem s) ?q" "pgno b = pgno y" using b by blast
      have gy: "good_page (kend s) y" using good y d(3) by blast
      show "pgno b \<noteq> pgno p" using good_pages_apart [OF gy ptree_root [OF pt]] y d(2) by auto
      show "pgno b \<notin> pgno ` (\<Union>k<i. below l (mem s) p k)" unfolding y(2)
        by (rule pages_apart [OF gy]) (use y other good sub2 in auto)
    qed
    have q: "tset l (mem t) ?q = tset l (mem s) ?q" "ptree (kend s) l (mem t) ?q"
      using ptree_frame [OF d(1) fr'] by blast+
    have zs0: "tset l (mem t) ?q \<inter> set zs = {}" using q(1) Suc.prems(3) other xs d(3) by auto
    obtain t' where t': "freewalk_from h 0 ?q t = Some t'" "freed h (tset l (mem t) ?q) zs t t'"
      using IH [OF _ Suc.prems(2) zs0] q(2) only_mem_sel(1,6) [OF Suc.prems(4)] t(4) by auto
    obtain ws where ws: "kfree_list h t' ws" "set ws = set zs \<union> tset l (mem s) ?q" "only_mem t t'"
      "\<And>b. pgno b \<notin> pgno ` tset l (mem s) ?q \<Longrightarrow> mem t' b = mem t b"
      using t'(2) q(1) by (auto simp: freed_def)
    let ?m = "st64 (pte_at p (of_nat i)) 0 (mem t')" and ?u = "t'\<lparr>mem := st64 (pte_at p (of_nat i)) 0 (mem t')\<rparr>"
    have st: "?m b = mem t' b" if "pgno b \<noteq> pgno p" for b
      by (rule st64_pte [OF al _ that]) (simp add: unat_idx i)
    have pq: "pgno p \<notin> pgno ` tset l (mem s) ?q"
      by (rule pages_apart [OF ptree_root [OF pt] d(2)]) (use good d(3) in blast)
    have pw: "pgno p \<notin> pgno ` set ws"
    proof (rule pages_apart [OF ptree_root [OF pt]])
      have "p \<notin> set xs" using xs tset_root [of p "Suc l" "mem s"] by blast
      moreover have "p \<notin> (\<Union>k<i. below l (mem s) p k)" using below_root [OF pt] i by (metis UN_iff lessThan_iff less_trans)
      ultimately show "p \<notin> set ws" unfolding ws(2) Suc.prems(3) using d(2) by blast
      show "good_page (kend s) y" if "y \<in> set ws" for y
        using kpa.free_page [OF ws(1) that] only_mem_sel(1) [OF ws(3)] only_mem_sel(1) [OF Suc.prems(4)] by (simp add: kpage_def)
    qed
    have u: "kfree_list h ?u ws" by (rule kfree_list_mem [OF ws(1)], rule st) (use pw in metis)
    have "\<exists>s'. freewalk_from h (Suc i) p ?u = Some s' \<and> freed h (tset (Suc l) (mem s) p) xs s s'"
    proof (rule Suc.hyps(1) [OF n _ u])
      show "set ws = set xs \<union> (\<Union>k<Suc i. below l (mem s) p k)" using ws(2) Suc.prems(3) un bl by auto
      show "only_mem s ?u" using only_mem_trans [OF Suc.prems(4) only_mem_trans [OF ws(3) only_mem_store]] .
      show "entry (mem ?u) p (of_nat k) = entry (mem s) p (of_nat k)" if "Suc i \<le> k" "k < 512" for k
      proof -
        have "(of_nat k :: uint64) \<noteq> of_nat i" using that i unat_idx by (metis Suc_n_not_le_n)
        then have "entry ?m p (of_nat k) = entry (mem t') p (of_nat k)"
          using entry_store [OF al, of "of_nat i" "of_nat k" 0 "mem t'"] that i by (simp add: unat_idx)
        also have "\<dots> = entry (mem t) p (of_nat k)" by (rule entry_page [OF al]) (use that ws(4) pq in \<open>simp_all add: unat_idx\<close>)
        finally show ?thesis using Suc.prems(5) that by simp
      qed
      show "mem ?u b = mem s b" if "pgno b \<noteq> pgno p" "pgno b \<notin> pgno ` (\<Union>k<Suc i. below l (mem s) p k)" for b
        using st [OF that(1)] ws(4) Suc.prems(6) [OF that(1)] that(2) unfolding un bl image_Un by auto
    qed (use i in simp)
    then show ?thesis using freewalk_down [OF i, of t p v h] en Some d(4) t'(1) by auto
  qed
qed

lemma freewalk_empty:
  assumes "\<And>i. unat i < 512 \<Longrightarrow> entry (mem s) p i = None" and "i \<le> 512"
  shows "freewalk_from h i p s = kfree h p s"
  using assms(2)
proof (induction "512 - i" arbitrary: i)
  case (Suc n)
  then have "i < 512" "n = 512 - Suc i" by simp_all
  then show ?case using Suc.hyps(1) [of "Suc i"] freewalk_skip [of i s p h] assms(1) [of "of_nat i"] by (simp add: unat_idx)
qed (simp add: freewalk_end)

text \<open>\<open>freewalk\<close> ends and gives back exactly the pages of the tree.\<close>

lemma freewalk_ok:
  fixes s :: "'a kmem_scheme"
  assumes "ptree (kend s) l (mem s) p" and "kfree_list h s xs" and "tset l (mem s) p \<inter> set xs = {}" and "touch h s = s"
  shows "\<exists>s'. freewalk_from h 0 p s = Some s' \<and> freed h (tset l (mem s) p) xs s s'"
  using assms
proof (induction l arbitrary: p s xs)
  case 0
  then have p: "good_page (kend s) p" "p \<notin> set xs" "\<And>i. unat i < 512 \<Longrightarrow> entry (mem s) p i = None" by auto
  obtain s' where s': "kfree h p s = Some s'" "kfree_list h s' (p # xs)" "only_mem s s'" "\<forall>b. pgno b \<noteq> pgno p \<longrightarrow> mem s' b = mem s b"
    using kfree_gives [OF "0.prems"(2) p(1,2) "0.prems"(4)] by blast
  moreover have "set (p # xs) = set xs \<union> tset 0 (mem s) p" by auto
  ultimately have "freed h (tset 0 (mem s) p) xs s s'" unfolding freed_def by (metis imageI tset_root)
  then show ?case using s'(1) freewalk_empty [OF p(3), of 0] by simp
next
  case (Suc l)
  show ?case by (rule freewalk_loop [OF Suc.prems(1) _ Suc.prems(2) _ _ Suc.prems(4,3)]) (use Suc.IH in auto)
qed

subsection \<open>A page table as a tree\<close>

text \<open>The page number of an address as far as a page table can see it.\<close>

definition vpn :: "addr \<Rightarrow> nat" where
  "vpn va = pgno va mod 134217728"

lemma mod_div_digit: "0 < b \<Longrightarrow> a mod (b * c) div b = a div b mod (c :: nat)"
  by (simp add: mod_mult2_eq)

lemma digits:
  fixes n i j k :: nat
  shows "n = n div 262144 * 262144 + n div 512 mod 512 * 512 + n mod 512"
    and "j < 512 \<Longrightarrow> k < 512 \<Longrightarrow> (i * 262144 + j * 512 + k) div 262144 = i"
    and "j < 512 \<Longrightarrow> k < 512 \<Longrightarrow> (i * 262144 + j * 512 + k) div 512 mod 512 = j"
    and "k < 512 \<Longrightarrow> (i * 262144 + j * 512 + k) mod 512 = k"
proof -
  have "n div 512 = n div 512 div 512 * 512 + n div 512 mod 512" by (rule div_mult_mod_eq [symmetric])
  then have "n = (n div 512 div 512 * 512 + n div 512 mod 512) * 512 + n mod 512" using div_mult_mod_eq [of n 512] by simp
  moreover have "n div 512 div 512 = n div 262144" by (simp flip: div_mult2_eq)
  ultimately show "n = n div 262144 * 262144 + n div 512 mod 512 * 512 + n mod 512" by simp
  assume k: "k < 512"
  have e: "i * 262144 + j * 512 + k = (i * 512 + j) * 512 + k" by simp
  have d: "(i * 262144 + j * 512 + k) div 512 = i * 512 + j" unfolding e using k by simp
  show "(i * 262144 + j * 512 + k) mod 512 = k" unfolding e using k by (simp only: mod_mult_self3 mod_less)
  assume j: "j < 512"
  show "(i * 262144 + j * 512 + k) div 512 mod 512 = j" unfolding d using j by simp
  have "(i * 262144 + j * 512 + k) div 262144 = (i * 262144 + j * 512 + k) div 512 div 512" by (simp flip: div_mult2_eq)
  then show "(i * 262144 + j * 512 + k) div 262144 = i" unfolding d using j by simp
qed

lemma PX_vpn: "unat (PX 2 va) = vpn va div 262144" "unat (PX 1 va) = vpn va div 512 mod 512" "unat (PX 0 va) = vpn va mod 512"
proof -
  have "pgno va div 262144 mod 512 = vpn va div 262144" using mod_div_digit [of 262144 "pgno va" 512] by (simp add: vpn_def)
  moreover have "vpn va div 512 = pgno va div 512 mod 262144" using mod_div_digit [of 512 "pgno va" 262144] by (simp add: vpn_def)
  then have "pgno va div 512 mod 512 = vpn va div 512 mod 512" by (simp add: mod_mod_cancel)
  moreover have "pgno va mod 512 = vpn va mod 512" by (simp add: vpn_def mod_mod_cancel)
  ultimately show "unat (PX 2 va) = vpn va div 262144" "unat (PX 1 va) = vpn va div 512 mod 512" "unat (PX 0 va) = vpn va mod 512"
    by (simp_all add: unat_PX pgno_def flip: div_mult2_eq)
qed

lemma same_vpn: "upper va' = upper va \<and> PX 0 va' = PX 0 va \<longleftrightarrow> vpn va' = vpn va"
proof
  assume "upper va' = upper va \<and> PX 0 va' = PX 0 va"
  then have "vpn va' div 262144 = vpn va div 262144" "vpn va' div 512 mod 512 = vpn va div 512 mod 512" "vpn va' mod 512 = vpn va mod 512"
    using PX_vpn [of va] PX_vpn [of va'] by (simp_all add: upper_def)
  then show "vpn va' = vpn va" using digits(1) [of "vpn va"] digits(1) [of "vpn va'"] by presburger
next
  assume "vpn va' = vpn va"
  then have "unat (PX l va') = unat (PX l va)" if "l \<in> {0, 1, 2}" for l using that PX_vpn [of va] PX_vpn [of va'] by auto
  then show "upper va' = upper va \<and> PX 0 va' = PX 0 va" by (simp add: upper_def unat_inject)
qed

lemma vpn_low: "va < MAXVA \<Longrightarrow> vpn va = pgno va"
proof -
  assume "va < MAXVA"
  then have "unat va < 2 ^ 38" by (simp add: MAXVA_def word_less_nat_alt)
  then show ?thesis by (simp add: vpn_def pgno_def)
qed

lemma vpn_page: "n < 134217728 \<Longrightarrow> vpn (of_nat (n * 4096)) = n"
proof -
  assume n: "n < 134217728"
  then have "unat (of_nat (n * 4096) :: addr) = n * 4096" using unat_of_nat64 [of "n * 4096"] by (simp del: of_nat_mult)
  then show ?thesis using n by (simp add: vpn_def pgno_def)
qed

text \<open>The upper levels point to pages of the allocator and say nothing else.\<close>

definition inner :: "addr \<Rightarrow> mem \<Rightarrow> addr \<Rightarrow> bool" where
  "inner e m pt \<longleftrightarrow> good_page e pt
     \<and> (\<forall>i v. unat i < 512 \<longrightarrow> entry m pt i = Some v \<longrightarrow> v AND (PTE_R OR PTE_W OR PTE_X) = 0 \<and> good_page e (PTE2PA v))
     \<and> (\<forall>i q j v. unat i < 512 \<longrightarrow> sub m pt i = Some q \<longrightarrow> unat j < 512 \<longrightarrow> entry m q j = Some v \<longrightarrow>
          v AND (PTE_R OR PTE_W OR PTE_X) = 0 \<and> good_page e (PTE2PA v))"

lemma innerD:
  assumes "inner e m pt"
  shows "good_page e pt"
    and "\<And>i v. unat i < 512 \<Longrightarrow> entry m pt i = Some v \<Longrightarrow> v AND (PTE_R OR PTE_W OR PTE_X) = 0 \<and> good_page e (PTE2PA v)"
    and "\<And>i q j v. unat i < 512 \<Longrightarrow> sub m pt i = Some q \<Longrightarrow> unat j < 512 \<Longrightarrow> entry m q j = Some v \<Longrightarrow>
          v AND (PTE_R OR PTE_W OR PTE_X) = 0 \<and> good_page e (PTE2PA v)"
  using assms unfolding inner_def by blast+

lemma no_mapping:
  assumes "\<And>va. translate m pt va = None" and "ij \<in> index_pairs" and "leaf m pt ij = Some r" and "unat k < 512"
  shows "entry m r k = None"
proof -
  obtain i j where ij: "ij = (i, j)" "unat i < 512" "unat j < 512" using assms(2) by (auto simp: index_pairs_def)
  let ?n = "unat i * 262144 + unat j * 512 + unat k"
  let ?va = "of_nat (?n * 4096) :: addr"
  have n: "vpn ?va = ?n" by (rule vpn_page) (use ij assms(4) in simp)
  note digits(2,3) [of "unat j" "unat k" "unat i"] digits(4) [of "unat k" "unat i" "unat j"]
  then have "PX 2 ?va = i" "PX 1 ?va = j" "PX 0 ?va = k" using PX_vpn [of ?va] ij(2,3) assms(4) unfolding n by (simp_all flip: unat_inject)
  then show ?thesis using assms(1) [of ?va] assms(3) ij(1) by (simp add: translate_def upper_def)
qed

lemma tset_Suc_iff: "x \<in> tset (Suc l) m q \<longleftrightarrow> x = q \<or> (\<exists>j r. unat j < 512 \<and> sub m q j = Some r \<and> x \<in> tset l m r)"
proof -
  have "x \<in> (case sub m q j of None \<Rightarrow> {} | Some r \<Rightarrow> tset l m r) \<longleftrightarrow> (\<exists>r. sub m q j = Some r \<and> x \<in> tset l m r)" for j
    by (cases "sub m q j") simp_all
  then show ?thesis unfolding tset.simps(2) by blast
qed

lemma tset_one_cases: "x \<in> tset (Suc 0) m q \<longleftrightarrow> x = q \<or> (\<exists>j. unat j < 512 \<and> sub m q j = Some x)"
  unfolding tset_Suc_iff by auto

lemma tset_two_cases:
  "x \<in> tset 2 m pt \<longleftrightarrow> x = pt \<or> (\<exists>i. unat i < 512 \<and> sub m pt i = Some x) \<or> (\<exists>ij\<in>index_pairs. leaf m pt ij = Some x)"
proof -
  have "(\<exists>ij\<in>index_pairs. leaf m pt ij = Some x) \<longleftrightarrow> (\<exists>i j q. unat i < 512 \<and> unat j < 512 \<and> sub m pt i = Some q \<and> sub m q j = Some x)"
    by (auto simp: leaf_def index_pairs_def bind_eq_Some_conv)
  then show ?thesis unfolding numeral_2_eq_2 tset_Suc_iff [of x "Suc 0"] tset_one_cases by blast
qed

lemma tables_tset: "tables m pt = pgno ` tset 2 m pt"
proof -
  have "tset 2 m pt = insert pt ({q. \<exists>i. unat i < 512 \<and> sub m pt i = Some q} \<union> {r. \<exists>ij\<in>index_pairs. leaf m pt ij = Some r})"
    by (auto simp: tset_two_cases)
  then show ?thesis unfolding tables_def by auto
qed

lemma ptree_of_wf:
  assumes wf: "pt_wf m pt F" and inn: "inner e m pt" and no: "\<And>va. translate m pt va = None"
  shows "ptree e 2 m pt"
proof -
  have leafI: "leaf m pt (i, j) = Some r" "(i, j) \<in> index_pairs" if "unat i < 512" "unat j < 512" "sub m pt i = Some q" "sub m q j = Some r" for i j q r
    using that by (simp_all add: leaf_def index_pairs_def)
  have l0: "ptree e 0 m r" if "unat i < 512" "unat j < 512" "sub m pt i = Some q" "sub m q j = Some r" for i j q r
  proof -
    from that(4) obtain v where "entry m q j = Some v" "r = PTE2PA v" by (auto simp: sub_entry)
    then have "good_page e r" using innerD(3) [OF inn that(1,3,2)] by blast
    then show ?thesis using no_mapping [OF no leafI(2,1) [OF that]] by simp
  qed
  have l1: "ptree e (Suc 0) m q" if i: "unat i < 512" "sub m pt i = Some q" for i q
  proof -
    obtain v where v: "entry m pt i = Some v" "q = PTE2PA v" using i by (auto simp: sub_entry)
    have "w AND (PTE_R OR PTE_W OR PTE_X) = 0 \<and> ptree e 0 m (PTE2PA w) \<and> q \<notin> tset 0 m (PTE2PA w)"
      if j: "unat j < 512" "entry m q j = Some w" for j w
    proof -
      have s: "sub m q j = Some (PTE2PA w)" using j(2) by (simp add: sub_entry)
      have "pgno q \<noteq> pgno (PTE2PA w)" using wf_leaf_sub [OF wf leafI(2,1) [OF i(1) j(1) i(2) s] i] .
      then show ?thesis using innerD(3) [OF inn i j] l0 [OF i(1) j(1) i(2) s] by auto
    qed
    moreover have "a \<noteq> b" if j: "unat j < 512" "unat k < 512" "j \<noteq> k" "sub m q j = Some a" "sub m q k = Some b" for j k a b
      using wf_leaf_inj [OF wf leafI(2) [OF i(1) j(1) i(2) j(4)] leafI(2) [OF i(1) j(2) i(2) j(5)]] leafI(1) [OF i(1) j(1) i(2) j(4)]
        leafI(1) [OF i(1) j(2) i(2) j(5)] j(3) by auto
    moreover have "good_page e q" using innerD(2) [OF inn i(1) v(1)] v(2) by simp
    ultimately show ?thesis unfolding ptree.simps(2) tset.simps(1) by blast
  qed
  have apart: "tset (Suc 0) m q \<inter> tset (Suc 0) m r = {}"
    if i: "unat i < 512" "unat j < 512" "i \<noteq> j" "sub m pt i = Some q" "sub m pt j = Some r" for i j q r
  proof -
    have "q \<noteq> r" using wf_sub_inj [OF wf i(1,2,4)] i by auto
    moreover have "a \<noteq> r" if "unat k < 512" "sub m q k = Some a" for k a
      using wf_leaf_sub [OF wf leafI(2,1) [OF i(1) that(1) i(4) that(2)] i(2,5)] by auto
    moreover have "q \<noteq> b" if "unat l < 512" "sub m r l = Some b" for l b
      using wf_leaf_sub [OF wf leafI(2,1) [OF i(2) that(1) i(5) that(2)] i(1,4)] by auto
    moreover have "a \<noteq> b" if "unat k < 512" "sub m q k = Some a" "unat l < 512" "sub m r l = Some b" for k l a b
      using wf_leaf_inj [OF wf leafI(2) [OF i(1) that(1) i(4) that(2)] leafI(2) [OF i(2) that(3) i(5) that(4)]]
        leafI(1) [OF i(1) that(1) i(4) that(2)] leafI(1) [OF i(2) that(3) i(5) that(4)] i(3) by auto
    ultimately show ?thesis unfolding disjoint_iff tset_one_cases by metis
  qed
  have "v AND (PTE_R OR PTE_W OR PTE_X) = 0 \<and> ptree e (Suc 0) m (PTE2PA v) \<and> pt \<notin> tset (Suc 0) m (PTE2PA v)"
    if i: "unat i < 512" "entry m pt i = Some v" for i v
  proof -
    have s: "sub m pt i = Some (PTE2PA v)" using i(2) by (simp add: sub_entry)
    have "PTE2PA v \<noteq> pt" using wf_sub [OF wf i(1) s] by auto
    moreover have "a \<noteq> pt" if "unat j < 512" "sub m (PTE2PA v) j = Some a" for j a
      using wf_leaf [OF wf leafI(2,1) [OF i(1) that(1) s that(2)]] by auto
    ultimately have "pt \<notin> tset (Suc 0) m (PTE2PA v)" unfolding tset_one_cases by metis
    then show ?thesis using innerD(2) [OF inn i] l1 [OF i(1) s] by blast
  qed
  then show ?thesis using innerD(1) [OF inn] apart unfolding numeral_2_eq_2 ptree.simps(2) [of e "Suc 0"] by blast
qed

subsection \<open>Unmapping\<close>

text \<open>A change outside the tables.\<close>

lemma tables_frame:
  assumes wf: "pt_wf m pt F" and fr: "\<And>b. pgno b \<in> tables m pt \<Longrightarrow> m' b = m b"
  shows frame_leaf: "ij \<in> index_pairs \<Longrightarrow> leaf m' pt ij = leaf m pt ij" and frame_translate: "translate m' pt va = translate m pt va"
    and frame_tables: "tables m' pt = tables m pt" and frame_inner: "inner e m pt \<Longrightarrow> inner e m' pt"
    and frame_wf: "F' \<inter> tables m pt = {} \<Longrightarrow> pt_wf m' pt F'"
proof -
  have root: "entry m' pt i = entry m pt i" if "unat i < 512" for i
    by (rule entry_page [OF wf_root(1) [OF wf] that]) (use fr tables_root [of pt m] in metis)
  then have sb: "sub m' pt i = sub m pt i" if "unat i < 512" for i using that by (simp add: sub_entry)
  have mid: "entry m' q j = entry m q j" if "unat i < 512" "sub m pt i = Some q" "unat j < 512" for i q j
    by (rule entry_page [OF sub_aligned [OF that(2)] that(3)]) (use fr tables_sub [OF that(1,2)] in metis)
  show lf: "leaf m' pt ij = leaf m pt ij" if "ij \<in> index_pairs" for ij
    using that sb mid by (cases "sub m pt (fst ij)") (auto simp: leaf_def index_pairs_def sub_entry)
  have low: "entry m' r k = entry m r k" if "ij \<in> index_pairs" "leaf m pt ij = Some r" "unat k < 512" for ij r k
    by (rule entry_page [OF leaf_aligned [OF that(2)] that(3)]) (use fr tables_leaf [OF that(1,2)] in metis)
  show "translate m' pt va = translate m pt va"
    using lf [OF upper_pairs] low [OF upper_pairs] PX_less by (cases "leaf m pt (upper va)") (simp_all add: translate_def)
  show tb: "tables m' pt = tables m pt" using sb lf by (auto simp: tables_def)
  show "inner e m' pt" if "inner e m pt"
    using that root sb mid unfolding inner_def by (metis (no_types, lifting))
  show "pt_wf m' pt F'" if F': "F' \<inter> tables m pt = {}"
  proof (rule pt_wfI)
    show "unat pt mod 4096 = 0" by (rule wf_root(1) [OF wf])
    show "pgno pt \<notin> F'" using F' tables_root [of pt m] by blast
    show "pgno q \<notin> F' \<and> pgno q \<noteq> pgno pt" if "unat i < 512" "sub m' pt i = Some q" for i q
      using that sb wf_sub [OF wf that(1)] tables_sub [OF that(1), of m pt q] F' by auto
    show "i = i'" if "unat i < 512" "unat i' < 512" "sub m' pt i = Some q" "sub m' pt i' = Some q" for i i' q
      using wf_sub_inj [OF wf that(1,2)] that sb by simp
    show "pgno r \<notin> F' \<and> pgno r \<noteq> pgno pt" if "ij \<in> index_pairs" "leaf m' pt ij = Some r" for ij r
      using that lf wf_leaf [OF wf that(1)] tables_leaf [OF that(1), of m pt r] F' by auto
    show "pgno q \<noteq> pgno r" if "ij \<in> index_pairs" "leaf m' pt ij = Some r" "unat i < 512" "sub m' pt i = Some q" for ij r i q
      using wf_leaf_sub [OF wf that(1) _ that(3)] that lf sb by simp
    show "ij = ij'" if "ij \<in> index_pairs" "ij' \<in> index_pairs" "leaf m' pt ij = Some r" "leaf m' pt ij' = Some r" for ij ij' r
      using wf_leaf_inj [OF wf that(1,2)] that lf by simp
  qed
qed

text \<open>A page table that the functions can work on, beside the free pages \<open>xs\<close>.\<close>

definition space :: "nat \<Rightarrow> addr \<Rightarrow> 'a kmem_scheme \<Rightarrow> addr list \<Rightarrow> bool" where
  "space h pt s xs \<longleftrightarrow> tbl h pt s xs \<and> inner (kend s) (mem s) pt \<and> touch h s = s"

lemma spaceD:
  assumes "space h pt s xs"
  shows "tbl h pt s xs" "inner (kend s) (mem s) pt" "touch h s = s" "kfree_list h s xs" "pt_wf (mem s) pt (free_pages xs)"
  using assms by (simp_all add: space_def tbl_def)

lemma space_free:
  assumes sp: "space h pt s xs" and p: "good_page (kend s) p" "p \<notin> set xs" "pgno p \<notin> tables (mem s) pt"
  shows "\<exists>s'. kfree h p s = Some s' \<and> space h pt s' (p # xs) \<and> only_mem s s' \<and> (\<forall>va. translate (mem s') pt va = translate (mem s) pt va)
    \<and> (\<forall>ij\<in>index_pairs. leaf (mem s') pt ij = leaf (mem s) pt ij) \<and> tables (mem s') pt = tables (mem s) pt
    \<and> (\<forall>b. pgno b \<noteq> pgno p \<longrightarrow> mem s' b = mem s b)"
proof -
  note d = spaceD [OF sp]
  obtain s' where s': "kfree h p s = Some s'" "kfree_list h s' (p # xs)" "only_mem s s'" "\<forall>b. pgno b \<noteq> pgno p \<longrightarrow> mem s' b = mem s b"
    using kfree_gives [OF d(4) p(1,2) d(3)] by blast
  have fr: "mem s' b = mem s b" if "pgno b \<in> tables (mem s) pt" for b using that s'(4) p(3) by metis
  note f = tables_frame [OF d(5) fr]
  have "free_pages xs \<inter> tables (mem s) pt = {}"
    using wf_root(2) [OF d(5)] wf_sub [OF d(5)] wf_leaf [OF d(5)] unfolding tables_def by blast
  then have "free_pages (p # xs) \<inter> tables (mem s) pt = {}" using p(3) by (simp add: free_pages_def)
  then have "space h pt s' (p # xs)"
    using s'(2) frame_wf [OF d(5) fr, of "free_pages (p # xs)"] frame_inner [OF d(5) fr d(2)] only_mem_sel(1,6) [OF s'(3)] d(3)
    by (simp add: space_def tbl_def)
  then show ?thesis using s' f(1-3) by blast
qed

lemma inner_leaf_store:
  assumes wf: "pt_wf m pt F" and l: "ij \<in> index_pairs" "leaf m pt ij = Some q" and inn: "inner e m pt" and m': "\<And>b. pgno b \<noteq> pgno q \<Longrightarrow> m' b = m b"
  shows "inner e m' pt" and "unat i < 512 \<Longrightarrow> sub m' pt i = sub m pt i"
proof -
  have root: "entry m' pt i = entry m pt i" if "unat i < 512" for i
    by (rule entry_page [OF wf_root(1) [OF wf] that]) (use m' wf_leaf [OF wf l] in metis)
  then show sb: "sub m' pt i = sub m pt i" if "unat i < 512" for i using that by (simp add: sub_entry)
  have mid: "entry m' r j = entry m r j" if "unat i < 512" "sub m pt i = Some r" "unat j < 512" for i r j
    by (rule entry_page [OF sub_aligned [OF that(2)] that(3)]) (use m' wf_leaf_sub [OF wf l that(1,2)] in metis)
  show "inner e m' pt" using inn root sb mid unfolding inner_def by (metis (no_types, lifting))
qed

lemma space_store:
  fixes v :: uint64
  assumes sp: "space h pt s xs" and l: "leaf (mem s) pt (upper va) = Some q"
  defines "s' \<equiv> s\<lparr>mem := st64 (pte_at q (PX 0 va)) v (mem s)\<rparr>"
  shows "space h pt s' xs" and "tables (mem s') pt = tables (mem s) pt" and "only_mem s s'"
    and "translate (mem s') pt va' = (if vpn va' = vpn va then if v AND PTE_V = 0 then None else Some v else translate (mem s) pt va')"
    and "pgno b \<notin> tables (mem s) pt \<Longrightarrow> mem s' b = mem s b"
proof -
  note d = spaceD [OF sp] and st = set_leaf [OF spaceD(5) [OF sp] l]
  have fr: "mem s' b = mem s b" if "pgno b \<noteq> pgno q" for b unfolding s'_def using st(4) [OF that] by simp
  show om: "only_mem s s'" unfolding s'_def by (rule only_mem_store)
  show "tables (mem s') pt = tables (mem s) pt" using st(2) by (simp add: s'_def)
  show "translate (mem s') pt va' = (if vpn va' = vpn va then if v AND PTE_V = 0 then None else Some v else translate (mem s) pt va')"
    using st(3) [of v va'] same_vpn [of va' va] by (simp add: s'_def)
  show "space h pt s' xs"
    using tbl_set_leaf(1) [OF d(1) l, of v] inner_leaf_store(1) [OF d(5) upper_pairs l d(2) fr] only_mem_sel(1,6) [OF om] d(3)
    by (simp add: space_def s'_def)
  show "pgno b \<notin> tables (mem s) pt \<Longrightarrow> mem s' b = mem s b" using fr tables_leaf [OF upper_pairs l] by metis
qed

lemmas space_clear = space_store [where v = 0, simplified]

text \<open>The mapped pages: entries that are leaves of the tree; \<open>own\<close> says that the page can be freed.\<close>

definition own :: "addr \<Rightarrow> 'a kmem_scheme \<Rightarrow> addr list \<Rightarrow> addr \<Rightarrow> bool" where
  "own pt s xs p \<longleftrightarrow> good_page (kend s) p \<and> p \<notin> set xs \<and> pgno p \<notin> tables (mem s) pt"

definition page_of :: "mem \<Rightarrow> addr \<Rightarrow> addr \<Rightarrow> addr" where
  "page_of m pt va = PTE2PA (the (translate m pt va))"

definition leaf_at :: "mem \<Rightarrow> addr \<Rightarrow> addr \<Rightarrow> bool" where
  "leaf_at m pt va \<longleftrightarrow> (\<exists>e. translate m pt va = Some e \<and> PTE_FLAGS e \<noteq> PTE_V)"

definition unmapped_to :: "nat \<Rightarrow> addr \<Rightarrow> nat set \<Rightarrow> addr set \<Rightarrow> addr list \<Rightarrow> 'a kmem_scheme \<Rightarrow> addr list \<Rightarrow> 'a kmem_scheme \<Rightarrow> bool" where
  "unmapped_to h pt V P xs s ys s' \<longleftrightarrow> space h pt s' ys \<and> only_mem s s' \<and> set ys = set xs \<union> P \<and> tables (mem s') pt = tables (mem s) pt
     \<and> (\<forall>va. translate (mem s') pt va = (if vpn va \<in> V then None else translate (mem s) pt va))
     \<and> (\<forall>b. pgno b \<notin> tables (mem s) pt \<longrightarrow> pgno b \<notin> pgno ` P \<longrightarrow> mem s' b = mem s b)"

lemma unmapped_to_trans:
  assumes "unmapped_to h pt V P xs s ys t" and "unmapped_to h pt V' P' ys t zs u"
  shows "unmapped_to h pt (V \<union> V') (P \<union> P') xs s zs u"
  using assms only_mem_trans [of s t u] unfolding unmapped_to_def by (auto simp: image_Un)

lemma unmapped_to_refl: "space h pt s xs \<Longrightarrow> unmapped_to h pt {} {} xs s xs s"
  by (simp add: unmapped_to_def)

lemma uvmunmap_one:
  assumes sp: "space h pt s xs" and a: "a < stop" "a < MAXVA" and lf: "leaf_at (mem s) pt a"
    and ow: "do_free \<Longrightarrow> own pt s xs (page_of (mem s) pt a)"
  shows "\<exists>s' ys. uvmunmap_loop h pt a stop do_free s = uvmunmap_loop h pt (a + PGSIZE) stop do_free s'
    \<and> unmapped_to h pt {vpn a} (if do_free then {page_of (mem s) pt a} else {}) xs s ys s'"
proof -
  obtain e where e: "translate (mem s) pt a = Some e" "PTE_FLAGS e \<noteq> PTE_V" using lf by (auto simp: leaf_at_def)
  then obtain q where q: "leaf (mem s) pt (upper a) = Some q" "entry (mem s) q (PX 0 a) = Some e" by (auto simp: translate_def bind_eq_Some_conv)
  let ?pte = "pte_at q (PX 0 a)"
  have ld: "ld64 ?pte (mem s) = e" "e AND PTE_V \<noteq> 0" using q(2) by (simp_all add: entry_Some_iff)
  note d = spaceD [OF sp]
  have "pgno q \<noteq> 0" using wf_leaf [OF d(5) upper_pairs q(1)] by (auto simp: free_pages_def)
  then have nz: "?pte \<noteq> 0" by (rule pte_nonzero [OF leaf_aligned [OF q(1)] _ PX_less])
  have w: "walk h pt a False s = Some (?pte, s)" using walk_no_alloc [OF a(2), of h pt s] q(1) by simp
  have un: "uvmunmap_loop h pt a stop do_free s = Option.bind (if do_free then kfree h (PTE2PA e) s else Some s)
      (\<lambda>s. uvmunmap_loop h pt (a + PGSIZE) stop do_free (s\<lparr>mem := st64 ?pte 0 (mem s)\<rparr>))"
    by (subst uvmunmap_loop.simps) (use a w nz ld e(2) in simp)
  have clear: "unmapped_to h pt {vpn a} {} ys t ys (t\<lparr>mem := st64 ?pte 0 (mem t)\<rparr>)"
    if "space h pt t ys" "leaf (mem t) pt (upper a) = Some q" for t ys
    unfolding unmapped_to_def using space_clear [OF that] by auto
  show ?thesis
  proof (cases do_free)
    case True
    have p: "page_of (mem s) pt a = PTE2PA e" by (simp add: page_of_def e(1))
    obtain s1 where s1: "kfree h (PTE2PA e) s = Some s1" "space h pt s1 (PTE2PA e # xs)" "only_mem s s1"
      "\<forall>va. translate (mem s1) pt va = translate (mem s) pt va" "leaf (mem s1) pt (upper a) = Some q"
      "tables (mem s1) pt = tables (mem s) pt" "\<forall>b. pgno b \<noteq> pgno (PTE2PA e) \<longrightarrow> mem s1 b = mem s b"
      using space_free [OF sp, of "PTE2PA e"] ow True q(1) upper_pairs [of a] p by (auto simp: own_def)
    have "unmapped_to h pt {} {PTE2PA e} xs s (PTE2PA e # xs) s1" unfolding unmapped_to_def using s1 by auto
    from unmapped_to_trans [OF this clear [OF s1(2,5)]] show ?thesis using un s1(1) True p by auto
  next
    case False
    then show ?thesis using un clear [OF sp q(1)] by auto
  qed
qed

lemma nth_page:
  assumes "unat a + n * 4096 \<le> 2 ^ 38" and "k < n"
  shows "a + of_nat k * PGSIZE < MAXVA" and "pgno (a + of_nat k * PGSIZE) = pgno a + k" and "vpn (a + of_nat k * PGSIZE) = pgno a + k"
proof -
  have "k * 4096 + 4096 \<le> n * 4096" using assms(2) by simp
  then have k: "unat a + k * 4096 < 2 ^ 38" "k * 4096 < 2 ^ 38" using assms(1) by linarith+
  have "unat (of_nat k * PGSIZE :: addr) = k * 4096" using unat_of_nat64 [of "k * 4096"] k(2) by (simp add: PGSIZE_def)
  then have u: "unat (a + of_nat k * PGSIZE) = unat a + k * 4096" using k(1) by (simp add: unat_plus_if')
  then show m: "a + of_nat k * PGSIZE < MAXVA" using k(1) by (simp add: MAXVA_def word_less_nat_alt)
  show p: "pgno (a + of_nat k * PGSIZE) = pgno a + k" by (simp add: pgno_def u)
  show "vpn (a + of_nat k * PGSIZE) = pgno a + k" using vpn_low [OF m] p by simp
qed

lemma uvmunmap_loop_spec:
  fixes s :: "'a kmem_scheme"
  assumes "space h pt s xs" and "unat a + n * 4096 \<le> 2 ^ 38"
    and "\<And>k. k < n \<Longrightarrow> leaf_at (mem s) pt (a + of_nat k * PGSIZE)"
    and "\<And>k. do_free \<Longrightarrow> k < n \<Longrightarrow> own pt s xs (page_of (mem s) pt (a + of_nat k * PGSIZE))"
    and "do_free \<Longrightarrow> inj_on (\<lambda>k. page_of (mem s) pt (a + of_nat k * PGSIZE)) {..<n}"
  shows "\<exists>s' ys. uvmunmap_loop h pt a (a + of_nat n * PGSIZE) do_free s = Some s'
    \<and> unmapped_to h pt {pgno a..<pgno a + n} (if do_free then (\<lambda>k. page_of (mem s) pt (a + of_nat k * PGSIZE)) ` {..<n} else {}) xs s ys s'"
  using assms
proof (induction n arbitrary: a s xs)
  case 0
  then show ?case using unmapped_to_refl [OF "0.prems"(1)] by (subst uvmunmap_loop.simps) auto
next
  case (Suc n)
  let ?pg = "\<lambda>k. page_of (mem s) pt (a + of_nat k * PGSIZE)"
  let ?stop = "a + of_nat (Suc n) * PGSIZE"
  have b: "unat a + 4096 + n * 4096 \<le> 2 ^ 38" using Suc.prems(2) by simp
  note st = pgno_step [OF Suc.prems(2) zero_less_Suc]
  have "unat ?stop = unat a + Suc n * 4096"
  proof -
    have "unat (of_nat (Suc n) * PGSIZE :: addr) = Suc n * 4096"
      using unat_of_nat64 [of "Suc n * 4096"] Suc.prems(2) by (simp add: PGSIZE_def algebra_simps)
    then show ?thesis using Suc.prems(2) by (simp add: unat_plus_if')
  qed
  then have lt: "a < ?stop" by (simp add: word_less_nat_alt)
  have v: "vpn a = pgno a" by (rule vpn_low [OF st(1)])
  have l0: "leaf_at (mem s) pt a" and o0: "do_free \<Longrightarrow> own pt s xs (page_of (mem s) pt a)" and p0: "?pg 0 = page_of (mem s) pt a"
    using Suc.prems(3) [of 0] Suc.prems(4) [of 0] by simp_all
  obtain s1 ys where s1: "uvmunmap_loop h pt a ?stop do_free s = uvmunmap_loop h pt (a + PGSIZE) ?stop do_free s1"
    "unmapped_to h pt {pgno a} (if do_free then {?pg 0} else {}) xs s ys s1"
    using uvmunmap_one [OF Suc.prems(1) lt st(1) l0 o0] unfolding v p0 by blast
  have u1: "space h pt s1 ys" "kend s1 = kend s" "set ys = set xs \<union> (if do_free then {?pg 0} else {})" "tables (mem s1) pt = tables (mem s) pt"
    using s1(2) only_mem_sel(1) [of s s1] by (auto simp: unmapped_to_def)
  have sh: "a + PGSIZE + of_nat k * PGSIZE = a + of_nat (Suc k) * PGSIZE" for k by (simp add: algebra_simps)
  have tr: "translate (mem s1) pt (a + PGSIZE + of_nat k * PGSIZE) = translate (mem s) pt (a + of_nat (Suc k) * PGSIZE)" if "k < n" for k
    using s1(2) nth_page(3) [OF Suc.prems(2), of "Suc k"] that unfolding unmapped_to_def sh by auto
  have pg: "page_of (mem s1) pt (a + PGSIZE + of_nat k * PGSIZE) = ?pg (Suc k)" if "k < n" for k
    unfolding page_of_def tr [OF that] ..
  have img: "(\<lambda>k. page_of (mem s1) pt (a + PGSIZE + of_nat k * PGSIZE)) ` {..<n} = (\<lambda>k. ?pg (Suc k)) ` {..<n}"
    by (rule image_cong [OF refl pg]) simp
  have "\<exists>s' zs. uvmunmap_loop h pt (a + PGSIZE) (a + PGSIZE + of_nat n * PGSIZE) do_free s1 = Some s'
     \<and> unmapped_to h pt {pgno (a + PGSIZE)..<pgno (a + PGSIZE) + n} (if do_free then (\<lambda>k. page_of (mem s1) pt (a + PGSIZE + of_nat k * PGSIZE)) ` {..<n} else {}) ys s1 zs s'"
  proof (rule Suc.IH [OF u1(1)])
    show "unat (a + PGSIZE) + n * 4096 \<le> 2 ^ 38" using b st(2) by simp
    show "leaf_at (mem s1) pt (a + PGSIZE + of_nat k * PGSIZE)" if "k < n" for k
      using Suc.prems(3) [of "Suc k"] that unfolding leaf_at_def tr [OF that] by simp
    show "own pt s1 ys (page_of (mem s1) pt (a + PGSIZE + of_nat k * PGSIZE))" if "do_free" "k < n" for k
    proof -
      have "?pg (Suc k) \<noteq> ?pg 0" using inj_onD [OF Suc.prems(5) [OF that(1)], of "Suc k" 0] that(2) by auto
      then show ?thesis using Suc.prems(4) [OF that(1), of "Suc k"] that u1 unfolding pg [OF that(2)] by (simp add: own_def)
    qed
    show "inj_on (\<lambda>k. page_of (mem s1) pt (a + PGSIZE + of_nat k * PGSIZE)) {..<n}" if do_free
    proof (rule inj_onI)
      fix i j assume ij: "i \<in> {..<n}" "j \<in> {..<n}" "page_of (mem s1) pt (a + PGSIZE + of_nat i * PGSIZE) = page_of (mem s1) pt (a + PGSIZE + of_nat j * PGSIZE)"
      then have "?pg (Suc i) = ?pg (Suc j)" using pg by simp
      then show "i = j" using inj_onD [OF Suc.prems(5) [OF that], of "Suc i" "Suc j"] ij(1,2) by auto
    qed
  qed
  then obtain s' zs where s': "uvmunmap_loop h pt (a + PGSIZE) ?stop do_free s1 = Some s'"
    "unmapped_to h pt {Suc (pgno a)..<Suc (pgno a) + n} (if do_free then (\<lambda>k. ?pg (Suc k)) ` {..<n} else {}) ys s1 zs s'"
    unfolding img st(3) sh [of n] by blast
  have V: "{pgno a} \<union> {Suc (pgno a)..<Suc (pgno a) + n} = {pgno a..<pgno a + Suc n}" by auto
  have "{?pg 0} \<union> (\<lambda>k. ?pg (Suc k)) ` {..<n} = ?pg ` {..<Suc n}" unfolding lessThan_Suc_eq_insert_0 image_insert image_image by simp
  then have P: "(if do_free then {?pg 0} else {}) \<union> (if do_free then (\<lambda>k. ?pg (Suc k)) ` {..<n} else {}) = (if do_free then ?pg ` {..<Suc n} else {})"
    by (cases do_free) simp_all
  show ?case using s1(1) s'(1) unmapped_to_trans [OF s1(2) s'(2), unfolded V P] by (intro exI conjI) (rule trans)
qed

subsection \<open>Freeing an address space\<close>

lemma inner_good:
  assumes "inner e m pt" and "x \<in> tset 2 m pt"
  shows "good_page e x"
proof -
  consider "x = pt" | i where "unat i < 512" "sub m pt i = Some x" | ij where "ij \<in> index_pairs" "leaf m pt ij = Some x"
    using assms(2) tset_two_cases by metis
  then show ?thesis
  proof cases
    case 1
    then show ?thesis using innerD(1) [OF assms(1)] by simp
  next
    case 2
    then show ?thesis using innerD(2) [OF assms(1) 2(1)] by (auto simp: sub_entry)
  next
    case 3
    then obtain q v where "unat (fst ij) < 512" "sub m pt (fst ij) = Some q" "unat (snd ij) < 512" "entry m q (snd ij) = Some v" "x = PTE2PA v"
      by (auto simp: index_pairs_def leaf_def bind_eq_Some_conv sub_entry)
    then show ?thesis using innerD(3) [OF assms(1)] by blast
  qed
qed

lemma tset_same:
  assumes "inner e m pt" and "inner e m' pt" and "tables m' pt = tables m pt"
  shows "tset 2 m' pt = tset 2 m pt"
proof -
  have "x \<in> tset 2 m2 pt" if x: "x \<in> tset 2 m1 pt" and i: "inner e m1 pt" "inner e m2 pt" "tables m1 pt = tables m2 pt" for x m1 m2
  proof -
    have "pgno x \<in> pgno ` tset 2 m2 pt" using x i(3) unfolding tables_tset by blast
    then obtain y where "y \<in> tset 2 m2 pt" "pgno x = pgno y" by blast
    then show ?thesis using good_pages_apart [OF inner_good [OF i(1) x], of y] inner_good [OF i(2)] by auto
  qed
  then show ?thesis using assms by blast
qed

definition user_pages :: "mem \<Rightarrow> addr \<Rightarrow> nat \<Rightarrow> addr set" where
  "user_pages m pt n = (\<lambda>k. page_of m pt (0 + of_nat k * PGSIZE)) ` {..<n}"

text \<open>
  The memory of a process of \<open>n\<close> pages, apart from the pages in \<open>V\<close>: every page is mapped once, can be freed, and
  nothing else is mapped.
\<close>

definition user_mem :: "nat \<Rightarrow> addr \<Rightarrow> nat \<Rightarrow> nat set \<Rightarrow> 'a kmem_scheme \<Rightarrow> addr list \<Rightarrow> bool" where
  "user_mem h pt n V s xs \<longleftrightarrow> space h pt s xs \<and> n * 4096 \<le> 2 ^ 38
     \<and> (\<forall>k<n. leaf_at (mem s) pt (0 + of_nat k * PGSIZE) \<and> own pt s xs (page_of (mem s) pt (0 + of_nat k * PGSIZE)))
     \<and> inj_on (\<lambda>k. page_of (mem s) pt (0 + of_nat k * PGSIZE)) {..<n}
     \<and> (\<forall>va. translate (mem s) pt va \<noteq> None \<longrightarrow> vpn va < n \<or> vpn va \<in> V)"

lemma free_apart: "space h pt s xs \<Longrightarrow> tset 2 (mem s) pt \<inter> set xs = {}"
proof -
  assume sp: "space h pt s xs"
  note d = spaceD [OF sp]
  have "pgno x \<notin> pgno ` set xs" if "x \<in> tset 2 (mem s) pt" for x
    using that [unfolded tset_two_cases] wf_root(2) [OF d(5)] wf_sub [OF d(5)] wf_leaf [OF d(5)] unfolding free_pages_def by blast
  then show ?thesis by blast
qed

lemma uvmfree_ok:
  fixes s :: "'a kmem_scheme"
  assumes um: "user_mem h pt n {} s xs" and n: "n = unat (PGROUNDUP sz) div 4096"
  shows "\<exists>s'. uvmfree h pt sz s = Some s' \<and> freed h (tset 2 (mem s) pt \<union> user_pages (mem s) pt n) xs s s'"
proof -
  let ?P = "user_pages (mem s) pt n"
  have sp: "space h pt s xs" and b: "unat (0 :: addr) + n * 4096 \<le> 2 ^ 38" using um by (simp_all add: user_mem_def)
  have np: "PGROUNDUP sz div PGSIZE = of_nat n"
  proof -
    have "unat (PGROUNDUP sz div PGSIZE) = n" by (simp add: n PGSIZE_def unat_div)
    moreover have "unat (of_nat n :: addr) = n" by (rule unat_of_nat64) (use b in simp)
    ultimately show ?thesis by (simp flip: unat_inject)
  qed
  obtain s1 ys where u: "uvmunmap_loop h pt 0 (0 + of_nat n * PGSIZE) True s = Some s1"
    "unmapped_to h pt {pgno 0..<pgno 0 + n} (if True then (\<lambda>k. page_of (mem s) pt (0 + of_nat k * PGSIZE)) ` {..<n} else {}) xs s ys s1"
    using uvmunmap_loop_spec [OF sp b, of True] um unfolding user_mem_def by blast
  have s1: "(if sz > 0 then uvmunmap h pt 0 (PGROUNDUP sz div PGSIZE) True s else Some s) = Some s1"
  proof (cases "sz > 0")
    case False
    then have "sz = 0" by (simp add: word_less_nat_alt unat_eq_0)
    then have "n = 0" using n by (simp add: PGROUNDUP_def PGSIZE_def)
    then have "s1 = s" using u(1) by (subst (asm) uvmunmap_loop.simps) simp
    then show ?thesis using False by simp
  qed (use u(1) np in \<open>simp add: uvmunmap_def\<close>)
  have u': "space h pt s1 ys" "only_mem s s1" "set ys = set xs \<union> ?P" "tables (mem s1) pt = tables (mem s) pt"
    "\<And>va. translate (mem s1) pt va = (if vpn va < n then None else translate (mem s) pt va)"
    "\<And>b. pgno b \<notin> tables (mem s) pt \<Longrightarrow> pgno b \<notin> pgno ` ?P \<Longrightarrow> mem s1 b = mem s b"
    using u(2) unfolding unmapped_to_def user_pages_def by (auto simp: pgno_def)
  note d = spaceD [OF sp] and d1 = spaceD [OF u'(1)]
  have none: "translate (mem s1) pt va = None" for va using u'(5) [of va] um by (auto simp: user_mem_def)
  have ts: "tset 2 (mem s1) pt = tset 2 (mem s) pt"
    by (rule tset_same [OF d(2) _ u'(4)]) (use d1(2) only_mem_sel(1) [OF u'(2)] in simp)
  obtain s2 where s2: "freewalk_from h 0 pt s1 = Some s2" "freed h (tset 2 (mem s) pt) ys s1 s2"
    using freewalk_ok [OF ptree_of_wf [OF d1(5,2) none] d1(4) free_apart [OF u'(1)] d1(3)] unfolding ts by blast
  have "freed h (tset 2 (mem s) pt \<union> ?P) xs s s2"
    using s2(2) u'(2,3,6) only_mem_trans [of s s1 s2] unfolding freed_def tables_tset image_Un by (auto simp: Un_ac)
  then show ?thesis using s1 s2(1) by (simp add: uvmfree_def freewalk_def)
qed

subsection \<open>Building an address space\<close>

lemma chain_unique: "chain m a xs \<Longrightarrow> chain m a ys \<Longrightarrow> xs = ys"
proof (induction xs arbitrary: a ys)
  case Nil
  then show ?case by (cases ys) auto
next
  case (Cons x xs)
  then show ?case by (cases ys) auto
qed

lemma kfree_list_unique: "kfree_list h s xs \<Longrightarrow> kfree_list h s ys \<Longrightarrow> xs = ys"
  using chain_unique by (auto simp: kfree_list_def free_inv_def)

lemma table_flags: "unat x mod 4096 = 0 \<Longrightarrow> (PA2PTE x OR PTE_V) AND (PTE_R OR PTE_W OR PTE_X) = 0" "unat x mod 4096 = 0 \<Longrightarrow> PTE2PA (PA2PTE x OR PTE_V) = x"
proof -
  have "bit (PA2PTE x) n \<Longrightarrow> 10 \<le> n" for n by (simp add: PA2PTE_def bit_push_bit_iff)
  then have no: "\<not> bit (PA2PTE x) n" if "n \<in> {1, 2, 3}" for n using that by force
  have f: "bit (PTE_R OR PTE_W OR PTE_X) n \<longleftrightarrow> n \<in> {1, 2, 3}" and v: "bit PTE_V n \<longleftrightarrow> n = 0" for n
    unfolding PTE_R_def PTE_W_def PTE_X_def PTE_V_def bit_or_iff bit_push_bit_iff bit_1_iff by auto
  have "\<not> bit ((PA2PTE x OR PTE_V) AND (PTE_R OR PTE_W OR PTE_X)) n" for n unfolding bit_and_iff bit_or_iff [of "PA2PTE x"] f v using no [of n] by auto
  then show "(PA2PTE x OR PTE_V) AND (PTE_R OR PTE_W OR PTE_X) = 0" by (intro bit_eqI) simp
  show "PTE2PA (PA2PTE x OR PTE_V) = x" if "unat x mod 4096 = 0" by (rule PTE2PA_PA2PTE [OF that]) (simp add: PTE_consts)
qed

text \<open>The entry \<open>j\<close> of the table \<open>p\<close> points to the new, empty table \<open>x\<close>; nothing else changed.\<close>

definition new_table :: "mem \<Rightarrow> addr \<Rightarrow> uint64 \<Rightarrow> addr \<Rightarrow> mem \<Rightarrow> bool" where
  "new_table m p j x m' \<longleftrightarrow> (\<forall>i. unat i < 512 \<longrightarrow> entry m' p i = (if i = j then Some (PA2PTE x OR PTE_V) else entry m p i))
     \<and> (\<forall>k. unat k < 512 \<longrightarrow> entry m' x k = None) \<and> (\<forall>b. pgno b \<noteq> pgno p \<longrightarrow> pgno b \<noteq> pgno x \<longrightarrow> m' b = m b)"

lemma new_tableD:
  assumes "new_table m p j x m'"
  shows "unat i < 512 \<Longrightarrow> entry m' p i = (if i = j then Some (PA2PTE x OR PTE_V) else entry m p i)"
    and "unat k < 512 \<Longrightarrow> entry m' x k = None" and "pgno b \<noteq> pgno p \<Longrightarrow> pgno b \<noteq> pgno x \<Longrightarrow> m' b = m b"
  using assms unfolding new_table_def by metis+

lemma walk_level_new:
  fixes s :: "'a kmem_scheme"
  assumes L: "kfree_list h s (x # ys)" and t: "touch h s = s" and al: "unat p mod 4096 = 0" and nf: "pgno p \<notin> pgno ` set (x # ys)"
    and no: "sub (mem s) p (PX l va) = None"
  shows "\<exists>s'. walk_level h l p va True s = Some (Some x, s') \<and> kfree_list h s' ys \<and> only_mem s s' \<and> good_page (kend s) x
    \<and> new_table (mem s) p (PX l va) x (mem s')"
proof -
  have "\<exists>s'. walk_level h l p va True s = Some (Some x, s') \<and> kfree_list h s' ys \<and> (\<forall>k. unat k < 512 \<longrightarrow> entry (mem s') x k = None)
    \<and> unat x mod 4096 = 0 \<and> (\<forall>b. pgno b \<noteq> pgno p \<longrightarrow> pgno b \<noteq> pgno x \<longrightarrow> mem s' b = mem s b)"
  proof (rule walk_level_fresh [OF L al nf no], goal_cases)
    case (1 s')
    then show ?case by (intro exI [of _ s'] conjI allI impI) simp_all
  qed
  then obtain s' where s': "walk_level h l p va True s = Some (Some x, s')" "kfree_list h s' ys" "\<forall>k. unat k < 512 \<longrightarrow> entry (mem s') x k = None"
    "unat x mod 4096 = 0" "\<forall>b. pgno b \<noteq> pgno p \<longrightarrow> pgno b \<noteq> pgno x \<longrightarrow> mem s' b = mem s b"
    by (elim exE conjE)
  have x: "x \<noteq> 0" "freelist s = x" "good_page (kend s) x" "mem_ready h s" using L by (auto simp: kfree_list_def free_inv_def)
  let ?s1 = "with_mem (memset x 5 (unat PGSIZE) (mem s)) (ld64 x (mem s)) s"
  let ?z = "memset x 0 (unat PGSIZE) (mem ?s1)"
  have s1: "s' = ?s1\<lparr>mem := st64 (pte_at p (PX l va)) (PA2PTE x OR PTE_V) ?z\<rparr>"
    using s'(1) kalloc_spec [OF x(4)] no x(1,2) t by (simp add: walk_level_def Let_def sub_def with_mem_def split: if_splits)
  have xp: "pgno x \<noteq> pgno p" using nf by auto
  have "?z b = mem s b" if "pgno b = pgno p" for b
    using filled_page [OF s'(4), of b] that xp by (simp add: with_mem_def)
  then have "entry ?z p i = entry (mem s) p i" if "unat i < 512" for i by (rule entry_page [OF al that])
  then have "entry (mem s') p i = (if i = PX l va then Some (PA2PTE x OR PTE_V) else entry (mem s) p i)" if "unat i < 512" for i
    using entry_store [OF al PX_less that, of l va "PA2PTE x OR PTE_V" ?z] valid_or that by (simp add: s1)
  moreover have "only_mem s ?s1" unfolding only_mem_def by blast
  then have "only_mem s s'" unfolding s1 by (rule only_mem_trans [OF _ only_mem_store])
  ultimately show ?thesis unfolding new_table_def using s' x(3) by (intro exI [of _ s'] conjI) simp_all
qed

definition step_ok :: "addr \<Rightarrow> 'a kmem_scheme \<Rightarrow> addr list \<Rightarrow> 'a kmem_scheme \<Rightarrow> addr list \<Rightarrow> bool" where
  "step_ok pt s xs s' ys \<longleftrightarrow> inner (kend s') (mem s') pt \<and> only_mem s s' \<and> tset 2 (mem s') pt = tset 2 (mem s) pt \<union> (set xs - set ys)"

lemma step_ok_refl: "space h pt s xs \<Longrightarrow> step_ok pt s xs s xs"
  by (simp add: step_ok_def space_def)

lemma walk_level_nothing:
  assumes "space h pt s xs" and "walk_level h l p va True s = Some (r, s')" and "sub (mem s) p (PX l va) \<noteq> None \<or> xs = []"
  shows "s' = s"
proof (cases "sub (mem s) p (PX l va)")
  case None
  then have "freelist s = 0" using assms(1,3) by (auto simp: space_def tbl_def kfree_list_def free_inv_def)
  moreover have "mem_ready h s" "touch h s = s" using assms(1) by (auto simp: space_def tbl_def kfree_list_def)
  ultimately show ?thesis using assms(2) None kalloc_spec [of h s] by (auto simp: walk_level_def sub_def Let_def split: if_splits)
next
  case (Some q)
  then show ?thesis using assms(2) walk_level_valid [OF Some, of h True] by simp
qed

lemma free_not_table: "space h pt s xs \<Longrightarrow> x \<in> set xs \<Longrightarrow> y \<in> tset 2 (mem s) pt \<Longrightarrow> pgno y \<noteq> pgno x"
proof -
  assume sp: "space h pt s xs" and x: "x \<in> set xs" and y: "y \<in> tset 2 (mem s) pt"
  note d = spaceD [OF sp]
  have "good_page (kend s) x" using kpa.free_page [OF d(4) x] by (simp add: kpage_def)
  moreover have "y \<noteq> x" using free_apart [OF sp] x y by blast
  ultimately show ?thesis using good_pages_apart [OF inner_good [OF d(2) y]] by blast
qed

lemma tset_sub: "unat i < 512 \<Longrightarrow> sub m pt i = Some q \<Longrightarrow> q \<in> tset 2 m pt"
  and tset_leaf: "ij \<in> index_pairs \<Longrightarrow> leaf m pt ij = Some r \<Longrightarrow> r \<in> tset 2 m pt"
  and tset_pt: "pt \<in> tset 2 m pt"
  using tset_two_cases [of _ m pt] by blast+

lemma leaf_pair: "leaf m pt (i, j) = Option.bind (sub m pt i) (\<lambda>q. sub m q j)"
  by (simp add: leaf_def)

lemma level2_ok:
  fixes s :: "'a kmem_scheme"
  assumes sp: "space h pt s xs" and w: "walk_level h 2 pt va True s = Some (r, s')" and T: "tbl h pt s' ys"
  shows "step_ok pt s xs s' ys"
proof (cases "sub (mem s) pt (PX 2 va) \<noteq> None \<or> xs = []")
  case True
  then have "s' = s" by (rule walk_level_nothing [OF sp w])
  moreover have "ys = xs" using kfree_list_unique spaceD(4) [OF sp] T \<open>s' = s\<close> by (auto simp: tbl_def)
  ultimately show ?thesis using step_ok_refl [OF sp] by simp
next
  case False
  then obtain x zs where no: "sub (mem s) pt (PX 2 va) = None" and xs: "xs = x # zs" by (cases xs) auto
  note d = spaceD [OF sp]
  have "pgno pt \<notin> pgno ` set (x # zs)" using free_not_table [OF sp _ tset_pt] xs by auto
  then obtain t where t: "walk_level h 2 pt va True s = Some (Some x, t)" "kfree_list h t zs" "only_mem s t" "good_page (kend s) x"
    and nt: "new_table (mem s) pt (PX 2 va) x (mem t)"
    using walk_level_new [OF _ d(3) wf_root(1) [OF d(5)] _ no, of x zs] d(4) xs by blast
  note en = new_tableD(1) [OF nt] and new = new_tableD(2) [OF nt] and fr = new_tableD(3) [OF nt]
  have s': "s' = t" using w t(1) by simp
  have ys: "ys = zs" using kfree_list_unique [OF _ t(2)] T s' by (auto simp: tbl_def)
  have xa: "unat x mod 4096 = 0" by (rule good_page_aligned [OF t(4)])
  have old: "entry (mem t) q j = entry (mem s) q j" if "unat i < 512" "sub (mem s) pt i = Some q" "unat j < 512" for i q j
    by (rule entry_page [OF sub_aligned [OF that(2)] that(3)], rule fr)
      (use wf_sub [OF d(5) that(1,2)] free_not_table [OF sp _ tset_sub [OF that(1,2)], of x] xs in auto)
  have sb: "sub (mem t) pt i = (if i = PX 2 va then Some x else sub (mem s) pt i)" if "unat i < 512" for i
    using en [OF that] table_flags(2) [OF xa] by (simp add: sub_entry)
  have inn: "inner (kend t) (mem t) pt"
    unfolding inner_def only_mem_sel(1) [OF t(3)]
  proof (intro conjI allI impI, goal_cases)
    case 1
    show ?case by (rule innerD(1) [OF d(2)])
  next
    case (2 i v)
    then show ?case using en [OF 2(1)] innerD(2) [OF d(2) 2(1)] table_flags [OF xa] t(4) by (auto split: if_splits)
  next
    case (3 i v)
    then show ?case using en [OF 3(1)] innerD(2) [OF d(2) 3(1)] table_flags [OF xa] t(4) by (auto split: if_splits)
  next
    case (4 i q j v)
    then show ?case using sb [OF 4(1)] new [OF 4(3)] old [OF 4(1) _ 4(3)] innerD(3) [OF d(2) 4(1) _ 4(3)] by (auto split: if_splits)
  next
    case (5 i q j v)
    then show ?case using sb [OF 5(1)] new [OF 5(3)] old [OF 5(1) _ 5(3)] innerD(3) [OF d(2) 5(1) _ 5(3)] by (auto split: if_splits)
  qed
  have lf: "leaf (mem t) pt ij = leaf (mem s) pt ij" if ij: "ij \<in> index_pairs" for ij
  proof -
    obtain i j where e: "ij = (i, j)" "unat i < 512" "unat j < 512" using ij by (auto simp: index_pairs_def)
    show ?thesis using sb [OF e(2)] new [OF e(3)] no old [OF e(2) _ e(3)]
      by (cases "sub (mem s) pt i") (auto simp: e(1) leaf_pair sub_entry)
  qed
  have "y \<in> tset 2 (mem t) pt \<longleftrightarrow> y \<in> tset 2 (mem s) pt \<or> y = x" for y
  proof -
    have "(\<exists>i. unat i < 512 \<and> sub (mem t) pt i = Some y) \<longleftrightarrow> (\<exists>i. unat i < 512 \<and> sub (mem s) pt i = Some y) \<or> y = x"
    proof
      assume "(\<exists>i. unat i < 512 \<and> sub (mem s) pt i = Some y) \<or> y = x"
      then show "\<exists>i. unat i < 512 \<and> sub (mem t) pt i = Some y"
      proof (elim disjE exE conjE)
        fix i assume i: "unat i < 512" "sub (mem s) pt i = Some y"
        then have "i \<noteq> PX 2 va" using no by auto
        then show ?thesis using i sb by (intro exI [of _ i]) simp
      qed (use sb [OF PX_less, of 2 va] PX_less [of 2 va] in \<open>auto intro: exI [of _ "PX 2 va"]\<close>)
    qed (use sb in \<open>auto split: if_splits\<close>)
    moreover have "(\<exists>ij\<in>index_pairs. leaf (mem t) pt ij = Some y) \<longleftrightarrow> (\<exists>ij\<in>index_pairs. leaf (mem s) pt ij = Some y)" using lf by auto
    ultimately show ?thesis unfolding tset_two_cases by blast
  qed
  moreover have "set xs - set ys = {x}" using kpa.free_distinct [OF d(4)] xs ys by auto
  ultimately show ?thesis using inn t(3) s' by (auto simp: step_ok_def)
qed

lemma level1_ok:
  fixes s :: "'a kmem_scheme"
  assumes sp: "space h pt s xs" and i0: "unat i0 < 512" "sub (mem s) pt i0 = Some q0"
    and w: "walk_level h 1 q0 va True s = Some (r, s')" and T: "tbl h pt s' ys"
  shows "step_ok pt s xs s' ys"
proof (cases "sub (mem s) q0 (PX 1 va) \<noteq> None \<or> xs = []")
  case True
  then have "s' = s" by (rule walk_level_nothing [OF sp w])
  moreover have "ys = xs" using kfree_list_unique spaceD(4) [OF sp] T \<open>s' = s\<close> by (auto simp: tbl_def)
  ultimately show ?thesis using step_ok_refl [OF sp] by simp
next
  case False
  then obtain x zs where no: "sub (mem s) q0 (PX 1 va) = None" and xs: "xs = x # zs" by (cases xs) auto
  note d = spaceD [OF sp]
  have "pgno q0 \<notin> pgno ` set (x # zs)" using free_not_table [OF sp _ tset_sub [OF i0]] xs by auto
  then obtain t where t: "walk_level h 1 q0 va True s = Some (Some x, t)" "kfree_list h t zs" "only_mem s t" "good_page (kend s) x"
    and nt: "new_table (mem s) q0 (PX 1 va) x (mem t)"
    using walk_level_new [OF _ d(3) sub_aligned [OF i0(2)] _ no, of x zs] d(4) xs by blast
  note en = new_tableD(1) [OF nt] and new = new_tableD(2) [OF nt] and fr = new_tableD(3) [OF nt]
  have s': "s' = t" using w t(1) by simp
  have ys: "ys = zs" using kfree_list_unique [OF _ t(2)] T s' by (auto simp: tbl_def)
  have xa: "unat x mod 4096 = 0" by (rule good_page_aligned [OF t(4)])
  have root: "entry (mem t) pt i = entry (mem s) pt i" if "unat i < 512" for i
    by (rule entry_page [OF wf_root(1) [OF d(5)] that], rule fr)
      (use wf_sub [OF d(5) i0] free_not_table [OF sp _ tset_pt, of x] xs in auto)
  then have sb: "sub (mem t) pt i = sub (mem s) pt i" if "unat i < 512" for i using that by (simp add: sub_entry)
  have mid: "entry (mem t) q j = (if q = q0 \<and> j = PX 1 va then Some (PA2PTE x OR PTE_V) else entry (mem s) q j)"
    if "unat i < 512" "sub (mem s) pt i = Some q" "unat j < 512" for i q j
  proof (cases "q = q0")
    case False
    then have "pgno q \<noteq> pgno q0" using pgno_inj [OF sub_aligned [OF that(2)] sub_aligned [OF i0(2)]] by blast
    then have "entry (mem t) q j = entry (mem s) q j"
      by (intro entry_page [OF sub_aligned [OF that(2)] that(3)] fr) (use free_not_table [OF sp _ tset_sub [OF that(1,2)], of x] xs in auto)
    then show ?thesis using False by simp
  qed (use en that in simp)
  have inn: "inner (kend t) (mem t) pt"
    unfolding inner_def only_mem_sel(1) [OF t(3)]
  proof (intro conjI allI impI, goal_cases)
    case 1
    show ?case by (rule innerD(1) [OF d(2)])
  next
    case (2 i v)
    then show ?case using root [OF 2(1)] innerD(2) [OF d(2) 2(1)] by simp
  next
    case (3 i v)
    then show ?case using root [OF 3(1)] innerD(2) [OF d(2) 3(1)] by simp
  next
    case (4 i q j v)
    then show ?case using sb [OF 4(1)] mid [OF 4(1) _ 4(3)] innerD(3) [OF d(2) 4(1) _ 4(3)] table_flags [OF xa] t(4) by (auto split: if_splits)
  next
    case (5 i q j v)
    then show ?case using sb [OF 5(1)] mid [OF 5(1) _ 5(3)] innerD(3) [OF d(2) 5(1) _ 5(3)] table_flags [OF xa] t(4) by (auto split: if_splits)
  qed
  have lf: "leaf (mem t) pt (i, j) = (if i = i0 \<and> j = PX 1 va then Some x else leaf (mem s) pt (i, j))" if "unat i < 512" "unat j < 512" for i j
  proof (cases "sub (mem s) pt i")
    case None
    then show ?thesis using sb [OF that(1)] i0 by (auto simp: leaf_pair)
  next
    case (Some q)
    have "q = q0 \<longleftrightarrow> i = i0" using wf_sub_inj [OF d(5) that(1) i0(1)] Some i0(2) by auto
    then show ?thesis using sb [OF that(1)] Some mid [OF that(1) Some that(2)] table_flags(2) [OF xa] by (auto simp: leaf_pair sub_entry)
  qed
  have no': "leaf (mem s) pt (i0, PX 1 va) = None" using i0(2) no by (simp add: leaf_pair)
  have "y \<in> tset 2 (mem t) pt \<longleftrightarrow> y \<in> tset 2 (mem s) pt \<or> y = x" for y
  proof -
    have "(\<exists>ij\<in>index_pairs. leaf (mem t) pt ij = Some y) \<longleftrightarrow> (\<exists>ij\<in>index_pairs. leaf (mem s) pt ij = Some y) \<or> y = x"
    proof
      assume "(\<exists>ij\<in>index_pairs. leaf (mem s) pt ij = Some y) \<or> y = x"
      then show "\<exists>ij\<in>index_pairs. leaf (mem t) pt ij = Some y"
      proof (elim disjE bexE)
        fix ij assume ij: "leaf (mem s) pt ij = Some y" "ij \<in> index_pairs"
        obtain i j where e: "ij = (i, j)" "unat i < 512" "unat j < 512" using ij(2) by (auto simp: index_pairs_def)
        have "\<not> (i = i0 \<and> j = PX 1 va)" using no' ij(1) e(1) by auto
        then have "leaf (mem t) pt ij = Some y" using ij(1) lf [OF e(2,3)] unfolding e(1) by presburger
        then show ?thesis using ij(2) by blast
      next
        assume "y = x"
        then show ?thesis using lf [OF i0(1) PX_less, of 1 va] i0(1) PX_less [of 1 va]
          by (intro bexI [of _ "(i0, PX 1 va)"]) (simp_all add: index_pairs_def)
      qed
    qed (use lf in \<open>auto simp: index_pairs_def split: if_splits\<close>)
    moreover have "(\<exists>i. unat i < 512 \<and> sub (mem t) pt i = Some y) \<longleftrightarrow> (\<exists>i. unat i < 512 \<and> sub (mem s) pt i = Some y)" using sb by auto
    ultimately show ?thesis unfolding tset_two_cases by blast
  qed
  moreover have "set xs - set ys = {x}" using kpa.free_distinct [OF d(4)] xs ys by auto
  ultimately show ?thesis using inn t(3) s' by (auto simp: step_ok_def)
qed

text \<open>An operation that builds tables from free pages loses none of them.\<close>

definition built :: "addr \<Rightarrow> 'a kmem_scheme \<Rightarrow> addr list \<Rightarrow> 'a kmem_scheme \<Rightarrow> addr list \<Rightarrow> bool" where
  "built pt s xs s' ys \<longleftrightarrow> only_mem s s' \<and> set ys \<subseteq> set xs \<and> tset 2 (mem s') pt = tset 2 (mem s) pt \<union> (set xs - set ys)
     \<and> (\<forall>b. pgno b \<notin> pgno ` (tset 2 (mem s) pt \<union> set xs) \<longrightarrow> mem s' b = mem s b)"

lemma built_trans:
  assumes "built pt s xs t ys" and "built pt t ys u zs"
  shows "built pt s xs u zs"
proof -
  have "pgno b \<notin> pgno ` (tset 2 (mem t) pt \<union> set ys)" if "pgno b \<notin> pgno ` (tset 2 (mem s) pt \<union> set xs)" for b
    using that assms(1) unfolding built_def by blast
  then have "mem u b = mem s b" if "pgno b \<notin> pgno ` (tset 2 (mem s) pt \<union> set xs)" for b
    using that assms unfolding built_def by metis
  moreover have "tset 2 (mem u) pt = tset 2 (mem s) pt \<union> (set xs - set zs)" "set zs \<subseteq> set xs"
    using assms unfolding built_def by blast+
  ultimately show ?thesis using assms only_mem_trans unfolding built_def by blast
qed

lemma step_built: "step_ok pt s xs s' ys \<Longrightarrow> kept pt s xs s' ys \<Longrightarrow> built pt s xs s' ys"
  unfolding step_ok_def kept_def grown_def built_def tables_tset image_Un by blast

lemma step_space: "space h pt s xs \<Longrightarrow> step_ok pt s xs s' ys \<Longrightarrow> tbl h pt s' ys \<Longrightarrow> space h pt s' ys"
  using only_mem_sel(6) [of s s' h] by (auto simp: step_ok_def space_def)

lemma walk_space:
  fixes s :: "'a kmem_scheme"
  assumes sp: "space h pt s xs" and va: "va < MAXVA"
  shows "\<exists>r s' ys. walk h pt va True s = Some (r, s') \<and> space h pt s' ys \<and> built pt s xs s' ys
    \<and> (\<forall>a. translate (mem s') pt a = translate (mem s) pt a) \<and> length xs \<le> length ys + 2 \<and> (r = 0 \<longrightarrow> length xs < 2)
    \<and> (r \<noteq> 0 \<longrightarrow> (\<exists>q. leaf (mem s') pt (upper va) = Some q \<and> r = pte_at q (PX 0 va)))"
proof -
  note d = spaceD [OF sp]
  obtain r1 s1 y1 where 1: "walk_level h 2 pt va True s = Some (r1, s1)" "tbl h pt s1 y1" "kept pt s xs s1 y1"
    "length xs \<le> Suc (length y1)" "case r1 of None \<Rightarrow> xs = [] | Some q \<Rightarrow> sub (mem s1) pt (PX 2 va) = Some q"
    using walk_level_root [OF d(1), of va] by blast
  have k1: "step_ok pt s xs s1 y1" by (rule level2_ok [OF sp 1(1,2)])
  have sp1: "space h pt s1 y1" by (rule step_space [OF sp k1 1(2)])
  note b1 = step_built [OF k1 1(3)]
  have t1: "\<forall>a. translate (mem s1) pt a = translate (mem s) pt a" using 1(3) by (simp add: kept_def)
  show ?thesis
  proof (cases r1)
    case None
    then have "walk h pt va True s = Some (0, s1)" using 1(1) va by (simp add: walk_def not_le)
    then show ?thesis using None 1(4,5) sp1 b1 t1 by (intro exI [of _ "0 :: addr"] exI [of _ s1] exI [of _ y1]) simp
  next
    case (Some q)
    then have q: "sub (mem s1) pt (PX 2 va) = Some q" using 1(5) by simp
    obtain r2 s2 y2 where 2: "walk_level h 1 q va True s1 = Some (r2, s2)" "tbl h pt s2 y2" "kept pt s1 y1 s2 y2"
      "length y1 \<le> Suc (length y2)" "case r2 of None \<Rightarrow> y1 = [] | Some p \<Rightarrow> leaf (mem s2) pt (PX 2 va, PX 1 va) = Some p"
      using walk_level_middle [OF 1(2) PX_less q, of va] by blast
    have k2: "step_ok pt s1 y1 s2 y2" by (rule level1_ok [OF sp1 PX_less q 2(1,2)])
    have sp2: "space h pt s2 y2" by (rule step_space [OF sp1 k2 2(2)])
    note b2 = built_trans [OF b1 step_built [OF k2 2(3)]]
    have t2: "\<forall>a. translate (mem s2) pt a = translate (mem s) pt a" using 2(3) t1 by (simp add: kept_def)
    show ?thesis
    proof (cases r2)
      case None
      then have "walk h pt va True s = Some (0, s2)" using 1(1) 2(1) Some va by (simp add: walk_def not_le)
      then show ?thesis using None 1(4) 2(4,5) sp2 b2 t2 by (intro exI [of _ "0 :: addr"] exI [of _ s2] exI [of _ y2]) simp
    next
      case (Some p)
      then have w: "walk h pt va True s = Some (pte_at p (PX 0 va), s2)" using 1(1) 2(1) \<open>r1 = Some q\<close> va by (simp add: walk_def not_le)
      have lf: "leaf (mem s2) pt (upper va) = Some p" using 2(5) Some by (simp add: upper_def)
      have "pgno p \<noteq> 0" using wf_leaf [OF spaceD(5) [OF sp2] upper_pairs lf] by (auto simp: free_pages_def)
      then have "pte_at p (PX 0 va) \<noteq> 0" by (rule pte_nonzero [OF leaf_aligned [OF lf] _ PX_less])
      then show ?thesis using w lf 1(4) 2(4) sp2 b2 t2 by (intro exI [of _ "pte_at p (PX 0 va)"] exI [of _ s2] exI [of _ y2]) simp
    qed
  qed
qed

text \<open>Mapping one page: it succeeds, or there were fewer than two free pages; in both cases no page is lost.\<close>

lemma mappages_page:
  fixes s :: "'a kmem_scheme"
  assumes sp: "space h pt s xs" and a: "unat a mod 4096 = 0" "a < MAXVA" and no: "translate (mem s) pt a = None"
  shows "\<exists>r s' ys. mappages h pt a PGSIZE pa perm s = Some (r, s') \<and> space h pt s' ys \<and> built pt s xs s' ys \<and> length xs \<le> length ys + 2
    \<and> (r = 0 \<or> r = -1 \<and> length xs < 2)
    \<and> (\<forall>va. translate (mem s') pt va = (if r = 0 \<and> vpn va = vpn a then Some (PA2PTE pa OR perm OR PTE_V) else translate (mem s) pt va))"
proof -
  have pg: "pgno (a + PGSIZE - 1) = pgno a"
    using pgno_offset [OF a(1), of 4095] by (simp add: PGSIZE_def algebra_simps)
  have al: "unat a = pgno a * 4096" using a(1) by (auto simp: pgno_def)
  have fst: "PGROUNDDOWN a = a" using pgno_PGROUNDDOWN(2) [of a] al by (metis unat_inject)
  have lst: "PGROUNDDOWN (a + PGSIZE - 1) = a" using pgno_PGROUNDDOWN(2) [of "a + PGSIZE - 1"] pg al by (metis unat_inject)
  obtain r s1 ys where w: "walk h pt a True s = Some (r, s1)" "space h pt s1 ys" "built pt s xs s1 ys"
    "\<forall>b. translate (mem s1) pt b = translate (mem s) pt b" "length xs \<le> length ys + 2" "r = 0 \<longrightarrow> length xs < 2"
    "r \<noteq> 0 \<longrightarrow> (\<exists>q. leaf (mem s1) pt (upper a) = Some q \<and> r = pte_at q (PX 0 a))"
    using walk_space [OF sp a(2)] by blast
  have m: "mappages h pt a PGSIZE pa perm s = mappages_loop h pt a a pa perm s" using fst lst by (simp add: mappages_def PGSIZE_def)
  show ?thesis
  proof (cases "r = 0")
    case True
    then have "mappages h pt a PGSIZE pa perm s = Some (-1, s1)" unfolding m by (subst mappages_loop.simps) (simp add: w(1))
    then show ?thesis using True w by (intro exI [of _ "-1 :: int"] exI [of _ s1] exI [of _ ys]) simp
  next
    case False
    then obtain q where q: "leaf (mem s1) pt (upper a) = Some q" "r = pte_at q (PX 0 a)" using w(7) by blast
    let ?v = "PA2PTE pa OR perm OR PTE_V" and ?s = "s1\<lparr>mem := st64 r (PA2PTE pa OR perm OR PTE_V) (mem s1)\<rparr>"
    have "translate (mem s1) pt a = None" using no w(4) by simp
    then have "entry (mem s1) q (PX 0 a) = None" using q(1) by (simp add: translate_def)
    then have "mappages h pt a PGSIZE pa perm s = Some (0, ?s)"
      unfolding m by (subst mappages_loop.simps) (use False w(1) in \<open>simp add: q(2) entry_None_iff Let_def\<close>)
    moreover note st = space_store [OF w(2) q(1), where v = ?v, folded q(2)]
    have "built pt s1 ys ?s ys"
      unfolding built_def using st(3,5) tset_same [OF spaceD(2) [OF w(2)] _ st(2)] spaceD(2) [OF st(1)] unfolding tables_tset image_Un by simp
    then have "built pt s xs ?s ys" by (rule built_trans [OF w(3)])
    moreover have "?v AND PTE_V \<noteq> 0" using valid_or [of "PA2PTE pa OR perm"] by (simp add: or.assoc)
    then have "\<forall>va. translate (mem ?s) pt va = (if vpn va = vpn a then Some ?v else translate (mem s) pt va)" using st(4) w(4) by simp
    ultimately show ?thesis using w(5) st(1) by (intro exI [of _ "0 :: int"] exI [of _ ?s] exI [of _ ys]) simp
  qed
qed

lemma uvmcreate_space:
  fixes s :: "'a kmem_scheme"
  assumes L: "kfree_list h s (x # ys)" and t: "touch h s = s"
  shows "\<exists>s'. uvmcreate h s = Some (x, s') \<and> space h x s' ys \<and> only_mem s s' \<and> tset 2 (mem s') x = {x} \<and> (\<forall>va. translate (mem s') x va = None)
    \<and> (\<forall>b. pgno b \<noteq> pgno x \<longrightarrow> mem s' b = mem s b)"
proof -
  have x: "x \<noteq> 0" "freelist s = x" "good_page (kend s) x" "mem_ready h s" "distinct (x # ys)"
    using L kpa.free_distinct [OF L] by (auto simp: kfree_list_def free_inv_def)
  have al: "unat x mod 4096 = 0" by (rule good_page_aligned [OF x(3)])
  obtain s1 where s1: "kalloc h s = Some (x, s1)" "kfree_list h s1 ys" "\<And>a. pgno a \<noteq> pgno x \<Longrightarrow> mem s1 a = mem s a"
    using kpa.alloc_some [OF L] by blast
  have om: "only_mem s s1" using s1(1) kalloc_spec [OF x(4)] x(1,2) t by (auto simp: only_mem_def)
  let ?s = "s1\<lparr>mem := memset x 0 (unat PGSIZE) (mem s1)\<rparr>"
  have gy: "good_page (kend s) y" if "y \<in> set ys" for y using kpa.free_page [OF L, of y] that by (simp add: kpage_def)
  have xy: "pgno x \<notin> pgno ` set ys" by (rule pages_apart [OF x(3)]) (use x(5) gy in auto)
  have z: "mem ?s b = mem s1 b" if "pgno b \<noteq> pgno x" for b using filled_page [OF al that] by simp
  have z0: "mem ?s b = 0" if "pgno b = pgno x" for b using zero_page [OF al that] by simp
  have x0: "pgno x \<notin> free_pages ys" using xy pgno_inj [OF al, of 0] x(1) by (auto simp: free_pages_def pgno_def)
  note e = empty_table [OF al x0 z0]
  have no: "entry (mem ?s) x i = None" if "unat i < 512" for i by (rule entry_zero [OF al that z0])
  have "memset x 0 (unat PGSIZE) (mem s1) b = mem s1 b" if "pgno b \<in> pgno ` set ys" for b
    by (rule filled_page [OF al]) (use that xy in metis)
  then have "kfree_list h ?s ys" by (rule kfree_list_mem [OF s1(2)])
  then have "tbl h x ?s ys" using e(1) by (simp add: tbl_def)
  moreover have "inner (kend ?s) (mem ?s) x" using no x(3) only_mem_sel(1) [OF om] unfolding inner_def by (auto simp: sub_entry)
  moreover have om': "only_mem s ?s" by (rule only_mem_trans [OF om only_mem_store])
  ultimately have "space h x ?s ys" using only_mem_sel(6) [OF om' t] by (simp add: space_def)
  moreover have "tset 2 (mem ?s) x = {x}"
  proof -
    have "y = x" if "y \<in> tset 2 (mem ?s) x" for y
      using that no unfolding tset_two_cases by (auto simp: index_pairs_def leaf_pair sub_entry)
    then show ?thesis using tset_pt [of x "mem ?s"] by blast
  qed
  moreover have "uvmcreate h s = Some (x, ?s)" using s1(1) x(1) by (simp add: uvmcreate_def)
  ultimately show ?thesis using om' e(2) z s1(3) by (intro exI [of _ ?s]) simp
qed

text \<open>Writing outside the free pages leaves the free list as it is.\<close>

lemma free_inv_user:
  assumes "free_inv s ps" and "\<forall>a. a \<notin> U \<longrightarrow> m a = mem s a" and "\<forall>a\<in>U. pgno a \<notin> pgno ` set ps"
  shows "free_inv (s\<lparr>mem := m\<rparr>) ps"
proof -
  have "ld64 x (mem s) = ld64 x m" if x: "x \<in> set ps" for x
  proof (rule ld64_page)
    show "unat x mod 4096 = 0" using assms(1) x by (auto simp: free_inv_def good_page_def aligned_unat)
    show "mem s a = m a" if "pgno a = pgno x" for a using that assms(2,3) x by fastforce
  qed
  then show ?thesis using assms(1) chain_cong [of ps "mem s" m "freelist s"] by (simp add: free_inv_def)
qed

end
