(* ===== verification/Procs.thy ===== *)
theory Procs
  imports File Dir Vmfree
begin

text \<open>
  The part of \<open>labo2/kernel/proc.c\<close> that creates and ends processes: page tables of processes, \<open>allocproc\<close>,
  \<open>freeproc\<close>, \<open>userinit\<close>, \<open>growproc\<close>, \<open>fork\<close>, \<open>exit\<close> and \<open>wait\<close>. As in theory \<open>File\<close> the functions are followed through
  one kernel thread. \<open>wait\<close> ends with \<open>Done\<close> or goes to sleep; \<open>exit\<close> ends at its switch to the scheduler, from
  which it does not come back. A trap frame is an object found by the address of its page.
\<close>

subsection \<open>Page tables of processes\<close>

definition NOFILE :: nat where "NOFILE = 16"

definition proc_pagetable :: "nat \<Rightarrow> nat \<Rightarrow> 'a kvm_scheme \<Rightarrow> (addr \<times> 'a kvm_scheme) option" where
  "proc_pagetable h p s = do {
     (pagetable, s) \<leftarrow> uvmcreate h s;
     if pagetable = 0 then Some (0, s)
     else do {
       (r, s) \<leftarrow> mappages h pagetable TRAMPOLINE PGSIZE (trampoline s) (PTE_R OR PTE_X) s;
       if r < 0 then do { s \<leftarrow> uvmfree h pagetable 0 s; Some (0, s) }
       else do {
         (r, s) \<leftarrow> mappages h pagetable TRAPFRAME PGSIZE (p_trapframe (procs s p)) (PTE_R OR PTE_W) s;
         if r < 0 then do {
           s \<leftarrow> uvmunmap h pagetable TRAMPOLINE 1 False s;
           s \<leftarrow> uvmfree h pagetable 0 s;
           Some (0, s) }
         else Some (pagetable, s) } } }"

definition proc_freepagetable :: "nat \<Rightarrow> addr \<Rightarrow> uint64 \<Rightarrow> 'a kmem_scheme \<Rightarrow> 'a kmem_scheme option" where
  "proc_freepagetable h pagetable sz s = do {
     s \<leftarrow> uvmunmap h pagetable TRAMPOLINE 1 False s;
     s \<leftarrow> uvmunmap h pagetable TRAPFRAME 1 False s;
     uvmfree h pagetable sz s }"

subsection \<open>Entries of the process table\<close>

definition freeproc :: "nat \<Rightarrow> nat \<Rightarrow> 'a kmem_scheme \<Rightarrow> 'a kmem_scheme option" where
  "freeproc h p s = do {
     s \<leftarrow> (if p_trapframe (procs s p) \<noteq> 0 then kfree h (p_trapframe (procs s p)) s else Some s);
     let s = upd_proc p (\<lambda>q. q\<lparr>p_trapframe := 0\<rparr>) s;
     s \<leftarrow> (if p_pagetable (procs s p) \<noteq> 0 then proc_freepagetable h (p_pagetable (procs s p)) (p_sz (procs s p)) s else Some s);
     Some (upd_proc p (\<lambda>q. q\<lparr>p_pagetable := 0, p_sz := 0, p_pid := 0, p_parent := None, p_name := [], p_chan := None,
       p_killed := 0, p_xstate := 0, p_state := UNUSED\<rparr>) s) }"

text \<open>The search of \<open>allocproc\<close>, which keeps the lock of the entry it finds.\<close>

fun allocproc_find :: "nat \<Rightarrow> nat list \<Rightarrow> 'a kproc_scheme \<Rightarrow> (nat option \<times> 'a kproc_scheme) option" where
  "allocproc_find h [] s = Some (None, s)"
| "allocproc_find h (p # ps) s = do {
     s \<leftarrow> acquire h (proc_lock p) s;
     if p_state (procs s p) = UNUSED then Some (Some p, s)
     else do {
       s \<leftarrow> release h (proc_lock p) s;
       allocproc_find h ps s } }"

definition context0 :: kcontext where
  "context0 = \<lparr>ctx_ra = 0, ctx_sp = 0, ctx_s0 = 0, ctx_s1 = 0, ctx_s2 = 0, ctx_s3 = 0, ctx_s4 = 0, ctx_s5 = 0,
     ctx_s6 = 0, ctx_s7 = 0, ctx_s8 = 0, ctx_s9 = 0, ctx_s10 = 0, ctx_s11 = 0\<rparr>"

text \<open>\<open>forkret\<close> is the address of the function of that name.\<close>

definition allocproc :: "nat \<Rightarrow> uint64 \<Rightarrow> 'a kvm_scheme \<Rightarrow> (nat option \<times> 'a kvm_scheme) option" where
  "allocproc h forkret s = do {
     (found, s) \<leftarrow> allocproc_find h [0..<NPROC] s;
     case found of None \<Rightarrow> Some (None, s)
     | Some p \<Rightarrow> do {
         (pid, s) \<leftarrow> allocpid h s;
         let s = upd_proc p (\<lambda>q. q\<lparr>p_pid := pid, p_state := USED\<rparr>) s;
         (tf, s) \<leftarrow> kalloc h s;
         let s = upd_proc p (\<lambda>q. q\<lparr>p_trapframe := tf\<rparr>) s;
         if tf = 0 then do {
           s \<leftarrow> freeproc h p s;
           s \<leftarrow> release h (proc_lock p) s;
           Some (None, s) }
         else do {
           (pt, s) \<leftarrow> proc_pagetable h p s;
           let s = upd_proc p (\<lambda>q. q\<lparr>p_pagetable := pt\<rparr>) s;
           if pt = 0 then do {
             s \<leftarrow> freeproc h p s;
             s \<leftarrow> release h (proc_lock p) s;
             Some (None, s) }
           else Some (Some p, upd_proc p (\<lambda>q. q\<lparr>p_context := context0\<lparr>ctx_ra := forkret, ctx_sp := p_kstack q + PGSIZE\<rparr>\<rparr>) s) } } }"

text \<open>\<open>safestrcpy(p->name, t, sizeof(p->name))\<close>: the array has 16 bytes.\<close>

definition proc_name :: "string \<Rightarrow> string" where
  "proc_name t = take 15 (takeWhile (\<lambda>c. c \<noteq> NULc) t)"

subsection \<open>The first process\<close>

definition initcode :: "uchar list" where
  "initcode = [
     0x17, 0x05, 0x00, 0x00, 0x13, 0x05, 0x45, 0x02,
     0x97, 0x05, 0x00, 0x00, 0x93, 0x85, 0x35, 0x02,
     0x93, 0x08, 0x70, 0x00, 0x73, 0x00, 0x00, 0x00,
     0x93, 0x08, 0x20, 0x00, 0x73, 0x00, 0x00, 0x00,
     0xef, 0xf0, 0x9f, 0xff, 0x2f, 0x69, 0x6e, 0x69,
     0x74, 0x00, 0x00, 0x24, 0x00, 0x00, 0x00, 0x00,
     0x00, 0x00, 0x00, 0x00]"

definition upd_tf :: "addr \<Rightarrow> (trapframe \<Rightarrow> trapframe) \<Rightarrow> 'a kproc_scheme \<Rightarrow> 'a kproc_scheme" where
  "upd_tf a f s = s\<lparr>tframes := (tframes s)(a := f (tframes s a))\<rparr>"

text \<open>\<open>code\<close> is the address of the array \<open>initcode\<close>.\<close>

definition userinit :: "nat \<Rightarrow> uint64 \<Rightarrow> addr \<Rightarrow> 'a kfile_scheme \<Rightarrow> 'a kfile_scheme option" where
  "userinit h forkret code s = do {
     (mp, s) \<leftarrow> allocproc h forkret s;
     let s = s\<lparr>initproc := mp\<rparr>;
     p \<leftarrow> mp;
     s \<leftarrow> uvmfirst h (p_pagetable (procs s p)) code (length initcode) s;
     let s = upd_proc p (\<lambda>q. q\<lparr>p_sz := PGSIZE\<rparr>) s;
     let s = upd_tf (p_trapframe (procs s p)) (\<lambda>t. t\<lparr>tf_epc := 0, tf_sp := PGSIZE\<rparr>) s;
     let s = upd_proc p (\<lambda>q. q\<lparr>p_name := proc_name ''initcode''\<rparr>) s;
     (cwd, s) \<leftarrow> namei h [slash] s;
     release h (proc_lock p) (upd_proc p (\<lambda>q. q\<lparr>p_cwd := cwd, p_state := RUNNABLE\<rparr>) s) }"

subsection \<open>Memory of the running process\<close>

definition growproc :: "nat \<Rightarrow> cint \<Rightarrow> 'a kmem_scheme \<Rightarrow> (int \<times> 'a kmem_scheme) option" where
  "growproc h n s = do {
     (mp, s) \<leftarrow> myproc h s;
     p \<leftarrow> mp;
     let sz = p_sz (procs s p);
     if sint n > 0 then do {
       (sz, s) \<leftarrow> uvmalloc h (p_pagetable (procs s p)) sz (sz + scast n) PTE_W s;
       if sz = 0 then Some (-1, s) else Some (0, upd_proc p (\<lambda>q. q\<lparr>p_sz := sz\<rparr>) s) }
     else if sint n < 0 then do {
       (sz, s) \<leftarrow> uvmdealloc h (p_pagetable (procs s p)) sz (sz + scast n) s;
       Some (0, upd_proc p (\<lambda>q. q\<lparr>p_sz := sz\<rparr>) s) }
     else Some (0, upd_proc p (\<lambda>q. q\<lparr>p_sz := sz\<rparr>) s) }"

subsection \<open>Fork\<close>

definition fork_file :: "nat \<Rightarrow> nat \<Rightarrow> nat \<Rightarrow> nat \<Rightarrow> 'a kfile_scheme \<Rightarrow> 'a kfile_scheme option" where
  "fork_file h p np i s =
     (case p_ofile (procs s p) i of None \<Rightarrow> Some s
      | Some f \<Rightarrow> do {
          (f, s) \<leftarrow> filedup h f s;
          Some (upd_proc np (\<lambda>q. q\<lparr>p_ofile := (p_ofile q)(i := Some f)\<rparr>) s) })"

definition fork :: "nat \<Rightarrow> uint64 \<Rightarrow> 'a kfile_scheme \<Rightarrow> (cint \<times> 'a kfile_scheme) option" where
  "fork h forkret s = do {
     (mp, s) \<leftarrow> myproc h s;
     p \<leftarrow> mp;
     (mnp, s) \<leftarrow> allocproc h forkret s;
     case mnp of None \<Rightarrow> Some (-1, s)
     | Some np \<Rightarrow> do {
         (r, s) \<leftarrow> uvmcopy h (p_pagetable (procs s p)) (p_pagetable (procs s np)) (p_sz (procs s p)) s;
         if r < 0 then do {
           s \<leftarrow> freeproc h np s;
           s \<leftarrow> release h (proc_lock np) s;
           Some (-1, s) }
         else do {
           let s = upd_proc np (\<lambda>q. q\<lparr>p_sz := p_sz (procs s p)\<rparr>) s;
           let s = upd_tf (p_trapframe (procs s np)) (\<lambda>_. (tframes s (p_trapframe (procs s p)))\<lparr>tf_a0 := 0\<rparr>) s;
           s \<leftarrow> forM (fork_file h p np) [0..<NOFILE] s;
           cwd \<leftarrow> p_cwd (procs s p);
           (cwd, s) \<leftarrow> idup h cwd s;
           let s = upd_proc np (\<lambda>q. q\<lparr>p_cwd := Some cwd, p_name := proc_name (p_name (procs s p))\<rparr>) s;
           let pid = p_pid (procs s np);
           s \<leftarrow> release h (proc_lock np) s;
           s \<leftarrow> acquire h wait_lock s;
           s \<leftarrow> release h wait_lock (upd_proc np (\<lambda>q. q\<lparr>p_parent := Some p\<rparr>) s);
           s \<leftarrow> acquire h (proc_lock np) s;
           s \<leftarrow> release h (proc_lock np) (upd_proc np (\<lambda>q. q\<lparr>p_state := RUNNABLE\<rparr>) s);
           Some (pid, s) } } }"

subsection \<open>Exit\<close>

definition exit_file :: "nat \<Rightarrow> nat \<Rightarrow> nat \<Rightarrow> 'a kfile_scheme \<Rightarrow> 'a kfile_scheme option" where
  "exit_file h p fd s =
     (case p_ofile (procs s p) fd of None \<Rightarrow> Some s
      | Some f \<Rightarrow> do {
          s \<leftarrow> fileclose h f s;
          Some (upd_proc p (\<lambda>q. q\<lparr>p_ofile := (p_ofile q)(fd := None)\<rparr>) s) })"

text \<open>The end of \<open>exit\<close>: from \<open>acquire(&wait_lock)\<close> to the switch.\<close>

definition exit_finish :: "nat \<Rightarrow> nat \<Rightarrow> cint \<Rightarrow> 'a kproc_scheme \<Rightarrow> 'a kproc_scheme option" where
  "exit_finish h p status s = do {
     s \<leftarrow> acquire h wait_lock s;
     s \<leftarrow> reparent h p s;
     s \<leftarrow> wakeup h (map_option chan_proc (p_parent (procs s p))) s;
     s \<leftarrow> acquire h (proc_lock p) s;
     s \<leftarrow> release h wait_lock (upd_proc p (\<lambda>q. q\<lparr>p_xstate := status, p_state := ZOMBIE\<rparr>) s);
     sched_enter h s }"

definition exit :: "nat \<Rightarrow> cint \<Rightarrow> 'a kfile_scheme \<Rightarrow> 'a kfile_scheme option" where
  "exit h status s = do {
     (mp, s) \<leftarrow> myproc h s;
     p \<leftarrow> mp;
     if mp = initproc s then None
     else do {
       s \<leftarrow> forM (exit_file h p) [0..<NOFILE] s;
       s \<leftarrow> start_op h s;
       cwd \<leftarrow> p_cwd (procs s p);
       s \<leftarrow> iput h cwd s;
       s \<leftarrow> end_op h s;
       exit_finish h p status (upd_proc p (\<lambda>q. q\<lparr>p_cwd := None\<rparr>) s) } }"

subsection \<open>Wait\<close>

text \<open>
  The scan of \<open>wait\<close> with \<open>wait_lock\<close> held. The first component is the result when the scan itself returns;
  otherwise the second says whether there are children.
\<close>

fun wait_scan :: "nat \<Rightarrow> nat \<Rightarrow> addr \<Rightarrow> nat list \<Rightarrow> bool \<Rightarrow> 'a kmem_scheme \<Rightarrow> (cint option \<times> bool \<times> 'a kmem_scheme) option" where
  "wait_scan h p addr [] havekids s = Some (None, havekids, s)"
| "wait_scan h p addr (pp # pps) havekids s =
     (if p_parent (procs s pp) = Some p then
        Option.bind (acquire h (proc_lock pp) s) (\<lambda>s.
        if p_state (procs s pp) = ZOMBIE then
          let pid = p_pid (procs s pp) in
          Option.bind (if addr \<noteq> 0 then copyout h (p_pagetable (procs s p)) addr (bytes_of 4 (ucast (p_xstate (procs s pp)))) s
                       else Some (0, s)) (\<lambda>(r, s).
          if r < 0 then do {
            s \<leftarrow> release h (proc_lock pp) s;
            s \<leftarrow> release h wait_lock s;
            Some (Some (-1), True, s) }
          else do {
            s \<leftarrow> freeproc h pp s;
            s \<leftarrow> release h (proc_lock pp) s;
            s \<leftarrow> release h wait_lock s;
            Some (Some pid, True, s) })
        else Option.bind (release h (proc_lock pp) s) (\<lambda>s. wait_scan h p addr pps True s))
      else wait_scan h p addr pps havekids s)"

definition wait_loop :: "nat \<Rightarrow> nat \<Rightarrow> addr \<Rightarrow> 'a kmem_scheme \<Rightarrow> (cint, unit, 'a kmem_scheme) progress option" where
  "wait_loop h p addr s = do {
     (ret, havekids, s) \<leftarrow> wait_scan h p addr [0..<NPROC] False s;
     case ret of Some r \<Rightarrow> Some (Done r s)
     | None \<Rightarrow> do {
         (k, s) \<leftarrow> (if havekids then killed h p s else Some (0, s));
         if \<not> havekids \<or> k \<noteq> 0 then do {
           s \<leftarrow> release h wait_lock s;
           Some (Done (-1) s) }
         else do {
           s \<leftarrow> sleep_enter h (Some (chan_proc p)) wait_lock s;
           Some (Asleep () s) } } }"

definition wait :: "nat \<Rightarrow> addr \<Rightarrow> 'a kmem_scheme \<Rightarrow> (cint, unit, 'a kmem_scheme) progress option" where
  "wait h addr s = do {
     (mp, s) \<leftarrow> myproc h s;
     p \<leftarrow> mp;
     s \<leftarrow> acquire h wait_lock s;
     wait_loop h p addr s }"

definition wait_resume :: "nat \<Rightarrow> nat \<Rightarrow> addr \<Rightarrow> 'a kmem_scheme \<Rightarrow> (cint, unit, 'a kmem_scheme) progress option" where
  "wait_resume h p addr s = do {
     s \<leftarrow> sleep_exit h p wait_lock s;
     wait_loop h p addr s }"

subsection \<open>The pages of a process\<close>

text \<open>
  A page table as \<open>proc_pagetable\<close> makes it, with \<open>n\<close> pages of user memory: trampoline and trap frame are mapped at
  the top, the user pages at the bottom, and nothing else.
\<close>

definition proc_mem :: "nat \<Rightarrow> addr \<Rightarrow> nat \<Rightarrow> 'a kmem_scheme \<Rightarrow> addr list \<Rightarrow> bool" where
  "proc_mem h pt n s xs \<longleftrightarrow> user_mem h pt n {pgno TRAMPOLINE, pgno TRAPFRAME} s xs \<and> n \<le> pgno TRAPFRAME
     \<and> leaf_at (mem s) pt TRAMPOLINE \<and> leaf_at (mem s) pt TRAPFRAME"

lemma top_pages: "unat TRAMPOLINE = 0x3FFFFFF000" "unat TRAPFRAME = 0x3FFFFFE000"
  "pgno TRAMPOLINE = 0x3FFFFFF" "pgno TRAPFRAME = 0x3FFFFFE" "vpn TRAMPOLINE = 0x3FFFFFF" "vpn TRAPFRAME = 0x3FFFFFE"
  "TRAMPOLINE < MAXVA" "TRAPFRAME < MAXVA" "TRAMPOLINE mod PGSIZE = 0" "TRAPFRAME mod PGSIZE = 0"
  by (simp_all add: TRAMPOLINE_def TRAPFRAME_def MAXVA_def PGSIZE_def pgno_def vpn_def)

text \<open>Unmapping one page without freeing it.\<close>

lemma unmap_page:
  fixes s :: "'a kmem_scheme"
  assumes sp: "space h pt s xs" and a: "unat a + 4096 \<le> 2 ^ 38" "a mod PGSIZE = 0" and lf: "leaf_at (mem s) pt a"
  shows "\<exists>s' ys. uvmunmap h pt a 1 False s = Some s' \<and> unmapped_to h pt {pgno a} {} xs s ys s'"
proof -
  have "\<exists>s' ys. uvmunmap_loop h pt a (a + of_nat 1 * PGSIZE) False s = Some s' \<and> unmapped_to h pt {pgno a..<pgno a + 1}
      (if False then (\<lambda>k. page_of (mem s) pt (a + of_nat k * PGSIZE)) ` {..<1} else {}) xs s ys s'"
    by (rule uvmunmap_loop_spec [OF sp]) (use a lf in simp_all)
  moreover have "{pgno a..<pgno a + 1} = {pgno a}" by auto
  ultimately show ?thesis using a(2) by (simp add: uvmunmap_def)
qed

lemma user_page_vpn: "n * 4096 \<le> 2 ^ 38 \<Longrightarrow> k < n \<Longrightarrow> vpn (0 + of_nat k * PGSIZE) = k"
  using nth_page(3) [of 0 n k] by (simp add: pgno_def)

lemma user_mem_unmap:
  assumes um: "user_mem h pt n V s xs" and u: "unmapped_to h pt {a} {} xs s ys s'" and a: "n \<le> a"
  shows "user_mem h pt n (V - {a}) s' ys" and "user_pages (mem s') pt n = user_pages (mem s) pt n"
    and "tset 2 (mem s') pt = tset 2 (mem s) pt" and "set ys = set xs" and "only_mem s s'"
    and "\<And>va. vpn va \<noteq> a \<Longrightarrow> leaf_at (mem s') pt va = leaf_at (mem s) pt va"
    and "\<And>b. pgno b \<notin> pgno ` tset 2 (mem s) pt \<Longrightarrow> mem s' b = mem s b"
proof -
  have d: "space h pt s xs" "n * 4096 \<le> 2 ^ 38" using um by (simp_all add: user_mem_def)
  show ys: "set ys = set xs" and om: "only_mem s s'" and fr: "\<And>b. pgno b \<notin> pgno ` tset 2 (mem s) pt \<Longrightarrow> mem s' b = mem s b"
    using u unfolding unmapped_to_def tables_tset by auto
  have tr: "translate (mem s') pt va = (if vpn va = a then None else translate (mem s) pt va)" for va
    using u by (auto simp: unmapped_to_def)
  have tb: "tables (mem s') pt = tables (mem s) pt" and sp': "space h pt s' ys" using u by (auto simp: unmapped_to_def)
  show ts: "tset 2 (mem s') pt = tset 2 (mem s) pt"
    by (rule tset_same [OF spaceD(2) [OF d(1)] _ tb]) (use spaceD(2) [OF sp'] only_mem_sel(1) [OF om] in simp)
  show lf: "leaf_at (mem s') pt va = leaf_at (mem s) pt va" if "vpn va \<noteq> a" for va using that by (simp add: leaf_at_def tr)
  have v: "vpn (0 + of_nat k * PGSIZE) \<noteq> a" if "k < n" for k using user_page_vpn [OF d(2) that] a that by simp
  then have pg: "page_of (mem s') pt (0 + of_nat k * PGSIZE) = page_of (mem s) pt (0 + of_nat k * PGSIZE)" if "k < n" for k
    using that by (simp add: page_of_def tr)
  show "user_pages (mem s') pt n = user_pages (mem s) pt n" unfolding user_pages_def by (rule image_cong [OF refl pg]) simp
  have "inj_on (\<lambda>k. page_of (mem s') pt (0 + of_nat k * PGSIZE)) {..<n} = inj_on (\<lambda>k. page_of (mem s) pt (0 + of_nat k * PGSIZE)) {..<n}"
    by (rule inj_on_cong) (use pg in simp)
  moreover have "own pt s' ys p = own pt s xs p" for p using only_mem_sel(1) [OF om] tb ys by (simp add: own_def)
  moreover have "\<forall>va. translate (mem s') pt va \<noteq> None \<longrightarrow> vpn va < n \<or> vpn va \<in> V - {a}"
    using um unfolding user_mem_def tr by auto
  ultimately show "user_mem h pt n (V - {a}) s' ys"
    using um sp' lf v pg unfolding user_mem_def by simp
qed

lemma proc_freepagetable_ok:
  fixes s :: "'a kmem_scheme"
  assumes pm: "proc_mem h pt n s xs" and n: "n = unat (PGROUNDUP sz) div 4096"
  shows "\<exists>s'. proc_freepagetable h pt sz s = Some s' \<and> freed h (tset 2 (mem s) pt \<union> user_pages (mem s) pt n) xs s s'"
proof -
  have um: "user_mem h pt n {pgno TRAMPOLINE, pgno TRAPFRAME} s xs" and np: "n \<le> pgno TRAPFRAME" "n \<le> pgno TRAMPOLINE"
    and lf: "leaf_at (mem s) pt TRAMPOLINE" "leaf_at (mem s) pt TRAPFRAME" and sp: "space h pt s xs"
    using pm by (simp_all add: proc_mem_def user_mem_def top_pages)
  obtain s1 ys where 1: "uvmunmap h pt TRAMPOLINE 1 False s = Some s1" "unmapped_to h pt {pgno TRAMPOLINE} {} xs s ys s1"
    using unmap_page [OF sp _ top_pages(9) lf(1)] by (auto simp: top_pages)
  note u1 = user_mem_unmap [OF um 1(2) np(2)]
  have lf1: "leaf_at (mem s1) pt TRAPFRAME" using u1(6) [of TRAPFRAME] lf(2) by (simp add: top_pages)
  have sp1: "space h pt s1 ys" using u1(1) by (simp add: user_mem_def)
  obtain s2 zs where 2: "uvmunmap h pt TRAPFRAME 1 False s1 = Some s2" "unmapped_to h pt {pgno TRAPFRAME} {} ys s1 zs s2"
    using unmap_page [OF sp1 _ top_pages(10) lf1] by (auto simp: top_pages)
  note u2 = user_mem_unmap [OF u1(1) 2(2) np(1)]
  have "user_mem h pt n {} s2 zs" using u2(1) by (simp add: top_pages insert_Diff_if)
  from uvmfree_ok [OF this n] obtain s' where s': "uvmfree h pt sz s2 = Some s'" "freed h (tset 2 (mem s2) pt \<union> user_pages (mem s2) pt n) zs s2 s'"
    by blast
  have "freed h (tset 2 (mem s) pt \<union> user_pages (mem s) pt n) xs s s'"
    using s'(2) u1(2-5,7) u2(2-5,7) only_mem_trans [OF u1(5) only_mem_trans [OF u2(5)]] unfolding freed_def image_Un by auto
  then show ?thesis using 1(1) 2(1) s'(1) by (simp add: proc_freepagetable_def)
qed

lemma built_pages: "built pt s xs s' ys \<Longrightarrow> set ys \<union> tset 2 (mem s') pt = set xs \<union> tset 2 (mem s) pt"
  unfolding built_def by blast

lemma flags_leaf: "PTE_FLAGS (PA2PTE pa OR (PTE_R OR f) OR PTE_V) \<noteq> PTE_V"
proof -
  have "bit (PTE_FLAGS (PA2PTE pa OR (PTE_R OR f) OR PTE_V)) 1"
    by (simp add: PTE_FLAGS_def PTE_R_def bit_simps)
  moreover have "\<not> bit PTE_V 1" by (simp add: PTE_V_def bit_simps)
  ultimately show ?thesis by metis
qed

lemma only_mem_kvm: "only_mem s s' \<Longrightarrow> trampoline s' = trampoline s" for s :: "'a kvm_scheme"
  by (auto simp: only_mem_def with_mem_def)

lemma user_mem_empty: "space h pt s xs \<Longrightarrow> (\<And>va. translate (mem s) pt va \<noteq> None \<Longrightarrow> vpn va \<in> V) \<Longrightarrow> user_mem h pt 0 V s xs"
  by (auto simp: user_mem_def)

lemma no_user_pages [simp]: "user_pages m pt 0 = {}"
  by (simp add: user_pages_def)

text \<open>\<open>proc_pagetable\<close> either builds the page table from free pages or, when they run out, gives all of them back.\<close>

definition returned :: "nat \<Rightarrow> addr list \<Rightarrow> 'a kmem_scheme \<Rightarrow> 'a kmem_scheme \<Rightarrow> bool" where
  "returned h xs s s' \<longleftrightarrow> (\<exists>ys. kfree_list h s' ys \<and> set ys = set xs) \<and> only_mem s s' \<and> (\<forall>b. pgno b \<notin> pgno ` set xs \<longrightarrow> mem s' b = mem s b)"

lemma freed_returned:
  assumes "freed h T ys t s'" and "only_mem s t" and "set ys \<union> T = set xs" and "\<And>b. pgno b \<notin> pgno ` set xs \<Longrightarrow> mem t b = mem s b"
  shows "returned h xs s s'"
proof -
  obtain zs where z: "kfree_list h s' zs" "set zs = set ys \<union> T" "only_mem t s'" "\<forall>b. pgno b \<notin> pgno ` T \<longrightarrow> mem s' b = mem t b"
    using assms(1) unfolding freed_def by (elim exE conjE)
  have "mem s' b = mem s b" if b: "pgno b \<notin> pgno ` set xs" for b
  proof -
    have "pgno b \<notin> pgno ` T" using b assms(3) by (metis image_Un UnCI)
    then show ?thesis using z(4) assms(4) [OF b] by simp
  qed
  then show ?thesis using z(1,2) assms(3) only_mem_trans [OF assms(2) z(3)] unfolding returned_def by (intro conjI exI [of _ zs]) simp_all
qed

lemma PGROUNDUP_0: "unat (PGROUNDUP 0) div 4096 = 0"
  by (simp add: PGROUNDUP_def PGSIZE_def)

definition proc_built :: "nat \<Rightarrow> nat \<Rightarrow> addr \<Rightarrow> 'a kvm_scheme \<Rightarrow> addr list \<Rightarrow> 'a kvm_scheme \<Rightarrow> addr list \<Rightarrow> bool" where
  "proc_built h p pt s xs s' ys \<longleftrightarrow> proc_mem h pt 0 s' ys \<and> set ys \<union> tset 2 (mem s') pt = set xs \<and> only_mem s s'
     \<and> (\<forall>b. pgno b \<notin> pgno ` set xs \<longrightarrow> mem s' b = mem s b)
     \<and> translate (mem s') pt TRAMPOLINE = Some (PA2PTE (trampoline s) OR (PTE_R OR PTE_X) OR PTE_V)
     \<and> translate (mem s') pt TRAPFRAME = Some (PA2PTE (p_trapframe (procs s p)) OR (PTE_R OR PTE_W) OR PTE_V)"

lemma proc_pagetable_ok:
  fixes s :: "'a kvm_scheme"
  assumes L: "kfree_list h s xs" and t: "touch h s = s"
  shows "\<exists>pt s'. proc_pagetable h p s = Some (pt, s') \<and> (if pt = 0 then length xs < 5 \<and> returned h xs s s' else \<exists>ys. proc_built h p pt s xs s' ys)"
proof (cases xs)
  case Nil
  have "freelist s = 0" "mem_ready h s" using L Nil by (auto simp: kfree_list_def free_inv_def)
  then have "uvmcreate h s = Some (0, s)" using kalloc_spec [of h s] t by (simp add: uvmcreate_def)
  moreover have "returned h xs s s" using L by (auto simp: returned_def)
  ultimately show ?thesis using Nil by (simp add: proc_pagetable_def)
next
  case (Cons x y0)
  obtain s1 where s1: "uvmcreate h s = Some (x, s1)" "space h x s1 y0" "only_mem s s1" "tset 2 (mem s1) x = {x}"
    "\<forall>va. translate (mem s1) x va = None" "\<forall>b. pgno b \<noteq> pgno x \<longrightarrow> mem s1 b = mem s b"
    using uvmcreate_space [OF L [unfolded Cons] t] by blast
  have x: "x \<noteq> 0" using kpa.free_page [OF L, of x] Cons by simp
  have al: "unat TRAMPOLINE mod 4096 = 0" "unat TRAPFRAME mod 4096 = 0" by (simp_all add: top_pages)
  have sv: "trampoline s1 = trampoline s" "p_trapframe (procs s1 p) = p_trapframe (procs s p)" using only_mem_kvm [OF s1(3)] only_mem_sel(2) [OF s1(3)] by simp_all
  let ?e1 = "PA2PTE (trampoline s) OR (PTE_R OR PTE_X) OR PTE_V" and ?e2 = "PA2PTE (p_trapframe (procs s p)) OR (PTE_R OR PTE_W) OR PTE_V"
  obtain r2 s2 y2 where 2: "mappages h x TRAMPOLINE PGSIZE (trampoline s) (PTE_R OR PTE_X) s1 = Some (r2, s2)" "space h x s2 y2" "built x s1 y0 s2 y2"
    "length y0 \<le> length y2 + 2" "r2 = 0 \<or> r2 = -1 \<and> length y0 < 2"
    "\<forall>va. translate (mem s2) x va = (if r2 = 0 \<and> vpn va = vpn TRAMPOLINE then Some ?e1 else translate (mem s1) x va)"
    using mappages_page [OF s1(2) al(1) top_pages(7) s1(5) [rule_format], of "trampoline s" "PTE_R OR PTE_X"] by (elim exE conjE)
  have om2: "only_mem s s2" using 2(3) only_mem_trans [OF s1(3)] by (simp add: built_def)
  have pg2: "set y2 \<union> tset 2 (mem s2) x = set xs" using built_pages [OF 2(3)] s1(4) Cons by auto
  have fr2: "mem s2 b = mem s b" if "pgno b \<notin> pgno ` set xs" for b
    using 2(3) s1(4,6) that Cons unfolding built_def by simp
  have sv2: "p_trapframe (procs s2 p) = p_trapframe (procs s p)" using only_mem_sel(2) [OF om2] by simp
  show ?thesis
  proof (cases "r2 = 0")
    case False
    have "user_mem h x 0 {} s2 y2" by (rule user_mem_empty [OF 2(2)]) (use 2(6) s1(5) False in simp)
    from uvmfree_ok [OF this, of 0] obtain s' where s': "uvmfree h x 0 s2 = Some s'" "freed h (tset 2 (mem s2) x) y2 s2 s'" by (auto simp: PGROUNDUP_0)
    have "proc_pagetable h p s = Some (0, s')" using s1(1) x sv(1) 2(1,5) False s'(1) by (auto simp: proc_pagetable_def)
    moreover have "returned h xs s s'" by (rule freed_returned [OF s'(2) om2 pg2 fr2])
    ultimately show ?thesis using 2(5) False Cons by auto
  next
    case True
    have no: "translate (mem s2) x TRAPFRAME = None" using 2(6) s1(5) by (simp add: top_pages)
    obtain r3 s3 y3 where 3: "mappages h x TRAPFRAME PGSIZE (p_trapframe (procs s p)) (PTE_R OR PTE_W) s2 = Some (r3, s3)" "space h x s3 y3" "built x s2 y2 s3 y3"
      "r3 = 0 \<or> r3 = -1 \<and> length y2 < 2"
      "\<forall>va. translate (mem s3) x va = (if r3 = 0 \<and> vpn va = vpn TRAPFRAME then Some ?e2 else translate (mem s2) x va)"
      using mappages_page [OF 2(2) al(2) top_pages(8) no, of "p_trapframe (procs s p)" "PTE_R OR PTE_W"] by (elim exE conjE)
    have om3: "only_mem s s3" using 3(3) only_mem_trans [OF om2] by (simp add: built_def)
    have pg3: "set y3 \<union> tset 2 (mem s3) x = set xs" using built_pages [OF 3(3)] pg2 by simp
    have fr3: "mem s3 b = mem s b" if "pgno b \<notin> pgno ` set xs" for b
      using 3(3) pg2 fr2 [OF that] that unfolding built_def by (metis Un_commute)
    have tr3: "translate (mem s3) x va = (if r3 = 0 \<and> vpn va = vpn TRAPFRAME then Some ?e2 else if vpn va = vpn TRAMPOLINE then Some ?e1 else None)" for va
      using 3(5) 2(6) s1(5) True by simp
    have lf: "leaf_at (mem s3) x TRAMPOLINE" using flags_leaf by (simp add: leaf_at_def tr3 top_pages)
    show ?thesis
    proof (cases "r3 = 0")
      case False
      have um: "user_mem h x 0 {pgno TRAMPOLINE} s3 y3" by (rule user_mem_empty [OF 3(2)]) (use tr3 False in \<open>auto simp: top_pages split: if_splits\<close>)
      obtain s4 y4 where 4: "uvmunmap h x TRAMPOLINE 1 False s3 = Some s4" "unmapped_to h x {pgno TRAMPOLINE} {} y3 s3 y4 s4"
        using unmap_page [OF 3(2) _ top_pages(9) lf] by (auto simp: top_pages)
      note u = user_mem_unmap [OF um 4(2)]
      have "user_mem h x 0 {} s4 y4" using u(1) by simp
      from uvmfree_ok [OF this, of 0] obtain s' where s': "uvmfree h x 0 s4 = Some s'" "freed h (tset 2 (mem s4) x) y4 s4 s'" by (auto simp: PGROUNDUP_0)
      have "proc_pagetable h p s = Some (0, s')" using s1(1) x sv(1) sv2 2(1) True 3(1,4) False 4(1) s'(1) by (auto simp: proc_pagetable_def)
      moreover have "returned h xs s s'"
      proof (rule freed_returned [OF s'(2)])
        show "only_mem s s4" using only_mem_trans [OF om3] u(5) by simp
        show "set y4 \<union> tset 2 (mem s4) x = set xs" using u(3,4) pg3 by simp
        show "mem s4 b = mem s b" if "pgno b \<notin> pgno ` set xs" for b
        proof -
          have "pgno b \<notin> pgno ` tset 2 (mem s3) x" using that unfolding pg3 [symmetric] image_Un by simp
          then show ?thesis using u(7) fr3 [OF that] by simp
        qed
      qed
      ultimately show ?thesis using 2(4) 3(4) False Cons by auto
    next
      case True
      have "leaf_at (mem s3) x TRAPFRAME" using flags_leaf True by (simp add: leaf_at_def tr3)
      moreover have "user_mem h x 0 {pgno TRAMPOLINE, pgno TRAPFRAME} s3 y3"
        by (rule user_mem_empty [OF 3(2)]) (use tr3 in \<open>auto simp: top_pages split: if_splits\<close>)
      ultimately have "proc_built h p x s xs s3 y3"
        using lf pg3 om3 fr3 tr3 True by (simp add: proc_built_def proc_mem_def top_pages)
      moreover have "proc_pagetable h p s = Some (x, s3)" using s1(1) x sv(1) sv2 2(1) \<open>r2 = 0\<close> 3(1) True by (simp add: proc_pagetable_def)
      ultimately show ?thesis using x by auto
    qed
  qed
qed

subsection \<open>Freeing a process\<close>

definition cleared :: "proc \<Rightarrow> proc" where
  "cleared q = q\<lparr>p_trapframe := 0, p_pagetable := 0, p_sz := 0, p_pid := 0, p_parent := None, p_name := [], p_chan := None,
     p_killed := 0, p_xstate := 0, p_state := UNUSED\<rparr>"

lemma only_mem_upd_proc: "only_mem s s' \<Longrightarrow> only_mem (upd_proc p g s) (upd_proc p g s')"
proof -
  assume "only_mem s s'"
  then obtain m f where "s' = with_mem m f s" by (auto simp: only_mem_def)
  then have "upd_proc p g s' = with_mem m f (upd_proc p g s)" by (simp add: upd_proc_def with_mem_def)
  then show ?thesis unfolding only_mem_def by blast
qed

lemma kmem_upd_proc [simp]: "mem (upd_proc p g s) = mem s" "freelist (upd_proc p g s) = freelist s" "kend (upd_proc p g s) = kend s"
  by (simp_all add: upd_proc_def)

lemma kfree_list_upd_proc [simp]: "kfree_list h (upd_proc p g s) xs = kfree_list h s xs"
  by (simp add: kfree_list_def mem_ready_def hart_ok_def free_lock_def free_inv_def)

lemma touch_upd_proc: "touch h s = s \<Longrightarrow> touch h (upd_proc p g s) = upd_proc p g s"
proof -
  assume "touch h s = s"
  moreover have "touch h (upd_proc p g s) = upd_proc p g (touch h s)" by (simp add: touch_def upd_proc_def)
  ultimately show ?thesis by simp
qed

lemma proc_mem_upd_proc: "proc_mem h pt n s xs \<Longrightarrow> proc_mem h pt n (upd_proc p g s) xs"
  using touch_upd_proc [of h s p g] unfolding proc_mem_def user_mem_def space_def tbl_def own_def by simp

lemma proc_mem_free:
  fixes s :: "'a kmem_scheme"
  assumes pm: "proc_mem h pt n s xs" and p: "good_page (kend s) p" "p \<notin> set xs" "p \<notin> tset 2 (mem s) pt" "p \<notin> user_pages (mem s) pt n"
  shows "\<exists>s'. kfree h p s = Some s' \<and> proc_mem h pt n s' (p # xs) \<and> only_mem s s' \<and> tset 2 (mem s') pt = tset 2 (mem s) pt
    \<and> user_pages (mem s') pt n = user_pages (mem s) pt n \<and> (\<forall>b. pgno b \<noteq> pgno p \<longrightarrow> mem s' b = mem s b)"
proof -
  have um: "user_mem h pt n {pgno TRAMPOLINE, pgno TRAPFRAME} s xs" and sp: "space h pt s xs" using pm by (simp_all add: proc_mem_def user_mem_def)
  note d = spaceD [OF sp]
  have "pgno p \<notin> tables (mem s) pt" unfolding tables_tset by (rule pages_apart [OF p(1,3)]) (rule inner_good [OF d(2)])
  from space_free [OF sp p(1,2) this] obtain s' where s': "kfree h p s = Some s'" "space h pt s' (p # xs)" "only_mem s s'"
    "\<forall>va. translate (mem s') pt va = translate (mem s) pt va" "tables (mem s') pt = tables (mem s) pt"
    "\<forall>b. pgno b \<noteq> pgno p \<longrightarrow> mem s' b = mem s b" by (elim exE conjE)
  have pg: "page_of (mem s') pt = page_of (mem s) pt" and lf: "leaf_at (mem s') pt = leaf_at (mem s) pt" using s'(4) by (simp_all add: page_of_def leaf_at_def fun_eq_iff)
  have up: "user_pages (mem s') pt n = user_pages (mem s) pt n" by (simp add: user_pages_def pg)
  have "own pt s' (p # xs) (page_of (mem s) pt (0 + of_nat k * PGSIZE))" if "k < n" for k
    using um p(4) that s'(5) only_mem_sel(1) [OF s'(3)] unfolding user_mem_def own_def user_pages_def by auto
  then have "user_mem h pt n {pgno TRAMPOLINE, pgno TRAPFRAME} s' (p # xs)"
    using um s'(2,4) unfolding user_mem_def pg lf by simp
  then have "proc_mem h pt n s' (p # xs)" using pm by (simp add: proc_mem_def lf)
  moreover have "tset 2 (mem s') pt = tset 2 (mem s) pt"
    by (rule tset_same [OF d(2) _ s'(5)]) (use spaceD(2) [OF s'(2)] only_mem_sel(1) [OF s'(3)] in simp)
  ultimately show ?thesis using s'(1,3,6) up by blast
qed

text \<open>The three states of an entry that \<open>freeproc\<close> meets: nothing allocated, a trap frame, and a complete process.\<close>

lemma freeproc_nothing:
  "p_trapframe (procs s p) = 0 \<Longrightarrow> p_pagetable (procs s p) = 0 \<Longrightarrow> freeproc h p s = Some (upd_proc p cleared s)"
  by (simp add: freeproc_def cleared_def upd_proc_def Let_def)

lemma freeproc_trapframe:
  fixes s :: "'a kmem_scheme"
  assumes "kfree_list h s xs" and "touch h s = s" and tf: "p_trapframe (procs s p) = tf" "good_page (kend s) tf" "tf \<notin> set xs"
    and pt: "p_pagetable (procs s p) = 0"
  shows "\<exists>s'. freeproc h p s = Some s' \<and> only_mem (upd_proc p cleared s) s' \<and> kfree_list h s' (tf # xs)"
proof -
  obtain t where t: "kfree h tf s = Some t" "kfree_list h t (tf # xs)" "only_mem s t" using kfree_gives [OF assms(1) tf(2,3) assms(2)] by blast
  have "tf \<noteq> 0" using tf(2) by (simp add: good_page_def)
  then have "freeproc h p s = Some (upd_proc p cleared t)"
    using t(1) tf(1) pt only_mem_sel(2) [OF t(3)] by (simp add: freeproc_def cleared_def upd_proc_def Let_def)
  then show ?thesis using t(2) only_mem_upd_proc [OF t(3)] by simp
qed

lemma freeproc_full:
  fixes s :: "'a kmem_scheme"
  assumes pm: "proc_mem h pt n s xs" and n: "n = unat (PGROUNDUP (p_sz (procs s p))) div 4096"
    and tf: "p_trapframe (procs s p) = tf" "good_page (kend s) tf" "tf \<notin> set xs" "tf \<notin> tset 2 (mem s) pt" "tf \<notin> user_pages (mem s) pt n"
    and pt: "p_pagetable (procs s p) = pt"
  shows "\<exists>s' zs. freeproc h p s = Some s' \<and> only_mem (upd_proc p cleared s) s' \<and> kfree_list h s' zs
    \<and> set zs = set xs \<union> {tf} \<union> tset 2 (mem s) pt \<union> user_pages (mem s) pt n
    \<and> (\<forall>b. pgno b \<notin> pgno ` ({tf} \<union> tset 2 (mem s) pt \<union> user_pages (mem s) pt n) \<longrightarrow> mem s' b = mem s b)"
proof -
  obtain t where t: "kfree h tf s = Some t" "proc_mem h pt n t (tf # xs)" "only_mem s t" "tset 2 (mem t) pt = tset 2 (mem s) pt"
    "user_pages (mem t) pt n = user_pages (mem s) pt n" "\<forall>b. pgno b \<noteq> pgno tf \<longrightarrow> mem t b = mem s b"
    using proc_mem_free [OF pm tf(2-5)] by blast
  let ?u = "upd_proc p (\<lambda>q. q\<lparr>p_trapframe := 0\<rparr>) t"
  have pr: "procs t = procs s" by (rule only_mem_sel(2) [OF t(3)])
  obtain v where v: "proc_freepagetable h pt (p_sz (procs s p)) ?u = Some v" "freed h (tset 2 (mem ?u) pt \<union> user_pages (mem ?u) pt n) (tf # xs) ?u v"
    using proc_freepagetable_ok [OF proc_mem_upd_proc [OF t(2)] n] by blast
  obtain zs where z: "kfree_list h v zs" "set zs = set (tf # xs) \<union> (tset 2 (mem s) pt \<union> user_pages (mem s) pt n)" "only_mem ?u v"
    "\<forall>b. pgno b \<notin> pgno ` (tset 2 (mem s) pt \<union> user_pages (mem s) pt n) \<longrightarrow> mem v b = mem t b"
    using v(2) t(4,5) by (auto simp: freed_def)
  then have fr: "\<forall>b. pgno b \<notin> pgno ` ({tf} \<union> tset 2 (mem s) pt \<union> user_pages (mem s) pt n) \<longrightarrow> mem v b = mem s b"
    using t(6) by auto
  have "good_page (kend s) pt" using pm by (simp add: proc_mem_def user_mem_def space_def inner_def)
  then have nz: "tf \<noteq> 0" "pt \<noteq> 0" using tf(2) by (simp_all add: good_page_def)
  have f: "freeproc h p s = Some (upd_proc p cleared v)"
    using t(1) tf(1) pt nz v(1) pr only_mem_sel(2) [OF z(3)] by (simp add: freeproc_def cleared_def upd_proc_def Let_def)
  have "upd_proc p cleared ?u = upd_proc p cleared t" by (simp add: upd_proc_def cleared_def)
  then have "only_mem (upd_proc p cleared s) (upd_proc p cleared v)"
    using only_mem_trans [OF only_mem_upd_proc [OF t(3)]] only_mem_upd_proc [OF z(3), of p cleared] by metis
  then show ?thesis using f z(1,2) fr by (intro exI [of _ "upd_proc p cleared v"] exI [of _ zs]) auto
qed

subsection \<open>Creating a process\<close>

lemma allocproc_find_ok:
  assumes "in_call h me s"
  shows "allocproc_find h ps s = Some (case List.find (\<lambda>p. p_state (procs s p) = UNUSED) ps of None \<Rightarrow> (None, s) | Some p \<Rightarrow> (Some p, within h (proc_lock p) s))"
proof (induction ps)
  case (Cons p ps)
  note d = in_callD [OF assms]
  show ?case using Cons.IH release_section [OF d(1) d(4), of "proc_lock p"] by (simp add: acquire_free [OF d(4)] split: option.splits)
qed simp

lemma allocpid_held:
  assumes "hart_ok h s" and "noff (cpus s h) \<noteq> 0" and "free_lock pid_lock s"
  shows "allocpid h s = Some (nextpid s, s\<lparr>nextpid := nextpid s + 1\<rparr>)"
proof -
  have "keeps_locks (\<lambda>t. t\<lparr>nextpid := nextpid t + 1\<rparr>)" by (simp add: keeps_locks_def)
  from release_after [OF assms(1,3) this] show ?thesis using assms(2) by (simp add: allocpid_def acquire_free [OF assms(3)] Let_def)
qed

text \<open>A state in which the lock of \<open>p\<close> is held and nothing else is different from \<open>s\<close> but processes, identifiers and memory.\<close>

definition holds_proc :: "nat \<Rightarrow> nat \<Rightarrow> 'a kmem_scheme \<Rightarrow> 'a kmem_scheme \<Rightarrow> bool" where
  "holds_proc h p s t \<longleftrightarrow> cpus t = cpus (within h (proc_lock p) s) \<and> sie t = sie (within h (proc_lock p) s)
     \<and> lks t = lks (within h (proc_lock p) s) \<and> kend t = kend s"

lemma holds_proc_mem: "holds_proc h p s t \<Longrightarrow> only_mem t u \<Longrightarrow> holds_proc h p s u"
  and holds_proc_upd: "holds_proc h p s t \<Longrightarrow> holds_proc h p s (upd_proc q g t)"
  using only_mem_sel(1,3-5) [of t u] by (simp_all add: holds_proc_def)

lemma holds_proc_touch:
  assumes "in_call h me s" and "holds_proc h p s t"
  shows "touch h t = t" and "hart_ok h t" and "lk \<noteq> proc_lock p \<Longrightarrow> free_lock lk t" and "noff (cpus t h) \<noteq> 0"
proof -
  have n: "noff (cpus t h) = 1" using assms in_callD(2) [OF assms(1)] by (simp add: holds_proc_def within_def at_rest_def)
  then show "touch h t = t" "noff (cpus t h) \<noteq> 0" by simp_all
  show "hart_ok h t" using n assms(2) by (simp add: hart_ok_def holds_proc_def within_def)
  show "lk \<noteq> proc_lock p \<Longrightarrow> free_lock lk t" using in_callD(4) [OF assms(1), of lk] assms(2) by (simp add: holds_proc_def within_def free_lock_def)
qed

lemma holds_proc_release:
  assumes "in_call h me s" and "holds_proc h p s t"
  shows "\<exists>u. release h (proc_lock p) t = Some u \<and> in_call h me u \<and> procs u = procs t \<and> kend u = kend t
    \<and> (kfree_list h t ys \<longrightarrow> kfree_list h u ys) \<and> mem u = mem t"
proof -
  note d = in_callD [OF assms(1)]
  let ?u = "t\<lparr>cpus := cpus (touch h s), sie := sie s, lks := lks s\<rparr>"
  have "release h (proc_lock p) t = Some ?u"
    by (rule release_within [OF calm_ok [OF d(1)] d(4)]) (use assms(2) in \<open>simp_all add: holds_proc_def\<close>)
  moreover have c: "in_call h me ?u" using assms(1) d(1) by (subst in_call_cong [of _ s]) simp_all
  moreover have "kfree_list h t ys \<longrightarrow> kfree_list h ?u ys"
    using in_call_ready [OF c] by (auto simp: kfree_list_def free_inv_def)
  ultimately show ?thesis by auto
qed

definition entry_clean :: "proc \<Rightarrow> bool" where
  "entry_clean q \<longleftrightarrow> (p_state q = UNUSED \<longrightarrow> p_pagetable q = 0 \<and> p_sz q = 0)"

text \<open>The new process: the state of its entry, its page table and its trap frame, all made from free pages.\<close>

definition fresh_proc :: "nat \<Rightarrow> uint64 \<Rightarrow> nat \<Rightarrow> addr list \<Rightarrow> 'a kvm_scheme \<Rightarrow> 'a kvm_scheme \<Rightarrow> bool" where
  "fresh_proc h forkret p xs s s' \<longleftrightarrow> holds_proc h p s s' \<and> (\<exists>tf pt ys.
     procs s' = (procs s)(p := (procs s p)\<lparr>p_pid := nextpid s, p_state := USED, p_trapframe := tf, p_pagetable := pt,
       p_context := context0\<lparr>ctx_ra := forkret, ctx_sp := p_kstack (procs s p) + PGSIZE\<rparr>\<rparr>)
     \<and> proc_mem h pt 0 s' ys \<and> good_page (kend s) tf \<and> tf \<notin> set ys \<union> tset 2 (mem s') pt
     \<and> set ys \<union> {tf} \<union> tset 2 (mem s') pt = set xs
     \<and> translate (mem s') pt TRAMPOLINE = Some (PA2PTE (trampoline s) OR (PTE_R OR PTE_X) OR PTE_V)
     \<and> translate (mem s') pt TRAPFRAME = Some (PA2PTE tf OR (PTE_R OR PTE_W) OR PTE_V))"

definition no_proc :: "nat \<Rightarrow> nat \<Rightarrow> nat \<Rightarrow> addr list \<Rightarrow> 'a kmem_scheme \<Rightarrow> 'a kmem_scheme \<Rightarrow> bool" where
  "no_proc h me p xs s s' \<longleftrightarrow> in_call h me s' \<and> procs s' = (procs s)(p := cleared (procs s p)) \<and> (\<exists>ys. kfree_list h s' ys \<and> set ys = set xs)"

lemma cleared_absorb [simp]: "cleared (q\<lparr>p_pid := a\<rparr>) = cleared q" "cleared (q\<lparr>p_state := b\<rparr>) = cleared q" "cleared (q\<lparr>p_trapframe := c\<rparr>) = cleared q"
  "cleared (q\<lparr>p_pagetable := d\<rparr>) = cleared q"
  by (simp_all add: cleared_def)

lemma no_procI:
  fixes s t :: "'a kmem_scheme"
  assumes c: "in_call h me s" and hp: "holds_proc h p s t" and f: "freeproc h p t = Some u" "only_mem (upd_proc p cleared t) u"
    and L: "kfree_list h u ys" "set ys = set xs" and pr: "procs t = (procs s)(p := q)" "cleared q = cleared (procs s p)"
  shows "\<exists>s'. Option.bind (freeproc h p t) (\<lambda>s. Option.bind (release h (proc_lock p) s) (\<lambda>s. Some (None, s))) = Some (None :: nat option, s') \<and> no_proc h me p xs s s'"
proof -
  have "holds_proc h p s u" by (rule holds_proc_mem [OF holds_proc_upd [OF hp] f(2)])
  from holds_proc_release [OF c this] obtain v where v: "release h (proc_lock p) u = Some v" "in_call h me v" "procs v = procs u" "kfree_list h v ys"
    using L(1) by blast
  have "procs v = (procs s)(p := cleared (procs s p))" using v(3) only_mem_sel(2) [OF f(2)] pr by simp
  then show ?thesis using f(1) v L(2) by (auto simp: no_proc_def)
qed

lemma allocproc_ok:
  fixes s :: "'a kvm_scheme"
  assumes c: "in_call h me s" and L: "kfree_list h s xs" and p: "List.find (\<lambda>p. p_state (procs s p) = UNUSED) [0..<NPROC] = Some p"
    and cl: "p_pagetable (procs s p) = 0" "p_sz (procs s p) = 0"
  shows "\<exists>r s'. allocproc h forkret s = Some (r, s') \<and> (case r of None \<Rightarrow> length xs < 6 \<and> no_proc h me p xs s s'
    | Some p' \<Rightarrow> p' = p \<and> fresh_proc h forkret p xs s s')"
proof -
  let ?w = "within h (proc_lock p) s"
  let ?a = "upd_proc p (\<lambda>q. q\<lparr>p_pid := nextpid s, p_state := USED\<rparr>) (?w\<lparr>nextpid := nextpid s + 1\<rparr>)"
  have hw: "holds_proc h p s ?w" and ha: "holds_proc h p s ?a" by (simp_all add: holds_proc_def)
  have pid: "allocpid h ?w = Some (nextpid s, ?w\<lparr>nextpid := nextpid s + 1\<rparr>)"
    using allocpid_held [OF holds_proc_touch(2) [OF c hw] holds_proc_touch(4) [OF c hw] holds_proc_touch(3) [OF c hw]] by simp
  have La: "kfree_list h ?a xs"
    using L holds_proc_touch(2,3) [OF c ha] by (auto simp: kfree_list_def mem_ready_def free_inv_def)
  note ta = holds_proc_touch(1) [OF c ha]
  have run: "allocproc h forkret s = Option.bind (kalloc h ?a) (\<lambda>(tf, s). let s = upd_proc p (\<lambda>q. q\<lparr>p_trapframe := tf\<rparr>) s in
      if tf = 0 then Option.bind (freeproc h p s) (\<lambda>s. Option.bind (release h (proc_lock p) s) (\<lambda>s. Some (None, s)))
      else Option.bind (proc_pagetable h p s) (\<lambda>(pt, s). let s = upd_proc p (\<lambda>q. q\<lparr>p_pagetable := pt\<rparr>) s in
        if pt = 0 then Option.bind (freeproc h p s) (\<lambda>s. Option.bind (release h (proc_lock p) s) (\<lambda>s. Some (None, s)))
        else Some (Some p, upd_proc p (\<lambda>q. q\<lparr>p_context := context0\<lparr>ctx_ra := forkret, ctx_sp := p_kstack q + PGSIZE\<rparr>\<rparr>) s)))"
    using allocproc_find_ok [OF c, of "[0..<NPROC]"] p pid by (simp add: allocproc_def Let_def)
  show ?thesis
  proof (cases xs)
    case Nil
    let ?b = "upd_proc p (\<lambda>q. q\<lparr>p_trapframe := 0\<rparr>) ?a"
    have k: "kalloc h ?a = Some (0, ?a)" using kalloc_gives [OF La ta] Nil by simp
    have fp: "freeproc h p ?b = Some (upd_proc p cleared ?b)" by (rule freeproc_nothing) (simp_all add: cl(1))
    have Lb: "kfree_list h (upd_proc p cleared ?b) xs" using La by simp
    have "procs ?b = (procs s)(p := (procs s p)\<lparr>p_pid := nextpid s, p_state := USED, p_trapframe := 0\<rparr>)" by simp
    from no_procI [OF c holds_proc_upd [OF ha] fp only_mem_refl Lb refl this] have "\<exists>s'. Option.bind (freeproc h p ?b)
        (\<lambda>s. Option.bind (release h (proc_lock p) s) (\<lambda>s. Some (None :: nat option, s))) = Some (None, s') \<and> no_proc h me p xs s s'" by simp
    then show ?thesis using run k Nil by (auto simp: Let_def)
  next
    case (Cons x ys)
    obtain a1 where a1: "kalloc h ?a = Some (x, a1)" "kfree_list h a1 ys" "only_mem ?a a1" and x: "good_page (kend ?a) x" "x \<notin> set ys"
      using kalloc_gives [OF La ta] Cons by auto
    have x0: "x \<noteq> 0" and gx: "good_page (kend s) x" using x(1) by (simp_all add: good_page_def)
    let ?b = "upd_proc p (\<lambda>q. q\<lparr>p_trapframe := x\<rparr>) a1"
    have h1: "holds_proc h p s a1" by (rule holds_proc_mem [OF ha a1(3)])
    note hb = holds_proc_upd [OF h1]
    have Lb: "kfree_list h ?b ys" using a1(2) by simp
    obtain pt b1 where b1: "proc_pagetable h p ?b = Some (pt, b1)"
      "if pt = 0 then length ys < 5 \<and> returned h ys ?b b1 else \<exists>zs. proc_built h p pt ?b ys b1 zs"
      using proc_pagetable_ok [OF Lb holds_proc_touch(1) [OF c hb]] by blast
    let ?c = "upd_proc p (\<lambda>q. q\<lparr>p_pagetable := pt\<rparr>) b1"
    have pa: "procs a1 = procs ?a" by (rule only_mem_sel(2) [OF a1(3)])
    show ?thesis
    proof (cases "pt = 0")
      case True
      then obtain zs where z: "length ys < 5" "kfree_list h b1 zs" "set zs = set ys" "only_mem ?b b1" using b1(2) by (auto simp: returned_def)
      have hc: "holds_proc h p s ?c" by (rule holds_proc_upd [OF holds_proc_mem [OF hb z(4)]])
      have pr: "procs ?c = (procs s)(p := (procs s p)\<lparr>p_pid := nextpid s, p_state := USED, p_trapframe := x, p_pagetable := pt\<rparr>)"
        using only_mem_sel(2) [OF z(4)] pa by simp
      have kc: "kfree_list h ?c zs" "p_trapframe (procs ?c p) = x" "good_page (kend ?c) x" "x \<notin> set zs" "p_pagetable (procs ?c p) = 0"
        using z(2,3) x(2) gx hc True unfolding pr by (simp_all add: holds_proc_def)
      obtain u where u: "freeproc h p ?c = Some u" "only_mem (upd_proc p cleared ?c) u" "kfree_list h u (x # zs)"
        using freeproc_trapframe [OF kc(1) holds_proc_touch(1) [OF c hc] kc(2-5)] by blast
      have "set (x # zs) = set xs" using z(3) Cons by simp
      from no_procI [OF c hc u this pr] have "\<exists>s'. Option.bind (freeproc h p ?c)
        (\<lambda>s. Option.bind (release h (proc_lock p) s) (\<lambda>s. Some (None :: nat option, s))) = Some (None, s') \<and> no_proc h me p xs s s'" by simp
      then show ?thesis using run a1(1) x0 b1(1) True z(1) Cons by (auto simp: Let_def)
    next
      case False
      then obtain zs where z: "proc_built h p pt ?b ys b1 zs" using b1(2) by auto
      let ?d = "upd_proc p (\<lambda>q. q\<lparr>p_context := context0\<lparr>ctx_ra := forkret, ctx_sp := p_kstack q + PGSIZE\<rparr>\<rparr>) ?c"
      have om: "only_mem ?b b1" and pb: "set zs \<union> tset 2 (mem b1) pt = set ys" using z by (simp_all add: proc_built_def)
      have tr: "trampoline ?b = trampoline s" using only_mem_kvm [OF a1(3)] by (simp add: upd_proc_def within_def)
      have "holds_proc h p s ?d" by (rule holds_proc_upd [OF holds_proc_upd [OF holds_proc_mem [OF hb om]]])
      moreover have "procs ?d = (procs s)(p := (procs s p)\<lparr>p_pid := nextpid s, p_state := USED, p_trapframe := x, p_pagetable := pt,
          p_context := context0\<lparr>ctx_ra := forkret, ctx_sp := p_kstack (procs s p) + PGSIZE\<rparr>\<rparr>)"
        using only_mem_sel(2) [OF om] pa by simp
      moreover have "proc_mem h pt 0 ?d zs" using z by (intro proc_mem_upd_proc) (simp add: proc_built_def)
      moreover have "x \<notin> set zs \<union> tset 2 (mem ?d) pt" "set zs \<union> {x} \<union> tset 2 (mem ?d) pt = set xs" using pb x(2) Cons by auto
      moreover have "translate (mem ?d) pt TRAMPOLINE = Some (PA2PTE (trampoline s) OR (PTE_R OR PTE_X) OR PTE_V)"
        "translate (mem ?d) pt TRAPFRAME = Some (PA2PTE x OR (PTE_R OR PTE_W) OR PTE_V)" using z tr by (simp_all add: proc_built_def)
      ultimately have "fresh_proc h forkret p xs s ?d" unfolding fresh_proc_def using gx
        by (intro conjI exI [of _ x] exI [of _ pt] exI [of _ zs])
      moreover have "allocproc h forkret s = Some (Some p, ?d)" using run a1(1) x0 b1(1) False by (simp add: Let_def)
      ultimately show ?thesis by auto
    qed
  qed
qed

subsection \<open>Properties: creation\<close>

text \<open>
  C9. Creating and freeing a process neither loses nor invents a page. \<open>allocproc\<close> fails only when every entry of the
  process table is in use or fewer than six pages are free, and then all pages it took, for the trap frame and
  for the three levels of the page table, are free again. Otherwise it takes the first unused entry, gives it
  the next identifier, the state USED, a kernel context that starts in \<open>forkret\<close> on the entry's kernel stack, and
  a page table that maps the trampoline and the trap frame. \<open>freeproc\<close> then returns exactly the pages that were
  taken and clears the entry.
\<close>

theorem allocproc_freeproc:
  fixes s :: "'a kvm_scheme"
  assumes c: "in_call h me s" and L: "kfree_list h s pgs" and cl: "\<forall>p<NPROC. entry_clean (procs s p)"
  shows "\<exists>r s'. allocproc h forkret s = Some (r, s') \<and> (case r of
      None \<Rightarrow> ((\<forall>p<NPROC. p_state (procs s p) \<noteq> UNUSED) \<or> length pgs < 6) \<and> in_call h me s' \<and> (\<exists>ys. kfree_list h s' ys \<and> set ys = set pgs)
    | Some p \<Rightarrow> p < NPROC \<and> p_state (procs s p) = UNUSED \<and> (\<forall>q<p. p_state (procs s q) \<noteq> UNUSED)
        \<and> p_state (procs s' p) = USED \<and> p_pid (procs s' p) = nextpid s \<and> ctx_ra (p_context (procs s' p)) = forkret
        \<and> ctx_sp (p_context (procs s' p)) = p_kstack (procs s p) + PGSIZE
        \<and> translate (mem s') (p_pagetable (procs s' p)) TRAMPOLINE = Some (PA2PTE (trampoline s) OR (PTE_R OR PTE_X) OR PTE_V)
        \<and> translate (mem s') (p_pagetable (procs s' p)) TRAPFRAME = Some (PA2PTE (p_trapframe (procs s' p)) OR (PTE_R OR PTE_W) OR PTE_V)
        \<and> (\<exists>s'' ys. freeproc h p s' = Some s'' \<and> procs s'' = (procs s')(p := cleared (procs s' p)) \<and> kfree_list h s'' ys \<and> set ys = set pgs))"
proof (cases "List.find (\<lambda>p. p_state (procs s p) = UNUSED) [0..<NPROC]")
  case None
  then have "allocproc h forkret s = Some (None, s)" using allocproc_find_ok [OF c, of "[0..<NPROC]"] by (simp add: allocproc_def)
  moreover have "\<forall>p<NPROC. p_state (procs s p) \<noteq> UNUSED" using None by (simp add: find_None_iff)
  ultimately show ?thesis using c L by auto
next
  case (Some p)
  then have p: "p < NPROC" "p_state (procs s p) = UNUSED" "\<forall>q<p. p_state (procs s q) \<noteq> UNUSED" by (auto simp: find_Some_iff)
  then have e: "p_pagetable (procs s p) = 0" "p_sz (procs s p) = 0" using cl by (auto simp: entry_clean_def)
  obtain r s' where r: "allocproc h forkret s = Some (r, s')" "case r of None \<Rightarrow> length pgs < 6 \<and> no_proc h me p pgs s s'
    | Some p' \<Rightarrow> p' = p \<and> fresh_proc h forkret p pgs s s'" using allocproc_ok [OF c L Some e] by blast
  show ?thesis
  proof (cases r)
    case None
    then show ?thesis using r by (auto simp: no_proc_def)
  next
    case (Some p')
    then have f: "r = Some p" "fresh_proc h forkret p pgs s s'" using r(2) by simp_all
    then obtain tf pt ys where hp: "holds_proc h p s s'" and pr: "procs s' = (procs s)(p := (procs s p)\<lparr>p_pid := nextpid s, p_state := USED,
        p_trapframe := tf, p_pagetable := pt, p_context := context0\<lparr>ctx_ra := forkret, ctx_sp := p_kstack (procs s p) + PGSIZE\<rparr>\<rparr>)"
      and m: "proc_mem h pt 0 s' ys" "good_page (kend s) tf" "tf \<notin> set ys \<union> tset 2 (mem s') pt" "set ys \<union> {tf} \<union> tset 2 (mem s') pt = set pgs"
      and tr: "translate (mem s') pt TRAMPOLINE = Some (PA2PTE (trampoline s) OR (PTE_R OR PTE_X) OR PTE_V)"
        "translate (mem s') pt TRAPFRAME = Some (PA2PTE tf OR (PTE_R OR PTE_W) OR PTE_V)"
      unfolding fresh_proc_def by blast
    have "\<exists>s'' zs. freeproc h p s' = Some s'' \<and> only_mem (upd_proc p cleared s') s'' \<and> kfree_list h s'' zs
        \<and> set zs = set ys \<union> {tf} \<union> tset 2 (mem s') pt \<union> user_pages (mem s') pt 0
        \<and> (\<forall>b. pgno b \<notin> pgno ` ({tf} \<union> tset 2 (mem s') pt \<union> user_pages (mem s') pt 0) \<longrightarrow> mem s'' b = mem s' b)"
      by (rule freeproc_full [OF m(1)]) (use m hp pr e(2) in \<open>auto simp: PGROUNDUP_0 holds_proc_def\<close>)
    then obtain s'' zs where s'': "freeproc h p s' = Some s''" "only_mem (upd_proc p cleared s') s''" "kfree_list h s'' zs" "set zs = set pgs"
      using m(4) by auto
    have "procs s'' = (procs s')(p := cleared (procs s' p))" using only_mem_sel(2) [OF s''(2)] by simp
    then show ?thesis using r(1) f(1) p pr tr s'' by (intro exI [of _ "Some p"] exI [of _ s']) (auto simp: context0_def)
  qed
qed

text \<open>A machine with six free pages whose process table has room.\<close>

definition six_pages :: mem where
  "six_pages = st64 0x87fff000 0x87ffe000 (st64 0x87ffe000 0x87ffd000 (st64 0x87ffd000 0x87ffc000 (st64 0x87ffc000 0x87ffb000
     (st64 0x87ffb000 0x87ffa000 (\<lambda>_. 0)))))"

definition kfile1 :: kfile where
  "kfile1 = kfile0\<lparr>mem := six_pages, freelist := 0x87fff000, kend := 0x87ffa000,
     procs := (\<lambda>_. proc0)(3 := proc0\<lparr>p_state := RUNNING, p_pid := 7\<rparr>), nextpid := 8\<rparr>"

abbreviation six :: "addr list" where
  "six \<equiv> [0x87fff000, 0x87ffe000, 0x87ffd000, 0x87ffc000, 0x87ffb000, 0x87ffa000]"

lemma kfile1_ok: "in_call 0 3 kfile1" "kfree_list 0 kfile1 six" "\<forall>p<NPROC. entry_clean (procs kfile1 p)" "p_state (procs kfile1 0) = UNUSED" "nextpid kfile1 = 8"
proof -
  show c: "in_call 0 3 kfile1" using kfile0_ok(1) by (subst in_call_cong [of _ kfile0]) (simp_all add: kfile1_def)
  have l: "ld64 0x87fff000 six_pages = 0x87ffe000" "ld64 0x87ffe000 six_pages = 0x87ffd000" "ld64 0x87ffd000 six_pages = 0x87ffc000"
    "ld64 0x87ffc000 six_pages = 0x87ffb000" "ld64 0x87ffb000 six_pages = 0x87ffa000" "ld64 0x87ffa000 six_pages = 0"
    by (simp_all add: six_pages_def ld64_def st64_def)
  show "kfree_list 0 kfile1 six" using in_call_ready [OF c] l
    by (simp add: kfree_list_def free_inv_def kfile1_def good_page_def PGSIZE_def PHYSTOP_def KERNBASE_def)
  show "\<forall>p<NPROC. entry_clean (procs kfile1 p)" "p_state (procs kfile1 0) = UNUSED" "nextpid kfile1 = 8"
    by (auto simp: kfile1_def entry_clean_def proc0_def)
qed

theorem allocproc_freeproc_witness:
  "\<exists>s' s'' ys. allocproc 0 0x80001234 kfile1 = Some (Some 0, s') \<and> p_pid (procs s' 0) = 8 \<and> freeproc 0 0 s' = Some s''
    \<and> kfree_list 0 s'' ys \<and> set ys = set six"
  using allocproc_freeproc [OF kfile1_ok(1-3), of "0x80001234"]
proof (elim exE conjE, goal_cases)
  case (1 r s')
  show ?case
  proof (cases r)
    case None
    have "\<exists>p<NPROC. p_state (procs kfile1 p) = UNUSED" using kfile1_ok(4) by (intro exI [of _ 0]) (simp add: NPROC_def)
    then show ?thesis using 1(2) None by auto
  next
    case (Some p)
    have "p = 0" using 1(2) Some kfile1_ok(4) by (cases p) simp_all
    then show ?thesis using 1 Some kfile1_ok(5) by simp blast
  qed
qed

end
