(* ===== verification/Sysfile.thy ===== *)
theory Sysfile
  imports Procs
begin

text \<open>
  The system calls on files, \<open>labo2/kernel/sysfile.c\<close>, with the fetching of arguments from user space in \<open>syscall.c\<close>. They are followed
  through one kernel thread, like the file table and the file system below them. The names carry a \<open>k\<close>, because the
  theory of the shell has the same calls seen from user space. The result is the value put in register \<open>a0\<close>, as
  an integer.
\<close>

subsection \<open>Arguments\<close>

definition MAXPATH :: nat where "MAXPATH = 128"

definition le_word :: "uchar list \<Rightarrow> uint64" where
  "le_word bs = foldr (\<lambda>b v. push_bit 8 v OR ucast b) bs 0"

text \<open>The value, or \<open>None\<close> for -1.\<close>

definition fetchaddr :: "nat \<Rightarrow> addr \<Rightarrow> 'a kmem_scheme \<Rightarrow> (uint64 option \<times> 'a kmem_scheme) option" where
  "fetchaddr h addr s = do {
     (mp, s) \<leftarrow> myproc h s;
     p \<leftarrow> mp;
     if addr \<ge> p_sz (procs s p) \<or> addr + 8 > p_sz (procs s p) then Some (None, s)
     else do {
       (r, bs) \<leftarrow> copyin h (p_pagetable (procs s p)) addr 8 s;
       Some (if r \<noteq> 0 then None else Some (le_word bs), s) } }"

text \<open>What \<open>copyinstr\<close> has written to the buffer; the string is what stands before the null byte.\<close>

definition fetchstr :: "nat \<Rightarrow> addr \<Rightarrow> nat \<Rightarrow> 'a kmem_scheme \<Rightarrow> (bool \<times> uchar list \<times> 'a kmem_scheme) option" where
  "fetchstr h addr bound s = do {
     (mp, s) \<leftarrow> myproc h s;
     p \<leftarrow> mp;
     (r, bs) \<leftarrow> copyinstr h (p_pagetable (procs s p)) addr bound s;
     Some (r \<ge> 0, bs, s) }"

definition argstr :: "nat \<Rightarrow> nat \<Rightarrow> nat \<Rightarrow> 'a kmem_scheme \<Rightarrow> (uchar list option \<times> 'a kmem_scheme) option" where
  "argstr h n bound s = do {
     (addr, s) \<leftarrow> argaddr h n s;
     (good, bs, s) \<leftarrow> fetchstr h addr bound s;
     Some (if good then Some (takeWhile (\<lambda>c. c \<noteq> 0) bs) else None, s) }"

subsection \<open>Descriptors\<close>

definition argfd :: "nat \<Rightarrow> nat \<Rightarrow> 'a kproc_scheme \<Rightarrow> ((nat \<times> nat) option \<times> 'a kproc_scheme) option" where
  "argfd h n s = do {
     (fd, s) \<leftarrow> argint h n s;
     if sint fd < 0 \<or> sint fd \<ge> int NOFILE then Some (None, s)
     else do {
       (mp, s) \<leftarrow> myproc h s;
       p \<leftarrow> mp;
       Some (map_option (Pair (nat (sint fd))) (p_ofile (procs s p) (nat (sint fd))), s) } }"

definition set_ofile :: "nat \<Rightarrow> nat \<Rightarrow> nat option \<Rightarrow> 'a kproc_scheme \<Rightarrow> 'a kproc_scheme" where
  "set_ofile p fd f s = upd_proc p (\<lambda>q. q\<lparr>p_ofile := (p_ofile q)(fd := f)\<rparr>) s"

definition fdalloc :: "nat \<Rightarrow> nat \<Rightarrow> 'a kproc_scheme \<Rightarrow> (nat option \<times> 'a kproc_scheme) option" where
  "fdalloc h f s = do {
     (mp, s) \<leftarrow> myproc h s;
     p \<leftarrow> mp;
     case List.find (\<lambda>fd. p_ofile (procs s p) fd = None) [0..<NOFILE] of
       Some fd \<Rightarrow> Some (Some fd, set_ofile p fd (Some f) s)
     | None \<Rightarrow> Some (None, s) }"

definition ksys_dup :: "nat \<Rightarrow> 'a kfile_scheme \<Rightarrow> (int \<times> 'a kfile_scheme) option" where
  "ksys_dup h s = do {
     (r, s) \<leftarrow> argfd h 0 s;
     case r of None \<Rightarrow> Some (-1, s)
     | Some (_, f) \<Rightarrow> do {
         (fd, s) \<leftarrow> fdalloc h f s;
         case fd of None \<Rightarrow> Some (-1, s)
         | Some fd \<Rightarrow> do {
             (_, s) \<leftarrow> filedup h f s;
             Some (int fd, s) } } }"

definition ksys_read :: "(int \<Rightarrow> 'a kfile_scheme devfun option) \<Rightarrow> nat \<Rightarrow> 'a kfile_scheme \<Rightarrow> (int \<times> 'a kfile_scheme) option" where
  "ksys_read devsw h s = do {
     (p, s) \<leftarrow> argaddr h 1 s;
     (n, s) \<leftarrow> argint h 2 s;
     (r, s) \<leftarrow> argfd h 0 s;
     case r of None \<Rightarrow> Some (-1, s) | Some (_, f) \<Rightarrow> fileread devsw h f p n s }"

definition ksys_write :: "(int \<Rightarrow> 'a kfile_scheme devfun option) \<Rightarrow> nat \<Rightarrow> 'a kfile_scheme \<Rightarrow> (int \<times> 'a kfile_scheme) option" where
  "ksys_write devsw h s = do {
     (p, s) \<leftarrow> argaddr h 1 s;
     (n, s) \<leftarrow> argint h 2 s;
     (r, s) \<leftarrow> argfd h 0 s;
     case r of None \<Rightarrow> Some (-1, s) | Some (_, f) \<Rightarrow> filewrite devsw h f p n s }"

definition ksys_close :: "nat \<Rightarrow> 'a kfile_scheme \<Rightarrow> (int \<times> 'a kfile_scheme) option" where
  "ksys_close h s = do {
     (r, s) \<leftarrow> argfd h 0 s;
     case r of None \<Rightarrow> Some (-1, s)
     | Some (fd, f) \<Rightarrow> do {
         (mp, s) \<leftarrow> myproc h s;
         p \<leftarrow> mp;
         s \<leftarrow> fileclose h f (set_ofile p fd None s);
         Some (0, s) } }"

definition ksys_fstat :: "nat \<Rightarrow> uchar list \<Rightarrow> 'a kfile_scheme \<Rightarrow> (int \<times> 'a kfile_scheme) option" where
  "ksys_fstat h pad s = do {
     (st, s) \<leftarrow> argaddr h 1 s;
     (r, s) \<leftarrow> argfd h 0 s;
     case r of None \<Rightarrow> Some (-1, s) | Some (_, f) \<Rightarrow> filestat h pad f st s }"

subsection \<open>Links\<close>

definition fail_op :: "nat \<Rightarrow> 'a klog_scheme \<Rightarrow> (int \<times> 'a klog_scheme) option" where
  "fail_op h s = do { s \<leftarrow> end_op h s; Some (-1, s) }"

definition add_nlink :: "nat \<Rightarrow> ushort \<Rightarrow> 'a kfs_scheme \<Rightarrow> 'a kfs_scheme" where
  "add_nlink ip d s = upd_inode ip (\<lambda>i. i\<lparr>i_nlink := i_nlink i + d\<rparr>) s"

definition link_bad :: "nat \<Rightarrow> nat \<Rightarrow> 'a kfs_scheme \<Rightarrow> (int \<times> 'a kfs_scheme) option" where
  "link_bad h ip s = do {
     s \<leftarrow> ilock h ip s;
     s \<leftarrow> iupdate h ip (add_nlink ip (-1) s);
     s \<leftarrow> iunlockput h ip s;
     fail_op h s }"

definition ksys_link :: "nat \<Rightarrow> 'a kfs_scheme \<Rightarrow> (int \<times> 'a kfs_scheme) option" where
  "ksys_link h s = do {
     (old, s) \<leftarrow> argstr h 0 MAXPATH s;
     (new, s) \<leftarrow> (if old = None then Some (None, s) else argstr h 1 MAXPATH s);
     case (old, new) of
       (Some old, Some new) \<Rightarrow> do {
         s \<leftarrow> start_op h s;
         (ip, s) \<leftarrow> namei h old s;
         case ip of None \<Rightarrow> fail_op h s
         | Some ip \<Rightarrow> do {
             s \<leftarrow> ilock h ip s;
             if i_type (inodes s ip) = T_DIR then do { s \<leftarrow> iunlockput h ip s; fail_op h s }
             else do {
               s \<leftarrow> iupdate h ip (add_nlink ip 1 s);
               s \<leftarrow> iunlock h ip s;
               (dp, nm, s) \<leftarrow> nameiparent h new (replicate DIRSIZ 0) s;
               case dp of None \<Rightarrow> link_bad h ip s
               | Some dp \<Rightarrow> do {
                   s \<leftarrow> ilock h dp s;
                   (r, s) \<leftarrow> (if i_dev (inodes s dp) \<noteq> i_dev (inodes s ip) then Some (-1, s) else dirlink h dp nm (i_inum (inodes s ip)) s);
                   s \<leftarrow> iunlockput h dp s;
                   if r < 0 then link_bad h ip s
                   else do {
                     s \<leftarrow> iput h ip s;
                     s \<leftarrow> end_op h s;
                     Some (0, s) } } } } }
     | _ \<Rightarrow> Some (-1, s) }"

text \<open>Is the directory empty except for its first two entries?\<close>

function isdirempty_loop :: "nat \<Rightarrow> nat \<Rightarrow> uint \<Rightarrow> 'a kfs_scheme \<Rightarrow> (bool \<times> 'a kfs_scheme) option" where
  "isdirempty_loop h dp off s =
     (if off < i_size (inodes s dp) then
        (case readi h dp DLocal off DIRENT s of
           None \<Rightarrow> None
         | Some (r, de, s) \<Rightarrow>
             if r \<noteq> DIRENT then None
             else if de_inum de \<noteq> 0 then Some (False, s)
             else isdirempty_loop h dp (off + DIRENT) s)
      else Some (True, s))"
  by auto
termination
  by (relation "measure (\<lambda>(h, dp, off, s). 2 ^ 32 - unat off)")
    (auto dest!: readi_no_wrap simp: DIRENT_def dir_measure [unfolded DIRENT_def, simplified])

declare isdirempty_loop.simps [simp del]

definition isdirempty :: "nat \<Rightarrow> nat \<Rightarrow> 'a kfs_scheme \<Rightarrow> (bool \<times> 'a kfs_scheme) option" where
  "isdirempty h dp s = isdirempty_loop h dp (2 * DIRENT) s"

definition unlink_bad :: "nat \<Rightarrow> nat \<Rightarrow> 'a kfs_scheme \<Rightarrow> (int \<times> 'a kfs_scheme) option" where
  "unlink_bad h dp s = do { s \<leftarrow> iunlockput h dp s; fail_op h s }"

definition dot :: "uchar list" where "dot = [0x2E]"
definition dotdot :: "uchar list" where "dotdot = [0x2E, 0x2E]"

text \<open>The part of \<open>sys_unlink\<close> that takes the entry at \<open>off\<close> out of the directory and one link from the inode.\<close>

definition unlink_entry :: "nat \<Rightarrow> nat \<Rightarrow> nat \<Rightarrow> uint \<Rightarrow> 'a kfs_scheme \<Rightarrow> (int \<times> 'a kfs_scheme) option" where
  "unlink_entry h dp ip off s = do {
     (r, s) \<leftarrow> writei h dp (SLocal (replicate 16 0)) off DIRENT s;
     if r \<noteq> DIRENT then None
     else do {
       s \<leftarrow> (if i_type (inodes s ip) = T_DIR then iupdate h dp (add_nlink dp (-1) s) else Some s);
       s \<leftarrow> iunlockput h dp s;
       s \<leftarrow> iupdate h ip (add_nlink ip (-1) s);
       s \<leftarrow> iunlockput h ip s;
       s \<leftarrow> end_op h s;
       Some (0, s) } }"

definition ksys_unlink :: "nat \<Rightarrow> 'a kfs_scheme \<Rightarrow> (int \<times> 'a kfs_scheme) option" where
  "ksys_unlink h s = do {
     (path, s) \<leftarrow> argstr h 0 MAXPATH s;
     case path of None \<Rightarrow> Some (-1, s)
     | Some path \<Rightarrow> do {
         s \<leftarrow> start_op h s;
         (dp, nm, s) \<leftarrow> nameiparent h path (replicate DIRSIZ 0) s;
         case dp of None \<Rightarrow> fail_op h s
         | Some dp \<Rightarrow> do {
             s \<leftarrow> ilock h dp s;
             if namecmp nm dot = 0 \<or> namecmp nm dotdot = 0 then unlink_bad h dp s
             else do {
               (r, s) \<leftarrow> dirlookup h dp nm s;
               case r of None \<Rightarrow> unlink_bad h dp s
               | Some (ip, off) \<Rightarrow> do {
                   s \<leftarrow> ilock h ip s;
                   if sint (i_nlink (inodes s ip)) < 1 then None
                   else do {
                     (e, s) \<leftarrow> (if i_type (inodes s ip) = T_DIR then isdirempty h ip s else Some (True, s));
                     if \<not> e then do { s \<leftarrow> iunlockput h ip s; unlink_bad h dp s }
                     else unlink_entry h dp ip off s } } } } } }"

subsection \<open>Creation\<close>

definition create_fail :: "nat \<Rightarrow> nat \<Rightarrow> nat \<Rightarrow> 'a kfs_scheme \<Rightarrow> (nat option \<times> 'a kfs_scheme) option" where
  "create_fail h ip dp s = do {
     s \<leftarrow> iupdate h ip (upd_inode ip (\<lambda>i. i\<lparr>i_nlink := 0\<rparr>) s);
     s \<leftarrow> iunlockput h ip s;
     s \<leftarrow> iunlockput h dp s;
     Some (None, s) }"

text \<open>The names of the first two entries of a new directory.\<close>

definition link_dots :: "nat \<Rightarrow> nat \<Rightarrow> nat \<Rightarrow> 'a kfs_scheme \<Rightarrow> (int \<times> 'a kfs_scheme) option" where
  "link_dots h ip dp s = do {
     (r, s) \<leftarrow> dirlink h ip dot (i_inum (inodes s ip)) s;
     if r < 0 then Some (-1, s)
     else dirlink h ip dotdot (i_inum (inodes s dp)) s }"

definition create_new :: "nat \<Rightarrow> nat \<Rightarrow> nat \<Rightarrow> uchar list \<Rightarrow> ushort \<Rightarrow> 'a kfs_scheme \<Rightarrow> (nat option \<times> 'a kfs_scheme) option" where
  "create_new h ip dp nm type s = do {
     (r, s) \<leftarrow> (if type = T_DIR then link_dots h ip dp s else Some (0, s));
     if r < 0 then create_fail h ip dp s
     else do {
       (r, s) \<leftarrow> dirlink h dp nm (i_inum (inodes s ip)) s;
       if r < 0 then create_fail h ip dp s
       else do {
         s \<leftarrow> (if type = T_DIR then iupdate h dp (add_nlink dp 1 s) else Some s);
         s \<leftarrow> iunlockput h dp s;
         Some (Some ip, s) } } }"

definition create :: "nat \<Rightarrow> uchar list \<Rightarrow> ushort \<Rightarrow> ushort \<Rightarrow> ushort \<Rightarrow> 'a kfs_scheme \<Rightarrow> (nat option \<times> 'a kfs_scheme) option" where
  "create h path type major minor s = do {
     (dp, nm, s) \<leftarrow> nameiparent h path (replicate DIRSIZ 0) s;
     case dp of None \<Rightarrow> Some (None, s)
     | Some dp \<Rightarrow> do {
         s \<leftarrow> ilock h dp s;
         (r, s) \<leftarrow> dirlookup h dp nm s;
         case r of
           Some (ip, _) \<Rightarrow> do {
             s \<leftarrow> iunlockput h dp s;
             s \<leftarrow> ilock h ip s;
             if type = T_FILE \<and> (i_type (inodes s ip) = T_FILE \<or> i_type (inodes s ip) = T_DEVICE) then Some (Some ip, s)
             else do { s \<leftarrow> iunlockput h ip s; Some (None, s) } }
         | None \<Rightarrow> do {
             (ip, s) \<leftarrow> ialloc h (i_dev (inodes s dp)) type s;
             case ip of None \<Rightarrow> do { s \<leftarrow> iunlockput h dp s; Some (None, s) }
             | Some ip \<Rightarrow> do {
                 s \<leftarrow> ilock h ip s;
                 s \<leftarrow> iupdate h ip (upd_inode ip (\<lambda>i. i\<lparr>i_major := major, i_minor := minor, i_nlink := 1\<rparr>) s);
                 create_new h ip dp nm type s } } } }"

subsection \<open>Opening\<close>

definition mode_bit :: "cint \<Rightarrow> cint \<Rightarrow> bool" where
  "mode_bit b omode \<longleftrightarrow> omode AND b \<noteq> 0"

definition open_fail :: "nat \<Rightarrow> nat \<Rightarrow> 'a kfs_scheme \<Rightarrow> (int \<times> 'a kfs_scheme) option" where
  "open_fail h ip s = do { s \<leftarrow> iunlockput h ip s; fail_op h s }"

text \<open>The inode to open, locked; or \<open>None\<close>.\<close>

definition open_inode :: "nat \<Rightarrow> uchar list \<Rightarrow> cint \<Rightarrow> 'a kfs_scheme \<Rightarrow> (nat option \<times> 'a kfs_scheme) option" where
  "open_inode h path omode s =
     (if mode_bit 0x200 omode then create h path T_FILE 0 0 s
      else do {
        (ip, s) \<leftarrow> namei h path s;
        case ip of None \<Rightarrow> Some (None, s)
        | Some ip \<Rightarrow> do {
            s \<leftarrow> ilock h ip s;
            if i_type (inodes s ip) = T_DIR \<and> omode \<noteq> 0 then do { s \<leftarrow> iunlockput h ip s; Some (None, s) }
            else Some (Some ip, s) } })"

definition open_entry :: "cint \<Rightarrow> nat \<Rightarrow> inode \<Rightarrow> open_file \<Rightarrow> open_file" where
  "open_entry omode ip i x =
     (let x = (if i_type i = T_DEVICE then x\<lparr>f_type := FD_DEVICE, f_major := i_major i\<rparr> else x\<lparr>f_type := FD_INODE, f_off := 0\<rparr>)
      in x\<lparr>f_ip := ip, f_readable := \<not> mode_bit 1 omode, f_writable := mode_bit 1 omode \<or> mode_bit 2 omode\<rparr>)"

definition open_file_of :: "nat \<Rightarrow> cint \<Rightarrow> nat \<Rightarrow> 'a kfile_scheme \<Rightarrow> (int \<times> 'a kfile_scheme) option" where
  "open_file_of h omode ip s =
     (let i = inodes s ip in
      if i_type i = T_DEVICE \<and> (sint (i_major i) < 0 \<or> sint (i_major i) \<ge> NDEV) then open_fail h ip s
      else do {
        (f, s) \<leftarrow> filealloc h s;
        (fd, s) \<leftarrow> (case f of None \<Rightarrow> Some (None, s) | Some f \<Rightarrow> fdalloc h f s);
        case (f, fd) of
          (Some f, Some fd) \<Rightarrow> do {
            let s = upd_file f (open_entry omode ip (inodes s ip)) s;
            s \<leftarrow> (if mode_bit 0x400 omode \<and> i_type (inodes s ip) = T_FILE then itrunc h ip s else Some s);
            s \<leftarrow> iunlock h ip s;
            s \<leftarrow> end_op h s;
            Some (int fd, s) }
        | _ \<Rightarrow> do { s \<leftarrow> close_opt h f s; open_fail h ip s } })"

definition ksys_open :: "nat \<Rightarrow> 'a kfile_scheme \<Rightarrow> (int \<times> 'a kfile_scheme) option" where
  "ksys_open h s = do {
     (omode, s) \<leftarrow> argint h 1 s;
     (path, s) \<leftarrow> argstr h 0 MAXPATH s;
     case path of None \<Rightarrow> Some (-1, s)
     | Some path \<Rightarrow> do {
         s \<leftarrow> start_op h s;
         (ip, s) \<leftarrow> open_inode h path omode s;
         case ip of None \<Rightarrow> fail_op h s | Some ip \<Rightarrow> open_file_of h omode ip s } }"

definition make_node :: "nat \<Rightarrow> uchar list option \<Rightarrow> ushort \<Rightarrow> ushort \<Rightarrow> ushort \<Rightarrow> 'a kfs_scheme \<Rightarrow> (int \<times> 'a kfs_scheme) option" where
  "make_node h path type major minor s = do {
     (ip, s) \<leftarrow> (case path of None \<Rightarrow> Some (None, s) | Some path \<Rightarrow> create h path type major minor s);
     case ip of None \<Rightarrow> fail_op h s
     | Some ip \<Rightarrow> do {
         s \<leftarrow> iunlockput h ip s;
         s \<leftarrow> end_op h s;
         Some (0, s) } }"

definition ksys_mkdir :: "nat \<Rightarrow> 'a kfs_scheme \<Rightarrow> (int \<times> 'a kfs_scheme) option" where
  "ksys_mkdir h s = do {
     s \<leftarrow> start_op h s;
     (path, s) \<leftarrow> argstr h 0 MAXPATH s;
     make_node h path T_DIR 0 0 s }"

definition ksys_mknod :: "nat \<Rightarrow> 'a kfs_scheme \<Rightarrow> (int \<times> 'a kfs_scheme) option" where
  "ksys_mknod h s = do {
     s \<leftarrow> start_op h s;
     (major, s) \<leftarrow> argint h 1 s;
     (minor, s) \<leftarrow> argint h 2 s;
     (path, s) \<leftarrow> argstr h 0 MAXPATH s;
     make_node h path T_DEVICE (ucast major) (ucast minor) s }"

definition ksys_chdir :: "nat \<Rightarrow> 'a kfs_scheme \<Rightarrow> (int \<times> 'a kfs_scheme) option" where
  "ksys_chdir h s = do {
     (mp, s) \<leftarrow> myproc h s;
     p \<leftarrow> mp;
     s \<leftarrow> start_op h s;
     (path, s) \<leftarrow> argstr h 0 MAXPATH s;
     (ip, s) \<leftarrow> (case path of None \<Rightarrow> Some (None, s) | Some path \<Rightarrow> namei h path s);
     case ip of None \<Rightarrow> fail_op h s
     | Some ip \<Rightarrow> do {
         s \<leftarrow> ilock h ip s;
         if i_type (inodes s ip) \<noteq> T_DIR then do { s \<leftarrow> iunlockput h ip s; fail_op h s }
         else do {
           s \<leftarrow> iunlock h ip s;
           cwd \<leftarrow> p_cwd (procs s p);
           s \<leftarrow> iput h cwd s;
           s \<leftarrow> end_op h s;
           Some (0, upd_proc p (\<lambda>q. q\<lparr>p_cwd := Some ip\<rparr>) s) } } }"

subsection \<open>Pipes\<close>

definition pipe_undo :: "nat \<Rightarrow> nat \<Rightarrow> nat list \<Rightarrow> nat \<Rightarrow> nat \<Rightarrow> 'a kfile_scheme \<Rightarrow> (int \<times> 'a kfile_scheme) option" where
  "pipe_undo h p fds rfile wfile s = do {
     let s = fold (\<lambda>fd. set_ofile p fd None) fds s;
     s \<leftarrow> fileclose h rfile s;
     s \<leftarrow> fileclose h wfile s;
     Some (-1, s) }"

definition ksys_pipe :: "nat \<Rightarrow> 'a kfile_scheme \<Rightarrow> (int \<times> 'a kfile_scheme) option" where
  "ksys_pipe h s = do {
     (mp, s) \<leftarrow> myproc h s;
     p \<leftarrow> mp;
     (fdarray, s) \<leftarrow> argaddr h 0 s;
     (r, s) \<leftarrow> pipealloc h s;
     case r of None \<Rightarrow> Some (-1, s)
     | Some (rfile, wfile) \<Rightarrow> do {
         (fd0, s) \<leftarrow> fdalloc h rfile s;
         case fd0 of None \<Rightarrow> pipe_undo h p [] rfile wfile s
         | Some fd0 \<Rightarrow> do {
             (fd1, s) \<leftarrow> fdalloc h wfile s;
             case fd1 of None \<Rightarrow> pipe_undo h p [fd0] rfile wfile s
             | Some fd1 \<Rightarrow> do {
                 (r, s) \<leftarrow> copyout h (p_pagetable (procs s p)) fdarray (bytes_of 4 (of_nat fd0)) s;
                 (r, s) \<leftarrow> (if r < 0 then Some (r, s) else copyout h (p_pagetable (procs s p)) (fdarray + 4) (bytes_of 4 (of_nat fd1)) s);
                 if r < 0 then pipe_undo h p [fd0, fd1] rfile wfile s
                 else Some (0, s) } } } }"

subsection \<open>Lemmas: arguments and descriptors\<close>

lemma arg_call:
  assumes "in_call h p s"
  shows "argint h 0 s = Some (ucast (tf_a0 (tframes s (p_trapframe (procs s p)))), s)"
    and "argaddr h 0 s = Some (tf_a0 (tframes s (p_trapframe (procs s p))), s)"
  using in_callD(6) [OF assms] by (simp_all add: argint_def argaddr_def argraw_def Let_def)

text \<open>The first argument of the running process, and its free descriptors.\<close>

definition arg0 :: "nat \<Rightarrow> 'a kproc_scheme \<Rightarrow> uint64" where
  "arg0 p s = tf_a0 (tframes s (p_trapframe (procs s p)))"

definition free_fds :: "nat \<Rightarrow> 'a kproc_scheme \<Rightarrow> nat list" where
  "free_fds p s = filter (\<lambda>fd. p_ofile (procs s p) fd = None) [0..<NOFILE]"

lemma set_ofile_sel [simp]:
  "procs (set_ofile p fd f s) = (procs s)(p := (procs s p)\<lparr>p_ofile := (p_ofile (procs s p))(fd := f)\<rparr>)"
  "in_call h q (set_ofile p fd f s) = in_call h q s" "cpus (set_ofile p fd f s) = cpus s" "tframes (set_ofile p fd f s) = tframes s"
  by (simp_all add: set_ofile_def) (rule in_call_cong, simp_all)

lemma set_ofile_kernel [simp]:
  "sie (set_ofile p fd f s) = sie s" "lks (set_ofile p fd f s) = lks s" "ftable (set_ofile p fd f s) = ftable s" "pipes (set_ofile p fd f s) = pipes s" "mem (set_ofile p fd f s) = mem s"
  "freelist (set_ofile p fd f s) = freelist s" "kend (set_ofile p fd f s) = kend s" "free_inv (set_ofile p fd f s) xs = free_inv s xs"
  by (simp_all add: set_ofile_def upd_proc_def free_inv_def)

lemma set_ofile_back:
  assumes "p_ofile (procs s p) fd = f"
  shows "set_ofile p fd f (set_ofile p fd g s) = s"
proof -
  have "(procs s p)\<lparr>p_ofile := (p_ofile (procs s p))(fd := f)\<rparr> = procs s p" using assms by (auto simp: fun_upd_idem)
  then show ?thesis by (simp add: set_ofile_def upd_proc_def fun_upd_idem)
qed

lemma fdalloc_call:
  assumes "in_call h p s"
  shows "fdalloc h f s = Some (case free_fds p s of [] \<Rightarrow> (None, s) | fd # _ \<Rightarrow> (Some fd, set_ofile p fd (Some f) s))"
  using in_callD(6) [OF assms] by (simp add: fdalloc_def find_filter free_fds_def split: list.split)

lemma free_fds_tl:
  assumes "free_fds p s = fd # fds"
  shows "free_fds p (set_ofile p fd (Some f) s) = fds" and "p_ofile (procs s p) fd = None" and "fd < NOFILE" and "fd \<notin> set fds"
proof -
  have m: "fd \<in> set (free_fds p s)" using assms by simp
  then show "p_ofile (procs s p) fd = None" "fd < NOFILE" by (auto simp: free_fds_def)
  have "free_fds p (set_ofile p fd (Some f) s) = filter (\<lambda>y. y \<noteq> fd \<and> p_ofile (procs s p) y = None) [0..<NOFILE]"
    by (auto simp: free_fds_def intro!: filter_cong)
  also have "\<dots> = fds" using assms by (intro filter_distinct_tl) (auto simp: free_fds_def)
  finally show "free_fds p (set_ofile p fd (Some f) s) = fds" .
  have "distinct (free_fds p s)" by (simp add: free_fds_def)
  then show "fd \<notin> set fds" using assms by simp
qed

lemma argfd_call:
  assumes "in_call h p s"
  shows "argfd h 0 s = Some (let fd = sint (ucast (arg0 p s) :: cint) in
     if fd < 0 \<or> fd \<ge> int NOFILE then None else map_option (Pair (nat fd)) (p_ofile (procs s p) (nat fd)), s)"
  using in_callD(6) [OF assms] arg_call(1) [OF assms] by (simp add: argfd_def arg0_def Let_def)

text \<open>The descriptor that the first argument names, if it is open.\<close>

definition fd_arg :: "nat \<Rightarrow> 'a kproc_scheme \<Rightarrow> (nat \<times> nat) option" where
  "fd_arg p s = (let fd = sint (ucast (arg0 p s) :: cint) in
     if fd < 0 \<or> fd \<ge> int NOFILE then None else map_option (Pair (nat fd)) (p_ofile (procs s p) (nat fd)))"

lemma sint_Suc: "sint x < 2 ^ 31 - 1 \<Longrightarrow> sint (x + 1 :: cint) = sint x + 1"
  using sint_ge [of x] by (simp add: sint_word_ariths signed_take_bit_int_eq_self)

lemma small_fd: "d < NOFILE \<Longrightarrow> sint (ucast (of_nat d :: uint64) :: cint) = int d"
proof -
  assume d: "d < NOFILE"
  have "(ucast (of_nat d :: uint64) :: cint) = of_nat d" using d
    by (simp add: word_unat_eq_iff unsigned_ucast_eq take_bit_eq_mod unat_of_nat NOFILE_def)
  moreover have "sint (of_nat d :: cint) = int d" using d by (simp add: signed_of_nat signed_take_bit_int_eq_self NOFILE_def)
  ultimately show ?thesis by simp
qed

lemma close_after_dup:
  fixes s :: "'a kfile_scheme"
  assumes c: "in_call h p s" and d: "p_ofile (procs s p) d = None" "d < NOFILE" and r: "1 \<le> sint (f_ref (ftable s f))" "sint (f_ref (ftable s f)) < 2 ^ 31 - 1"
    and a: "arg0 p t = of_nat d" and t: "t = (upd_file f (\<lambda>x. x\<lparr>f_ref := f_ref x + 1\<rparr>) (set_ofile p d (Some f) s))\<lparr>tframes := T\<rparr>"
  shows "ksys_close h t = Some (0, s\<lparr>tframes := T\<rparr>)"
proof -
  have ct: "in_call h p t" using c unfolding t by (subst in_call_cong [of _ s]) simp_all
  have "p_ofile (procs t p) d = Some f" by (simp add: t)
  then have a0: "argfd h 0 t = Some (Some (d, f), t)" using argfd_call [OF ct] a small_fd [OF d(2)] d(2) by (simp add: Let_def)
  let ?u = "set_ofile p d None t"
  have u: "?u = (upd_file f (\<lambda>x. x\<lparr>f_ref := f_ref x + 1\<rparr>) s)\<lparr>tframes := T\<rparr>"
    unfolding t by (intro kfile.equality) (use d(1) in \<open>simp_all add: set_ofile_def upd_proc_def upd_file_def fun_upd_idem\<close>)
  have cu: "in_call h p ?u" using ct by simp
  have "sint (f_ref (ftable ?u f)) > 1" using sint_Suc [OF r(2)] r(1) unfolding u by simp
  from fileclose_ok(3) [OF cu this] have "fileclose h f ?u = Some (s\<lparr>tframes := T\<rparr>)"
    unfolding u by (simp add: upd_file_def fun_upd_idem)
  then show ?thesis using a0 in_callD(6) [OF ct] by (simp add: ksys_close_def)
qed

text \<open>
  C32. Descriptors. On a descriptor that is out of range or not open, \<open>dup\<close> and \<open>close\<close> return -1 and change nothing. Otherwise \<open>dup\<close> returns
  the lowest free descriptor, or -1 without a change when there is none; the new descriptor refers to the same file, which has one
  reference more, and closing it restores the state exactly.
\<close>

theorem dup_close:
  fixes s :: "'a kfile_scheme"
  assumes c: "in_call h p s"
  shows "case fd_arg p s of
      None \<Rightarrow> ksys_dup h s = Some (-1, s) \<and> ksys_close h s = Some (-1, s)
    | Some (fd, f) \<Rightarrow> (case free_fds p s of
        [] \<Rightarrow> ksys_dup h s = Some (-1, s)
      | d # _ \<Rightarrow> d < NOFILE \<and> p_ofile (procs s p) d = None \<and> (\<forall>e<d. p_ofile (procs s p) e \<noteq> None) \<and>
          (1 \<le> sint (f_ref (ftable s f)) \<and> sint (f_ref (ftable s f)) < 2 ^ 31 - 1 \<longrightarrow>
           (\<exists>s'. ksys_dup h s = Some (int d, s') \<and> p_ofile (procs s' p) = (p_ofile (procs s p))(d := Some f) \<and> p_ofile (procs s' p) fd = Some f
              \<and> sint (f_ref (ftable s' f)) = sint (f_ref (ftable s f)) + 1
              \<and> (\<forall>t. arg0 p t = of_nat d \<and> t = s'\<lparr>tframes := tframes t\<rparr> \<longrightarrow> ksys_close h t = Some (0, s\<lparr>tframes := tframes t\<rparr>)))))"
proof -
  have a: "argfd h 0 s = Some (fd_arg p s, s)" using argfd_call [OF c] by (simp add: fd_arg_def Let_def)
  show ?thesis
  proof (cases "fd_arg p s")
    case None
    then show ?thesis using a by (simp add: ksys_dup_def ksys_close_def)
  next
    case (Some ff)
    obtain fd f where ff: "ff = (fd, f)" by (cases ff)
    show ?thesis
    proof (cases "free_fds p s")
      case Nil
      then show ?thesis using a Some ff fdalloc_call [OF c] by (simp add: ksys_dup_def)
    next
      case (Cons d ds)
      have "\<forall>e<d. p_ofile (procs s p) e \<noteq> None"
        using Cons find_filter [of "\<lambda>fd. p_ofile (procs s p) fd = None" "[0..<NOFILE]"] by (auto simp: free_fds_def find_Some_iff)
      note low = this free_fds_tl(2,3) [OF Cons]
      have fo: "p_ofile (procs s p) fd = Some f" using Some ff by (auto simp: fd_arg_def Let_def split: if_splits)
      let ?s = "upd_file f (\<lambda>x. x\<lparr>f_ref := f_ref x + 1\<rparr>) (set_ofile p d (Some f) s)"
      have "\<exists>s'. ksys_dup h s = Some (int d, s') \<and> p_ofile (procs s' p) = (p_ofile (procs s p))(d := Some f) \<and> p_ofile (procs s' p) fd = Some f
              \<and> sint (f_ref (ftable s' f)) = sint (f_ref (ftable s f)) + 1
              \<and> (\<forall>t. arg0 p t = of_nat d \<and> t = s'\<lparr>tframes := tframes t\<rparr> \<longrightarrow> ksys_close h t = Some (0, s\<lparr>tframes := tframes t\<rparr>))"
        if r: "1 \<le> sint (f_ref (ftable s f))" "sint (f_ref (ftable s f)) < 2 ^ 31 - 1"
      proof (intro exI [of _ ?s] conjI allI impI)
        have "in_call h p (set_ofile p d (Some f) s)" using c by simp
        from filedup_ok [OF this, of f] show "ksys_dup h s = Some (int d, ?s)" using r(1) a Some ff Cons fdalloc_call [OF c] by (simp add: ksys_dup_def)
        show "sint (f_ref (ftable ?s f)) = sint (f_ref (ftable s f)) + 1" using sint_Suc [OF r(2)] by simp
        show "ksys_close h t = Some (0, s\<lparr>tframes := tframes t\<rparr>)" if "arg0 p t = of_nat d \<and> t = ?s\<lparr>tframes := tframes t\<rparr>" for t
          by (rule close_after_dup [OF c low(2,3) r conjunct1 [OF that] conjunct2 [OF that]])
      qed (use fo low in auto)
      then show ?thesis using low Some ff Cons by auto
    qed
  qed
qed

subsection \<open>Lemmas: pipe\<close>

text \<open>The last part of \<open>sys_pipe\<close>: storing the two descriptors.\<close>

lemma store_fds:
  fixes s :: "'a kmem_scheme"
  assumes wf: "pt_wf (mem s) pt F" "0 \<in> F" and own: "own_range (mem s) pt va 8" and pt: "p_pagetable (procs s p) = pt"
  shows "\<exists>good m. Option.bind (copyout h pt va (bytes_of 4 x) s) (\<lambda>(r, t). if r < 0 then Some (r, t) else copyout h (p_pagetable (procs t p)) (va + 4) (bytes_of 4 y) t)
      = Some (if good then 0 else -1, s\<lparr>mem := m\<rparr>) \<and> copied (mem s) pt va (bytes_of 4 x @ bytes_of 4 y) good m"
proof -
  have len: "length (bytes_of 4 z) = 4" for z by (simp add: bytes_of_def)
  have o: "own_range (mem s) pt va (length (bytes_of 4 x) + length (bytes_of 4 y))" using own by (simp add: len)
  obtain g m1 where 1: "copyout h pt va (bytes_of 4 x) s = Some (if g then 0 else -1, s\<lparr>mem := m1\<rparr>)" "copied (mem s) pt va (bytes_of 4 x) g m1"
    using copyout_copied [OF wf own_range_part(1) [OF o], of h] by blast
  show ?thesis
  proof (cases g)
    case False
    then show ?thesis using 1 copied_first [of "mem s" pt va "bytes_of 4 x" m1 "bytes_of 4 y"] by (intro exI [of _ False] exI [of _ m1]) simp
  next
    case True
    obtain g2 m2 where 2: "copyout h pt (va + 4) (bytes_of 4 y) (s\<lparr>mem := m1\<rparr>) = Some (if g2 then 0 else -1, s\<lparr>mem := m2\<rparr>)"
        "copied m1 pt (va + 4) (bytes_of 4 y) g2 m2"
      using copyout_copied [of "s\<lparr>mem := m1\<rparr>" pt F "va + 4" "bytes_of 4 y" h] own_range_copied [OF wf(1) o, of m1] 1(2) True wf(2) by (auto simp: len)
    have "copied (mem s) pt va (bytes_of 4 x @ bytes_of 4 y) g2 m2" using copied_twice [OF wf(1) o, of m1 g2 m2] 1(2) 2(2) True by (simp add: len)
    then show ?thesis using 1(1) 2(1) True pt by (intro exI [of _ g2] exI [of _ m2]) simp
  qed
qed

lemma pipe_undo_ok:
  fixes s :: "'a kfile_scheme"
  assumes c: "in_call h p s" and inv: "free_inv s ps" and pi: "good_page (kend s) pi" "pi \<notin> set ps" and op: "pipe_open (pipes s pi)"
    and f: "ftable s a = pipe_file False pi x" "ftable s b = pipe_file True pi y" and ab: "a \<noteq> b"
  defines "t \<equiv> \<lambda>fds. fold (\<lambda>fd. set_ofile p fd None) fds s"
  shows "\<exists>s'. pipe_undo h p fds a b s = Some (-1, s') \<and> in_call h p s' \<and> free_inv s' (pi # ps)
    \<and> ftable s' = (ftable s)(a := closed_file (ftable s a), b := closed_file (ftable s b)) \<and> p_ofile (procs s' p) = p_ofile (procs (t fds) p)"
proof -
  have k: "in_call h p (t fds) = in_call h p s" "free_inv (t fds) ps = free_inv s ps" "kend (t fds) = kend s" "pipes (t fds) = pipes s" "ftable (t fds) = ftable s"
    unfolding t_def by (induction fds arbitrary: s) simp_all
  have cb: "\<exists>s'. Option.bind (fileclose h a (t fds)) (fileclose h b) = Some s' \<and> in_call h p s' \<and> free_inv s' (pi # ps)
      \<and> ftable s' = (ftable (t fds))(a := closed_file (ftable (t fds) a), b := closed_file (ftable (t fds) b)) \<and> (\<forall>q. p_ofile (procs s' q) = p_ofile (procs (t fds) q))"
    by (rule pipe_close_both [where w = False]) (use c inv pi op f ab k in simp_all)
  then obtain s' where s': "Option.bind (fileclose h a (t fds)) (fileclose h b) = Some s'" "in_call h p s'" "free_inv s' (pi # ps)"
      "ftable s' = (ftable s)(a := closed_file (ftable s a), b := closed_file (ftable s b))" "p_ofile (procs s' p) = p_ofile (procs (t fds) p)"
    unfolding k by auto
  have "pipe_undo h p fds a b s = Some (-1, s')" using s'(1) unfolding pipe_undo_def t_def by (auto simp: Let_def bind_eq_Some_conv)
  then show ?thesis using s'(2-5) by blast
qed

text \<open>
  After a failed call the descriptors, the free entries of the file table and the free pages are what they were before.
\<close>

definition pipe_undone :: "nat \<Rightarrow> addr list \<Rightarrow> 'a kfile_scheme \<Rightarrow> int \<Rightarrow> 'a kfile_scheme \<Rightarrow> bool" where
  "pipe_undone p pgs s r s' \<longleftrightarrow> r = -1 \<and> p_ofile (procs s' p) = p_ofile (procs s p) \<and> free_inv s' pgs
     \<and> free_files (ftable s') = free_files (ftable s) \<and> files_ok (ftable s')"

text \<open>After a successful one the descriptors \<open>d\<close> and \<open>e\<close> are the two ends of the pipe in the page \<open>pi\<close>.\<close>

definition pipe_made :: "nat \<Rightarrow> nat \<Rightarrow> nat \<Rightarrow> nat \<Rightarrow> nat \<Rightarrow> addr \<Rightarrow> addr list \<Rightarrow> 'a kfile_scheme \<Rightarrow> int \<Rightarrow> 'a kfile_scheme \<Rightarrow> bool" where
  "pipe_made p a b d e pi ps s r s' \<longleftrightarrow> r = 0 \<and> p_ofile (procs s' p) = (p_ofile (procs s p))(d := Some a, e := Some b) \<and> free_inv s' ps
     \<and> ftable s' = (ftable s)(a := pipe_file False pi (ftable s a), b := pipe_file True pi (ftable s b))
     \<and> pipe_open (pipes s' pi) \<and> pipe_contents (pipes s' pi) = [] \<and> pipe_inv (pipes s' pi)"

lemma pipe_undoneI:
  fixes s :: "'a kfile_scheme"
  assumes c: "in_call h p t" and inv: "free_inv t ps" and pi: "good_page (kend t) pi" "pi \<notin> set ps" and op: "pipe_open (pipes t pi)"
    and ft: "ftable t = (ftable s)(a := pipe_file False pi (ftable s a), b := pipe_file True pi (ftable s b))"
    and ok: "files_ok (ftable s)" and fr: "free_files (ftable s) = a # b # fs"
    and o: "p_ofile (procs (fold (\<lambda>fd. set_ofile p fd None) fds t) p) = p_ofile (procs s p)"
  shows "\<exists>s'. pipe_undo h p fds a b t = Some (-1, s') \<and> in_call h p s' \<and> pipe_undone p (pi # ps) s (-1) s'"
proof -
  have ab: "a \<noteq> b" and z: "f_ref (ftable s a) = 0" "f_ref (ftable s b) = 0"
    using free_files_in(2) [of "ftable s"] free_files_in(1) [of _ "ftable s"] fr by auto
  have e: "ftable t a = pipe_file False pi (ftable s a)" "ftable t b = pipe_file True pi (ftable s b)" using ft ab by auto
  obtain s' where s': "pipe_undo h p fds a b t = Some (-1, s')" "in_call h p s'" "free_inv s' (pi # ps)"
      "ftable s' = (ftable t)(a := closed_file (ftable t a), b := closed_file (ftable t b))" "p_ofile (procs s' p) = p_ofile (procs s p)"
    using pipe_undo_ok [OF c inv pi op e ab, of fds] o by auto
  have "free_files (ftable s') = free_files (ftable s)" "files_ok (ftable s')"
    unfolding s'(4) using z ok ab ft by (intro free_files_cong, auto simp: closed_file_def files_ok_def)
  then show ?thesis using s' by (auto simp: pipe_undone_def)
qed

lemma ksys_pipe_run:
  fixes s :: "'a kfile_scheme"
  assumes c: "in_call h p s" and pa: "pipealloc h s = Some (Some (a, b), s1)" and c1: "in_call h p s1"
  shows "ksys_pipe h s = (case free_fds p s1 of
      [] \<Rightarrow> pipe_undo h p [] a b s1
    | [d] \<Rightarrow> pipe_undo h p [d] a b (set_ofile p d (Some a) s1)
    | d # e # _ \<Rightarrow>
        Option.bind (Option.bind (copyout h (p_pagetable (procs s1 p)) (arg0 p s) (bytes_of 4 (of_nat d)) (set_ofile p e (Some b) (set_ofile p d (Some a) s1)))
            (\<lambda>(r, t). if r < 0 then Some (r, t) else copyout h (p_pagetable (procs t p)) (arg0 p s + 4) (bytes_of 4 (of_nat e)) t))
          (\<lambda>(r, t). if r < 0 then pipe_undo h p [d, e] a b t else Some (0, t)))"
proof -
  note m = in_callD(6) [OF c] arg_call(2) [OF c, folded arg0_def]
  have f: "fdalloc h b (set_ofile p d (Some a) s1) = Some (case ds of [] \<Rightarrow> (None, set_ofile p d (Some a) s1)
      | e # _ \<Rightarrow> (Some e, set_ofile p e (Some b) (set_ofile p d (Some a) s1)))" if "free_fds p s1 = d # ds" for d ds
  proof -
    have "in_call h p (set_ofile p d (Some a) s1)" using c1 by simp
    then show ?thesis using fdalloc_call [of h p "set_ofile p d (Some a) s1" b] free_fds_tl(1) [OF that, of a] by simp
  qed
  consider "free_fds p s1 = []" | d where "free_fds p s1 = [d]" | d e ds where "free_fds p s1 = d # e # ds"
    by (cases "free_fds p s1" rule: remdups_adj.cases) auto
  then show ?thesis
  proof cases
    case 3
    then show ?thesis using m pa fdalloc_call [OF c1, of a] f [OF 3]
      by (simp add: ksys_pipe_def Let_def split: option.split prod.split bind_splits)
  qed (use m pa fdalloc_call [OF c1, of a] f in \<open>simp_all add: ksys_pipe_def\<close>)
qed

text \<open>What \<open>pipealloc\<close> has done, for the calls that follow it.\<close>

definition got_pipe :: "nat \<Rightarrow> nat \<Rightarrow> nat \<Rightarrow> nat \<Rightarrow> addr \<Rightarrow> addr list \<Rightarrow> 'a kfile_scheme \<Rightarrow> 'a kfile_scheme \<Rightarrow> bool" where
  "got_pipe h p a b pi ps s s1 \<longleftrightarrow> in_call h p s1 \<and> free_inv s1 ps \<and> good_page (kend s1) pi \<and> pi \<notin> set ps
     \<and> ftable s1 = (ftable s)(a := pipe_file False pi (ftable s a), b := pipe_file True pi (ftable s b))
     \<and> pipe_inv (pipes s1 pi) \<and> pipe_contents (pipes s1 pi) = [] \<and> pipe_open (pipes s1 pi) \<and> procs s1 = procs s
     \<and> (\<forall>b. pgno b \<noteq> pgno pi \<longrightarrow> mem s1 b = mem s b)"

lemma got_pipe_undo:
  fixes s :: "'a kfile_scheme"
  assumes g: "got_pipe h p a b pi ps s s1" and ok: "files_ok (ftable s)" and fr: "free_files (ftable s) = a # b # fs"
    and t: "in_call h p t" "free_inv t ps" "kend t = kend s1" "pipes t = pipes s1" "ftable t = ftable s1"
      "p_ofile (procs (fold (\<lambda>fd. set_ofile p fd None) fds t) p) = p_ofile (procs s p)"
  shows "\<exists>s'. pipe_undo h p fds a b t = Some (-1, s') \<and> in_call h p s' \<and> pipe_undone p (pi # ps) s (-1) s'"
  by (rule pipe_undoneI [OF t(1,2) _ _ _ _ ok fr t(6)]) (use t g in \<open>simp_all add: got_pipe_def\<close>)

lemma pipe_stores:
  fixes s :: "'a kfile_scheme"
  assumes g0: "got_pipe h p a b pi ps s s1" and ok: "files_ok (ftable s)" and fr: "free_files (ftable s) = a # b # fs"
    and run: "ksys_pipe h s = Option.bind (Option.bind (copyout h (p_pagetable (procs s1 p)) (arg0 p s) (bytes_of 4 (of_nat d)) (set_ofile p e (Some b) (set_ofile p d (Some a) s1)))
            (\<lambda>(r, t). if r < 0 then Some (r, t) else copyout h (p_pagetable (procs t p)) (arg0 p s + 4) (bytes_of 4 (of_nat e)) t))
          (\<lambda>(r, t). if r < 0 then pipe_undo h p [d, e] a b t else Some (0, t))"
    and free: "p_ofile (procs s p) d = None" "p_ofile (procs s p) e = None"
    and wf: "pt_wf (mem s) (p_pagetable (procs s p)) F" "0 \<in> F" and own: "own_range (mem s) (p_pagetable (procs s p)) (arg0 p s) 8"
    and ap: "pgno pi \<notin> tables (mem s) (p_pagetable (procs s p))" "pgno ` urange (mem s) (p_pagetable (procs s p)) (arg0 p s) 8 \<inter> pgno ` set ps = {}"
  shows "\<exists>r s'. ksys_pipe h s = Some (r, s') \<and> in_call h p s' \<and>
     (if \<forall>i<8. uaddr (mem s) (p_pagetable (procs s p)) (arg0 p s + of_nat i) \<noteq> None
      then pipe_made p a b d e pi ps s r s' \<and> (\<forall>i<8. \<forall>x. uaddr (mem s) (p_pagetable (procs s p)) (arg0 p s + of_nat i) = Some x
           \<longrightarrow> mem s' x = (bytes_of 4 (of_nat d) @ bytes_of 4 (of_nat e)) ! i)
      else pipe_undone p (pi # ps) s r s')"
proof -
  have s1: "in_call h p s1" "free_inv s1 ps" "procs s1 = procs s" "\<forall>b. pgno b \<noteq> pgno pi \<longrightarrow> mem s1 b = mem s b" using g0 by (simp_all add: got_pipe_def)
  let ?t = "set_ofile p e (Some b) (set_ofile p d (Some a) s1)" and ?pt = "p_pagetable (procs s p)" and ?va = "arg0 p s"
  let ?bs = "bytes_of 4 (of_nat d) @ bytes_of 4 (of_nat e)"
  have t: "mem s1 x = mem s x" if "pgno x \<in> tables (mem s) ?pt" for x using that ap(1) s1(4) by (cases "pgno x = pgno pi") auto
  note tc = tables_cong [OF wf(1) t]
  have u: "uaddr (mem s1) ?pt v = uaddr (mem s) ?pt v" for v using tc(3) by (simp add: uaddr_def)
  have "own_range (mem ?t) ?pt ?va 8" using own tc(2) u by (simp add: own_range_def)
  moreover have "pt_wf (mem ?t) ?pt F" "p_pagetable (procs ?t p) = ?pt" using tc(1) s1(3) by simp_all
  ultimately obtain good m where g: "Option.bind (copyout h ?pt ?va (bytes_of 4 (of_nat d)) ?t)
      (\<lambda>(r, t). if r < 0 then Some (r, t) else copyout h (p_pagetable (procs t p)) (?va + 4) (bytes_of 4 (of_nat e)) t)
    = Some (if good then 0 else -1, ?t\<lparr>mem := m\<rparr>)" "copied (mem ?t) ?pt ?va ?bs good m"
    using store_fds [of ?t ?pt F ?va p h "of_nat d" "of_nat e"] wf(2) by blast
  have len: "length ?bs = 8" by (simp add: bytes_of_def)
  have cp: "good \<longleftrightarrow> (\<forall>i<8. uaddr (mem s) ?pt (?va + of_nat i) \<noteq> None)" "\<forall>a. a \<notin> urange (mem s) ?pt ?va 8 \<longrightarrow> m a = mem s1 a"
    "good \<longrightarrow> (\<forall>i<8. \<forall>x. uaddr (mem s) ?pt (?va + of_nat i) = Some x \<longrightarrow> m x = ?bs ! i)"
    using g(2) unfolding copied_def len by (simp_all add: u urange_def)
  have fi: "free_inv (?t\<lparr>mem := m\<rparr>) ps" by (rule free_inv_user [where U = "urange (mem s) ?pt ?va 8"]) (use s1(2) cp(2) ap(2) in auto)
  have ct: "in_call h p (?t\<lparr>mem := m\<rparr>)" using s1(1) by simp
  have run3: "ksys_pipe h s = (if good then Some (0, ?t\<lparr>mem := m\<rparr>) else pipe_undo h p [d, e] a b (?t\<lparr>mem := m\<rparr>))"
    using run g(1) s1(3) by simp
  show ?thesis
  proof (cases good)
    case True
    have "pipe_made p a b d e pi ps s 0 (?t\<lparr>mem := m\<rparr>)" using fi g0 by (simp add: pipe_made_def got_pipe_def)
    then show ?thesis using run3 True cp ct by (intro exI [of _ 0] exI [of _ "?t\<lparr>mem := m\<rparr>"]) simp
  next
    case False
    have "p_ofile (procs (fold (\<lambda>fd. set_ofile p fd None) [d, e] (?t\<lparr>mem := m\<rparr>)) p) = p_ofile (procs s p)" using free s1(3) by (auto simp: fun_eq_iff)
    from got_pipe_undo [OF g0 ok fr ct fi _ _ _ this] obtain s' where "pipe_undo h p [d, e] a b (?t\<lparr>mem := m\<rparr>) = Some (-1, s')" "in_call h p s'" "pipe_undone p (pi # ps) s (-1) s'" by auto
    then show ?thesis using run3 False cp(1) by (intro exI [of _ "-1"] exI [of _ s']) auto
  qed
qed

text \<open>
  C10. \<open>pipe\<close> is all or nothing. It succeeds when there are two free entries in the file table, two free descriptors and a free page, and the
  whole array of the caller is mapped; then the two lowest free descriptors are the read and the write end of a new empty
  pipe and stand in the caller's array. In every other case it returns -1 and the descriptors, the file table's free entries
  and the free pages are exactly what they were: nothing leaks, also when storing the second descriptor
  fails after the first has been stored.
\<close>

theorem pipe_all_or_nothing:
  fixes s :: "'a kfile_scheme"
  assumes c: "in_call h p s" and ok: "files_ok (ftable s)" and inv: "free_inv s pgs"
    and wf: "pt_wf (mem s) (p_pagetable (procs s p)) F" "0 \<in> F" and own: "own_range (mem s) (p_pagetable (procs s p)) (arg0 p s) 8"
    and ap: "tables (mem s) (p_pagetable (procs s p)) \<inter> pgno ` set pgs = {}"
      "pgno ` urange (mem s) (p_pagetable (procs s p)) (arg0 p s) 8 \<inter> pgno ` set pgs = {}"
  shows "\<exists>r s'. ksys_pipe h s = Some (r, s') \<and> in_call h p s' \<and>
    (case (free_files (ftable s), free_fds p s, pgs) of
       (a # b # _, d # e # _, pi # ps) \<Rightarrow>
         if \<forall>i<8. uaddr (mem s) (p_pagetable (procs s p)) (arg0 p s + of_nat i) \<noteq> None
         then pipe_made p a b d e pi ps s r s' \<and> (\<forall>i<8. \<forall>x. uaddr (mem s) (p_pagetable (procs s p)) (arg0 p s + of_nat i) = Some x
           \<longrightarrow> mem s' x = (bytes_of 4 (of_nat d) @ bytes_of 4 (of_nat e)) ! i)
         else pipe_undone p pgs s r s'
     | _ \<Rightarrow> pipe_undone p pgs s r s')"
proof (cases "length (free_files (ftable s)) < 2 \<or> pgs = []")
  case True
  then have "ksys_pipe h s = Some (-1, s)" using pipealloc_fail [OF c ok inv] in_callD(6) [OF c] arg_call(2) [OF c] by (simp add: ksys_pipe_def)
  moreover have "pipe_undone p pgs s (-1) s" using inv ok by (simp add: pipe_undone_def)
  ultimately show ?thesis using c True by (intro exI [of _ "-1"] exI [of _ s]) (auto split: list.split)
next
  case False
  then obtain a b fs pi ps where fr: "free_files (ftable s) = a # b # fs" and pg: "pgs = pi # ps"
    by (cases "free_files (ftable s)" rule: remdups_adj.cases; cases pgs) auto
  have i: "free_inv s (pi # ps)" using inv pg by simp
  obtain s1 where s1: "pipealloc h s = Some (Some (a, b), s1)" "in_call h p s1" "got_pipe h p a b pi ps s s1" "procs s1 = procs s" "free_inv s1 ps"
    using pipealloc_ok [OF c i fr] i by (auto simp: got_pipe_def free_inv_def)
  note run = ksys_pipe_run [OF c s1(1,2)]
  have fds: "free_fds p s1 = free_fds p s" using s1(4) by (simp add: free_fds_def)
  note undo = got_pipe_undo [OF s1(3) ok fr]
  consider "free_fds p s = []" | d where "free_fds p s = [d]" | d e ds where "free_fds p s = d # e # ds"
    by (cases "free_fds p s" rule: remdups_adj.cases) auto
  then show ?thesis
  proof cases
    case 1
    then obtain s' where "ksys_pipe h s = Some (-1, s')" "in_call h p s'" "pipe_undone p (pi # ps) s (-1) s'" using undo [of s1 "[]"] s1 run fds by auto
    then show ?thesis using fr 1 pg by (intro exI [of _ "-1"] exI [of _ s']) simp
  next
    case (2 d)
    let ?t = "set_ofile p d (Some a) s1"
    have "p_ofile (procs (fold (\<lambda>fd. set_ofile p fd None) [d] ?t) p) = p_ofile (procs s p)" using free_fds_tl(2) [OF 2] s1(4) by (simp add: fun_upd_idem)
    from undo [OF _ _ _ _ _ this] obtain s' where "ksys_pipe h s = Some (-1, s')" "in_call h p s'" "pipe_undone p (pi # ps) s (-1) s'" using s1 run fds 2 by auto
    then show ?thesis using fr 2 pg by (intro exI [of _ "-1"] exI [of _ s']) simp
  next
    case (3 d e ds)
    have "e \<in> set (free_fds p s)" using 3 by simp
    then have "p_ofile (procs s p) e = None" by (simp add: free_fds_def)
    moreover have "pgno pi \<notin> tables (mem s) (p_pagetable (procs s p))"
      "pgno ` urange (mem s) (p_pagetable (procs s p)) (arg0 p s) 8 \<inter> pgno ` set ps = {}" using ap pg by auto
    ultimately show ?thesis using pipe_stores [OF s1(3) ok fr run [unfolded fds 3 list.case] free_fds_tl(2) [OF 3] _ wf own]
      unfolding fr 3 pg prod.case list.case by blast
  qed
qed

subsection \<open>Example\<close>

text \<open>A process with one open descriptor, which holds one of the two references to file 0.\<close>

definition kfile3 :: kfile where
  "kfile3 = kfile0\<lparr>procs := (\<lambda>_. proc0)(3 := proc0\<lparr>p_ofile := (\<lambda>_. None)(0 := Some 0)\<rparr>), tframes := (\<lambda>_. tf0)\<rparr>"

lemma kfile3_ok: "in_call 0 3 kfile3" "fd_arg 3 kfile3 = Some (0, 0)" "free_fds 3 kfile3 = 1 # [2..<NOFILE]"
  "f_ref (ftable kfile3 0) = 2"
proof -
  show "in_call 0 3 kfile3" using kfile0_ok(1) by (subst in_call_cong [of _ kfile0]) (simp_all add: kfile3_def)
  show "fd_arg 3 kfile3 = Some (0, 0)" by (simp add: fd_arg_def arg0_def kfile3_def tf0_def NOFILE_def proc0_def)
  show "free_fds 3 kfile3 = 1 # [2..<NOFILE]" by (simp add: free_fds_def kfile3_def NOFILE_def upt_conv_Cons)
  show "f_ref (ftable kfile3 0) = 2" by (simp add: kfile3_def kfile0_def kfs.defs)
qed

theorem dup_close_witness:
  "\<exists>s'. ksys_dup 0 kfile3 = Some (1, s') \<and> p_ofile (procs s' 3) 1 = Some 0 \<and> sint (f_ref (ftable s' 0)) = 3
    \<and> ksys_close 0 (s'\<lparr>tframes := (\<lambda>_. tf0\<lparr>tf_a0 := 1\<rparr>)\<rparr>) = Some (0, kfile3\<lparr>tframes := (\<lambda>_. tf0\<lparr>tf_a0 := 1\<rparr>)\<rparr>)"
proof -
  obtain s' where s': "ksys_dup 0 kfile3 = Some (1, s')" "p_ofile (procs s' 3) = (p_ofile (procs kfile3 3))(1 := Some 0)"
    "sint (f_ref (ftable s' 0)) = 3"
    "\<And>t. arg0 3 t = of_nat 1 \<and> t = s'\<lparr>tframes := tframes t\<rparr> \<Longrightarrow> ksys_close 0 t = Some (0, kfile3\<lparr>tframes := tframes t\<rparr>)"
    using dup_close [OF kfile3_ok(1)] kfile3_ok(4) unfolding kfile3_ok(2,3) option.case prod.case list.case by auto
  have "ksys_close 0 (s'\<lparr>tframes := (\<lambda>_. tf0\<lparr>tf_a0 := 1\<rparr>)\<rparr>) = Some (0, kfile3\<lparr>tframes := (\<lambda>_. tf0\<lparr>tf_a0 := 1\<rparr>)\<rparr>)"
    using s'(4) [of "s'\<lparr>tframes := (\<lambda>_. tf0\<lparr>tf_a0 := 1\<rparr>)\<rparr>"] by (simp add: arg0_def)
  then show ?thesis using s'(1-3) by (intro exI [of _ s']) simp
qed

text \<open>The same caller with an address space that has one user page, at \<open>0x1000\<close>, and one free page outside of it.\<close>

definition kfile4 :: "mem \<Rightarrow> kfile" where
  "kfile4 m = kfile0\<lparr>mem := m, freelist := 0x86fff000, kend := 0x86ffe000,
     procs := (\<lambda>_. proc0\<lparr>p_pagetable := 0x80000000\<rparr>), tframes := (\<lambda>_. tf0\<lparr>tf_a0 := 0x1000\<rparr>)\<rparr>"

lemma kfile4_ok: "in_call 0 3 (kfile4 m)" "files_ok (ftable (kfile4 m))" "free_files (ftable (kfile4 m)) = 1 # 2 # [3..<NFILE]"
  "free_fds 3 (kfile4 m) = 0 # 1 # [2..<NOFILE]"
proof -
  show "in_call 0 3 (kfile4 m)" using kfile0_ok(1) by (subst in_call_cong [of _ kfile0]) (simp_all add: kfile4_def)
  show "files_ok (ftable (kfile4 m))" "free_files (ftable (kfile4 m)) = 1 # 2 # [3..<NFILE]"
    using kfile0_ok(2) kfile0_files by (simp_all add: kfile4_def)
  show "free_fds 3 (kfile4 m) = 0 # 1 # [2..<NOFILE]" by (simp add: free_fds_def kfile4_def proc0_def NOFILE_def upt_conv_Cons)
qed

lemma user_page_clean:
  "\<exists>m. pt_wf m 0x80000000 {0} \<and> 0x80001 \<notin> tables m 0x80000000 \<and> 0x86fff \<notin> tables m 0x80000000 \<and> ld64 0x86fff000 m = 0
    \<and> (\<forall>i<4096. uaddr m 0x80000000 (0x1000 + of_nat i) = Some (0x80001000 + of_nat i) \<and> pgno (0x80001000 + of_nat i) = 0x80001)"
proof -
  let ?pt = "0x80000000 :: addr"
  obtain m where m: "pt_wf m ?pt {0}" "0x80001 \<notin> tables m ?pt" "tables m ?pt \<subseteq> {0x80000, 0x87fff, 0x87ffe}"
    "\<And>i. i < 4096 \<Longrightarrow> uaddr m ?pt (0x1000 + of_nat i) = Some (0x80001000 + of_nat i)"
    "\<And>i. i < 4096 \<Longrightarrow> pgno (0x80001000 + of_nat i) = 0x80001"
    using user_page by blast
  let ?m = "\<lambda>b. if pgno b \<in> tables m ?pt then m b else 0"
  have cg: "pt_wf ?m ?pt {0}" "tables ?m ?pt = tables m ?pt" "\<And>va. translate ?m ?pt va = translate m ?pt va"
    by (rule tables_cong [OF m(1)]; simp)+
  have out: "0x86fff \<notin> tables m ?pt" using m(3) by auto
  have "ld64 0x86fff000 ?m = ld64 0x86fff000 (\<lambda>_. 0)"
    unfolding ld64_def using out by (simp add: pgno_def)
  then have "ld64 0x86fff000 ?m = 0" by (simp add: ld64_def)
  moreover have "uaddr ?m ?pt va = uaddr m ?pt va" for va by (simp only: uaddr_def cg(3))
  ultimately show ?thesis using cg(1,2) m out by (intro exI [of _ ?m]) simp
qed

theorem pipe_all_or_nothing_witness:
  "\<exists>m s'. ksys_pipe 0 (kfile4 m) = Some (0, s') \<and> p_ofile (procs s' 3) 0 = Some 1 \<and> p_ofile (procs s' 3) 1 = Some 2
    \<and> pipe_contents (pipes s' 0x86fff000) = [] \<and> free_inv s' [] \<and> mem s' 0x80001000 = 0 \<and> mem s' 0x80001004 = 1"
proof -
  let ?pt = "0x80000000 :: addr"
  obtain m where m: "pt_wf m ?pt {0}" "0x80001 \<notin> tables m ?pt" "0x86fff \<notin> tables m ?pt" "ld64 0x86fff000 m = 0"
    and ua: "\<And>i. i < 4096 \<Longrightarrow> uaddr m ?pt (0x1000 + of_nat i) = Some (0x80001000 + of_nat i)"
    and pg: "\<And>i. i < 4096 \<Longrightarrow> pgno (0x80001000 + of_nat i) = 0x80001"
    using user_page_clean by blast
  let ?s = "kfile4 m"
  have sel [simp]: "mem ?s = m" "p_pagetable (procs ?s 3) = ?pt" "arg0 3 ?s = 0x1000" by (simp_all add: kfile4_def arg0_def)
  have inv: "free_inv ?s [0x86fff000]"
    using m(4) by (simp add: kfile4_def free_inv_def good_page_def PGSIZE_def PHYSTOP_def KERNBASE_def)
  have own: "own_range m ?pt 0x1000 8" unfolding own_range_def using m(2) ua pg of_nat_page_inj by auto
  have "urange m ?pt 0x1000 8 \<subseteq> {a. pgno a = 0x80001}" using ua pg by (auto simp: urange_def)
  then have "pgno ` urange m ?pt 0x1000 8 \<inter> pgno ` set [0x86fff000] = {}" by (auto simp: pgno_def)
  moreover have "tables m ?pt \<inter> pgno ` set [0x86fff000] = {}" using m(3) by (simp add: pgno_def)
  ultimately obtain r s' where rs: "ksys_pipe 0 ?s = Some (r, s')" "pipe_made 3 1 2 0 1 0x86fff000 [] ?s r s'"
    "\<forall>i<8. mem s' (0x80001000 + of_nat i) = (bytes_of 4 0 @ bytes_of 4 1) ! i"
    using pipe_all_or_nothing [OF kfile4_ok(1,2) inv, of "{0}"] m(1) own ua unfolding kfile4_ok(3,4) prod.case list.case sel by auto
  have "mem s' 0x80001000 = 0" using rs(3) [rule_format, of 0] by (simp add: bytes_of_def nth_append)
  moreover have "mem s' 0x80001004 = 1" using rs(3) [rule_format, of 4] by (simp add: bytes_of_def nth_append)
  ultimately show ?thesis using rs(1,2) by (intro exI [of _ m] exI [of _ s']) (simp add: pipe_made_def)
qed

end
