(* ===== verification/Exec.thy ===== *)
theory Exec
  imports Sysfile
begin

text \<open>
  \<open>labo2/kernel/exec.c\<close>: replacing the memory of a process by a program from an ELF file, and \<open>sys_exec\<close> of \<open>sysfile.c\<close>, which copies the
  arguments into kernel pages first. The arguments of \<open>exec\<close> are the addresses of those pages.
\<close>

subsection \<open>ELF files\<close>

definition ELF_MAGIC :: uint64 where "ELF_MAGIC = 0x464C457F"
definition ELF_PROG_LOAD :: uint64 where "ELF_PROG_LOAD = 1"
definition ELFHDR :: uint where "ELFHDR = 64"
definition PROGHDR :: uint where "PROGHDR = 56"
definition MAXARG :: nat where "MAXARG = 32"

definition elf_field :: "nat \<Rightarrow> nat \<Rightarrow> uchar list \<Rightarrow> uint64" where
  "elf_field off n bs = le_word (take n (drop off bs))"

text \<open>The fields of the two headers that \<open>exec\<close> uses.\<close>

record elfhdr =
  elf_magic :: uint64
  elf_entry :: uint64
  elf_phoff :: uint64
  elf_phnum :: nat

definition elf_of :: "uchar list \<Rightarrow> elfhdr" where
  "elf_of bs = \<lparr>elf_magic = elf_field 0 4 bs, elf_entry = elf_field 24 8 bs, elf_phoff = elf_field 32 8 bs, elf_phnum = unat (elf_field 56 2 bs)\<rparr>"

record proghdr =
  ph_type :: uint64
  ph_flags :: uint64
  ph_off :: uint64
  ph_vaddr :: uint64
  ph_filesz :: uint64
  ph_memsz :: uint64

definition ph_of :: "uchar list \<Rightarrow> proghdr" where
  "ph_of bs = \<lparr>ph_type = elf_field 0 4 bs, ph_flags = elf_field 4 4 bs, ph_off = elf_field 8 8 bs, ph_vaddr = elf_field 16 8 bs,
     ph_filesz = elf_field 32 8 bs, ph_memsz = elf_field 40 8 bs\<rparr>"

definition flags2perm :: "uint64 \<Rightarrow> uint64" where
  "flags2perm flags = (let perm = (if flags AND 1 \<noteq> 0 then PTE_X else 0) in if flags AND 2 \<noteq> 0 then perm OR PTE_W else perm)"

subsection \<open>Loading\<close>

text \<open>The loop may run for ever when \<open>i\<close> wraps around; then it has no result.\<close>

partial_function (option) loadseg_loop ::
  "nat \<Rightarrow> addr \<Rightarrow> addr \<Rightarrow> nat \<Rightarrow> uint \<Rightarrow> uint \<Rightarrow> uint \<Rightarrow> 'a kfs_scheme \<Rightarrow> (int \<times> 'a kfs_scheme) option" where
  "loadseg_loop h pagetable va ip offset sz i s =
     (if i < sz then
        Option.bind (walkaddr h pagetable (va + ucast i) s) (\<lambda>pa.
          if pa = 0 then None
          else let n = (if sz - i < 4096 then sz - i else 4096) in
            Option.bind (readi h ip (DKern pa) (offset + i) n s) (\<lambda>(r, _, s).
              if r \<noteq> n then Some (-1, s) else loadseg_loop h pagetable va ip offset sz (i + 4096) s))
      else Some (0, s))"

definition loadseg :: "nat \<Rightarrow> addr \<Rightarrow> addr \<Rightarrow> nat \<Rightarrow> uint \<Rightarrow> uint \<Rightarrow> 'a kfs_scheme \<Rightarrow> (int \<times> 'a kfs_scheme) option" where
  "loadseg h pagetable va ip offset sz s = loadseg_loop h pagetable va ip offset sz 0 s"

definition ph_bad :: "proghdr \<Rightarrow> bool" where
  "ph_bad ph \<longleftrightarrow> ph_memsz ph < ph_filesz ph \<or> ph_vaddr ph + ph_memsz ph < ph_vaddr ph \<or> ph_vaddr ph mod PGSIZE \<noteq> 0"

text \<open>One program header, already read; whether it was good, and the new size.\<close>

definition exec_segment :: "nat \<Rightarrow> nat \<Rightarrow> addr \<Rightarrow> proghdr \<Rightarrow> uint64 \<Rightarrow> 'a kfs_scheme \<Rightarrow> (bool \<times> uint64 \<times> 'a kfs_scheme) option" where
  "exec_segment h ip pagetable ph sz s =
     (if ph_type ph \<noteq> ELF_PROG_LOAD then Some (True, sz, s)
      else if ph_bad ph then Some (False, sz, s)
      else do {
        (sz1, s) \<leftarrow> uvmalloc h pagetable sz (ph_vaddr ph + ph_memsz ph) (flags2perm (ph_flags ph)) s;
        if sz1 = 0 then Some (False, sz, s)
        else do {
          (r, s) \<leftarrow> loadseg h pagetable (ph_vaddr ph) ip (ucast (ph_off ph)) (ucast (ph_filesz ph)) s;
          Some (r \<ge> 0, sz1, s) } })"

text \<open>The loop over the program headers, with \<open>n\<close> of them left.\<close>

primrec exec_load :: "nat \<Rightarrow> nat \<Rightarrow> addr \<Rightarrow> nat \<Rightarrow> uint \<Rightarrow> uint64 \<Rightarrow> 'a kfs_scheme \<Rightarrow> (bool \<times> uint64 \<times> 'a kfs_scheme) option" where
  "exec_load h ip pagetable 0 off sz s = Some (True, sz, s)"
| "exec_load h ip pagetable (Suc n) off sz s = do {
     (r, bs, s) \<leftarrow> readi h ip DLocal off PROGHDR s;
     if r \<noteq> PROGHDR then Some (False, sz, s)
     else do {
       (good, sz, s) \<leftarrow> exec_segment h ip pagetable (ph_of bs) sz s;
       if good then exec_load h ip pagetable n (off + PROGHDR) sz s else Some (False, sz, s) } }"

subsection \<open>The stack\<close>

definition align16 :: "uint64 \<Rightarrow> uint64" where
  "align16 sp = sp - sp mod 16"

text \<open>
  Push the argument strings. The result is the stack pointer and the addresses of the strings, or \<open>None\<close> when they
  do not fit.
\<close>

fun push_args ::
  "nat \<Rightarrow> addr \<Rightarrow> uint64 \<Rightarrow> addr list \<Rightarrow> uint64 \<Rightarrow> uint64 list \<Rightarrow> 'a kmem_scheme \<Rightarrow> ((uint64 \<times> uint64 list) option \<times> 'a kmem_scheme) option" where
  "push_args h pagetable stackbase [] sp ustack s = Some (Some (sp, ustack), s)"
| "push_args h pagetable stackbase (a # argv) sp ustack s =
     (if length ustack \<ge> MAXARG then Some (None, s)
      else do {
        n \<leftarrow> strlen a (mem s);
        let sp = align16 (sp - of_nat (n + 1));
        if sp < stackbase then Some (None, s)
        else do {
          (r, s) \<leftarrow> copyout h pagetable sp (get_bytes a (n + 1) (mem s)) s;
          if r < 0 then Some (None, s)
          else push_args h pagetable stackbase argv sp (ustack @ [sp]) s } })"

text \<open>The whole stack: the strings, then the array of their addresses with a null pointer at the end.\<close>

definition push_stack ::
  "nat \<Rightarrow> addr \<Rightarrow> uint64 \<Rightarrow> addr list \<Rightarrow> 'a kmem_scheme \<Rightarrow> (uint64 option \<times> 'a kmem_scheme) option" where
  "push_stack h pagetable sz argv s = do {
     let stackbase = sz - PGSIZE;
     (r, s) \<leftarrow> push_args h pagetable stackbase argv sz [] s;
     case r of None \<Rightarrow> Some (None, s)
     | Some (sp, ustack) \<Rightarrow>
         if length ustack \<ge> MAXARG then None
         else do {
           let sp = align16 (sp - of_nat ((length ustack + 1) * 8));
           if sp < stackbase then Some (None, s)
           else do {
             (r, s) \<leftarrow> copyout h pagetable sp (concat (map (bytes_of 8) (ustack @ [0]))) s;
             Some (if r < 0 then None else Some sp, s) } } }"

subsection \<open>exec\<close>

text \<open>\<open>goto bad\<close>, with the inode still locked and after it has been given up.\<close>

definition exec_free :: "nat \<Rightarrow> addr \<Rightarrow> uint64 \<Rightarrow> 'a kmem_scheme \<Rightarrow> 'a kmem_scheme option" where
  "exec_free h pagetable sz s = (if pagetable \<noteq> 0 then proc_freepagetable h pagetable sz s else Some s)"

definition exec_bad :: "nat \<Rightarrow> addr \<Rightarrow> uint64 \<Rightarrow> nat \<Rightarrow> 'a kfs_scheme \<Rightarrow> (int \<times> 'a kfs_scheme) option" where
  "exec_bad h pagetable sz ip s = do {
     s \<leftarrow> exec_free h pagetable sz s;
     s \<leftarrow> iunlockput h ip s;
     fail_op h s }"

definition last_elem :: "uchar list \<Rightarrow> uchar list" where
  "last_elem path = rev (takeWhile (\<lambda>c. c \<noteq> slash) (rev path))"

definition string_of :: "uchar list \<Rightarrow> string" where
  "string_of = map (\<lambda>b. char_of (unat b))"

text \<open>The new image takes effect.\<close>

definition exec_commit :: "nat \<Rightarrow> nat \<Rightarrow> uchar list \<Rightarrow> addr \<Rightarrow> uint64 \<Rightarrow> uint64 \<Rightarrow> uint64 \<Rightarrow> 'a kmem_scheme \<Rightarrow> 'a kmem_scheme option" where
  "exec_commit h p path pagetable sz sp pc0 s =
     (let s = upd_tf (p_trapframe (procs s p)) (\<lambda>t. t\<lparr>tf_a1 := sp\<rparr>) s;
          s = upd_proc p (\<lambda>q. q\<lparr>p_name := proc_name (string_of (last_elem path))\<rparr>) s;
          oldpagetable = p_pagetable (procs s p);
          oldsz = p_sz (procs s p);
          s = upd_proc p (\<lambda>q. q\<lparr>p_pagetable := pagetable, p_sz := sz\<rparr>) s;
          s = upd_tf (p_trapframe (procs s p)) (\<lambda>t. t\<lparr>tf_epc := pc0, tf_sp := sp\<rparr>) s
      in proc_freepagetable h oldpagetable oldsz s)"

text \<open>From the end of the loading on: guard page, stack, commit.\<close>

definition exec_run ::
  "nat \<Rightarrow> nat \<Rightarrow> uchar list \<Rightarrow> addr list \<Rightarrow> addr \<Rightarrow> uint64 \<Rightarrow> uint64 \<Rightarrow> 'a kmem_scheme \<Rightarrow> (int \<times> 'a kmem_scheme) option" where
  "exec_run h p path argv pagetable sz pc0 s = do {
     let sz = PGROUNDUP sz;
     (sz1, s) \<leftarrow> uvmalloc h pagetable sz (sz + 2 * PGSIZE) PTE_W s;
     if sz1 = 0 then do { s \<leftarrow> exec_free h pagetable sz s; Some (-1, s) }
     else do {
       s \<leftarrow> uvmclear h pagetable (sz1 - 2 * PGSIZE) s;
       (r, s) \<leftarrow> push_stack h pagetable sz1 argv s;
       case r of None \<Rightarrow> do { s \<leftarrow> exec_free h pagetable sz1 s; Some (-1, s) }
       | Some sp \<Rightarrow> do {
           s \<leftarrow> exec_commit h p path pagetable sz1 sp pc0 s;
           Some (int (length argv), s) } } }"

definition exec :: "nat \<Rightarrow> uchar list \<Rightarrow> addr list \<Rightarrow> 'a kfs_scheme \<Rightarrow> (int \<times> 'a kfs_scheme) option" where
  "exec h path argv s = do {
     (mp, s) \<leftarrow> myproc h s;
     p \<leftarrow> mp;
     s \<leftarrow> start_op h s;
     (ip, s) \<leftarrow> namei h path s;
     case ip of None \<Rightarrow> fail_op h s
     | Some ip \<Rightarrow> do {
         s \<leftarrow> ilock h ip s;
         (r, bs, s) \<leftarrow> readi h ip DLocal 0 ELFHDR s;
         let elf = elf_of bs;
         if r \<noteq> ELFHDR \<or> elf_magic elf \<noteq> ELF_MAGIC then exec_bad h 0 0 ip s
         else do {
           (pagetable, s) \<leftarrow> proc_pagetable h p s;
           if pagetable = 0 then exec_bad h 0 0 ip s
           else do {
             (good, sz, s) \<leftarrow> exec_load h ip pagetable (elf_phnum elf) (ucast (elf_phoff elf)) 0 s;
             if \<not> good then exec_bad h pagetable sz ip s
             else do {
               s \<leftarrow> iunlockput h ip s;
               s \<leftarrow> end_op h s;
               exec_run h p path argv pagetable sz (elf_entry elf) s } } } } }"

subsection \<open>sys\_exec\<close>

text \<open>Whether all arguments were fetched, and the pages taken.\<close>

primrec fetch_args :: "nat \<Rightarrow> nat \<Rightarrow> addr \<Rightarrow> addr list \<Rightarrow> 'a kmem_scheme \<Rightarrow> (bool \<times> addr list \<times> 'a kmem_scheme) option" where
  "fetch_args 0 h uargv argv s = Some (False, argv, s)"
| "fetch_args (Suc n) h uargv argv s = do {
     (uarg, s) \<leftarrow> fetchaddr h (uargv + 8 * of_nat (length argv)) s;
     case uarg of None \<Rightarrow> Some (False, argv, s)
     | Some uarg \<Rightarrow>
         if uarg = 0 then Some (True, argv, s)
         else do {
           (pa, s) \<leftarrow> kalloc h s;
           if pa = 0 then Some (False, argv, s)
           else do {
             (good, bs, s) \<leftarrow> fetchstr h uarg 4096 s;
             let s = s\<lparr>mem := put_bytes pa bs (mem s)\<rparr>;
             if good then fetch_args n h uargv (argv @ [pa]) s else Some (False, argv @ [pa], s) } } }"

definition ksys_exec :: "nat \<Rightarrow> 'a kfs_scheme \<Rightarrow> (int \<times> 'a kfs_scheme) option" where
  "ksys_exec h s = do {
     (uargv, s) \<leftarrow> argaddr h 1 s;
     (path, s) \<leftarrow> argstr h 0 MAXPATH s;
     case path of None \<Rightarrow> Some (-1, s)
     | Some path \<Rightarrow> do {
         (good, argv, s) \<leftarrow> fetch_args MAXARG h uargv [] s;
         (ret, s) \<leftarrow> (if good then exec h path argv s else Some (-1, s));
         s \<leftarrow> forM (kfree h) argv s;
         Some (ret, s) } }"

subsection \<open>Lemmas: the stack page\<close>

text \<open>The page at the user address \<open>b\<close> is mapped to the physical page at \<open>ph\<close>, which is none of the page table's own.\<close>

definition stack_page :: "mem \<Rightarrow> addr \<Rightarrow> addr \<Rightarrow> addr \<Rightarrow> nat set \<Rightarrow> bool" where
  "stack_page m pt b ph F \<longleftrightarrow> pt_wf m pt F \<and> 0 \<in> F
     \<and> (\<forall>i<4096. uaddr m pt (b + of_nat i) = Some (ph + of_nat i) \<and> pgno (ph + of_nat i) \<notin> tables m pt)"

text \<open>What the process sees of the memory.\<close>

definition uview :: "mem \<Rightarrow> addr \<Rightarrow> mem" where
  "uview m pt va = (case uaddr m pt va of Some a \<Rightarrow> m a | None \<Rightarrow> 0)"

lemma stack_page_at: "stack_page m pt b ph F \<Longrightarrow> i < 4096 \<Longrightarrow> uaddr m pt (b + of_nat i) = Some (ph + of_nat i)"
  by (simp add: stack_page_def)

lemma stack_page_out: "stack_page m pt b ph F \<Longrightarrow> i < 4096 \<Longrightarrow> pgno (ph + of_nat i) \<notin> tables m pt"
  by (simp add: stack_page_def)

lemma stack_page_cong:
  assumes st: "stack_page m pt b ph F" and eq: "\<And>a. (\<And>i. i < 4096 \<Longrightarrow> a \<noteq> ph + of_nat i) \<Longrightarrow> m' a = m a"
  shows "stack_page m' pt b ph F" and "uaddr m' pt va = uaddr m pt va"
proof -
  have wf: "pt_wf m pt F" and out: "\<And>i. i < 4096 \<Longrightarrow> pgno (ph + of_nat i) \<notin> tables m pt" using st by (simp_all add: stack_page_def)
  have "m' a = m a" if "pgno a \<in> tables m pt" for a using eq [of a] out that by metis
  note cg = tables_cong [OF wf this]
  show u: "uaddr m' pt va = uaddr m pt va" for va by (simp add: uaddr_def cg(3))
  show "stack_page m' pt b ph F" using st cg(1,2) u by (simp add: stack_page_def)
qed

lemma stack_copy:
  fixes s :: "'a kmem_scheme"
  assumes st: "stack_page (mem s) pt b ph F" and len: "off + length src \<le> 4096"
  shows "\<exists>m'. copyout h pt (b + of_nat off) src s = Some (0, s\<lparr>mem := m'\<rparr>) \<and> stack_page m' pt b ph F
    \<and> (\<forall>k<length src. m' (ph + of_nat (off + k)) = src ! k)
    \<and> (\<forall>a. (\<forall>k<length src. a \<noteq> ph + of_nat (off + k)) \<longrightarrow> m' a = mem s a)"
proof -
  have u: "uaddr (mem s) pt (b + of_nat off + of_nat k) = Some (ph + of_nat (off + k))" if "k < length src" for k
    using stack_page_at [OF st, of "off + k"] that len by (simp add: add.assoc)
  have "pgno (ph + of_nat (off + k)) \<notin> tables (mem s) pt" if "k < length src" for k using stack_page_out [OF st, of "off + k"] that len by linarith
  moreover have "k = j" if "ph + of_nat (off + k) = ph + of_nat (off + j)" "k < length src" "j < length src" for k j
    using of_nat_page_inj [of "off + k" "off + j"] that len by simp
  ultimately have own: "own_range (mem s) pt (b + of_nat off) (length src)" unfolding own_range_def using u by fastforce
  have wf: "pt_wf (mem s) pt F" "0 \<in> F" using st by (simp_all add: stack_page_def)
  obtain good m' where c: "copyout h pt (b + of_nat off) src s = Some (if good then 0 else -1, s\<lparr>mem := m'\<rparr>)"
      "copied (mem s) pt (b + of_nat off) src good m'" using copyout_copied [OF wf own, of h] by blast
  have good using c(2) u by (simp add: copied_def)
  moreover have "m' (ph + of_nat (off + k)) = src ! k" if "k < length src" for k
    using c(2) \<open>good\<close> u [OF that] that by (simp add: copied_def)
  moreover have fr: "m' a = mem s a" if "\<forall>k<length src. a \<noteq> ph + of_nat (off + k)" for a
  proof -
    have "a \<notin> urange (mem s) pt (b + of_nat off) (length src)" using that u unfolding urange_def by (simp del: of_nat_add) metis
    then show ?thesis using c(2) unfolding copied_def by blast
  qed
  moreover have "stack_page m' pt b ph F"
  proof (rule stack_page_cong(1) [OF st])
    show "m' a = mem s a" if "\<And>i. i < 4096 \<Longrightarrow> a \<noteq> ph + of_nat i" for a using len by (intro fr allI impI that) simp
  qed
  ultimately show ?thesis using c(1) by auto
qed

text \<open>Where a block of \<open>n\<close> bytes goes below the offset \<open>i\<close> of the stack, if there is room.\<close>

definition push_at :: "nat \<Rightarrow> nat \<Rightarrow> nat option" where
  "push_at n i = (if n \<le> i then Some ((i - n) div 16 * 16) else None)"

lemma push_at_Some: "push_at n i = Some j \<Longrightarrow> j + n \<le> i \<and> j mod 16 = 0"
  by (auto simp: push_at_def split: if_splits)

definition stack_base :: "addr \<Rightarrow> bool" where
  "stack_base b \<longleftrightarrow> unat b mod 4096 = 0 \<and> 4096 \<le> unat b \<and> unat b + 4096 < 2 ^ 64"

lemma unat_align16: "unat (align16 x) = unat x div 16 * 16"
proof -
  have "x mod 16 \<le> x" by (simp add: word_le_nat_alt unat_mod)
  then have "unat (align16 x) = unat x - unat x mod 16" unfolding align16_def by (simp only: unat_sub unat_mod) simp
  then show ?thesis by (simp add: minus_mod_eq_div_mult)
qed

lemma unat_base_add: "stack_base b \<Longrightarrow> i \<le> 4096 \<Longrightarrow> unat (b + of_nat i) = unat b + i"
  by (simp add: stack_base_def unat_plus_if' unat_of_nat take_bit_nat_eq_self)

lemma push_at_word:
  assumes b: "stack_base b" and i: "i \<le> 4096" and n: "n \<le> 4096"
  shows "case push_at n i of
      Some j \<Rightarrow> align16 (b + of_nat i - of_nat n) = b + of_nat j \<and> \<not> b + of_nat j < b
    | None \<Rightarrow> align16 (b + of_nat i - of_nat n) < b"
proof -
  obtain c where c: "unat b = 4096 * c" using b unfolding stack_base_def by (metis mod_0_imp_dvd dvdE)
  have un: "unat (of_nat n :: addr) = n" using n by (intro unat_of_nat64) simp
  have "of_nat n \<le> b + of_nat i" using b n unat_base_add [OF b i] un by (simp add: word_le_nat_alt stack_base_def)
  then have sub: "unat (b + of_nat i - of_nat n) = 4096 * c + i - n" using un unat_base_add [OF b i] c by (simp add: unat_sub)
  show ?thesis
  proof (cases "n \<le> i")
    case True
    let ?j = "(i - n) div 16 * 16"
    have j: "?j \<le> 4096" using i by linarith
    have "4096 * c + i - n = 16 * (256 * c) + (i - n)" using True by simp
    then have "(4096 * c + i - n) div 16 * 16 = 4096 * c + ?j" by (simp only: div_mult_self4) simp
    then have "unat (align16 (b + of_nat i - of_nat n)) = unat (b + of_nat ?j)"
      using sub unat_base_add [OF b j] c by (simp only: unat_align16)
    moreover have "\<not> b + of_nat ?j < b" using unat_base_add [OF b j] by (simp add: word_less_nat_alt)
    ultimately show ?thesis using True by (simp add: push_at_def unat_inject)
  next
    case False
    then have "(4096 * c + i - n) div 16 * 16 < 4096 * c" using b c by (auto simp: stack_base_def)
    then show ?thesis using False c sub by (simp add: push_at_def word_less_nat_alt unat_align16)
  qed
qed

lemma string_at_cong: "(\<And>k. k \<le> length w \<Longrightarrow> m' (a + of_nat k) = m (a + of_nat k)) \<Longrightarrow> string_at m' a w = string_at m a w"
proof (induction w arbitrary: a)
  case Nil
  then show ?case using Nil [of 0] by simp
next
  case (Cons x w)
  have "string_at m' (a + 1) w = string_at m (a + 1) w" using Cons.prems [of "Suc _"] by (intro Cons.IH) (simp add: add.assoc)
  then show ?case using Cons.prems [of 0] by simp
qed

lemma string_at_iff: "string_at m a w \<longleftrightarrow> get_bytes a (length w + 1) m = w @ [0] \<and> 0 \<notin> set w"
proof (induction w arbitrary: a)
  case (Cons x w)
  have "get_bytes a (length (x # w) + 1) m = m a # get_bytes (a + 1) (length w + 1) m"
    by (simp add: get_bytes_def upt_conv_Cons add.assoc del: upt_Suc) (simp add: map_Suc_upt [symmetric] add.assoc del: upt_Suc)
  then show ?case using Cons.IH [of "a + 1"] by auto
qed (simp add: get_bytes_def)

text \<open>The string \<open>w\<close> stands at \<open>a\<close>, shorter than a page and outside of the stack's page.\<close>

definition kernel_arg :: "mem \<Rightarrow> addr \<Rightarrow> addr \<Rightarrow> uchar list \<Rightarrow> bool" where
  "kernel_arg m ph a w \<longleftrightarrow> string_at m a w \<and> length w < 4096 \<and> (\<forall>k\<le>length w. \<forall>i<4096. a + of_nat k \<noteq> ph + of_nat i)"

lemma kernel_arg_cong:
  assumes "kernel_arg m ph a w" and "\<And>a. (\<And>i. i < 4096 \<Longrightarrow> a \<noteq> ph + of_nat i) \<Longrightarrow> m' a = m a"
  shows "kernel_arg m' ph a w"
  using assms string_at_cong [of w m' a m] by (simp add: kernel_arg_def)

text \<open>The offsets of the strings, from the top of the stack down.\<close>

fun arg_offsets :: "nat \<Rightarrow> uchar list list \<Rightarrow> nat list option" where
  "arg_offsets i [] = Some []"
| "arg_offsets i (w # ws) = (case push_at (length w + 1) i of None \<Rightarrow> None | Some j \<Rightarrow> map_option ((#) j) (arg_offsets j ws))"

lemma arg_offsets_down:
  "arg_offsets i ws = Some os \<Longrightarrow> last (i # os) \<le> i \<and> list_all2 (\<lambda>j w. last (i # os) \<le> j \<and> j + length w < i) os ws"
proof (induction ws arbitrary: i os)
  case (Cons w ws)
  then obtain j os' where j: "push_at (length w + 1) i = Some j" "arg_offsets j ws = Some os'" "os = j # os'" by (auto split: option.splits)
  have "list_all2 (\<lambda>k w. last (j # os') \<le> k \<and> k + length w < i) os' ws"
    using Cons.IH [OF j(2)] push_at_Some [OF j(1)] by (auto elim: list_all2_mono)
  then show ?case using Cons.IH [OF j(2)] push_at_Some [OF j(1)] j(3) by auto
qed simp

lemma push_string:
  fixes s :: "'a kmem_scheme"
  assumes st: "stack_page (mem s) pt b ph F" and a: "kernel_arg (mem s) ph a w" and j: "push_at (length w + 1) i = Some j" and i: "i \<le> 4096"
  shows "\<exists>m'. copyout h pt (b + of_nat j) (get_bytes a (length w + 1) (mem s)) s = Some (0, s\<lparr>mem := m'\<rparr>) \<and> stack_page m' pt b ph F
    \<and> string_at m' (ph + of_nat j) w \<and> (\<forall>a. (\<forall>k<i. a \<noteq> ph + of_nat k) \<longrightarrow> m' a = mem s a)"
proof -
  have w: "get_bytes a (length w + 1) (mem s) = w @ [0]" "0 \<notin> set w" using a by (simp_all add: kernel_arg_def string_at_iff)
  have ji: "j + (length w + 1) \<le> i" using push_at_Some [OF j] by simp
  then have "j + length (w @ [0]) \<le> 4096" using i by simp
  from stack_copy [OF st this, of h] obtain m' where m': "copyout h pt (b + of_nat j) (w @ [0]) s = Some (0, s\<lparr>mem := m'\<rparr>)" "stack_page m' pt b ph F"
    "\<forall>k<length (w @ [0]). m' (ph + of_nat (j + k)) = (w @ [0]) ! k"
    "\<forall>a. (\<forall>k<length (w @ [0]). a \<noteq> ph + of_nat (j + k)) \<longrightarrow> m' a = mem s a" by blast
  have "get_bytes (ph + of_nat j) (length w + 1) m' = w @ [0]"
    using m'(3) by (intro nth_equalityI) (simp_all add: nth_get_bytes add.assoc)
  then have "string_at m' (ph + of_nat j) w" using w(2) by (simp add: string_at_iff)
  moreover have "m' a = mem s a" if "\<forall>k<i. a \<noteq> ph + of_nat k" for a
    using ji by (intro m'(4) [rule_format] that [rule_format]) simp
  ultimately show ?thesis using m'(1,2) w(1) by auto
qed

lemma push_args_step:
  assumes "length us < MAXARG" and "strlen a (mem s) = Some (length w)"
  shows "push_args h pt b (a # argv) (b + of_nat i) us s = (let sp = align16 (b + of_nat i - of_nat (length w + 1)) in
     if sp < b then Some (None, s)
     else Option.bind (copyout h pt sp (get_bytes a (length w + 1) (mem s)) s) (\<lambda>(r, s).
       if r < 0 then Some (None, s) else push_args h pt b argv sp (us @ [sp]) s))"
  using assms by (simp add: Let_def)

lemma string_above:
  assumes "j + length w < 4096" and "\<And>x. (\<forall>k<j. x \<noteq> ph + of_nat k) \<Longrightarrow> m' x = m x"
  shows "string_at m' (ph + of_nat j) w = string_at m (ph + of_nat j) w"
proof (rule string_at_cong)
  fix k assume k: "k \<le> length w"
  have "ph + of_nat j + of_nat k \<noteq> ph + of_nat k'" if "k' < j" for k'
    using of_nat_page_inj [of "j + k" k'] that k assms(1) by (auto simp: add.assoc)
  then show "m' (ph + of_nat j + of_nat k) = m (ph + of_nat j + of_nat k)" by (intro assms(2)) blast
qed

lemma push_args_ok:
  fixes s :: "'a kmem_scheme"
  assumes b: "stack_base b" and st: "stack_page (mem s) pt b ph F" and i: "i \<le> 4096"
    and args: "list_all2 (kernel_arg (mem s) ph) argv ws" and n: "length us + length argv < MAXARG"
  shows "\<exists>m'. stack_page m' pt b ph F \<and> (\<forall>a. (\<forall>k<i. a \<noteq> ph + of_nat k) \<longrightarrow> m' a = mem s a) \<and>
    (case arg_offsets i ws of
       None \<Rightarrow> push_args h pt b argv (b + of_nat i) us s = Some (None, s\<lparr>mem := m'\<rparr>)
     | Some os \<Rightarrow> push_args h pt b argv (b + of_nat i) us s
           = Some (Some (b + of_nat (last (i # os)), us @ map (\<lambda>j. b + of_nat j) os), s\<lparr>mem := m'\<rparr>)
         \<and> list_all2 (\<lambda>j w. string_at m' (ph + of_nat j) w) os ws)"
  using st i args n
proof (induction argv arbitrary: ws us i s)
  case Nil
  then show ?case by (intro exI [of _ "mem s"]) simp
next
  case (Cons a argv)
  then obtain w ws' where ws: "ws = w # ws'" "kernel_arg (mem s) ph a w" "list_all2 (kernel_arg (mem s) ph) argv ws'"
    by (auto simp: list_all2_Cons1)
  have len: "length w + 1 \<le> 4096" and "strlen a (mem s) = Some (length w)"
    using ws(2) strlen_loop_spec [of "mem s" a w 0] by (simp_all add: kernel_arg_def strlen_def)
  note step = push_args_step [OF _ this(2), of us h pt b argv i]
  have us: "length us < MAXARG" using Cons.prems(4) by simp
  note pw = push_at_word [OF b Cons.prems(2) len]
  show ?case
  proof (cases "push_at (length w + 1) i")
    case None
    then have "push_args h pt b (a # argv) (b + of_nat i) us s = Some (None, s\<lparr>mem := mem s\<rparr>)" using step [OF us] pw by (simp add: Let_def)
    then show ?thesis using Cons.prems(1) ws(1) None by (intro exI [of _ "mem s"]) simp
  next
    case (Some j)
    have ji: "j \<le> i" "j + length w < i" "j \<le> 4096" using push_at_Some [OF Some] Cons.prems(2) by auto
    obtain m1 where m1: "copyout h pt (b + of_nat j) (get_bytes a (length w + 1) (mem s)) s = Some (0, s\<lparr>mem := m1\<rparr>)" "stack_page m1 pt b ph F"
      "string_at m1 (ph + of_nat j) w" "\<And>a. (\<forall>k<i. a \<noteq> ph + of_nat k) \<Longrightarrow> m1 a = mem s a"
      using push_string [OF Cons.prems(1) ws(2) Some Cons.prems(2), of h] by (elim exE conjE) metis
    have run: "push_args h pt b (a # argv) (b + of_nat i) us s = push_args h pt b argv (b + of_nat j) (us @ [b + of_nat j]) (s\<lparr>mem := m1\<rparr>)"
      using step [OF us] pw m1(1) Some by (simp add: Let_def)
    have "kernel_arg m1 ph a' w'" if "kernel_arg (mem s) ph a' w'" for a' w'
      using Cons.prems(2) by (intro kernel_arg_cong [OF that] m1(4)) simp
    then have "list_all2 (kernel_arg (mem (s\<lparr>mem := m1\<rparr>)) ph) argv ws'" using ws(3) by (simp add: list_all2_mono)
    moreover have "stack_page (mem (s\<lparr>mem := m1\<rparr>)) pt b ph F" "length (us @ [b + of_nat j]) + length argv < MAXARG" using m1(2) Cons.prems(4) by simp_all
    ultimately obtain m' where m': "stack_page m' pt b ph F" "\<forall>a. (\<forall>k<j. a \<noteq> ph + of_nat k) \<longrightarrow> m' a = mem (s\<lparr>mem := m1\<rparr>) a"
      "case arg_offsets j ws' of
         None \<Rightarrow> push_args h pt b argv (b + of_nat j) (us @ [b + of_nat j]) (s\<lparr>mem := m1\<rparr>) = Some (None, s\<lparr>mem := m1\<rparr>\<lparr>mem := m'\<rparr>)
       | Some os \<Rightarrow> push_args h pt b argv (b + of_nat j) (us @ [b + of_nat j]) (s\<lparr>mem := m1\<rparr>)
             = Some (Some (b + of_nat (last (j # os)), (us @ [b + of_nat j]) @ map (\<lambda>j. b + of_nat j) os), s\<lparr>mem := m1\<rparr>\<lparr>mem := m'\<rparr>)
           \<and> list_all2 (\<lambda>j w. string_at m' (ph + of_nat j) w) os ws'" using Cons.IH [OF _ ji(3), of "s\<lparr>mem := m1\<rparr>" ws' "us @ [b + of_nat j]"] by (elim meta_impE exE conjE) (assumption | rule TrueI)+
    have fr: "m' x = m1 x" if "\<forall>k<j. x \<noteq> ph + of_nat k" for x using m'(2) that by simp
    have "string_at m' (ph + of_nat j) w = string_at m1 (ph + of_nat j) w" using ji Cons.prems(2) fr by (intro string_above) auto
    moreover have "m' x = mem s x" if "\<forall>k<i. x \<noteq> ph + of_nat k" for x using fr [of x] m1(4) [of x] that ji(1) by auto
    ultimately show ?thesis using m'(1,3) m1(3) run ws(1) Some by (intro exI [of _ m']) (auto split: option.splits)
  qed
qed

lemma concat_bytes: "i < length xs \<Longrightarrow> take 8 (drop (8 * i) (concat (map (bytes_of 8) xs))) = bytes_of 8 (xs ! i)"
proof (induction xs arbitrary: i)
  case (Cons x xs)
  have l: "length (bytes_of 8 x) = 8" by (simp add: bytes_of_def)
  show ?case using Cons l by (cases i) simp_all
qed simp

lemma length_concat_bytes: "length (concat (map (bytes_of 8) xs)) = 8 * length xs"
  by (induction xs) (simp_all add: bytes_of_def)

lemma uview_stack:
  assumes st: "stack_page m pt b ph F"
  shows uview_bytes: "j + n \<le> 4096 \<Longrightarrow> get_bytes (b + of_nat j) n (uview m pt) = get_bytes (ph + of_nat j) n m"
    and uview_string: "j + length w < 4096 \<Longrightarrow> string_at (uview m pt) (b + of_nat j) w = string_at m (ph + of_nat j) w"
proof -
  have u: "uview m pt (b + of_nat j + of_nat k) = m (ph + of_nat j + of_nat k)" if "j + k < 4096" for j k
    using stack_page_at [OF st that] by (simp add: uview_def add.assoc)
  show g: "get_bytes (b + of_nat j) n (uview m pt) = get_bytes (ph + of_nat j) n m" if "j + n \<le> 4096" for n
    using u that by (simp add: get_bytes_def)
  show "j + length w < 4096 \<Longrightarrow> string_at (uview m pt) (b + of_nat j) w = string_at m (ph + of_nat j) w"
    using g [of "length w + 1"] by (simp add: string_at_iff)
qed

text \<open>The offsets of the strings and of the array of pointers below them.\<close>

definition stack_layout :: "uchar list list \<Rightarrow> (nat list \<times> nat) option" where
  "stack_layout ws = (case arg_offsets 4096 ws of None \<Rightarrow> None
     | Some os \<Rightarrow> map_option (Pair os) (push_at ((length ws + 1) * 8) (last (4096 # os))))"

lemma push_array:
  fixes s :: "'a kmem_scheme"
  assumes st: "stack_page (mem s) pt b ph F" and j: "push_at (8 * length xs) i = Some j" and i: "i \<le> 4096"
  shows "\<exists>m'. copyout h pt (b + of_nat j) (concat (map (bytes_of 8) xs)) s = Some (0, s\<lparr>mem := m'\<rparr>) \<and> stack_page m' pt b ph F
    \<and> (\<forall>n<length xs. get_bytes (ph + of_nat (j + 8 * n)) 8 m' = bytes_of 8 (xs ! n)) \<and> (\<forall>a. (\<forall>k<i. a \<noteq> ph + of_nat k) \<longrightarrow> m' a = mem s a)"
proof -
  let ?src = "concat (map (bytes_of 8) xs)"
  have ji: "j + length ?src \<le> i" using push_at_Some [OF j] by (simp only: length_concat_bytes)
  then have "j + length ?src \<le> 4096" using i by simp
  from stack_copy [OF st this, of h] obtain m' where m': "copyout h pt (b + of_nat j) ?src s = Some (0, s\<lparr>mem := m'\<rparr>)" "stack_page m' pt b ph F"
    "\<forall>k<length ?src. m' (ph + of_nat (j + k)) = ?src ! k" "\<forall>a. (\<forall>k<length ?src. a \<noteq> ph + of_nat (j + k)) \<longrightarrow> m' a = mem s a" by blast
  have "get_bytes (ph + of_nat (j + 8 * n)) 8 m' = bytes_of 8 (xs ! n)" if n: "n < length xs" for n
  proof -
    have "m' (ph + of_nat (j + 8 * n) + of_nat k) = ?src ! (8 * n + k)" if "k < 8" for k
      using m'(3) [rule_format, of "8 * n + k"] that n by (simp add: length_concat_bytes add.assoc)
    then have "get_bytes (ph + of_nat (j + 8 * n)) 8 m' = take 8 (drop (8 * n) ?src)"
      using n by (intro nth_equalityI) (simp_all add: nth_get_bytes length_concat_bytes del: of_nat_add)
    then show ?thesis using concat_bytes [OF n] by simp
  qed
  moreover have "m' a = mem s a" if "\<forall>k<i. a \<noteq> ph + of_nat k" for a
    using ji by (intro m'(4) [rule_format] that [rule_format]) simp
  ultimately show ?thesis using m'(1,2) by blast
qed

lemma push_stack_run:
  fixes s :: "'a kmem_scheme"
  assumes "push_args h pt b argv (b + PGSIZE) [] s = Some (Some (b + of_nat i, us), t)" and us: "length us < MAXARG" and b: "stack_base b" and i: "i \<le> 4096"
  shows "push_stack h pt (b + PGSIZE) argv s = (case push_at (8 * length (us @ [0])) i of None \<Rightarrow> Some (None, t)
    | Some j \<Rightarrow> Option.bind (copyout h pt (b + of_nat j) (concat (map (bytes_of 8) (us @ [0]))) t) (\<lambda>(r, s). Some (if r < 0 then None else Some (b + of_nat j), s)))"
proof -
  have n: "(length us + 1) * 8 \<le> 4096" using us by (simp add: MAXARG_def)
  have "(length us + 1) * 8 = 8 * length (us @ [0 :: uint64])" by simp
  note pw = push_at_word [OF b i n, unfolded this]
  show ?thesis using assms(1,2) pw by (auto simp: push_stack_def Let_def mult.commute [of _ 8] split: option.splits cong: if_cong)
qed

text \<open>The whole stack as the process sees it.\<close>

definition args_seen :: "addr \<Rightarrow> mem \<Rightarrow> nat list \<Rightarrow> nat \<Rightarrow> uchar list list \<Rightarrow> bool" where
  "args_seen b m os j ws \<longleftrightarrow> length os = length ws
     \<and> (\<forall>i<length ws. string_at m (b + of_nat (os ! i)) (ws ! i) \<and> get_bytes (b + of_nat (j + 8 * i)) 8 m = bytes_of 8 (b + of_nat (os ! i)))
     \<and> get_bytes (b + of_nat (j + 8 * length ws)) 8 m = bytes_of 8 0"

lemma args_seenI:
  assumes st: "stack_page m' pt b ph F" and fr: "\<And>a. (\<forall>k<i. a \<noteq> ph + of_nat k) \<Longrightarrow> m' a = m a"
    and str: "list_all2 (\<lambda>k w. string_at m (ph + of_nat k) w) os ws" and low: "list_all2 (\<lambda>k w. i \<le> k \<and> k + length w < 4096) os ws"
    and arr: "\<And>n. n \<le> length os \<Longrightarrow> get_bytes (ph + of_nat (j + 8 * n)) 8 m' = bytes_of 8 ((map (\<lambda>k. b + of_nat k) os @ [0]) ! n)"
    and j: "j + 8 * (length os + 1) \<le> 4096"
  shows "args_seen b (uview m' pt) os j ws"
proof -
  have len: "length os = length ws" using str by (rule list_all2_lengthD)
  have "get_bytes (b + of_nat (j + 8 * n)) 8 (uview m' pt) = bytes_of 8 ((map (\<lambda>k. b + of_nat k) os @ [0]) ! n)" if "n \<le> length os" for n
    using arr [OF that] uview_bytes [OF st, of "j + 8 * n" 8] that j by simp
  note seen = this
  moreover have "string_at (uview m' pt) (b + of_nat (os ! n)) (ws ! n)" if "n < length ws" for n
  proof -
    have k: "i \<le> os ! n" "os ! n + length (ws ! n) < 4096" "string_at m (ph + of_nat (os ! n)) (ws ! n)"
      using str low that len by (auto simp: list_all2_conv_all_nth)
    then have "string_at m' (ph + of_nat (os ! n)) (ws ! n)" using string_above [OF k(2), of ph m' m] fr by auto
    then show ?thesis using uview_string [OF st k(2)] by simp
  qed
  ultimately show ?thesis unfolding args_seen_def using len seen [of "length ws"] by (auto simp: nth_append simp del: of_nat_add)
qed

text \<open>The array fits below the strings.\<close>

lemma push_stack_fits:
  fixes s :: "'a kmem_scheme"
  assumes b: "stack_base b" and st: "stack_page (mem s) pt b ph F" and os: "arg_offsets 4096 ws = Some os"
    and pa: "push_args h pt b argv (b + PGSIZE) [] t = Some (Some (b + of_nat (last (4096 # os)), map (\<lambda>j. b + of_nat j) os), s)"
    and str: "list_all2 (\<lambda>j w. string_at (mem s) (ph + of_nat j) w) os ws" and n: "length ws < MAXARG"
    and j: "push_at ((length ws + 1) * 8) (last (4096 # os)) = Some j"
  shows "\<exists>m'. push_stack h pt (b + PGSIZE) argv t = Some (Some (b + of_nat j), s\<lparr>mem := m'\<rparr>)
    \<and> (\<forall>a. (\<forall>k<4096. a \<noteq> ph + of_nat k) \<longrightarrow> m' a = mem s a) \<and> args_seen b (uview m' pt) os j ws"
proof -
  let ?us = "map (\<lambda>j. b + of_nat j) os" and ?i = "last (4096 # os)"
  note d = arg_offsets_down [OF os]
  have lo: "length os = length ws" using conjunct2 [OF d] by (rule list_all2_lengthD)
  then have j: "push_at (8 * length (?us @ [0 :: uint64])) ?i = Some j" using j by (simp add: mult.commute)
  from push_array [OF st this, of h] d obtain m' where m': "copyout h pt (b + of_nat j) (concat (map (bytes_of 8) (?us @ [0]))) s = Some (0, s\<lparr>mem := m'\<rparr>)"
    "stack_page m' pt b ph F" "\<forall>n<length (?us @ [0]). get_bytes (ph + of_nat (j + 8 * n)) 8 m' = bytes_of 8 ((?us @ [0]) ! n)"
    "\<forall>a. (\<forall>k<?i. a \<noteq> ph + of_nat k) \<longrightarrow> m' a = mem s a" by blast
  have "args_seen b (uview m' pt) os j ws"
  proof (rule args_seenI [OF m'(2) _ str])
    show "list_all2 (\<lambda>k w. ?i \<le> k \<and> k + length w < 4096) os ws" using d by (auto elim: list_all2_mono)
    show "j + 8 * (length os + 1) \<le> 4096" using push_at_Some [OF j] d by simp
  qed (use m'(3,4) in \<open>auto simp del: of_nat_add\<close>)
  moreover have "push_stack h pt (b + PGSIZE) argv t = Some (Some (b + of_nat j), s\<lparr>mem := m'\<rparr>)"
    using push_stack_run [OF pa _ b] d lo n j m'(1) by simp
  moreover have "m' a = mem s a" if "\<forall>k<4096. a \<noteq> ph + of_nat k" for a using m'(4) that d by auto
  ultimately show ?thesis by blast
qed

text \<open>
  C22. The arguments of a new program. \<open>exec\<close> lays the argument strings out from the top of the stack page down, each at an
  address that is a multiple of 16, and below them the array of their addresses with a null pointer at its end, where the
  stack pointer then points. When all of this fits into the page, the new program finds in its own address space every
  argument, unchanged, under the address at its place in the array; otherwise \<open>exec\<close> gives up. In both cases nothing outside
  of the stack page has changed.
\<close>

theorem exec_stack:
  fixes s :: "'a kmem_scheme"
  assumes b: "stack_base b" and st: "stack_page (mem s) pt b ph F"
    and args: "list_all2 (kernel_arg (mem s) ph) argv ws" and n: "length argv < MAXARG"
  shows "\<exists>r m'. push_stack h pt (b + PGSIZE) argv s = Some (r, s\<lparr>mem := m'\<rparr>) \<and> (\<forall>a. (\<forall>k<4096. a \<noteq> ph + of_nat k) \<longrightarrow> m' a = mem s a) \<and>
    (case stack_layout ws of
       None \<Rightarrow> r = None
     | Some (os, j) \<Rightarrow> r = Some (b + of_nat j) \<and> j mod 16 = 0 \<and> args_seen b (uview m' pt) os j ws)"
proof -
  have top: "b + PGSIZE = b + of_nat 4096" by (simp add: PGSIZE_def)
  obtain m1 where m1: "stack_page m1 pt b ph F" "\<forall>a. (\<forall>k<4096. a \<noteq> ph + of_nat k) \<longrightarrow> m1 a = mem s a"
    "case arg_offsets 4096 ws of
       None \<Rightarrow> push_args h pt b argv (b + of_nat 4096) [] s = Some (None, s\<lparr>mem := m1\<rparr>)
     | Some os \<Rightarrow> push_args h pt b argv (b + of_nat 4096) [] s = Some (Some (b + of_nat (last (4096 # os)), [] @ map (\<lambda>j. b + of_nat j) os), s\<lparr>mem := m1\<rparr>)
         \<and> list_all2 (\<lambda>j w. string_at m1 (ph + of_nat j) w) os ws"
    using push_args_ok [OF b st order.refl args, of "[]" h] n by (elim meta_impE exE conjE) simp_all
  show ?thesis
  proof (cases "arg_offsets 4096 ws")
    case None
    then have "push_args h pt b argv (b + PGSIZE) [] s = Some (None, s\<lparr>mem := m1\<rparr>)" using m1(3) top by simp
    then have "push_stack h pt (b + PGSIZE) argv s = Some (None, s\<lparr>mem := m1\<rparr>)" by (simp add: push_stack_def Let_def)
    then show ?thesis using m1(2) None by (intro exI [of _ None] exI [of _ m1]) (simp add: stack_layout_def)
  next
    case (Some os)
    have lw: "length ws < MAXARG" "length os = length ws"
      using args n conjunct2 [OF arg_offsets_down [OF Some]] by (simp_all add: list_all2_lengthD [of _ argv] list_all2_lengthD [of _ os])
    have pa: "push_args h pt b argv (b + PGSIZE) [] s = Some (Some (b + of_nat (last (4096 # os)), map (\<lambda>j. b + of_nat j) os), s\<lparr>mem := m1\<rparr>)"
      and str: "list_all2 (\<lambda>j w. string_at (mem (s\<lparr>mem := m1\<rparr>)) (ph + of_nat j) w) os ws" using m1(3) Some top by simp_all
    show ?thesis
    proof (cases "push_at ((length ws + 1) * 8) (last (4096 # os))")
      case None
      then have "push_stack h pt (b + PGSIZE) argv s = Some (None, s\<lparr>mem := m1\<rparr>)"
        using push_stack_run [OF pa _ b] arg_offsets_down [OF Some] lw by (simp add: mult.commute)
      then show ?thesis using m1(2) Some None by (intro exI [of _ None] exI [of _ m1]) (simp add: stack_layout_def)
    next
      case (Some j)
      have st: "stack_page (mem (s\<lparr>mem := m1\<rparr>)) pt b ph F" using m1(1) by simp
      obtain m' where m': "push_stack h pt (b + PGSIZE) argv s = Some (Some (b + of_nat j), s\<lparr>mem := m1\<rparr>\<lparr>mem := m'\<rparr>)"
        "\<forall>a. (\<forall>k<4096. a \<noteq> ph + of_nat k) \<longrightarrow> m' a = mem (s\<lparr>mem := m1\<rparr>) a" "args_seen b (uview m' pt) os j ws"
        using push_stack_fits [OF b st \<open>arg_offsets 4096 ws = Some os\<close> pa str lw(1) Some] by (elim exE conjE)
      then show ?thesis using m1(2) Some \<open>arg_offsets 4096 ws = Some os\<close> push_at_Some [OF Some]
        by (intro exI [of _ "Some (b + of_nat j)"] exI [of _ m']) (simp add: stack_layout_def)
    qed
  qed
qed

subsection \<open>Example\<close>

text \<open>The arguments \<open>ls\<close> and \<open>-l\<close> on the stack of a program whose stack page is the one at \<open>0x1000\<close>.\<close>

lemma exec_page: "\<exists>m. stack_page m 0x80000000 0x1000 0x80001000 {0} \<and> kernel_arg m 0x80001000 0x86fff000 [108, 115] \<and> kernel_arg m 0x80001000 0x86fff010 [45, 108]"
proof -
  let ?pt = "0x80000000 :: addr" and ?ph = "0x80001000 :: addr"
  obtain m where m: "pt_wf m ?pt {0}" "0x80001 \<notin> tables m ?pt" "0x86fff \<notin> tables m ?pt"
    and ua: "\<And>i. i < 4096 \<Longrightarrow> uaddr m ?pt (0x1000 + of_nat i) = Some (?ph + of_nat i)"
    and pg: "\<And>i. i < 4096 \<Longrightarrow> pgno (?ph + of_nat i) = 0x80001"
    using user_page_clean by blast
  let ?m = "m(0x86fff000 := 108, 0x86fff001 := 115, 0x86fff002 := 0, 0x86fff010 := 45, 0x86fff011 := 108, 0x86fff012 := 0)"
  have page: "pgno (0x86fff000 + of_nat k) = 0x86fff" if "k < 4096" for k using that pgno_offset [of "0x86fff000" k] by (simp add: pgno_def)
  have arg: "kernel_arg ?m ?ph (0x86fff000 + of_nat off) w" if "string_at ?m (0x86fff000 + of_nat off) w" "off + length w < 4096" for off w
  proof -
    have "0x86fff000 + of_nat off + of_nat k \<noteq> ?ph + of_nat i" if "k \<le> length w" "i < 4096" for k i
    proof
      assume "0x86fff000 + of_nat off + of_nat k = ?ph + of_nat i"
      then have "pgno (0x86fff000 + of_nat (off + k)) = pgno (?ph + of_nat i)" by (simp only: of_nat_add add.assoc)
      then show False using page [of "off + k"] pg [OF that(2)] that(1) \<open>off + length w < 4096\<close> by (simp del: of_nat_add)
    qed
    then show ?thesis using that by (simp add: kernel_arg_def del: fun_upd_apply)
  qed
  have eq: "?m b = m b" if "pgno b \<in> tables m ?pt" for b
    using that m(3) page [of 0] page [of 1] page [of 2] page [of 16] page [of 17] page [of 18] by auto
  have cg: "pt_wf ?m ?pt {0}" "tables ?m ?pt = tables m ?pt" "\<And>va. translate ?m ?pt va = translate m ?pt va"
    by (rule tables_cong [OF m(1)], erule eq)+
  have "uaddr ?m ?pt va = uaddr m ?pt va" for va by (simp only: uaddr_def cg(3))
  then have "stack_page ?m ?pt 0x1000 ?ph {0}" using cg(1,2) ua pg m(2) by (simp add: stack_page_def del: fun_upd_apply)
  moreover have "kernel_arg ?m ?ph 0x86fff000 [108, 115]" using arg [of 0 "[108, 115]"] by simp
  moreover have "kernel_arg ?m ?ph 0x86fff010 [45, 108]" using arg [of 16 "[45, 108]"] by simp
  ultimately show ?thesis by blast
qed

theorem exec_stack_witness:
  "\<exists>(s :: kmem) m'. push_stack 0 0x80000000 0x2000 [0x86fff000, 0x86fff010] s = Some (Some 0x1fc0, s\<lparr>mem := m'\<rparr>)
    \<and> string_at (uview m' 0x80000000) 0x1ff0 [108, 115] \<and> string_at (uview m' 0x80000000) 0x1fe0 [45, 108]
    \<and> get_bytes 0x1fc0 8 (uview m' 0x80000000) = bytes_of 8 0x1ff0 \<and> get_bytes 0x1fd0 8 (uview m' 0x80000000) = bytes_of 8 0"
proof -
  obtain m where m: "stack_page m 0x80000000 0x1000 0x80001000 {0}" "kernel_arg m 0x80001000 0x86fff000 [108, 115]" "kernel_arg m 0x80001000 0x86fff010 [45, 108]"
    using exec_page by blast
  let ?s = "kvm0\<lparr>mem := m\<rparr>" and ?ws = "[[108, 115], [45, 108]] :: uchar list list"
  have "stack_layout ?ws = Some ([4080, 4064], 4032)" by (simp add: stack_layout_def push_at_def)
  note l = this
  have "stack_base 0x1000" "stack_page (mem ?s) 0x80000000 0x1000 0x80001000 {0}" "list_all2 (kernel_arg (mem ?s) 0x80001000) [0x86fff000, 0x86fff010] ?ws"
    "length [0x86fff000, 0x86fff010 :: addr] < MAXARG" using m by (simp_all add: stack_base_def MAXARG_def)
  from exec_stack [OF this, of 0] obtain m' where m': "push_stack 0 0x80000000 (0x1000 + PGSIZE) [0x86fff000, 0x86fff010] ?s = Some (Some (0x1000 + of_nat 4032), ?s\<lparr>mem := m'\<rparr>)"
    "args_seen 0x1000 (uview m' 0x80000000) [4080, 4064] 4032 ?ws" unfolding l option.case prod.case by blast
  have a: "\<And>i. i < 2 \<Longrightarrow> string_at (uview m' 0x80000000) (0x1000 + of_nat ([4080, 4064] ! i)) (?ws ! i)
      \<and> get_bytes (0x1000 + of_nat (4032 + 8 * i)) 8 (uview m' 0x80000000) = bytes_of 8 (0x1000 + of_nat ([4080, 4064] ! i))"
    "get_bytes 0x1fd0 8 (uview m' 0x80000000) = bytes_of 8 0" using m'(2) by (simp_all add: args_seen_def del: string_at.simps)
  have "string_at (uview m' 0x80000000) 0x1ff0 [108, 115]" "get_bytes 0x1fc0 8 (uview m' 0x80000000) = bytes_of 8 0x1ff0"
    "string_at (uview m' 0x80000000) 0x1fe0 [45, 108]" using a(1) [of 0] a(1) [of 1] by (simp_all del: string_at.simps)
  note this a(2)
  then show ?thesis using m'(1) by (intro exI [of _ ?s] exI [of _ m']) (simp add: PGSIZE_def del: string_at.simps)
qed

end
