(* ===== verification/Waiting.thy ===== *)
theory Waiting
  imports Procs
begin

text \<open>
  \<open>exit\<close> and \<open>wait\<close> of \<open>labo2/kernel/proc.c\<close> together: a process that exits becomes a zombie, its children go to init, and its
  parent finds it, whether the parent is already asleep in \<open>wait\<close> or calls it later.
\<close>

subsection \<open>The end of a process\<close>

text \<open>What \<open>reparent\<close> does to the process table, for the first \<open>n\<close> entries.\<close>

definition adopted :: "nat \<Rightarrow> nat \<Rightarrow> nat \<Rightarrow> (nat \<Rightarrow> proc) \<Rightarrow> nat \<Rightarrow> proc" where
  "adopted n p i ps = (\<lambda>c. if c < n \<and> p_parent (ps c) = Some p then (ps c)\<lparr>p_parent := Some i\<rparr> else ps c)"

definition reparented :: "nat \<Rightarrow> nat \<Rightarrow> nat \<Rightarrow> (nat \<Rightarrow> proc) \<Rightarrow> nat \<Rightarrow> proc" where
  "reparented n p i ps = (if \<exists>c<n. p_parent (ps c) = Some p then wake_all (Some p) (Some (chan_proc i)) (adopted n p i ps) else ps)"

lemma wake_all_twice: "wake_all me ch (wake_all me ch ps) = wake_all me ch ps"
  by (auto simp: wake_all_def fun_eq_iff)

lemma wake_all_parent [simp]: "p_parent (wake_all me ch ps c) = p_parent (ps c)"
  by (simp add: wake_all_def)

lemma reparented_Suc:
  "reparented (Suc n) p i ps = (let qs = reparented n p i ps in
     if p_parent (qs n) = Some p then wake_all (Some p) (Some (chan_proc i)) (qs(n := (qs n)\<lparr>p_parent := Some i\<rparr>)) else qs)"
proof -
  have pn: "p_parent (reparented n p i ps n) = p_parent (ps n)" by (simp add: reparented_def adopted_def)
  have ad: "adopted (Suc n) p i ps = (if p_parent (ps n) = Some p then (adopted n p i ps)(n := (ps n)\<lparr>p_parent := Some i\<rparr>) else adopted n p i ps)"
    by (auto simp: adopted_def less_Suc_eq fun_eq_iff)
  have none: "adopted n p i ps = ps" if "\<not> (\<exists>c<n. p_parent (ps c) = Some p)" using that by (auto simp: adopted_def fun_eq_iff)
  have wk: "wake_all me ch ((wake_all me ch qs)(n := (wake_all me ch qs n)\<lparr>p_parent := x\<rparr>)) = wake_all me ch (qs(n := (qs n)\<lparr>p_parent := x\<rparr>))" for me ch qs x
    by (auto simp: wake_all_def fun_eq_iff)
  have an: "adopted n p i ps n = ps n" by (simp add: adopted_def)
  show ?thesis unfolding pn Let_def
    by (cases "\<exists>c<n. p_parent (ps c) = Some p") (auto simp: reparented_def ad none wk an less_Suc_eq)
qed

lemma in_call_within:
  assumes "in_call h p s" and "\<And>q. lk \<noteq> proc_lock q"
  shows "wakeup h ch (within h lk (s\<lparr>procs := P\<rparr>)) = Some (within h lk (s\<lparr>procs := wake_all (Some p) ch P\<rparr>))"
proof -
  note d = in_callD [OF in_call_procs [OF assms(1), of P]]
  show ?thesis using wakeup_section [OF d(1,5) assms(2), of ch] d(3) by simp
qed

lemma forM_snoc: "forM f (xs @ [x]) t = Option.bind (forM f xs t) (f x)"
  by (induction xs arbitrary: t) (simp_all split: bind_splits)

lemma reparent_ok:
  fixes s :: "'a kproc_scheme"
  assumes c: "in_call h p s" and i: "initproc s = Some i"
  shows "reparent h p (within h wait_lock s) = Some (within h wait_lock (s\<lparr>procs := reparented NPROC p i (procs s)\<rparr>))"
proof -
  have up: "upd_proc n g (within h wait_lock (s\<lparr>procs := P\<rparr>)) = within h wait_lock (s\<lparr>procs := P(n := g (P n))\<rparr>)" for n g P
    by (simp add: upd_proc_def within_def)
  have "forM (reparent_one h p) [0..<n] (within h wait_lock s) = Some (within h wait_lock (s\<lparr>procs := reparented n p i (procs s)\<rparr>))" for n
  proof (induction n)
    case 0
    then show ?case by (simp add: reparented_def)
  next
    case (Suc n)
    have "forM (reparent_one h p) [0..<Suc n] (within h wait_lock s)
        = reparent_one h p n (within h wait_lock (s\<lparr>procs := reparented n p i (procs s)\<rparr>))" using Suc.IH by (simp add: forM_snoc)
    also have "\<dots> = Some (within h wait_lock (s\<lparr>procs := reparented (Suc n) p i (procs s)\<rparr>))"
      using i by (simp add: reparent_one_def up in_call_within [OF c] reparented_Suc Let_def)
    finally show ?case .
  qed
  then show ?thesis by (simp add: reparent_def)
qed

text \<open>The last lines of \<open>exit\<close>: from \<open>acquire(&p->lock)\<close> to the scheduler.\<close>

lemma exit_out:
  assumes "noff (cpus s h) = 1" and "\<not> sie s h" and "c_proc (cpus s h) = Some p" and "holding h lk s"
    and "free_lock (proc_lock p) s" and "lk \<noteq> proc_lock p"
  shows "Option.bind (Option.bind (acquire h (proc_lock p) s) (\<lambda>s. Option.bind (release h lk (upd_proc p (\<lambda>q. q\<lparr>p_xstate := st, p_state := ZOMBIE\<rparr>) s)) (sched_enter h)))
      (scheduler_back h p) = Some (s\<lparr>
     cpus := (cpus s)(h := (cpus s h)\<lparr>noff := 0, c_proc := None\<rparr>),
     sie := (sie s)(h := intena (cpus s h)),
     lks := (lks s)(lk := (lks s lk)\<lparr>lk_cpu := None, locked := 0\<rparr>),
     procs := (procs s)(p := (procs s p)\<lparr>p_xstate := st, p_state := ZOMBIE\<rparr>),
     saved_intena := (saved_intena s)(p := intena (cpus s h))\<rparr>)"
  using assms lock_unlock_id [OF assms(5)]
  by (cases "intena (cpus s h)")
    (auto simp: switch_defs lock_defs fun_upd_idem fun_upd_twist intro!: kproc.equality)

definition exited :: "nat \<Rightarrow> nat \<Rightarrow> cint \<Rightarrow> (nat \<Rightarrow> proc) \<Rightarrow> nat \<Rightarrow> proc" where
  "exited p i st ps = (let qs = reparented NPROC p i ps; qs = wake_all (Some p) (map_option chan_proc (p_parent (qs p))) qs in
     qs(p := (qs p)\<lparr>p_xstate := st, p_state := ZOMBIE\<rparr>))"

lemma exit_finish_ok:
  fixes s :: "'a kproc_scheme"
  assumes c: "in_call h p s" and i: "initproc s = Some i"
  shows "Option.bind (exit_finish h p st s) (scheduler_back h p) = Some (s\<lparr>
     cpus := (cpus s)(h := (cpus s h)\<lparr>intena := sie s h, c_proc := None\<rparr>),
     procs := exited p i st (procs s), saved_intena := (saved_intena s)(p := sie s h)\<rparr>)"
proof -
  note d = in_callD [OF c]
  let ?P = "reparented NPROC p i (procs s)"
  let ?Q = "wake_all (Some p) (map_option chan_proc (p_parent (?P p))) ?P"
  let ?w = "within h wait_lock (s\<lparr>procs := ?Q\<rparr>)"
  have f: "exit_finish h p st s = Option.bind (acquire h (proc_lock p) ?w)
      (\<lambda>s. Option.bind (release h wait_lock (upd_proc p (\<lambda>q. q\<lparr>p_xstate := st, p_state := ZOMBIE\<rparr>) s)) (sched_enter h))"
    by (simp add: exit_finish_def acquire_free [OF d(4)] reparent_ok [OF c i] in_call_within [OF c])
  have n0: "noff (cpus s h) = 0" using d(2) by (simp add: at_rest_def)
  have l: "free_lock (proc_lock p) s" "free_lock wait_lock s" by (rule d(4))+
  have "free_lock (proc_lock p) ?w" "holding h wait_lock ?w" using l by (auto simp: free_lock_def holding_def within_def)
  from exit_out [OF _ _ _ this(2,1), of st] f show ?thesis
    using n0 d(3) lock_unlock_id [OF l(2)] by (auto simp: within_def fun_upd_idem exited_def Let_def intro!: kproc.equality)
qed

text \<open>Nobody sleeps in \<open>wait\<close> while one of its children is a zombie.\<close>

definition no_missed :: "(nat \<Rightarrow> proc) \<Rightarrow> bool" where
  "no_missed ps \<longleftrightarrow> (\<forall>q<NPROC. \<forall>c<NPROC. p_state (ps q) = SLEEPING \<longrightarrow> p_chan (ps q) = Some (chan_proc q) \<longrightarrow>
     p_parent (ps c) = Some q \<longrightarrow> p_state (ps c) \<noteq> ZOMBIE)"

lemma no_missedD: "no_missed ps \<Longrightarrow> q < NPROC \<Longrightarrow> c < NPROC \<Longrightarrow> p_state (ps q) = SLEEPING \<Longrightarrow> p_chan (ps q) = Some (chan_proc q) \<Longrightarrow>
    p_parent (ps c) = Some q \<Longrightarrow> p_state (ps c) \<noteq> ZOMBIE"
  by (simp add: no_missed_def)

lemma wake_all_waits: "p_state (wake_all me ch ps q) = SLEEPING \<Longrightarrow> p_state (ps q) = SLEEPING"
  "p_state (wake_all me ch ps q) = ZOMBIE \<longleftrightarrow> p_state (ps q) = ZOMBIE" "p_chan (wake_all me ch ps q) = p_chan (ps q)"
  "q < NPROC \<Longrightarrow> Some q \<noteq> me \<Longrightarrow> p_chan (ps q) = ch \<Longrightarrow> p_state (wake_all me ch ps q) \<noteq> SLEEPING"
  by (auto simp: wake_all_def split: if_splits)

lemma reparented_sel:
  "p_state (reparented n p i ps q) = SLEEPING \<Longrightarrow> p_state (ps q) = SLEEPING"
  "p_state (reparented n p i ps q) = ZOMBIE \<longleftrightarrow> p_state (ps q) = ZOMBIE" "p_chan (reparented n p i ps q) = p_chan (ps q)"
  "p_parent (reparented n p i ps c) = (if c < n \<and> p_parent (ps c) = Some p then Some i else p_parent (ps c))"
  by (auto simp: reparented_def adopted_def wake_all_def split: if_splits)

lemma reparented_wakes:
  assumes "c < n" "p_parent (ps c) = Some p" and "i < NPROC" "i \<noteq> p" "p_chan (ps i) = Some (chan_proc i)"
  shows "p_state (reparented n p i ps i) \<noteq> SLEEPING"
proof -
  have "p_chan (adopted n p i ps i) = Some (chan_proc i)" using assms(5) by (simp add: adopted_def)
  then show ?thesis using wake_all_waits(4) [of i "Some p" "adopted n p i ps" "Some (chan_proc i)"] assms by (auto simp: reparented_def)
qed

lemma exited_no_missed:
  assumes nm: "no_missed ps" and i: "i < NPROC" "i \<noteq> p" and p: "p < NPROC"
  shows "no_missed (exited p i st ps)"
  unfolding no_missed_def
proof (intro allI impI)
  fix q c
  let ?P = "reparented NPROC p i ps" and ?ch = "map_option chan_proc (p_parent (reparented NPROC p i ps p))"
  assume q: "q < NPROC" and c: "c < NPROC" and sl: "p_state (exited p i st ps q) = SLEEPING" and ch: "p_chan (exited p i st ps q) = Some (chan_proc q)"
    and pa: "p_parent (exited p i st ps c) = Some q"
  have qp: "q \<noteq> p" using sl by (auto simp: exited_def Let_def)
  then have w: "p_state (wake_all (Some p) ?ch ?P q) = SLEEPING" using sl by (simp add: exited_def Let_def)
  have sq: "p_state (?P q) = SLEEPING" by (rule wake_all_waits(1) [OF w])
  have chq: "p_chan (ps q) = Some (chan_proc q)" using ch qp by (simp add: exited_def Let_def wake_all_waits(3) reparented_sel(3))
  have pc: "p_parent (?P c) = Some q" using pa by (auto simp: exited_def Let_def split: if_splits)
  have cp: "c \<noteq> p" using w wake_all_waits(4) [OF q, of "Some p" ?P ?ch] qp chq pc by (auto simp: reparented_sel(3))
  have "p_parent (ps c) = Some q"
  proof (rule ccontr)
    assume "p_parent (ps c) \<noteq> Some q"
    then have "q = i" "p_parent (ps c) = Some p" using pc c by (auto simp: reparented_sel(4) split: if_splits)
    then show False using reparented_wakes [OF c, of ps p i] i chq sq by simp
  qed
  then have "p_state (ps c) \<noteq> ZOMBIE" using no_missedD [OF nm q c] reparented_sel(1) [OF sq] chq by blast
  then show "p_state (exited p i st ps c) \<noteq> ZOMBIE" using cp by (simp add: exited_def Let_def wake_all_waits(2) reparented_sel(2))
qed

text \<open>
  C8. An exit is never missed. When a process other than init ends \<open>exit\<close> it is a zombie with its status, its hart is
  back in the scheduler with every lock free, its children belong to init, and if nobody slept in \<open>wait\<close> beside
  a zombie child before, nobody does now: a parent that slept in \<open>wait\<close> is runnable, and so is init when it
  inherits children, which may be zombies already. No other entry changes its state except from sleeping to
  runnable.
\<close>

theorem exit_not_missed:
  fixes s :: "'a kproc_scheme"
  assumes c: "in_call h p s" and i: "initproc s = Some i" "i < NPROC" "i \<noteq> p" and nm: "no_missed (procs s)"
  shows "\<exists>s'. Option.bind (exit_finish h p status s) (scheduler_back h p) = Some s' \<and> no_missed (procs s')
    \<and> p_state (procs s' p) = ZOMBIE \<and> p_xstate (procs s' p) = status \<and> c_proc (cpus s' h) = None \<and> (\<forall>lk. free_lock lk s')
    \<and> (\<forall>q. p_parent (procs s p) = Some q \<longrightarrow> q \<noteq> p \<longrightarrow> q < NPROC \<longrightarrow> p_chan (procs s q) = Some (chan_proc q) \<longrightarrow> p_state (procs s' q) \<noteq> SLEEPING)
    \<and> (\<forall>q<NPROC. p_parent (procs s' q) = (if p_parent (procs s q) = Some p then Some i else p_parent (procs s q)))
    \<and> (\<forall>q. q \<noteq> p \<longrightarrow> p_state (procs s' q) = p_state (procs s q) \<or> p_state (procs s q) = SLEEPING \<and> p_state (procs s' q) = RUNNABLE)"
proof -
  let ?ps = "exited p i status (procs s)"
  let ?s = "s\<lparr>cpus := (cpus s)(h := (cpus s h)\<lparr>intena := sie s h, c_proc := None\<rparr>), procs := ?ps, saved_intena := (saved_intena s)(p := sie s h)\<rparr>"
  have p: "p < NPROC" using c by (simp add: in_call_def)
  have "no_missed ?ps" by (rule exited_no_missed [OF nm i(2,3) p])
  moreover have "p_state (?ps p) = ZOMBIE" "p_xstate (?ps p) = status" by (simp_all add: exited_def Let_def)
  moreover have "free_lock lk ?s" for lk using in_callD(4) [OF c, of lk] by (simp add: free_lock_def)
  moreover have "p_state (?ps q) \<noteq> SLEEPING" if "p_parent (procs s p) = Some q" "q \<noteq> p" "q < NPROC" "p_chan (procs s q) = Some (chan_proc q)" for q
    using that wake_all_waits(4) [of q "Some p" "reparented NPROC p i (procs s)" "Some (chan_proc q)"]
    by (simp add: exited_def Let_def reparented_sel(3,4))
  moreover have "p_parent (?ps q) = (if p_parent (procs s q) = Some p then Some i else p_parent (procs s q))" if "q < NPROC" for q
    using that by (simp add: exited_def Let_def reparented_sel(4))
  moreover have "p_state (?ps q) = p_state (procs s q) \<or> p_state (procs s q) = SLEEPING \<and> p_state (?ps q) = RUNNABLE" if "q \<noteq> p" for q
    using that by (auto simp: exited_def Let_def reparented_def adopted_def wake_all_def)
  ultimately show ?thesis using exit_finish_ok [OF c i(1), of status] by (intro exI [of _ ?s]) simp
qed

subsection \<open>Waiting for a child\<close>

lemma under_wait_lock:
  assumes "in_call h p s"
  shows "calm h (within h wait_lock s)" and "free_lock (proc_lock q) (within h wait_lock s)"
    and "release h (proc_lock q) (within h (proc_lock q) (within h wait_lock s)) = Some (within h wait_lock s)"
proof -
  note d = in_callD [OF assms]
  show c: "calm h (within h wait_lock s)" by (rule calm_within [OF calm_ok [OF d(1)]])
  show f: "free_lock (proc_lock q) (within h wait_lock s)" using d(4) [of "proc_lock q"] by (simp add: free_lock_def within_def)
  show "release h (proc_lock q) (within h (proc_lock q) (within h wait_lock s)) = Some (within h wait_lock s)" by (rule release_section [OF c f])
qed

lemma wait_scan_skip:
  assumes "in_call h p s" and "\<forall>q\<in>set ps. p_parent (procs s q) = Some p \<longrightarrow> p_state (procs s q) \<noteq> ZOMBIE"
  shows "wait_scan h p addr (ps @ qs) hk (within h wait_lock s)
    = wait_scan h p addr qs (hk \<or> (\<exists>q\<in>set ps. p_parent (procs s q) = Some p)) (within h wait_lock s)"
  using assms(2)
proof (induction ps arbitrary: hk)
  case (Cons q ps)
  note u = under_wait_lock(1) [OF assms(1)] under_wait_lock(2) [OF assms(1), of q] under_wait_lock(3) [OF assms(1), of q]
  show ?case using Cons.IH [of True] Cons.IH [of hk] Cons.prems u(3) by (auto simp: acquire_free [OF u(2)])
qed simp

text \<open>The memory of a process that is not running: its page table, its pages and its trap frame.\<close>

definition whole_proc :: "nat \<Rightarrow> nat \<Rightarrow> 'a kmem_scheme \<Rightarrow> addr list \<Rightarrow> bool" where
  "whole_proc h z s xs \<longleftrightarrow> (let q = procs s z; n = unat (PGROUNDUP (p_sz q)) div 4096 in
     proc_mem h (p_pagetable q) n s xs \<and> good_page (kend s) (p_trapframe q)
     \<and> p_trapframe q \<notin> set xs \<union> tset 2 (mem s) (p_pagetable q) \<union> user_pages (mem s) (p_pagetable q) n)"

definition proc_pages :: "nat \<Rightarrow> 'a kmem_scheme \<Rightarrow> addr set" where
  "proc_pages z s = (let q = procs s z in insert (p_trapframe q) (tset 2 (mem s) (p_pagetable q)
     \<union> user_pages (mem s) (p_pagetable q) (unat (PGROUNDUP (p_sz q)) div 4096)))"

lemma proc_mem_cong:
  assumes "proc_mem h pt n s xs" and "mem t = mem s" "freelist t = freelist s" "kend t = kend s" and "mem_ready h t" "touch h t = t"
  shows "proc_mem h pt n t xs"
  using assms unfolding proc_mem_def user_mem_def space_def tbl_def own_def kfree_list_def free_inv_def by simp

text \<open>The memory of a process stays as it is when neither its page table nor a free page is written.\<close>

lemma proc_mem_frame:
  fixes s :: "'a kmem_scheme"
  assumes pm: "proc_mem h pt n s xs" and rd: "mem_ready h (s\<lparr>mem := m\<rparr>)" "touch h (s\<lparr>mem := m\<rparr>) = s\<lparr>mem := m\<rparr>"
    and fr: "\<forall>a. a \<notin> U \<longrightarrow> m a = mem s a" and U: "\<forall>a\<in>U. pgno a \<notin> pgno ` (set xs \<union> tset 2 (mem s) pt)"
  shows "proc_mem h pt n (s\<lparr>mem := m\<rparr>) xs" and "tset 2 m pt = tset 2 (mem s) pt" and "user_pages m pt n = user_pages (mem s) pt n"
proof -
  have sp: "space h pt s xs" using pm by (simp add: proc_mem_def user_mem_def)
  note d = spaceD [OF sp]
  have t: "m b = mem s b" if "pgno b \<in> tables (mem s) pt" for b
    using that fr U unfolding tables_tset image_Un by blast
  note tf = tables_frame [OF d(5) t]
  have tb: "tables m pt = tables (mem s) pt" by (rule tf(3))
  have inn: "inner (kend s) m pt" by (rule frame_inner [OF d(5) _ d(2)]) (rule t)
  show ts: "tset 2 m pt = tset 2 (mem s) pt" by (rule tset_same [OF d(2) inn tb])
  have "free_pages xs \<inter> tables (mem s) pt = {}"
    using wf_root(2) [OF d(5)] wf_sub [OF d(5)] wf_leaf [OF d(5)] by (auto simp: tables_def)
  then have wf: "pt_wf m pt (free_pages xs)" by (rule frame_wf [OF d(5) t, rotated])
  have "free_inv (s\<lparr>mem := m\<rparr>) xs"
    by (rule free_inv_user [where U = U]) (use d(4) fr U in \<open>auto simp: kfree_list_def\<close>)
  then have k: "kfree_list h (s\<lparr>mem := m\<rparr>) xs" using rd(1) by (simp add: kfree_list_def)
  have pg: "page_of m pt = page_of (mem s) pt" and lf: "leaf_at m pt = leaf_at (mem s) pt"
    by (simp_all add: page_of_def leaf_at_def fun_eq_iff tf(2))
  show "user_pages m pt n = user_pages (mem s) pt n" by (simp add: user_pages_def pg)
  have "space h pt (s\<lparr>mem := m\<rparr>) xs"
    using k wf inn rd(2) by (simp add: space_def tbl_def)
  then show "proc_mem h pt n (s\<lparr>mem := m\<rparr>) xs"
    using pm by (simp add: proc_mem_def user_mem_def own_def pg lf tb tf(2))
qed

lemma reap_ok:
  fixes s :: "'a kmem_scheme"
  assumes c: "in_call h p s" and w: "whole_proc h z s xs"
  defines "v \<equiv> within h (proc_lock z) (within h wait_lock s)"
  shows "\<exists>s' ys. Option.bind (freeproc h z v) (\<lambda>s. Option.bind (release h (proc_lock z) s) (release h wait_lock)) = Some s'
    \<and> in_call h p s' \<and> procs s' = (procs s)(z := cleared (procs s z)) \<and> kfree_list h s' ys \<and> set ys = set xs \<union> proc_pages z s
    \<and> (\<forall>b. pgno b \<notin> pgno ` proc_pages z s \<longrightarrow> mem s' b = mem s b)"
proof -
  note d = in_callD [OF c] and u = under_wait_lock(1) [OF c] under_wait_lock(2) [OF c, of z]
  let ?w = "within h wait_lock s"
  let ?q = "procs s z" and ?n = "unat (PGROUNDUP (p_sz (procs s z))) div 4096"
  have hv: "hart_ok h v" unfolding v_def by (rule hart_ok_within [OF calm_ok [OF u(1)]])
  have kl: "free_lock kmem_lock v" using d(4) [of kmem_lock] by (simp add: v_def free_lock_def within_def)
  have n0: "noff (cpus s h) = 0" using d(2) by (simp add: at_rest_def)
  then have tv: "touch h v = v" by (intro touch_inner) (simp add: v_def within_def)
  have mv: "mem v = mem s" "freelist v = freelist s" "kend v = kend s" "procs v = procs s" by (simp_all add: v_def)
  have pm: "proc_mem h (p_pagetable ?q) ?n v xs"
    using w proc_mem_cong [of h "p_pagetable ?q" ?n s xs v] mv hv kl tv by (simp add: whole_proc_def Let_def mem_ready_def)
  have pages: "proc_pages z s = {p_trapframe ?q} \<union> tset 2 (mem s) (p_pagetable ?q) \<union> user_pages (mem s) (p_pagetable ?q) ?n"
    by (simp add: proc_pages_def Let_def)
  have "\<exists>t ys. freeproc h z v = Some t \<and> only_mem (upd_proc z cleared v) t \<and> kfree_list h t ys
      \<and> set ys = set xs \<union> {p_trapframe ?q} \<union> tset 2 (mem v) (p_pagetable ?q) \<union> user_pages (mem v) (p_pagetable ?q) ?n
      \<and> (\<forall>b. pgno b \<notin> pgno ` ({p_trapframe ?q} \<union> tset 2 (mem v) (p_pagetable ?q) \<union> user_pages (mem v) (p_pagetable ?q) ?n) \<longrightarrow> mem t b = mem v b)"
    by (rule freeproc_full [OF pm]) (use w mv in \<open>auto simp: whole_proc_def Let_def\<close>)
  then obtain t ys where t: "freeproc h z v = Some t" "only_mem (upd_proc z cleared v) t" "kfree_list h t ys" "set ys = set xs \<union> proc_pages z s"
      "\<forall>b. pgno b \<notin> pgno ` proc_pages z s \<longrightarrow> mem t b = mem s b"
    unfolding mv(1) pages [symmetric] Un_assoc by (metis pages Un_assoc)
  have lt: "cpus t = cpus v" "sie t = sie v" "lks t = lks v" using only_mem_sel(3-5) [OF t(2)] by simp_all
  let ?t1 = "t\<lparr>cpus := cpus (touch h ?w), sie := sie ?w, lks := lks ?w\<rparr>"
  have 1: "release h (proc_lock z) t = Some ?t1"
    by (rule release_within [OF calm_ok [OF u(1)] u(2)]) (simp_all add: lt v_def)
  let ?t2 = "?t1\<lparr>cpus := cpus (touch h s), sie := sie s, lks := lks s\<rparr>"
  have 2: "release h wait_lock ?t1 = Some ?t2"
    by (rule release_within [OF calm_ok [OF d(1)] d(4)]) (use u(1) in simp_all)
  have c2: "in_call h p ?t2" using c d(1) by (subst in_call_cong [of _ s]) simp_all
  have "kfree_list h ?t2 ys" using t(3) in_call_ready [OF c2] by (simp add: kfree_list_def free_inv_def)
  moreover have "procs ?t2 = (procs s)(z := cleared (procs s z))" using only_mem_sel(2) [OF t(2)] mv by simp
  moreover have "mem ?t2 b = mem s b" if "pgno b \<notin> pgno ` proc_pages z s" for b using t(5) that by simp
  ultimately show ?thesis using t(1,4) 1 2 c2 by (intro exI [of _ ?t2] exI [of _ ys]) auto
qed

lemma wait_asleep:
  fixes s :: "'a kmem_scheme"
  assumes c: "in_call h p s"
  shows "\<exists>t. sleep_enter h ch wait_lock (within h wait_lock s) = Some t \<and> scheduler_back h p t = Some (s\<lparr>
     cpus := (cpus s)(h := (cpus s h)\<lparr>intena := sie s h, c_proc := None\<rparr>),
     procs := (procs s)(p := (procs s p)\<lparr>p_chan := ch, p_state := SLEEPING\<rparr>),
     saved_intena := (saved_intena s)(p := sie s h)\<rparr>)"
proof -
  note d = in_callD [OF c]
  have "sleep_step h p ch wait_lock s = Some (s\<lparr>
     cpus := (cpus s)(h := (cpus s h)\<lparr>intena := sie s h, c_proc := None\<rparr>),
     procs := (procs s)(p := (procs s p)\<lparr>p_chan := ch, p_state := SLEEPING\<rparr>),
     saved_intena := (saved_intena s)(p := sie s h)\<rparr>)" by (rule sleep_step_spec [OF d(2,3) d(4) d(4)]) simp
  then show ?thesis by (simp add: sleep_step_def acquire_free [OF d(4)] bind_eq_Some_conv)
qed

abbreviation zombie_child :: "nat \<Rightarrow> 'a kproc_scheme \<Rightarrow> nat option" where
  "zombie_child p s \<equiv> List.find (\<lambda>q. p_parent (procs s q) = Some p \<and> p_state (procs s q) = ZOMBIE) [0..<NPROC]"

abbreviation has_child :: "nat \<Rightarrow> 'a kproc_scheme \<Rightarrow> bool" where
  "has_child p s \<equiv> \<exists>q<NPROC. p_parent (procs s q) = Some p"

lemma wait_start: "in_call h p s \<Longrightarrow> wait h addr s = wait_loop h p addr (within h wait_lock s)"
  using in_callD [of h p s] by (simp add: wait_def acquire_free)

lemma wait_none:
  assumes c: "in_call h p s" and z: "zombie_child p s = None"
  shows "wait_scan h p addr [0..<NPROC] False (within h wait_lock s) = Some (None, has_child p s, within h wait_lock s)"
  using wait_scan_skip [OF c, of "[0..<NPROC]" addr "[]" False] z by (auto simp: find_None_iff)

lemma wait_first:
  assumes c: "in_call h p s" and z: "zombie_child p s = Some z"
  shows "\<exists>qs hk. wait_scan h p addr [0..<NPROC] False (within h wait_lock s) = wait_scan h p addr (z # qs) hk (within h wait_lock s)"
    and "z < NPROC" "p_parent (procs s z) = Some p" "p_state (procs s z) = ZOMBIE"
proof -
  show b: "z < NPROC" "p_parent (procs s z) = Some p" "p_state (procs s z) = ZOMBIE" using z by (auto simp: find_Some_iff)
  have "[0..<NPROC] = [0..<z] @ z # [Suc z..<NPROC]" using b(1) upt_add_eq_append [of 0 z "NPROC - z"] by (simp add: upt_conv_Cons)
  moreover have "\<forall>q\<in>set [0..<z]. p_parent (procs s q) = Some p \<longrightarrow> p_state (procs s q) \<noteq> ZOMBIE" using z by (auto simp: find_Some_iff)
  ultimately show "\<exists>qs hk. wait_scan h p addr [0..<NPROC] False (within h wait_lock s) = wait_scan h p addr (z # qs) hk (within h wait_lock s)"
    using wait_scan_skip [OF c, of "[0..<z]" addr "z # [Suc z..<NPROC]" False] by (intro exI) simp
qed

lemma killed_under_wait_lock:
  assumes "in_call h p s"
  shows "killed h q (within h wait_lock s) = Some (p_killed (procs s q), within h wait_lock s)"
  by (simp add: killed_def acquire_free [OF under_wait_lock(2) [OF assms]] under_wait_lock(3) [OF assms])

lemma release_wait_lock: "in_call h p s \<Longrightarrow> release h wait_lock (within h wait_lock s) = Some s"
  using in_callD [of h p s] by (simp add: release_section)

lemma asleep_no_missed:
  assumes "no_missed ps" and "\<And>c. c < NPROC \<Longrightarrow> p_parent (ps c) = Some p \<Longrightarrow> p_state (ps c) \<noteq> ZOMBIE"
  shows "no_missed (ps(p := (ps p)\<lparr>p_chan := ch, p_state := SLEEPING\<rparr>))"
  using assms by (auto simp: no_missed_def)

lemma bytes_of_4: "bytes_of 4 (x :: uint64) \<noteq> []"
  by (simp add: bytes_of_def)

lemma copyout_bad: "MAXVA \<le> PGROUNDDOWN a \<Longrightarrow> bs \<noteq> [] \<Longrightarrow> copyout h pt a bs s = Some (-1, s)"
  by (subst copyout.simps) (simp add: walkaddr_def Let_def)

lemma wait_bad_address:
  assumes c: "in_call h p s" and z: "zombie_child p s = Some z" and a: "addr \<noteq> 0" "MAXVA \<le> PGROUNDDOWN addr"
  shows "wait h addr s = Some (Done (-1) s)"
proof -
  note u = under_wait_lock(2) [OF c, of z] under_wait_lock(3) [OF c, of z] and f = wait_first(1) [OF c z, of addr] wait_first(2-4) [OF c z]
  obtain qs hk where w: "wait_scan h p addr [0..<NPROC] False (within h wait_lock s) = wait_scan h p addr (z # qs) hk (within h wait_lock s)"
    using f(1) by blast
  have "wait_scan h p addr (z # qs) hk (within h wait_lock s) = Some (Some (-1), True, s)"
    using f(3,4) a u(2) by (simp add: acquire_free [OF u(1)] copyout_bad [OF a(2)] bytes_of_4 release_wait_lock [OF c])
  then show ?thesis using w by (simp add: wait_start [OF c] wait_loop_def)
qed

lemma nth_bytes_of_4: "i < 4 \<Longrightarrow> bytes_of 4 (ucast (x :: cint)) ! i = ucast (drop_bit (8 * i) x)"
  by (simp add: bytes_of_def) (rule bit_word_eqI, auto simp: bit_simps)

text \<open>
  A zombie child and an address for the status: the copy, and then, if it succeeded, the child's end.
\<close>

definition reaped :: "nat \<Rightarrow> nat \<Rightarrow> nat \<Rightarrow> addr list \<Rightarrow> 'a kmem_scheme \<Rightarrow> 'a kmem_scheme \<Rightarrow> bool" where
  "reaped h p z xs s s' \<longleftrightarrow> in_call h p s' \<and> procs s' = (procs s)(z := cleared (procs s z))
     \<and> (\<exists>ys. kfree_list h s' ys \<and> set ys = set xs \<union> proc_pages z s)"

lemma wait_copies:
  fixes s :: "'a kmem_scheme"
  assumes c: "in_call h p s" and z: "zombie_child p s = Some z" and w: "whole_proc h z s xs" and a: "addr \<noteq> 0"
  defines "pt \<equiv> p_pagetable (procs s p)"
  assumes wf: "pt_wf (mem s) pt F" "0 \<in> F" and own: "own_range (mem s) pt addr 4"
    and apart: "\<forall>a\<in>urange (mem s) pt addr 4. pgno a \<notin> pgno ` (set xs \<union> proc_pages z s)"
  shows "if \<forall>i<4. uaddr (mem s) pt (addr + of_nat i) \<noteq> None
    then \<exists>s'. wait h addr s = Some (Done (p_pid (procs s z)) s') \<and> reaped h p z xs s s'
      \<and> (\<forall>i<4. \<forall>a. uaddr (mem s) pt (addr + of_nat i) = Some a \<longrightarrow> mem s' a = ucast (drop_bit (8 * i) (p_xstate (procs s z))))
      \<and> (\<forall>b. b \<notin> urange (mem s) pt addr 4 \<longrightarrow> pgno b \<notin> pgno ` proc_pages z s \<longrightarrow> mem s' b = mem s b)
    else \<exists>m. wait h addr s = Some (Done (-1) (s\<lparr>mem := m\<rparr>)) \<and> (\<forall>b. b \<notin> urange (mem s) pt addr 4 \<longrightarrow> m b = mem s b)"
proof -
  let ?w = "within h wait_lock s" and ?src = "bytes_of 4 (ucast (p_xstate (procs s z)))"
  let ?v = "within h (proc_lock z) ?w"
  have len: "length ?src = 4" by (simp add: bytes_of_def)
  note u = under_wait_lock(2) [OF c, of z] and f = wait_first(1) [OF c z, of addr] wait_first(2-4) [OF c z]
  obtain qs hk where q: "wait_scan h p addr [0..<NPROC] False ?w = wait_scan h p addr (z # qs) hk ?w"
    using f(1) by blast
  have "pt_wf (mem ?v) pt F" "own_range (mem ?v) pt addr (length ?src)" using wf(1) own len by simp_all
  from copyout_copied [OF this(1) wf(2) this(2), of h] obtain good m where
    co: "copyout h pt addr ?src ?v = Some (if good then 0 else -1, ?v\<lparr>mem := m\<rparr>)" and cp: "copied (mem s) pt addr ?src good m"
    by auto
  let ?s = "s\<lparr>mem := m\<rparr>"
  have v: "?v\<lparr>mem := m\<rparr> = within h (proc_lock z) (within h wait_lock ?s)" by (simp add: within_def)
  have c1: "in_call h p ?s" using c by (subst in_call_cong [of _ s]) simp_all
  have fr: "\<forall>b. b \<notin> urange (mem s) pt addr 4 \<longrightarrow> m b = mem s b" using cp len by (simp add: copied_def)
  have all: "good \<longleftrightarrow> (\<forall>i<4. uaddr (mem s) pt (addr + of_nat i) \<noteq> None)" using cp len by (simp add: copied_def)
  have scan: "wait_scan h p addr (z # qs) hk ?w = Option.bind (copyout h pt addr ?src ?v) (\<lambda>(r, t).
      if r < 0 then do { t \<leftarrow> release h (proc_lock z) t; t \<leftarrow> release h wait_lock t; Some (Some (-1), True, t) }
      else do { t \<leftarrow> freeproc h z t; t \<leftarrow> release h (proc_lock z) t; t \<leftarrow> release h wait_lock t; Some (Some (p_pid (procs s z)), True, t) })"
    using f(3,4) a by (simp add: acquire_free [OF u] pt_def Let_def)
  show ?thesis
  proof (cases good)
    case False
    have "wait_scan h p addr (z # qs) hk ?w = Some (Some (-1), True, ?s)"
      unfolding scan co using False under_wait_lock(3) [OF c1, of z] release_wait_lock [OF c1] by (simp add: v)
    then have "wait h addr s = Some (Done (-1) ?s)" using q by (simp add: wait_start [OF c] wait_loop_def)
    then show ?thesis using False all fr by auto
  next
    case True
    let ?pt = "p_pagetable (procs s z)" and ?n = "unat (PGROUNDUP (p_sz (procs s z))) div 4096"
    have pm: "proc_mem h ?pt ?n s xs" using w by (simp add: whole_proc_def Let_def)
    have rd: "mem_ready h ?s" "touch h ?s = ?s" using in_call_ready [OF c1] in_callD(1) [OF c1] by simp_all
    have U: "\<forall>a\<in>urange (mem s) pt addr 4. pgno a \<notin> pgno ` (set xs \<union> tset 2 (mem s) ?pt)"
      using apart unfolding proc_pages_def Let_def image_Un image_insert by blast
    note pf = proc_mem_frame [OF pm rd fr U]
    have w1: "whole_proc h z ?s xs" and pp: "proc_pages z ?s = proc_pages z s"
      using w pf by (simp_all add: whole_proc_def proc_pages_def Let_def)
    obtain s' ys where r: "Option.bind (freeproc h z (within h (proc_lock z) (within h wait_lock ?s)))
        (\<lambda>s. Option.bind (release h (proc_lock z) s) (release h wait_lock)) = Some s'"
      and s': "in_call h p s'" "procs s' = (procs s)(z := cleared (procs s z))" "kfree_list h s' ys" "set ys = set xs \<union> proc_pages z s"
        "\<forall>b. pgno b \<notin> pgno ` proc_pages z s \<longrightarrow> mem s' b = m b"
      using reap_ok [OF c1 w1] unfolding pp by auto
    have "wait_scan h p addr (z # qs) hk ?w = Some (Some (p_pid (procs s z)), True, s')"
      unfolding scan co using True r by (auto simp: v bind_eq_Some_conv)
    then have run: "wait h addr s = Some (Done (p_pid (procs s z)) s')" using q by (simp add: wait_start [OF c] wait_loop_def)
    have st: "mem s' b = ucast (drop_bit (8 * i) (p_xstate (procs s z)))" if i: "i < 4" and b: "uaddr (mem s) pt (addr + of_nat i) = Some b" for i b
    proof -
      have "b \<in> urange (mem s) pt addr 4" using i b by (auto simp: urange_def)
      then have "pgno b \<notin> pgno ` proc_pages z s" using apart unfolding image_Un by blast
      moreover have "m b = ?src ! i" using cp True i b len by (simp add: copied_def)
      ultimately show ?thesis using s'(5) nth_bytes_of_4 [OF i] by simp
    qed
    have "reaped h p z xs s s'" using s'(1-4) by (auto simp: reaped_def)
    then show ?thesis using run all True st s'(5) fr by auto
  qed
qed

lemma wait_reaps:
  assumes c: "in_call h p s" and z: "zombie_child p s = Some z" and w: "whole_proc h z s xs"
  shows "\<exists>s'. wait h 0 s = Some (Done (p_pid (procs s z)) s') \<and> reaped h p z xs s s'"
proof -
  note u = under_wait_lock(2) [OF c, of z] and f = wait_first(1) [OF c z, of 0] wait_first(2-4) [OF c z]
  obtain qs hk where q: "wait_scan h p 0 [0..<NPROC] False (within h wait_lock s) = wait_scan h p 0 (z # qs) hk (within h wait_lock s)"
    using f(1) by blast
  obtain s' ys where r: "Option.bind (freeproc h z (within h (proc_lock z) (within h wait_lock s)))
        (\<lambda>s. Option.bind (release h (proc_lock z) s) (release h wait_lock)) = Some s'"
    and s': "in_call h p s'" "procs s' = (procs s)(z := cleared (procs s z))" "kfree_list h s' ys" "set ys = set xs \<union> proc_pages z s"
    using reap_ok [OF c w] by (elim exE conjE)
  have "wait_scan h p 0 (z # qs) hk (within h wait_lock s) = Some (Some (p_pid (procs s z)), True, s')"
    using f(3,4) r by (auto simp: acquire_free [OF u] bind_eq_Some_conv)
  then have "wait h 0 s = Some (Done (p_pid (procs s z)) s')" using q by (simp add: wait_start [OF c] wait_loop_def)
  then show ?thesis using s' by (auto simp: reaped_def)
qed

text \<open>
  The place for the status in the caller's memory: its page table is well formed, and the four bytes, as far as they
  are mapped, are the caller's own, apart from the page table and from the pages in \<open>P\<close>.
\<close>

definition status_place :: "nat \<Rightarrow> addr \<Rightarrow> addr set \<Rightarrow> 'a kmem_scheme \<Rightarrow> bool" where
  "status_place p addr P s \<longleftrightarrow> (let pt = p_pagetable (procs s p) in (\<exists>F. pt_wf (mem s) pt F \<and> 0 \<in> F)
     \<and> own_range (mem s) pt addr 4 \<and> (\<forall>a\<in>urange (mem s) pt addr 4. pgno a \<notin> pgno ` P))"

text \<open>The bytes of the caller's status word.\<close>

abbreviation status_byte :: "nat \<Rightarrow> addr \<Rightarrow> nat \<Rightarrow> 'a kmem_scheme \<Rightarrow> addr option" where
  "status_byte p addr i s \<equiv> uaddr (mem s) (p_pagetable (procs s p)) (addr + of_nat i)"

lemma wait_status:
  fixes s :: "'a kmem_scheme"
  assumes c: "in_call h p s" and z: "zombie_child p s = Some z" and w: "whole_proc h z s xs" and a: "addr \<noteq> 0"
    and st: "status_place p addr (set xs \<union> proc_pages z s) s"
  shows "if \<forall>i<4. status_byte p addr i s \<noteq> None
    then \<exists>s'. wait h addr s = Some (Done (p_pid (procs s z)) s') \<and> reaped h p z xs s s'
      \<and> (\<forall>i<4. \<forall>a. status_byte p addr i s = Some a \<longrightarrow> mem s' a = ucast (drop_bit (8 * i) (p_xstate (procs s z))))
      \<and> (\<forall>b. b \<notin> urange (mem s) (p_pagetable (procs s p)) addr 4 \<longrightarrow> pgno b \<notin> pgno ` proc_pages z s \<longrightarrow> mem s' b = mem s b)
    else \<exists>m. wait h addr s = Some (Done (-1) (s\<lparr>mem := m\<rparr>))
      \<and> (\<forall>b. b \<notin> urange (mem s) (p_pagetable (procs s p)) addr 4 \<longrightarrow> m b = mem s b)"
proof -
  obtain F where "pt_wf (mem s) (p_pagetable (procs s p)) F" "0 \<in> F" "own_range (mem s) (p_pagetable (procs s p)) addr 4"
    "\<forall>a\<in>urange (mem s) (p_pagetable (procs s p)) addr 4. pgno a \<notin> pgno ` (set xs \<union> proc_pages z s)"
    using st by (auto simp: status_place_def Let_def)
  from wait_copies [OF c z w a this] show ?thesis .
qed

text \<open>
  C17. \<open>wait\<close> on every branch. Without children, or when the caller has been killed and no child is a zombie, it returns
  -1 and changes nothing. With children but no zombie the caller goes to sleep on its own entry and its hart returns to
  the scheduler with every lock free; nobody sleeps beside a zombie child then, if nobody did before. Otherwise it
  takes the first zombie child. Given an address for the status whose four bytes are mapped for the caller, those
  bytes hold the child's exit status in little endian when it returns; it returns the child's identifier, clears the
  child's entry and frees exactly the child's pages, its trap frame, page table and user memory, and no other memory
  changes. If some byte of the status is not mapped it returns -1, only bytes of the status change and the child stays
  a zombie; for an address outside the address space nothing changes at all. Given no address it does the same as in
  the first case without writing a status.
\<close>

theorem wait_correct:
  fixes s :: "'a kmem_scheme"
  assumes c: "in_call h p s"
  shows "case zombie_child p s of
      None \<Rightarrow> if \<not> has_child p s \<or> p_killed (procs s p) \<noteq> 0 then wait h addr s = Some (Done (-1) s)
        else \<exists>t s'. wait h addr s = Some (Asleep () t) \<and> scheduler_back h p t = Some s' \<and> c_proc (cpus s' h) = None \<and> (\<forall>lk. free_lock lk s')
          \<and> p_state (procs s' p) = SLEEPING \<and> p_chan (procs s' p) = Some (chan_proc p) \<and> (\<forall>q. q \<noteq> p \<longrightarrow> procs s' q = procs s q)
          \<and> (no_missed (procs s) \<longrightarrow> no_missed (procs s'))
    | Some z \<Rightarrow> z < NPROC \<and> p_parent (procs s z) = Some p \<and> p_state (procs s z) = ZOMBIE
        \<and> (addr \<noteq> 0 \<and> MAXVA \<le> PGROUNDDOWN addr \<longrightarrow> wait h addr s = Some (Done (-1) s))
        \<and> (\<forall>xs. addr = 0 \<and> whole_proc h z s xs \<longrightarrow> (\<exists>s'. wait h addr s = Some (Done (p_pid (procs s z)) s') \<and> reaped h p z xs s s'))
        \<and> (\<forall>xs. addr \<noteq> 0 \<and> whole_proc h z s xs \<and> status_place p addr (set xs \<union> proc_pages z s) s \<longrightarrow>
          (if \<forall>i<4. status_byte p addr i s \<noteq> None
           then \<exists>s'. wait h addr s = Some (Done (p_pid (procs s z)) s') \<and> reaped h p z xs s s'
             \<and> (\<forall>i<4. \<forall>a. status_byte p addr i s = Some a \<longrightarrow> mem s' a = ucast (drop_bit (8 * i) (p_xstate (procs s z))))
             \<and> (\<forall>b. b \<notin> urange (mem s) (p_pagetable (procs s p)) addr 4 \<longrightarrow> pgno b \<notin> pgno ` proc_pages z s \<longrightarrow> mem s' b = mem s b)
           else \<exists>m. wait h addr s = Some (Done (-1) (s\<lparr>mem := m\<rparr>))
             \<and> (\<forall>b. b \<notin> urange (mem s) (p_pagetable (procs s p)) addr 4 \<longrightarrow> m b = mem s b)))"
proof (cases "zombie_child p s")
  case (Some z)
  show ?thesis unfolding Some option.case
    using wait_first(2-4) [OF c Some] wait_bad_address [OF c Some, of addr] wait_reaps [OF c Some] wait_status [OF c Some, of _ addr] by blast
next
  case None
  note n = wait_none [OF c None, of addr]
  show ?thesis
  proof (cases "\<not> has_child p s \<or> p_killed (procs s p) \<noteq> 0")
    case True
    then have "wait h addr s = Some (Done (-1) s)"
      by (auto simp: wait_start [OF c] wait_loop_def n killed_under_wait_lock [OF c] release_wait_lock [OF c])
    then show ?thesis using True by (simp only: None option.case if_True)
  next
    case False
    let ?ps = "(procs s)(p := (procs s p)\<lparr>p_chan := Some (chan_proc p), p_state := SLEEPING\<rparr>)"
    let ?s = "s\<lparr>cpus := (cpus s)(h := (cpus s h)\<lparr>intena := sie s h, c_proc := None\<rparr>), procs := ?ps, saved_intena := (saved_intena s)(p := sie s h)\<rparr>"
    obtain t where t: "sleep_enter h (Some (chan_proc p)) wait_lock (within h wait_lock s) = Some t" "scheduler_back h p t = Some ?s"
      using wait_asleep [OF c, of "Some (chan_proc p)"] by (elim exE conjE)
    have w: "wait h addr s = Some (Asleep () t)"
      using False by (auto simp: wait_start [OF c] wait_loop_def n killed_under_wait_lock [OF c] t(1))
    have "p_parent (procs s q) = Some p \<Longrightarrow> p_state (procs s q) \<noteq> ZOMBIE" if "q < NPROC" for q using None that by (auto simp: find_None_iff)
    then have "no_missed (procs s) \<longrightarrow> no_missed ?ps" using asleep_no_missed [of "procs s" p] by blast
    moreover have "free_lock lk ?s" for lk using in_callD(4) [OF c, of lk] by (simp add: free_lock_def)
    ultimately have "\<exists>t s'. wait h addr s = Some (Asleep () t) \<and> scheduler_back h p t = Some s' \<and> c_proc (cpus s' h) = None \<and> (\<forall>lk. free_lock lk s')
          \<and> p_state (procs s' p) = SLEEPING \<and> p_chan (procs s' p) = Some (chan_proc p) \<and> (\<forall>q. q \<noteq> p \<longrightarrow> procs s' q = procs s q)
          \<and> (no_missed (procs s) \<longrightarrow> no_missed (procs s'))"
      using w t(2) by (intro exI [of _ t] exI [of _ ?s]) simp
    then show ?thesis using False by (simp only: None option.case if_False)
  qed
qed

subsection \<open>Examples\<close>

text \<open>Process 3 ends; its parent, init, sleeps in \<open>wait\<close>, and its child 5 is a zombie already.\<close>

definition kfile2 :: kfile where
  "kfile2 = kfile0\<lparr>procs := (\<lambda>_. proc0)(1 := proc0\<lparr>p_state := SLEEPING, p_chan := Some (chan_proc 1)\<rparr>,
     3 := proc0\<lparr>p_state := RUNNING, p_parent := Some 1\<rparr>, 5 := proc0\<lparr>p_state := ZOMBIE, p_parent := Some 3\<rparr>), initproc := Some 1\<rparr>"

lemma kfile2_ok: "in_call 0 3 kfile2" "initproc kfile2 = Some 1" "no_missed (procs kfile2)"
proof -
  show "in_call 0 3 kfile2" using kfile0_ok(1) by (subst in_call_cong [of _ kfile0]) (simp_all add: kfile2_def)
  show "initproc kfile2 = Some 1" by (simp add: kfile2_def)
  show "no_missed (procs kfile2)" by (auto simp: no_missed_def kfile2_def proc0_def)
qed

theorem exit_not_missed_witness:
  "\<exists>s'. Option.bind (exit_finish 0 3 42 kfile2) (scheduler_back 0 3) = Some s' \<and> no_missed (procs s')
    \<and> p_state (procs s' 3) = ZOMBIE \<and> p_xstate (procs s' 3) = 42 \<and> p_state (procs s' 1) = RUNNABLE \<and> p_parent (procs s' 5) = Some 1"
proof -
  have b: "(1::nat) < NPROC" "(5::nat) < NPROC" "(1::nat) \<noteq> 3" by (simp_all add: NPROC_def)
  show ?thesis using exit_not_missed [OF kfile2_ok(1,2) b(1,3) kfile2_ok(3), of 42]
  proof (elim exE conjE, goal_cases)
    case (1 s')
    have "p_state (procs s' 1) \<noteq> SLEEPING" using 1(7) b by (simp add: kfile2_def)
    then have "p_state (procs s' 1) = RUNNABLE" using spec [OF 1(9), of 1] b by (auto simp: kfile2_def)
    moreover have "p_parent (procs s' 5) = Some 1" using spec [OF 1(8), of 5] b by (auto simp: kfile2_def)
    ultimately show ?case using 1(1-4) by blast
  qed
qed

text \<open>Process 0, made by \<open>allocproc\<close> out of six pages, ends as a child of process 3.\<close>

lemma zombie_made:
  "\<exists>(s :: kfile) ys. in_call 0 3 s \<and> zombie_child 3 s = Some 0 \<and> p_pid (procs s 0) = 8 \<and> p_xstate (procs s 0) = 42 \<and> whole_proc 0 0 s ys \<and> set ys \<union> proc_pages 0 s = set six
    \<and> p_killed (procs s 3) = 0 \<and> (\<forall>q. q \<noteq> 0 \<longrightarrow> p_parent (procs s q) = None)"
proof -
  have f: "List.find (\<lambda>p. p_state (procs kfile1 p) = UNUSED) [0..<NPROC] = Some 0" using kfile1_ok(4) by (simp add: NPROC_def upt_conv_Cons)
  have e: "p_pagetable (procs kfile1 0) = 0" "p_sz (procs kfile1 0) = 0" by (simp_all add: kfile1_def proc0_def)
  obtain r :: "nat option" and s' where "case r of None \<Rightarrow> length six < 6 \<and> no_proc 0 3 0 six kfile1 s'
      | Some p' \<Rightarrow> p' = 0 \<and> fresh_proc 0 0 0 six kfile1 s'" using allocproc_ok [OF kfile1_ok(1,2) f e, of 0] by (elim exE conjE)
  then have "fresh_proc 0 0 0 six kfile1 s'" by (cases r) auto
  then obtain tf pt ys where hp: "holds_proc 0 0 kfile1 s'" and pr: "procs s' = (procs kfile1)(0 := (procs kfile1 0)\<lparr>p_pid := nextpid kfile1, p_state := USED,
        p_trapframe := tf, p_pagetable := pt, p_context := context0\<lparr>ctx_ra := 0, ctx_sp := p_kstack (procs kfile1 0) + PGSIZE\<rparr>\<rparr>)"
      and m: "proc_mem 0 pt 0 s' ys" "good_page (kend kfile1) tf" "tf \<notin> set ys \<union> tset 2 (mem s') pt" "set ys \<union> {tf} \<union> tset 2 (mem s') pt = set six"
    unfolding fresh_proc_def by blast
  let ?u = "(s'\<lparr>cpus := cpus kfile1, sie := sie kfile1, lks := lks kfile1\<rparr>)"
  let ?z = "upd_proc 0 (\<lambda>q. q\<lparr>p_state := ZOMBIE, p_parent := Some 3, p_xstate := 42\<rparr>) ?u"
  have c: "in_call 0 3 ?z" using kfile1_ok(1) by (subst in_call_cong [of _ kfile1]) simp_all
  have k: "kend s' = kend kfile1" using hp by (simp add: holds_proc_def)
  have "proc_mem 0 pt 0 ?z ys" by (rule proc_mem_cong [OF m(1)]) (use in_callD(1) [OF c] in_call_ready [OF c] in simp_all)
  then have "whole_proc 0 0 ?z ys" using m(2,3) k pr by (simp add: whole_proc_def PGROUNDUP_0 kfile1_def proc0_def)
  moreover have "set ys \<union> proc_pages 0 ?z = set six" using m(4) pr by (simp add: proc_pages_def PGROUNDUP_0 kfile1_def proc0_def)
  moreover have "zombie_child 3 ?z = Some 0" by (simp add: NPROC_def upt_conv_Cons)
  moreover have "p_pid (procs ?z 0) = 8" "p_xstate (procs ?z 0) = 42" using pr kfile1_ok(5) by simp_all
  moreover have "p_killed (procs ?z 3) = 0" "\<forall>q. q \<noteq> 0 \<longrightarrow> p_parent (procs ?z q) = None" using pr by (simp_all add: kfile1_def proc0_def)
  ultimately show ?thesis using c by blast
qed

text \<open>A page table for the parent, in pages of its own, with one page mapped at address 4096.\<close>

definition umem0 :: kmem where
  "umem0 = kmem0\<lparr>mem := st64 0x87ff9000 0x87ff8000 (\<lambda>_. 0), freelist := 0x87ff9000, kend := 0x87ff8000\<rparr>"

lemma umem0_table: "tbl 0 0x80000000 umem0 [0x87ff9000, 0x87ff8000]" "translate (mem umem0) 0x80000000 va = None"
  "tables (mem umem0) 0x80000000 = {0x80000}"
proof -
  have z: "pgno b = pgno 0x80000000 \<Longrightarrow> mem umem0 b = 0" for b
    using st64_page [of "0x87ff9000" b "0x87ff8000" "\<lambda>_. 0"] by (auto simp: umem0_def pgno_def)
  have al: "unat (0x80000000 :: addr) mod 4096 = 0" by simp
  show "translate (mem umem0) 0x80000000 va = None" by (rule empty_table(2) [OF al, of "{}"]) (use z in auto)
  show "tables (mem umem0) 0x80000000 = {0x80000}" by (rule empty_root) (rule z)
  have "pt_wf (mem umem0) 0x80000000 (free_pages [0x87ff9000, 0x87ff8000])"
    by (rule empty_table(1) [OF al]) (use z in \<open>auto simp: free_pages_def pgno_def\<close>)
  moreover have "mem_ready 0 umem0"
    using kmem0_two by (simp add: umem0_def kfree_list_def with_mem_def mem_ready_def hart_ok_def free_lock_def)
  then have "kfree_list 0 umem0 [0x87ff9000, 0x87ff8000]"
    by (simp add: umem0_def kfree_list_def free_inv_def good_page_def ld64_def st64_def
        PGSIZE_def PHYSTOP_def KERNBASE_def)
  ultimately show "tbl 0 0x80000000 umem0 [0x87ff9000, 0x87ff8000]" by (simp add: tbl_def)
qed

text \<open>The parent of the zombie above, with that page table.\<close>

lemma zombie_with_status:
  "\<exists>(s :: kfile) ys. in_call 0 3 s \<and> zombie_child 3 s = Some 0 \<and> p_pid (procs s 0) = 8 \<and> p_xstate (procs s 0) = 42 \<and> whole_proc 0 0 s ys
    \<and> status_place 3 0x1000 (set ys \<union> proc_pages 0 s) s \<and> (\<forall>i<4. status_byte 3 0x1000 i s = Some (0x80001000 + of_nat i))"
  using zombie_made
proof (elim exE conjE, goal_cases)
  case (1 s ys)
  have pg: "pgno (0x87ff9000 :: addr) = 0x87ff9" "pgno (0x87ff8000 :: addr) = 0x87ff8" by (simp_all add: pgno_def)
  obtain m where m: "pt_wf m 0x80000000 {0}" "0x80001 \<notin> tables m 0x80000000" "tables m 0x80000000 \<subseteq> {0x80000, 0x87ff9, 0x87ff8}"
    and u: "\<And>i. i < 4096 \<Longrightarrow> uaddr m 0x80000000 (0x1000 + of_nat i) = Some (0x80001000 + of_nat i) \<and> pgno (0x80001000 + of_nat i) = 0x80001"
    using mapped_page [OF umem0_table] pg by auto
  let ?U = "{b :: addr. pgno b \<in> {0x80000, 0x87ff9, 0x87ff8}}"
  define m' where "m' = (\<lambda>b. if b \<in> ?U then m b else mem s b)"
  have eq: "m' b = m b" if "pgno b \<in> tables m 0x80000000" for b using that m(3) by (auto simp: m'_def)
  note tf = tables_frame [OF m(1) eq]
  have tb: "tables m' 0x80000000 = tables m 0x80000000" by (rule tf(3))
  have ua: "uaddr m' 0x80000000 va = uaddr m 0x80000000 va" for va by (simp add: uaddr_def tf(2))
  have wf: "pt_wf m' 0x80000000 {0}" by (rule frame_wf [OF m(1) eq]) (use m(3) in auto)
  let ?P = "(procs s)(3 := (procs s 3)\<lparr>p_pagetable := 0x80000000\<rparr>)"
  let ?t = "s\<lparr>mem := m'\<rparr>" and ?s = "s\<lparr>mem := m', procs := ?P\<rparr>"
  have ct: "in_call 0 3 ?t" using 1(1) by (subst in_call_cong [of _ s]) simp_all
  have c: "in_call 0 3 ?s" using in_call_procs [OF ct, of ?P] by simp
  have six: "pgno a \<in> {0x87fff, 0x87ffe, 0x87ffd, 0x87ffc, 0x87ffb, 0x87ffa}" if "a \<in> set ys \<union> proc_pages 0 s" for a
    using that unfolding 1(6) by (auto simp: pgno_def)
  let ?n = "unat (PGROUNDUP (p_sz (procs s 0))) div 4096" and ?pt = "p_pagetable (procs s 0)"
  have pm: "proc_mem 0 ?pt ?n s ys" using 1(5) by (simp add: whole_proc_def Let_def)
  have rd: "mem_ready 0 ?t" "touch 0 ?t = ?t" using in_call_ready [OF ct] in_callD(1) [OF ct] by simp_all
  have fr: "\<forall>a. a \<notin> ?U \<longrightarrow> m' a = mem s a" by (simp add: m'_def)
  have apart: "n \<notin> pgno ` (set ys \<union> proc_pages 0 s)" if "n \<in> {0x80000, 0x80001, 0x87ff9, 0x87ff8}" for n
  proof
    assume "n \<in> pgno ` (set ys \<union> proc_pages 0 s)"
    then obtain a where "a \<in> set ys \<union> proc_pages 0 s" "n = pgno a" by blast
    then show False using six [of a] that by auto
  qed
  have U: "\<forall>a\<in>?U. pgno a \<notin> pgno ` (set ys \<union> tset 2 (mem s) ?pt)"
  proof
    fix a assume "a \<in> ?U"
    then have "pgno a \<notin> pgno ` (set ys \<union> proc_pages 0 s)" using apart [of "pgno a"] by auto
    moreover have "tset 2 (mem s) ?pt \<subseteq> proc_pages 0 s" by (auto simp: proc_pages_def Let_def)
    ultimately show "pgno a \<notin> pgno ` (set ys \<union> tset 2 (mem s) ?pt)" by blast
  qed
  note pf = proc_mem_frame [OF pm rd fr U]
  have pm': "proc_mem 0 ?pt ?n ?s ys"
    by (rule proc_mem_cong [OF pf(1)]) (use in_callD(1) [OF c] in_call_ready [OF c] in simp_all)
  have w: "whole_proc 0 0 ?s ys" and pp: "proc_pages 0 ?s = proc_pages 0 s"
    using 1(5) pf pm' by (simp_all add: whole_proc_def proc_pages_def Let_def)
  have "(\<lambda>q. p_parent (procs ?s q) = Some 3 \<and> p_state (procs ?s q) = ZOMBIE) = (\<lambda>q. p_parent (procs s q) = Some 3 \<and> p_state (procs s q) = ZOMBIE)"
    by (auto simp: fun_eq_iff)
  then have z: "zombie_child 3 ?s = Some 0" using 1(2) by metis
  have b4: "\<forall>i<4. status_byte 3 0x1000 i ?s = Some (0x80001000 + of_nat i)" using u by (simp add: ua)
  have u4: "uaddr m 0x80000000 (0x1000 + of_nat i) = Some (0x80001000 + of_nat i)" "pgno (0x80001000 + of_nat i) = 0x80001" if "i < 4" for i
    using u [of i] that by simp_all
  have own: "own_range m' 0x80000000 0x1000 4"
    unfolding own_range_def ua tb
  proof (intro allI impI conjI, goal_cases)
    case (1 i a)
    then show ?case using u4 [OF 1(1)] m(2) by simp
  next
    case (2 i a j)
    have "(0x80001000 :: addr) + of_nat j = 0x80001000 + of_nat i"
      using u4(1) [OF 2(1)] u4(1) [OF 2(3)] 2(2,4) by simp
    then have "(of_nat j :: addr) = of_nat i" by (simp only: add_left_cancel)
    then show ?case using of_nat_page_inj [of j i] 2(1,3) by simp
  qed
  have "pgno a \<notin> pgno ` (set ys \<union> proc_pages 0 s)" if "a \<in> urange m' 0x80000000 0x1000 4" for a
  proof -
    have "pgno a = 0x80001" using that u4 unfolding urange_def ua by auto
    then show ?thesis using apart by auto
  qed
  then have "status_place 3 0x1000 (set ys \<union> proc_pages 0 ?s) ?s"
    using wf own unfolding pp status_place_def Let_def by (auto intro: exI [of _ "{0}"])
  then show ?case using c z w b4 1(3,4) by (intro exI [of _ ?s] exI [of _ ys]) simp
qed

theorem wait_correct_witness:
  "(\<exists>(s :: kfile) s' ys. in_call 0 3 s \<and> zombie_child 3 s = Some 0 \<and> wait 0 0 s = Some (Done 8 s') \<and> kfree_list 0 s' ys \<and> set ys = set six
    \<and> (\<exists>t. wait 0 0 (s\<lparr>procs := (procs s)(0 := (procs s 0)\<lparr>p_state := RUNNABLE\<rparr>)\<rparr>) = Some (Asleep () t)))
    \<and> (\<exists>(s :: kfile) s'. zombie_child 3 s = Some 0 \<and> wait 0 0x1000 s = Some (Done 8 s') \<and> mem s' 0x80001000 = 42 \<and> p_state (procs s' 0) = UNUSED)"
proof (rule conjI, goal_cases)
  case 1
  show ?case using zombie_made
  proof (elim exE conjE, goal_cases)
    case (1 s ys)
    let ?r = "s\<lparr>procs := (procs s)(0 := (procs s 0)\<lparr>p_state := RUNNABLE\<rparr>)\<rparr>"
    have c: "in_call 0 3 ?r" by (rule in_call_procs [OF 1(1)])
    have z0: "0 < NPROC" "p_parent (procs s 0) = Some 3" using 1(2) by (auto simp: find_Some_iff)
    have z: "zombie_child 3 ?r = None" "p_killed (procs ?r 3) = 0" using 1(7,8) by (simp_all add: find_None_iff)
    have k: "has_child 3 ?r" using z0 by (intro exI [of _ 0]) simp
    have "\<exists>t. wait 0 0 ?r = Some (Asleep () t)" using wait_correct [OF c, of 0] z k by (simp only: option.case) auto
    moreover have "\<exists>s' ys. wait 0 0 s = Some (Done 8 s') \<and> kfree_list 0 s' ys \<and> set ys = set six"
      using wait_correct [OF 1(1), of 0] 1(5) unfolding 1(2) option.case 1(3) reaped_def 1(6) [symmetric] by blast
    ultimately show ?case using 1(1,2) by blast
  qed
next
  case 2
  show ?case using zombie_with_status
  proof (elim exE conjE, goal_cases)
    case (1 s ys)
    have "\<forall>i<4. status_byte 3 0x1000 i s \<noteq> None" using 1(7) by simp
    then obtain s' where s': "wait 0 0x1000 s = Some (Done 8 s')" "reaped 0 3 0 ys s s'"
      and b: "\<forall>i<4. \<forall>a. status_byte 3 0x1000 i s = Some a \<longrightarrow> mem s' a = ucast (drop_bit (8 * i) (p_xstate (procs s 0)))"
      using wait_correct [OF 1(1), of "0x1000"] 1(5,6) unfolding 1(2) option.case 1(3) by auto
    have "mem s' 0x80001000 = 42" using b [rule_format, of 0 "0x80001000"] 1(7) [rule_format, of 0] 1(4) by simp
    moreover have "p_state (procs s' 0) = UNUSED" using s'(2) by (simp add: reaped_def cleared_def)
    ultimately show ?case using s'(1) 1(2) by blast
  qed
qed

end
