(* ===== verification/Printf.thy ===== *)
theory Printf
  imports Cmem Sleeplock
begin

text \<open>
  Formatted output: \<open>labo2/user/printf.c\<close> and \<open>labo2/kernel/printf.c\<close>. The result of a print function is the list of bytes
  that it hands to \<open>putc\<close> or \<open>consputc\<close>, in order. The variable arguments are a list; \<open>None\<close> is undefined behaviour: a
  conversion without an argument, or a number where a string is needed or the other way round.
\<close>

subsection \<open>Numbers\<close>

definition digits_upper :: "uchar list" where
  "digits_upper = [0x30, 0x31, 0x32, 0x33, 0x34, 0x35, 0x36, 0x37, 0x38, 0x39, 0x41, 0x42, 0x43, 0x44, 0x45, 0x46]"

definition digits_lower :: "uchar list" where
  "digits_lower = [0x30, 0x31, 0x32, 0x33, 0x34, 0x35, 0x36, 0x37, 0x38, 0x39, 0x61, 0x62, 0x63, 0x64, 0x65, 0x66]"

text \<open>
  The loop that fills \<open>buf\<close>, from the last digit to the first; \<open>None\<close> is a write behind the end of \<open>buf\<close>
  or an index that is not in \<open>digits\<close>.
\<close>

function fill_buf :: "uchar list \<Rightarrow> uint \<Rightarrow> uint \<Rightarrow> uchar list \<Rightarrow> uchar list option" where
  "fill_buf digits base x buf =
     (if unat (x mod base) \<ge> length digits \<or> length buf \<ge> 16 then None
      else let buf = buf @ [digits ! unat (x mod base)] in
        if x div base \<noteq> 0 then fill_buf digits base (x div base) buf else Some buf)"
  by auto
termination
  by (relation "measure (\<lambda>(digits, base, x, buf). 16 - length buf)") auto

declare fill_buf.simps [simp del]

text \<open>\<open>printint\<close> of user space and of the kernel; the bytes leave \<open>buf\<close> from the back.\<close>

definition push_sign :: "bool \<Rightarrow> uchar list \<Rightarrow> uchar list option" where
  "push_sign neg buf = (if \<not> neg then Some buf else if length buf \<ge> 16 then None else Some (buf @ [0x2D]))"

definition printint :: "cint \<Rightarrow> uint \<Rightarrow> bool \<Rightarrow> uchar list option" where
  "printint xx base sg = do {
     let neg = (sg \<and> sint xx < 0);
     let x = (if neg then - xx else xx);
     buf \<leftarrow> fill_buf digits_upper base x [];
     buf \<leftarrow> push_sign neg buf;
     Some (rev buf) }"

definition k_printint :: "cint \<Rightarrow> uint \<Rightarrow> bool \<Rightarrow> uchar list option" where
  "k_printint xx base sign = do {
     let sign = (sign \<and> sint xx < 0);
     let x = (if sign then - xx else xx);
     buf \<leftarrow> fill_buf digits_lower base x [];
     buf \<leftarrow> push_sign sign buf;
     Some (rev buf) }"

text \<open>\<open>printptr\<close>: sixteen times the four highest bits, then shift.\<close>

primrec ptr_digits :: "uchar list \<Rightarrow> nat \<Rightarrow> uint64 \<Rightarrow> uchar list" where
  "ptr_digits digits 0 x = []"
| "ptr_digits digits (Suc i) x = digits ! unat (drop_bit 60 x) # ptr_digits digits i (push_bit 4 x)"

definition printptr :: "uint64 \<Rightarrow> uchar list" where
  "printptr x = [0x30, 0x78] @ ptr_digits digits_upper 16 x"

definition k_printptr :: "uint64 \<Rightarrow> uchar list" where
  "k_printptr x = [0x30, 0x78] @ ptr_digits digits_lower 16 x"

subsection \<open>Format strings\<close>

text \<open>An argument: a 64-bit register, or a pointer to a string, which may be null.\<close>

datatype varg = VNum uint64 | VStr "uchar list option"

definition null_text :: "uchar list" where
  "null_text = [0x28, 0x6E, 0x75, 0x6C, 0x6C, 0x29]"

fun arg_num :: "varg list \<Rightarrow> (uint64 \<times> varg list) option" where
  "arg_num (VNum n # ap) = Some (n, ap)"
| "arg_num ap = None"

fun arg_str :: "varg list \<Rightarrow> (uchar list \<times> varg list) option" where
  "arg_str (VStr (Some s) # ap) = Some (s, ap)"
| "arg_str (VStr None # ap) = Some (null_text, ap)"
| "arg_str ap = None"

text \<open>What the character \<open>c\<close> behind a percent sign prints, in user space and in the kernel.\<close>

definition conv :: "uchar \<Rightarrow> varg list \<Rightarrow> (uchar list \<times> varg list) option" where
  "conv c ap =
     (if c = 0x64 then do { (n, ap) \<leftarrow> arg_num ap; out \<leftarrow> printint (ucast n) 10 True; Some (out, ap) }
      else if c = 0x6C then do { (n, ap) \<leftarrow> arg_num ap; out \<leftarrow> printint (ucast n) 10 False; Some (out, ap) }
      else if c = 0x78 then do { (n, ap) \<leftarrow> arg_num ap; out \<leftarrow> printint (ucast n) 16 False; Some (out, ap) }
      else if c = 0x70 then do { (n, ap) \<leftarrow> arg_num ap; Some (printptr n, ap) }
      else if c = 0x73 then arg_str ap
      else if c = 0x63 then do { (n, ap) \<leftarrow> arg_num ap; Some ([ucast n], ap) }
      else if c = 0x25 then Some ([c], ap)
      else Some ([0x25, c], ap))"

definition k_conv :: "uchar \<Rightarrow> varg list \<Rightarrow> (uchar list \<times> varg list) option" where
  "k_conv c ap =
     (if c = 0x64 then do { (n, ap) \<leftarrow> arg_num ap; out \<leftarrow> k_printint (ucast n) 10 True; Some (out, ap) }
      else if c = 0x78 then do { (n, ap) \<leftarrow> arg_num ap; out \<leftarrow> k_printint (ucast n) 16 True; Some (out, ap) }
      else if c = 0x70 then do { (n, ap) \<leftarrow> arg_num ap; Some (k_printptr n, ap) }
      else if c = 0x73 then arg_str ap
      else if c = 0x25 then Some ([0x25], ap)
      else Some ([0x25, c], ap))"

text \<open>The loop of \<open>vprintf\<close> with its variable \<open>state\<close>: true after a percent sign.\<close>

fun vprintf_loop :: "bool \<Rightarrow> uchar list \<Rightarrow> varg list \<Rightarrow> uchar list option" where
  "vprintf_loop state [] ap = Some []"
| "vprintf_loop False (c # fmt) ap =
     (if c = 0x25 then vprintf_loop True fmt ap
      else do { out \<leftarrow> vprintf_loop False fmt ap; Some (c # out) })"
| "vprintf_loop True (c # fmt) ap = do {
     (o1, ap) \<leftarrow> conv c ap;
     o2 \<leftarrow> vprintf_loop False fmt ap;
     Some (o1 @ o2) }"

definition vprintf :: "uchar list \<Rightarrow> varg list \<Rightarrow> uchar list option" where
  "vprintf fmt ap = vprintf_loop False fmt ap"

definition u_fprintf :: "int \<Rightarrow> uchar list \<Rightarrow> varg list \<Rightarrow> (int \<times> uchar list) option" where
  "u_fprintf fd fmt ap = do { out \<leftarrow> vprintf fmt ap; Some (fd, out) }"

definition u_printf :: "uchar list \<Rightarrow> varg list \<Rightarrow> (int \<times> uchar list) option" where
  "u_printf fmt ap = do { out \<leftarrow> vprintf fmt ap; Some (1, out) }"

text \<open>The loop of the kernel's \<open>printf\<close>, which looks at two characters at a time.\<close>

fun k_printf_loop :: "uchar list \<Rightarrow> varg list \<Rightarrow> uchar list option" where
  "k_printf_loop [] ap = Some []"
| "k_printf_loop [c] ap = Some (if c = 0x25 then [] else [c])"
| "k_printf_loop (c # d # fmt) ap =
     (if c \<noteq> 0x25 then do { out \<leftarrow> k_printf_loop (d # fmt) ap; Some (c # out) }
      else do {
        (o1, ap) \<leftarrow> k_conv d ap;
        o2 \<leftarrow> k_printf_loop fmt ap;
        Some (o1 @ o2) })"

text \<open>The lock is used when \<open>pr.locking\<close> is set; a null format is a panic.\<close>

definition k_printf ::
  "nat \<Rightarrow> bool \<Rightarrow> uchar list option \<Rightarrow> varg list \<Rightarrow> 'a kproc_scheme \<Rightarrow> (uchar list \<times> 'a kproc_scheme) option" where
  "k_printf h locking fmt ap s = do {
     s \<leftarrow> (if locking then acquire h pr_lock s else Some s);
     fmt \<leftarrow> fmt;
     out \<leftarrow> k_printf_loop fmt ap;
     s \<leftarrow> (if locking then release h pr_lock s else Some s);
     Some (out, s) }"

definition printfinit :: "'a kproc_scheme \<Rightarrow> bool \<times> 'a kproc_scheme" where
  "printfinit s = (True, initlock pr_lock ''pr'' s)"


subsection \<open>Lemmas: digits\<close>

text \<open>The digits of a number, the last one first.\<close>

function nat_digits :: "nat \<Rightarrow> nat \<Rightarrow> nat list" where
  "nat_digits b n = n mod b # (if b < 2 \<or> n div b = 0 then [] else nat_digits b (n div b))"
  by auto
termination
proof (relation "measure snd")
  fix b n :: nat
  assume "\<not> (b < 2 \<or> n div b = 0)"
  then have "1 < b" "0 < n" by (auto intro: gr0I)
  then show "((b, n div b), b, n) \<in> measure snd" by simp
qed simp

declare nat_digits.simps [simp del]

primrec digits_nat :: "nat \<Rightarrow> nat list \<Rightarrow> nat" where
  "digits_nat b [] = 0"
| "digits_nat b (d # ds) = d + b * digits_nat b ds"

lemma digits_nat_digits: "1 < b \<Longrightarrow> digits_nat b (nat_digits b n) = n"
proof (induction b n rule: nat_digits.induct)
  case (1 b n)
  show ?case
  proof (cases "n div b = 0")
    case True
    then have "n mod b = n" using mod_mult_div_eq [of n b] by simp
    then show ?thesis using True by (subst nat_digits.simps) simp
  next
    case False
    then show ?thesis using 1 by (subst nat_digits.simps) simp
  qed
qed

lemma nat_digits_bound: "0 < b \<Longrightarrow> d \<in> set (nat_digits b n) \<Longrightarrow> d < b"
proof (induction b n rule: nat_digits.induct)
  case (1 b n)
  show ?case using 1(3) 1(1)[OF _ 1(2)] 1(2) by (subst (asm) nat_digits.simps) (auto split: if_splits)
qed

lemma nat_digits_lead: "1 < b \<Longrightarrow> n \<noteq> 0 \<Longrightarrow> List.last (nat_digits b n) \<noteq> 0"
proof (induction b n rule: nat_digits.induct)
  case (1 b n)
  have ne: "nat_digits b k \<noteq> []" for k by (subst nat_digits.simps) simp
  show ?case
  proof (cases "n div b = 0")
    case True
    then have "n mod b = n" using mod_mult_div_eq [of n b] by simp
    then show ?thesis using True 1 by (subst nat_digits.simps) simp
  next
    case False
    then show ?thesis using 1 ne by (subst nat_digits.simps) simp
  qed
qed

lemma nat_digits_length: "n < b ^ k \<Longrightarrow> 1 < b \<Longrightarrow> 0 < k \<Longrightarrow> length (nat_digits b n) \<le> k"
proof (induction k arbitrary: n)
  case (Suc k)
  show ?case
  proof (cases "n div b = 0")
    case True
    then show ?thesis by (subst nat_digits.simps) simp
  next
    case False
    have "n div b < b ^ k" using Suc.prems(1,2) by (simp add: div_less_iff_less_mult mult.commute)
    moreover have "0 < k" using False calculation by (cases k) auto
    ultimately show ?thesis using Suc.IH [of "n div b"] Suc.prems(2) False by (subst nat_digits.simps) simp
  qed
qed simp

lemma fill_buf_ok:
  assumes "length ds = 16" and b: "1 < unat base" "unat base \<le> 16"
  shows "length buf + length (nat_digits (unat base) (unat x)) \<le> 16 \<Longrightarrow>
    fill_buf ds base x buf = Some (buf @ map ((!) ds) (nat_digits (unat base) (unat x)))"
proof (induction "length (nat_digits (unat base) (unat x))" arbitrary: x buf rule: less_induct)
  case less
  have u: "unat (x mod base) = unat x mod unat base" "unat (x div base) = unat x div unat base" by (simp_all add: unat_mod_distrib unat_div_distrib)
  have z: "x div base = 0 \<longleftrightarrow> unat x div unat base = 0" using u(2) by (metis unat_eq_zero)
  have m: "unat x mod unat base < unat base" using b by (intro mod_less_divisor) simp
  have "unat (x mod base) < length ds" using m u assms by linarith
  moreover have "length buf < 16" using less.prems by (simp add: nat_digits.simps [of "unat base" "unat x"])
  ultimately have l: "\<not> (unat (x mod base) \<ge> length ds \<or> length buf \<ge> 16)" by simp
  show ?case
  proof (cases "unat x div unat base = 0")
    case True
    then show ?thesis using l z u by (subst fill_buf.simps, subst nat_digits.simps) simp
  next
    case False
    have d: "nat_digits (unat base) (unat x) = unat x mod unat base # nat_digits (unat base) (unat x div unat base)"
      using False b by (subst nat_digits.simps) simp
    have "fill_buf ds base (x div base) (buf @ [ds ! (unat x mod unat base)])
        = Some ((buf @ [ds ! (unat x mod unat base)]) @ map ((!) ds) (nat_digits (unat base) (unat (x div base))))"
      by (rule less.hyps) (use less.prems d u in simp_all)
    moreover have "fill_buf ds base x buf = fill_buf ds base (x div base) (buf @ [ds ! (unat x mod unat base)])"
      using l z u False by (subst fill_buf.simps) simp
    ultimately show ?thesis unfolding d u by simp
  qed
qed


subsection \<open>Decimal numbers\<close>

lemma digits_value_snoc: "digits_value (ds @ [d]) n = digits_value ds n * 10 + (uint d - 48)"
  by (induction ds arbitrary: n) auto

definition dec :: "nat \<Rightarrow> uchar list" where
  "dec n = rev (map ((!) digits_upper) (nat_digits 10 n))"

lemma digit_char:
  assumes "k < 10"
  shows "digits_upper ! k = of_nat (48 + k)" "digits_lower ! k = of_nat (48 + k)" "uint (of_nat (48 + k) :: uchar) = 48 + int k" "is_digit (of_nat (48 + k))"
proof -
  have "k = 0 \<or> k = 1 \<or> k = 2 \<or> k = 3 \<or> k = 4 \<or> k = 5 \<or> k = 6 \<or> k = 7 \<or> k = 8 \<or> k = 9" using assms by auto
  then show "digits_upper ! k = of_nat (48 + k)" "digits_lower ! k = of_nat (48 + k)" "uint (of_nat (48 + k) :: uchar) = 48 + int k" "is_digit (of_nat (48 + k))"
    by (elim disjE; simp add: digits_upper_def digits_lower_def is_digit_def)+
qed

lemma dec_lower: "rev (map ((!) digits_lower) (nat_digits 10 n)) = dec n"
proof -
  have "digits_lower ! d = digits_upper ! d" if "d \<in> set (nat_digits 10 n)" for d
    using nat_digits_bound [OF _ that] digit_char(1,2) [of d] by simp
  then show ?thesis by (simp add: dec_def)
qed

lemma dec_value: "digits_value (dec n) 0 = int n"
proof -
  have "digits_value (rev (map ((!) digits_upper) ds)) 0 = int (digits_nat 10 ds)" if "\<forall>d\<in>set ds. d < 10" for ds
    using that by (induction ds) (simp_all add: digits_value_snoc digit_char(1) digit_char(3) [simplified])
  then show ?thesis unfolding dec_def using nat_digits_bound [of 10 _ n] digits_nat_digits [of 10 n] by simp
qed

lemma dec_digits: "list_all is_digit (dec n)"
proof -
  have "is_digit (digits_upper ! d)" if "d \<in> set (nat_digits 10 n)" for d
    using nat_digits_bound [OF _ that] digit_char(1,4) [of d] by simp
  then show ?thesis by (auto simp: dec_def list_all_iff)
qed

lemma dec_lead: "n \<noteq> 0 \<Longrightarrow> hd (dec n) \<noteq> 0x30" "dec 0 = [0x30]" "dec n \<noteq> []"
proof -
  have ne: "nat_digits 10 n \<noteq> []" by (subst nat_digits.simps) simp
  then show "dec n \<noteq> []" by (simp add: dec_def)
  show "dec 0 = [0x30]" by (simp add: dec_def nat_digits.simps digits_upper_def)
  let ?l = "List.last (nat_digits 10 n)"
  assume "n \<noteq> 0"
  then have l: "?l \<noteq> 0" "?l < 10" using nat_digits_lead [of 10 n] nat_digits_bound [of 10 ?l n] last_in_set [OF ne] by auto
  have "hd (dec n) = digits_upper ! ?l" using ne by (simp add: dec_def hd_rev last_map)
  moreover have "of_nat (48 + ?l) \<noteq> (0x30 :: uchar)" using digit_char(3) [OF l(2)] l(1) by force
  ultimately show "hd (dec n) \<noteq> 0x30" using digit_char(1) [OF l(2)] by simp
qed

lemma printint_dec:
  "printint x 10 True = Some ((if sint x < 0 then [0x2D] else []) @ dec (nat \<bar>sint x\<bar>))"
  "k_printint x 10 True = Some ((if sint x < 0 then [0x2D] else []) @ dec (nat \<bar>sint x\<bar>))"
proof -
  let ?y = "if sint x < 0 then - x else x"
  have y: "unat ?y = nat \<bar>sint x\<bar>"
  proof (cases "sint x < 0")
    case True
    have r: "0 \<le> - sint x" "- sint x \<le> 2 ^ 31" using True sint_greater_eq [of x] by simp_all
    have "uint (- x) = uint (of_int (- sint x) :: cint)" by simp
    also have "\<dots> = - sint x mod 2 ^ 32" by (simp only: uint_word_of_int) simp
    also have "\<dots> = - sint x" using r by (intro mod_pos_pos_trivial) simp_all
    finally show ?thesis using True by (simp add: unat_eq_nat_uint)
  next
    case False
    have "uint x = uint (of_int (sint x) :: cint)" by simp
    also have "\<dots> = sint x mod 2 ^ 32" by (simp only: uint_word_of_int) simp
    also have "\<dots> = sint x" using False sint_less [of x] by (intro mod_pos_pos_trivial) simp_all
    finally show ?thesis using False by (simp add: unat_eq_nat_uint)
  qed
  have "unat ?y < 10 ^ 10" using unsigned_less [of ?y] by (rule order_less_le_trans) simp
  then have len: "length (nat_digits 10 (unat ?y)) \<le> 10" by (rule nat_digits_length) simp_all
  have ten: "unat (10 :: uint) = 10" by simp
  have f: "fill_buf ds 10 ?y [] = Some (map ((!) ds) (nat_digits 10 (nat \<bar>sint x\<bar>)))" if "length ds = 16" for ds
    using fill_buf_ok [OF that, of 10 "[]" ?y] len y ten by simp
  have l: "length (nat_digits 10 (nat \<bar>sint x\<bar>)) < 16" using len y by simp
  show "printint x 10 True = Some ((if sint x < 0 then [0x2D] else []) @ dec (nat \<bar>sint x\<bar>))"
    "k_printint x 10 True = Some ((if sint x < 0 then [0x2D] else []) @ dec (nat \<bar>sint x\<bar>))"
    using f [of digits_upper] f [of digits_lower] l dec_lower [of "nat \<bar>sint x\<bar>"]
    by (simp_all add: printint_def k_printint_def push_sign_def digits_upper_def digits_lower_def dec_def [symmetric] split: if_splits)
      (simp_all add: dec_def digits_upper_def)
qed


text \<open>A decimal numeral: digits without leading zeros, with a minus sign before it if it is negative.\<close>

fun decimal :: "uchar list \<Rightarrow> bool" where
  "decimal [] = False"
| "decimal (c # ds) = (if c = 0x2D then ds \<noteq> [] \<and> list_all is_digit ds \<and> hd ds \<noteq> 0x30
     else list_all is_digit (c # ds) \<and> (c = 0x30 \<longrightarrow> ds = []))"

fun decimal_value :: "uchar list \<Rightarrow> int" where
  "decimal_value [] = 0"
| "decimal_value (c # ds) = (if c = 0x2D then - digits_value ds 0 else digits_value (c # ds) 0)"

lemma signed_dec:
  "decimal ((if z < 0 then [0x2D] else []) @ dec (nat \<bar>z\<bar>))"
  "decimal_value ((if z < 0 then [0x2D] else []) @ dec (nat \<bar>z\<bar>)) = z"
proof -
  obtain c ds where c: "dec (nat \<bar>z\<bar>) = c # ds" using dec_lead(3) [of "nat \<bar>z\<bar>"] by (cases "dec (nat \<bar>z\<bar>)") auto
  have d: "list_all is_digit (c # ds)" "digits_value (c # ds) 0 = \<bar>z\<bar>"
    using dec_digits [of "nat \<bar>z\<bar>"] dec_value [of "nat \<bar>z\<bar>"] c by simp_all
  have m: "c \<noteq> 0x2D" using d(1) by (auto simp: is_digit_def)
  have z: "z \<noteq> 0 \<Longrightarrow> c \<noteq> 0x30" "z = 0 \<Longrightarrow> ds = []" using dec_lead(1) [of "nat \<bar>z\<bar>"] dec_lead(2) c by auto
  show "decimal ((if z < 0 then [0x2D] else []) @ dec (nat \<bar>z\<bar>))" using d(1) m z unfolding c by auto
  show "decimal_value ((if z < 0 then [0x2D] else []) @ dec (nat \<bar>z\<bar>)) = z" using d(2) m unfolding c by auto
qed

lemma atoi_signed:
  assumes "string_at m a ((if z < 0 then [0x2D] else []) @ dec (nat \<bar>z\<bar>))"
  shows "u_atoi a m = Some (if z < 0 then 0 else of_int z)"
proof (cases "z < 0")
  case True
  then have "string_at m a ([] @ 0x2D # dec (nat \<bar>z\<bar>))" using assms by simp
  from atoi_loop_spec [OF this, of 0] True show ?thesis by (simp add: u_atoi_def is_digit_def)
next
  case False
  then have "string_at m a (dec (nat \<bar>z\<bar>) @ [])" using assms by simp
  from atoi_loop_spec [OF this dec_digits, of 0] False show ?thesis by (simp add: u_atoi_def dec_value)
qed

text \<open>
  C38. Decimal output. \<open>%d\<close> prints, in user space and in the kernel, the decimal numeral of its argument, a
  signed 32-bit number: digits without leading zeros, with a minus sign before them for a negative number, the
  least one included, whose negation wraps around; the 16 bytes of \<open>buf\<close> are enough. \<open>atoi\<close> applied to what was
  printed gives a number back that is not negative; it knows no sign, so for a negative number it gives 0.
\<close>

theorem printf_decimal:
  "\<exists>out. vprintf [0x25, 0x64] [VNum n] = Some out \<and> k_printf_loop [0x25, 0x64] [VNum n] = Some out
     \<and> decimal out \<and> decimal_value out = sint (ucast n :: cint)
     \<and> (\<forall>m a. string_at m a out \<longrightarrow> u_atoi a m = Some (if sint (ucast n :: cint) < 0 then 0 else ucast n))"
proof -
  let ?x = "ucast n :: cint"
  let ?out = "(if sint ?x < 0 then [0x2D] else []) @ dec (nat \<bar>sint ?x\<bar>)"
  have "vprintf [0x25, 0x64] [VNum n] = Some ?out" "k_printf_loop [0x25, 0x64] [VNum n] = Some ?out"
    using printint_dec [of ?x] by (simp_all add: vprintf_def conv_def k_conv_def)
  moreover have "u_atoi a m = Some (if sint ?x < 0 then 0 else ?x)" if "string_at m a ?out" for m a
    using atoi_signed [OF that] by simp
  ultimately show ?thesis using signed_dec [of "sint ?x"] by (intro exI [of _ ?out]) simp
qed

theorem printf_decimal_witness:
  "\<exists>out. vprintf [0x25, 0x64] [VNum (- 42)] = Some (0x2D # out) \<and> digits_value out 0 = 42
     \<and> u_atoi 100 ((\<lambda>_. 0)(100 := 0x34, 101 := 0x32)) = Some 42"
proof -
  have s: "sint (ucast (- 42 :: uint64) :: cint) = - 42" "sint (ucast (42 :: uint64) :: cint) = 42" by simp_all
  obtain out where o: "vprintf [0x25, 0x64] [VNum (- 42)] = Some out" "decimal_value out = - 42" "decimal out"
    using printf_decimal [of "- 42"] unfolding s by blast
  have "vprintf [0x25, 0x64] [VNum (- 42)] = Some (0x2D # [0x34, 0x32])" "vprintf [0x25, 0x64] [VNum 42] = Some [0x34, 0x32]"
    using printint_dec(1) [of "ucast (- 42 :: uint64)"] printint_dec(1) [of "ucast (42 :: uint64)"] unfolding s
    by (simp_all add: vprintf_def conv_def dec_def nat_digits.simps digits_upper_def)
  moreover have "string_at ((\<lambda>_. 0)(100 := 0x34, 101 := 0x32)) 100 [0x34, 0x32]" by simp
  then have "u_atoi 100 ((\<lambda>_. 0)(100 := 0x34, 101 := 0x32)) = Some 42"
    using printf_decimal [of 42] calculation(2) unfolding s by auto
  ultimately show ?thesis using o by auto
qed

subsection \<open>The two implementations\<close>

text \<open>A format in which every percent sign is followed by one of \<open>d\<close>, \<open>s\<close> and \<open>%\<close>.\<close>

fun plain_format :: "uchar list \<Rightarrow> bool" where
  "plain_format [] = True"
| "plain_format [c] = (c \<noteq> 0x25)"
| "plain_format (c # d # fmt) = (if c = 0x25 then d \<in> {0x64, 0x73, 0x25} \<and> plain_format fmt else plain_format (d # fmt))"

lemma conv_agree: "c \<in> {0x64, 0x73, 0x25} \<Longrightarrow> k_conv c ap = conv c ap"
  by (cases "arg_num ap") (auto simp: conv_def k_conv_def printint_dec)

lemma printf_loops_agree: "plain_format fmt \<Longrightarrow> k_printf_loop fmt ap = vprintf_loop False fmt ap"
proof (induction fmt ap rule: k_printf_loop.induct)
  case (3 c d fmt ap)
  show ?case
  proof (cases "c = 0x25")
    case True
    then have p: "d \<in> {0x64, 0x73, 0x25}" "plain_format fmt" using 3(3) by auto
    show ?thesis using True conv_agree [OF p(1), of ap] 3(2) p(2) by (cases "conv d ap") auto
  next
    case False
    then show ?thesis using 3 by simp
  qed
qed simp_all

text \<open>
  The user library's \<open>printf\<close>, a state machine over single characters, and the kernel's, which looks ahead one
  character, print the same bytes for every format that uses only \<open>%d\<close>, \<open>%s\<close> and \<open>%%\<close>; and the kernel's
  \<open>printf\<close> leaves the state of the machine as it was, also when it takes its lock.
\<close>

theorem printf_implementations_agree:
  assumes "plain_format fmt" and "calm h s" and "free_lock pr_lock s"
  shows "k_printf h locking (Some fmt) ap s = map_option (\<lambda>out. (out, s)) (vprintf fmt ap)"
  using assms release_section [OF assms(2,3)] printf_loops_agree [OF assms(1), of ap]
  by (cases "vprintf_loop False fmt ap") (simp_all add: k_printf_def vprintf_def acquire_free)


theorem printf_implementations_agree_witness:
  "k_printf 0 True (Some [0x61, 0x25, 0x73, 0x25, 0x25]) [VStr (Some [0x62, 0x63])] (kproc0\<lparr>sie := \<lambda>_. False\<rparr>)
     = Some ([0x61, 0x62, 0x63, 0x25], kproc0\<lparr>sie := \<lambda>_. False\<rparr>)"
proof -
  let ?s = "kproc0\<lparr>sie := \<lambda>_. False\<rparr>"
  have "calm 0 ?s" "free_lock pr_lock ?s" by (simp_all add: calm_iff hart_ok_def free_lock_def)
  from printf_implementations_agree [OF _ this, of "[0x61, 0x25, 0x73, 0x25, 0x25]" True "[VStr (Some [0x62, 0x63])]"] show ?thesis
    by (simp add: vprintf_def conv_def)
qed

end
