(* ===== verification/Syscall.thy ===== *)
theory Syscall
  imports Exec Waiting Printf
begin

text \<open>
  The remaining system calls of \<open>labo2/kernel/sysproc.c\<close>, the clock of \<open>trap.c\<close> and the dispatch of \<open>syscall.c\<close>. A system call that leaves
  the hart has the result \<open>Asleep\<close>; where it goes on is the function with \<open>resume\<close> in its name, and for \<open>exit\<close> nowhere.
\<close>

subsection \<open>Processes and time\<close>

definition ksys_exit :: "nat \<Rightarrow> 'a kfile_scheme \<Rightarrow> 'a kfile_scheme option" where
  "ksys_exit h s = do { (n, s) \<leftarrow> argint h 0 s; exit h n s }"

definition ksys_getpid :: "nat \<Rightarrow> 'a kproc_scheme \<Rightarrow> (cint \<times> 'a kproc_scheme) option" where
  "ksys_getpid h s = do { (mp, s) \<leftarrow> myproc h s; p \<leftarrow> mp; Some (p_pid (procs s p), s) }"

definition ksys_fork :: "nat \<Rightarrow> uint64 \<Rightarrow> 'a kfile_scheme \<Rightarrow> (cint \<times> 'a kfile_scheme) option" where
  "ksys_fork h forkret s = fork h forkret s"

definition ksys_wait :: "nat \<Rightarrow> 'a kmem_scheme \<Rightarrow> (cint, unit, 'a kmem_scheme) progress option" where
  "ksys_wait h s = do { (p, s) \<leftarrow> argaddr h 0 s; wait h p s }"

definition ksys_sbrk :: "nat \<Rightarrow> 'a kmem_scheme \<Rightarrow> (uint64 \<times> 'a kmem_scheme) option" where
  "ksys_sbrk h s = do {
     (n, s) \<leftarrow> argint h 0 s;
     (mp, s) \<leftarrow> myproc h s;
     p \<leftarrow> mp;
     let addr = p_sz (procs s p);
     (r, s) \<leftarrow> growproc h n s;
     Some (if r < 0 then -1 else addr, s) }"

definition ksys_kill :: "nat \<Rightarrow> 'a kproc_scheme \<Rightarrow> (cint \<times> 'a kproc_scheme) option" where
  "ksys_kill h s = do { (pid, s) \<leftarrow> argint h 0 s; kill h pid s }"

text \<open>The loop of \<open>sys_sleep\<close>, with the lock held. \<open>ticks - ticks0 < n\<close> compares unsigned numbers.\<close>

definition sleep_loop :: "nat \<Rightarrow> uint \<Rightarrow> uint \<Rightarrow> 'a kproc_scheme \<Rightarrow> (cint, uint \<times> uint, 'a kproc_scheme) progress option" where
  "sleep_loop h ticks0 n s =
     (if ticks s - ticks0 < n then do {
        (mp, s) \<leftarrow> myproc h s;
        p \<leftarrow> mp;
        (k, s) \<leftarrow> killed h p s;
        if k \<noteq> 0 then do { s \<leftarrow> release h tickslock s; Some (Done (-1) s) }
        else do { s \<leftarrow> sleep_enter h (Some chan_ticks) tickslock s; Some (Asleep (ticks0, n) s) } }
      else do { s \<leftarrow> release h tickslock s; Some (Done 0 s) })"

definition ksys_sleep :: "nat \<Rightarrow> 'a kproc_scheme \<Rightarrow> (cint, uint \<times> uint, 'a kproc_scheme) progress option" where
  "ksys_sleep h s = do {
     (n, s) \<leftarrow> argint h 0 s;
     let n = (if sint n < 0 then 0 else n);
     s \<leftarrow> acquire h tickslock s;
     sleep_loop h (ticks s) n s }"

definition ksys_sleep_resume :: "nat \<Rightarrow> nat \<Rightarrow> uint \<Rightarrow> uint \<Rightarrow> 'a kproc_scheme \<Rightarrow> (cint, uint \<times> uint, 'a kproc_scheme) progress option" where
  "ksys_sleep_resume h p ticks0 n s = do {
     s \<leftarrow> sleep_exit h p tickslock s;
     sleep_loop h ticks0 n s }"

definition ksys_uptime :: "nat \<Rightarrow> 'a kproc_scheme \<Rightarrow> (uint64 \<times> 'a kproc_scheme) option" where
  "ksys_uptime h s = do {
     s \<leftarrow> acquire h tickslock s;
     let xticks = ticks s;
     s \<leftarrow> release h tickslock s;
     Some (ucast xticks, s) }"

definition trapinit :: "'a kproc_scheme \<Rightarrow> 'a kproc_scheme" where
  "trapinit s = initlock tickslock ''time'' s"

definition clockintr :: "nat \<Rightarrow> 'a kproc_scheme \<Rightarrow> 'a kproc_scheme option" where
  "clockintr h s = do {
     s \<leftarrow> acquire h tickslock s;
     s \<leftarrow> wakeup h (Some chan_ticks) (s\<lparr>ticks := ticks s + 1\<rparr>);
     release h tickslock s }"

subsection \<open>Dispatch\<close>

text \<open>A result as the 64-bit value of the register, sign-extended from a C \<open>int\<close>.\<close>

definition ret_int :: "(cint \<times> 's) option \<Rightarrow> (uint64, unit, 's) progress option" where
  "ret_int r = map_option (\<lambda>(v, s). Done (scast v) s) r"

definition ret_long :: "(int \<times> 's) option \<Rightarrow> (uint64, unit, 's) progress option" where
  "ret_long r = map_option (\<lambda>(v, s). Done (of_int v) s) r"

definition ret_word :: "(uint64 \<times> 's) option \<Rightarrow> (uint64, unit, 's) progress option" where
  "ret_word r = map_option (\<lambda>(v, s). Done v s) r"

fun ret_wait :: "(cint, 'k, 's) progress option \<Rightarrow> (uint64, unit, 's) progress option" where
  "ret_wait (Some (Done v s)) = Some (Done (scast v) s)"
| "ret_wait (Some (Asleep k s)) = Some (Asleep () s)"
| "ret_wait None = None"

fun ret_out :: "(uint64, 's) outcome option \<Rightarrow> (uint64, unit, 's) progress option" where
  "ret_out (Some (Returns v s)) = Some (Done v s)"
| "ret_out (Some (Blocks s)) = Some (Asleep () s)"
| "ret_out None = None"

text \<open>
  What the system calls need from outside: the functions of the devices, the address of \<open>forkret\<close>, and the bytes that
  happen to stand in the padding of \<open>struct stat\<close>.
\<close>

record 's outside =
  dev_read :: "int \<Rightarrow> 's devfun option"
  dev_write :: "int \<Rightarrow> 's devfun option"
  forkret_pc :: uint64
  stat_pad :: "uchar list"

definition syscalls :: "'a kfile_scheme outside \<Rightarrow> nat \<Rightarrow> int \<Rightarrow> 'a kfile_scheme \<Rightarrow> (uint64, unit, 'a kfile_scheme) progress option" where
  "syscalls x h num s =
     (if num = 1 then ret_int (ksys_fork h (forkret_pc x) s)
      else if num = 2 then map_option (Asleep ()) (ksys_exit h s)
      else if num = 3 then ret_wait (ksys_wait h s)
      else if num = 4 then ret_long (ksys_pipe h s)
      else if num = 5 then ret_long (ksys_read (dev_read x) h s)
      else if num = 6 then ret_int (ksys_kill h s)
      else if num = 7 then ret_long (ksys_exec h s)
      else if num = 8 then ret_long (ksys_fstat h (stat_pad x) s)
      else if num = 9 then ret_long (ksys_chdir h s)
      else if num = 10 then ret_long (ksys_dup h s)
      else if num = 11 then ret_int (ksys_getpid h s)
      else if num = 12 then ret_word (ksys_sbrk h s)
      else if num = 13 then ret_wait (ksys_sleep h s)
      else if num = 14 then ret_word (ksys_uptime h s)
      else if num = 15 then ret_long (ksys_open h s)
      else if num = 16 then ret_long (ksys_write (dev_write x) h s)
      else if num = 17 then ret_long (ksys_mknod h s)
      else if num = 18 then ret_long (ksys_unlink h s)
      else if num = 19 then ret_long (ksys_link h s)
      else if num = 20 then ret_long (ksys_mkdir h s)
      else if num = 21 then ret_long (ksys_close h s)
      else if num = 22 then ret_word (sys_sem_open h s)
      else if num = 23 then ret_word (sys_sem_close h s)
      else if num = 24 then ret_out (sys_sem_down h s)
      else ret_word (sys_sem_up h s))"

definition unknown_call :: "proc \<Rightarrow> cint \<Rightarrow> string option" where
  "unknown_call q num = map_option string_of (k_printf_loop (map of_char ''%d %s: unknown sys call %d'' @ [10])
     [VNum (scast (p_pid q)), VStr (Some (map of_char (p_name q))), VNum (scast num)])"

definition syscall :: "'a kfile_scheme outside \<Rightarrow> nat \<Rightarrow> 'a kfile_scheme \<Rightarrow> (unit, unit, 'a kfile_scheme) progress option" where
  "syscall x h s = do {
     (mp, s) \<leftarrow> myproc h s;
     p \<leftarrow> mp;
     let num = (ucast (tf_a7 (tframes s (p_trapframe (procs s p)))) :: cint);
     if sint num > 0 \<and> sint num < 26 then do {
       r \<leftarrow> syscalls x h (sint num) s;
       case r of
         Done v s \<Rightarrow> Some (Done () (upd_tf (p_trapframe (procs s p)) (\<lambda>t. t\<lparr>tf_a0 := v\<rparr>) s))
       | Asleep _ s \<Rightarrow> Some (Asleep () s) }
     else do {
       m \<leftarrow> unknown_call (procs s p) num;
       Some (Done () (upd_tf (p_trapframe (procs s p)) (\<lambda>t. t\<lparr>tf_a0 := -1\<rparr>) (kprintf m s))) } }"

subsection \<open>Lemmas: sleeping and the clock\<close>

text \<open>A process that the scheduler picks after it was woken up: it is back under the lock it slept with.\<close>

definition awake :: "nat \<Rightarrow> nat \<Rightarrow> 'a kproc_scheme \<Rightarrow> 'a kproc_scheme" where
  "awake h p s = s\<lparr>cpus := (cpus s)(h := (cpus s h)\<lparr>c_proc := Some p\<rparr>),
     procs := (procs s)(p := (procs s p)\<lparr>p_state := RUNNING, p_chan := None\<rparr>)\<rparr>"

lemma sleep_exit_picked:
  assumes "calm h s" "at_rest h s" and f: "free_lock (proc_lock p) s" "free_lock lk s" "lk \<noteq> proc_lock p"
    and "p_state (procs s p) = RUNNABLE" and "saved_intena s p = sie s h"
  shows "\<exists>t. scheduler_pick h p s = Some (True, t) \<and> sleep_exit h p lk t = Some (within h lk (awake h p s))"
proof -
  let ?t = "upd_cpu h (\<lambda>c. c\<lparr>c_proc := Some p\<rparr>) (upd_proc p (\<lambda>q. q\<lparr>p_state := RUNNING\<rparr>) (within h (proc_lock p) s))"
  have t: "scheduler_pick h p s = Some (True, ?t)" using assms by (simp add: scheduler_pick_def acquire_free)
  let ?u = "upd_proc p (\<lambda>q. q\<lparr>p_chan := None\<rparr>) (sched_exit h p ?t)"
  have i: "intena (cpus s h) = sie s h" using assms(1,2) by (simp add: calm_iff at_rest_def)
  have "release h (proc_lock p) ?u = Some (awake h p s)"
    using assms(2,7) i lock_unlock_id [OF f(1)]
    by (cases "sie s h")
      (auto simp: switch_defs lock_defs within_def at_rest_def awake_def fun_upd_idem intro!: kproc.equality)
  moreover have "free_lock lk (awake h p s)" using f(2) by (simp add: awake_def free_lock_def)
  ultimately have "sleep_exit h p lk ?t = Some (within h lk (awake h p s))" by (simp add: sleep_exit_def acquire_free Let_def)
  then show ?thesis using t by blast
qed

lemma clockintr_spec:
  fixes s :: "'a kproc_scheme"
  assumes "calm h s" and "free_lock tickslock s" and "proc_locks_free s"
  shows "clockintr h s = Some (s\<lparr>ticks := ticks s + 1, procs := wake_all (c_proc (cpus s h)) (Some chan_ticks) (procs s)\<rparr>)"
proof -
  have "keeps_locks (\<lambda>s :: 'a kproc_scheme. s\<lparr>ticks := ticks s + 1\<rparr>)" by (simp add: keeps_locks_def)
  from section_wakeup [OF assms _ this, of "Some chan_ticks"] have "Option.bind (wakeup h (Some chan_ticks) ((within h tickslock s)\<lparr>ticks := ticks (within h tickslock s) + 1\<rparr>)) (release h tickslock)
    = Some (s\<lparr>ticks := ticks s + 1, procs := wake_all (c_proc (cpus s h)) (Some chan_ticks) (procs s)\<rparr>)" by simp
  then show ?thesis by (simp add: clockintr_def acquire_free [OF assms(2)])
qed

text \<open>
  One tick while process \<open>p\<close> sleeps in \<open>sys_sleep\<close>: its hart goes back to the scheduler, the clock interrupts the idle hart,
  and the scheduler picks \<open>p\<close>. And the call with \<open>k\<close> such ticks.
\<close>

fun tick_round :: "nat \<Rightarrow> nat \<Rightarrow> (cint, uint \<times> uint, 'a kproc_scheme) progress \<Rightarrow> (cint, uint \<times> uint, 'a kproc_scheme) progress option" where
  "tick_round h p (Done v s) = Some (Done v s)"
| "tick_round h p (Asleep (ticks0, n) s) = do {
     s \<leftarrow> scheduler_back h p s;
     s \<leftarrow> clockintr h s;
     (found, s) \<leftarrow> scheduler_pick h p s;
     if found then ksys_sleep_resume h p ticks0 n s else None }"

primrec sleep_ticks :: "nat \<Rightarrow> nat \<Rightarrow> nat \<Rightarrow> 'a kproc_scheme \<Rightarrow> (cint, uint \<times> uint, 'a kproc_scheme) progress option" where
  "sleep_ticks h p 0 s = ksys_sleep h s"
| "sleep_ticks h p (Suc k) s = Option.bind (sleep_ticks h p k s) (tick_round h p)"

lemma killed_under_tickslock:
  assumes "in_call h p s"
  shows "killed h p (within h tickslock s) = Some (p_killed (procs s p), within h tickslock s)"
  using killed_section [OF in_callD(1) [OF assms] in_callD(4) [OF assms], where lk = tickslock and p = p] by simp

lemma myproc_under_tickslock:
  assumes "in_call h p s"
  shows "myproc h (within h tickslock s) = Some (Some p, within h tickslock s)"
proof -
  have c: "calm h (within h tickslock s)" by (rule calm_within [OF calm_ok [OF in_callD(1) [OF assms]]])
  show ?thesis using myproc_ok [OF calm_ok [OF c]] calm_touch [OF c] in_callD(3) [OF assms] by simp
qed

lemma sleep_loop_done:
  assumes c: "in_call h p s"
  shows "\<not> ticks s - t0 < n \<Longrightarrow> sleep_loop h t0 n (within h tickslock s) = Some (Done 0 s)"
    and "ticks s - t0 < n \<Longrightarrow> p_killed (procs s p) \<noteq> 0 \<Longrightarrow> sleep_loop h t0 n (within h tickslock s) = Some (Done (-1) s)"
  using in_callD(1,4) [OF c] myproc_under_tickslock [OF c] killed_under_tickslock [OF c] by (simp_all add: sleep_loop_def release_section)

lemma sleep_loop_asleep:
  assumes c: "in_call h p s" and n: "ticks s - t0 < n" "p_killed (procs s p) = 0"
  shows "\<exists>t s'. sleep_loop h t0 n (within h tickslock s) = Some (Asleep (t0, n) t) \<and> scheduler_back h p t = Some s'
    \<and> c_proc (cpus s' h) = None \<and> (\<forall>lk. free_lock lk s') \<and> p_state (procs s' p) = SLEEPING \<and> p_chan (procs s' p) = Some chan_ticks
    \<and> ticks s' = ticks s \<and> (\<exists>u. tick_round h p (Asleep (t0, n) t) = sleep_loop h t0 n (within h tickslock u) \<and> in_call h p u \<and> ticks u = ticks s + 1 \<and> p_killed (procs u p) = 0)"
proof -
  note d = in_callD [OF c]
  let ?s = "s\<lparr>cpus := (cpus s)(h := (cpus s h)\<lparr>intena := sie s h, c_proc := None\<rparr>),
     procs := (procs s)(p := (procs s p)\<lparr>p_chan := Some chan_ticks, p_state := SLEEPING\<rparr>), saved_intena := (saved_intena s)(p := sie s h)\<rparr>"
  have p: "p < NPROC" using c by (simp add: in_call_def)
  obtain t where t: "sleep_enter h (Some chan_ticks) tickslock (within h tickslock s) = Some t" "scheduler_back h p t = Some ?s"
    using sleep_enter_leaves [OF d(2,3) d(4) d(4), of tickslock "Some chan_ticks"] by auto
  have l: "sleep_loop h t0 n (within h tickslock s) = Some (Asleep (t0, n) t)"
    using n t(1) myproc_under_tickslock [OF c] killed_under_tickslock [OF c] by (simp add: sleep_loop_def)
  have f: "free_lock lk ?s" for lk using d(4) [of lk] by (simp add: free_lock_def)
  have cs: "calm h ?s" "proc_locks_free ?s" using d(1,2) f by (auto simp: calm_iff hart_ok_def proc_locks_free_def)
  let ?w = "?s\<lparr>ticks := ticks ?s + 1, procs := wake_all (c_proc (cpus ?s h)) (Some chan_ticks) (procs ?s)\<rparr>"
  have w: "clockintr h ?s = Some ?w" by (rule clockintr_spec [OF cs(1) f cs(2)])
  have cw: "calm h ?w" "at_rest h ?w" using cs(1) d(2) by (simp_all add: calm_iff hart_ok_def at_rest_def)
  have fw: "free_lock lk ?w" for lk using f [of lk] by (simp add: free_lock_def)
  have "p_state (procs ?w p) = RUNNABLE" "saved_intena ?w p = sie ?w h" using p by (simp_all add: wake_all_def)
  then obtain v where v: "scheduler_pick h p ?w = Some (True, v)" "sleep_exit h p tickslock v = Some (within h tickslock (awake h p ?w))"
    using sleep_exit_picked [OF cw fw fw, of tickslock p] by auto
  have "tick_round h p (Asleep (t0, n) t) = sleep_loop h t0 n (within h tickslock (awake h p ?w))"
    unfolding tick_round.simps t(2) bind.bind_lunit w v(1) by (simp add: ksys_sleep_resume_def v(2))
  moreover have "in_call h p (awake h p ?w)"
    using cw fw p by (simp add: in_call_def awake_def calm_iff hart_ok_def at_rest_def free_lock_def)
  moreover have "p_killed (procs (awake h p ?w) p) = 0" using n(2) by (simp add: awake_def wake_all_def)
  ultimately show ?thesis using l t(2) f
    by (intro exI [of _ t] exI [of _ ?s] conjI exI [of _ "awake h p ?w"]) (simp_all add: awake_def)
qed

lemma of_nat_below: "k < unat n \<Longrightarrow> of_nat k < (n :: uint)"
  using unsigned_less [of n, where ?'a = nat] by (simp add: word_less_nat_alt unat_of_nat take_bit_nat_eq_self)

lemma sleep_arg: "unat (if sint a < 0 then 0 else a) = nat (sint (a :: cint))"
proof (cases "sint a < 0")
  case False
  have "uint a = uint (word_of_int (sint a) :: cint)" by simp
  also have "\<dots> = sint a" using False sint_lt [of a] by (simp only: uint_word_of_int) simp
  finally show ?thesis using False by (simp flip: nat_uint_eq)
qed simp

lemma sleep_ticks_loop:
  assumes c: "in_call h p s" and k: "p_killed (procs s p) = 0" and n: "n = (if sint (ucast (arg0 p s) :: cint) < 0 then 0 else ucast (arg0 p s))"
  shows "j \<le> unat n \<Longrightarrow> \<exists>u. sleep_ticks h p j s = sleep_loop h (ticks s) n (within h tickslock u)
    \<and> in_call h p u \<and> ticks u = ticks s + of_nat j \<and> p_killed (procs u p) = 0"
proof (induction j)
  case 0
  have "sleep_ticks h p 0 s = sleep_loop h (ticks s) n (within h tickslock s)"
    using in_callD(4) [OF c, of tickslock] n by (simp add: ksys_sleep_def arg_call [OF c] acquire_free arg0_def Let_def)
  then show ?case using c k by (intro exI [of _ s]) simp
next
  case (Suc j)
  then obtain u where u: "sleep_ticks h p j s = sleep_loop h (ticks s) n (within h tickslock u)" "in_call h p u"
    "ticks u = ticks s + of_nat j" "p_killed (procs u p) = 0" by auto
  have "ticks u - ticks s < n" using of_nat_below [of j n] Suc.prems u(3) by simp
  from sleep_loop_asleep [OF u(2) this u(4)] u(1,3) show ?case by auto
qed

text \<open>
  C23. \<open>sleep\<close> lasts as long as it says. A call with \<open>n\<close> ticks by a process that is not killed is asleep on the tick
  counter, its hart free for others and every lock free, until the clock has ticked \<open>n\<close> times, and returns 0 after exactly the
  \<open>n\<close>-th tick, also when the 32-bit counter wraps around on the way; a negative argument counts as zero. A killed process
  gets -1 instead of waiting, and nothing changes. The process is not killed while it sleeps.
\<close>

theorem sleep_correct:
  fixes s :: "'a kproc_scheme"
  assumes c: "in_call h p s"
  shows "let n = nat (sint (ucast (arg0 p s) :: cint)) in
    if n > 0 \<and> p_killed (procs s p) \<noteq> 0 then ksys_sleep h s = Some (Done (-1) s)
    else (\<forall>k<n. \<exists>k' t s'. sleep_ticks h p k s = Some (Asleep k' t) \<and> scheduler_back h p t = Some s' \<and> c_proc (cpus s' h) = None
        \<and> (\<forall>lk. free_lock lk s') \<and> p_state (procs s' p) = SLEEPING \<and> p_chan (procs s' p) = Some chan_ticks \<and> ticks s' = ticks s + of_nat k)
      \<and> (\<exists>s'. sleep_ticks h p n s = Some (Done 0 s') \<and> in_call h p s' \<and> ticks s' = ticks s + of_nat n)"
proof -
  define a where "a = (ucast (arg0 p s) :: cint)"
  define n where "n = (if sint a < 0 then 0 else a)"
  have un: "unat n = nat (sint a)" unfolding n_def by (rule sleep_arg)
  have start: "ksys_sleep h s = sleep_loop h (ticks s) n (within h tickslock s)"
    using in_callD(4) [OF c, of tickslock] by (simp add: ksys_sleep_def arg_call [OF c] acquire_free arg0_def a_def n_def Let_def)
  show ?thesis
  proof (cases "nat (sint a) > 0 \<and> p_killed (procs s p) \<noteq> 0")
    case True
    then have "ticks s - ticks s < n" using un by (auto simp: word_gt_0)
    then show ?thesis using True sleep_loop_done(2) [OF c] start by (simp add: a_def Let_def)
  next
    case False
    have "\<exists>u. sleep_ticks h p k s = sleep_loop h (ticks s) n (within h tickslock u) \<and> in_call h p u \<and> ticks u = ticks s + of_nat k
      \<and> (k < unat n \<longrightarrow> p_killed (procs u p) = 0)" if "k \<le> unat n" for k
    proof (cases "p_killed (procs s p) = 0")
      case True
      then show ?thesis using sleep_ticks_loop [OF c True _ that] by (auto simp: a_def n_def)
    next
      case False
      then have "unat n = 0" using \<open>\<not> (nat (sint a) > 0 \<and> p_killed (procs s p) \<noteq> 0)\<close> un by simp
      then show ?thesis using that c start by (intro exI [of _ s]) simp
    qed
    note run = this
    have wait: "\<exists>k' t s'. sleep_ticks h p k s = Some (Asleep k' t) \<and> scheduler_back h p t = Some s' \<and> c_proc (cpus s' h) = None
        \<and> (\<forall>lk. free_lock lk s') \<and> p_state (procs s' p) = SLEEPING \<and> p_chan (procs s' p) = Some chan_ticks \<and> ticks s' = ticks s + of_nat k"
      if k: "k < unat n" for k
    proof -
      obtain u where u: "sleep_ticks h p k s = sleep_loop h (ticks s) n (within h tickslock u)" "in_call h p u" "ticks u = ticks s + of_nat k"
        "p_killed (procs u p) = 0" using run [of k] k by auto
      have "ticks u - ticks s < n" using of_nat_below [OF k] u(3) by simp
      from sleep_loop_asleep [OF u(2) this u(4)] show ?thesis unfolding u(1,3) [symmetric] by blast
    qed
    obtain u where u: "sleep_ticks h p (unat n) s = sleep_loop h (ticks s) n (within h tickslock u)" "in_call h p u" "ticks u = ticks s + of_nat (unat n)"
      using run [of "unat n"] by auto
    have "sleep_ticks h p (unat n) s = Some (Done 0 u)" using sleep_loop_done(1) [OF u(2), of "ticks s" n] u(1,3) by simp
    then show ?thesis using False u(2,3) wait unfolding a_def [symmetric] Let_def un [symmetric] by auto
  qed
qed

subsection \<open>Example\<close>

text \<open>Process 3 sleeps for two ticks when the counter is about to wrap around.\<close>

theorem sleep_correct_witness:
  "\<exists>k t s'. sleep_ticks 0 3 1 (kfile3\<lparr>ticks := 0xffffffff, tframes := (\<lambda>_. tf0\<lparr>tf_a0 := 2\<rparr>)\<rparr>) = Some (Asleep k t)
    \<and> sleep_ticks 0 3 2 (kfile3\<lparr>ticks := 0xffffffff, tframes := (\<lambda>_. tf0\<lparr>tf_a0 := 2\<rparr>)\<rparr>) = Some (Done 0 s') \<and> ticks s' = 1"
proof -
  let ?s = "kfile3\<lparr>ticks := 0xffffffff, tframes := (\<lambda>_. tf0\<lparr>tf_a0 := 2\<rparr>)\<rparr>"
  have c: "in_call 0 3 ?s" using kfile3_ok(1) by (subst in_call_cong [of _ kfile3]) simp_all
  have n: "nat (sint (ucast (arg0 3 ?s) :: cint)) = 2" "p_killed (procs ?s 3) = 0" by (simp_all add: arg0_def kfile3_def proc0_def)
  note t = sleep_correct [OF c, unfolded Let_def n if_False simp_thms]
  obtain k t where "sleep_ticks 0 3 1 ?s = Some (Asleep k t)" using conjunct1 [OF t, rule_format, of 1] by auto
  moreover obtain s' where "sleep_ticks 0 3 2 ?s = Some (Done 0 s')" "ticks s' = 1" using conjunct2 [OF t] by auto
  ultimately show ?thesis by blast
qed

end
