(* ===== verification/Ring.thy ===== *)
theory Ring
  imports Prelude
begin

text \<open>
  Ring buffers indexed by counters that wrap around: the buffers of the console and of the serial port. The counters \<open>r\<close> and \<open>w\<close>
  are machine words that only grow, and a position is the counter modulo the size, a power of two.
\<close>

definition ring_list :: "'b::len word \<Rightarrow> (nat \<Rightarrow> 'c) \<Rightarrow> 'b word \<Rightarrow> 'b word \<Rightarrow> 'c list" where
  "ring_list sz buf r w = map (\<lambda>k. buf (unat ((r + of_nat k) mod sz))) [0..<unat (w - r)]"

lemma length_ring_list [simp]: "length (ring_list sz buf r w) = unat (w - r)"
  by (simp add: ring_list_def)

lemma diff_Suc:
  fixes w r :: "'b::len word"
  assumes "w \<noteq> r"
  shows "unat (w - r) = Suc (unat (w - (r + 1)))" and "unat (w - r) = Suc (unat (w - 1 - r))"
proof -
  have "w - r \<noteq> 0" using assms by simp
  then have u: "unat (w - r - 1) = unat (w - r) - 1" "unat (w - r) \<noteq> 0" by (simp_all add: unat_minus_one unat_eq_0)
  have e: "w - (r + 1) = w - r - 1" "w - 1 - r = w - r - 1" by simp_all
  show "unat (w - r) = Suc (unat (w - (r + 1)))" "unat (w - r) = Suc (unat (w - 1 - r))" unfolding e using u by simp_all
qed

locale ring =
  fixes sz :: "'b::len word"
  assumes size_pos: "sz \<noteq> 0" and size_dvd: "unat sz dvd 2 ^ LENGTH('b)"
begin

lemma index: "unat ((r + of_nat k) mod sz) = (unat r + k) mod unat sz"
proof -
  have "unat (r + of_nat k :: 'b word) = (unat r + k mod 2 ^ LENGTH('b)) mod 2 ^ LENGTH('b)"
    by (simp add: unat_word_ariths(1) unat_of_nat)
  then have "unat (r + of_nat k :: 'b word) = (unat r + k) mod 2 ^ LENGTH('b)" by (simp add: mod_add_right_eq)
  then have "unat ((r + of_nat k) mod sz) = (unat r + k) mod 2 ^ LENGTH('b) mod unat sz" by (simp add: unat_mod)
  also have "\<dots> = (unat r + k) mod unat sz" by (rule mod_mod_cancel [OF size_dvd])
  finally show ?thesis .
qed

text \<open>Positions less than the size apart are different, also across the wrap-around.\<close>

lemma apart:
  assumes "k < unat (w - r)" and "unat (w - r) < unat sz"
  shows "unat ((r + of_nat k) mod sz) \<noteq> unat (w mod sz)"
proof
  assume *: "unat ((r + of_nat k) mod sz) = unat (w mod sz)"
  have "w = r + of_nat (unat (w - r))" by simp
  then have "unat (w mod sz) = (unat r + unat (w - r)) mod unat sz" using index [of r "unat (w - r)"] by simp
  then have "(unat r + k) mod unat sz = (unat r + unat (w - r)) mod unat sz" using * index [of r k] by simp
  then have "unat sz dvd (unat r + unat (w - r)) - (unat r + k)" using assms(1) mod_eq_dvd_iff_nat [of "unat r + k" "unat r + unat (w - r)" "unat sz"] by simp
  then have "unat sz dvd unat (w - r) - k" by simp
  then show False using assms dvd_imp_le [of "unat sz" "unat (w - r) - k"] by simp
qed

lemma Suc_diff:
  fixes w r :: "'b word"
  assumes "unat (w - r) < unat sz"
  shows "unat (w + 1 - r) = Suc (unat (w - r))"
proof -
  have "unat sz < 2 ^ LENGTH('b)" by (rule unsigned_less)
  then have "Suc (unat (w - r)) < 2 ^ LENGTH('b)" using assms by linarith
  then have "unat (1 + (w - r)) = Suc (unat (w - r))" by (simp add: unat_word_ariths(1))
  moreover have "w + 1 - r = 1 + (w - r)" by (simp add: algebra_simps)
  ultimately show ?thesis by (simp only:)
qed

lemma put: "unat (w - r) < unat sz \<Longrightarrow> ring_list sz (buf(unat (w mod sz) := c)) r (w + 1) = ring_list sz buf r w @ [c]"
  using Suc_diff [of w r] apart [of _ w r] by (simp add: ring_list_def)

lemma get: "w \<noteq> r \<Longrightarrow> ring_list sz buf r w = buf (unat (r mod sz)) # ring_list sz buf (r + 1) w"
  using diff_Suc(1) [of w r] by (simp add: ring_list_def upt_conv_Cons map_upt_shift algebra_simps del: upt_Suc)

lemma empty: "ring_list sz buf r w = [] \<longleftrightarrow> w = r"
  by (simp add: ring_list_def unat_eq_0)

lemma unput: "w \<noteq> r \<Longrightarrow> ring_list sz buf r w = ring_list sz buf r (w - 1) @ [buf (unat ((w - 1) mod sz))]"
proof -
  assume n: "w \<noteq> r"
  have "r + of_nat (unat (w - 1 - r)) = w - 1" by simp
  then show ?thesis unfolding ring_list_def diff_Suc(2) [OF n] by simp
qed

lemma join: "unat (w - r) + unat (e - w) < 2 ^ LENGTH('b) \<Longrightarrow> ring_list sz buf r e = ring_list sz buf r w @ ring_list sz buf w e"
proof -
  assume a: "unat (w - r) + unat (e - w) < 2 ^ LENGTH('b)"
  have "e - r = (w - r) + (e - w)" by simp
  then have "unat (e - r) = unat (w - r) + unat (e - w)" using a by (metis unat_add_lem)
  moreover have "[0..<unat (w - r) + unat (e - w)] = [0..<unat (w - r)] @ map (\<lambda>k. unat (w - r) + k) [0..<unat (e - w)]"
    using upt_add_eq_append [of 0 "unat (w - r)" "unat (e - w)"] map_add_upt [of "unat (w - r)" "unat (e - w)"] by (simp add: add.commute)
  ultimately show ?thesis by (simp add: ring_list_def)
qed

end

end
