(* ===== verification/Uart.thy ===== *)
theory Uart
  imports File Ring
begin

text \<open>
  The serial port, \<open>labo2/kernel/uart.c\<close>. The registers are a device: \<open>uart_lsr\<close> holds what the next reads of the line status
  register will answer and \<open>uart_rhr\<close> what the next reads of the receive register will, both arbitrary; \<open>uart_thr\<close> is
  everything written to the transmit register so far. A loop that waits for the device longer than its answers go has
  the result \<open>None\<close>.
\<close>

subsection \<open>State and registers\<close>

definition UART_TX_BUF_SIZE :: uint64 where "UART_TX_BUF_SIZE = 32"
definition LSR_RX_READY :: uchar where "LSR_RX_READY = 1"
definition LSR_TX_IDLE :: uchar where "LSR_TX_IDLE = 32"

record kuart = kfile +
  uart_lsr :: "uchar list"
  uart_rhr :: "uchar list"
  uart_thr :: "uchar list"
  uart_tx_buf :: "nat \<Rightarrow> uchar"
  uart_tx_w :: uint64
  uart_tx_r :: uint64
  panicked :: cint

definition read_lsr :: "'a kuart_scheme \<Rightarrow> uchar \<times> 'a kuart_scheme" where
  "read_lsr s = (case uart_lsr s of [] \<Rightarrow> (0, s) | v # vs \<Rightarrow> (v, s\<lparr>uart_lsr := vs\<rparr>))"

definition read_rhr :: "'a kuart_scheme \<Rightarrow> uchar \<times> 'a kuart_scheme" where
  "read_rhr s = (case uart_rhr s of [] \<Rightarrow> (0, s) | v # vs \<Rightarrow> (v, s\<lparr>uart_rhr := vs\<rparr>))"

definition write_thr :: "uchar \<Rightarrow> 'a kuart_scheme \<Rightarrow> 'a kuart_scheme" where
  "write_thr c s = s\<lparr>uart_thr := uart_thr s @ [c]\<rparr>"

definition tx_idle :: "uchar \<Rightarrow> bool" where
  "tx_idle v \<longleftrightarrow> v AND LSR_TX_IDLE \<noteq> 0"

subsection \<open>Sending\<close>

text \<open>The loop of \<open>uartputc_sync\<close>: read the register until it says idle.\<close>

fun wait_idle :: "uchar list \<Rightarrow> uchar list option" where
  "wait_idle [] = None"
| "wait_idle (v # vs) = (if tx_idle v then Some vs else wait_idle vs)"

definition uartputc_sync :: "nat \<Rightarrow> uchar \<Rightarrow> 'a kuart_scheme \<Rightarrow> 'a kuart_scheme option" where
  "uartputc_sync h c s = do {
     let s = push_off h s;
     if panicked s \<noteq> 0 then None
     else do {
       vs \<leftarrow> wait_idle (uart_lsr s);
       pop_off h (write_thr c (s\<lparr>uart_lsr := vs\<rparr>)) } }"

definition tx_get :: "'a kuart_scheme \<Rightarrow> uchar \<times> 'a kuart_scheme" where
  "tx_get s = (uart_tx_buf s (unat (uart_tx_r s mod UART_TX_BUF_SIZE)), s\<lparr>uart_tx_r := uart_tx_r s + 1\<rparr>)"

definition tx_put :: "uchar \<Rightarrow> 'a kuart_scheme \<Rightarrow> 'a kuart_scheme" where
  "tx_put c s = s\<lparr>uart_tx_buf := (uart_tx_buf s)(unat (uart_tx_w s mod UART_TX_BUF_SIZE) := c), uart_tx_w := uart_tx_w s + 1\<rparr>"

partial_function (option) uartstart :: "nat \<Rightarrow> 'a kuart_scheme \<Rightarrow> 'a kuart_scheme option" where
  "uartstart h s =
     (if uart_tx_w s = uart_tx_r s then Some s
      else case read_lsr s of (v, s) \<Rightarrow>
        if \<not> tx_idle v then Some s
        else case tx_get s of (c, s) \<Rightarrow>
          Option.bind (wakeup h (Some chan_uart) s) (\<lambda>s. uartstart h (write_thr c s)))"

definition uartputc_loop :: "nat \<Rightarrow> uchar \<Rightarrow> 'a kuart_scheme \<Rightarrow> (unit, unit, 'a kuart_scheme) progress option" where
  "uartputc_loop h c s =
     (if uart_tx_w s = uart_tx_r s + UART_TX_BUF_SIZE then do {
        s \<leftarrow> sleep_enter h (Some chan_uart) uart_tx_lock s;
        Some (Asleep () s) }
      else do {
        s \<leftarrow> uartstart h (tx_put c s);
        s \<leftarrow> release h uart_tx_lock s;
        Some (Done () s) })"

definition uartputc :: "nat \<Rightarrow> uchar \<Rightarrow> 'a kuart_scheme \<Rightarrow> (unit, unit, 'a kuart_scheme) progress option" where
  "uartputc h c s = do {
     s \<leftarrow> acquire h uart_tx_lock s;
     if panicked s \<noteq> 0 then None else uartputc_loop h c s }"

definition uartputc_resume :: "nat \<Rightarrow> nat \<Rightarrow> uchar \<Rightarrow> 'a kuart_scheme \<Rightarrow> (unit, unit, 'a kuart_scheme) progress option" where
  "uartputc_resume h p c s = do {
     s \<leftarrow> sleep_exit h p uart_tx_lock s;
     uartputc_loop h c s }"

subsection \<open>Receiving\<close>

text \<open>\<open>None\<close> for -1.\<close>

definition uartgetc :: "'a kuart_scheme \<Rightarrow> uchar option \<times> 'a kuart_scheme" where
  "uartgetc s = (case read_lsr s of (v, s) \<Rightarrow>
     if v AND LSR_RX_READY \<noteq> 0 then (case read_rhr s of (c, s) \<Rightarrow> (Some c, s)) else (None, s))"

text \<open>The part of \<open>uartintr\<close> that sends; the part that receives is in the theory of the console.\<close>

definition uartintr_send :: "nat \<Rightarrow> 'a kuart_scheme \<Rightarrow> 'a kuart_scheme option" where
  "uartintr_send h s = do {
     s \<leftarrow> acquire h uart_tx_lock s;
     s \<leftarrow> uartstart h s;
     release h uart_tx_lock s }"

subsection \<open>The transmit buffer as a queue\<close>

interpretation ur: ring UART_TX_BUF_SIZE
  by unfold_locales (simp_all add: UART_TX_BUF_SIZE_def)

definition tx_queue :: "'a kuart_scheme \<Rightarrow> uchar list" where
  "tx_queue s = ring_list UART_TX_BUF_SIZE (uart_tx_buf s) (uart_tx_r s) (uart_tx_w s)"

definition tx_ok :: "'a kuart_scheme \<Rightarrow> bool" where
  "tx_ok s \<longleftrightarrow> length (tx_queue s) \<le> 32"

text \<open>A hart that holds no lock while every lock is free: in a system call or in an interrupt.\<close>

definition quiet :: "nat \<Rightarrow> 'a kproc_scheme \<Rightarrow> bool" where
  "quiet h s \<longleftrightarrow> calm h s \<and> (\<forall>lk. free_lock lk s)"

lemma in_call_quiet: "in_call h p s \<Longrightarrow> quiet h s"
  by (simp add: in_call_def quiet_def)

lemma quiet_cong: "cpus s = cpus t \<Longrightarrow> sie s = sie t \<Longrightarrow> lks s = lks t \<Longrightarrow> quiet h s = quiet h t"
  using calm_cong [of s t h] by (simp add: quiet_def free_lock_def)

text \<open>The states that differ in the fields of the driver, and in who sleeps.\<close>

definition uart_upd :: "uchar list \<Rightarrow> uchar list \<Rightarrow> uint64 \<Rightarrow> (nat \<Rightarrow> proc) \<Rightarrow> 'a kuart_scheme \<Rightarrow> 'a kuart_scheme" where
  "uart_upd lsr thr r ps s = s\<lparr>uart_lsr := lsr, uart_thr := thr, uart_tx_r := r, procs := ps\<rparr>"

lemma uart_upd_sel [simp]:
  "uart_lsr (uart_upd l t r ps s) = l" "uart_thr (uart_upd l t r ps s) = t" "uart_tx_r (uart_upd l t r ps s) = r" "procs (uart_upd l t r ps s) = ps"
  "uart_tx_w (uart_upd l t r ps s) = uart_tx_w s" "uart_tx_buf (uart_upd l t r ps s) = uart_tx_buf s" "panicked (uart_upd l t r ps s) = panicked s"
  "uart_rhr (uart_upd l t r ps s) = uart_rhr s" "mem (uart_upd l t r ps s) = mem s"
  "cpus (uart_upd l t r ps s) = cpus s" "sie (uart_upd l t r ps s) = sie s" "lks (uart_upd l t r ps s) = lks s"
  "uart_upd l' t' r' ps' (uart_upd l t r ps s) = uart_upd l' t' r' ps' s"
  by (simp_all add: uart_upd_def)

lemma quiet_uart_upd [simp]: "quiet h (uart_upd l t r ps s) = quiet h s" "in_call h p (uart_upd l t r ps s) = in_call h p s"
  by (rule quiet_cong, simp_all, rule in_call_cong, simp_all)

lemma uart_within [simp]:
  "uart_lsr (within h lk s) = uart_lsr s" "uart_thr (within h lk s) = uart_thr s" "uart_tx_r (within h lk s) = uart_tx_r s"
  "uart_tx_w (within h lk s) = uart_tx_w s" "uart_tx_buf (within h lk s) = uart_tx_buf s" "panicked (within h lk s) = panicked s"
  "uart_rhr (within h lk s) = uart_rhr s"
  by (simp_all add: within_def)

lemma wake_all_once: "wake_all me ch (wake_all me ch ps) = wake_all me ch ps"
  by (auto simp: wake_all_def fun_eq_iff)

lemma uartstart_step:
  fixes s :: "'a kuart_scheme"
  assumes q: "quiet h s" and l: "uart_lsr s = v # vs" "tx_idle v" and ne: "uart_tx_w s \<noteq> uart_tx_r s"
  shows "uartstart h (within h uart_tx_lock s) = uartstart h (within h uart_tx_lock (uart_upd vs
      (uart_thr s @ [uart_tx_buf s (unat (uart_tx_r s mod UART_TX_BUF_SIZE))]) (uart_tx_r s + 1)
      (wake_all (c_proc (cpus s h)) (Some chan_uart) (procs s)) s))"
proof -
  let ?t = "s\<lparr>uart_lsr := vs, uart_tx_r := uart_tx_r s + 1\<rparr>"
  have "quiet h ?t" using q by (subst quiet_cong [of _ s]) simp_all
  then have "wakeup h (Some chan_uart) (within h uart_tx_lock ?t) = Some (within h uart_tx_lock (?t\<lparr>procs := wake_all (c_proc (cpus s h)) (Some chan_uart) (procs s)\<rparr>))"
    using wakeup_section [of h ?t uart_tx_lock "Some chan_uart"] by (simp add: quiet_def proc_locks_free_def)
  moreover have "(within h uart_tx_lock s)\<lparr>uart_lsr := vs, uart_tx_r := uart_tx_r s + 1\<rparr> = within h uart_tx_lock ?t"
    by (rule keeps_within [of "\<lambda>s. s\<lparr>uart_lsr := vs, uart_tx_r := uart_tx_r s + 1\<rparr>", simplified]) (simp add: keeps_locks_def)
  moreover have "(within h uart_tx_lock u)\<lparr>uart_thr := t\<rparr> = within h uart_tx_lock (u\<lparr>uart_thr := t\<rparr>)" for u :: "'a kuart_scheme" and t
    by (rule keeps_within [of "\<lambda>s. s\<lparr>uart_thr := t\<rparr>"]) (simp add: keeps_locks_def)
  moreover have "?t\<lparr>procs := P, uart_thr := t\<rparr> = uart_upd vs t (uart_tx_r s + 1) P s" for P t by (simp add: uart_upd_def)
  ultimately show ?thesis using l ne
    by (subst uartstart.simps) (simp add: read_lsr_def tx_get_def write_thr_def)
qed

lemma uartstart_ok:
  fixes s :: "'a kuart_scheme"
  assumes q: "quiet h s"
  shows "\<exists>k l. uartstart h (within h uart_tx_lock s) = Some (within h uart_tx_lock (uart_upd l (uart_thr s @ take k (tx_queue s))
      (uart_tx_r s + of_nat k) (if k = 0 then procs s else wake_all (c_proc (cpus s h)) (Some chan_uart) (procs s)) s))
    \<and> k = min (length (tx_queue s)) (length (takeWhile tx_idle (uart_lsr s)))
    \<and> ring_list UART_TX_BUF_SIZE (uart_tx_buf s) (uart_tx_r s + of_nat k) (uart_tx_w s) = drop k (tx_queue s)"
  using q
proof (induction "tx_queue s" arbitrary: s)
  case Nil
  then have "uart_tx_w s = uart_tx_r s" using ur.empty [of "uart_tx_buf s" "uart_tx_r s" "uart_tx_w s"] by (simp add: tx_queue_def)
  then have "uartstart h (within h uart_tx_lock s) = Some (within h uart_tx_lock (uart_upd (uart_lsr s) (uart_thr s) (uart_tx_r s) (procs s) s))"
    by (subst uartstart.simps) (simp add: uart_upd_def)
  then show ?case using Nil(1) by (intro exI [of _ 0] exI [of _ "uart_lsr s"]) (simp add: tx_queue_def)
next
  case (Cons c cs)
  have ne: "uart_tx_w s \<noteq> uart_tx_r s" using Cons(2) ur.empty [of "uart_tx_buf s" "uart_tx_r s" "uart_tx_w s"] by (auto simp: tx_queue_def)
  have g: "uart_tx_buf s (unat (uart_tx_r s mod UART_TX_BUF_SIZE)) = c" "ring_list UART_TX_BUF_SIZE (uart_tx_buf s) (uart_tx_r s + 1) (uart_tx_w s) = cs"
    using ur.get [OF ne, of "uart_tx_buf s"] Cons(2) by (simp_all add: tx_queue_def)
  show ?case
  proof (cases "\<exists>v vs. uart_lsr s = v # vs \<and> tx_idle v")
    case False
    have u: "(within h uart_tx_lock s)\<lparr>uart_lsr := l\<rparr> = within h uart_tx_lock (uart_upd l (uart_thr s) (uart_tx_r s) (procs s) s)" for l
      unfolding uart_upd_def using keeps_within [of "\<lambda>s. s\<lparr>uart_lsr := l\<rparr>" h uart_tx_lock s] by (simp add: keeps_locks_def)
    have i: "\<not> tx_idle 0" "(within h uart_tx_lock s)\<lparr>uart_lsr := uart_lsr s\<rparr> = within h uart_tx_lock s" by (simp_all add: tx_idle_def within_def)
    have "\<exists>l. uartstart h (within h uart_tx_lock s) = Some ((within h uart_tx_lock s)\<lparr>uart_lsr := l\<rparr>)"
    proof (cases "uart_lsr s")
      case Nil
      then have "uartstart h (within h uart_tx_lock s) = Some (within h uart_tx_lock s)" using ne i(1) by (subst uartstart.simps) (simp add: read_lsr_def)
      then show ?thesis by (intro exI [of _ "uart_lsr s"]) (simp only: i(2))
    next
      case (Cons v vs)
      then show ?thesis using ne False by (subst uartstart.simps) (auto simp: read_lsr_def)
    qed
    then have "\<exists>l. uartstart h (within h uart_tx_lock s) = Some (within h uart_tx_lock (uart_upd l (uart_thr s) (uart_tx_r s) (procs s) s))" by (simp only: u)
    moreover have "takeWhile tx_idle (uart_lsr s) = []" using False by (cases "uart_lsr s") auto
    ultimately show ?thesis by (auto simp: tx_queue_def)
  next
    case True
    then obtain v vs where v: "uart_lsr s = v # vs" "tx_idle v" by blast
    let ?w = "wake_all (c_proc (cpus s h)) (Some chan_uart)"
    let ?s = "uart_upd vs (uart_thr s @ [c]) (uart_tx_r s + 1) (?w (procs s)) s"
    have "cs = tx_queue ?s" using g(2) by (simp add: tx_queue_def)
    note ih = Cons(1) [OF this, unfolded this [symmetric]]
    have "quiet h ?s" using Cons(3) by simp
    from ih [OF this] have "\<exists>k l. uartstart h (within h uart_tx_lock ?s) = Some (within h uart_tx_lock
        (uart_upd l (uart_thr s @ [c] @ take k cs) (uart_tx_r s + 1 + of_nat k) (?w (procs s)) s))
      \<and> k = min (length cs) (length (takeWhile tx_idle vs))
      \<and> ring_list UART_TX_BUF_SIZE (uart_tx_buf s) (uart_tx_r s + 1 + of_nat k) (uart_tx_w s) = drop k cs"
      by (simp only: uart_upd_sel wake_all_once if_cancel append_assoc)
    then obtain k l where k: "uartstart h (within h uart_tx_lock ?s) = Some (within h uart_tx_lock
        (uart_upd l (uart_thr s @ [c] @ take k cs) (uart_tx_r s + 1 + of_nat k) (?w (procs s)) s))"
      "k = min (length cs) (length (takeWhile tx_idle vs))"
      "ring_list UART_TX_BUF_SIZE (uart_tx_buf s) (uart_tx_r s + 1 + of_nat k) (uart_tx_w s) = drop k cs"
      by (elim exE conjE)
    show ?thesis unfolding Cons(2) [symmetric] using uartstart_step [OF Cons(3) v ne] g k v
      by (intro exI [of _ "Suc k"] exI [of _ l]) (simp add: add.assoc)
  qed
qed

lemma tx_put_queue:
  assumes "length (tx_queue s) < 32"
  shows "tx_queue (tx_put c s) = tx_queue s @ [c]"
  using assms ur.put [of "uart_tx_w s" "uart_tx_r s" "uart_tx_buf s" c] by (simp add: tx_queue_def tx_put_def UART_TX_BUF_SIZE_def)

lemma tx_full: "uart_tx_w s = uart_tx_r s + UART_TX_BUF_SIZE \<longleftrightarrow> length (tx_queue s) = 32"
proof
  assume "length (tx_queue s) = 32"
  then have "unat (uart_tx_w s - uart_tx_r s) = unat UART_TX_BUF_SIZE" by (simp add: tx_queue_def UART_TX_BUF_SIZE_def)
  then show "uart_tx_w s = uart_tx_r s + UART_TX_BUF_SIZE" by (simp add: unat_inject diff_eq_eq add.commute)
qed (simp add: tx_queue_def UART_TX_BUF_SIZE_def)

lemma quiet_release: "quiet h s \<Longrightarrow> release h lk (within h lk s) = Some s"
  by (simp add: quiet_def)

lemma quiet_acquire: "quiet h s \<Longrightarrow> acquire h lk s = Some (within h lk s)"
  by (simp add: quiet_def acquire_free)

lemma uart_send:
  fixes s :: "'a kuart_scheme"
  assumes q: "quiet h s"
  shows "\<exists>k s'. Option.bind (uartstart h (within h uart_tx_lock s)) (release h uart_tx_lock) = Some s' \<and> quiet h s'
    \<and> k = min (length (tx_queue s)) (length (takeWhile tx_idle (uart_lsr s))) \<and> uart_thr s' = uart_thr s @ take k (tx_queue s)
    \<and> tx_queue s' = drop k (tx_queue s) \<and> procs s' = (if k = 0 then procs s else wake_all (c_proc (cpus s h)) (Some chan_uart) (procs s))
    \<and> cpus s' = cpus s"
proof -
  let ?P = "\<lambda>k. if k = 0 then procs s else wake_all (c_proc (cpus s h)) (Some chan_uart) (procs s)"
  obtain k l where k: "uartstart h (within h uart_tx_lock s) = Some (within h uart_tx_lock (uart_upd l (uart_thr s @ take k (tx_queue s))
      (uart_tx_r s + of_nat k) (?P k) s))" "k = min (length (tx_queue s)) (length (takeWhile tx_idle (uart_lsr s)))"
    "ring_list UART_TX_BUF_SIZE (uart_tx_buf s) (uart_tx_r s + of_nat k) (uart_tx_w s) = drop k (tx_queue s)"
    using uartstart_ok [OF q] by (elim exE conjE)
  let ?s = "uart_upd l (uart_thr s @ take k (tx_queue s)) (uart_tx_r s + of_nat k) (?P k) s"
  have c: "quiet h ?s" using q by simp
  have r: "Option.bind (uartstart h (within h uart_tx_lock s)) (release h uart_tx_lock) = Some ?s" unfolding k(1) using quiet_release [OF c, of uart_tx_lock] by simp
  have t: "tx_queue ?s = drop k (tx_queue s)" using k(3) unfolding tx_queue_def [of ?s] by simp
  show ?thesis by (intro exI [of _ k] exI [of _ ?s] conjI) (rule r c k(2) t | simp)+
qed

text \<open>
  C21. The serial port sends every byte once and in order. While the buffer of 32 bytes has room, \<open>uartputc\<close> returns and what is
  sent together with what waits in the buffer grows by exactly the new byte, also when the 64-bit counters wrap
  around; a full buffer puts the caller to sleep with every lock free. The interrupt handler sends as many waiting
  bytes as the device takes, and when it has sent one it wakes everybody who waits for room.
\<close>

theorem uart_fifo:
  fixes s :: "'a kuart_scheme"
  assumes q: "quiet h s" and ok: "tx_ok s" and np: "panicked s = 0"
  shows "(length (tx_queue s) < 32 \<longrightarrow> (\<exists>s'. uartputc h c s = Some (Done () s') \<and> quiet h s' \<and> tx_ok s'
      \<and> uart_thr s' @ tx_queue s' = uart_thr s @ tx_queue s @ [c] \<and> (takeWhile tx_idle (uart_lsr s) = [] \<or> uart_thr s' \<noteq> uart_thr s)))
    \<and> (length (tx_queue s) = 32 \<and> in_call h p s \<longrightarrow> (\<exists>t s'. uartputc h c s = Some (Asleep () t) \<and> scheduler_back h p t = Some s'
      \<and> (\<forall>lk. free_lock lk s') \<and> p_state (procs s' p) = SLEEPING \<and> p_chan (procs s' p) = Some chan_uart
      \<and> uart_thr s' = uart_thr s \<and> tx_queue s' = tx_queue s))
    \<and> (\<exists>s' k. uartintr_send h s = Some s' \<and> quiet h s' \<and> tx_ok s' \<and> uart_thr s' @ tx_queue s' = uart_thr s @ tx_queue s
      \<and> length (tx_queue s') = length (tx_queue s) - k \<and> k = length (takeWhile tx_idle (uart_lsr s))
      \<and> (length (tx_queue s') < length (tx_queue s) \<longrightarrow> procs s' = wake_all (c_proc (cpus s h)) (Some chan_uart) (procs s)))"
proof (intro conjI impI, goal_cases)
  case 1
  let ?s = "tx_put c s"
  have put: "tx_put c (within h uart_tx_lock s) = within h uart_tx_lock ?s" by (rule keeps_within) (simp add: keeps_locks_def tx_put_def)
  have "quiet h ?s" using q by (subst quiet_cong [of _ s]) (simp_all add: tx_put_def)
  from uart_send [OF this] obtain k s' where s': "Option.bind (uartstart h (within h uart_tx_lock ?s)) (release h uart_tx_lock) = Some s'" "quiet h s'"
      "k = min (length (tx_queue ?s)) (length (takeWhile tx_idle (uart_lsr ?s)))" "uart_thr s' = uart_thr ?s @ take k (tx_queue ?s)"
      "tx_queue s' = drop k (tx_queue ?s)" by (elim exE conjE)
  have sel: "uart_thr ?s = uart_thr s" "uart_lsr ?s = uart_lsr s" by (simp_all add: tx_put_def)
  have nf: "uart_tx_w s \<noteq> uart_tx_r s + UART_TX_BUF_SIZE" using 1 tx_full [of s] by simp
  have "uartputc h c s = Some (Done () s')" using s'(1) nf np
    by (auto simp: uartputc_def uartputc_loop_def quiet_acquire [OF q] put bind_eq_Some_conv)
  moreover have "uart_thr s' @ tx_queue s' = uart_thr s @ tx_queue s @ [c]" unfolding s'(4,5) sel tx_put_queue [OF 1] by (simp only: append_assoc append_take_drop_id)
  moreover have "tx_ok s'" using 1 by (simp add: tx_ok_def s'(5) tx_put_queue)
  moreover have "takeWhile tx_idle (uart_lsr s) = [] \<or> uart_thr s' \<noteq> uart_thr s" using s'(3,4) by (cases "takeWhile tx_idle (uart_lsr s)") (auto simp: sel tx_put_queue [OF 1] min_def split: if_splits)
  ultimately show ?case using s'(2) by blast
next
  case 2
  note d = in_callD [OF conjunct2 [OF 2]]
  have f: "uart_tx_w s = uart_tx_r s + UART_TX_BUF_SIZE" using 2 tx_full [of s] by simp
  let ?s = "s\<lparr>cpus := (cpus s)(h := (cpus s h)\<lparr>intena := sie s h, c_proc := None\<rparr>),
       procs := (procs s)(p := (procs s p)\<lparr>p_chan := Some chan_uart, p_state := SLEEPING\<rparr>), saved_intena := (saved_intena s)(p := sie s h)\<rparr>"
  obtain t where t: "sleep_enter h (Some chan_uart) uart_tx_lock (within h uart_tx_lock s) = Some t" "scheduler_back h p t = Some ?s"
    using sleep_enter_leaves [OF d(2,3) d(4) d(4), of uart_tx_lock "Some chan_uart"] by auto
  have "free_lock lk ?s" for lk using d(4) [of lk] by (simp add: free_lock_def)
  then show ?case using t f np
    by (intro exI [of _ t] exI [of _ ?s]) (simp add: uartputc_def uartputc_loop_def quiet_acquire [OF q] tx_queue_def)
next
  case 3
  obtain k s' where s': "Option.bind (uartstart h (within h uart_tx_lock s)) (release h uart_tx_lock) = Some s'" "quiet h s'"
      "k = min (length (tx_queue s)) (length (takeWhile tx_idle (uart_lsr s)))" "uart_thr s' = uart_thr s @ take k (tx_queue s)"
      "tx_queue s' = drop k (tx_queue s)" "procs s' = (if k = 0 then procs s else wake_all (c_proc (cpus s h)) (Some chan_uart) (procs s))"
    using uart_send [OF q] by (elim exE conjE)
  have "uartintr_send h s = Some s'" using s'(1) by (simp add: uartintr_send_def quiet_acquire [OF q])
  then show ?case using s'(2-6) ok by (intro exI [of _ s'] exI [of _ "length (takeWhile tx_idle (uart_lsr s))"]) (auto simp: tx_ok_def)
qed

definition kuart0 :: kuart where
  "kuart0 = kfile.extend kfile0 \<lparr>uart_lsr = [32], uart_rhr = [], uart_thr = [], uart_tx_buf = (\<lambda>_. 0),
     uart_tx_w = - 1, uart_tx_r = - 1, panicked = 0\<rparr>"

lemma kuart0_ok: "quiet 0 kuart0" "tx_ok kuart0" "panicked kuart0 = 0" "tx_queue kuart0 = []" "uart_thr kuart0 = []" "takeWhile tx_idle (uart_lsr kuart0) = [32]"
proof -
  show "quiet 0 kuart0" using in_call_quiet [OF kfile0_ok(1)] by (auto simp: kuart0_def kfile.defs quiet_def calm_iff hart_ok_def free_lock_def)
  show "tx_queue kuart0 = []" by (simp add: tx_queue_def kuart0_def kfile.defs ur.empty)
  then show "tx_ok kuart0" by (simp add: tx_ok_def)
  show "panicked kuart0 = 0" "uart_thr kuart0 = []" "takeWhile tx_idle (uart_lsr kuart0) = [32]"
    by (simp_all add: kuart0_def kfile.defs tx_idle_def LSR_TX_IDLE_def)
qed

theorem uart_fifo_witness:
  "\<exists>s s'. uartputc 0 0x41 kuart0 = Some (Done () s) \<and> uart_thr s = [0x41] \<and> tx_queue s = [] \<and> uartintr_send 0 kuart0 = Some s' \<and> tx_queue s' = []"
  using uart_fifo [OF kuart0_ok(1-3), of "0x41" 3]
proof (elim conjE exE, goal_cases)
  case (1 s')
  then obtain s where "uartputc 0 0x41 kuart0 = Some (Done () s)" "uart_thr s @ tx_queue s = [0x41]" "uart_thr s \<noteq> []" by (auto simp: kuart0_ok)
  then show ?case using 1 by (auto simp: kuart0_ok append_eq_Cons_conv)
qed

end
