(* ===== verification/Console.thy ===== *)
theory Console
  imports Uart Printf
begin

text \<open>
  The console, \<open>labo2/kernel/console.c\<close>: a line editor between the serial port and the processes that read lines. The interrupt
  handler \<open>consoleintr\<close> edits the line that is being typed, between the indices \<open>w\<close> and \<open>e\<close>, and \<open>consoleread\<close> takes finished
  lines, between \<open>r\<close> and \<open>w\<close>. Characters are bytes; \<open>char\<close> is unsigned on this machine.
\<close>

subsection \<open>State and output\<close>

definition INPUT_BUF_SIZE :: uint where "INPUT_BUF_SIZE = 128"
definition BACKSPACE :: cint where "BACKSPACE = 0x100"

text \<open>\<open>C(x)\<close>: the control characters.\<close>

definition Ctrl :: "uchar \<Rightarrow> uchar" where "Ctrl x = x - 0x40"

record kcons = kuart +
  cons_buf :: "nat \<Rightarrow> uchar"
  cons_r :: uint
  cons_w :: uint
  cons_e :: uint

definition consputc :: "nat \<Rightarrow> cint \<Rightarrow> 'a kuart_scheme \<Rightarrow> 'a kuart_scheme option" where
  "consputc h c s =
     (if c = BACKSPACE then do {
        s \<leftarrow> uartputc_sync h 8 s;
        s \<leftarrow> uartputc_sync h 0x20 s;
        uartputc_sync h 8 s }
      else uartputc_sync h (ucast c) s)"

text \<open>The kernel's \<open>printf\<close> with its output sent to the console.\<close>

definition print_cons :: "nat \<Rightarrow> uchar list \<Rightarrow> varg list \<Rightarrow> 'a kuart_scheme \<Rightarrow> 'a kuart_scheme option" where
  "print_cons h fmt ap s = do {
     s \<leftarrow> acquire h pr_lock s;
     out \<leftarrow> k_printf_loop fmt ap;
     s \<leftarrow> forM (\<lambda>c. consputc h (ucast c)) out s;
     release h pr_lock s }"

definition bytes_of_string :: "string \<Rightarrow> uchar list" where
  "bytes_of_string = map of_char"

fun state_name :: "procstate \<Rightarrow> string" where
  "state_name UNUSED = ''unused''"
| "state_name USED = ''used''"
| "state_name SLEEPING = ''sleep ''"
| "state_name RUNNABLE = ''runble''"
| "state_name RUNNING = ''run   ''"
| "state_name ZOMBIE = ''zombie''"

definition procdump_one :: "nat \<Rightarrow> nat \<Rightarrow> 'a kuart_scheme \<Rightarrow> 'a kuart_scheme option" where
  "procdump_one h p s =
     (let q = procs s p in
      if p_state q = UNUSED then Some s
      else do {
        s \<leftarrow> print_cons h (bytes_of_string ''%d %s %s'')
          [VNum (ucast (p_pid q)), VStr (Some (bytes_of_string (state_name (p_state q)))), VStr (Some (bytes_of_string (p_name q)))] s;
        print_cons h [10] [] s })"

definition procdump :: "nat \<Rightarrow> 'a kuart_scheme \<Rightarrow> 'a kuart_scheme option" where
  "procdump h s = do {
     s \<leftarrow> print_cons h [10] [] s;
     forM (procdump_one h) [0..<NPROC] s }"

subsection \<open>Input: the interrupt handler\<close>

definition last_char :: "'a kcons_scheme \<Rightarrow> uchar" where
  "last_char s = cons_buf s (unat ((cons_e s - 1) mod INPUT_BUF_SIZE))"

definition erase_char :: "nat \<Rightarrow> 'a kcons_scheme \<Rightarrow> 'a kcons_scheme option" where
  "erase_char h s = consputc h BACKSPACE (s\<lparr>cons_e := cons_e s - 1\<rparr>)"

partial_function (option) kill_line :: "nat \<Rightarrow> 'a kcons_scheme \<Rightarrow> 'a kcons_scheme option" where
  "kill_line h s =
     (if cons_e s \<noteq> cons_w s \<and> last_char s \<noteq> 10
      then Option.bind (erase_char h s) (\<lambda>s. kill_line h s)
      else Some s)"

definition store_char :: "uchar \<Rightarrow> 'a kcons_scheme \<Rightarrow> 'a kcons_scheme" where
  "store_char c s = s\<lparr>cons_buf := (cons_buf s)(unat (cons_e s mod INPUT_BUF_SIZE) := c), cons_e := cons_e s + 1\<rparr>"

definition insert_char :: "nat \<Rightarrow> uchar \<Rightarrow> 'a kcons_scheme \<Rightarrow> 'a kcons_scheme option" where
  "insert_char h c s =
     (if c \<noteq> 0 \<and> cons_e s - cons_r s < INPUT_BUF_SIZE then do {
        let c = (if c = 13 then 10 else c);
        s \<leftarrow> consputc h (ucast c) s;
        let s = store_char c s;
        if c = 10 \<or> c = Ctrl 0x44 \<or> cons_e s - cons_r s = INPUT_BUF_SIZE
        then wakeup h (Some chan_cons) (s\<lparr>cons_w := cons_e s\<rparr>)
        else Some s }
      else Some s)"

definition consoleintr :: "nat \<Rightarrow> uchar \<Rightarrow> 'a kcons_scheme \<Rightarrow> 'a kcons_scheme option" where
  "consoleintr h c s = do {
     s \<leftarrow> acquire h cons_lock s;
     s \<leftarrow> (if c = Ctrl 0x50 then procdump h s
          else if c = Ctrl 0x55 then kill_line h s
          else if c = Ctrl 0x48 \<or> c = 0x7F then
            (if cons_e s \<noteq> cons_w s then erase_char h s else Some s)
          else insert_char h c s);
     release h cons_lock s }"

text \<open>\<open>uartintr\<close>: read the characters that have arrived, then send.\<close>

partial_function (option) uartintr_recv :: "nat \<Rightarrow> 'a kcons_scheme \<Rightarrow> 'a kcons_scheme option" where
  "uartintr_recv h s = (case uartgetc s of
     (None, s) \<Rightarrow> Some s
   | (Some c, s) \<Rightarrow> Option.bind (consoleintr h c s) (\<lambda>s. uartintr_recv h s))"

definition uartintr :: "nat \<Rightarrow> 'a kcons_scheme \<Rightarrow> 'a kcons_scheme option" where
  "uartintr h s = Option.bind (uartintr_recv h s) (uartintr_send h)"

subsection \<open>Reading and writing\<close>

definition consoleread_end :: "nat \<Rightarrow> int \<Rightarrow> int \<Rightarrow> 'a kcons_scheme \<Rightarrow> (int, dest \<times> int, 'a kcons_scheme) progress option" where
  "consoleread_end h target n s = do { s \<leftarrow> release h cons_lock s; Some (Done (target - n) s) }"

function consoleread_loop ::
  "nat \<Rightarrow> nat \<Rightarrow> int \<Rightarrow> dest \<Rightarrow> int \<Rightarrow> 'a kcons_scheme \<Rightarrow> (int, dest \<times> int, 'a kcons_scheme) progress option" where
  "consoleread_loop h p target dst n s =
     (if n > 0 then
        if cons_r s = cons_w s then do {
          (k, s) \<leftarrow> killed h p s;
          if k \<noteq> 0 then do { s \<leftarrow> release h cons_lock s; Some (Done (-1) s) }
          else do { s \<leftarrow> sleep_enter h (Some chan_cons) cons_lock s; Some (Asleep (dst, n) s) } }
        else let c = cons_buf s (unat (cons_r s mod INPUT_BUF_SIZE)); s = s\<lparr>cons_r := cons_r s + 1\<rparr> in
          if c = Ctrl 0x44 then consoleread_end h target n (if n < target then s\<lparr>cons_r := cons_r s - 1\<rparr> else s)
          else Option.bind (either_copyout h dst [c] s) (\<lambda>(r, s).
            if r = -1 then consoleread_end h target n s
            else if c = 10 then consoleread_end h target (n - 1) s
            else consoleread_loop h p target (dest_add dst 1) (n - 1) s)
      else consoleread_end h target n s)"
  by auto
termination
  by (relation "measure (\<lambda>(h, p, target, dst, n, s). nat n)") auto

declare consoleread_loop.simps [simp del]

definition consoleread :: "nat \<Rightarrow> dest \<Rightarrow> int \<Rightarrow> 'a kcons_scheme \<Rightarrow> (int, dest \<times> int, 'a kcons_scheme) progress option" where
  "consoleread h dst n s = do {
     (mp, s) \<leftarrow> myproc h s;
     p \<leftarrow> mp;
     s \<leftarrow> acquire h cons_lock s;
     consoleread_loop h p n dst n s }"

definition consoleread_resume ::
  "nat \<Rightarrow> nat \<Rightarrow> int \<Rightarrow> dest \<Rightarrow> int \<Rightarrow> 'a kcons_scheme \<Rightarrow> (int, dest \<times> int, 'a kcons_scheme) progress option" where
  "consoleread_resume h p target dst n s = do {
     s \<leftarrow> sleep_exit h p cons_lock s;
     consoleread_loop h p target dst n s }"

text \<open>\<open>consolewrite\<close> asleep in \<open>uartputc\<close> keeps the index and the byte.\<close>

function consolewrite_loop :: "nat \<Rightarrow> addr \<Rightarrow> int \<Rightarrow> int \<Rightarrow> 'a kcons_scheme \<Rightarrow> (int, int \<times> uchar, 'a kcons_scheme) progress option" where
  "consolewrite_loop h src n i s =
     (if i < n then
        Option.bind (either_copyin h (SUser (src + of_int i)) 1 s) (\<lambda>(r, bs, s).
          if r = -1 then Some (Done i s)
          else Option.bind (uartputc h (hd bs) s) (\<lambda>x. case x of
            Done _ s \<Rightarrow> consolewrite_loop h src n (i + 1) s
          | Asleep _ s \<Rightarrow> Some (Asleep (i, hd bs) s)))
      else Some (Done i s))"
  by auto
termination
  by (relation "measure (\<lambda>(h, src, n, i, s). nat (n - i))") auto

declare consolewrite_loop.simps [simp del]

definition consolewrite :: "nat \<Rightarrow> addr \<Rightarrow> int \<Rightarrow> 'a kcons_scheme \<Rightarrow> (int, int \<times> uchar, 'a kcons_scheme) progress option" where
  "consolewrite h src n s = consolewrite_loop h src n 0 s"

definition consolewrite_resume ::
  "nat \<Rightarrow> nat \<Rightarrow> addr \<Rightarrow> int \<Rightarrow> int \<Rightarrow> uchar \<Rightarrow> 'a kcons_scheme \<Rightarrow> (int, int \<times> uchar, 'a kcons_scheme) progress option" where
  "consolewrite_resume h p src n i c s = Option.bind (uartputc_resume h p c s) (\<lambda>x. case x of
     Done _ s \<Rightarrow> consolewrite_loop h src n (i + 1) s
   | Asleep _ s \<Rightarrow> Some (Asleep (i, c) s))"

text \<open>The entries of \<open>devsw\<close> that \<open>consoleinit\<close> sets.\<close>

definition CONSOLE :: int where "CONSOLE = 1"

text \<open>The control registers, which \<open>uartinit\<close> sets as well, have no counterpart in the model.\<close>

definition uartinit :: "'a kcons_scheme \<Rightarrow> 'a kcons_scheme" where
  "uartinit s = initlock uart_tx_lock ''uart'' s"

definition consoleinit :: "'a kcons_scheme \<Rightarrow> 'a kcons_scheme" where
  "consoleinit s = uartinit (initlock cons_lock ''cons'' s)"

definition devsw_read :: "nat \<Rightarrow> int \<Rightarrow> 'a kcons_scheme devfun option" where
  "devsw_read h m = (if m = CONSOLE then Some (\<lambda>a n s. at_once (consoleread h (DUser a) (sint n) s)) else None)"

definition devsw_write :: "nat \<Rightarrow> int \<Rightarrow> 'a kcons_scheme devfun option" where
  "devsw_write h m = (if m = CONSOLE then Some (\<lambda>a n s. at_once (consolewrite h a (sint n) s)) else None)"

subsection \<open>The line editor\<close>

interpretation cr: ring INPUT_BUF_SIZE
  by unfold_locales (simp_all add: INPUT_BUF_SIZE_def)

text \<open>The finished input and the line being typed.\<close>

definition cons_ready :: "'a kcons_scheme \<Rightarrow> uchar list" where
  "cons_ready s = ring_list INPUT_BUF_SIZE (cons_buf s) (cons_r s) (cons_w s)"

definition cons_line :: "'a kcons_scheme \<Rightarrow> uchar list" where
  "cons_line s = ring_list INPUT_BUF_SIZE (cons_buf s) (cons_w s) (cons_e s)"

definition cons_ok :: "'a kcons_scheme \<Rightarrow> bool" where
  "cons_ok s \<longleftrightarrow> length (cons_ready s) + length (cons_line s) \<le> 128 \<and> 10 \<notin> set (cons_line s)"

text \<open>What a key does to the two, and what is sent back to the terminal.\<close>

fun key :: "uchar \<Rightarrow> uchar list \<times> uchar list \<Rightarrow> uchar list \<times> uchar list" where
  "key c (q, l) =
     (if c = Ctrl 0x55 then (q, [])
      else if c = Ctrl 0x48 \<or> c = 0x7F then (q, butlast l)
      else if c = 0 \<or> length q + length l \<ge> 128 then (q, l)
      else let c = (if c = 13 then 10 else c); l = l @ [c] in
        if c = 10 \<or> c = Ctrl 0x44 \<or> length q + length l = 128 then (q @ l, []) else (q, l))"

abbreviation rubout :: "uchar list" where
  "rubout \<equiv> [8, 0x20, 8]"

fun echo :: "uchar \<Rightarrow> uchar list \<times> uchar list \<Rightarrow> uchar list" where
  "echo c (q, l) =
     (if c = Ctrl 0x55 then concat (replicate (length l) rubout)
      else if c = Ctrl 0x48 \<or> c = 0x7F then (if l = [] then [] else rubout)
      else if c = 0 \<or> length q + length l \<ge> 128 then []
      else [if c = 13 then 10 else c])"

subsection \<open>Lemmas: echo\<close>

text \<open>The device answers that it is idle at least \<open>n\<close> times; what is left of its answers after that.\<close>

definition idles :: "uchar list \<Rightarrow> nat" where
  "idles l = length (filter tx_idle l)"

definition echoed :: "uchar list \<Rightarrow> 'a kuart_scheme \<Rightarrow> 'a kuart_scheme \<Rightarrow> bool" where
  "echoed bs s s' \<longleftrightarrow> (\<exists>l. s' = s\<lparr>uart_lsr := l, uart_thr := uart_thr s @ bs\<rparr> \<and> idles l = idles (uart_lsr s) - length bs)"

lemma wait_idle_Some: "idles l > 0 \<Longrightarrow> \<exists>l'. wait_idle l = Some l' \<and> idles l' = idles l - 1"
  by (induction l) (auto simp: idles_def)

lemma push_pop:
  assumes "calm h s"
  shows "pop_off h ((push_off h s)\<lparr>uart_lsr := l, uart_thr := t\<rparr>) = Some (s\<lparr>uart_lsr := l, uart_thr := t\<rparr>)"
  using assms
  by (auto simp: calm_iff hart_ok_def pop_off_def push_off_def intr_off_def intr_on_def intr_get_def Let_def fun_upd_idem fun_eq_iff
      intro!: kuart.equality cpu.equality)

lemma uartputc_sync_ok:
  assumes "calm h s" and "panicked s = 0" and "idles (uart_lsr s) > 0"
  shows "\<exists>s'. uartputc_sync h c s = Some s' \<and> echoed [c] s s'"
proof -
  obtain l where l: "wait_idle (uart_lsr s) = Some l" "idles l = idles (uart_lsr s) - 1" using wait_idle_Some [OF assms(3)] by blast
  have p: "panicked (push_off h s) = panicked s" "uart_lsr (push_off h s) = uart_lsr s" "uart_thr (push_off h s) = uart_thr s"
    by (simp_all add: push_off_def intr_off_def Let_def)
  show ?thesis using l assms push_pop [OF assms(1), of "uart_thr s @ [c]" l]
    by (intro exI [of _ "s\<lparr>uart_lsr := l, uart_thr := uart_thr s @ [c]\<rparr>"]) (auto simp: uartputc_sync_def p write_thr_def echoed_def Let_def)
qed

lemma echoed_trans: "echoed a s s' \<Longrightarrow> echoed b s' s'' \<Longrightarrow> echoed (a @ b) s s''"
  by (auto simp: echoed_def)

lemma echoed_Nil: "echoed [] s s"
  by (auto simp: echoed_def intro!: exI [of _ "uart_lsr s"])

lemma echoed_sel:
  assumes "echoed bs s s'"
  shows "uart_thr s' = uart_thr s @ bs" "idles (uart_lsr s') = idles (uart_lsr s) - length bs" "panicked s' = panicked s"
    "cpus s' = cpus s" "sie s' = sie s" "lks s' = lks s" "procs s' = procs s" "mem s' = mem s" "calm h s' = calm h s"
proof -
  show "uart_thr s' = uart_thr s @ bs" "idles (uart_lsr s') = idles (uart_lsr s) - length bs" "panicked s' = panicked s"
    "procs s' = procs s" "mem s' = mem s" and c: "cpus s' = cpus s" "sie s' = sie s" "lks s' = lks s"
    using assms by (auto simp: echoed_def)
  show "calm h s' = calm h s" by (rule calm_cong [OF c(1,2)])
qed

lemma echoed_cons:
  fixes s :: "'a kcons_scheme"
  assumes "echoed bs s s'"
  shows "cons_buf s' = cons_buf s" "cons_r s' = cons_r s" "cons_w s' = cons_w s" "cons_e s' = cons_e s"
  using assms by (auto simp: echoed_def)

lemma echoed_within: "echoed bs (within h lk s) x \<Longrightarrow> \<exists>s'. x = within h lk s' \<and> echoed bs s s'"
proof -
  assume "echoed bs (within h lk s) x"
  then obtain l where l: "x = (within h lk s)\<lparr>uart_lsr := l, uart_thr := uart_thr s @ bs\<rparr>" "idles l = idles (uart_lsr s) - length bs"
    by (auto simp: echoed_def)
  have "(within h lk s)\<lparr>uart_lsr := l, uart_thr := uart_thr s @ bs\<rparr> = within h lk (s\<lparr>uart_lsr := l, uart_thr := uart_thr s @ bs\<rparr>)"
    using keeps_within [of "\<lambda>s. s\<lparr>uart_lsr := l, uart_thr := uart_thr s @ bs\<rparr>" h lk s] by (simp add: keeps_locks_def)
  with l show ?thesis by (auto simp: echoed_def)
qed

lemma consputc_ok:
  assumes c: "calm h s" and p: "panicked s = 0"
  shows "idles (uart_lsr s) \<ge> 3 \<Longrightarrow> \<exists>s'. consputc h BACKSPACE s = Some s' \<and> echoed rubout s s'"
    and "idles (uart_lsr s) \<ge> 1 \<Longrightarrow> \<exists>s'. consputc h (ucast b) s = Some s' \<and> echoed [b] s s'"
proof -
  assume i: "idles (uart_lsr s) \<ge> 3"
  obtain s1 where s1: "uartputc_sync h 8 s = Some s1" "echoed [8] s s1" using uartputc_sync_ok [OF c p, of 8] i by auto
  note e1 = echoed_sel [OF s1(2)]
  have "calm h s1" "panicked s1 = 0" "idles (uart_lsr s1) > 0" using e1 c p i by simp_all
  from uartputc_sync_ok [OF this, of "0x20"] obtain s2 where s2: "uartputc_sync h 0x20 s1 = Some s2" "echoed [0x20] s1 s2" by blast
  note e2 = echoed_sel [OF s2(2)]
  have "calm h s2" "panicked s2 = 0" "idles (uart_lsr s2) > 0" using e1 e2 c p i by simp_all
  from uartputc_sync_ok [OF this, of 8] obtain s3 where s3: "uartputc_sync h 8 s2 = Some s3" "echoed [8] s2 s3" by blast
  show "\<exists>s'. consputc h BACKSPACE s = Some s' \<and> echoed rubout s s'"
    using s1(1) s2(1) s3(1) echoed_trans [OF echoed_trans [OF s1(2) s2(2)] s3(2)] by (intro exI [of _ s3]) (simp add: consputc_def)
next
  assume i: "idles (uart_lsr s) \<ge> 1"
  have "(ucast b :: cint) \<noteq> BACKSPACE"
  proof
    assume "(ucast b :: cint) = BACKSPACE"
    then have "unat (ucast b :: cint) = unat BACKSPACE" by (rule arg_cong)
    then have "unat b mod 2 ^ 32 = 256" by (simp add: BACKSPACE_def unsigned_ucast_eq take_bit_eq_mod)
    moreover have "unat b < 2 ^ LENGTH(8)" by (rule unsigned_less)
    ultimately show False by simp
  qed
  moreover have "(ucast (ucast b :: cint) :: uchar) = b" by (rule bit_word_eqI) (simp add: bit_unsigned_iff)
  ultimately show "\<exists>s'. consputc h (ucast b) s = Some s' \<and> echoed [b] s s'" using uartputc_sync_ok [OF c p, of b] i by (simp add: consputc_def)
qed

lemma cons_within [simp]:
  "cons_buf (within h lk s) = cons_buf s" "cons_r (within h lk s) = cons_r s" "cons_w (within h lk s) = cons_w s" "cons_e (within h lk s) = cons_e s"
  by (simp_all add: within_def)

subsection \<open>Lemmas: editing\<close>

lemma line_last: "cons_e s \<noteq> cons_w s \<Longrightarrow> cons_line s = cons_line (s\<lparr>cons_e := cons_e s - 1\<rparr>) @ [last_char s]"
  using cr.unput [of "cons_e s" "cons_w s" "cons_buf s"] by (simp add: cons_line_def last_char_def)

lemma line_empty: "cons_line s = [] \<longleftrightarrow> cons_e s = cons_w s"
  by (simp add: cons_line_def cr.empty)

lemma within_cons_e: "(within h lk s)\<lparr>cons_e := e\<rparr> = within h lk (s\<lparr>cons_e := e\<rparr>)"
  using keeps_within [of "\<lambda>s. s\<lparr>cons_e := e\<rparr>" h lk s] by (simp add: keeps_locks_def)

lemma echoed_cons_e:
  assumes "echoed bs s s'"
  shows "echoed bs (s\<lparr>cons_e := e\<rparr>) (s'\<lparr>cons_e := e\<rparr>)"
proof -
  obtain l where "s' = s\<lparr>uart_lsr := l, uart_thr := uart_thr s @ bs\<rparr>" "idles l = idles (uart_lsr s) - length bs" using assms by (auto simp: echoed_def)
  then show ?thesis unfolding echoed_def by (intro exI [of _ l]) simp
qed

text \<open>What the operations keep of a console state whose lock is held.\<close>

definition editing :: "nat \<Rightarrow> 'a kcons_scheme \<Rightarrow> bool" where
  "editing h s \<longleftrightarrow> quiet h s \<and> panicked s = 0"

lemma editing_cons_e [simp]: "editing h (s\<lparr>cons_e := e\<rparr>) = editing h s"
  by (simp add: editing_def) (subst quiet_cong [of _ s], simp_all)

lemma editing_calm: "editing h s \<Longrightarrow> calm h (within h lk s)"
  by (simp add: editing_def quiet_def calm_ok)

lemma editing_echoed: "echoed bs s s' \<Longrightarrow> editing h s' = editing h s"
  using echoed_sel [of bs s s'] by (simp add: editing_def) (subst quiet_cong [of s' s], simp_all)

lemma erase_char_ok:
  assumes ed: "editing h s" and i: "idles (uart_lsr s) \<ge> 3"
  shows "\<exists>s'. erase_char h (within h lk s) = Some (within h lk s') \<and> echoed rubout (s\<lparr>cons_e := cons_e s - 1\<rparr>) s'"
proof -
  let ?s = "s\<lparr>cons_e := cons_e s - 1\<rparr>"
  have "calm h (within h lk ?s)" "panicked (within h lk ?s) = 0" "idles (uart_lsr (within h lk ?s)) \<ge> 3"
    using editing_calm [of h ?s lk, simplified, OF ed] ed i by (auto simp: editing_def)
  from consputc_ok(1) [OF this] obtain x where x: "consputc h BACKSPACE (within h lk ?s) = Some x" "echoed rubout (within h lk ?s) x" by blast
  from echoed_within [OF x(2)] x(1) show ?thesis by (auto simp: erase_char_def within_cons_e)
qed

lemma kill_line_ok:
  fixes s :: "'a kcons_scheme"
  assumes "editing h s" and "10 \<notin> set (cons_line s)" and "idles (uart_lsr s) \<ge> 3 * length (cons_line s)"
  shows "\<exists>s'. kill_line h (within h lk s) = Some (within h lk s') \<and> echoed (concat (replicate (length (cons_line s)) rubout)) (s\<lparr>cons_e := cons_w s\<rparr>) s'"
  using assms
proof (induction "length (cons_line s)" arbitrary: s)
  case 0
  then have "cons_e s = cons_w s" using line_empty by auto
  moreover then have "s\<lparr>cons_e := cons_w s\<rparr> = s" by (intro kcons.equality) simp_all
  ultimately show ?case using 0(1) echoed_Nil [of s] by (intro exI [of _ s]) (subst kill_line.simps, simp only:, simp)
next
  case (Suc n)
  have ne: "cons_e s \<noteq> cons_w s" using Suc(2) line_empty [of s] by auto
  note ll = line_last [OF ne]
  have "last_char s \<noteq> 10" using Suc.prems(2) ll by (metis in_set_conv_decomp)
  moreover have "last_char (within h lk s) = last_char s" by (simp add: last_char_def)
  ultimately have k: "kill_line h (within h lk s) = Option.bind (erase_char h (within h lk s)) (kill_line h)" using ne by (subst kill_line.simps) simp
  let ?s = "s\<lparr>cons_e := cons_e s - 1\<rparr>"
  obtain s1 where s1: "erase_char h (within h lk s) = Some (within h lk s1)" "echoed rubout ?s s1"
    using erase_char_ok [OF Suc.prems(1), of lk] Suc.prems(3) Suc(2) by auto
  note e = echoed_sel [OF s1(2)] echoed_cons [OF s1(2)]
  have l1: "cons_line s1 = cons_line ?s" using e by (simp add: cons_line_def)
  have "n = length (cons_line s1)" "10 \<notin> set (cons_line s1)" "idles (uart_lsr s1) \<ge> 3 * length (cons_line s1)" "editing h s1"
    using Suc(2) Suc.prems ll l1 e(2) editing_echoed [OF s1(2)] by auto
  from Suc(1) [OF this(1,4,2,3)] obtain s2 where s2: "kill_line h (within h lk s1) = Some (within h lk s2)"
    "echoed (concat (replicate (length (cons_line s1)) rubout)) (s1\<lparr>cons_e := cons_w s1\<rparr>) s2" by blast
  have "echoed rubout (s\<lparr>cons_e := cons_w s\<rparr>) (s1\<lparr>cons_e := cons_w s1\<rparr>)" using echoed_cons_e [OF s1(2), of "cons_w s"] e by simp
  from echoed_trans [OF this s2(2)] show ?case using k s1(1) s2(1) Suc(2) \<open>n = length (cons_line s1)\<close> [symmetric] by (intro exI [of _ s2]) (simp add: Suc(2) [symmetric])
qed

lemma cons_join: "cons_ok s \<Longrightarrow> ring_list INPUT_BUF_SIZE (cons_buf s) (cons_r s) (cons_e s) = cons_ready s @ cons_line s"
  using cr.join [of "cons_w s" "cons_r s" "cons_e s" "cons_buf s"] by (simp add: cons_ok_def cons_ready_def cons_line_def)

lemma cons_len: "cons_ok s \<Longrightarrow> unat (cons_e s - cons_r s) = length (cons_ready s) + length (cons_line s)"
  using arg_cong [OF cons_join, of s length] by simp

lemma store_char_lists:
  assumes ok: "cons_ok s" and room: "length (cons_ready s) + length (cons_line s) < 128"
  shows "cons_ready (store_char c s) = cons_ready s" "cons_line (store_char c s) = cons_line s @ [c]"
proof -
  let ?b = "(cons_buf s)(unat (cons_e s mod INPUT_BUF_SIZE) := c)"
  have sz: "unat INPUT_BUF_SIZE = 128" by (simp add: INPUT_BUF_SIZE_def)
  have n: "unat (cons_e s - cons_r s) < unat INPUT_BUF_SIZE" "unat (cons_e s - cons_w s) < unat INPUT_BUF_SIZE"
    using cons_len [OF ok] room unfolding sz by (simp_all add: cons_line_def)
  show l: "cons_line (store_char c s) = cons_line s @ [c]" using cr.put [OF n(2), of "cons_buf s" c] by (simp add: cons_line_def store_char_def)
  have "unat (cons_w s - cons_r s) + unat (cons_e s + 1 - cons_w s) < 2 ^ LENGTH(32)"
    using cr.Suc_diff [OF n(2)] room by (simp add: cons_ready_def cons_line_def)
  from cr.join [OF this, of ?b] have "cons_ready (store_char c s) @ cons_line (store_char c s) = ring_list INPUT_BUF_SIZE ?b (cons_r s) (cons_e s + 1)"
    by (simp add: cons_line_def cons_ready_def store_char_def)
  also have "\<dots> = cons_ready s @ cons_line s @ [c]" using cr.put [OF n(1), of "cons_buf s" c] cons_join [OF ok] by simp
  finally show "cons_ready (store_char c s) = cons_ready s" unfolding l by simp
qed

lemma commit_lists:
  "cons_ok s \<Longrightarrow> cons_ready (s\<lparr>cons_w := cons_e s\<rparr>) = cons_ready s @ cons_line s" "cons_line (s\<lparr>cons_w := cons_e s\<rparr>) = []"
  using cons_join [of s] by (simp_all add: cons_ready_def cons_line_def cr.empty)

text \<open>What \<open>consoleintr\<close> does to the whole state.\<close>

definition edited :: "uchar list \<Rightarrow> (nat \<Rightarrow> proc) \<Rightarrow> 'a kcons_scheme \<Rightarrow> 'a kcons_scheme \<Rightarrow> bool" where
  "edited bs ps s s' \<longleftrightarrow> (\<exists>b w e l. s' = s\<lparr>uart_lsr := l, uart_thr := uart_thr s @ bs, cons_buf := b, cons_w := w, cons_e := e, procs := ps\<rparr>
     \<and> idles l = idles (uart_lsr s) - length bs)"

lemma edited_echoed:
  assumes "echoed bs s s'"
  shows "edited bs ps s (s'\<lparr>cons_buf := b, cons_e := e, cons_w := w, procs := ps\<rparr>)"
proof -
  obtain l where "s' = s\<lparr>uart_lsr := l, uart_thr := uart_thr s @ bs\<rparr>" "idles l = idles (uart_lsr s) - length bs" using assms by (auto simp: echoed_def)
  then show ?thesis unfolding edited_def by (intro exI [of _ b] exI [of _ w] exI [of _ e] exI [of _ l]) simp
qed

lemma insert_char_ok:
  fixes s :: "'a kcons_scheme"
  assumes ed: "editing h s" and ok: "cons_ok s" and c: "c \<noteq> 0" "c \<noteq> Ctrl 0x55" "c \<noteq> Ctrl 0x48" "c \<noteq> 0x7F"
    and room: "length (cons_ready s) + length (cons_line s) < 128" and i: "idles (uart_lsr s) \<ge> 1"
  defines "d \<equiv> if c = 13 then 10 else c"
  shows "\<exists>s'. insert_char h c (within h cons_lock s) = Some (within h cons_lock s') \<and> (cons_ready s', cons_line s') = key c (cons_ready s, cons_line s)
    \<and> edited [d] (if cons_ready s' = cons_ready s then procs s else wake_all (c_proc (cpus s h)) (Some chan_cons) (procs s)) s s' \<and> cons_ok s'"
proof -
  have r: "cons_e s - cons_r s < INPUT_BUF_SIZE" using cons_len [OF ok] room by (simp add: word_less_nat_alt INPUT_BUF_SIZE_def)
  have "calm h (within h cons_lock s)" "panicked (within h cons_lock s) = 0" "idles (uart_lsr (within h cons_lock s)) \<ge> 1"
    using editing_calm [OF ed] ed i by (simp_all add: editing_def)
  from consputc_ok(2) [OF this, of d] obtain x where x: "consputc h (ucast d) (within h cons_lock s) = Some x" "echoed [d] (within h cons_lock s) x" by blast
  obtain s1 where s1: "x = within h cons_lock s1" "echoed [d] s s1" using echoed_within [OF x(2)] by blast
  note e = echoed_cons [OF s1(2)]
  have ls: "cons_ready s1 = cons_ready s" "cons_line s1 = cons_line s" by (simp_all add: cons_ready_def cons_line_def e)
  then have ok1: "cons_ok s1" "length (cons_ready s1) + length (cons_line s1) < 128" using ok room by (simp_all add: cons_ok_def)
  let ?s2 = "store_char d s1"
  note st = store_char_lists [OF ok1, of d]
  have w2: "store_char d (within h cons_lock s1) = within h cons_lock ?s2" by (rule keeps_within) (simp add: keeps_locks_def store_char_def)
  have len: "length (cons_ready ?s2) + length (cons_line ?s2) \<le> 128" using st ls room by simp
  have len2: "unat (cons_e ?s2 - cons_r ?s2) = length (cons_ready s) + length (cons_line s) + 1"
    using cons_len [OF ok1(1)] cr.Suc_diff [of "cons_e s1" "cons_r s1"] ls room by (simp add: store_char_def INPUT_BUF_SIZE_def)
  then have full: "cons_e ?s2 - cons_r ?s2 = INPUT_BUF_SIZE \<longleftrightarrow> length (cons_ready s) + length (cons_line s) + 1 = 128"
    by (simp add: word_unat_eq_iff INPUT_BUF_SIZE_def)
  have s2: "?s2 = s1\<lparr>cons_buf := cons_buf ?s2, cons_e := cons_e ?s2, cons_w := cons_w s1, procs := procs s\<rparr>"
    using echoed_sel(7) [OF s1(2)] by (intro kcons.equality) (simp_all add: store_char_def)
  have run: "insert_char h c (within h cons_lock s) = (if d = 10 \<or> d = Ctrl 0x44 \<or> cons_e ?s2 - cons_r ?s2 = INPUT_BUF_SIZE
      then wakeup h (Some chan_cons) ((within h cons_lock ?s2)\<lparr>cons_w := cons_e ?s2\<rparr>) else Some (within h cons_lock ?s2))"
    using c(1) r x(1) w2 s1(1) unfolding d_def by (simp add: insert_char_def Let_def)
  have k: "key c (cons_ready s, cons_line s) = (if d = 10 \<or> d = Ctrl 0x44 \<or> length (cons_ready s) + length (cons_line s) + 1 = 128
      then (cons_ready s @ cons_line s @ [d], []) else (cons_ready s, cons_line s @ [d]))" using c room unfolding d_def by (simp add: Let_def)
  show ?thesis
  proof (cases "d = 10 \<or> d = Ctrl 0x44 \<or> cons_e ?s2 - cons_r ?s2 = INPUT_BUF_SIZE")
    case False
    then have n: "10 \<noteq> d" "\<not> (d = 10 \<or> d = Ctrl 0x44 \<or> length (cons_ready s) + length (cons_line s) + 1 = 128)" using full by auto
    have "cons_ok ?s2" using st ls len ok n(1) by (simp add: cons_ok_def)
    moreover have "edited [d] (procs s) s ?s2" by (subst s2) (rule edited_echoed [OF s1(2)])
    ultimately show ?thesis unfolding run k if_not_P [OF False] if_not_P [OF n(2)] using st ls by (intro exI [of _ ?s2]) simp
  next
    case True
    then have n: "d = 10 \<or> d = Ctrl 0x44 \<or> length (cons_ready s) + length (cons_line s) + 1 = 128" using full by auto
    let ?s3 = "?s2\<lparr>cons_w := cons_e ?s2\<rparr>" and ?P = "wake_all (c_proc (cpus s h)) (Some chan_cons) (procs s)"
    have w3: "(within h cons_lock ?s2)\<lparr>cons_w := cons_e ?s2\<rparr> = within h cons_lock ?s3"
      using keeps_within [of "\<lambda>t. t\<lparr>cons_w := cons_e ?s2\<rparr>" h cons_lock ?s2] by (simp add: keeps_locks_def)
    have eq: "cpus ?s3 = cpus s" "sie ?s3 = sie s" "lks ?s3 = lks s" "procs ?s3 = procs s" using echoed_sel [OF s1(2)] by (simp_all add: store_char_def)
    have "quiet h ?s3" using ed quiet_cong [OF eq(1-3)] by (simp add: editing_def)
    then have wk: "wakeup h (Some chan_cons) (within h cons_lock ?s3) = Some (within h cons_lock (?s3\<lparr>procs := ?P\<rparr>))"
      using wakeup_section [of h ?s3 cons_lock "Some chan_cons"] eq by (simp add: quiet_def proc_locks_free_def)
    have "ring_list INPUT_BUF_SIZE (cons_buf ?s2) (cons_r s1) (cons_e s1 + 1) = cons_ready s1 @ cons_line s1 @ [d]"
      using cr.put [of "cons_e s1" "cons_r s1" "cons_buf s1" d] cons_join [OF ok1(1)] cons_len [OF ok1(1)] ok1(2) by (simp add: store_char_def INPUT_BUF_SIZE_def)
    then have l3: "cons_ready (?s3\<lparr>procs := ?P\<rparr>) = cons_ready s @ cons_line s @ [d]" "cons_line (?s3\<lparr>procs := ?P\<rparr>) = []"
      using ls by (simp_all add: cons_ready_def cons_line_def store_char_def cr.empty)
    have "edited [d] ?P s (?s3\<lparr>procs := ?P\<rparr>)" using edited_echoed [OF s1(2), where ps = ?P and b = "cons_buf ?s2" and w = "cons_e ?s2" and e = "cons_e ?s2"]
      by (simp add: store_char_def)
    moreover have "cons_ok (?s3\<lparr>procs := ?P\<rparr>)" using l3 room by (simp add: cons_ok_def)
    ultimately show ?thesis unfolding run k if_P [OF True] if_P [OF n] w3 wk using l3 by (intro exI [of _ "?s3\<lparr>procs := ?P\<rparr>"]) simp
  qed
qed

lemma edited_sel:
  assumes "edited bs ps s s'"
  shows "uart_thr s' = uart_thr s @ bs" "idles (uart_lsr s') = idles (uart_lsr s) - length bs" "procs s' = ps" "mem s' = mem s"
    "cpus s' = cpus s" "sie s' = sie s" "lks s' = lks s" "panicked s' = panicked s" "editing h s' = editing h s"
proof -
  show "uart_thr s' = uart_thr s @ bs" "idles (uart_lsr s') = idles (uart_lsr s) - length bs" "procs s' = ps" "mem s' = mem s"
    and e: "cpus s' = cpus s" "sie s' = sie s" "lks s' = lks s" "panicked s' = panicked s" using assms by (auto simp: edited_def)
  show "editing h s' = editing h s" using quiet_cong [OF e(1-3)] e(4) by (simp add: editing_def)
qed

lemma edited_e:
  assumes "echoed bs (s\<lparr>cons_e := e\<rparr>) s'"
  shows "edited bs (procs s) s s'" and "cons_ready s' = cons_ready s" and "cons_line s' = ring_list INPUT_BUF_SIZE (cons_buf s) (cons_w s) e"
proof -
  obtain l where l: "s' = s\<lparr>cons_e := e, uart_lsr := l, uart_thr := uart_thr s @ bs\<rparr>" "idles l = idles (uart_lsr s) - length bs"
    using assms by (auto simp: echoed_def)
  have "s' = s\<lparr>uart_lsr := l, uart_thr := uart_thr s @ bs, cons_buf := cons_buf s, cons_w := cons_w s, cons_e := e, procs := procs s\<rparr>"
    unfolding l(1) by (intro kcons.equality) simp_all
  then show "edited bs (procs s) s s'" unfolding edited_def using l(2) by blast
  show "cons_ready s' = cons_ready s" "cons_line s' = ring_list INPUT_BUF_SIZE (cons_buf s) (cons_w s) e" unfolding l(1) by (simp_all add: cons_ready_def cons_line_def)
qed

lemma edited_refl: "edited [] (procs s) s s"
proof -
  have "s\<lparr>cons_e := cons_e s\<rparr> = s" by (intro kcons.equality) simp_all
  then show ?thesis using edited_e(1) [where bs = "[]" and e = "cons_e s" and s = s and s' = s] echoed_Nil [of s] by simp
qed

lemma key_idle: "c = 0 \<or> length q + length l \<ge> 128 \<Longrightarrow> c \<noteq> Ctrl 0x55 \<Longrightarrow> c \<noteq> Ctrl 0x48 \<Longrightarrow> c \<noteq> 0x7F \<Longrightarrow> key c (q, l) = (q, l) \<and> echo c (q, l) = []"
  by auto

lemma consoleintr_run:
  fixes s :: "'a kcons_scheme"
  assumes ed: "editing h s" and ok: "cons_ok s" and c: "c \<noteq> Ctrl 0x50" and i: "idles (uart_lsr s) \<ge> length (echo c (cons_ready s, cons_line s))"
  shows "\<exists>s'. consoleintr h c s = Some s' \<and> (cons_ready s', cons_line s') = key c (cons_ready s, cons_line s) \<and> cons_ok s'
    \<and> edited (echo c (cons_ready s, cons_line s)) (if cons_ready s' = cons_ready s then procs s else wake_all (c_proc (cpus s h)) (Some chan_cons) (procs s)) s s'"
proof -
  let ?q = "cons_ready s" and ?l = "cons_line s" and ?w = "within h cons_lock s"
  have q: "quiet h s" using ed by (simp add: editing_def)
  have fin: "consoleintr h c s = Some s'" if "(if c = Ctrl 0x55 then kill_line h ?w else if c = Ctrl 0x48 \<or> c = 0x7F then
      (if cons_e s \<noteq> cons_w s then erase_char h ?w else Some ?w) else insert_char h c ?w) = Some (within h cons_lock s')"
    "edited bs ps s s'" for s' bs ps
  proof -
    have "quiet h s'" using edited_sel(9) [OF that(2), of h] ed by (simp add: editing_def)
    then show ?thesis by (simp only: consoleintr_def quiet_acquire [OF q] bind.bind_lunit c if_False cons_within that(1) quiet_release)
  qed
  have small: "cons_ok s'" if "cons_ready s' = ?q" "cons_line s' = take n ?l" for s' :: "'a kcons_scheme" and n
    using ok that by (auto simp: cons_ok_def dest: in_set_takeD)
  consider "c = Ctrl 0x55" | "c \<noteq> Ctrl 0x55" "c = Ctrl 0x48 \<or> c = 0x7F" | "c \<noteq> Ctrl 0x55" "\<not> (c = Ctrl 0x48 \<or> c = 0x7F)" by blast
  then show ?thesis
  proof cases
    case 1
    have "10 \<notin> set ?l" "idles (uart_lsr s) \<ge> 3 * length ?l" using ok i 1 by (simp_all add: cons_ok_def sum_list_replicate length_concat)
    from kill_line_ok [OF ed this, of cons_lock] obtain s' where s': "kill_line h ?w = Some (within h cons_lock s')"
      "echoed (concat (replicate (length ?l) rubout)) (s\<lparr>cons_e := cons_w s\<rparr>) s'" by blast
    note e = edited_e [OF s'(2)]
    have l: "cons_line s' = []" using e(3) by (simp add: cr.empty)
    show ?thesis using fin [OF _ e(1)] s'(1) 1 e(1,2) l small [of s' 0] by (intro exI [of _ s']) simp
  next
    case 2
    show ?thesis
    proof (cases "?l = []")
      case True
      then show ?thesis using 2 fin [OF _ edited_refl, of ] ok edited_refl [of s] line_empty [of s] by (intro exI [of _ s]) auto
    next
      case False
      then have ne: "cons_e s \<noteq> cons_w s" by (simp add: line_empty)
      have "idles (uart_lsr s) \<ge> 3" using i 2 False by auto
      from erase_char_ok [OF ed this, of cons_lock] obtain s' where s': "erase_char h ?w = Some (within h cons_lock s')" "echoed rubout (s\<lparr>cons_e := cons_e s - 1\<rparr>) s'" by blast
      note e = edited_e [OF s'(2)]
      have l: "cons_line s' = butlast ?l" using e(3) line_last [OF ne] by (simp add: cons_line_def)
      show ?thesis using fin [OF _ e(1)] s'(1) 2 e(1,2) l ne False small [of s' "length ?l - 1"] by (intro exI [of _ s']) (auto simp: butlast_conv_take)
    qed
  next
    case 3
    show ?thesis
    proof (cases "c = 0 \<or> length ?q + length ?l \<ge> 128")
      case True
      then have "insert_char h c ?w = Some ?w" using cons_len [OF ok] by (auto simp: insert_char_def word_less_nat_alt INPUT_BUF_SIZE_def)
      then show ?thesis using 3 key_idle [OF True] fin [OF _ edited_refl] ok edited_refl [of s] by (intro exI [of _ s]) simp
    next
      case False
      then have "idles (uart_lsr s) \<ge> 1" using i 3 by auto
      then obtain s' where s': "insert_char h c ?w = Some (within h cons_lock s')" "(cons_ready s', cons_line s') = key c (?q, ?l)"
          "edited [if c = 13 then 10 else c] (if cons_ready s' = ?q then procs s else wake_all (c_proc (cpus s h)) (Some chan_cons) (procs s)) s s'" "cons_ok s'"
        using insert_char_ok [OF ed ok, of c] 3 False by auto
      have "echo c (?q, ?l) = [if c = 13 then 10 else c]" using 3 False by simp
      then show ?thesis using fin [OF _ s'(3)] s' 3 by (intro exI [of _ s']) (simp del: key.simps)
    qed
  qed
qed

subsection \<open>Lemmas: reading\<close>

text \<open>
  What a read of \<open>n\<close> bytes takes from the finished input: the bytes and the rest; \<open>None\<close> if it has to wait for more. A control-D
  ends the read; it is left in the input unless the read has taken nothing yet.
\<close>

fun line_read :: "nat \<Rightarrow> bool \<Rightarrow> uchar list \<Rightarrow> (uchar list \<times> uchar list) option" where
  "line_read 0 fresh q = Some ([], q)"
| "line_read (Suc n) fresh [] = None"
| "line_read (Suc n) fresh (c # q) =
     (if c = Ctrl 0x44 then Some ([], if fresh then q else c # q)
      else if c = 10 then Some ([c], q)
      else map_option (\<lambda>(bs, q). (c # bs, q)) (line_read n False q))"

lemma in_call_cons [simp]: "in_call h p (s\<lparr>cons_r := r\<rparr>) = in_call h p s"
  by (rule in_call_cong) simp_all

lemma ready_get:
  assumes "cons_ready s = c # q"
  shows "cons_r s \<noteq> cons_w s" "cons_buf s (unat (cons_r s mod INPUT_BUF_SIZE)) = c" "cons_ready (s\<lparr>cons_r := cons_r s + 1\<rparr>) = q"
    "cons_line (s\<lparr>cons_r := r\<rparr>) = cons_line s"
proof -
  show n: "cons_r s \<noteq> cons_w s" using assms cr.empty [of "cons_buf s" "cons_r s" "cons_w s"] by (auto simp: cons_ready_def)
  show "cons_buf s (unat (cons_r s mod INPUT_BUF_SIZE)) = c" "cons_ready (s\<lparr>cons_r := cons_r s + 1\<rparr>) = q"
    using assms cr.get [OF n [symmetric], of "cons_buf s"] by (simp_all add: cons_ready_def)
  show "cons_line (s\<lparr>cons_r := r\<rparr>) = cons_line s" by (simp add: cons_line_def)
qed

lemma within_cons_r: "(within h lk s)\<lparr>cons_r := r\<rparr> = within h lk (s\<lparr>cons_r := r\<rparr>)"
  using keeps_within [of "\<lambda>s. s\<lparr>cons_r := r\<rparr>" h lk s] by (simp add: keeps_locks_def)

lemma copyout_char:
  fixes s :: "'a kcons_scheme"
  assumes c: "in_call h p s" and wf: "pt_wf (mem s) (p_pagetable (procs s p)) F" "0 \<in> F"
    and u: "user_space (mem s) (p_pagetable (procs s p)) a (x # xs)"
  shows "either_copyout h (DUser a) [b] (within h lk s) = Some (0, within h lk (s\<lparr>mem := (mem s)(x := b)\<rparr>))"
proof -
  note d = in_callD [OF c]
  have "myproc h (within h lk s) = Some (Some p, within h lk s)"
    using myproc_ok [of h "within h lk s"] hart_ok_within [OF calm_ok [OF d(1)], of lk] calm_within [OF calm_ok [OF d(1)], of lk] d(3) by (simp add: within_def)
  moreover have "uaddr (mem s) (p_pagetable (procs s p)) a = Some x" using u unfolding user_space_def by (auto dest: spec [of _ 0])
  then have "copyout h (p_pagetable (procs s p)) a [b] (within h lk s) = Some (0, (within h lk s)\<lparr>mem := (mem s)(x := b)\<rparr>)"
    using copyout_one [of "within h lk s" "p_pagetable (procs s p)" F a x h b] wf by simp
  ultimately show ?thesis by (simp add: either_copyout_def mem_within)
qed

lemma user_space_tl:
  assumes "pt_wf m pt F" and "user_space m pt a (x # xs)"
  shows "user_space (m(x := b)) pt (a + 1) xs" and "pt_wf (m(x := b)) pt F"
proof -
  note w = user_space_write [OF assms, of 0 b]
  show "pt_wf (m(x := b)) pt F" using w(1) by simp
  have "user_space (m(x := b)) pt a (x # xs)" using w(2) by simp
  then show "user_space (m(x := b)) pt (a + 1) xs" unfolding user_space_def by (auto dest: spec [of _ "Suc _"] simp: add.assoc)
qed

definition cons_only :: "mem \<Rightarrow> 'a kcons_scheme \<Rightarrow> 'a kcons_scheme \<Rightarrow> bool" where
  "cons_only m s s' \<longleftrightarrow> (\<exists>r. s' = s\<lparr>mem := m, cons_r := r\<rparr>)"

lemma cons_only_sel:
  assumes "cons_only m s s'"
  shows "mem s' = m" "procs s' = procs s" "in_call h p s' = in_call h p s" "cons_line s' = cons_line s"
proof -
  obtain r where r: "s' = s\<lparr>mem := m, cons_r := r\<rparr>" using assms by (auto simp: cons_only_def)
  show "mem s' = m" "procs s' = procs s" "cons_line s' = cons_line s" using r by (simp_all add: cons_line_def)
  show "in_call h p s' = in_call h p s" unfolding r by (rule in_call_cong) simp_all
qed

lemma read_end:
  fixes s :: "'a kcons_scheme"
  assumes "in_call h p s"
  shows "consoleread_end h target n (within h cons_lock s) = Some (Done (target - n) s)"
  using in_callD [OF assms] by (simp add: consoleread_end_def)

text \<open>One turn of the loop, when there is finished input.\<close>

lemma read_turn:
  fixes s :: "'a kcons_scheme"
  assumes c: "in_call h p s" and wf: "pt_wf (mem s) (p_pagetable (procs s p)) F" "0 \<in> F"
    and u: "user_space (mem s) (p_pagetable (procs s p)) a (x # xs)" and q: "cons_ready s = b # q"
  defines "s1 \<equiv> s\<lparr>mem := (mem s)(x := b), cons_r := cons_r s + 1\<rparr>"
  shows "consoleread_loop h p target (DUser a) (int (length (x # xs))) (within h cons_lock s) =
      (if b = Ctrl 0x44 then Some (Done (target - int (length (x # xs))) (if int (length (x # xs)) < target then s else s\<lparr>cons_r := cons_r s + 1\<rparr>))
       else if b = 10 then Some (Done (target - int (length xs)) s1)
       else consoleread_loop h p target (DUser (a + 1)) (int (length xs)) (within h cons_lock s1))"
proof -
  note g = ready_get(1,2) [OF q]
  have s0: "s\<lparr>cons_r := cons_r s\<rparr> = s" by (intro kcons.equality) simp_all
  have m: "(s\<lparr>cons_r := cons_r s + 1\<rparr>)\<lparr>mem := (mem s)(x := b)\<rparr> = s1" by (simp add: s1_def)
  have cp: "either_copyout h (DUser a) [b] (within h cons_lock (s\<lparr>cons_r := cons_r s + 1\<rparr>)) = Some (0, within h cons_lock s1)"
    using copyout_char [of h p "s\<lparr>cons_r := cons_r s + 1\<rparr>" F a x xs b] c wf u by (simp add: m)
  have c1: "in_call h p s1" "in_call h p (s\<lparr>cons_r := cons_r s + 1\<rparr>)" using c by (simp_all add: s1_def)
  show ?thesis using g cp read_end [OF c1(1)] read_end [OF c1(2)] read_end [OF c]
    by (subst consoleread_loop.simps) (simp add: Let_def within_cons_r s0)
qed

lemma cons_only_step:
  "cons_only m (s\<lparr>mem := m0, cons_r := r\<rparr>) s' \<Longrightarrow> cons_only m s s'" "cons_only (mem s) s s" "cons_only (mem s) s (s\<lparr>cons_r := r\<rparr>)" "cons_only m s (s\<lparr>mem := m, cons_r := r\<rparr>)"
proof -
  show "cons_only m (s\<lparr>mem := m0, cons_r := r\<rparr>) s' \<Longrightarrow> cons_only m s s'" by (auto simp: cons_only_def)
  have "s = s\<lparr>mem := mem s, cons_r := cons_r s\<rparr>" by (intro kcons.equality) simp_all
  then show "cons_only (mem s) s s" unfolding cons_only_def by blast
  have "s\<lparr>cons_r := r\<rparr> = s\<lparr>mem := mem s, cons_r := r\<rparr>" by (intro kcons.equality) simp_all
  then show "cons_only (mem s) s (s\<lparr>cons_r := r\<rparr>)" unfolding cons_only_def by blast
qed (auto simp: cons_only_def)

lemma read_run:
  fixes s :: "'a kcons_scheme"
  assumes "in_call h p s" and "pt_wf (mem s) (p_pagetable (procs s p)) F" "0 \<in> F"
    and "user_space (mem s) (p_pagetable (procs s p)) a as" and "line_read (length as) (target = int (length as)) (cons_ready s) = Some (bs, q)"
    and "int (length as) \<le> target"
  shows "\<exists>s'. consoleread_loop h p target (DUser a) (int (length as)) (within h cons_lock s) = Some (Done (target - int (length as) + int (length bs)) s')
    \<and> cons_only (store_bytes (zip as bs) (mem s)) s s' \<and> cons_ready s' = q"
  using assms
proof (induction as arbitrary: s a bs q)
  case Nil
  then show ?case by (subst consoleread_loop.simps) (auto simp: read_end intro: cons_only_step)
next
  case (Cons x xs)
  obtain b r where q: "cons_ready s = b # r" using Cons.prems(5) by (cases "cons_ready s") auto
  note turn = read_turn [OF Cons.prems(1-4) q, of target] and g = ready_get(3) [OF q]
  let ?s = "s\<lparr>mem := (mem s)(x := b), cons_r := cons_r s + 1\<rparr>"
  consider "b = Ctrl 0x44" | "b \<noteq> Ctrl 0x44" "b = 10" | "b \<noteq> Ctrl 0x44" "b \<noteq> 10" by blast
  then show ?case
  proof cases
    case 1
    let ?t = "if int (length (x # xs)) < target then s else s\<lparr>cons_r := cons_r s + 1\<rparr>"
    have "bs = []" "q = (if target = int (length (x # xs)) then r else b # r)" using Cons.prems(5) q 1 by auto
    then show ?thesis using turn 1 g q Cons.prems(6) by (intro exI [of _ ?t]) (auto intro: cons_only_step)
  next
    case 2
    have "bs = [b]" "q = r" using Cons.prems(5) q 2 by auto
    moreover have "cons_only ((mem s)(x := b)) s ?s" by (rule cons_only_step(4))
    moreover have "cons_ready ?s = r" using g by (simp add: cons_ready_def)
    ultimately show ?thesis using turn 2 by (intro exI [of _ ?s]) (simp del: fun_upd_apply)
  next
    case 3
    obtain cs where bs: "bs = b # cs" "line_read (length xs) False r = Some (cs, q)" using Cons.prems(5) q 3 by (auto split: prod.splits)
    have r: "cons_ready ?s = r" using g by (simp add: cons_ready_def)
    have "in_call h p ?s" "pt_wf (mem ?s) (p_pagetable (procs ?s p)) F" "user_space (mem ?s) (p_pagetable (procs ?s p)) (a + 1) xs"
      "line_read (length xs) (target = int (length xs)) (cons_ready ?s) = Some (cs, q)" "int (length xs) \<le> target"
      using Cons.prems(1,6) user_space_tl [OF Cons.prems(2,4), of b] bs(2) r by simp_all
    from Cons.IH [OF this(1,2) Cons.prems(3) this(3-5)] obtain s' where s': "consoleread_loop h p target (DUser (a + 1)) (int (length xs)) (within h cons_lock ?s)
        = Some (Done (target - int (length xs) + int (length cs)) s')" "cons_only (store_bytes (zip xs cs) (mem ?s)) ?s s'" "cons_ready s' = q" by blast
    show ?thesis using turn 3 s' bs(1) by (intro exI [of _ s']) (auto intro: cons_only_step(1))
  qed
qed

lemma read_waits:
  fixes s :: "'a kcons_scheme"
  assumes "in_call h p s" and "pt_wf (mem s) (p_pagetable (procs s p)) F" "0 \<in> F"
    and "user_space (mem s) (p_pagetable (procs s p)) a as" and "line_read (length as) fresh (cons_ready s) = None" and "int (length as) \<le> target"
  defines "k \<equiv> length (cons_ready s)"
  shows "k < length as \<and> (\<exists>s'. consoleread_loop h p target (DUser a) (int (length as)) (within h cons_lock s)
      = consoleread_loop h p target (DUser (a + of_nat k)) (int (length as - k)) (within h cons_lock s')
    \<and> cons_only (store_bytes (zip as (cons_ready s)) (mem s)) s s' \<and> cons_ready s' = [])"
  using assms(1-6) unfolding k_def
proof (induction as arbitrary: s a fresh)
  case (Cons x xs)
  show ?case
  proof (cases "cons_ready s")
    case Nil
    then show ?thesis using cons_only_step(2) [of s] by auto
  next
    case q: (Cons b r)
    let ?s = "s\<lparr>mem := (mem s)(x := b), cons_r := cons_r s + 1\<rparr>"
    have r: "cons_ready ?s = r" using ready_get(3) [OF q] by (simp add: cons_ready_def)
    have b: "b \<noteq> Ctrl 0x44" "b \<noteq> 10" "line_read (length xs) False r = None" using Cons.prems(5) q by (auto split: if_splits)
    have "in_call h p ?s" "pt_wf (mem ?s) (p_pagetable (procs ?s p)) F" "user_space (mem ?s) (p_pagetable (procs ?s p)) (a + 1) xs"
      "line_read (length xs) False (cons_ready ?s) = None" "int (length xs) \<le> target"
      using Cons.prems(1,6) user_space_tl [OF Cons.prems(2,4), of b] b(3) r by simp_all
    from Cons.IH [OF this(1,2) Cons.prems(3) this(3-5)] obtain s' where s': "length r < length xs"
      "consoleread_loop h p target (DUser (a + 1)) (int (length xs)) (within h cons_lock ?s)
        = consoleread_loop h p target (DUser (a + 1 + of_nat (length r))) (int (length xs - length r)) (within h cons_lock s')"
      "cons_only (store_bytes (zip xs r) (mem ?s)) ?s s'" "cons_ready s' = []" unfolding r by blast
    have "cons_only (store_bytes (zip (x # xs) (cons_ready s)) (mem s)) s s'" using cons_only_step(1) [OF s'(3)] q by simp
    moreover have "a + of_nat (length (cons_ready s)) = a + 1 + of_nat (length r)" "length (x # xs) - length (cons_ready s) = length xs - length r"
      using q by (simp_all add: add.assoc)
    moreover have "consoleread_loop h p target (DUser a) (int (length (x # xs))) (within h cons_lock s)
        = consoleread_loop h p target (DUser (a + 1)) (int (length xs)) (within h cons_lock ?s)"
      using read_turn [OF Cons.prems(1-4) q, of target] b(1,2) by (simp only: if_False)
    ultimately show ?thesis using s'(1,2,4) q by (simp only: list.size) auto
  qed
qed simp

subsection \<open>Properties\<close>

text \<open>The echo of a sequence of keys, and the promise to readers: nobody sleeps on the console while there is finished input.\<close>

fun echoes :: "uchar list \<Rightarrow> uchar list \<times> uchar list \<Rightarrow> uchar list" where
  "echoes [] st = []"
| "echoes (c # cs) st = echo c st @ echoes cs (key c st)"

definition readers_awake :: "'a kcons_scheme \<Rightarrow> bool" where
  "readers_awake s \<longleftrightarrow> (cons_ready s \<noteq> [] \<longrightarrow> (\<forall>p<NPROC. p_chan (procs s p) = Some chan_cons \<longrightarrow> p_state (procs s p) \<noteq> SLEEPING))"

definition runs_here :: "nat \<Rightarrow> 'a kproc_scheme \<Rightarrow> bool" where
  "runs_here h s \<longleftrightarrow> (\<forall>p. c_proc (cpus s h) = Some p \<longrightarrow> p_state (procs s p) \<noteq> SLEEPING)"

lemma wake_all_awake: "p < NPROC \<Longrightarrow> me \<noteq> Some p \<Longrightarrow> p_chan (wake_all me ch ps p) = ch \<Longrightarrow> p_state (wake_all me ch ps p) \<noteq> SLEEPING"
  by (auto simp: wake_all_def split: if_splits)

lemma awake_edited:
  assumes a: "readers_awake s" "runs_here h s"
    and e: "edited bs (if cons_ready s' = cons_ready s then procs s else wake_all (c_proc (cpus s h)) (Some chan_cons) (procs s)) s s'"
  shows "readers_awake s'" "runs_here h s'"
proof -
  note sel = edited_sel(3,5) [OF e]
  have me: "p_state (wake_all (c_proc (cpus s h)) ch ps p) = p_state (ps p)" if "c_proc (cpus s h) = Some p" for p ch ps using that by (simp add: wake_all_def)
  show r: "runs_here h s'" using a(2) me by (auto simp: runs_here_def sel)
  show "readers_awake s'"
  proof (cases "cons_ready s' = cons_ready s")
    case True
    then show ?thesis using a(1) sel(1) by (simp add: readers_awake_def)
  next
    case False
    then have p: "procs s' = wake_all (c_proc (cpus s h)) (Some chan_cons) (procs s)" using sel(1) by simp
    show ?thesis unfolding readers_awake_def
    proof (intro impI allI)
      fix q assume q: "q < NPROC" "p_chan (procs s' q) = Some chan_cons"
      show "p_state (procs s' q) \<noteq> SLEEPING"
      proof (cases "c_proc (cpus s h) = Some q")
        case True
        then show ?thesis using r sel(2) by (simp add: runs_here_def)
      next
        case False
        then show ?thesis using wake_all_awake [OF q(1) False] q(2) p by simp
      qed
    qed
  qed
qed

text \<open>
  C11. The console is a line editor. Typing a sequence of keys turns the finished input and the line being typed into what the
  editor of the specification makes of them: ordinary characters extend the line, backspace and delete take the last
  one back, control-U clears the line, a return or newline, a control-D and the 128th unread character finish it, and keys
  are ignored while the buffer is full. The terminal receives exactly the echo, the buffer of 128 bytes is never
  overrun, also when the 32-bit indices wrap around, and no process is left asleep on the console while there is
  finished input. Control-P, which prints the process table, is not among the keys.
\<close>

theorem console_edits:
  fixes s :: "'a kcons_scheme"
  assumes "quiet h s" and "panicked s = 0" and "cons_ok s" and "Ctrl 0x50 \<notin> set ks"
    and "idles (uart_lsr s) \<ge> length (echoes ks (cons_ready s, cons_line s))" and "readers_awake s" and "runs_here h s"
  shows "\<exists>s'. forM (consoleintr h) ks s = Some s' \<and> quiet h s' \<and> cons_ok s'
    \<and> (cons_ready s', cons_line s') = fold key ks (cons_ready s, cons_line s)
    \<and> uart_thr s' = uart_thr s @ echoes ks (cons_ready s, cons_line s) \<and> readers_awake s' \<and> mem s' = mem s \<and> cpus s' = cpus s"
  using assms
proof (induction ks arbitrary: s)
  case (Cons c ks)
  let ?st = "(cons_ready s, cons_line s)"
  have ed: "editing h s" using Cons.prems(1,2) by (simp add: editing_def)
  have c: "c \<noteq> Ctrl 0x50" "idles (uart_lsr s) \<ge> length (echo c ?st)" using Cons.prems(4,5) by (auto simp del: echo.simps)
  obtain s1 where s1: "consoleintr h c s = Some s1" "(cons_ready s1, cons_line s1) = key c ?st" "cons_ok s1"
    "edited (echo c ?st) (if cons_ready s1 = cons_ready s then procs s else wake_all (c_proc (cpus s h)) (Some chan_cons) (procs s)) s s1"
    using consoleintr_run [OF ed Cons.prems(3) c] by (elim exE conjE)
  note e = edited_sel [OF s1(4)] and a = awake_edited [OF Cons.prems(6,7) s1(4)]
  have ed1: "quiet h s1" "panicked s1 = 0" using e(9) [of h] ed by (simp_all add: editing_def)
  have "idles (uart_lsr s1) \<ge> length (echoes ks (cons_ready s1, cons_line s1))" using e(2) Cons.prems(5) s1(2) by (simp del: echo.simps key.simps)
  from Cons.IH [OF ed1 s1(3) _ this a] Cons.prems(4) obtain s' where s': "forM (consoleintr h) ks s1 = Some s'" "quiet h s'" "cons_ok s'"
    "(cons_ready s', cons_line s') = fold key ks (cons_ready s1, cons_line s1)" "uart_thr s' = uart_thr s1 @ echoes ks (cons_ready s1, cons_line s1)"
    "readers_awake s'" "mem s' = mem s1" "cpus s' = cpus s1" by auto
  show ?case using s1(1) s' e(1,4,5) unfolding s1(2) by (intro exI [of _ s']) (simp del: echo.simps key.simps)
qed simp

lemma line_read_length: "line_read n f q = Some (bs, q') \<Longrightarrow> length bs \<le> n"
  by (induction n f q arbitrary: bs q' rule: line_read.induct) (auto split: if_splits)

text \<open>The bytes \<open>bs\<close> stand at the first addresses of \<open>as\<close>, and nothing else has changed.\<close>

definition wrote :: "addr list \<Rightarrow> uchar list \<Rightarrow> mem \<Rightarrow> mem \<Rightarrow> bool" where
  "wrote as bs m m' \<longleftrightarrow> (\<forall>i<length bs. m' (as ! i) = bs ! i) \<and> (\<forall>x. x \<notin> set (take (length bs) as) \<longrightarrow> m' x = m x)"

lemma wrote_store:
  assumes "distinct as" and "length bs \<le> length as"
  shows "wrote as bs m (store_bytes (zip as bs) m)"
proof -
  have z: "zip as bs = zip (take (length bs) as) bs" using take_zip [of "length bs" as bs] by simp
  show ?thesis unfolding wrote_def z
    using store_bytes_at [of "take (length bs) as" bs] store_bytes_other [of _ "take (length bs) as" bs m] assms by auto
qed

text \<open>The state in which a process leaves its hart to sleep on the console.\<close>

definition asleep_on :: "nat \<Rightarrow> nat \<Rightarrow> 'a kcons_scheme \<Rightarrow> 'a kcons_scheme" where
  "asleep_on h p s = s\<lparr>cpus := (cpus s)(h := (cpus s h)\<lparr>intena := sie s h, c_proc := None\<rparr>),
     procs := (procs s)(p := (procs s p)\<lparr>p_chan := Some chan_cons, p_state := SLEEPING\<rparr>), saved_intena := (saved_intena s)(p := sie s h)\<rparr>"

lemma asleep_on_sel:
  "free_lock lk (asleep_on h p s) = free_lock lk s" "p_state (procs (asleep_on h p s) p) = SLEEPING" "p_chan (procs (asleep_on h p s) p) = Some chan_cons"
  "cons_ready (asleep_on h p s) = cons_ready s" "cons_line (asleep_on h p s) = cons_line s" "mem (asleep_on h p s) = mem s"
  by (simp_all add: asleep_on_def free_lock_def cons_ready_def cons_line_def)

lemma read_empty:
  fixes s :: "'a kcons_scheme"
  assumes c: "in_call h p s" and e: "cons_ready s = []" and n: "n > 0"
  shows "if p_killed (procs s p) \<noteq> 0 then consoleread_loop h p target dst n (within h cons_lock s) = Some (Done (-1) s)
    else \<exists>t. consoleread_loop h p target dst n (within h cons_lock s) = Some (Asleep (dst, n) t) \<and> scheduler_back h p t = Some (asleep_on h p s)"
proof -
  note d = in_callD [OF c]
  have w: "cons_r s = cons_w s" using e by (simp add: cons_ready_def cr.empty)
  have kl: "killed h p (within h cons_lock s) = Some (p_killed (procs s p), within h cons_lock s)" using killed_section [OF d(1) d(4), of cons_lock p] by simp
  obtain t where "sleep_enter h (Some chan_cons) cons_lock (within h cons_lock s) = Some t" "scheduler_back h p t = Some (asleep_on h p s)"
    using sleep_enter_leaves [OF d(2,3) d(4) d(4), of cons_lock "Some chan_cons"] by (auto simp: asleep_on_def)
  then show ?thesis using n w kl d by (subst (1 2) consoleread_loop.simps) simp
qed

text \<open>
  C20. \<open>consoleread\<close> delivers lines. It takes from the finished input up to the number of bytes asked for, but no further than the end of
  a line or a control-D; a control-D at the start is taken and gives 0, the end of file, one behind other bytes stays for the
  next read. The bytes are in the process's memory, nothing else in memory and nothing of the line being typed
  changes. When the finished input ends first the process sleeps on the console with every lock free and all the
  input so far copied, or returns -1 if it has been killed.
\<close>

theorem consoleread_correct:
  fixes s :: "'a kcons_scheme"
  assumes c: "in_call h p s" and wf: "pt_wf (mem s) (p_pagetable (procs s p)) F" "0 \<in> F"
    and u: "user_space (mem s) (p_pagetable (procs s p)) a as" and d: "distinct as"
  shows "case line_read (length as) True (cons_ready s) of
      Some (bs, q) \<Rightarrow> (\<exists>s'. consoleread h (DUser a) (int (length as)) s = Some (Done (int (length bs)) s') \<and> in_call h p s'
        \<and> cons_ready s' = q \<and> cons_line s' = cons_line s \<and> procs s' = procs s \<and> wrote as bs (mem s) (mem s'))
    | None \<Rightarrow> (let k = length (cons_ready s) in k < length as \<and>
        (if p_killed (procs s p) \<noteq> 0 then \<exists>s'. consoleread h (DUser a) (int (length as)) s = Some (Done (-1) s') \<and> in_call h p s'
         else \<exists>t s'. consoleread h (DUser a) (int (length as)) s = Some (Asleep (DUser (a + of_nat k), int (length as - k)) t)
           \<and> scheduler_back h p t = Some s' \<and> (\<forall>lk. free_lock lk s') \<and> p_state (procs s' p) = SLEEPING \<and> p_chan (procs s' p) = Some chan_cons
           \<and> cons_ready s' = [] \<and> cons_line s' = cons_line s \<and> wrote as (cons_ready s) (mem s) (mem s')))"
proof -
  note dc = in_callD [OF c]
  have start: "consoleread h (DUser a) (int (length as)) s = consoleread_loop h p (int (length as)) (DUser a) (int (length as)) (within h cons_lock s)"
    using dc by (simp add: consoleread_def acquire_free)
  show ?thesis
  proof (cases "line_read (length as) True (cons_ready s)")
    case (Some r)
    obtain bs q where r: "r = (bs, q)" by (cases r)
    have l: "line_read (length as) (int (length as) = int (length as)) (cons_ready s) = Some (bs, q)" using Some r by simp
    from read_run [OF c wf u l] obtain s' where s': "consoleread_loop h p (int (length as)) (DUser a) (int (length as)) (within h cons_lock s) = Some (Done (int (length bs)) s')"
      "cons_only (store_bytes (zip as bs) (mem s)) s s'" "cons_ready s' = q" by auto
    have "wrote as bs (mem s) (mem s')" using wrote_store [OF d line_read_length] Some r cons_only_sel(1) [OF s'(2)] by simp
    then show ?thesis using start s' c cons_only_sel(2-4) [OF s'(2)] Some r by auto
  next
    case None
    let ?k = "length (cons_ready s)"
    have k: "?k < length as" using read_waits [OF c wf u None order_refl] by simp
    obtain s1 where s1: "consoleread_loop h p (int (length as)) (DUser a) (int (length as)) (within h cons_lock s)
        = consoleread_loop h p (int (length as)) (DUser (a + of_nat ?k)) (int (length as - ?k)) (within h cons_lock s1)"
      "cons_only (store_bytes (zip as (cons_ready s)) (mem s)) s s1" "cons_ready s1 = []" using read_waits [OF c wf u None order_refl] by blast
    note sel = cons_only_sel [OF s1(2)]
    have c1: "in_call h p s1" using sel(3) c by simp
    have wr: "wrote as (cons_ready s) (mem s) (mem s1)" using wrote_store [OF d, of "cons_ready s"] k sel(1) by simp
    have "if p_killed (procs s p) \<noteq> 0 then consoleread h (DUser a) (int (length as)) s = Some (Done (-1) s1)
       else \<exists>t. consoleread h (DUser a) (int (length as)) s = Some (Asleep (DUser (a + of_nat ?k), int (length as - ?k)) t) \<and> scheduler_back h p t = Some (asleep_on h p s1)"
      unfolding start s1(1) sel(2) [symmetric] by (rule read_empty [OF c1 s1(3)]) (use k in simp)
    then show ?thesis using None k c1 wr s1(3) sel(4) asleep_on_sel(1) [of _ h p s1] asleep_on_sel(2-6) [where s = s1 and h = h and p = p] in_callD(4) [OF c1] by (auto simp: Let_def)
  qed
qed

subsection \<open>Examples\<close>

text \<open>A console whose counters are about to wrap around.\<close>

definition kcons0 :: "mem \<Rightarrow> kcons" where
  "kcons0 m = kuart.extend (kuart0\<lparr>mem := m, procs := (\<lambda>_. proc0\<lparr>p_pagetable := 0x80000000\<rparr>), uart_lsr := replicate 7 32\<rparr>)
     \<lparr>cons_buf = (\<lambda>_. 0)(127 := 0x61, 0 := 10), cons_r = - 1, cons_w = - 1, cons_e = - 1\<rparr>"

lemma kcons0_ok: "in_call 0 3 (kcons0 m)" "panicked (kcons0 m) = 0" "cons_ready (kcons0 m) = []" "cons_line (kcons0 m) = []" "cons_ok (kcons0 m)"
  "idles (uart_lsr (kcons0 m)) = 7" "uart_thr (kcons0 m) = []" "readers_awake (kcons0 m)" "runs_here 0 (kcons0 m)"
  "mem (kcons0 m) = m" "p_pagetable (procs (kcons0 m) p) = 0x80000000" "p_killed (procs (kcons0 m) p) = 0"
proof -
  have "cpus (kcons0 m) = cpus kfile0" "sie (kcons0 m) = sie kfile0" "lks (kcons0 m) = lks kfile0" by (simp_all add: kcons0_def kuart0_def kuart.defs kfile.defs)
  then show "in_call 0 3 (kcons0 m)" using kfile0_ok(1) by (auto simp: in_call_def calm_iff hart_ok_def at_rest_def free_lock_def)
  show "cons_ready (kcons0 m) = []" "cons_line (kcons0 m) = []" by (simp_all add: cons_ready_def cons_line_def kcons0_def kuart.defs cr.empty)
  then show "cons_ok (kcons0 m)" "readers_awake (kcons0 m)" by (simp_all add: cons_ok_def readers_awake_def)
  show "idles (uart_lsr (kcons0 m)) = 7" by (simp add: kcons0_def kuart.defs idles_def tx_idle_def LSR_TX_IDLE_def)
qed (simp_all add: kcons0_def kuart0_def kuart.defs kfile.defs runs_here_def proc0_def)

theorem console_edits_witness:
  "\<exists>s'. forM (consoleintr 0) [0x61, 0x62, 8, 0x63, 13] (kcons0 (\<lambda>_. 0)) = Some s' \<and> cons_ready s' = [0x61, 0x63, 10] \<and> cons_line s' = []
    \<and> uart_thr s' = [0x61, 0x62, 8, 0x20, 8, 0x63, 10]"
proof -
  let ?ks = "[0x61, 0x62, 8, 0x63, 13] :: uchar list" and ?s = "kcons0 (\<lambda>_. 0)"
  have k: "Ctrl 0x50 \<notin> set ?ks" "echoes ?ks ([], []) = [0x61, 0x62, 8, 0x20, 8, 0x63, 10]" "fold key ?ks ([], []) = ([0x61, 0x63, 10], [])"
    by (simp_all add: Ctrl_def)
  note c = kcons0_ok [of "\<lambda>_. 0"]
  have "idles (uart_lsr ?s) \<ge> length (echoes ?ks (cons_ready ?s, cons_line ?s))" unfolding c k(2) by simp
  from console_edits [OF in_call_quiet [OF c(1)] c(2,5) k(1) this c(8,9)] show ?thesis unfolding c k by auto
qed

text \<open>The same console with a finished line of two bytes.\<close>

theorem consoleread_correct_witness:
  "\<exists>m s'. consoleread 0 (DUser 0x1000) 3 ((kcons0 m)\<lparr>cons_w := 1, cons_e := 1\<rparr>) = Some (Done 2 s')
    \<and> mem s' 0x80001000 = 0x61 \<and> mem s' 0x80001001 = 10 \<and> cons_ready s' = []"
proof -
  obtain m where m: "pt_wf m 0x80000000 {0}" "0x80001 \<notin> tables m 0x80000000"
    "\<And>i. i < 4096 \<Longrightarrow> uaddr m 0x80000000 (0x1000 + of_nat i) = Some (0x80001000 + of_nat i)
      \<and> pgno (0x80001000 + of_nat i) = 0x80001"
    using user_page by blast
  let ?s = "(kcons0 m)\<lparr>cons_w := 1, cons_e := 1\<rparr>" and ?as = "[0x80001000, 0x80001001, 0x80001002] :: addr list"
  have u: "user_space m 0x80000000 0x1000 ?as"
    using m(2) m(3) [of 0] m(3) [of 1] m(3) [of 2] by (auto simp: user_space_def less_Suc_eq)
  have c: "in_call 0 3 ?s" using kcons0_ok(1) [of m] by (subst in_call_cong [of _ "kcons0 m"]) simp_all
  have q: "cons_ready ?s = [0x61, 10]" by (simp add: cons_ready_def ring_list_def kcons0_def kuart.defs INPUT_BUF_SIZE_def upt_conv_Cons)
  then have l: "line_read (length ?as) True (cons_ready ?s) = Some ([0x61, 10], [])" by (simp add: Ctrl_def)
  have wf: "pt_wf (mem ?s) (p_pagetable (procs ?s 3)) {0}" "user_space (mem ?s) (p_pagetable (procs ?s 3)) 0x1000 ?as" using m(1) u by (simp_all add: kcons0_ok)
  from consoleread_correct [OF c wf(1) _ wf(2)] obtain s' where s': "consoleread 0 (DUser 0x1000) (int (length ?as)) ?s = Some (Done (int (length [0x61, 10 :: uchar])) s')"
    "cons_ready s' = []" "wrote ?as [0x61, 10] (mem ?s) (mem s')" unfolding l by auto
  have "mem s' (?as ! 0) = 0x61" "mem s' (?as ! 1) = 10" using s'(3) by (auto simp: wrote_def less_Suc_eq)
  then show ?thesis using s'(1,2) by (intro exI [of _ m] exI [of _ s']) simp
qed

end
