(* ===== verification/Grep.thy ===== *)
theory Grep
  imports Prelude
begin

text \<open>
  \<open>labo2/user/grep.c\<close>: the matcher for regular expressions with \<open>^ . * $\<close> and the loop that reads the input in
  pieces and prints the lines that match. A C string is the list of its characters before the
  terminating NUL.
\<close>

subsection \<open>The matcher\<close>

function (sequential) matchhere :: "string \<Rightarrow> string \<Rightarrow> bool" and matchstar :: "char \<Rightarrow> string \<Rightarrow> string \<Rightarrow> bool" where
  "matchhere re s =
     (if re = [] then True
      else if char_at re 1 = CHR ''*'' then matchstar (char_at re 0) (drop 2 re) s
      else if char_at re 0 = CHR ''$'' \<and> length re = 1 then s = []
      else if s \<noteq> [] \<and> (char_at re 0 = CHR ''.'' \<or> char_at re 0 = char_at s 0) then matchhere (drop 1 re) (drop 1 s)
      else False)"
| "matchstar c re s =
     (if matchhere re s then True
      else if s \<noteq> [] \<and> (char_at s 0 = c \<or> c = CHR ''.'') then matchstar c re (drop 1 s)
      else False)"
  by pat_completeness auto
termination
  by (relation "measures [\<lambda>x. case x of Inl (re, _) \<Rightarrow> length re | Inr (_, re, _) \<Rightarrow> length re,
      \<lambda>x. case x of Inl (_, t) \<Rightarrow> length t | Inr (_, _, t) \<Rightarrow> length t, \<lambda>x. case x of Inl _ \<Rightarrow> 0 | Inr _ \<Rightarrow> 1]")
    (auto simp: char_at_def split: if_splits)

fun match_from :: "string \<Rightarrow> string \<Rightarrow> bool" where
  "match_from re [] = matchhere re []"
| "match_from re (c # s) = (matchhere re (c # s) \<or> match_from re s)"

definition match :: "string \<Rightarrow> string \<Rightarrow> bool" where
  "match re s = (if char_at re 0 = CHR ''^'' then matchhere (drop 1 re) s else match_from re s)"

declare matchhere.simps [simp del] matchstar.simps [simp del]

subsection \<open>The loop over the input\<close>

text \<open>
  The input is what successive calls of \<open>read\<close> would return with an unlimited buffer; a call with room for
  fewer bytes leaves the rest for the next one, and one with no room, or at the end, returns 0.
\<close>

fun sys_read :: "nat \<Rightarrow> string list \<Rightarrow> string \<times> string list" where
  "sys_read k [] = ([], [])"
| "sys_read k (x # xs) = (if length x \<le> k then (x, xs) else (take k x, drop k x # xs))"

text \<open>\<open>strchr(p, '\n')\<close>: the part of the string at \<open>p\<close> before the first newline, if there is one.\<close>

definition line_at :: "string \<Rightarrow> string option" where
  "line_at p = (let s = takeWhile (\<lambda>c. c \<noteq> NULc) p in
     if CHR 0x0A \<in> set s then Some (takeWhile (\<lambda>c. c \<noteq> CHR 0x0A) s) else None)"

lemma line_at_length: "line_at p = Some l \<Longrightarrow> length l < length p"
proof -
  assume "line_at p = Some l"
  then have l: "l = takeWhile (\<lambda>c. c \<noteq> CHR 0x0A) (takeWhile (\<lambda>c. c \<noteq> NULc) p)" "CHR 0x0A \<in> set (takeWhile (\<lambda>c. c \<noteq> NULc) p)"
    by (auto simp: line_at_def Let_def split: if_splits)
  then have "length l < length (takeWhile (\<lambda>c. c \<noteq> NULc) p)"
    unfolding l(1) by (induction p) (auto split: if_splits)
  then show ?thesis using length_takeWhile_le [of _ p] by (meson less_le_trans)
qed

text \<open>The loop over the lines in the buffer; it returns what it writes and the string at the final \<open>p\<close>.\<close>

function grep_lines :: "string \<Rightarrow> string \<Rightarrow> string \<times> string" where
  "grep_lines pattern p =
     (case line_at p of
        None \<Rightarrow> ([], p)
      | Some l \<Rightarrow> (let (out, rest) = grep_lines pattern (drop (length l + 1) p)
                   in ((if match pattern l then l @ [CHR 0x0A] else []) @ out, rest)))"
  by auto
termination
  by (relation "measure (\<lambda>(pattern, p). length p)") (auto dest: line_at_length)

definition BUFSIZE :: nat where "BUFSIZE = 1024"

lemma sys_read_shorter: "sys_read k xs = (d, xs') \<Longrightarrow> d \<noteq> [] \<Longrightarrow> length (concat xs') < length (concat xs)"
  by (cases xs) (auto split: if_splits)

text \<open>The buffer holds \<open>buf\<close>, of \<open>m\<close> bytes.\<close>

function grep :: "string \<Rightarrow> string \<Rightarrow> string list \<Rightarrow> string" where
  "grep pattern buf input =
     (let (d, input') = sys_read (BUFSIZE - length buf - 1) input
      in if d = [] then []
         else let (out, rest) = grep_lines pattern (buf @ d)
              in out @ grep pattern rest input')"
  by auto
termination
proof (relation "measure (\<lambda>(pattern, buf, input). length (concat input))")
  show "((pattern, rest, input'), pattern, buf, input) \<in> measure (\<lambda>(pattern, buf, input). length (concat input))"
    if "r = sys_read (BUFSIZE - length buf - 1) input" "(d, input') = r" "d \<noteq> []" for pattern buf input r d input' l rest
    using that sys_read_shorter [of "BUFSIZE - length buf - 1" input d input'] by simp
qed simp

declare grep_lines.simps [simp del] grep.simps [simp del]

subsection \<open>What a pattern means\<close>

datatype item = One char | Star char | End

fun items :: "string \<Rightarrow> item list" where
  "items [] = []"
| "items [c] = (if c = CHR ''$'' then [End] else [One c])"
| "items (c # d # re) = (if d = CHR ''*'' then Star c # items re else One c # items (d # re))"

definition fits :: "char \<Rightarrow> char \<Rightarrow> bool" where
  "fits c a \<longleftrightarrow> c = CHR ''.'' \<or> c = a"

text \<open>\<open>means ps u v\<close>: the items \<open>ps\<close> match exactly \<open>u\<close> when \<open>v\<close> follows it.\<close>

inductive means :: "item list \<Rightarrow> string \<Rightarrow> string \<Rightarrow> bool" where
  means_Nil: "means [] [] v"
| means_One: "fits c a \<Longrightarrow> means ps u v \<Longrightarrow> means (One c # ps) (a # u) v"
| means_Star: "list_all (fits c) w \<Longrightarrow> means ps u v \<Longrightarrow> means (Star c # ps) (w @ u) v"
| means_End: "means [End] [] []"

inductive_simps means_simps: "means [] u v" "means (One c # ps) u v" "means (Star c # ps) u v" "means [End] u v"

lemma item_at: "char_at (c # re) 0 = c" "char_at [c] (Suc 0) = NULc" "char_at (c # d # re) (Suc 0) = d"
  by (simp_all add: char_at_def)

lemma matchstar_spec:
  assumes "\<And>t. matchhere re t \<longleftrightarrow> (\<exists>u v. t = u @ v \<and> means ps u v)"
  shows "matchstar c re s \<longleftrightarrow> (\<exists>u v. s = u @ v \<and> means (Star c # ps) u v)"
proof (induction s)
  case Nil
  then show ?case by (simp add: matchstar.simps [of c re] assms means_simps)
next
  case (Cons a s)
  have "matchstar c re (a # s) \<longleftrightarrow> (\<exists>u v. a # s = u @ v \<and> means ps u v)
      \<or> fits c a \<and> (\<exists>u v. s = u @ v \<and> means (Star c # ps) u v)"
    by (subst matchstar.simps) (auto simp: assms item_at fits_def Cons.IH)
  also have "\<dots> \<longleftrightarrow> (\<exists>u v. a # s = u @ v \<and> means (Star c # ps) u v)" (is "?l \<longleftrightarrow> ?r")
  proof
    assume ?l
    then show ?r
    proof
      assume "\<exists>u v. a # s = u @ v \<and> means ps u v"
      then show ?r using means_Star [of c "[]"] by fastforce
    next
      assume "fits c a \<and> (\<exists>u v. s = u @ v \<and> means (Star c # ps) u v)"
      then obtain w u v where "fits c a" "s = (w @ u) @ v" "list_all (fits c) w" "means ps u v" by (auto simp: means_simps)
      then show ?r using means_Star [of c "a # w" ps u v] by (intro exI [of _ "a # w @ u"] exI [of _ v]) simp
    qed
  next
    assume ?r
    then obtain w u v where w: "a # s = w @ u @ v" "list_all (fits c) w" "means ps u v" by (auto simp: means_simps)
    then show ?l
    proof (cases w)
      case (Cons b w')
      then have "fits c a" "s = (w' @ u) @ v" "means (Star c # ps) (w' @ u) v"
        using w means_Star [of c w' ps u v] by auto
      then show ?thesis by blast
    next
      case Nil
      then show ?thesis using w by auto
    qed
  qed
  finally show ?case .
qed

lemma means_step: "(\<exists>u v. s = u @ v \<and> means (One c # ps) u v) \<longleftrightarrow> s \<noteq> [] \<and> fits c (hd s) \<and> (\<exists>u v. tl s = u @ v \<and> means ps u v)"
proof
  assume "s \<noteq> [] \<and> fits c (hd s) \<and> (\<exists>u v. tl s = u @ v \<and> means ps u v)"
  then obtain u v where "s = (hd s # u) @ v" "means (One c # ps) (hd s # u) v" using means_One [of c "hd s" ps] by (cases s) auto
  then show "\<exists>u v. s = u @ v \<and> means (One c # ps) u v" by blast
next
  assume "\<exists>u v. s = u @ v \<and> means (One c # ps) u v"
  then obtain a u v where "s = a # u @ v" "fits c a" "means ps u v" by (auto simp: means_simps)
  then show "s \<noteq> [] \<and> fits c (hd s) \<and> (\<exists>u v. tl s = u @ v \<and> means ps u v)" by auto
qed

lemma matchhere_spec: "NULc \<notin> set re \<Longrightarrow> matchhere re s \<longleftrightarrow> (\<exists>u v. s = u @ v \<and> means (items re) u v)"
proof (induction re arbitrary: s rule: items.induct)
  case 1
  then show ?case by (simp add: matchhere.simps [of "[]"] means_simps)
next
  case (2 c)
  have "\<exists>u v. t = u @ v \<and> means [] u v" for t using means_Nil by fastforce
  then show ?case
    using 2 means_step [of s c "[]"] by (cases s) (auto simp: matchhere.simps [of "[c]"] matchhere.simps [of "[]"] item_at means_simps fits_def)
next
  case (3 c d re)
  show ?case
  proof (cases "d = CHR ''*''")
    case True
    have "\<And>t. matchhere re t \<longleftrightarrow> (\<exists>u v. t = u @ v \<and> means (items re) u v)" using 3 True by simp
    from matchstar_spec [OF this] True show ?thesis by (subst matchhere.simps) (simp add: item_at)
  next
    case False
    have "matchhere (d # re) t \<longleftrightarrow> (\<exists>u v. t = u @ v \<and> means (items (d # re)) u v)" for t using 3 False by simp
    then show ?thesis using False means_step [of s c "items (d # re)"]
      by (cases s) (simp_all add: matchhere.simps [of "c # d # re"] item_at fits_def)
  qed
qed

lemma match_from_spec: "match_from re s \<longleftrightarrow> (\<exists>w t. s = w @ t \<and> matchhere re t)"
proof (induction s)
  case (Cons a s)
  have "(\<exists>w t. a # s = w @ t \<and> matchhere re t) \<longleftrightarrow> matchhere re (a # s) \<or> (\<exists>w t. s = w @ t \<and> matchhere re t)"
    by (auto simp: Cons_eq_append_conv)
  then show ?case using Cons by simp
qed simp

subsection \<open>Properties\<close>

text \<open>
  C28. The matcher implements the meaning of the patterns: with a leading \<open>^\<close> some beginning of the text, and
  otherwise some part of the text, matches the items of the pattern one after the other, where \<open>c*\<close>
  stands for any number of \<open>c\<close>, a dot for any character and a final \<open>$\<close> for the end of the s.
\<close>

theorem match_correct:
  assumes "NULc \<notin> set re"
  shows "match re s \<longleftrightarrow>
    (if re \<noteq> [] \<and> hd re = CHR ''^'' then \<exists>u v. s = u @ v \<and> means (items (tl re)) u v
     else \<exists>w u v. s = w @ u @ v \<and> means (items re) u v)"
proof (cases "re \<noteq> [] \<and> hd re = CHR ''^''")
  case True
  then have "char_at re 0 = CHR ''^''" "drop 1 re = tl re" "NULc \<notin> set (tl re)" using assms by (cases re; simp add: char_at_def)+
  then show ?thesis using True matchhere_spec [of "tl re" s] by (simp add: match_def)
next
  case False
  then have "char_at re 0 \<noteq> CHR ''^''" by (cases re) (auto simp: char_at_def)
  then show ?thesis unfolding if_not_P [OF False] using match_from_spec [of re s] matchhere_spec [OF assms] by (auto simp: match_def)
qed

theorem match_correct_witness: "match ''^ab*c$'' ''abbbc''"
proof -
  have "means [End] [] []" by (rule means_End)
  then have "means [One CHR ''c'', End] ''c'' []" by (rule means_One [rotated]) (simp add: fits_def)
  then have "means [Star CHR ''b'', One CHR ''c'', End] (''bbb'' @ ''c'') []" by (rule means_Star [rotated]) (simp add: fits_def)
  then have "means [One CHR ''a'', Star CHR ''b'', One CHR ''c'', End] ''abbbc'' []" by (auto intro!: means_One simp: fits_def)
  then show ?thesis using match_correct [of "''^ab*c$''" "''abbbc''"] by (simp; blast)
qed

text \<open>The lines of a text: those that end in a newline, and what follows the last newline.\<close>

fun text_lines :: "string \<Rightarrow> string list \<times> string" where
  "text_lines [] = ([], [])"
| "text_lines (c # t) = (let (ls, r) = text_lines t in
     if c = CHR 0x0A then ([] # ls, r) else case ls of [] \<Rightarrow> ([], c # r) | l # ls \<Rightarrow> ((c # l) # ls, r))"

definition matching :: "string \<Rightarrow> string list \<Rightarrow> string" where
  "matching pattern ls = concat (map (\<lambda>l. if match pattern l then l @ [CHR 0x0A] else []) ls)"

lemma text_lines_append: "CHR 0x0A \<notin> set l \<Longrightarrow> text_lines (l @ CHR 0x0A # t) = (l # fst (text_lines t), snd (text_lines t))"
  by (induction l) (auto simp: Let_def split: prod.splits)

lemma text_lines_none: "CHR 0x0A \<notin> set t \<Longrightarrow> text_lines t = ([], t)"
  by (induction t) (auto simp: Let_def)

lemma text_lines_join: "text_lines (a @ b) = (fst (text_lines a) @ fst (text_lines (snd (text_lines a) @ b)), snd (text_lines (snd (text_lines a) @ b)))"
proof (induction a rule: length_induct)
  case (1 a)
  show ?case
  proof (cases "CHR 0x0A \<in> set a")
    case True
    then obtain l t where a: "a = l @ CHR 0x0A # t" "CHR 0x0A \<notin> set l" using split_list_first by metis
    with 1 have "text_lines (t @ b) = (fst (text_lines t) @ fst (text_lines (snd (text_lines t) @ b)), snd (text_lines (snd (text_lines t) @ b)))" by simp
    then show ?thesis using text_lines_append [OF a(2), of t] text_lines_append [OF a(2), of "t @ b"] by (simp add: a(1))
  next
    case False
    then show ?thesis by (simp add: text_lines_none)
  qed
qed

lemma grep_lines_spec: "NULc \<notin> set p \<Longrightarrow> grep_lines pattern p = (matching pattern (fst (text_lines p)), snd (text_lines p))"
proof (induction pattern p rule: grep_lines.induct)
  case (1 pattern p)
  have tk: "takeWhile (\<lambda>c. c \<noteq> NULc) p = p" using 1(2) by (auto simp: takeWhile_eq_all_conv)
  show ?case
  proof (cases "CHR 0x0A \<in> set p")
    case True
    then obtain l t where p: "p = l @ CHR 0x0A # t" "CHR 0x0A \<notin> set l" using split_list_first by metis
    have "takeWhile (\<lambda>c. c \<noteq> CHR 0x0A) p = l" unfolding p(1) using p(2) by (subst takeWhile_append2) auto
    then have l: "line_at p = Some l" using True by (simp add: line_at_def tk Let_def)
    have "grep_lines pattern t = (matching pattern (fst (text_lines t)), snd (text_lines t))"
      using 1(1) [OF l] 1(2) by (simp add: p(1))
    then show ?thesis using l text_lines_append [OF p(2), of t] by (subst grep_lines.simps) (simp add: p(1) matching_def)
  next
    case False
    then show ?thesis by (subst grep_lines.simps) (simp add: line_at_def tk Let_def text_lines_none matching_def)
  qed
qed

lemma sys_read_spec: "list_all (\<lambda>x. x \<noteq> []) xs \<Longrightarrow> 0 < k \<Longrightarrow> sys_read k xs = (d, xs') \<Longrightarrow>
    concat xs = d @ concat xs' \<and> list_all (\<lambda>x. x \<noteq> []) xs' \<and> (d = [] \<longrightarrow> xs = []) \<and> length d \<le> k"
  by (cases xs) (auto split: if_splits)

lemma last_line_short: "length (snd (text_lines t)) \<le> length t"
  by (induction t) (auto simp: Let_def split: prod.splits list.splits)

lemma rest_bound:
  assumes "CHR 0x0A \<notin> set r" and "\<forall>l\<in>set (fst (text_lines (r @ x))). length l < n" and "length (snd (text_lines (r @ x))) < n"
  shows "length r < n"
proof (cases "CHR 0x0A \<in> set x")
  case True
  then obtain l t where x: "x = l @ CHR 0x0A # t" "CHR 0x0A \<notin> set l" using split_list_first by metis
  then have "r @ l \<in> set (fst (text_lines (r @ x)))" using text_lines_append [of "r @ l" t] assms(1) by simp
  then show ?thesis using assms(2) by fastforce
next
  case False
  then show ?thesis using assms by (simp add: text_lines_none)
qed

lemma text_lines_rest: "CHR 0x0A \<notin> set (snd (text_lines t))" and text_lines_set: "set (snd (text_lines t)) \<subseteq> set t"
  by (induction t) (auto simp: Let_def split: prod.splits list.splits)

lemma grep_spec:
  assumes "CHR 0x0A \<notin> set buf" and "list_all (\<lambda>x. x \<noteq> []) input" and "NULc \<notin> set (buf @ concat input)"
    and "\<forall>l\<in>set (fst (text_lines (buf @ concat input))). length l < 1023" and "length (snd (text_lines (buf @ concat input))) < 1023"
  shows "grep pattern buf input = matching pattern (fst (text_lines (buf @ concat input)))"
  using assms
proof (induction pattern buf input rule: grep.induct)
  case (1 pattern buf input)
  obtain d input' where r: "sys_read (BUFSIZE - length buf - 1) input = (d, input')" by fastforce
  have "length buf < 1023" by (rule rest_bound [OF 1(2,5,6)])
  then have sr: "concat input = d @ concat input'" "list_all (\<lambda>x. x \<noteq> []) input'" "d = [] \<longrightarrow> input = []"
    using sys_read_spec [OF 1(3) _ r] by (simp_all add: BUFSIZE_def)
  show ?case
  proof (cases "d = []")
    case True
    then show ?thesis using sr r 1(2) by (subst grep.simps) (simp add: text_lines_none matching_def)
  next
    case False
    let ?rest = "snd (text_lines (buf @ d))"
    have gl: "grep_lines pattern (buf @ d) = (matching pattern (fst (text_lines (buf @ d))), ?rest)"
      using 1(4) sr(1) by (intro grep_lines_spec) auto
    note j = text_lines_join [of "buf @ d" "concat input'"]
    have "grep pattern ?rest input' = matching pattern (fst (text_lines (?rest @ concat input')))"
      by (rule 1(1) [OF r [symmetric] refl False gl [symmetric] refl])
        (use 1(4-6) sr j text_lines_rest [of "buf @ d"] text_lines_set [of "buf @ d"] in auto)
    then show ?thesis using r False gl j sr(1) by (subst grep.simps) (simp add: matching_def)
  qed
qed

text \<open>
  C29. \<open>grep\<close> prints exactly the lines of its input that match the pattern, in order and complete, however
  \<open>read\<close> cuts the input into pieces, provided that the input has no NUL and that every line, and the
  rest after the last newline, has fewer than 1023 characters. What follows the last newline is never
  printed.
\<close>

theorem grep_correct:
  assumes "list_all (\<lambda>x. x \<noteq> []) input" and "NULc \<notin> set (concat input)"
    and "\<forall>l\<in>set (fst (text_lines (concat input))). length l < 1023" and "length (snd (text_lines (concat input))) < 1023"
  shows "grep pattern [] input = matching pattern (fst (text_lines (concat input)))"
  using grep_spec [of "[]" input pattern] assms by simp

theorem grep_correct_witness:
  "grep ''^b'' [] [''ab'' @ [CHR 0x0A] @ ''bc'', [CHR 0x0A] @ ''cb'' @ [CHR 0x0A] @ ''b''] = ''bc'' @ [CHR 0x0A]"
proof -
  let ?input = "[''ab'' @ [CHR 0x0A] @ ''bc'', [CHR 0x0A] @ ''cb'' @ [CHR 0x0A] @ ''b'']"
  have "text_lines (concat ?input) = ([''ab'', ''bc'', ''cb''], ''b'')" by simp
  moreover have "matching ''^b'' [''ab'', ''bc'', ''cb''] = ''bc'' @ [CHR 0x0A]" by code_simp
  ultimately show ?thesis using grep_correct [of ?input "''^b''"] by simp
qed

end
