(* ===== verification/Sh.thy ===== *)
theory Sh
  imports Prelude
begin

text \<open>
  \<open>labo2/user/sh.c\<close>: the shell of xv6. The parser works on a line of text and describes words by the positions of
  their first character and of the character behind them, as the code does with pointers into the line;
  \<open>nulterminate\<close> then turns them into C strings inside the line. \<open>malloc\<close> is taken to succeed.
\<close>

subsection \<open>Parsed commands\<close>

definition MAXARGS :: nat where "MAXARGS = 10"

text \<open>
  The five structures of the code as one type; a word is a pair of positions (\<open>argv[i]\<close> and \<open>eargv[i]\<close>, \<open>file\<close> and
  \<open>efile\<close>). The type of words is a parameter, so that \<open>map_cmd\<close> can replace positions by texts.
\<close>

datatype 'w cmd =
    EXEC "'w list"
  | REDIR "'w cmd" 'w cint nat
  | PIPE "'w cmd" "'w cmd"
  | LIST "'w cmd" "'w cmd"
  | BACK "'w cmd"

type_synonym range = "nat \<times> nat"

definition redircmd :: "'w cmd \<Rightarrow> 'w \<Rightarrow> cint \<Rightarrow> nat \<Rightarrow> 'w cmd" where "redircmd subcmd f mode fd = REDIR subcmd f mode fd"
definition pipecmd :: "'w cmd \<Rightarrow> 'w cmd \<Rightarrow> 'w cmd" where "pipecmd left right = PIPE left right"
definition listcmd :: "'w cmd \<Rightarrow> 'w cmd \<Rightarrow> 'w cmd" where "listcmd left right = LIST left right"
definition backcmd :: "'w cmd \<Rightarrow> 'w cmd" where "backcmd subcmd = BACK subcmd"

definition O_RDONLY :: cint where "O_RDONLY = 0"
definition O_WRONLY :: cint where "O_WRONLY = 1"
definition O_RDWR :: cint where "O_RDWR = 2"
definition O_CREATE :: cint where "O_CREATE = 0x200"
definition O_TRUNC :: cint where "O_TRUNC = 0x400"

text \<open>A panic prints a message and ends the process; \<open>Fuel\<close> is not a behaviour of the code.\<close>

datatype 'a pres = Ok 'a | Panic string | Fuel

fun pbind :: "'a pres \<Rightarrow> ('a \<Rightarrow> 'b pres) \<Rightarrow> 'b pres" where
  "pbind (Ok a) f = f a"
| "pbind (Panic m) f = Panic m"
| "pbind Fuel f = Fuel"

lemma pbind_cong [fundef_cong]: "m = m' \<Longrightarrow> (\<And>a. m' = Ok a \<Longrightarrow> f a = g a) \<Longrightarrow> pbind m f = pbind m' g"
  by (cases m') auto

subsection \<open>Tokens\<close>

definition whitespace :: string where "whitespace = [CHR 0x20, CHR 0x09, CHR 0x0D, CHR 0x0A, CHR 0x0B]"
definition symbols :: string where "symbols = ''<|>&;()''"

text \<open>\<open>while(s < es && strchr(whitespace, *s)) s++\<close>, and the same for the characters of a word.\<close>

definition skip_white :: "string \<Rightarrow> nat \<Rightarrow> nat" where
  "skip_white buf s = s + length (takeWhile (\<lambda>c. c \<in> set whitespace) (drop s buf))"

definition skip_word :: "string \<Rightarrow> nat \<Rightarrow> nat" where
  "skip_word buf s = s + length (takeWhile (\<lambda>c. c \<notin> set whitespace \<and> c \<notin> set symbols) (drop s buf))"

text \<open>The switch of \<open>gettoken\<close>: the token at \<open>s\<close> and the position behind it.\<close>

definition token_at :: "string \<Rightarrow> nat \<Rightarrow> char \<times> nat" where
  "token_at buf s =
     (let c = char_at buf s in
      if c = NULc then (c, s)
      else if c \<in> set ''|();&<'' then (c, s + 1)
      else if c = CHR ''>'' then
        (if char_at buf (s + 1) = CHR ''>'' then (CHR ''+'', s + 2) else (c, s + 1))
      else (CHR ''a'', skip_word buf s))"

text \<open>The token, \<open>*q\<close>, \<open>*eq\<close>, and the new \<open>*ps\<close>.\<close>

definition gettoken :: "string \<Rightarrow> nat \<Rightarrow> char \<times> nat \<times> nat \<times> nat" where
  "gettoken buf s =
     (let q = skip_white buf s;
          (ret, eq) = token_at buf q
      in (ret, q, eq, skip_white buf eq))"

definition peek :: "string \<Rightarrow> nat \<Rightarrow> string \<Rightarrow> bool \<times> nat" where
  "peek buf s toks = (let s = skip_white buf s in (char_at buf s \<noteq> NULc \<and> char_at buf s \<in> set toks, s))"

text \<open>\<open>gettoken(ps, es, 0, 0)\<close>: the position behind the token.\<close>

definition pass :: "string \<Rightarrow> nat \<Rightarrow> nat" where
  "pass buf s = snd (snd (snd (gettoken buf s)))"

lemma skip_ge: "s \<le> skip_white buf s" "s \<le> skip_word buf s"
  by (simp_all add: skip_white_def skip_word_def)

lemma skip_le: "s \<le> length buf \<Longrightarrow> skip_white buf s \<le> length buf" "s \<le> length buf \<Longrightarrow> skip_word buf s \<le> length buf"
  using length_takeWhile_le [of "\<lambda>c. c \<in> set whitespace" "drop s buf"] length_takeWhile_le [of "\<lambda>c. c \<notin> set whitespace \<and> c \<notin> set symbols" "drop s buf"]
  by (auto simp: skip_white_def skip_word_def)

lemma char_at_in: "char_at buf s \<noteq> NULc \<Longrightarrow> s < length buf"
  by (auto simp: char_at_def split: if_splits)

lemma token_at_bounds:
  assumes "token_at buf s = (tok, e)" and "s \<le> length buf"
  shows "s \<le> e" "e \<le> length buf"
  using assms skip_ge(2) [of s buf] skip_le(2) [of s buf] char_at_in [of buf s] char_at_in [of buf "s + 1"]
  by (auto simp: token_at_def Let_def split: if_splits)

lemma gettoken_bounds:
  assumes "gettoken buf s = (tok, q, eq, s')" and "s \<le> length buf"
  shows "s \<le> q" "q \<le> eq" "eq \<le> s'" "q = skip_white buf s" "s' \<le> length buf"
proof -
  have g: "q = skip_white buf s" "token_at buf q = (tok, eq)" "s' = skip_white buf eq"
    using assms(1) by (auto simp: gettoken_def Let_def split: prod.splits)
  note b = token_at_bounds [OF g(2)] skip_le(1) [OF assms(2)]
  show "s \<le> q" "q \<le> eq" "eq \<le> s'" "q = skip_white buf s" "s' \<le> length buf"
    using b g(1,3) skip_ge(1) [of s buf] skip_ge(1) [of eq buf] skip_le(1) [of eq buf] by simp_all
qed

lemma takeWhile_dropWhile_Nil: "takeWhile P (dropWhile P xs) = []"
  by (induction xs) auto

lemma skip_white_idem [simp]: "skip_white buf (skip_white buf s) = skip_white buf s"
proof -
  have "drop (skip_white buf s) buf = dropWhile (\<lambda>c. c \<in> set whitespace) (drop s buf)"
    by (simp add: skip_white_def dropWhile_eq_drop add.commute)
  then have "takeWhile (\<lambda>c. c \<in> set whitespace) (drop (skip_white buf s) buf) = []"
    by (simp only: takeWhile_dropWhile_Nil)
  then show ?thesis by (simp add: skip_white_def [of _ "skip_white buf s"])
qed

lemma not_white: "skip_white buf s = s \<Longrightarrow> s < length buf \<Longrightarrow> char_at buf s \<notin> set whitespace"
  by (auto simp: skip_white_def char_at_def takeWhile_eq_Nil_iff hd_drop_conv_nth)

lemma token_at_advance:
  assumes "char_at buf s \<noteq> NULc" and "char_at buf s \<notin> set whitespace"
  shows "s < snd (token_at buf s)"
proof -
  have "s < length buf" using char_at_in [OF assms(1)] .
  then have "s < skip_word buf s" if "char_at buf s \<notin> set symbols"
    using that assms(2) by (simp add: skip_word_def char_at_def Cons_nth_drop_Suc [symmetric])
  then show ?thesis using assms(1) by (auto simp: token_at_def Let_def symbols_def)
qed

lemma peek_pass:
  assumes "peek buf s toks = (True, s1)"
  shows "s \<le> s1" "s1 < pass buf s1" "s1 < length buf" "pass buf s1 \<le> length buf"
proof -
  obtain tok q eq s' where g: "gettoken buf s1 = (tok, q, eq, s')" by (cases "gettoken buf s1") auto
  have s1: "s1 = skip_white buf s" "char_at buf s1 \<noteq> NULc" using assms by (auto simp: peek_def Let_def)
  then have l: "s1 < length buf" "skip_white buf s1 = s1" using char_at_in by auto
  note b = gettoken_bounds [OF g less_imp_le [OF l(1)]]
  have "eq = snd (token_at buf s1)" using g l(2) by (auto simp: gettoken_def Let_def split: prod.splits)
  then have "s1 < eq" using token_at_advance [OF s1(2) not_white [OF l(2,1)]] by simp
  then show "s \<le> s1" "s1 < pass buf s1" "s1 < length buf" "pass buf s1 \<le> length buf"
    using b l(1) g s1(1) skip_ge(1) [of s buf] by (simp_all add: pass_def)
qed


subsection \<open>The parser\<close>

text \<open>
  The loop of \<open>parseredirs\<close> collects the redirections in order: \<open>parseexec\<close> wraps them around a command that it is still
  filling through another pointer, so they are put around it (\<open>add_redirs\<close>) once it is complete.
\<close>

type_synonym 'w redir = "'w \<times> cint \<times> nat"

definition redir_of :: "char \<Rightarrow> nat \<Rightarrow> nat \<Rightarrow> range redir list" where
  "redir_of tok q eq =
     (if tok = CHR ''<'' then [((q, eq), O_RDONLY, 0)]
      else if tok = CHR ''>'' then [((q, eq), O_WRONLY OR O_CREATE OR O_TRUNC, 1)]
      else if tok = CHR ''+'' then [((q, eq), O_WRONLY OR O_CREATE, 1)]
      else [])"

definition add_redirs :: "'w cmd \<Rightarrow> 'w redir list \<Rightarrow> 'w cmd" where
  "add_redirs cmd rs = fold (\<lambda>(f, mode, fd) c. redircmd c f mode fd) rs cmd"

lemma peek_advance:
  assumes "(True, s1) = peek buf s toks"
  shows "s < pass buf s1" "s < length buf"
  using peek_pass [OF assms [symmetric]] by simp_all

lemma redirs_advance:
  assumes p: "(True, s1) = peek buf s toks" and g1: "(tok, q1, e1, s2) = gettoken buf s1" and g2: "(tok2, q, eq, s3) = gettoken buf s2"
  shows "length buf - s3 < length buf - s"
proof -
  have "s2 = pass buf s1" using g1 [symmetric] by (simp add: pass_def)
  then have "s < s2" "s2 \<le> length buf" "s < length buf" using peek_pass [OF p [symmetric]] by simp_all
  moreover have "s2 \<le> s3" using gettoken_bounds(1-3) [OF g2 [symmetric]] calculation(2) by simp
  ultimately show ?thesis by simp
qed

function parseredirs :: "string \<Rightarrow> nat \<Rightarrow> range redir list \<Rightarrow> (range redir list \<times> nat) pres" where
  "parseredirs buf s rs =
     (case peek buf s ''<>'' of (more, s) \<Rightarrow>
      if \<not> more then Ok (rs, s)
      else case gettoken buf s of (tok, _, _, s) \<Rightarrow>
        case gettoken buf s of (tok2, q, eq, s) \<Rightarrow>
          if tok2 \<noteq> CHR ''a'' then Panic ''missing file for redirection''
          else parseredirs buf s (rs @ redir_of tok q eq))"
  by auto
termination
  by (relation "measure (\<lambda>(buf, s, rs). length buf - s)") (auto simp: redirs_advance)

text \<open>The loop over the arguments in \<open>parseexec\<close>.\<close>

function exec_args :: "string \<Rightarrow> nat \<Rightarrow> range list \<Rightarrow> range redir list \<Rightarrow> (range list \<times> range redir list \<times> nat) pres" where
  "exec_args buf s argv rs =
     (case peek buf s ''|)&;'' of (stop, s) \<Rightarrow>
      if stop then Ok (argv, rs, s)
      else case gettoken buf s of (tok, q, eq, s) \<Rightarrow>
        if tok = NULc then Ok (argv, rs, s)
        else if tok \<noteq> CHR ''a'' then Panic ''syntax''
        else if length argv + 1 \<ge> MAXARGS then Panic ''too many args''
        else pbind (parseredirs buf s rs) (\<lambda>(rs, s). exec_args buf s (argv @ [(q, eq)]) rs))"
  by auto
termination
  by (relation "measure (\<lambda>(buf, s, argv, rs). MAXARGS - length argv)") auto

text \<open>The loop over \<open>&\<close> in \<open>parseline\<close>.\<close>

function parse_backs :: "string \<Rightarrow> nat \<Rightarrow> range cmd \<Rightarrow> range cmd \<times> nat" where
  "parse_backs buf s cmd =
     (case peek buf s ''&'' of (more, s) \<Rightarrow>
      if more then parse_backs buf (pass buf s) (backcmd cmd) else (cmd, s))"
  by auto
termination
  by (relation "measure (\<lambda>(buf, s, cmd). length buf - s)") (auto simp: diff_less_mono2 peek_advance)

declare parseredirs.simps [simp del] exec_args.simps [simp del] parse_backs.simps [simp del]

text \<open>
  The four functions that call each other. Every call uses up one unit of fuel; a call chain that comes back
  to the same function has consumed a character, so four times the length of the line is enough.
\<close>

fun parseline :: "nat \<Rightarrow> string \<Rightarrow> nat \<Rightarrow> (range cmd \<times> nat) pres"
  and parsepipe :: "nat \<Rightarrow> string \<Rightarrow> nat \<Rightarrow> (range cmd \<times> nat) pres"
  and parseblock :: "nat \<Rightarrow> string \<Rightarrow> nat \<Rightarrow> (range cmd \<times> nat) pres"
  and parseexec :: "nat \<Rightarrow> string \<Rightarrow> nat \<Rightarrow> (range cmd \<times> nat) pres" where
  "parseline 0 buf s = Fuel"
| "parseline (Suc n) buf s =
     pbind (parsepipe n buf s) (\<lambda>(cmd, s).
       case parse_backs buf s cmd of (cmd, s) \<Rightarrow>
       case peek buf s '';'' of (more, s) \<Rightarrow>
         if more then pbind (parseline n buf (pass buf s)) (\<lambda>(right, s). Ok (listcmd cmd right, s))
         else Ok (cmd, s))"
| "parsepipe 0 buf s = Fuel"
| "parsepipe (Suc n) buf s =
     pbind (parseexec n buf s) (\<lambda>(cmd, s).
       case peek buf s ''|'' of (more, s) \<Rightarrow>
         if more then pbind (parsepipe n buf (pass buf s)) (\<lambda>(right, s). Ok (pipecmd cmd right, s))
         else Ok (cmd, s))"
| "parseblock 0 buf s = Fuel"
| "parseblock (Suc n) buf s =
     (case peek buf s ''('' of (open, s) \<Rightarrow>
      if \<not> open then Panic ''parseblock''
      else pbind (parseline n buf (pass buf s)) (\<lambda>(cmd, s).
        case peek buf s '')'' of (closed, s) \<Rightarrow>
          if \<not> closed then Panic ''syntax - missing )''
          else pbind (parseredirs buf (pass buf s) []) (\<lambda>(rs, s). Ok (add_redirs cmd rs, s))))"
| "parseexec 0 buf s = Fuel"
| "parseexec (Suc n) buf s =
     (case peek buf s ''('' of (open, s) \<Rightarrow>
      if open then parseblock n buf s
      else pbind (parseredirs buf s []) (\<lambda>(rs, s).
        pbind (exec_args buf s [] rs) (\<lambda>(argv, rs, s). Ok (add_redirs (EXEC argv) rs, s))))"

text \<open>\<open>nulterminate\<close> overwrites the character behind every word; the line is given with its final NUL.\<close>

primrec nulterminate :: "range cmd \<Rightarrow> string \<Rightarrow> string" where
  "nulterminate (EXEC argv) m = fold (\<lambda>f m. m[snd f := NULc]) argv m"
| "nulterminate (REDIR c f mode fd) m = (nulterminate c m)[snd f := NULc]"
| "nulterminate (PIPE l r) m = nulterminate r (nulterminate l m)"
| "nulterminate (LIST l r) m = nulterminate r (nulterminate l m)"
| "nulterminate (BACK c) m = nulterminate c m"

definition parsecmd :: "string \<Rightarrow> (range cmd \<times> string) pres" where
  "parsecmd buf =
     pbind (parseline (4 * length buf + 4) buf 0) (\<lambda>(cmd, s).
       case peek buf s '''' of (_, s) \<Rightarrow>
         if s \<noteq> length buf then Panic (''leftovers: '' @ drop s buf @ [CHR 0x0A] @ ''syntax'')
         else Ok (cmd, nulterminate cmd (buf @ [NULc])))"


subsection \<open>Running a command\<close>

text \<open>
  A process as the shell sees it: its descriptors. The calls that may fail ask an oracle \<open>F\<close>, which is given the
  number of the call; \<open>world\<close> holds that number and the number of pipes made so far.
\<close>

datatype fdesc = Console | File string cint | PipeR nat | PipeW nat

type_synonym fdtab = "nat \<Rightarrow> fdesc option"

definition NOFILE :: nat where "NOFILE = 16"

record world =
  calls :: nat
  npipe :: nat

datatype uend = UExec "string list" fdtab | UExit int fdtab "string list"

definition uask :: "(nat \<Rightarrow> bool) \<Rightarrow> world \<Rightarrow> bool \<times> world" where
  "uask F w = (F (calls w), w\<lparr>calls := calls w + 1\<rparr>)"

definition lowest :: "fdtab \<Rightarrow> nat option" where
  "lowest T = List.find (\<lambda>i. T i = None) [0..<NOFILE]"

definition u_close :: "nat \<Rightarrow> fdtab \<Rightarrow> fdtab" where
  "u_close fd T = T(fd := None)"

definition u_open :: "(nat \<Rightarrow> bool) \<Rightarrow> string \<Rightarrow> cint \<Rightarrow> fdtab \<Rightarrow> world \<Rightarrow> nat option \<times> fdtab \<times> world" where
  "u_open F f mode T w = (case uask F w of (bad, w) \<Rightarrow>
     if bad then (None, T, w) else
     case lowest T of None \<Rightarrow> (None, T, w) | Some i \<Rightarrow> (Some i, T(i \<mapsto> File f mode), w))"

definition u_dup :: "nat \<Rightarrow> fdtab \<Rightarrow> fdtab" where
  "u_dup fd T = (case T fd of None \<Rightarrow> T | Some d \<Rightarrow> (case lowest T of None \<Rightarrow> T | Some i \<Rightarrow> T(i \<mapsto> d)))"

definition u_pipe :: "(nat \<Rightarrow> bool) \<Rightarrow> fdtab \<Rightarrow> world \<Rightarrow> (nat \<times> nat) option \<times> fdtab \<times> world" where
  "u_pipe F T w = (case uask F w of (bad, w) \<Rightarrow>
     if bad then (None, T, w) else
     case lowest T of None \<Rightarrow> (None, T, w) | Some r \<Rightarrow>
       case lowest (T(r \<mapsto> PipeR (npipe w))) of None \<Rightarrow> (None, T, w) | Some v \<Rightarrow>
         (Some (r, v), T(r \<mapsto> PipeR (npipe w), v \<mapsto> PipeW (npipe w)), w\<lparr>npipe := npipe w + 1\<rparr>))"

text \<open>The C string at position \<open>q\<close> of the line.\<close>

definition cstr_at :: "string \<Rightarrow> nat \<Rightarrow> string" where
  "cstr_at m q = takeWhile (\<lambda>c. c \<noteq> NULc) (drop q m)"

text \<open>
  \<open>runcmd\<close>: how the process and all its descendants end, children first. A failed \<open>fork\<close> is the panic of \<open>fork1\<close>;
  \<open>m\<close> is the line after \<open>nulterminate\<close>.
\<close>

primrec runcmd :: "(nat \<Rightarrow> bool) \<Rightarrow> string \<Rightarrow> range cmd \<Rightarrow> fdtab \<Rightarrow> world \<Rightarrow> uend list \<times> world" where
  "runcmd F m (EXEC argv) T w =
     (if argv = [] then ([UExit 1 T []], w)
      else let args = map (\<lambda>f. cstr_at m (fst f)) argv in
        case uask F w of (bad, w) \<Rightarrow>
          if bad then ([UExit 0 T [''exec '' @ hd args @ '' failed'']], w) else ([UExec args T], w))"
| "runcmd F m (REDIR c f mode fd) T w =
     (case u_open F (cstr_at m (fst f)) mode (u_close fd T) w of (r, T, w) \<Rightarrow>
        if r = None then ([UExit 1 T [''open '' @ cstr_at m (fst f) @ '' failed'']], w)
        else runcmd F m c T w)"
| "runcmd F m (LIST l r) T w =
     (case uask F w of (bad, w) \<Rightarrow>
        if bad then ([UExit 1 T [''fork'']], w)
        else case runcmd F m l T w of (e1, w) \<Rightarrow>
          case runcmd F m r T w of (e2, w) \<Rightarrow> (e1 @ e2, w))"
| "runcmd F m (PIPE l r) T w =
     (case u_pipe F T w of (p, T, w) \<Rightarrow>
        case p of None \<Rightarrow> ([UExit 1 T [''pipe'']], w)
        | Some (p0, p1) \<Rightarrow>
          case uask F w of (bad, w) \<Rightarrow>
          if bad then ([UExit 1 T [''fork'']], w)
          else case runcmd F m l (u_close p1 (u_close p0 (u_dup p1 (u_close 1 T)))) w of (e1, w) \<Rightarrow>
            case uask F w of (bad, w) \<Rightarrow>
            if bad then (e1 @ [UExit 1 T [''fork'']], w)
            else case runcmd F m r (u_close p1 (u_close p0 (u_dup p0 (u_close 0 T)))) w of (e2, w) \<Rightarrow>
              (e1 @ e2 @ [UExit 0 (u_close p1 (u_close p0 T)) []], w))"
| "runcmd F m (BACK c) T w =
     (case uask F w of (bad, w) \<Rightarrow>
        if bad then ([UExit 1 T [''fork'']], w)
        else case runcmd F m c T w of (e1, w) \<Rightarrow> (e1 @ [UExit 0 T []], w))"

subsection \<open>The main loop\<close>

text \<open>\<open>gets(buf, max)\<close> on the characters that are still to come, and \<open>getcmd\<close>: the line, and the rest of the input.\<close>

fun gets_line :: "nat \<Rightarrow> string \<Rightarrow> string \<times> string" where
  "gets_line 0 inp = ([], inp)"
| "gets_line (Suc n) [] = ([], [])"
| "gets_line (Suc n) (c # cs) =
     (if c = CHR 0x0A \<or> c = CHR 0x0D then ([c], cs)
      else case gets_line n cs of (l, rest) \<Rightarrow> (c # l, rest))"

definition getcmd :: "nat \<Rightarrow> string \<Rightarrow> (string \<times> string) option" where
  "getcmd nbuf inp = (case gets_line (nbuf - 1) inp of (l, rest) \<Rightarrow>
     if char_at l 0 = NULc then None else Some (takeWhile (\<lambda>c. c \<noteq> NULc) l, rest))"

text \<open>
  What the shell does with its input: \<open>chdir\<close> by itself, every other line in a child. The buffer has 100 characters.
\<close>

datatype action = Chdir string | Child "(range cmd \<times> string) pres"

lemma gets_line_shorter: "gets_line n inp = (l, rest) \<Longrightarrow> length l + length rest = length inp"
  by (induction n inp arbitrary: l rest rule: gets_line.induct) (auto split: if_splits prod.splits)

lemma getcmd_shorter: "getcmd n inp = Some (l, rest) \<Longrightarrow> length rest < length inp"
proof -
  assume a: "getcmd n inp = Some (l, rest)"
  obtain l' rest' where g: "gets_line (n - 1) inp = (l', rest')" by (cases "gets_line (n - 1) inp")
  then have "0 < length l'" "length rest' = length rest" using a by (auto simp: getcmd_def char_at_def split: if_splits)
  then show ?thesis using gets_line_shorter [OF g] by linarith
qed

function sh_main :: "string \<Rightarrow> action list" where
  "sh_main inp =
     (case getcmd 100 inp of None \<Rightarrow> []
      | Some (buf, rest) \<Rightarrow>
          (if char_at buf 0 = CHR ''c'' \<and> char_at buf 1 = CHR ''d'' \<and> char_at buf 2 = CHR '' ''
           then Chdir (drop 3 (butlast buf)) else Child (parsecmd buf)) # sh_main rest)"
  by auto
termination
  by (relation "measure length") (auto dest: getcmd_shorter)

declare sh_main.simps [simp del]

end
