(* ===== verification/Shparse.thy ===== *)
theory Shparse
  imports Sh
begin

text \<open>
  Correctness of the parser of \<open>labo2/user/sh.c\<close>: it ends on every line, every word becomes a C string with exactly its
  text, and a line that is written according to the shell's grammar is read as the tree it stands for.
\<close>

subsection \<open>The parser ends, and its words are words of the line\<close>

text \<open>A maximal piece of the line, to its right, that consists of characters of words.\<close>

definition wchar :: "char \<Rightarrow> bool" where
  "wchar c \<longleftrightarrow> c \<notin> set whitespace \<and> c \<notin> set symbols"

definition word_range :: "string \<Rightarrow> range \<Rightarrow> bool" where
  "word_range buf f \<longleftrightarrow> fst f < snd f \<and> snd f \<le> length buf \<and> (\<forall>i. fst f \<le> i \<longrightarrow> i < snd f \<longrightarrow> wchar (buf ! i))
     \<and> (snd f < length buf \<longrightarrow> \<not> wchar (buf ! snd f))"

definition words_in :: "string \<Rightarrow> range cmd \<Rightarrow> bool" where
  "words_in buf c \<longleftrightarrow> (\<forall>f\<in>set_cmd c. word_range buf f)"

lemma skip_word_range:
  assumes "s < length buf" and "wchar (buf ! s)"
  shows "word_range buf (s, skip_word buf s)"
proof -
  let ?w = "takeWhile wchar (drop s buf)"
  have e: "skip_word buf s = s + length ?w" by (simp add: skip_word_def wchar_def [abs_def])
  have "s < skip_word buf s" using assms by (simp add: e Cons_nth_drop_Suc [symmetric])
  moreover have "wchar (buf ! i)" if "s \<le> i" "i < s + length ?w" for i
  proof -
    have j: "i - s < length ?w" using that by simp
    have "drop s buf ! (i - s) = ?w ! (i - s)" using takeWhile_nth [OF j] by simp
    moreover have "wchar (?w ! (i - s))" using nth_mem [OF j] set_takeWhileD by metis
    ultimately show ?thesis using that j length_takeWhile_le [of wchar "drop s buf"] by simp
  qed
  moreover have "\<not> wchar (buf ! (s + length ?w))" if "s + length ?w < length buf"
    using nth_length_takeWhile [of wchar "drop s buf"] that by simp
  ultimately show ?thesis using skip_le(2) [of s buf] assms(1) by (auto simp: word_range_def e)
qed

lemma gettoken_word:
  assumes "gettoken buf s = (CHR ''a'', q, eq, s')" and "s \<le> length buf"
  shows "word_range buf (q, eq)"
proof -
  have q: "q = skip_white buf s" "token_at buf q = (CHR ''a'', eq)"
    using assms(1) by (auto simp: gettoken_def Let_def split: prod.splits)
  then have "char_at buf q \<noteq> NULc" by (auto simp: token_at_def Let_def)
  note l1 = char_at_in [OF this]
  then have l: "q < length buf" "char_at buf q = buf ! q" by (simp_all add: char_at_def)
  have w: "char_at buf q \<notin> set whitespace" using not_white [of buf q] q(1) l(1) by simp
  have t: "token_at buf q = (if char_at buf q \<in> set ''|();&<'' then (char_at buf q, q + 1)
      else if char_at buf q = CHR ''>'' then (if char_at buf (q + 1) = CHR ''>'' then (CHR ''+'', q + 2) else (char_at buf q, q + 1))
      else (CHR ''a'', skip_word buf q))"
    using \<open>char_at buf q \<noteq> NULc\<close> unfolding token_at_def Let_def by (rule if_not_P)
  have n: "char_at buf q \<notin> set ''|();&<''"
  proof
    assume a: "char_at buf q \<in> set ''|();&<''"
    then have "char_at buf q = CHR ''a''" using q(2) unfolding t if_P [OF a] by simp
    then show False using a by simp
  qed
  have g: "char_at buf q \<noteq> CHR ''>''" using q(2) unfolding t if_not_P [OF n] by (simp split: if_splits)
  have "eq = skip_word buf q" using q(2) unfolding t if_not_P [OF n] if_not_P [OF g] by simp
  moreover have "wchar (buf ! q)" using w n g l(2) by (simp add: wchar_def symbols_def)
  ultimately show ?thesis using skip_word_range [OF l(1)] by simp
qed

definition redirs_in :: "string \<Rightarrow> range redir list \<Rightarrow> bool" where
  "redirs_in buf rs \<longleftrightarrow> (\<forall>(f, mode, fd)\<in>set rs. word_range buf f \<and> fd < 2)"

text \<open>What a parsing function started at \<open>s\<close> gives: a panic, or a result that satisfies \<open>P\<close> and a position further right.\<close>

fun parsed :: "string \<Rightarrow> nat \<Rightarrow> ('a \<Rightarrow> bool) \<Rightarrow> ('a \<times> nat) pres \<Rightarrow> bool" where
  "parsed buf s P (Ok (a, s')) = (P a \<and> s \<le> s' \<and> s' \<le> length buf)"
| "parsed buf s P (Panic m) = True"
| "parsed buf s P Fuel = False"

lemma parsed_bind:
  assumes "parsed buf s P r" and "\<And>a s'. r = Ok (a, s') \<Longrightarrow> P a \<Longrightarrow> s \<le> s' \<Longrightarrow> s' \<le> length buf \<Longrightarrow> parsed buf s Q (f (a, s'))"
  shows "parsed buf s Q (pbind r f)"
  using assms by (cases r) auto

lemma parsed_mono: "parsed buf s' P r \<Longrightarrow> s \<le> s' \<Longrightarrow> parsed buf s P r"
  by (cases r) auto

lemma peek_bounds: "peek buf s toks = (b, s1) \<Longrightarrow> s \<le> length buf \<Longrightarrow> s \<le> s1 \<and> s1 \<le> length buf"
  using skip_ge(1) [of s buf] skip_le(1) [of s buf] by (auto simp: peek_def Let_def)

lemma parseredirs_ok:
  "s \<le> length buf \<Longrightarrow> redirs_in buf rs \<Longrightarrow> parsed buf s (redirs_in buf) (parseredirs buf s rs)"
proof (induction buf s rs rule: parseredirs.induct)
  case (1 buf s rs)
  obtain more s1 where p: "peek buf s ''<>'' = (more, s1)" by (cases "peek buf s ''<>''")
  have s1: "s \<le> s1" "s1 \<le> length buf" using peek_bounds [OF p 1(2)] by simp_all
  obtain tok q1 e1 s2 where g1: "gettoken buf s1 = (tok, q1, e1, s2)" by (cases "gettoken buf s1") auto
  obtain tok2 q eq s3 where g2: "gettoken buf s2 = (tok2, q, eq, s3)" by (cases "gettoken buf s2") auto
  have s2: "s1 \<le> s2" "s2 \<le> length buf" using gettoken_bounds [OF g1 s1(2)] by simp_all
  have s3: "s2 \<le> s3" "s3 \<le> length buf" using gettoken_bounds [OF g2 s2(2)] by simp_all
  show ?case
  proof (cases "more \<and> tok2 = CHR ''a''")
    case True
    have "redirs_in buf (rs @ redir_of tok q eq)"
      using 1(3) gettoken_word [of buf s2 q eq s3] g2 s2(2) True by (auto simp: redirs_in_def redir_of_def)
    then have "parsed buf s3 (redirs_in buf) (parseredirs buf s3 (rs @ redir_of tok q eq))"
      using 1(1) [OF p [symmetric] _ g1 [symmetric] refl refl g2 [symmetric] refl refl] True s3 by simp
    then show ?thesis using p g1 g2 True s1 s2 s3 by (subst parseredirs.simps) (auto intro: parsed_mono)
  next
    case False
    then show ?thesis using p g1 g2 s1 1(3) by (subst parseredirs.simps) auto
  qed
qed


text \<open>All words of the command are words of the line, and it redirects only the standard input and output.\<close>

primrec std_redirs :: "'w cmd \<Rightarrow> bool" where
  "std_redirs (EXEC argv) = True"
| "std_redirs (REDIR c f mode fd) = (fd < 2 \<and> std_redirs c)"
| "std_redirs (PIPE l r) = (std_redirs l \<and> std_redirs r)"
| "std_redirs (LIST l r) = (std_redirs l \<and> std_redirs r)"
| "std_redirs (BACK c) = std_redirs c"

definition cmd_ok :: "string \<Rightarrow> range cmd \<Rightarrow> bool" where
  "cmd_ok buf c \<longleftrightarrow> words_in buf c \<and> std_redirs c"

lemma cmd_ok_simps [simp]:
  "cmd_ok buf (EXEC argv) \<longleftrightarrow> (\<forall>f\<in>set argv. word_range buf f)" "cmd_ok buf (PIPE l r) \<longleftrightarrow> cmd_ok buf l \<and> cmd_ok buf r"
  "cmd_ok buf (LIST l r) \<longleftrightarrow> cmd_ok buf l \<and> cmd_ok buf r" "cmd_ok buf (BACK c) \<longleftrightarrow> cmd_ok buf c"
  "cmd_ok buf (REDIR c f mode fd) \<longleftrightarrow> cmd_ok buf c \<and> word_range buf f \<and> fd < 2"
  by (auto simp: cmd_ok_def words_in_def)

lemma add_redirs_simps [simp]: "add_redirs c [] = c" "add_redirs c ((f, mode, fd) # rs) = add_redirs (REDIR c f mode fd) rs"
  "add_redirs c (rs @ rs') = add_redirs (add_redirs c rs) rs'"
  by (simp_all add: add_redirs_def redircmd_def)

lemma cmd_ok_add_redirs: "cmd_ok buf c \<Longrightarrow> redirs_in buf rs \<Longrightarrow> cmd_ok buf (add_redirs c rs)"
  by (induction rs arbitrary: c) (auto simp: redirs_in_def)

definition args_parsed :: "string \<Rightarrow> nat \<Rightarrow> (range list \<times> range redir list \<times> nat) pres \<Rightarrow> bool" where
  "args_parsed buf s r \<longleftrightarrow> (case r of Fuel \<Rightarrow> False | Panic m \<Rightarrow> True
     | Ok (argv, rs, s') \<Rightarrow> (\<forall>f\<in>set argv. word_range buf f) \<and> redirs_in buf rs \<and> s \<le> s' \<and> s' \<le> length buf)"

lemma args_parsed_mono: "args_parsed buf s' r \<Longrightarrow> s \<le> s' \<Longrightarrow> args_parsed buf s r"
  by (auto simp: args_parsed_def split: pres.splits)

lemma exec_args_ok:
  "s \<le> length buf \<Longrightarrow> redirs_in buf rs \<Longrightarrow> \<forall>f\<in>set argv. word_range buf f \<Longrightarrow> args_parsed buf s (exec_args buf s argv rs)"
proof (induction buf s argv rs rule: exec_args.induct)
  case (1 buf s argv rs)
  obtain stop s1 where p: "peek buf s ''|)&;'' = (stop, s1)" by (cases "peek buf s ''|)&;''")
  have s1: "s \<le> s1" "s1 \<le> length buf" using peek_bounds [OF p 1(2)] by simp_all
  obtain tok q eq s2 where g: "gettoken buf s1 = (tok, q, eq, s2)" by (cases "gettoken buf s1") auto
  have s2: "s1 \<le> s2" "s2 \<le> length buf" using gettoken_bounds [OF g s1(2)] by simp_all
  show ?case
  proof (cases "\<not> stop \<and> tok = CHR ''a'' \<and> length argv + 1 < MAXARGS")
    case True
    have pr: "parsed buf s2 (redirs_in buf) (parseredirs buf s2 rs)" by (rule parseredirs_ok [OF s2(2) 1(3)])
    have w: "\<forall>f\<in>set (argv @ [(q, eq)]). word_range buf f" using 1(4) gettoken_word [of buf s1 q eq s2] g s1(2) True by auto
    have e: "exec_args buf s argv rs = pbind (parseredirs buf s2 rs) (\<lambda>(rs, s). exec_args buf s (argv @ [(q, eq)]) rs)"
      using p g True by (subst exec_args.simps) simp
    show ?thesis
    proof (cases "parseredirs buf s2 rs")
      case (Ok a)
      obtain rs' s3 where a: "a = (rs', s3)" by (cases a)
      then have r: "redirs_in buf rs'" "s2 \<le> s3" "s3 \<le> length buf" using pr Ok by simp_all
      have "args_parsed buf s3 (exec_args buf s3 (argv @ [(q, eq)]) rs')"
        using 1(1) [OF p [symmetric] _ g [symmetric] refl refl _ _ _ Ok a [symmetric]] True r w by simp
      then show ?thesis unfolding e Ok a using s1 s2 r by (auto intro: args_parsed_mono)
    qed (use pr in \<open>simp_all add: e args_parsed_def\<close>)
  next
    case False
    then show ?thesis using p g s1 s2 1(3,4) by (subst exec_args.simps) (auto simp: args_parsed_def)
  qed
qed

lemma parse_backs_ok:
  "s \<le> length buf \<Longrightarrow> cmd_ok buf c \<Longrightarrow> parse_backs buf s c = (c', s') \<Longrightarrow> cmd_ok buf c' \<and> s \<le> s' \<and> s' \<le> length buf"
proof (induction buf s c rule: parse_backs.induct)
  case (1 buf s c)
  obtain more s1 where p: "peek buf s ''&'' = (more, s1)" by (cases "peek buf s ''&''")
  show ?case
  proof (cases more)
    case True
    have pp: "s < pass buf s1" "pass buf s1 \<le> length buf" using peek_pass [of buf s "''&''" s1] p True by simp_all
    have "parse_backs buf (pass buf s1) (backcmd c) = (c', s')" using 1(4) p True by (subst (asm) parse_backs.simps) simp
    then have "cmd_ok buf c' \<and> pass buf s1 \<le> s' \<and> s' \<le> length buf"
      using 1(1) [OF p [symmetric] True pp(2)] 1(3) by (simp add: backcmd_def)
    then show ?thesis using pp(1) by simp
  next
    case False
    then show ?thesis using 1(3,4) p peek_bounds [OF p 1(2)] by (subst (asm) parse_backs.simps) simp
  qed
qed


lemma parse_total:
  "s \<le> length buf \<Longrightarrow> 4 * (length buf - s) + 4 \<le> n \<Longrightarrow> parsed buf s (cmd_ok buf) (parseline n buf s)"
  "s \<le> length buf \<Longrightarrow> 4 * (length buf - s) + 3 \<le> n \<Longrightarrow> parsed buf s (cmd_ok buf) (parsepipe n buf s)"
  "s \<le> length buf \<Longrightarrow> 4 * (length buf - s) + 1 \<le> n \<Longrightarrow> parsed buf s (cmd_ok buf) (parseblock n buf s)"
  "s \<le> length buf \<Longrightarrow> 4 * (length buf - s) + 2 \<le> n \<Longrightarrow> parsed buf s (cmd_ok buf) (parseexec n buf s)"
proof (induction n arbitrary: s)
  case (Suc n)
  {
    case 1
    show ?case unfolding parseline.simps
    proof (rule parsed_bind [OF Suc.IH(2)], goal_cases)
      case (3 c s1)
      obtain c2 s2 where b: "parse_backs buf s1 c = (c2, s2)" by (cases "parse_backs buf s1 c")
      note b' = parse_backs_ok [OF 3(4) 3(2) b]
      obtain more s3 where p: "peek buf s2 '';'' = (more, s3)" by (cases "peek buf s2 '';''")
      note s3 = peek_bounds [OF p]
      show ?case
      proof (cases more)
        case True
        have pp: "s2 \<le> s3" "s3 < pass buf s3" "pass buf s3 \<le> length buf" using peek_pass [of buf s2 "'';''" s3] p True by simp_all
        have l: "parsed buf (pass buf s3) (cmd_ok buf) (parseline n buf (pass buf s3))"
          by (rule Suc.IH(1) [OF pp(3)]) (use 1 3 b' pp in linarith)
        have "parsed buf s (cmd_ok buf) (pbind (parseline n buf (pass buf s3)) (\<lambda>(right, s). Ok (listcmd c2 right, s)))"
          by (rule parsed_bind [OF parsed_mono [OF l]]) (use 3 b' pp in \<open>auto simp: listcmd_def\<close>)
        then show ?thesis using b p True by simp
      next
        case False
        then show ?thesis using b p b' s3 3 by simp
      qed
    qed (use 1 in simp_all)
  next
    case 2
    show ?case unfolding parsepipe.simps
    proof (rule parsed_bind [OF Suc.IH(4)], goal_cases)
      case (3 c s1)
      obtain more s3 where p: "peek buf s1 ''|'' = (more, s3)" by (cases "peek buf s1 ''|''")
      note s3 = peek_bounds [OF p]
      show ?case
      proof (cases more)
        case True
        have pp: "s1 \<le> s3" "s3 < pass buf s3" "pass buf s3 \<le> length buf" using peek_pass [of buf s1 "''|''" s3] p True by simp_all
        have l: "parsed buf (pass buf s3) (cmd_ok buf) (parsepipe n buf (pass buf s3))"
          by (rule Suc.IH(2) [OF pp(3)]) (use 2 3 pp in linarith)
        have "parsed buf s (cmd_ok buf) (pbind (parsepipe n buf (pass buf s3)) (\<lambda>(right, s). Ok (pipecmd c right, s)))"
          by (rule parsed_bind [OF parsed_mono [OF l]]) (use 3 pp in \<open>auto simp: pipecmd_def\<close>)
        then show ?thesis using p True by simp
      next
        case False
        then show ?thesis using p s3 3 by simp
      qed
    qed (use 2 in simp_all)
  next
    case 3
    obtain more s1 where p: "peek buf s ''('' = (more, s1)" by (cases "peek buf s ''(''")
    show ?case
    proof (cases more)
      case True
      have pp: "s \<le> s1" "s1 < pass buf s1" "pass buf s1 \<le> length buf" using peek_pass [of buf s "''(''" s1] p True by simp_all
      have l: "parsed buf (pass buf s1) (cmd_ok buf) (parseline n buf (pass buf s1))"
        by (rule Suc.IH(1) [OF pp(3)]) (use 3 pp in linarith)
      have "parsed buf s (cmd_ok buf) (pbind (parseline n buf (pass buf s1)) (\<lambda>(cmd, s).
        case peek buf s '')'' of (closed, s) \<Rightarrow>
          if \<not> closed then Panic ''syntax - missing )''
          else pbind (parseredirs buf (pass buf s) []) (\<lambda>(rs, s). Ok (add_redirs cmd rs, s))))"
      proof (rule parsed_bind [OF parsed_mono [OF l]], goal_cases)
        case (2 c s2)
        obtain closed s3 where p2: "peek buf s2 '')'' = (closed, s3)" by (cases "peek buf s2 '')''")
        show ?case
        proof (cases closed)
          case True
          have pp2: "s2 \<le> s3" "s3 < pass buf s3" "pass buf s3 \<le> length buf" using peek_pass [of buf s2 "'')''" s3] p2 True by simp_all
          have r: "parsed buf (pass buf s3) (redirs_in buf) (parseredirs buf (pass buf s3) [])"
            by (rule parseredirs_ok [OF pp2(3)]) (simp add: redirs_in_def)
          have "parsed buf s (cmd_ok buf) (pbind (parseredirs buf (pass buf s3) []) (\<lambda>(rs, s). Ok (add_redirs c rs, s)))"
            by (rule parsed_bind [OF parsed_mono [OF r]]) (use 2 pp2 in \<open>auto simp: cmd_ok_add_redirs\<close>)
          then show ?thesis using p2 True by simp
        qed (simp add: p2)
      qed (use pp in simp)
      then show ?thesis using p True by simp
    qed (simp add: p)
  next
    case 4
    obtain more s1 where p: "peek buf s ''('' = (more, s1)" by (cases "peek buf s ''(''")
    have s1: "s \<le> s1" "s1 \<le> length buf" using peek_bounds [OF p 4(1)] by simp_all
    show ?case
    proof (cases more)
      case True
      have "parsed buf s1 (cmd_ok buf) (parseblock n buf s1)" by (rule Suc.IH(3) [OF s1(2)]) (use 4 s1 in linarith)
      then show ?thesis using p True parsed_mono [OF _ s1(1)] by simp
    next
      case False
      have r: "parsed buf s1 (redirs_in buf) (parseredirs buf s1 [])" by (rule parseredirs_ok [OF s1(2)]) (simp add: redirs_in_def)
      have "parsed buf s (cmd_ok buf) (pbind (parseredirs buf s1 []) (\<lambda>(rs, s).
          pbind (exec_args buf s [] rs) (\<lambda>(argv, rs, s). Ok (add_redirs (EXEC argv) rs, s))))"
      proof (rule parsed_bind [OF parsed_mono [OF r s1(1)]], goal_cases)
        case (1 rs s2)
        have "args_parsed buf s2 (exec_args buf s2 [] rs)" by (rule exec_args_ok) (use 1 in simp_all)
        then show ?case using 1 by (cases "exec_args buf s2 [] rs") (auto simp: args_parsed_def cmd_ok_add_redirs)
      qed
      then show ?thesis using p False by simp
    qed
  }
qed simp_all


subsection \<open>Words become C strings\<close>

lemma nulterminate_length [simp]: "length (nulterminate c m) = length m"
proof (induction c arbitrary: m)
  case (EXEC argv)
  have "length (fold (\<lambda>f m. m[snd f := NULc]) xs m) = length m" for xs :: "range list" and m by (induction xs arbitrary: m) simp_all
  then show ?case by simp
qed simp_all

lemma nulterminate_nth: "i < length m \<Longrightarrow> nulterminate c m ! i = (if i \<in> snd ` set_cmd c then NULc else m ! i)"
proof (induction c arbitrary: m)
  case (EXEC argv)
  have "i < length m \<Longrightarrow> fold (\<lambda>f m. m[snd f := NULc]) xs m ! i = (if i \<in> snd ` set xs then NULc else m ! i)" for xs :: "range list" and m
    by (induction xs arbitrary: m) (auto simp: nth_list_update)
  then show ?case using EXEC by simp
next
  case (REDIR c f mode fd)
  then show ?case by (cases "i = snd f") simp_all
qed (auto simp: nth_list_update)

definition piece :: "string \<Rightarrow> range \<Rightarrow> string" where
  "piece buf f = take (snd f - fst f) (drop (fst f) buf)"

lemma cstr_at_piece:
  assumes w: "\<forall>g\<in>set_cmd c. word_range buf g" and f: "f \<in> set_cmd c" and n: "NULc \<notin> set buf"
  shows "cstr_at (nulterminate c (buf @ [NULc])) (fst f) = piece buf f"
proof -
  let ?m = "nulterminate c (buf @ [NULc])" and ?k = "snd f - fst f"
  have r: "fst f < snd f" "snd f \<le> length buf" "\<And>i. fst f \<le> i \<Longrightarrow> i < snd f \<Longrightarrow> wchar (buf ! i)" using w f by (auto simp: word_range_def)
  have keep: "?m ! i = buf ! i" if i: "fst f \<le> i" "i < snd f" for i
  proof -
    have "i \<noteq> snd g" if "g \<in> set_cmd c" for g using w that r i by (auto simp: word_range_def)
    then have "i \<notin> snd ` set_cmd c" by auto
    then show ?thesis using i r(2) by (subst nulterminate_nth) (auto simp: nth_append)
  qed
  have e: "?m ! snd f = NULc" using f r(2) by (subst nulterminate_nth) auto
  have len: "snd f < length ?m" using r(2) by simp
  have "take ?k (drop (fst f) ?m) = piece buf f"
    using r keep len by (intro nth_equalityI) (auto simp: piece_def)
  then have d: "drop (fst f) ?m = piece buf f @ NULc # drop (Suc (snd f)) ?m"
    using r(1) len e by (metis Cons_nth_drop_Suc append_take_drop_id drop_drop le_add_diff_inverse2 less_imp_le_nat)
  have "NULc \<notin> set (piece buf f)" using n by (auto simp: piece_def dest!: in_set_takeD in_set_dropD)
  then have "takeWhile (\<lambda>c. c \<noteq> NULc) (piece buf f @ NULc # x) = piece buf f" for x by (subst takeWhile_append2) auto
  then show ?thesis unfolding cstr_at_def d .
qed

text \<open>
  C27. \<open>parsecmd\<close> comes back from every line, with a command or with a panic, and for a command \<open>nulterminate\<close> has done its
  work: every word of the command is a non-empty piece of the line without blanks and symbols, the C string found at
  its first character is exactly that piece, and only descriptors 0 and 1 are redirected.
\<close>

theorem parsecmd_correct:
  assumes "NULc \<notin> set buf"
  shows "(\<exists>msg. parsecmd buf = Panic msg)
    \<or> (\<exists>c m. parsecmd buf = Ok (c, m) \<and> std_redirs c
        \<and> (\<forall>f\<in>set_cmd c. word_range buf f \<and> cstr_at m (fst f) = piece buf f))"
proof -
  let ?r = "parseline (4 * length buf + 4) buf 0"
  have t: "parsed buf 0 (cmd_ok buf) ?r" by (rule parse_total) simp_all
  show ?thesis
  proof (cases ?r)
    case (Ok a)
    obtain c s where a: "a = (c, s)" by (cases a)
    then have c: "\<forall>f\<in>set_cmd c. word_range buf f" "std_redirs c" using t Ok by (auto simp: cmd_ok_def words_in_def)
    have w: "word_range buf f \<and> cstr_at (nulterminate c (buf @ [NULc])) (fst f) = piece buf f" if "f \<in> set_cmd c" for f
      using c(1) that cstr_at_piece [OF c(1) that assms] by simp
    show ?thesis
    proof (cases "snd (peek buf s '''') = length buf")
      case True
      then have "parsecmd buf = Ok (c, nulterminate c (buf @ [NULc]))" using Ok a by (simp add: parsecmd_def split_beta)
      then show ?thesis using w c(2) by blast
    qed (use Ok a in \<open>simp add: parsecmd_def split_beta\<close>)
  qed (use t in \<open>simp_all add: parsecmd_def\<close>)
qed


theorem parsecmd_correct_witness:
  "parsecmd ''ls>f'' = Ok (REDIR (EXEC [(0, 2)]) (3, 4) 0x601 1, [CHR ''l'', CHR ''s'', NULc, CHR ''f'', NULc])
     \<and> cstr_at [CHR ''l'', CHR ''s'', NULc, CHR ''f'', NULc] 0 = ''ls'' \<and> cstr_at [CHR ''l'', CHR ''s'', NULc, CHR ''f'', NULc] 3 = ''f''"
proof -
  have "parsecmd ''ls>f'' = Ok (REDIR (EXEC [(0, 2)]) (3, 4) 0x601 1, [CHR ''l'', CHR ''s'', NULc, CHR ''f'', NULc])" by code_simp
  then show ?thesis using parsecmd_correct [of "''ls>f''"] by (auto simp: piece_def)
qed

end
