(* ===== verification/Shgrammar.thy ===== *)
theory Shgrammar
  imports Shparse
begin

text \<open>
  The grammar of the shell of \<open>labo2/user/sh.c\<close> as a type of its own, how its sentences are written, and the proof that
  \<open>parsecmd\<close> reads a written sentence back as the tree it stands for.
\<close>

subsection \<open>Sentences\<close>

datatype rkind = Input | Output | Append

datatype aexec = ASimple "string list" "(rkind \<times> string) list" | ABlock aline "(rkind \<times> string) list"
  and apipe = AOne aexec | APipe aexec apipe
  and aline = ALine apipe nat | ASeq apipe nat aline

primrec show_kind :: "rkind \<Rightarrow> string" where
  "show_kind Input = ''<''" | "show_kind Output = ''>''" | "show_kind Append = ''>>''"

definition show_redirs :: "(rkind \<times> string) list \<Rightarrow> string" where
  "show_redirs rs = concat (map (\<lambda>(k, f). show_kind k @ f) rs)"

fun show_words :: "string list \<Rightarrow> string" where
  "show_words [] = []"
| "show_words [w] = w"
| "show_words (w # v # ws) = w @ '' '' @ show_words (v # ws)"

primrec show_exec :: "aexec \<Rightarrow> string" and show_pipe :: "apipe \<Rightarrow> string" and show_line :: "aline \<Rightarrow> string" where
  "show_exec (ASimple ws rs) = show_words ws @ show_redirs rs"
| "show_exec (ABlock l rs) = ''('' @ show_line l @ '')'' @ show_redirs rs"
| "show_pipe (AOne e) = show_exec e"
| "show_pipe (APipe e p) = show_exec e @ ''|'' @ show_pipe p"
| "show_line (ALine p k) = show_pipe p @ replicate k (CHR ''&'')"
| "show_line (ASeq p k l) = show_pipe p @ replicate k (CHR ''&'') @ '';'' @ show_line l"

text \<open>The tree of a sentence.\<close>

primrec kind_mode :: "rkind \<Rightarrow> cint \<times> nat" where
  "kind_mode Input = (O_RDONLY, 0)" | "kind_mode Output = (O_WRONLY OR O_CREATE OR O_TRUNC, 1)" | "kind_mode Append = (O_WRONLY OR O_CREATE, 1)"

definition redirs_of :: "(rkind \<times> string) list \<Rightarrow> string redir list" where
  "redirs_of rs = map (\<lambda>(k, f). (f, kind_mode k)) rs"

primrec tree_exec :: "aexec \<Rightarrow> string cmd" and tree_pipe :: "apipe \<Rightarrow> string cmd" and tree_line :: "aline \<Rightarrow> string cmd" where
  "tree_exec (ASimple ws rs) = add_redirs (EXEC ws) (redirs_of rs)"
| "tree_exec (ABlock l rs) = add_redirs (tree_line l) (redirs_of rs)"
| "tree_pipe (AOne e) = tree_exec e"
| "tree_pipe (APipe e p) = PIPE (tree_exec e) (tree_pipe p)"
| "tree_line (ALine p k) = (BACK ^^ k) (tree_pipe p)"
| "tree_line (ASeq p k l) = LIST ((BACK ^^ k) (tree_pipe p)) (tree_line l)"

text \<open>Words are not empty and have no blanks, symbols and null characters; there are at most nine arguments.\<close>

definition word_ok :: "string \<Rightarrow> bool" where
  "word_ok w \<longleftrightarrow> w \<noteq> [] \<and> list_all (\<lambda>c. wchar c \<and> c \<noteq> NULc) w"

definition redirs_ok :: "(rkind \<times> string) list \<Rightarrow> bool" where
  "redirs_ok rs \<longleftrightarrow> (\<forall>(k, f)\<in>set rs. word_ok f)"

primrec wf_exec :: "aexec \<Rightarrow> bool" and wf_pipe :: "apipe \<Rightarrow> bool" and wf_line :: "aline \<Rightarrow> bool" where
  "wf_exec (ASimple ws rs) = (list_all word_ok ws \<and> length ws < MAXARGS \<and> redirs_ok rs)"
| "wf_exec (ABlock l rs) = (wf_line l \<and> redirs_ok rs)"
| "wf_pipe (AOne e) = wf_exec e"
| "wf_pipe (APipe e p) = (wf_exec e \<and> wf_pipe p)"
| "wf_line (ALine p k) = wf_pipe p"
| "wf_line (ASeq p k l) = (wf_pipe p \<and> wf_line l)"

subsection \<open>Reading at a position\<close>

text \<open>What may stand behind a word, and what may follow without a blank.\<close>

definition solid :: "string \<Rightarrow> bool" where
  "solid r \<longleftrightarrow> r = [] \<or> hd r \<notin> set whitespace \<and> hd r \<noteq> NULc"

definition stops :: "string \<Rightarrow> string \<Rightarrow> bool" where
  "stops toks r \<longleftrightarrow> r = [] \<or> hd r \<in> set toks"

lemma look_Cons: "drop s buf = c # r \<Longrightarrow> char_at buf s = c \<and> s < length buf \<and> drop (Suc s) buf = r"
  by (metis char_at_def drop_eq_Nil drop_Suc list.distinct(1) list.sel(1,3) hd_drop_conv_nth tl_drop not_le)

lemma look_Nil: "drop s buf = [] \<Longrightarrow> char_at buf s = NULc"
  by (simp add: char_at_def)

lemma skip_white_solid: "drop s buf = r \<Longrightarrow> solid r \<Longrightarrow> skip_white buf s = s"
  by (cases r) (auto simp: skip_white_def solid_def)

lemma peek_solid:
  assumes "drop s buf = r" and "solid r"
  shows "peek buf s toks = (r \<noteq> [] \<and> hd r \<in> set toks, s)"
  using assms look_Nil [of s buf] look_Cons [of s buf] by (cases r) (auto simp: peek_def Let_def skip_white_solid [OF assms] solid_def)

text \<open>Blanks between what was read and what follows.\<close>

definition gap :: "string \<Rightarrow> bool" where
  "gap b \<longleftrightarrow> list_all (\<lambda>c. c \<in> set whitespace) b"

lemma gap_Nil [simp]: "gap []"
  by (simp add: gap_def)

lemma skip_white_gap:
  assumes "drop s buf = b @ r" and "gap b" and "solid r"
  shows "skip_white buf s = s + length b"
proof -
  have "takeWhile (\<lambda>c. c \<in> set whitespace) (b @ r) = b @ takeWhile (\<lambda>c. c \<in> set whitespace) r"
    using assms(2) by (intro takeWhile_append2) (auto simp: gap_def list_all_iff)
  moreover have "takeWhile (\<lambda>c. c \<in> set whitespace) r = []" using assms(3) by (cases r) (auto simp: solid_def)
  ultimately show ?thesis using assms(1) by (simp add: skip_white_def)
qed

lemma peek_skip: "peek buf (skip_white buf s) toks = peek buf s toks" "gettoken buf (skip_white buf s) = gettoken buf s"
  by (simp_all add: peek_def gettoken_def Let_def)

lemma peek_gap:
  assumes "drop s buf = b @ r" and "gap b" and "solid r"
  shows "peek buf s toks = (r \<noteq> [] \<and> hd r \<in> set toks, s + length b)"
proof -
  have d: "drop (s + length b) buf = r" using assms(1) by (metis add.commute append_eq_conv_conj drop_drop)
  show ?thesis using peek_solid [OF d assms(3), of toks] peek_skip(1) [of buf s toks] by (simp add: skip_white_gap [OF assms])
qed

lemma parse_skip:
  "parseredirs buf (skip_white buf s) acc = parseredirs buf s acc" "exec_args buf (skip_white buf s) argv acc = exec_args buf s argv acc"
  "parse_backs buf (skip_white buf s) c = parse_backs buf s c"
  by (subst parseredirs.simps, subst (2) parseredirs.simps, simp add: peek_skip)
    (subst exec_args.simps, subst (2) exec_args.simps, simp add: peek_skip,
      subst parse_backs.simps, subst (2) parse_backs.simps, simp add: peek_skip)

lemma parse_skip_rec:
  "parseexec n buf (skip_white buf s) = parseexec n buf s" "parsepipe n buf (skip_white buf s) = parsepipe n buf s"
  "parseline n buf (skip_white buf s) = parseline n buf s"
proof -
  show e: "parseexec n buf (skip_white buf s) = parseexec n buf s" for n by (cases n) (simp_all add: peek_skip)
  show p: "parsepipe n buf (skip_white buf s) = parsepipe n buf s" for n by (cases n) (simp_all add: e)
  show "parseline n buf (skip_white buf s) = parseline n buf s" by (cases n) (simp_all add: p)
qed

lemma drop_skip: "drop s buf = x @ r \<Longrightarrow> drop (s + length x) buf = r"
  by (metis add.commute append_eq_conv_conj drop_drop)

lemma gettoken_symbol:
  assumes "drop s buf = c # r" and "c \<in> set ''|();&<''"
  shows "gettoken buf s = (c, s, s + 1, skip_white buf (s + 1))" "pass buf s = skip_white buf (s + 1)"
proof -
  have c: "char_at buf s = c" "drop (s + 1) buf = r" using look_Cons [OF assms(1)] by simp_all
  have w: "solid (c # r)" using assms(2) by (auto simp: solid_def whitespace_def)
  have n: "c \<noteq> NULc" using assms(2) by auto
  have "token_at buf s = (c, s + 1)" unfolding token_at_def Let_def c if_not_P [OF n] if_P [OF assms(2)] ..
  then show "gettoken buf s = (c, s, s + 1, skip_white buf (s + 1))"
    by (simp add: gettoken_def skip_white_solid [OF assms(1) w] del: One_nat_def add_Suc_right)
  then show "pass buf s = skip_white buf (s + 1)" by (simp add: pass_def)
qed

lemma gettoken_kind:
  assumes "drop s buf = show_kind k @ r" and "solid r" and "stops [] r \<or> hd r \<noteq> CHR ''>''"
  shows "\<exists>tok. gettoken buf s = (tok, s, s + length (show_kind k), s + length (show_kind k)) \<and> redir_of tok q eq = [((q, eq), kind_mode k)]"
proof -
  have d: "drop (s + length (show_kind k)) buf = r" by (rule drop_skip [OF assms(1)])
  have w: "skip_white buf s = s" by (rule skip_white_solid [OF assms(1)]) (cases k, simp_all add: solid_def whitespace_def)
  have n: "char_at buf (s + 1) = (if r = [] then NULc else hd r)" if "k = Output"
    using d that look_Cons [of "s + 1" buf] look_Nil [of "s + 1" buf] by (cases r) auto
  have t: "token_at buf s = (case k of Input \<Rightarrow> CHR ''<'' | Output \<Rightarrow> CHR ''>'' | Append \<Rightarrow> CHR ''+'', s + length (show_kind k))"
  proof (cases k)
    case Input
    then have "char_at buf s = CHR ''<''" using assms(1) look_Cons [of s buf] by simp
    then show ?thesis using Input by (simp add: token_at_def)
  next
    case Output
    then have "char_at buf s = CHR ''>''" using assms(1) look_Cons [of s buf] by simp
    then show ?thesis using Output n assms(3) by (auto simp: token_at_def stops_def)
  next
    case Append
    then have "drop s buf = CHR ''>'' # CHR ''>'' # r" using assms(1) by simp
    then have "char_at buf s = CHR ''>''" "char_at buf (s + 1) = CHR ''>''" using look_Cons [of s buf] look_Cons [of "s + 1" buf] by simp_all
    then show ?thesis using Append by (simp add: token_at_def)
  qed
  have g: "gettoken buf s = (fst (token_at buf s), s, s + length (show_kind k), s + length (show_kind k))"
    unfolding gettoken_def w t Let_def using skip_white_solid [OF d assms(2)] by simp
  show ?thesis unfolding g t by (cases k) (simp_all add: redir_of_def)
qed

lemma takeWhile_word:
  "list_all wchar w \<Longrightarrow> r = [] \<or> \<not> wchar (hd r) \<Longrightarrow> takeWhile wchar (w @ r) = w"
  by (induction w) (cases r, auto)

lemma gettoken_text:
  assumes "drop s buf = w @ r" and "word_ok w" and "r = [] \<or> \<not> wchar (hd r)"
  shows "gettoken buf s = (CHR ''a'', s, s + length w, skip_white buf (s + length w))" "piece buf (s, s + length w) = w"
proof -
  obtain c cs where w: "w = c # cs" using assms(2) by (cases w) (auto simp: word_ok_def)
  have c: "wchar c" "c \<noteq> NULc" "list_all wchar w" using assms(2) w by (auto simp: word_ok_def list_all_iff)
  have ch: "char_at buf s = c" using look_Cons [of s buf c] assms(1) w by simp
  have "c \<notin> set ''|();&<''" "c \<noteq> CHR ''>''" using c(1) by (auto simp: wchar_def symbols_def)
  moreover have "skip_word buf s = s + length w"
    using takeWhile_word [OF c(3) assms(3)] assms(1) by (simp add: skip_word_def wchar_def [abs_def])
  ultimately have "token_at buf s = (CHR ''a'', s + length w)" unfolding token_at_def Let_def ch using c(2) by simp
  moreover have "skip_white buf s = s" by (rule skip_white_solid [OF assms(1)]) (use c w in \<open>simp add: solid_def wchar_def\<close>)
  ultimately show "gettoken buf s = (CHR ''a'', s, s + length w, skip_white buf (s + length w))" by (simp add: gettoken_def)
  show "piece buf (s, s + length w) = w" using assms(1) by (simp add: piece_def)
qed


subsection \<open>Reading sentences\<close>

abbreviation read_redirs :: "string \<Rightarrow> range redir list \<Rightarrow> string redir list" where
  "read_redirs buf rs \<equiv> map (\<lambda>(f, m). (piece buf f, m)) rs"

lemma show_redirs_simps [simp]: "show_redirs [] = []" "show_redirs ((k, f) # rs) = show_kind k @ f @ show_redirs rs"
  by (simp_all add: show_redirs_def)

lemma kind_head: "hd (show_kind k @ x) \<in> {CHR ''<'', CHR ''>''}" "show_kind k \<noteq> []"
  by (cases k; simp)+

lemma word_head: "word_ok w \<Longrightarrow> wchar (hd (w @ x)) \<and> hd (w @ x) \<noteq> NULc" "word_ok w \<Longrightarrow> w \<noteq> []"
  by (auto simp: word_ok_def neq_Nil_conv)

lemma wchar_facts: "wchar c \<Longrightarrow> c \<notin> set whitespace" "wchar c \<Longrightarrow> c \<notin> set ''<|>&;()''" "c \<in> set ''<|>&;()'' \<Longrightarrow> \<not> wchar c \<and> c \<notin> set whitespace \<and> c \<noteq> NULc"
  by (auto simp: wchar_def symbols_def whitespace_def)


lemma solid_redirs:
  assumes "stops ''|&;)'' r"
  shows "solid (show_redirs rs @ r)" "show_redirs rs @ r = [] \<or> \<not> wchar (hd (show_redirs rs @ r))"
    "show_redirs rs @ r = [] \<or> hd (show_redirs rs @ r) \<in> set ''<>|&;)''"
proof -
  show g: "show_redirs rs @ r = [] \<or> hd (show_redirs rs @ r) \<in> set ''<>|&;)''"
  proof (cases rs)
    case Nil
    then show ?thesis using assms by (auto simp: stops_def)
  next
    case (Cons a as)
    obtain k f where "a = (k, f)" by (cases a)
    then show ?thesis using Cons kind_head(1) [of k "f @ show_redirs as @ r"] by auto
  qed
  have "set ''<>|&;)'' \<subseteq> set ''<|>&;()''" by simp
  with g have h: "show_redirs rs @ r = [] \<or> hd (show_redirs rs @ r) \<in> set ''<|>&;()''" by blast
  then show "show_redirs rs @ r = [] \<or> \<not> wchar (hd (show_redirs rs @ r))" using wchar_facts(3) by blast
  show "solid (show_redirs rs @ r)" unfolding solid_def using h wchar_facts(3) by blast
qed

lemma word_end: "stops ''|&;)'' r \<Longrightarrow> gap b \<Longrightarrow> show_redirs rs @ b @ r = [] \<or> \<not> wchar (hd (show_redirs rs @ b @ r))"
proof (cases "rs = [] \<and> b \<noteq> []")
  case True
  assume "gap b"
  then show ?thesis using True by (cases b) (auto simp: gap_def wchar_def)
next
  case False
  assume r: "stops ''|&;)'' r"
  show ?thesis
  proof (cases rs)
    case Nil
    then show ?thesis using False solid_redirs(2) [OF r, of "[]"] by simp
  next
    case (Cons a as)
    obtain k f where a: "a = (k, f)" by (cases a)
    have "hd (show_kind k @ f @ show_redirs as @ b @ r) \<in> set ''<|>&;()''" using kind_head(1) [of k "f @ show_redirs as @ b @ r"] by auto
    then show ?thesis using wchar_facts(3) Cons a by simp
  qed
qed

lemma parseredirs_read:
  assumes "drop s buf = show_redirs rs @ b @ r" and "redirs_ok rs" and "stops ''|&;)'' r" and "gap b"
  shows "\<exists>rs'. parseredirs buf s acc = Ok (acc @ rs', s + length (show_redirs rs) + length b) \<and> read_redirs buf rs' = redirs_of rs"
  using assms(1,2)
proof (induction rs arbitrary: s acc)
  case Nil
  have "solid r" using solid_redirs(1) [OF assms(3), of "[]"] by simp
  moreover have "r = [] \<or> hd r \<notin> set ''<>''" using assms(3) by (auto simp: stops_def)
  ultimately have "peek buf s ''<>'' = (False, s + length b)" using peek_gap [of s buf b r] assms(4) Nil(1) by auto
  then show ?case by (subst parseredirs.simps) (simp add: redirs_of_def)
next
  case (Cons a rs)
  obtain k f where a: "a = (k, f)" by (cases a)
  have f: "word_ok f" and rs: "redirs_ok rs" using Cons.prems(2) a by (auto simp: redirs_ok_def)
  let ?r = "show_redirs rs @ b @ r" and ?s1 = "s + length (show_kind k)"
  let ?s2 = "s + length (show_kind k) + length f"
  have d: "drop s buf = show_kind k @ f @ ?r" using Cons.prems(1) a by simp
  have d1: "drop ?s1 buf = f @ ?r" by (rule drop_skip [OF d])
  have d2: "drop ?s2 buf = ?r" by (rule drop_skip [OF d1])
  have hf: "hd (f @ ?r) \<notin> set whitespace" "hd (f @ ?r) \<notin> set ''<|>&;()''" "hd (f @ ?r) \<noteq> NULc" "f @ ?r \<noteq> []"
    using word_head(1) [OF f, of ?r] word_head(2) [OF f] wchar_facts(1,2) by auto
  have "solid (show_kind k @ f @ ?r)" using kind_head(1) [of k "f @ ?r"] by (auto simp: solid_def whitespace_def)
  then have p: "peek buf s ''<>'' = (True, s)" using peek_solid [OF d] kind_head(1) [of k "f @ ?r"] kind_head(2) [of k] by auto
  have "solid (f @ ?r)" "stops [] (f @ ?r) \<or> hd (f @ ?r) \<noteq> CHR ''>''" using hf by (auto simp: solid_def)
  then obtain tok where g1: "gettoken buf s = (tok, s, ?s1, ?s1)" "redir_of tok ?s1 ?s2 = [((?s1, ?s2), kind_mode k)]"
    using gettoken_kind [OF d] by blast
  have g2: "gettoken buf ?s1 = (CHR ''a'', ?s1, ?s2, skip_white buf ?s2)" and pc: "piece buf (?s1, ?s2) = f"
    using gettoken_text [OF d1 f word_end [OF assms(3,4)]] by simp_all
  obtain rs' where rs': "parseredirs buf ?s2 (acc @ [((?s1, ?s2), kind_mode k)]) = Ok ((acc @ [((?s1, ?s2), kind_mode k)]) @ rs', ?s2 + length (show_redirs rs) + length b)"
    "read_redirs buf rs' = redirs_of rs" using Cons.IH [OF d2 rs] by blast
  have "parseredirs buf s acc = Ok (acc @ ((?s1, ?s2), kind_mode k) # rs', s + length (show_redirs (a # rs)) + length b)"
    using p g1 g2 rs'(1) a by (subst parseredirs.simps) (simp add: parse_skip add.assoc)
  moreover have "read_redirs buf (((?s1, ?s2), kind_mode k) # rs') = redirs_of (a # rs)" using rs'(2) pc a by (simp add: redirs_of_def)
  ultimately show ?case by blast
qed

lemma parseredirs_none:
  assumes "drop s buf = r" and "solid r" and "r = [] \<or> hd r \<notin> set ''<>''"
  shows "parseredirs buf s acc = Ok (acc, s)"
  using peek_solid [OF assms(1,2), of "''<>''"] assms(3) by (subst parseredirs.simps) auto

lemma show_words_head: "list_all word_ok ws \<Longrightarrow> ws \<noteq> [] \<Longrightarrow> show_words ws @ y \<noteq> [] \<and> wchar (hd (show_words ws @ y)) \<and> hd (show_words ws @ y) \<noteq> NULc"
  using word_head by (cases ws rule: show_words.cases) auto

lemma exec_args_stop:
  assumes d: "drop s buf = b @ r" and r: "stops ''|&;)'' r" and b: "gap b"
  shows "exec_args buf s argv acc = Ok (argv, acc, s + length b)"
proof -
  have sr: "solid r" using solid_redirs(1) [OF r, of "[]"] by simp
  have p: "peek buf s ''|)&;'' = (r \<noteq> [], s + length b)" using peek_gap [OF d b sr, of "''|)&;''"] r by (auto simp: stops_def)
  have d': "drop (s + length b) buf = r" by (rule drop_skip [OF d])
  have "gettoken buf (s + length b) = (NULc, s + length b, s + length b, s + length b)" if "r = []"
    using look_Nil [OF d' [unfolded that]] skip_white_solid [OF d' sr] by (simp add: gettoken_def token_at_def Let_def)
  then show ?thesis using p by (subst exec_args.simps) auto
qed

lemma exec_args_read:
  assumes "drop s buf = show_words ws @ show_redirs rs @ b @ r" and "list_all word_ok ws" and "redirs_ok rs" and r: "stops ''|&;)'' r"
    and b: "gap b" and "ws = [] \<Longrightarrow> rs = []" and "length argv + length ws < MAXARGS"
  shows "\<exists>argv' rs'. exec_args buf s argv acc = Ok (argv @ argv', acc @ rs', s + length (show_words ws) + length (show_redirs rs) + length b)
    \<and> map (piece buf) argv' = ws \<and> read_redirs buf rs' = redirs_of rs"
  using assms(1,2,6,7)
proof (induction ws arbitrary: s argv acc)
  case Nil
  then have d: "drop s buf = b @ r" by simp
  show ?case using Nil exec_args_stop [OF d r b] by (auto simp: redirs_of_def)
next
  case (Cons w ws)
  have w: "word_ok w" and ws: "list_all word_ok ws" using Cons.prems(2) by simp_all
  let ?e = "s + length w"
  define x where "x = (if ws = [] then show_redirs rs @ b @ r else CHR '' '' # show_words ws @ show_redirs rs @ b @ r)"
  have d: "drop s buf = w @ x" using Cons.prems(1) by (cases ws) (simp_all add: x_def)
  have d1: "drop ?e buf = x" by (rule drop_skip [OF d])
  have x: "x = [] \<or> \<not> wchar (hd x)" using word_end [OF r b, of rs] by (auto simp: x_def wchar_def whitespace_def)
  have hw: "hd (w @ x) \<notin> set whitespace" "hd (w @ x) \<notin> set ''<|>&;()''" "hd (w @ x) \<noteq> NULc" "w @ x \<noteq> []"
    using word_head(1) [OF w, of x] word_head(2) [OF w] wchar_facts(1,2) by auto
  have p: "peek buf s ''|)&;'' = (False, s)" using peek_solid [OF d, of "''|)&;''"] hw by (auto simp: solid_def)
  have g: "gettoken buf s = (CHR ''a'', s, ?e, skip_white buf ?e)" "piece buf (s, ?e) = w" using gettoken_text [OF d w x] by simp_all
  have step: "exec_args buf s argv acc = pbind (parseredirs buf ?e acc) (\<lambda>(rs, s). exec_args buf s (argv @ [(s', ?e)]) rs)"
    if "s' = s" for s' using p g(1) Cons.prems(4) that by (subst exec_args.simps) (simp add: parse_skip)
  show ?case
  proof (cases "ws = []")
    case True
    let ?z = "?e + length (show_redirs rs) + length b"
    have d2: "drop ?e buf = show_redirs rs @ b @ r" using d1 True by (simp add: x_def)
    obtain rs' where rs': "parseredirs buf ?e acc = Ok (acc @ rs', ?z)" "read_redirs buf rs' = redirs_of rs"
      using parseredirs_read [OF d2 assms(3) r b] by blast
    have "drop ?z buf = [] @ r" using drop_skip [OF drop_skip [OF d2]] by (simp add: add.assoc)
    from exec_args_stop [OF this r gap_Nil, of "argv @ [(s, ?e)]" "acc @ rs'"] show ?thesis using step [OF refl] rs' g(2) True
      by (auto intro!: exI [of _ "[(s, ?e)]"])
  next
    case False
    have d2: "drop ?e buf = '' '' @ show_words ws @ show_redirs rs @ b @ r" using d1 False by (simp add: x_def)
    have d3: "drop (?e + 1) buf = show_words ws @ show_redirs rs @ b @ r" using drop_skip [OF d2] by simp
    have h: "show_words ws @ y \<noteq> [] \<and> wchar (hd (show_words ws @ y)) \<and> hd (show_words ws @ y) \<noteq> NULc" for y
      by (rule show_words_head [OF ws False])
    have so: "solid (show_words ws @ show_redirs rs @ b @ r)" using h [of "show_redirs rs @ b @ r"] wchar_facts(1) by (auto simp: solid_def)
    have "peek buf ?e ''<>'' = (False, ?e + 1)"
      using peek_gap [OF d2 _ so, of "''<>''"] h [of "show_redirs rs @ b @ r"] wchar_facts(2) by (auto simp: gap_def whitespace_def)
    then have "parseredirs buf ?e acc = Ok (acc, ?e + 1)" by (subst parseredirs.simps) simp
    then have st: "exec_args buf s argv acc = exec_args buf (?e + 1) (argv @ [(s, ?e)]) acc" using step [OF refl] by simp
    obtain argv' rs' where ih: "exec_args buf (?e + 1) (argv @ [(s, ?e)]) acc
        = Ok ((argv @ [(s, ?e)]) @ argv', acc @ rs', ?e + 1 + length (show_words ws) + length (show_redirs rs) + length b)"
      "map (piece buf) argv' = ws" "read_redirs buf rs' = redirs_of rs"
      using Cons.IH [OF d3 ws, of "argv @ [(s, ?e)]" acc] False Cons.prems(4) by auto
    have "length (show_words (w # ws)) = length w + 1 + length (show_words ws)" using False by (cases ws) auto
    then show ?thesis using st ih g(2) by (auto intro!: exI [of _ "(s, ?e) # argv'"])
  qed
qed

lemma map_add_redirs: "map_cmd g (add_redirs c rs) = add_redirs (map_cmd g c) (map (\<lambda>(f, m). (g f, m)) rs)"
  by (induction rs arbitrary: c) auto

lemma map_backs: "map_cmd g ((BACK ^^ k) c) = (BACK ^^ k) (map_cmd g c)"
  by (induction k) simp_all

lemma stops_solid: "stops toks r \<Longrightarrow> set toks \<subseteq> set ''<|>&;()'' \<Longrightarrow> solid r"
  unfolding stops_def solid_def using wchar_facts(3) by blast

lemma stops_weaken: "stops toks r \<Longrightarrow> set toks \<subseteq> set toks' \<Longrightarrow> stops toks' r"
  by (auto simp: stops_def)

lemma stops_backs: "stops toks r \<Longrightarrow> CHR ''&'' \<in> set toks \<Longrightarrow> stops toks (replicate k (CHR ''&'') @ r)"
  by (cases k) (auto simp: stops_def)

lemma parse_backs_read:
  assumes "drop s buf = replicate k (CHR ''&'') @ b @ r" and "stops '';)'' r" and "gap b"
  shows "parse_backs buf s c = ((BACK ^^ k) c, s + k + length b)"
  using assms(1)
proof (induction k arbitrary: s c)
  case 0
  have "solid r" by (rule stops_solid [OF assms(2)]) simp
  then have "peek buf s ''&'' = (False, s + length b)" using 0 peek_gap [of s buf b r "''&''"] assms(2,3) by (auto simp: stops_def)
  then show ?case by (subst parse_backs.simps) simp
next
  case (Suc k)
  have d: "drop s buf = CHR ''&'' # replicate k (CHR ''&'') @ b @ r" using Suc.prems by simp
  have "peek buf s ''&'' = (True, s)" using peek_solid [OF d, of "''&''"] by (simp add: solid_def whitespace_def)
  moreover have "pass buf s = skip_white buf (s + 1)" using gettoken_symbol(2) [OF d] by simp
  moreover have "parse_backs buf (s + 1) (BACK c) = ((BACK ^^ k) (BACK c), s + 1 + k + length b)" by (rule Suc.IH) (use look_Cons [OF d] in simp)
  ultimately show ?case by (subst parse_backs.simps) (simp add: backcmd_def funpow_swap1 parse_skip)
qed

definition reads :: "string \<Rightarrow> nat \<Rightarrow> string cmd \<Rightarrow> (range cmd \<times> nat) pres \<Rightarrow> bool" where
  "reads buf s t r \<longleftrightarrow> (\<exists>c. r = Ok (c, s) \<and> map_cmd (piece buf) c = t)"

lemma parse_simple_read:
  assumes "drop s buf = show_exec (ASimple ws rs) @ b @ r" and w: "wf_exec (ASimple ws rs)" and r: "stops ''|&;)'' r" and b: "gap b" and "0 < n"
  shows "reads buf (s + length (show_exec (ASimple ws rs)) + length b) (tree_exec (ASimple ws rs)) (parseexec n buf s)"
proof -
  obtain m where n: "n = Suc m" using assms(5) by (cases n) auto
  have d: "drop s buf = show_words ws @ show_redirs rs @ b @ r" using assms(1) by simp
  have wf: "list_all word_ok ws" "length ws < MAXARGS" "redirs_ok rs" using w by simp_all
  define y where "y = (if ws = [] \<and> rs = [] then b else [])"
  define z where "z = (if ws = [] \<and> rs = [] then r else show_words ws @ show_redirs rs @ b @ r)"
  have dz: "drop s buf = y @ z" "gap y" using d b by (simp_all add: y_def z_def)
  have nb: "z = [] \<or> hd z \<noteq> CHR ''('' \<and> hd z \<noteq> NULc \<and> hd z \<notin> set whitespace"
  proof (cases "ws = []")
    case True
    show ?thesis
    proof (cases rs)
      case Nil
      then show ?thesis using True r by (auto simp: z_def stops_def whitespace_def)
    next
      case (Cons a as)
      obtain k f where "a = (k, f)" by (cases a)
      then show ?thesis using True Cons kind_head(1) [of k "f @ show_redirs as @ b @ r"] by (auto simp: z_def whitespace_def)
    qed
  next
    case False
    then show ?thesis using show_words_head [OF wf(1) False, of "show_redirs rs @ b @ r"] wchar_facts(1,2) by (auto simp: z_def)
  qed
  then have so: "solid z" by (auto simp: solid_def)
  have p: "peek buf s ''('' = (False, skip_white buf s)" using peek_gap [OF dz so, of "''(''"] skip_white_gap [OF dz so] nb by auto
  show ?thesis
  proof (cases "ws = []")
    case True
    let ?z = "s + length (show_redirs rs) + length b"
    have d2: "drop s buf = show_redirs rs @ b @ r" using d True by simp
    obtain rs' where rs': "parseredirs buf s [] = Ok ([] @ rs', ?z)" "read_redirs buf rs' = redirs_of rs"
      using parseredirs_read [OF d2 wf(3) r b] by blast
    have d3: "drop ?z buf = [] @ r" using drop_skip [OF drop_skip [OF d2]] by (simp add: add.assoc)
    show ?thesis using p n rs' exec_args_stop [OF d3 r gap_Nil, of "[]" rs'] True by (simp add: reads_def map_add_redirs parse_skip)
  next
    case False
    have "z = [] \<or> hd z \<notin> set ''<>''"
      using show_words_head [OF wf(1) False, of "show_redirs rs @ b @ r"] wchar_facts(2) False by (auto simp: z_def)
    then have "parseredirs buf s [] = Ok ([], s)" by (intro parseredirs_none [OF _ so]) (use dz(1) False in \<open>simp_all add: y_def\<close>)
    moreover obtain argv' rs' where "exec_args buf s [] [] = Ok (argv', rs', s + length (show_words ws) + length (show_redirs rs) + length b)"
      "map (piece buf) argv' = ws" "read_redirs buf rs' = redirs_of rs"
      using exec_args_read [OF d wf(1,3) r b, of "[]" "[]"] False wf(2) by auto
    ultimately show ?thesis using p n by (simp add: reads_def map_add_redirs parse_skip add.assoc)
  qed
qed

lemma parse_read:
  "drop s buf = show_exec e @ b @ r \<Longrightarrow> wf_exec e \<Longrightarrow> stops ''|&;)'' r \<Longrightarrow> gap b \<Longrightarrow> 4 * (length buf - s) + 2 \<le> n
    \<Longrightarrow> reads buf (s + length (show_exec e) + length b) (tree_exec e) (parseexec n buf s)"
  "drop s buf = show_pipe p @ b @ r \<Longrightarrow> wf_pipe p \<Longrightarrow> stops ''&;)'' r \<Longrightarrow> gap b \<Longrightarrow> 4 * (length buf - s) + 3 \<le> n
    \<Longrightarrow> reads buf (s + length (show_pipe p) + length b) (tree_pipe p) (parsepipe n buf s)"
  "drop s buf = show_line l @ b @ r \<Longrightarrow> wf_line l \<Longrightarrow> stops '')'' r \<Longrightarrow> gap b \<Longrightarrow> 4 * (length buf - s) + 4 \<le> n
    \<Longrightarrow> reads buf (s + length (show_line l) + length b) (tree_line l) (parseline n buf s)"
proof (induction e and p and l arbitrary: s b r n and s b r n and s b r n)
  case (ASimple ws rs)
  show ?case by (rule parse_simple_read [OF ASimple(1-4)]) (use ASimple(5) in simp)
next
  case (ABlock l rs)
  obtain m where m: "n = Suc (Suc m)" using ABlock(6) by (cases n; cases "n - 1") auto
  let ?x = "'')'' @ show_redirs rs @ b @ r"
  let ?s1 = "s + 1 + length (show_line l)"
  have wf: "wf_line l" "redirs_ok rs" using ABlock(3) by simp_all
  have d: "drop s buf = CHR ''('' # show_line l @ ?x" using ABlock(2) by simp
  have d1: "drop (s + 1) buf = show_line l @ [] @ ?x" and lt: "s < length buf" using look_Cons [OF d] by simp_all
  have p: "peek buf s ''('' = (True, s)" using peek_solid [OF d, of "''(''"] by (simp add: solid_def whitespace_def)
  have ps: "pass buf s = skip_white buf (s + 1)" using gettoken_symbol(2) [OF d] by simp
  have "reads buf (s + 1 + length (show_line l) + length ([] :: string)) (tree_line l) (parseline m buf (s + 1))"
    by (rule ABlock(1) [OF d1 wf(1)]) (use ABlock(6) m lt in \<open>simp_all add: stops_def\<close>)
  then obtain c where c: "parseline m buf (s + 1) = Ok (c, ?s1)" "map_cmd (piece buf) c = tree_line l" by (auto simp: reads_def)
  have d2: "drop ?s1 buf = CHR '')'' # show_redirs rs @ b @ r" using drop_skip [OF d1] by simp
  have d3: "drop (?s1 + 1) buf = show_redirs rs @ b @ r" using look_Cons [OF d2] by simp
  have p2: "peek buf ?s1 '')'' = (True, ?s1)" using peek_solid [OF d2, of "'')''"] by (simp add: solid_def whitespace_def)
  have ps2: "pass buf ?s1 = skip_white buf (?s1 + 1)" using gettoken_symbol(2) [OF d2] by simp
  obtain rs' where rs': "parseredirs buf (?s1 + 1) [] = Ok ([] @ rs', ?s1 + 1 + length (show_redirs rs) + length b)" "read_redirs buf rs' = redirs_of rs"
    using parseredirs_read [OF d3 wf(2) ABlock(4,5), of "[]"] by blast
  have "parseexec n buf s = Ok (add_redirs c rs', ?s1 + 1 + length (show_redirs rs) + length b)"
    using m p c(1) p2 rs'(1) ps ps2 by (simp add: parse_skip parse_skip_rec)
  then show ?case using c(2) rs'(2) by (simp add: reads_def map_add_redirs add.assoc)
next
  case (AOne e)
  obtain m where m: "n = Suc m" using AOne(6) by (cases n) auto
  let ?s1 = "s + length (show_exec e) + length b"
  have r: "stops ''|&;)'' r" by (rule stops_weaken [OF AOne(4)]) simp
  have d: "drop s buf = show_exec e @ b @ r" using AOne(2) by simp
  have "reads buf ?s1 (tree_exec e) (parseexec m buf s)" by (rule AOne(1) [OF d _ r AOne(5)]) (use AOne(3,6) m in simp_all)
  then obtain c where c: "parseexec m buf s = Ok (c, ?s1)" "map_cmd (piece buf) c = tree_exec e" by (auto simp: reads_def)
  have "solid r" by (rule stops_solid [OF AOne(4)]) simp
  then have "peek buf ?s1 ''|'' = (False, ?s1)"
    using peek_solid [OF drop_skip [OF drop_skip [OF d]], of "''|''"] AOne(4) by (auto simp: stops_def)
  then show ?case using m c by (simp add: reads_def)
next
  case (APipe e p)
  obtain m where m: "n = Suc m" using APipe(7) by (cases n) auto
  let ?s1 = "s + length (show_exec e)"
  have d: "drop s buf = show_exec e @ [] @ ''|'' @ show_pipe p @ b @ r" using APipe(3) by simp
  have d1: "drop ?s1 buf = CHR ''|'' # show_pipe p @ b @ r" using drop_skip [OF d] by simp
  have d2: "drop (?s1 + 1) buf = show_pipe p @ b @ r" and lt: "?s1 < length buf" using look_Cons [OF d1] by simp_all
  have "reads buf (s + length (show_exec e) + length ([] :: string)) (tree_exec e) (parseexec m buf s)"
    by (rule APipe(1) [OF d]) (use APipe(4,7) m in \<open>simp_all add: stops_def\<close>)
  then obtain c where c: "parseexec m buf s = Ok (c, ?s1)" "map_cmd (piece buf) c = tree_exec e" by (auto simp: reads_def)
  have p: "peek buf ?s1 ''|'' = (True, ?s1)" using peek_solid [OF d1, of "''|''"] by (simp add: solid_def whitespace_def)
  have ps: "pass buf ?s1 = skip_white buf (?s1 + 1)" using gettoken_symbol(2) [OF d1] by simp
  have "reads buf (?s1 + 1 + length (show_pipe p) + length b) (tree_pipe p) (parsepipe m buf (?s1 + 1))"
    by (rule APipe(2) [OF d2 _ APipe(5,6)]) (use APipe(4,7) m lt in simp_all)
  then show ?case using m c p by (auto simp: reads_def pipecmd_def ps parse_skip_rec)
next
  case (ALine p k)
  obtain m where m: "n = Suc m" using ALine(6) by (cases n) auto
  have r: "stops '';)'' r" by (rule stops_weaken [OF ALine(4)]) simp
  define y where "y = (if k = 0 then b else [])"
  define z where "z = (if k = 0 then r else replicate k (CHR ''&'') @ b @ r)"
  have d: "drop s buf = show_pipe p @ y @ z" using ALine(2) by (simp add: y_def z_def)
  have "stops ''&;)'' z" "gap y" using ALine(4,5) by (cases k; auto simp: stops_def y_def z_def)+
  then have "reads buf (s + length (show_pipe p) + length y) (tree_pipe p) (parsepipe m buf s)"
    by (intro ALine(1) [OF d]) (use ALine(3,6) m in simp_all)
  then obtain c where c: "parsepipe m buf s = Ok (c, s + length (show_pipe p) + length y)" "map_cmd (piece buf) c = tree_pipe p" by (auto simp: reads_def)
  have d1: "drop (s + length (show_pipe p) + length y) buf = z" by (rule drop_skip [OF drop_skip [OF d]])
  let ?t = "s + length (show_line (ALine p k)) + length b"
  have b: "parse_backs buf (s + length (show_pipe p) + length y) c = ((BACK ^^ k) c, ?t)"
  proof (cases "k = 0")
    case True
    then have "drop (s + length (show_pipe p) + length y) buf = replicate k (CHR ''&'') @ [] @ r" using d1 by (simp add: z_def)
    from parse_backs_read [OF this r gap_Nil] True show ?thesis by (simp add: y_def)
  next
    case False
    then have "drop (s + length (show_pipe p) + length y) buf = replicate k (CHR ''&'') @ b @ r" using d1 by (simp add: z_def)
    from parse_backs_read [OF this r ALine(5)] False show ?thesis by (simp add: y_def)
  qed
  have "drop s buf = show_line (ALine p k) @ b @ r" using ALine(2) .
  then have "drop ?t buf = r" using drop_skip [OF drop_skip] by blast
  then have "peek buf ?t '';'' = (False, ?t)" using peek_solid [of ?t buf r "'';''"] stops_solid [OF ALine(4)] ALine(4) by (auto simp: stops_def)
  then show ?case using m b c by (simp add: reads_def map_backs)
next
  case (ASeq p k l)
  obtain m where m: "n = Suc m" using ASeq(7) by (cases n) auto
  let ?s1 = "s + length (show_pipe p)" and ?x = "CHR '';'' # show_line l @ b @ r"
  have d: "drop s buf = show_pipe p @ [] @ replicate k (CHR ''&'') @ ?x" using ASeq(3) by simp
  have rk: "stops ''&;)'' (replicate k (CHR ''&'') @ ?x)" by (rule stops_backs) (simp_all add: stops_def)
  have "reads buf (s + length (show_pipe p) + length ([] :: string)) (tree_pipe p) (parsepipe m buf s)"
    by (rule ASeq(1) [OF d _ rk]) (use ASeq(4,7) m in simp_all)
  then obtain c where c: "parsepipe m buf s = Ok (c, ?s1)" "map_cmd (piece buf) c = tree_pipe p" by (auto simp: reads_def)
  have d0: "drop ?s1 buf = replicate k (CHR ''&'') @ [] @ ?x" using drop_skip [OF d] by simp
  have b: "parse_backs buf ?s1 c = ((BACK ^^ k) c, ?s1 + k)" using parse_backs_read [OF d0] by (simp add: stops_def)
  have d1: "drop (?s1 + k) buf = ?x" using drop_skip [OF d0] by simp
  have d2: "drop (?s1 + k + 1) buf = show_line l @ b @ r" and lt: "?s1 + k < length buf" using look_Cons [OF d1] by simp_all
  have q: "peek buf (?s1 + k) '';'' = (True, ?s1 + k)" using peek_solid [OF d1, of "'';''"] by (simp add: solid_def whitespace_def)
  have ps: "pass buf (?s1 + k) = skip_white buf (?s1 + k + 1)" using gettoken_symbol(2) [OF d1] by simp
  have "reads buf (?s1 + k + 1 + length (show_line l) + length b) (tree_line l) (parseline m buf (?s1 + k + 1))"
    by (rule ASeq(2) [OF d2 _ ASeq(5,6)]) (use ASeq(4,7) m lt in simp_all)
  then show ?case using m c b q by (auto simp: reads_def listcmd_def map_backs ps parse_skip_rec)
qed


lemma no_NUL_word: "word_ok w \<Longrightarrow> NULc \<notin> set w"
  by (auto simp: word_ok_def list_all_iff)

lemma no_NUL_words: "list_all word_ok ws \<Longrightarrow> NULc \<notin> set (show_words ws)"
  by (induction ws rule: show_words.induct) (auto simp: no_NUL_word)

lemma no_NUL_redirs: "redirs_ok rs \<Longrightarrow> NULc \<notin> set (show_redirs rs)"
proof (induction rs)
  case (Cons a rs)
  obtain k f where a: "a = (k, f)" by (cases a)
  have "NULc \<notin> set (show_kind k)" by (cases k) simp_all
  then show ?case using Cons a no_NUL_word by (auto simp: redirs_ok_def)
qed simp

lemma no_NUL:
  "wf_exec e \<Longrightarrow> NULc \<notin> set (show_exec e)" "wf_pipe p \<Longrightarrow> NULc \<notin> set (show_pipe p)" "wf_line l \<Longrightarrow> NULc \<notin> set (show_line l)"
  by (induction e and p and l) (auto simp: no_NUL_words no_NUL_redirs)

text \<open>
  C12. Writing and reading: a line that is written according to the grammar, with blanks or a newline behind it, is
  accepted by \<open>parsecmd\<close>, and the command it returns, with every word read as the C string at its position, is
  the tree of the sentence: sequences and pipes to the right, \<open>&\<close> around a pipe, redirections around a command or
  a block in the order they were written.
\<close>

theorem parsecmd_roundtrip:
  assumes "wf_line l" and "list_all (\<lambda>c. c \<in> set whitespace) b"
  shows "\<exists>c m. parsecmd (show_line l @ b) = Ok (c, m) \<and> map_cmd (\<lambda>f. cstr_at m (fst f)) c = tree_line l"
proof -
  let ?buf = "show_line l @ b"
  have d: "drop 0 ?buf = show_line l @ b @ []" by simp
  have b: "gap b" using assms(2) by (simp add: gap_def)
  have "reads ?buf (0 + length (show_line l) + length b) (tree_line l) (parseline (4 * length ?buf + 4) ?buf 0)"
    by (rule parse_read(3) [OF d assms(1) _ b]) (simp_all add: stops_def)
  then obtain c where c: "parseline (4 * length ?buf + 4) ?buf 0 = Ok (c, length ?buf)" "map_cmd (piece ?buf) c = tree_line l"
    by (auto simp: reads_def)
  have "parsed ?buf 0 (cmd_ok ?buf) (parseline (4 * length ?buf + 4) ?buf 0)" by (rule parse_total) simp_all
  then have w: "\<forall>f\<in>set_cmd c. word_range ?buf f" using c(1) by (simp add: cmd_ok_def words_in_def)
  have "NULc \<notin> set whitespace" by (simp add: whitespace_def)
  then have n: "NULc \<notin> set ?buf" using no_NUL(3) [OF assms(1)] assms(2) by (auto simp: list_all_iff)
  have "snd (peek ?buf (length ?buf) '''') = length ?buf" by (simp add: peek_def skip_white_def)
  then have "parsecmd ?buf = Ok (c, nulterminate c (?buf @ [NULc]))" using c(1) by (simp add: parsecmd_def split_beta)
  moreover have "map_cmd (\<lambda>f. cstr_at (nulterminate c (?buf @ [NULc])) (fst f)) c = map_cmd (piece ?buf) c"
    by (rule cmd.map_cong0) (rule cstr_at_piece [OF w _ n])
  ultimately show ?thesis using c(2) by simp
qed

theorem parsecmd_roundtrip_witness:
  "\<exists>c m. parsecmd ''ls -l|(wc<a;echo b)>>c&'' = Ok (c, m) \<and> map_cmd (\<lambda>f. cstr_at m (fst f)) c
     = BACK (PIPE (EXEC [''ls'', ''-l'']) (REDIR (LIST (REDIR (EXEC [''wc'']) ''a'' O_RDONLY 0) (EXEC [''echo'', ''b''])) ''c'' (O_WRONLY OR O_CREATE) 1))"
proof -
  let ?l = "ALine (APipe (ASimple [''ls'', ''-l''] [])
    (AOne (ABlock (ASeq (AOne (ASimple [''wc''] [(Input, ''a'')])) 0 (ALine (AOne (ASimple [''echo'', ''b''] [])) 0)) [(Append, ''c'')]))) 1"
  have "wf_line ?l" by (simp add: word_ok_def redirs_ok_def wchar_def whitespace_def symbols_def MAXARGS_def)
  from parsecmd_roundtrip [OF this, of "[]"] show ?thesis by (simp add: redirs_of_def)
qed

end
