(* ===== verification/Shrun.thy ===== *)
theory Shrun
  imports Shparse
begin

text \<open>
  Correctness of \<open>runcmd\<close> of \<open>labo2/user/sh.c\<close>: which programs a command runs, and with which descriptors.
\<close>

subsection \<open>The meaning of a command\<close>

text \<open>
  The programs that a command starts, with their descriptors, in the order of the code; \<open>n\<close> numbers the pipes.
\<close>

primrec meaning :: "string cmd \<Rightarrow> fdtab \<Rightarrow> nat \<Rightarrow> (string list \<times> fdtab) list \<times> nat" where
  "meaning (EXEC ws) T n = (if ws = [] then [] else [(ws, T)], n)"
| "meaning (REDIR c f mode fd) T n = meaning c (T(fd \<mapsto> File f mode)) n"
| "meaning (LIST l r) T n = (let (a, n) = meaning l T n; (b, n) = meaning r T n in (a @ b, n))"
| "meaning (PIPE l r) T n =
     (let (a, m) = meaning l (T(1 \<mapsto> PipeW n)) (n + 1); (b, m) = meaning r (T(0 \<mapsto> PipeR n)) m in (a @ b, m))"
| "meaning (BACK c) T n = meaning c T n"

primrec execs :: "uend list \<Rightarrow> (string list \<times> fdtab) list" where
  "execs [] = []"
| "execs (e # es) = (case e of UExec ws T \<Rightarrow> [(ws, T)] | UExit x T msgs \<Rightarrow> []) @ execs es"

lemma execs_append [simp]: "execs (a @ b) = execs a @ execs b"
  by (induction a) simp_all

text \<open>Standard input, output and error are open, nothing else is.\<close>

definition std :: "fdtab \<Rightarrow> bool" where
  "std T \<longleftrightarrow> T 0 \<noteq> None \<and> T 1 \<noteq> None \<and> T 2 \<noteq> None \<and> (\<forall>i\<ge>3. T i = None)"

lemma lowest_eq: "i < NOFILE \<Longrightarrow> T i = None \<Longrightarrow> (\<And>j. j < i \<Longrightarrow> T j \<noteq> None) \<Longrightarrow> lowest T = Some i"
  unfolding lowest_def find_Some_iff by (intro exI [of _ i]) simp

lemma std_lowest:
  assumes "std T"
  shows "lowest T = Some 3" "lowest (T(3 \<mapsto> d)) = Some 4" "lowest (T(0 := None, 3 \<mapsto> d, 4 \<mapsto> e)) = Some 0"
    "lowest (T(Suc 0 := None, 3 \<mapsto> d, 4 \<mapsto> e)) = Some 1" "fd < 2 \<Longrightarrow> lowest (T(fd := None)) = Some fd"
proof -
  have three: "j < 3 \<Longrightarrow> T j \<noteq> None" for j :: nat
  proof -
    assume "j < 3"
    then have "j = 0 \<or> j = 1 \<or> j = 2" by auto
    then show ?thesis using assms by (auto simp: std_def)
  qed
  show "lowest T = Some 3" by (rule lowest_eq) (use assms three in \<open>auto simp: std_def NOFILE_def\<close>)
  have "T j \<noteq> None \<or> j = 3" if "j < 4" for j using three [of j] that by (cases "j = 3") auto
  then show "lowest (T(3 \<mapsto> d)) = Some 4" by (intro lowest_eq) (use assms in \<open>auto simp: std_def NOFILE_def\<close>)
  show "lowest (T(0 := None, 3 \<mapsto> d, 4 \<mapsto> e)) = Some 0" by (rule lowest_eq) (auto simp: NOFILE_def)
  show "lowest (T(Suc 0 := None, 3 \<mapsto> d, 4 \<mapsto> e)) = Some 1" by (rule lowest_eq) (use three in \<open>auto simp: NOFILE_def\<close>)
  show "lowest (T(fd := None)) = Some fd" if "fd < 2" by (rule lowest_eq) (use three that in \<open>auto simp: NOFILE_def\<close>)
qed

lemma std_upd: "std T \<Longrightarrow> fd < 3 \<Longrightarrow> std (T(fd \<mapsto> d))"
  by (auto simp: std_def)

text \<open>The two children of a pipe close everything but the end they use.\<close>

lemma pipe_children:
  assumes "std T"
  shows "u_close 4 (u_close 3 (u_dup 4 (u_close (Suc 0) (T(3 \<mapsto> r, 4 \<mapsto> w))))) = T(1 \<mapsto> w)"
    "u_close 4 (u_close 3 (u_dup 3 (u_close 0 (T(3 \<mapsto> r, 4 \<mapsto> w))))) = T(0 \<mapsto> r)"
proof -
  have t: "T 3 = None" "T 4 = None" using assms by (auto simp: std_def)
  have a: "(T(3 \<mapsto> r, 4 \<mapsto> w))(Suc 0 := None) = T(Suc 0 := None, 3 \<mapsto> r, 4 \<mapsto> w)" "(T(3 \<mapsto> r, 4 \<mapsto> w))(0 := None) = T(0 := None, 3 \<mapsto> r, 4 \<mapsto> w)"
    by (auto simp: fun_eq_iff)
  show "u_close 4 (u_close 3 (u_dup 4 (u_close (Suc 0) (T(3 \<mapsto> r, 4 \<mapsto> w))))) = T(1 \<mapsto> w)"
    unfolding u_close_def a u_dup_def using t by (simp add: std_lowest [OF assms]) (auto simp: fun_eq_iff)
  show "u_close 4 (u_close 3 (u_dup 3 (u_close 0 (T(3 \<mapsto> r, 4 \<mapsto> w))))) = T(0 \<mapsto> r)"
    unfolding u_close_def a u_dup_def using t by (simp add: std_lowest [OF assms]) (auto simp: fun_eq_iff)
qed

lemma u_pipe_std:
  "std T \<Longrightarrow> u_pipe F T w = (if F (calls w) then (None, T, w\<lparr>calls := calls w + 1\<rparr>)
     else (Some (3, 4), T(3 \<mapsto> PipeR (npipe w), 4 \<mapsto> PipeW (npipe w)), w\<lparr>calls := calls w + 1, npipe := npipe w + 1\<rparr>))"
  by (simp add: u_pipe_def uask_def std_lowest)

lemma u_open_std:
  "std T \<Longrightarrow> fd < 2 \<Longrightarrow> u_open F f mode (u_close fd T) w = (if F (calls w) then (None, T(fd := None), w\<lparr>calls := calls w + 1\<rparr>)
     else (Some fd, T(fd \<mapsto> File f mode), w\<lparr>calls := calls w + 1\<rparr>))"
  by (simp add: u_open_def uask_def u_close_def std_lowest)

lemma runcmd_std:
  "std T \<Longrightarrow> std_redirs c \<Longrightarrow> \<forall>(ws, U)\<in>set (execs (fst (runcmd F m c T w))). std U"
proof (induction c arbitrary: T w)
  case (PIPE l r)
  have l: "\<forall>(ws, U)\<in>set (execs (fst (runcmd F m l (T(1 \<mapsto> d)) w))). std U" for d w by (rule PIPE.IH(1) [OF std_upd [OF PIPE.prems(1)]]) (use PIPE.prems(2) in simp_all)
  have r: "\<forall>(ws, U)\<in>set (execs (fst (runcmd F m r (T(0 \<mapsto> d)) w))). std U" for d w by (rule PIPE.IH(2) [OF std_upd [OF PIPE.prems(1)]]) (use PIPE.prems(2) in simp_all)
  show ?case using l r by (auto simp: u_pipe_std [OF PIPE.prems(1)] pipe_children [OF PIPE.prems(1)] uask_def split: prod.splits if_splits) (metis case_prodD fst_conv)+
next
  case (REDIR c f mode fd)
  have fd: "fd < 3" using REDIR.prems(2) by simp
  have "\<forall>(ws, U)\<in>set (execs (fst (runcmd F m c (T(fd \<mapsto> d)) w))). std U" for d w
    by (rule REDIR.IH [OF std_upd [OF REDIR.prems(1) fd]]) (use REDIR.prems(2) in simp)
  then show ?case using REDIR.prems by (simp add: u_open_std)
next
  case (LIST l r)
  have l: "\<forall>(ws, U)\<in>set (execs (fst (runcmd F m l T w))). std U" for w by (rule LIST.IH(1) [OF LIST.prems(1)]) (use LIST.prems(2) in simp)
  have r: "\<forall>(ws, U)\<in>set (execs (fst (runcmd F m r T w))). std U" for w by (rule LIST.IH(2) [OF LIST.prems(1)]) (use LIST.prems(2) in simp)
  show ?case using l r by (auto simp: uask_def split: prod.splits if_splits) (metis case_prodD fst_conv)+
next
  case (BACK c)
  then show ?case by (auto simp: uask_def split_beta)
qed (auto simp: uask_def Let_def split_beta)

lemma runcmd_meaning:
  "std T \<Longrightarrow> std_redirs c \<Longrightarrow> execs (fst (runcmd (\<lambda>_. False) m c T w)) = fst (meaning (map_cmd (\<lambda>f. cstr_at m (fst f)) c) T (npipe w))
     \<and> npipe (snd (runcmd (\<lambda>_. False) m c T w)) = snd (meaning (map_cmd (\<lambda>f. cstr_at m (fst f)) c) T (npipe w))"
proof (induction c arbitrary: T w)
  case (PIPE l r)
  let ?F = "\<lambda>_. False" and ?t = "map_cmd (\<lambda>f. cstr_at m (fst f))"
  have l: "execs (fst (runcmd ?F m l (T(1 \<mapsto> d)) w)) = fst (meaning (?t l) (T(1 \<mapsto> d)) (npipe w))
    \<and> npipe (snd (runcmd ?F m l (T(1 \<mapsto> d)) w)) = snd (meaning (?t l) (T(1 \<mapsto> d)) (npipe w))" for d w
    by (rule PIPE.IH(1) [OF std_upd [OF PIPE.prems(1)]]) (use PIPE.prems(2) in simp_all)
  have r: "execs (fst (runcmd ?F m r (T(0 \<mapsto> d)) w)) = fst (meaning (?t r) (T(0 \<mapsto> d)) (npipe w))
    \<and> npipe (snd (runcmd ?F m r (T(0 \<mapsto> d)) w)) = snd (meaning (?t r) (T(0 \<mapsto> d)) (npipe w))" for d w
    by (rule PIPE.IH(2) [OF std_upd [OF PIPE.prems(1)]]) (use PIPE.prems(2) in simp_all)
  show ?case using l r by (simp add: u_pipe_std [OF PIPE.prems(1)] pipe_children [OF PIPE.prems(1)] uask_def split_beta Let_def)
next
  case (REDIR c f mode fd)
  let ?T = "T(fd \<mapsto> File (cstr_at m (fst f)) mode)" and ?w = "w\<lparr>calls := calls w + 1\<rparr>"
  have fd: "fd < 3" using REDIR.prems(2) by simp
  have "execs (fst (runcmd (\<lambda>_. False) m c ?T ?w)) = fst (meaning (map_cmd (\<lambda>f. cstr_at m (fst f)) c) ?T (npipe ?w))
    \<and> npipe (snd (runcmd (\<lambda>_. False) m c ?T ?w)) = snd (meaning (map_cmd (\<lambda>f. cstr_at m (fst f)) c) ?T (npipe ?w))"
    by (rule REDIR.IH [OF std_upd [OF REDIR.prems(1) fd]]) (use REDIR.prems(2) in simp)
  then show ?case using REDIR.prems by (simp add: u_open_std)
qed (simp_all add: uask_def split_beta Let_def)

text \<open>
  C26. \<open>runcmd\<close>, started with the three standard descriptors: when no call fails, it starts exactly the programs that the
  command means, each with its redirections and pipe ends in place of standard input and output; and whatever
  fails, no program ever inherits another descriptor, so that a reader of a pipe sees its end.
\<close>

theorem runcmd_correct:
  assumes "std T" and "std_redirs c"
  shows "execs (fst (runcmd (\<lambda>_. False) m c T w)) = fst (meaning (map_cmd (\<lambda>f. cstr_at m (fst f)) c) T (npipe w))
    \<and> (\<forall>F. \<forall>(ws, U)\<in>set (execs (fst (runcmd F m c T w))). std U)"
  using runcmd_meaning [OF assms] runcmd_std [OF assms] by blast

definition std0 :: fdtab where
  "std0 = (\<lambda>i. if i < 3 then Some Console else None)"

theorem runcmd_correct_witness:
  "case parsecmd ''ls|wc>f'' of Ok (c, m) \<Rightarrow>
     execs (fst (runcmd (\<lambda>_. False) m c std0 \<lparr>calls = 0, npipe = 0\<rparr>))
       = [([''ls''], std0(1 \<mapsto> PipeW 0)), ([''wc''], std0(0 \<mapsto> PipeR 0, 1 \<mapsto> File ''f'' 0x601))] | _ \<Rightarrow> False"
proof -
  let ?c = "PIPE (EXEC [(0, 2)]) (REDIR (EXEC [(3, 5)]) (6, 7) 0x601 1)" and ?m = "[CHR ''l'', CHR ''s'', NULc, CHR ''w'', CHR ''c'', NULc, CHR ''f'', NULc]"
  have p: "parsecmd ''ls|wc>f'' = Ok (?c, ?m)" by code_simp
  have "std std0" "std_redirs ?c" by (auto simp: std_def std0_def)
  from runcmd_correct [OF this, of ?m "\<lparr>calls = 0, npipe = 0\<rparr>"] show ?thesis unfolding p by (simp add: cstr_at_def)
qed

end
