(* ===== verification/Spec2Isabelle.thy ===== *)
theory Spec2Isabelle
  imports Mybash Syscall Console Grep Shgrammar Shrun
begin

text \<open>
  Verification of two C programs of the repository: the shell \<open>mybash\<close> (\<open>src/kickstart/\<close>) and a version of the xv6 kernel for RISC-V
  with semaphores added, together with some of its user programs (\<open>src/labo2/\<close>). The programs are translated by hand
  into functions of HOL, function by function and under their C names, and the theorems are about those functions.

  \<^bold>\<open>How the code is translated\<close>

  \<^item> A \<open>struct\<close> is a \<open>record\<close>, an \<open>enum\<close> a \<open>datatype\<close>, a C integer a word of its width (\<open>cint\<close>, \<open>uint\<close>, \<open>uint64\<close>, \<open>uchar\<close>,
    \<open>ushort\<close> in the theory Prelude), read with \<open>sint\<close> or \<open>unat\<close> as its C type says, so that wrap-around is that of the machine.
    An index or a count that the code cannot make negative or large is a \<open>nat\<close>.
  \<^item> A C function that changes state takes the state last and returns it. The result \<open>None\<close> stands for every way not to
    return: \<open>panic\<close>, a failed \<open>assert\<close>, undefined behaviour such as a null pointer, spinning on a lock for ever, and, in the
    layers that are followed through one kernel thread, waiting for another thread. A theorem that a call returns
    therefore says that none of these happens. Error codes are ordinary results.
  \<^item> A loop is a recursive function: structural or with a termination proof where it ends on every input, and a
    \<open>partial_function (option)\<close> where it need not (a walk along a linked list in memory, a scan for a null byte, a loop until the device answers). Two functions
    take fuel. \<open>parsecmd\<close> of the xv6 shell gives its mutually recursive parser \<open>4 * length + 4\<close> units, and
    the theory Shparse shows that this is always enough; \<open>freerange\<close> gives its loop as many units
    as there are addresses below the end, more than there are pages, which \<open>freerange_loop_spec\<close> shows to be enough.
  \<^item> A function that switches to another process is cut there. \<open>f\<close> returns \<open>Asleep k s\<close> when it has put the caller to sleep,
    with the local variables it needs later in \<open>k\<close>, and \<open>f_resume\<close> continues after the scheduler has picked the process again.
  \<^item> The kernel's state is one chain of records, each layer adding its variables:
    \<open>kcpu\<close> (harts, interrupt flags, spinlocks), \<open>kproc\<close> (process table, trap frames, clock), \<open>ksem\<close>, \<open>kmem\<close> (memory and its free
    list), \<open>kvm\<close>, \<open>kslk\<close> (sleep locks), \<open>kpipe\<close>, \<open>kbio\<close> (buffer cache, disk), \<open>klog\<close>, \<open>kfs\<close> (inodes), \<open>kfile\<close> (file table), \<open>kuart\<close> and \<open>kcons\<close>. A
    function is polymorphic in what lies above it, so it provably leaves that alone.
  \<^item> Memory is a function from addresses to bytes. Page tables, the free list, user memory and the arguments of system calls
    are bytes in it. Trap frames, pipes, buffers and inodes are records of their own, found by the address of their page or
    their index; their pages are still taken from and returned to the free list.

  \<^bold>\<open>mybash\<close>

  \<^item> \<open>Strextra\<close> (\<open>strextra.c\<close>): \<open>strmerge\<close> over C buffers with a null byte.
  \<^item> \<open>Command\<close> (\<open>command.c\<close>): the types \<open>scommand\<close> and \<open>pipeline\<close>. GLib's \<open>GQueue\<close> is not in the repository; it is a parameter, and the
    locale \<open>gqueue\<close> states what its manual promises. \<open>scommand_queue\<close> and \<open>pipeline_queues\<close> extend it and prove that the
    operations implement a sequence, and what \<open>to_string\<close> prints.
  \<^item> \<open>Parsing\<close>, \<open>Line\<close> (\<open>parsing.c\<close>): \<open>parse_scommand\<close> and \<open>parse_pipeline\<close>. The lexical parser is shipped as an object file; the locale \<open>lexer\<close>
    states what \<open>parser.h\<close> documents of its operations before the end of the input, where each of them requires to be called, and \<open>word_lexer\<close>
    extends it by what the examples there say of words and redirections. \<open>pipeline_parser\<close> joins the lexer with the queues: the parser
    returns and consumes exactly one line. \<open>Line\<close> has a grammar of lines with the pipeline each one denotes, and shows that
    \<open>parse_pipeline\<close> builds that pipeline, reports a syntax error or finds garbage; the line that \<open>pipeline_to_string\<close> prints is read back.
    Both locales are interpreted on a lexer over strings.
  \<^item> \<open>Posix\<close>, \<open>Builtin\<close>, \<open>Execute\<close> (\<open>builtin.c\<close>, \<open>execute.c\<close>): descriptors, pipes, processes and the system calls the shell makes. A call that can
    fail takes its outcome from a script. \<open>waitpid\<close> returns only if the children it waits for end, which is a field of the state. Built-in
    commands; and the wiring of a pipeline, for every number of commands: each child reads the pipe
    before it and writes the one after it, and nobody keeps an end it does not use.
  \<^item> \<open>Mybash\<close> (\<open>mybash.c\<close>): the main loop over all the above. On an input of whole lines it ends, unless it waits for a child that never ends
    or a line with garbage makes it use a destroyed parser.

  \<^bold>\<open>The kernel\<close>

  \<^item> \<open>Spinlock\<close> (\<open>spinlock.c\<close>): \<open>push_off\<close>/\<open>pop_off\<close>, \<open>acquire\<close>, \<open>release\<close>. The contention of all harts for a lock is the step
    relation \<open>lock_step\<close>, one step per access to the shared lock word (the two reads in \<open>holding\<close>, of the lock word and of its owner, are one step);
    mutual exclusion is its invariant. Everywhere else a critical section is
    reasoned about with \<open>within h lk s\<close>, the state inside it.
  \<^item> \<open>Proc\<close> (\<open>proc.c\<close>, first part): the process table, \<open>scheduler\<close>, \<open>sched\<close>, \<open>yield\<close>, \<open>sleep\<close>, \<open>wakeup\<close>, \<open>kill\<close>. Reachable states of the relation of
    whole scheduling actions keep every running process on one hart and no lock held across a switch; no action
    panics or spins.
  \<^item> \<open>Sem\<close> (\<open>sysproc.c\<close>, \<open>syscall.c\<close>): the four semaphore calls on one hart, and \<open>sem_step\<close>, in which any number of processes execute
    \<open>sem_down\<close> and \<open>sem_up\<close> (\<open>sysproc.c\<close>) with all interleavings inside \<open>sleep\<close> and \<open>wakeup\<close> (\<open>proc.c\<close>): no wake-up is lost and units are counted
    exactly. \<open>sem_open\<close> and \<open>sem_close\<close> are not steps of that relation.
  \<^item> \<open>Cmem\<close> (\<open>string.c\<close>, \<open>ulib.c\<close>), \<open>Printf\<close> (both \<open>printf.c\<close>): memory and string functions; formatted output.
  \<^item> \<open>Kalloc\<close> (\<open>kalloc.c\<close>): the free list threaded through memory. The locale \<open>page_allocator\<close> is its contract, interpreted as
    \<open>kpa\<close> on \<open>kalloc\<close> and \<open>kfree\<close>.
  \<^item> \<open>Vm\<close>, \<open>Ucopy\<close>, \<open>Vmfree\<close> (\<open>vm.c\<close>): page tables as three-level trees in memory. \<open>translate\<close> is the abstract mapping; \<open>mappages\<close> changes it on
    exactly the pages of a range, \<open>copyout\<close> and \<open>copyin\<close> are inverse, and freeing an address space returns exactly its pages.
  \<^item> \<open>Sleeplock\<close> (\<open>sleeplock.c\<close>), \<open>Pipe\<close> (\<open>pipe.c\<close>): a pipe is a queue of bytes (locale \<open>byte_queue\<close>, interpreted as \<open>pq\<close> on the ring in
    the pipe's page).
  \<^item> \<open>Bio\<close> (\<open>bio.c\<close>), \<open>Log\<close>, \<open>Txn\<close> (\<open>log.c\<close>): the buffer cache, with its linked list, is transparent (locale \<open>buffer_cache\<close>, interpretation
    \<open>bc\<close>); an operation between \<open>begin_op\<close> and \<open>end_op\<close> survives a crash at any disk write entirely or not at all; inside an
    operation the layers above see a plain store of blocks (locale \<open>block_store\<close>, interpretation \<open>tx\<close>).
  \<^item> \<open>Fs\<close>, \<open>Contents\<close>, \<open>Dir\<close> (\<open>fs.c\<close>): block and inode allocation, \<open>bmap\<close>, \<open>readi\<close>, \<open>writei\<close>, directories and path names.
  \<^item> \<open>File\<close> (\<open>file.c\<close>, \<open>pipealloc\<close>), \<open>Sysfile\<close> (\<open>sysfile.c\<close>): the file table and the system calls on files. \<open>dup\<close> is undone by \<open>close\<close>, and \<open>pipe\<close>
    leaks nothing on any of its failures.
  \<^item> \<open>Procs\<close>, \<open>Waiting\<close> (\<open>proc.c\<close>, second part): creation, \<open>fork\<close>, \<open>exit\<close> and \<open>wait\<close>. A process gives back exactly the pages it took; nobody
    sleeps in \<open>wait\<close> beside a zombie child.
  \<^item> \<open>Exec\<close> (\<open>exec.c\<close>, \<open>elf.h\<close>), \<open>Syscall\<close> (\<open>sysproc.c\<close>, \<open>syscall.c\<close>, the clock of \<open>trap.c\<close>): loading a program, the other system calls and their
    dispatch. A new program finds its arguments on its stack. \<open>sleep\<close> returns at the tick it was asked for.
  \<^item> \<open>Ring\<close>, \<open>Uart\<close>, \<open>Console\<close> (\<open>uart.c\<close>, \<open>console.c\<close>): ring buffers with free-running indices (locale \<open>ring\<close>, interpreted as \<open>ur\<close> and \<open>cr\<close> on
    both buffers); output is a queue; input is a line editor on lists of characters, with its echo.

  \<^bold>\<open>User programs\<close>

  \<^item> \<open>Sh\<close>, \<open>Shparse\<close>, \<open>Shgrammar\<close>, \<open>Shrun\<close> (\<open>user/sh.c\<close>): the shell's parser over positions in the line, its grammar and the round trip,
    and \<open>runcmd\<close> over a table of descriptors. A child of \<open>runcmd\<close> is run to its end where it is forked, so \<open>wait(0)\<close>, which only waits for it, has
    no counterpart.
  \<^item> \<open>Grep\<close> (\<open>user/grep.c\<close>): the matcher against the meaning of a pattern, and the loop over the input against its lines.

  \<^bold>\<open>What the theorems assume\<close>

  Hypotheses of the form \<open>in_call h p s\<close> say that process \<open>p\<close> runs on hart \<open>h\<close> in a system call, with interrupts consistent and no
  lock held; \<open>calm\<close> and \<open>hart_ok\<close> are the parts of it that concern one hart. Invariants of the layers (\<open>free_inv\<close>, \<open>pt_wf\<close>, \<open>tbl\<close>,
  \<open>cached\<close>, \<open>in_tx\<close>, \<open>files_ok\<close>, \<open>tx_ok\<close>, \<open>cons_ok\<close>) are established on concrete states by the witness of each theorem. The buffer
  cache, log, file system, file table and the calls on them are followed through one kernel thread: other threads
  may hold nothing that it needs. Interleaving of threads is treated where the code depends on it: spinlocks, scheduling,
  semaphores, and every place where a caller sleeps.

  Some C integers are unbounded here because the code keeps them small: the nesting depth \<open>noff\<close> of \<open>push_off\<close> is an \<open>int\<close>, and the length of a \<open>GQueue\<close> a \<open>nat\<close> (GLib's \<open>guint\<close>, which
  \<open>scommand_length\<close> passes through an \<open>int\<close>). A negative number of blocks in the log header, which the code never stores, counts as none. \<open>uvmfirst\<close> does not test the result of \<open>kalloc\<close>, and neither does its model: without memory
  both write at address 0. The negation of the least \<open>int\<close> in \<open>printint\<close> wraps around, as the compiled code does.
  The lock that keeps messages of the kernel's \<open>printf\<close> apart is left out.

  \<^bold>\<open>Not modelled\<close>

  Traps, interrupt routing and boot (\<open>trap.c\<close> apart from its clock, \<open>plic.c\<close>, \<open>start.c\<close>, \<open>main.c\<close>, the assembly files) only move control
  registers and jump through assembly; the handlers they call are modelled. The disk driver (\<open>virtio_disk.c\<close>) talks to a
  device over shared rings; its contract, one block per transfer, is the step the buffer cache takes. \<open>mkfs\<close> runs on
  the build host. \<open>umalloc.c\<close> and the small user programs have no model. The course's telemetry (\<open>obfuscated.c\<close>) is
  obfuscated on purpose. Timing, memory ordering between harts below the atomic swap, and resource limits of the host are
  outside the model.
\<close>

end
